(* ===== verification/Prelude.thy ===== *)
theory Prelude
  imports Main "HOL-Library.Word" "HOL-Library.Monad_Syntax"
begin

unbundle bit_operations_syntax

section \<open>Prelude: machine integers, checked memory and shared lemmas\<close>

text \<open>
  The vocabulary every component theory of the development uses.

  \<^item> The C integer types are words of their width; \<open>size_t\<close> is 64 bit wide.
  \<^item> A C array or malloc block is the list of its cells.  Every access goes through
    \<open>mem_get\<close>, \<open>mem_set\<close>, \<open>mem_read\<close> or \<open>mem_write\<close>, which return \<open>None\<close> when the
    access leaves the block.  A function of the model that returns \<open>None\<close> is therefore a
    C function with undefined behaviour on that input, and a theorem that it returns
    \<open>Some\<close> is a memory safety theorem.
  \<^item> \<open>word_nat\<close> collects the rules that turn bit operations on words into \<open>div\<close>,
    \<open>mod\<close> and \<open>+\<close> on \<open>nat\<close>, where linear arithmetic decides.
\<close>

named_theorems word_nat \<open>bit operations on words as arithmetic on nat\<close>
named_theorems mem_simps \<open>evaluation of checked memory accesses\<close>

type_synonym u8 = "8 word"
type_synonym u16 = "16 word"
type_synonym u32 = "32 word"
type_synonym u64 = "64 word"

subsection \<open>Checked memory\<close>

definition mem_get :: "'a list \<Rightarrow> nat \<Rightarrow> 'a option" where
  "mem_get m i = (if i < length m then Some (m ! i) else None)"

definition mem_set :: "'a list \<Rightarrow> nat \<Rightarrow> 'a \<Rightarrow> 'a list option" where
  "mem_set m i x = (if i < length m then Some (m[i := x]) else None)"

definition mem_read :: "'a list \<Rightarrow> nat \<Rightarrow> nat \<Rightarrow> 'a list option" where
  "mem_read m i n = (if i + n \<le> length m then Some (take n (drop i m)) else None)"

definition mem_write :: "'a list \<Rightarrow> nat \<Rightarrow> 'a list \<Rightarrow> 'a list option" where
  "mem_write m i xs =
     (if i + length xs \<le> length m then Some (take i m @ xs @ drop (i + length xs) m) else None)"

lemma mem_get_in [mem_simps]: "i < length m \<Longrightarrow> mem_get m i = Some (m ! i)"
  by (simp add: mem_get_def)

lemma mem_get_out [mem_simps]: "length m \<le> i \<Longrightarrow> mem_get m i = None"
  by (simp add: mem_get_def)

lemma mem_get_Some_iff: "mem_get m i = Some x \<longleftrightarrow> i < length m \<and> m ! i = x"
  by (auto simp: mem_get_def)

lemma mem_get_Cons_0 [mem_simps]: "mem_get (x # m) 0 = Some x"
  by (simp add: mem_get_def)

lemma mem_get_Cons_Suc [mem_simps]: "mem_get (x # m) (Suc i) = mem_get m i"
  by (simp add: mem_get_def)

lemma mem_get_append_right: "length xs \<le> i \<Longrightarrow> mem_get (xs @ ys) i = mem_get ys (i - length xs)"
  by (auto simp: mem_get_def nth_append)

lemma mem_get_append_left: "i < length xs \<Longrightarrow> mem_get (xs @ ys) i = mem_get xs i"
  by (auto simp: mem_get_def nth_append)

lemma mem_get_append_add [mem_simps]: "mem_get (xs @ ys) (length xs + i) = mem_get ys i"
  by (simp add: mem_get_append_right)

lemma mem_get_drop: "mem_get (drop n m) i = mem_get m (n + i)"
  by (cases "n \<le> length m") (auto simp: mem_get_def)

lemma mem_set_in [mem_simps]: "i < length m \<Longrightarrow> mem_set m i x = Some (m[i := x])"
  by (simp add: mem_set_def)

lemma mem_set_Some_iff: "mem_set m i x = Some m' \<longleftrightarrow> i < length m \<and> m' = m[i := x]"
  by (auto simp: mem_set_def)

lemma mem_set_length: "mem_set m i x = Some m' \<Longrightarrow> length m' = length m"
  by (auto simp: mem_set_def split: if_splits)

lemma mem_read_in [mem_simps]: "i + n \<le> length m \<Longrightarrow> mem_read m i n = Some (take n (drop i m))"
  by (simp add: mem_read_def)

lemma mem_read_length: "mem_read m i n = Some xs \<Longrightarrow> length xs = n"
  by (auto simp: mem_read_def split: if_splits)

lemma mem_write_in [mem_simps]:
  "i + length xs \<le> length m \<Longrightarrow>
     mem_write m i xs = Some (take i m @ xs @ drop (i + length xs) m)"
  by (simp add: mem_write_def)

lemma mem_write_length: "mem_write m i xs = Some m' \<Longrightarrow> length m' = length m"
  by (auto simp: mem_write_def split: if_splits)

lemma mem_write_one: "mem_write m i [x] = mem_set m i x"
  by (auto simp: mem_write_def mem_set_def upd_conv_take_nth_drop)

text \<open>A write of a prefix, then of the cell after it, is a write of the longer prefix.\<close>

lemma list_update_after_prefix:
  "length xs < length m \<Longrightarrow>
     (xs @ drop (length xs) m)[length xs := x] = (xs @ [x]) @ drop (Suc (length xs)) m"
  by (metis Cons_nth_drop_Suc append.assoc append_Cons append_Nil list_update_length)

lemma list_update_prefix_drop:
  assumes "length xs = n" "n < length m"
  shows "(xs @ drop n m)[n := x] = xs @ x # drop (Suc n) m"
  using list_update_after_prefix [of xs m x] assms by simp

subsection \<open>Words\<close>

lemma unat_drop_bit [word_nat]: "unat (drop_bit n w) = unat w div 2 ^ n"
  by (simp only: unat_drop_bit_eq, simp add: drop_bit_eq_div)

lemma unat_take_bit [word_nat]: "unat (take_bit n w) = unat w mod 2 ^ n"
  by (simp only: unsigned_take_bit_eq, simp add: take_bit_eq_mod)

lemma unat_and_mask [word_nat]: "unat (w AND mask n) = unat w mod 2 ^ n"
  by (simp flip: take_bit_eq_mask add: unat_take_bit)

lemma and_numeral_mask: "m = mask n \<Longrightarrow> w AND m = take_bit n w"
  by (simp add: take_bit_eq_mask)

lemma or_eq_plus_disjoint:
  fixes a b :: "'a::len word"
  assumes "take_bit n b = 0" "drop_bit n a = 0"
  shows "a OR b = a + b"
proof -
  have "\<not> bit a k \<or> \<not> bit b k" for k
  proof (cases "k < n")
    case True
    have "\<not> bit (take_bit n b) k" by (simp add: assms(1))
    with True show ?thesis by (simp add: bit_take_bit_iff)
  next
    case False
    have "\<not> bit (drop_bit n a) (k - n)" by (simp add: assms(2))
    with False show ?thesis by (simp add: bit_drop_bit_eq)
  qed
  then show ?thesis
    by (intro disjunctive_add [symmetric]) auto
qed

text \<open>The form in which the code uses it: a small value is or-ed under a constant tag.\<close>

lemma unat_or_tag:
  fixes a t :: "'a::len word"
  assumes "unat a < 2 ^ n" "2 ^ n dvd unat t" "unat a + unat t < 2 ^ LENGTH('a)"
  shows "unat (a OR t) = unat a + unat t"
proof -
  have "take_bit n t = 0"
    using assms(2) by (metis dvd_imp_mod_0 unat_eq_zero unat_take_bit)
  moreover have "drop_bit n a = 0"
    using assms(1) by (metis div_less unat_drop_bit unat_eq_zero)
  ultimately have "a OR t = a + t"
    by (rule or_eq_plus_disjoint)
  then show ?thesis
    using assms(3) by (simp add: unat_word_ariths)
qed

lemma unat_plus_small:
  fixes a b :: "'a::len word"
  shows "unat a + unat b < 2 ^ LENGTH('a) \<Longrightarrow> unat (a + b) = unat a + unat b"
  by (simp add: unat_word_ariths)

lemma unat_mult_small:
  fixes a b :: "'a::len word"
  shows "unat a * unat b < 2 ^ LENGTH('a) \<Longrightarrow> unat (a * b) = unat a * unat b"
  by (simp add: unat_word_ariths)

lemma unat_minus_small:
  fixes a b :: "'a::len word"
  shows "b \<le> a \<Longrightarrow> unat (a - b) = unat a - unat b"
  by (simp add: unat_sub)

lemma unat_u8_less [simp]: "unat (w :: u8) < 256"
  using unsigned_less [of w] by simp

lemma unat_u16_less [simp]: "unat (w :: u16) < 65536"
  using unsigned_less [of w] by simp

lemma unat_u32_less [simp]: "unat (w :: u32) < 4294967296"
  using unsigned_less [of w] by simp

lemma unat_u64_less [simp]: "unat (w :: u64) < 18446744073709551616"
  using unsigned_less [of w] by simp

lemma word_eq_unatI: "unat a = unat b \<Longrightarrow> a = b"
  by (simp add: word_unat_eq_iff)

subsection \<open>Lists\<close>

lemma take_add_drop: "take (a + b) xs = take a xs @ take b (drop a xs)"
  by (simp add: take_add)

lemma take_min_length [simp]:
  "take (min n (length xs)) xs = take n xs" "take (min (length xs) n) xs = take n xs"
  by (simp_all add: min_def)

lemma length_2_obtain:
  assumes "length xs = 2"
  obtains x y where "xs = [x, y]"
  using assms by (auto simp: numeral_2_eq_2 length_Suc_conv)

lemma nth_take_while_neq: "i < length (takeWhile P xs) \<Longrightarrow> P (xs ! i)"
  by (metis nth_mem set_takeWhileD takeWhile_nth)

end
