(* ===== verification/Cstring.thy ===== *)
theory Cstring
  imports Prelude "HOL-Library.Sublist"
begin

section \<open>C strings: js__pstrcpy, js__pstrcat, js__strstart, js__has_suffix\<close>

text \<open>
  The four string helpers at the head of src/quickjs/cutils.c.  A string argument is the
  memory block it points into, from the pointer to the end of the block; the string itself is
  the part before the first zero byte (\<open>cstr\<close>).  A block without a zero byte is no C string:
  a function that runs off its end returns \<open>None\<close>.
\<close>

definition cstr :: "u8 list \<Rightarrow> u8 list" where
  "cstr m = takeWhile (\<lambda>c. c \<noteq> 0) m"

definition terminated :: "u8 list \<Rightarrow> bool" where
  "terminated m \<longleftrightarrow> 0 \<in> set m"

definition strlen :: "u8 list \<Rightarrow> nat option" where
  "strlen m = (if terminated m then Some (length (cstr m)) else None)"

subsection \<open>Operations\<close>

text \<open>
  The loop of \<open>js__pstrcpy\<close>: \<open>q\<close> is the write position and \<open>lim\<close> is
  \<open>buf + buf_size - 1\<close>; the source pointer is the rest of the source block.
\<close>

fun pstrcpy_loop :: "u8 list \<Rightarrow> nat \<Rightarrow> nat \<Rightarrow> u8 list \<Rightarrow> u8 list option" where
  "pstrcpy_loop buf q lim [] = None"
| "pstrcpy_loop buf q lim (c # str) =
     (if c = 0 \<or> lim \<le> q then mem_set buf q 0
      else do { buf' \<leftarrow> mem_set buf q c; pstrcpy_loop buf' (Suc q) lim str })"

definition js__pstrcpy :: "u8 list \<Rightarrow> nat \<Rightarrow> int \<Rightarrow> u8 list \<Rightarrow> u8 list option" where
  "js__pstrcpy buf off buf_size str =
     (if buf_size \<le> 0 then Some buf
      else pstrcpy_loop buf off (off + nat (buf_size - 1)) str)"

text \<open>
  \<open>len\<close> is an \<open>int\<close>: \<open>strlen\<close> is narrowed to 32 bits, and a negative result would point
  before the buffer.
\<close>

definition js__pstrcat :: "u8 list \<Rightarrow> int \<Rightarrow> u8 list \<Rightarrow> u8 list option" where
  "js__pstrcat buf buf_size s = do {
     n \<leftarrow> strlen buf;
     let len = sint (word_of_nat n :: u32);
     if len < buf_size
     then (if len < 0 then None else js__pstrcpy buf (nat len) (buf_size - len) s)
     else Some buf }"

text \<open>
  The result of \<open>js__strstart\<close> is \<open>None\<close> for a return value of 0 and
  \<open>Some rest\<close> for 1, with \<open>rest\<close> the pointer stored through \<open>ptr\<close>.
\<close>

fun js__strstart :: "u8 list \<Rightarrow> u8 list \<Rightarrow> u8 list option option" where
  "js__strstart p [] = None"
| "js__strstart p (q # qs) =
     (if q = 0 then Some (Some p)
      else case p of [] \<Rightarrow> None
           | c # ps \<Rightarrow> if c \<noteq> q then Some None else js__strstart ps qs)"

definition js__has_suffix :: "u8 list \<Rightarrow> u8 list \<Rightarrow> bool option" where
  "js__has_suffix str suf = do {
     len \<leftarrow> strlen str;
     slen \<leftarrow> strlen suf;
     if slen \<le> len
     then do { tl \<leftarrow> mem_read str (len - slen) slen;
               su \<leftarrow> mem_read suf 0 slen;
               Some (tl = su) }
     else Some False }"

subsection \<open>Lemmas\<close>

lemma cstr_Nil [simp]: "cstr [] = []"
  and cstr_Cons [simp]: "cstr (c # m) = (if c = 0 then [] else c # cstr m)"
  by (simp_all add: cstr_def)

lemma terminated_Nil [simp]: "\<not> terminated []"
  and terminated_Cons [simp]: "terminated (c # m) \<longleftrightarrow> c = 0 \<or> terminated m"
  by (auto simp: terminated_def)

lemma cstr_append_zero: "0 \<notin> set xs \<Longrightarrow> cstr (xs @ 0 # ys) = xs"
  by (induction xs) auto

lemma cstr_append: "0 \<notin> set xs \<Longrightarrow> cstr (xs @ ys) = xs @ cstr ys"
  by (induction xs) auto

lemma terminated_append_zero [simp]: "terminated (xs @ 0 # ys)"
  by (simp add: terminated_def)

lemma zero_notin_cstr [simp]: "0 \<notin> set (cstr m)"
  by (induction m) auto

lemma terminated_split: "terminated m \<Longrightarrow> \<exists>ys. m = cstr m @ 0 # ys"
  by (induction m) auto

lemma cstr_length_less: "terminated m \<Longrightarrow> length (cstr m) < length m"
  by (induction m) auto

lemma cstr_length_le: "length (cstr m) \<le> length m"
  by (induction m) auto

lemma cstr_take: "take (length (cstr m)) m = cstr m"
  by (induction m) auto

lemma pstrcpy_loop_eq:
  assumes "terminated str" "q \<le> lim" "lim < length buf"
  shows "pstrcpy_loop buf q lim str =
           Some (take q buf @ take (lim - q) (cstr str) @ 0 #
                 drop (Suc (q + min (lim - q) (length (cstr str)))) buf)"
  using assms
proof (induction buf q lim str rule: pstrcpy_loop.induct)
  case (1 buf q lim)
  then show ?case by simp
next
  case (2 buf q lim c str)
  show ?case
  proof (cases "c = 0 \<or> lim \<le> q")
    case True
    with 2 show ?thesis
      by (auto simp: mem_simps upd_conv_take_nth_drop)
  next
    case False
    then obtain d where d: "lim - q = Suc d" "lim - Suc q = d"
      by (metis Suc_diff_Suc not_le diff_Suc_Suc)
    have "take (Suc q) (buf[q := c]) = take q buf @ [c]"
      using 2 False by (simp add: take_Suc_conv_app_nth)
    with 2 False show ?thesis
      by (simp add: mem_simps d)
  qed
qed

lemma js__pstrcpy_eq:
  assumes "terminated str" "0 < buf_size" "off + nat buf_size \<le> length buf"
  shows "js__pstrcpy buf off buf_size str =
           Some (take off buf @ take (nat buf_size - 1) (cstr str) @ 0 #
                 drop (Suc (off + min (nat buf_size - 1) (length (cstr str)))) buf)"
  using assms by (auto simp: js__pstrcpy_def pstrcpy_loop_eq nat_diff_distrib)

lemma strlen_terminated: "terminated m \<Longrightarrow> strlen m = Some (length (cstr m))"
  by (simp add: strlen_def)

lemma sint_of_small_nat: "n < 2 ^ 31 \<Longrightarrow> sint (word_of_nat n :: u32) = int n"
  by (simp add: sint_uint unsigned_of_nat signed_take_bit_int_eq_self take_bit_nat_eq_self
      signed_take_bit_int_eq_self_iff)


lemma suffix_iff_drop:
  "suffix xs ys \<longleftrightarrow> length xs \<le> length ys \<and> drop (length ys - length xs) ys = xs"
proof
  assume "length xs \<le> length ys \<and> drop (length ys - length xs) ys = xs"
  then show "suffix xs ys" by (metis suffix_drop)
qed (auto simp: suffix_def)

text \<open>What \<open>js__pstrcpy\<close> leaves in the buffer, as the caller sees it.\<close>

lemma js__pstrcpy_result:
  assumes "terminated str" "0 < buf_size" "off + nat buf_size \<le> length buf"
    and "js__pstrcpy buf off buf_size str = Some buf'"
  shows "length buf' = length buf" "take off buf' = take off buf"
    "drop (off + nat buf_size) buf' = drop (off + nat buf_size) buf"
    "cstr (drop off buf') = take (nat buf_size - 1) (cstr str)"
    "terminated (drop off buf')"
proof -
  define n where "n = min (nat buf_size - 1) (length (cstr str))"
  have off: "off \<le> length buf" and n: "n < nat buf_size"
    using assms(2,3) by (auto simp: n_def)
  have eq: "buf' = take off buf @ take n (cstr str) @ 0 # drop (Suc (off + n)) buf"
    using assms(4) js__pstrcpy_eq [OF assms(1-3)] by (simp add: n_def)
  have len: "length (take n (cstr str)) = n"
    by (simp add: n_def)
  show "length buf' = length buf"
    unfolding eq using off n assms(3) len by simp
  show "take off buf' = take off buf"
    unfolding eq using off by simp
  have "drop off buf' = take n (cstr str) @ 0 # drop (Suc (off + n)) buf"
    unfolding eq using off by simp
  moreover have "0 \<notin> set (take n (cstr str))"
    by (meson in_set_takeD zero_notin_cstr)
  ultimately show "cstr (drop off buf') = take (nat buf_size - 1) (cstr str)"
    and "terminated (drop off buf')"
    by (simp_all add: cstr_append_zero n_def min_def)
  show "drop (off + nat buf_size) buf' = drop (off + nat buf_size) buf"
  proof -
    obtain k where k: "nat buf_size = Suc (n + k)"
      using n less_iff_Suc_add by auto
    show ?thesis
      unfolding eq k using off len by (simp add: algebra_simps)
  qed
qed

lemma js__pstrcpy_defined:
  "\<lbrakk>terminated str; 0 < buf_size; off + nat buf_size \<le> length buf\<rbrakk>
     \<Longrightarrow> \<exists>buf'. js__pstrcpy buf off buf_size str = Some buf'"
  by (simp add: js__pstrcpy_eq)

lemma js__strstart_eq:
  "\<lbrakk>terminated str; terminated val\<rbrakk> \<Longrightarrow>
     js__strstart str val =
       Some (if prefix (cstr val) (cstr str) then Some (drop (length (cstr val)) str) else None)"
  by (induction str val rule: js__strstart.induct) (auto split: list.splits)

lemma js__has_suffix_eq:
  assumes "terminated str" "terminated suf"
  shows "js__has_suffix str suf = Some (suffix (cstr suf) (cstr str))"
proof (cases "length (cstr suf) \<le> length (cstr str)")
  case True
  let ?l = "length (cstr suf)" and ?k = "length (cstr str) - length (cstr suf)"
  obtain ys zs where str: "str = cstr str @ 0 # ys" and suf: "suf = cstr suf @ 0 # zs"
    using assms terminated_split by blast
  have "mem_read (cstr str @ 0 # ys) ?k ?l = Some (drop ?k (cstr str))"
    using True by (simp add: mem_read_def)
  moreover have "mem_read (cstr suf @ 0 # zs) 0 ?l = Some (cstr suf)"
    by (simp add: mem_read_def)
  ultimately show ?thesis
    using assms True str suf
    by (simp add: js__has_suffix_def strlen_terminated suffix_iff_drop)
next
  case False
  with assms show ?thesis
    by (simp add: js__has_suffix_def strlen_terminated suffix_iff_drop)
qed

subsection \<open>Properties\<close>

lemma js__pstrcat_eq:
  assumes "terminated buf" "length (cstr buf) < 2 ^ 31"
  shows "js__pstrcat buf buf_size s =
    (if int (length (cstr buf)) < buf_size
     then js__pstrcpy buf (length (cstr buf)) (buf_size - int (length (cstr buf))) s
     else Some buf)"
  using assms by (simp add: js__pstrcat_def strlen_terminated sint_of_small_nat Let_def)

text \<open>
  \<open>js__pstrcat\<close> appends with truncation: it never writes outside the first
  \<open>buf_size\<close> bytes, the result is always zero terminated inside them, and the string is the
  longest prefix of the concatenation that fits.
\<close>

theorem js__pstrcat_truncates:
  assumes "terminated buf" "terminated s" "length (cstr buf) < 2 ^ 31"
    and "int (length (cstr buf)) < buf_size" "nat buf_size \<le> length buf"
  shows "\<exists>buf'. js__pstrcat buf buf_size s = Some buf' \<and> length buf' = length buf \<and>
    cstr buf' = take (nat buf_size - 1) (cstr buf @ cstr s) \<and> terminated buf' \<and>
    drop (nat buf_size) buf' = drop (nat buf_size) buf"
proof -
  let ?n = "length (cstr buf)" and ?k = "buf_size - int (length (cstr buf))"
  have k: "0 < ?k" "?n + nat ?k = nat buf_size" "?n + nat ?k \<le> length buf"
    using assms(4,5) by auto
  obtain buf' where buf': "js__pstrcpy buf ?n ?k s = Some buf'"
    using js__pstrcpy_defined [OF assms(2) k(1,3)] by blast
  note r = js__pstrcpy_result [OF assms(2) k(1,3) buf']
  have split: "buf' = cstr buf @ drop ?n buf'"
    using r(2) cstr_take by (metis append_take_drop_id)
  have "cstr (cstr buf @ drop ?n buf') = cstr buf @ cstr (drop ?n buf')"
    by (rule cstr_append) simp
  then have "cstr buf' = cstr buf @ take (nat ?k - 1) (cstr s)"
    using split r(4) by simp
  also have "\<dots> = take (nat buf_size - 1) (cstr buf @ cstr s)"
    using k(1,2) by (simp add: nat_diff_distrib)
  finally have "cstr buf' = take (nat buf_size - 1) (cstr buf @ cstr s)" .
  moreover have "terminated buf'"
    using r(5) by (metis in_set_dropD terminated_def)
  ultimately show ?thesis
    using assms buf' r(1,3) k(2) by (auto simp: js__pstrcat_eq)
qed

lemma js__pstrcat_truncates_witness:
  "\<exists>buf'. js__pstrcat [97, 98, 0, 7, 7, 9] 5 [99, 100, 101, 0] = Some buf' \<and>
     cstr buf' = [97, 98, 99, 100] \<and> drop 5 buf' = [9]"
  using js__pstrcat_truncates [of "[97, 98, 0, 7, 7, 9]" "[99, 100, 101, 0]" 5]
  by auto

end
