(* ===== verification/Bytes.thy ===== *)
theory Bytes
  imports Prelude
begin

section \<open>Byte access, byte swapping and small helpers of cutils.h\<close>

text \<open>
  The inline helpers of src/quickjs/headers/breeze-js/cutils.h.  \<open>get_uN\<close> and \<open>put_uN\<close> copy
  an integer from or to memory with \<open>memcpy\<close>, in the byte order of the machine, which is the
  first argument \<open>be\<close> of the model (\<open>is_be ()\<close> of the source).  A pointer \<open>tab\<close> is a block and an offset
  into it.
\<close>

subsection \<open>Object representation\<close>

definition le_bytes :: "nat \<Rightarrow> 'a::len word \<Rightarrow> u8 list" where
  "le_bytes n v = map (\<lambda>i. ucast (drop_bit (8 * i) v)) [0..<n]"

primrec le_val :: "u8 list \<Rightarrow> nat" where
  "le_val [] = 0"
| "le_val (b # bs) = unat b + 256 * le_val bs"

definition obj_bytes :: "bool \<Rightarrow> nat \<Rightarrow> 'a::len word \<Rightarrow> u8 list" where
  "obj_bytes be n v = (if be then rev (le_bytes n v) else le_bytes n v)"

definition obj_val :: "bool \<Rightarrow> u8 list \<Rightarrow> nat" where
  "obj_val be bs = (if be then le_val (rev bs) else le_val bs)"

lemma le_bytes_0 [simp]: "le_bytes 0 v = []"
  and length_le_bytes [simp]: "length (le_bytes n v) = n"
  by (simp_all add: le_bytes_def)

lemma le_bytes_Suc: "le_bytes (Suc n) v = ucast v # le_bytes n (drop_bit 8 v)"
  by (simp add: le_bytes_def upt_conv_Cons map_Suc_upt [symmetric] del: upt_Suc)
     (simp add: add.commute drop_bit_drop_bit)

lemma nth_le_bytes: "i < n \<Longrightarrow> le_bytes n v ! i = ucast (drop_bit (8 * i) v)"
  by (simp add: le_bytes_def)

lemma length_obj_bytes [simp]: "length (obj_bytes be n v) = n"
  by (simp add: obj_bytes_def)

lemma unat_ucast_u8: "unat (ucast (v :: 'a::len word) :: u8) = unat v mod 256"
  by (simp add: unsigned_ucast_eq take_bit_eq_mod)

lemma le_val_le_bytes: "le_val (le_bytes n v) = unat v mod 256 ^ n"
proof (induction n arbitrary: v)
  case (Suc n)
  have "unat (drop_bit 8 v) = unat v div 256"
    by (simp add: unat_drop_bit)
  then show ?case
    using Suc by (simp add: le_bytes_Suc unat_ucast_u8 mod_mult2_eq)
qed simp

lemma obj_val_obj_bytes: "obj_val be (obj_bytes be n v) = unat v mod 256 ^ n"
  by (simp add: obj_val_def obj_bytes_def le_val_le_bytes)

subsection \<open>Machine order and unaligned access\<close>

text \<open>\<open>is_be\<close> reads the first byte of the 16-bit object \<open>0x100\<close>.\<close>

definition is_be :: "bool \<Rightarrow> u8" where
  "is_be be = obj_bytes be 2 (0x100 :: u16) ! 0"

definition get_u64 :: "bool \<Rightarrow> u8 list \<Rightarrow> nat \<Rightarrow> u64 option" where
  "get_u64 be tab i = map_option (\<lambda>bs. word_of_nat (obj_val be bs)) (mem_read tab i 8)"

definition get_i64 :: "bool \<Rightarrow> u8 list \<Rightarrow> nat \<Rightarrow> int option" where
  "get_i64 be tab i = map_option (\<lambda>bs. sint (word_of_nat (obj_val be bs) :: u64)) (mem_read tab i 8)"

definition put_u64 :: "bool \<Rightarrow> u8 list \<Rightarrow> nat \<Rightarrow> u64 \<Rightarrow> u8 list option" where
  "put_u64 be tab i val = mem_write tab i (obj_bytes be 8 val)"

definition get_u32 :: "bool \<Rightarrow> u8 list \<Rightarrow> nat \<Rightarrow> u32 option" where
  "get_u32 be tab i = map_option (\<lambda>bs. word_of_nat (obj_val be bs)) (mem_read tab i 4)"

definition get_i32 :: "bool \<Rightarrow> u8 list \<Rightarrow> nat \<Rightarrow> int option" where
  "get_i32 be tab i = map_option (\<lambda>bs. sint (word_of_nat (obj_val be bs) :: u32)) (mem_read tab i 4)"

definition put_u32 :: "bool \<Rightarrow> u8 list \<Rightarrow> nat \<Rightarrow> u32 \<Rightarrow> u8 list option" where
  "put_u32 be tab i val = mem_write tab i (obj_bytes be 4 val)"

text \<open>\<open>get_u16\<close> returns the 16-bit value widened to \<open>uint32_t\<close>.\<close>

definition get_u16 :: "bool \<Rightarrow> u8 list \<Rightarrow> nat \<Rightarrow> u32 option" where
  "get_u16 be tab i =
     map_option (\<lambda>bs. ucast (word_of_nat (obj_val be bs) :: u16)) (mem_read tab i 2)"

definition get_i16 :: "bool \<Rightarrow> u8 list \<Rightarrow> nat \<Rightarrow> int option" where
  "get_i16 be tab i = map_option (\<lambda>bs. sint (word_of_nat (obj_val be bs) :: u16)) (mem_read tab i 2)"

definition put_u16 :: "bool \<Rightarrow> u8 list \<Rightarrow> nat \<Rightarrow> u16 \<Rightarrow> u8 list option" where
  "put_u16 be tab i val = mem_write tab i (obj_bytes be 2 val)"

definition get_u8 :: "u8 list \<Rightarrow> nat \<Rightarrow> u32 option" where
  "get_u8 tab i = map_option ucast (mem_get tab i)"

definition get_i8 :: "u8 list \<Rightarrow> nat \<Rightarrow> int option" where
  "get_i8 tab i = map_option sint (mem_get tab i)"

definition put_u8 :: "u8 list \<Rightarrow> nat \<Rightarrow> u8 \<Rightarrow> u8 list option" where
  "put_u8 tab i val = mem_set tab i val"

subsection \<open>Byte swapping\<close>

definition bswap16 :: "u16 \<Rightarrow> u16" where
  "bswap16 x = drop_bit 8 x OR push_bit 8 x"

definition bswap32 :: "u32 \<Rightarrow> u32" where
  "bswap32 v = drop_bit 24 (v AND 0xff000000) OR drop_bit 8 (v AND 0x00ff0000) OR
     push_bit 8 (v AND 0x0000ff00) OR push_bit 24 (v AND 0x000000ff)"

definition bswap64 :: "u64 \<Rightarrow> u64" where
  "bswap64 v =
     drop_bit (7 * 8) (v AND push_bit (7 * 8) 0xff) OR
     drop_bit (5 * 8) (v AND push_bit (6 * 8) 0xff) OR
     drop_bit (3 * 8) (v AND push_bit (5 * 8) 0xff) OR
     drop_bit (1 * 8) (v AND push_bit (4 * 8) 0xff) OR
     push_bit (1 * 8) (v AND push_bit (3 * 8) 0xff) OR
     push_bit (3 * 8) (v AND push_bit (2 * 8) 0xff) OR
     push_bit (5 * 8) (v AND push_bit (1 * 8) 0xff) OR
     push_bit (7 * 8) (v AND push_bit (0 * 8) 0xff)"

text \<open>\<open>put_u16\<close> narrows the \<open>uint32_t\<close> that \<open>get_u16\<close> returned before it is swapped.\<close>

definition inplace_bswap16 :: "bool \<Rightarrow> u8 list \<Rightarrow> nat \<Rightarrow> u8 list option" where
  "inplace_bswap16 be tab i = do { v \<leftarrow> get_u16 be tab i; put_u16 be tab i (bswap16 (ucast v)) }"

definition inplace_bswap32 :: "bool \<Rightarrow> u8 list \<Rightarrow> nat \<Rightarrow> u8 list option" where
  "inplace_bswap32 be tab i = do { v \<leftarrow> get_u32 be tab i; put_u32 be tab i (bswap32 v) }"

lemma byte_mask: "0xff = (mask 8 :: 'a::len word)"
  by (simp add: mask_eq_exp_minus_1)

lemma bswap32_masks:
  "(0xff000000 :: u32) = push_bit 24 (mask 8)"
  "(0x00ff0000 :: u32) = push_bit 16 (mask 8)"
  "(0x0000ff00 :: u32) = push_bit 8 (mask 8)"
  "(0x000000ff :: u32) = mask 8"
  by (simp_all add: mask_eq_exp_minus_1 push_bit_eq_mult)

lemma bswap64_masks: "(0xff :: u64) = mask 8"
  by (simp add: mask_eq_exp_minus_1)

lemma less_2_cases': "(i :: nat) < 2 \<Longrightarrow> i = 0 \<or> i = 1"
  and less_4_cases': "(i :: nat) < 4 \<Longrightarrow> i = 0 \<or> i = 1 \<or> i = 2 \<or> i = 3"
  and less_8_cases': "(i :: nat) < 8 \<Longrightarrow>
    i = 0 \<or> i = 1 \<or> i = 2 \<or> i = 3 \<or> i = 4 \<or> i = 5 \<or> i = 6 \<or> i = 7"
  by auto

lemma byte_bswap16:
  "i < 2 \<Longrightarrow> ucast (drop_bit (8 * i) (bswap16 v)) = (ucast (drop_bit (8 * (1 - i)) v) :: u8)"
  by (drule less_2_cases', elim disjE; rule bit_word_eqI)
     (auto simp: bswap16_def bit_simps dest: bit_imp_le_length)

lemma byte_bswap32:
  "i < 4 \<Longrightarrow> ucast (drop_bit (8 * i) (bswap32 v)) = (ucast (drop_bit (8 * (3 - i)) v) :: u8)"
  by (drule less_4_cases', elim disjE; rule bit_word_eqI)
     (auto simp: bswap32_def bswap32_masks bit_simps)

lemma byte_bswap64:
  "i < 8 \<Longrightarrow> ucast (drop_bit (8 * i) (bswap64 v)) = (ucast (drop_bit (8 * (7 - i)) v) :: u8)"
  by (drule less_8_cases', elim disjE; rule bit_word_eqI)
     (auto simp: bswap64_def bswap64_masks bit_simps)

text \<open>A swap reverses the object representation, so swapping twice is the identity.\<close>

lemma le_bytes_rev:
  assumes "\<And>i. i < n \<Longrightarrow> ucast (drop_bit (8 * i) w) = (ucast (drop_bit (8 * (n - 1 - i)) v) :: u8)"
  shows "le_bytes n w = rev (le_bytes n v)"
  by (rule nth_equalityI) (simp_all add: nth_le_bytes rev_nth assms)

lemma le_bytes_inject:
  fixes v w :: "'a::len word"
  assumes "le_bytes n v = le_bytes n w" "2 ^ LENGTH('a) \<le> (256::nat) ^ n"
  shows "v = w"
proof -
  have "unat v < 256 ^ n" "unat w < 256 ^ n"
    using assms(2) unsigned_less [of v] unsigned_less [of w] by (meson less_le_trans)+
  moreover have "unat v mod 256 ^ n = unat w mod 256 ^ n"
    using assms(1) by (metis le_val_le_bytes)
  ultimately show ?thesis
    by (simp add: word_unat_eq_iff)
qed

lemma le_bytes_bswap16: "le_bytes 2 (bswap16 v) = rev (le_bytes 2 v)"
  and le_bytes_bswap32: "le_bytes 4 (bswap32 w) = rev (le_bytes 4 w)"
  and le_bytes_bswap64: "le_bytes 8 (bswap64 x) = rev (le_bytes 8 x)"
  by (rule le_bytes_rev; simp add: byte_bswap16 byte_bswap32 byte_bswap64)+

lemmas le_bytes_bswap = le_bytes_bswap16 le_bytes_bswap32 le_bytes_bswap64

lemma bswap16_bswap16 [simp]: "bswap16 (bswap16 v) = v"
  by (rule le_bytes_inject [where n = 2]) (simp_all add: le_bytes_bswap)

lemma bswap32_bswap32 [simp]: "bswap32 (bswap32 v) = v"
  by (rule le_bytes_inject [where n = 4]) (simp_all add: le_bytes_bswap)

lemma bswap64_bswap64 [simp]: "bswap64 (bswap64 v) = v"
  by (rule le_bytes_inject [where n = 8]) (simp_all add: le_bytes_bswap)

lemma obj_bytes_bswap:
  "obj_bytes be 2 (bswap16 v) = rev (obj_bytes be 2 v)"
  "obj_bytes be 4 (bswap32 w) = rev (obj_bytes be 4 w)"
  "obj_bytes be 8 (bswap64 x) = rev (obj_bytes be 8 x)"
  by (simp_all add: obj_bytes_def le_bytes_bswap)

lemma obj_bytes_not: "obj_bytes (\<not> be) n v = rev (obj_bytes be n v)"
  by (simp add: obj_bytes_def)

subsection \<open>What was put is read back\<close>

lemma mem_read_write_same:
  "mem_write tab i xs = Some tab' \<Longrightarrow> n = length xs \<Longrightarrow> mem_read tab' i n = Some xs"
  by (auto simp: mem_write_def mem_read_def split: if_splits)

lemma obj_val_obj_bytes_u64: "word_of_nat (obj_val be (obj_bytes be 8 v)) = (v :: u64)"
  and obj_val_obj_bytes_u32: "word_of_nat (obj_val be (obj_bytes be 4 w)) = (w :: u32)"
  and obj_val_obj_bytes_u16: "word_of_nat (obj_val be (obj_bytes be 2 x)) = (x :: u16)"
  by (simp_all add: obj_val_obj_bytes)

lemma get_put_u64: "put_u64 be tab i v = Some tab' \<Longrightarrow> get_u64 be tab' i = Some v"
  and get_put_u32: "put_u32 be tab i w = Some tab' \<Longrightarrow> get_u32 be tab' i = Some w"
  and get_put_u16: "put_u16 be tab i x = Some tab' \<Longrightarrow> get_u16 be tab' i = Some (ucast x)"
  by (auto simp: put_u64_def put_u32_def put_u16_def get_u64_def get_u32_def get_u16_def
      mem_read_write_same obj_val_obj_bytes_u64 obj_val_obj_bytes_u32 obj_val_obj_bytes_u16)

text \<open>The value \<open>get\<close> returns has the bytes it read as its representation.\<close>

lemma le_val_less: "le_val bs < 256 ^ length bs"
proof (induction bs)
  case (Cons b bs)
  have "unat b + 256 * le_val bs < 256 + 256 * le_val bs" by simp
  also have "\<dots> \<le> 256 * 256 ^ length bs" using Cons by simp
  finally show ?case by simp
qed simp

lemma le_val_inject: "length xs = length ys \<Longrightarrow> le_val xs = le_val ys \<Longrightarrow> xs = ys"
proof (induction xs ys rule: list_induct2)
  case (Cons x xs y ys)
  have "unat x + 256 * le_val xs = unat y + 256 * le_val ys"
    using Cons.prems by simp
  moreover from this have "unat x = unat y"
    by (metis mod_less mod_mult_self2 unat_u8_less)
  ultimately show ?case
    using Cons.IH by (simp add: word_unat_eq_iff)
qed simp

lemma le_bytes_word_of_nat:
  assumes "256 ^ length bs \<le> (2::nat) ^ LENGTH('a::len)"
  shows "le_bytes (length bs) (word_of_nat (le_val bs) :: 'a word) = bs"
proof (rule le_val_inject)
  have "le_val bs < 2 ^ LENGTH('a)"
    using assms le_val_less less_le_trans by blast
  then show "le_val (le_bytes (length bs) (word_of_nat (le_val bs) :: 'a word)) = le_val bs"
    by (simp add: le_val_le_bytes unsigned_of_nat take_bit_nat_eq_self le_val_less)
qed simp

lemma obj_bytes_word_of_nat:
  assumes "length bs = n" "256 ^ n \<le> (2::nat) ^ LENGTH('a::len)"
  shows "obj_bytes be n (word_of_nat (obj_val be bs) :: 'a word) = bs"
  using le_bytes_word_of_nat [of "rev bs", where 'a = 'a] le_bytes_word_of_nat [of bs, where 'a = 'a] assms
  by (auto simp: obj_bytes_def obj_val_def)

lemma is_be_True [simp]: "is_be True = 1"
  by code_simp

lemma is_be_False [simp]: "is_be False = 0"
  by code_simp

lemma inplace_bswap32_eq:
  "i + 4 \<le> length tab \<Longrightarrow>
     inplace_bswap32 be tab i = Some (take i tab @ rev (take 4 (drop i tab)) @ drop (i + 4) tab)"
  by (simp add: inplace_bswap32_def get_u32_def put_u32_def mem_simps obj_bytes_bswap
      obj_bytes_word_of_nat)

lemma ucast_u16_u32 [simp]: "ucast (ucast (x :: u16) :: u32) = x"
  by (rule bit_word_eqI) (simp add: bit_simps)

lemma inplace_bswap16_eq:
  "i + 2 \<le> length tab \<Longrightarrow>
     inplace_bswap16 be tab i = Some (take i tab @ rev (take 2 (drop i tab)) @ drop (i + 2) tab)"
  by (simp add: inplace_bswap16_def get_u16_def put_u16_def mem_simps obj_bytes_bswap
      obj_bytes_word_of_nat)

text \<open>
  Swapping in place reverses exactly the four bytes it is given, on a machine of either
  byte order, and touches nothing else; swapping twice restores the memory.
\<close>

theorem inplace_bswap32_involution:
  assumes "i + 4 \<le> length tab"
  shows "inplace_bswap32 be tab i = Some (take i tab @ rev (take 4 (drop i tab)) @ drop (i + 4) tab)
    \<and> (inplace_bswap32 be tab i \<bind> (\<lambda>tab'. inplace_bswap32 be tab' i)) = Some tab"
proof -
  let ?tab = "take i tab @ rev (take 4 (drop i tab)) @ drop (i + 4) tab"
  have tab: "take i tab @ take 4 (drop i tab) @ drop (i + 4) tab = tab"
    by (metis append_take_drop_id append.assoc take_add)
  have len: "length (rev (take 4 (drop i tab))) = 4" "length (take i tab) = i"
    using assms by auto
  have "inplace_bswap32 be ?tab i = Some tab"
    by (subst inplace_bswap32_eq) (use assms len tab in \<open>simp_all\<close>)
  then show ?thesis
    using assms by (simp add: inplace_bswap32_eq)
qed

lemma inplace_bswap32_involution_witness:
  "inplace_bswap32 False [9, 1, 2, 3, 4, 8] 1 = Some [9, 4, 3, 2, 1, 8]"
  using inplace_bswap32_involution [of 1 "[9, 1, 2, 3, 4, 8]" False] by simp

subsection \<open>Minimum, maximum, leading and trailing zeros\<close>

text \<open>The C \<open>int\<close> and \<open>int64_t\<close> versions compare the signed values, the \<open>uint32_t\<close> ones the unsigned.\<close>

definition max_int :: "int \<Rightarrow> int \<Rightarrow> int" where
  "max_int a b = (if a > b then a else b)"

definition min_int :: "int \<Rightarrow> int \<Rightarrow> int" where
  "min_int a b = (if a < b then a else b)"

definition max_uint32 :: "u32 \<Rightarrow> u32 \<Rightarrow> u32" where
  "max_uint32 a b = (if a > b then a else b)"

definition min_uint32 :: "u32 \<Rightarrow> u32 \<Rightarrow> u32" where
  "min_uint32 a b = (if a < b then a else b)"

definition max_int64 :: "int \<Rightarrow> int \<Rightarrow> int" where
  "max_int64 a b = (if a > b then a else b)"

definition min_int64 :: "int \<Rightarrow> int \<Rightarrow> int" where
  "min_int64 a b = (if a < b then a else b)"

lemma max_min_simps [simp]:
  "max_int i j = max i j" "min_int i j = min i j"
  "max_uint32 v w = max v w" "min_uint32 v w = min v w"
  "max_int64 i j = max i j" "min_int64 i j = min i j"
  by (auto simp: max_int_def min_int_def max_uint32_def min_uint32_def max_int64_def min_int64_def)

text \<open>
  \<open>bitlen n\<close> is the number of binary digits of \<open>n\<close>.  The compiler builtins behind \<open>clz\<close> and
  \<open>ctz\<close> are undefined at 0.
\<close>

fun bitlen :: "nat \<Rightarrow> nat" where
  "bitlen n = (if n = 0 then 0 else Suc (bitlen (n div 2)))"

declare bitlen.simps [simp del]

definition clz32 :: "u32 \<Rightarrow> nat option" where
  "clz32 a = (if a = 0 then None else Some (32 - bitlen (unat a)))"

definition clz64 :: "u64 \<Rightarrow> nat option" where
  "clz64 a = (if a = 0 then None else Some (64 - bitlen (unat a)))"

text \<open>The version for 32-bit MSVC, where the 64-bit scan is made of two 32-bit ones.\<close>

definition clz64_split :: "u64 \<Rightarrow> nat option" where
  "clz64_split a =
     (if drop_bit 32 a \<noteq> 0 then clz32 (ucast (drop_bit 32 a))
      else map_option (\<lambda>n. n + 32) (clz32 (ucast a)))"

fun ctz_nat :: "nat \<Rightarrow> nat" where
  "ctz_nat n = (if n = 0 \<or> odd n then 0 else Suc (ctz_nat (n div 2)))"

declare ctz_nat.simps [simp del]

definition ctz32 :: "u32 \<Rightarrow> nat option" where
  "ctz32 a = (if a = 0 then None else Some (ctz_nat (unat a)))"

definition ctz64 :: "u64 \<Rightarrow> nat option" where
  "ctz64 a = (if a = 0 then None else Some (ctz_nat (unat a)))"

lemma bitlen_0 [simp]: "bitlen 0 = 0"
  by (simp add: bitlen.simps)

lemma bitlen_pos: "0 < n \<Longrightarrow> bitlen n = Suc (bitlen (n div 2))"
  by (subst bitlen.simps) simp

lemma less_2_bitlen: "n < 2 ^ bitlen n"
proof (induction n rule: bitlen.induct)
  case (1 n)
  then show ?case
  proof (cases "n = 0")
    case False
    with 1 have "n div 2 < 2 ^ bitlen (n div 2)" by simp
    then have "n < 2 * 2 ^ bitlen (n div 2)" by linarith
    with False show ?thesis by (simp add: bitlen_pos)
  qed simp
qed

lemma bitlen_le_iff: "bitlen n \<le> k \<longleftrightarrow> n < 2 ^ k"
proof (induction k arbitrary: n)
  case 0
  show ?case by (cases "n = 0") (simp_all add: bitlen_pos)
next
  case (Suc k)
  have "n div 2 < 2 ^ k \<longleftrightarrow> n < 2 ^ Suc k" by (simp add: div_less_iff_less_mult mult.commute)
  with Suc show ?case
    by (cases "n = 0") (simp_all add: bitlen_pos)
qed

lemma bitlen_mult_pow: "0 < m \<Longrightarrow> bitlen (m * 2 ^ k) = bitlen m + k"
  by (induction k) (simp_all add: bitlen_pos mult.commute mult.left_commute)

lemma bitlen_div_pow: "bitlen (n div 2 ^ k) = bitlen n - k"
proof (induction k arbitrary: n)
  case (Suc k)
  have "n div 2 ^ Suc k = n div 2 div 2 ^ k"
    by (simp add: div_mult2_eq)
  with Suc show ?case
    by (cases "n = 0") (simp_all add: bitlen_pos)
qed simp

lemma clz64_split_eq: "clz64_split a = clz64 a"
proof -
  have d: "unat (drop_bit 32 a) = unat a div 4294967296"
    by (simp only: unat_drop_bit) simp
  have "unat a div 4294967296 < 4294967296"
    using unat_u64_less [of a] by linarith
  then have hi: "unat (ucast (drop_bit 32 a) :: u32) = unat a div 4294967296"
    by (simp only: unsigned_ucast_eq take_bit_eq_mod d) simp
  have z: "drop_bit 32 a = 0 \<longleftrightarrow> unat a < 4294967296"
    using d by (simp add: word_unat_eq_iff div_eq_0_iff)
  show ?thesis
  proof (cases "drop_bit 32 a = 0")
    case True
    then have lo: "unat (ucast a :: u32) = unat a"
      using z by (simp only: unsigned_ucast_eq take_bit_eq_mod) simp
    then have "ucast a = (0 :: u32) \<longleftrightarrow> a = 0"
      by (simp add: word_unat_eq_iff)
    moreover have "bitlen (unat a) \<le> 32"
      using True z by (simp add: bitlen_le_iff)
    ultimately show ?thesis
      using True lo by (simp add: clz64_split_def clz32_def clz64_def)
  next
    case False
    then have "ucast (drop_bit 32 a) \<noteq> (0 :: u32)" "a \<noteq> 0"
      using hi z False by (auto simp: word_unat_eq_iff div_eq_0_iff)
    moreover have "\<not> bitlen (unat a) \<le> 32"
      using False z by (simp add: bitlen_le_iff)
    moreover have "bitlen (unat a) \<le> 64"
      by (simp add: bitlen_le_iff)
    moreover have "bitlen (unat a div 4294967296) = bitlen (unat a) - 32"
      using bitlen_div_pow [of "unat a" 32] by simp
    ultimately show ?thesis
      using False hi by (simp add: clz64_split_def clz32_def clz64_def)
  qed
qed

subsection \<open>Hexadecimal digits and ASCII case\<close>

definition from_hex :: "int \<Rightarrow> int" where
  "from_hex c = (if 48 \<le> c \<and> c \<le> 57 then c - 48
     else if 65 \<le> c \<and> c \<le> 70 then c - 65 + 10
     else if 97 \<le> c \<and> c \<le> 102 then c - 97 + 10
     else -1)"

definition is_upper_ascii :: "u8 \<Rightarrow> bool" where
  "is_upper_ascii c \<longleftrightarrow> 65 \<le> c \<and> c \<le> 90"

definition to_upper_ascii :: "u8 \<Rightarrow> u8" where
  "to_upper_ascii c = (if 97 \<le> c \<and> c \<le> 122 then c - 97 + 65 else c)"

lemma from_hex_range: "-1 \<le> from_hex c \<and> from_hex c \<le> 15"
  by (auto simp: from_hex_def)

end
