(* ===== verification/Alloc.thy ===== *)
theory Alloc
  imports Prelude "HOL-Library.Multiset"
begin

section \<open>Memory accounting of the runtime: js_malloc_rt and its kin\<close>

text \<open>
  The allocation layer of src/quickjs/quickjs.c between the engine and the allocator the
  embedder supplies (\<open>JSMallocFunctions\<close>).  A live heap block is owned by the variable that
  holds its pointer, so a pointer is modelled by the block itself: its cells and the usable
  size the allocator reports for it.  \<open>None\<close> as a pointer is \<open>NULL\<close>.

  The supplied functions are code outside the repository: the record \<open>malloc_functions\<close>
  is a parameter, and the locale \<open>malloc_laws\<close> states what the C library documents of them.
  An outer \<open>None\<close> is a failed \<open>assert\<close>.
\<close>

record block =
  cells :: "u8 list"
  usable :: u64

definition pcells :: "block option \<Rightarrow> u8 list" where
  "pcells p = (case p of None \<Rightarrow> [] | Some b \<Rightarrow> cells b)"

lemma pcells_simps [simp]: "pcells None = []" "pcells (Some b) = cells b"
  by (simp_all add: pcells_def)

type_synonym 'h realloc_func = "'h \<Rightarrow> block option \<Rightarrow> u64 \<Rightarrow> ('h \<times> block option) option"

subsection \<open>State and operations\<close>

record 'o malloc_state =
  malloc_count :: u64
  malloc_size :: u64
  malloc_limit :: u64
  malloc_opaque :: 'o

record 'o malloc_functions =
  mf_calloc :: "'o \<Rightarrow> u64 \<Rightarrow> u64 \<Rightarrow> 'o \<times> block option"
  mf_malloc :: "'o \<Rightarrow> u64 \<Rightarrow> 'o \<times> block option"
  mf_free :: "'o \<Rightarrow> block \<Rightarrow> 'o"
  mf_realloc :: "'o \<Rightarrow> block option \<Rightarrow> u64 \<Rightarrow> 'o \<times> block option"
  mf_usable_size :: "block \<Rightarrow> u64"

definition malloc_overhead :: u64 where
  "malloc_overhead = 8"

definition js_malloc_usable_size_unknown :: "block \<Rightarrow> u64" where
  "js_malloc_usable_size_unknown ptr = 0"

definition js_calloc_rt ::
    "'o malloc_functions \<Rightarrow> 'o malloc_state \<Rightarrow> u64 \<Rightarrow> u64 \<Rightarrow> ('o malloc_state \<times> block option) option" where
  "js_calloc_rt mf s cnt sz =
     (if cnt = 0 \<or> sz = 0 then None
      else if cnt \<noteq> (cnt * sz) div sz then Some (s, None)
      else if malloc_size s + cnt * sz > malloc_limit s - 1 then Some (s, None)
      else case mf_calloc mf (malloc_opaque s) cnt sz of
        (o', None) \<Rightarrow> Some (s\<lparr>malloc_opaque := o'\<rparr>, None)
      | (o', Some ptr) \<Rightarrow>
          Some (s\<lparr>malloc_count := malloc_count s + 1,
                  malloc_size := malloc_size s + (mf_usable_size mf ptr + malloc_overhead),
                  malloc_opaque := o'\<rparr>, Some ptr))"

definition js_malloc_rt ::
    "'o malloc_functions \<Rightarrow> 'o malloc_state \<Rightarrow> u64 \<Rightarrow> ('o malloc_state \<times> block option) option" where
  "js_malloc_rt mf s sz =
     (if sz = 0 then None
      else if malloc_size s + sz > malloc_limit s - 1 then Some (s, None)
      else case mf_malloc mf (malloc_opaque s) sz of
        (o', None) \<Rightarrow> Some (s\<lparr>malloc_opaque := o'\<rparr>, None)
      | (o', Some ptr) \<Rightarrow>
          Some (s\<lparr>malloc_count := malloc_count s + 1,
                  malloc_size := malloc_size s + (mf_usable_size mf ptr + malloc_overhead),
                  malloc_opaque := o'\<rparr>, Some ptr))"

definition js_free_rt :: "'o malloc_functions \<Rightarrow> 'o malloc_state \<Rightarrow> block option \<Rightarrow> 'o malloc_state" where
  "js_free_rt mf s ptr =
     (case ptr of None \<Rightarrow> s
      | Some b \<Rightarrow> s\<lparr>malloc_count := malloc_count s - 1,
                   malloc_size := malloc_size s - (mf_usable_size mf b + malloc_overhead),
                   malloc_opaque := mf_free mf (malloc_opaque s) b\<rparr>)"

definition js_realloc_rt :: "'o malloc_functions \<Rightarrow> 'o malloc_state realloc_func" where
  "js_realloc_rt mf s ptr sz =
     (case ptr of
        None \<Rightarrow> if sz = 0 then Some (s, None) else js_malloc_rt mf s sz
      | Some b \<Rightarrow>
          if sz = 0 then Some (js_free_rt mf s ptr, None)
          else let old_size = mf_usable_size mf b in
            if malloc_size s + sz - old_size > malloc_limit s - 1 then Some (s, None)
            else case mf_realloc mf (malloc_opaque s) ptr sz of
              (o', None) \<Rightarrow> Some (s\<lparr>malloc_opaque := o'\<rparr>, None)
            | (o', Some q) \<Rightarrow>
                Some (s\<lparr>malloc_size := malloc_size s + (mf_usable_size mf q - old_size),
                        malloc_opaque := o'\<rparr>, Some q))"

definition js_dbuf_realloc :: "'o malloc_functions \<Rightarrow> 'o malloc_state realloc_func" where
  "js_dbuf_realloc mf s ptr sz = js_realloc_rt mf s ptr sz"

definition js_mallocz_rt ::
    "'o malloc_functions \<Rightarrow> 'o malloc_state \<Rightarrow> u64 \<Rightarrow> ('o malloc_state \<times> block option) option" where
  "js_mallocz_rt mf s sz = js_calloc_rt mf s 1 sz"

definition js_bf_realloc :: "'o malloc_functions \<Rightarrow> 'o malloc_state realloc_func" where
  "js_bf_realloc mf s ptr sz = js_realloc_rt mf s ptr sz"

definition JS_SetMemoryLimit :: "'o malloc_state \<Rightarrow> u64 \<Rightarrow> 'o malloc_state" where
  "JS_SetMemoryLimit s limit = s\<lparr>malloc_limit := limit\<rparr>"

text \<open>
  The malloc state \<open>JS_NewRuntime2\<close> sets up; \<open>rt\<close> is the block of the runtime itself.
\<close>

definition new_malloc_state :: "'o malloc_functions \<Rightarrow> 'o \<Rightarrow> block \<Rightarrow> 'o malloc_state" where
  "new_malloc_state mf opq rt =
     \<lparr>malloc_count = 0 + 1, malloc_size = 0 + (mf_usable_size mf rt + malloc_overhead),
      malloc_limit = 0, malloc_opaque = opq\<rparr>"

subsection \<open>The allocators\<close>

text \<open>
  What a client of a reallocation function relies on: a successful call returns a block of the
  size asked for, with the cells of the old block up to the smaller of the two sizes.
\<close>

locale allocator =
  fixes realloc_fn :: "'h realloc_func"
  assumes realloc_defined: "n \<noteq> 0 \<Longrightarrow> realloc_fn h p n \<noteq> None"
    and realloc_length: "n \<noteq> 0 \<Longrightarrow> realloc_fn h p n = Some (h', Some q) \<Longrightarrow> length (cells q) = unat n"
    and realloc_keeps: "n \<noteq> 0 \<Longrightarrow> realloc_fn h p n = Some (h', Some q) \<Longrightarrow>
      take (min (length (pcells p)) (unat n)) (cells q) = take (unat n) (pcells p)"
begin

lemma realloc_prefix:
  assumes "n \<noteq> 0" "realloc_fn h p n = Some (h', Some q)" "k \<le> length (pcells p)" "k \<le> unat n"
  shows "take k (cells q) = take k (pcells p)"
proof -
  have "take k (take (min (length (pcells p)) (unat n)) (cells q)) = take k (take (unat n) (pcells p))"
    using realloc_keeps [OF assms(1,2)] by simp
  moreover have "min k (min (length (pcells p)) (unat n)) = k" "min k (unat n) = k"
    using assms(3,4) by simp_all
  ultimately show ?thesis
    by (simp add: min.commute)
qed

end

locale malloc_laws =
  fixes mf :: "'o malloc_functions"
  assumes malloc_length: "n \<noteq> 0 \<Longrightarrow> mf_malloc mf s n = (s', Some b) \<Longrightarrow> length (cells b) = unat n"
    and mf_realloc_length: "n \<noteq> 0 \<Longrightarrow> mf_realloc mf s p n = (s', Some b) \<Longrightarrow> length (cells b) = unat n"
    and mf_realloc_keeps: "n \<noteq> 0 \<Longrightarrow> mf_realloc mf s p n = (s', Some b) \<Longrightarrow>
      take (min (length (pcells p)) (unat n)) (cells b) = take (unat n) (pcells p)"

sublocale malloc_laws \<subseteq> js_rt: allocator "js_dbuf_realloc mf"
proof (unfold_locales, goal_cases)
  case (1 n h p)
  then show ?case
    by (auto simp: js_dbuf_realloc_def js_realloc_rt_def js_malloc_rt_def Let_def
        split: option.splits prod.splits)
next
  case (2 n h p h' q)
  then show ?case
    by (auto simp: js_dbuf_realloc_def js_realloc_rt_def js_malloc_rt_def Let_def
        split: option.splits prod.splits if_splits
        dest: malloc_length mf_realloc_length)
next
  case (3 n h p h' q)
  then show ?case
    by (auto simp: js_dbuf_realloc_def js_realloc_rt_def js_malloc_rt_def Let_def
        split: option.splits prod.splits if_splits
        dest: mf_realloc_keeps)
qed

subsection \<open>The default functions\<close>

text \<open>
  \<open>def_malloc_funcs\<close> forwards to the C library.  The library heap is described by what it
  decides on its own: which requests it grants, the usable size it reports, and the
  indeterminate contents of fresh memory.
\<close>

record libc_heap =
  grants :: "u64 \<Rightarrow> bool"
  chunk_size :: "u64 \<Rightarrow> u64"
  fresh_byte :: u8

definition libc_malloc :: "libc_heap \<Rightarrow> u64 \<Rightarrow> libc_heap \<times> block option" where
  "libc_malloc h n =
     (h, if grants h n
         then Some \<lparr>cells = replicate (unat n) (fresh_byte h), usable = chunk_size h n\<rparr> else None)"

definition libc_calloc :: "libc_heap \<Rightarrow> u64 \<Rightarrow> u64 \<Rightarrow> libc_heap \<times> block option" where
  "libc_calloc h c n =
     (h, if unat c * unat n < 2 ^ 64 \<and> grants h (c * n)
         then Some \<lparr>cells = replicate (unat (c * n)) 0, usable = chunk_size h (c * n)\<rparr> else None)"

definition libc_realloc :: "libc_heap \<Rightarrow> block option \<Rightarrow> u64 \<Rightarrow> libc_heap \<times> block option" where
  "libc_realloc h p n =
     (h, if n \<noteq> 0 \<and> grants h n
         then Some \<lparr>cells = take (unat n) (pcells p) @
                       replicate (unat n - length (pcells p)) (fresh_byte h),
                    usable = chunk_size h n\<rparr> else None)"

definition js_def_calloc :: "libc_heap \<Rightarrow> u64 \<Rightarrow> u64 \<Rightarrow> libc_heap \<times> block option" where
  "js_def_calloc opq cnt sz = libc_calloc opq cnt sz"

definition js_def_malloc :: "libc_heap \<Rightarrow> u64 \<Rightarrow> libc_heap \<times> block option" where
  "js_def_malloc opq sz = libc_malloc opq sz"

definition js_def_free :: "libc_heap \<Rightarrow> block \<Rightarrow> libc_heap" where
  "js_def_free opq ptr = opq"

definition js_def_realloc :: "libc_heap \<Rightarrow> block option \<Rightarrow> u64 \<Rightarrow> libc_heap \<times> block option" where
  "js_def_realloc opq ptr sz = libc_realloc opq ptr sz"

definition def_malloc_funcs :: "libc_heap malloc_functions" where
  "def_malloc_funcs =
     \<lparr>mf_calloc = js_def_calloc, mf_malloc = js_def_malloc, mf_free = js_def_free,
      mf_realloc = js_def_realloc, mf_usable_size = usable\<rparr>"

lemma def_malloc_funcs_sel [simp]:
  "mf_calloc def_malloc_funcs = js_def_calloc" "mf_malloc def_malloc_funcs = js_def_malloc"
  "mf_free def_malloc_funcs = js_def_free" "mf_realloc def_malloc_funcs = js_def_realloc"
  "mf_usable_size def_malloc_funcs = usable"
  by (simp_all add: def_malloc_funcs_def)

interpretation def_malloc: malloc_laws def_malloc_funcs
  by unfold_locales
    (auto simp: js_def_malloc_def js_def_realloc_def libc_malloc_def libc_realloc_def
      split: if_splits)

subsection \<open>Accounting\<close>

text \<open>
  The live blocks of a runtime under any sequence of its allocator calls.  \<open>write\<close> is the
  owner of a block storing into it, which the allocator does not see.
\<close>

definition add_live :: "block option \<Rightarrow> block multiset \<Rightarrow> block multiset" where
  "add_live p bs = (case p of None \<Rightarrow> bs | Some b \<Rightarrow> add_mset b bs)"

inductive alloc_step ::
    "'o malloc_functions \<Rightarrow> 'o malloc_state \<times> block multiset \<Rightarrow> 'o malloc_state \<times> block multiset \<Rightarrow> bool"
  for mf where
  calloc: "js_calloc_rt mf s n sz = Some (s', p) \<Longrightarrow>
     alloc_step mf (s, bs) (s', add_live p bs)"
| malloc: "js_malloc_rt mf s sz = Some (s', p) \<Longrightarrow>
     alloc_step mf (s, bs) (s', add_live p bs)"
| free: "js_free_rt mf s (Some b) = s' \<Longrightarrow>
     alloc_step mf (s, add_mset b bs) (s', bs)"
| realloc_ok: "js_realloc_rt mf s (Some b) sz = Some (s', Some q) \<Longrightarrow>
     alloc_step mf (s, add_mset b bs) (s', add_mset q bs)"
| realloc_free: "js_realloc_rt mf s (Some b) 0 = Some (s', None) \<Longrightarrow>
     alloc_step mf (s, add_mset b bs) (s', bs)"
| realloc_fail: "sz \<noteq> 0 \<Longrightarrow> js_realloc_rt mf s (Some b) sz = Some (s', None) \<Longrightarrow>
     alloc_step mf (s, add_mset b bs) (s', add_mset b bs)"
| set_limit: "alloc_step mf (s, bs) (JS_SetMemoryLimit s limit, bs)"
| "write": "mf_usable_size mf (b\<lparr>cells := c\<rparr>) = mf_usable_size mf b \<Longrightarrow>
     alloc_step mf (s, add_mset b bs) (s, add_mset (b\<lparr>cells := c\<rparr>) bs)"

inductive alloc_reachable ::
    "'o malloc_functions \<Rightarrow> 'o \<Rightarrow> block \<Rightarrow> 'o malloc_state \<times> block multiset \<Rightarrow> bool"
  for mf opq rt where
  start: "alloc_reachable mf opq rt (new_malloc_state mf opq rt, {#rt#})"
| step: "alloc_reachable mf opq rt x \<Longrightarrow> alloc_step mf x y \<Longrightarrow> alloc_reachable mf opq rt y"

definition accounted :: "'o malloc_functions \<Rightarrow> 'o malloc_state \<times> block multiset \<Rightarrow> bool" where
  "accounted mf x \<longleftrightarrow>
     malloc_count (fst x) = word_of_nat (size (snd x)) \<and>
     malloc_size (fst x) = (\<Sum>b\<in>#snd x. mf_usable_size mf b + malloc_overhead)"

lemmas alloc_op_defs = add_live_def js_calloc_rt_def js_malloc_rt_def js_free_rt_def js_realloc_rt_def
  JS_SetMemoryLimit_def Let_def

lemma alloc_step_accounted: "alloc_step mf x y \<Longrightarrow> accounted mf x \<Longrightarrow> accounted mf y"
  by (induction rule: alloc_step.induct)
    (auto simp: accounted_def alloc_op_defs algebra_simps
      split: if_splits option.splits prod.splits)

lemma alloc_reachable_accounted: "alloc_reachable mf opq rt x \<Longrightarrow> accounted mf x"
proof (induction rule: alloc_reachable.induct)
  case start
  then show ?case by (simp add: accounted_def new_malloc_state_def)
next
  case (step x y)
  then show ?case by (blast intro: alloc_step_accounted)
qed

text \<open>A granted request respects the limit; a limit of 0 stands for none.\<close>

lemma js_malloc_rt_limit:
  assumes "js_malloc_rt mf s sz = Some (s', Some b)" "malloc_limit s \<noteq> 0"
  shows "malloc_size s + sz < malloc_limit s"
proof -
  have "malloc_size s + sz \<le> malloc_limit s - 1"
    using assms(1) by (auto simp: js_malloc_rt_def split: if_splits)
  moreover have "malloc_limit s - 1 < malloc_limit s"
    using assms(2) by (simp add: word_less_nat_alt unat_minus_one flip: unat_gt_0)
  ultimately show ?thesis by simp
qed

text \<open>
  C16.  Whatever sequence of allocations, reallocations and frees the engine performs, with any
  allocator and any limit, the runtime's counters describe exactly the blocks that are live:
  how many there are, and the sum of their usable sizes plus the per-block overhead.
\<close>

theorem malloc_accounting:
  assumes "alloc_reachable mf opq rt (s, bs)"
  shows "malloc_count s = word_of_nat (size bs) \<and>
    malloc_size s = (\<Sum>b\<in>#bs. mf_usable_size mf b + malloc_overhead)"
  using alloc_reachable_accounted [OF assms] by (simp add: accounted_def)

text \<open>The start state of a runtime and one allocation of 10 bytes on a heap of 16-byte chunks.\<close>

definition example_heap :: libc_heap where
  "example_heap = \<lparr>grants = (\<lambda>n. n \<le> 4096), chunk_size = (\<lambda>n. (n + 15) div 16 * 16), fresh_byte = 170\<rparr>"

lemma malloc_accounting_witness:
  "\<exists>s b. js_malloc_rt def_malloc_funcs
      (new_malloc_state def_malloc_funcs example_heap \<lparr>cells = [], usable = 64\<rparr>) 10 = Some (s, Some b) \<and>
    malloc_count s = 2 \<and> malloc_size s = 96"
proof -
  let ?rt = "\<lparr>cells = [], usable = 64\<rparr> :: block"
  let ?init = "new_malloc_state def_malloc_funcs example_heap ?rt"
  let ?b = "\<lparr>cells = replicate 10 170, usable = 16\<rparr> :: block"
  let ?s = "?init\<lparr>malloc_count := 2, malloc_size := 96\<rparr>"
  have m: "js_malloc_rt def_malloc_funcs ?init 10 = Some (?s, Some ?b)"
    by (simp add: js_malloc_rt_def new_malloc_state_def js_def_malloc_def libc_malloc_def
        example_heap_def malloc_overhead_def)
  have "alloc_reachable def_malloc_funcs example_heap ?rt (?s, add_live (Some ?b) {#?rt#})"
    by (rule alloc_reachable.step [OF alloc_reachable.start]) (rule alloc_step.malloc [OF m])
  from malloc_accounting [OF this] m show ?thesis by auto
qed

end
