(* ===== verification/Dynbuf.thy ===== *)
theory Dynbuf
  imports Alloc Bytes Cstring
begin

section \<open>DynBuf: the growable byte buffer\<close>

text \<open>
  The dynamic buffer of src/quickjs/cutils.c with its struct in cutils.h.  The result of an
  operation is the new buffer and the C return value, 0 or -1; \<open>None\<close> is an access outside
  the buffer's block.  The field \<open>db_opaque\<close> is the state behind the \<open>opaque\<close> pointer that
  is handed to the reallocation function; \<open>dbuf_free\<close> leaves it in place, since the
  allocator outlives the buffer.
\<close>

record 'h dynbuf =
  db_buf :: "block option"
  db_size :: u64
  db_allocated :: u64
  db_error :: bool
  db_realloc :: "'h realloc_func option"
  db_opaque :: 'h

type_synonym 'h dbuf_result = "('h dynbuf \<times> int) option"

subsection \<open>Operations\<close>

definition dbuf_default_realloc :: "libc_heap realloc_func" where
  "dbuf_default_realloc opq ptr sz = Some (libc_realloc opq ptr sz)"

definition dbuf_init2 :: "'h realloc_func \<Rightarrow> 'h \<Rightarrow> 'h realloc_func option \<Rightarrow> 'h dynbuf" where
  "dbuf_init2 dflt opq realloc_func =
     \<lparr>db_buf = None, db_size = 0, db_allocated = 0, db_error = False,
      db_realloc = Some (case realloc_func of None \<Rightarrow> dflt | Some f \<Rightarrow> f), db_opaque = opq\<rparr>"

definition dbuf_init :: "libc_heap \<Rightarrow> libc_heap dynbuf" where
  "dbuf_init h = dbuf_init2 dbuf_default_realloc h None"

definition dbuf_realloc :: "'h dynbuf \<Rightarrow> u64 \<Rightarrow> 'h dbuf_result" where
  "dbuf_realloc s new_size =
     (if new_size > db_allocated s
      then if db_error s then Some (s, -1)
        else let sz = db_allocated s * 3 div 2;
                 n = (if sz > new_size then sz else new_size)
          in do {
            f \<leftarrow> db_realloc s;
            (h, new_buf) \<leftarrow> f (db_opaque s) (db_buf s) n;
            case new_buf of
              None \<Rightarrow> Some (s\<lparr>db_error := True, db_opaque := h\<rparr>, -1)
            | Some b \<Rightarrow> Some (s\<lparr>db_buf := Some b, db_allocated := n, db_opaque := h\<rparr>, 0) }
      else Some (s, 0))"

text \<open>\<open>memcpy\<close> into the buffer; copying no bytes touches no cell.\<close>

definition dbuf_store :: "'h dynbuf \<Rightarrow> u64 \<Rightarrow> u8 list \<Rightarrow> 'h dynbuf option" where
  "dbuf_store s off dat =
     (if dat = [] then Some s
      else do { b \<leftarrow> db_buf s;
                c \<leftarrow> mem_write (cells b) (unat off) dat;
                Some (s\<lparr>db_buf := Some (b\<lparr>cells := c\<rparr>)\<rparr>) })"

text \<open>The byte count of a data argument; a C object is shorter than \<open>2^64\<close> bytes.\<close>

definition len64 :: "u8 list \<Rightarrow> u64" where
  "len64 dat = word_of_nat (length dat)"

definition dbuf_write :: "'h dynbuf \<Rightarrow> u64 \<Rightarrow> u8 list \<Rightarrow> 'h dbuf_result" where
  "dbuf_write s off dat = do {
     let e = off + len64 dat;
     (s, r) \<leftarrow> dbuf_realloc s e;
     if r \<noteq> 0 then Some (s, -1)
     else do {
       s \<leftarrow> dbuf_store s off dat;
       Some (if e > db_size s then s\<lparr>db_size := e\<rparr> else s, 0) } }"

definition dbuf_put :: "'h dynbuf \<Rightarrow> u8 list \<Rightarrow> 'h dbuf_result" where
  "dbuf_put s dat = do {
     let n = len64 dat;
     (s, r) \<leftarrow> (if db_size s + n > db_allocated s then dbuf_realloc s (db_size s + n)
               else Some (s, 0));
     if r \<noteq> 0 then Some (s, -1)
     else if n > 0 then do {
       t \<leftarrow> dbuf_store s (db_size s) dat;
       Some (t\<lparr>db_size := db_size t + n\<rparr>, 0) }
     else Some (s, 0) }"

text \<open>
  \<open>dbuf_put_self\<close> copies from the buffer itself with \<open>memcpy\<close>, which is undefined
  when the two regions overlap.
\<close>

definition dbuf_put_self :: "'h dynbuf \<Rightarrow> u64 \<Rightarrow> u64 \<Rightarrow> 'h dbuf_result" where
  "dbuf_put_self s off n = do {
     (s, r) \<leftarrow> (if db_size s + n > db_allocated s then dbuf_realloc s (db_size s + n)
               else Some (s, 0));
     if r \<noteq> 0 then Some (s, -1)
     else do {
       dat \<leftarrow> mem_read (pcells (db_buf s)) (unat off) (unat n);
       if 0 < unat n \<and> unat off < unat (db_size s) + unat n \<and> unat (db_size s) < unat off + unat n
       then None
       else do {
         t \<leftarrow> dbuf_store s (db_size s) dat;
         Some (t\<lparr>db_size := db_size t + n\<rparr>, 0) } } }"

definition dbuf_putc :: "'h dynbuf \<Rightarrow> u8 \<Rightarrow> 'h dbuf_result" where
  "dbuf_putc s c = dbuf_put s [c]"

definition dbuf_putstr :: "'h dynbuf \<Rightarrow> u8 list \<Rightarrow> 'h dbuf_result" where
  "dbuf_putstr s str = do { n \<leftarrow> strlen str; dat \<leftarrow> mem_read str 0 n; dbuf_put s dat }"

definition dbuf_put_u16 :: "bool \<Rightarrow> 'h dynbuf \<Rightarrow> u16 \<Rightarrow> 'h dbuf_result" where
  "dbuf_put_u16 be s val = dbuf_put s (obj_bytes be 2 val)"

definition dbuf_put_u32 :: "bool \<Rightarrow> 'h dynbuf \<Rightarrow> u32 \<Rightarrow> 'h dbuf_result" where
  "dbuf_put_u32 be s val = dbuf_put s (obj_bytes be 4 val)"

definition dbuf_put_u64 :: "bool \<Rightarrow> 'h dynbuf \<Rightarrow> u64 \<Rightarrow> 'h dbuf_result" where
  "dbuf_put_u64 be s val = dbuf_put s (obj_bytes be 8 val)"

text \<open>
  \<open>vsnprintf\<close> stores as much of its output as fits in \<open>n\<close> bytes with a final zero, and
  returns the length of the whole output.  \<open>out\<close> is the formatted output; the local
  buffer of \<open>dbuf_printf\<close> has 128 bytes.
\<close>

definition vsnprintf_stores :: "nat \<Rightarrow> u8 list \<Rightarrow> u8 list" where
  "vsnprintf_stores n out = (if n = 0 then [] else take (n - 1) out @ [0])"

definition dbuf_printf :: "'h dynbuf \<Rightarrow> u8 list \<Rightarrow> 'h dbuf_result" where
  "dbuf_printf s out = do {
     if length out < 128
     then dbuf_put s (take (length out) (vsnprintf_stores 128 out))
     else do {
       (s, r) \<leftarrow> dbuf_realloc s (db_size s + len64 out + 1);
       if r \<noteq> 0 then Some (s, -1)
       else do {
         t \<leftarrow> dbuf_store s (db_size s) (vsnprintf_stores (unat (db_allocated s - db_size s)) out);
         Some (t\<lparr>db_size := db_size t + len64 out\<rparr>, 0) } } }"

text \<open>After the \<open>memset\<close> the function pointer is null too.\<close>

definition dbuf_free :: "'h dynbuf \<Rightarrow> 'h dynbuf option" where
  "dbuf_free s = do {
     h \<leftarrow> (case db_buf s of None \<Rightarrow> Some (db_opaque s)
          | Some b \<Rightarrow> do { f \<leftarrow> db_realloc s; (h, _) \<leftarrow> f (db_opaque s) (Some b) 0; Some h });
     Some \<lparr>db_buf = None, db_size = 0, db_allocated = 0, db_error = False,
           db_realloc = None, db_opaque = h\<rparr> }"

definition dbuf_error :: "'h dynbuf \<Rightarrow> bool" where
  "dbuf_error s = db_error s"

definition dbuf_set_error :: "'h dynbuf \<Rightarrow> 'h dynbuf" where
  "dbuf_set_error s = s\<lparr>db_error := True\<rparr>"

text \<open>\<open>dbuf_insert\<close> of src/quickjs/libregexp.c: it opens a gap of \<open>len\<close> bytes at \<open>pos\<close>.\<close>

definition dbuf_insert :: "'h dynbuf \<Rightarrow> u64 \<Rightarrow> u64 \<Rightarrow> 'h dbuf_result" where
  "dbuf_insert s pos n = do {
     (s, r) \<leftarrow> dbuf_realloc s (db_size s + n);
     if r \<noteq> 0 then Some (s, -1)
     else do {
       dat \<leftarrow> mem_read (pcells (db_buf s)) (unat pos) (unat (db_size s - pos));
       t \<leftarrow> dbuf_store s (pos + n) dat;
       Some (t\<lparr>db_size := db_size t + n\<rparr>, 0) } }"

subsection \<open>Invariant and contents\<close>

definition dbuf_inv :: "'h realloc_func \<Rightarrow> 'h dynbuf \<Rightarrow> bool" where
  "dbuf_inv f s \<longleftrightarrow> db_realloc s = Some f \<and>
     length (pcells (db_buf s)) = unat (db_allocated s) \<and> db_size s \<le> db_allocated s"

definition dbuf_contents :: "'h dynbuf \<Rightarrow> u8 list" where
  "dbuf_contents s = take (unat (db_size s)) (pcells (db_buf s))"

lemma dbuf_invD:
  assumes "dbuf_inv f s"
  shows "db_realloc s = Some f" "length (pcells (db_buf s)) = unat (db_allocated s)"
    "unat (db_size s) \<le> unat (db_allocated s)" "length (dbuf_contents s) = unat (db_size s)"
  using assms by (auto simp: dbuf_inv_def dbuf_contents_def word_le_nat_alt)

lemma dbuf_inv_init2:
  "dbuf_inv f (dbuf_init2 dflt h (Some f))" "dbuf_inv dflt (dbuf_init2 dflt h None)"
  by (simp_all add: dbuf_inv_def dbuf_init2_def)

lemma dbuf_contents_init2 [simp]: "dbuf_contents (dbuf_init2 dflt h f) = []"
  by (simp add: dbuf_contents_def dbuf_init2_def)

lemma unat_len64: "length dat < 2 ^ 64 \<Longrightarrow> unat (len64 dat) = length dat"
  by (simp add: len64_def unsigned_of_nat take_bit_nat_eq_self)

lemma unat_add_len64:
  "unat (a :: u64) + length dat < 2 ^ 64 \<Longrightarrow> unat (a + len64 dat) = unat a + length dat"
  by (simp add: unat_plus_small unat_len64)

lemma dbuf_store_eq:
  assumes "length (pcells (db_buf s)) = unat (db_allocated s)"
    and "unat off + length dat \<le> unat (db_allocated s)"
  shows "\<exists>t. dbuf_store s off dat = Some t \<and>
    pcells (db_buf t) = take (unat off) (pcells (db_buf s)) @ dat @
      drop (unat off + length dat) (pcells (db_buf s)) \<and>
    db_size t = db_size s \<and> db_allocated t = db_allocated s \<and> db_error t = db_error s \<and>
    db_realloc t = db_realloc s \<and> db_opaque t = db_opaque s"
proof (cases "dat = []")
  case False
  with assms obtain b where "db_buf s = Some b"
    by (cases "db_buf s") auto
  with assms False show ?thesis
    by (simp add: dbuf_store_def mem_simps)
qed (simp add: dbuf_store_def)

context allocator
begin

text \<open>
  A request that is not met sets the error flag and leaves everything else; a request that
  is met keeps the contents.
\<close>

lemma dbuf_realloc_cases:
  assumes "dbuf_inv realloc_fn s"
  obtains (ok) s' where "dbuf_realloc s n = Some (s', 0)" "dbuf_inv realloc_fn s'"
      "n \<le> db_allocated s'" "db_size s' = db_size s" "dbuf_contents s' = dbuf_contents s"
      "db_error s' = db_error s"
  | (fail) s' where "dbuf_realloc s n = Some (s', -1)" "dbuf_inv realloc_fn s'"
      "db_allocated s' = db_allocated s" "db_size s' = db_size s" "db_buf s' = db_buf s" "db_error s'"
proof (cases "db_allocated s < n")
  case False
  then show ?thesis
    using assms by (intro ok [of s]) (simp add: dbuf_realloc_def, simp_all add: not_less)
next
  case True
  define m where "m = (if db_allocated s * 3 div 2 > n then db_allocated s * 3 div 2 else n)"
  have m: "n \<le> m" "m \<noteq> 0"
    using True by (auto simp: m_def)
  show ?thesis
  proof (cases "db_error s")
    case err: True
    then show ?thesis
      using True assms by (intro fail [of s]) (simp_all add: dbuf_realloc_def)
  next
    case noerr: False
    obtain h p where call: "realloc_fn (db_opaque s) (db_buf s) m = Some (h, p)"
      using realloc_defined [OF m(2)] by fast
    have eq: "dbuf_realloc s n = (case p of
        None \<Rightarrow> Some (s\<lparr>db_error := True, db_opaque := h\<rparr>, -1)
      | Some b \<Rightarrow> Some (s\<lparr>db_buf := Some b, db_allocated := m, db_opaque := h\<rparr>, 0))"
      using True noerr assms call by (simp add: dbuf_realloc_def dbuf_inv_def Let_def flip: m_def)
    show ?thesis
    proof (cases p)
      case None
      then show ?thesis
        using eq assms
        by (intro fail [of "s\<lparr>db_error := True, db_opaque := h\<rparr>"]) (simp_all add: dbuf_inv_def)
    next
      case (Some b)
      let ?t = "s\<lparr>db_buf := Some b, db_allocated := m, db_opaque := h\<rparr>"
      have le: "unat (db_size s) \<le> length (pcells (db_buf s))" "unat (db_size s) \<le> unat m"
        using dbuf_invD [OF assms] True m(1) by (auto simp: word_le_nat_alt word_less_nat_alt)
      have "dbuf_contents ?t = dbuf_contents s"
        using realloc_prefix [OF m(2) call [unfolded Some] le] by (simp add: dbuf_contents_def)
      moreover have "dbuf_inv realloc_fn ?t"
        using assms le realloc_length [OF m(2) call [unfolded Some]]
        by (simp add: dbuf_inv_def word_le_nat_alt)
      ultimately show ?thesis
        using eq Some m(1) by (intro ok [of ?t]) simp_all
    qed
  qed
qed

lemma dbuf_store_contents:
  assumes "dbuf_inv realloc_fn s" "unat (db_size s) + length dat \<le> unat (db_allocated s)"
  obtains t where "dbuf_store s (db_size s) dat = Some t" "db_size t = db_size s"
    "db_error t = db_error s" "dbuf_inv realloc_fn (t\<lparr>db_size := db_size s + len64 dat\<rparr>)"
    "dbuf_contents (t\<lparr>db_size := db_size s + len64 dat\<rparr>) = dbuf_contents s @ dat"
proof -
  note d = dbuf_invD [OF assms(1)]
  obtain t where t: "dbuf_store s (db_size s) dat = Some t"
      "pcells (db_buf t) = dbuf_contents s @ dat @ drop (unat (db_size s) + length dat) (pcells (db_buf s))"
      "db_size t = db_size s" "db_allocated t = db_allocated s" "db_error t = db_error s"
      "db_realloc t = db_realloc s"
    using dbuf_store_eq [OF d(2) assms(2)] by (auto simp: dbuf_contents_def)
  have n: "unat (db_size s + len64 dat) = unat (db_size s) + length dat"
    using le_less_trans [OF assms(2) unat_u64_less] by (intro unat_add_len64) simp
  have "dbuf_inv realloc_fn (t\<lparr>db_size := db_size s + len64 dat\<rparr>)"
    using t d assms(2) by (simp add: dbuf_inv_def word_le_nat_alt n)
  moreover have "dbuf_contents (t\<lparr>db_size := db_size s + len64 dat\<rparr>) = dbuf_contents s @ dat"
    using t(2) d(4) by (simp add: dbuf_contents_def [of "t\<lparr>db_size := _\<rparr>"] n)
  ultimately show ?thesis
    using t that by blast
qed

lemma dbuf_put_cases:
  assumes "dbuf_inv realloc_fn s" "unat (db_size s) + length dat < 2 ^ 64"
  obtains (ok) s' where "dbuf_put s dat = Some (s', 0)" "dbuf_inv realloc_fn s'"
      "dbuf_contents s' = dbuf_contents s @ dat" "db_error s' = db_error s"
  | (fail) s' where "dbuf_put s dat = Some (s', -1)" "dbuf_inv realloc_fn s'"
      "dbuf_contents s' = dbuf_contents s" "db_error s'"
proof -
  have n: "unat (db_size s + len64 dat) = unat (db_size s) + length dat"
    using assms(2) by (rule unat_add_len64)
  define grown where "grown = (if db_size s + len64 dat > db_allocated s
    then dbuf_realloc s (db_size s + len64 dat) else Some (s, 0))"
  have put: "dbuf_put s dat = do {
      (s, r) \<leftarrow> grown;
      if r \<noteq> 0 then Some (s, -1)
      else if len64 dat > 0 then do {
        t \<leftarrow> dbuf_store s (db_size s) dat;
        Some (t\<lparr>db_size := db_size t + len64 dat\<rparr>, 0) }
      else Some (s, 0) }"
    by (simp add: dbuf_put_def grown_def Let_def)
  consider (room) t where "grown = Some (t, 0)" "dbuf_inv realloc_fn t"
      "unat (db_size t) + length dat \<le> unat (db_allocated t)"
      "db_size t = db_size s" "dbuf_contents t = dbuf_contents s" "db_error t = db_error s"
    | (none) t where "grown = Some (t, -1)" "dbuf_inv realloc_fn t"
      "dbuf_contents t = dbuf_contents s" "db_error t"
  proof (cases "db_size s + len64 dat > db_allocated s")
    case True
    show ?thesis
      by (rule dbuf_realloc_cases [OF assms(1), of "db_size s + len64 dat"])
        (use True n in \<open>auto intro: that simp: grown_def dbuf_contents_def word_le_nat_alt\<close>)
  next
    case False
    then have "unat (db_size s + len64 dat) \<le> unat (db_allocated s)"
      by (simp only: not_less word_le_nat_alt)
    then show ?thesis
      using False assms(1) n by (intro that(1) [of s]) (simp_all add: grown_def)
  qed
  then show ?thesis
  proof cases
    case none
    then show ?thesis by (intro fail [of t]) (simp_all add: put)
  next
    case room
    obtain u where u: "dbuf_store t (db_size t) dat = Some u" "db_size u = db_size t"
        "db_error u = db_error t" "dbuf_inv realloc_fn (u\<lparr>db_size := db_size t + len64 dat\<rparr>)"
        "dbuf_contents (u\<lparr>db_size := db_size t + len64 dat\<rparr>) = dbuf_contents t @ dat"
      using dbuf_store_contents [OF room(2,3)] by blast
    show ?thesis
    proof (cases "dat = []")
      case True
      then show ?thesis
        using room put by (intro ok [of t]) (simp_all add: len64_def)
    next
      case False
      then have "len64 dat > 0"
        using assms(2) by (simp add: word_less_nat_alt unat_len64)
      then show ?thesis
        using room u by (intro ok [of "u\<lparr>db_size := db_size t + len64 dat\<rparr>"]) (simp_all add: put)
    qed
  qed
qed

lemma dbuf_put_self_cases:
  assumes "dbuf_inv realloc_fn s" "unat (db_size s) + unat n < 2 ^ 64"
    and "unat off + unat n \<le> unat (db_size s)"
  obtains (ok) s' where "dbuf_put_self s off n = Some (s', 0)" "dbuf_inv realloc_fn s'"
      "dbuf_contents s' = dbuf_contents s @ take (unat n) (drop (unat off) (dbuf_contents s))"
  | (fail) s' where "dbuf_put_self s off n = Some (s', -1)" "dbuf_inv realloc_fn s'"
      "dbuf_contents s' = dbuf_contents s" "db_error s'"
proof -
  have n: "unat (db_size s + n) = unat (db_size s) + unat n"
    using assms(2) by (simp add: unat_plus_small)
  define grown where "grown = (if db_size s + n > db_allocated s
    then dbuf_realloc s (db_size s + n) else Some (s, 0))"
  consider (room) t where "grown = Some (t, 0)" "dbuf_inv realloc_fn t"
      "unat (db_size t) + unat n \<le> unat (db_allocated t)"
      "db_size t = db_size s" "dbuf_contents t = dbuf_contents s"
    | (none) t where "grown = Some (t, -1)" "dbuf_inv realloc_fn t"
      "dbuf_contents t = dbuf_contents s" "db_error t"
  proof (cases "db_size s + n > db_allocated s")
    case True
    show ?thesis
      by (rule dbuf_realloc_cases [OF assms(1), of "db_size s + n"])
        (use True n in \<open>auto intro: that simp: grown_def dbuf_contents_def word_le_nat_alt\<close>)
  next
    case False
    then have "unat (db_size s + n) \<le> unat (db_allocated s)"
      by (simp only: not_less word_le_nat_alt)
    then show ?thesis
      using False assms(1) n by (intro that(1) [of s]) (simp_all add: grown_def)
  qed
  then show ?thesis
  proof cases
    case none
    then show ?thesis
      by (intro fail [of t]) (simp_all add: dbuf_put_self_def grown_def [symmetric])
  next
    case room
    let ?dat = "take (unat n) (drop (unat off) (dbuf_contents s))"
    note d = dbuf_invD [OF assms(1)] dbuf_invD [OF room(2)]
    have len: "length ?dat = unat n"
      using assms(3) d(4) by simp
    have rd: "mem_read (pcells (db_buf t)) (unat off) (unat n) = Some ?dat"
      using assms(3) d room(4) by (simp add: mem_read_def flip: room(5))
        (simp add: dbuf_contents_def drop_take room(4))
    have n': "len64 ?dat = n"
      by (simp only: len64_def len) simp
    obtain u where u: "dbuf_store t (db_size t) ?dat = Some u" "db_size u = db_size t"
        "dbuf_inv realloc_fn (u\<lparr>db_size := db_size t + n\<rparr>)"
        "dbuf_contents (u\<lparr>db_size := db_size t + n\<rparr>) = dbuf_contents t @ ?dat"
      using dbuf_store_contents [OF room(2), of ?dat] room(3) len n' by auto
    show ?thesis
      using room rd u assms(3)
      by (intro ok [of "u\<lparr>db_size := db_size t + n\<rparr>"])
        (simp_all add: dbuf_put_self_def grown_def [symmetric])
  qed
qed

lemma dbuf_insert_cases:
  assumes "dbuf_inv realloc_fn s" "unat (db_size s) + unat n < 2 ^ 64" "pos \<le> db_size s"
  obtains (ok) s' where "dbuf_insert s pos n = Some (s', 0)" "dbuf_inv realloc_fn s'"
      "length (dbuf_contents s') = length (dbuf_contents s) + unat n"
      "take (unat pos) (dbuf_contents s') = take (unat pos) (dbuf_contents s)"
      "drop (unat pos + unat n) (dbuf_contents s') = drop (unat pos) (dbuf_contents s)"
      "db_error s' = db_error s"
  | (fail) s' where "dbuf_insert s pos n = Some (s', -1)" "dbuf_inv realloc_fn s'"
      "dbuf_contents s' = dbuf_contents s" "db_error s'"
proof -
  have n: "unat (db_size s + n) = unat (db_size s) + unat n"
    using assms(2) by (simp add: unat_plus_small)
  have le: "unat pos \<le> unat (db_size s)"
    using assms(3) by (simp add: word_le_nat_alt)
  have pos: "unat (pos + n) = unat pos + unat n"
    using le assms(2) by (intro unat_plus_small) simp
  have sub: "unat (db_size s - pos) = unat (db_size s) - unat pos"
    using assms(3) by (rule unat_minus_small)
  show ?thesis
  proof (rule dbuf_realloc_cases [OF assms(1), of "db_size s + n"])
    fix t
    assume t: "dbuf_realloc s (db_size s + n) = Some (t, 0)" "dbuf_inv realloc_fn t"
      "db_size s + n \<le> db_allocated t" "db_size t = db_size s" "dbuf_contents t = dbuf_contents s"
      "db_error t = db_error s"
    note d = dbuf_invD [OF assms(1)] dbuf_invD [OF t(2)]
    let ?dat = "drop (unat pos) (dbuf_contents s)"
    have room: "unat (db_size s) + unat n \<le> unat (db_allocated t)"
      using t(3) n by (simp add: word_le_nat_alt)
    have rd: "mem_read (pcells (db_buf t)) (unat pos) (unat (db_size t - pos)) = Some ?dat"
      using le d t(4) by (simp add: mem_read_def sub flip: t(5)) (simp add: dbuf_contents_def drop_take t(4))
    have len: "length ?dat = unat (db_size s) - unat pos"
      using d(4) by simp
    have fits: "unat (pos + n) + length ?dat \<le> unat (db_allocated t)"
      using room le by (simp only: pos len)
    obtain u where u: "dbuf_store t (pos + n) ?dat = Some u"
        "pcells (db_buf u) = take (unat (pos + n)) (pcells (db_buf t)) @ ?dat @
           drop (unat (pos + n) + length ?dat) (pcells (db_buf t))"
        "db_size u = db_size t" "db_allocated u = db_allocated t" "db_error u = db_error t"
        "db_realloc u = db_realloc t"
      using dbuf_store_eq [OF d(6) fits] by auto
    have inv: "dbuf_inv realloc_fn (u\<lparr>db_size := db_size s + n\<rparr>)"
      using u t(3) d fits by (simp add: dbuf_inv_def)
    have c: "dbuf_contents (u\<lparr>db_size := db_size s + n\<rparr>) =
        take (unat pos + unat n) (pcells (db_buf t)) @ ?dat"
      using u(2) le room d(6) len by (simp add: dbuf_contents_def [of "u\<lparr>db_size := _\<rparr>"] n pos)
    have l: "length (take (unat pos + unat n) (pcells (db_buf t))) = unat pos + unat n"
      using le room d(6) by simp
    have p: "take (unat pos) (pcells (db_buf t)) = take (unat pos) (dbuf_contents s)"
      using le t(4) t(5) [symmetric] by (simp add: dbuf_contents_def [of t] min_def)
    show ?thesis
      using t u inv rd c l p d(4) len le
      by (intro ok [of "u\<lparr>db_size := db_size s + n\<rparr>"]) (simp_all add: dbuf_insert_def min_def)
  next
    fix t
    assume "dbuf_realloc s (db_size s + n) = Some (t, -1)" "dbuf_inv realloc_fn t"
      "db_size t = db_size s" "db_buf t = db_buf s" "db_error t"
    then show ?thesis
      by (intro fail [of t]) (simp_all add: dbuf_insert_def dbuf_contents_def)
  qed
qed

text \<open>
  The other writers are a put of some bytes, so the cases of \<open>dbuf_put\<close> are theirs.
\<close>

lemmas dbuf_writers = dbuf_putc_def dbuf_put_u16_def dbuf_put_u32_def dbuf_put_u64_def

lemma dbuf_putstr_eq:
  "terminated str \<Longrightarrow> dbuf_putstr s str = dbuf_put s (cstr str)"
  by (simp add: dbuf_putstr_def strlen_terminated mem_simps cstr_length_le cstr_take)

end

subsection \<open>The interface its clients use\<close>

text \<open>
  The regexp compiler, the bytecode writer and the normaliser emit bytes one after another,
  ignore every return value, and test the error flag once at the end.  \<open>byte_sink\<close> states
  what they rely on; \<open>emit_all\<close> is such a client.
\<close>

fun emit_all :: "('s \<Rightarrow> u8 list \<Rightarrow> ('s \<times> int) option) \<Rightarrow> 's \<Rightarrow> u8 list list \<Rightarrow> 's option" where
  "emit_all put s [] = Some s"
| "emit_all put s (d # ds) = do { (s, _) \<leftarrow> put s d; emit_all put s ds }"

locale byte_sink =
  fixes put :: "'s \<Rightarrow> u8 list \<Rightarrow> ('s \<times> int) option"
    and contents :: "'s \<Rightarrow> u8 list"
    and failed :: "'s \<Rightarrow> bool"
    and inv :: "'s \<Rightarrow> bool"
  assumes put_total: "inv s \<Longrightarrow> length (contents s) + length d < 2 ^ 64 \<Longrightarrow>
      \<exists>s' r. put s d = Some (s', r) \<and> inv s' \<and>
        (r = 0 \<and> contents s' = contents s @ d \<and> (failed s \<longrightarrow> failed s') \<or>
         r = -1 \<and> contents s' = contents s \<and> failed s')"
begin

lemma emit_all_total:
  assumes "inv s" "length (contents s) + length (concat ds) < 2 ^ 64"
  shows "\<exists>s'. emit_all put s ds = Some s' \<and> inv s' \<and> (failed s \<longrightarrow> failed s') \<and>
    (\<not> failed s' \<longrightarrow> contents s' = contents s @ concat ds)"
  using assms
proof (induction ds arbitrary: s)
  case (Cons d ds)
  have "length (contents s) + length d < 2 ^ 64"
    using Cons.prems(2) by simp
  then obtain s1 r where s1: "put s d = Some (s1, r)" "inv s1" "failed s \<longrightarrow> failed s1"
      and c: "contents s1 = contents s @ d \<or> contents s1 = contents s \<and> failed s1"
    using put_total [OF Cons.prems(1)] by metis
  have "length (contents s1) + length (concat ds) < 2 ^ 64"
    using c Cons.prems(2) by auto
  from Cons.IH [OF s1(2) this] s1 c show ?case
    by auto
qed simp

end

text \<open>Every buffer over a lawful allocator is such a sink.\<close>

sublocale allocator \<subseteq> buf: byte_sink dbuf_put dbuf_contents dbuf_error "dbuf_inv realloc_fn"
proof
  fix s :: "'h dynbuf" and d :: "u8 list"
  assume inv: "dbuf_inv realloc_fn s" and len: "length (dbuf_contents s) + length d < 2 ^ 64"
  then have "unat (db_size s) + length d < 2 ^ 64"
    by (simp add: dbuf_invD)
  from dbuf_put_cases [OF inv this]
  show "\<exists>s' r. dbuf_put s d = Some (s', r) \<and> dbuf_inv realloc_fn s' \<and>
      (r = 0 \<and> dbuf_contents s' = dbuf_contents s @ d \<and> (dbuf_error s \<longrightarrow> dbuf_error s') \<or>
       r = -1 \<and> dbuf_contents s' = dbuf_contents s \<and> dbuf_error s')"
    by (metis dbuf_error_def)
qed

text \<open>The two reallocation functions the sources pass to \<open>dbuf_init2\<close>.\<close>

interpretation default_realloc: allocator dbuf_default_realloc
  by unfold_locales
    (auto simp: dbuf_default_realloc_def libc_realloc_def split: if_splits)

subsection \<open>Properties\<close>

text \<open>
  C23.  \<open>dbuf_put\<close> over any lawful allocator never touches memory outside its block.  It either
  appends exactly the given bytes and returns 0, or returns -1 with the error flag set and the
  contents unchanged.
\<close>

theorem dbuf_put_appends:
  assumes "allocator f" "dbuf_inv f s" "unat (db_size s) + length dat < 2 ^ 64"
  shows "\<exists>s' r. dbuf_put s dat = Some (s', r) \<and> dbuf_inv f s' \<and>
    (r = 0 \<and> dbuf_contents s' = dbuf_contents s @ dat \<and> dbuf_error s' = dbuf_error s \<or>
     r = -1 \<and> dbuf_contents s' = dbuf_contents s \<and> dbuf_error s')"
  by (rule allocator.dbuf_put_cases [OF assms]) (auto simp: dbuf_error_def)

lemma dbuf_put_appends_witness:
  "\<exists>s' r. dbuf_put (dbuf_init example_heap) [1, 2, 3] = Some (s', r) \<and>
    (r = 0 \<and> dbuf_contents s' = [1, 2, 3] \<or> r = -1 \<and> dbuf_error s')"
  using dbuf_put_appends [OF default_realloc.allocator_axioms, of "dbuf_init example_heap" "[1, 2, 3]"]
  by (auto simp: dbuf_init_def dbuf_inv_init2) (auto simp: dbuf_init2_def)

text \<open>
  C24.  A client of the engine's buffers may ignore the result of every single write and test
  \<open>dbuf_error\<close> once at the end: if the flag is clear, the buffer holds all the data, in order.
\<close>

theorem dbuf_check_error_once:
  assumes "dbuf_inv (js_dbuf_realloc def_malloc_funcs) s"
    and "length (dbuf_contents s) + length (concat ds) < 2 ^ 64"
  shows "\<exists>s'. emit_all dbuf_put s ds = Some s' \<and> (dbuf_error s \<longrightarrow> dbuf_error s') \<and>
    (\<not> dbuf_error s' \<longrightarrow> dbuf_contents s' = dbuf_contents s @ concat ds)"
  using def_malloc.js_rt.buf.emit_all_total [OF assms] by blast

lemma dbuf_check_error_once_witness:
  "\<exists>s'. emit_all dbuf_put
      (dbuf_init2 (js_dbuf_realloc def_malloc_funcs) (new_malloc_state def_malloc_funcs example_heap
        \<lparr>cells = [], usable = 64\<rparr>) None)
      [[1, 2], [3], []] = Some s' \<and> (\<not> dbuf_error s' \<longrightarrow> dbuf_contents s' = [1, 2, 3])"
  using dbuf_check_error_once [OF dbuf_inv_init2(2), of "new_malloc_state def_malloc_funcs example_heap
        \<lparr>cells = [], usable = 64\<rparr>" "[[1, 2], [3], []]"] by auto

text \<open>
  C25.  \<open>dbuf_insert\<close> opens a gap of \<open>n\<close> bytes at \<open>pos\<close>: the bytes before the gap and
  the bytes after it are the old contents, or the buffer is unchanged and the error is reported.
\<close>

theorem dbuf_insert_opens_gap:
  assumes "allocator f" "dbuf_inv f s" "unat (db_size s) + unat n < 2 ^ 64" "pos \<le> db_size s"
  shows "\<exists>s' r. dbuf_insert s pos n = Some (s', r) \<and> dbuf_inv f s' \<and>
    (r = 0 \<and> length (dbuf_contents s') = length (dbuf_contents s) + unat n \<and>
       take (unat pos) (dbuf_contents s') = take (unat pos) (dbuf_contents s) \<and>
       drop (unat pos + unat n) (dbuf_contents s') = drop (unat pos) (dbuf_contents s) \<or>
     r = -1 \<and> dbuf_contents s' = dbuf_contents s \<and> dbuf_error s')"
  by (rule allocator.dbuf_insert_cases [OF assms]) (auto simp: dbuf_error_def)

definition example_dbuf :: "libc_heap dynbuf" where
  "example_dbuf =
     \<lparr>db_buf = Some \<lparr>cells = [10, 20, 30, 0], usable = 16\<rparr>, db_size = 3, db_allocated = 4,
      db_error = False, db_realloc = Some dbuf_default_realloc, db_opaque = example_heap\<rparr>"

lemma example_dbuf_inv: "dbuf_inv dbuf_default_realloc example_dbuf"
  and example_dbuf_contents: "dbuf_contents example_dbuf = [10, 20, 30]"
  and example_dbuf_size: "db_size example_dbuf = 3"
  by (simp_all add: dbuf_inv_def example_dbuf_def dbuf_contents_def)

lemma dbuf_insert_opens_gap_witness:
  "\<exists>s' r. dbuf_insert example_dbuf 1 2 = Some (s', r) \<and>
    (r = 0 \<and> take 1 (dbuf_contents s') = [10] \<and> drop 3 (dbuf_contents s') = [20, 30] \<or>
     r = -1 \<and> dbuf_error s')"
  using dbuf_insert_opens_gap [OF default_realloc.allocator_axioms example_dbuf_inv, of 2 1]
  by (auto simp: example_dbuf_contents example_dbuf_size) (simp add: numeral_3_eq_3)

text \<open>
  C26.  \<open>dbuf_put_self\<close>, given a range inside the contents, appends a copy of that range:
  it reads the data after the buffer may have moved, and its \<open>memcpy\<close> never overlaps.
\<close>

theorem dbuf_put_self_copies:
  assumes "allocator f" "dbuf_inv f s" "unat (db_size s) + unat n < 2 ^ 64"
    and "unat off + unat n \<le> unat (db_size s)"
  shows "\<exists>s' r. dbuf_put_self s off n = Some (s', r) \<and> dbuf_inv f s' \<and>
    (r = 0 \<and> dbuf_contents s' = dbuf_contents s @ take (unat n) (drop (unat off) (dbuf_contents s)) \<or>
     r = -1 \<and> dbuf_contents s' = dbuf_contents s \<and> dbuf_error s')"
  by (rule allocator.dbuf_put_self_cases [OF assms]) (auto simp: dbuf_error_def)

lemma dbuf_put_self_copies_witness:
  "\<exists>s' r. dbuf_put_self example_dbuf 1 2 = Some (s', r) \<and>
    (r = 0 \<and> dbuf_contents s' = [10, 20, 30, 20, 30] \<or> r = -1 \<and> dbuf_error s')"
  using dbuf_put_self_copies [OF default_realloc.allocator_axioms example_dbuf_inv, of 2 1]
  by (auto simp: example_dbuf_contents example_dbuf_size)

end
