(* ===== verification/Utf8.thy ===== *)
theory Utf8
  imports Bytes
begin

section \<open>UTF-8 and UTF-16\<close>

text \<open>
  The UTF-8 functions of src/quickjs/cutils.c and the surrogate helpers of cutils.h.  Source
  and destination arrays are memory blocks with checked access; \<open>size_t\<close> positions inside
  an array are \<open>nat\<close>, since no array is as long as the address space.
  A decoder takes the block and the offset \<open>p\<close> and returns the code point and the
  offset stored through \<open>pp\<close>.
\<close>

subsection \<open>Surrogates\<close>

definition is_surrogate :: "u32 \<Rightarrow> bool" where
  "is_surrogate c \<longleftrightarrow> drop_bit 11 c = drop_bit 11 0xD800"

definition is_hi_surrogate :: "u32 \<Rightarrow> bool" where
  "is_hi_surrogate c \<longleftrightarrow> drop_bit 10 c = drop_bit 10 0xD800"

definition is_lo_surrogate :: "u32 \<Rightarrow> bool" where
  "is_lo_surrogate c \<longleftrightarrow> drop_bit 10 c = drop_bit 10 0xDC00"

definition get_hi_surrogate :: "u32 \<Rightarrow> u32" where
  "get_hi_surrogate c = drop_bit 10 c - drop_bit 10 0x10000 + 0xD800"

definition get_lo_surrogate :: "u32 \<Rightarrow> u32" where
  "get_lo_surrogate c = (c AND 0x3FF) OR 0xDC00"

definition from_surrogate :: "u32 \<Rightarrow> u32 \<Rightarrow> u32" where
  "from_surrogate hi lo = 65536 + 1024 * (hi AND 1023) + (lo AND 1023)"

subsection \<open>Single code points\<close>

definition utf8_encode_len :: "u32 \<Rightarrow> nat" where
  "utf8_encode_len c =
     (if c < 0x80 then 1 else if c < 0x800 then 2 else if c < 0x10000 then 3
      else if c < 0x110000 then 4 else 3)"

text \<open>The bytes \<open>utf8_encode\<close> stores from the start of \<open>buf\<close>; it returns their number.\<close>

definition utf8_encode :: "u32 \<Rightarrow> u8 list" where
  "utf8_encode c =
     (if c < 0x80 then [ucast c]
      else if c < 0x800 then [ucast (drop_bit 6 c OR 0xC0), ucast ((c AND 0x3F) OR 0x80)]
      else if c < 0x10000 then
        [ucast (drop_bit 12 c OR 0xE0), ucast ((drop_bit 6 c AND 0x3F) OR 0x80),
         ucast ((c AND 0x3F) OR 0x80)]
      else if c < 0x110000 then
        [ucast (drop_bit 18 c OR 0xF0), ucast ((drop_bit 12 c AND 0x3F) OR 0x80),
         ucast ((drop_bit 6 c AND 0x3F) OR 0x80), ucast ((c AND 0x3F) OR 0x80)]
      else [ucast (drop_bit 12 (0xFFFD :: u32) OR 0xE0),
            ucast ((drop_bit 6 (0xFFFD :: u32) AND 0x3F) OR 0x80),
            ucast (((0xFFFD :: u32) AND 0x3F) OR 0x80)])"

text \<open>
  The conditions are evaluated from left to right: a later byte is read only when the
  earlier ones were accepted.
\<close>

definition utf8_decode :: "u8 list \<Rightarrow> nat \<Rightarrow> (u32 \<times> nat) option" where
  "utf8_decode m p0 = do {
     b0 \<leftarrow> mem_get m p0;
     let c = (ucast b0 :: u32);
     let p = p0 + 1;
     if c < 0x80 then Some (c, p)
     else if 0xC2 \<le> c \<and> c \<le> 0xDF then do {
       b \<leftarrow> mem_get m p;
       if 0x80 \<le> b \<and> b \<le> 0xBF
       then Some (push_bit 6 (c - 0xC0) + (ucast b - 0x80), p + 1)
       else Some (0xFFFD, p) }
     else if 0xE0 \<le> c \<and> c \<le> 0xEF then do {
       let lower = (if c = 0xE0 then 0xA0 else 0x80);
       b \<leftarrow> mem_get m p;
       if lower \<le> b \<and> b \<le> 0xBF then do {
         b1 \<leftarrow> mem_get m (p + 1);
         if 0x80 \<le> b1 \<and> b1 \<le> 0xBF
         then Some (push_bit 12 (c - 0xE0) + push_bit 6 (ucast b - 0x80) + (ucast b1 - 0x80), p + 2)
         else Some (0xFFFD, p) }
       else Some (0xFFFD, p) }
     else if 0xF0 \<le> c \<and> c \<le> 0xF4 then do {
       let lower = (if c = 0xF0 then 0x90 else 0x80);
       let upper = (if c = 0xF4 then 0x8F else 0xBF);
       b \<leftarrow> mem_get m p;
       if lower \<le> b \<and> b \<le> upper then do {
         b1 \<leftarrow> mem_get m (p + 1);
         if 0x80 \<le> b1 \<and> b1 \<le> 0xBF then do {
           b2 \<leftarrow> mem_get m (p + 2);
           if 0x80 \<le> b2 \<and> b2 \<le> 0xBF
           then Some (push_bit 18 (c - 0xF0) + push_bit 12 (ucast b - 0x80) +
                      push_bit 6 (ucast b1 - 0x80) + (ucast b2 - 0x80), p + 3)
           else Some (0xFFFD, p) }
         else Some (0xFFFD, p) }
       else Some (0xFFFD, p) }
     else Some (0xFFFD, p) }"

definition utf8_decode_len :: "u8 list \<Rightarrow> nat \<Rightarrow> nat \<Rightarrow> (u32 \<times> nat) option" where
  "utf8_decode_len m p max_len =
     (if max_len = 0 then Some (0xFFFD, p)
      else do {
        b \<leftarrow> (if max_len \<le> 3 then mem_get m p else Some 0);
        if max_len = 1 \<and> b < 0x80 \<or> max_len = 2 \<and> b < 0xE0 \<or> max_len = 3 \<and> b < 0xF0 \<or> 3 < max_len
        then utf8_decode m p
        else Some (0xFFFD, p + 1) })"

subsection \<open>Byte values\<close>

lemma unat_ucast_u8_u32 [simp]: "unat (ucast (b :: u8) :: u32) = unat b"
proof -
  have "unat b < 2 ^ 32"
    by (rule less_trans [OF unat_u8_less]) simp
  then show ?thesis
    by (simp add: unsigned_ucast_eq take_bit_nat_eq_self)
qed

lemma unat_ucast_u16_u32 [simp]: "unat (ucast (b :: u16) :: u32) = unat b"
proof -
  have "unat b < 2 ^ 32"
    by (rule less_trans [OF unat_u16_less]) simp
  then show ?thesis
    by (simp add: unsigned_ucast_eq take_bit_nat_eq_self)
qed

lemma and_3F: "(x :: u32) AND 0x3F = take_bit 6 x"
  and and_3FF: "(x :: u32) AND 0x3FF = take_bit 10 x"
  by (rule and_numeral_mask; simp add: mask_eq_exp_minus_1)+

lemma unat_ucast_u32_u8: "unat (ucast (x :: u32) :: u8) = unat x mod 256"
  by (simp add: unsigned_ucast_eq take_bit_eq_mod)

lemma unat_cont: "unat (ucast ((x AND 0x3F) OR 0x80 :: u32) :: u8) = unat x mod 64 + 128"
proof -
  have "unat (take_bit 6 x) = unat x mod 64" by (simp only: unat_take_bit) simp
  moreover from this have "unat (take_bit 6 x OR 0x80) = unat (take_bit 6 x) + 128"
    by (subst unat_or_tag [where n = 6]) (simp_all add: less_imp_le_nat)
  ultimately show ?thesis
    by (simp add: and_3F unat_ucast_u32_u8)
qed

lemma unat_lead2: "unat c < 2048 \<Longrightarrow> unat (ucast (drop_bit 6 c OR 0xC0 :: u32) :: u8) = unat c div 64 + 192"
proof -
  assume c: "unat c < 2048"
  have d: "unat (drop_bit 6 c) = unat c div 64" by (simp only: unat_drop_bit) simp
  have "unat c div 64 < 32" using c by simp
  then have "unat (drop_bit 6 c OR 0xC0) = unat (drop_bit 6 c) + 192"
    by (subst unat_or_tag [where n = 5]) (simp_all add: d)
  then show ?thesis
    using \<open>unat c div 64 < 32\<close> by (simp add: unat_ucast_u32_u8 d)
qed

lemma unat_lead3: "unat c < 65536 \<Longrightarrow> unat (ucast (drop_bit 12 c OR 0xE0 :: u32) :: u8) = unat c div 4096 + 224"
proof -
  assume c: "unat c < 65536"
  have d: "unat (drop_bit 12 c) = unat c div 4096" by (simp only: unat_drop_bit) simp
  have "unat c div 4096 < 16" using c by simp
  then have "unat (drop_bit 12 c OR 0xE0) = unat (drop_bit 12 c) + 224"
    by (subst unat_or_tag [where n = 4]) (simp_all add: d)
  then show ?thesis
    using \<open>unat c div 4096 < 16\<close> by (simp add: unat_ucast_u32_u8 d)
qed

lemma unat_lead4: "unat c < 2097152 \<Longrightarrow> unat (ucast (drop_bit 18 c OR 0xF0 :: u32) :: u8) = unat c div 262144 + 240"
proof -
  assume c: "unat c < 2097152"
  have d: "unat (drop_bit 18 c) = unat c div 262144" by (simp only: unat_drop_bit) simp
  have "unat c div 262144 < 8" using c by simp
  then have "unat (drop_bit 18 c OR 0xF0) = unat (drop_bit 18 c) + 240"
    by (subst unat_or_tag [where n = 3]) (simp_all add: d)
  then show ?thesis
    using \<open>unat c div 262144 < 8\<close> by (simp add: unat_ucast_u32_u8 d)
qed

lemma unat_drop6: "unat (drop_bit 6 (c :: u32)) = unat c div 64"
  and unat_drop12: "unat (drop_bit 12 (c :: u32)) = unat c div 4096"
  by (simp_all only: unat_drop_bit) simp_all

lemma unat_plus3_small:
  "unat x + unat y + unat z < 2 ^ 32 \<Longrightarrow> unat (x + y + z :: u32) = unat x + unat y + unat z"
  by (simp add: unat_plus_small)

lemma unat_plus4_small:
  "unat w + unat x + unat y + unat z < 2 ^ 32 \<Longrightarrow>
     unat (w + x + y + z :: u32) = unat w + unat x + unat y + unat z"
  by (simp add: unat_plus_small)

text \<open>The value the decoder computes from the bytes it accepted.\<close>

lemma unat_push_bit_small:
  "unat (w :: u32) * 2 ^ k < 2 ^ 32 \<Longrightarrow> unat (push_bit k w) = unat w * 2 ^ k"
  by (subst unsigned_push_bit_eq) (simp add: push_bit_eq_mult take_bit_nat_eq_self)

lemma decode2_value:
  assumes "192 \<le> unat b0" "unat b0 \<le> 223" "128 \<le> unat b1" "unat b1 \<le> 191"
  shows "unat (push_bit 6 (ucast b0 - 0xC0) + (ucast b1 - 0x80) :: u32) =
    (unat (b0 :: u8) - 192) * 64 + (unat (b1 :: u8) - 128)"
proof -
  have s: "unat (ucast b0 - 0xC0 :: u32) = unat b0 - 192" "unat (ucast b1 - 0x80 :: u32) = unat b1 - 128"
    using assms by (simp_all add: unat_sub word_le_nat_alt)
  then have "unat (push_bit 6 (ucast b0 - 0xC0) :: u32) = (unat b0 - 192) * 64"
    using assms by (subst unat_push_bit_small) simp_all
  then show ?thesis
    using assms s by (simp add: unat_plus_small)
qed

lemma decode3_value:
  assumes "224 \<le> unat b0" "unat b0 \<le> 239" "128 \<le> unat b1" "unat b1 \<le> 191"
    "128 \<le> unat b2" "unat b2 \<le> 191"
  shows "unat (push_bit 12 (ucast b0 - 0xE0) + push_bit 6 (ucast b1 - 0x80) + (ucast b2 - 0x80) :: u32) =
    (unat (b0 :: u8) - 224) * 4096 + (unat (b1 :: u8) - 128) * 64 + (unat (b2 :: u8) - 128)"
proof -
  have s: "unat (ucast b0 - 0xE0 :: u32) = unat b0 - 224" "unat (ucast b1 - 0x80 :: u32) = unat b1 - 128"
      "unat (ucast b2 - 0x80 :: u32) = unat b2 - 128"
    using assms by (simp_all add: unat_sub word_le_nat_alt)
  then have "unat (push_bit 12 (ucast b0 - 0xE0) :: u32) = (unat b0 - 224) * 4096"
      "unat (push_bit 6 (ucast b1 - 0x80) :: u32) = (unat b1 - 128) * 64"
    using assms by (simp_all add: unat_push_bit_small)
  then show ?thesis
    using assms s by (subst unat_plus3_small) simp_all
qed

lemma decode4_value:
  assumes "240 \<le> unat b0" "unat b0 \<le> 244" "128 \<le> unat b1" "unat b1 \<le> 191"
    "128 \<le> unat b2" "unat b2 \<le> 191" "128 \<le> unat b3" "unat b3 \<le> 191"
  shows "unat (push_bit 18 (ucast b0 - 0xF0) + push_bit 12 (ucast b1 - 0x80) +
      push_bit 6 (ucast b2 - 0x80) + (ucast b3 - 0x80) :: u32) =
    (unat (b0 :: u8) - 240) * 262144 + (unat (b1 :: u8) - 128) * 4096 +
    (unat (b2 :: u8) - 128) * 64 + (unat (b3 :: u8) - 128)"
proof -
  have s: "unat (ucast b0 - 0xF0 :: u32) = unat b0 - 240" "unat (ucast b1 - 0x80 :: u32) = unat b1 - 128"
      "unat (ucast b2 - 0x80 :: u32) = unat b2 - 128" "unat (ucast b3 - 0x80 :: u32) = unat b3 - 128"
    using assms by (simp_all add: unat_sub word_le_nat_alt)
  then have "unat (push_bit 18 (ucast b0 - 0xF0) :: u32) = (unat b0 - 240) * 262144"
      "unat (push_bit 12 (ucast b1 - 0x80) :: u32) = (unat b1 - 128) * 4096"
      "unat (push_bit 6 (ucast b2 - 0x80) :: u32) = (unat b2 - 128) * 64"
    using assms by (simp_all add: unat_push_bit_small)
  moreover have "unat b0 - 240 \<le> 4" "unat b1 - 128 \<le> 63" "unat b2 - 128 \<le> 63" "unat b3 - 128 \<le> 63"
    using assms by linarith+
  ultimately show ?thesis
    using s by (subst unat_plus4_small) simp_all
qed

text \<open>The encoding of each length as numbers.\<close>

lemma utf8_encode_unat:
  "unat c < 128 \<Longrightarrow> map unat (utf8_encode c) = [unat c]"
  "128 \<le> unat c \<Longrightarrow> unat c < 2048 \<Longrightarrow>
     map unat (utf8_encode c) = [unat c div 64 + 192, unat c mod 64 + 128]"
  "2048 \<le> unat c \<Longrightarrow> unat c < 65536 \<Longrightarrow>
     map unat (utf8_encode c) = [unat c div 4096 + 224, unat c div 64 mod 64 + 128, unat c mod 64 + 128]"
  "65536 \<le> unat c \<Longrightarrow> unat c < 1114112 \<Longrightarrow>
     map unat (utf8_encode c) =
       [unat c div 262144 + 240, unat c div 4096 mod 64 + 128, unat c div 64 mod 64 + 128,
        unat c mod 64 + 128]"
  by (simp_all add: utf8_encode_def word_less_nat_alt unat_lead2 unat_lead3 unat_lead4 unat_cont
      unat_drop6 unat_drop12) (simp add: unat_ucast_u32_u8)

lemma length_utf8_encode: "length (utf8_encode c) = utf8_encode_len c"
  by (simp add: utf8_encode_def utf8_encode_len_def)

lemma utf8_encode_invalid: "\<not> c < 0x110000 \<Longrightarrow> utf8_encode c = utf8_encode 0xFFFD"
  by (simp add: utf8_encode_def word_less_nat_alt)

lemma map_unat_inject: "map unat (xs :: u8 list) = map unat ys \<Longrightarrow> xs = ys"
  by (metis list.inj_map_strong word_unat_eq_iff)

subsection \<open>Decoding inverts encoding\<close>

text \<open>\<open>encoded_at m p es\<close>: the bytes \<open>es\<close> are stored at offset \<open>p\<close>.\<close>

definition encoded_at :: "u8 list \<Rightarrow> nat \<Rightarrow> u8 list \<Rightarrow> bool" where
  "encoded_at m p es \<longleftrightarrow> mem_read m p (length es) = Some es"

lemma encoded_at_get:
  assumes "encoded_at m p es" "i < length es"
  shows "mem_get m (p + i) = Some (es ! i)"
proof -
  have "p + length es \<le> length m" "take (length es) (drop p m) = es"
    using assms(1) by (auto simp: encoded_at_def mem_read_def split: if_splits)
  moreover from this have "es ! i = m ! (p + i)"
    using assms(2) by (metis add_leD1 nth_drop nth_take)
  ultimately show ?thesis
    using assms(2) by (simp add: mem_get_def)
qed

lemma encoded_atI:
  assumes "length es = n" "\<And>i. i < n \<Longrightarrow> mem_get m (p + i) = Some (es ! i)" "0 < n"
  shows "encoded_at m p es"
proof -
  have "p + (n - 1) < length m"
    using assms(2) [of "n - 1"] assms(3) by (auto simp: mem_get_Some_iff)
  moreover from this have "take n (drop p m) = es"
    using assms by (intro nth_equalityI) (auto simp: mem_get_Some_iff)
  ultimately show ?thesis
    using assms(1,3) by (simp add: encoded_at_def mem_read_def)
qed

lemma encoded_at_append: "encoded_at (xs @ es @ ys) (length xs) es"
  by (simp add: encoded_at_def mem_read_def)

lemma map_unat_Cons_cases:
  assumes "map unat es = x # ns"
  obtains b es' where "es = b # es'" "unat (b :: u8) = x" "map unat es' = ns"
  using assms by auto

lemma sextets3: "(n :: nat) div 4096 * 4096 + n div 64 mod 64 * 64 + n mod 64 = n"
proof -
  have "n div 4096 = n div 64 div 64" by (simp flip: div_mult2_eq)
  then show ?thesis
    using div_mult_mod_eq [of n 64] div_mult_mod_eq [of "n div 64" 64] by linarith
qed

lemma sextets4: "(n :: nat) div 262144 * 262144 + n div 4096 mod 64 * 4096 + n div 64 mod 64 * 64 + n mod 64 = n"
proof -
  have "n div 262144 = n div 4096 div 64" by (simp flip: div_mult2_eq)
  then show ?thesis
    using div_mult_mod_eq [of "n div 4096" 64] sextets3 [of n] by linarith
qed

lemma utf8_decode_encode_at:
  assumes c: "c < 0x110000" and at: "encoded_at m p (utf8_encode c)"
  shows "utf8_decode m p = Some (c, p + utf8_encode_len c)"
proof -
  have c': "unat c < 1114112"
    using c by (simp add: word_less_nat_alt)
  note get = encoded_at_get [OF at]
  consider "unat c < 128" | "128 \<le> unat c" "unat c < 2048" | "2048 \<le> unat c" "unat c < 65536"
    | "65536 \<le> unat c" by linarith
  then show ?thesis
  proof cases
    case 1
    then have "utf8_encode c = [ucast c]" "unat (ucast c :: u8) = unat c"
      by (simp_all add: utf8_encode_def word_less_nat_alt unat_ucast_u32_u8)
    with 1 get [of 0] show ?thesis
      by (simp add: utf8_decode_def utf8_encode_len_def word_less_nat_alt word_unat_eq_iff)
  next
    case 2
    from utf8_encode_unat(2) [OF 2] obtain b0 b1 where e: "utf8_encode c = [b0, b1]"
        "unat b0 = unat c div 64 + 192" "unat b1 = unat c mod 64 + 128"
      by (auto elim!: map_unat_Cons_cases)
    have r: "194 \<le> unat b0" "unat b0 \<le> 223" "128 \<le> unat b1" "unat b1 \<le> 191"
      unfolding e(2,3) using 2 by simp_all
    have "push_bit 6 (ucast b0 - 0xC0) + (ucast b1 - 0x80) = c"
      using r by (intro word_eq_unatI) (subst decode2_value, simp_all add: e(2,3))
    with r get [of 0] get [of 1] 2 show ?thesis
      by (simp add: e(1) utf8_decode_def utf8_encode_len_def word_le_nat_alt word_less_nat_alt)
  next
    case 3
    from utf8_encode_unat(3) [OF 3] obtain b0 b1 b2 where e: "utf8_encode c = [b0, b1, b2]"
        "unat b0 = unat c div 4096 + 224" "unat b1 = unat c div 64 mod 64 + 128"
        "unat b2 = unat c mod 64 + 128"
      by (auto elim!: map_unat_Cons_cases)
    have r: "224 \<le> unat b0" "unat b0 \<le> 239" "128 \<le> unat b1" "unat b1 \<le> 191"
        "128 \<le> unat b2" "unat b2 \<le> 191" "unat b0 = 224 \<Longrightarrow> 160 \<le> unat b1"
      unfolding e(2-4) using 3 by simp_all
    have "push_bit 12 (ucast b0 - 0xE0) + push_bit 6 (ucast b1 - 0x80) + (ucast b2 - 0x80) = c"
      using r by (intro word_eq_unatI) (subst decode3_value, simp_all add: e(2-4) sextets3)
    with r get [of 0] get [of 1] get [of 2] 3 show ?thesis
      by (auto simp: e(1) utf8_decode_def utf8_encode_len_def word_le_nat_alt word_less_nat_alt
          word_unat_eq_iff)
  next
    case 4
    from utf8_encode_unat(4) [OF 4 c'] obtain b0 b1 b2 b3 where e: "utf8_encode c = [b0, b1, b2, b3]"
        "unat b0 = unat c div 262144 + 240" "unat b1 = unat c div 4096 mod 64 + 128"
        "unat b2 = unat c div 64 mod 64 + 128" "unat b3 = unat c mod 64 + 128"
      by (auto elim!: map_unat_Cons_cases)
    have "unat c div 262144 = unat c div 4096 div 64" by (simp flip: div_mult2_eq)
    then have lim: "unat c div 4096 = unat c div 262144 * 64 + unat c div 4096 mod 64"
      by (simp only: div_mult_mod_eq)
    have m: "16 \<le> unat c div 4096" "unat c div 4096 < 272"
      using 4 c' by simp_all
    have r: "240 \<le> unat b0" "unat b0 \<le> 244" "128 \<le> unat b1" "unat b1 \<le> 191"
        "128 \<le> unat b2" "unat b2 \<le> 191" "128 \<le> unat b3" "unat b3 \<le> 191"
      unfolding e(2-5) using 4 c' by simp_all
    have x: "unat b0 = 240 \<Longrightarrow> 144 \<le> unat b1" "unat b0 = 244 \<Longrightarrow> unat b1 \<le> 143"
      unfolding e(2,3) using m lim by linarith+
    have "push_bit 18 (ucast b0 - 0xF0) + push_bit 12 (ucast b1 - 0x80) +
        push_bit 6 (ucast b2 - 0x80) + (ucast b3 - 0x80) = c"
      using r by (intro word_eq_unatI) (subst decode4_value, simp_all add: e(2-5) sextets4)
    moreover have "mem_get m (Suc (Suc (Suc p))) = Some b3"
      using get [of 3] by (simp add: e(1) numeral_3_eq_3)
    ultimately show ?thesis
      using r x get [of 0] get [of 1] get [of 2] 4 c'
      by (auto simp: e(1) utf8_decode_def utf8_encode_len_def word_le_nat_alt word_less_nat_alt
          word_unat_eq_iff)
  qed
qed

subsection \<open>The decoder accepts encodings only\<close>

lemma utf8_decode_elim:
  assumes "utf8_decode m p = Some (c, q)"
  obtains (error) b0 where "mem_get m p = Some b0" "128 \<le> unat b0" "c = 0xFFFD" "q = p + 1"
  | (one) b0 where "mem_get m p = Some b0" "unat b0 < 128" "c = ucast b0" "q = p + 1"
  | (two) b0 b1 where "mem_get m p = Some b0" "mem_get m (p + 1) = Some b1" "q = p + 2"
      "194 \<le> unat b0" "unat b0 \<le> 223" "128 \<le> unat b1" "unat b1 \<le> 191"
      "c = push_bit 6 (ucast b0 - 0xC0) + (ucast b1 - 0x80)"
  | (three) b0 b1 b2 where "mem_get m p = Some b0" "mem_get m (p + 1) = Some b1"
      "mem_get m (p + 2) = Some b2" "q = p + 3"
      "224 \<le> unat b0" "unat b0 \<le> 239" "128 \<le> unat b1" "unat b1 \<le> 191"
      "128 \<le> unat b2" "unat b2 \<le> 191" "unat b0 = 224 \<Longrightarrow> 160 \<le> unat b1"
      "c = push_bit 12 (ucast b0 - 0xE0) + push_bit 6 (ucast b1 - 0x80) + (ucast b2 - 0x80)"
  | (four) b0 b1 b2 b3 where "mem_get m p = Some b0" "mem_get m (p + 1) = Some b1"
      "mem_get m (p + 2) = Some b2" "mem_get m (p + 3) = Some b3" "q = p + 4"
      "240 \<le> unat b0" "unat b0 \<le> 244" "128 \<le> unat b1" "unat b1 \<le> 191"
      "128 \<le> unat b2" "unat b2 \<le> 191" "128 \<le> unat b3" "unat b3 \<le> 191"
      "unat b0 = 240 \<Longrightarrow> 144 \<le> unat b1" "unat b0 = 244 \<Longrightarrow> unat b1 \<le> 143"
      "c = push_bit 18 (ucast b0 - 0xF0) + push_bit 12 (ucast b1 - 0x80) +
         push_bit 6 (ucast b2 - 0x80) + (ucast b3 - 0x80)"
proof -
  obtain b0 where b0: "mem_get m p = Some b0"
    using assms by (auto simp: utf8_decode_def split: bind_splits)
  consider "unat b0 < 128" | "194 \<le> unat b0" "unat b0 \<le> 223" | "224 \<le> unat b0" "unat b0 \<le> 239"
    | "240 \<le> unat b0" "unat b0 \<le> 244" | "128 \<le> unat b0" "unat b0 < 194" | "244 < unat b0"
    by linarith
  then show ?thesis
  proof cases
    case 1
    then show ?thesis
      using assms b0 one by (simp add: utf8_decode_def word_less_nat_alt)
  next
    case 2
    then show ?thesis
      using assms b0 error two
      by (auto simp: utf8_decode_def Let_def word_less_nat_alt word_le_nat_alt split: bind_splits if_splits)
  next
    case 3
    then show ?thesis
      using assms b0 error three
      by (auto simp: utf8_decode_def Let_def word_less_nat_alt word_le_nat_alt word_unat_eq_iff
          split: bind_splits if_splits)
  next
    case 4
    then show ?thesis
      using assms b0 error four
      by (auto simp: utf8_decode_def Let_def word_less_nat_alt word_le_nat_alt word_unat_eq_iff
          numeral_3_eq_3 split: bind_splits if_splits)
  next
    case 5
    then show ?thesis
      using assms b0 error
      by (auto simp: utf8_decode_def Let_def word_less_nat_alt word_le_nat_alt)
  next
    case 6
    then show ?thesis
      using assms b0 error
      by (auto simp: utf8_decode_def Let_def word_less_nat_alt word_le_nat_alt)
  qed
qed

lemma encoded_at_lists:
  "mem_get m p = Some b0 \<Longrightarrow> encoded_at m p [b0]"
  "mem_get m p = Some b0 \<Longrightarrow> mem_get m (p + 1) = Some b1 \<Longrightarrow> encoded_at m p [b0, b1]"
  "mem_get m p = Some b0 \<Longrightarrow> mem_get m (p + 1) = Some b1 \<Longrightarrow> mem_get m (p + 2) = Some b2 \<Longrightarrow>
     encoded_at m p [b0, b1, b2]"
  "mem_get m p = Some b0 \<Longrightarrow> mem_get m (p + 1) = Some b1 \<Longrightarrow> mem_get m (p + 2) = Some b2 \<Longrightarrow>
     mem_get m (p + 3) = Some b3 \<Longrightarrow> encoded_at m p [b0, b1, b2, b3]"
  by (rule encoded_atI [OF refl]; auto simp: less_Suc_eq numeral_2_eq_2 numeral_3_eq_3)+

lemma sextet_digits:
  fixes x y z w :: nat
  assumes "x < 64" "y < 64" "z < 64"
  shows "(w * 64 + x) div 64 = w" "(w * 64 + x) mod 64 = x"
    "(w * 4096 + y * 64 + x) div 4096 = w" "(w * 4096 + y * 64 + x) div 64 mod 64 = y"
    "(w * 4096 + y * 64 + x) mod 64 = x"
    "(w * 262144 + z * 4096 + y * 64 + x) div 262144 = w"
    "(w * 262144 + z * 4096 + y * 64 + x) div 4096 mod 64 = z"
    "(w * 262144 + z * 4096 + y * 64 + x) div 64 mod 64 = y"
    "(w * 262144 + z * 4096 + y * 64 + x) mod 64 = x"
proof -
  have a: "(v * 64 + u) div 64 = v" "(v * 64 + u) mod 64 = u" if "u < 64" for u v :: nat
    using that by simp_all
  have e: "w * 4096 + y * 64 + x = (w * 64 + y) * 64 + x"
      "w * 262144 + z * 4096 + y * 64 + x = ((w * 64 + z) * 64 + y) * 64 + x"
    by simp_all
  have d: "(n :: nat) div 4096 = n div 64 div 64" "n div 262144 = n div 64 div 64 div 64" for n
    by (simp_all flip: div_mult2_eq)
  show "(w * 64 + x) div 64 = w" "(w * 64 + x) mod 64 = x"
    "(w * 4096 + y * 64 + x) div 4096 = w" "(w * 4096 + y * 64 + x) div 64 mod 64 = y"
    "(w * 4096 + y * 64 + x) mod 64 = x"
    "(w * 262144 + z * 4096 + y * 64 + x) div 262144 = w"
    "(w * 262144 + z * 4096 + y * 64 + x) div 4096 mod 64 = z"
    "(w * 262144 + z * 4096 + y * 64 + x) div 64 mod 64 = y"
    "(w * 262144 + z * 4096 + y * 64 + x) mod 64 = x"
    by (simp_all only: e d a assms)
qed

lemma utf8_decode_cases:
  assumes "utf8_decode m p = Some (c, q)"
  obtains (error) b0 where "mem_get m p = Some b0" "128 \<le> unat b0" "c = 0xFFFD" "q = p + 1"
  | (ok) "c < 0x110000" "encoded_at m p (utf8_encode c)" "q = p + utf8_encode_len c"
  using assms
proof (cases rule: utf8_decode_elim)
  case (one b0)
  then have "unat c = unat b0" by simp
  moreover from this have "utf8_encode c = [b0]"
    using one by (intro map_unat_inject) (simp add: utf8_encode_unat)
  ultimately show ?thesis
    using one by (intro ok) (simp_all add: encoded_at_lists utf8_encode_len_def word_less_nat_alt)
next
  case (two b0 b1)
  define w x where "w = unat b0 - 192" and "x = unat b1 - 128"
  have b: "unat b0 = w + 192" "unat b1 = x + 128" and r: "2 \<le> w" "w < 32" "x < 64"
    using two by (simp_all add: w_def x_def)
  have c: "unat c = w * 64 + x"
    unfolding two w_def x_def using two by (subst decode2_value) simp_all
  have "utf8_encode c = [b0, b1]"
    using r by (intro map_unat_inject) (simp add: utf8_encode_unat c sextet_digits b)
  then show ?thesis
    using two(1-3) r by (intro ok) (simp_all add: encoded_at_lists utf8_encode_len_def word_less_nat_alt c)
next
  case (three b0 b1 b2)
  define w y x where "w = unat b0 - 224" and "y = unat b1 - 128" and "x = unat b2 - 128"
  have b: "unat b0 = w + 224" "unat b1 = y + 128" "unat b2 = x + 128"
    and r: "w < 16" "y < 64" "x < 64" "w = 0 \<Longrightarrow> 32 \<le> y"
    using three by (simp_all add: w_def x_def y_def)
  have c: "unat c = w * 4096 + y * 64 + x"
    unfolding three w_def x_def y_def using three by (subst decode3_value) simp_all
  have lo: "2048 \<le> w * 4096 + y * 64 + x"
    using r by (cases "w = 0") auto
  have "utf8_encode c = [b0, b1, b2]"
    using r lo by (intro map_unat_inject) (simp add: utf8_encode_unat c sextet_digits b)
  then show ?thesis
    using three(1-4) r lo by (intro ok) (simp_all add: encoded_at_lists utf8_encode_len_def word_less_nat_alt c)
next
  case (four b0 b1 b2 b3)
  define w z y x where "w = unat b0 - 240" and "z = unat b1 - 128" and "y = unat b2 - 128"
    and "x = unat b3 - 128"
  have b: "unat b0 = w + 240" "unat b1 = z + 128" "unat b2 = y + 128" "unat b3 = x + 128"
    and r: "w \<le> 4" "z < 64" "y < 64" "x < 64"
    using four by (simp_all add: w_def x_def y_def z_def)
  have r4: "w = 0 \<Longrightarrow> 16 \<le> z" "w = 4 \<Longrightarrow> z < 16"
    using four(14,15) unfolding b by simp_all
  have c: "unat c = w * 262144 + z * 4096 + y * 64 + x"
    unfolding four w_def x_def y_def z_def using four by (subst decode4_value) simp_all
  have lo: "65536 \<le> w * 262144 + z * 4096 + y * 64 + x"
    using r r4 by (cases "w = 0") auto
  have hi: "w * 262144 + z * 4096 + y * 64 + x < 1114112"
    using r r4 by (cases "w = 4") auto
  have "utf8_encode c = [b0, b1, b2, b3]"
    using r lo hi by (intro map_unat_inject) (simp add: utf8_encode_unat c sextet_digits b)
  then show ?thesis
    using four(1-5) r lo hi by (intro ok) (simp_all add: encoded_at_lists utf8_encode_len_def word_less_nat_alt c)
qed (use that in blast)

subsection \<open>Decoding a bounded range\<close>

text \<open>How many bytes \<open>utf8_decode\<close> may look at, by the lead byte.\<close>

definition lead_len :: "u8 \<Rightarrow> nat" where
  "lead_len b = (if unat b < 0x80 then 1 else if unat b < 0xE0 then 2 else if unat b < 0xF0 then 3 else 4)"

lemma lead_len_cases:
  obtains "unat b < 0x80" "lead_len b = 1" | "0x80 \<le> unat b" "unat b < 0xE0" "lead_len b = 2"
  | "0xE0 \<le> unat b" "unat b < 0xF0" "lead_len b = 3" | "0xF0 \<le> unat b" "lead_len b = 4"
proof -
  consider "unat b < 0x80" | "0x80 \<le> unat b" "unat b < 0xE0" | "0xE0 \<le> unat b" "unat b < 0xF0"
    | "0xF0 \<le> unat b"
    by linarith
  then show ?thesis
    by cases (use that in \<open>simp_all add: lead_len_def\<close>)
qed

lemma utf8_decode_defined:
  assumes "p + lead_len (m ! p) \<le> length m"
  shows "utf8_decode m p \<noteq> None"
proof -
  have g: "mem_get m (p + i) = Some (m ! (p + i))" if "i < lead_len (m ! p)" for i
    using assms that by (simp add: mem_get_def)
  show ?thesis
  proof (cases "m ! p" rule: lead_len_cases)
    case 1
    with g [of 0] show ?thesis
      by (simp add: utf8_decode_def word_less_nat_alt)
  next
    case 2
    with g [of 0] g [of 1] show ?thesis
      by (simp add: utf8_decode_def Let_def word_less_nat_alt word_le_nat_alt)
  next
    case 3
    with g [of 0] g [of 1] g [of 2] show ?thesis
      by (simp add: utf8_decode_def Let_def word_less_nat_alt word_le_nat_alt)
  next
    case 4
    with g [of 0] g [of 1] g [of 2] g [of 3] show ?thesis
      by (simp add: utf8_decode_def Let_def word_less_nat_alt word_le_nat_alt numeral_3_eq_3)
  qed
qed

lemma hd_map_unat: "xs \<noteq> [] \<Longrightarrow> unat (hd xs) = hd (map unat xs)"
  by (simp add: hd_map)

lemma lead_len_encode:
  assumes "c < 0x110000" "encoded_at m p (utf8_encode c)"
  shows "lead_len (m ! p) = utf8_encode_len c"
proof -
  have c: "unat c < 1114112" using assms(1) by (simp add: word_less_nat_alt)
  have ne: "utf8_encode c \<noteq> []" by (simp add: utf8_encode_def)
  then have "m ! p = hd (utf8_encode c)"
    using encoded_at_get [OF assms(2), of 0] by (auto simp: mem_get_Some_iff hd_conv_nth)
  then have hd: "unat (m ! p) = hd (map unat (utf8_encode c))"
    using hd_map_unat [OF ne] by simp
  consider "unat c < 128" | "128 \<le> unat c" "unat c < 2048" | "2048 \<le> unat c" "unat c < 65536"
    | "65536 \<le> unat c" by linarith
  then show ?thesis
  proof cases
    case 4
    then have "unat c div 262144 \<le> 4" using c by simp
    with 4 c hd show ?thesis
      by (simp add: utf8_encode_unat lead_len_def utf8_encode_len_def word_less_nat_alt)
  qed (simp_all add: hd utf8_encode_unat lead_len_def utf8_encode_len_def word_less_nat_alt)
qed

lemma utf8_decode_len_eq:
  assumes "0 < n" "p + n \<le> length m"
  shows "utf8_decode_len m p n =
    (if lead_len (m ! p) \<le> n then utf8_decode m p else Some (0xFFFD, p + 1))"
proof -
  have g: "mem_get m p = Some (m ! p)"
    using assms by (simp add: mem_get_def)
  consider "n = 1" | "n = 2" | "n = 3" | "3 < n"
    using assms(1) by linarith
  then show ?thesis
    by cases (simp_all add: utf8_decode_len_def lead_len_def word_less_nat_alt g)
qed

lemma utf8_decode_len_cases:
  assumes "0 < n" "p + n \<le> length m"
  obtains (error) "utf8_decode_len m p n = Some (0xFFFD, p + 1)" "128 \<le> unat (m ! p)"
      "\<And>d. d < 0x110000 \<Longrightarrow> utf8_encode_len d \<le> n \<Longrightarrow> \<not> encoded_at m p (utf8_encode d)"
  | (ok) c where "utf8_decode_len m p n = Some (c, p + utf8_encode_len c)" "c < 0x110000"
      "encoded_at m p (utf8_encode c)" "utf8_encode_len c \<le> n"
proof (cases "lead_len (m ! p) \<le> n")
  case False
  then have "128 \<le> unat (m ! p)"
    using assms(1) by (auto simp: lead_len_def split: if_splits)
  moreover have "\<not> encoded_at m p (utf8_encode d)" if "d < 0x110000" "utf8_encode_len d \<le> n" for d
    using lead_len_encode that False by metis
  ultimately show ?thesis
    using False assms by (intro error) (simp_all add: utf8_decode_len_eq)
next
  case True
  with assms obtain c q where d: "utf8_decode m p = Some (c, q)"
    using utf8_decode_defined [of p m] by fastforce
  then have eq: "utf8_decode_len m p n = Some (c, q)"
    using True assms by (simp add: utf8_decode_len_eq)
  show ?thesis
    using d
  proof (cases rule: utf8_decode_cases)
    case (error b0)
    have "\<not> encoded_at m p (utf8_encode e)" if "e < 0x110000" for e
    proof
      assume "encoded_at m p (utf8_encode e)"
      from utf8_decode_encode_at [OF that this] d error have "e = 0xFFFD" "utf8_encode_len e = 1"
        by auto
      then show False by (simp add: utf8_encode_len_def word_less_nat_alt)
    qed
    then show ?thesis
      using error eq by (intro that(1)) (auto simp: mem_get_Some_iff)
  next
    case ok
    then show ?thesis
      using eq True lead_len_encode by (intro that(2)) auto
  qed
qed

lemma utf8_encode_len_pos [simp]: "0 < utf8_encode_len c"
  by (simp add: utf8_encode_len_def)

lemma utf8_decode_progress: "utf8_decode m p = Some (c, q) \<Longrightarrow> p < q"
  by (erule utf8_decode_cases) auto

lemma utf8_decode_len_progress: "utf8_decode_len m p n = Some (c, q) \<Longrightarrow> 0 < n \<Longrightarrow> p < q"
  by (auto simp: utf8_decode_len_def dest: utf8_decode_progress split: if_splits bind_splits)

text \<open>
  C27.  \<open>utf8_decode_len\<close> reads only the \<open>n\<close> bytes it was given.  It returns the code
  point whose canonical encoding starts there, consuming exactly that encoding; when no code point
  up to 0x10FFFF is encoded there within the range (overlong forms, truncated sequences, stray
  continuation bytes), it returns 0xFFFD and consumes one byte.
\<close>

theorem utf8_decode_len_spec:
  assumes "0 < n" "p + n \<le> length m"
  shows "\<exists>c q. utf8_decode_len m p n = Some (c, q) \<and>
    (c < 0x110000 \<and> q = p + utf8_encode_len c \<and> q \<le> p + n \<and> encoded_at m p (utf8_encode c) \<or>
     c = 0xFFFD \<and> q = p + 1 \<and>
       (\<forall>d. d < 0x110000 \<and> utf8_encode_len d \<le> n \<longrightarrow> \<not> encoded_at m p (utf8_encode d)))"
  by (rule utf8_decode_len_cases [OF assms]) auto

lemma utf8_decode_len_spec_witness:
  "\<exists>c q. utf8_decode_len [0x61, 0xE2, 0x82, 0xAC, 0x62] 1 4 = Some (c, q) \<and>
    (c < 0x110000 \<and> q = 1 + utf8_encode_len c \<or> c = 0xFFFD \<and> q = 2)"
  using utf8_decode_len_spec [of 4 1 "[0x61, 0xE2, 0x82, 0xAC, 0x62]"] by auto

text \<open>
  C28.  Decoding inverts encoding for every code point, surrogates included, wherever the encoding
  stands in a buffer and whatever follows it.
\<close>

theorem utf8_decode_encode:
  assumes "c < 0x110000"
  shows "utf8_decode (xs @ utf8_encode c @ ys) (length xs) = Some (c, length xs + length (utf8_encode c))"
  using utf8_decode_encode_at [OF assms encoded_at_append] by (simp add: length_utf8_encode)

lemma utf8_decode_encode_witness:
  "utf8_decode ([1] @ utf8_encode 0xD800 @ [2]) 1 = Some (0xD800, 1 + length (utf8_encode 0xD800))"
  using utf8_decode_encode [where c = "0xD800" and xs = "[1]" and ys = "[2]"]
  by (simp add: word_less_nat_alt)

end
