(* ===== verification/Utf8_Buf.thy ===== *)
theory Utf8_Buf
  imports Utf8
begin

section \<open>Scanning, decoding and encoding whole buffers\<close>

text \<open>
  The buffer functions of src/quickjs/cutils.c that string creation and string export are built
  on.  \<open>dest\<close> and \<open>src\<close> are memory blocks; \<open>dest_len\<close>, \<open>src_len\<close> the lengths passed.
  The reference is \<open>utf8_steps\<close>, the sequence of code points with the bytes
  each consumed, and \<open>utf16_units\<close>, their UTF-16 form.
\<close>

subsection \<open>Operations\<close>

text \<open>The result bits of \<open>utf8_scan\<close>.\<close>

definition UTF8_PLAIN_ASCII :: int where "UTF8_PLAIN_ASCII = 0"
definition UTF8_NON_ASCII :: int where "UTF8_NON_ASCII = 1"
definition UTF8_HAS_16BIT :: int where "UTF8_HAS_16BIT = 2"
definition UTF8_HAS_NON_BMP1 :: int where "UTF8_HAS_NON_BMP1 = 4"
definition UTF8_HAS_ERRORS :: int where "UTF8_HAS_ERRORS = 8"

lemmas utf8_kind_defs = UTF8_PLAIN_ASCII_def UTF8_NON_ASCII_def UTF8_HAS_16BIT_def
  UTF8_HAS_NON_BMP1_def UTF8_HAS_ERRORS_def

function utf8_scan_loop :: "u8 list \<Rightarrow> nat \<Rightarrow> nat \<Rightarrow> nat \<Rightarrow> int \<Rightarrow> (int \<times> nat) option" where
  "utf8_scan_loop buf p_end p len kind =
     (if p < p_end then do {
        b \<leftarrow> mem_get buf p;
        if 0x80 \<le> b then do {
          (c, p_next) \<leftarrow> utf8_decode_len buf p (p_end - p);
          utf8_scan_loop buf p_end p_next
            (if c > 0xFF \<and> c > 0xFFFF then len + 1 + 1 else len + 1)
            ((if p_next = p + 1 then kind OR UTF8_HAS_ERRORS else kind) OR
             (if c > 0xFF then UTF8_HAS_16BIT OR (if c > 0xFFFF then UTF8_HAS_NON_BMP1 else 0) else 0)) }
        else utf8_scan_loop buf p_end (p + 1) (len + 1) kind }
      else Some (kind, len))"
  by pat_completeness auto
termination
  by (relation "measure (\<lambda>(buf, p_end, p, len, kind). p_end - p)")
    (auto dest: utf8_decode_len_progress)

declare utf8_scan_loop.simps [simp del]

definition utf8_scan :: "u8 list \<Rightarrow> nat \<Rightarrow> (int \<times> nat) option" where
  "utf8_scan buf buf_len = do {
     bs \<leftarrow> mem_read buf 0 buf_len;
     let cbits = foldl (\<lambda>acc b. acc OR b) 0 bs;
     if 0x80 \<le> cbits then utf8_scan_loop buf buf_len 0 0 UTF8_NON_ASCII
     else Some (UTF8_PLAIN_ASCII, buf_len) }"

text \<open>A store that is skipped beyond the destination's length.\<close>

definition store_at :: "'a list \<Rightarrow> nat \<Rightarrow> nat \<Rightarrow> 'a \<Rightarrow> 'a list option" where
  "store_at dest dest_len i v = (if i < dest_len then mem_set dest i v else Some dest)"

text \<open>
  \<open>utf8_decode_buf8\<close> trusts its input: the byte after a lead byte is read without a look
  at \<open>p_end\<close>.
\<close>

function decode_buf8_loop ::
    "u8 list \<Rightarrow> nat \<Rightarrow> u8 list \<Rightarrow> nat \<Rightarrow> nat \<Rightarrow> nat \<Rightarrow> (u8 list \<times> nat) option" where
  "decode_buf8_loop dest dest_len src p_end p i =
     (if p < p_end then do {
        b \<leftarrow> mem_get src p;
        let c = (ucast b :: u32);
        if 0xC0 \<le> c then do {
          b1 \<leftarrow> mem_get src (p + 1);
          dest \<leftarrow> store_at dest dest_len i
                   (ucast (push_bit 6 c + ucast b1 - (push_bit 6 0xC0 + 0x80)));
          decode_buf8_loop dest dest_len src p_end (p + 2) (i + 1) }
        else do {
          dest \<leftarrow> store_at dest dest_len i (ucast c);
          decode_buf8_loop dest dest_len src p_end (p + 1) (i + 1) } }
      else Some (dest, i))"
  by pat_completeness auto
termination
  by (relation "measure (\<lambda>(dest, dest_len, src, p_end, p, i). p_end - p)") auto

declare decode_buf8_loop.simps [simp del]

definition utf8_decode_buf8 :: "u8 list \<Rightarrow> nat \<Rightarrow> u8 list \<Rightarrow> nat \<Rightarrow> (u8 list \<times> nat) option" where
  "utf8_decode_buf8 dest dest_len src src_len = do {
     (dest, i) \<leftarrow> decode_buf8_loop dest dest_len src src_len 0 0;
     if i < dest_len then do { dest \<leftarrow> mem_set dest i 0; Some (dest, i) }
     else if 0 < dest_len then do { dest \<leftarrow> mem_set dest (dest_len - 1) 0; Some (dest, i) }
     else Some (dest, i) }"

function decode_buf16_loop ::
    "u16 list \<Rightarrow> nat \<Rightarrow> u8 list \<Rightarrow> nat \<Rightarrow> nat \<Rightarrow> nat \<Rightarrow> (u16 list \<times> nat) option" where
  "decode_buf16_loop dest dest_len src p_end p i =
     (if p < p_end then do {
        b \<leftarrow> mem_get src p;
        if 0x80 \<le> b then do {
          (c, q) \<leftarrow> utf8_decode_len src p (p_end - p);
          if c > 0xFFFF then do {
            dest \<leftarrow> store_at dest dest_len i (ucast (get_hi_surrogate c));
            dest \<leftarrow> store_at dest dest_len (i + 1) (ucast (get_lo_surrogate c));
            decode_buf16_loop dest dest_len src p_end q (i + 2) }
          else do {
            dest \<leftarrow> store_at dest dest_len i (ucast c);
            decode_buf16_loop dest dest_len src p_end q (i + 1) } }
        else do {
          dest \<leftarrow> store_at dest dest_len i (ucast b);
          decode_buf16_loop dest dest_len src p_end (p + 1) (i + 1) } }
      else Some (dest, i))"
  by pat_completeness auto
termination
  by (relation "measure (\<lambda>(dest, dest_len, src, p_end, p, i). p_end - p)")
    (auto dest: utf8_decode_len_progress)

declare decode_buf16_loop.simps [simp del]

definition utf8_decode_buf16 :: "u16 list \<Rightarrow> nat \<Rightarrow> u8 list \<Rightarrow> nat \<Rightarrow> (u16 list \<times> nat) option" where
  "utf8_decode_buf16 dest dest_len src src_len = decode_buf16_loop dest dest_len src src_len 0 0"

text \<open>
  The encoders.  \<open>dest\<close> gets as many whole encodings as fit with a final zero; the result
  is the length the whole output needs.  The label \<open>overflow\<close> is the function
  \<open>encode_bufN_overflow\<close>: terminate what was written, then only count.
\<close>

fun encode_buf8_count :: "u8 list \<Rightarrow> nat \<Rightarrow> nat" where
  "encode_buf8_count [] j = j"
| "encode_buf8_count (c # src) j = encode_buf8_count src (j + (1 + (if 0x80 \<le> c then 1 else 0)))"

fun encode_buf8_loop :: "u8 list \<Rightarrow> nat \<Rightarrow> u8 list \<Rightarrow> nat \<Rightarrow> (u8 list \<times> nat) option" where
  "encode_buf8_loop dest dest_len [] j = map_option (\<lambda>d. (d, j)) (store_at dest dest_len j 0)"
| "encode_buf8_loop dest dest_len (b # src) j =
     (let c = (ucast b :: u32);
          overflow = map_option (\<lambda>d. (d, encode_buf8_count (b # src) j)) (store_at dest dest_len j 0)
      in if c < 0x80 then
           (if dest_len \<le> j + 1 then overflow
            else do { dest \<leftarrow> mem_set dest j (ucast c);
                      encode_buf8_loop dest dest_len src (j + 1) })
         else
           (if dest_len \<le> j + 2 then overflow
            else do { dest \<leftarrow> mem_set dest j (ucast (drop_bit 6 c OR 0xC0));
                      dest \<leftarrow> mem_set dest (j + 1) (ucast ((c AND 0x3F) OR 0x80));
                      encode_buf8_loop dest dest_len src (j + 2) }))"

definition utf8_encode_buf8 :: "u8 list \<Rightarrow> nat \<Rightarrow> u8 list \<Rightarrow> nat \<Rightarrow> (u8 list \<times> nat) option" where
  "utf8_encode_buf8 dest dest_len src src_len = do {
     s \<leftarrow> mem_read src 0 src_len;
     encode_buf8_loop dest dest_len s 0 }"

text \<open>
  The next code point of a 16-bit source at \<open>i\<close>, with the index after it: a high surrogate
  followed by a low one is one code point.
\<close>

definition next_code16 :: "u16 list \<Rightarrow> nat \<Rightarrow> nat \<Rightarrow> (u32 \<times> nat) option" where
  "next_code16 src src_len i = do {
     u \<leftarrow> mem_get src i;
     let c = (ucast u :: u32);
     if c < 0x80 then Some (c, i + 1)
     else if is_hi_surrogate c \<and> i + 1 < src_len then do {
       v \<leftarrow> mem_get src (i + 1);
       if is_lo_surrogate (ucast v) then Some (from_surrogate c (ucast v), i + 2)
       else Some (c, i + 1) }
     else Some (c, i + 1) }"

lemma next_code16_progress: "next_code16 src n i = Some (c, k) \<Longrightarrow> i < k"
  by (auto simp: next_code16_def Let_def split: if_splits bind_splits)

function encode_buf16_count :: "u16 list \<Rightarrow> nat \<Rightarrow> nat \<Rightarrow> nat \<Rightarrow> nat option" where
  "encode_buf16_count src src_len i j =
     (if i < src_len then do {
        (c, k) \<leftarrow> next_code16 src src_len i;
        encode_buf16_count src src_len k (if c < 0x80 then j + 1 else j + utf8_encode_len c) }
      else Some j)"
  by pat_completeness auto
termination
  by (relation "measure (\<lambda>(src, src_len, i, j). src_len - i)") (auto dest: next_code16_progress)

declare encode_buf16_count.simps [simp del]

definition encode_buf16_overflow ::
    "u8 list \<Rightarrow> nat \<Rightarrow> u16 list \<Rightarrow> nat \<Rightarrow> nat \<Rightarrow> nat \<Rightarrow> u32 \<Rightarrow> (u8 list \<times> nat) option" where
  "encode_buf16_overflow dest dest_len src src_len i j c = do {
     let i = i - (1 + (if c > 0xFFFF then 1 else 0));
     d \<leftarrow> store_at dest dest_len j 0;
     n \<leftarrow> encode_buf16_count src src_len i j;
     Some (d, n) }"

function encode_buf16_loop ::
    "u8 list \<Rightarrow> nat \<Rightarrow> u16 list \<Rightarrow> nat \<Rightarrow> nat \<Rightarrow> nat \<Rightarrow> (u8 list \<times> nat) option" where
  "encode_buf16_loop dest dest_len src src_len i j =
     (if i < src_len then do {
        (c, k) \<leftarrow> next_code16 src src_len i;
        if c < 0x80 then
          (if dest_len \<le> j + 1 then encode_buf16_overflow dest dest_len src src_len k j c
           else do { dest \<leftarrow> mem_set dest j (ucast c);
                     encode_buf16_loop dest dest_len src src_len k (j + 1) })
        else
          (if dest_len \<le> j + utf8_encode_len c then encode_buf16_overflow dest dest_len src src_len k j c
           else do { dest \<leftarrow> mem_write dest j (utf8_encode c);
                     encode_buf16_loop dest dest_len src src_len k (j + length (utf8_encode c)) }) }
      else map_option (\<lambda>d. (d, j)) (store_at dest dest_len j 0))"
  by pat_completeness auto
termination
  by (relation "measure (\<lambda>(dest, dest_len, src, src_len, i, j). src_len - i)")
    (auto dest: next_code16_progress)

declare encode_buf16_loop.simps [simp del]

definition utf8_encode_buf16 :: "u8 list \<Rightarrow> nat \<Rightarrow> u16 list \<Rightarrow> nat \<Rightarrow> (u8 list \<times> nat) option" where
  "utf8_encode_buf16 dest dest_len src src_len = encode_buf16_loop dest dest_len src src_len 0 0"


subsection \<open>The reference: code points and UTF-16 units\<close>

text \<open>
  The code points of the bytes \<open>p\<close> to \<open>e\<close>, with the number of bytes each one took,
  and the UTF-16 units of a code point.
\<close>

function utf8_steps :: "u8 list \<Rightarrow> nat \<Rightarrow> nat \<Rightarrow> (u32 \<times> nat) list" where
  "utf8_steps m p e =
     (if p < e then case utf8_decode_len m p (e - p) of
        None \<Rightarrow> []
      | Some (c, q) \<Rightarrow> (c, q - p) # utf8_steps m q e
      else [])"
  by pat_completeness auto
termination
  by (relation "measure (\<lambda>(m, p, e). e - p)") (auto dest: utf8_decode_len_progress)

declare utf8_steps.simps [simp del]

definition utf16_of :: "u32 \<Rightarrow> u16 list" where
  "utf16_of c = (if c > 0xFFFF then [ucast (get_hi_surrogate c), ucast (get_lo_surrogate c)]
                 else [ucast c])"

definition utf16_units :: "u32 list \<Rightarrow> u16 list" where
  "utf16_units cs = concat (map utf16_of cs)"

lemma utf16_units_simps [simp]:
  "utf16_units [] = []" "utf16_units (c # cs) = utf16_of c @ utf16_units cs"
  by (simp_all add: utf16_units_def)

lemma utf8_steps_done [simp]: "e \<le> p \<Longrightarrow> utf8_steps m p e = []"
  by (subst utf8_steps.simps) simp

text \<open>One step, with the facts every induction below needs.\<close>

lemma utf8_step_obtain:
  assumes "p < e" "e \<le> length m"
  obtains c q where "utf8_decode_len m p (e - p) = Some (c, q)" "p < q" "q \<le> e"
    "utf8_steps m p e = (c, q - p) # utf8_steps m q e"
    "unat (m ! p) < 128 \<Longrightarrow> c = ucast (m ! p) \<and> q = p + 1"
    "128 \<le> unat (m ! p) \<Longrightarrow> 128 \<le> unat c"
proof -
  have n: "0 < e - p" "p + (e - p) \<le> length m" using assms by auto
  show ?thesis
  proof (cases rule: utf8_decode_len_cases [OF n])
    case 1
    then show ?thesis
      using assms by (intro that [of "0xFFFD" "p + 1"]) (simp_all add: utf8_steps.simps [of m p e])
  next
    case (2 c)
    have len: "lead_len (m ! p) = utf8_encode_len c"
      using 2 by (rule_tac lead_len_encode)
    have "utf8_decode m p = Some (c, p + utf8_encode_len c)"
      using 2 by (intro utf8_decode_encode_at)
    then have a: "c = ucast (m ! p) \<and> utf8_encode_len c = 1" if "unat (m ! p) < 128"
      using that n by (simp add: utf8_decode_def mem_get_def word_less_nat_alt split: if_splits)
    have b: "128 \<le> unat c" if "128 \<le> unat (m ! p)"
      using that len by (auto simp: lead_len_def utf8_encode_len_def word_less_nat_alt split: if_splits)
    show ?thesis
      using 2 assms a b by (intro that [of c "p + utf8_encode_len c"])
        (auto simp: utf8_steps.simps [of m p e])
  qed
qed

lemma utf8_steps_induct [consumes 1, case_names stop step]:
  assumes "e \<le> length m"
    and "\<And>p. e \<le> p \<Longrightarrow> P p"
    and "\<And>p c q. p < e \<Longrightarrow> utf8_decode_len m p (e - p) = Some (c, q) \<Longrightarrow> p < q \<Longrightarrow> q \<le> e \<Longrightarrow>
      utf8_steps m p e = (c, q - p) # utf8_steps m q e \<Longrightarrow>
      (unat (m ! p) < 128 \<Longrightarrow> c = ucast (m ! p) \<and> q = p + 1) \<Longrightarrow>
      (128 \<le> unat (m ! p) \<Longrightarrow> 128 \<le> unat c) \<Longrightarrow> P q \<Longrightarrow> P p"
  shows "P p"
proof (induction "e - p" arbitrary: p rule: less_induct)
  case less
  show ?case
  proof (cases "p < e")
    case True
    obtain c q where s: "utf8_decode_len m p (e - p) = Some (c, q)" "p < q" "q \<le> e"
      "utf8_steps m p e = (c, q - p) # utf8_steps m q e"
      "unat (m ! p) < 128 \<Longrightarrow> c = ucast (m ! p) \<and> q = p + 1" "128 \<le> unat (m ! p) \<Longrightarrow> 128 \<le> unat c"
      by (rule utf8_step_obtain [OF True assms(1)]) blast
    from less s True have "P q" by simp
    with assms(3) [OF True s] show ?thesis by simp
  qed (use assms(2) in simp)
qed

subsection \<open>Scanning\<close>

text \<open>The kind bits one code point contributes, given the bytes it took.\<close>

definition step_kind :: "u32 \<times> nat \<Rightarrow> int" where
  "step_kind = (\<lambda>(c, n). if c < 0x80 then 0 else
     (if n = 1 then UTF8_HAS_ERRORS else 0) OR
     (if c > 0xFF then UTF8_HAS_16BIT OR (if c > 0xFFFF then UTF8_HAS_NON_BMP1 else 0) else 0))"

definition steps_kind :: "int \<Rightarrow> (u32 \<times> nat) list \<Rightarrow> int" where
  "steps_kind = foldl (\<lambda>k s. k OR step_kind s)"

lemma ucast_small: "unat (b :: u8) < 128 \<Longrightarrow> (ucast b :: u32) < 0x80"
  by (simp add: word_less_nat_alt)

lemma utf8_scan_loop_eq:
  assumes "e \<le> length m"
  shows "utf8_scan_loop m e p len kind =
    Some (steps_kind kind (utf8_steps m p e),
          len + length (utf16_units (map fst (utf8_steps m p e))))"
  using assms
proof (induction p arbitrary: len kind rule: utf8_steps_induct)
  case (stop p)
  then show ?case by (simp add: utf8_scan_loop.simps [of m e p] steps_kind_def)
next
  case (step p c q)
  have g: "mem_get m p = Some (m ! p)" using step assms by (simp add: mem_get_def)
  show ?case
  proof (cases "unat (m ! p) < 128")
    case True
    with step have s: "utf8_steps m p e = (ucast (m ! p), 1) # utf8_steps m (p + 1) e" "c = ucast (m ! p)" "q = p + 1"
      by auto
    have "ucast (m ! p) < (0x80 :: u32)" using True by (rule ucast_small)
    moreover have "\<not> (ucast (m ! p) :: u32) > 0xFFFF" using True by (simp add: word_less_nat_alt)
    ultimately show ?thesis
      using True s(3) step(1) step.IH by (simp add: utf8_scan_loop.simps [of m e p] s(1) g word_le_nat_alt
        steps_kind_def step_kind_def utf16_of_def word_less_nat_alt)
  next
    case False
    then have c: "128 \<le> unat c" using step by simp
    have "(q = p + 1) = (q - p = 1)" using step by linarith
    then show ?thesis
      using False step(1,2) c
      by (simp add: utf8_scan_loop.simps [of m e p] step.hyps(5) g word_le_nat_alt step.IH
        steps_kind_def step_kind_def utf16_of_def word_less_nat_alt or.assoc)
  qed
qed


subsection \<open>Stores cut off at the destination's length\<close>

fun put_list :: "'a list \<Rightarrow> nat \<Rightarrow> nat \<Rightarrow> 'a list \<Rightarrow> 'a list" where
  "put_list dest n i [] = dest"
| "put_list dest n i (x # xs) = put_list (if i < n then dest[i := x] else dest) n (i + 1) xs"

lemma put_list_append: "put_list dest n i (xs @ ys) = put_list (put_list dest n i xs) n (i + length xs) ys"
  by (induction dest n i xs rule: put_list.induct) auto

lemma length_put_list [simp]: "length (put_list dest n i xs) = length dest"
  by (induction dest n i xs rule: put_list.induct) auto

lemma store_at_eq:
  "n \<le> length dest \<Longrightarrow> store_at dest n i x = Some (if i < n then dest[i := x] else dest)"
  by (simp add: store_at_def mem_set_def)

lemma put_list_out: "n \<le> i \<Longrightarrow> put_list dest n i xs = dest"
  by (induction dest n i xs rule: put_list.induct) auto

lemma put_list_eq:
  assumes "n \<le> length dest" "i \<le> n"
  shows "put_list dest n i xs = take i dest @ take (n - i) xs @ drop (min n (i + length xs)) dest"
  using assms
proof (induction dest n i xs rule: put_list.induct)
  case (2 dest n i x xs)
  show ?case
  proof (cases "i < n")
    case True
    then have "take (Suc i) (dest[i := x]) = take i dest @ [x]"
      using 2 by (simp add: take_Suc_conv_app_nth)
    moreover have "take (n - i) (x # xs) = x # take (n - Suc i) xs"
      using True by (cases "n - i") (auto simp: Suc_diff_Suc [symmetric])
    moreover have "drop (min n (Suc i + length xs)) (dest[i := x]) = drop (min n (Suc i + length xs)) dest"
      using True by simp
    ultimately show ?thesis
      using True 2 by simp
  next
    case False
    with 2 show ?thesis by (simp add: put_list_out)
  qed
qed simp

corollary put_list_start:
  "n \<le> length dest \<Longrightarrow> put_list dest n 0 xs = take n xs @ drop (min n (length xs)) dest"
  by (simp add: put_list_eq)

subsection \<open>Decoding\<close>

lemma ucast_u8_u16_u32: "ucast (ucast (b :: u8) :: u32) = (ucast b :: u16)"
  by (rule bit_word_eqI) (auto simp: bit_simps dest: bit_imp_le_length)

lemma decode_buf16_loop_eq:
  assumes "e \<le> length src" "n \<le> length dest"
  shows "decode_buf16_loop dest n src e p i =
    (let us = utf16_units (map fst (utf8_steps src p e))
     in Some (put_list dest n i us, i + length us))"
  using assms
proof (induction p arbitrary: dest i rule: utf8_steps_induct)
  case (stop p)
  then show ?case by (simp add: decode_buf16_loop.simps [of _ _ _ e p])
next
  case (step p c q)
  have g: "mem_get src p = Some (src ! p)" using step assms by (simp add: mem_get_def)
  show ?case
  proof (cases "unat (src ! p) < 128")
    case True
    with step have s: "utf8_steps src p e = (ucast (src ! p), 1) # utf8_steps src (p + 1) e" "q = p + 1"
      by auto
    have "\<not> (ucast (src ! p) :: u32) > 0xFFFF"
      using True by (simp add: word_less_nat_alt)
    then show ?thesis
      using True s(2) step(1) step.prems step.IH
      by (simp add: decode_buf16_loop.simps [of _ _ _ e p] s(1) g word_le_nat_alt utf16_of_def store_at_eq
          Let_def ucast_u8_u16_u32)
  next
    case False
    then show ?thesis
      using step(1,2) step.prems step.IH
      by (simp add: decode_buf16_loop.simps [of _ _ _ e p] step.hyps(5) g word_le_nat_alt utf16_of_def
          store_at_eq Let_def)
  qed
qed

lemma utf8_decode_buf16_eq:
  assumes "n \<le> length src" "k \<le> length dest"
  shows "utf8_decode_buf16 dest k src n =
    (let us = utf16_units (map fst (utf8_steps src 0 n))
     in Some (take k us @ drop (min k (length us)) dest, length us))"
  using assms by (simp add: utf8_decode_buf16_def decode_buf16_loop_eq put_list_start Let_def)

text \<open>
  The 8-bit decoder computes the code points when every one of them is below 0x100 and the
  source has no encoding error.
\<close>

lemma decode2_small:
  assumes "encoded_at m p (utf8_encode c)" "128 \<le> unat c" "unat c < 256"
  shows "mem_get m p = Some (m ! p)" "mem_get m (p + 1) = Some (m ! (p + 1))"
    "0xC0 \<le> (ucast (m ! p) :: u32)"
    "ucast (push_bit 6 (ucast (m ! p)) + ucast (m ! (p + 1)) - (push_bit 6 0xC0 + 0x80) :: u32) = (ucast c :: u8)"
proof -
  obtain b0 b1 where e: "utf8_encode c = [b0, b1]" "unat b0 = unat c div 64 + 192" "unat b1 = unat c mod 64 + 128"
    using assms(2,3) utf8_encode_unat(2) [of c] by (auto elim!: map_unat_Cons_cases)
  have g: "mem_get m p = Some b0" "mem_get m (p + 1) = Some b1"
    using encoded_at_get [OF assms(1), of 0] encoded_at_get [OF assms(1), of 1] e(1) by simp_all
  then have m: "m ! p = b0" "m ! (p + 1) = b1" by (simp_all add: mem_get_Some_iff)
  show "mem_get m p = Some (m ! p)" "mem_get m (p + 1) = Some (m ! (p + 1))" using g m by simp_all
  show "0xC0 \<le> (ucast (m ! p) :: u32)" using e by (simp add: m word_le_nat_alt)
  have d: "unat c div 64 < 4" using assms(3) by simp
  have p: "unat (push_bit 6 (ucast b0) :: u32) = unat b0 * 64"
    using e(2) d by (subst unat_push_bit_small) simp_all
  have q: "push_bit 6 0xC0 + 0x80 = (12416 :: u32)" by (simp add: push_bit_eq_mult)
  have a: "unat (push_bit 6 (ucast b0) + ucast b1 :: u32) = unat b0 * 64 + unat b1"
    using e d by (subst unat_plus_small) (simp_all add: p)
  have "unat (push_bit 6 (ucast b0) + ucast b1 - 12416 :: u32) = unat b0 * 64 + unat b1 - 12416"
    using e d by (subst unat_minus_small) (simp_all add: a word_le_nat_alt)
  also have "\<dots> = unat c"
    using e(2,3) div_mult_mod_eq [of "unat c" 64] by simp
  finally show "ucast (push_bit 6 (ucast (m ! p)) + ucast (m ! (p + 1)) - (push_bit 6 0xC0 + 0x80) :: u32) = (ucast c :: u8)"
    unfolding m q by (metis word_unat_eq_iff)
qed


lemma utf8_step_encoded:
  assumes "utf8_decode_len m p n = Some (c, q)" "0 < n" "p + n \<le> length m" "q \<noteq> p + 1 \<or> unat c < 128"
  shows "encoded_at m p (utf8_encode c) \<and> q = p + utf8_encode_len c \<and> c < 0x110000"
  using assms by (cases rule: utf8_decode_len_cases [OF assms(2,3)]) auto

lemma ucast_u8_u32_u8: "ucast (ucast (b :: u8) :: u32) = b"
  by (rule bit_word_eqI) (auto simp: bit_simps dest: bit_imp_le_length)

lemma decode_buf8_loop_eq:
  assumes "e \<le> length src" "n \<le> length dest"
    and "\<forall>(c, k) \<in> set (utf8_steps src p e). unat c < 128 \<or> unat c < 256 \<and> k \<noteq> 1"
  shows "decode_buf8_loop dest n src e p i =
    (let us = map (ucast \<circ> fst) (utf8_steps src p e)
     in Some (put_list dest n i us, i + length us))"
  using assms
proof (induction p arbitrary: dest i rule: utf8_steps_induct)
  case (stop p)
  then show ?case by (simp add: decode_buf8_loop.simps [of _ _ _ e p])
next
  case (step p c q)
  have g: "mem_get src p = Some (src ! p)" using step assms by (simp add: mem_get_def)
  show ?case
  proof (cases "unat (src ! p) < 128")
    case True
    with step have s: "utf8_steps src p e = (ucast (src ! p), 1) # utf8_steps src (p + 1) e" "q = p + 1"
      by auto
    have "\<not> (0xC0 :: u32) \<le> ucast (src ! p)"
      using True by (simp add: word_le_nat_alt)
    then show ?thesis
      using True s(2) step(1) step.prems step.IH
      by (simp add: decode_buf8_loop.simps [of _ _ _ e p] s(1) g store_at_eq Let_def ucast_u8_u32_u8)
  next
    case False
    then have c: "128 \<le> unat c" "unat c < 256" "q \<noteq> p + 1"
      using step.hyps step.prems by auto
    have enc: "encoded_at src p (utf8_encode c)" "q = p + utf8_encode_len c"
      using utf8_step_encoded [OF step.hyps(2)] step.hyps(1) assms(1) c by auto
    then have q: "q = p + 2"
      using c by (simp add: utf8_encode_len_def word_less_nat_alt)
    show ?thesis
      using step(1) step.prems step.IH decode2_small [OF enc(1) c(1,2)] q
      by (simp add: decode_buf8_loop.simps [of _ _ _ e p] step.hyps(5) store_at_eq Let_def)
  qed
qed

lemma utf8_decode_buf8_eq:
  assumes "n \<le> length src" "0 < k" "k \<le> length dest"
    and "\<forall>(c, k) \<in> set (utf8_steps src 0 n). unat c < 128 \<or> unat c < 256 \<and> k \<noteq> 1"
  shows "utf8_decode_buf8 dest k src n =
    (let us = map (ucast \<circ> fst) (utf8_steps src 0 n); w = take (k - 1) us @ [0]
     in Some (w @ drop (length w) dest, length us))"
proof -
  define us :: "u8 list" where "us = map (ucast \<circ> fst) (utf8_steps src 0 n)"
  have l: "decode_buf8_loop dest k src n 0 0 = Some (take k us @ drop (min k (length us)) dest, length us)"
    using decode_buf8_loop_eq [OF assms(1,3,4), of 0] put_list_start [OF assms(3), of us]
    by (simp add: Let_def us_def)
  show ?thesis
  proof (cases "length us < k")
    case True
    then have "take (k - 1) us = us" "take k us = us" by simp_all
    then show ?thesis
      using True l assms(3)
      by (simp add: utf8_decode_buf8_def mem_set_in list_update_prefix_drop min_def Let_def flip: us_def)
  next
    case False
    have "(take k us)[k - Suc 0 := 0] = take (k - Suc 0) us @ [0]"
      using False assms(2) by (cases k) (simp_all add: take_Suc_conv_app_nth list_update_append)
    then show ?thesis
      using False l assms(2,3)
      by (simp add: utf8_decode_buf8_def mem_set_in list_update_append min_def Let_def flip: us_def)
  qed
qed

subsection \<open>The kind a scan reports\<close>

lemma or_int_shuffle: "(a OR b) OR (c OR d) = (a OR c) OR (b OR (d :: int))"
  by (simp add: ac_simps)

definition kind_of :: "(u32 \<times> nat) list \<Rightarrow> int" where
  "kind_of ss = (if \<exists>(c, n) \<in> set ss. 128 \<le> unat c \<and> n = 1 then UTF8_HAS_ERRORS else 0) OR
     ((if \<exists>(c, n) \<in> set ss. 256 \<le> unat c then UTF8_HAS_16BIT else 0) OR
      (if \<exists>(c, n) \<in> set ss. 65536 \<le> unat c then UTF8_HAS_NON_BMP1 else 0))"

lemma or_flag: "(if P then f else 0) OR (if Q then f else (0 :: int)) = (if P \<or> Q then f else 0)"
  by simp

lemma kind_of_Cons: "kind_of (s # ss) = step_kind s OR kind_of ss"
proof -
  obtain c n where s: "s = (c, n)" by force
  have k: "step_kind s = (if 128 \<le> unat c \<and> n = 1 then UTF8_HAS_ERRORS else 0) OR
     ((if 256 \<le> unat c then UTF8_HAS_16BIT else 0) OR (if 65536 \<le> unat c then UTF8_HAS_NON_BMP1 else 0))"
    by (simp add: s step_kind_def word_less_nat_alt)
  show ?thesis
    unfolding k unfolding s kind_of_def or_int_shuffle or_flag by simp
qed

lemma steps_kind_eq: "steps_kind k ss = k OR kind_of ss"
proof (induction ss arbitrary: k)
  case Nil
  show ?case by (simp add: steps_kind_def kind_of_def)
next
  case (Cons s ss)
  from Cons [of "k OR step_kind s"] show ?case
    by (simp add: steps_kind_def kind_of_Cons or.assoc)
qed


lemma ge_80_iff_bit: "0x80 \<le> (w :: u8) \<longleftrightarrow> bit w 7"
proof -
  have "bit w 7 \<longleftrightarrow> odd (unat w div 128)"
    using bit_unsigned_iff [where 'a = nat, of w 7] by (auto simp: bit_iff_odd)
  moreover have "unat w div 128 = 0 \<or> unat w div 128 = 1"
    using unat_u8_less [of w] by linarith
  ultimately show ?thesis
    by (auto simp: word_le_nat_alt)
qed

lemma or_all_ascii:
  "0x80 \<le> foldl (\<lambda>acc b. acc OR b) (a :: u8) bs \<longleftrightarrow> 0x80 \<le> a \<or> (\<exists>b \<in> set bs. 0x80 \<le> b)"
  by (induction bs arbitrary: a) (auto simp: ge_80_iff_bit bit_or_iff)

lemma utf8_steps_ascii:
  assumes "e \<le> length m" "\<forall>i < e. unat (m ! i) < 128"
  shows "utf8_steps m p e = map (\<lambda>b. (ucast b, 1)) (drop p (take e m))"
  using assms(1)
proof (induction p rule: utf8_steps_induct)
  case (step p c q)
  then have "drop p (take e m) = m ! p # drop (p + 1) (take e m)"
    using assms(1) Cons_nth_drop_Suc [of p "take e m", symmetric] by simp
  with step assms(2) show ?case by simp
qed simp

lemma utf16_units_ascii:
  "\<forall>b \<in> set bs. unat (b :: u8) < 128 \<Longrightarrow> utf16_units (map ucast bs) = map ucast bs"
  by (induction bs) (auto simp: utf16_of_def word_less_nat_alt ucast_u8_u16_u32)

lemma utf8_scan_eq:
  assumes "n \<le> length buf"
  shows "utf8_scan buf n = Some
    (if \<forall>b \<in> set (take n buf). unat b < 128 then UTF8_PLAIN_ASCII
     else UTF8_NON_ASCII OR kind_of (utf8_steps buf 0 n),
     length (utf16_units (map fst (utf8_steps buf 0 n))))"
proof (cases "\<forall>b \<in> set (take n buf). unat b < 128")
  case True
  then have "\<forall>i < n. unat (buf ! i) < 128"
    using assms by (metis length_take min.absorb2 nth_mem nth_take)
  from utf8_steps_ascii [OF assms this, of 0]
  have "utf16_units (map fst (utf8_steps buf 0 n)) = map ucast (take n buf)"
    using utf16_units_ascii [OF True] by (simp add: comp_def)
  moreover have "\<not> 0x80 \<le> foldl (\<lambda>acc b. acc OR b) (0 :: u8) (take n buf)"
    using True by (subst or_all_ascii) (auto simp: word_le_nat_alt)
  ultimately show ?thesis
    using True assms by (simp add: utf8_scan_def mem_simps Let_def)
next
  case False
  then have "0x80 \<le> foldl (\<lambda>acc b. acc OR b) (0 :: u8) (take n buf)"
    by (subst or_all_ascii) (auto simp: word_le_nat_alt not_less)
  then show ?thesis
    using False assms
    by (auto simp: utf8_scan_def mem_simps Let_def utf8_scan_loop_eq steps_kind_eq)
qed

lemma kind_of_zero_iff: "kind_of ss = 0 \<longleftrightarrow> (\<forall>(c, k) \<in> set ss. unat c < 128 \<or> unat c < 256 \<and> k \<noteq> 1)"
proof -
  have "kind_of ss = 0 \<longleftrightarrow> \<not> (\<exists>(c, n) \<in> set ss. 128 \<le> unat c \<and> n = 1) \<and>
      \<not> (\<exists>(c, n) \<in> set ss. 256 \<le> unat c) \<and> \<not> (\<exists>(c, n) \<in> set ss. 65536 \<le> unat c)"
    by (simp add: kind_of_def utf8_kind_defs)
  then show ?thesis by (force simp: not_le)
qed

lemma kind_no_error_iff: "kind_of ss AND UTF8_HAS_ERRORS = 0 \<longleftrightarrow> (\<forall>(c, k) \<in> set ss. unat c < 128 \<or> k \<noteq> 1)"
proof -
  have "kind_of ss AND UTF8_HAS_ERRORS = 0 \<longleftrightarrow> \<not> (\<exists>(c, n) \<in> set ss. 128 \<le> unat c \<and> n = 1)"
    by (simp add: kind_of_def utf8_kind_defs)
  then show ?thesis by (force simp: not_le)
qed

text \<open>Without errors the source is exactly the encoding of its code points.\<close>

lemma steps_encode:
  assumes "e \<le> length m" "p \<le> e" "\<forall>(c, k) \<in> set (utf8_steps m p e). unat c < 128 \<or> k \<noteq> 1"
  shows "drop p (take e m) = concat (map (utf8_encode \<circ> fst) (utf8_steps m p e))"
  using assms
proof (induction p rule: utf8_steps_induct)
  case (step p c q)
  have "q \<noteq> p + 1 \<or> unat c < 128"
    using step.hyps(3) step.prems by (auto simp: step.hyps(5))
  then have "encoded_at m p (utf8_encode c)" "q = p + utf8_encode_len c"
    using utf8_step_encoded [OF step.hyps(2)] step.hyps(1) assms(1) by simp_all
  then have "take (q - p) (drop p m) = utf8_encode c"
    by (auto simp: encoded_at_def mem_read_def length_utf8_encode split: if_splits)
  moreover have "drop p (take e m) = take (q - p) (drop p m) @ drop q (take e m)"
    using step.hyps(3,4) append_take_drop_id [of "q - p" "drop p (take e m)", symmetric]
    by (simp add: drop_take)
  ultimately show ?case
    using step by simp
qed simp


subsection \<open>Surrogate pairs\<close>

lemma is_hi_surrogate_iff: "is_hi_surrogate c \<longleftrightarrow> unat c div 1024 = 54"
proof -
  have "unat (drop_bit 10 c) = unat c div 1024" by (simp only: unat_drop_bit) simp
  moreover have "unat (drop_bit 10 (0xD800 :: u32)) = 54" by (simp only: unat_drop_bit) simp
  ultimately show ?thesis by (simp only: is_hi_surrogate_def word_unat_eq_iff)
qed

lemma is_lo_surrogate_iff: "is_lo_surrogate c \<longleftrightarrow> unat c div 1024 = 55"
proof -
  have "unat (drop_bit 10 c) = unat c div 1024" by (simp only: unat_drop_bit) simp
  moreover have "unat (drop_bit 10 (0xDC00 :: u32)) = 55" by (simp only: unat_drop_bit) simp
  ultimately show ?thesis by (simp only: is_lo_surrogate_def word_unat_eq_iff)
qed

lemma unat_and_1023: "unat ((x :: u32) AND 1023) = unat x mod 1024"
  using unat_take_bit [of 10 x] by (simp add: and_3FF)

lemma unat_from_surrogate:
  "unat (from_surrogate hi lo) = 65536 + 1024 * (unat hi mod 1024) + unat lo mod 1024"
proof -
  have m: "unat hi mod 1024 < 1024" "unat lo mod 1024 < 1024" by simp_all
  have "unat (1024 * (hi AND 1023)) = 1024 * (unat hi mod 1024)"
    using m by (subst unat_mult_small) (simp_all add: unat_and_1023)
  then show ?thesis
    using m by (simp add: from_surrogate_def unat_plus_small unat_and_1023)
qed

lemma unat_get_hi_surrogate:
  assumes "65536 \<le> unat c" "unat c < 1114112"
  shows "unat (get_hi_surrogate c) = 55232 + unat c div 1024"
proof -
  have d: "unat (drop_bit 10 c) = unat c div 1024" by (simp only: unat_drop_bit) simp
  have k: "unat (drop_bit 10 (0x10000 :: u32)) = 64" by (simp only: unat_drop_bit) simp
  have r: "64 \<le> unat c div 1024" "unat c div 1024 < 1088" using assms by simp_all
  have "unat (drop_bit 10 c - drop_bit 10 0x10000) = unat c div 1024 - 64"
    using r by (subst unat_minus_small) (simp_all only: word_le_nat_alt d k)
  with r show ?thesis
    by (simp only: get_hi_surrogate_def, subst unat_plus_small) simp_all
qed

lemma unat_get_lo_surrogate: "unat (get_lo_surrogate c) = 56320 + unat c mod 1024"
proof -
  have m: "unat c mod 1024 < 1024" by simp
  have "unat (take_bit 10 c) = unat c mod 1024" by (simp only: unat_take_bit) simp
  moreover from this m have "unat (take_bit 10 c OR 0xDC00) = unat (take_bit 10 c) + 56320"
    by (subst unat_or_tag [where n = 10]) (simp_all only: , simp_all)
  ultimately show ?thesis
    by (simp add: get_lo_surrogate_def and_3FF)
qed

lemma unat_ucast_u32_u16: "unat (ucast (x :: u32) :: u16) = unat x mod 65536"
  by (simp add: unsigned_ucast_eq take_bit_eq_mod)

lemma ucast_u16_u32_u16: "ucast (ucast (u :: u16) :: u32) = u"
  by (rule word_eq_unatI) (simp add: unat_ucast_u32_u16 less_imp_le)

lemma utf16_of_pair:
  assumes "is_hi_surrogate (ucast u)" "is_lo_surrogate (ucast v)"
  shows "utf16_of (from_surrogate (ucast u) (ucast v)) = [u, v]"
proof -
  have u: "unat u div 1024 = 54" and v: "unat v div 1024 = 55"
    using assms by (simp_all add: is_hi_surrogate_iff is_lo_surrogate_iff)
  define c where "c = from_surrogate (ucast u) (ucast v)"
  have c: "unat c = 65536 + 1024 * (unat u mod 1024) + unat v mod 1024"
    by (simp add: c_def unat_from_surrogate)
  have m: "unat u mod 1024 < 1024" "unat v mod 1024 < 1024" by simp_all
  have hi: "unat (get_hi_surrogate c) = unat u"
    using c m u div_mult_mod_eq [of "unat u" 1024] by (subst unat_get_hi_surrogate) simp_all
  have "unat c = unat v mod 1024 + 1024 * (64 + unat u mod 1024)" using c by simp
  then have "unat c mod 1024 = unat v mod 1024" by (simp only: mod_mult_self2 mod_mod_trivial)
  then have lo: "unat (get_lo_surrogate c) = unat v"
    using v div_mult_mod_eq [of "unat v" 1024] by (simp add: unat_get_lo_surrogate)
  have "ucast (get_hi_surrogate c) = u" "ucast (get_lo_surrogate c) = v"
    by (rule word_eq_unatI; simp add: unat_ucast_u32_u16 hi lo)+
  then show ?thesis
    using c unfolding c_def [symmetric] by (simp add: utf16_of_def word_less_nat_alt)
qed

fun code_points16 :: "u16 list \<Rightarrow> u32 list" where
  "code_points16 [] = []"
| "code_points16 [u] = [ucast u]"
| "code_points16 (u # v # us) =
     (if is_hi_surrogate (ucast u) \<and> is_lo_surrogate (ucast v)
      then from_surrogate (ucast u) (ucast v) # code_points16 us
      else ucast u # code_points16 (v # us))"

lemma unat_u16_le: "unat (u :: u16) \<le> 65535"
  by (rule less_Suc_eq_le [THEN iffD1]) simp

lemma utf16_of_ucast: "utf16_of (ucast (u :: u16)) = [u]"
proof -
  have "\<not> 65535 < unat u" by (rule leD [OF unat_u16_le])
  then show ?thesis by (simp add: utf16_of_def word_less_nat_alt ucast_u16_u32_u16)
qed

lemma utf16_units_code_points16: "utf16_units (code_points16 us) = us"
  by (induction us rule: code_points16.induct) (simp_all add: utf16_of_pair utf16_of_ucast)

lemma code_points16_bound:
  "c \<in> set (code_points16 us) \<Longrightarrow> unat c < 0x110000"
proof (induction us rule: code_points16.induct)
  case (2 u)
  then show ?case using unat_u16_le [of u] by (auto intro: le_less_trans)
next
  case (3 u v us)
  have "unat u mod 1024 < 1024" "unat v mod 1024 < 1024" by simp_all
  with 3 show ?case
    using unat_u16_le [of u] by (auto intro: le_less_trans simp: unat_from_surrogate split: if_splits)
qed simp


subsection \<open>Encoding\<close>

text \<open>The encodings that fit below a room of \<open>n\<close> bytes with a byte left for the terminator.\<close>

fun fitting :: "nat \<Rightarrow> u8 list list \<Rightarrow> u8 list list" where
  "fitting n [] = []"
| "fitting n (e # es) = (if length e < n then e # fitting (n - length e) es else [])"

lemma fitting_room: "0 < n \<Longrightarrow> length (concat (fitting n es)) < n"
  by (induction n es rule: fitting.induct) fastforce+

lemma fitting_all: "length (concat es) < n \<Longrightarrow> fitting n es = es"
  by (induction n es rule: fitting.induct) auto

text \<open>What an encoder leaves in the destination, from position \<open>j\<close>.\<close>

definition encoded_into :: "u8 list \<Rightarrow> nat \<Rightarrow> nat \<Rightarrow> u8 list list \<Rightarrow> u8 list" where
  "encoded_into dest n j es =
     (if j < n then let w = concat (fitting (n - j) es) @ [0]
                    in take j dest @ w @ drop (j + length w) dest
      else dest)"

lemma encoded_into_stop:
  "n \<le> length dest \<Longrightarrow> es = [] \<or> n \<le> j + length (hd es) \<Longrightarrow>
     store_at dest n j 0 = Some (encoded_into dest n j es)"
  by (cases es) (auto simp: encoded_into_def store_at_eq upd_conv_take_nth_drop)

lemma encoded_into_step:
  assumes "n \<le> length dest" "j + length e < n"
  shows "mem_write dest j e = Some (take j dest @ e @ drop (j + length e) dest)"
    "encoded_into (take j dest @ e @ drop (j + length e) dest) n (j + length e) es =
       encoded_into dest n j (e # es)"
  using assms less_diff_conv [of "length e" n j]
  by (simp_all add: mem_write_in encoded_into_def Let_def min_def ac_simps)

lemma next_code16_step:
  assumes "i < n" "n \<le> length src"
  obtains c k where "next_code16 src n i = Some (c, k)" "i < k" "k \<le> n"
    "code_points16 (drop i (take n src)) = c # code_points16 (drop k (take n src))"
    "k - (1 + (if c > 0xFFFF then 1 else 0)) = i"
proof -
  define s where "s = take n src"
  have l: "length s = n" using assms by (simp add: s_def)
  have nth: "\<And>j. j < n \<Longrightarrow> src ! j = s ! j" by (simp add: s_def)
  have d: "drop i s = s ! i # drop (i + 1) s" using assms l by (simp add: Cons_nth_drop_Suc)
  have small: "\<not> (ucast (u :: u16) :: u32) > 0xFFFF" for u
    using unat_u16_le [of u] by (simp add: word_less_nat_alt)
  have get: "mem_get src i = Some (s ! i)" using assms by (simp add: mem_get_def nth)
  show ?thesis
  proof (cases "is_hi_surrogate (ucast (s ! i)) \<and> i + 1 < n \<and> is_lo_surrogate (ucast (s ! (i + 1)))")
    case True
    then have d2: "drop (i + 1) s = s ! (i + 1) # drop (i + 2) s" using l by (simp add: Cons_nth_drop_Suc)
    have "unat (s ! i) div 1024 = 54" using True by (simp add: is_hi_surrogate_iff)
    then have nz: "\<not> (ucast (s ! i) :: u32) < 0x80"
      by (auto simp: word_less_nat_alt)
    have get2: "mem_get src (i + 1) = Some (s ! (i + 1))" using True assms by (simp add: mem_get_def nth)
    have big: "from_surrogate (ucast (s ! i)) (ucast (s ! (i + 1))) > 0xFFFF"
      by (simp add: word_less_nat_alt unat_from_surrogate)
    show ?thesis
    proof (rule that)
      show "next_code16 src n i = Some (from_surrogate (ucast (s ! i)) (ucast (s ! (i + 1))), i + 2)"
        using True nz get get2 by (simp add: next_code16_def)
    qed (use True d d2 big in \<open>simp_all flip: s_def\<close>)
  next
    case False
    show ?thesis
    proof (rule that)
      show "next_code16 src n i = Some (ucast (s ! i), i + 1)"
        using False get assms by (auto simp: next_code16_def Let_def mem_get_def nth)
      have "code_points16 (drop i s) = ucast (s ! i) # code_points16 (drop (i + 1) s)"
      proof (cases "i + 1 < n")
        case True
        then have "drop (i + 1) s = s ! (i + 1) # drop (i + 2) s" using l by (simp add: Cons_nth_drop_Suc)
        then show ?thesis using d False True by auto
      qed (use d l in simp)
      then show "code_points16 (drop i (take n src)) = ucast (s ! i) # code_points16 (drop (i + 1) (take n src))"
        by (simp flip: s_def)
    qed (use assms small in simp_all)
  qed
qed

lemma code16_induct [consumes 1, case_names stop step]:
  assumes "n \<le> length src"
    and "\<And>i. n \<le> i \<Longrightarrow> P i"
    and "\<And>i c k. i < n \<Longrightarrow> next_code16 src n i = Some (c, k) \<Longrightarrow> k \<le> n \<Longrightarrow>
      code_points16 (drop i (take n src)) = c # code_points16 (drop k (take n src)) \<Longrightarrow>
      k - (1 + (if c > 0xFFFF then 1 else 0)) = i \<Longrightarrow> P k \<Longrightarrow> P i"
  shows "P i"
proof (induction "n - i" arbitrary: i rule: less_induct)
  case less
  show ?case
  proof (cases "i < n")
    case True
    obtain c k where s: "next_code16 src n i = Some (c, k)" "i < k" "k \<le> n"
      "code_points16 (drop i (take n src)) = c # code_points16 (drop k (take n src))"
      "k - (1 + (if c > 0xFFFF then 1 else 0)) = i"
      by (rule next_code16_step [OF True assms(1)])
    from less s True have "P k" by simp
    with assms(3) [OF True s(1,3-5)] show ?thesis by simp
  qed (use assms(2) in simp)
qed

lemma encode_len_ascii: "c < 0x80 \<Longrightarrow> utf8_encode_len c = 1"
  by (simp add: utf8_encode_len_def)

lemma encode_buf16_count_eq:
  assumes "n \<le> length src"
  shows "encode_buf16_count src n i j =
    Some (j + length (concat (map utf8_encode (code_points16 (drop i (take n src))))))"
  using assms
proof (induction i arbitrary: j rule: code16_induct)
  case (step i c k)
  then show ?case
    by (simp add: encode_buf16_count.simps [of src n i] step.hyps(4) length_utf8_encode encode_len_ascii)
qed (simp add: encode_buf16_count.simps)

lemma encode_buf16_loop_eq:
  assumes "n \<le> length src" "k \<le> length dest"
  shows "encode_buf16_loop dest k src n i j =
    (let es = map utf8_encode (code_points16 (drop i (take n src)))
     in Some (encoded_into dest k j es, j + length (concat es)))"
  using assms
proof (induction i arbitrary: dest j rule: code16_induct)
  case (stop i)
  then show ?case by (simp add: encode_buf16_loop.simps [of _ _ _ n i] encoded_into_stop)
next
  case (step i c q)
  let ?e = "utf8_encode c" and ?es = "map utf8_encode (code_points16 (drop q (take n src)))"
  have len: "length ?e = utf8_encode_len c" by (rule length_utf8_encode)
  show ?case
  proof (cases "k \<le> j + utf8_encode_len c")
    case True
    then have "encode_buf16_loop dest k src n i j = encode_buf16_overflow dest k src n q j c"
      using step.hyps(1,2) by (auto simp: encode_buf16_loop.simps [of _ _ _ n i] encode_len_ascii)
    also have "\<dots> = Some (encoded_into dest k j (?e # ?es), j + length (concat (?e # ?es)))"
      using True step.hyps(4,5) step.prems assms(1)
      by (simp add: encode_buf16_overflow_def encode_buf16_count_eq Let_def
          encoded_into_stop [of k dest "?e # ?es" j] len)
    finally show ?thesis by (simp add: step.hyps(4) Let_def)
  next
    case False
    note w = encoded_into_step [where n = k and dest = dest and j = j and e = ?e, unfolded len]
    have "mem_set dest j (ucast c) = mem_write dest j ?e" if "c < 0x80"
      using that by (simp add: utf8_encode_def mem_write_one)
    then have "encode_buf16_loop dest k src n i j =
        do { d \<leftarrow> mem_write dest j ?e; encode_buf16_loop d k src n q (j + utf8_encode_len c) }"
      using False step.hyps(1,2) by (auto simp: encode_buf16_loop.simps [of _ _ _ n i] encode_len_ascii len)
    also have "\<dots> = Some (encoded_into dest k j (?e # ?es), j + length (concat (?e # ?es)))"
      using False step.prems w by (simp add: step.IH len Let_def)
    finally show ?thesis by (simp add: step.hyps(4) Let_def)
  qed
qed

lemma encode_len_u8: "utf8_encode_len (ucast (b :: u8)) = (if 0x80 \<le> b then 2 else 1)"
proof -
  have "unat b < 2048" by (rule less_trans [OF unat_u8_less]) simp
  then show ?thesis by (auto simp: utf8_encode_len_def word_less_nat_alt word_le_nat_alt)
qed

lemma encode_buf8_count_eq: "encode_buf8_count src j = j + length (concat (map (\<lambda>b. utf8_encode (ucast b)) src))"
  by (induction src arbitrary: j) (simp_all add: length_utf8_encode encode_len_u8)


lemma encode_u8_two:
  assumes "\<not> (ucast (b :: u8) :: u32) < 0x80"
  shows "utf8_encode (ucast b) =
    [ucast (drop_bit 6 (ucast b :: u32) OR 0xC0), ucast (((ucast b :: u32) AND 0x3F) OR 0x80)]"
proof -
  have "unat b < 2048" by (rule less_trans [OF unat_u8_less]) simp
  with assms show ?thesis by (simp add: utf8_encode_def word_less_nat_alt)
qed

lemma mem_write_two:
  "j + 2 \<le> length d \<Longrightarrow> mem_write d j [a, b] = do { d \<leftarrow> mem_set d j a; mem_set d (j + 1) b }"
  by (simp add: mem_write_in mem_set_in)
    (simp add: upd_conv_take_nth_drop take_Suc_conv_app_nth)

lemma encode_buf8_loop_eq:
  assumes "k \<le> length dest"
  shows "encode_buf8_loop dest k src j =
    (let es = map (\<lambda>b. utf8_encode (ucast b)) src in Some (encoded_into dest k j es, j + length (concat es)))"
  using assms
proof (induction src arbitrary: dest j)
  case Nil
  then show ?case by (simp add: encoded_into_stop)
next
  case (Cons b src)
  let ?c = "ucast b :: u32" and ?es = "map (\<lambda>b. utf8_encode (ucast b)) src"
  let ?e = "utf8_encode ?c"
  have len: "length ?e = (if ?c < 0x80 then 1 else 2)"
    by (simp add: length_utf8_encode encode_len_u8 word_less_nat_alt word_le_nat_alt)
  show ?case
  proof (cases "k \<le> j + length ?e")
    case True
    moreover have "store_at dest k j 0 = Some (encoded_into dest k j (?e # ?es))"
      using True Cons.prems by (intro encoded_into_stop) simp_all
    ultimately show ?thesis
      using len encode_buf8_count_eq [of "b # src" j]
      by (auto simp: Let_def simp del: encode_buf8_count.simps split: if_splits)
  next
    case False
    note w = encoded_into_step [where n = k and dest = dest and j = j and e = ?e]
    have "encode_buf8_loop dest k (b # src) j =
        do { d \<leftarrow> mem_write dest j ?e; encode_buf8_loop d k src (j + length ?e) }"
    proof (cases "?c < 0x80")
      case True
      then have "?e = [ucast ?c]" by (simp add: utf8_encode_def)
      then show ?thesis using True False len by (simp add: Let_def mem_write_one)
    next
      case nc: False
      then show ?thesis
        using False len Cons.prems by (simp add: Let_def encode_u8_two mem_write_two)
    qed
    then show ?thesis
      using False Cons.prems w by (simp add: Cons.IH Let_def)
  qed
qed

text \<open>The bytes of a list of code points decode to that list.\<close>

lemma utf8_steps_encoded:
  assumes "\<forall>c \<in> set cs. unat c < 0x110000"
  shows "utf8_steps (pre @ concat (map utf8_encode cs) @ post) (length pre)
      (length pre + length (concat (map utf8_encode cs))) = map (\<lambda>c. (c, utf8_encode_len c)) cs"
  using assms
proof (induction cs arbitrary: pre)
  case (Cons c cs)
  let ?r = "concat (map utf8_encode cs)"
  let ?m = "pre @ concat (map utf8_encode (c # cs)) @ post" and ?e = "length pre + length (concat (map utf8_encode (c # cs)))"
  have c: "c < 0x110000" using Cons.prems by (simp add: word_less_nat_alt)
  have at: "encoded_at ?m (length pre) (utf8_encode c)"
    using encoded_at_append [of pre "utf8_encode c" "?r @ post"] by simp
  have pos: "0 < length (utf8_encode c)" by (simp add: length_utf8_encode)
  have "utf8_decode_len ?m (length pre) (?e - length pre) = Some (c, length pre + utf8_encode_len c)"
    using pos by (subst utf8_decode_len_eq)
      (simp_all add: lead_len_encode [OF c at, simplified] length_utf8_encode utf8_decode_encode_at [OF c at, simplified])
  then have "utf8_steps ?m (length pre) ?e = (c, utf8_encode_len c) # utf8_steps ?m (length pre + utf8_encode_len c) ?e"
    using pos by (subst utf8_steps.simps) simp
  also have "utf8_steps ?m (length pre + utf8_encode_len c) ?e = map (\<lambda>c. (c, utf8_encode_len c)) cs"
    using Cons.IH [of "pre @ utf8_encode c"] Cons.prems by (simp add: length_utf8_encode add.assoc)
  finally show ?case by simp
qed simp

text \<open>The kind that \<open>utf8_scan\<close> reports, and what it says of the steps.\<close>

definition scan_kind :: "u8 list \<Rightarrow> nat \<Rightarrow> int" where
  "scan_kind buf n = (if \<forall>b \<in> set (take n buf). unat b < 128 then UTF8_PLAIN_ASCII
     else UTF8_NON_ASCII OR kind_of (utf8_steps buf 0 n))"

lemma utf8_steps_ascii_small:
  assumes "n \<le> length buf" "\<forall>b \<in> set (take n buf). unat b < 128" "(c, k) \<in> set (utf8_steps buf 0 n)"
  shows "unat c < 128"
proof -
  have "\<forall>i < n. unat (buf ! i) < 128"
    using assms by (metis length_take min.absorb2 nth_mem nth_take)
  from utf8_steps_ascii [OF assms(1) this, of 0] assms(2,3) show ?thesis by auto
qed

lemma scan_kind_8bit:
  assumes n: "n \<le> length buf" and k: "scan_kind buf n \<in> {UTF8_PLAIN_ASCII, UTF8_NON_ASCII}"
  shows "\<forall>(c, k) \<in> set (utf8_steps buf 0 n). unat c < 128 \<or> unat c < 256 \<and> k \<noteq> 1"
proof (cases "\<forall>b \<in> set (take n buf). unat b < 128")
  case True
  then show ?thesis using utf8_steps_ascii_small [OF n] by auto
next
  case False
  have "kind_of ss = 0" if "1 OR kind_of ss = 1 \<or> 1 OR kind_of ss = 0" for ss
    using that by (auto simp: kind_of_def utf8_kind_defs split: if_splits)
  then show ?thesis
    using k False unfolding kind_of_zero_iff [symmetric]
    by (auto simp: scan_kind_def utf8_kind_defs split: if_splits)
qed

lemma scan_kind_no_errors:
  assumes n: "n \<le> length buf" and k: "scan_kind buf n AND UTF8_HAS_ERRORS = 0"
  shows "\<forall>(c, k) \<in> set (utf8_steps buf 0 n). unat c < 128 \<or> k \<noteq> 1"
proof (cases "\<forall>b \<in> set (take n buf). unat b < 128")
  case True
  then show ?thesis using utf8_steps_ascii_small [OF n] by auto
next
  case False
  with k have "(UTF8_NON_ASCII OR kind_of (utf8_steps buf 0 n)) AND UTF8_HAS_ERRORS = 0"
    by (auto simp: scan_kind_def split: if_splits)
  then have "kind_of (utf8_steps buf 0 n) AND UTF8_HAS_ERRORS = 0"
    by (simp add: bit.conj_disj_distrib2 utf8_kind_defs)
  then show ?thesis by (simp add: kind_no_error_iff)
qed

lemma unat_ucast_u8_u16: "unat (ucast (b :: u8) :: u16) = unat b"
proof -
  have "unat b < 65536" by (rule less_trans [OF unat_u8_less]) simp
  then show ?thesis by (simp flip: ucast_u8_u16_u32 add: unat_ucast_u32_u16)
qed

lemma utf16_units_8bit:
  assumes "\<forall>(c, k) \<in> set ss. unat c < 128 \<or> unat c < 256 \<and> k \<noteq> 1"
  shows "map ucast (map (\<lambda>s. ucast (fst s)) ss :: u8 list) = utf16_units (map fst ss)"
  using assms
proof (induction ss)
  case (Cons s ss)
  have c: "unat (fst s) < 256" using Cons.prems by (auto split: prod.splits)
  then have "ucast (ucast (fst s) :: u8) = (ucast (fst s) :: u16)"
    by (intro word_eq_unatI) (simp add: unat_ucast_u8_u16 unat_ucast_u32_u8 unat_ucast_u32_u16)
  then show ?case
    using Cons c by (simp add: utf16_of_def word_less_nat_alt)
qed simp

lemma utf8_decode_buf8_units:
  assumes "n \<le> length buf" "scan_kind buf n \<in> {UTF8_PLAIN_ASCII, UTF8_NON_ASCII}"
    "length dest = length (utf16_units (map fst (utf8_steps buf 0 n))) + 1"
  shows "\<exists>us. utf8_decode_buf8 dest (length dest) buf n = Some (us @ [0], length us) \<and>
    map ucast us = utf16_units (map fst (utf8_steps buf 0 n))"
proof -
  define us :: "u8 list" where "us = map (\<lambda>s. ucast (fst s)) (utf8_steps buf 0 n)"
  have small: "\<forall>(c, k) \<in> set (utf8_steps buf 0 n). unat c < 128 \<or> unat c < 256 \<and> k \<noteq> 1"
    by (rule scan_kind_8bit [OF assms(1,2)])
  have u: "map ucast us = utf16_units (map fst (utf8_steps buf 0 n))"
    unfolding us_def by (rule utf16_units_8bit [OF small])
  moreover from this have "length us = length dest - 1"
    using assms(3) by (metis add_diff_cancel_right' length_map)
  ultimately show ?thesis
    using utf8_decode_buf8_eq [OF assms(1) _ order_refl small, of dest] assms(3)
    by (auto simp: Let_def comp_def us_def)
qed

subsection \<open>Properties\<close>

lemma steps_encode_length:
  assumes "e \<le> length m" "p \<le> e"
  shows "e - p \<le> length (concat (map (utf8_encode \<circ> fst) (utf8_steps m p e))) \<and>
    ((\<exists>(c, k) \<in> set (utf8_steps m p e). 128 \<le> unat c \<and> k = 1) \<longrightarrow>
      e - p < length (concat (map (utf8_encode \<circ> fst) (utf8_steps m p e))))"
  using assms
proof (induction p rule: utf8_steps_induct)
  case (step p c q)
  have "0 < e - p" "p + (e - p) \<le> length m" using step.hyps(1) assms(1) by simp_all
  then have len: "q - p \<le> length (utf8_encode c) \<and> (128 \<le> unat c \<and> q - p = 1 \<longrightarrow> q - p < length (utf8_encode c))"
    by (rule utf8_decode_len_cases) (use step.hyps(2) in \<open>auto simp: length_utf8_encode utf8_encode_len_def word_less_nat_alt\<close>)
  show ?case using step.IH step.hyps(4) len step.hyps(3,4) unfolding step.hyps(5) by auto
qed simp

lemma errors_iff_not_encoded:
  assumes "n \<le> length buf"
  shows "(\<exists>(c, k) \<in> set (utf8_steps buf 0 n). 128 \<le> unat c \<and> k = 1) \<longleftrightarrow>
    take n buf \<noteq> concat (map utf8_encode (map fst (utf8_steps buf 0 n)))" (is "?error \<longleftrightarrow> _ \<noteq> ?es")
proof -
  have "take n buf = ?es" if no: "\<not> ?error"
  proof -
    have "\<forall>(c, k) \<in> set (utf8_steps buf 0 n). unat c < 128 \<or> k \<noteq> 1"
      using no by (metis (mono_tags, lifting) case_prodE case_prodI2 not_less prod.case)
    from steps_encode [OF assms _ this] show ?thesis by simp
  qed
  moreover have "length (take n buf) < length ?es" if ?error using steps_encode_length [OF assms, of 0] that assms by simp
  ultimately show ?thesis by fastforce
qed

text \<open>
  C12.  Scanning and decoding agree on the characters of a buffer of any bytes, the characters being those that the
  decoder reads one after the other.  The mask that \<open>utf8_scan\<close> returns is determined by them: it is
  \<open>UTF8_PLAIN_ASCII\<close> when all bytes are ASCII; otherwise it has the bit \<open>UTF8_NON_ASCII\<close>, the bit \<open>UTF8_HAS_16BIT\<close>
  exactly when there is a character above 0xFF, \<open>UTF8_HAS_NON_BMP1\<close> exactly when there is one above 0xFFFF,
  \<open>UTF8_HAS_ERRORS\<close> exactly when the bytes are not the encoding of the characters, and no other bit.  The length it
  reports is the number of UTF-16 units that \<open>utf8_decode_buf16\<close> stores, so a block of that length is
  filled exactly.  Without an error and a character above 0xFF, \<open>utf8_decode_buf8\<close>, which does not check its input,
  stays inside the source, stores the same units as bytes and terminates them.
\<close>

theorem utf8_scan_agrees_with_decoders:
  assumes n: "n \<le> length buf" and cs: "cs = map fst (utf8_steps buf 0 n)"
    and d16: "length dest16 = length (utf16_units cs)" and d8: "length dest8 = length dest16 + 1"
  shows "utf8_scan buf n = Some
      (if \<forall>b \<in> set (take n buf). b < 0x80 then UTF8_PLAIN_ASCII
       else UTF8_NON_ASCII OR (if take n buf \<noteq> concat (map utf8_encode cs) then UTF8_HAS_ERRORS else 0) OR
         (if \<exists>c \<in> set cs. c > 0xFF then UTF8_HAS_16BIT else 0) OR (if \<exists>c \<in> set cs. c > 0xFFFF then UTF8_HAS_NON_BMP1 else 0),
       length dest16) \<and>
    utf8_decode_buf16 dest16 (length dest16) buf n = Some (utf16_units cs, length dest16) \<and>
    (take n buf = concat (map utf8_encode cs) \<and> (\<forall>c \<in> set cs. c \<le> 0xFF) \<longrightarrow>
      (\<exists>us. utf8_decode_buf8 dest8 (length dest8) buf n = Some (us @ [0], length us) \<and> map ucast us = utf16_units cs))"
proof (intro conjI impI)
  have scan: "utf8_scan buf n = Some (scan_kind buf n, length dest16)"
    using utf8_scan_eq [OF n] d16 by (simp add: scan_kind_def cs)
  have big: "(\<exists>c \<in> set cs. c > 0xFF) = (\<exists>(c, k) \<in> set (utf8_steps buf 0 n). 256 \<le> unat c)"
    "(\<exists>c \<in> set cs. c > 0xFFFF) = (\<exists>(c, k) \<in> set (utf8_steps buf 0 n). 65536 \<le> unat c)"
    unfolding cs by (auto simp: word_less_nat_alt Suc_le_eq) force+
  have kind: "kind_of (utf8_steps buf 0 n) = (if take n buf \<noteq> concat (map utf8_encode cs) then UTF8_HAS_ERRORS else 0) OR
      ((if \<exists>c \<in> set cs. c > 0xFF then UTF8_HAS_16BIT else 0) OR (if \<exists>c \<in> set cs. c > 0xFFFF then UTF8_HAS_NON_BMP1 else 0))"
    unfolding big unfolding cs kind_of_def errors_iff_not_encoded [OF n] ..
  have ascii: "(\<forall>b \<in> set (take n buf). b < 0x80) = (\<forall>b \<in> set (take n buf). unat b < 128)" by (simp add: word_less_nat_alt)
  show "utf8_scan buf n = Some
      (if \<forall>b \<in> set (take n buf). b < 0x80 then UTF8_PLAIN_ASCII
       else UTF8_NON_ASCII OR (if take n buf \<noteq> concat (map utf8_encode cs) then UTF8_HAS_ERRORS else 0) OR
         (if \<exists>c \<in> set cs. c > 0xFF then UTF8_HAS_16BIT else 0) OR (if \<exists>c \<in> set cs. c > 0xFFFF then UTF8_HAS_NON_BMP1 else 0),
       length dest16)"
    unfolding scan scan_kind_def ascii kind by (simp only: or.assoc)
  show "utf8_decode_buf16 dest16 (length dest16) buf n = Some (utf16_units cs, length dest16)"
    unfolding utf8_decode_buf16_eq [OF n order_refl] by (simp add: Let_def d16 cs)
  assume small: "take n buf = concat (map utf8_encode cs) \<and> (\<forall>c \<in> set cs. c \<le> 0xFF)"
  then have "\<not> (\<exists>c \<in> set cs. c > 0xFF)" by (meson leD)
  moreover from this have "\<not> (\<exists>c \<in> set cs. c > 0xFFFF)" by (auto simp: word_less_nat_alt)
  ultimately have "kind_of (utf8_steps buf 0 n) = 0" unfolding kind using small by (simp only: if_False not_True_eq_False simp_thms) simp
  then have "scan_kind buf n \<in> {UTF8_PLAIN_ASCII, UTF8_NON_ASCII}" by (simp add: scan_kind_def)
  then show "\<exists>us. utf8_decode_buf8 dest8 (length dest8) buf n = Some (us @ [0], length us) \<and> map ucast us = utf16_units cs"
    using utf8_decode_buf8_units [OF n] d16 d8 by (simp add: cs)
qed

lemma utf8_scan_agrees_with_decoders_witness:
  "utf8_scan [0x61, 0xC3, 0xA9, 0xFF] 4 = Some (UTF8_NON_ASCII OR UTF8_HAS_ERRORS OR UTF8_HAS_16BIT, 3) \<and>
     utf8_decode_buf16 [0, 0, 0] 3 [0x61, 0xC3, 0xA9, 0xFF] 4 = Some ([0x61, 0xE9, 0xFFFD], 3)"
proof -
  let ?buf = "[0x61, 0xC3, 0xA9, 0xFF] :: u8 list"
  have cs: "[0x61, 0xE9, 0xFFFD] = map fst (utf8_steps ?buf 0 4)" by code_simp
  have u: "utf16_units [0x61, 0xE9, 0xFFFD] = [0x61, 0xE9, 0xFFFD]" by code_simp
  have e: "concat (map utf8_encode [0x61, 0xE9, 0xFFFD]) = [0x61, 0xC3, 0xA9, 0xEF, 0xBF, 0xBD]" by code_simp
  from utf8_scan_agrees_with_decoders [OF _ cs, of "[0, 0, 0]" "[0, 0, 0, 0]", unfolded u e] show ?thesis
    by (simp add: utf8_kind_defs numeral_3_eq_3)
qed

text \<open>
  C29.  \<open>utf8_encode_buf16\<close> reads only the source and writes only the first
  \<open>dest_len\<close> cells of the destination.  It leaves there the encodings of the source's code
  points, as many whole ones as fit before the terminating zero, and returns the length the
  complete encoding needs, whatever \<open>dest_len\<close> is: the rewind at the label
  \<open>overflow\<close> and the counting loop after it lose nothing.
\<close>

theorem utf8_encode_buf16_truncates:
  assumes "n \<le> length src" "k \<le> length dest"
  shows "\<exists>d. utf8_encode_buf16 dest k src n =
      Some (d, length (concat (map utf8_encode (code_points16 (take n src))))) \<and>
    length d = length dest \<and> drop k d = drop k dest \<and>
    (0 < k \<longrightarrow> (let w = concat (fitting k (map utf8_encode (code_points16 (take n src)))) @ [0]
      in length w \<le> k \<and> take (length w) d = w))"
proof -
  let ?es = "map utf8_encode (code_points16 (take n src))"
  have room: "length (concat (fitting k ?es)) < k" if "0 < k"
    using that by (rule fitting_room)
  have "length (encoded_into dest k 0 ?es) = length dest \<and> drop k (encoded_into dest k 0 ?es) = drop k dest \<and>
      (0 < k \<longrightarrow> (let w = concat (fitting k ?es) @ [0] in length w \<le> k \<and> take (length w) (encoded_into dest k 0 ?es) = w))"
    using room assms(2) by (cases "k = 0") (simp_all add: encoded_into_def Let_def drop_Cons')
  then show ?thesis
    using encode_buf16_loop_eq [OF assms, of 0 0] by (simp add: utf8_encode_buf16_def Let_def)
qed

lemma utf8_encode_buf16_truncates_witness:
  "\<exists>d. utf8_encode_buf16 [9, 9, 9, 9] 3 [0x61, 0xD83D, 0xDE00] 3 = Some (d, 5) \<and> drop 3 d = [9]"
  using utf8_encode_buf16_truncates [of 3 "[0x61, 0xD83D, 0xDE00]" 3 "[9, 9, 9, 9]"]
  by (auto simp: length_utf8_encode is_hi_surrogate_iff is_lo_surrogate_iff utf8_encode_len_def
      word_less_nat_alt unat_from_surrogate)

text \<open>
  C30.  Any sequence of UTF-16 units, unpaired surrogates included, survives export and import:
  encoded into a buffer that is large enough and decoded again, it is the same sequence.
\<close>

theorem utf8_buf16_roundtrip:
  assumes "k \<le> length dest" "length src \<le> length out"
    and enc: "utf8_encode_buf16 dest k src (length src) = Some (d, m)" and "m < k"
  shows "utf8_decode_buf16 out (length src) d m = Some (src @ drop (length src) out, length src)"
proof -
  let ?cs = "code_points16 src" and ?es = "map utf8_encode (code_points16 src)"
  have d: "d = encoded_into dest k 0 ?es" and m: "m = length (concat ?es)"
    using enc encode_buf16_loop_eq [OF order_refl assms(1), of src 0 0]
    by (simp_all add: utf8_encode_buf16_def Let_def)
  then have "d = [] @ concat ?es @ ([0] @ drop (m + 1) dest)"
    using assms(1,4) by (simp add: encoded_into_def fitting_all Let_def)
  then have "map fst (utf8_steps d 0 m) = ?cs"
    using utf8_steps_encoded [of ?cs "[]" "[0] @ drop (m + 1) dest"] code_points16_bound m
    by (simp add: comp_def)
  moreover have "m \<le> length d"
    using assms(1,4) m by (simp add: d encoded_into_def fitting_all Let_def)
  ultimately show ?thesis
    using utf8_decode_buf16_eq [of m d "length src" out] assms(2)
    by (simp add: utf16_units_code_points16 Let_def)
qed

lemma utf8_buf16_roundtrip_witness:
  "utf8_decode_buf16 [0, 0] 2 [0xED, 0xA0, 0x80, 0x41, 0, 9] 4 = Some ([0xD800, 0x41], 2)"
proof -
  have "utf8_encode_buf16 [9, 9, 9, 9, 9, 9] 6 [0xD800, 0x41] 2 = Some ([0xED, 0xA0, 0x80, 0x41, 0, 9], 4)"
    by code_simp
  then show ?thesis
    using utf8_buf16_roundtrip [of 6 "[9, 9, 9, 9, 9, 9]" "[0xD800, 0x41]" "[0, 0]"
        "[0xED, 0xA0, 0x80, 0x41, 0, 9]" 4] by (simp add: numeral_2_eq_2)
qed

end
