(* ===== verification/Js_String.thy ===== *)
theory Js_String
  imports Alloc Bytes Utf8_Buf
begin

section \<open>JavaScript strings: representation and access\<close>

text \<open>
  \<open>JSString\<close> of src/quickjs/quickjs.c and the functions that create, read and compare
  strings.  A string is one malloc block: the header, then the array \<open>u\<close>, a union of bytes
  and 16-bit units in the machine's byte order.  \<open>u.str8[i]\<close> is byte
  \<open>sizeof_JSString + i\<close> of the block and \<open>u.str16[i]\<close> the two bytes from
  \<open>sizeof_JSString + 2 * i\<close>, so a block can be reread at the other width, as
  \<open>string_buffer_widen\<close> does.  The header fields in use are fields of the record
  \<open>js_string\<close>.

  \<open>str_units\<close> is the abstraction: the UTF-16 units a string stands for, whatever its width.
\<close>

subsection \<open>The payload of a block\<close>

definition sizeof_JSString :: nat where
  "sizeof_JSString = 24"

definition JS_STRING_LEN_MAX :: nat where
  "JS_STRING_LEN_MAX = 2 ^ 30 - 1"

definition str8_get :: "block \<Rightarrow> nat \<Rightarrow> u8 option" where
  "str8_get b i = mem_get (cells b) (sizeof_JSString + i)"

definition str8_put :: "block \<Rightarrow> nat \<Rightarrow> u8 \<Rightarrow> block option" where
  "str8_put b i v = map_option (\<lambda>c. b\<lparr>cells := c\<rparr>) (mem_set (cells b) (sizeof_JSString + i) v)"

definition str16_get :: "bool \<Rightarrow> block \<Rightarrow> nat \<Rightarrow> u16 option" where
  "str16_get be b i =
     map_option (\<lambda>bs. word_of_nat (obj_val be bs)) (mem_read (cells b) (sizeof_JSString + 2 * i) 2)"

definition str16_put :: "bool \<Rightarrow> block \<Rightarrow> nat \<Rightarrow> u16 \<Rightarrow> block option" where
  "str16_put be b i v =
     map_option (\<lambda>c. b\<lparr>cells := c\<rparr>) (put_u16 be (cells b) (sizeof_JSString + 2 * i) v)"

text \<open>The number of bytes the union may use.\<close>

definition payload_size :: "block \<Rightarrow> nat" where
  "payload_size b = length (cells b) - sizeof_JSString"

text \<open>Reading as a total function, for specifications: the byte and the unit at an index.\<close>

definition byte_at :: "block \<Rightarrow> nat \<Rightarrow> u8" where
  "byte_at b i = cells b ! (sizeof_JSString + i)"

definition unit_at :: "bool \<Rightarrow> block \<Rightarrow> nat \<Rightarrow> u16" where
  "unit_at be b i = word_of_nat (obj_val be [byte_at b (2 * i), byte_at b (2 * i + 1)])"

definition buf_units :: "bool \<Rightarrow> bool \<Rightarrow> block \<Rightarrow> nat \<Rightarrow> u16 list" where
  "buf_units be wide b n = map (\<lambda>i. if wide then unit_at be b i else ucast (byte_at b i)) [0..<n]"

lemma length_buf_units [simp]: "length (buf_units be w b n) = n"
  by (simp add: buf_units_def)

lemma buf_units_0 [simp]: "buf_units be w b 0 = []"
  by (simp add: buf_units_def)

lemma nth_buf_units [simp]:
  "i < n \<Longrightarrow> buf_units be w b n ! i = (if w then unit_at be b i else ucast (byte_at b i))"
  by (simp add: buf_units_def)

lemma buf_units_Suc:
  "buf_units be w b (Suc n) = buf_units be w b n @ [if w then unit_at be b n else ucast (byte_at b n)]"
  by (simp add: buf_units_def)

lemma take_buf_units: "k \<le> n \<Longrightarrow> take k (buf_units be w b n) = buf_units be w b k"
  by (simp add: buf_units_def take_map)

lemma buf_units_cong:
  "(\<And>i. i < (if w then 2 * n else n) \<Longrightarrow> byte_at b i = byte_at c i) \<Longrightarrow> buf_units be w b n = buf_units be w c n"
  by (auto simp: buf_units_def unit_at_def)

lemma str8_get_eq [mem_simps]: "i < payload_size b \<Longrightarrow> str8_get b i = Some (byte_at b i)"
  by (simp add: str8_get_def byte_at_def payload_size_def mem_simps)

lemma str16_get_eq [mem_simps]:
  assumes "2 * i + 1 < payload_size b"
  shows "str16_get be b i = Some (unit_at be b i)"
proof -
  let ?k = "sizeof_JSString + 2 * i"
  have l: "?k + 2 \<le> length (cells b)" using assms by (simp add: payload_size_def)
  then have "take 2 (drop ?k (cells b)) = [cells b ! ?k, cells b ! (?k + 1)]"
    by (simp add: numeral_2_eq_2 take_Suc_conv_app_nth)
  then show ?thesis
    using l by (simp add: str16_get_def mem_read_in unit_at_def byte_at_def)
qed

lemma str8_put_eq:
  assumes "i < payload_size b"
  obtains c where "str8_put b i v = Some c" "payload_size c = payload_size b"
    "\<And>j. byte_at c j = (if j = i then v else byte_at b j)" "usable c = usable b"
  using assms that [of "b\<lparr>cells := (cells b)[sizeof_JSString + i := v]\<rparr>"]
  by (auto simp: str8_put_def payload_size_def byte_at_def mem_simps nth_list_update)

lemma str16_put_eq:
  assumes "2 * i + 1 < payload_size b"
  obtains c where "str16_put be b i v = Some c" "payload_size c = payload_size b"
    "unit_at be c i = v" "\<And>j. j < 2 * i \<or> 2 * i + 1 < j \<Longrightarrow> byte_at c j = byte_at b j"
    "usable c = usable b"
proof -
  let ?k = "sizeof_JSString + 2 * i" and ?v = "obj_bytes be 2 v"
  let ?m = "take ?k (cells b) @ ?v @ drop (?k + 2) (cells b)"
  let ?c = "b\<lparr>cells := ?m\<rparr>"
  have l: "?k + 2 \<le> length (cells b)" using assms by (simp add: payload_size_def)
  obtain x y where v: "?v = [x, y]"
    by (rule length_2_obtain [OF length_obj_bytes])
  have at: "byte_at ?c (2 * i) = x" "byte_at ?c (2 * i + 1) = y"
    using l by (simp_all add: byte_at_def v nth_append)
  have "unit_at be ?c i = word_of_nat (obj_val be ?v)"
    unfolding unit_at_def at by (simp only: v)
  then have u: "unit_at be ?c i = v"
    using unat_u16_less [of v] by (simp add: obj_val_obj_bytes)
  have "byte_at ?c j = byte_at b j" if "j < 2 * i \<or> 2 * i + 1 < j" for j
    using that l by (auto simp: byte_at_def v nth_append intro!: arg_cong [where f = "(!) (cells b)"])
  moreover have "payload_size ?c = payload_size b"
    using l by (simp add: payload_size_def)
  moreover have "str16_put be b i v = Some ?c"
    using l by (simp add: str16_put_def put_u16_def mem_write_in)
  ultimately show ?thesis
    using u by (intro that [of ?c]) simp_all
qed


subsection \<open>Copying runs of characters\<close>

text \<open>\<open>memcpy\<close> and the copying loops: consecutive stores and loads of one width.\<close>

fun str8_write :: "block \<Rightarrow> nat \<Rightarrow> u8 list \<Rightarrow> block option" where
  "str8_write b i [] = Some b"
| "str8_write b i (v # vs) = do { b \<leftarrow> str8_put b i v; str8_write b (i + 1) vs }"

fun str16_write :: "bool \<Rightarrow> block \<Rightarrow> nat \<Rightarrow> u16 list \<Rightarrow> block option" where
  "str16_write be b i [] = Some b"
| "str16_write be b i (v # vs) = do { b \<leftarrow> str16_put be b i v; str16_write be b (i + 1) vs }"

fun str8_read :: "block \<Rightarrow> nat \<Rightarrow> nat \<Rightarrow> u8 list option" where
  "str8_read b i 0 = Some []"
| "str8_read b i (Suc n) = do { v \<leftarrow> str8_get b i; vs \<leftarrow> str8_read b (i + 1) n; Some (v # vs) }"

fun str16_read :: "bool \<Rightarrow> block \<Rightarrow> nat \<Rightarrow> nat \<Rightarrow> u16 list option" where
  "str16_read be b i 0 = Some []"
| "str16_read be b i (Suc n) = do { v \<leftarrow> str16_get be b i; vs \<leftarrow> str16_read be b (i + 1) n; Some (v # vs) }"

lemma str8_read_eq: "i + n \<le> payload_size b \<Longrightarrow> str8_read b i n = Some (map (byte_at b) [i..<i + n])"
  by (induction n arbitrary: i) (auto simp: mem_simps upt_conv_Cons simp del: upt_Suc)

lemma str16_read_eq:
  "2 * (i + n) \<le> payload_size b \<Longrightarrow> str16_read be b i n = Some (map (unit_at be b) [i..<i + n])"
  by (induction n arbitrary: i) (auto simp: mem_simps upt_conv_Cons simp del: upt_Suc)

lemma str8_write_eq:
  assumes "i + length vs \<le> payload_size b"
  obtains c where "str8_write b i vs = Some c" "payload_size c = payload_size b" "usable c = usable b"
    "\<And>j. byte_at c j = (if i \<le> j \<and> j < i + length vs then vs ! (j - i) else byte_at b j)"
  using assms
proof (induction vs arbitrary: b i thesis)
  case (Cons v vs)
  then have "i < payload_size b" by simp
  then obtain d where d: "str8_put b i v = Some d" "payload_size d = payload_size b"
    "\<And>j. byte_at d j = (if j = i then v else byte_at b j)" "usable d = usable b"
    by (rule str8_put_eq [of i b v]) blast
  have "i + 1 + length vs \<le> payload_size d" using Cons.prems(2) d(2) by simp
  then obtain c where c: "str8_write d (i + 1) vs = Some c" "payload_size c = payload_size d" "usable c = usable d"
    "\<And>j. byte_at c j = (if i + 1 \<le> j \<and> j < i + 1 + length vs then vs ! (j - (i + 1)) else byte_at d j)"
    by (rule Cons.IH [rotated]) blast
  show ?case
    using c d by (intro Cons.prems(1) [of c]) (auto simp: nth_Cons')
next
  case Nil
  then show ?case by (intro Nil.prems(1) [of b]) auto
qed

lemma str16_write_eq:
  assumes "2 * (i + length vs) \<le> payload_size b"
  obtains c where "str16_write be b i vs = Some c" "payload_size c = payload_size b" "usable c = usable b"
    "\<And>j. i \<le> j \<Longrightarrow> j < i + length vs \<Longrightarrow> unit_at be c j = vs ! (j - i)"
    "\<And>j. j < 2 * i \<or> 2 * (i + length vs) \<le> j \<Longrightarrow> byte_at c j = byte_at b j"
  using assms
proof (induction vs arbitrary: b i thesis)
  case (Cons v vs)
  then have "2 * i + 1 < payload_size b" by simp
  then obtain d where d: "str16_put be b i v = Some d" "payload_size d = payload_size b" "unit_at be d i = v"
    "\<And>j. j < 2 * i \<or> 2 * i + 1 < j \<Longrightarrow> byte_at d j = byte_at b j" "usable d = usable b"
    by (rule str16_put_eq [of i b be v]) blast
  have "2 * (i + 1 + length vs) \<le> payload_size d" using Cons.prems(2) d(2) by simp
  then obtain c where c: "str16_write be d (i + 1) vs = Some c" "payload_size c = payload_size d" "usable c = usable d"
    "\<And>j. i + 1 \<le> j \<Longrightarrow> j < i + 1 + length vs \<Longrightarrow> unit_at be c j = vs ! (j - (i + 1))"
    "\<And>j. j < 2 * (i + 1) \<or> 2 * (i + 1 + length vs) \<le> j \<Longrightarrow> byte_at c j = byte_at d j"
    by (rule Cons.IH [rotated]) blast
  have "unit_at be c i = v" using c(5) d(3) by (simp add: unit_at_def)
  then have "unit_at be c j = (v # vs) ! (j - i)" if "i \<le> j" "j < i + length (v # vs)" for j
    using that c(4) [of j] by (cases "j = i") (auto simp: nth_Cons')
  moreover have "byte_at c j = byte_at b j" if "j < 2 * i \<or> 2 * (i + length (v # vs)) \<le> j" for j
    using that c(5) [of j] d(4) [of j] by auto
  ultimately show ?case
    using c d by (intro Cons.prems(1) [of c]) simp_all
qed simp

lemma buf_units_write8:
  assumes "i + length vs \<le> payload_size b"
  obtains c where "str8_write b i vs = Some c" "payload_size c = payload_size b" "usable c = usable b"
    "buf_units be False c (i + length vs) = buf_units be False b i @ map ucast vs"
    "\<And>j. j < i \<or> i + length vs \<le> j \<Longrightarrow> byte_at c j = byte_at b j"
proof -
  obtain c where c: "str8_write b i vs = Some c" "payload_size c = payload_size b" "usable c = usable b"
    "\<And>j. byte_at c j = (if i \<le> j \<and> j < i + length vs then vs ! (j - i) else byte_at b j)"
    using str8_write_eq [OF assms] by blast
  have "buf_units be False c (i + length vs) = buf_units be False b i @ map ucast vs"
    by (rule nth_equalityI) (auto simp: c(4) nth_append)
  with c show ?thesis by (intro that [of c]) auto
qed

lemma buf_units_write16:
  assumes "2 * (i + length vs) \<le> payload_size b"
  obtains c where "str16_write be b i vs = Some c" "payload_size c = payload_size b" "usable c = usable b"
    "buf_units be True c (i + length vs) = buf_units be True b i @ vs"
proof -
  obtain c where c: "str16_write be b i vs = Some c" "payload_size c = payload_size b" "usable c = usable b"
    "\<And>j. i \<le> j \<Longrightarrow> j < i + length vs \<Longrightarrow> unit_at be c j = vs ! (j - i)"
    "\<And>j. j < 2 * i \<or> 2 * (i + length vs) \<le> j \<Longrightarrow> byte_at c j = byte_at b j"
    using str16_write_eq [OF assms] by blast
  have "unit_at be c j = unit_at be b j" if "j < i" for j
    using that c(5) by (simp add: unit_at_def)
  then have "buf_units be True c (i + length vs) = buf_units be True b i @ vs"
    by (intro nth_equalityI) (auto simp: c(4) nth_append)
  with c show ?thesis by (intro that [of c]) auto
qed


subsection \<open>Strings\<close>

record js_string =
  str_block :: block
  str_len :: nat
  str_wide :: bool

definition str_units :: "bool \<Rightarrow> js_string \<Rightarrow> u16 list" where
  "str_units be p = buf_units be (str_wide p) (str_block p) (str_len p)"

text \<open>The block holds every unit; an 8-bit string has a terminating zero after them.\<close>

definition str_ok :: "js_string \<Rightarrow> bool" where
  "str_ok p \<longleftrightarrow> str_len p \<le> JS_STRING_LEN_MAX \<and>
     (if str_wide p then 2 * str_len p \<le> payload_size (str_block p)
      else str_len p < payload_size (str_block p) \<and> byte_at (str_block p) (str_len p) = 0)"

lemma length_str_units [simp]: "length (str_units be p) = str_len p"
  by (simp add: str_units_def)

datatype js_error = OutOfMemory | RangeError

text \<open>The predefined atom \<open>JS_ATOM_empty_string\<close>, which \<open>JS_AtomToString\<close> returns as a string.\<close>

definition empty_string :: js_string where
  "empty_string = \<lparr>str_block = \<lparr>cells = replicate (sizeof_JSString + 1) 0, usable = 32\<rparr>, str_len = 0, str_wide = False\<rparr>"

lemma empty_string [simp]: "str_ok empty_string" "str_units be empty_string = []"
  by (simp_all add: empty_string_def str_ok_def str_units_def payload_size_def byte_at_def sizeof_JSString_def)

text \<open>
  Allocation.  \<open>sa\<close> stands for \<open>js_malloc_rt\<close>, \<open>js_realloc_rt\<close> and \<open>js_realloc2\<close> of the
  runtime, whose state is \<open>'h\<close>: a block of at least the bytes asked for, with the old contents.
  What a block has beyond the request is the slack \<open>js_realloc2\<close> reports.
\<close>

type_synonym 'h str_realloc = "'h \<Rightarrow> block option \<Rightarrow> nat \<Rightarrow> 'h \<times> block option"

locale string_alloc =
  fixes sa :: "'h str_realloc"
  assumes sa_size: "0 < n \<Longrightarrow> n < 2 ^ 32 \<Longrightarrow> sa h p n = (h', Some q) \<Longrightarrow> n \<le> length (cells q)"
    and sa_keeps: "0 < n \<Longrightarrow> n < 2 ^ 32 \<Longrightarrow> sa h p n = (h', Some q) \<Longrightarrow> k \<le> n \<Longrightarrow> k \<le> length (pcells p) \<Longrightarrow>
      take k (cells q) = take k (pcells p)"

text \<open>The engine's own functions as such an allocator; \<open>fill\<close> is the content of the slack bytes.\<close>

definition js_realloc2 :: "'o malloc_functions \<Rightarrow> u8 \<Rightarrow> 'o malloc_state str_realloc" where
  "js_realloc2 mf fill st ptr sz =
     (case js_realloc_rt mf st ptr (word_of_nat sz) of
        None \<Rightarrow> (st, None)
      | Some (st, None) \<Rightarrow> (st, None)
      | Some (st, Some q) \<Rightarrow>
          let new_size = unat (mf_usable_size mf q);
              slack = (if new_size > sz then new_size - sz else 0)
          in (st, Some (q\<lparr>cells := cells q @ replicate slack fill\<rparr>)))"

context malloc_laws
begin

lemma js_realloc2_laws: "string_alloc (js_realloc2 mf fill)"
proof (unfold_locales, goal_cases)
  case (1 n h p h' q)
  have "(word_of_nat n :: u64) \<noteq> 0" "unat (word_of_nat n :: u64) = n"
    using 1(1,2) by (simp_all add: unsigned_of_nat take_bit_nat_eq_self word_of_nat_eq_0_iff nat_dvd_not_less)
  with 1(3) show ?case
    by (auto simp: js_realloc2_def Let_def js_dbuf_realloc_def split: option.splits prod.splits
        dest!: js_rt.realloc_length [unfolded js_dbuf_realloc_def, rotated])
next
  case (2 n h p h' q k)
  have w: "(word_of_nat n :: u64) \<noteq> 0" "unat (word_of_nat n :: u64) = n"
    using 2(1,2) by (simp_all add: unsigned_of_nat take_bit_nat_eq_self word_of_nat_eq_0_iff nat_dvd_not_less)
  obtain h1 q1 slack where r: "js_realloc_rt mf h p (word_of_nat n) = Some (h1, Some q1)"
    "q = q1\<lparr>cells := cells q1 @ replicate slack fill\<rparr>"
    using 2(3) by (auto simp: js_realloc2_def Let_def split: option.splits prod.splits)
  have "length (cells q1) = n"
    using js_rt.realloc_length [unfolded js_dbuf_realloc_def, OF w(1) r(1)] w by simp
  moreover have "take k (cells q1) = take k (pcells p)"
    using js_rt.realloc_prefix [unfolded js_dbuf_realloc_def, OF w(1) r(1)] w 2(4,5) by simp
  ultimately show ?case
    using r(2) 2(4) by simp
qed

end

interpretation def_string: string_alloc "js_realloc2 def_malloc_funcs fill" for fill
  by (rule def_malloc.js_realloc2_laws)

text \<open>\<open>sizeof(JSString) + (n << w) + 1 - w\<close>\<close>

definition str_alloc_size :: "nat \<Rightarrow> bool \<Rightarrow> nat" where
  "str_alloc_size n w = sizeof_JSString + (if w then 2 * n else n) + 1 - (if w then 1 else 0)"

definition js_alloc_string ::
    "'h str_realloc \<Rightarrow> 'h \<Rightarrow> nat \<Rightarrow> bool \<Rightarrow> 'h \<times> (js_error + js_string)" where
  "js_alloc_string sa h max_len w =
     (case sa h None (str_alloc_size max_len w) of
        (h, None) \<Rightarrow> (h, Inl OutOfMemory)
      | (h, Some b) \<Rightarrow> (h, Inr \<lparr>str_block = b, str_len = max_len, str_wide = w\<rparr>))"

type_synonym 'h str_result = "('h \<times> (js_error + js_string)) option"

text \<open>Filling a fresh string: \<open>f\<close> stores into its block.\<close>

definition fill_string :: "(block \<Rightarrow> block option) \<Rightarrow> 'h \<times> (js_error + js_string) \<Rightarrow> 'h str_result" where
  "fill_string f r =
     (case r of
        (h, Inl e) \<Rightarrow> Some (h, Inl e)
      | (h, Inr p) \<Rightarrow> map_option (\<lambda>b. (h, Inr (p\<lparr>str_block := b\<rparr>))) (f (str_block p)))"

definition js_new_string8_len :: "'h str_realloc \<Rightarrow> 'h \<Rightarrow> u8 list \<Rightarrow> 'h str_result" where
  "js_new_string8_len sa h buf =
     fill_string (\<lambda>b. do { b \<leftarrow> str8_write b 0 buf; str8_put b (length buf) 0 })
       (js_alloc_string sa h (length buf) False)"

definition js_new_string16_len :: "bool \<Rightarrow> 'h str_realloc \<Rightarrow> 'h \<Rightarrow> u16 list \<Rightarrow> 'h str_result" where
  "js_new_string16_len be sa h buf =
     fill_string (\<lambda>b. str16_write be b 0 buf) (js_alloc_string sa h (length buf) True)"

definition js_new_string_char :: "bool \<Rightarrow> 'h str_realloc \<Rightarrow> 'h \<Rightarrow> u16 \<Rightarrow> 'h str_result" where
  "js_new_string_char be sa h c =
     (if c < 0x100 then js_new_string8_len sa h [ucast c] else js_new_string16_len be sa h [c])"

definition js_sub_string ::
    "bool \<Rightarrow> 'h str_realloc \<Rightarrow> 'h \<Rightarrow> js_string \<Rightarrow> nat \<Rightarrow> nat \<Rightarrow> 'h str_result" where
  "js_sub_string be sa h p start e =
     (if start = 0 \<and> e = str_len p then Some (h, Inr p)
      else if e \<le> start then Some (h, Inr empty_string)
      else if str_wide p then do {
        us \<leftarrow> str16_read be (str_block p) start (e - start);
        let c = foldl (\<lambda>c u. c OR u) 0 us;
        if c > 0xFF then js_new_string16_len be sa h us
        else fill_string (\<lambda>b. do { b \<leftarrow> str8_write b 0 (map ucast us); str8_put b (e - start) 0 })
               (js_alloc_string sa h (e - start) False) }
      else do {
        bs \<leftarrow> str8_read (str_block p) start (e - start);
        js_new_string8_len sa h bs })"

text \<open>A result is an error or a sound string with the given units.\<close>

definition is_string :: "bool \<Rightarrow> u16 list \<Rightarrow> 'h str_result \<Rightarrow> bool" where
  "is_string be us r \<longleftrightarrow>
     (\<exists>h. r = Some (h, Inl OutOfMemory)) \<or> (\<exists>h p. r = Some (h, Inr p) \<and> str_ok p \<and> str_units be p = us)"

lemma is_stringI: "str_ok p \<Longrightarrow> str_units be p = us \<Longrightarrow> is_string be us (Some (h, Inr p))"
  and is_string_oom: "is_string be us (Some (h, Inl OutOfMemory))"
  by (simp_all add: is_string_def)

context string_alloc
begin

lemma alloc_string_cases:
  assumes "n \<le> JS_STRING_LEN_MAX"
  obtains (fail) h' where "js_alloc_string sa h n w = (h', Inl OutOfMemory)"
  | (ok) h' b where "js_alloc_string sa h n w = (h', Inr \<lparr>str_block = b, str_len = n, str_wide = w\<rparr>)"
      "(if w then 2 * n else n + 1) \<le> payload_size b"
proof (cases "sa h None (str_alloc_size n w)")
  case (Pair h' r)
  then show ?thesis
  proof (cases r)
    case (Some b)
    have "str_alloc_size n w \<le> length (cells b)"
      using assms by (intro sa_size [OF _ _ Pair [unfolded Some]])
        (simp_all add: str_alloc_size_def sizeof_JSString_def JS_STRING_LEN_MAX_def)
    then show ?thesis
      using Pair Some ok by (auto simp: js_alloc_string_def payload_size_def str_alloc_size_def split: if_splits)
  qed (use fail Pair in \<open>simp add: js_alloc_string_def\<close>)
qed

lemma new_string8:
  assumes "length bs \<le> JS_STRING_LEN_MAX"
  shows "is_string be (map ucast bs) (js_new_string8_len sa h bs)"
proof (cases rule: alloc_string_cases [OF assms, of h False])
  case (1 h')
  then show ?thesis by (simp add: js_new_string8_len_def fill_string_def is_string_oom)
next
  case ok: (2 h' b)
  then have "0 + length bs \<le> payload_size b" by simp
  then obtain c where c: "str8_write b 0 bs = Some c" "payload_size c = payload_size b"
    "buf_units be False c (0 + length bs) = buf_units be False b 0 @ map ucast bs"
    by (rule buf_units_write8)
  have "length bs < payload_size c" using c(2) ok by simp
  then obtain d where d: "str8_put c (length bs) 0 = Some d" "payload_size d = payload_size c"
    "\<And>j. byte_at d j = (if j = length bs then 0 else byte_at c j)"
    by (rule str8_put_eq [where v = 0]) blast
  have "buf_units be False d (length bs) = buf_units be False c (length bs)"
    by (rule buf_units_cong) (simp add: d(3))
  with c d ok assms show ?thesis
    by (simp add: js_new_string8_len_def fill_string_def is_string_def str_ok_def str_units_def)
qed

lemma new_string16:
  assumes "length us \<le> JS_STRING_LEN_MAX"
  shows "is_string be us (js_new_string16_len be sa h us)"
proof (cases rule: alloc_string_cases [OF assms, of h True])
  case (1 h')
  then show ?thesis by (simp add: js_new_string16_len_def fill_string_def is_string_oom)
next
  case ok: (2 h' b)
  then have "2 * (0 + length us) \<le> payload_size b" by simp
  then obtain c where "str16_write be b 0 us = Some c" "payload_size c = payload_size b"
    "buf_units be True c (0 + length us) = buf_units be True b 0 @ us"
    by (rule buf_units_write16)
  with ok assms show ?thesis
    by (simp add: js_new_string16_len_def fill_string_def is_string_def str_ok_def str_units_def)
qed

end


subsection \<open>Reading a string\<close>

lemma str16_read_units:
  assumes "str_ok p" "str_wide p" "i + n \<le> str_len p"
  shows "str16_read be (str_block p) i n = Some (take n (drop i (str_units be p)))"
proof -
  have "map (unit_at be (str_block p)) [i..<i + n] = take n (drop i (str_units be p))"
    using assms by (intro nth_equalityI) (simp_all add: str_units_def)
  moreover have "2 * (i + n) \<le> payload_size (str_block p)"
    using assms by (simp add: str_ok_def)
  ultimately show ?thesis by (simp add: str16_read_eq)
qed

lemma str8_read_units:
  assumes "str_ok p" "\<not> str_wide p" "i + n \<le> str_len p"
  obtains bs where "str8_read (str_block p) i n = Some bs" "length bs = n"
    "map ucast bs = take n (drop i (str_units be p))"
proof (rule that)
  show "str8_read (str_block p) i n = Some (map (byte_at (str_block p)) [i..<i + n])"
    using assms by (intro str8_read_eq) (simp add: str_ok_def)
  show "map ucast (map (byte_at (str_block p)) [i..<i + n]) = take n (drop i (str_units be p))"
    using assms by (intro nth_equalityI) (simp_all add: str_units_def)
qed simp

lemma or_units_small:
  "(foldl (\<lambda>c u. c OR u) (a :: u16) us \<le> 0xFF) = (a \<le> 0xFF \<and> (\<forall>u \<in> set us. u \<le> 0xFF))"
proof (induction us arbitrary: a)
  case (Cons u us)
  have le: "(x \<le> 0xFF) = (drop_bit 8 x = 0)" for x :: u16
  proof -
    have "unat (drop_bit 8 x) = unat x div 256" by (simp only: unat_drop_bit) simp
    then show ?thesis by (simp add: word_le_nat_alt word_unat_eq_iff div_eq_0_iff) linarith
  qed
  have "drop_bit 8 (a OR u) = 0 \<longleftrightarrow> drop_bit 8 a = 0 \<and> drop_bit 8 u = 0"
    by (simp add: drop_bit_or or_eq_0_iff)
  then have "(a OR u \<le> 0xFF) = (a \<le> 0xFF \<and> u \<le> 0xFF)" by (simp only: le)
  with Cons show ?case by auto
qed simp

lemma map_ucast_narrow: "\<forall>u \<in> set us. u \<le> 0xFF \<Longrightarrow> map ucast (map ucast (us :: u16 list) :: u8 list) = us"
proof (induction us)
  case (Cons u us)
  have m: "unat u mod 256 = unat u" using Cons.prems by (simp add: word_le_nat_alt)
  have "ucast (ucast u :: u8) = u"
    by (rule word_eq_unatI) (simp only: unat_ucast_u8_u16 unat_ucast_u8 m)
  with Cons show ?case by simp
qed simp

context string_alloc
begin

lemma sub_string:
  assumes p: "str_ok p" and r: "start \<le> e" "e \<le> str_len p"
  shows "is_string be (take (e - start) (drop start (str_units be p))) (js_sub_string be sa h p start e)"
proof -
  let ?us = "take (e - start) (drop start (str_units be p))"
  have max: "length ?us \<le> JS_STRING_LEN_MAX" using p r by (auto simp: str_ok_def split: if_splits)
  consider "start = 0 \<and> e = str_len p" | "\<not> (start = 0 \<and> e = str_len p)" "e \<le> start"
    | "\<not> (start = 0 \<and> e = str_len p)" "start < e" "str_wide p"
    | "\<not> (start = 0 \<and> e = str_len p)" "start < e" "\<not> str_wide p"
    using r by linarith
  then show ?thesis
  proof cases
    case 1
    then have "?us = str_units be p" by simp
    with 1 p show ?thesis by (auto simp: js_sub_string_def is_string_def)
  next
    case 2
    then show ?thesis by (auto simp: js_sub_string_def is_string_def)
  next
    case 3
    have read: "str16_read be (str_block p) start (e - start) = Some ?us"
      using 3 p r by (intro str16_read_units) simp_all
    show ?thesis
    proof (cases "foldl (\<lambda>c u. c OR u) 0 ?us > 0xFF")
      case True
      with 3 read have "js_sub_string be sa h p start e = js_new_string16_len be sa h ?us"
        by (auto simp: js_sub_string_def Let_def)
      with new_string16 [OF max] show ?thesis by simp
    next
      case False
      then have "\<forall>u \<in> set ?us. u \<le> 0xFF"
        unfolding not_less or_units_small by blast
      then have narrow: "map ucast (map ucast ?us :: u8 list) = ?us" by (rule map_ucast_narrow)
      have len: "length (map ucast ?us :: u8 list) = e - start" using r by simp
      from 3 read False have "js_sub_string be sa h p start e = js_new_string8_len sa h (map ucast ?us)"
        by (auto simp: js_sub_string_def Let_def js_new_string8_len_def len simp del: length_map length_take)
      moreover have "length (map ucast ?us :: u8 list) \<le> JS_STRING_LEN_MAX" using max by simp
      ultimately show ?thesis using new_string8 [of "map ucast ?us" be h] narrow by simp
    qed
  next
    case 4
    obtain bs where bs: "str8_read (str_block p) start (e - start) = Some bs" "length bs = e - start" "map ucast bs = ?us"
      using 4 p r by (auto intro: str8_read_units [of p start "e - start" be])
    then have "length bs \<le> JS_STRING_LEN_MAX" using max by (metis length_map)
    from new_string8 [OF this, of be h] 4 bs show ?thesis by (auto simp: js_sub_string_def)
  qed
qed

end

text \<open>A state of the runtime, for examples.\<close>

definition example_state :: "libc_heap malloc_state" where
  "example_state = \<lparr>malloc_count = 1, malloc_size = 0, malloc_limit = 0,
     malloc_opaque = \<lparr>grants = (\<lambda>_. True), chunk_size = (\<lambda>n. n), fresh_byte = 0xAA\<rparr>\<rparr>"

text \<open>
  C21.  \<open>js_sub_string\<close>, over the engine's allocator with the default functions, returns a
  sound string whose units are the units from \<open>start\<close> to \<open>e\<close> of its argument, of either
  width and in either byte order, also where it narrows a 16-bit range to bytes; or it reports
  that memory ran out.  It never accesses memory outside the two blocks.
\<close>

theorem js_sub_string_units:
  assumes "str_ok p" "start \<le> e" "e \<le> str_len p"
  shows "(\<exists>h'. js_sub_string be (js_realloc2 def_malloc_funcs fill) h p start e = Some (h', Inl OutOfMemory)) \<or>
    (\<exists>h' q. js_sub_string be (js_realloc2 def_malloc_funcs fill) h p start e = Some (h', Inr q) \<and>
      str_ok q \<and> str_units be q = take (e - start) (drop start (str_units be p)))"
  using def_string.sub_string [OF assms, of be fill h] by (simp add: is_string_def)

lemma js_sub_string_units_witness:
  "\<exists>h' r. js_sub_string False (js_realloc2 def_malloc_funcs 0) example_state
     \<lparr>str_block = \<lparr>cells = replicate 24 0 @ [0x61, 0, 0xAC, 0x20], usable = 28\<rparr>, str_len = 2, str_wide = True\<rparr> 0 1
     = Some (h', r)"
  using js_sub_string_units [of "\<lparr>str_block = \<lparr>cells = replicate 24 0 @ [0x61, 0, 0xAC, 0x20], usable = 28\<rparr>, str_len = 2, str_wide = True\<rparr>" 0 1 False 0 example_state]
  by (auto simp: str_ok_def payload_size_def sizeof_JSString_def JS_STRING_LEN_MAX_def)

end
