(* ===== verification/Js_String_Ops.thy ===== *)
theory Js_String_Ops
  imports Js_String
begin

section \<open>Comparing, searching and iterating over strings\<close>

text \<open>
  The functions of src/quickjs/quickjs.c that read strings.  Each one reads through the width
  of its arguments; the lemmas restate it over the units alone.  An \<open>int\<close> that holds a
  character is a \<open>u32\<close> here.
\<close>

subsection \<open>Operations\<close>

definition string_get :: "bool \<Rightarrow> js_string \<Rightarrow> nat \<Rightarrow> u32 option" where
  "string_get be p idx =
     (if str_wide p then map_option ucast (str16_get be (str_block p) idx)
      else map_option ucast (str8_get (str_block p) idx))"

fun hash_string8 :: "u8 list \<Rightarrow> u32 \<Rightarrow> u32" where
  "hash_string8 [] h = h"
| "hash_string8 (c # str) h = hash_string8 str (h * 263 + ucast c)"

fun hash_string16 :: "u16 list \<Rightarrow> u32 \<Rightarrow> u32" where
  "hash_string16 [] h = h"
| "hash_string16 (c # str) h = hash_string16 str (h * 263 + ucast c)"

definition hash_string :: "bool \<Rightarrow> js_string \<Rightarrow> u32 \<Rightarrow> u32 option" where
  "hash_string be str h =
     (if str_wide str then map_option (\<lambda>us. hash_string16 us h) (str16_read be (str_block str) 0 (str_len str))
      else map_option (\<lambda>bs. hash_string8 bs h) (str8_read (str_block str) 0 (str_len str)))"

fun memcmp16_8 :: "u16 list \<Rightarrow> u8 list \<Rightarrow> nat \<Rightarrow> int option" where
  "memcmp16_8 src1 src2 0 = Some 0"
| "memcmp16_8 (a # src1) (b # src2) (Suc len) =
     (let c = uint a - uint b in if c \<noteq> 0 then Some c else memcmp16_8 src1 src2 len)"
| "memcmp16_8 _ _ (Suc len) = None"

fun memcmp16 :: "u16 list \<Rightarrow> u16 list \<Rightarrow> nat \<Rightarrow> int option" where
  "memcmp16 src1 src2 0 = Some 0"
| "memcmp16 (a # src1) (b # src2) (Suc len) =
     (let c = uint a - uint b in if c \<noteq> 0 then Some c else memcmp16 src1 src2 len)"
| "memcmp16 _ _ (Suc len) = None"

text \<open>The C library specifies the sign of \<open>memcmp\<close>; the model returns the sign.\<close>

fun memcmp8 :: "u8 list \<Rightarrow> u8 list \<Rightarrow> nat \<Rightarrow> int option" where
  "memcmp8 src1 src2 0 = Some 0"
| "memcmp8 (a # src1) (b # src2) (Suc len) =
     (if a < b then Some (-1) else if b < a then Some 1 else memcmp8 src1 src2 len)"
| "memcmp8 _ _ (Suc len) = None"

definition js_string_memcmp :: "bool \<Rightarrow> js_string \<Rightarrow> js_string \<Rightarrow> nat \<Rightarrow> int option" where
  "js_string_memcmp be p1 p2 len =
     (if \<not> str_wide p1 then do {
        a \<leftarrow> str8_read (str_block p1) 0 len;
        if \<not> str_wide p2 then do { b \<leftarrow> str8_read (str_block p2) 0 len; memcmp8 a b len }
        else do { b \<leftarrow> str16_read be (str_block p2) 0 len; map_option uminus (memcmp16_8 b a len) } }
      else do {
        a \<leftarrow> str16_read be (str_block p1) 0 len;
        if \<not> str_wide p2 then do { b \<leftarrow> str8_read (str_block p2) 0 len; memcmp16_8 a b len }
        else do { b \<leftarrow> str16_read be (str_block p2) 0 len; memcmp16 a b len } })"

definition compare_u32 :: "nat \<Rightarrow> nat \<Rightarrow> int" where
  "compare_u32 a b = - of_bool (a < b) + of_bool (b < a)"

definition js_string_compare :: "bool \<Rightarrow> js_string \<Rightarrow> js_string \<Rightarrow> int option" where
  "js_string_compare be p1 p2 = do {
     let len = min (str_len p1) (str_len p2);
     res \<leftarrow> js_string_memcmp be p1 p2 len;
     if res = 0 then Some (compare_u32 (str_len p1) (str_len p2)) else Some res }"

fun string_cmp :: "bool \<Rightarrow> js_string \<Rightarrow> js_string \<Rightarrow> nat \<Rightarrow> nat \<Rightarrow> nat \<Rightarrow> int option" where
  "string_cmp be p1 p2 x1 x2 0 = Some 0"
| "string_cmp be p1 p2 x1 x2 (Suc len) = do {
     c1 \<leftarrow> string_get be p1 x1;
     c2 \<leftarrow> string_get be p2 x2;
     if c1 \<noteq> c2 then Some (uint c1 - uint c2)
     else string_cmp be p1 p2 (x1 + 1) (x2 + 1) len }"

fun indexof_char16 :: "bool \<Rightarrow> block \<Rightarrow> u32 \<Rightarrow> nat \<Rightarrow> nat \<Rightarrow> int option" where
  "indexof_char16 be b c i 0 = Some (-1)"
| "indexof_char16 be b c i (Suc n) = do {
     u \<leftarrow> str16_get be b i;
     if ucast u = c then Some (int i) else indexof_char16 be b c (i + 1) n }"

fun indexof_char8 :: "block \<Rightarrow> u32 \<Rightarrow> nat \<Rightarrow> nat \<Rightarrow> int option" where
  "indexof_char8 b c i 0 = Some (-1)"
| "indexof_char8 b c i (Suc n) = do {
     u \<leftarrow> str8_get b i;
     if u = ucast c then Some (int i) else indexof_char8 b c (i + 1) n }"

definition string_indexof_char :: "bool \<Rightarrow> js_string \<Rightarrow> u32 \<Rightarrow> nat \<Rightarrow> int option" where
  "string_indexof_char be p c start =
     (if str_wide p then indexof_char16 be (str_block p) c start (str_len p - start)
      else if c AND NOT 0xFF = 0 then indexof_char8 (str_block p) c start (str_len p - start)
      else Some (-1))"

lemma indexof_char16_ge: "indexof_char16 be b c i n = Some j \<Longrightarrow> j < 0 \<or> int i \<le> j"
  by (induction be b c i n rule: indexof_char16.induct) (auto split: bind_splits if_splits)

lemma indexof_char8_ge: "indexof_char8 b c i n = Some j \<Longrightarrow> j < 0 \<or> int i \<le> j"
  by (induction b c i n rule: indexof_char8.induct) (auto split: bind_splits if_splits)

lemma string_indexof_char_ge: "string_indexof_char be p c i = Some j \<Longrightarrow> j < 0 \<or> int i \<le> j"
  by (auto simp: string_indexof_char_def dest: indexof_char16_ge indexof_char8_ge split: if_splits)

function indexof_loop :: "bool \<Rightarrow> js_string \<Rightarrow> js_string \<Rightarrow> u32 \<Rightarrow> nat \<Rightarrow> int option" where
  "indexof_loop be p1 p2 c i =
     (if i + str_len p2 \<le> str_len p1 then do {
        j \<leftarrow> string_indexof_char be p1 c i;
        if j < 0 \<or> j + int (str_len p2) > int (str_len p1) then Some (-1)
        else do {
          r \<leftarrow> string_cmp be p1 p2 (nat j + 1) 1 (str_len p2 - 1);
          if r = 0 then Some j else indexof_loop be p1 p2 c (nat j + 1) } }
      else Some (-1))"
  by pat_completeness auto
termination
  by (relation "measure (\<lambda>(be, p1, p2, c, i). str_len p1 + 1 - i)")
    (auto dest: string_indexof_char_ge)

declare indexof_loop.simps [simp del]

definition string_indexof :: "bool \<Rightarrow> js_string \<Rightarrow> js_string \<Rightarrow> nat \<Rightarrow> int option" where
  "string_indexof be p1 p2 start =
     (if str_len p2 = 0 then Some (int start)
      else do { c \<leftarrow> string_get be p2 0; indexof_loop be p1 p2 c start })"

text \<open>
  The search of \<open>indexOf\<close> and \<open>lastIndexOf\<close>, from \<open>start\<close> to \<open>stop\<close> in steps of
  \<open>inc\<close>, which is 1 or -1.  The recursion counts the steps left to \<open>stop\<close>.
\<close>

fun index_search_loop :: "bool \<Rightarrow> js_string \<Rightarrow> js_string \<Rightarrow> int \<Rightarrow> int \<Rightarrow> nat \<Rightarrow> int option" where
  "index_search_loop be p p1 inc i n = do {
     r \<leftarrow> string_cmp be p p1 (nat i) 0 (str_len p1);
     if r = 0 then Some i
     else case n of 0 \<Rightarrow> Some (-1) | Suc n \<Rightarrow> index_search_loop be p p1 inc (i + inc) n }"

definition js_string_indexOf :: "bool \<Rightarrow> js_string \<Rightarrow> js_string \<Rightarrow> int \<Rightarrow> bool \<Rightarrow> int option" where
  "js_string_indexOf be p p1 pos lastIndexOf =
     (let len = int (str_len p); v_len = int (str_len p1); start = pos;
          stop = (if lastIndexOf then 0 else len - v_len);
          inc = (if lastIndexOf then -1 else 1)
      in if len \<ge> v_len \<and> inc * (stop - start) \<ge> 0
         then index_search_loop be p p1 inc start (nat (inc * (stop - start)))
         else Some (-1))"

definition string_getc :: "bool \<Rightarrow> js_string \<Rightarrow> nat \<Rightarrow> (u32 \<times> nat) option" where
  "string_getc be p idx =
     (if str_wide p then do {
        u \<leftarrow> str16_get be (str_block p) idx;
        let c = (ucast u :: u32);
        let idx = idx + 1;
        if is_hi_surrogate c \<and> idx < str_len p then do {
          c1 \<leftarrow> str16_get be (str_block p) idx;
          if is_lo_surrogate (ucast c1) then Some (from_surrogate c (ucast c1), idx + 1)
          else Some (c, idx) }
        else Some (c, idx) }
      else do { u \<leftarrow> str8_get (str_block p) idx; Some (ucast u, idx + 1) })"

definition string_prevc :: "bool \<Rightarrow> js_string \<Rightarrow> nat \<Rightarrow> (u32 \<times> nat) option" where
  "string_prevc be p idx =
     (if idx = 0 then Some (0, idx)
      else let idx = idx - 1 in
        if str_wide p then do {
          u \<leftarrow> str16_get be (str_block p) idx;
          let c = (ucast u :: u32);
          if is_lo_surrogate c \<and> idx > 0 then do {
            c1 \<leftarrow> str16_get be (str_block p) (idx - 1);
            if is_hi_surrogate (ucast c1) then Some (from_surrogate (ucast c1) c, idx - 1)
            else Some (c, idx) }
          else Some (c, idx) }
        else do { u \<leftarrow> str8_get (str_block p) idx; Some (ucast u, idx) })"

definition string_advance_index :: "bool \<Rightarrow> js_string \<Rightarrow> nat \<Rightarrow> bool \<Rightarrow> nat option" where
  "string_advance_index be p index unicode =
     (if \<not> unicode \<or> str_len p \<le> index \<or> \<not> str_wide p then Some (index + 1)
      else map_option snd (string_getc be p index))"

text \<open>The loop of \<open>isWellFormed\<close> returns the index it stops at.\<close>

function isWellFormed_loop :: "bool \<Rightarrow> block \<Rightarrow> nat \<Rightarrow> nat \<Rightarrow> nat option" where
  "isWellFormed_loop be b n i =
     (if i < n then do {
        u \<leftarrow> str16_get be b i;
        let c = (ucast u :: u32);
        if \<not> is_surrogate c then isWellFormed_loop be b n (i + 1)
        else if is_lo_surrogate c \<or> i + 1 = n then Some i
        else do {
          v \<leftarrow> str16_get be b (i + 1);
          if \<not> is_lo_surrogate (ucast v) then Some (i + 1)
          else isWellFormed_loop be b n (i + 2) } }
      else Some i)"
  by pat_completeness auto
termination
  by (relation "measure (\<lambda>(be, b, n, i). n - i)") auto

declare isWellFormed_loop.simps [simp del]

definition js_string_isWellFormed :: "bool \<Rightarrow> js_string \<Rightarrow> bool option" where
  "js_string_isWellFormed be p =
     (if \<not> str_wide p \<or> str_len p = 0 then Some True
      else do { i \<leftarrow> isWellFormed_loop be (str_block p) (str_len p) 0; Some (\<not> i < str_len p) })"

function toWellFormed_loop :: "bool \<Rightarrow> block \<Rightarrow> nat \<Rightarrow> nat \<Rightarrow> block option" where
  "toWellFormed_loop be b n i =
     (if i < n then do {
        u \<leftarrow> str16_get be b i;
        let c = (ucast u :: u32);
        if \<not> is_surrogate c then toWellFormed_loop be b n (i + 1)
        else if is_lo_surrogate c \<or> i + 1 = n then do {
          b \<leftarrow> str16_put be b i 0xFFFD;
          toWellFormed_loop be b n (i + 1) }
        else do {
          v \<leftarrow> str16_get be b (i + 1);
          if \<not> is_lo_surrogate (ucast v) then do {
            b \<leftarrow> str16_put be b i 0xFFFD;
            toWellFormed_loop be b n (i + 1) }
          else toWellFormed_loop be b n (i + 2) } }
      else Some b)"
  by pat_completeness auto
termination
  by (relation "measure (\<lambda>(be, b, n, i). n - i)") auto

declare toWellFormed_loop.simps [simp del]

definition js_string_toWellFormed :: "bool \<Rightarrow> 'h str_realloc \<Rightarrow> 'h \<Rightarrow> js_string \<Rightarrow> 'h str_result" where
  "js_string_toWellFormed be sa h p =
     (if \<not> str_wide p \<or> str_len p = 0 then Some (h, Inr p)
      else do {
        us \<leftarrow> str16_read be (str_block p) 0 (str_len p);
        r \<leftarrow> js_new_string16_len be sa h us;
        case r of (h, Inl e) \<Rightarrow> Some (h, Inl e)
        | (h, Inr q) \<Rightarrow> do {
            b \<leftarrow> toWellFormed_loop be (str_block q) (str_len q) 0;
            Some (h, Inr (q\<lparr>str_block := b\<rparr>)) } })"

text \<open>\<open>js_string_trim\<close>; \<open>is_space\<close> stands for \<open>lre_is_space\<close>.\<close>

fun trim_front :: "bool \<Rightarrow> (u32 \<Rightarrow> bool) \<Rightarrow> js_string \<Rightarrow> nat \<Rightarrow> nat \<Rightarrow> nat option" where
  "trim_front be is_space p a 0 = Some a"
| "trim_front be is_space p a (Suc n) = do {
     c \<leftarrow> string_get be p a;
     if is_space c then trim_front be is_space p (a + 1) n else Some a }"

fun trim_back :: "bool \<Rightarrow> (u32 \<Rightarrow> bool) \<Rightarrow> js_string \<Rightarrow> nat \<Rightarrow> nat \<Rightarrow> nat option" where
  "trim_back be is_space p b 0 = Some b"
| "trim_back be is_space p b (Suc n) = do {
     c \<leftarrow> string_get be p (b - 1);
     if is_space c then trim_back be is_space p (b - 1) n else Some b }"

definition js_string_trim ::
    "bool \<Rightarrow> (u32 \<Rightarrow> bool) \<Rightarrow> 'h str_realloc \<Rightarrow> 'h \<Rightarrow> js_string \<Rightarrow> int \<Rightarrow> 'h str_result" where
  "js_string_trim be is_space sa h p magic = do {
     a \<leftarrow> (if magic AND 1 \<noteq> 0 then trim_front be is_space p 0 (str_len p) else Some 0);
     b \<leftarrow> (if magic AND 2 \<noteq> 0 then trim_back be is_space p (str_len p) (str_len p - a) else Some (str_len p));
     js_sub_string be sa h p a b }"

subsection \<open>Reading through the width\<close>

lemma ucast_u8_u16_u32_up: "ucast (ucast (b :: u8) :: u16) = (ucast b :: u32)"
  by (rule bit_word_eqI) (auto simp: bit_simps dest: bit_imp_le_length)

lemma string_get_units:
  "str_ok p \<Longrightarrow> i < str_len p \<Longrightarrow> string_get be p i = Some (ucast (str_units be p ! i))"
  by (auto simp: string_get_def str_ok_def str_units_def mem_simps ucast_u8_u16_u32_up split: if_splits)

lemma str16_get_units:
  "str_ok p \<Longrightarrow> str_wide p \<Longrightarrow> i < str_len p \<Longrightarrow> str16_get be (str_block p) i = Some (str_units be p ! i)"
  by (simp add: str_ok_def str_units_def mem_simps)

lemma str8_get_units:
  assumes "str_ok p" "\<not> str_wide p" "i < str_len p"
  obtains b where "str8_get (str_block p) i = Some b" "str_units be p ! i = ucast b"
  using assms by (simp add: str_ok_def str_units_def mem_simps)

subsection \<open>Hashing\<close>

lemma hash_string8_16: "hash_string8 bs h = hash_string16 (map ucast bs) h"
  by (induction bs h rule: hash_string8.induct) (simp_all add: ucast_u8_u16_u32_up)

lemma hash_string_units:
  assumes "str_ok p"
  shows "hash_string be p h = Some (hash_string16 (str_units be p) h)"
proof (cases "str_wide p")
  case True
  then show ?thesis
    using str16_read_units [OF assms, of 0 "str_len p" be] by (simp add: hash_string_def)
next
  case False
  obtain bs where "str8_read (str_block p) 0 (str_len p) = Some bs" "map ucast bs = str_units be p"
    using str8_read_units [OF assms False, of 0 "str_len p" be] by auto
  then show ?thesis
    using False by (simp add: hash_string_def hash_string8_16)
qed

subsection \<open>Comparing\<close>

text \<open>Lexicographic comparison of unit sequences, as a sign.\<close>

fun units_cmp :: "u16 list \<Rightarrow> u16 list \<Rightarrow> int" where
  "units_cmp [] [] = 0"
| "units_cmp [] (v # vs) = -1"
| "units_cmp (u # us) [] = 1"
| "units_cmp (u # us) (v # vs) = (if u < v then -1 else if v < u then 1 else units_cmp us vs)"

fun prefix_cmp :: "nat \<Rightarrow> u16 list \<Rightarrow> u16 list \<Rightarrow> int" where
  "prefix_cmp (Suc n) (u # us) (v # vs) = (if u < v then -1 else if v < u then 1 else prefix_cmp n us vs)"
| "prefix_cmp _ _ _ = 0"

lemma sgn_diff_words: "sgn (uint (a :: u16) - uint b) = (if a < b then -1 else if b < a then 1 else 0)"
  by (auto simp: word_less_def sgn_if)

lemma sgn_memcmp16:
  "n \<le> length a \<Longrightarrow> n \<le> length b \<Longrightarrow> map_option sgn (memcmp16 a b n) = Some (prefix_cmp n a b)"
proof (induction a b n rule: memcmp16.induct)
  case (2 a as b bs n)
  then show ?case
    using sgn_diff_words [of a b] by (auto simp: Let_def)
qed simp_all

lemma ucast_less_u8_u16: "(ucast (a :: u8) < (ucast b :: u16)) = (a < b)"
  by (simp add: word_less_nat_alt unat_ucast_u8_u16)

lemma sgn_memcmp8:
  "n \<le> length a \<Longrightarrow> n \<le> length b \<Longrightarrow> map_option sgn (memcmp8 a b n) = Some (prefix_cmp n (map ucast a) (map ucast b))"
  by (induction a b n rule: memcmp8.induct) (auto simp: ucast_less_u8_u16)

lemma uint_ucast_u8_u16: "uint (ucast (b :: u8) :: u16) = uint b"
  unfolding uint_nat by (simp add: unat_ucast_u8_u16)

lemma memcmp16_8_eq: "memcmp16_8 a b n = memcmp16 a (map ucast b) n"
  by (induction a b n rule: memcmp16_8.induct) (simp_all add: uint_ucast_u8_u16)

lemma prefix_cmp_neg: "prefix_cmp n a b = - prefix_cmp n b a"
  by (induction n a b rule: prefix_cmp.induct) auto

lemma prefix_cmp_units:
  "units_cmp a b = (if prefix_cmp (min (length a) (length b)) a b = 0 then compare_u32 (length a) (length b)
     else prefix_cmp (min (length a) (length b)) a b)"
  by (induction a b rule: units_cmp.induct) (auto simp: compare_u32_def)

lemma units_cmp_eq_0: "units_cmp a b = 0 \<longleftrightarrow> a = b"
  by (induction a b rule: units_cmp.induct) auto

lemma units_cmp_less: "units_cmp a b < 0 \<longleftrightarrow> (a, b) \<in> lexord {(u, v). u < v}"
  by (induction a b rule: units_cmp.induct) (auto simp: lexord_cons_cons)

lemma prefix_cmp_take: "prefix_cmp n (take n a) (take n b) = prefix_cmp n a b"
  by (induction n a b rule: prefix_cmp.induct) auto

lemma sgn_eq_memcmp16:
  "length a = n \<Longrightarrow> length b = n \<Longrightarrow> \<exists>r. memcmp16 a b n = Some r \<and> sgn r = prefix_cmp n a b"
  using sgn_memcmp16 [of n a b] by auto

lemma sgn_eq_memcmp8:
  "length a = n \<Longrightarrow> length b = n \<Longrightarrow>
     \<exists>r. memcmp8 a b n = Some r \<and> sgn r = prefix_cmp n (map ucast a) (map ucast b)"
  using sgn_memcmp8 [of n a b] by auto

text \<open>The first \<open>n\<close> characters of a string, as the reads of its width return them.\<close>

lemma read_prefix_cases:
  assumes "str_ok p" "n \<le> str_len p"
  obtains (wide) "str_wide p" "str16_read be (str_block p) 0 n = Some (take n (str_units be p))"
  | (narrow) bs where "\<not> str_wide p" "str8_read (str_block p) 0 n = Some bs"
      "length bs = n" "map ucast bs = take n (str_units be p)"
proof (cases "str_wide p")
  case True
  then show ?thesis using str16_read_units [OF assms(1) True, of 0 n be] assms(2) wide by simp
next
  case False
  obtain bs where "str8_read (str_block p) 0 n = Some bs" "length bs = n" "map ucast bs = take n (str_units be p)"
    using str8_read_units [OF assms(1) False, of 0 n be] assms(2) by auto
  with False narrow show ?thesis by blast
qed

lemma string_memcmp_units:
  assumes p1: "str_ok p1" "n \<le> str_len p1" and p2: "str_ok p2" "n \<le> str_len p2"
  shows "\<exists>r. js_string_memcmp be p1 p2 n = Some r \<and> sgn r = prefix_cmp n (str_units be p1) (str_units be p2)"
proof -
  define u1 where "u1 = take n (str_units be p1)"
  define u2 where "u2 = take n (str_units be p2)"
  have l: "length u1 = n" "length u2 = n" using p1 p2 by (simp_all add: u1_def u2_def)
  obtain r where r: "memcmp16 u1 u2 n = Some r" "sgn r = prefix_cmp n u1 u2"
    using sgn_eq_memcmp16 [OF l] by blast
  obtain r' where r': "memcmp16 u2 u1 n = Some r'" "sgn r' = prefix_cmp n u2 u1"
    using sgn_eq_memcmp16 [OF l(2,1)] by blast
  have "\<exists>r. js_string_memcmp be p1 p2 n = Some r \<and> sgn r = prefix_cmp n u1 u2"
  proof (cases rule: read_prefix_cases [OF p1, of be])
    case w1: 1
    show ?thesis
    proof (cases rule: read_prefix_cases [OF p2, of be])
      case 1
      then show ?thesis using w1 r by (simp add: js_string_memcmp_def u1_def u2_def)
    next
      case (2 bs)
      then show ?thesis using w1 r by (simp add: js_string_memcmp_def memcmp16_8_eq u1_def u2_def)
    qed
  next
    case n1: (2 as)
    show ?thesis
    proof (cases rule: read_prefix_cases [OF p2, of be])
      case 1
      then show ?thesis using n1 r' prefix_cmp_neg [of n u2 u1]
        by (simp add: js_string_memcmp_def memcmp16_8_eq sgn_minus u1_def u2_def)
    next
      case (2 bs)
      obtain q where "memcmp8 as bs n = Some q" "sgn q = prefix_cmp n (map ucast as) (map ucast bs)"
        using sgn_eq_memcmp8 [OF n1(3) 2(3)] by blast
      with 2 n1 show ?thesis by (simp add: js_string_memcmp_def u1_def u2_def)
    qed
  qed
  then show ?thesis by (simp add: prefix_cmp_take u1_def u2_def)
qed

lemma sgn_compare_u32: "sgn (compare_u32 a b) = compare_u32 a b"
  by (simp add: compare_u32_def)

lemma string_compare_units:
  assumes "str_ok p1" "str_ok p2"
  shows "\<exists>r. js_string_compare be p1 p2 = Some r \<and> sgn r = units_cmp (str_units be p1) (str_units be p2)"
proof -
  let ?n = "min (str_len p1) (str_len p2)"
  obtain r where r: "js_string_memcmp be p1 p2 ?n = Some r"
      "sgn r = prefix_cmp ?n (str_units be p1) (str_units be p2)"
    using string_memcmp_units [OF assms(1) min.cobounded1 assms(2) min.cobounded2] by blast
  have "r = 0 \<longleftrightarrow> prefix_cmp ?n (str_units be p1) (str_units be p2) = 0"
    using r(2) by (metis sgn_eq_0_iff)
  with r show ?thesis
    by (simp add: js_string_compare_def Let_def prefix_cmp_units [of "str_units be p1"] sgn_compare_u32)
qed

subsection \<open>Searching\<close>

text \<open>The pattern \<open>pat\<close> stands in \<open>us\<close> at \<open>i\<close>.\<close>

definition occurs_at :: "u16 list \<Rightarrow> u16 list \<Rightarrow> nat \<Rightarrow> bool" where
  "occurs_at pat us i \<longleftrightarrow> i + length pat \<le> length us \<and> take (length pat) (drop i us) = pat"

lemma ucast_u16_u32_inject: "(ucast (a :: u16) :: u32) = ucast b \<longleftrightarrow> a = b"
  by (simp add: word_unat_eq_iff)

lemma string_cmp_units:
  assumes "str_ok p1" "str_ok p2" "x1 + n \<le> str_len p1" "x2 + n \<le> str_len p2"
  shows "\<exists>r. string_cmp be p1 p2 x1 x2 n = Some r \<and>
    (r = 0 \<longleftrightarrow> take n (drop x1 (str_units be p1)) = take n (drop x2 (str_units be p2)))"
  using assms(3,4)
proof (induction n arbitrary: x1 x2)
  case (Suc n)
  let ?u = "str_units be p1" and ?v = "str_units be p2"
  have d: "drop x1 ?u = ?u ! x1 # drop (x1 + 1) ?u" "drop x2 ?v = ?v ! x2 # drop (x2 + 1) ?v"
    using Suc.prems by (simp_all add: Cons_nth_drop_Suc)
  have g: "string_get be p1 x1 = Some (ucast (?u ! x1))" "string_get be p2 x2 = Some (ucast (?v ! x2))"
    using Suc.prems assms(1,2) by (simp_all add: string_get_units)
  have ne: "uint (ucast (?u ! x1) :: u32) - uint (ucast (?v ! x2) :: u32) \<noteq> 0" if "?u ! x1 \<noteq> ?v ! x2"
    using that by (simp add: word_uint_eq_iff [symmetric] ucast_u16_u32_inject)
  show ?case
    using Suc.IH [of "x1 + 1" "x2 + 1"] Suc.prems g ne
    by (cases "?u ! x1 = ?v ! x2") (simp_all add: d ucast_u16_u32_inject)
qed simp

text \<open>The first index from \<open>start\<close> on at which a predicate holds, or -1.\<close>

definition first_index :: "(nat \<Rightarrow> bool) \<Rightarrow> nat \<Rightarrow> nat \<Rightarrow> int" where
  "first_index P start n = (case find P [start..<n] of None \<Rightarrow> -1 | Some i \<Rightarrow> int i)"

lemma first_index_step:
  "i < n \<Longrightarrow> first_index P i n = (if P i then int i else first_index P (i + 1) n)"
  by (simp add: first_index_def upt_conv_Cons)

lemma first_index_none: "n \<le> i \<Longrightarrow> first_index P i n = -1"
  by (simp add: first_index_def)

lemma first_index_spec:
  "(first_index P start n = -1 \<and> (\<forall>i. start \<le> i \<and> i < n \<longrightarrow> \<not> P i)) \<or>
   (\<exists>j. first_index P start n = int j \<and> start \<le> j \<and> j < n \<and> P j \<and> (\<forall>i. start \<le> i \<and> i < j \<longrightarrow> \<not> P i))"
proof (cases "find P [start..<n]")
  case None
  then have "first_index P start n = -1" by (simp add: first_index_def)
  moreover have "\<forall>i. start \<le> i \<and> i < n \<longrightarrow> \<not> P i" using None by (simp add: find_None_iff)
  ultimately show ?thesis by blast
next
  case (Some j)
  then obtain k where k: "k < n - start" "P (start + k)" "j = start + k" "\<forall>i < k. \<not> P (start + i)"
    by (auto simp: find_Some_iff)
  have "\<not> P i" if "start \<le> i" "i < j" for i
    using that k(3,4) by (metis add_less_cancel_left le_Suc_ex)
  then show ?thesis
    using Some k by (intro disjI2 exI [of _ j]) (simp add: first_index_def)
qed

lemma first_index_cong:
  "(\<And>i. start \<le> i \<Longrightarrow> i < n \<Longrightarrow> P i = Q i) \<Longrightarrow> first_index P start n = first_index Q start n"
  using find_cong [of "[start..<n]" "[start..<n]" P Q] by (simp add: first_index_def)

lemma indexof_char16_units:
  assumes "str_ok p" "str_wide p" "i + n = str_len p"
  shows "indexof_char16 be (str_block p) (ucast c) i n = Some (first_index (\<lambda>k. str_units be p ! k = c) i (str_len p))"
  using assms(3)
proof (induction n arbitrary: i)
  case (Suc n)
  then show ?case
    using assms(1,2)
    by (simp add: str16_get_units first_index_step ucast_u16_u32_inject)
qed (simp add: first_index_none)

lemma indexof_char8_units:
  assumes "str_ok p" "\<not> str_wide p" "i + n = str_len p"
  shows "indexof_char8 (str_block p) (ucast (c :: u8)) i n =
    Some (first_index (\<lambda>k. str_units be p ! k = ucast c) i (str_len p))"
  using assms(3)
proof (induction n arbitrary: i)
  case (Suc n)
  obtain b where "str8_get (str_block p) i = Some b" "str_units be p ! i = ucast b"
    using str8_get_units [OF assms(1,2), of i be] Suc.prems by auto
  moreover have "(ucast b :: u16) = ucast c \<longleftrightarrow> b = c"
    by (metis unat_ucast_u8_u16 word_unat_eq_iff)
  ultimately show ?case
    using Suc by (simp add: first_index_step ucast_u8_u32_u8)
qed (simp add: first_index_none)

lemma high_byte_clear_iff: "((c :: u32) AND NOT 0xFF = 0) \<longleftrightarrow> unat c < 256"
proof -
  have m: "(0xFF :: u32) = mask 8" by (simp add: mask_eq_exp_minus_1)
  have "c AND NOT (mask 8) = 0 \<longleftrightarrow> take_bit 8 c = c"
    by (auto simp: bit_eq_iff bit_simps)
  also have "\<dots> \<longleftrightarrow> unat c mod 256 = unat c"
    by (simp only: word_unat_eq_iff unat_take_bit) simp
  also have "\<dots> \<longleftrightarrow> unat c < 256"
    by (metis mod_less mod_less_divisor zero_less_numeral)
  finally show ?thesis by (simp only: m)
qed

lemmas high_byte_clear_simps = high_byte_clear_iff high_byte_clear_iff [simplified]

lemma string_indexof_char_units:
  assumes "str_ok p" "start \<le> str_len p"
  shows "string_indexof_char be p (ucast c) start =
    Some (first_index (\<lambda>k. str_units be p ! k = (c :: u16)) start (str_len p))"
proof (cases "str_wide p")
  case True
  then show ?thesis
    using indexof_char16_units [OF assms(1) True, of start "str_len p - start" be c] assms(2)
    by (simp add: string_indexof_char_def)
next
  case nw: False
  show ?thesis
  proof (cases "unat c < 256")
    case True
    define b where "b = (ucast c :: u8)"
    have c: "c = ucast b"
      using True by (intro word_eq_unatI) (simp add: b_def unat_ucast_u8_u16 unat_ucast_u8)
    show ?thesis
      using nw True indexof_char8_units [OF assms(1) nw, of start "str_len p - start" b be] assms(2)
      by (simp add: string_indexof_char_def high_byte_clear_simps c ucast_u8_u16_u32_up)
  next
    case False
    have "str_units be p ! k \<noteq> c" if k: "k < str_len p" for k
    proof -
      obtain b :: u8 where "str_units be p ! k = ucast b"
        by (rule str8_get_units [OF assms(1) nw k])
      then show ?thesis using False by (metis unat_ucast_u8_u16 unat_u8_less)
    qed
    then have "first_index (\<lambda>k. str_units be p ! k = c) start (str_len p) = -1"
      using first_index_spec [of "\<lambda>k. str_units be p ! k = c" start "str_len p"] by auto
    then show ?thesis
      using nw False by (simp add: string_indexof_char_def high_byte_clear_simps)
  qed
qed

lemma occurs_at_Cons:
  assumes "pat \<noteq> []"
  shows "occurs_at pat us i \<longleftrightarrow> i + length pat \<le> length us \<and> us ! i = pat ! 0 \<and>
    take (length pat - 1) (drop (i + 1) us) = take (length pat - 1) (drop 1 pat)"
proof (cases "i + length pat \<le> length us")
  case True
  obtain c ps where pat: "pat = c # ps" using assms by (cases pat) auto
  have "drop i us = us ! i # drop (i + 1) us" using True pat by (simp add: Cons_nth_drop_Suc)
  then show ?thesis using True by (simp add: occurs_at_def pat)
qed (simp add: occurs_at_def)

lemma find_append_none: "\<forall>x \<in> set xs. \<not> P x \<Longrightarrow> find P (xs @ ys) = find P ys"
  by (induction xs) simp_all

lemma first_index_skip:
  assumes "start \<le> j" "j \<le> n" "\<And>i. start \<le> i \<Longrightarrow> i < j \<Longrightarrow> \<not> P i"
  shows "first_index P start n = first_index P j n"
proof -
  have "[start..<n] = [start..<j] @ [j..<n]" using assms(1,2) by (metis le_Suc_ex upt_add_eq_append)
  moreover have "find P ([start..<j] @ ys) = find P ys" for ys
    using assms(3) by (intro find_append_none) simp
  ultimately show ?thesis by (simp add: first_index_def)
qed

lemma indexof_loop_units:
  assumes p1: "str_ok p1" and p2: "str_ok p2" and ne: "0 < str_len p2" and i: "i \<le> str_len p1"
  shows "indexof_loop be p1 p2 (ucast (str_units be p2 ! 0)) i =
    Some (first_index (occurs_at (str_units be p2) (str_units be p1)) i (str_len p1 + 1 - str_len p2))"
  using i
proof (induction "str_len p1 - i" arbitrary: i rule: less_induct)
  case less
  let ?us = "str_units be p1" and ?pat = "str_units be p2"
  let ?P = "occurs_at ?pat ?us" and ?n = "str_len p1 + 1 - str_len p2" and ?c = "?pat ! 0"
  have pat: "?pat \<noteq> []" using ne by (metis length_0_conv length_str_units less_numeral_extra(3))
  note occ = occurs_at_Cons [OF pat, of ?us]
  show ?case
  proof (cases "i + str_len p2 \<le> str_len p1")
    case False
    then have "?n \<le> i" by simp
    then show ?thesis using False by (simp add: indexof_loop.simps [of be p1 p2 _ i] first_index_none)
  next
    case True
    note ch = string_indexof_char_units [OF p1 less.prems, of be ?c]
    consider "first_index (\<lambda>k. ?us ! k = ?c) i (str_len p1) = -1" "\<forall>k. i \<le> k \<and> k < str_len p1 \<longrightarrow> ?us ! k \<noteq> ?c"
      | j where "first_index (\<lambda>k. ?us ! k = ?c) i (str_len p1) = int j" "i \<le> j" "j < str_len p1" "?us ! j = ?c"
          "\<forall>k. i \<le> k \<and> k < j \<longrightarrow> ?us ! k \<noteq> ?c"
      using first_index_spec [of "\<lambda>k. ?us ! k = ?c" i "str_len p1"] by blast
    then show ?thesis
    proof cases
      case 1
      then have "first_index ?P i ?n = -1"
        using first_index_spec [of ?P i ?n] occ ne by fastforce
      then show ?thesis using 1 True ch by (simp add: indexof_loop.simps [of be p1 p2 _ i])
    next
      case (2 j)
      have none: "\<not> ?P k" if "i \<le> k" "k < j" for k using that 2(5) occ by blast
      show ?thesis
      proof (cases "j + str_len p2 > str_len p1")
        case True': True
        then have "first_index ?P i ?n = -1"
          using first_index_spec [of ?P i ?n] none by fastforce
        then show ?thesis using 2 True True' ch by (simp add: indexof_loop.simps [of be p1 p2 _ i])
      next
        case fits: False
        obtain r where r: "string_cmp be p1 p2 (j + 1) 1 (str_len p2 - 1) = Some r"
          "r = 0 \<longleftrightarrow> take (str_len p2 - 1) (drop (j + 1) ?us) = take (str_len p2 - 1) (drop 1 ?pat)"
          using string_cmp_units [OF p1 p2, of "j + 1" "str_len p2 - 1" 1 be] fits ne by auto
        have P: "?P j \<longleftrightarrow> r = 0" using r(2) occ [of j] fits 2(4) by simp
        have skip: "first_index ?P i ?n = first_index ?P j ?n"
          using fits 2(2) none by (intro first_index_skip) auto
        have "first_index ?P j ?n = (if r = 0 then int j else first_index ?P (j + 1) ?n)"
          using fits P by (subst first_index_step) auto
        moreover have "indexof_loop be p1 p2 (ucast ?c) (j + 1) = Some (first_index ?P (j + 1) ?n)"
          using 2(2,3) by (intro less.hyps) auto
        ultimately show ?thesis
          using skip r(1) 2 True fits ch by (simp add: indexof_loop.simps [of be p1 p2 _ i] nat_add_distrib)
      qed
    qed
  qed
qed

lemma string_indexof_units:
  assumes "str_ok p1" "str_ok p2" "start \<le> str_len p1"
  shows "string_indexof be p1 p2 start =
    Some (if str_len p2 = 0 then int start
          else first_index (occurs_at (str_units be p2) (str_units be p1)) start (str_len p1 + 1 - str_len p2))"
  using indexof_loop_units [OF assms(1,2) _ assms(3), of be] assms(2)
  by (simp add: string_indexof_def string_get_units)

text \<open>The search of \<open>indexOf\<close> and \<open>lastIndexOf\<close>.\<close>

declare index_search_loop.simps [simp del]

lemma string_cmp_occurs:
  assumes "str_ok p" "str_ok p1" "i + str_len p1 \<le> str_len p"
  shows "\<exists>r. string_cmp be p p1 i 0 (str_len p1) = Some r \<and>
    (r = 0 \<longleftrightarrow> occurs_at (str_units be p1) (str_units be p) i)"
  using string_cmp_units [OF assms(1,2,3), of 0 be] assms(3) by (auto simp: occurs_at_def)

lemma index_search_forward:
  assumes "str_ok p" "str_ok p1" "i + n + str_len p1 \<le> str_len p"
  shows "index_search_loop be p p1 1 (int i) n =
    Some (first_index (occurs_at (str_units be p1) (str_units be p)) i (i + n + 1))"
  using assms(3)
proof (induction n arbitrary: i)
  case 0
  then show ?case
    using string_cmp_occurs [OF assms(1,2), of i be]
    by (auto simp: index_search_loop.simps [of be p p1 1 "int i"] first_index_step first_index_none)
next
  case (Suc n)
  have "index_search_loop be p p1 1 (int i + 1) n =
      Some (first_index (occurs_at (str_units be p1) (str_units be p)) (i + 1) (i + Suc n + 1))"
    using Suc.IH [of "i + 1"] Suc.prems by (simp add: add.commute)
  then show ?case
    using string_cmp_occurs [OF assms(1,2), of i be] Suc.prems
    by (auto simp: index_search_loop.simps [of be p p1 1 "int i"] first_index_step)
qed

text \<open>The last index up to \<open>i\<close> at which a predicate holds, or -1.\<close>

fun last_index :: "(nat \<Rightarrow> bool) \<Rightarrow> nat \<Rightarrow> int" where
  "last_index P 0 = (if P 0 then 0 else -1)"
| "last_index P (Suc i) = (if P (Suc i) then int (Suc i) else last_index P i)"

lemma last_index_spec:
  "(last_index P i = -1 \<and> (\<forall>k \<le> i. \<not> P k)) \<or>
   (\<exists>j. last_index P i = int j \<and> j \<le> i \<and> P j \<and> (\<forall>k. j < k \<and> k \<le> i \<longrightarrow> \<not> P k))"
proof (induction i)
  case (Suc i)
  show ?case
  proof (cases "P (Suc i)")
    case True
    then show ?thesis by (intro disjI2 exI [of _ "Suc i"]) auto
  qed (use Suc in \<open>auto simp: le_Suc_eq\<close>)
qed auto

lemma index_search_backward:
  assumes "str_ok p" "str_ok p1" "i + str_len p1 \<le> str_len p"
  shows "index_search_loop be p p1 (-1) (int i) i =
    Some (last_index (occurs_at (str_units be p1) (str_units be p)) i)"
  using assms(3)
proof (induction i)
  case 0
  then show ?case
    using string_cmp_occurs [OF assms(1,2), of 0 be]
    by (auto simp: index_search_loop.simps [of be p p1 "-1" 0])
next
  case (Suc i)
  have "nat (1 + int i) = Suc i" "1 + int i + - 1 = int i" by simp_all
  with Suc show ?case
    using string_cmp_occurs [OF assms(1,2), of "Suc i" be]
    by (auto simp: index_search_loop.simps [of be p p1 "-1" "1 + int i"])
qed

subsection \<open>Properties: comparing and searching\<close>

text \<open>
  C31.  Comparing two strings of any widths, in either byte order, is defined and decides the
  lexicographic order of their units: negative, zero or positive as the first is before, equal
  to or after the second.
\<close>

theorem js_string_compare_lexicographic:
  assumes "str_ok p1" "str_ok p2"
  shows "\<exists>r. js_string_compare be p1 p2 = Some r \<and>
    (r = 0 \<longleftrightarrow> str_units be p1 = str_units be p2) \<and>
    (r < 0 \<longleftrightarrow> (str_units be p1, str_units be p2) \<in> lexord {(u, v). u < v})"
proof -
  obtain r where "js_string_compare be p1 p2 = Some r" "sgn r = units_cmp (str_units be p1) (str_units be p2)"
    using string_compare_units [OF assms] by blast
  then show ?thesis
    by (metis sgn_0_0 sgn_less units_cmp_eq_0 units_cmp_less)
qed

lemma js_string_compare_lexicographic_witness:
  "\<exists>r. js_string_compare False
     \<lparr>str_block = \<lparr>cells = replicate 24 0 @ [0x61, 0x62, 0], usable = 27\<rparr>, str_len = 2, str_wide = False\<rparr>
     \<lparr>str_block = \<lparr>cells = replicate 24 0 @ [0xAC, 0x20], usable = 26\<rparr>, str_len = 1, str_wide = True\<rparr> = Some r"
  using js_string_compare_lexicographic
    [of "\<lparr>str_block = \<lparr>cells = replicate 24 0 @ [0x61, 0x62, 0], usable = 27\<rparr>, str_len = 2, str_wide = False\<rparr>"
      "\<lparr>str_block = \<lparr>cells = replicate 24 0 @ [0xAC, 0x20], usable = 26\<rparr>, str_len = 1, str_wide = True\<rparr>" False]
  by (auto simp: str_ok_def payload_size_def byte_at_def sizeof_JSString_def JS_STRING_LEN_MAX_def nth_append)

text \<open>
  C15.  \<open>string_indexof\<close>, which looks for the first character and compares the rest only
  there, returns the least index from \<open>start\<close> on at which the pattern occurs, -1 when there is
  none, and \<open>start\<close> for the empty pattern; its skipping loop misses no occurrence and ends.
\<close>

theorem string_indexof_first:
  assumes "str_ok p1" "str_ok p2" "start \<le> str_len p1"
  shows "\<exists>r. string_indexof be p1 p2 start = Some r \<and>
    (r = -1 \<and> (\<forall>i \<ge> start. \<not> occurs_at (str_units be p2) (str_units be p1) i) \<or>
     (\<exists>j. r = int j \<and> start \<le> j \<and> occurs_at (str_units be p2) (str_units be p1) j \<and>
       (\<forall>i. start \<le> i \<and> i < j \<longrightarrow> \<not> occurs_at (str_units be p2) (str_units be p1) i)))"
proof -
  let ?P = "occurs_at (str_units be p2) (str_units be p1)" and ?n = "str_len p1 + 1 - str_len p2"
  have none: "\<not> ?P i" if "?n \<le> i" "0 < str_len p2" for i
    using that by (auto simp: occurs_at_def)
  have empty: "?P start" if "str_len p2 = 0"
    using that assms(3) length_0_conv [of "str_units be p2"] by (simp add: occurs_at_def)
  have eq: "string_indexof be p1 p2 start = Some (if str_len p2 = 0 then int start else first_index ?P start ?n)"
    by (rule string_indexof_units [OF assms])
  show ?thesis
  proof (cases "str_len p2 = 0")
    case True
    with eq empty show ?thesis by auto
  next
    case False
    from first_index_spec [of ?P start ?n] show ?thesis
    proof
      assume *: "first_index ?P start ?n = -1 \<and> (\<forall>i. start \<le> i \<and> i < ?n \<longrightarrow> \<not> ?P i)"
      have "\<not> ?P i" if "start \<le> i" for i
        using * none [of i] that False by (cases "i < ?n") simp_all
      with eq * False show ?thesis by simp
    qed (use eq False in auto)
  qed
qed

lemma string_indexof_first_witness:
  "\<exists>r. string_indexof True
     \<lparr>str_block = \<lparr>cells = replicate 24 0 @ [0x61, 0x62, 0], usable = 27\<rparr>, str_len = 2, str_wide = False\<rparr>
     \<lparr>str_block = \<lparr>cells = replicate 24 0 @ [0, 0x62], usable = 26\<rparr>, str_len = 1, str_wide = True\<rparr> 0 = Some r"
  using string_indexof_first
    [of "\<lparr>str_block = \<lparr>cells = replicate 24 0 @ [0x61, 0x62, 0], usable = 27\<rparr>, str_len = 2, str_wide = False\<rparr>"
      "\<lparr>str_block = \<lparr>cells = replicate 24 0 @ [0, 0x62], usable = 26\<rparr>, str_len = 1, str_wide = True\<rparr>" 0 True]
  by (auto simp: str_ok_def payload_size_def byte_at_def sizeof_JSString_def JS_STRING_LEN_MAX_def nth_append)

text \<open>The search behind \<open>indexOf\<close> and \<open>lastIndexOf\<close>, for every position the callers compute.\<close>

lemma js_string_indexOf_units:
  assumes "str_ok p" "str_ok p1" "pos \<le> str_len p"
  shows "js_string_indexOf be p p1 (int pos) False =
    Some (first_index (occurs_at (str_units be p1) (str_units be p)) pos (str_len p + 1 - str_len p1))"
proof (cases "pos + str_len p1 \<le> str_len p")
  case True
  then have "nat (int (str_len p) - int (str_len p1) - int pos) = str_len p - str_len p1 - pos" by simp
  then show ?thesis
    using index_search_forward [OF assms(1,2), of pos "str_len p - str_len p1 - pos" be] True
    by (simp add: js_string_indexOf_def Let_def Suc_diff_le)
next
  case False
  then show ?thesis by (simp add: js_string_indexOf_def Let_def first_index_none)
qed

lemma js_string_lastIndexOf_units:
  assumes "str_ok p" "str_ok p1" "pos + str_len p1 \<le> str_len p"
  shows "js_string_indexOf be p p1 (int pos) True =
    Some (last_index (occurs_at (str_units be p1) (str_units be p)) pos)"
  using index_search_backward [OF assms, of be] assms(3) by (simp add: js_string_indexOf_def Let_def)

subsection \<open>Iterating over code points\<close>

lemma code_points16_Cons:
  "code_points16 (u # us) =
    (if is_hi_surrogate (ucast u) \<and> us \<noteq> [] \<and> is_lo_surrogate (ucast (hd us))
     then from_surrogate (ucast u) (ucast (hd us)) # code_points16 (tl us)
     else ucast u # code_points16 us)"
  by (cases us) auto

lemma drop_units_Cons: "i < length us \<Longrightarrow> drop i us = us ! i # drop (i + 1) us"
  by (simp add: Cons_nth_drop_Suc)

lemma string_getc_units:
  assumes "str_ok p" "idx < str_len p"
  shows "\<exists>c k. string_getc be p idx = Some (c, k) \<and> idx < k \<and> k \<le> str_len p \<and>
    code_points16 (drop idx (str_units be p)) = c # code_points16 (drop k (str_units be p))"
proof -
  let ?us = "str_units be p"
  have d: "drop idx ?us = ?us ! idx # drop (idx + 1) ?us" using assms by (intro drop_units_Cons) simp
  have d1: "drop (idx + 1) ?us = ?us ! (idx + 1) # drop (idx + 2) ?us" if "idx + 1 < str_len p"
    using that drop_units_Cons [of "idx + 1" ?us] by simp
  show ?thesis
  proof (cases "str_wide p")
    case True
    note get = str16_get_units [OF assms(1) True]
    show ?thesis
    proof (cases "is_hi_surrogate (ucast (?us ! idx)) \<and> idx + 1 < str_len p \<and> is_lo_surrogate (ucast (?us ! (idx + 1)))")
      case pair: True
      then have "code_points16 (drop idx ?us) =
          from_surrogate (ucast (?us ! idx)) (ucast (?us ! (idx + 1))) # code_points16 (drop (idx + 2) ?us)"
        by (simp only: d d1 code_points16_Cons) (use pair in simp)
      with pair True assms(2) show ?thesis
        by (simp add: string_getc_def get Let_def)
    next
      case np: False
      have "code_points16 (drop idx ?us) = ucast (?us ! idx) # code_points16 (drop (idx + 1) ?us)"
      proof (cases "idx + 1 < str_len p")
        case in_range: True
        then show ?thesis using np by (simp only: d code_points16_Cons) (auto simp: d1 [OF in_range, simplified])
      qed (simp add: d code_points16_Cons)
      with np True assms(2) show ?thesis
        by (auto simp: string_getc_def get Let_def)
    qed
  next
    case False
    obtain b where b: "str8_get (str_block p) idx = Some b" "?us ! idx = ucast b"
      using str8_get_units [OF assms(1) False assms(2)] by metis
    have "unat b div 1024 = 0" using unat_u8_less [of b] by (intro div_less) linarith
    then have "\<not> is_hi_surrogate (ucast (?us ! idx))"
      by (simp add: is_hi_surrogate_iff b(2) unat_ucast_u8_u16)
    then have "code_points16 (drop idx ?us) = ucast b # code_points16 (drop (idx + 1) ?us)"
      by (simp add: d code_points16_Cons b(2) ucast_u8_u16_u32_up)
    with b False assms(2) show ?thesis by (simp add: string_getc_def)
  qed
qed

text \<open>\<open>to_utf32_buf\<close> stores the code points of a string; \<open>b\<close> has room for one per unit.\<close>

function to_utf32_loop :: "bool \<Rightarrow> js_string \<Rightarrow> nat \<Rightarrow> u32 list option" where
  "to_utf32_loop be p i =
     (if i < str_len p then do {
        (c, k) \<leftarrow> string_getc be p i;
        cs \<leftarrow> to_utf32_loop be p k;
        Some (c # cs) }
      else Some [])"
  by pat_completeness auto
termination
  by (relation "measure (\<lambda>(be, p, i). str_len p - i)")
    (auto simp: string_getc_def Let_def split: if_splits bind_splits)

declare to_utf32_loop.simps [simp del]

definition to_utf32_buf :: "bool \<Rightarrow> js_string \<Rightarrow> u32 list option" where
  "to_utf32_buf be p = to_utf32_loop be p 0"

lemma to_utf32_loop_units:
  assumes "str_ok p"
  shows "to_utf32_loop be p i = Some (code_points16 (drop i (str_units be p)))"
proof (induction "str_len p - i" arbitrary: i rule: less_induct)
  case less
  show ?case
  proof (cases "i < str_len p")
    case True
    obtain c k where "string_getc be p i = Some (c, k)" "i < k" "k \<le> str_len p"
      "code_points16 (drop i (str_units be p)) = c # code_points16 (drop k (str_units be p))"
      using string_getc_units [OF assms True] by blast
    with less True show ?thesis by (simp add: to_utf32_loop.simps [of be p i])
  qed (simp add: to_utf32_loop.simps [of be p i])
qed

lemma code_points16_length: "length (code_points16 us) \<le> length us"
  by (induction us rule: code_points16.induct) auto

lemma to_utf32_buf_units:
  "str_ok p \<Longrightarrow> to_utf32_buf be p = Some (code_points16 (str_units be p)) \<and>
     length (code_points16 (str_units be p)) \<le> str_len p"
  using to_utf32_loop_units [of p be 0] code_points16_length [of "str_units be p"] by (simp add: to_utf32_buf_def)

subsection \<open>Well-formed strings\<close>

lemma is_surrogate_iff: "is_surrogate c \<longleftrightarrow> is_hi_surrogate c \<or> is_lo_surrogate c"
proof -
  have "unat (drop_bit 11 c) = unat c div 2048" by (simp only: unat_drop_bit) simp
  moreover have "unat (drop_bit 11 (0xD800 :: u32)) = 27" by (simp only: unat_drop_bit) simp
  ultimately have "is_surrogate c \<longleftrightarrow> unat c div 2048 = 27"
    by (simp only: is_surrogate_def word_unat_eq_iff)
  also have "\<dots> \<longleftrightarrow> unat c div 1024 = 54 \<or> unat c div 1024 = 55" by linarith
  finally show ?thesis by (simp add: is_hi_surrogate_iff is_lo_surrogate_iff)
qed

lemma not_surrogate_pair: "\<not> is_surrogate (from_surrogate hi lo)"
proof -
  have "65536 div 1024 \<le> unat (from_surrogate hi lo) div 1024"
    by (rule div_le_mono) (simp add: unat_from_surrogate)
  then show ?thesis by (auto simp: is_surrogate_iff is_hi_surrogate_iff is_lo_surrogate_iff)
qed

definition well_formed16 :: "u16 list \<Rightarrow> bool" where
  "well_formed16 us \<longleftrightarrow> (\<forall>c \<in> set (code_points16 us). \<not> is_surrogate c)"

text \<open>The units with every unpaired surrogate replaced.\<close>

definition repair16 :: "u16 list \<Rightarrow> u16 list" where
  "repair16 us = utf16_units (map (\<lambda>c. if is_surrogate c then 0xFFFD else c) (code_points16 us))"

lemma wf16_Nil [simp]: "well_formed16 []" "repair16 [] = []"
  by (simp_all add: well_formed16_def repair16_def)

lemma hi_not_lo: "is_hi_surrogate c \<Longrightarrow> \<not> is_lo_surrogate c"
  by (simp add: is_hi_surrogate_iff is_lo_surrogate_iff)

lemma utf16_of_FFFD: "utf16_of 0xFFFD = [0xFFFD]"
  by (simp add: utf16_of_def word_less_nat_alt)

lemma wf16_Cons:
  "\<not> is_surrogate (ucast u) \<Longrightarrow> well_formed16 (u # us) = well_formed16 us \<and> repair16 (u # us) = u # repair16 us"
  "is_lo_surrogate (ucast u) \<Longrightarrow> \<not> well_formed16 (u # us) \<and> repair16 (u # us) = 0xFFFD # repair16 us"
  "is_hi_surrogate (ucast u) \<Longrightarrow> us = [] \<or> \<not> is_lo_surrogate (ucast (hd us)) \<Longrightarrow>
     \<not> well_formed16 (u # us) \<and> repair16 (u # us) = 0xFFFD # repair16 us"
  "is_hi_surrogate (ucast u) \<Longrightarrow> is_lo_surrogate (ucast v) \<Longrightarrow>
     well_formed16 (u # v # us) = well_formed16 us \<and> repair16 (u # v # us) = u # v # repair16 us"
  by (auto simp: well_formed16_def repair16_def code_points16_Cons is_surrogate_iff utf16_of_ucast utf16_of_FFFD
      hi_not_lo not_surrogate_pair [unfolded is_surrogate_iff, simplified] utf16_of_pair)

text \<open>
  The four cases of the loops at an index, over the units of a block.  They are what both loops
  branch on.
\<close>

lemma surrogate_step_cases [consumes 1, case_names plain lone_lo lone_hi pair]:
  assumes "i < n"
  obtains "\<not> is_surrogate (ucast (us ! i))"
  | "is_surrogate (ucast (us ! i))" "is_lo_surrogate (ucast (us ! i))"
  | "is_surrogate (ucast (us ! i))" "is_hi_surrogate (ucast (us ! i))" "\<not> is_lo_surrogate (ucast (us ! i))"
      "i + 1 = n \<or> \<not> is_lo_surrogate (ucast (us ! (i + 1)))"
  | "is_surrogate (ucast (us ! i))" "is_hi_surrogate (ucast (us ! i))" "\<not> is_lo_surrogate (ucast (us ! i))"
      "i + 1 < n" "is_lo_surrogate (ucast (us ! (i + 1)))"
  using assms by (metis Suc_eq_plus1 Suc_lessI is_surrogate_iff)

lemma isWellFormed_loop_units:
  assumes "2 * n \<le> payload_size b"
  shows "\<exists>k. isWellFormed_loop be b n i = Some k \<and>
    (i \<le> n \<longrightarrow> (k = n \<longleftrightarrow> well_formed16 (drop i (buf_units be True b n))) \<and> k \<le> n)"
proof (induction "n - i" arbitrary: i rule: less_induct)
  case less
  let ?us = "buf_units be True b n"
  show ?case
  proof (cases "i < n")
    case True
    have g: "str16_get be b j = Some (?us ! j)" if "j < n" for j
      using that assms by (simp add: mem_simps)
    have d: "drop i ?us = ?us ! i # drop (i + 1) ?us" using True by (simp add: drop_units_Cons)
    have hd: "hd (drop (i + 1) ?us) = ?us ! (i + 1)" if "i + 1 < n"
      using that by (simp add: hd_drop_conv_nth)
    from True show ?thesis
    proof (cases rule: surrogate_step_cases [of i n ?us])
      case plain
      then show ?thesis
        using True less [of "i + 1"] wf16_Cons(1) [OF plain] g [OF True]
        by (simp add: isWellFormed_loop.simps [of be b n i] d)
    next
      case lone_lo
      then show ?thesis
        using True wf16_Cons(2) g [OF True] by (simp add: isWellFormed_loop.simps [of be b n i] d)
    next
      case lone_hi
      then have "drop (i + 1) ?us = [] \<or> \<not> is_lo_surrogate (ucast (hd (drop (i + 1) ?us)))"
        using True hd by (cases "i + 1 < n") auto
      then have "\<not> well_formed16 (drop i ?us)"
        unfolding d using wf16_Cons(3) [OF lone_hi(2)] by blast
      with lone_hi True g [OF True] g [of "i + 1"] show ?thesis
        by (cases "i + 1 = n") (auto simp: isWellFormed_loop.simps [of be b n i])
    next
      case pair
      have "drop i ?us = ?us ! i # ?us ! (i + 1) # drop (i + 2) ?us"
        using pair(4) drop_units_Cons [of "i + 1" ?us] d by simp
      then show ?thesis
        using pair True less [of "i + 2"] wf16_Cons(4) [OF pair(2,5)] g [OF True] g [OF pair(4)]
        by (simp add: isWellFormed_loop.simps [of be b n i])
    qed
  qed (simp add: isWellFormed_loop.simps [of be b n i])
qed

lemma toWellFormed_loop_units:
  assumes "2 * n \<le> payload_size b"
  shows "\<exists>c. toWellFormed_loop be b n i = Some c \<and> payload_size c = payload_size b \<and>
    (i \<le> n \<longrightarrow> buf_units be True c n = take i (buf_units be True b n) @ repair16 (drop i (buf_units be True b n)))"
  using assms
proof (induction "n - i" arbitrary: i b rule: less_induct)
  case less
  let ?us = "buf_units be True b n"
  show ?case
  proof (cases "i < n")
    case True
    have g: "str16_get be b j = Some (?us ! j)" if "j < n" for j
      using that less.prems by (simp add: mem_simps)
    have d: "drop i ?us = ?us ! i # drop (i + 1) ?us" using True by (simp add: drop_units_Cons)
    have t: "take (i + 1) ?us = take i ?us @ [?us ! i]" using True by (simp add: take_Suc_conv_app_nth)
    have hd: "hd (drop (i + 1) ?us) = ?us ! (i + 1)" if "i + 1 < n"
      using that by (simp add: hd_drop_conv_nth)
    have patched: "\<exists>c. (do { b \<leftarrow> str16_put be b i 0xFFFD; toWellFormed_loop be b n (i + 1) }) = Some c \<and>
        payload_size c = payload_size b \<and> buf_units be True c n = take i ?us @ 0xFFFD # repair16 (drop (i + 1) ?us)"
    proof -
      have "2 * i + 1 < payload_size b" using True less.prems by simp
      then obtain c where c: "str16_put be b i 0xFFFD = Some c" "payload_size c = payload_size b"
        "unit_at be c i = 0xFFFD" "\<And>j. j < 2 * i \<or> 2 * i + 1 < j \<Longrightarrow> byte_at c j = byte_at b j"
        by (rule str16_put_eq [of i b be "0xFFFD"]) blast
      have "unit_at be c j = unit_at be b j" if "j \<noteq> i" for j
        using that c(4) [of "2 * j"] c(4) [of "2 * j + 1"] by (auto simp: unit_at_def neq_iff)
      then have "buf_units be True c n = ?us[i := 0xFFFD]"
        using c(3) True by (intro nth_equalityI) (auto simp: nth_list_update)
      then have "take (i + 1) (buf_units be True c n) = take i ?us @ [0xFFFD]"
        "drop (i + 1) (buf_units be True c n) = drop (i + 1) ?us"
        using True by (simp_all add: take_Suc_conv_app_nth)
      with less.hyps [of "i + 1" c] less.prems c(1,2) True show ?thesis by auto
    qed
    from True show ?thesis
    proof (cases rule: surrogate_step_cases [of i n ?us])
      case plain
      then show ?thesis
        using True less.hyps [of "i + 1" b] less.prems wf16_Cons(1) [OF plain] g [OF True] t
        by (simp add: toWellFormed_loop.simps [of be b n i] d)
    next
      case lone_lo
      then show ?thesis
        using True wf16_Cons(2) g [OF True] patched by (simp add: toWellFormed_loop.simps [of be b n i] d)
    next
      case lone_hi
      then have "drop (i + 1) ?us = [] \<or> \<not> is_lo_surrogate (ucast (hd (drop (i + 1) ?us)))"
        using True hd by (cases "i + 1 < n") auto
      then have "repair16 (drop i ?us) = 0xFFFD # repair16 (drop (i + 1) ?us)"
        unfolding d using wf16_Cons(3) [OF lone_hi(2)] by blast
      with lone_hi True g [OF True] g [of "i + 1"] patched show ?thesis
        by (cases "i + 1 = n") (auto simp: toWellFormed_loop.simps [of be b n i])
    next
      case pair
      have d2: "drop i ?us = ?us ! i # ?us ! (i + 1) # drop (i + 2) ?us"
        using pair(4) drop_units_Cons [of "i + 1" ?us] d by simp
      have "take (i + 2) ?us = take i ?us @ [?us ! i, ?us ! (i + 1)]"
        using pair(4) t by (simp add: take_Suc_conv_app_nth)
      then show ?thesis
        using pair True less.hyps [of "i + 2" b] less.prems wf16_Cons(4) [OF pair(2,5)] g [OF True] g [OF pair(4)] d2
        by (simp add: toWellFormed_loop.simps [of be b n i])
    qed
  qed (use less.prems in \<open>simp add: toWellFormed_loop.simps [of be b n i]\<close>)
qed

lemma narrow_well_formed: "\<forall>u \<in> set us. unat u < 256 \<Longrightarrow> well_formed16 us \<and> repair16 us = us"
proof (induction us)
  case (Cons u us)
  then have "\<not> is_surrogate (ucast u)"
    by (auto simp: is_surrogate_iff is_hi_surrogate_iff is_lo_surrogate_iff)
  with Cons show ?case by (simp add: wf16_Cons(1))
qed simp

lemma FFFD_not_surrogate: "\<not> is_surrogate (ucast (0xFFFD :: u16))"
  by (simp add: is_surrogate_iff is_hi_surrogate_iff is_lo_surrogate_iff)

lemma repair16_well_formed: "well_formed16 (repair16 us) \<and> (well_formed16 us \<longrightarrow> repair16 us = us)"
proof (induction us rule: length_induct)
  case (1 us)
  show ?case
  proof (cases us)
    case (Cons u vs)
    consider "\<not> is_surrogate (ucast u)" | "is_lo_surrogate (ucast u)"
      | "is_hi_surrogate (ucast u)" "vs = [] \<or> \<not> is_lo_surrogate (ucast (hd vs))"
      | v ws where "vs = v # ws" "is_hi_surrogate (ucast u)" "is_lo_surrogate (ucast v)"
      by (cases vs) (auto simp: is_surrogate_iff)
    then show ?thesis
    proof cases
      case 1
      then show ?thesis using "1.IH" [rule_format, of vs] Cons by (simp add: wf16_Cons(1))
    next
      case 2
      then show ?thesis
        using "1.IH" [rule_format, of vs] Cons by (simp add: wf16_Cons(2) wf16_Cons(1) [OF FFFD_not_surrogate])
    next
      case 3
      then show ?thesis
        using "1.IH" [rule_format, of vs] Cons wf16_Cons(3) [OF 3] by (simp add: wf16_Cons(1) [OF FFFD_not_surrogate])
    next
      case 4
      then show ?thesis
        using "1.IH" [rule_format, of ws] Cons by (simp add: wf16_Cons(4))
    qed
  qed simp
qed

lemma isWellFormed_units:
  assumes "str_ok p"
  shows "js_string_isWellFormed be p = Some (well_formed16 (str_units be p))"
proof (cases "str_wide p \<and> str_len p \<noteq> 0")
  case True
  then have "2 * str_len p \<le> payload_size (str_block p)" using assms by (simp add: str_ok_def)
  from isWellFormed_loop_units [OF this, of be 0] True show ?thesis
    by (auto simp: js_string_isWellFormed_def str_units_def)
next
  case False
  then have "\<forall>u \<in> set (str_units be p). unat u < 256"
    by (auto simp: str_units_def buf_units_def unat_ucast_u8_u16)
  from narrow_well_formed [OF this] False show ?thesis
    by (auto simp: js_string_isWellFormed_def)
qed

context string_alloc
begin

lemma toWellFormed:
  assumes p: "str_ok p"
  shows "is_string be (repair16 (str_units be p)) (js_string_toWellFormed be sa h p)"
proof (cases "str_wide p \<and> str_len p \<noteq> 0")
  case True
  let ?us = "str_units be p"
  have len: "length ?us \<le> JS_STRING_LEN_MAX" using p by (simp add: str_ok_def)
  have read: "str16_read be (str_block p) 0 (str_len p) = Some ?us"
    using str16_read_units [OF p, of 0 "str_len p" be] True by simp
  from new_string16 [OF len, of be h, unfolded is_string_def] show ?thesis
  proof (elim disjE exE conjE)
    fix h' assume "js_new_string16_len be sa h ?us = Some (h', Inl OutOfMemory)"
    with True read show ?thesis by (simp add: js_string_toWellFormed_def is_string_def)
  next
    fix h' q
    assume q: "js_new_string16_len be sa h ?us = Some (h', Inr q)" "str_ok q" "str_units be q = ?us"
    then have w: "str_wide q" "str_len q = str_len p"
      by (auto simp: js_new_string16_len_def fill_string_def js_alloc_string_def split: sum.splits prod.splits option.splits)
    then have pay: "2 * str_len q \<le> payload_size (str_block q)" using q(2) by (simp add: str_ok_def)
    obtain c where c: "toWellFormed_loop be (str_block q) (str_len q) 0 = Some c" "payload_size c = payload_size (str_block q)"
      "buf_units be True c (str_len q) = repair16 (buf_units be True (str_block q) (str_len q))"
      using toWellFormed_loop_units [OF pay, of be 0] by auto
    have "str_ok (q\<lparr>str_block := c\<rparr>)" "str_units be (q\<lparr>str_block := c\<rparr>) = repair16 ?us"
      using c q w by (simp_all add: str_ok_def str_units_def)
    with True read q(1) c(1) show ?thesis by (simp add: js_string_toWellFormed_def is_string_def)
  qed
next
  case False
  then have "\<forall>u \<in> set (str_units be p). unat u < 256"
    by (auto simp: str_units_def buf_units_def unat_ucast_u8_u16)
  from narrow_well_formed [OF this] show ?thesis
    using False p by (auto simp: js_string_toWellFormed_def is_string_def)
qed

end

subsection \<open>Properties: well-formed strings\<close>

text \<open>
  C32.  \<open>isWellFormed\<close> answers whether the string's code points contain no surrogate, and
  \<open>toWellFormed\<close> returns a string in which exactly the unpaired surrogates are replaced by
  U+FFFD and every pair is kept, which is therefore well formed and, for a well-formed string, the string
  itself; or it reports that memory ran out.
\<close>

theorem js_string_toWellFormed_repairs:
  assumes "str_ok p"
  shows "js_string_isWellFormed be p = Some (well_formed16 (str_units be p)) \<and>
    ((\<exists>h'. js_string_toWellFormed be (js_realloc2 def_malloc_funcs fill) h p = Some (h', Inl OutOfMemory)) \<or>
     (\<exists>h' q. js_string_toWellFormed be (js_realloc2 def_malloc_funcs fill) h p = Some (h', Inr q) \<and> str_ok q \<and>
       str_units be q = repair16 (str_units be p))) \<and>
    (well_formed16 (str_units be p) \<longrightarrow> repair16 (str_units be p) = str_units be p) \<and>
    well_formed16 (repair16 (str_units be p))"
  using isWellFormed_units [OF assms, of be] def_string.toWellFormed [OF assms, of be fill h]
    repair16_well_formed [of "str_units be p"] by (auto simp: is_string_def)

lemma js_string_toWellFormed_repairs_witness:
  "js_string_isWellFormed False
     \<lparr>str_block = \<lparr>cells = replicate 24 0 @ [0x00, 0xD8, 0x41, 0], usable = 28\<rparr>, str_len = 2, str_wide = True\<rparr> = Some False"
proof -
  let ?p = "\<lparr>str_block = \<lparr>cells = replicate 24 0 @ [0x00, 0xD8, 0x41, 0], usable = 28\<rparr>, str_len = 2, str_wide = True\<rparr>"
  have "str_ok ?p" by (simp add: str_ok_def payload_size_def sizeof_JSString_def JS_STRING_LEN_MAX_def)
  moreover have "str_units False ?p = [0xD800, 0x41]"
    by (simp add: str_units_def buf_units_def unit_at_def byte_at_def sizeof_JSString_def obj_val_def nth_append upt_rec)
  then have "\<not> well_formed16 (str_units False ?p)"
    by (simp add: well_formed16_def is_surrogate_iff is_hi_surrogate_iff is_lo_surrogate_iff)
  ultimately show ?thesis using js_string_toWellFormed_repairs [of ?p False 0 undefined] by simp
qed

subsection \<open>Trimming\<close>

lemma trim_front_units:
  assumes "str_ok p" "a + n = str_len p"
  shows "trim_front be sp p a n = Some (a + length (takeWhile (\<lambda>u. sp (ucast u)) (drop a (str_units be p))))"
  using assms(2)
proof (induction n arbitrary: a)
  case (Suc n)
  have "drop a (str_units be p) = str_units be p ! a # drop (a + 1) (str_units be p)"
    using Suc.prems by (intro drop_units_Cons) simp
  with Suc assms(1) show ?case by (simp add: string_get_units)
qed simp

lemma trim_back_units:
  assumes "str_ok p" "n \<le> b" "b \<le> str_len p"
  shows "trim_back be sp p b n =
    Some (b - length (takeWhile (\<lambda>u. sp (ucast u)) (rev (drop (b - n) (take b (str_units be p))))))"
  using assms(2,3)
proof (induction n arbitrary: b)
  case (Suc n)
  let ?us = "str_units be p"
  have "take b ?us = take (b - 1) ?us @ [?us ! (b - 1)]"
    using Suc.prems take_Suc_conv_app_nth [of "b - 1" ?us] by simp
  then have r: "rev (drop (b - Suc n) (take b ?us)) = ?us ! (b - 1) # rev (drop (b - 1 - n) (take (b - 1) ?us))"
    using Suc.prems by simp
  have g: "string_get be p (b - 1) = Some (ucast (?us ! (b - 1)))"
    using Suc.prems assms(1) by (intro string_get_units) simp_all
  have ih: "trim_back be sp p (b - 1) n =
      Some (b - 1 - length (takeWhile (\<lambda>u. sp (ucast u)) (rev (drop (b - 1 - n) (take (b - 1) ?us)))))"
    using Suc.prems by (intro Suc.IH) simp_all
  show ?case
    by (cases "sp (ucast (?us ! (b - 1)))") (simp_all add: g ih r del: One_nat_def)
qed simp

lemma take_eq_prefix: "vs = xs @ ys \<Longrightarrow> length xs = n \<Longrightarrow> take n vs = xs"
  by simp

lemma take_drop_trim:
  assumes "a \<le> length us" "k = length (takeWhile P (rev (drop a us)))"
  shows "take (length us - k - a) (drop a us) = rev (dropWhile P (rev (drop a us)))"
proof -
  let ?vs = "drop a us"
  have "rev (takeWhile P (rev ?vs) @ dropWhile P (rev ?vs)) = ?vs"
    by (simp only: takeWhile_dropWhile_id rev_rev_ident)
  then have "?vs = rev (dropWhile P (rev ?vs)) @ rev (takeWhile P (rev ?vs))"
    by (simp only: rev_append)
  moreover from this have "length ?vs = length (rev (dropWhile P (rev ?vs))) + k"
    using assms(2) by (metis length_append length_rev)
  then have "length (rev (dropWhile P (rev ?vs))) = length us - k - a"
    using assms(1) by simp
  ultimately show ?thesis by (rule take_eq_prefix)
qed

context string_alloc
begin

lemma trim_both:
  assumes "str_ok p"
  shows "is_string be (rev (dropWhile (\<lambda>u. sp (ucast u)) (rev (dropWhile (\<lambda>u. sp (ucast u)) (str_units be p)))))
    (js_string_trim be sp sa h p 3)"
proof -
  let ?us = "str_units be p" and ?P = "\<lambda>u. sp (ucast u)"
  define a where "a = length (takeWhile ?P ?us)"
  define k where "k = length (takeWhile ?P (rev (drop a ?us)))"
  have a: "a \<le> str_len p" using length_takeWhile_le [of ?P ?us] by (simp add: a_def)
  have k: "k \<le> str_len p - a" using length_takeWhile_le [of ?P "rev (drop a ?us)"] by (simp add: k_def)
  have "js_string_trim be sp sa h p 3 = js_sub_string be sa h p a (str_len p - k)"
    using trim_front_units [OF assms, of 0 "str_len p" be sp] a
      trim_back_units [OF assms, of "str_len p - a" "str_len p" be sp]
    by (simp add: js_string_trim_def a_def [symmetric] k_def)
  moreover have "take (str_len p - k - a) (drop a ?us) = rev (dropWhile ?P (rev (dropWhile ?P ?us)))"
    using take_drop_trim [of a ?us k ?P] a by (simp add: k_def a_def dropWhile_eq_drop)
  ultimately show ?thesis
    using sub_string [OF assms, of a "str_len p - k" be h] a k by simp
qed

end

end
