(* ===== verification/String_Buffer.thy ===== *)
theory String_Buffer
  imports Js_String_Ops Cstring
begin

section \<open>Building strings: StringBuffer\<close>

text \<open>
  \<open>StringBuffer\<close> of src/quickjs/quickjs.c: a growing string that starts with 8-bit units and is
  rewritten in place to 16-bit units when the first wider one arrives.  \<open>sb_str\<close> is the block of the string
  under construction, \<open>sb_heap\<close> the state of the runtime's allocator, \<open>sb_error\<close> the exception thrown
  (\<open>error_status\<close> of the source is -1 exactly when there is one).

  \<open>int\<close> is kept as mathematical integer.  Where the source computes an \<open>int\<close> from a
  \<open>size_t\<close> the value is converted with \<open>to_int\<close>; where \<open>size * 3\<close> leaves the range of
  \<open>int\<close>, which is undefined in C, the model returns \<open>None\<close>.
\<close>

subsection \<open>Operations\<close>

record 'h string_buffer =
  sb_str :: "block option"
  sb_len :: nat
  sb_size :: int
  sb_wide :: bool
  sb_error :: "js_error option"
  sb_heap :: 'h

type_synonym 'h sb_result = "('h string_buffer \<times> int) option"

definition INT_MAX :: int where
  "INT_MAX = 2 ^ 31 - 1"

definition to_int :: "int \<Rightarrow> int" where
  "to_int n = (n + 2 ^ 31) mod 2 ^ 32 - 2 ^ 31"

text \<open>\<open>js_free\<close>, which is what the runtime's reallocation does for the size 0.\<close>

definition js_str_free :: "'h str_realloc \<Rightarrow> 'h \<Rightarrow> block option \<Rightarrow> 'h" where
  "js_str_free sa h p = (case p of None \<Rightarrow> h | Some b \<Rightarrow> fst (sa h (Some b) 0))"

definition string_buffer_init2 :: "'h str_realloc \<Rightarrow> 'h \<Rightarrow> nat \<Rightarrow> bool \<Rightarrow> 'h string_buffer \<times> int" where
  "string_buffer_init2 sa h n w =
     (case js_alloc_string sa h n w of
        (h, Inl e) \<Rightarrow> (\<lparr>sb_str = None, sb_len = 0, sb_size = 0, sb_wide = w, sb_error = Some e, sb_heap = h\<rparr>, -1)
      | (h, Inr p) \<Rightarrow> (\<lparr>sb_str = Some (str_block p), sb_len = 0, sb_size = int n, sb_wide = w,
                        sb_error = None, sb_heap = h\<rparr>, 0))"

definition string_buffer_init :: "'h str_realloc \<Rightarrow> 'h \<Rightarrow> nat \<Rightarrow> 'h string_buffer \<times> int" where
  "string_buffer_init sa h n = string_buffer_init2 sa h n False"

definition string_buffer_free :: "'h str_realloc \<Rightarrow> 'h string_buffer \<Rightarrow> 'h string_buffer" where
  "string_buffer_free sa s = s\<lparr>sb_heap := js_str_free sa (sb_heap s) (sb_str s), sb_str := None\<rparr>"

definition string_buffer_set_error :: "'h str_realloc \<Rightarrow> js_error \<Rightarrow> 'h string_buffer \<Rightarrow> 'h string_buffer \<times> int" where
  "string_buffer_set_error sa e s =
     (s\<lparr>sb_heap := js_str_free sa (sb_heap s) (sb_str s), sb_str := None, sb_size := 0, sb_len := 0,
        sb_error := Some e\<rparr>, -1)"

text \<open>The bytes become units from the last to the first: unit \<open>i\<close> covers the bytes \<open>2 * i\<close> and \<open>2 * i + 1\<close>.\<close>

fun widen_loop :: "bool \<Rightarrow> block \<Rightarrow> nat \<Rightarrow> block option" where
  "widen_loop be b 0 = Some b"
| "widen_loop be b (Suc i) = do {
     v \<leftarrow> str8_get b i;
     b \<leftarrow> str16_put be b i (ucast v);
     widen_loop be b i }"

definition string_buffer_widen :: "bool \<Rightarrow> 'h str_realloc \<Rightarrow> 'h string_buffer \<Rightarrow> int \<Rightarrow> 'h sb_result" where
  "string_buffer_widen be sa s sz =
     (if sb_error s \<noteq> None then Some (s, -1)
      else let n = sizeof_JSString + 2 * nat sz in
        case sa (sb_heap s) (sb_str s) n of
          (h, None) \<Rightarrow> Some (string_buffer_set_error sa OutOfMemory (s\<lparr>sb_heap := h\<rparr>))
        | (h, Some str) \<Rightarrow> do {
            let slack = length (cells str) - n;
            let sz = to_int (sz + int (slack div 2));
            str \<leftarrow> widen_loop be str (sb_len s);
            Some (s\<lparr>sb_wide := True, sb_size := sz, sb_str := Some str, sb_heap := h\<rparr>, 0) })"

definition string_buffer_realloc :: "bool \<Rightarrow> 'h str_realloc \<Rightarrow> 'h string_buffer \<Rightarrow> nat \<Rightarrow> u32 \<Rightarrow> 'h sb_result" where
  "string_buffer_realloc be sa s new_len c =
     (if sb_error s \<noteq> None then Some (s, -1)
      else if new_len > JS_STRING_LEN_MAX then Some (string_buffer_set_error sa RangeError s)
      else if sb_size s * 3 > INT_MAX \<or> sb_size s * 3 < - INT_MAX - 1 then None
      else let new_size = min_int (max_int (int new_len) (sb_size s * 3 div 2)) (int JS_STRING_LEN_MAX) in
        if \<not> sb_wide s \<and> 0x100 \<le> sint c then string_buffer_widen be sa s new_size
        else let w = sb_wide s;
                 n = sizeof_JSString + (if w then 2 * nat new_size else nat new_size) + 1 - (if w then 1 else 0)
          in case sa (sb_heap s) (sb_str s) n of
            (h, None) \<Rightarrow> Some (string_buffer_set_error sa OutOfMemory (s\<lparr>sb_heap := h\<rparr>))
          | (h, Some str) \<Rightarrow>
              let slack = length (cells str) - n;
                  new_size = min_int (to_int (new_size + int (if w then slack div 2 else slack))) (int JS_STRING_LEN_MAX)
              in Some (s\<lparr>sb_size := new_size, sb_str := Some str, sb_heap := h\<rparr>, 0))"

text \<open>One character stored at the end, at the width given.\<close>

definition sb_store16 :: "bool \<Rightarrow> 'h string_buffer \<Rightarrow> u32 \<Rightarrow> 'h sb_result" where
  "sb_store16 be s c = do {
     b \<leftarrow> sb_str s;
     b \<leftarrow> str16_put be b (sb_len s) (ucast c);
     Some (s\<lparr>sb_str := Some b, sb_len := sb_len s + 1\<rparr>, 0) }"

definition sb_store8 :: "'h string_buffer \<Rightarrow> u32 \<Rightarrow> 'h sb_result" where
  "sb_store8 s c = do {
     b \<leftarrow> sb_str s;
     b \<leftarrow> str8_put b (sb_len s) (ucast c);
     Some (s\<lparr>sb_str := Some b, sb_len := sb_len s + 1\<rparr>, 0) }"

definition string_buffer_putc_slow :: "bool \<Rightarrow> 'h str_realloc \<Rightarrow> 'h string_buffer \<Rightarrow> u32 \<Rightarrow> 'h sb_result" where
  "string_buffer_putc_slow be sa s c = do {
     (s, r) \<leftarrow> (if int (sb_len s) \<ge> sb_size s then string_buffer_realloc be sa s (sb_len s + 1) c
               else Some (s, 0));
     if r \<noteq> 0 then Some (s, -1)
     else if sb_wide s then sb_store16 be s c
     else if c < 0x100 then sb_store8 s c
     else do {
       (s, r) \<leftarrow> string_buffer_widen be sa s (sb_size s);
       if r \<noteq> 0 then Some (s, -1) else sb_store16 be s c } }"

definition string_buffer_putc8 :: "bool \<Rightarrow> 'h str_realloc \<Rightarrow> 'h string_buffer \<Rightarrow> u32 \<Rightarrow> 'h sb_result" where
  "string_buffer_putc8 be sa s c = do {
     (s, r) \<leftarrow> (if int (sb_len s) \<ge> sb_size s then string_buffer_realloc be sa s (sb_len s + 1) c
               else Some (s, 0));
     if r \<noteq> 0 then Some (s, -1)
     else if sb_wide s then sb_store16 be s c
     else sb_store8 s c }"

definition string_buffer_putc16 :: "bool \<Rightarrow> 'h str_realloc \<Rightarrow> 'h string_buffer \<Rightarrow> u32 \<Rightarrow> 'h sb_result" where
  "string_buffer_putc16 be sa s c =
     (if int (sb_len s) < sb_size s \<and> sb_wide s then sb_store16 be s c
      else if int (sb_len s) < sb_size s \<and> c < 0x100 then sb_store8 s c
      else string_buffer_putc_slow be sa s c)"

definition string_buffer_putc :: "bool \<Rightarrow> 'h str_realloc \<Rightarrow> 'h string_buffer \<Rightarrow> u32 \<Rightarrow> 'h sb_result" where
  "string_buffer_putc be sa s c =
     (if c \<ge> 0x10000 then do {
        (s, r) \<leftarrow> string_buffer_putc16 be sa s (get_hi_surrogate c);
        if r \<noteq> 0 then Some (s, -1) else string_buffer_putc16 be sa s (get_lo_surrogate c) }
      else string_buffer_putc16 be sa s c)"

text \<open>A copy of no characters touches no memory, so it is defined for the null string of a failed buffer.\<close>

definition sb_write8 :: "'h string_buffer \<Rightarrow> u8 list \<Rightarrow> 'h sb_result" where
  "sb_write8 s p =
     (if p = [] then Some (s, 0)
      else do { b \<leftarrow> sb_str s;
                b \<leftarrow> str8_write b (sb_len s) p;
                Some (s\<lparr>sb_str := Some b, sb_len := sb_len s + length p\<rparr>, 0) })"

definition sb_write16 :: "bool \<Rightarrow> 'h string_buffer \<Rightarrow> u16 list \<Rightarrow> 'h sb_result" where
  "sb_write16 be s p =
     (if p = [] then Some (s, 0)
      else do { b \<leftarrow> sb_str s;
                b \<leftarrow> str16_write be b (sb_len s) p;
                Some (s\<lparr>sb_str := Some b, sb_len := sb_len s + length p\<rparr>, 0) })"

definition string_buffer_write8 :: "bool \<Rightarrow> 'h str_realloc \<Rightarrow> 'h string_buffer \<Rightarrow> u8 list \<Rightarrow> 'h sb_result" where
  "string_buffer_write8 be sa s p = do {
     (s, r) \<leftarrow> (if int (sb_len s + length p) > sb_size s
               then string_buffer_realloc be sa s (sb_len s + length p) 0 else Some (s, 0));
     if r \<noteq> 0 then Some (s, -1)
     else if sb_wide s then sb_write16 be s (map ucast p)
     else sb_write8 s p }"

definition string_buffer_write16 :: "bool \<Rightarrow> 'h str_realloc \<Rightarrow> 'h string_buffer \<Rightarrow> u16 list \<Rightarrow> 'h sb_result" where
  "string_buffer_write16 be sa s p = do {
     let c = foldl (\<lambda>c u. c OR ucast u) (0 :: u32) p;
     (s, r) \<leftarrow> (if int (sb_len s + length p) > sb_size s
               then string_buffer_realloc be sa s (sb_len s + length p) c
               else if \<not> sb_wide s \<and> c \<ge> 0x100 then string_buffer_widen be sa s (sb_size s)
               else Some (s, 0));
     if r \<noteq> 0 then Some (s, -1)
     else if sb_wide s then sb_write16 be s p
     else sb_write8 s (map ucast p) }"

definition string_buffer_puts8 :: "bool \<Rightarrow> 'h str_realloc \<Rightarrow> 'h string_buffer \<Rightarrow> u8 list \<Rightarrow> 'h sb_result" where
  "string_buffer_puts8 be sa s str = do {
     n \<leftarrow> strlen str;
     string_buffer_write8 be sa s (take n str) }"

definition string_buffer_concat ::
    "bool \<Rightarrow> 'h str_realloc \<Rightarrow> 'h string_buffer \<Rightarrow> js_string \<Rightarrow> nat \<Rightarrow> nat \<Rightarrow> 'h sb_result" where
  "string_buffer_concat be sa s p from to =
     (if to \<le> from then Some (s, 0)
      else if str_wide p then do {
        us \<leftarrow> str16_read be (str_block p) from (to - from);
        string_buffer_write16 be sa s us }
      else do {
        bs \<leftarrow> str8_read (str_block p) from (to - from);
        string_buffer_write8 be sa s bs })"

fun sb_fill_loop :: "bool \<Rightarrow> 'h str_realloc \<Rightarrow> 'h string_buffer \<Rightarrow> u32 \<Rightarrow> nat \<Rightarrow> 'h sb_result" where
  "sb_fill_loop be sa s c 0 = Some (s, 0)"
| "sb_fill_loop be sa s c (Suc cnt) = do {
     (s, r) \<leftarrow> string_buffer_putc16 be sa s c;
     if r \<noteq> 0 then Some (s, -1) else sb_fill_loop be sa s c cnt }"

definition string_buffer_fill :: "bool \<Rightarrow> 'h str_realloc \<Rightarrow> 'h string_buffer \<Rightarrow> u32 \<Rightarrow> nat \<Rightarrow> 'h sb_result" where
  "string_buffer_fill be sa s c cnt = do {
     (s, r) \<leftarrow> (if int (sb_len s + cnt) > sb_size s
               then string_buffer_realloc be sa s (sb_len s + cnt) c else Some (s, 0));
     if r \<noteq> 0 then Some (s, -1) else sb_fill_loop be sa s c cnt }"

definition string_buffer_end :: "'h str_realloc \<Rightarrow> 'h string_buffer \<Rightarrow> 'h str_result" where
  "string_buffer_end sa s =
     (case sb_error s of
        Some e \<Rightarrow> Some (sb_heap s, Inl e)
      | None \<Rightarrow>
          if sb_len s = 0 then Some (js_str_free sa (sb_heap s) (sb_str s), Inr empty_string)
          else do {
            (h, str) \<leftarrow> (if int (sb_len s) < sb_size s
                        then (case sa (sb_heap s) (sb_str s) (str_alloc_size (sb_len s) (sb_wide s)) of
                                (h, None) \<Rightarrow> Some (h, sb_str s)
                              | (h, Some str) \<Rightarrow> Some (h, Some str))
                        else Some (sb_heap s, sb_str s));
            b \<leftarrow> str;
            b \<leftarrow> (if \<not> sb_wide s then str8_put b (sb_len s) 0 else Some b);
            Some (h, Inr \<lparr>str_block = b, str_len = sb_len s, str_wide = sb_wide s\<rparr>) })"

subsection \<open>Invariant and contents\<close>

definition sb_units :: "bool \<Rightarrow> 'h string_buffer \<Rightarrow> u16 list" where
  "sb_units be s = (case sb_str s of None \<Rightarrow> [] | Some b \<Rightarrow> buf_units be (sb_wide s) b (sb_len s))"

text \<open>
  The block has room for \<open>sb_size\<close> units, and for a terminator after 8-bit ones; \<open>sb_size\<close> is
  clamped to the longest string except after widening.  A buffer that
  failed has no block and no room.
\<close>

definition sb_inv :: "('h \<Rightarrow> bool) \<Rightarrow> 'h string_buffer \<Rightarrow> bool" where
  "sb_inv ok s \<longleftrightarrow> ok (sb_heap s) \<and>
     (case sb_error s of
        Some e \<Rightarrow> sb_str s = None \<and> sb_len s = 0 \<and> sb_size s = 0
      | None \<Rightarrow> (\<exists>b. sb_str s = Some b \<and> int (sb_len s) \<le> sb_size s \<and>
          sb_size s \<le> (if sb_wide s then INT_MAX else int JS_STRING_LEN_MAX) \<and>
          (if sb_wide s then 2 * sb_size s \<le> int (payload_size b) else sb_size s + 1 \<le> int (payload_size b))))"

text \<open>
  The units a buffer can take before \<open>size * 3\<close> may overflow.
\<close>

definition sb_limit :: nat where
  "sb_limit = 715827882"

text \<open>
  An allocator whose slack is below 1 GiB in the states \<open>ok\<close>, which it preserves.
\<close>

locale buffer_alloc = string_alloc sa for sa :: "'h str_realloc" +
  fixes ok :: "'h \<Rightarrow> bool"
  assumes sa_ok: "ok h \<Longrightarrow> sa h p n = (h', r) \<Longrightarrow> ok h'"
    and sa_slack: "ok h \<Longrightarrow> 0 < n \<Longrightarrow> n < 2 ^ 32 \<Longrightarrow> sa h p n = (h', Some q) \<Longrightarrow> length (cells q) < n + 2 ^ 30"

lemma to_int_id: "- (2 ^ 31) \<le> n \<Longrightarrow> n \<le> INT_MAX \<Longrightarrow> to_int n = n"
  by (simp add: to_int_def INT_MAX_def)

lemma payload_length: "sizeof_JSString + n \<le> length (cells b) \<Longrightarrow> n \<le> payload_size b"
  by (simp add: payload_size_def)

lemma byte_at_keep:
  assumes "take k (cells q) = take k (cells p)" "sizeof_JSString + i < k" "k \<le> length (cells p)" "k \<le> length (cells q)"
  shows "byte_at q i = byte_at p i"
proof -
  have "take k (cells q) ! (sizeof_JSString + i) = take k (cells p) ! (sizeof_JSString + i)"
    by (rule arg_cong [OF assms(1)])
  then show ?thesis by (simp only: byte_at_def nth_take [OF assms(2)])
qed

lemma half_room:
  assumes "2 * nat z + t = p" "t < 1073741824" "0 \<le> z"
  shows "2 * z + 2 * int (t div 2) \<le> int p" "int (t div 2) \<le> 536870912"
proof -
  have "2 * (t div 2) \<le> t" by simp
  then have "2 * nat z + 2 * (t div 2) \<le> p" "t div 2 \<le> 536870912" using assms(1,2) by linarith+
  then show "2 * z + 2 * int (t div 2) \<le> int p" "int (t div 2) \<le> 536870912"
    using assms(3) by linarith+
qed

text \<open>The widening loop rereads each byte before its unit overwrites it.\<close>

lemma widen_loop_eq:
  assumes "2 * n \<le> payload_size b"
  obtains c where "widen_loop be b n = Some c" "payload_size c = payload_size b"
    "\<And>i. i < n \<Longrightarrow> unit_at be c i = ucast (byte_at b i)"
    "\<And>j. 2 * n \<le> j \<Longrightarrow> byte_at c j = byte_at b j"
  using assms
proof (induction n arbitrary: b thesis)
  case 0
  show ?case by (rule 0(1) [of b]) simp_all
next
  case (Suc n)
  have v: "str8_get b n = Some (byte_at b n)"
    using Suc.prems(2) by (intro str8_get_eq) simp
  have "2 * n + 1 < payload_size b" using Suc.prems(2) by simp
  then obtain d where d: "str16_put be b n (ucast (byte_at b n)) = Some d" "payload_size d = payload_size b"
    "unit_at be d n = ucast (byte_at b n)" "\<And>j. j < 2 * n \<or> 2 * n + 1 < j \<Longrightarrow> byte_at d j = byte_at b j"
    by (rule str16_put_eq [of n b be "ucast (byte_at b n)"]) blast
  have "2 * n \<le> payload_size d" using Suc.prems(2) d(2) by simp
  then obtain c where c: "widen_loop be d n = Some c" "payload_size c = payload_size d"
    "\<And>i. i < n \<Longrightarrow> unit_at be c i = ucast (byte_at d i)" "\<And>j. 2 * n \<le> j \<Longrightarrow> byte_at c j = byte_at d j"
    by (rule Suc.IH [rotated]) blast
  have "unit_at be c i = ucast (byte_at b i)" if "i < Suc n" for i
  proof (cases "i = n")
    case True
    then show ?thesis using c(4) [of "2 * n"] c(4) [of "2 * n + 1"] d(3) by (simp add: unit_at_def)
  next
    case False
    then have "i < n" using that by simp
    then show ?thesis using c(3) d(4) [of i] by simp
  qed
  moreover have "byte_at c j = byte_at b j" if "2 * Suc n \<le> j" for j
    using that c(4) [of j] d(4) [of j] by simp
  ultimately show ?case
    using Suc.prems(1) [of c] v d(1,2) c(1,2) by simp
qed

text \<open>
  What an operation promises: it keeps the invariant, and it either appends the units \<open>us\<close> or
  leaves the buffer failed.
\<close>

definition sb_appends :: "('h \<Rightarrow> bool) \<Rightarrow> bool \<Rightarrow> 'h string_buffer \<Rightarrow> u16 list \<Rightarrow> 'h sb_result \<Rightarrow> bool" where
  "sb_appends ok be s us r \<longleftrightarrow> (\<exists>s' k. r = Some (s', k) \<and> sb_inv ok s' \<and>
     (k = 0 \<and> sb_error s' = None \<and> sb_units be s' = sb_units be s @ us \<or> k = -1 \<and> sb_error s' \<noteq> None))"

lemma sb_units_length: "sb_inv ok s \<Longrightarrow> sb_error s = None \<Longrightarrow> length (sb_units be s) = sb_len s"
  by (auto simp: sb_inv_def sb_units_def)

context buffer_alloc
begin

lemma free_ok: "ok h \<Longrightarrow> ok (js_str_free sa h p)"
  by (cases p) (auto simp: js_str_free_def intro: sa_ok surjective_pairing)

lemma set_error_appends:
  "ok (sb_heap s) \<Longrightarrow> sb_appends ok be t us (Some (string_buffer_set_error sa e s))"
  by (simp add: sb_appends_def string_buffer_set_error_def sb_inv_def free_ok)

text \<open>Reallocation keeps the bytes of the contents and gives room for the size computed.\<close>

lemma widen_cases:
  assumes inv: "sb_inv ok s" and e: "sb_error s = None" and nw: "\<not> sb_wide s"
    and sz: "int (sb_len s) \<le> sz" "0 < sz" "sz \<le> 2 ^ 30"
  obtains (fail) s' where "string_buffer_widen be sa s sz = Some (s', -1)" "sb_inv ok s'" "sb_error s' \<noteq> None"
  | (good) s' where "string_buffer_widen be sa s sz = Some (s', 0)" "sb_inv ok s'" "sb_error s' = None"
      "sb_wide s'" "sz \<le> sb_size s'" "sb_len s' = sb_len s" "sb_units be s' = sb_units be s"
proof -
  obtain b where b: "sb_str s = Some b" "sb_size s + 1 \<le> int (payload_size b)" "int (sb_len s) \<le> sb_size s" "ok (sb_heap s)"
    using inv e nw by (auto simp: sb_inv_def)
  let ?n = "sizeof_JSString + 2 * nat sz"
  have n: "0 < ?n" "?n < 2 ^ 32" using sz by (simp_all add: sizeof_JSString_def)
  show ?thesis
  proof (cases "sa (sb_heap s) (sb_str s) ?n")
    case (Pair h r)
    have okh: "ok h" using sa_ok [OF b(4) Pair] .
    show ?thesis
    proof (cases r)
      case None
      then show ?thesis
        using Pair e okh by (intro fail) (auto simp: string_buffer_widen_def string_buffer_set_error_def sb_inv_def free_ok)
    next
      case (Some q)
      note q = Pair [unfolded Some]
      have len: "?n \<le> length (cells q)" "length (cells q) < ?n + 2 ^ 30"
        using sa_size [OF n q] sa_slack [OF b(4) n q] .
      let ?slack = "length (cells q) - ?n"
      have keep: "byte_at q i = byte_at b i" if "i < sb_len s" for i
      proof (rule byte_at_keep)
        show "take (sizeof_JSString + sb_len s) (cells q) = take (sizeof_JSString + sb_len s) (cells b)"
          using sa_keeps [OF n q, of "sizeof_JSString + sb_len s"] sz b(1-3) by (simp add: payload_size_def)
      qed (use that sz b(2,3) len in \<open>simp_all add: payload_size_def\<close>)
      have pay: "2 * nat sz + ?slack = payload_size q" using len by (simp add: payload_size_def)
      then have "2 * sb_len s \<le> payload_size q" using sz by simp
      then obtain c where c: "widen_loop be q (sb_len s) = Some c" "payload_size c = payload_size q"
        "\<And>i. i < sb_len s \<Longrightarrow> unit_at be c i = ucast (byte_at q i)"
        by (rule widen_loop_eq [of "sb_len s" q be]) blast
      have size: "to_int (sz + int (?slack div 2)) = sz + int (?slack div 2)"
        using sz len by (intro to_int_id) (simp_all add: INT_MAX_def)
      have "?slack < 1073741824" using len by simp
      from half_room [OF pay this] sz
      have fit: "2 * sz + 2 * int (?slack div 2) \<le> int (payload_size q)" "int (?slack div 2) \<le> 536870912"
        by simp_all
      have "buf_units be True c (sb_len s) = buf_units be False b (sb_len s)"
        using c(3) keep by (intro nth_equalityI) simp_all
      then show ?thesis
        using q e b c(1,2) okh sz nw fit
        by (intro good [of "s\<lparr>sb_wide := True, sb_size := sz + int (?slack div 2), sb_str := Some c, sb_heap := h\<rparr>"])
          (simp_all add: string_buffer_widen_def Let_def size sb_inv_def sb_units_def INT_MAX_def)
    qed
  qed
qed

end

text \<open>The new size is at least the length asked for, and stays an \<open>int\<close>.\<close>

lemma new_size_bounds:
  assumes "0 \<le> z" "z < int n" "n \<le> sb_limit"
  defines "m \<equiv> min_int (max_int (int n) (z * 3 div 2)) (int JS_STRING_LEN_MAX)"
  shows "z * 3 \<le> INT_MAX" "int n \<le> m" "m < 1073741824" "0 < m"
proof -
  have n: "n \<le> 715827882" using assms(3) by (simp add: sb_limit_def)
  then show "z * 3 \<le> INT_MAX" using assms(2) by (simp add: INT_MAX_def)
  show "int n \<le> m"
    using n by (simp add: m_def min_int_def max_int_def JS_STRING_LEN_MAX_def)
  then show "0 < m" using assms(1,2) by linarith
  show "m < 1073741824"
    using n by (simp add: m_def min_int_def max_int_def JS_STRING_LEN_MAX_def)
qed

context buffer_alloc
begin

lemma realloc_cases:
  assumes inv: "sb_inv ok s" and e: "sb_error s = None"
    and n: "sb_size s < int new_len" "new_len \<le> sb_limit"
  obtains (fail) s' where "string_buffer_realloc be sa s new_len c = Some (s', -1)" "sb_inv ok s'" "sb_error s' \<noteq> None"
  | (good) s' where "string_buffer_realloc be sa s new_len c = Some (s', 0)" "sb_inv ok s'" "sb_error s' = None"
      "sb_wide s' = (sb_wide s \<or> 0x100 \<le> sint c)" "int new_len \<le> sb_size s'" "sb_len s' = sb_len s"
      "sb_units be s' = sb_units be s"
proof -
  obtain b where b: "sb_str s = Some b" "int (sb_len s) \<le> sb_size s" "ok (sb_heap s)"
    "if sb_wide s then 2 * sb_size s \<le> int (payload_size b) else sb_size s + 1 \<le> int (payload_size b)"
    using inv e by (auto simp: sb_inv_def)
  define m where "m = min_int (max_int (int new_len) (sb_size s * 3 div 2)) (int JS_STRING_LEN_MAX)"
  have "0 \<le> sb_size s" using b(2) by simp
  note m = new_size_bounds [OF this n, folded m_def]
  have guards: "\<not> new_len > JS_STRING_LEN_MAX" "\<not> (sb_size s * 3 > INT_MAX \<or> sb_size s * 3 < - INT_MAX - 1)"
    using n(2) m(1) b(2) by (simp_all add: sb_limit_def JS_STRING_LEN_MAX_def INT_MAX_def)
  show ?thesis
  proof (cases "\<not> sb_wide s \<and> 0x100 \<le> sint c")
    case True
    then have eq: "string_buffer_realloc be sa s new_len c = string_buffer_widen be sa s m"
      using e guards by (simp add: string_buffer_realloc_def Let_def m_def)
    have sz: "int (sb_len s) \<le> m" "0 < m" "m \<le> 2 ^ 30" using m b(2) n(1) by simp_all
    show ?thesis
    proof (cases rule: widen_cases [OF inv e conjunct1 [OF True] sz, of be])
      case (1 s')
      then show ?thesis using eq by (intro fail) simp_all
    next
      case (2 s')
      then show ?thesis using eq m(2) True by (intro good [of s']) simp_all
    qed
  next
    case False
    define w where "w = sb_wide s"
    define k where "k = sizeof_JSString + (if w then 2 * nat m else nat m) + 1 - (if w then 1 else 0)"
    have k: "0 < k" "k < 2 ^ 32" using m(3,4) by (simp_all add: k_def sizeof_JSString_def nat_less_iff)
    show ?thesis
    proof (cases "sa (sb_heap s) (sb_str s) k")
      case (Pair h r)
      have okh: "ok h" using sa_ok [OF b(3) Pair] .
      have eq: "string_buffer_realloc be sa s new_len c =
        (case r of None \<Rightarrow> Some (string_buffer_set_error sa OutOfMemory (s\<lparr>sb_heap := h\<rparr>))
         | Some q \<Rightarrow> Some (s\<lparr>sb_size := min_int (to_int (m + int (if w then (length (cells q) - k) div 2
                                else length (cells q) - k))) (int JS_STRING_LEN_MAX),
                            sb_str := Some q, sb_heap := h\<rparr>, 0))"
        unfolding string_buffer_realloc_def Let_def m_def [symmetric] w_def [symmetric] k_def [symmetric]
        using e guards False Pair by (cases r) (auto simp: w_def)
      show ?thesis
      proof (cases r)
        case None
        then show ?thesis
          using eq okh by (intro fail) (auto simp: string_buffer_set_error_def sb_inv_def free_ok)
      next
        case (Some q)
        note q = Pair [unfolded Some]
        have len: "k \<le> length (cells q)" "length (cells q) < k + 2 ^ 30"
          using sa_size [OF k q] sa_slack [OF b(3) k q] .
        define t where "t = length (cells q) - k"
        have t: "t < 1073741824" using len by (simp add: t_def)
        have pay: "(if w then 2 * nat m else nat m + 1) + t = payload_size q"
          using len by (simp add: payload_size_def k_def t_def)
        define z where "z = m + int (if w then t div 2 else t)"
        have z: "to_int z = z" "m \<le> z" "if w then 2 * z \<le> int (payload_size q) else z + 1 \<le> int (payload_size q)"
          using m(3,4) t pay half_room [of m t "payload_size q"]
          by (simp_all add: z_def to_int_id INT_MAX_def split: if_splits)
        define nz where "nz = min_int z (int JS_STRING_LEN_MAX)"
        have nz: "int new_len \<le> nz" "nz \<le> z" "nz \<le> int JS_STRING_LEN_MAX"
          using z(2) m(2) n(2) by (simp_all add: nz_def min_int_def sb_limit_def JS_STRING_LEN_MAX_def)
        have eq': "string_buffer_realloc be sa s new_len c = Some (s\<lparr>sb_size := nz, sb_str := Some q, sb_heap := h\<rparr>, 0)"
          using z(1) by (simp only: eq Some option.case nz_def) (simp only: z_def t_def)
        have room: "if w then 2 * nz \<le> int (payload_size q) else nz + 1 \<le> int (payload_size q)"
          using z(3) nz(2) by (simp split: if_splits)
        have keep: "byte_at q i = byte_at b i" if i: "i < (if w then 2 * sb_len s else sb_len s)" for i
        proof -
          let ?k = "sizeof_JSString + (if w then 2 * sb_len s else sb_len s)"
          have "(if w then 2 * sb_len s else sb_len s) \<le> payload_size b"
            using b(2,4) by (simp add: w_def split: if_splits)
          then have kb: "?k \<le> length (cells b)" using i by (simp add: payload_size_def split: if_splits)
          have "sb_len s \<le> nat m" using m(2) n(1) b(2) by linarith
          then have kk: "?k \<le> k"
            by (simp add: k_def split: if_splits)
          have kt: "take ?k (cells q) = take ?k (cells b)"
            using sa_keeps [OF k q kk] kb b(1) by simp
          show ?thesis
            using kb kk len i by (intro byte_at_keep [OF kt]) simp_all
        qed
        have "buf_units be w q (sb_len s) = buf_units be w b (sb_len s)"
          by (rule buf_units_cong) (use keep in simp)
        then show ?thesis
          using nz(1,3) room okh b(1-3) False n(1) e
          by (intro good [OF eq']) (auto simp: sb_units_def sb_inv_def w_def INT_MAX_def JS_STRING_LEN_MAX_def)
      qed
    qed
  qed
qed

end

subsection \<open>Every operation appends\<close>

text \<open>Stores at the end of a block with room.\<close>

lemma sb_write16_appends:
  assumes inv: "sb_inv ok s" and e: "sb_error s = None" and w: "sb_wide s"
    and n: "int (sb_len s + length p) \<le> sb_size s"
  shows "sb_appends ok be s p (sb_write16 be s p)"
proof (cases "p = []")
  case True
  then show ?thesis using inv e by (simp add: sb_appends_def sb_write16_def)
next
  case False
  obtain b where b: "sb_str s = Some b" "2 * sb_size s \<le> int (payload_size b)" "sb_size s \<le> INT_MAX" "ok (sb_heap s)"
    using inv e w by (auto simp: sb_inv_def)
  have "int (2 * (sb_len s + length p)) \<le> int (payload_size b)" using n b(2) by simp
  then have "2 * (sb_len s + length p) \<le> payload_size b" by (simp only: of_nat_le_iff)
  then obtain c where "str16_write be b (sb_len s) p = Some c" "payload_size c = payload_size b"
    "buf_units be True c (sb_len s + length p) = buf_units be True b (sb_len s) @ p"
    by (rule buf_units_write16) blast
  then show ?thesis
    using False b w n e by (simp add: sb_appends_def sb_write16_def sb_inv_def sb_units_def)
qed

lemma sb_write8_appends:
  assumes inv: "sb_inv ok s" and e: "sb_error s = None" and w: "\<not> sb_wide s"
    and n: "int (sb_len s + length p) \<le> sb_size s"
  shows "sb_appends ok be s (map ucast p) (sb_write8 s p)"
proof (cases "p = []")
  case True
  then show ?thesis using inv e by (simp add: sb_appends_def sb_write8_def)
next
  case False
  obtain b where b: "sb_str s = Some b" "sb_size s + 1 \<le> int (payload_size b)" "sb_size s \<le> int JS_STRING_LEN_MAX" "ok (sb_heap s)"
    using inv e w by (auto simp: sb_inv_def)
  have "int (sb_len s + length p) \<le> int (payload_size b)" using n b(2) by simp
  then have "sb_len s + length p \<le> payload_size b" by (simp only: of_nat_le_iff)
  then obtain c where "str8_write b (sb_len s) p = Some c" "payload_size c = payload_size b"
    "buf_units be False c (sb_len s + length p) = buf_units be False b (sb_len s) @ map ucast p"
    by (rule buf_units_write8) blast
  then show ?thesis
    using False b w n e by (simp add: sb_appends_def sb_write8_def sb_inv_def sb_units_def)
qed

lemma sb_store16_eq: "sb_store16 be s c = sb_write16 be s [ucast c]"
  by (simp add: sb_store16_def sb_write16_def)

lemma sb_store8_eq: "sb_store8 s c = sb_write8 s [ucast c]"
  by (simp add: sb_store8_def sb_write8_def)

lemma sb_appends_trans:
  assumes "sb_appends ok be s us r"
    and "\<And>t. sb_inv ok t \<Longrightarrow> sb_error t = None \<Longrightarrow> sb_units be t = sb_units be s @ us \<Longrightarrow> sb_appends ok be t vs (f t)"
  shows "sb_appends ok be s (us @ vs) (do { (t, r) \<leftarrow> r; if r \<noteq> 0 then Some (t, -1) else f t })"
  using assms by (fastforce simp: sb_appends_def)

lemma sb_appends_units_cong:
  "sb_units be t = sb_units be s \<Longrightarrow> sb_appends ok be t us r \<Longrightarrow> sb_appends ok be s us r"
  by (simp add: sb_appends_def)

lemma ucast_u32_narrow: "c < 0x100 \<Longrightarrow> map ucast [ucast (c :: u32) :: u8] = [ucast c :: u16]"
proof -
  assume "c < 0x100"
  then have "unat c < 256" by (simp add: word_less_nat_alt)
  then have "ucast (ucast c :: u8) = (ucast c :: u16)"
    by (intro word_eq_unatI) (simp add: unat_ucast_u8_u16 unat_ucast_u32_u8 unat_ucast_u32_u16)
  then show ?thesis by simp
qed

lemma sint_small: "(c :: u32) < 0x10000 \<Longrightarrow> (0x100 \<le> sint c) = (0x100 \<le> c)"
proof -
  assume "c < 0x10000"
  then have u: "uint c < 65536" by (simp add: word_less_def)
  have "sint c = signed_take_bit 31 (uint c)" by (simp add: sint_uint)
  also have "\<dots> = uint c"
  proof (rule signed_take_bit_int_eq_self)
    show "- (2 ^ 31) \<le> uint c" by (rule order_trans [of _ 0]) simp_all
    show "uint c < 2 ^ 31" by (rule less_trans [OF u]) simp
  qed
  finally show ?thesis by (simp add: word_le_def)
qed

context buffer_alloc
begin

lemma failed_realloc: "sb_error s \<noteq> None \<Longrightarrow> string_buffer_realloc be sa s n c = Some (s, -1)"
  by (simp add: string_buffer_realloc_def)

lemma failed_inv: "sb_inv ok s \<Longrightarrow> sb_error s \<noteq> None \<Longrightarrow> sb_len s = 0 \<and> sb_size s = 0 \<and> sb_str s = None"
  by (auto simp: sb_inv_def)

text \<open>Making room for \<open>n\<close> more units: the first lines of every operation.\<close>

definition ensure :: "bool \<Rightarrow> 'h string_buffer \<Rightarrow> nat \<Rightarrow> u32 \<Rightarrow> 'h sb_result" where
  "ensure be s n c = (if int (sb_len s + n) > sb_size s then string_buffer_realloc be sa s (sb_len s + n) c else Some (s, 0))"

lemma ensure_cases:
  assumes inv: "sb_inv ok s" and e: "sb_error s = None" and n: "sb_len s + n \<le> sb_limit"
  obtains (fail) s' where "ensure be s n c = Some (s', -1)" "sb_inv ok s'" "sb_error s' \<noteq> None"
  | (good) s' where "ensure be s n c = Some (s', 0)" "sb_inv ok s'" "sb_error s' = None" "sb_len s' = sb_len s"
      "int (sb_len s + n) \<le> sb_size s'" "sb_units be s' = sb_units be s"
      "sb_wide s' = (sb_wide s \<or> sb_size s < int (sb_len s + n) \<and> 0x100 \<le> sint c)"
proof (cases "int (sb_len s + n) > sb_size s")
  case True
  show ?thesis
  proof (cases rule: realloc_cases [OF inv e True n, of be c])
    case (1 s')
    then show ?thesis using True by (intro fail) (simp_all add: ensure_def)
  next
    case (2 s')
    then show ?thesis using True by (intro good [of s']) (simp_all add: ensure_def)
  qed
next
  case False
  then show ?thesis using inv e by (intro good [of s]) (simp_all add: ensure_def)
qed

lemma putc_slow_appends:
  assumes inv: "sb_inv ok s" and e: "sb_error s = None" and n: "sb_len s + 1 \<le> sb_limit" and c: "c < 0x10000"
  shows "sb_appends ok be s [ucast c] (string_buffer_putc_slow be sa s c)"
proof -
  have eq: "string_buffer_putc_slow be sa s c = do {
     (s, r) \<leftarrow> ensure be s 1 c;
     if r \<noteq> 0 then Some (s, -1)
     else if sb_wide s then sb_store16 be s c
     else if c < 0x100 then sb_store8 s c
     else do {
       (s, r) \<leftarrow> string_buffer_widen be sa s (sb_size s);
       if r \<noteq> 0 then Some (s, -1) else sb_store16 be s c } }"
    by (simp add: string_buffer_putc_slow_def ensure_def less_Suc_eq_le flip: of_nat_Suc)
  show ?thesis
  proof (cases rule: ensure_cases [OF inv e n, of be c])
    case (1 s')
    then show ?thesis by (simp add: eq sb_appends_def del: One_nat_def)
  next
    case (2 s')
    have room: "int (sb_len s' + length [x]) \<le> sb_size s'" for x :: 'x using 2 by simp
    show ?thesis
    proof (cases "sb_wide s'")
      case True
      then show ?thesis
        using sb_write16_appends [OF 2(2,3) True, of "[ucast c]" be] room
        by (simp add: eq 2(1) sb_store16_eq sb_appends_units_cong [OF 2(6)] del: One_nat_def)
    next
      case nw: False
      show ?thesis
      proof (cases "c < 0x100")
        case True
        then show ?thesis
          using sb_write8_appends [OF 2(2,3) nw, of "[ucast c]" be] room ucast_u32_narrow [OF True]
          by (simp add: eq 2(1) nw sb_store8_eq sb_appends_units_cong [OF 2(6)] del: One_nat_def)
      next
        case False
        then have wide: "0x100 \<le> sint c" using c by (simp add: sint_small)
        then have "\<not> sb_size s < int (sb_len s + 1)" using 2(7) nw by blast
        then have s': "s' = s" using 2(1) by (simp add: ensure_def)
        have s_nw: "\<not> sb_wide s" using 2(7) nw by blast
        have sz: "int (sb_len s) \<le> sb_size s" "0 < sb_size s" "sb_size s \<le> 2 ^ 30" "int (sb_len s + length [x]) \<le> sb_size s" for x :: 'x
          using inv e s_nw \<open>\<not> sb_size s < int (sb_len s + 1)\<close> by (auto simp: sb_inv_def JS_STRING_LEN_MAX_def)
        show ?thesis
        proof (cases rule: widen_cases [OF inv e s_nw sz(1-3), of be])
          case (1 t)
          then show ?thesis using 2(1) False s_nw by (simp add: eq s' sb_appends_def del: One_nat_def)
        next
          case w: (2 t)
          have "sb_appends ok be t [ucast c] (sb_store16 be t c)"
            unfolding sb_store16_eq using w sz(4) by (intro sb_write16_appends) simp_all
          then show ?thesis
            using 2(1) False s_nw w(1) sb_appends_units_cong [OF w(7)] by (simp add: eq s' del: One_nat_def)
        qed
      qed
    qed
  qed
qed

end

lemma or_wide_small:
  "(foldl (\<lambda>c u. c OR ucast (u :: u16)) (a :: u32) us < 0x10000) = (a < 0x10000)"
  "(foldl (\<lambda>c u. c OR ucast u) a us < 0x100) = (a < 0x100 \<and> (\<forall>u \<in> set us. u < 0x100))"
proof -
  have lt16: "(x < 0x10000) = (drop_bit 16 x = 0)" for x :: u32
  proof -
    have "unat (drop_bit 16 x) = unat x div 65536" by (simp only: unat_drop_bit) simp
    then show ?thesis by (simp add: word_less_nat_alt word_unat_eq_iff div_eq_0_iff)
  qed
  have lt8: "(x < 0x100) = (drop_bit 8 x = 0)" for x :: u32
  proof -
    have "unat (drop_bit 8 x) = unat x div 256" by (simp only: unat_drop_bit) simp
    then show ?thesis by (simp add: word_less_nat_alt word_unat_eq_iff div_eq_0_iff)
  qed
  have or: "drop_bit k (x OR y) = 0 \<longleftrightarrow> drop_bit k x = 0 \<and> drop_bit k y = 0" for x y :: u32 and k
    by (simp add: drop_bit_or or_eq_0_iff)
  have step16: "(x OR y < 0x10000) = (x < 0x10000 \<and> y < 0x10000)" for x y :: u32
    by (simp only: lt16 or)
  have step8: "(x OR y < 0x100) = (x < 0x100 \<and> y < 0x100)" for x y :: u32
    by (simp only: lt8 or)
  have u16: "(ucast u :: u32) < 0x10000" for u :: u16
    by (simp add: word_less_nat_alt)
  have u8: "((ucast u :: u32) < 0x100) = (u < 0x100)" for u :: u16
    by (simp add: word_less_nat_alt)
  show "(foldl (\<lambda>c u. c OR ucast (u :: u16)) (a :: u32) us < 0x10000) = (a < 0x10000)"
    by (induction us arbitrary: a) (simp_all add: step16 u16)
  show "(foldl (\<lambda>c u. c OR ucast u) a us < 0x100) = (a < 0x100 \<and> (\<forall>u \<in> set us. u < 0x100))"
    by (induction us arbitrary: a) (auto simp: step8 u8)
qed

lemma sb_appends_fail: "sb_inv ok s' \<Longrightarrow> sb_error s' \<noteq> None \<Longrightarrow> sb_appends ok be s us (Some (s', -1))"
  by (simp add: sb_appends_def)

context buffer_alloc
begin

lemma putc16_appends:
  assumes inv: "sb_inv ok s" and e: "sb_error s = None" and n: "sb_len s + 1 \<le> sb_limit" and c: "c < 0x10000"
  shows "sb_appends ok be s [ucast c] (string_buffer_putc16 be sa s c)"
proof -
  have room: "int (sb_len s + length [x]) \<le> sb_size s" if "int (sb_len s) < sb_size s" for x :: 'x using that by simp
  consider "int (sb_len s) < sb_size s" "sb_wide s" | "int (sb_len s) < sb_size s" "\<not> sb_wide s" "c < 0x100"
    | "\<not> (int (sb_len s) < sb_size s \<and> (sb_wide s \<or> c < 0x100))"
    by blast
  then show ?thesis
  proof cases
    case 1
    then show ?thesis
      using sb_write16_appends [of ok s "[ucast c]" be, OF inv e 1(2) room [OF 1(1)]]
      by (simp add: string_buffer_putc16_def sb_store16_eq)
  next
    case 2
    then show ?thesis
      using sb_write8_appends [of ok s "[ucast c]" be, OF inv e 2(2) room [OF 2(1)]] ucast_u32_narrow [OF 2(3)]
      by (simp add: string_buffer_putc16_def sb_store8_eq)
  next
    case 3
    then have "string_buffer_putc16 be sa s c = string_buffer_putc_slow be sa s c"
      by (auto simp: string_buffer_putc16_def)
    then show ?thesis using putc_slow_appends [OF assms] by simp
  qed
qed

lemma putc8_appends:
  assumes inv: "sb_inv ok s" and e: "sb_error s = None" and n: "sb_len s + 1 \<le> sb_limit" and c: "c < 0x100"
  shows "sb_appends ok be s [ucast c] (string_buffer_putc8 be sa s c)"
proof -
  have "c < 0x10000" using c by (simp add: word_less_nat_alt)
  then have narrow: "\<not> 0x100 \<le> sint c" using c sint_small by (simp add: not_le)
  have eq: "string_buffer_putc8 be sa s c = do {
     (s, r) \<leftarrow> ensure be s 1 c;
     if r \<noteq> 0 then Some (s, -1) else if sb_wide s then sb_store16 be s c else sb_store8 s c }"
    by (simp add: string_buffer_putc8_def ensure_def less_Suc_eq_le flip: of_nat_Suc)
  show ?thesis
  proof (cases rule: ensure_cases [OF inv e n, of be c])
    case (1 s')
    then show ?thesis by (simp add: eq sb_appends_fail del: One_nat_def)
  next
    case (2 s')
    have room: "int (sb_len s' + length [x]) \<le> sb_size s'" for x :: 'x using 2 by simp
    have "sb_appends ok be s' [ucast c] (if sb_wide s' then sb_store16 be s' c else sb_store8 s' c)"
      using sb_write16_appends [OF 2(2,3), of "[ucast c]" be] sb_write8_appends [OF 2(2,3), of "[ucast c]" be]
        room ucast_u32_narrow [OF c]
      by (simp add: sb_store16_eq sb_store8_eq)
    then show ?thesis by (simp add: eq 2(1) sb_appends_units_cong [OF 2(6)] del: One_nat_def)
  qed
qed

lemma putc_appends:
  assumes inv: "sb_inv ok s" and e: "sb_error s = None" and n: "sb_len s + 2 \<le> sb_limit" and c: "c < 0x110000"
  shows "sb_appends ok be s (utf16_of c) (string_buffer_putc be sa s c)"
proof (cases "c \<ge> 0x10000")
  case True
  then have c': "65536 \<le> unat c" "unat c < 1114112" using c by (simp_all add: word_le_nat_alt word_less_nat_alt)
  have "unat c div 1024 < 1088" "unat c mod 1024 < 1024" using c' by simp_all
  then have hi: "get_hi_surrogate c < 0x10000" and lo: "get_lo_surrogate c < 0x10000"
    by (simp_all add: word_less_nat_alt unat_get_hi_surrogate c' unat_get_lo_surrogate)
  have u: "utf16_of c = [ucast (get_hi_surrogate c)] @ [ucast (get_lo_surrogate c)]"
    using c' by (simp add: utf16_of_def word_less_nat_alt)
  have eq: "string_buffer_putc be sa s c = do {
        (s, r) \<leftarrow> string_buffer_putc16 be sa s (get_hi_surrogate c);
        if r \<noteq> 0 then Some (s, -1) else string_buffer_putc16 be sa s (get_lo_surrogate c) }"
    using True by (simp add: string_buffer_putc_def)
  show ?thesis
    unfolding u eq
  proof (rule sb_appends_trans)
    show "sb_appends ok be s [ucast (get_hi_surrogate c)] (string_buffer_putc16 be sa s (get_hi_surrogate c))"
      using inv e n hi by (intro putc16_appends) simp_all
    fix t assume t: "sb_inv ok t" "sb_error t = None" "sb_units be t = sb_units be s @ [ucast (get_hi_surrogate c)]"
    then have "sb_len t = sb_len s + 1"
      using sb_units_length [OF t(1,2)] sb_units_length [OF inv e] by (metis length_append length_Cons list.size(3) One_nat_def)
    then show "sb_appends ok be t [ucast (get_lo_surrogate c)] (string_buffer_putc16 be sa t (get_lo_surrogate c))"
      using t lo n by (intro putc16_appends) simp_all
  qed
next
  case False
  then have "c < 0x10000" "\<not> c > 0xFFFF" by (simp_all add: word_less_nat_alt word_le_nat_alt)
  then show ?thesis
    using putc16_appends [OF inv e, of c be] n False by (simp add: string_buffer_putc_def utf16_of_def)
qed

lemma write8_appends:
  assumes inv: "sb_inv ok s" and e: "sb_error s = None" and n: "sb_len s + length p \<le> sb_limit"
  shows "sb_appends ok be s (map ucast p) (string_buffer_write8 be sa s p)"
proof -
  have eq: "string_buffer_write8 be sa s p = do {
     (s, r) \<leftarrow> ensure be s (length p) 0;
     if r \<noteq> 0 then Some (s, -1) else if sb_wide s then sb_write16 be s (map ucast p) else sb_write8 s p }"
    by (simp add: string_buffer_write8_def ensure_def)
  show ?thesis
  proof (cases rule: ensure_cases [OF inv e n, of be 0])
    case (1 s')
    then show ?thesis by (simp add: eq sb_appends_fail)
  next
    case (2 s')
    have "sb_appends ok be s' (map ucast p) (if sb_wide s' then sb_write16 be s' (map ucast p) else sb_write8 s' p)"
      using sb_write16_appends [OF 2(2,3), of "map ucast p" be] sb_write8_appends [OF 2(2,3), of p be] 2(4,5)
      by simp
    then show ?thesis by (simp add: eq 2(1) sb_appends_units_cong [OF 2(6)])
  qed
qed

lemma write16_appends:
  assumes inv: "sb_inv ok s" and e: "sb_error s = None" and n: "sb_len s + length p \<le> sb_limit"
  shows "sb_appends ok be s p (string_buffer_write16 be sa s p)"
proof -
  define c where "c = foldl (\<lambda>c u. c OR ucast u) (0 :: u32) p"
  have "c < 0x10000" unfolding c_def or_wide_small(1) by simp
  then have sint: "(0x100 \<le> sint c) = (0x100 \<le> c)" by (rule sint_small)
  have narrow: "map ucast (map ucast p :: u8 list) = p" if "\<not> 0x100 \<le> c"
  proof (rule map_ucast_narrow)
    have "c < 0x100" using that by simp
    then show "\<forall>u \<in> set p. u \<le> 0xFF"
      unfolding c_def or_wide_small(2) by (auto simp: word_less_nat_alt word_le_nat_alt)
  qed
  have store: "sb_appends ok be t p (if sb_wide t then sb_write16 be t p else sb_write8 t (map ucast p))"
    if "sb_inv ok t" "sb_error t = None" "int (sb_len t + length p) \<le> sb_size t" "sb_wide t \<or> \<not> 0x100 \<le> c" for t
    using sb_write16_appends [OF that(1,2), of p be] sb_write8_appends [OF that(1,2), of "map ucast p" be] that(3,4) narrow
    by auto
  let ?room = "if int (sb_len s + length p) > sb_size s then string_buffer_realloc be sa s (sb_len s + length p) c
               else if \<not> sb_wide s \<and> c \<ge> 0x100 then string_buffer_widen be sa s (sb_size s) else Some (s, 0)"
  have eq: "string_buffer_write16 be sa s p = do {
     (s, r) \<leftarrow> ?room;
     if r \<noteq> 0 then Some (s, -1) else if sb_wide s then sb_write16 be s p else sb_write8 s (map ucast p) }"
    by (simp add: string_buffer_write16_def Let_def c_def)
  have "(\<exists>t. ?room = Some (t, -1) \<and> sb_inv ok t \<and> sb_error t \<noteq> None) \<or>
    (\<exists>t. ?room = Some (t, 0) \<and> sb_inv ok t \<and> sb_error t = None \<and> sb_units be t = sb_units be s \<and>
       int (sb_len t + length p) \<le> sb_size t \<and> (sb_wide t \<or> \<not> 0x100 \<le> c))"
  proof (cases "int (sb_len s + length p) \<le> sb_size s \<and> \<not> sb_wide s \<and> c \<ge> 0x100")
    case True
    have "0 < length p" using True by (cases p) (auto simp: c_def)
    then have "0 < sb_size s" using True by linarith
    then have sz: "int (sb_len s) \<le> sb_size s" "0 < sb_size s" "sb_size s \<le> 2 ^ 30"
      using True inv e by (auto simp: sb_inv_def JS_STRING_LEN_MAX_def)
    then show ?thesis
      using widen_cases [OF inv e _ sz, of be] True by (smt (verit, best))
  next
    case False
    then have "?room = ensure be s (length p) c" by (auto simp: ensure_def)
    then show ?thesis
      using ensure_cases [OF inv e n, of be c] False sint inv e by (smt (verit, best))
  qed
  then consider (failed) t where "?room = Some (t, -1)" "sb_inv ok t" "sb_error t \<noteq> None"
    | (roomy) t where "?room = Some (t, 0)" "sb_inv ok t" "sb_error t = None" "sb_units be t = sb_units be s"
       "int (sb_len t + length p) \<le> sb_size t" "sb_wide t \<or> \<not> 0x100 \<le> c"
    by blast
  then show ?thesis
  proof cases
    case (failed t)
    then show ?thesis unfolding eq by (simp add: sb_appends_fail)
  next
    case t: (roomy t)
    show ?thesis
      unfolding eq t(1) using sb_appends_units_cong [OF t(4) store [OF t(2,3,5,6)]] by simp
  qed
qed

end

context buffer_alloc
begin

lemma concat_appends:
  assumes inv: "sb_inv ok s" and e: "sb_error s = None" and p: "str_ok p" "fin \<le> str_len p"
    and n: "sb_len s + (fin - start) \<le> sb_limit"
  shows "sb_appends ok be s (take (fin - start) (drop start (str_units be p))) (string_buffer_concat be sa s p start fin)"
proof (cases "fin \<le> start")
  case True
  then show ?thesis using inv e by (simp add: string_buffer_concat_def sb_appends_def)
next
  case False
  then have r: "start + (fin - start) \<le> str_len p" using p(2) by simp
  show ?thesis
  proof (cases "str_wide p")
    case True
    let ?us = "take (fin - start) (drop start (str_units be p))"
    have "length ?us = fin - start" using p False by simp
    then have "sb_appends ok be s ?us (string_buffer_write16 be sa s ?us)"
      using n by (intro write16_appends [OF inv e]) simp
    then show ?thesis
      using False True str16_read_units [OF p(1) True r, of be] by (simp add: string_buffer_concat_def)
  next
    case narrow: False
    obtain bs where bs: "str8_read (str_block p) start (fin - start) = Some bs" "length bs = fin - start"
      "map ucast bs = take (fin - start) (drop start (str_units be p))"
      using str8_read_units [OF p(1) narrow r] by metis
    have "sb_appends ok be s (map ucast bs) (string_buffer_write8 be sa s bs)"
      using n bs(2) by (intro write8_appends [OF inv e]) simp
    then show ?thesis using False narrow bs by (simp add: string_buffer_concat_def)
  qed
qed

lemma fill_loop_appends:
  assumes "sb_inv ok s" "sb_error s = None" "sb_len s + cnt \<le> sb_limit" "c < 0x10000"
  shows "sb_appends ok be s (replicate cnt (ucast c)) (sb_fill_loop be sa s c cnt)"
  using assms(1-3)
proof (induction cnt arbitrary: s)
  case 0
  then show ?case by (simp add: sb_appends_def)
next
  case (Suc cnt)
  have "sb_appends ok be s ([ucast c] @ replicate cnt (ucast c)) (sb_fill_loop be sa s c (Suc cnt))"
    unfolding sb_fill_loop.simps
  proof (rule sb_appends_trans)
    show "sb_appends ok be s [ucast c] (string_buffer_putc16 be sa s c)"
      using Suc.prems assms(4) by (intro putc16_appends) simp_all
    fix t assume t: "sb_inv ok t" "sb_error t = None" "sb_units be t = sb_units be s @ [ucast c]"
    have "sb_len t = sb_len s + 1"
      using sb_units_length [OF t(1,2), of be] sb_units_length [OF Suc.prems(1,2), of be] t(3) by simp
    then show "sb_appends ok be t (replicate cnt (ucast c)) (sb_fill_loop be sa t c cnt)"
      using Suc.prems t by (intro Suc.IH) simp_all
  qed
  then show ?case by simp
qed

lemma fill_appends:
  assumes inv: "sb_inv ok s" and e: "sb_error s = None" and n: "sb_len s + cnt \<le> sb_limit" and c: "c < 0x10000"
  shows "sb_appends ok be s (replicate cnt (ucast c)) (string_buffer_fill be sa s c cnt)"
proof -
  have eq: "string_buffer_fill be sa s c cnt = do {
     (s, r) \<leftarrow> ensure be s cnt c; if r \<noteq> 0 then Some (s, -1) else sb_fill_loop be sa s c cnt }"
    by (simp add: string_buffer_fill_def ensure_def)
  show ?thesis
  proof (cases rule: ensure_cases [OF inv e n, of be c])
    case (1 s')
    then show ?thesis by (simp add: eq sb_appends_fail)
  next
    case (2 s')
    have "sb_appends ok be s' (replicate cnt (ucast c)) (sb_fill_loop be sa s' c cnt)"
      using 2 n c by (intro fill_loop_appends) simp_all
    then show ?thesis by (simp add: eq 2(1) sb_appends_units_cong [OF 2(6)])
  qed
qed

end

subsection \<open>Any sequence of operations\<close>

text \<open>
  A client of the buffer performs operations one after another and may ignore their results;
  after a failure they do nothing.
\<close>

datatype sb_op = Putc8 u32 | Putc16 u32 | Putc u32 | Write8 "u8 list" | Write16 "u16 list"
  | Concat js_string nat nat | Fill u32 nat

fun sb_exec :: "bool \<Rightarrow> 'h str_realloc \<Rightarrow> 'h string_buffer \<Rightarrow> sb_op \<Rightarrow> 'h sb_result" where
  "sb_exec be sa s (Putc8 c) = string_buffer_putc8 be sa s c"
| "sb_exec be sa s (Putc16 c) = string_buffer_putc16 be sa s c"
| "sb_exec be sa s (Putc c) = string_buffer_putc be sa s c"
| "sb_exec be sa s (Write8 p) = string_buffer_write8 be sa s p"
| "sb_exec be sa s (Write16 p) = string_buffer_write16 be sa s p"
| "sb_exec be sa s (Concat p start fin) = string_buffer_concat be sa s p start fin"
| "sb_exec be sa s (Fill c n) = string_buffer_fill be sa s c n"

fun sb_op_ok :: "sb_op \<Rightarrow> bool" where
  "sb_op_ok (Putc8 c) = (c < 0x100)"
| "sb_op_ok (Putc16 c) = (c < 0x10000)"
| "sb_op_ok (Putc c) = (c < 0x110000)"
| "sb_op_ok (Concat p start fin) = (str_ok p \<and> fin \<le> str_len p)"
| "sb_op_ok (Fill c n) = (c < 0x10000)"
| "sb_op_ok _ = True"

fun sb_op_units :: "bool \<Rightarrow> sb_op \<Rightarrow> u16 list" where
  "sb_op_units be (Putc8 c) = [ucast c]"
| "sb_op_units be (Putc16 c) = [ucast c]"
| "sb_op_units be (Putc c) = utf16_of c"
| "sb_op_units be (Write8 p) = map ucast p"
| "sb_op_units be (Write16 p) = p"
| "sb_op_units be (Concat p start fin) = take (fin - start) (drop start (str_units be p))"
| "sb_op_units be (Fill c n) = replicate n (ucast c)"

fun sb_run :: "bool \<Rightarrow> 'h str_realloc \<Rightarrow> 'h string_buffer \<Rightarrow> sb_op list \<Rightarrow> 'h string_buffer option" where
  "sb_run be sa s [] = Some s"
| "sb_run be sa s (x # xs) = do { (s, r) \<leftarrow> sb_exec be sa s x; sb_run be sa s xs }"

definition sb_ops_units :: "bool \<Rightarrow> sb_op list \<Rightarrow> u16 list" where
  "sb_ops_units be xs = concat (map (sb_op_units be) xs)"

text \<open>Room the operations may need: \<open>Putc\<close> of a small code point is counted as two units.\<close>

fun sb_op_cost :: "sb_op \<Rightarrow> nat" where
  "sb_op_cost (Putc8 c) = 1"
| "sb_op_cost (Putc16 c) = 1"
| "sb_op_cost (Putc c) = 2"
| "sb_op_cost (Write8 p) = length p"
| "sb_op_cost (Write16 p) = length p"
| "sb_op_cost (Concat p start fin) = fin - start"
| "sb_op_cost (Fill c n) = n"

lemma length_utf16_of_le: "length (utf16_of c) \<le> 2"
  by (simp add: utf16_of_def)

lemma sb_op_units_cost: "length (sb_op_units be x) \<le> sb_op_cost x"
  by (cases x) (simp_all add: length_utf16_of_le)

context buffer_alloc
begin

lemma exec_appends:
  assumes "sb_inv ok s" "sb_error s = None" "sb_len s + sb_op_cost x \<le> sb_limit" "sb_op_ok x"
  shows "sb_appends ok be s (sb_op_units be x) (sb_exec be sa s x)"
  using assms
  by (cases x) (simp_all add: putc8_appends putc16_appends putc_appends write8_appends write16_appends
      concat_appends fill_appends)

lemma failed_putc16: "sb_inv ok s \<Longrightarrow> sb_error s \<noteq> None \<Longrightarrow> string_buffer_putc16 be sa s c = Some (s, -1)"
  using failed_inv [of s] by (auto simp: string_buffer_putc16_def string_buffer_putc_slow_def failed_realloc)

lemma failed_write8: "sb_inv ok s \<Longrightarrow> sb_error s \<noteq> None \<Longrightarrow> \<exists>k. string_buffer_write8 be sa s p = Some (s, k)"
  using failed_inv [of s]
  by (cases p) (auto simp: string_buffer_write8_def failed_realloc sb_write8_def sb_write16_def)

lemma failed_write16: "sb_inv ok s \<Longrightarrow> sb_error s \<noteq> None \<Longrightarrow> \<exists>k. string_buffer_write16 be sa s p = Some (s, k)"
  using failed_inv [of s]
  by (cases p) (auto simp: string_buffer_write16_def failed_realloc sb_write8_def sb_write16_def Let_def)

lemma failed_exec:
  assumes inv: "sb_inv ok s" "sb_error s \<noteq> None" and x: "sb_op_ok x"
  shows "\<exists>k. sb_exec be sa s x = Some (s, k)"
proof (cases x)
  case (Putc8 c)
  then show ?thesis using failed_inv [OF inv] inv by (auto simp: string_buffer_putc8_def failed_realloc)
next
  case (Concat p start fin)
  have r: "start + (fin - start) \<le> str_len p" if "\<not> fin \<le> start" using x Concat that by simp
  show ?thesis
  proof (cases "fin \<le> start")
    case False
    obtain us where "str_wide p \<Longrightarrow> str16_read be (str_block p) start (fin - start) = Some us"
      using str16_read_units [of p start "fin - start" be] r [OF False] x Concat by auto
    moreover obtain bs where "\<not> str_wide p \<Longrightarrow> str8_read (str_block p) start (fin - start) = Some bs"
      using str8_read_units [of p start "fin - start" be] r [OF False] x Concat by fastforce
    ultimately show ?thesis
      using Concat False failed_write8 [OF inv, of be bs] failed_write16 [OF inv, of be us]
      by (cases "str_wide p") (simp_all add: string_buffer_concat_def)
  qed (simp add: Concat string_buffer_concat_def)
next
  case (Fill c n)
  then show ?thesis using failed_inv [OF inv] inv
    by (cases n) (auto simp: string_buffer_fill_def failed_realloc)
qed (use failed_putc16 [OF inv] failed_write8 [OF inv] failed_write16 [OF inv] in
      \<open>auto simp: string_buffer_putc_def\<close>)

lemma run_appends:
  assumes "sb_inv ok s" "\<forall>x \<in> set xs. sb_op_ok x"
    and "sb_error s = None \<Longrightarrow> sb_len s + sum_list (map sb_op_cost xs) \<le> sb_limit"
  shows "\<exists>t. sb_run be sa s xs = Some t \<and> sb_inv ok t \<and> (sb_error s \<noteq> None \<longrightarrow> sb_error t \<noteq> None) \<and>
    (sb_error t = None \<longrightarrow> sb_units be t = sb_units be s @ sb_ops_units be xs)"
  using assms
proof (induction xs arbitrary: s)
  case Nil
  then show ?case by (simp add: sb_ops_units_def)
next
  case (Cons x xs)
  show ?case
  proof (cases "sb_error s = None")
    case True
    have "sb_appends ok be s (sb_op_units be x) (sb_exec be sa s x)"
      using Cons.prems True by (intro exec_appends) simp_all
    then obtain t k where t: "sb_exec be sa s x = Some (t, k)" "sb_inv ok t"
      "sb_error t = None \<Longrightarrow> sb_units be t = sb_units be s @ sb_op_units be x"
      by (auto simp: sb_appends_def)
    have "sb_len t + sum_list (map sb_op_cost xs) \<le> sb_limit" if "sb_error t = None"
    proof -
      have "sb_len t = sb_len s + length (sb_op_units be x)"
        using sb_units_length [OF t(2) that, of be] sb_units_length [OF Cons.prems(1) True, of be] t(3) [OF that] by simp
      then show ?thesis using Cons.prems(3) [OF True] sb_op_units_cost [of be x] by simp
    qed
    from Cons.IH [OF t(2) _ this] Cons.prems(2) t True show ?thesis
      by (auto simp: sb_ops_units_def)
  next
    case False
    then obtain k where "sb_exec be sa s x = Some (s, k)"
      using failed_exec Cons.prems by (metis list.set_intros(1))
    with Cons.IH [of s] Cons.prems False show ?thesis by auto
  qed
qed

end

subsection \<open>From init to end\<close>

context buffer_alloc
begin

lemma init_cases:
  assumes "ok h" "n \<le> JS_STRING_LEN_MAX"
  obtains s k where "string_buffer_init2 sa h n w = (s, k)" "sb_inv ok s" "sb_units be s = []"
    "sb_error s = None \<longrightarrow> sb_len s = 0"
proof -
  have okh: "ok (fst (js_alloc_string sa h n w))"
    using sa_ok [OF assms(1)] by (auto simp: js_alloc_string_def split: prod.splits option.splits)
  show ?thesis
  proof (cases rule: alloc_string_cases [OF assms(2), of h w])
    case (1 h')
    then show ?thesis
      using okh by (intro that) (auto simp: string_buffer_init2_def sb_inv_def sb_units_def)
  next
    case (2 h' b)
    then have "if w then 2 * int n \<le> int (payload_size b) else int n + 1 \<le> int (payload_size b)" by (auto split: if_splits)
    then show ?thesis
      using okh 2 assms(2) by (intro that) (auto simp: string_buffer_init2_def sb_inv_def sb_units_def INT_MAX_def JS_STRING_LEN_MAX_def)
  qed
qed

lemma init_state:
  assumes "ok h" "n \<le> JS_STRING_LEN_MAX"
  shows "\<exists>s k. string_buffer_init2 sa h n w = (s, k) \<and> sb_inv ok s \<and> sb_units be s = [] \<and>
    (sb_error s = None \<longrightarrow> sb_len s = 0)"
  by (rule init_cases [OF assms, where w = w and be = be]) simp

text \<open>Shrinking keeps the contents; the terminator goes into the byte after them.\<close>

lemma end_string:
  assumes inv: "sb_inv ok s" and e: "sb_error s = None" and n: "sb_len s \<le> JS_STRING_LEN_MAX"
  shows "\<exists>h p. string_buffer_end sa s = Some (h, Inr p) \<and> str_ok p \<and> str_units be p = sb_units be s"
proof (cases "sb_len s = 0")
  case True
  then have "sb_units be s = []" using sb_units_length [OF inv e, of be] by simp
  with True e show ?thesis by (simp add: string_buffer_end_def)
next
  case False
  define w where "w = sb_wide s"
  define l where "l = (if w then 2 * sb_len s else sb_len s)"
  define k where "k = str_alloc_size (sb_len s) w"
  obtain b where b: "sb_str s = Some b" "int (sb_len s) \<le> sb_size s" "ok (sb_heap s)"
    "if w then 2 * sb_size s \<le> int (payload_size b) else sb_size s + 1 \<le> int (payload_size b)"
    using inv e by (auto simp: sb_inv_def w_def)
  have pb: "(if w then l \<le> payload_size b else l < payload_size b)"
    using b(2,4) by (auto simp: l_def)
  define r where "r = (if int (sb_len s) < sb_size s
      then (case sa (sb_heap s) (sb_str s) k of (h, None) \<Rightarrow> Some (h, sb_str s) | (h, Some str) \<Rightarrow> Some (h, Some str))
      else Some (sb_heap s, sb_str s))"
  have "\<exists>h q. r = Some (h, Some q) \<and> (if w then l \<le> payload_size q else l < payload_size q) \<and>
      (\<forall>i < l. byte_at q i = byte_at b i)"
  proof (cases "int (sb_len s) < sb_size s \<and> snd (sa (sb_heap s) (sb_str s) k) \<noteq> None")
    case True
    then obtain h q where q: "sa (sb_heap s) (sb_str s) k = (h, Some q)" by (cases "sa (sb_heap s) (sb_str s) k") auto
    have k: "0 < k" "k < 2 ^ 32"
      using n by (simp_all add: k_def str_alloc_size_def sizeof_JSString_def JS_STRING_LEN_MAX_def)
    have len: "k \<le> length (cells q)" by (rule sa_size [OF k q])
    have kl: "k = sizeof_JSString + l + (if w then 0 else 1)" by (simp add: k_def str_alloc_size_def l_def)
    have keep: "byte_at q i = byte_at b i" if "i < l" for i
    proof (rule byte_at_keep [where k = "sizeof_JSString + l"])
      have lb: "sizeof_JSString + l \<le> length (cells b)"
        using pb that by (simp add: payload_size_def split: if_splits)
      then show "sizeof_JSString + l \<le> length (cells b)" .
      show "take (sizeof_JSString + l) (cells q) = take (sizeof_JSString + l) (cells b)"
        using sa_keeps [OF k q, of "sizeof_JSString + l"] kl lb b(1) by simp
      show "sizeof_JSString + l \<le> length (cells q)" using len kl by simp
    qed (use that in simp)
    have "if w then l \<le> payload_size q else l < payload_size q"
      using len kl by (cases w) (auto simp: payload_size_def)
    with True q keep show ?thesis by (auto simp: r_def)
  next
    case False
    then have "\<exists>h. r = Some (h, Some b)"
      using b(1) by (cases "sa (sb_heap s) (sb_str s) k") (auto simp: r_def)
    with pb show ?thesis by blast
  qed
  then obtain h q where q: "r = Some (h, Some q)" "if w then l \<le> payload_size q else l < payload_size q"
    "\<And>i. i < l \<Longrightarrow> byte_at q i = byte_at b i"
    by blast
  have units: "buf_units be w q (sb_len s) = sb_units be s"
    using buf_units_cong [of w "sb_len s" q b be] q(3) b(1) by (simp add: l_def sb_units_def w_def)
  have eq: "string_buffer_end sa s = do {
      (h, str) \<leftarrow> r; b \<leftarrow> str; b \<leftarrow> (if \<not> w then str8_put b (sb_len s) 0 else Some b);
      Some (h, Inr \<lparr>str_block = b, str_len = sb_len s, str_wide = w\<rparr>) }"
    using False e by (simp add: string_buffer_end_def r_def k_def w_def)
  show ?thesis
  proof (cases w)
    case True
    then show ?thesis
      using units q(2) n by (simp add: eq q(1) str_ok_def str_units_def l_def)
  next
    case nw: False
    then have "sb_len s < payload_size q" using q(2) by (simp add: l_def)
    then obtain d where d: "str8_put q (sb_len s) 0 = Some d" "payload_size d = payload_size q"
      "\<And>j. byte_at d j = (if j = sb_len s then 0 else byte_at q j)"
      by (rule str8_put_eq [where v = 0]) blast
    have "buf_units be False d (sb_len s) = buf_units be False q (sb_len s)"
      by (rule buf_units_cong) (simp add: d(3))
    then show ?thesis
      using units d(1,2) d(3) [of "sb_len s"] q(2) n nw by (simp add: eq q(1) str_ok_def str_units_def l_def)
  qed
qed

lemma init_run_end:
  assumes "ok h" "n \<le> JS_STRING_LEN_MAX" "\<forall>x \<in> set xs. sb_op_ok x" "sum_list (map sb_op_cost xs) \<le> sb_limit"
  shows "\<exists>h' r. (do { t \<leftarrow> sb_run be sa (fst (string_buffer_init2 sa h n w)) xs; string_buffer_end sa t }) = Some (h', r) \<and>
    (case r of Inl e \<Rightarrow> True | Inr p \<Rightarrow> str_ok p \<and> str_units be p = sb_ops_units be xs)"
proof -
  obtain s k where s: "string_buffer_init2 sa h n w = (s, k)" "sb_inv ok s" "sb_units be s = []"
    "sb_error s = None \<longrightarrow> sb_len s = 0"
    using init_state [OF assms(1,2), of w be] by auto
  obtain t where t: "sb_run be sa s xs = Some t" "sb_inv ok t"
    "sb_error t = None \<Longrightarrow> sb_units be t = sb_ops_units be xs"
    using run_appends [OF s(2) assms(3), of be] s(3,4) assms(4) by (cases "sb_error s") auto
  show ?thesis
  proof (cases "sb_error t")
    case None
    have "length (sb_ops_units be xs) \<le> sum_list (map sb_op_cost xs)"
      by (induction xs) (simp_all add: sb_ops_units_def add_mono sb_op_units_cost)
    then have "sb_len t \<le> JS_STRING_LEN_MAX"
      using sb_units_length [OF t(2) None, of be] t(3) [OF None] assms(4)
      by (simp add: sb_limit_def JS_STRING_LEN_MAX_def)
    from end_string [OF t(2) None this, of be] t(1,3) s(1) None show ?thesis by auto
  qed (use s(1) t(1) in \<open>auto simp: string_buffer_end_def\<close>)
qed

end

subsection \<open>On the engine's allocator\<close>

text \<open>The C library reports usable sizes less than 1 GiB above the request.\<close>

definition modest_slack :: "libc_heap malloc_state \<Rightarrow> bool" where
  "modest_slack st \<longleftrightarrow> (\<forall>n. unat (chunk_size (malloc_opaque st) n) < unat n + 2 ^ 30)"

lemma js_realloc2_opaque:
  "js_realloc2 def_malloc_funcs fill st p n = (st', r) \<Longrightarrow> malloc_opaque st' = malloc_opaque st"
  by (auto simp: js_realloc2_def js_realloc_rt_def js_malloc_rt_def js_free_rt_def Let_def js_def_malloc_def
      js_def_realloc_def js_def_free_def libc_malloc_def libc_realloc_def split: option.splits prod.splits if_splits)

lemma js_realloc2_slack:
  assumes "modest_slack st" "0 < n" "n < 2 ^ 32" "js_realloc2 def_malloc_funcs fill st p n = (st', Some q)"
  shows "length (cells q) < n + 2 ^ 30"
proof -
  have w: "(word_of_nat n :: u64) \<noteq> 0" "unat (word_of_nat n :: u64) = n"
    using assms(2,3) by (simp_all add: unsigned_of_nat take_bit_nat_eq_self word_of_nat_eq_0_iff nat_dvd_not_less)
  obtain st1 q1 where r: "js_realloc_rt def_malloc_funcs st p (word_of_nat n) = Some (st1, Some q1)"
    "q = q1\<lparr>cells := cells q1 @ replicate (if unat (usable q1) > n then unat (usable q1) - n else 0) fill\<rparr>"
    using assms(4) by (auto simp: js_realloc2_def Let_def split: option.splits prod.splits)
  have "length (cells q1) = n"
    using def_malloc.js_rt.realloc_length [unfolded js_dbuf_realloc_def, OF w(1) r(1)] w by simp
  moreover have "usable q1 = chunk_size (malloc_opaque st) (word_of_nat n)"
    using r(1) w(1) by (auto simp: js_realloc_rt_def js_malloc_rt_def Let_def js_def_malloc_def
      js_def_realloc_def libc_malloc_def libc_realloc_def split: option.splits prod.splits if_splits)
  moreover have "unat (chunk_size (malloc_opaque st) (word_of_nat n)) < n + 2 ^ 30"
    using assms(1) w(2) by (metis modest_slack_def)
  ultimately show ?thesis using r(2) by auto
qed

interpretation def_buffer: buffer_alloc "js_realloc2 def_malloc_funcs fill" modest_slack for fill
proof (unfold_locales, goal_cases)
  case (1 h p n h' r)
  then show ?case using js_realloc2_opaque [of fill h p n h' r] by (simp add: modest_slack_def)
next
  case (2 h n p h' q)
  then show ?case by (intro js_realloc2_slack)
qed

text \<open>
  C19.  A string built in a \<open>StringBuffer\<close> by any sequence of operations, of any initial size
  and width, with the default allocator in any state, is the concatenation of the units each
  operation was given.  The client may ignore the results of the single operations: the end
  reports an error, or the whole string.  No access leaves a block, and no arithmetic on
  \<open>int\<close> overflows, as long as the contents stay below 715827882 units.
\<close>

theorem string_buffer_builds:
  assumes "modest_slack h" "n \<le> JS_STRING_LEN_MAX" "\<forall>x \<in> set xs. sb_op_ok x"
    "sum_list (map sb_op_cost xs) \<le> sb_limit"
  shows "\<exists>h' r. (do { t \<leftarrow> sb_run be (js_realloc2 def_malloc_funcs fill)
          (fst (string_buffer_init2 (js_realloc2 def_malloc_funcs fill) h n w)) xs;
        string_buffer_end (js_realloc2 def_malloc_funcs fill) t }) = Some (h', r) \<and>
    (case r of Inl e \<Rightarrow> True | Inr p \<Rightarrow> str_ok p \<and> str_units be p = sb_ops_units be xs)"
  by (rule def_buffer.init_run_end [OF assms])

lemma string_buffer_builds_witness:
  "\<exists>h' r. (do { t \<leftarrow> sb_run False (js_realloc2 def_malloc_funcs 0)
        (fst (string_buffer_init2 (js_realloc2 def_malloc_funcs 0) example_state 1 False))
        [Putc8 0x61, Write8 [0x62, 0x63], Putc 0x1F600];
      string_buffer_end (js_realloc2 def_malloc_funcs 0) t }) = Some (h', r)"
  using string_buffer_builds [of example_state 1 "[Putc8 0x61, Write8 [0x62, 0x63], Putc 0x1F600]" False 0 False]
  by (fastforce simp: modest_slack_def example_state_def JS_STRING_LEN_MAX_def sb_limit_def word_less_nat_alt)

end
