(* ===== verification/Js_String_Utf8.thy ===== *)
theory Js_String_Utf8
  imports Js_String_Ops
begin

section \<open>Strings from and to UTF-8\<close>

text \<open>
  \<open>JS_NewStringLen\<close>, which creates a string from a buffer of bytes, and the conversion in
  \<open>JS_ToCStringLen2\<close>, which exports one (src/quickjs/quickjs.c), on top of the buffer
  functions of cutils.c.  The array \<open>u.str8\<close> or \<open>u.str16\<close> of a fresh block is handed
  to a decoder as the list of its elements.
\<close>

subsection \<open>Operations\<close>

definition JS_NewStringLen :: "bool \<Rightarrow> 'h str_realloc \<Rightarrow> 'h \<Rightarrow> u8 list \<Rightarrow> nat \<Rightarrow> 'h str_result" where
  "JS_NewStringLen be sa h buf buf_len =
     (if buf_len = 0 then Some (h, Inr empty_string)
      else do {
        (kind, len) \<leftarrow> utf8_scan buf buf_len;
        if len > JS_STRING_LEN_MAX then Some (h, Inl RangeError)
        else if kind = UTF8_PLAIN_ASCII then
          fill_string (\<lambda>b. do {
              bs \<leftarrow> mem_read buf 0 len;
              b \<leftarrow> str8_write b 0 bs;
              str8_put b len 0 })
            (js_alloc_string sa h len False)
        else if kind = UTF8_NON_ASCII then
          fill_string (\<lambda>b. do {
              dest \<leftarrow> str8_read b 0 (len + 1);
              (dest, k) \<leftarrow> utf8_decode_buf8 dest (len + 1) buf buf_len;
              str8_write b 0 dest })
            (js_alloc_string sa h len False)
        else
          fill_string (\<lambda>b. do {
              dest \<leftarrow> str16_read be b 0 len;
              (dest, k) \<leftarrow> utf8_decode_buf16 dest len buf buf_len;
              str16_write be b 0 dest })
            (js_alloc_string sa h len True) })"

text \<open>
  The conversion loops of \<open>JS_ToCStringLen2\<close> store at \<open>q\<close>, an index of the new string's bytes.
\<close>

fun to_cstring8_loop :: "block \<Rightarrow> nat \<Rightarrow> u8 list \<Rightarrow> (block \<times> nat) option" where
  "to_cstring8_loop b q [] = Some (b, q)"
| "to_cstring8_loop b q (c # src) =
     (if c < 0x80 then do { b \<leftarrow> str8_put b q c; to_cstring8_loop b (q + 1) src }
      else do {
        b \<leftarrow> str8_put b q (ucast ((drop_bit 6 (ucast c :: u32)) OR 0xC0));
        b \<leftarrow> str8_put b (q + 1) (ucast (((ucast c :: u32) AND 0x3F) OR 0x80));
        to_cstring8_loop b (q + 2) src })"

text \<open>A position of the source, its character and the position after it.\<close>

definition next_cstring16 :: "u16 list \<Rightarrow> bool \<Rightarrow> nat \<Rightarrow> (u32 \<times> nat) option" where
  "next_cstring16 src cesu8 pos = do {
     u \<leftarrow> mem_get src pos;
     let c = (ucast u :: u32);
     if c < 0x80 then Some (c, pos + 1)
     else if is_hi_surrogate c \<and> pos + 1 < length src \<and> \<not> cesu8 then do {
       v \<leftarrow> mem_get src (pos + 1);
       if is_lo_surrogate (ucast v) then Some (from_surrogate c (ucast v), pos + 2)
       else Some (c, pos + 1) }
     else Some (c, pos + 1) }"

lemma next_cstring16_progress: "next_cstring16 src cesu8 pos = Some (c, k) \<Longrightarrow> pos < k"
  by (auto simp: next_cstring16_def Let_def split: if_splits bind_splits)

function to_cstring16_loop :: "block \<Rightarrow> nat \<Rightarrow> u16 list \<Rightarrow> bool \<Rightarrow> nat \<Rightarrow> (block \<times> nat) option" where
  "to_cstring16_loop b q src cesu8 pos =
     (if pos < length src then do {
        (c, k) \<leftarrow> next_cstring16 src cesu8 pos;
        if c < 0x80 then do { b \<leftarrow> str8_put b q (ucast c); to_cstring16_loop b (q + 1) src cesu8 k }
        else do {
          b \<leftarrow> str8_write b q (utf8_encode c);
          to_cstring16_loop b (q + length (utf8_encode c)) src cesu8 k } }
      else Some (b, q))"
  by pat_completeness auto
termination
  by (relation "measure (\<lambda>(b, q, src, cesu8, pos). length src - pos)") (auto dest: next_cstring16_progress)

declare to_cstring16_loop.simps [simp del]

text \<open>
  The part of \<open>JS_ToCStringLen2\<close> from the label \<open>go\<close>: the result is the string whose bytes are
  the C string, and the length.  \<open>len * 3\<close> is an \<open>int\<close>.
\<close>

definition JS_ToCStringLen2 ::
    "bool \<Rightarrow> 'h str_realloc \<Rightarrow> 'h \<Rightarrow> js_string \<Rightarrow> bool \<Rightarrow> ('h \<times> (js_error + js_string)) option" where
  "JS_ToCStringLen2 be sa h str cesu8 =
     (let len = str_len str;
          finish = (\<lambda>(h, p) r. do {
            (b, q) \<leftarrow> r;
            b \<leftarrow> str8_put b q 0;
            Some (h, Inr (p\<lparr>str_block := b, str_len := q\<rparr>)) })
      in if \<not> str_wide str then do {
           src \<leftarrow> str8_read (str_block str) 0 len;
           let k = sum_list (map (\<lambda>c. unat (drop_bit 7 c)) src);
           if k = 0 then Some (h, Inr str)
           else (case js_alloc_string sa h (len + k) False of
             (h, Inl e) \<Rightarrow> Some (h, Inl e)
           | (h, Inr p) \<Rightarrow> finish (h, p) (to_cstring8_loop (str_block p) 0 src)) }
         else if 3 * len \<ge> 2 ^ 31 then None
         else do {
           src \<leftarrow> str16_read be (str_block str) 0 len;
           (case js_alloc_string sa h (len * 3) False of
             (h, Inl e) \<Rightarrow> Some (h, Inl e)
           | (h, Inr p) \<Rightarrow> finish (h, p) (to_cstring16_loop (str_block p) 0 src cesu8 0)) })"

subsection \<open>Filling a fresh string\<close>

lemma str8_write_append:
  "str8_write b i (xs @ ys) = do { b \<leftarrow> str8_write b i xs; str8_write b (i + length xs) ys }"
  by (induction b i xs rule: str8_write.induct) (auto split: bind_split)

context string_alloc
begin

lemma fill_string8:
  assumes "length bs \<le> n" "n \<le> JS_STRING_LEN_MAX"
  obtains (fail) h' where "js_alloc_string sa h n False = (h', Inl OutOfMemory)"
  | (ok) h' p c where "js_alloc_string sa h n False = (h', Inr p)" "str_len p = n" "\<not> str_wide p"
      "str8_write (str_block p) 0 (bs @ [0]) = Some c"
      "str_ok (p\<lparr>str_block := c, str_len := length bs\<rparr>)"
      "str_units be (p\<lparr>str_block := c, str_len := length bs\<rparr>) = map ucast bs"
proof (cases rule: alloc_string_cases [OF assms(2), of h False])
  case (1 h')
  then show ?thesis by (rule fail)
next
  case (2 h' b)
  then have "0 + length (bs @ [0]) \<le> payload_size b" using assms(1) by simp
  then obtain c where c: "str8_write b 0 (bs @ [0]) = Some c" "payload_size c = payload_size b"
    "\<And>j. byte_at c j = (if 0 \<le> j \<and> j < 0 + length (bs @ [0]) then (bs @ [0]) ! (j - 0) else byte_at b j)"
    by (rule str8_write_eq) blast
  have "buf_units be False c (length bs) = map ucast bs"
    by (intro nth_equalityI) (simp_all add: c(3) nth_append)
  then show ?thesis
    using 2 c assms
    by (intro ok [where c = c, OF 2(1)]) (simp_all add: str_ok_def str_units_def nth_append)
qed

end

subsection \<open>Import\<close>

lemma scan_kind_plain: "scan_kind buf n = UTF8_PLAIN_ASCII \<Longrightarrow> \<forall>b \<in> set (take n buf). unat b < 128"
  by (rule ccontr) (simp add: scan_kind_def utf8_kind_defs or_eq_0_iff)

lemma utf8_scan_kind:
  "n \<le> length buf \<Longrightarrow> utf8_scan buf n = Some (scan_kind buf n, length (utf16_units (map fst (utf8_steps buf 0 n))))"
  using utf8_scan_eq [of n buf] by (simp add: scan_kind_def)

lemma plain_units:
  assumes "n \<le> length buf" "scan_kind buf n = UTF8_PLAIN_ASCII"
  shows "utf16_units (map fst (utf8_steps buf 0 n)) = map ucast (take n buf)"
proof -
  have a: "\<forall>b \<in> set (take n buf). unat b < 128" by (rule scan_kind_plain [OF assms(2)])
  then have "\<forall>i < n. unat (buf ! i) < 128"
    using assms(1) by (metis length_take min.absorb2 nth_mem nth_take)
  from utf8_steps_ascii [OF assms(1) this, of 0] utf16_units_ascii [OF a] show ?thesis
    by (simp add: comp_def)
qed

context string_alloc
begin

lemma new_string_utf8:
  assumes n: "n \<le> length buf"
    and max: "length (utf16_units (map fst (utf8_steps buf 0 n))) \<le> JS_STRING_LEN_MAX"
  shows "is_string be (utf16_units (map fst (utf8_steps buf 0 n))) (JS_NewStringLen be sa h buf n)"
proof -
  let ?us = "utf16_units (map fst (utf8_steps buf 0 n))"
  let ?len = "length ?us"
  note scan = utf8_scan_kind [OF n]
  consider "n = 0" | "0 < n" "scan_kind buf n = UTF8_PLAIN_ASCII"
    | "0 < n" "scan_kind buf n \<noteq> UTF8_PLAIN_ASCII" "scan_kind buf n = UTF8_NON_ASCII"
    | "0 < n" "scan_kind buf n \<noteq> UTF8_PLAIN_ASCII" "scan_kind buf n \<noteq> UTF8_NON_ASCII"
    by blast
  then show ?thesis
  proof cases
    case 1
    then show ?thesis by (simp add: JS_NewStringLen_def is_string_def)
  next
    case 2
    have u: "?us = map ucast (take n buf)" by (rule plain_units [OF n 2(2)])
    have l: "length (take n buf) = n" "mem_read buf 0 n = Some (take n buf)"
      using n by (simp_all add: mem_simps)
    then have "?len = n" by (metis u length_map)
    with l have "JS_NewStringLen be sa h buf n = js_new_string8_len sa h (take n buf)"
      using 2 max scan by (simp add: JS_NewStringLen_def js_new_string8_len_def del: length_take)
    then show ?thesis using new_string8 [of "take n buf" be h] u max by simp
  next
    case 3
    define bs :: "u8 list" where "bs = map (\<lambda>s. ucast (fst s)) (utf8_steps buf 0 n)"
    have small: "\<forall>(c, k) \<in> set (utf8_steps buf 0 n). unat c < 128 \<or> unat c < 256 \<and> k \<noteq> 1"
      using scan_kind_8bit [OF n] 3 by simp
    have u: "map ucast bs = ?us"
      unfolding bs_def by (rule utf16_units_8bit [OF small])
    then have len: "length bs = ?len" by (metis length_map)
    show ?thesis
    proof (cases rule: alloc_string_cases [OF max, of h False])
      case (1 h')
      then show ?thesis using 3 max scan by (simp add: JS_NewStringLen_def fill_string_def is_string_oom)
    next
      case (2 h' b)
      define L where "L = ?len"
      define dest where "dest = map (byte_at b) [0..<L + 1]"
      have r: "str8_read b 0 (L + 1) = Some dest"
        using str8_read_eq [of 0 "L + 1" b] 2(2) by (simp add: dest_def L_def del: upt_Suc str8_read.simps)
      have "utf8_decode_buf8 dest (L + 1) buf n = Some (bs @ [0], L)"
        using utf8_decode_buf8_eq [OF n _ _ small, of "L + 1" dest] len
        by (simp add: Let_def comp_def L_def dest_def del: upt_Suc flip: bs_def)
      then have "do { dest \<leftarrow> str8_read b 0 (L + 1); (dest, k) \<leftarrow> utf8_decode_buf8 dest (L + 1) buf n; str8_write b 0 dest } =
          do { b \<leftarrow> str8_write b 0 bs; str8_put b L 0 }"
        unfolding r using len by (simp add: str8_write_append L_def)
      then have "JS_NewStringLen be sa h buf n = js_new_string8_len sa h bs"
        using 2(1) 3 max scan len unfolding L_def
        by (simp add: JS_NewStringLen_def js_new_string8_len_def fill_string_def del: str8_read.simps)
      then show ?thesis using new_string8 [of bs be h] max u len by simp
    qed
  next
    case 4
    show ?thesis
    proof (cases rule: alloc_string_cases [OF max, of h True])
      case (1 h')
      then show ?thesis using 4 max scan by (simp add: JS_NewStringLen_def fill_string_def is_string_oom)
    next
      case (2 h' b)
      then have r: "str16_read be b 0 ?len = Some (map (unit_at be b) [0..<0 + ?len])"
        by (intro str16_read_eq) simp
      have "utf8_decode_buf16 (map (unit_at be b) [0..<0 + ?len]) ?len buf n = Some (?us, ?len)"
        using utf8_decode_buf16_eq [OF n, of ?len "map (unit_at be b) [0..<0 + ?len]"] by (simp add: Let_def)
      then have "JS_NewStringLen be sa h buf n = js_new_string16_len be sa h ?us"
        using 2 4 max scan r by (simp add: JS_NewStringLen_def js_new_string16_len_def fill_string_def)
      then show ?thesis using new_string16 [OF max] by simp
    qed
  qed
qed

end

subsection \<open>Export\<close>

lemma drop_bit_7: "unat (drop_bit 7 (c :: u8)) = (if c < 0x80 then 0 else 1)"
proof -
  have d: "unat (drop_bit 7 c) = unat c div 128" by (simp only: unat_drop_bit) simp
  have "unat c div 128 = 0 \<or> unat c div 128 = 1" using unat_u8_less [of c] by linarith
  then show ?thesis by (auto simp: d word_less_nat_alt)
qed

lemma length_encode8: "length (concat (map (\<lambda>b. utf8_encode (ucast b)) src)) =
    length src + sum_list (map (\<lambda>c. unat (drop_bit 7 (c :: u8))) src)"
  by (induction src) (simp_all add: length_utf8_encode encode_len_u8 drop_bit_7 word_le_nat_alt word_less_nat_alt)

lemma encode8_ascii:
  "sum_list (map (\<lambda>c. unat (drop_bit 7 (c :: u8))) src) = 0 \<Longrightarrow>
     concat (map (\<lambda>b. utf8_encode (ucast b)) src) = src"
proof (induction src)
  case (Cons c src)
  then have "c < 0x80" by (simp add: drop_bit_7 split: if_splits)
  then have "utf8_encode (ucast c) = [c]"
    by (simp add: utf8_encode_def word_less_nat_alt ucast_u8_u32_u8)
  with Cons show ?case by simp
qed simp

lemma to_cstring8_eq:
  "to_cstring8_loop b q src = map_option (\<lambda>c. (c, q + length (concat (map (\<lambda>b. utf8_encode (ucast b)) src))))
     (str8_write b q (concat (map (\<lambda>b. utf8_encode (ucast b)) src)))"
proof (induction b q src rule: to_cstring8_loop.induct)
  case (2 b q c src)
  show ?case
  proof (cases "c < 0x80")
    case True
    then have "utf8_encode (ucast c) = [c]"
      by (simp add: utf8_encode_def word_less_nat_alt ucast_u8_u32_u8)
    with 2(1) True show ?thesis by (cases "str8_put b q c") simp_all
  next
    case False
    then have e: "utf8_encode (ucast c) =
        [ucast (drop_bit 6 (ucast c :: u32) OR 0xC0), ucast (((ucast c :: u32) AND 0x3F) OR 0x80)]"
      by (intro encode_u8_two) (simp add: word_less_nat_alt)
    show ?thesis
      using 2(2) [OF False] False by (simp add: e split: bind_split)
  qed
qed simp

text \<open>The characters of a 16-bit source; with \<open>cesu8\<close> the halves of a pair are separate.\<close>

definition cstring_points :: "bool \<Rightarrow> u16 list \<Rightarrow> u32 list" where
  "cstring_points cesu8 us = (if cesu8 then map ucast us else code_points16 us)"

lemma next_cstring16_eq:
  assumes "pos < length src"
  shows "\<exists>c k. next_cstring16 src cesu8 pos = Some (c, k) \<and> pos < k \<and> k \<le> length src \<and>
    cstring_points cesu8 (drop pos src) = c # cstring_points cesu8 (drop k src)"
proof -
  have d: "drop pos src = src ! pos # drop (pos + 1) src" using assms by (rule drop_units_Cons)
  show ?thesis
  proof (cases cesu8)
    case True
    then show ?thesis using assms by (auto simp: next_cstring16_def cstring_points_def Let_def mem_simps d)
  next
    case False
    show ?thesis
    proof (rule next_code16_step [OF assms order_refl])
      fix c k
      assume n: "next_code16 src (length src) pos = Some (c, k)" "pos < k" "k \<le> length src"
        "code_points16 (drop pos (take (length src) src)) = c # code_points16 (drop k (take (length src) src))"
      have "next_cstring16 src cesu8 pos = next_code16 src (length src) pos"
        using False by (cases "mem_get src pos") (simp_all add: next_cstring16_def next_code16_def Let_def)
      with n False show ?thesis by (simp add: cstring_points_def)
    qed
  qed
qed

lemma to_cstring16_eq:
  "to_cstring16_loop b q src cesu8 pos =
    (let bs = concat (map utf8_encode (cstring_points cesu8 (drop pos src)))
     in map_option (\<lambda>c. (c, q + length bs)) (str8_write b q bs))"
proof (induction "length src - pos" arbitrary: b q pos rule: less_induct)
  case less
  show ?case
  proof (cases "pos < length src")
    case True
    obtain c k where ck: "next_cstring16 src cesu8 pos = Some (c, k)" "pos < k" "k \<le> length src"
      "cstring_points cesu8 (drop pos src) = c # cstring_points cesu8 (drop k src)"
      using next_cstring16_eq [OF True] by blast
    let ?bs = "concat (map utf8_encode (cstring_points cesu8 (drop k src)))"
    have "to_cstring16_loop b q src cesu8 pos =
        do { b \<leftarrow> str8_write b q (utf8_encode c); to_cstring16_loop b (q + length (utf8_encode c)) src cesu8 k }"
      using True ck(1) by (simp add: to_cstring16_loop.simps [of b q src cesu8 pos] utf8_encode_def)
    also have "\<dots> = do { b \<leftarrow> str8_write b q (utf8_encode c);
        map_option (\<lambda>d. (d, q + length (utf8_encode c) + length ?bs)) (str8_write b (q + length (utf8_encode c)) ?bs) }"
      using less [of k] ck True by (simp add: Let_def)
    finally show ?thesis
      by (simp add: ck(4) str8_write_append Let_def map_option_case split: bind_split option.split)
  qed (simp add: to_cstring16_loop.simps [of b q src cesu8 pos] cstring_points_def Let_def)
qed

lemma cstring_points_encode_length: "length (concat (map utf8_encode (cstring_points cesu8 us))) \<le> 3 * length us"
proof -
  have u16: "utf8_encode_len (ucast (u :: u16)) \<le> 3" for u
    using unat_u16_le [of u] by (simp add: utf8_encode_len_def word_less_nat_alt)
  have "length (concat (map utf8_encode (map ucast us))) \<le> 3 * length us"
    by (induction us) (use u16 in \<open>auto simp: length_utf8_encode intro: add_mono\<close>)
  moreover have "length (concat (map utf8_encode (code_points16 us))) \<le> 3 * length us"
  proof (induction us rule: code_points16.induct)
    case (3 u v us)
    have "utf8_encode_len c \<le> 4" for c by (simp add: utf8_encode_len_def)
    then have "utf8_encode_len c \<le> 6" for c by (meson order_trans numeral_le_iff semiring_norm)
    with 3 u16 [of u] show ?case by (auto simp: length_utf8_encode intro: add_mono)
  qed (use u16 in \<open>simp_all add: length_utf8_encode\<close>)
  ultimately show ?thesis by (simp add: cstring_points_def)
qed

text \<open>The bytes a string is exported as.\<close>

definition cstring_bytes :: "bool \<Rightarrow> bool \<Rightarrow> js_string \<Rightarrow> u8 list" where
  "cstring_bytes be cesu8 p = concat (map utf8_encode (cstring_points (cesu8 \<and> str_wide p) (str_units be p)))"

lemma code_points16_narrow: "code_points16 (map ucast (bs :: u8 list)) = map ucast bs"
proof (induction bs)
  case (Cons b bs)
  have "unat b div 1024 = 0" using unat_u8_less [of b] by (intro div_less) linarith
  then have "\<not> is_hi_surrogate (ucast (ucast b :: u16))"
    by (simp add: is_hi_surrogate_iff unat_ucast_u8_u16)
  with Cons show ?case by (simp add: code_points16_Cons ucast_u8_u16_u32_up)
qed simp

lemma finish_cstring:
  assumes "str8_write b 0 (bs @ [0]) = Some c"
  shows "do { (b, q) \<leftarrow> map_option (\<lambda>c. (c, length bs)) (str8_write b 0 bs);
              b \<leftarrow> str8_put b q 0;
              Some (f b q) } = Some (f c (length bs))"
  using assms by (auto simp: str8_write_append split: bind_splits)

context string_alloc
begin

lemma to_cstring:
  assumes p: "str_ok p" and len: "3 * str_len p \<le> JS_STRING_LEN_MAX"
  shows "is_string be (map ucast (cstring_bytes be cesu8 p)) (JS_ToCStringLen2 be sa h p cesu8)"
proof (cases "str_wide p")
  case False
  obtain src where src: "str8_read (str_block p) 0 (str_len p) = Some src" "length src = str_len p"
    "map ucast src = str_units be p"
    using str8_read_units [OF p False, of 0 "str_len p" be] by auto
  define bs where "bs = concat (map (\<lambda>b. utf8_encode (ucast b)) src)"
  define k where "k = sum_list (map (\<lambda>c. unat (drop_bit 7 c)) src)"
  have bytes: "cstring_bytes be cesu8 p = bs"
    using False by (simp add: cstring_bytes_def cstring_points_def src(3) [symmetric] code_points16_narrow bs_def comp_def)
  have eq: "JS_ToCStringLen2 be sa h p cesu8 =
      (if k = 0 then Some (h, Inr p)
       else case js_alloc_string sa h (str_len p + k) False of
          (h, Inl e) \<Rightarrow> Some (h, Inl e)
        | (h, Inr p) \<Rightarrow> do {
            (b, q) \<leftarrow> to_cstring8_loop (str_block p) 0 src;
            b \<leftarrow> str8_put b q 0;
            Some (h, Inr (p\<lparr>str_block := b, str_len := q\<rparr>)) })"
    using False src(1) unfolding JS_ToCStringLen2_def Let_def k_def by simp
  have l: "length bs = str_len p + k" unfolding bs_def k_def length_encode8 src(2) by simp
  show ?thesis
  proof (cases "k = 0")
    case True
    then have "bs = src" unfolding bs_def k_def by (rule encode8_ascii)
    with True src(3) p show ?thesis by (simp add: eq bytes is_string_def)
  next
    case nz: False
    have max: "str_len p + k \<le> JS_STRING_LEN_MAX"
      using cstring_points_encode_length [of False "str_units be p"] bytes l len False
      by (simp add: cstring_bytes_def)
    have lb: "length bs \<le> str_len p + k" using l by simp
    show ?thesis
    proof (cases rule: fill_string8 [where h = h and be = be, OF lb max])
      case (1 h')
      with nz show ?thesis by (simp add: eq is_string_oom)
    next
      case (2 h' q c)
      from finish_cstring [where f = "\<lambda>b r. (h', Inr (q\<lparr>str_block := b, str_len := r\<rparr>) :: js_error + js_string)", OF 2(4)] 2(1,5,6) nz show ?thesis
        by (simp add: eq to_cstring8_eq bytes is_string_def bs_def [symmetric])
    qed
  qed
next
  case True
  let ?us = "str_units be p"
  define bs where "bs = cstring_bytes be cesu8 p"
  have src: "str16_read be (str_block p) 0 (str_len p) = Some ?us"
    using str16_read_units [OF p True, of 0 "str_len p" be] by simp
  have b: "bs = concat (map utf8_encode (cstring_points cesu8 ?us))"
    using True by (simp add: bs_def cstring_bytes_def)
  have lb: "length bs \<le> str_len p * 3"
    using cstring_points_encode_length [of cesu8 ?us] by (simp add: b)
  have max: "str_len p * 3 \<le> JS_STRING_LEN_MAX" using len by simp
  have eq: "JS_ToCStringLen2 be sa h p cesu8 =
      (case js_alloc_string sa h (str_len p * 3) False of
          (h, Inl e) \<Rightarrow> Some (h, Inl e)
        | (h, Inr p) \<Rightarrow> do {
            (b, q) \<leftarrow> to_cstring16_loop (str_block p) 0 ?us cesu8 0;
            b \<leftarrow> str8_put b q 0;
            Some (h, Inr (p\<lparr>str_block := b, str_len := q\<rparr>)) })"
    using True src len by (simp add: JS_ToCStringLen2_def Let_def JS_STRING_LEN_MAX_def)
  show ?thesis
  proof (cases rule: fill_string8 [where h = h and be = be, OF lb max])
    case (1 h')
    then show ?thesis by (simp add: eq is_string_oom)
  next
    case (2 h' q c)
    from finish_cstring [where f = "\<lambda>b r. (h', Inr (q\<lparr>str_block := b, str_len := r\<rparr>) :: js_error + js_string)", OF 2(4)] 2(1,5,6) show ?thesis
      by (simp add: eq to_cstring16_eq is_string_def b [symmetric] bs_def [symmetric])
  qed
qed

end

lemma js_alloc_string_wide: "js_alloc_string sa h n w = (h', Inr p) \<Longrightarrow> str_wide p = w"
  by (auto simp: js_alloc_string_def split: option.splits prod.splits)

lemma to_cstring_narrow: "JS_ToCStringLen2 be sa h p cesu8 = Some (h', Inr c) \<Longrightarrow> \<not> str_wide c"
  by (auto simp: JS_ToCStringLen2_def Let_def dest: js_alloc_string_wide
      split: if_splits bind_splits sum.splits prod.splits)

text \<open>Export, then import of the exported bytes.\<close>

definition export_import :: "bool \<Rightarrow> 'h str_realloc \<Rightarrow> 'h \<Rightarrow> js_string \<Rightarrow> 'h str_result" where
  "export_import be sa h p = do {
     (h, r) \<leftarrow> JS_ToCStringLen2 be sa h p False;
     case r of
       Inl e \<Rightarrow> Some (h, Inl e)
     | Inr c \<Rightarrow> do {
         bs \<leftarrow> str8_read (str_block c) 0 (str_len c);
         JS_NewStringLen be sa h bs (str_len c) } }"

lemma map_ucast_u8_inj: "map ucast xs = (map ucast ys :: u16 list) \<Longrightarrow> xs = (ys :: u8 list)"
  by (rule map_inj_on) (auto intro!: inj_onI simp: word_unat_eq_iff unat_ucast_u8_u16)

lemma cstring_steps:
  assumes "us = str_units be p"
  shows "utf16_units (map fst (utf8_steps (cstring_bytes be False p) 0 (length (cstring_bytes be False p)))) = us"
proof -
  have "cstring_bytes be False p = [] @ concat (map utf8_encode (code_points16 us)) @ []"
    by (simp add: assms cstring_bytes_def cstring_points_def)
  then show ?thesis
    using utf8_steps_encoded [of "code_points16 us" "[]" "[]"] code_points16_bound
    by (simp add: comp_def utf16_units_code_points16)
qed

context string_alloc
begin

lemma export_import_units:
  assumes p: "str_ok p" and len: "3 * str_len p \<le> JS_STRING_LEN_MAX"
  shows "is_string be (str_units be p) (export_import be sa h p)"
proof -
  let ?bs = "cstring_bytes be False p"
  from to_cstring [OF assms, of be False h] consider
    h' where "JS_ToCStringLen2 be sa h p False = Some (h', Inl OutOfMemory)"
    | h' c where "JS_ToCStringLen2 be sa h p False = Some (h', Inr c)" "str_ok c" "str_units be c = map ucast ?bs"
    unfolding is_string_def by blast
  then show ?thesis
  proof cases
    case 1
    then show ?thesis by (simp add: export_import_def is_string_oom)
  next
    case (2 h' c)
    have n: "str_len c = length ?bs" using 2(3) by (metis length_map length_str_units)
    obtain bs where bs: "str8_read (str_block c) 0 (str_len c) = Some bs" "length bs = str_len c"
      "map ucast bs = take (str_len c) (drop 0 (str_units be c))"
      by (rule str8_read_units [OF 2(2) to_cstring_narrow [OF 2(1)], of 0 "str_len c"]) simp
    have "bs = ?bs" using bs(3) 2(3) n by (intro map_ucast_u8_inj) simp
    then have "export_import be sa h p = JS_NewStringLen be sa h' ?bs (length ?bs)"
      using 2(1) bs(1) n by (simp add: export_import_def)
    moreover have "length (str_units be p) \<le> JS_STRING_LEN_MAX"
      using len by (simp add: length_str_units)
    ultimately show ?thesis
      using new_string_utf8 [of "length ?bs" ?bs be h'] cstring_steps [of "str_units be p" be p] by simp
  qed
qed

end

text \<open>
  C11.  \<open>JS_NewStringLen\<close>, over the engine's allocator with the default functions, creates from
  any bytes, well formed or not, a sound string whose units are the UTF-16 form of the
  characters the decoder \<open>utf8_decode_len\<close> reads step by step, whichever of its three ways of
  storing them the scan selects; it fails only when memory runs out, or with a
  \<open>RangeError\<close> exactly when the string would be too long.  No access leaves a block.
\<close>

theorem JS_NewStringLen_decodes:
  assumes "n \<le> length buf"
  shows "let us = utf16_units (map fst (utf8_steps buf 0 n));
             r = JS_NewStringLen be (js_realloc2 def_malloc_funcs fill) h buf n
    in if length us > JS_STRING_LEN_MAX then r = Some (h, Inl RangeError)
       else (\<exists>h'. r = Some (h', Inl OutOfMemory)) \<or>
         (\<exists>h' p. r = Some (h', Inr p) \<and> str_ok p \<and> str_units be p = us)"
proof (cases "length (utf16_units (map fst (utf8_steps buf 0 n))) \<le> JS_STRING_LEN_MAX")
  case True
  from def_string.new_string_utf8 [OF assms True, of be fill h] True show ?thesis
    by (simp add: is_string_def Let_def)
next
  case False
  then have "0 < n" by (cases n) auto
  with False utf8_scan_kind [OF assms] show ?thesis by (simp add: JS_NewStringLen_def Let_def)
qed

lemma JS_NewStringLen_decodes_witness:
  "\<exists>h' r. JS_NewStringLen False (js_realloc2 def_malloc_funcs 0) example_state [0xC3, 0xA9, 0xF0, 0x9F, 0x98, 0x80, 0xFF] 7 = Some (h', r)"
  using JS_NewStringLen_decodes [of "7" "[0xC3, 0xA9, 0xF0, 0x9F, 0x98, 0x80, 0xFF]" False 0 example_state]
  by (fastforce simp: Let_def split: if_splits)

text \<open>
  C22.  Exporting a string, narrow or wide, unpaired surrogates included, with
  \<open>JS_ToCStringLen2\<close> and importing the bytes with \<open>JS_NewStringLen\<close> gives a string with the
  same units, unless memory runs out on the way.  The bound on the length is the one that
  lets the export allocate three bytes for each unit.
\<close>

theorem cstring_roundtrip:
  assumes "str_ok p" "3 * str_len p \<le> JS_STRING_LEN_MAX"
  shows "(\<exists>h'. export_import be (js_realloc2 def_malloc_funcs fill) h p = Some (h', Inl OutOfMemory)) \<or>
    (\<exists>h' q. export_import be (js_realloc2 def_malloc_funcs fill) h p = Some (h', Inr q) \<and>
      str_ok q \<and> str_units be q = str_units be p)"
  using def_string.export_import_units [OF assms, of be fill h] by (simp add: is_string_def)

lemma cstring_roundtrip_witness:
  "\<exists>h' r. export_import False (js_realloc2 def_malloc_funcs 0) example_state
     \<lparr>str_block = \<lparr>cells = replicate 24 0 @ [0x61, 0, 0x00, 0xD8], usable = 28\<rparr>, str_len = 2, str_wide = True\<rparr>
     = Some (h', r)"
  using cstring_roundtrip [of "\<lparr>str_block = \<lparr>cells = replicate 24 0 @ [0x61, 0, 0x00, 0xD8], usable = 28\<rparr>, str_len = 2, str_wide = True\<rparr>" False 0 example_state]
  by (auto simp: str_ok_def payload_size_def sizeof_JSString_def JS_STRING_LEN_MAX_def)

end
