(* ===== verification/Itoa.thy ===== *)
theory Itoa
  imports Bytes
begin

section \<open>Integers to text\<close>

text \<open>
  The conversions \<open>u32toa\<close>, \<open>u64toa\<close>, \<open>i32toa\<close>, \<open>i64toa\<close> and their versions for any radix
  (src/quickjs/cutils.c).  A destination is a position \<open>p\<close> of a block \<open>m\<close>; every store is
  checked, also the pointer that walks down from the end of the text.  The reference is
  \<open>digits_of b n\<close>, the digits of \<open>n\<close> in base \<open>b\<close>, most significant first.

  The theorems show that each function stores exactly the text and its terminator, returns the
  length, and stays within the number of bytes its declaration asks for.
\<close>

subsection \<open>The fast decimal conversions\<close>

definition gen_digit :: "bool \<Rightarrow> u64 \<Rightarrow> u32 \<Rightarrow> u64" where
  "gen_digit be buf c =
     (if be then drop_bit 8 buf OR push_bit 56 (ucast c) else push_bit 8 buf OR ucast c)"

function u7toa_loop :: "bool \<Rightarrow> u64 \<Rightarrow> nat \<Rightarrow> u32 \<Rightarrow> u64 \<times> nat" where
  "u7toa_loop be buf len n =
     (if n \<ge> 10 then u7toa_loop be (gen_digit be buf (0x30 + n mod 10)) (len + 1) (n div 10)
      else (gen_digit be buf (0x30 + n), len))"
  by pat_completeness auto
termination
  by (relation "measure (\<lambda>(be, buf, len, n). unat n)") (auto simp: unat_div word_le_nat_alt)

declare u7toa_loop.simps [simp del]

definition u7toa_shift :: "bool \<Rightarrow> u8 list \<Rightarrow> nat \<Rightarrow> u32 \<Rightarrow> (u8 list \<times> nat) option" where
  "u7toa_shift be m p n =
     (let (buf, len) = u7toa_loop be 0 1 n
      in do { m \<leftarrow> mem_write m p (obj_bytes be 8 buf); Some (m, len) })"

text \<open>The loop counts \<open>i\<close> down from 6 to 1; the digit at 0 is stored after it.\<close>

fun u07toa_loop :: "u8 list \<Rightarrow> nat \<Rightarrow> nat \<Rightarrow> u32 \<Rightarrow> u8 list option" where
  "u07toa_loop m d 0 n = mem_set m d (ucast (0x30 + n))"
| "u07toa_loop m d (Suc i) n = do {
     m \<leftarrow> mem_set m (d + Suc i) (ucast (0x30 + n mod 10));
     u07toa_loop m d i (n div 10) }"

definition u07toa_shift :: "u8 list \<Rightarrow> nat \<Rightarrow> u32 \<Rightarrow> nat \<Rightarrow> (u8 list \<times> nat) option" where
  "u07toa_shift m p n len = do {
     m \<leftarrow> mem_set m (p + len + 7) 0;
     m \<leftarrow> u07toa_loop m (p + len) 6 n;
     Some (m, len + 7) }"

definition u32toa :: "bool \<Rightarrow> u8 list \<Rightarrow> nat \<Rightarrow> u32 \<Rightarrow> (u8 list \<times> nat) option" where
  "u32toa be m p n =
     (if n < 10 then do {
        m \<leftarrow> mem_set m p (ucast (0x30 + n));
        m \<leftarrow> mem_set m (p + 1) 0;
        Some (m, 1) }
      else if n \<ge> 10000000 then do {
        (m, len) \<leftarrow> u7toa_shift be m p (n div 10000000);
        u07toa_shift m p (n mod 10000000) len }
      else u7toa_shift be m p n)"

definition u64toa :: "bool \<Rightarrow> u8 list \<Rightarrow> nat \<Rightarrow> u64 \<Rightarrow> (u8 list \<times> nat) option" where
  "u64toa be m p n =
     (if n < 0x100000000 then u32toa be m p (ucast n)
      else if n \<ge> 10000000 then
        (let n1 = n div 10000000; n = n mod 10000000
         in do {
           (m, len) \<leftarrow>
             (if n1 \<ge> 10000000 then
                (let quo = (ucast (n1 div 10000000) :: u32); n1 = n1 mod 10000000
                 in do {
                   (m, len) \<leftarrow> u7toa_shift be m p quo;
                   u07toa_shift m p (ucast n1) len })
              else u7toa_shift be m p (ucast n1));
           u07toa_shift m p (ucast n) len })
      else u7toa_shift be m p (ucast n))"

text \<open>Negative numbers: \<open>n\<close> is the bit pattern of the signed argument.\<close>

definition i32toa :: "bool \<Rightarrow> u8 list \<Rightarrow> nat \<Rightarrow> u32 \<Rightarrow> (u8 list \<times> nat) option" where
  "i32toa be m p n =
     (if 0 \<le> sint n then u32toa be m p n
      else do {
        m \<leftarrow> mem_set m p 0x2D;
        (m, len) \<leftarrow> u32toa be m (p + 1) (- n);
        Some (m, 1 + len) })"

definition i64toa :: "bool \<Rightarrow> u8 list \<Rightarrow> nat \<Rightarrow> u64 \<Rightarrow> (u8 list \<times> nat) option" where
  "i64toa be m p n =
     (if 0 \<le> sint n then u64toa be m p n
      else do {
        m \<leftarrow> mem_set m p 0x2D;
        (m, len) \<leftarrow> u64toa be m (p + 1) (- n);
        Some (m, 1 + len) })"

subsection \<open>Any radix\<close>

definition digits36 :: "u8 list" where
  "digits36 =
     [0x30, 0x31, 0x32, 0x33, 0x34, 0x35, 0x36, 0x37, 0x38, 0x39,
      0x61, 0x62, 0x63, 0x64, 0x65, 0x66, 0x67, 0x68, 0x69, 0x6A, 0x6B, 0x6C, 0x6D,
      0x6E, 0x6F, 0x70, 0x71, 0x72, 0x73, 0x74, 0x75, 0x76, 0x77, 0x78, 0x79, 0x7A]"

definition radix_shift :: "nat list" where
  "radix_shift =
     [0, 0, 1, 0, 2, 0, 0, 0, 3, 0, 0, 0, 0, 0, 0, 0,
      4, 0, 0, 0, 0, 0, 0, 0, 0, 0, 0, 0, 0, 0, 0, 0,
      5, 0, 0, 0, 0, 0, 0, 0, 0, 0, 0, 0, 0, 0, 0, 0,
      0, 0, 0, 0, 0, 0, 0, 0, 0, 0, 0, 0, 0, 0, 0, 0]"

text \<open>
  \<open>*end-- = c\<close>.  The pointer is always used again after it has been moved, so a step below
  the start of the block is an error.
\<close>

definition put_back :: "u8 list \<Rightarrow> nat \<Rightarrow> u8 \<Rightarrow> (u8 list \<times> nat) option" where
  "put_back m e c = do {
     m \<leftarrow> mem_set m e c;
     if e = 0 then None else Some (m, e - 1) }"

text \<open>
  The loops that store the digits from the last to the first, for words of either width.  A base
  of 0 divides by zero, with a base of 1 the loop does not end; neither has a result.
\<close>

function radix_digits_shift :: "u8 list \<Rightarrow> nat \<Rightarrow> 'a::len word \<Rightarrow> 'a word \<Rightarrow> nat \<Rightarrow> u8 list option" where
  "radix_digits_shift m e n base shift =
     (if shift = 0 \<or> base = 0 then None
      else if n \<ge> base then do {
        d \<leftarrow> mem_get digits36 (unat (n AND (push_bit shift 1 - 1)));
        (m, e) \<leftarrow> put_back m e d;
        radix_digits_shift m e (drop_bit shift n) base shift }
      else do {
        d \<leftarrow> mem_get digits36 (unat n);
        mem_set m e d })"
  by pat_completeness auto
termination
proof (relation "measure (\<lambda>(m, e, n, base, shift). unat n)", simp, clarsimp)
  fix n base :: "'a word" and shift :: nat
  assume "base \<le> n" "0 < shift" "base \<noteq> 0"
  moreover have "0 < unat base" using \<open>base \<noteq> 0\<close> by (simp add: unat_gt_0)
  moreover have "1 < (2::nat) ^ shift" using \<open>0 < shift\<close> by (intro one_less_power) simp_all
  ultimately have "0 < unat n" "1 < (2::nat) ^ shift" by (simp_all only: word_le_nat_alt)
  then show "unat (drop_bit shift n) < unat n"
    by (simp add: unat_drop_bit div_less_dividend)
qed

declare radix_digits_shift.simps [simp del]

function radix_digits_div :: "u8 list \<Rightarrow> nat \<Rightarrow> 'a::len word \<Rightarrow> 'a word \<Rightarrow> u8 list option" where
  "radix_digits_div m e n base =
     (if unat base < 2 then None
      else if n \<ge> base then do {
        d \<leftarrow> mem_get digits36 (unat (n mod base));
        (m, e) \<leftarrow> put_back m e d;
        radix_digits_div m e (n div base) base }
      else do {
        d \<leftarrow> mem_get digits36 (unat n);
        mem_set m e d })"
  by pat_completeness auto
termination
  by (relation "measure (\<lambda>(m, e, n, base). unat n)")
    (auto simp: unat_div word_le_nat_alt intro!: div_less_dividend)

declare radix_digits_div.simps [simp del]

text \<open>
  The loop that counts the digits, with a product that could wrap.
\<close>

partial_function (option) radix_count :: "'a::len word \<Rightarrow> 'a word \<Rightarrow> 'a word \<Rightarrow> nat \<Rightarrow> nat option" where
  "radix_count n nbase base len =
     (if n \<ge> nbase then radix_count n (nbase * base) base (len + 1) else Some len)"

definition u32toa_radix :: "bool \<Rightarrow> u8 list \<Rightarrow> nat \<Rightarrow> u32 \<Rightarrow> u32 \<Rightarrow> (u8 list \<times> nat) option" where
  "u32toa_radix be m p n base =
     (if base = 10 then u32toa be m p n
      else if n < base then do {
        d \<leftarrow> mem_get digits36 (unat n);
        m \<leftarrow> mem_set m p d;
        m \<leftarrow> mem_set m (p + 1) 0;
        Some (m, 1) }
      else do {
        shift \<leftarrow> mem_get radix_shift (unat (base AND 63));
        if shift \<noteq> 0 then do {
          lz \<leftarrow> clz32 n;
          let len = (32 - lz + shift - 1) div shift;
          (m, e) \<leftarrow> put_back m (p + len) 0;
          d \<leftarrow> mem_get digits36 (unat (n AND (push_bit shift 1 - 1)));
          (m, e) \<leftarrow> put_back m e d;
          m \<leftarrow> radix_digits_shift m e (drop_bit shift n) base shift;
          Some (m, len) }
        else if base = 0 then None
        else do {
          let last = n mod base;
          let n = n div base;
          len \<leftarrow> radix_count n base base 2;
          (m, e) \<leftarrow> put_back m (p + len) 0;
          d \<leftarrow> mem_get digits36 (unat last);
          (m, e) \<leftarrow> put_back m e d;
          m \<leftarrow> radix_digits_div m e n base;
          Some (m, len) } })"

definition u64toa_radix :: "bool \<Rightarrow> u8 list \<Rightarrow> nat \<Rightarrow> u64 \<Rightarrow> u32 \<Rightarrow> (u8 list \<times> nat) option" where
  "u64toa_radix be m p n base =
     (if base = 10 then u64toa be m p n
      else do {
        shift \<leftarrow> mem_get radix_shift (unat (base AND 63));
        if shift \<noteq> 0 then
          (if n < ucast base then do {
             d \<leftarrow> mem_get digits36 (unat n);
             m \<leftarrow> mem_set m p d;
             m \<leftarrow> mem_set m (p + 1) 0;
             Some (m, 1) }
           else do {
             lz \<leftarrow> clz64 n;
             let len = (64 - lz + shift - 1) div shift;
             (m, e) \<leftarrow> put_back m (p + len) 0;
             d \<leftarrow> mem_get digits36 (unat (n AND (push_bit shift 1 - 1)));
             (m, e) \<leftarrow> put_back m e d;
             m \<leftarrow> radix_digits_shift m e (drop_bit shift n) (ucast base) shift;
             Some (m, len) })
        else if n < 0x100000000 then u32toa_radix be m p (ucast n) base
        else if base = 0 then None
        else do {
          let last = n mod ucast base;
          let n = n div ucast base;
          len \<leftarrow> radix_count n (ucast base) (ucast base) 2;
          (m, e) \<leftarrow> put_back m (p + len) 0;
          d \<leftarrow> mem_get digits36 (unat last);
          (m, e) \<leftarrow> put_back m e d;
          m \<leftarrow> radix_digits_div m e n (ucast base);
          Some (m, len) } })"

definition i32toa_radix :: "bool \<Rightarrow> u8 list \<Rightarrow> nat \<Rightarrow> u32 \<Rightarrow> u32 \<Rightarrow> (u8 list \<times> nat) option" where
  "i32toa_radix be m p n base =
     (if 0 \<le> sint n then u32toa_radix be m p n base
      else do {
        m \<leftarrow> mem_set m p 0x2D;
        (m, len) \<leftarrow> u32toa_radix be m (p + 1) (- n) base;
        Some (m, 1 + len) })"

definition i64toa_radix :: "bool \<Rightarrow> u8 list \<Rightarrow> nat \<Rightarrow> u64 \<Rightarrow> u32 \<Rightarrow> (u8 list \<times> nat) option" where
  "i64toa_radix be m p n base =
     (if 0 \<le> sint n then u64toa_radix be m p n base
      else do {
        m \<leftarrow> mem_set m p 0x2D;
        (m, len) \<leftarrow> u64toa_radix be m (p + 1) (- n) base;
        Some (m, 1 + len) })"

subsection \<open>Digits\<close>

function digits_of :: "nat \<Rightarrow> nat \<Rightarrow> nat list" where
  "digits_of b n = (if n < b \<or> b < 2 then [n] else digits_of b (n div b) @ [n mod b])"
  by pat_completeness auto
termination
  by (relation "measure (\<lambda>(b, n). n)") (auto intro!: div_less_dividend)

declare digits_of.simps [simp del]

text \<open>The last \<open>k\<close> digits, with zeros in front.\<close>

fun last_digits :: "nat \<Rightarrow> nat \<Rightarrow> nat \<Rightarrow> nat list" where
  "last_digits b 0 n = []"
| "last_digits b (Suc k) n = last_digits b k (n div b) @ [n mod b]"

definition digits_text :: "nat list \<Rightarrow> u8 list" where
  "digits_text ds = map (\<lambda>d. digits36 ! d) ds"

abbreviation text_of :: "nat \<Rightarrow> nat \<Rightarrow> u8 list" where
  "text_of b n \<equiv> digits_text (digits_of b n)"

definition int_text :: "nat \<Rightarrow> int \<Rightarrow> u8 list" where
  "int_text b i = (if 0 \<le> i then text_of b (nat i) else 0x2D # text_of b (nat (- i)))"

lemma digits_of_small: "n < b \<Longrightarrow> digits_of b n = [n]"
  and digits_of_step: "2 \<le> b \<Longrightarrow> b \<le> n \<Longrightarrow> digits_of b n = digits_of b (n div b) @ [n mod b]"
  by (simp_all add: digits_of.simps [of b n])

lemma digits_text_simps [simp]:
  "digits_text [] = []" "digits_text (d # ds) = digits36 ! d # digits_text ds"
  "digits_text (ds @ es) = digits_text ds @ digits_text es" "length (digits_text ds) = length ds"
  by (simp_all add: digits_text_def)

lemma length_last_digits [simp]: "length (last_digits b k n) = k"
  by (induction b k n rule: last_digits.induct) simp_all

text \<open>The digits determine the number, and only 0 starts with the digit 0.\<close>

lemma digits_of_value: "foldl (\<lambda>v d. v * b + d) 0 (digits_of b n) = n"
proof (induction b n rule: digits_of.induct)
  case (1 b n)
  show ?case
  proof (cases "n < b \<or> b < 2")
    case True
    then show ?thesis by (simp add: digits_of.simps [of b n])
  next
    case False
    with 1 show ?thesis by (simp add: digits_of.simps [of b n])
  qed
qed

lemma digits_of_hd: "2 \<le> b \<Longrightarrow> 0 < n \<Longrightarrow> digits_of b n \<noteq> [] \<and> hd (digits_of b n) \<noteq> 0"
proof (induction b n rule: digits_of.induct)
  case (1 b n)
  then show ?case
    by (cases "n < b") (auto simp: digits_of.simps [of b n] div_greater_zero_iff)
qed

lemma digits_of_less: "2 \<le> b \<Longrightarrow> \<forall>d \<in> set (digits_of b n). d < b"
proof (induction b n rule: digits_of.induct)
  case (1 b n)
  then show ?case by (cases "n < b") (auto simp: digits_of.simps [of b n])
qed

lemma length_digits_of_le:
  assumes "2 \<le> b"
  shows "length (digits_of b n) \<le> Suc k \<longleftrightarrow> n < b ^ Suc k"
proof (induction k arbitrary: n)
  case 0
  then show ?case
    using assms by (cases "n < b") (auto simp: digits_of.simps [of b n] digits_of.simps [of b "n div b"])
next
  case (Suc k)
  show ?case
  proof (cases "n < b")
    case True
    then have "n < b ^ Suc (Suc k)" using assms by (simp add: less_le_trans)
    with True show ?thesis by (simp add: digits_of_small)
  next
    case False
    with Suc [of "n div b"] assms show ?thesis
      by (simp add: digits_of_step div_less_iff_less_mult mult.commute)
  qed
qed

lemma digits_of_not_Nil [simp]: "digits_of b n \<noteq> []"
  by (subst digits_of.simps) simp

lemma length_digits_of_pos: "0 < length (digits_of b n)"
  by simp

lemma digits_of_split:
  assumes "2 \<le> b"
  shows "b ^ k \<le> n \<Longrightarrow> digits_of b n = digits_of b (n div b ^ k) @ last_digits b k (n mod b ^ k)"
proof (induction k arbitrary: n)
  case (Suc k)
  have "b ^ k \<le> n div b" using Suc.prems assms by (simp add: less_eq_div_iff_mult_less_eq mult.commute)
  moreover have "b \<le> n" using Suc.prems self_le_power [of b "Suc k"] assms by linarith
  moreover have "n mod (b * b ^ k) div b = n div b mod b ^ k" "n mod (b * b ^ k) mod b = n mod b"
    using assms by (simp_all add: mod_mult2_eq mod_mod_cancel)
  ultimately show ?case
    using Suc.IH [of "n div b"] assms by (simp add: digits_of_step div_mult2_eq)
qed simp

subsection \<open>What a conversion stores\<close>

text \<open>
  The text \<open>s\<close> and its terminator are at \<open>p\<close>, nothing outside the \<open>k\<close> bytes from \<open>p\<close> has
  changed, and the result is the length of the text.
\<close>

definition stored :: "u8 list \<Rightarrow> nat \<Rightarrow> u8 list \<Rightarrow> nat \<Rightarrow> (u8 list \<times> nat) option \<Rightarrow> bool" where
  "stored m p s k r \<longleftrightarrow>
     (\<exists>rest. length s + 1 + length rest = k \<and>
        r = Some (take p m @ s @ [0] @ rest @ drop (p + k) m, length s))"

lemma storedI:
  "r = Some (take p m @ s @ [0] @ rest @ drop (p + k) m, length s) \<Longrightarrow>
     length s + 1 + length rest = k \<Longrightarrow> stored m p s k r"
  unfolding stored_def by blast

lemma stored_weaken:
  assumes "stored m p s k r" "k \<le> k'" "p + k' \<le> length m"
  shows "stored m p s k' r"
proof -
  obtain rest where r: "length s + 1 + length rest = k"
    "r = Some (take p m @ s @ [0] @ rest @ drop (p + k) m, length s)"
    using assms(1) unfolding stored_def by blast
  have "drop (p + k) m = take (k' - k) (drop (p + k) m) @ drop (p + k') m"
    using append_take_drop_id [of "k' - k" "drop (p + k) m"] assms(2) by (simp add: ac_simps)
  then show ?thesis
    using r assms(2,3) by (intro storedI [where rest = "rest @ take (k' - k) (drop (p + k) m)"]) simp_all
qed

lemma stored_sign:
  assumes "stored (m[p := c]) (p + 1) s k (f (m[p := c]))" "p + 1 + k \<le> length m"
  shows "stored m p (c # s) (k + 1)
    (do { m \<leftarrow> mem_set m p c; (m, len) \<leftarrow> f m; Some (m, 1 + len) })"
proof -
  obtain rest where r: "length s + 1 + length rest = k"
    "f (m[p := c]) = Some (take (p + 1) (m[p := c]) @ s @ [0] @ rest @ drop (p + 1 + k) (m[p := c]), length s)"
    using assms(1) unfolding stored_def by blast
  then show ?thesis
    using assms(2) by (intro storedI [where rest = rest]) (simp_all add: mem_simps take_Suc_conv_app_nth)
qed

lemma mem_set_split:
  "length xs = p \<Longrightarrow> ys \<noteq> [] \<Longrightarrow> mem_set (xs @ ys) p c = Some (xs @ c # tl ys)"
  by (cases ys) (auto simp: mem_set_def)

lemma mem_set_frame:
  assumes "i < length m"
  shows "mem_set m i c = Some (take i m @ [c] @ drop (Suc i) m)"
  using assms by (simp add: mem_set_def upd_conv_take_nth_drop)

subsection \<open>Decimal\<close>

lemma digit_char:
  assumes "n < (10 :: u32)"
  shows "ucast (0x30 + n) = digits36 ! unat n"
proof -
  have "unat n \<in> {0, 1, 2, 3, 4, 5, 6, 7, 8, 9}"
    using assms by (auto simp: word_less_nat_alt)
  then have "n \<in> {0, 1, 2, 3, 4, 5, 6, 7, 8, 9}"
    by (auto simp: word_unat_eq_iff)
  then show ?thesis by (auto simp: digits36_def)
qed

lemma digit_char_mod: "ucast (0x30 + (n :: u32) mod 10) = digits36 ! (unat n mod 10)"
  using digit_char [of "n mod 10"] by (simp add: word_mod_less_divisor unat_mod)

lemma bit_high_u32:
  assumes "(c :: u32) < 0x100" "8 \<le> k"
  shows "\<not> bit c k"
proof -
  have "take_bit 8 c = c" using assms(1) by (intro word_eq_unatI) (simp add: unat_take_bit word_less_nat_alt)
  then show ?thesis using assms(2) by (metis bit_take_bit_iff linorder_not_le)
qed

lemma le_bytes_push:
  assumes "c < 0x100"
  shows "le_bytes 8 (push_bit 8 buf OR ucast c :: u64) = ucast (c :: u32) # take 7 (le_bytes 8 buf)"
proof (rule nth_equalityI)
  fix i
  assume "i < length (le_bytes 8 (push_bit 8 buf OR ucast c :: u64))"
  then have i: "i < 8" by simp
  note hi = bit_high_u32 [OF assms]
  show "le_bytes 8 (push_bit 8 buf OR ucast c :: u64) ! i = (ucast c # take 7 (le_bytes 8 buf)) ! i"
  proof (cases i)
    case 0
    then show ?thesis by (auto simp: nth_le_bytes intro!: bit_word_eqI simp: bit_simps)
  next
    case (Suc j)
    with i show ?thesis by (auto simp: nth_le_bytes hi intro!: bit_word_eqI simp: bit_simps)
  qed
qed simp

lemma le_bytes_pull:
  assumes "c < 0x100"
  shows "le_bytes 8 (drop_bit 8 buf OR push_bit 56 (ucast c) :: u64) = drop 1 (le_bytes 8 buf) @ [ucast (c :: u32)]"
proof (rule nth_equalityI)
  fix i
  assume "i < length (le_bytes 8 (drop_bit 8 buf OR push_bit 56 (ucast c) :: u64))"
  then have i: "i < 8" by simp
  note hi = bit_high_u32 [OF assms]
  show "le_bytes 8 (drop_bit 8 buf OR push_bit 56 (ucast c) :: u64) ! i = (drop 1 (le_bytes 8 buf) @ [ucast c]) ! i"
  proof (cases "i = 7")
    case True
    then show ?thesis by (auto simp: nth_le_bytes nth_append hi intro!: bit_word_eqI simp: bit_simps)
  next
    case False
    with i show ?thesis by (auto simp: nth_le_bytes nth_append ac_simps intro!: bit_word_eqI simp: bit_simps)
  qed
qed simp

lemma obj_bytes_gen_digit:
  assumes "c < 0x100"
  shows "obj_bytes be 8 (gen_digit be buf c) = ucast c # take 7 (obj_bytes be 8 buf)"
  by (simp add: obj_bytes_def gen_digit_def le_bytes_push [OF assms] le_bytes_pull [OF assms]
      take_rev)

lemma length_text10: "n < 10 ^ Suc k \<Longrightarrow> length (digits_of 10 n) \<le> Suc k"
  using length_digits_of_le [of 10 n k] by simp

lemma take_Cons_take: "k \<le> 8 \<Longrightarrow> take k (d # take 7 xs) = take k (d # xs)"
  by (cases k) (simp_all add: min_def)

lemma u7toa_loop_eq:
  "u7toa_loop be buf len n = (b, l) \<Longrightarrow>
     obj_bytes be 8 b = take 8 (text_of 10 (unat n) @ obj_bytes be 8 buf) \<and>
     l + 1 = len + length (digits_of 10 (unat n))"
proof (induction be buf len n rule: u7toa_loop.induct)
  case (1 be buf len n)
  have c: "0x30 + n mod 10 < 0x100"
    using unat_plus_small [of "0x30 :: u32" "n mod 10"] by (simp add: word_less_nat_alt unat_mod)
  show ?case
  proof (cases "n \<ge> 10")
    case True
    with 1 have "obj_bytes be 8 b = take 8 (text_of 10 (unat (n div 10)) @ obj_bytes be 8 (gen_digit be buf (0x30 + n mod 10)))"
      "l + 1 = len + 1 + length (digits_of 10 (unat (n div 10)))"
      by (simp_all add: u7toa_loop.simps [of be buf len n])
    with True show ?thesis
      by (simp add: obj_bytes_gen_digit [OF c] digit_char_mod digits_of_step unat_div word_le_nat_alt take_Cons_take)
  next
    case False
    then have n: "n < 10" by simp
    then have m: "n mod 10 = n" by (simp add: word_less_nat_alt word_unat_eq_iff unat_mod)
    from c have "0x30 + n < 0x100" unfolding m .
    with 1(2) n show ?thesis
      by (auto simp: u7toa_loop.simps [of be buf len n] obj_bytes_gen_digit digit_char digits_of_small word_less_nat_alt word_le_nat_alt)
  qed
qed

lemma obj_bytes_zero: "obj_bytes be 8 (0 :: u64) = replicate 8 0"
  by (simp add: obj_bytes_def le_bytes_def map_replicate_const)

lemma u7toa_shift_eq:
  assumes "n < 10000000" "p + 8 \<le> length m"
  shows "stored m p (text_of 10 (unat n)) 8 (u7toa_shift be m p n)"
proof -
  let ?s = "text_of 10 (unat n)"
  have l: "length (digits_of 10 (unat n)) \<le> 7"
    using assms(1) length_text10 [of "unat n" 6] by (simp add: word_less_nat_alt)
  obtain b k where "u7toa_loop be 0 1 n = (b, k)" by fastforce
  note b = u7toa_loop_eq [OF this] this
  have e: "8 - length (digits_of 10 (unat n)) = Suc (7 - length (digits_of 10 (unat n)))" using l by simp
  have
    "u7toa_shift be m p n = do { m \<leftarrow> mem_write m p (?s @ [0] @ replicate (7 - length ?s) 0); Some (m, length ?s) }"
    using b l e by (simp add: u7toa_shift_def obj_bytes_zero)
  then show ?thesis
    using assms(2) l by (intro storedI [where rest = "replicate (7 - length ?s) 0"]) (simp_all add: mem_simps)
qed

lemma u07toa_loop_eq:
  "d + i < length m \<Longrightarrow> unat n < 10 ^ Suc i \<Longrightarrow>
     u07toa_loop m d i n = Some (take d m @ digits_text (last_digits 10 (Suc i) (unat n)) @ drop (d + Suc i) m)"
proof (induction m d i n rule: u07toa_loop.induct)
  case (1 m d n)
  then show ?case by (simp add: mem_set_frame digit_char word_less_nat_alt)
next
  case (2 m d i n)
  have "unat (n div 10) < 10 ^ Suc i" using 2(3) by (simp add: unat_div)
  with 2 show ?case
    by (simp add: mem_simps digit_char_mod unat_div)
      (simp add: upd_conv_take_nth_drop)
qed

lemma u07toa_shift_stored:
  assumes "stored m p s k (Some (m1, len))" "n < 10000000" "k \<le> length s + 8" "p + length s + 8 \<le> length m"
  shows "stored m p (s @ digits_text (last_digits 10 7 (unat n))) (length s + 8) (u07toa_shift m1 p n len)"
proof -
  have "stored m p s (length s + 8) (Some (m1, len))"
    using assms by (intro stored_weaken [OF assms(1)]) simp_all
  then obtain rest where r: "length rest = 7" "m1 = take p m @ s @ [0] @ rest @ drop (p + (length s + 8)) m" "len = length s"
    unfolding stored_def by auto
  let ?pre = "take p m @ s" and ?post = "drop (p + (length s + 8)) m"
  define m2 where "m2 = ?pre @ [0] @ butlast rest @ [0] @ ?post"
  have l: "length ?pre = p + length s" using assms(4) by simp
  have "mem_set m1 (p + len + 7) 0 = Some m2"
    using r l mem_set_split [of "?pre @ [0] @ butlast rest" "p + len + 7" "[last rest] @ ?post"]
    by (cases rest rule: rev_cases) (simp_all add: m2_def)
  moreover have "u07toa_loop m2 (p + len) 6 n =
      Some (?pre @ digits_text (last_digits 10 7 (unat n)) @ [0] @ ?post)"
    using u07toa_loop_eq [of "p + len" 6 m2 n] assms(2) l r
    by (simp add: m2_def word_less_nat_alt del: last_digits.simps)
  ultimately show ?thesis
    using r by (intro storedI [where rest = "[]"]) (simp_all add: u07toa_shift_def del: last_digits.simps)
qed

lemma split_at_7:
  "10000000 \<le> n \<Longrightarrow> text_of 10 n = text_of 10 (n div 10000000) @ digits_text (last_digits 10 7 (n mod 10000000))"
  using digits_of_split [of 10 7 n] by (simp del: last_digits.simps)

text \<open>A conversion followed by the next seven digits.\<close>

lemma stored_more_digits:
  assumes st: "stored m p (text_of 10 q) k r" and r7: "unat (w :: u32) = n mod 10000000"
    and q: "q = n div 10000000" "10000000 \<le> n" and k: "k \<le> length (digits_of 10 q) + 8"
    "p + length (digits_of 10 q) + 8 \<le> length m"
  shows "stored m p (text_of 10 n) (length (digits_of 10 q) + 8) (do { (m, len) \<leftarrow> r; u07toa_shift m p w len })"
proof -
  obtain m1 len where r: "r = Some (m1, len)" using st unfolding stored_def by blast
  have "stored m p (text_of 10 q @ digits_text (last_digits 10 7 (unat w))) (length (text_of 10 q) + 8)
      (u07toa_shift m1 p w len)"
    using st r7 k unfolding r by (intro u07toa_shift_stored) (simp_all add: word_less_nat_alt del: last_digits.simps)
  then show ?thesis
    unfolding split_at_7 [OF q(2)] q(1) [symmetric] r7 r by (simp del: last_digits.simps)
qed

lemma u32toa_stored:
  assumes "p + 11 \<le> length m"
  shows "stored m p (text_of 10 (unat n)) 11 (u32toa be m p n)"
proof -
  consider "n < 10" | "\<not> n < 10" "n < 10000000" | "\<not> n < 10" "\<not> n < 10000000" by blast
  then show ?thesis
  proof cases
    case 1
    with assms have "stored m p (text_of 10 (unat n)) 2 (u32toa be m p n)"
      by (intro storedI [where rest = "[]"])
        (simp_all add: u32toa_def digits_of_small word_less_nat_alt digit_char mem_set_frame nth_append)
    then show ?thesis by (rule stored_weaken) (use assms in simp_all)
  next
    case 2
    then have "u32toa be m p n = u7toa_shift be m p n" by (simp add: u32toa_def word_less_nat_alt word_le_nat_alt)
    then have "stored m p (text_of 10 (unat n)) 8 (u32toa be m p n)"
      using u7toa_shift_eq [of n p m be] assms 2 by simp
    then show ?thesis by (rule stored_weaken) (use assms in simp_all)
  next
    case 3
    let ?q = "n div 10000000" and ?r = "n mod 10000000"
    have "unat n < 10000000000" by (rule less_trans [OF unat_u32_less]) simp
    then have q: "unat ?q < 10 ^ 3" by (simp add: unat_div div_less_iff_less_mult)
    then have lq: "length (digits_of 10 (unat ?q)) \<le> 3" using length_text10 [of "unat ?q" 2] by simp
    have st: "stored m p (text_of 10 (unat ?q)) 8 (u7toa_shift be m p ?q)"
      using q assms by (intro u7toa_shift_eq) (simp_all add: word_less_nat_alt)
    have "stored m p (text_of 10 (unat n)) (length (digits_of 10 (unat ?q)) + 8) (u32toa be m p n)"
      using stored_more_digits [OF st unat_mod [of n "10000000", simplified] unat_div [of n "10000000", simplified]] 3 lq assms
      by (simp add: u32toa_def word_less_nat_alt word_le_nat_alt)
    then show ?thesis by (rule stored_weaken) (use assms lq in simp_all)
  qed
qed

lemma unat_ucast_u64_u32: "unat (x :: u64) < 2 ^ 32 \<Longrightarrow> unat (ucast x :: u32) = unat x"
  by (simp add: unsigned_ucast_eq take_bit_nat_eq_self)

lemma u64toa_stored:
  assumes "p + 21 \<le> length m"
  shows "stored m p (text_of 10 (unat n)) 21 (u64toa be m p n)"
proof (cases "unat n < 2 ^ 32")
  case True
  then have "u64toa be m p n = u32toa be m p (ucast n)"
    by (simp add: u64toa_def word_less_nat_alt)
  moreover have "stored m p (text_of 10 (unat n)) 11 (u32toa be m p (ucast n))"
    using u32toa_stored [of p m "ucast n" be] assms True by (simp add: unat_ucast_u64_u32)
  ultimately have "stored m p (text_of 10 (unat n)) 11 (u64toa be m p n)" by simp
  then show ?thesis by (rule stored_weaken) (use assms in simp_all)
next
  case big: False
  let ?n1 = "n div 10000000" and ?r = "ucast (n mod 10000000) :: u32"
  have n64: "unat n < 100000000000000000000" by (rule less_trans [OF unat_u64_less]) simp
  have r: "unat ?r = unat n mod 10000000"
    by (subst unat_ucast_u64_u32) (simp_all add: unat_mod)
  have n: "10000000 \<le> unat n" "unat ?n1 = unat n div 10000000" using big by (simp_all add: unat_div)
  define r1 where "r1 = (if ?n1 \<ge> 10000000 then
      (do { (m, len) \<leftarrow> u7toa_shift be m p (ucast (?n1 div 10000000));
            u07toa_shift m p (ucast (?n1 mod 10000000)) len })
    else u7toa_shift be m p (ucast ?n1))"
  have eq: "u64toa be m p n = do { (m, len) \<leftarrow> r1; u07toa_shift m p ?r len }"
    using big n(1) by (simp add: u64toa_def r1_def Let_def word_less_nat_alt word_le_nat_alt)
  have n1: "unat ?n1 < 10 ^ Suc 12"
    unfolding n(2) using n64 by (simp add: div_less_iff_less_mult)
  have l1: "length (digits_of 10 (unat ?n1)) \<le> 13"
    using length_text10 [OF n1] by simp
  have "\<exists>k. stored m p (text_of 10 (unat ?n1)) k r1 \<and> k \<le> length (digits_of 10 (unat ?n1)) + 8"
  proof (cases "unat ?n1 < 10000000")
    case True
    then have e: "unat (ucast ?n1 :: u32) = unat ?n1" by (intro unat_ucast_u64_u32) simp
    then have "stored m p (text_of 10 (unat ?n1)) 8 (u7toa_shift be m p (ucast ?n1))"
      using u7toa_shift_eq [of "ucast ?n1" p m be] assms True by (simp add: word_less_nat_alt)
    with True show ?thesis by (intro exI [of _ 8]) (simp add: r1_def word_le_nat_alt)
  next
    case False
    let ?q = "ucast (?n1 div 10000000) :: u32"
    have "unat ?n1 div 10000000 < 10 ^ Suc 5" using n1 by (simp add: div_less_iff_less_mult)
    then have q: "unat ?q = unat ?n1 div 10000000" "unat ?q < 10 ^ Suc 5"
      using unat_ucast_u64_u32 [of "?n1 div 10000000"] by (simp_all add: unat_div)
    have lq: "length (digits_of 10 (unat ?q)) \<le> 6" using length_text10 [OF q(2)] by simp
    have st: "stored m p (text_of 10 (unat ?q)) 8 (u7toa_shift be m p ?q)"
      using q assms by (intro u7toa_shift_eq) (simp_all add: word_less_nat_alt)
    have "unat (ucast (?n1 mod 10000000) :: u32) = unat ?n1 mod 10000000"
      by (subst unat_ucast_u64_u32) (simp_all add: unat_mod)
    from stored_more_digits [OF st this q(1)] False lq assms
    have st1: "stored m p (text_of 10 (unat ?n1)) (length (digits_of 10 (unat ?q)) + 8) r1"
      by (simp add: r1_def word_le_nat_alt)
    have "length (digits_of 10 (unat ?n1)) = length (digits_of 10 (unat ?q)) + 7"
      using False digits_of_split [of 10 7 "unat ?n1"] by (simp add: q(1) del: last_digits.simps)
    with st1 show ?thesis by (intro exI [of _ "length (digits_of 10 (unat ?q)) + 8"]) simp
  qed
  then obtain k where k: "stored m p (text_of 10 (unat ?n1)) k r1" "k \<le> length (digits_of 10 (unat ?n1)) + 8"
    by blast
  have "stored m p (text_of 10 (unat n)) (length (digits_of 10 (unat ?n1)) + 8) (u64toa be m p n)"
    unfolding eq using l1 assms by (intro stored_more_digits [OF k(1) r n(2,1) k(2)]) simp
  then show ?thesis by (rule stored_weaken) (use assms l1 in simp_all)
qed

lemma unat_of_sint:
  fixes n :: "'a::len word"
  shows "0 \<le> sint n \<Longrightarrow> unat n = nat (sint n)"
    and "\<not> 0 \<le> sint n \<Longrightarrow> unat (- n) = nat (- sint n)"
proof -
  have r: "- (2 ^ (LENGTH('a) - 1)) \<le> sint n" "sint n < 2 ^ (LENGTH('a) - 1)"
    "(2::int) ^ (LENGTH('a) - 1) < 2 ^ LENGTH('a)"
    by (rule sint_ge sint_lt power_strict_increasing; simp)+
  have "n = word_of_int (sint n)" "- n = word_of_int (- sint n)" by simp_all
  then have u: "unat n = nat (take_bit LENGTH('a) (sint n))" "unat (- n) = nat (take_bit LENGTH('a) (- sint n))"
    by (metis of_nat_id unsigned_of_int)+
  show "0 \<le> sint n \<Longrightarrow> unat n = nat (sint n)"
    unfolding u using r by (subst take_bit_int_eq_self) linarith+
  show "\<not> 0 \<le> sint n \<Longrightarrow> unat (- n) = nat (- sint n)"
    unfolding u using r by (subst take_bit_int_eq_self) linarith+
qed

text \<open>A signed conversion from an unsigned one.\<close>

lemma signed_stored:
  fixes n :: "'a::len word"
  assumes u: "\<And>m p n. p + k \<le> length m \<Longrightarrow> stored m p (text_of b (unat n)) k (f m p n)"
    and m: "p + (k + 1) \<le> length m"
  shows "stored m p (int_text b (sint n)) (k + 1)
    (if 0 \<le> sint n then f m p n
     else do { m \<leftarrow> mem_set m p 0x2D; (m, len) \<leftarrow> f m (p + 1) (- n); Some (m, 1 + len) })"
proof (cases "0 \<le> sint n")
  case True
  have "stored m p (text_of b (unat n)) k (f m p n)" by (rule u) (use m in simp)
  then have "stored m p (text_of b (unat n)) (k + 1) (f m p n)" by (rule stored_weaken) (use m in simp_all)
  with True show ?thesis by (simp add: int_text_def unat_of_sint(1))
next
  case False
  then show ?thesis
    using stored_sign [where f = "\<lambda>m. f m (p + 1) (- n)", OF u] m
    by (simp add: int_text_def unat_of_sint(2))
qed

subsection \<open>The radix loops\<close>

lemma mem_get_digits36: "n < 36 \<Longrightarrow> mem_get digits36 n = Some (digits36 ! n)"
  by (simp add: mem_get_def digits36_def)

lemma put_back_in: "0 < e \<Longrightarrow> e < length m \<Longrightarrow> put_back m e c = Some (m[e := c], e - 1)"
  by (simp add: put_back_def mem_simps)

lemma radix_digits_div_eq:
  fixes n base :: "'a::len word"
  assumes "2 \<le> unat base" "unat base \<le> 36"
  shows "e < length m \<Longrightarrow> length (digits_of (unat base) (unat n)) \<le> Suc e \<Longrightarrow>
    (let s = text_of (unat base) (unat n)
     in radix_digits_div m e n base = Some (take (Suc e - length s) m @ s @ drop (Suc e) m))"
proof (induction "unat n" arbitrary: m e n rule: less_induct)
  case less
  let ?b = "unat base"
  show ?case
  proof (cases "unat n < ?b")
    case True
    with assms less.prems show ?thesis
      by (simp add: radix_digits_div.simps [of m e n] word_le_nat_alt digits_of_small mem_get_digits36
          mem_set_frame)
  next
    case False
    let ?q = "unat n div ?b" and ?s = "text_of (unat base) (unat n div unat base)"
    have q: "unat (n div base) = ?q" by (simp add: unat_div)
    have "?q < unat n" using False assms(1) by (intro div_less_dividend) linarith+
    then have "unat (n div base) < unat n" using q by simp
    have d: "digits_of ?b (unat n) = digits_of ?b ?q @ [unat n mod ?b]"
      using False assms(1) by (simp add: digits_of_step)
    have "length ?s \<le> e" using less.prems(2) unfolding d by simp
    moreover have "0 < length ?s" using length_digits_of_pos [of ?b ?q] unfolding digits_text_simps(4) .
    ultimately have e: "0 < e" "length ?s \<le> e" "Suc (e - 1) = e" by linarith+
    let ?c = "digits36 ! (unat n mod ?b)"
    have "unat (n mod base) < unat base" using assms(1) by (simp add: unat_mod)
    then have "unat (n mod base) < 36" using assms(2) by linarith
    then have "radix_digits_div m e n base = radix_digits_div (m[e := ?c]) (e - 1) (n div base) base"
      using False assms less.prems e
      by (simp add: radix_digits_div.simps [of m e n] word_le_nat_alt unat_mod mem_get_digits36 put_back_in)
    also have "\<dots> = Some (take (e - length ?s) (m[e := ?c]) @ ?s @ drop e (m[e := ?c]))"
      using less.hyps [of "n div base" "e - 1" "m[e := ?c]"] \<open>unat (n div base) < unat n\<close> less.prems e
      by (simp add: q Let_def)
    also have "drop e (m[e := ?c]) = ?c # drop (Suc e) m"
      using less.prems(1) by (simp add: upd_conv_take_nth_drop)
    finally show ?thesis by (simp add: d Let_def)
  qed
qed

lemma radix_digits_shift_div:
  fixes n base :: "'a::len word"
  assumes "unat base = 2 ^ s" "0 < s"
  shows "radix_digits_shift m e n base s = radix_digits_div m e n base"
  using assms
proof (induction m e n base s rule: radix_digits_shift.induct)
  case (1 m e n base s)
  have "(2::nat) ^ 1 \<le> 2 ^ s" using 1(3) by (intro power_increasing) simp_all
  then have b: "\<not> unat base < 2" "base \<noteq> 0" using 1(2) by (auto simp: unat_eq_0 [symmetric])
  have "unat (n AND (push_bit s 1 - 1)) = unat (n mod base)"
    using 1(2) by (simp add: unat_mod unat_and_mask flip: mask_eq_exp_minus_1)
  moreover have "drop_bit s n = n div base"
    using 1(2) by (intro word_eq_unatI) (simp add: unat_drop_bit unat_div)
  ultimately show ?case
    using b 1(1) [OF _ _ _ _ refl] 1(2,3)
    by (simp add: radix_digits_shift.simps [of m e n] radix_digits_div.simps [of m e n] split: bind_split)
qed

lemma radix_count_eq:
  fixes n base :: "'a::len word"
  assumes b: "2 \<le> unat base" and ovf: "unat n * unat base < 2 ^ LENGTH('a)"
  shows "k < length (digits_of (unat base) (unat n)) \<Longrightarrow> unat nbase = unat base ^ Suc k \<Longrightarrow>
    radix_count n nbase base len = Some (len + (length (digits_of (unat base) (unat n)) - Suc k))"
proof (induction "length (digits_of (unat base) (unat n)) - k" arbitrary: k nbase len rule: less_induct)
  case less
  let ?L = "length (digits_of (unat base) (unat n))"
  have iff: "?L \<le> Suc k \<longleftrightarrow> unat n < unat nbase"
    using length_digits_of_le [OF b] less.prems(2) by simp
  show ?case
  proof (cases "unat n < unat nbase")
    case True
    with iff less.prems(1) have "?L = Suc k" by simp
    with True show ?thesis by (subst radix_count.simps) (simp add: word_le_nat_alt)
  next
    case False
    with iff have k: "Suc k < ?L" by simp
    have "unat nbase * unat base < 2 ^ LENGTH('a)"
      using False by (intro le_less_trans [OF mult_le_mono1 ovf]) simp
    then have "unat (nbase * base) = unat base ^ Suc (Suc k)"
      using less.prems(2) by (simp add: unat_mult_small)
    with less.hyps [of "Suc k" "nbase * base" "len + 1"] k
    have "radix_count n (nbase * base) base (len + 1) = Some (len + 1 + (?L - Suc (Suc k)))"
      by simp
    with False k show ?thesis by (subst radix_count.simps) (simp add: word_le_nat_alt)
  qed
qed

lemma bitlen_digits:
  assumes "0 < n" "0 < s"
  shows "(bitlen n + s - 1) div s = length (digits_of (2 ^ s) n)"
proof -
  let ?L = "length (digits_of (2 ^ s) n)" and ?c = "(bitlen n + s - 1) div s"
  have "(2::nat) ^ 1 \<le> 2 ^ s" using assms(2) by (intro power_increasing) simp_all
  then have two: "(2::nat) \<le> 2 ^ s" by simp
  have "?L \<le> Suc k \<longleftrightarrow> ?c \<le> Suc k" for k
  proof -
    have "?L \<le> Suc k \<longleftrightarrow> bitlen n \<le> s * Suc k"
      unfolding length_digits_of_le [OF two] bitlen_le_iff power_mult ..
    moreover have "?c \<le> Suc k \<longleftrightarrow> bitlen n + s - 1 < s * Suc (Suc k)"
      using assms(2) by (simp add: less_Suc_eq_le [symmetric] div_less_iff_less_mult mult.commute)
    ultimately show ?thesis using assms(2) by auto
  qed
  moreover have "0 < ?L" by simp
  moreover have "0 < ?c" using assms bitlen_pos [OF assms(1)] by (simp add: div_greater_zero_iff)
  ultimately show ?thesis by (metis Suc_pred le_antisym order_refl)
qed

text \<open>The stores of the radix conversions, once the length is known.\<close>

lemma radix_tail:
  fixes n base :: "'a::len word"
  assumes b: "2 \<le> unat base" "unat base \<le> 36" "base \<le> n" and r: "r = unat n mod unat base"
    and l: "len = length (digits_of (unat base) (unat n))" "p + len < length m"
  shows "stored m p (text_of (unat base) (unat n)) (len + 1)
    (do { (m, e) \<leftarrow> put_back m (p + len) 0;
          d \<leftarrow> mem_get digits36 r;
          (m, e) \<leftarrow> put_back m e d;
          m \<leftarrow> radix_digits_div m e (n div base) base;
          Some (m, len) })"
proof -
  let ?b = "unat base" and ?c = "digits36 ! r"
  let ?s = "text_of ?b (unat n div ?b)"
  have d: "digits_of ?b (unat n) = digits_of ?b (unat n div ?b) @ [r]"
    using b r by (simp add: digits_of_step word_le_nat_alt)
  have "0 < length ?s" using length_digits_of_pos [of ?b "unat n div ?b"] unfolding digits_text_simps(4) .
  then have s: "0 < length ?s" "len = length ?s + 1" unfolding l(1) d by simp_all
  have "r < ?b" using b(1) r by simp
  then have "mem_get digits36 r = Some ?c" using b(2) by (simp add: mem_get_digits36)
  moreover define m1 where "m1 = m[p + len := 0, p + len - 1 := ?c]"
  moreover have "radix_digits_div m1 (p + len - 2) (n div base) base =
      Some (take p m @ ?s @ ?c # 0 # drop (p + len + 1) m)"
  proof -
    have m1: "m1 = take (p + len - 1) m @ [?c, 0] @ drop (p + len + 1) m"
      using s l(2) unfolding m1_def
      by (intro nth_equalityI) (auto simp: nth_append nth_list_update intro!: arg_cong [where f = "nth m"])
    have x: "Suc (p + len - 2) = p + len - 1" "p + len - 1 - length ?s = p" using s by linarith+
    have "radix_digits_div m1 (p + len - 2) (n div base) base =
        Some (take p m1 @ ?s @ drop (p + len - 1) m1)"
      using radix_digits_div_eq [OF b(1,2), of "p + len - 2" m1 "n div base"] s l(2)
      unfolding x by (simp add: m1 unat_div x Let_def)
    then show ?thesis using s l(2) by (simp add: m1)
  qed
  ultimately show ?thesis
    using s l(2) by (intro storedI [where rest = "[]"]) (simp_all add: put_back_in d l(1) [symmetric] numeral_2_eq_2)
qed

lemma radix_shift_power:
  assumes "2 \<le> b" "b \<le> 36"
  shows "b < length radix_shift" "radix_shift ! b \<noteq> 0 \<Longrightarrow> b = 2 ^ (radix_shift ! b)"
proof -
  have "list_all (\<lambda>b. b < length radix_shift \<and> (radix_shift ! b \<noteq> 0 \<longrightarrow> b = 2 ^ (radix_shift ! b))) [2..<37]"
    by (simp add: radix_shift_def upt_rec)
  moreover have "b \<in> set [2..<37]" unfolding set_upt atLeastLessThan_iff using assms by linarith
  ultimately show "b < length radix_shift" "radix_shift ! b \<noteq> 0 \<Longrightarrow> b = 2 ^ (radix_shift ! b)"
    unfolding list_all_iff by blast+
qed

lemma base_and_63: "unat (base :: u32) \<le> 36 \<Longrightarrow> unat (base AND 63) = unat base"
  using unat_and_mask [of base 6] by (simp add: mask_eq_exp_minus_1)

lemma shift_as_div:
  fixes n base :: "'a::len word"
  assumes "unat base = 2 ^ s"
  shows "unat (n AND (push_bit s 1 - 1)) = unat n mod unat base" "drop_bit s n = n div base"
proof -
  show "unat (n AND (push_bit s 1 - 1)) = unat n mod unat base"
    using assms by (simp add: unat_and_mask flip: mask_eq_exp_minus_1)
  show "drop_bit s n = n div base"
    using assms by (intro word_eq_unatI) (simp add: unat_drop_bit unat_div)
qed

lemma radix_length:
  assumes "2 \<le> b" "n < 2 ^ Suc k"
  shows "length (digits_of b n) \<le> Suc k"
proof -
  have "2 ^ Suc k \<le> b ^ Suc k" using assms(1) by (rule power_mono) simp
  then show ?thesis using length_digits_of_le [OF assms(1)] assms(2) by (meson less_le_trans)
qed

lemma radix_count_total:
  fixes n base :: "'a::len word"
  assumes "2 \<le> unat base" "base \<le> n"
  shows "radix_count (n div base) base base 2 = Some (length (digits_of (unat base) (unat n)))"
proof -
  have "unat (n div base) * unat base \<le> unat n" by (simp add: unat_div)
  then have "unat (n div base) * unat base < 2 ^ LENGTH('a)" by (rule le_less_trans) (rule unsigned_less)
  then show ?thesis
    using radix_count_eq [of base "n div base" 0 base 2] assms length_digits_of_pos [of "unat base" "unat n div unat base"]
    by (simp add: digits_of_step word_le_nat_alt unat_div Suc_le_eq)
qed

lemma one_digit_stored:
  assumes "unat n < b" "b \<le> 36" "p + 2 \<le> length m" "2 \<le> b"
  shows "stored m p (text_of b (unat n)) 2
    (do { d \<leftarrow> mem_get digits36 (unat n); m \<leftarrow> mem_set m p d; m \<leftarrow> mem_set m (p + 1) 0; Some (m, 1) })"
  using assms by (intro storedI [where rest = "[]"])
    (simp_all add: digits_of_small mem_get_digits36 mem_set_frame nth_append)

lemma u32toa_radix_stored:
  assumes b: "2 \<le> unat base" "unat base \<le> 36" and m: "p + 33 \<le> length m"
  shows "stored m p (text_of (unat base) (unat n)) 33 (u32toa_radix be m p n base)"
proof -
  let ?s = "radix_shift ! unat base" and ?L = "length (digits_of (unat base) (unat n))"
  have s: "mem_get radix_shift (unat (base AND 63)) = Some ?s"
    using radix_shift_power(1) [OF b] b by (simp add: base_and_63 mem_simps)
  have L: "?L \<le> 32" using radix_length [OF b(1), of "unat n" 31] by simp
  have b0: "base \<noteq> 0" using b by auto
  consider "base = 10" | "base \<noteq> 10" "n < base" | "base \<noteq> 10" "base \<le> n" "?s \<noteq> 0"
    | "base \<noteq> 10" "base \<le> n" "?s = 0" by fastforce
  then show ?thesis
  proof cases
    case 1
    then have "stored m p (text_of (unat base) (unat n)) 11 (u32toa_radix be m p n base)"
      using u32toa_stored [of p m n be] m by (simp add: u32toa_radix_def)
    then show ?thesis by (rule stored_weaken) (use m in simp_all)
  next
    case 2
    then have "stored m p (text_of (unat base) (unat n)) 2 (u32toa_radix be m p n base)"
      using one_digit_stored [of n "unat base" p m] b m by (simp add: u32toa_radix_def word_less_nat_alt)
    then show ?thesis by (rule stored_weaken) (use m in simp_all)
  next
    case 3
    have p: "unat base = 2 ^ ?s" by (rule radix_shift_power(2) [OF b 3(3)])
    have n0: "0 < unat n" "n \<noteq> 0" using 3(2) b by (auto simp: word_le_nat_alt)
    have "bitlen (unat n) \<le> 32" by (simp add: bitlen_le_iff)
    then have "(32 - (32 - bitlen (unat n)) + ?s - 1) div ?s = ?L"
      using bitlen_digits [OF n0(1), of ?s] 3(3) p by simp
    then have "stored m p (text_of (unat base) (unat n)) (?L + 1) (u32toa_radix be m p n base)"
      using radix_tail [OF b 3(2) shift_as_div(1) [OF p] refl, of p m] 3 s n0 L m
        radix_digits_shift_div [OF p]
      by (simp add: u32toa_radix_def clz32_def Let_def shift_as_div(2) [OF p] leD del: One_nat_def)
    then show ?thesis by (rule stored_weaken) (use m L in simp_all)
  next
    case 4
    have "stored m p (text_of (unat base) (unat n)) (?L + 1) (u32toa_radix be m p n base)"
      using radix_tail [OF b 4(2) unat_mod refl, of p m] 4 s L m b0 radix_count_total [OF b(1) 4(2)]
      by (simp add: u32toa_radix_def leD del: One_nat_def)
    then show ?thesis by (rule stored_weaken) (use m L in simp_all)
  qed
qed

lemma u64toa_radix_stored:
  assumes b: "2 \<le> unat base" "unat base \<le> 36" and m: "p + 65 \<le> length m"
  shows "stored m p (text_of (unat base) (unat n)) 65 (u64toa_radix be m p n base)"
proof -
  let ?s = "radix_shift ! unat base" and ?L = "length (digits_of (unat base) (unat n))"
  let ?b = "ucast base :: u64"
  have s: "mem_get radix_shift (unat (base AND 63)) = Some ?s"
    using radix_shift_power(1) [OF b] b by (simp add: base_and_63 mem_simps)
  have L: "?L \<le> 64" using radix_length [OF b(1), of "unat n" 63] by simp
  have ub: "unat ?b = unat base" by (simp add: unsigned_ucast_eq take_bit_nat_eq_self less_trans [OF unat_u32_less])
  note b' = b [folded ub]
  have b0: "base \<noteq> 0" using b by auto
  consider "base = 10" | "base \<noteq> 10" "n < ?b" "?s \<noteq> 0" | "base \<noteq> 10" "?b \<le> n" "?s \<noteq> 0"
    | "base \<noteq> 10" "?s = 0" "n < 0x100000000" | "base \<noteq> 10" "?s = 0" "\<not> n < 0x100000000" by fastforce
  then show ?thesis
  proof cases
    case 1
    then have "stored m p (text_of (unat base) (unat n)) 21 (u64toa_radix be m p n base)"
      using u64toa_stored [of p m n be] m by (simp add: u64toa_radix_def)
    then show ?thesis by (rule stored_weaken) (use m in simp_all)
  next
    case 2
    then have "stored m p (text_of (unat base) (unat n)) 2 (u64toa_radix be m p n base)"
      using one_digit_stored [of n "unat base" p m] b m s by (simp add: u64toa_radix_def word_less_nat_alt ub)
    then show ?thesis by (rule stored_weaken) (use m in simp_all)
  next
    case 3
    have p: "unat ?b = 2 ^ ?s" unfolding ub by (rule radix_shift_power(2) [OF b 3(3)])
    have n0: "0 < unat n" "n \<noteq> 0" using 3(2) b' by (auto simp: word_le_nat_alt)
    have "bitlen (unat n) \<le> 64" by (simp add: bitlen_le_iff)
    then have "(64 - (64 - bitlen (unat n)) + ?s - 1) div ?s = ?L"
      using bitlen_digits [OF n0(1), of ?s] 3(3) p ub by simp
    then have "stored m p (text_of (unat base) (unat n)) (?L + 1) (u64toa_radix be m p n base)"
      using radix_tail [OF b' 3(2) shift_as_div(1) [OF p] refl, of p m] 3 s n0 L m
        radix_digits_shift_div [OF p]
      by (simp add: u64toa_radix_def clz64_def Let_def shift_as_div(2) [OF p] ub leD del: One_nat_def)
    then show ?thesis by (rule stored_weaken) (use m L in simp_all)
  next
    case 4
    then have n: "unat (ucast n :: u32) = unat n"
      by (intro unat_ucast_u64_u32) (simp add: word_less_nat_alt)
    have "stored m p (text_of (unat base) (unat n)) 33 (u32toa_radix be m p (ucast n) base)"
      unfolding n [symmetric] by (rule u32toa_radix_stored [OF b]) (use m in simp)
    then have "stored m p (text_of (unat base) (unat n)) 33 (u64toa_radix be m p n base)"
      using 4 s by (simp add: u64toa_radix_def)
    then show ?thesis by (rule stored_weaken) (use m in simp_all)
  next
    case 5
    then have le: "?b \<le> n" using b' by (simp add: word_le_nat_alt word_less_nat_alt)
    have "stored m p (text_of (unat base) (unat n)) (?L + 1) (u64toa_radix be m p n base)"
      using radix_tail [OF b' le unat_mod refl, of p m] 5 s L m b0 radix_count_total [OF b'(1) le]
      by (simp add: u64toa_radix_def ub del: One_nat_def)
    then show ?thesis by (rule stored_weaken) (use m L in simp_all)
  qed
qed

text \<open>
  C33.  \<open>i64toa\<close> and \<open>i32toa\<close> store, in either byte order, the decimal text of any signed number,
  the smallest ones included, with its terminator and return its length; they change nothing
  outside the 22 or 12 bytes that their declarations require.
\<close>

theorem itoa_decimal:
  assumes "p + 22 \<le> length m" "q + 12 \<le> length m'"
  shows "stored m p (int_text 10 (sint n)) 22 (i64toa be m p n) \<and>
    stored m' q (int_text 10 (sint k)) 12 (i32toa be m' q k)"
proof
  show "stored m p (int_text 10 (sint n)) 22 (i64toa be m p n)"
    using signed_stored [where k = 21 and f = "u64toa be", OF u64toa_stored, of p m n] assms(1) by (simp add: i64toa_def)
  show "stored m' q (int_text 10 (sint k)) 12 (i32toa be m' q k)"
    using signed_stored [where k = 11 and f = "u32toa be", OF u32toa_stored, of q m' k] assms(2) by (simp add: i32toa_def)
qed

lemma itoa_decimal_witness:
  "stored (replicate 24 9) 1 (int_text 10 (- 9223372036854775808)) 22
     (i64toa False (replicate 24 9) 1 0x8000000000000000)"
  using itoa_decimal [of 1 "replicate 24 9" 0 "replicate 12 9" "0x8000000000000000" False 5] by simp

text \<open>
  C34.  \<open>i64toa_radix\<close> and \<open>i32toa_radix\<close> store the text of any signed number in any base from 2
  to 36, whether by shifts, by divisions or by the decimal special case, within 66 or 34
  bytes: the length they compute beforehand, from the leading zeros or by a product that might
  wrap, is the number of digits.
\<close>

theorem itoa_radix:
  assumes "2 \<le> unat base" "unat base \<le> 36" "p + 66 \<le> length m" "q + 34 \<le> length m'"
  shows "stored m p (int_text (unat base) (sint n)) 66 (i64toa_radix be m p n base) \<and>
    stored m' q (int_text (unat base) (sint k)) 34 (i32toa_radix be m' q k base)"
proof
  show "stored m p (int_text (unat base) (sint n)) 66 (i64toa_radix be m p n base)"
    using signed_stored [where k = 65 and f = "\<lambda>m p n. u64toa_radix be m p n base", OF u64toa_radix_stored [OF assms(1,2)], of p m n] assms(3)
    by (simp add: i64toa_radix_def)
  show "stored m' q (int_text (unat base) (sint k)) 34 (i32toa_radix be m' q k base)"
    using signed_stored [where k = 33 and f = "\<lambda>m p n. u32toa_radix be m p n base", OF u32toa_radix_stored [OF assms(1,2)], of q m' k] assms(4)
    by (simp add: i32toa_radix_def)
qed

lemma itoa_radix_witness:
  "stored (replicate 66 9) 0 (int_text 36 (- 1295)) 66 (i64toa_radix True (replicate 66 9) 0 (- 1295) 36)"
  using itoa_radix [of 36 0 "replicate 66 9" 0 "replicate 34 9" "- 1295" True 5] by simp

end
