(* ===== verification/Exchange.thy ===== *)
theory Exchange
  imports Prelude
begin

section \<open>Exchanging elements of an array\<close>

text \<open>
  The exchange functions of \<open>rqsort\<close> (src/quickjs/cutils.c) and \<open>exchange_func\<close>, which chooses
  one by the alignment and size of the elements.  Memory is a list of bytes, a pointer a
  position in it, and \<open>A\<close> the address of its first byte.  An access of more than one byte must
  be aligned.  The lemmas \<open>exchange_element\<close> and \<open>exchange_block\<close> show that the chosen function
  exchanges elements, and runs of elements, without a misaligned access.
\<close>

subsection \<open>Exchanging elements\<close>

type_synonym exchange_f = "u8 list \<Rightarrow> nat \<Rightarrow> nat \<Rightarrow> nat \<Rightarrow> u8 list option"

text \<open>Exchange of \<open>n\<close> units of \<open>w\<close> bytes, each with accesses that must be aligned.\<close>

fun exchange_units :: "nat \<Rightarrow> nat \<Rightarrow> u8 list \<Rightarrow> nat \<Rightarrow> nat \<Rightarrow> nat \<Rightarrow> u8 list option" where
  "exchange_units A w m a b 0 = Some m"
| "exchange_units A w m a b (Suc n) =
     (if w dvd A + a \<and> w dvd A + b then do {
        t \<leftarrow> mem_read m a w;
        u \<leftarrow> mem_read m b w;
        m \<leftarrow> mem_write m a u;
        m \<leftarrow> mem_write m b t;
        exchange_units A w m (a + w) (b + w) n }
      else None)"

definition exchange_bytes :: "nat \<Rightarrow> exchange_f" where
  "exchange_bytes A m a b sz = exchange_units A 1 m a b sz"

definition exchange_one_byte :: "nat \<Rightarrow> exchange_f" where
  "exchange_one_byte A m a b sz = exchange_units A 1 m a b 1"

definition exchange_int16s :: "nat \<Rightarrow> exchange_f" where
  "exchange_int16s A m a b sz = exchange_units A 2 m a b (sz div 2)"

definition exchange_one_int16 :: "nat \<Rightarrow> exchange_f" where
  "exchange_one_int16 A m a b sz = exchange_units A 2 m a b 1"

definition exchange_int32s :: "nat \<Rightarrow> exchange_f" where
  "exchange_int32s A m a b sz = exchange_units A 4 m a b (sz div 4)"

definition exchange_one_int32 :: "nat \<Rightarrow> exchange_f" where
  "exchange_one_int32 A m a b sz = exchange_units A 4 m a b 1"

definition exchange_int64s :: "nat \<Rightarrow> exchange_f" where
  "exchange_int64s A m a b sz = exchange_units A 8 m a b (sz div 8)"

definition exchange_one_int64 :: "nat \<Rightarrow> exchange_f" where
  "exchange_one_int64 A m a b sz = exchange_units A 8 m a b 1"

text \<open>Two words at a time, both saved before they are overwritten.\<close>

fun exchange_pairs :: "nat \<Rightarrow> u8 list \<Rightarrow> nat \<Rightarrow> nat \<Rightarrow> nat \<Rightarrow> u8 list option" where
  "exchange_pairs A m a b 0 = Some m"
| "exchange_pairs A m a b (Suc n) =
     (if 8 dvd A + a \<and> 8 dvd A + b then do {
        t \<leftarrow> mem_read m a 8;
        u \<leftarrow> mem_read m (a + 8) 8;
        x \<leftarrow> mem_read m b 8;
        m \<leftarrow> mem_write m a x;
        y \<leftarrow> mem_read m (b + 8) 8;
        m \<leftarrow> mem_write m (a + 8) y;
        m \<leftarrow> mem_write m b t;
        m \<leftarrow> mem_write m (b + 8) u;
        exchange_pairs A m (a + 16) (b + 16) n }
      else None)"

definition exchange_int128s :: "nat \<Rightarrow> exchange_f" where
  "exchange_int128s A m a b sz = exchange_pairs A m a b (sz div 16)"

definition exchange_one_int128 :: "nat \<Rightarrow> exchange_f" where
  "exchange_one_int128 A m a b sz = exchange_pairs A m a b 1"

definition exchange_func :: "nat \<Rightarrow> nat \<Rightarrow> nat \<Rightarrow> exchange_f" where
  "exchange_func A base sz =
     (let k = or (A + base) sz mod 16
      in if k = 0 then (if sz = 16 then exchange_one_int128 A else exchange_int128s A)
         else if k = 8 then (if sz = 8 then exchange_one_int64 A else exchange_int64s A)
         else if k \<in> {4, 12} then (if sz = 4 then exchange_one_int32 A else exchange_int32s A)
         else if k \<in> {2, 6, 10, 14} then (if sz = 2 then exchange_one_int16 A else exchange_int16s A)
         else (if sz = 1 then exchange_one_byte A else exchange_bytes A))"

subsection \<open>The exchange functions\<close>

lemma mem_read_at: "length P = p \<Longrightarrow> length X = n \<Longrightarrow> mem_read (P @ X @ R) p n = Some X"
  by (simp add: mem_read_def)

lemma mem_write_at: "length P = p \<Longrightarrow> length X = length Y \<Longrightarrow> mem_write (P @ X @ R) p Y = Some (P @ Y @ R)"
  by (simp add: mem_write_def)

lemma mem_read_at2: "length P + length X + length M = p \<Longrightarrow> length Y = n \<Longrightarrow>
    mem_read (P @ X @ M @ Y @ R) p n = Some Y"
  using mem_read_at [of "P @ X @ M" p Y n R] by simp

lemma mem_write_at2: "length P + length X + length M = p \<Longrightarrow> length Y = length Z \<Longrightarrow>
    mem_write (P @ X @ M @ Y @ R) p Z = Some (P @ X @ M @ Z @ R)"
  using mem_write_at [of "P @ X @ M" p Y Z R] by simp

lemma mem_write_read: "mem_read m p n = Some X \<Longrightarrow> mem_write m p X = Some m"
  by (auto simp: mem_read_def mem_write_def split: if_splits)
    (metis append_take_drop_id drop_drop add.commute)

text \<open>
  \<open>f\<close> exchanges the \<open>n\<close> bytes at \<open>a\<close> and at \<open>b\<close>, in either order of the arguments, or leaves
  the memory alone when they are the same.
\<close>

definition exchanges :: "exchange_f \<Rightarrow> nat \<Rightarrow> nat \<Rightarrow> nat \<Rightarrow> bool" where
  "exchanges f n a b \<longleftrightarrow>
     (\<forall>P X M Y Q. length P = a \<and> length X = n \<and> length Y = n \<and> a + n + length M = b \<longrightarrow>
        f (P @ X @ M @ Y @ Q) a b n = Some (P @ Y @ M @ X @ Q) \<and>
        f (P @ X @ M @ Y @ Q) b a n = Some (P @ Y @ M @ X @ Q)) \<and>
     (\<forall>m. a = b \<and> a + n \<le> length m \<longrightarrow> f m a b n = Some m)"

lemma exchange_units_disjoint:
  "length P = a \<Longrightarrow> length X = w * n \<Longrightarrow> length Y = w * n \<Longrightarrow> a + w * n + length M = b \<Longrightarrow>
     w dvd A + a \<Longrightarrow> w dvd A + b \<Longrightarrow>
     exchange_units A w (P @ X @ M @ Y @ Q) a b n = Some (P @ Y @ M @ X @ Q) \<and>
     exchange_units A w (P @ X @ M @ Y @ Q) b a n = Some (P @ Y @ M @ X @ Q)"
proof (induction n arbitrary: P X Y M a b)
  case (Suc n)
  define X1 X2 Y1 Y2 where d: "X1 = take w X" "X2 = drop w X" "Y1 = take w Y" "Y2 = drop w Y"
  have X: "X = X1 @ X2" "Y = Y1 @ Y2" by (simp_all add: d)
  have l: "length X1 = w" "length Y1 = w" "length X2 = w * n" "length Y2 = w * n"
    using Suc.prems by (simp_all add: d)
  have ab: "w dvd A + (a + w)" "w dvd A + (b + w)" using Suc.prems(5,6) by (simp_all flip: add.assoc)
  have ih: "exchange_units A w ((P @ Y1) @ X2 @ (M @ X1) @ Y2 @ Q) (a + w) (b + w) n =
      Some ((P @ Y1) @ Y2 @ (M @ X1) @ X2 @ Q)"
    "exchange_units A w ((P @ Y1) @ X2 @ (M @ X1) @ Y2 @ Q) (b + w) (a + w) n =
      Some ((P @ Y1) @ Y2 @ (M @ X1) @ X2 @ Q)"
    using Suc.IH [of "P @ Y1" "a + w" X2 Y2 "M @ X1" "b + w"] l ab Suc.prems(1-4) by simp_all
  have b: "length P + length X1 + length (X2 @ M) = b" "length P + length Y1 + length (X2 @ M) = b"
    using Suc.prems(1,4) l by simp_all
  note s = mem_read_at [OF Suc.prems(1) l(1), of "X2 @ M @ Y1 @ Y2 @ Q"]
    mem_read_at2 [OF b(1) l(2), of "Y2 @ Q", simplified]
    mem_write_at [OF Suc.prems(1), of X1 Y1 "X2 @ M @ Y1 @ Y2 @ Q"]
    mem_write_at2 [OF b(2), of Y1 X1 "Y2 @ Q", simplified]
    mem_write_at2 [OF b(1), of Y1 X1 "Y2 @ Q", simplified]
    mem_write_at [OF Suc.prems(1), of X1 Y1 "X2 @ M @ X1 @ Y2 @ Q"]
  show ?case
    using ih Suc.prems(5,6) s l unfolding X by simp
qed simp

lemma exchange_units_same:
  "w dvd A + a \<Longrightarrow> a + w * n \<le> length m \<Longrightarrow> exchange_units A w m a a n = Some m"
proof (induction n arbitrary: a)
  case (Suc n)
  have r: "mem_read m a w = Some (take w (drop a m))" using Suc.prems by (simp add: mem_simps)
  have "w dvd A + (a + w)" using Suc.prems(1) by (simp flip: add.assoc)
  then show ?case using Suc by (simp add: r mem_write_read [OF r])
qed simp

lemma exchanges_units:
  assumes "w dvd A + a" "w dvd A + b" "w dvd n"
  shows "exchanges (\<lambda>m a b k. exchange_units A w m a b (n div w)) n a b"
proof -
  have n: "w * (n div w) = n" using assms(3) by simp
  show ?thesis
    using exchange_units_disjoint [where w = w and n = "n div w" and a = a and b = b and A = A, unfolded n]
      exchange_units_same [of w A a "n div w", unfolded n] assms(1,2)
    unfolding exchanges_def by auto
qed

text \<open>The exchange of pairs of words is one of units of 16 bytes with a weaker alignment.\<close>

lemma mem_at_skip:
  assumes "0 < length xs" "length xs \<le> p"
  shows "mem_read (xs @ ys) p n = mem_read ys (p - length xs) n"
    "mem_write (xs @ ys) p Z = map_option (append xs) (mem_write ys (p - length xs) Z)"
  using assms by (auto simp: mem_read_def mem_write_def)

lemma mem_at_0:
  "length X = n \<Longrightarrow> mem_read (X @ R) 0 n = Some X"
  "length X = length Z \<Longrightarrow> mem_write (X @ R) 0 Z = Some (Z @ R)"
  by (simp_all add: mem_read_def mem_write_def)

lemma exchange_pairs_step:
  assumes "length P = a" "length X1 = 8" "length X2 = 8" "length Y1 = 8" "length Y2 = 8"
    "a + 16 + length M = b" "8 dvd A + a" "8 dvd A + b"
  shows "exchange_pairs A (P @ X1 @ X2 @ M @ Y1 @ Y2 @ Q) a b (Suc n) =
      exchange_pairs A (P @ Y1 @ Y2 @ M @ X1 @ X2 @ Q) (a + 16) (b + 16) n"
    "exchange_pairs A (P @ X1 @ X2 @ M @ Y1 @ Y2 @ Q) b a (Suc n) =
      exchange_pairs A (P @ Y1 @ Y2 @ M @ X1 @ X2 @ Q) (b + 16) (a + 16) n"
proof -
  note at = mem_at_0 [where X = X1] mem_at_0 [where X = X2] mem_at_0 [where X = Y1] mem_at_0 [where X = Y2]
  have P: "mem_read (P @ R) p k = mem_read R (p - a) k"
    "mem_write (P @ R) p Z = map_option (append P) (mem_write R (p - a) Z)" if "a \<le> p" for R p k Z
    using that assms(1) by (auto simp: mem_read_def mem_write_def)
  have M: "mem_read (M @ R) p k = mem_read R (p - length M) k"
    "mem_write (M @ R) p Z = map_option (append M) (mem_write R (p - length M) Z)" if "length M \<le> p" for R p k Z
    using that by (auto simp: mem_read_def mem_write_def)
  have b: "b = a + 16 + length M" using assms(6) by simp
  show "exchange_pairs A (P @ X1 @ X2 @ M @ Y1 @ Y2 @ Q) a b (Suc n) =
      exchange_pairs A (P @ Y1 @ Y2 @ M @ X1 @ X2 @ Q) (a + 16) (b + 16) n"
    using assms(7,8) unfolding b
    by (simp add: P M at mem_at_skip assms(2-5))
  show "exchange_pairs A (P @ X1 @ X2 @ M @ Y1 @ Y2 @ Q) b a (Suc n) =
      exchange_pairs A (P @ Y1 @ Y2 @ M @ X1 @ X2 @ Q) (b + 16) (a + 16) n"
    using assms(7,8) unfolding b
    by (simp add: P M at mem_at_skip assms(2-5))
qed

lemma exchange_pairs_disjoint:
  "length P = a \<Longrightarrow> length X = 16 * n \<Longrightarrow> length Y = 16 * n \<Longrightarrow> a + 16 * n + length M = b \<Longrightarrow>
     8 dvd A + a \<Longrightarrow> 8 dvd A + b \<Longrightarrow>
     exchange_pairs A (P @ X @ M @ Y @ Q) a b n = Some (P @ Y @ M @ X @ Q) \<and>
     exchange_pairs A (P @ X @ M @ Y @ Q) b a n = Some (P @ Y @ M @ X @ Q)"
proof (induction n arbitrary: P X Y M a b)
  case (Suc n)
  define X1 X2 X3 Y1 Y2 Y3 where d: "X1 = take 8 X" "X2 = take 8 (drop 8 X)" "X3 = drop 16 X"
    "Y1 = take 8 Y" "Y2 = take 8 (drop 8 Y)" "Y3 = drop 16 Y"
  have XY: "X = X1 @ X2 @ X3" "Y = Y1 @ Y2 @ Y3"
    using append_take_drop_id [of 8 "drop 8 X"] append_take_drop_id [of 8 "drop 8 Y"] by (simp_all add: d)
  have l: "length X1 = 8" "length X2 = 8" "length Y1 = 8" "length Y2 = 8" "length X3 = 16 * n" "length Y3 = 16 * n"
    using Suc.prems by (simp_all add: d)
  have ab: "8 dvd A + (a + 16)" "8 dvd A + (b + 16)" "a + 16 + length (X3 @ M) = b"
  proof -
    show "8 dvd A + (a + 16)" "8 dvd A + (b + 16)" using Suc.prems(5,6) by presburger+
    show "a + 16 + length (X3 @ M) = b" using Suc.prems(4) l(5) by simp
  qed
  show ?case
    using Suc.IH [of "P @ Y1 @ Y2" "a + 16" X3 Y3 "M @ X1 @ X2" "b + 16"] Suc.prems l ab
      exchange_pairs_step [OF Suc.prems(1) l(1-4) ab(3) Suc.prems(5,6), of "Y3 @ Q" n]
    by (simp add: XY)
qed simp

lemma exchange_pairs_same:
  "8 dvd A + a \<Longrightarrow> a + 16 * n \<le> length m \<Longrightarrow> exchange_pairs A m a a n = Some m"
proof (induction n arbitrary: a)
  case (Suc n)
  have r: "mem_read m a 8 = Some (take 8 (drop a m))" "mem_read m (a + 8) 8 = Some (take 8 (drop (a + 8) m))"
    using Suc.prems by (simp_all add: mem_simps)
  have "8 dvd A + (a + 16)" using Suc.prems(1) by presburger
  then show ?case using Suc by (simp add: r mem_write_read [OF r(1)] mem_write_read [OF r(2)])
qed simp

lemma exchanges_pairs:
  assumes "8 dvd A + a" "8 dvd A + b" "16 dvd n"
  shows "exchanges (\<lambda>m a b k. exchange_pairs A m a b (n div 16)) n a b"
proof -
  have n: "16 * (n div 16) = n" using assms(3) by simp
  show ?thesis
    using exchange_pairs_disjoint [where n = "n div 16" and a = a and b = b and A = A, unfolded n]
      exchange_pairs_same [of A a "n div 16", unfolded n] assms(1,2)
    unfolding exchanges_def by auto
qed

lemma pow2_dvd_or: "2 ^ i dvd or x y \<longleftrightarrow> 2 ^ i dvd x \<and> 2 ^ i dvd (y :: nat)"
  by (simp add: mod_eq_0_iff_dvd [symmetric] take_bit_eq_mod [symmetric] take_bit_or or_eq_0_iff)

lemma exchanges_cong:
  "(\<And>m a b. f m a b n = g m a b n) \<Longrightarrow> exchanges f n a b \<longleftrightarrow> exchanges g n a b"
  by (simp add: exchanges_def)

lemma exchange_func_kinds:
  obtains (pairs) "16 dvd A + base" "16 dvd s" "exchange_func A base s = (if s = 16 then exchange_one_int128 A else exchange_int128s A)"
  | (w8) "8 dvd A + base" "8 dvd s" "exchange_func A base s = (if s = 8 then exchange_one_int64 A else exchange_int64s A)"
  | (w4) "4 dvd A + base" "4 dvd s" "exchange_func A base s = (if s = 4 then exchange_one_int32 A else exchange_int32s A)"
  | (w2) "2 dvd A + base" "2 dvd s" "exchange_func A base s = (if s = 2 then exchange_one_int16 A else exchange_int16s A)"
  | (w1) "exchange_func A base s = (if s = 1 then exchange_one_byte A else exchange_bytes A)"
proof -
  define k where "k = or (A + base) s mod 16"
  note p = pow2_dvd_or [of _ "A + base" s]
  have eq: "exchange_func A base s =
     (if k = 0 then (if s = 16 then exchange_one_int128 A else exchange_int128s A)
         else if k = 8 then (if s = 8 then exchange_one_int64 A else exchange_int64s A)
         else if k \<in> {4, 12} then (if s = 4 then exchange_one_int32 A else exchange_int32s A)
         else if k \<in> {2, 6, 10, 14} then (if s = 2 then exchange_one_int16 A else exchange_int16s A)
         else (if s = 1 then exchange_one_byte A else exchange_bytes A))"
    by (simp add: exchange_func_def k_def Let_def)
  consider "k = 0" | "k = 8" | "k \<in> {4, 12}" | "k \<in> {2, 6, 10, 14}"
    | "k \<noteq> 0" "k \<noteq> 8" "k \<notin> {4, 12}" "k \<notin> {2, 6, 10, 14}" by blast
  then show ?thesis
  proof cases
    case 1
    then have "2 ^ 4 dvd or (A + base) s" by (simp add: k_def mod_eq_0_iff_dvd)
    with p [of 4] 1 show ?thesis by (intro pairs) (simp_all add: eq)
  next
    case 2
    then have "2 ^ 3 dvd or (A + base) s" unfolding k_def by (auto; presburger)
    with p [of 3] 2 show ?thesis by (intro w8) (simp_all add: eq)
  next
    case 3
    then have "2 ^ 2 dvd or (A + base) s" unfolding k_def by (auto; presburger)
    with p [of 2] 3 show ?thesis by (intro w4) (auto simp add: eq)
  next
    case 4
    then have "2 ^ 1 dvd or (A + base) s" unfolding k_def by (auto; presburger)
    with p [of 1] 4 show ?thesis by (intro w2) (auto simp add: eq)
  next
    case 5
    then show ?thesis by (intro w1) (simp add: eq)
  qed
qed

lemmas exchange_defs =
  exchange_bytes_def exchange_one_byte_def exchange_int16s_def exchange_one_int16_def
  exchange_int32s_def exchange_one_int32_def exchange_int64s_def exchange_one_int64_def
  exchange_int128s_def exchange_one_int128_def

text \<open>The chosen function does its work for elements, and for runs of elements.\<close>

lemma exchange_func_exchanges:
  assumes d: "\<And>w. w \<in> {2, 4, 8, 16} \<Longrightarrow> w dvd s \<Longrightarrow> w dvd a \<and> w dvd b \<and> w dvd n"
    and one: "s \<in> {1, 2, 4, 8, 16} \<Longrightarrow> n = s"
  shows "exchanges (exchange_func A base s) n (base + a) (base + b)"
proof -
  have at: "w dvd A + (base + a)" "w dvd A + (base + b)" "w dvd n"
    if "w \<in> {2, 4, 8, 16}" "w dvd A + base" "w dvd s" for w
    using d [OF that(1,3)] that(2) by (simp_all flip: add.assoc)
  show ?thesis
  proof (cases rule: exchange_func_kinds [of A base s])
    case pairs
    then have "8 dvd A + (base + a)" "8 dvd A + (base + b)" "16 dvd n"
      using at [of 16] by (auto intro: dvd_trans [of 8 16])
    then have "exchanges (\<lambda>m a b k. exchange_pairs A m a b (n div 16)) n (base + a) (base + b)"
      by (rule exchanges_pairs)
    then show ?thesis
      by (rule exchanges_cong [THEN iffD2, rotated])
        (use one pairs(3) in \<open>auto simp: exchange_defs simp del: exchange_pairs.simps\<close>)
  next
    case w8
    then have "exchanges (\<lambda>m a b k. exchange_units A 8 m a b (n div 8)) n (base + a) (base + b)"
      using at [of 8] by (intro exchanges_units) simp_all
    then show ?thesis
      by (rule exchanges_cong [THEN iffD2, rotated])
        (use one w8(3) in \<open>auto simp: exchange_defs simp del: exchange_units.simps\<close>)
  next
    case w4
    then have "exchanges (\<lambda>m a b k. exchange_units A 4 m a b (n div 4)) n (base + a) (base + b)"
      using at [of 4] by (intro exchanges_units) simp_all
    then show ?thesis
      by (rule exchanges_cong [THEN iffD2, rotated])
        (use one w4(3) in \<open>auto simp: exchange_defs simp del: exchange_units.simps\<close>)
  next
    case w2
    then have "exchanges (\<lambda>m a b k. exchange_units A 2 m a b (n div 2)) n (base + a) (base + b)"
      using at [of 2] by (intro exchanges_units) simp_all
    then show ?thesis
      by (rule exchanges_cong [THEN iffD2, rotated])
        (use one w2(3) in \<open>auto simp: exchange_defs simp del: exchange_units.simps\<close>)
  next
    case w1
    have "exchanges (\<lambda>m a b k. exchange_units A 1 m a b (n div 1)) n (base + a) (base + b)"
      by (intro exchanges_units) simp_all
    then show ?thesis
      by (rule exchanges_cong [THEN iffD2, rotated])
        (use one w1 in \<open>auto simp: exchange_defs simp del: exchange_units.simps\<close>)
  qed
qed

lemma exchange_element:
  "exchanges (exchange_func A base sz) sz (base + sz * i) (base + sz * j)"
  by (rule exchange_func_exchanges) auto

lemma exchange_block:
  "exchanges (exchange_func A base (or sz 128)) (sz * n) (base + sz * i) (base + sz * j)"
proof (rule exchange_func_exchanges)
  fix w :: nat
  assume w: "w \<in> {2, 4, 8, 16}" "w dvd or sz 128"
  then obtain k where "w = 2 ^ k" using power_one_right [of "2::nat"] that [of 1] that [of 2] that [of 3] that [of 4] by auto
  with w(2) have "w dvd sz" by (simp add: pow2_dvd_or)
  then show "w dvd sz * i \<and> w dvd sz * j \<and> w dvd sz * n" by simp
next
  assume "or sz 128 \<in> {1, 2, 4, 8, 16}"
  moreover have "odd (or sz 128 div 2 ^ 7)"
    by (simp only: bit_iff_odd [symmetric] bit_or_iff) (simp add: bit_iff_odd)
  ultimately show "sz * n = or sz 128" by auto
qed

end
