(* ===== verification/Rqsort.thy ===== *)
theory Rqsort
  imports Exchange "HOL-Library.Multiset"
begin

section \<open>Sorting with an opaque comparison\<close>

text \<open>
  \<open>rqsort\<close> and its helpers (src/quickjs/cutils.c): \<open>heapsortx\<close>, \<open>med3\<close>, the three-way
  partition, the explicit stack and the final insertion sort, over the memory of theory
  \<open>Exchange\<close>.  Every access is checked, and so is every push on the stack of 50 segments.

  The comparison is a function of the bytes of two elements: the argument \<open>opaque\<close>, and comparisons that keep a state in
  it or write to the elements, are not modelled.  The first result holds for every
  such function, also an inconsistent one: the sort ends, permutes the elements, and touches
  nothing else.  If the comparison is a total preorder (the locale \<open>comparison\<close>), the result
  is sorted.  The loops are partial functions, so that ending is part of what is proved.  The
  sizes are natural numbers: the array is an object in memory, which is smaller than half the
  address space.
\<close>

subsection \<open>Heap sort\<close>

type_synonym cmp_f = "u8 list \<Rightarrow> u8 list \<Rightarrow> int"

definition cmp_at :: "cmp_f \<Rightarrow> nat \<Rightarrow> u8 list \<Rightarrow> nat \<Rightarrow> nat \<Rightarrow> int option" where
  "cmp_at cmp sz m a b = do {
     x \<leftarrow> mem_read m a sz;
     y \<leftarrow> mem_read m b sz;
     Some (cmp x y) }"

text \<open>Sifting down the element at offset \<open>r\<close>, in the heap of \<open>n\<close> bytes at \<open>basep\<close>.\<close>

partial_function (option) sift_down ::
    "cmp_f \<Rightarrow> exchange_f \<Rightarrow> nat \<Rightarrow> nat \<Rightarrow> nat \<Rightarrow> u8 list \<Rightarrow> nat \<Rightarrow> u8 list option" where
  "sift_down cmp swap sz basep n m r =
     (let c = r * 2 + sz
      in if c < n then do {
           c \<leftarrow> (if c < n - sz then do {
                   k \<leftarrow> cmp_at cmp sz m (basep + c) (basep + c + sz);
                   Some (if k \<le> 0 then c + sz else c) }
                 else Some c);
           k \<leftarrow> cmp_at cmp sz m (basep + r) (basep + c);
           if k > 0 then Some m
           else do {
             m \<leftarrow> swap m (basep + r) (basep + c) sz;
             sift_down cmp swap sz basep n m c } }
         else Some m)"

partial_function (option) heapify ::
    "cmp_f \<Rightarrow> exchange_f \<Rightarrow> nat \<Rightarrow> nat \<Rightarrow> nat \<Rightarrow> u8 list \<Rightarrow> nat \<Rightarrow> u8 list option" where
  "heapify cmp swap sz basep n m i =
     (if i > 0 then do {
        m \<leftarrow> sift_down cmp swap sz basep n m (i - sz);
        heapify cmp swap sz basep n m (i - sz) }
      else Some m)"

partial_function (option) heap_extract ::
    "cmp_f \<Rightarrow> exchange_f \<Rightarrow> nat \<Rightarrow> nat \<Rightarrow> u8 list \<Rightarrow> nat \<Rightarrow> u8 list option" where
  "heap_extract cmp swap sz basep m i =
     (if i > 0 then do {
        m \<leftarrow> swap m basep (basep + i) sz;
        m \<leftarrow> sift_down cmp swap sz basep i m 0;
        heap_extract cmp swap sz basep m (i - sz) }
      else Some m)"

definition heapsortx :: "nat \<Rightarrow> cmp_f \<Rightarrow> nat \<Rightarrow> u8 list \<Rightarrow> nat \<Rightarrow> nat \<Rightarrow> u8 list option" where
  "heapsortx A cmp sz m base nmemb =
     (let swap = exchange_func A base sz
      in if nmemb > 1 then do {
           let n = nmemb * sz;
           m \<leftarrow> heapify cmp swap sz base n m (nmemb div 2 * sz);
           heap_extract cmp swap sz base m (n - sz) }
         else Some m)"

subsection \<open>Partition\<close>

definition med3 :: "cmp_f \<Rightarrow> nat \<Rightarrow> u8 list \<Rightarrow> nat \<Rightarrow> nat \<Rightarrow> nat \<Rightarrow> nat option" where
  "med3 cmp sz m a b c = do {
     ab \<leftarrow> cmp_at cmp sz m a b;
     bc \<leftarrow> cmp_at cmp sz m b c;
     if ab < 0 then
       (if bc < 0 then Some b
        else do { ac \<leftarrow> cmp_at cmp sz m a c; Some (if ac < 0 then c else a) })
     else
       (if bc > 0 then Some b
        else do { ac \<leftarrow> cmp_at cmp sz m a c; Some (if ac < 0 then a else c) }) }"


text \<open>The two scans from either end, and the loop around them.\<close>

partial_function (option) scan_up ::
    "cmp_f \<Rightarrow> exchange_f \<Rightarrow> nat \<Rightarrow> nat \<Rightarrow> nat \<Rightarrow> u8 list \<Rightarrow> nat \<Rightarrow> nat \<Rightarrow> nat \<Rightarrow> nat
      \<Rightarrow> (u8 list \<times> nat \<times> nat \<times> nat \<times> nat) option" where
  "scan_up cmp swap sz ptr pj m i pi lt plt =
     (if pi < pj then do {
        c \<leftarrow> cmp_at cmp sz m ptr pi;
        if c < 0 then Some (m, i, pi, lt, plt)
        else if c = 0 then do {
          m \<leftarrow> swap m plt pi sz;
          scan_up cmp swap sz ptr pj m (i + 1) (pi + sz) (lt + 1) (plt + sz) }
        else scan_up cmp swap sz ptr pj m (i + 1) (pi + sz) lt plt }
      else Some (m, i, pi, lt, plt))"

partial_function (option) scan_down ::
    "cmp_f \<Rightarrow> exchange_f \<Rightarrow> nat \<Rightarrow> nat \<Rightarrow> nat \<Rightarrow> u8 list \<Rightarrow> nat \<Rightarrow> nat \<Rightarrow> nat
      \<Rightarrow> (u8 list \<times> nat \<times> nat \<times> nat) option" where
  "scan_down cmp swap sz ptr pi m gt pgt pj =
     (let pj = pj - sz
      in if pi < pj then do {
           c \<leftarrow> cmp_at cmp sz m ptr pj;
           if c > 0 then Some (m, gt, pgt, pj)
           else if c = 0 then do {
             m \<leftarrow> swap m (pgt - sz) pj sz;
             scan_down cmp swap sz ptr pi m (gt - 1) (pgt - sz) pj }
           else scan_down cmp swap sz ptr pi m gt pgt pj }
         else Some (m, gt, pgt, pj))"

partial_function (option) partition_loop ::
    "cmp_f \<Rightarrow> exchange_f \<Rightarrow> nat \<Rightarrow> nat \<Rightarrow> u8 list \<Rightarrow> nat \<Rightarrow> nat \<Rightarrow> nat \<Rightarrow> nat \<Rightarrow> nat \<Rightarrow> nat \<Rightarrow> nat
      \<Rightarrow> (u8 list \<times> nat \<times> nat \<times> nat \<times> nat \<times> nat \<times> nat) option" where
  "partition_loop cmp swap sz ptr m i pi lt plt gt pgt pj = do {
     (m, i, pi, lt, plt) \<leftarrow> scan_up cmp swap sz ptr pj m i pi lt plt;
     (m, gt, pgt, pj) \<leftarrow> scan_down cmp swap sz ptr pi m gt pgt pj;
     if pi \<ge> pj then Some (m, i, pi, lt, plt, gt, pgt)
     else do {
       m \<leftarrow> swap m pi pj sz;
       partition_loop cmp swap sz ptr m (i + 1) (pi + sz) lt plt gt pgt pj } }"

text \<open>
  One round of the sort: the pivot, the partition and the move of the pivot's equals to the
  middle.  The results are the ends of the first and the second part and the pointer to the
  third.
\<close>

definition partition_round ::
    "cmp_f \<Rightarrow> exchange_f \<Rightarrow> exchange_f \<Rightarrow> nat \<Rightarrow> u8 list \<Rightarrow> nat \<Rightarrow> nat
      \<Rightarrow> (u8 list \<times> nat \<times> nat \<times> nat) option" where
  "partition_round cmp swap swap_block sz m ptr nmemb = do {
     let m4 = (nmemb div 4) * sz;
     p \<leftarrow> med3 cmp sz m (ptr + m4) (ptr + 2 * m4) (ptr + 3 * m4);
     m \<leftarrow> swap m ptr p sz;
     let stop = ptr + nmemb * sz;
     (m, i, pi, lt, plt, gt, pgt) \<leftarrow>
       partition_loop cmp swap sz ptr m 1 (ptr + sz) 1 (ptr + sz) nmemb stop stop;
     let span = plt - ptr;
     let span2 = pi - plt;
     let lt = i - lt;
     let span = (if span > span2 then span2 else span);
     m \<leftarrow> swap_block m ptr (pi - span) span;
     let span = stop - pgt;
     let span2 = pgt - pi;
     let pgt = stop - span2;
     let gt = nmemb - (gt - i);
     let span = (if span > span2 then span2 else span);
     m \<leftarrow> swap_block m pi (stop - span) span;
     Some (m, lt, gt, pgt) }"

subsection \<open>The sort\<close>

text \<open>The stack is an array of 50 segments: base, count, depth.\<close>

definition push_segment :: "nat \<times> nat \<times> nat \<Rightarrow> (nat \<times> nat \<times> nat) list \<Rightarrow> (nat \<times> nat \<times> nat) list option" where
  "push_segment s stack = (if length stack < 50 then Some (s # stack) else None)"

partial_function (option) segment_loop ::
    "nat \<Rightarrow> cmp_f \<Rightarrow> exchange_f \<Rightarrow> exchange_f \<Rightarrow> nat \<Rightarrow> u8 list \<Rightarrow> (nat \<times> nat \<times> nat) list
      \<Rightarrow> nat \<Rightarrow> nat \<Rightarrow> nat \<Rightarrow> (u8 list \<times> (nat \<times> nat \<times> nat) list \<times> nat \<times> nat) option" where
  "segment_loop A cmp swap swap_block sz m stack ptr nmemb depth =
     (if nmemb > 6 then
        (let depth = depth + 1
         in if depth > 50 then do {
              m \<leftarrow> heapsortx A cmp sz m ptr nmemb;
              Some (m, stack, ptr, 0) }
            else do {
              (m, lt, gt, pgt) \<leftarrow> partition_round cmp swap swap_block sz m ptr nmemb;
              if lt > nmemb - gt then do {
                stack \<leftarrow> push_segment (ptr, lt, depth) stack;
                segment_loop A cmp swap swap_block sz m stack pgt (nmemb - gt) depth }
              else do {
                stack \<leftarrow> push_segment (pgt, nmemb - gt, depth) stack;
                segment_loop A cmp swap swap_block sz m stack ptr lt depth } })
      else Some (m, stack, ptr, nmemb))"

partial_function (option) insert_down ::
    "cmp_f \<Rightarrow> exchange_f \<Rightarrow> nat \<Rightarrow> nat \<Rightarrow> u8 list \<Rightarrow> nat \<Rightarrow> u8 list option" where
  "insert_down cmp swap sz ptr m pj =
     (if pj > ptr then do {
        c \<leftarrow> cmp_at cmp sz m (pj - sz) pj;
        if c > 0 then do {
          m \<leftarrow> swap m pj (pj - sz) sz;
          insert_down cmp swap sz ptr m (pj - sz) }
        else Some m }
      else Some m)"

partial_function (option) insertion_loop ::
    "cmp_f \<Rightarrow> exchange_f \<Rightarrow> nat \<Rightarrow> nat \<Rightarrow> nat \<Rightarrow> u8 list \<Rightarrow> nat \<Rightarrow> u8 list option" where
  "insertion_loop cmp swap sz ptr stop m pi =
     (if pi < stop then do {
        m \<leftarrow> insert_down cmp swap sz ptr m pi;
        insertion_loop cmp swap sz ptr stop m (pi + sz) }
      else Some m)"

partial_function (option) stack_loop ::
    "nat \<Rightarrow> cmp_f \<Rightarrow> exchange_f \<Rightarrow> exchange_f \<Rightarrow> nat \<Rightarrow> u8 list \<Rightarrow> (nat \<times> nat \<times> nat) list
      \<Rightarrow> u8 list option" where
  "stack_loop A cmp swap swap_block sz m stack =
     (case stack of
        [] \<Rightarrow> Some m
      | (ptr, nmemb, depth) # stack \<Rightarrow> do {
          (m, stack, ptr, nmemb) \<leftarrow> segment_loop A cmp swap swap_block sz m stack ptr nmemb depth;
          m \<leftarrow> insertion_loop cmp swap sz ptr (ptr + nmemb * sz) m (ptr + sz);
          stack_loop A cmp swap swap_block sz m stack })"

definition rqsort :: "nat \<Rightarrow> cmp_f \<Rightarrow> nat \<Rightarrow> u8 list \<Rightarrow> nat \<Rightarrow> nat \<Rightarrow> u8 list option" where
  "rqsort A cmp sz m base nmemb =
     (if nmemb < 2 \<or> sz = 0 then Some m
      else stack_loop A cmp (exchange_func A base sz) (exchange_func A base (or sz 128)) sz m
             [(base, nmemb, 0)])"

subsection \<open>Arrays of elements\<close>

definition swap_list :: "'a list \<Rightarrow> nat \<Rightarrow> nat \<Rightarrow> 'a list" where
  "swap_list xs i j = xs[i := xs ! j, j := xs ! i]"

lemma length_swap_list [simp]: "length (swap_list xs i j) = length xs"
  by (simp add: swap_list_def)

lemma nth_swap_list:
  "i < length xs \<Longrightarrow> j < length xs \<Longrightarrow> k < length xs \<Longrightarrow>
     swap_list xs i j ! k = (if k = i then xs ! j else if k = j then xs ! i else xs ! k)"
  by (auto simp: swap_list_def nth_list_update)

lemma nth_swap_list_other: "k \<noteq> i \<Longrightarrow> k \<noteq> j \<Longrightarrow> swap_list xs i j ! k = xs ! k"
  by (simp add: swap_list_def)

lemma mset_swap_list [simp]:
  "i < length xs \<Longrightarrow> j < length xs \<Longrightarrow> mset (swap_list xs i j) = mset xs"
  by (simp add: swap_list_def mset_swap)

lemma set_swap_list [simp]:
  "i < length xs \<Longrightarrow> j < length xs \<Longrightarrow> set (swap_list xs i j) = set xs"
  using mset_swap_list mset_eq_setD by blast

lemma swap_list_same [simp]: "swap_list xs i i = xs"
  by (simp add: swap_list_def)

lemma swap_list_commute: "swap_list xs i j = swap_list xs j i"
  by (cases "i = j") (simp_all add: swap_list_def list_update_swap)

lemma swap_list_append:
  "swap_list (xs @ x # ys @ y # zs) (length xs) (length xs + 1 + length ys) = xs @ y # ys @ x # zs"
  by (simp add: swap_list_def nth_append list_update_append)

lemma length_concat_const: "\<forall>e \<in> set es. length e = k \<Longrightarrow> length (concat es) = k * length es"
  by (induction es) simp_all

text \<open>Splitting a list around two positions.\<close>

lemma split_two:
  assumes "i < j" "j < length xs"
  obtains as bs cs where "xs = as @ xs ! i # bs @ xs ! j # cs" "length as = i" "length bs = j - i - 1"
proof (rule that)
  have "xs = take i xs @ xs ! i # drop (Suc i) xs" using assms by (simp add: id_take_nth_drop)
  also have "drop (Suc i) xs = take (j - i - 1) (drop (Suc i) xs) @ xs ! j # drop (Suc j) xs"
    using assms id_take_nth_drop [of "j - i - 1" "drop (Suc i) xs"] by simp
  finally show "xs = take i xs @ xs ! i # take (j - i - 1) (drop (Suc i) xs) @ xs ! j # drop (Suc j) xs" .
qed (use assms in simp_all)

lemma exchangesD:
  assumes "exchanges f n a b"
  shows "length P = a \<Longrightarrow> length X = n \<Longrightarrow> length Y = n \<Longrightarrow> a + n + length M = b \<Longrightarrow>
      f (P @ X @ M @ Y @ Q) a b n = Some (P @ Y @ M @ X @ Q)"
    and "length P = a \<Longrightarrow> length X = n \<Longrightarrow> length Y = n \<Longrightarrow> a + n + length M = b \<Longrightarrow>
      f (P @ X @ M @ Y @ Q) b a n = Some (P @ Y @ M @ X @ Q)"
    and "a = b \<Longrightarrow> a + n \<le> length m \<Longrightarrow> f m a b n = Some m"
  using assms unfolding exchanges_def by blast+

text \<open>What the sort needs of an exchange function: that it exchanges elements of its array.\<close>

locale element_swap =
  fixes swap :: exchange_f and sz base :: nat
  assumes sz_pos: "0 < sz"
    and swap_elements: "exchanges swap sz (base + sz * i) (base + sz * j)"
begin

text \<open>A prefix of the memory that ends at an element, and the elements after it.\<close>

definition array_at :: "u8 list \<Rightarrow> u8 list list \<Rightarrow> bool" where
  "array_at P es \<longleftrightarrow> (\<exists>k. length P = base + sz * k) \<and> (\<forall>e \<in> set es. length e = sz)"

lemma array_at_perm: "array_at P es \<Longrightarrow> mset es' = mset es \<Longrightarrow> array_at P es'"
  unfolding array_at_def by (metis mset_eq_setD)

lemma array_at_append:
  "array_at P (es @ fs) \<longleftrightarrow> array_at P es \<and> array_at (P @ concat es) fs"
proof -
  have "\<exists>k. length (P @ concat es) = base + sz * k"
    if "length P = base + sz * k" "\<forall>e \<in> set es. length e = sz" for k
    using that by (intro exI [of _ "k + length es"]) (simp add: length_concat_const algebra_simps)
  then show ?thesis unfolding array_at_def by auto
qed

lemma array_at_read:
  assumes "array_at P es" "i < length es"
  shows "mem_read (P @ concat es @ Q) (length P + sz * i) sz = Some (es ! i)"
proof -
  have es: "es = take i es @ es ! i # drop (Suc i) es" using assms(2) by (rule id_take_nth_drop)
  have l: "length (concat (take i es)) = sz * i" "length (es ! i) = sz"
    using assms length_concat_const [of "take i es" sz] by (auto simp: array_at_def dest: in_set_takeD)
  have "P @ concat es @ Q = (P @ concat (take i es)) @ es ! i @ concat (drop (Suc i) es) @ Q"
    by (subst es) simp
  then show ?thesis
    using mem_read_at [of "P @ concat (take i es)" "length P + sz * i" "es ! i" sz] l by simp
qed

lemma cmp_elements:
  "array_at P es \<Longrightarrow> i < length es \<Longrightarrow> j < length es \<Longrightarrow>
     cmp_at cmp sz (P @ concat es @ Q) (length P + sz * i) (length P + sz * j) = Some (cmp (es ! i) (es ! j))"
  by (simp add: cmp_at_def array_at_read)

lemma exchange_elements:
  assumes a: "array_at P es" and "i < length es" "j < length es"
  shows "swap (P @ concat es @ Q) (length P + sz * i) (length P + sz * j) sz =
    Some (P @ concat (swap_list es i j) @ Q)"
proof -
  obtain k where k: "length P = base + sz * k" using a by (auto simp: array_at_def)
  have ex: "exchanges swap sz (length P + sz * i) (length P + sz * j)" for i j
    using swap_elements [of "k + i" "k + j"] unfolding k by (simp add: algebra_simps)
  have lt: "swap (P @ concat es @ Q) (length P + sz * i) (length P + sz * j) sz =
    Some (P @ concat (swap_list es i j) @ Q)" "swap (P @ concat es @ Q) (length P + sz * j) (length P + sz * i) sz =
    Some (P @ concat (swap_list es i j) @ Q)" if "i < j" "j < length es" for i j
  proof -
    from split_two [OF that] obtain as bs cs where s: "es = as @ es ! i # bs @ es ! j # cs"
      "length as = i" "length bs = j - i - 1" .
    define x y where "x = es ! i" and "y = es ! j"
    have s: "es = as @ x # bs @ y # cs" "length as = i" "length bs = j - i - 1"
      unfolding x_def y_def by (rule s)+
    have "\<forall>e \<in> set es. length e = sz" using a by (simp add: array_at_def)
    then have l: "length x = sz" "length y = sz" "length (concat as) = sz * i" "length (concat bs) = sz * (j - i - 1)"
      unfolding s(1) using s(2,3) length_concat_const [of as sz] length_concat_const [of bs sz] by auto
    have "sz * i + sz + sz * (j - i - 1) = sz * (i + 1 + (j - i - 1))" by (simp add: algebra_simps)
    also have "i + 1 + (j - i - 1) = j" using that(1) by simp
    finally have "length P + sz * i + sz + length (concat bs) = length P + sz * j" using l(4) by simp
    then have
      "swap ((P @ concat as) @ x @ concat bs @ y @ (concat cs @ Q)) (length P + sz * i) (length P + sz * j) sz =
        Some ((P @ concat as) @ y @ concat bs @ x @ (concat cs @ Q))"
      "swap ((P @ concat as) @ x @ concat bs @ y @ (concat cs @ Q)) (length P + sz * j) (length P + sz * i) sz =
        Some ((P @ concat as) @ y @ concat bs @ x @ (concat cs @ Q))"
      using l by (intro exchangesD [OF ex [of i j]]; simp)+
    moreover have "i + 1 + length bs = j" using s(3) that(1) by simp
    then have "swap_list es i j = as @ y # bs @ x # cs"
      using swap_list_append [of as x bs y cs] s(2) by (simp add: s(1))
    ultimately show "swap (P @ concat es @ Q) (length P + sz * i) (length P + sz * j) sz =
        Some (P @ concat (swap_list es i j) @ Q)"
      "swap (P @ concat es @ Q) (length P + sz * j) (length P + sz * i) sz =
        Some (P @ concat (swap_list es i j) @ Q)"
      by (simp_all add: s(1))
  qed
  have "length (concat es) = sz * length es" using a by (simp add: array_at_def length_concat_const)
  moreover have "sz * i + sz \<le> sz * length es"
    using assms(2) by (metis Suc_leI mult_Suc_right mult_le_mono2 add.commute)
  ultimately have "length P + sz * i + sz \<le> length (P @ concat es @ Q)" by simp
  then have same: "swap (P @ concat es @ Q) (length P + sz * i) (length P + sz * i) sz = Some (P @ concat es @ Q)"
    by (rule exchangesD(3) [OF ex [of i i] refl])
  consider "i < j" | "j < i" | "i = j" by linarith
  then show ?thesis
    by cases (use lt(1) [of i j] lt(2) [of j i] same assms(2,3) in \<open>simp_all add: swap_list_commute [of es i j]\<close>)
qed

end

subsection \<open>Total preorders\<close>

locale comparison =
  fixes cmp :: "'a \<Rightarrow> 'a \<Rightarrow> int"
  assumes cmp_opposite: "sgn (cmp x y) = - sgn (cmp y x)"
    and cmp_trans: "cmp x y \<le> 0 \<Longrightarrow> cmp y z \<le> 0 \<Longrightarrow> cmp x z \<le> 0"
begin

lemma cmp_refl [simp]: "cmp x x = 0"
  using cmp_opposite [of x x] by (simp add: sgn_if split: if_splits)

lemma cmp_swap: "0 \<le> cmp x y \<longleftrightarrow> cmp y x \<le> 0" "0 < cmp x y \<longleftrightarrow> cmp y x < 0" "cmp x y = 0 \<longleftrightarrow> cmp y x = 0"
  using cmp_opposite [of x y] by (auto simp: sgn_if split: if_splits)

lemma cmp_linear: "cmp x y \<le> 0 \<or> cmp y x \<le> 0"
  using cmp_swap(1) [of x y] by linarith

end

abbreviation cmp_sorted :: "('a \<Rightarrow> 'a \<Rightarrow> int) \<Rightarrow> 'a list \<Rightarrow> bool" where
  "cmp_sorted cmp \<equiv> sorted_wrt (\<lambda>x y. cmp x y \<le> 0)"

subsection \<open>Heaps\<close>

text \<open>
  The children of \<open>k\<close> are \<open>2 k + 1\<close> and \<open>2 k + 2\<close>.  In \<open>heap_from\<close> every element from \<open>lo\<close> on
  is at least as big as its children below \<open>n\<close>; in \<open>heap_hole\<close> this may fail at \<open>r\<close>, whose
  parent is then at least as big as the children of \<open>r\<close>.
\<close>

definition child :: "nat \<Rightarrow> nat \<Rightarrow> bool" where
  "child k c \<longleftrightarrow> c = 2 * k + 1 \<or> c = 2 * k + 2"

definition heap_from :: "('a \<Rightarrow> 'a \<Rightarrow> int) \<Rightarrow> nat \<Rightarrow> nat \<Rightarrow> 'a list \<Rightarrow> bool" where
  "heap_from cmp lo n xs \<longleftrightarrow> (\<forall>k c. lo \<le> k \<and> child k c \<and> c < n \<longrightarrow> cmp (xs ! c) (xs ! k) \<le> 0)"

definition heap_hole :: "('a \<Rightarrow> 'a \<Rightarrow> int) \<Rightarrow> nat \<Rightarrow> nat \<Rightarrow> nat \<Rightarrow> 'a list \<Rightarrow> bool" where
  "heap_hole cmp lo n r xs \<longleftrightarrow>
     lo \<le> r \<and>
     (\<forall>k c. lo \<le> k \<and> k \<noteq> r \<and> child k c \<and> c < n \<longrightarrow> cmp (xs ! c) (xs ! k) \<le> 0) \<and>
     (\<forall>k c. lo \<le> k \<and> child k r \<and> child r c \<and> c < n \<longrightarrow> cmp (xs ! c) (xs ! k) \<le> 0)"

definition big_child :: "('a \<Rightarrow> 'a \<Rightarrow> int) \<Rightarrow> nat \<Rightarrow> 'a list \<Rightarrow> nat \<Rightarrow> nat" where
  "big_child cmp n xs r =
     (if 2 * r + 2 < n \<and> cmp (xs ! (2 * r + 1)) (xs ! (2 * r + 2)) \<le> 0 then 2 * r + 2 else 2 * r + 1)"

lemma big_child: "2 * r + 1 < n \<Longrightarrow> child r (big_child cmp n xs r) \<and> big_child cmp n xs r < n"
  by (simp add: big_child_def child_def)

lemma child_less: "child k c \<Longrightarrow> k < c"
  by (auto simp: child_def)

lemma child_unique: "child k c \<Longrightarrow> child l c \<Longrightarrow> k = l"
  by (auto simp: child_def)

context comparison
begin

lemma big_child_max:
  assumes "2 * r + 1 < n" "child r c" "c < n"
  shows "cmp (xs ! c) (xs ! big_child cmp n xs r) \<le> 0"
  using assms cmp_linear [of "xs ! (2 * r + 1)" "xs ! (2 * r + 2)"]
  by (auto simp: big_child_def child_def)

lemma heap_hole_stop:
  assumes h: "heap_hole cmp lo n r xs"
    and stop: "n \<le> 2 * r + 1 \<or> cmp (xs ! big_child cmp n xs r) (xs ! r) \<le> 0"
  shows "heap_from cmp lo n xs"
  unfolding heap_from_def
proof (intro allI impI, elim conjE)
  fix k c
  assume k: "lo \<le> k" "child k c" "c < n"
  show "cmp (xs ! c) (xs ! k) \<le> 0"
  proof (cases "k = r")
    case False
    with h k show ?thesis by (simp add: heap_hole_def)
  next
    case True
    with k stop have "cmp (xs ! big_child cmp n xs r) (xs ! r) \<le> 0" "2 * r + 1 < n" by (auto simp: child_def)
    with True k big_child_max [of r n c xs] show ?thesis by (blast intro: cmp_trans)
  qed
qed

lemma heap_hole_step:
  assumes h: "heap_hole cmp lo n r xs" and r: "2 * r + 1 < n" "n \<le> length xs"
    and less: "cmp (xs ! r) (xs ! b) \<le> 0" and b: "b = big_child cmp n xs r"
  shows "heap_hole cmp lo n b (swap_list xs r b)"
proof -
  have c: "child r b" "b < n" "r < b" using big_child [OF r(1)] child_less unfolding b by blast+
  then have in_xs: "r < length xs" "b < length xs" using r by simp_all
  note nth = nth_swap_list [OF in_xs]
  have "cmp (swap_list xs r b ! c) (swap_list xs r b ! k) \<le> 0"
    if k: "lo \<le> k" "k \<noteq> b" "child k c" "c < n" for k c
  proof -
    have kc: "k < length xs" "c < length xs" "k \<noteq> c" using k child_less [OF k(3)] r by simp_all
    consider "k = r" | "k \<noteq> r" "c = r" | "k \<noteq> r" "c \<noteq> r" by blast
    then show ?thesis
    proof cases
      case 1
      then have "cmp (xs ! c) (xs ! b) \<le> 0" unfolding b using k by (intro big_child_max [OF r(1)]) simp_all
      with 1 k kc less c show ?thesis by (simp add: nth)
    next
      case 2
      with h k kc c show ?thesis by (simp add: nth heap_hole_def)
    next
      case 3
      then have "c \<noteq> b" using child_unique [OF k(3)] c(1) by blast
      with 3 h k kc show ?thesis by (simp add: nth heap_hole_def)
    qed
  qed
  moreover have "cmp (swap_list xs r b ! c) (swap_list xs r b ! k) \<le> 0"
    if k: "lo \<le> k" "child k b" "child b c" "c < n" for k c
  proof -
    have "k = r" using child_unique [OF k(2) c(1)] .
    moreover have "c \<noteq> r" "c \<noteq> b" "c < length xs" using child_less [OF k(3)] c(3) k(4) r(2) by auto
    ultimately show ?thesis using h k in_xs c by (simp add: nth heap_hole_def)
  qed
  ultimately show ?thesis using h c(3) unfolding heap_hole_def by auto
qed

lemma heap_root_max:
  assumes "heap_from cmp 0 n xs"
  shows "k < n \<Longrightarrow> cmp (xs ! k) (xs ! 0) \<le> 0"
proof (induction k rule: less_induct)
  case (less k)
  show ?case
  proof (cases k)
    case (Suc j)
    have "child (j div 2) k" unfolding child_def Suc by presburger
    then have "cmp (xs ! k) (xs ! (j div 2)) \<le> 0"
      using assms less.prems by (simp add: heap_from_def)
    moreover have "cmp (xs ! (j div 2)) (xs ! 0) \<le> 0"
      using less Suc by simp
    ultimately show ?thesis by (rule cmp_trans)
  qed simp
qed

end

subsection \<open>Heap sort of an array\<close>

text \<open>A list rearranged below position \<open>n\<close>.\<close>

definition permuted_below :: "nat \<Rightarrow> 'a list \<Rightarrow> 'a list \<Rightarrow> bool" where
  "permuted_below n xs ys \<longleftrightarrow> mset ys = mset xs \<and> drop n ys = drop n xs"

lemma permuted_below_refl [simp]: "permuted_below n xs xs"
  by (simp add: permuted_below_def)

lemma permuted_below_trans: "permuted_below n xs ys \<Longrightarrow> permuted_below n ys zs \<Longrightarrow> permuted_below n xs zs"
  by (simp add: permuted_below_def)

lemma permuted_below_length: "permuted_below n xs ys \<Longrightarrow> length ys = length xs"
  using mset_eq_length by (fastforce simp: permuted_below_def)

lemma permuted_below_swap:
  "i < n \<Longrightarrow> j < n \<Longrightarrow> n \<le> length xs \<Longrightarrow> permuted_below n xs (swap_list xs i j)"
  by (simp add: permuted_below_def) (simp add: swap_list_def)

lemma permuted_below_set_take:
  assumes "permuted_below n xs ys"
  shows "set (take n ys) = set (take n xs)"
proof -
  have "mset (take n ys) + mset (drop n ys) = mset (take n xs) + mset (drop n xs)"
    using assms unfolding permuted_below_def by (metis append_take_drop_id mset_append)
  with assms have "mset (take n ys) = mset (take n xs)" by (simp add: permuted_below_def)
  then show ?thesis by (rule mset_eq_setD)
qed

lemma permuted_below_mono: "permuted_below n xs ys \<Longrightarrow> n \<le> m \<Longrightarrow> permuted_below m xs ys"
  unfolding permuted_below_def by (metis drop_drop le_add_diff_inverse2)

context element_swap
begin

lemma array_at_permuted: "array_at P es \<Longrightarrow> permuted_below n es es' \<Longrightarrow> array_at P es'"
  by (simp add: permuted_below_def array_at_perm)

lemma offset_less [simp]: "sz * i < sz * j \<longleftrightarrow> i < j" "0 < sz * i \<longleftrightarrow> 0 < i"
  using sz_pos by simp_all

lemma offset_Suc: "sz * i + sz = sz * (i + 1)" and offset_diff: "sz * i - sz = sz * (i - 1)"
  by (simp_all add: diff_mult_distrib2)

lemma sift_step:
  assumes a: "array_at P es" and n: "n \<le> length es" "r < n"
  shows "sift_down cmp swap sz (length P) (sz * n) (P @ concat es @ Q) (sz * r) =
    (if 2 * r + 1 < n then
       (let c = big_child cmp n es r
        in if 0 < cmp (es ! r) (es ! c) then Some (P @ concat es @ Q)
           else sift_down cmp swap sz (length P) (sz * n) (P @ concat (swap_list es r c) @ Q) (sz * c))
     else Some (P @ concat es @ Q))"
proof -
  let ?m = "P @ concat es @ Q" and ?c = "big_child cmp n es r"
  define c where "c = 2 * r + 1"
  have e: "sz * r * 2 + sz = sz * c" "length P + sz * c + sz = length P + sz * (c + 1)"
    by (simp_all add: c_def algebra_simps)
  have lt: "(sz * c < sz * n) = (c < n)" "(sz * c < sz * n - sz) = (c + 1 < n)"
    unfolding offset_diff offset_less by (simp_all add: less_diff_conv)
  have pick: "(if c + 1 < n
      then do { k \<leftarrow> cmp_at cmp sz ?m (length P + sz * c) (length P + sz * (c + 1));
                Some (if k \<le> 0 then sz * c + sz else sz * c) }
      else Some (sz * c)) = Some (sz * ?c)" if "c < n"
    using cmp_elements [OF a, of c "c + 1" cmp Q] n that
    by (auto simp: big_child_def c_def)
  note unfold = sift_down.simps [of cmp swap sz "length P" "sz * n" ?m "sz * r"] Let_def e lt c_def [symmetric]
  show ?thesis
  proof (cases "c < n")
    case True
    then have "?c < length es" using big_child [of r n cmp es] n by (simp add: c_def)
    then have ops: "cmp_at cmp sz ?m (length P + sz * r) (length P + sz * ?c) = Some (cmp (es ! r) (es ! ?c))"
      "swap ?m (length P + sz * r) (length P + sz * ?c) sz = Some (P @ concat (swap_list es r ?c) @ Q)"
      using cmp_elements [OF a] exchange_elements [OF a] n by simp_all
    show ?thesis
      unfolding unfold by (simp only: True if_True pick [OF True] ops bind.simps)
  next
    case False
    then show ?thesis unfolding unfold by (simp only: if_False)
  qed
qed

lemma sift_down_heap:
  "array_at P es \<Longrightarrow> n \<le> length es \<Longrightarrow> r < n \<Longrightarrow>
     \<exists>es'. sift_down cmp swap sz (length P) (sz * n) (P @ concat es @ Q) (sz * r) = Some (P @ concat es' @ Q) \<and>
       permuted_below n es es' \<and>
       (comparison cmp \<longrightarrow> (\<forall>lo. heap_hole cmp lo n r es \<longrightarrow> heap_from cmp lo n es'))"
proof (induction "n - r" arbitrary: r es rule: less_induct)
  case less
  let ?c = "big_child cmp n es r"
  note step = sift_step [OF less.prems, of cmp Q]
  consider "n \<le> 2 * r + 1" | "2 * r + 1 < n" "0 < cmp (es ! r) (es ! ?c)"
    | "2 * r + 1 < n" "cmp (es ! r) (es ! ?c) \<le> 0" by linarith
  then show ?case
  proof cases
    case 1
    then have "heap_from cmp lo n es" if "comparison cmp" "heap_hole cmp lo n r es" for lo
      using comparison.heap_hole_stop [OF that] by simp
    with 1 step show ?thesis by auto
  next
    case 2
    have "cmp (es ! ?c) (es ! r) \<le> 0" if "comparison cmp"
      using comparison.cmp_swap(2) [OF that, of "es ! r" "es ! ?c"] 2(2) by simp
    then have "heap_from cmp lo n es" if "comparison cmp" "heap_hole cmp lo n r es" for lo
      using comparison.heap_hole_stop [OF that] that by simp
    with 2 step show ?thesis by (intro exI [of _ es]) (simp add: Let_def)
  next
    case 3
    have c: "?c < n" "r < ?c" using big_child [OF 3(1), of cmp es] child_less by blast+
    let ?es = "swap_list es r ?c"
    have p: "permuted_below n es ?es" using c less.prems by (intro permuted_below_swap) simp_all
    have a: "array_at P ?es" using less.prems(1) p by (rule array_at_permuted)
    have "n - ?c < n - r" using c by simp
    from less.hyps [OF this a _ c(1)] less.prems(2)
    obtain es' where es': "sift_down cmp swap sz (length P) (sz * n) (P @ concat ?es @ Q) (sz * ?c) = Some (P @ concat es' @ Q)"
      "permuted_below n ?es es'"
      "comparison cmp \<longrightarrow> (\<forall>lo. heap_hole cmp lo n ?c ?es \<longrightarrow> heap_from cmp lo n es')"
      unfolding length_swap_list by blast
    moreover have "heap_hole cmp lo n ?c ?es" if "comparison cmp" "heap_hole cmp lo n r es" for lo
      using comparison.heap_hole_step [OF that 3(1) less.prems(2) 3(2) refl] .
    ultimately show ?thesis
      using step 3 permuted_below_trans [OF p es'(2)] by (intro exI [of _ es']) (simp add: Let_def)
  qed
qed

end

definition extract_inv :: "('a \<Rightarrow> 'a \<Rightarrow> int) \<Rightarrow> nat \<Rightarrow> 'a list \<Rightarrow> bool" where
  "extract_inv cmp i xs \<longleftrightarrow>
     heap_from cmp 0 (i + 1) xs \<and> cmp_sorted cmp (drop (i + 1) xs) \<and>
     (\<forall>x \<in> set (take (i + 1) xs). \<forall>y \<in> set (drop (i + 1) xs). cmp x y \<le> 0)"

lemma heap_hole_root:
  assumes "heap_from cmp 0 (i + 1) xs" "i < length xs"
  shows "heap_hole cmp 0 i 0 (swap_list xs 0 i)"
  using assms by (auto simp: heap_hole_def heap_from_def child_def nth_swap_list_other)

lemma heap_hole_above: "heap_from cmp (Suc i) n xs \<Longrightarrow> heap_hole cmp i n i xs"
  by (auto simp: heap_hole_def heap_from_def child_def)

lemma heap_from_half: "n div 2 \<le> i \<Longrightarrow> heap_from cmp i n xs"
  by (auto simp: heap_from_def child_def)

context comparison
begin

lemma extract_inv_step:
  assumes inv: "extract_inv cmp i xs" and i: "0 < i" "i < length xs"
    and p: "permuted_below i (swap_list xs 0 i) ys" and h: "heap_from cmp 0 i ys"
  shows "extract_inv cmp (i - 1) ys"
proof -
  have d: "drop i ys = xs ! 0 # drop (i + 1) xs"
    using p i by (simp add: permuted_below_def Cons_nth_drop_Suc [symmetric] nth_swap_list) (simp add: swap_list_def)
  have "set (take i ys) = set (take i (swap_list xs 0 i))" by (rule permuted_below_set_take [OF p])
  also have "\<dots> \<subseteq> set (take (i + 1) (swap_list xs 0 i))" by (simp add: set_take_subset_set_take)
  also have "\<dots> = set (take (i + 1) xs)"
    using permuted_below_set_take [OF permuted_below_swap [of 0 "i + 1" i xs]] i by simp
  finally have s: "set (take i ys) \<subseteq> set (take (i + 1) xs)" .
  have root: "\<forall>x \<in> set (take (i + 1) xs). cmp x (xs ! 0) \<le> 0"
    using inv i heap_root_max [of "i + 1" xs] by (auto simp: extract_inv_def in_set_conv_nth)
  have "xs ! 0 \<in> set (take (i + 1) xs)" using i by (auto simp: in_set_conv_nth intro: exI [of _ 0])
  then show ?thesis
    using inv s root h i(1) d unfolding extract_inv_def by auto
qed

lemma extract_inv_0:
  assumes "extract_inv cmp 0 xs"
  shows "cmp_sorted cmp xs"
  using assms by (cases xs) (simp_all add: extract_inv_def)

end

context element_swap
begin

lemma heapify_heap:
  "array_at P es \<Longrightarrow> i < length es \<Longrightarrow>
     \<exists>es'. heapify cmp swap sz (length P) (sz * length es) (P @ concat es @ Q) (sz * i) = Some (P @ concat es' @ Q) \<and>
       mset es' = mset es \<and>
       (comparison cmp \<longrightarrow> heap_from cmp i (length es) es \<longrightarrow> heap_from cmp 0 (length es) es')"
proof (induction i arbitrary: es)
  case 0
  show ?case by (subst heapify.simps) auto
next
  case (Suc i)
  let ?n = "length es"
  obtain es1 where e1: "sift_down cmp swap sz (length P) (sz * ?n) (P @ concat es @ Q) (sz * i) = Some (P @ concat es1 @ Q)"
    "permuted_below ?n es es1"
    "comparison cmp \<longrightarrow> (\<forall>lo. heap_hole cmp lo ?n i es \<longrightarrow> heap_from cmp lo ?n es1)"
    using sift_down_heap [OF Suc.prems(1) order_refl, of i cmp Q] Suc.prems(2) by auto
  have l: "length es1 = ?n" using e1(2) by (rule permuted_below_length)
  obtain es2 where e2: "heapify cmp swap sz (length P) (sz * ?n) (P @ concat es1 @ Q) (sz * i) = Some (P @ concat es2 @ Q)"
    "mset es2 = mset es1" "comparison cmp \<longrightarrow> heap_from cmp i ?n es1 \<longrightarrow> heap_from cmp 0 ?n es2"
    using Suc.IH [OF array_at_permuted [OF Suc.prems(1) e1(2)]] Suc.prems(2) l by auto
  have "sz * Suc i - sz = sz * i" "0 < sz * Suc i" using sz_pos by simp_all
  then have "heapify cmp swap sz (length P) (sz * ?n) (P @ concat es @ Q) (sz * Suc i) = Some (P @ concat es2 @ Q)"
    using e1(1) e2(1) by (subst heapify.simps) (simp del: mult_Suc_right)
  then show ?case
    using e1 e2 heap_hole_above [of cmp i ?n es] by (intro exI [of _ es2]) (auto simp: permuted_below_def)
qed

lemma heap_extract_sorts:
  "array_at P es \<Longrightarrow> i < length es \<Longrightarrow>
     \<exists>es'. heap_extract cmp swap sz (length P) (P @ concat es @ Q) (sz * i) = Some (P @ concat es' @ Q) \<and>
       mset es' = mset es \<and> (comparison cmp \<longrightarrow> extract_inv cmp i es \<longrightarrow> cmp_sorted cmp es')"
proof (induction i arbitrary: es)
  case 0
  show ?case by (subst heap_extract.simps) (auto intro: comparison.extract_inv_0)
next
  case (Suc i)
  let ?es = "swap_list es 0 (Suc i)"
  have p: "mset ?es = mset es" by (rule mset_swap_list) (use Suc.prems(2) in linarith)+
  have sw: "swap (P @ concat es @ Q) (length P) (length P + sz * Suc i) sz = Some (P @ concat ?es @ Q)"
    using exchange_elements [OF Suc.prems(1) _ Suc.prems(2), of 0 Q] Suc.prems(2) by (cases es) simp_all
  have a: "array_at P ?es" using Suc.prems(1) p by (rule array_at_perm)
  obtain es1 where e1: "sift_down cmp swap sz (length P) (sz * Suc i) (P @ concat ?es @ Q) (sz * 0) = Some (P @ concat es1 @ Q)"
    "permuted_below (Suc i) ?es es1"
    "comparison cmp \<longrightarrow> (\<forall>lo. heap_hole cmp lo (Suc i) 0 ?es \<longrightarrow> heap_from cmp lo (Suc i) es1)"
    using sift_down_heap [OF a, of "Suc i" 0 cmp Q] Suc.prems(2) by auto
  have l: "length es1 = length es" using permuted_below_length [OF e1(2)] by simp
  have inv: "extract_inv cmp i es1" if "comparison cmp" "extract_inv cmp (Suc i) es"
    using comparison.extract_inv_step [OF that _ Suc.prems(2) e1(2)] e1(3) that
      heap_hole_root [of cmp "Suc i" es] Suc.prems(2) by (simp add: extract_inv_def)
  obtain es2 where e2: "heap_extract cmp swap sz (length P) (P @ concat es1 @ Q) (sz * i) = Some (P @ concat es2 @ Q)"
    "mset es2 = mset es1" "comparison cmp \<longrightarrow> extract_inv cmp i es1 \<longrightarrow> cmp_sorted cmp es2"
    using Suc.IH [OF array_at_permuted [OF a e1(2)]] Suc.prems(2) l by auto
  have "sz * Suc i - sz = sz * i" "0 < sz * Suc i" using sz_pos by simp_all
  then have "heap_extract cmp swap sz (length P) (P @ concat es @ Q) (sz * Suc i) = Some (P @ concat es2 @ Q)"
    using e1(1) e2(1) sw by (subst heap_extract.simps) (simp del: mult_Suc_right)
  then show ?case
    using e1 e2 p inv by (intro exI [of _ es2]) (auto simp: permuted_below_def)
qed

end

interpretation exf: element_swap "exchange_func A base (Suc k)" "Suc k" base for A base k
  by unfold_locales (simp, rule exchange_element)

lemma heapsortx_sorts:
  assumes sz: "0 < sz" and es: "\<forall>e \<in> set es. length e = sz"
  shows "\<exists>es'. heapsortx A cmp sz (P @ concat es @ Q) (length P) (length es) = Some (P @ concat es' @ Q) \<and>
    mset es' = mset es \<and> (comparison cmp \<longrightarrow> cmp_sorted cmp es')"
proof (cases "length es > 1")
  case True
  obtain k where k: "sz = Suc k" using sz by (cases sz) auto
  let ?sw = "exchange_func A (length P) sz" and ?n = "length es"
  have a: "exf.array_at k (length P) P es"
    using es by (auto simp: exf.array_at_def k intro: exI [of _ 0])
  have half: "?n div 2 < ?n" using True by linarith
  obtain es1 where e1: "heapify cmp ?sw sz (length P) (sz * ?n) (P @ concat es @ Q) (sz * (?n div 2)) = Some (P @ concat es1 @ Q)"
    "mset es1 = mset es" "comparison cmp \<longrightarrow> heap_from cmp 0 ?n es1"
    using exf.heapify_heap [OF a half, of cmp A Q] heap_from_half [OF order_refl, of cmp ?n es] unfolding k by blast
  have l: "length es1 = ?n" using e1(2) by (rule mset_eq_length)
  obtain es2 where e2: "heap_extract cmp ?sw sz (length P) (P @ concat es1 @ Q) (sz * (?n - 1)) = Some (P @ concat es2 @ Q)"
    "mset es2 = mset es1" "comparison cmp \<longrightarrow> extract_inv cmp (?n - 1) es1 \<longrightarrow> cmp_sorted cmp es2"
    using exf.heap_extract_sorts [OF exf.array_at_perm [OF a e1(2)], of "?n - 1" cmp A Q] half l unfolding k by fastforce
  have n1: "?n - 1 + 1 = ?n" using True by linarith
  have "extract_inv cmp (?n - 1) es1" if "heap_from cmp 0 ?n es1"
    using that l unfolding extract_inv_def n1 by simp
  moreover have "sz * ?n - sz = sz * (?n - 1)" by (simp add: diff_mult_distrib2)
  then have "heapsortx A cmp sz (P @ concat es @ Q) (length P) ?n = Some (P @ concat es2 @ Q)"
    using True e1(1) e2(1) by (simp add: heapsortx_def Let_def mult.commute [of _ sz])
  ultimately show ?thesis using e1 e2 by auto
next
  case False
  then have "cmp_sorted cmp es" by (cases es) simp_all
  with False show ?thesis by (auto simp: heapsortx_def)
qed

subsection \<open>Insertion sort of an array\<close>

text \<open>Sorted up to \<open>n\<close>, apart from the element at \<open>j\<close>, which is not bigger than those after it.\<close>

definition sorted_hole :: "('a \<Rightarrow> 'a \<Rightarrow> int) \<Rightarrow> nat \<Rightarrow> nat \<Rightarrow> 'a list \<Rightarrow> bool" where
  "sorted_hole cmp j n xs \<longleftrightarrow>
     (\<forall>k l. k < l \<and> l \<le> n \<and> k \<noteq> j \<and> l \<noteq> j \<longrightarrow> cmp (xs ! k) (xs ! l) \<le> 0) \<and>
     (\<forall>l. j < l \<and> l \<le> n \<longrightarrow> cmp (xs ! j) (xs ! l) \<le> 0)"

lemma cmp_sorted_take:
  "n < length xs \<Longrightarrow> cmp_sorted cmp (take (n + 1) xs) \<longleftrightarrow> (\<forall>k l. k < l \<and> l \<le> n \<longrightarrow> cmp (xs ! k) (xs ! l) \<le> 0)"
  by (auto simp: sorted_wrt_iff_nth_less less_Suc_eq_le)

lemma sorted_hole_start:
  "n < length xs \<Longrightarrow> cmp_sorted cmp (take n xs) \<Longrightarrow> sorted_hole cmp n n xs"
  by (auto simp: sorted_hole_def sorted_wrt_iff_nth_less)

lemma sorted_hole_step:
  assumes "sorted_hole cmp (Suc j) n xs" "Suc j \<le> n" "n < length xs" "cmp (xs ! Suc j) (xs ! j) \<le> 0"
  shows "sorted_hole cmp j n (swap_list xs (Suc j) j)"
  using assms unfolding sorted_hole_def by (auto simp: nth_swap_list)

context comparison
begin

lemma sorted_hole_stop:
  assumes "sorted_hole cmp j n xs" "j \<le> n" "n < length xs" "j = 0 \<or> cmp (xs ! (j - 1)) (xs ! j) \<le> 0"
  shows "cmp_sorted cmp (take (n + 1) xs)"
proof -
  have "cmp (xs ! k) (xs ! l) \<le> 0" if kl: "k < l" "l \<le> n" for k l
  proof (cases "l = j")
    case True
    then have last: "cmp (xs ! (j - 1)) (xs ! j) \<le> 0" using assms(4) kl by auto
    show ?thesis
    proof (cases "k = j - 1")
      case False
      then have "k < j - 1" "j - 1 \<le> n" "k \<noteq> j" "j - 1 \<noteq> j" using kl True by simp_all
      then have "cmp (xs ! k) (xs ! (j - 1)) \<le> 0" using assms(1) unfolding sorted_hole_def by blast
      with last True show ?thesis by (blast intro: cmp_trans)
    qed (use last True in simp)
  next
    case False
    with assms(1) kl show ?thesis unfolding sorted_hole_def by (cases "k = j") auto
  qed
  then show ?thesis unfolding cmp_sorted_take [OF assms(3)] by blast
qed

end

context element_swap
begin

lemma insert_down_sorts:
  "array_at P es \<Longrightarrow> n < length es \<Longrightarrow> j \<le> n \<Longrightarrow>
     \<exists>es'. insert_down cmp swap sz (length P) (P @ concat es @ Q) (length P + sz * j) = Some (P @ concat es' @ Q) \<and>
       mset es' = mset es \<and>
       (comparison cmp \<longrightarrow> sorted_hole cmp j n es \<longrightarrow> cmp_sorted cmp (take (n + 1) es'))"
proof (induction j arbitrary: es)
  case 0
  show ?case
    using comparison.sorted_hole_stop [of cmp 0 n es] 0 by (subst insert_down.simps) auto
next
  case (Suc j)
  have pos: "length P + sz * Suc j - sz = length P + sz * j" "length P < length P + sz * Suc j"
    using sz_pos by simp_all
  have j: "j < length es" "Suc j < length es" using Suc.prems by simp_all
  note step = insert_down.simps [of cmp swap sz "length P" "P @ concat es @ Q" "length P + sz * Suc j"]
  note ops = cmp_elements [OF Suc.prems(1) j, of cmp Q] exchange_elements [OF Suc.prems(1) j(2,1), of Q]
  show ?case
  proof (cases "0 < cmp (es ! j) (es ! Suc j)")
    case True
    let ?es = "swap_list es (Suc j) j"
    have p: "mset ?es = mset es" using j by simp
    have "n < length ?es" "j \<le> n" using Suc.prems by simp_all
    from Suc.IH [OF array_at_perm [OF Suc.prems(1) p] this] obtain es' where es':
      "insert_down cmp swap sz (length P) (P @ concat ?es @ Q) (length P + sz * j) = Some (P @ concat es' @ Q)"
      "mset es' = mset ?es"
      "comparison cmp \<longrightarrow> sorted_hole cmp j n ?es \<longrightarrow> cmp_sorted cmp (take (n + 1) es')"
      by blast
    have "insert_down cmp swap sz (length P) (P @ concat es @ Q) (length P + sz * Suc j) = Some (P @ concat es' @ Q)"
      unfolding step pos(1) using pos(2) True by (simp only: ops if_True bind.simps es'(1))
    moreover have "sorted_hole cmp j n ?es" if "comparison cmp" "sorted_hole cmp (Suc j) n es"
    proof -
      have "cmp (es ! Suc j) (es ! j) \<le> 0"
        using comparison.cmp_swap(2) [OF that(1), of "es ! j" "es ! Suc j"] True by simp
      then show ?thesis using sorted_hole_step [OF that(2) Suc.prems(3,2)] by simp
    qed
    ultimately show ?thesis using es'(2,3) p by auto
  next
    case False
    have "insert_down cmp swap sz (length P) (P @ concat es @ Q) (length P + sz * Suc j) = Some (P @ concat es @ Q)"
      unfolding step pos(1) using pos(2) False by (simp only: ops if_True if_False bind.simps)
    then show ?thesis
      using comparison.sorted_hole_stop [of cmp "Suc j" n es] Suc.prems False by auto
  qed
qed

lemma insertion_loop_sorts:
  "array_at P es \<Longrightarrow> i \<le> length es \<Longrightarrow>
     \<exists>es'. insertion_loop cmp swap sz (length P) (length P + sz * length es) (P @ concat es @ Q) (length P + sz * i)
         = Some (P @ concat es' @ Q) \<and>
       mset es' = mset es \<and> (comparison cmp \<longrightarrow> cmp_sorted cmp (take i es) \<longrightarrow> cmp_sorted cmp es')"
proof (induction "length es - i" arbitrary: i es rule: less_induct)
  case less
  note step = insertion_loop.simps [of cmp swap sz "length P" "length P + sz * length es" "P @ concat es @ Q" "length P + sz * i"]
  show ?case
  proof (cases "i < length es")
    case True
    from insert_down_sorts [OF less.prems(1) this order_refl] obtain es1 where es1:
      "insert_down cmp swap sz (length P) (P @ concat es @ Q) (length P + sz * i) = Some (P @ concat es1 @ Q)"
      "mset es1 = mset es"
      "comparison cmp \<longrightarrow> sorted_hole cmp i i es \<longrightarrow> cmp_sorted cmp (take (i + 1) es1)"
      by blast
    have l: "length es1 = length es" using es1(2) by (rule mset_eq_length)
    have "length es1 - (i + 1) < length es - i" "i + 1 \<le> length es1" using True l by simp_all
    from less.hyps [OF this(1) array_at_perm [OF less.prems(1) es1(2)] this(2)] obtain es2 where es2:
      "insertion_loop cmp swap sz (length P) (length P + sz * length es) (P @ concat es1 @ Q) (length P + sz * (i + 1))
         = Some (P @ concat es2 @ Q)"
      "mset es2 = mset es1" "comparison cmp \<longrightarrow> cmp_sorted cmp (take (i + 1) es1) \<longrightarrow> cmp_sorted cmp es2"
      unfolding l by blast
    have "length P + sz * i + sz = length P + sz * (i + 1)" "length P + sz * i < length P + sz * length es"
      using True sz_pos by simp_all
    then have "insertion_loop cmp swap sz (length P) (length P + sz * length es) (P @ concat es @ Q) (length P + sz * i)
        = Some (P @ concat es2 @ Q)"
      unfolding step by (simp only: es1(1) es2(1) if_True bind.simps)
    then show ?thesis
      using es1(2,3) es2(2,3) sorted_hole_start [OF True] by auto
  next
    case False
    then have "insertion_loop cmp swap sz (length P) (length P + sz * length es) (P @ concat es @ Q) (length P + sz * i)
        = Some (P @ concat es @ Q)"
      using less.prems(2) unfolding step by simp
    with False show ?thesis by auto
  qed
qed

end

subsection \<open>The partition\<close>

text \<open>
  The state of the partition: the pivot at 0 and its equals up to \<open>lt\<close>, smaller elements up to
  \<open>i\<close>, unknown ones up to \<open>j\<close>, bigger ones up to \<open>gt\<close>, and equals up to the end.
\<close>

definition part_inv :: "('a \<Rightarrow> 'a \<Rightarrow> int) \<Rightarrow> 'a list \<Rightarrow> nat \<Rightarrow> nat \<Rightarrow> nat \<Rightarrow> nat \<Rightarrow> bool" where
  "part_inv cmp xs i j lt gt \<longleftrightarrow>
     0 < lt \<and> lt \<le> i \<and> i \<le> j \<and> j \<le> gt \<and> gt \<le> length xs \<and>
     (\<forall>k. 0 < k \<and> k < lt \<longrightarrow> cmp (xs ! 0) (xs ! k) = 0) \<and>
     (\<forall>k. lt \<le> k \<and> k < i \<longrightarrow> 0 < cmp (xs ! 0) (xs ! k)) \<and>
     (\<forall>k. j \<le> k \<and> k < gt \<longrightarrow> cmp (xs ! 0) (xs ! k) < 0) \<and>
     (\<forall>k. gt \<le> k \<and> k < length xs \<longrightarrow> cmp (xs ! 0) (xs ! k) = 0)"

lemma part_inv_bounds:
  "part_inv cmp xs i j lt gt \<Longrightarrow> 0 < lt \<and> lt \<le> i \<and> i \<le> j \<and> j \<le> gt \<and> gt \<le> length xs"
  by (simp add: part_inv_def)

lemma part_invI:
  "0 < lt \<Longrightarrow> lt \<le> i \<Longrightarrow> i \<le> j \<Longrightarrow> j \<le> gt \<Longrightarrow> gt \<le> length xs \<Longrightarrow>
     (\<And>k. 0 < k \<Longrightarrow> k < lt \<Longrightarrow> cmp (xs ! 0) (xs ! k) = 0) \<Longrightarrow>
     (\<And>k. lt \<le> k \<Longrightarrow> k < i \<Longrightarrow> 0 < cmp (xs ! 0) (xs ! k)) \<Longrightarrow>
     (\<And>k. j \<le> k \<Longrightarrow> k < gt \<Longrightarrow> cmp (xs ! 0) (xs ! k) < 0) \<Longrightarrow>
     (\<And>k. gt \<le> k \<Longrightarrow> k < length xs \<Longrightarrow> cmp (xs ! 0) (xs ! k) = 0) \<Longrightarrow> part_inv cmp xs i j lt gt"
  by (simp add: part_inv_def)

lemma part_invD:
  assumes "part_inv cmp xs i j lt gt"
  shows "0 < k \<Longrightarrow> k < lt \<Longrightarrow> cmp (xs ! 0) (xs ! k) = 0"
    and "lt \<le> k \<Longrightarrow> k < i \<Longrightarrow> 0 < cmp (xs ! 0) (xs ! k)"
    and "j \<le> k \<Longrightarrow> k < gt \<Longrightarrow> cmp (xs ! 0) (xs ! k) < 0"
    and "gt \<le> k \<Longrightarrow> k < length xs \<Longrightarrow> cmp (xs ! 0) (xs ! k) = 0"
  using assms by (simp_all add: part_inv_def)

lemma part_inv_up_less:
  assumes inv: "part_inv cmp xs i j lt gt" and c: "i < j" "0 < cmp (xs ! 0) (xs ! i)"
  shows "part_inv cmp xs (i + 1) j lt gt"
proof (rule part_invI)
  fix k
  assume "lt \<le> k" "k < i + 1"
  then show "0 < cmp (xs ! 0) (xs ! k)"
    using part_invD(2) [OF inv] c by (cases "k = i") simp_all
qed (use part_inv_bounds [OF inv] c part_invD [OF inv] in simp_all)

lemma part_inv_up_equal:
  assumes inv: "part_inv cmp xs i j lt gt" and c: "i < j" "cmp (xs ! 0) (xs ! i) = 0"
  shows "part_inv cmp (swap_list xs lt i) (i + 1) j (lt + 1) gt"
proof -
  let ?ys = "swap_list xs lt i"
  note b = part_inv_bounds [OF inv]
  have in_xs: "lt < length xs" "i < length xs" using b c by linarith+
  note same = nth_swap_list_other [of _ lt i xs]
  have 0: "?ys ! 0 = xs ! 0" using b by (intro same) linarith+
  have at: "?ys ! lt = xs ! i" "?ys ! i = xs ! lt"
    using in_xs by (auto simp: nth_swap_list)
  show ?thesis
  proof (rule part_invI, goal_cases)
    case (6 k)
    then show ?case using part_invD(1) [OF inv] c b 0 at same by (cases "k = lt") simp_all
  next
    case (7 k)
    then show ?case using part_invD(2) [OF inv] c b 0 at same by (cases "k = i") simp_all
  next
    case (8 k)
    then show ?case using part_invD(3) [OF inv, of k] c b 0 same [of k] by simp
  next
    case (9 k)
    then show ?case using part_invD(4) [OF inv, of k] c b 0 same [of k] by simp
  qed (use b c in auto)
qed

lemma part_inv_down_greater:
  assumes inv: "part_inv cmp xs i j lt gt" and c: "i \<le> j - 1" "cmp (xs ! 0) (xs ! (j - 1)) < 0"
  shows "part_inv cmp xs i (j - 1) lt gt"
proof (rule part_invI)
  fix k
  assume "j - 1 \<le> k" "k < gt"
  then show "cmp (xs ! 0) (xs ! k) < 0"
    using part_invD(3) [OF inv] c by (cases "k = j - 1") simp_all
qed (use part_inv_bounds [OF inv] c part_invD(1,2,4) [OF inv] in auto)

lemma part_inv_down_equal:
  assumes inv: "part_inv cmp xs i j lt gt" and c: "i < j - 1" "cmp (xs ! 0) (xs ! (j - 1)) = 0"
  shows "part_inv cmp (swap_list xs (gt - 1) (j - 1)) i (j - 1) lt (gt - 1)"
proof -
  let ?ys = "swap_list xs (gt - 1) (j - 1)"
  note b = part_inv_bounds [OF inv]
  have in_xs: "gt - 1 < length xs" "j - 1 < length xs" using b c by linarith+
  note same = nth_swap_list_other [of _ "gt - 1" "j - 1" xs]
  have low: "?ys ! k = xs ! k" if "k \<le> i" for k using that b c by (intro same) linarith+
  have at: "?ys ! (gt - 1) = xs ! (j - 1)" "?ys ! (j - 1) = xs ! (gt - 1)"
    using in_xs by (auto simp: nth_swap_list)
  show ?thesis
  proof (rule part_invI, goal_cases)
    case (6 k)
    then show ?case using part_invD(1) [OF inv, of k] b low [of 0] low [of k] by simp
  next
    case (7 k)
    then show ?case using part_invD(2) [OF inv, of k] b low [of 0] low [of k] by simp
  next
    case (8 k)
    then show ?case
      using part_invD(3) [OF inv, of k] part_invD(3) [OF inv, of "gt - 1"] b c low [of 0] at same [of k]
      by (cases "k = j - 1") auto
  next
    case (9 k)
    then show ?case
      using part_invD(4) [OF inv, of k] b c low [of 0] at same [of k]
      by (cases "k = gt - 1") auto
  qed (use b c in auto)
qed

lemma part_inv_exchange:
  assumes inv: "part_inv cmp xs i (j + 1) lt gt" and c: "i < j" "cmp (xs ! 0) (xs ! i) < 0" "0 < cmp (xs ! 0) (xs ! j)"
  shows "part_inv cmp (swap_list xs i j) (i + 1) j lt gt"
proof -
  let ?ys = "swap_list xs i j"
  note b = part_inv_bounds [OF inv]
  have in_xs: "i < length xs" "j < length xs" using b c by linarith+
  note same = nth_swap_list_other [of _ i j xs]
  have 0: "?ys ! 0 = xs ! 0" using b c by (intro same) linarith+
  have at: "?ys ! i = xs ! j" "?ys ! j = xs ! i" using in_xs by (auto simp: nth_swap_list)
  show ?thesis
  proof (rule part_invI, goal_cases)
    case (6 k)
    then show ?case using part_invD(1) [OF inv, of k] b c 0 same [of k] by simp
  next
    case (7 k)
    then show ?case using part_invD(2) [OF inv, of k] b c 0 same [of k] at by (cases "k = i") auto
  next
    case (8 k)
    then show ?case using part_invD(3) [OF inv, of k] b c 0 same [of k] at by (cases "k = j") auto
  next
    case (9 k)
    then show ?case using part_invD(4) [OF inv, of k] b c 0 same [of k] by auto
  qed (use b c in auto)
qed

context element_swap
begin

lemma cmp_pivot:
  "array_at P es \<Longrightarrow> i < length es \<Longrightarrow>
     cmp_at cmp sz (P @ concat es @ Q) (length P) (length P + sz * i) = Some (cmp (es ! 0) (es ! i))"
  using cmp_elements [of P es 0 i cmp Q] by (cases es) simp_all

lemma scan_up_inv:
  "array_at P es \<Longrightarrow> part_inv cmp es i j lt gt \<Longrightarrow>
     \<exists>es' i' lt'. scan_up cmp swap sz (length P) (length P + sz * j) (P @ concat es @ Q)
           i (length P + sz * i) lt (length P + sz * lt) =
         Some (P @ concat es' @ Q, i', length P + sz * i', lt', length P + sz * lt') \<and>
       mset es' = mset es \<and> part_inv cmp es' i' j lt' gt \<and> i \<le> i' \<and> (i' < j \<longrightarrow> cmp (es' ! 0) (es' ! i') < 0)"
proof (induction "j - i" arbitrary: i lt es rule: less_induct)
  case less
  let ?m = "P @ concat es @ Q"
  note b = part_inv_bounds [OF less.prems(2)]
  note step = scan_up.simps [of cmp swap sz "length P" "length P + sz * j" ?m i "length P + sz * i" lt "length P + sz * lt"]
  have lt: "(length P + sz * i < length P + sz * j) = (i < j)" using sz_pos by simp
  have next_i: "length P + sz * i + sz = length P + sz * (i + 1)" "length P + sz * lt + sz = length P + sz * (lt + 1)"
    by simp_all
  show ?case
  proof (cases "i < j")
    case True
    then have dec: "j - (i + 1) < j - i" by simp
    have ops: "cmp_at cmp sz ?m (length P) (length P + sz * i) = Some (cmp (es ! 0) (es ! i))"
      "swap ?m (length P + sz * lt) (length P + sz * i) sz = Some (P @ concat (swap_list es lt i) @ Q)"
      using cmp_pivot [OF less.prems(1), of i cmp Q] exchange_elements [OF less.prems(1), of lt i Q] b True
      by auto
    consider "cmp (es ! 0) (es ! i) < 0" | "cmp (es ! 0) (es ! i) = 0" | "0 < cmp (es ! 0) (es ! i)" by linarith
    then show ?thesis
    proof cases
      case 1
      with True less.prems ops show ?thesis
        unfolding step lt by (intro exI [of _ es] exI [of _ i] exI [of _ lt]) simp
    next
      case 2
      let ?es = "swap_list es lt i"
      have p: "mset ?es = mset es" using b True by simp
      from less.hyps [OF dec array_at_perm [OF less.prems(1) p] part_inv_up_equal [OF less.prems(2) True 2]]
      obtain es' i' lt' where
        "scan_up cmp swap sz (length P) (length P + sz * j) (P @ concat ?es @ Q) (i + 1) (length P + sz * (i + 1))
           (lt + 1) (length P + sz * (lt + 1)) = Some (P @ concat es' @ Q, i', length P + sz * i', lt', length P + sz * lt')"
        "mset es' = mset ?es" "part_inv cmp es' i' j lt' gt" "i + 1 \<le> i'" "i' < j \<longrightarrow> cmp (es' ! 0) (es' ! i') < 0"
        by blast
      with True 2 p show ?thesis
        unfolding step lt next_i ops by (intro exI [of _ es'] exI [of _ i'] exI [of _ lt']) simp
    next
      case 3
      from less.hyps [OF dec less.prems(1) part_inv_up_less [OF less.prems(2) True 3]]
      obtain es' i' lt' where
        "scan_up cmp swap sz (length P) (length P + sz * j) ?m (i + 1) (length P + sz * (i + 1))
           lt (length P + sz * lt) = Some (P @ concat es' @ Q, i', length P + sz * i', lt', length P + sz * lt')"
        "mset es' = mset es" "part_inv cmp es' i' j lt' gt" "i + 1 \<le> i'" "i' < j \<longrightarrow> cmp (es' ! 0) (es' ! i') < 0"
        by blast
      with True 3 show ?thesis
        unfolding step lt next_i ops by (intro exI [of _ es'] exI [of _ i'] exI [of _ lt']) simp
    qed
  next
    case False
    with less.prems show ?thesis
      unfolding step lt by (intro exI [of _ es] exI [of _ i] exI [of _ lt]) simp
  qed
qed

end

context element_swap
begin

lemma scan_down_inv:
  "array_at P es \<Longrightarrow> part_inv cmp es i j lt gt \<Longrightarrow> (i < j \<longrightarrow> cmp (es ! 0) (es ! i) < 0) \<Longrightarrow>
     \<exists>es' gt' pj'. scan_down cmp swap sz (length P) (length P + sz * i) (P @ concat es @ Q)
           gt (length P + sz * gt) (length P + sz * j) = Some (P @ concat es' @ Q, gt', length P + sz * gt', pj') \<and>
       mset es' = mset es \<and>
       ((\<exists>j'. pj' = length P + sz * j' \<and> i < j' \<and> j' < j \<and> part_inv cmp es' i (j' + 1) lt gt' \<and>
            cmp (es' ! 0) (es' ! i) < 0 \<and> 0 < cmp (es' ! 0) (es' ! j')) \<or>
        pj' \<le> length P + sz * i \<and> part_inv cmp es' i i lt gt')"
proof (induction j arbitrary: gt es rule: less_induct)
  case (less j)
  let ?m = "P @ concat es @ Q"
  note b = part_inv_bounds [OF less.prems(2)]
  have j: "0 < j" "0 < gt" using b by linarith+
  have pj: "length P + sz * j - sz = length P + sz * (j - 1)" "length P + sz * gt - sz = length P + sz * (gt - 1)"
    using j by (cases j; cases gt; simp)+
  have lt: "(length P + sz * i < length P + sz * (j - 1)) = (i < j - 1)" using sz_pos by simp
  note step = scan_down.simps [of cmp swap sz "length P" "length P + sz * i" ?m gt "length P + sz * gt" "length P + sz * j"]
    Let_def pj lt
  show ?case
  proof (cases "i < j - 1")
    case True
    have dec: "j - 1 < j" using j by simp
    have ops: "cmp_at cmp sz ?m (length P) (length P + sz * (j - 1)) = Some (cmp (es ! 0) (es ! (j - 1)))"
      "swap ?m (length P + sz * (gt - 1)) (length P + sz * (j - 1)) sz =
        Some (P @ concat (swap_list es (gt - 1) (j - 1)) @ Q)"
      by (rule cmp_pivot [OF less.prems(1)] exchange_elements [OF less.prems(1)]; use b j in linarith)+
    consider "0 < cmp (es ! 0) (es ! (j - 1))" | "cmp (es ! 0) (es ! (j - 1)) = 0" | "cmp (es ! 0) (es ! (j - 1)) < 0"
      by linarith
    then show ?thesis
    proof cases
      case 1
      have "scan_down cmp swap sz (length P) (length P + sz * i) ?m gt (length P + sz * gt) (length P + sz * j) =
          Some (?m, gt, length P + sz * gt, length P + sz * (j - 1))"
        unfolding step using True 1 ops(1) by simp
      moreover have "part_inv cmp es i (j - 1 + 1) lt gt" "cmp (es ! 0) (es ! i) < 0" using less.prems(2,3) j True by auto
      ultimately show ?thesis using 1 True dec by blast
    next
      case 2
      let ?es = "swap_list es (gt - 1) (j - 1)"
      have p: "mset ?es = mset es" by (rule mset_swap_list; use b j in linarith)
      have low: "?es ! 0 = es ! 0" "?es ! i = es ! i"
        by (rule nth_swap_list_other; use b True in linarith)+
      have "i < j - 1 \<longrightarrow> cmp (?es ! 0) (?es ! i) < 0" using less.prems(3) True unfolding low by simp
      from less.IH [OF dec array_at_perm [OF less.prems(1) p] part_inv_down_equal [OF less.prems(2) True 2] this]
      obtain es' gt' pj' where ih:
        "scan_down cmp swap sz (length P) (length P + sz * i) (P @ concat ?es @ Q)
           (gt - 1) (length P + sz * (gt - 1)) (length P + sz * (j - 1)) = Some (P @ concat es' @ Q, gt', length P + sz * gt', pj')"
        "mset es' = mset ?es"
        "(\<exists>j'. pj' = length P + sz * j' \<and> i < j' \<and> j' < j - 1 \<and> part_inv cmp es' i (j' + 1) lt gt' \<and>
            cmp (es' ! 0) (es' ! i) < 0 \<and> 0 < cmp (es' ! 0) (es' ! j')) \<or>
          pj' \<le> length P + sz * i \<and> part_inv cmp es' i i lt gt'"
        by blast
      have "scan_down cmp swap sz (length P) (length P + sz * i) ?m gt (length P + sz * gt) (length P + sz * j) =
          Some (P @ concat es' @ Q, gt', length P + sz * gt', pj')"
        unfolding step using True 2 ops ih(1) by simp
      moreover have "j' < j" if "j' < j - 1" for j' using that by simp
      ultimately show ?thesis using ih(2,3) p by metis
    next
      case 3
      have "i < j - 1 \<longrightarrow> cmp (es ! 0) (es ! i) < 0" using less.prems(3) True by simp
      from less.IH [OF dec less.prems(1) part_inv_down_greater [OF less.prems(2) less_imp_le [OF True] 3] this]
      obtain es' gt' pj' where ih:
        "scan_down cmp swap sz (length P) (length P + sz * i) ?m
           gt (length P + sz * gt) (length P + sz * (j - 1)) = Some (P @ concat es' @ Q, gt', length P + sz * gt', pj')"
        "mset es' = mset es"
        "(\<exists>j'. pj' = length P + sz * j' \<and> i < j' \<and> j' < j - 1 \<and> part_inv cmp es' i (j' + 1) lt gt' \<and>
            cmp (es' ! 0) (es' ! i) < 0 \<and> 0 < cmp (es' ! 0) (es' ! j')) \<or>
          pj' \<le> length P + sz * i \<and> part_inv cmp es' i i lt gt'"
        by blast
      have "scan_down cmp swap sz (length P) (length P + sz * i) ?m gt (length P + sz * gt) (length P + sz * j) =
          Some (P @ concat es' @ Q, gt', length P + sz * gt', pj')"
        unfolding step using True 3 ops(1) ih(1) by simp
      moreover have "j' < j" if "j' < j - 1" for j' using that by simp
      ultimately show ?thesis using ih(2,3) by metis
    qed
  next
    case False
    have "scan_down cmp swap sz (length P) (length P + sz * i) ?m gt (length P + sz * gt) (length P + sz * j) =
        Some (?m, gt, length P + sz * gt, length P + sz * (j - 1))"
      unfolding step using False by simp
    moreover have "part_inv cmp es i i lt gt"
    proof (cases "i = j")
      case True
      with less.prems(2) show ?thesis by simp
    next
      case ne: False
      then have "i = j - 1" "i < j" using False b by linarith+
      then show ?thesis using part_inv_down_greater [OF less.prems(2)] less.prems(3) by simp
    qed
    moreover have "length P + sz * (j - 1) \<le> length P + sz * i" using False by simp
    ultimately show ?thesis by blast
  qed
qed

lemma partition_loop_inv:
  "array_at P es \<Longrightarrow> part_inv cmp es i j lt gt \<Longrightarrow>
     \<exists>es' i' lt' gt'. partition_loop cmp swap sz (length P) (P @ concat es @ Q)
           i (length P + sz * i) lt (length P + sz * lt) gt (length P + sz * gt) (length P + sz * j) =
         Some (P @ concat es' @ Q, i', length P + sz * i', lt', length P + sz * lt', gt', length P + sz * gt') \<and>
       mset es' = mset es \<and> part_inv cmp es' i' i' lt' gt'"
proof (induction "j - i" arbitrary: es i j lt gt rule: less_induct)
  case less
  from scan_up_inv [OF less.prems] obtain es1 i1 lt1 where up:
    "scan_up cmp swap sz (length P) (length P + sz * j) (P @ concat es @ Q) i (length P + sz * i) lt (length P + sz * lt) =
       Some (P @ concat es1 @ Q, i1, length P + sz * i1, lt1, length P + sz * lt1)"
    "mset es1 = mset es" "part_inv cmp es1 i1 j lt1 gt" "i \<le> i1" "i1 < j \<longrightarrow> cmp (es1 ! 0) (es1 ! i1) < 0"
    by blast
  have a1: "array_at P es1" using less.prems(1) up(2) by (rule array_at_perm)
  from scan_down_inv [OF a1 up(3,5)] obtain es2 gt2 pj where down:
    "scan_down cmp swap sz (length P) (length P + sz * i1) (P @ concat es1 @ Q) gt (length P + sz * gt) (length P + sz * j) =
       Some (P @ concat es2 @ Q, gt2, length P + sz * gt2, pj)"
    "mset es2 = mset es1"
    "(\<exists>j'. pj = length P + sz * j' \<and> i1 < j' \<and> j' < j \<and> part_inv cmp es2 i1 (j' + 1) lt1 gt2 \<and>
        cmp (es2 ! 0) (es2 ! i1) < 0 \<and> 0 < cmp (es2 ! 0) (es2 ! j')) \<or>
     pj \<le> length P + sz * i1 \<and> part_inv cmp es2 i1 i1 lt1 gt2"
    by blast
  have a2: "array_at P es2" using a1 down(2) by (rule array_at_perm)
  note step = partition_loop.simps [of cmp swap sz "length P" "P @ concat es @ Q" i "length P + sz * i" lt
    "length P + sz * lt" gt "length P + sz * gt" "length P + sz * j"]
  from down(3) show ?case
  proof (elim disjE exE conjE)
    fix j'
    assume j': "pj = length P + sz * j'" "i1 < j'" "j' < j" "part_inv cmp es2 i1 (j' + 1) lt1 gt2"
      "cmp (es2 ! 0) (es2 ! i1) < 0" "0 < cmp (es2 ! 0) (es2 ! j')"
    let ?es = "swap_list es2 i1 j'"
    have in_es: "i1 < length es2" "j' < length es2" using part_inv_bounds [OF j'(4)] j'(2) by linarith+
    have p: "mset ?es = mset es2" using in_es by simp
    have "j' - (i1 + 1) < j - i" using j'(2,3) up(4) by linarith
    from less.hyps [OF this array_at_perm [OF a2 p] part_inv_exchange [OF j'(4,2,5,6)]] obtain es3 i3 lt3 gt3 where ih:
      "partition_loop cmp swap sz (length P) (P @ concat ?es @ Q) (i1 + 1) (length P + sz * (i1 + 1)) lt1
         (length P + sz * lt1) gt2 (length P + sz * gt2) (length P + sz * j') =
       Some (P @ concat es3 @ Q, i3, length P + sz * i3, lt3, length P + sz * lt3, gt3, length P + sz * gt3)"
      "mset es3 = mset ?es" "part_inv cmp es3 i3 i3 lt3 gt3"
      by blast
    have "length P + sz * i1 + sz = length P + sz * (i1 + 1)" "\<not> length P + sz * j' \<le> length P + sz * i1"
      using j'(2) sz_pos by simp_all
    then have "partition_loop cmp swap sz (length P) (P @ concat es @ Q) i (length P + sz * i) lt
         (length P + sz * lt) gt (length P + sz * gt) (length P + sz * j) =
       Some (P @ concat es3 @ Q, i3, length P + sz * i3, lt3, length P + sz * lt3, gt3, length P + sz * gt3)"
      unfolding step up(1) down(1) bind.simps prod.case j'(1)
      by (simp only: if_False exchange_elements [OF a2 in_es] bind.simps ih(1))
    then show ?thesis using ih(2,3) p up(2) down(2) by auto
  next
    assume "pj \<le> length P + sz * i1" "part_inv cmp es2 i1 i1 lt1 gt2"
    moreover from this(1) have "partition_loop cmp swap sz (length P) (P @ concat es @ Q) i (length P + sz * i) lt
         (length P + sz * lt) gt (length P + sz * gt) (length P + sz * j) =
       Some (P @ concat es2 @ Q, i1, length P + sz * i1, lt1, length P + sz * lt1, gt2, length P + sz * gt2)"
      unfolding step up(1) down(1) bind.simps prod.case by (simp only: if_True)
    ultimately show ?thesis using up(2) down(2) by auto
  qed
qed

end

text \<open>What a round leaves: smaller elements, equals of the pivot, bigger elements.\<close>

definition three_parts :: "('a \<Rightarrow> 'a \<Rightarrow> int) \<Rightarrow> 'a list \<Rightarrow> 'a list \<Rightarrow> 'a list \<Rightarrow> bool" where
  "three_parts cmp L E G \<longleftrightarrow> E \<noteq> [] \<and>
     (\<exists>v. (\<forall>x \<in> set L. 0 < cmp v x) \<and> (\<forall>x \<in> set E. x = v \<or> cmp v x = 0) \<and> (\<forall>x \<in> set G. cmp v x < 0))"

text \<open>The block exchange, which swaps two neighbouring parts up to their order.\<close>

locale sort_swaps = element_swap +
  fixes swap_block :: exchange_f
  assumes swap_blocks: "exchanges swap_block (sz * n) (base + sz * i) (base + sz * j)"
begin

lemma exchange_blocks:
  assumes a: "array_at P (xs @ bs @ ys)" and l: "length xs = length ys"
  shows "swap_block (P @ concat (xs @ bs @ ys) @ Q) (length P) (length P + sz * (length xs + length bs)) (sz * length xs) =
    Some (P @ concat (ys @ bs @ xs) @ Q)"
proof -
  obtain k where k: "length P = base + sz * k" using a by (auto simp: array_at_def)
  have ex: "exchanges swap_block (sz * length xs) (length P) (length P + sz * (length xs + length bs))"
    using swap_blocks [of "length xs" k "k + (length xs + length bs)"] unfolding k by (simp add: algebra_simps)
  have "length (concat xs) = sz * length xs" "length (concat bs) = sz * length bs" "length (concat ys) = sz * length xs"
    using a l length_concat_const [of xs sz] length_concat_const [of bs sz] length_concat_const [of ys sz]
    by (simp_all add: array_at_def)
  then have "swap_block (P @ concat xs @ concat bs @ concat ys @ Q) (length P)
      (length P + sz * (length xs + length bs)) (sz * length xs) = Some (P @ concat ys @ concat bs @ concat xs @ Q)"
    by (intro exchangesD(1) [OF ex]) (simp_all add: algebra_simps)
  then show ?thesis by simp
qed

lemma rotate_parts:
  assumes a: "array_at P (X @ Y)" and sp: "span = sz * min (length X) (length Y)"
  shows "\<exists>X' Y'. swap_block (P @ concat (X @ Y) @ Q) (length P) (length P + sz * (length X + length Y) - span) span =
      Some (P @ concat (Y' @ X') @ Q) \<and> mset X' = mset X \<and> mset Y' = mset Y"
proof (cases "length X \<le> length Y")
  case True
  define Y1 Y2 where "Y1 = take (length Y - length X) Y" and "Y2 = drop (length Y - length X) Y"
  then have Y: "Y = Y1 @ Y2" "length Y2 = length X" using True by simp_all
  have "length P + sz * (length X + length Y) - span = length P + sz * (length X + length Y1)"
    using True by (simp add: sp Y algebra_simps)
  moreover have "mset (Y2 @ Y1) = mset Y" by (simp add: Y)
  ultimately show ?thesis
    using exchange_blocks [of P X Y1 Y2 Q] a Y True
    by (intro exI [of _ X] exI [of _ "Y2 @ Y1"]) (simp add: sp)
next
  case False
  define X1 X2 where "X1 = take (length Y) X" and "X2 = drop (length Y) X"
  then have X: "X = X1 @ X2" "length X1 = length Y" using False by simp_all
  have "length P + sz * (length X + length Y) - span = length P + sz * (length X1 + length X2)"
    using False by (simp add: sp X algebra_simps)
  moreover have "mset (X2 @ X1) = mset X" by (simp add: X)
  ultimately show ?thesis
    using exchange_blocks [of P X1 X2 Y Q] a X False
    by (intro exI [of _ "X2 @ X1"] exI [of _ Y]) (simp add: sp)
qed

lemma med3_element:
  assumes "array_at P es" "a < length es" "b < length es" "c < length es"
  shows "\<exists>k \<in> {a, b, c}. med3 cmp sz (P @ concat es @ Q) (length P + sz * a) (length P + sz * b) (length P + sz * c) =
    Some (length P + sz * k)"
  using assms by (auto simp: med3_def cmp_elements [OF assms(1)])

lemma split_four:
  assumes "lt \<le> i" "i \<le> gt" "gt \<le> length xs"
  obtains A B C D where "xs = A @ B @ C @ D" "length A = lt" "length B = i - lt" "length C = gt - i" "length D = length xs - gt"
proof (rule that)
  show "xs = take lt xs @ take (i - lt) (drop lt xs) @ take (gt - i) (drop i xs) @ drop gt xs"
    using assms by (metis append_take_drop_id drop_drop le_add_diff_inverse2)
qed (use assms in simp_all)

lemma part_inv_parts:
  assumes inv: "part_inv cmp (A @ B @ C @ D) i i lt gt"
    and l: "length A = lt" "length B = i - lt" "length C = gt - i"
  shows "A \<noteq> [] \<and> (\<forall>x \<in> set A. x = A ! 0 \<or> cmp (A ! 0) x = 0) \<and> (\<forall>x \<in> set B. 0 < cmp (A ! 0) x) \<and>
    (\<forall>x \<in> set C. cmp (A ! 0) x < 0) \<and> (\<forall>x \<in> set D. cmp (A ! 0) x = 0)"
proof -
  let ?xs = "A @ B @ C @ D"
  note b = part_inv_bounds [OF inv]
  have A: "A \<noteq> []" using b l by auto
  then have 0: "?xs ! 0 = A ! 0" by (simp add: nth_append)
  have "x = A ! 0 \<or> cmp (A ! 0) x = 0" if x: "x \<in> set A" for x
  proof -
    obtain k where "k < lt" "x = A ! k" using x l by (auto simp: in_set_conv_nth)
    then show ?thesis using part_invD(1) [OF inv, of k] l 0 by (cases "k = 0") (simp_all add: nth_append)
  qed
  moreover have "0 < cmp (A ! 0) x" if x: "x \<in> set B" for x
  proof -
    obtain k where "k < i - lt" "x = B ! k" using x l by (auto simp: in_set_conv_nth)
    then show ?thesis using part_invD(2) [OF inv, of "lt + k"] l 0 by (simp add: nth_append)
  qed
  moreover have "cmp (A ! 0) x < 0" if x: "x \<in> set C" for x
  proof -
    obtain k where "k < gt - i" "x = C ! k" using x l by (auto simp: in_set_conv_nth)
    moreover from this have "?xs ! (i + k) = C ! k"
      using nth_append_length_plus [of "A @ B" "C @ D" k] l b by (simp add: nth_append)
    ultimately show ?thesis using part_invD(3) [OF inv, of "i + k"] 0 by simp
  qed
  moreover have "cmp (A ! 0) x = 0" if x: "x \<in> set D" for x
  proof -
    obtain k where "k < length D" "x = D ! k" using x by (auto simp: in_set_conv_nth)
    moreover have "?xs ! (gt + k) = D ! k" "length ?xs = gt + length D"
      using nth_append_length_plus [of "A @ B @ C" D k] l b by simp_all
    ultimately show ?thesis using part_invD(4) [OF inv, of "gt + k"] 0 by simp
  qed
  ultimately show ?thesis using A by blast
qed

end

context sort_swaps
begin

lemma partition_round_parts:
  assumes a: "array_at P es" and n: "6 < length es"
  shows "\<exists>L E G. partition_round cmp swap swap_block sz (P @ concat es @ Q) (length P) (length es) =
      Some (P @ concat (L @ E @ G) @ Q, length L, length L + length E, length P + sz * (length L + length E)) \<and>
    mset (L @ E @ G) = mset es \<and> three_parts cmp L E G"
proof -
  let ?n = "length es" and ?m = "P @ concat es @ Q"
  define q where "q = ?n div 4"
  have q: "q < ?n" "2 * q < ?n" "3 * q < ?n" "0 < q" using n by (simp_all add: q_def)
  obtain k where k: "k \<in> {q, 2 * q, 3 * q}"
    "med3 cmp sz ?m (length P + sz * q) (length P + sz * (2 * q)) (length P + sz * (3 * q)) = Some (length P + sz * k)"
    using med3_element [OF a q(1-3)] by blast
  then have kn: "0 < k" "k < ?n" "0 < ?n" using q by auto
  let ?es = "swap_list es 0 k"
  have p0: "mset ?es = mset es" using kn by simp
  have sw: "swap ?m (length P) (length P + sz * k) sz = Some (P @ concat ?es @ Q)"
    using exchange_elements [OF a kn(3,2), of Q] by simp
  note a0 = array_at_perm [OF a p0]
  have "part_inv cmp ?es 1 ?n 1 ?n" using n by (simp add: part_inv_def)
  from partition_loop_inv [OF a0 this] obtain es1 i lt gt where loop:
    "partition_loop cmp swap sz (length P) (P @ concat ?es @ Q) 1 (length P + sz * 1) 1 (length P + sz * 1)
       ?n (length P + sz * ?n) (length P + sz * ?n) =
     Some (P @ concat es1 @ Q, i, length P + sz * i, lt, length P + sz * lt, gt, length P + sz * gt)"
    "mset es1 = mset ?es" "part_inv cmp es1 i i lt gt"
    by blast
  note b = part_inv_bounds [OF loop(3)]
  have l1: "length es1 = ?n" using mset_eq_length [OF loop(2)] by simp
  have "lt \<le> i" "i \<le> gt" "gt \<le> length es1" using b by blast+
  from split_four [OF this] obtain A B C D where
    "es1 = A @ B @ C @ D" "length A = lt" "length B = i - lt" "length C = gt - i" "length D = length es1 - gt" .
  note s = this [unfolded l1]
  have a1: "array_at P (A @ B)" "array_at (P @ concat (A @ B)) (C @ D)"
    using array_at_perm [OF a0 loop(2)] array_at_append [of P "A @ B" "C @ D"] unfolding s(1) by simp_all
  define sp1 where "sp1 = sz * min (length A) (length B)"
  obtain A' B' where r1: "swap_block (P @ concat (A @ B) @ concat (C @ D) @ Q) (length P)
      (length P + sz * (length A + length B) - sp1) sp1 = Some (P @ concat (B' @ A') @ concat (C @ D) @ Q)"
    "mset A' = mset A" "mset B' = mset B"
    using rotate_parts [OF a1(1) sp1_def] by blast
  let ?P = "P @ concat (B' @ A')"
  have e: "\<forall>x \<in> set (B' @ A'). length x = sz"
    using a1(1) mset_eq_setD [OF r1(2)] mset_eq_setD [OF r1(3)] by (auto simp: array_at_def)
  have len: "length A' = lt" "length B' = i - lt"
    using mset_eq_length [OF r1(2)] mset_eq_length [OF r1(3)] s by simp_all
  then have P: "length ?P = length P + sz * i"
    using length_concat_const [OF e] b by simp
  have "length (P @ concat (A @ B)) = length ?P"
    using a1(1) length_concat_const [of "A @ B" sz] P s b by (simp add: array_at_def)
  then have a2: "array_at ?P (C @ D)" using a1(2) unfolding array_at_def by simp
  define sp2 where "sp2 = sz * min (length C) (length D)"
  obtain C' D' where r2: "swap_block (?P @ concat (C @ D) @ Q) (length ?P)
      (length ?P + sz * (length C + length D) - sp2) sp2 = Some (?P @ concat (D' @ C') @ Q)"
    "mset C' = mset C" "mset D' = mset D"
    using rotate_parts [OF a2 sp2_def] by blast
  have len2: "length C' = gt - i" "length D' = ?n - gt"
    using mset_eq_length [OF r2(2)] mset_eq_length [OF r2(3)] s by simp_all
  have "lt + (?n - gt) = ?n - (gt - i) - (i - lt)" using b l1 by linarith
  have "partition_round cmp swap swap_block sz ?m (length P) ?n =
      Some (P @ concat (B' @ (A' @ D') @ C') @ Q, length B', length B' + length (A' @ D'),
        length P + sz * (length B' + length (A' @ D')))"
  proof -
    have m4: "length P + q * sz = length P + sz * q" "length P + 2 * (q * sz) = length P + sz * (2 * q)"
      "length P + 3 * (q * sz) = length P + sz * (3 * q)" "length P + ?n * sz = length P + sz * ?n"
      "length P + sz = length P + sz * 1"
      by simp_all
    have d: "length P + sz * lt - length P = sz * lt" "length P + sz * i - (length P + sz * lt) = sz * (i - lt)"
      "length P + sz * ?n - (length P + sz * gt) = sz * (?n - gt)"
      "length P + sz * gt - (length P + sz * i) = sz * (gt - i)"
      by (simp_all add: diff_mult_distrib2)
    have m1: "(if sz * (i - lt) < sz * lt then sz * (i - lt) else sz * lt) = sp1"
      "(if sz * (gt - i) < sz * (?n - gt) then sz * (gt - i) else sz * (?n - gt)) = sp2"
      using sz_pos by (simp_all add: sp1_def sp2_def s min_def not_less)
    have x1: "swap_block (P @ concat es1 @ Q) (length P) (length P + sz * i - sp1) sp1 =
        Some (?P @ concat (C @ D) @ Q)"
      using r1(1) b by (simp add: s)
    have "sz * i + sz * (gt - i + (?n - gt)) = sz * ?n"
      unfolding distrib_left [symmetric] using b l1 by simp
    then have z: "length P + sz * i + sz * (gt - i + (?n - gt)) = length P + sz * ?n" by simp
    have x2: "swap_block (?P @ concat (C @ D) @ Q) (length P + sz * i) (length P + sz * ?n - sp2) sp2 =
        Some (?P @ concat (D' @ C') @ Q)"
      using r2(1) unfolding P s(4,5) z .
    have "sz * (?n - (gt - i)) = sz * ?n - sz * (gt - i)" by (rule diff_mult_distrib2)
    moreover have "sz * (gt - i) \<le> sz * ?n" using b l1 by (intro mult_le_mono2) linarith
    ultimately have ret: "length P + sz * ?n - sz * (gt - i) = length P + sz * (?n - (gt - i))" by linarith
    have ret2: "i - lt = length B'" "?n - (gt - i) = length B' + length (A' @ D')"
      using len len2 b l1 by simp_all
    show ?thesis
      unfolding partition_round_def Let_def q_def [symmetric] m4 k(2) sw bind.simps loop(1) prod.case d m1 x1 x2 ret
      unfolding ret2
      by simp
  qed
  moreover have "mset (B' @ (A' @ D') @ C') = mset es"
    using loop(2) p0 r1(2,3) r2(2,3) by (simp add: s(1) ac_simps)
  moreover have "three_parts cmp B' (A' @ D') C'"
    using part_inv_parts [OF loop(3) [unfolded s(1)] s(2-4)] mset_eq_setD [OF r1(2)] mset_eq_setD [OF r1(3)]
      mset_eq_setD [OF r2(2)] mset_eq_setD [OF r2(3)] len b unfolding three_parts_def
    by (intro conjI exI [of _ "A ! 0"]) auto
  ultimately show ?thesis by blast
qed

end

subsection \<open>The sort of a segment, with the rest of the stack\<close>

definition finish_segment ::
    "nat \<Rightarrow> cmp_f \<Rightarrow> exchange_f \<Rightarrow> exchange_f \<Rightarrow> nat \<Rightarrow> u8 list \<Rightarrow> (nat \<times> nat \<times> nat) list
      \<Rightarrow> nat \<Rightarrow> nat \<Rightarrow> nat \<Rightarrow> u8 list option" where
  "finish_segment A cmp swap swap_block sz m stack ptr nmemb depth = do {
     (m, stack, ptr, nmemb) \<leftarrow> segment_loop A cmp swap swap_block sz m stack ptr nmemb depth;
     m \<leftarrow> insertion_loop cmp swap sz ptr (ptr + nmemb * sz) m (ptr + sz);
     stack_loop A cmp swap swap_block sz m stack }"

lemma stack_loop_Nil: "stack_loop A cmp swap swap_block sz m [] = Some m"
  by (subst stack_loop.simps) simp

lemma stack_loop_Cons:
  "stack_loop A cmp swap swap_block sz m ((ptr, nmemb, depth) # stack) =
     finish_segment A cmp swap swap_block sz m stack ptr nmemb depth"
  by (subst stack_loop.simps) (simp add: finish_segment_def)

lemma finish_segment_small:
  "\<not> nmemb > 6 \<Longrightarrow> finish_segment A cmp swap swap_block sz m stack ptr nmemb depth = do {
     m \<leftarrow> insertion_loop cmp swap sz ptr (ptr + nmemb * sz) m (ptr + sz);
     stack_loop A cmp swap swap_block sz m stack }"
  unfolding finish_segment_def by (subst segment_loop.simps) simp

lemma finish_segment_deep:
  "nmemb > 6 \<Longrightarrow> depth \<ge> 50 \<Longrightarrow> heapsortx A cmp sz m ptr nmemb = Some m' \<Longrightarrow> 0 < sz \<Longrightarrow>
     finish_segment A cmp swap swap_block sz m stack ptr nmemb depth = stack_loop A cmp swap swap_block sz m' stack"
  unfolding finish_segment_def
  by (subst segment_loop.simps) (simp add: insertion_loop.simps [of cmp swap sz ptr ptr])

lemma finish_segment_split:
  assumes "nmemb > 6" "depth < 50" "length stack < 50"
    and "partition_round cmp swap swap_block sz m ptr nmemb = Some (m', lt, gt, pgt)"
  shows "finish_segment A cmp swap swap_block sz m stack ptr nmemb depth =
    (if lt > nmemb - gt
     then finish_segment A cmp swap swap_block sz m' ((ptr, lt, depth + 1) # stack) pgt (nmemb - gt) (depth + 1)
     else finish_segment A cmp swap swap_block sz m' ((pgt, nmemb - gt, depth + 1) # stack) ptr lt (depth + 1))"
  using assms unfolding finish_segment_def
  by (subst segment_loop.simps) (simp add: push_segment_def Let_def)

context comparison
begin

lemma three_parts_sorted:
  assumes t: "three_parts cmp L E G" and L: "set L' = set L" "cmp_sorted cmp L'"
    and G: "set G' = set G" "cmp_sorted cmp G'"
  shows "cmp_sorted cmp (L' @ E @ G')"
proof -
  obtain v where v: "\<forall>x \<in> set L. 0 < cmp v x" "\<forall>x \<in> set E. x = v \<or> cmp v x = 0" "\<forall>x \<in> set G. cmp v x < 0"
    using t unfolding three_parts_def by blast
  have l: "cmp x v \<le> 0" if "x \<in> set L" for x using v(1) that cmp_swap(2) [of v x] by auto
  have e: "cmp v x \<le> 0" "cmp x v \<le> 0" if "x \<in> set E" for x
    using v(2) that cmp_swap(3) [of v x] by auto
  have g: "cmp v x \<le> 0" if "x \<in> set G" for x using v(3) that by auto
  have "\<forall>x \<in> set L. \<forall>y \<in> set E \<union> set G. cmp x y \<le> 0" "\<forall>x \<in> set E. \<forall>y \<in> set G. cmp x y \<le> 0"
    using l e g by (blast intro: cmp_trans)+
  moreover have "cmp x y \<le> 0" if "x \<in> set E" "y \<in> set E" for x y
    by (rule cmp_trans [OF e(2) [OF that(1)] e(1) [OF that(2)]])
  then have "cmp_sorted cmp E" by (simp add: sorted_wrt_iff_nth_less)
  ultimately show ?thesis
    using L G by (auto simp: sorted_wrt_append)
qed

end

context sort_swaps
begin

lemma finish_segment_sorts:
  "array_at P es \<Longrightarrow> length st \<le> d \<Longrightarrow> d \<le> 50 \<Longrightarrow>
     \<exists>es'. finish_segment A cmp swap swap_block sz (P @ concat es @ Q) st (length P) (length es) d =
         stack_loop A cmp swap swap_block sz (P @ concat es' @ Q) st \<and>
       mset es' = mset es \<and> (comparison cmp \<longrightarrow> cmp_sorted cmp es')"
proof (induction "length es" arbitrary: P es Q st d rule: less_induct)
  case less
  let ?fin = "finish_segment A cmp swap swap_block sz"
  let ?st = "stack_loop A cmp swap swap_block sz"
  consider "length es = 0" | "0 < length es" "\<not> length es > 6" | "length es > 6" "d = 50" | "length es > 6" "d < 50"
    using less.prems(3) by linarith
  then show ?case
  proof cases
    case 1
    then have "?fin (P @ concat es @ Q) st (length P) (length es) d = ?st (P @ concat es @ Q) st"
      using sz_pos by (simp add: finish_segment_small insertion_loop.simps [of cmp swap sz "length P" "length P"])
    with 1 show ?thesis by (intro exI [of _ es]) simp
  next
    case 2
    then have "1 \<le> length es" by linarith
    from insertion_loop_sorts [OF less.prems(1) this] obtain es' where
      "insertion_loop cmp swap sz (length P) (length P + sz * length es) (P @ concat es @ Q) (length P + sz * 1) =
         Some (P @ concat es' @ Q)"
      "mset es' = mset es" "comparison cmp \<longrightarrow> cmp_sorted cmp (take 1 es) \<longrightarrow> cmp_sorted cmp es'"
      by blast
    moreover have "cmp_sorted cmp (take 1 es)" by (cases es) simp_all
    ultimately show ?thesis
      using 2 by (intro exI [of _ es']) (simp add: finish_segment_small mult.commute)
  next
    case 3
    have "\<forall>e \<in> set es. length e = sz" using less.prems(1) by (simp add: array_at_def)
    from heapsortx_sorts [OF sz_pos this] obtain es' where
      "heapsortx A cmp sz (P @ concat es @ Q) (length P) (length es) = Some (P @ concat es' @ Q)"
      "mset es' = mset es" "comparison cmp \<longrightarrow> cmp_sorted cmp es'"
      by blast
    with 3 sz_pos show ?thesis by (intro exI [of _ es']) (simp add: finish_segment_deep)
  next
    case 4
    from partition_round_parts [OF less.prems(1) 4(1)] obtain L E G where part:
      "partition_round cmp swap swap_block sz (P @ concat es @ Q) (length P) (length es) =
        Some (P @ concat (L @ E @ G) @ Q, length L, length L + length E, length P + sz * (length L + length E))"
      "mset (L @ E @ G) = mset es" "three_parts cmp L E G"
      by blast
    have n: "length es = length L + length E + length G" using mset_eq_length [OF part(2)] by simp
    have E: "0 < length E" using part(3) by (simp add: three_parts_def)
    have a: "array_at P (L @ E @ G)" using less.prems(1) part(2) by (rule array_at_perm)
    then have aL: "array_at P L" and aG: "array_at (P @ concat (L @ E)) G"
      using array_at_append [of P L "E @ G"] array_at_append [of P "L @ E" G] by simp_all
    have pG: "length P + sz * (length L + length E) = length (P @ concat L @ concat E)"
      using a length_concat_const [of L sz] length_concat_const [of E sz]
      by (simp add: array_at_def algebra_simps)
    have small: "length L < length es" "length G < length es" using n E by linarith+
    have d: "length ((p, k, d + 1) # st) \<le> d + 1" "length st \<le> d + 1" "d + 1 \<le> 50" for p k :: nat
      using less.prems(2) 4(2) by simp_all
    have st: "length st < 50" using less.prems(2) 4(2) by linarith
    have sorted: "cmp_sorted cmp (L' @ E @ G')"
      if "comparison cmp" "mset L' = mset L" "cmp_sorted cmp L'" "mset G' = mset G" "cmp_sorted cmp G'" for L' G'
      using comparison.three_parts_sorted [OF that(1) part(3) mset_eq_setD [OF that(2)] that(3) mset_eq_setD [OF that(4)] that(5)] .
    have g: "length es - (length L + length E) = length G" using n by simp
    note split = finish_segment_split [OF 4 st part(1), where A = A, unfolded g pG]
    show ?thesis
    proof (cases "length G < length L")
      case True
      let ?s = "(length P, length L, d + 1) # st"
      from less.hyps [OF small(2) aG d(1) [of "length P" "length L"] d(3), of Q] obtain G' where G':
        "?fin ((P @ concat (L @ E)) @ concat G @ Q) ?s (length (P @ concat (L @ E))) (length G) (d + 1) =
           ?st ((P @ concat (L @ E)) @ concat G' @ Q) ?s"
        "mset G' = mset G" "comparison cmp \<longrightarrow> cmp_sorted cmp G'"
        by blast
      from less.hyps [OF small(1) aL d(2,3), of "concat (E @ G') @ Q"] obtain L' where L':
        "?fin (P @ concat L @ concat (E @ G') @ Q) st (length P) (length L) (d + 1) =
           ?st (P @ concat L' @ concat (E @ G') @ Q) st"
        "mset L' = mset L" "comparison cmp \<longrightarrow> cmp_sorted cmp L'"
        by blast
      have "?fin (P @ concat es @ Q) st (length P) (length es) d = ?st (P @ concat (L' @ E @ G') @ Q) st"
        using split True G'(1) L'(1) by (simp add: stack_loop_Cons)
      moreover have "mset (L' @ E @ G') = mset es" using part(2) G'(2) L'(2) by simp
      ultimately show ?thesis using sorted [OF _ L'(2) _ G'(2)] L'(3) G'(3) by blast
    next
      case False
      let ?s = "(length (P @ concat L @ concat E), length G, d + 1) # st"
      from less.hyps [OF small(1) aL d(1) [of "length (P @ concat L @ concat E)" "length G"] d(3), of "concat (E @ G) @ Q"]
      obtain L' where L':
        "?fin (P @ concat L @ concat (E @ G) @ Q) ?s (length P) (length L) (d + 1) =
           ?st (P @ concat L' @ concat (E @ G) @ Q) ?s"
        "mset L' = mset L" "comparison cmp \<longrightarrow> cmp_sorted cmp L'"
        by blast
      have "mset (L' @ E @ G) = mset (L @ E @ G)" using L'(2) by simp
      then have a': "array_at P (L' @ E @ G)" by (rule array_at_perm [OF a])
      then have aG': "array_at (P @ concat (L' @ E)) G"
        using array_at_append [of P "L' @ E" G] by simp
      have len: "length (P @ concat (L' @ E)) = length (P @ concat L @ concat E)"
        using a' a mset_eq_length [OF L'(2)] length_concat_const [of L' sz]
          length_concat_const [of L sz] by (simp add: array_at_def)
      from less.hyps [OF small(2) aG' d(2,3), of Q] obtain G' where G':
        "?fin ((P @ concat (L' @ E)) @ concat G @ Q) st (length (P @ concat (L' @ E))) (length G) (d + 1) =
           ?st ((P @ concat (L' @ E)) @ concat G' @ Q) st"
        "mset G' = mset G" "comparison cmp \<longrightarrow> cmp_sorted cmp G'"
        by blast
      have "?fin (P @ concat es @ Q) st (length P) (length es) d = ?st (P @ concat (L' @ E @ G') @ Q) st"
        using split False L'(1) G'(1) unfolding len by (simp add: stack_loop_Cons)
      moreover have "mset (L' @ E @ G') = mset es" using part(2) G'(2) L'(2) by simp
      ultimately show ?thesis using sorted [OF _ L'(2) _ G'(2)] L'(3) G'(3) by blast
    qed
  qed
qed

end

interpretation exb: sort_swaps "exchange_func A base (Suc k)" "Suc k" base "exchange_func A base (or (Suc k) 128)" for A base k
  by unfold_locales (rule exchange_block)

lemma rqsort_sorts:
  assumes es: "\<forall>e \<in> set es. length e = sz"
  shows "\<exists>es'. rqsort A cmp sz (P @ concat es @ Q) (length P) (length es) = Some (P @ concat es' @ Q) \<and>
    mset es' = mset es \<and> (comparison cmp \<longrightarrow> cmp_sorted cmp es')"
proof (cases "length es < 2 \<or> sz = 0")
  case True
  have "cmp_sorted cmp es" if "comparison cmp"
  proof (cases "length es < 2")
    case False
    with True have "\<forall>i < length es. es ! i = []" using es by simp
    then show ?thesis using comparison.cmp_refl [OF that, of "[]"] by (auto simp: sorted_wrt_iff_nth_less)
  next
    case True
    then show ?thesis by (cases es) auto
  qed
  with True show ?thesis by (auto simp: rqsort_def)
next
  case False
  then obtain k where k: "sz = Suc k" by (cases sz) auto
  have "exf.array_at k (length P) P es" using es by (auto simp: exf.array_at_def k intro: exI [of _ 0])
  from exb.finish_segment_sorts [OF this, of "[]" 0 A cmp A Q] False show ?thesis
    unfolding k by (auto simp: rqsort_def stack_loop_Cons stack_loop_Nil)
qed

text \<open>
  C18.  \<open>rqsort\<close> on an array of elements of any size, at any address, with any comparison that is a function
  of the bytes of two elements, also one that is no order at all: the sort ends, it never accesses memory outside the array or
  with the wrong alignment, its stack of 50 segments never overflows, and it permutes the
  elements and changes nothing else.
\<close>

theorem rqsort_permutes:
  assumes "\<forall>e \<in> set es. length e = sz"
  shows "\<exists>es'. rqsort A cmp sz (pre @ concat es @ post) (length pre) (length es) = Some (pre @ concat es' @ post) \<and>
    mset es' = mset es"
  using rqsort_sorts [OF assms, of A cmp pre post] by blast

lemma rqsort_permutes_witness:
  "\<exists>es'. rqsort 1000 (\<lambda>_ _. 1) 2 ([9] @ concat [[1, 2], [3, 4], [5, 6]] @ [9]) (length [9 :: u8]) (length [[1, 2], [3, 4], [5, 6 :: u8]]) =
    Some ([9] @ concat es' @ [9]) \<and> mset es' = mset [[1, 2], [3, 4], [5, 6]]"
  by (rule rqsort_permutes) simp

text \<open>
  C9.  If the comparison is a total preorder, the result of \<open>rqsort\<close> is sorted, whichever of the
  quicksort, the heap sort of the segments that are nested too deep and the insertion sort
  did the work.
\<close>

theorem rqsort_orders:
  assumes "\<forall>e \<in> set es. length e = sz" "comparison cmp"
  shows "\<exists>es'. rqsort A cmp sz (pre @ concat es @ post) (length pre) (length es) = Some (pre @ concat es' @ post) \<and>
    mset es' = mset es \<and> sorted_wrt (\<lambda>x y. cmp x y \<le> 0) es'"
  using rqsort_sorts [OF assms(1), of A cmp pre post] assms(2) by blast

text \<open>The order of the bytes, for an example.\<close>

definition byte_cmp :: cmp_f where
  "byte_cmp x y = int (unat (hd x)) - int (unat (hd y))"

lemma comparison_byte_cmp: "comparison byte_cmp"
  by unfold_locales (simp_all add: byte_cmp_def sgn_if)

lemma rqsort_orders_witness:
  "\<exists>es'. rqsort 0 byte_cmp 1 ([] @ concat [[3], [1], [2]] @ []) (length ([] :: u8 list)) (length [[3], [1], [2 :: u8]]) =
    Some ([] @ concat es' @ []) \<and> mset es' = mset [[3], [1], [2]] \<and> sorted_wrt (\<lambda>x y. byte_cmp x y \<le> 0) es'"
  by (rule rqsort_orders) (simp_all add: comparison_byte_cmp)

end
