(* ===== verification/Char_Range.thy ===== *)
theory Char_Range
  imports Dynbuf Js_String Rqsort
begin

section \<open>Character ranges\<close>

text \<open>
  \<open>CharRange\<close>, the sets of characters of the regular expressions (src/quickjs/libunicode.c and
  libunicode.h).  A set is an array of points \<open>a0, b0, a1, b1, ...\<close>, the half-open intervals
  from \<open>ai\<close> to \<open>bi\<close>.  The array is a block whose 32-bit words are read and written in the
  machine's byte order \<open>be\<close>; the lengths are C \<open>int\<close>s, whose overflow has no result.  The state
  \<open>h\<close> behind \<open>mem_opaque\<close> is shared by all ranges and passed along.

  The lemmas give each operation on the points, first as a function on lists (\<open>merged\<close>,
  \<open>op_points\<close>), then on the set \<open>char_set\<close> they denote.
\<close>

subsection \<open>Arrays of words\<close>

definition words :: "bool \<Rightarrow> block \<Rightarrow> u32 list" where
  "words be b = map (\<lambda>i. word_of_nat (obj_val be (take 4 (drop (4 * i) (cells b))))) [0..<length (cells b) div 4]"

definition set_words :: "bool \<Rightarrow> block \<Rightarrow> u32 list \<Rightarrow> block" where
  "set_words be b ws = b\<lparr>cells := concat (map (obj_bytes be 4) ws) @ drop (4 * length ws) (cells b)\<rparr>"

record 'h char_range =
  cr_len :: nat
  cr_size :: nat
  cr_points :: "block option"
  cr_realloc_func :: "'h realloc_func"

definition points :: "bool \<Rightarrow> 'h char_range \<Rightarrow> u32 list" where
  "points be cr = (case cr_points cr of None \<Rightarrow> [] | Some b \<Rightarrow> words be b)"

definition set_points :: "bool \<Rightarrow> 'h char_range \<Rightarrow> u32 list \<Rightarrow> 'h char_range" where
  "set_points be cr ws =
     cr\<lparr>cr_points := map_option (\<lambda>b. set_words be b ws) (cr_points cr)\<rparr>"

definition set_point :: "bool \<Rightarrow> 'h char_range \<Rightarrow> nat \<Rightarrow> u32 \<Rightarrow> 'h char_range option" where
  "set_point be cr i v = map_option (set_points be cr) (mem_set (points be cr) i v)"

type_synonym 'h cr_result = "('h \<times> 'h char_range \<times> int) option"

subsection \<open>Memory\<close>

definition cr_default_realloc :: "libc_heap realloc_func" where
  "cr_default_realloc opq ptr sz = Some (libc_realloc opq ptr sz)"

definition cr_init :: "'h realloc_func \<Rightarrow> 'h realloc_func option \<Rightarrow> 'h char_range" where
  "cr_init dflt realloc_func =
     \<lparr>cr_len = 0, cr_size = 0, cr_points = None,
      cr_realloc_func = (case realloc_func of None \<Rightarrow> dflt | Some f \<Rightarrow> f)\<rparr>"

definition cr_free :: "'h \<Rightarrow> 'h char_range \<Rightarrow> 'h option" where
  "cr_free h cr = map_option fst (cr_realloc_func cr h (cr_points cr) 0)"

definition cr_realloc :: "'h \<Rightarrow> 'h char_range \<Rightarrow> nat \<Rightarrow> 'h cr_result" where
  "cr_realloc h cr sz =
     (if sz > cr_size cr then
        if cr_size cr * 3 \<ge> 2 ^ 31 then None
        else do {
          let new_size = max sz (cr_size cr * 3 div 2);
          (h, new_buf) \<leftarrow> cr_realloc_func cr h (cr_points cr) (word_of_nat new_size * 4);
          case new_buf of
            None \<Rightarrow> Some (h, cr, -1)
          | Some b \<Rightarrow> Some (h, cr\<lparr>cr_points := Some b, cr_size := new_size\<rparr>, 0) }
      else Some (h, cr, 0))"

definition cr_copy :: "bool \<Rightarrow> 'h \<Rightarrow> 'h char_range \<Rightarrow> 'h char_range \<Rightarrow> 'h cr_result" where
  "cr_copy be h cr cr1 = do {
     (h, cr, r) \<leftarrow> cr_realloc h cr (cr_len cr1);
     if r \<noteq> 0 then Some (h, cr, -1)
     else do {
       ws \<leftarrow> mem_read (points be cr1) 0 (cr_len cr1);
       pt \<leftarrow> mem_write (points be cr) 0 ws;
       Some (h, (set_points be cr pt)\<lparr>cr_len := cr_len cr1\<rparr>, 0) } }"

definition cr_add_point :: "bool \<Rightarrow> 'h \<Rightarrow> 'h char_range \<Rightarrow> u32 \<Rightarrow> 'h cr_result" where
  "cr_add_point be h cr v = do {
     (h, cr, r) \<leftarrow> (if cr_len cr \<ge> cr_size cr then cr_realloc h cr (cr_len cr + 1) else Some (h, cr, 0));
     if r \<noteq> 0 then Some (h, cr, -1)
     else do {
       cr \<leftarrow> set_point be cr (cr_len cr) v;
       Some (h, cr\<lparr>cr_len := cr_len cr + 1\<rparr>, 0) } }"

definition cr_add_interval :: "bool \<Rightarrow> 'h \<Rightarrow> 'h char_range \<Rightarrow> u32 \<Rightarrow> u32 \<Rightarrow> 'h cr_result" where
  "cr_add_interval be h cr c1 c2 = do {
     (h, cr, r) \<leftarrow> (if cr_len cr + 2 > cr_size cr then cr_realloc h cr (cr_len cr + 2) else Some (h, cr, 0));
     if r \<noteq> 0 then Some (h, cr, -1)
     else do {
       cr \<leftarrow> set_point be cr (cr_len cr) c1;
       cr \<leftarrow> set_point be cr (cr_len cr + 1) c2;
       Some (h, cr\<lparr>cr_len := cr_len cr + 2\<rparr>, 0) } }"

subsection \<open>Set operations\<close>

text \<open>The end of a run of adjacent intervals, then the loop that copies each run to \<open>k\<close>.\<close>

function run_end :: "u32 list \<Rightarrow> nat \<Rightarrow> nat \<Rightarrow> nat option" where
  "run_end pt len j =
     (if j + 3 < len then do {
        x \<leftarrow> mem_get pt (j + 1);
        y \<leftarrow> mem_get pt (j + 2);
        if x = y then run_end pt len (j + 2) else Some j }
      else Some j)"
  by pat_completeness auto
termination
  by (relation "measure (\<lambda>(pt, len, j). len - j)") auto

declare run_end.simps [simp del]

lemma run_end_le: "run_end pt len j = Some j' \<Longrightarrow> j \<le> j'"
proof (induction pt len j rule: run_end.induct)
  case (1 pt len j)
  then show ?case
    by (fastforce simp: run_end.simps [of pt len j] split: if_splits bind_splits)
qed

function compress_loop :: "u32 list \<Rightarrow> nat \<Rightarrow> nat \<Rightarrow> nat \<Rightarrow> (u32 list \<times> nat) option" where
  "compress_loop pt len i k =
     (if i + 1 < len then do {
        x \<leftarrow> mem_get pt i;
        y \<leftarrow> mem_get pt (i + 1);
        if x = y then compress_loop pt len (i + 2) k
        else do {
          j \<leftarrow> run_end pt len i;
          x \<leftarrow> mem_get pt i;
          pt \<leftarrow> mem_set pt k x;
          z \<leftarrow> mem_get pt (j + 1);
          pt \<leftarrow> mem_set pt (k + 1) z;
          compress_loop pt len (j + 2) (k + 2) } }
      else Some (pt, k))"
  by pat_completeness auto
termination
  by (relation "measure (\<lambda>(pt, len, i, k). len - i)") (auto dest: run_end_le)

declare compress_loop.simps [simp del]

definition cr_compress :: "bool \<Rightarrow> 'h char_range \<Rightarrow> 'h char_range option" where
  "cr_compress be cr = do {
     (pt, k) \<leftarrow> compress_loop (points be cr) (cr_len cr) 0 0;
     Some ((set_points be cr pt)\<lparr>cr_len := k\<rparr>) }"

datatype char_range_op = CR_OP_UNION | CR_OP_INTER | CR_OP_XOR

fun op_in :: "char_range_op \<Rightarrow> bool \<Rightarrow> bool \<Rightarrow> bool" where
  "op_in CR_OP_UNION x y = (x \<or> y)"
| "op_in CR_OP_INTER x y = (x \<and> y)"
| "op_in CR_OP_XOR x y = (x \<noteq> y)"

text \<open>The next point of \<open>a\<close> or \<open>b\<close> in increasing order, and the indices after it.\<close>

definition next_point :: "u32 list \<Rightarrow> nat \<Rightarrow> nat \<Rightarrow> u32 list \<Rightarrow> nat \<Rightarrow> nat \<Rightarrow> (u32 \<times> nat \<times> nat) option option" where
  "next_point a_pt a_len a_idx b_pt b_len b_idx =
     (if a_idx < a_len \<and> b_idx < b_len then do {
        x \<leftarrow> mem_get a_pt a_idx;
        y \<leftarrow> mem_get b_pt b_idx;
        if x < y then Some (Some (x, a_idx + 1, b_idx))
        else if x = y then Some (Some (x, a_idx + 1, b_idx + 1))
        else Some (Some (y, a_idx, b_idx + 1)) }
      else if a_idx < a_len then do {
        x \<leftarrow> mem_get a_pt a_idx;
        Some (Some (x, a_idx + 1, b_idx)) }
      else if b_idx < b_len then do {
        y \<leftarrow> mem_get b_pt b_idx;
        Some (Some (y, a_idx, b_idx + 1)) }
      else Some None)"

function op_loop ::
    "bool \<Rightarrow> 'h \<Rightarrow> 'h char_range \<Rightarrow> u32 list \<Rightarrow> nat \<Rightarrow> nat \<Rightarrow> u32 list \<Rightarrow> nat \<Rightarrow> nat \<Rightarrow> char_range_op
      \<Rightarrow> 'h cr_result" where
  "op_loop be h cr a_pt a_len a_idx b_pt b_len b_idx op =
     do {
       p \<leftarrow> next_point a_pt a_len a_idx b_pt b_len b_idx;
       case p of
         None \<Rightarrow> Some (h, cr, 0)
       | Some (v, a_idx, b_idx) \<Rightarrow>
           (if op_in op (odd a_idx) (odd b_idx) \<noteq> odd (cr_len cr) then do {
              (h, cr, r) \<leftarrow> cr_add_point be h cr v;
              if r \<noteq> 0 then Some (h, cr, -1)
              else op_loop be h cr a_pt a_len a_idx b_pt b_len b_idx op }
            else op_loop be h cr a_pt a_len a_idx b_pt b_len b_idx op) }"
  by pat_completeness auto
termination
  by (relation "measure (\<lambda>(be, h, cr, a_pt, a_len, a_idx, b_pt, b_len, b_idx, op). a_len - a_idx + (b_len - b_idx))")
    (auto simp: next_point_def split: if_splits bind_splits)

declare op_loop.simps [simp del]

definition cr_op ::
    "bool \<Rightarrow> 'h \<Rightarrow> 'h char_range \<Rightarrow> u32 list \<Rightarrow> nat \<Rightarrow> u32 list \<Rightarrow> nat \<Rightarrow> char_range_op \<Rightarrow> 'h cr_result" where
  "cr_op be h cr a_pt a_len b_pt b_len op = do {
     (h, cr, r) \<leftarrow> op_loop be h cr a_pt a_len 0 b_pt b_len 0 op;
     if r \<noteq> 0 then Some (h, cr, -1)
     else do {
       cr \<leftarrow> cr_compress be cr;
       Some (h, cr, 0) } }"

definition cr_union1 :: "bool \<Rightarrow> 'h \<Rightarrow> 'h char_range \<Rightarrow> u32 list \<Rightarrow> nat \<Rightarrow> 'h cr_result" where
  "cr_union1 be h cr b_pt b_len = do {
     let a = cr;
     let cr = cr\<lparr>cr_len := 0, cr_size := 0, cr_points := None\<rparr>;
     (h, cr, ret) \<leftarrow> cr_op be h cr (points be a) (cr_len a) b_pt b_len CR_OP_UNION;
     h \<leftarrow> cr_free h a;
     Some (h, cr, ret) }"

definition cr_union_interval :: "bool \<Rightarrow> 'h \<Rightarrow> 'h char_range \<Rightarrow> u32 \<Rightarrow> u32 \<Rightarrow> 'h cr_result" where
  "cr_union_interval be h cr c1 c2 = cr_union1 be h cr [c1, c2 + 1] 2"

definition cr_invert :: "bool \<Rightarrow> 'h \<Rightarrow> 'h char_range \<Rightarrow> 'h cr_result" where
  "cr_invert be h cr = do {
     let len = cr_len cr;
     (h, cr, r) \<leftarrow> cr_realloc h cr (len + 2);
     if r \<noteq> 0 then Some (h, cr, -1)
     else do {
       ws \<leftarrow> mem_read (points be cr) 0 len;
       pt \<leftarrow> mem_write (points be cr) 1 ws;
       pt \<leftarrow> mem_set pt 0 0;
       pt \<leftarrow> mem_set pt (len + 1) 0xFFFFFFFF;
       cr \<leftarrow> cr_compress be ((set_points be cr pt)\<lparr>cr_len := len + 2\<rparr>);
       Some (h, cr, 0) } }"

subsection \<open>Sorting\<close>

definition point_cmp :: "bool \<Rightarrow> cmp_f" where
  "point_cmp be p1 p2 =
     (let v1 = word_of_nat (obj_val be (take 4 p1)) :: u32; v2 = word_of_nat (obj_val be (take 4 p2)) :: u32
      in (if v1 > v2 then 1 else 0) - (if v1 < v2 then 1 else 0))"

text \<open>The end of the interval that starts at \<open>i - 2\<close>, joined with those it meets.\<close>

function overlap_end :: "u32 list \<Rightarrow> nat \<Rightarrow> nat \<Rightarrow> u32 \<Rightarrow> (nat \<times> u32) option" where
  "overlap_end pt len i e =
     (if i < len then do {
        start1 \<leftarrow> mem_get pt i;
        end1 \<leftarrow> mem_get pt (i + 1);
        if start1 > e then Some (i, e)
        else if end1 \<le> e then overlap_end pt len (i + 2) e
        else overlap_end pt len (i + 2) end1 }
      else Some (i, e))"
  by pat_completeness auto
termination
  by (relation "measure (\<lambda>(pt, len, i, e). len - i)") auto

declare overlap_end.simps [simp del]

lemma overlap_end_le: "overlap_end pt len i e = Some (i', e') \<Longrightarrow> i \<le> i'"
proof (induction pt len i e rule: overlap_end.induct)
  case (1 pt len i e)
  then show ?case
    by (fastforce simp: overlap_end.simps [of pt len i e] split: if_splits bind_splits)
qed

function overlap_loop :: "u32 list \<Rightarrow> nat \<Rightarrow> nat \<Rightarrow> nat \<Rightarrow> (u32 list \<times> nat) option" where
  "overlap_loop pt len i j =
     (if i < len then do {
        start \<leftarrow> mem_get pt i;
        e \<leftarrow> mem_get pt (i + 1);
        (i, e) \<leftarrow> overlap_end pt len (i + 2) e;
        pt \<leftarrow> mem_set pt j start;
        pt \<leftarrow> mem_set pt (j + 1) e;
        overlap_loop pt len i (j + 2) }
      else Some (pt, j))"
  by pat_completeness auto
termination
  by (relation "measure (\<lambda>(pt, len, i, j). len - i)") (auto dest: overlap_end_le)

declare overlap_loop.simps [simp del]

text \<open>The points are sorted as elements of eight bytes; \<open>A\<close> is the address of the array.\<close>

definition cr_sort_and_remove_overlap :: "bool \<Rightarrow> nat \<Rightarrow> 'h char_range \<Rightarrow> 'h char_range option" where
  "cr_sort_and_remove_overlap be A cr = do {
     b \<leftarrow> (case cr_points cr of
            None \<Rightarrow> if cr_len cr div 2 < 2 then Some None else None
          | Some b \<Rightarrow> map_option (\<lambda>c. Some (b\<lparr>cells := c\<rparr>))
                       (rqsort A (point_cmp be) 8 (cells b) 0 (cr_len cr div 2)));
     let cr = cr\<lparr>cr_points := b\<rparr>;
     (pt, j) \<leftarrow> overlap_loop (points be cr) (cr_len cr) 0 0;
     Some ((set_points be cr pt)\<lparr>cr_len := j\<rparr>) }"

subsection \<open>Words of a block\<close>

lemma length_words [simp]: "length (words be b) = length (cells b) div 4"
  by (simp add: words_def)

lemma nth_words: "i < length (cells b) div 4 \<Longrightarrow> words be b ! i = word_of_nat (obj_val be (take 4 (drop (4 * i) (cells b))))"
  by (simp add: words_def)

lemma chunk_concat:
  "\<forall>x \<in> set xs. length x = k \<Longrightarrow> i < length xs \<Longrightarrow> take k (drop (k * i) (concat xs @ r)) = xs ! i"
proof (induction xs arbitrary: i)
  case (Cons x xs)
  show ?case
  proof (cases i)
    case (Suc j)
    with Cons show ?thesis by (simp add: drop_append)
  qed (use Cons.prems in simp)
qed simp

lemma length_set_words [simp]:
  "length ws \<le> length (cells b) div 4 \<Longrightarrow> length (cells (set_words be b ws)) = length (cells b)"
  by (simp add: set_words_def length_concat_const [where k = 4])

lemma words_set_words:
  assumes "length ws = length (words be b)"
  shows "words be (set_words be b ws) = ws"
proof (rule nth_equalityI)
  show "length (words be (set_words be b ws)) = length ws" using assms by simp
next
  fix i
  assume "i < length (words be (set_words be b ws))"
  then have i: "i < length ws" "i < length (cells (set_words be b ws)) div 4" using assms by simp_all
  have "take 4 (drop (4 * i) (cells (set_words be b ws))) = map (obj_bytes be 4) ws ! i"
    unfolding set_words_def using i(1) chunk_concat [of "map (obj_bytes be 4) ws" 4 i "drop (4 * length ws) (cells b)"]
    by (simp del: take_append drop_append)
  then show "words be (set_words be b ws) ! i = ws ! i"
    using i by (simp add: nth_words obj_val_obj_bytes_u32)
qed

lemma take_words:
  assumes "take (4 * n) (cells b) = take (4 * n) (cells c)" "4 * n \<le> length (cells b)" "4 * n \<le> length (cells c)"
  shows "take n (words be b) = take n (words be c)"
proof (rule nth_equalityI)
  show "length (take n (words be b)) = length (take n (words be c))" using assms by simp
next
  fix i
  assume "i < length (take n (words be b))"
  then have i: "i < n" by simp
  have "take 4 (drop (4 * i) (cells b)) = take 4 (drop (4 * i) (take (4 * n) (cells b)))"
    "take 4 (drop (4 * i) (cells c)) = take 4 (drop (4 * i) (take (4 * n) (cells c)))"
    using i by (simp_all add: drop_take)
  with i assms show "take n (words be b) ! i = take n (words be c) ! i"
    by (simp add: nth_words)
qed

subsection \<open>The invariant\<close>

definition cr_limit :: nat where
  "cr_limit = 2 ^ 28"

definition cr_inv :: "bool \<Rightarrow> 'h realloc_func \<Rightarrow> 'h char_range \<Rightarrow> bool" where
  "cr_inv be f cr \<longleftrightarrow> cr_realloc_func cr = f \<and> cr_len cr \<le> cr_size cr \<and>
     cr_size cr = length (points be cr) \<and> 2 * cr_size cr \<le> 3 * cr_limit"

definition cr_list :: "bool \<Rightarrow> 'h char_range \<Rightarrow> u32 list" where
  "cr_list be cr = take (cr_len cr) (points be cr)"

lemma cr_invD:
  assumes "cr_inv be f cr"
  shows "cr_realloc_func cr = f" "cr_len cr \<le> cr_size cr" "cr_size cr = length (points be cr)"
    "length (cr_list be cr) = cr_len cr" "cr_size cr * 3 < 2 ^ 31"
  using assms by (simp_all add: cr_inv_def cr_list_def cr_limit_def)

lemma points_set_points [simp]:
  "length ws = length (points be cr) \<Longrightarrow> points be (set_points be cr ws) = ws"
  by (simp add: points_def set_points_def words_set_words split: option.splits)

lemma set_points_sel [simp]:
  "cr_len (set_points be cr ws) = cr_len cr" "cr_size (set_points be cr ws) = cr_size cr"
  "cr_realloc_func (set_points be cr ws) = cr_realloc_func cr"
  "points be (cr\<lparr>cr_len := n\<rparr>) = points be cr"
  by (simp_all add: set_points_def points_def)

lemma set_point_in:
  "i < length (points be cr) \<Longrightarrow> set_point be cr i v = Some (set_points be cr ((points be cr)[i := v]))"
  by (simp add: set_point_def mem_simps)

text \<open>The reallocation function of a range also frees.\<close>

locale range_alloc = allocator +
  assumes free_defined: "realloc_fn h p 0 \<noteq> None"
begin

lemma cr_realloc_cases:
  assumes inv: "cr_inv be realloc_fn cr" and n: "n \<le> cr_limit"
  shows "\<exists>h' cr' r. cr_realloc h cr n = Some (h', cr', r) \<and> cr_inv be realloc_fn cr' \<and>
    cr_len cr' = cr_len cr \<and> cr_list be cr' = cr_list be cr \<and> (r = 0 \<and> n \<le> cr_size cr' \<or> r = -1)"
proof (cases "n \<le> cr_size cr")
  case True
  with inv show ?thesis by (simp add: cr_realloc_def)
next
  case False
  note d = cr_invD [OF inv]
  define k where "k = max n (cr_size cr * 3 div 2)"
  have k: "2 * k \<le> 3 * cr_limit" "n \<le> k" "cr_size cr < k"
    using n False by (auto simp: k_def cr_limit_def)
  then have sz: "unat (word_of_nat k * 4 :: u64) = 4 * k"
    by (simp add: cr_limit_def unat_word_ariths unsigned_of_nat take_bit_nat_eq_self)
  then have nz: "(word_of_nat k * 4 :: u64) \<noteq> 0" using k(3) by auto
  obtain h' q where a: "realloc_fn h (cr_points cr) (word_of_nat k * 4) = Some (h', q)"
    using realloc_defined [OF nz] by (metis not_None_eq surj_pair)
  have eq: "cr_realloc h cr n = (case q of None \<Rightarrow> Some (h', cr, -1)
      | Some b \<Rightarrow> Some (h', cr\<lparr>cr_points := Some b, cr_size := k\<rparr>, 0))"
    using False d(5) a by (simp add: cr_realloc_def d(1) flip: k_def)
  show ?thesis
  proof (cases q)
    case None
    with eq inv show ?thesis by simp
  next
    case (Some b)
    let ?cr = "cr\<lparr>cr_points := Some b, cr_size := k\<rparr>"
    have l: "length (cells b) = 4 * k" using realloc_length [OF nz] a Some sz by simp
    have "cr_inv be realloc_fn ?cr"
      using inv k l by (simp add: cr_inv_def points_def)
    moreover have "cr_list be ?cr = cr_list be cr"
    proof (cases "cr_points cr")
      case None
      with d(2,3) have "cr_len cr = 0" by (simp add: points_def)
      then show ?thesis by (simp add: cr_list_def)
    next
      case (Some c)
      have c: "cr_size cr = length (cells c) div 4" using d(3) Some by (simp add: points_def)
      have "4 * cr_len cr \<le> length (cells c)" using d(2) c by linarith
      moreover have "4 * cr_len cr \<le> 4 * k" using d(2) k(3) by simp
      ultimately have "take (4 * cr_len cr) (cells b) = take (4 * cr_len cr) (cells c)"
        using realloc_prefix [OF nz a [unfolded \<open>q = Some b\<close>], of "4 * cr_len cr"] Some sz by simp
      then show ?thesis
        using take_words [of "cr_len cr" b c be] d(2) c l k(3) Some
        by (simp add: cr_list_def points_def)
    qed
    ultimately show ?thesis using eq Some k(2) by simp
  qed
qed

lemma cr_add_point_cases:
  assumes inv: "cr_inv be realloc_fn cr" and n: "cr_len cr < cr_limit"
  shows "\<exists>h' cr' r. cr_add_point be h cr v = Some (h', cr', r) \<and> cr_inv be realloc_fn cr' \<and>
    (r = 0 \<and> cr_list be cr' = cr_list be cr @ [v] \<or> r = -1 \<and> cr_list be cr' = cr_list be cr)"
proof -
  obtain h1 cr1 r1 where a: "(if cr_len cr \<ge> cr_size cr then cr_realloc h cr (cr_len cr + 1) else Some (h, cr, 0)) = Some (h1, cr1, r1)"
    "cr_inv be realloc_fn cr1" "cr_len cr1 = cr_len cr" "cr_list be cr1 = cr_list be cr"
    "r1 = 0 \<and> cr_len cr + 1 \<le> cr_size cr1 \<or> r1 = -1"
    using cr_realloc_cases [OF inv, of "cr_len cr + 1" h] inv n by (cases "cr_len cr \<ge> cr_size cr") auto
  show ?thesis
  proof (cases "r1 = 0")
    case True
    note d = cr_invD [OF a(2)]
    have in_pts: "cr_len cr1 < length (points be cr1)" using a(3,5) True d(3) by simp
    let ?cr = "(set_points be cr1 ((points be cr1)[cr_len cr1 := v]))\<lparr>cr_len := cr_len cr1 + 1\<rparr>"
    have "cr_add_point be h cr v = Some (h1, ?cr, 0)"
      using a(1) True in_pts by (simp add: cr_add_point_def set_point_in)
    moreover have "cr_inv be realloc_fn ?cr" using a(2) in_pts d(3) by (simp add: cr_inv_def)
    moreover have "cr_list be ?cr = cr_list be cr @ [v]"
      using in_pts a(4) by (simp add: cr_list_def take_Suc_conv_app_nth)
    ultimately show ?thesis by blast
  next
    case False
    with a show ?thesis by (simp add: cr_add_point_def)
  qed
qed

end

interpretation default_range: range_alloc cr_default_realloc
  by unfold_locales
    (auto simp: cr_default_realloc_def libc_realloc_def split: if_splits)

interpretation js_range: range_alloc "js_dbuf_realloc def_malloc_funcs"
  by unfold_locales
    (auto simp: js_dbuf_realloc_def js_realloc_rt_def Let_def split: option.splits)

subsection \<open>The set of a list of points\<close>

fun char_set :: "u32 list \<Rightarrow> u32 set" where
  "char_set (x # y # ps) = {x..<y} \<union> char_set ps"
| "char_set ps = {}"

definition points_upto :: "u32 \<Rightarrow> u32 list \<Rightarrow> nat" where
  "points_upto c ps = length (filter (\<lambda>p. p \<le> c) ps)"

lemma points_upto_simps [simp]:
  "points_upto c [] = 0" "points_upto c (p # ps) = (if p \<le> c then 1 else 0) + points_upto c ps"
  "points_upto c (ps @ qs) = points_upto c ps + points_upto c qs"
  by (simp_all add: points_upto_def)

lemma points_upto_0: "\<forall>p \<in> set ps. c < p \<Longrightarrow> points_upto c ps = 0"
  by (induction ps) auto

lemma points_upto_all: "\<forall>p \<in> set ps. p \<le> c \<Longrightarrow> points_upto c ps = length ps"
  by (induction ps) auto

text \<open>In a sorted list a character is in the set if an odd number of points come up to it.\<close>

lemma char_set_parity:
  "sorted ps \<Longrightarrow> even (length ps) \<Longrightarrow> c \<in> char_set ps \<longleftrightarrow> odd (points_upto c ps)"
proof (induction ps rule: char_set.induct)
  case (1 x y ps)
  then have ih: "c \<in> char_set ps \<longleftrightarrow> odd (points_upto c ps)" by simp
  show ?case
  proof (cases "y \<le> c")
    case True
    moreover have "x \<le> c" using 1(2) True by (auto intro: order.trans)
    ultimately show ?thesis using ih by auto
  next
    case False
    then have "points_upto c ps = 0" using 1(2) by (intro points_upto_0) (auto simp: not_le)
    with False ih show ?thesis by auto
  qed
qed simp_all

lemma char_set_append: "even (length ps) \<Longrightarrow> char_set (ps @ qs) = char_set ps \<union> char_set qs"
  by (induction ps rule: char_set.induct) auto

subsection \<open>Merging adjacent intervals\<close>

fun merged :: "u32 list \<Rightarrow> u32 list" where
  "merged (x # y # u # v # ps) =
     (if x = y then merged (u # v # ps)
      else if y = u then merged (x # v # ps)
      else x # y # merged (u # v # ps))"
| "merged (x # y # ps) = (if x = y then [] else [x, y])"
| "merged ps = []"

lemma merged_set: "sorted ps \<Longrightarrow> char_set (merged ps) = char_set ps"
proof (induction ps rule: merged.induct)
  case (1 x y u v ps)
  have "{x..<y} \<union> {y..<v} = {x..<v}" if "y = u" using 1(4) that by (intro ivl_disj_un) auto
  with 1 show ?case by (cases "x = y"; cases "y = u") auto
qed auto

lemma merged_sub: "set (merged ps) \<subseteq> set ps" and even_merged: "even (length (merged ps))"
  by (induction ps rule: merged.induct) auto

lemma merged_strict: "sorted ps \<Longrightarrow> sorted_wrt (<) (merged ps)"
proof (induction ps rule: merged.induct)
  case (1 x y u v ps)
  consider "x = y" | "x \<noteq> y" "y = u" | "x \<noteq> y" "y \<noteq> u" by blast
  then show ?case
  proof cases
    case 3
    then have "x < y" "y < u" using 1(4) by auto
    moreover have "\<forall>z \<in> set (merged (u # v # ps)). u \<le> z"
      using merged_sub [of "u # v # ps"] 1(4) by auto
    ultimately show ?thesis using 1(3) [OF 3] 1(4) 3 by fastforce
  qed (use 1 in simp_all)
qed auto

lemma length_merged: "length (merged ps) \<le> length ps"
  by (induction ps rule: merged.induct) auto

text \<open>The loop in place, which never writes past what it has read.\<close>

lemma drop_take_Cons:
  "n < len \<Longrightarrow> len \<le> length pt \<Longrightarrow> drop n (take len pt) = pt ! n # drop (n + 1) (take len pt)"
  using Cons_nth_drop_Suc [of n "take len pt"] by simp

lemma run_end_merged:
  assumes "len \<le> length pt"
  shows "j + 1 < len \<Longrightarrow> x < pt ! (j + 1) \<Longrightarrow> sorted (x # drop (j + 1) (take len pt)) \<Longrightarrow>
    \<exists>j'. run_end pt len j = Some j' \<and> j \<le> j' \<and> j' + 1 < len \<and>
      merged (x # drop (j + 1) (take len pt)) = x # pt ! (j' + 1) # merged (drop (j' + 2) (take len pt))"
proof (induction "len - j" arbitrary: j rule: less_induct)
  case less
  let ?L = "take len pt"
  note nth = drop_take_Cons [OF _ assms]
  have d: "drop (j + 1) ?L = pt ! (j + 1) # drop (j + 2) ?L" using nth [of "j + 1"] less.prems(1) by simp
  show ?case
  proof (cases "j + 3 < len")
    case True
    have d3: "drop (j + 2) ?L = pt ! (j + 2) # drop (j + 3) ?L" "drop (j + 3) ?L = pt ! (j + 3) # drop (j + 4) ?L"
      using nth [of "j + 2"] nth [of "j + 3"] True by (simp_all add: numeral_eq_Suc)
    have get: "mem_get pt (j + 1) = Some (pt ! (j + 1))" "mem_get pt (j + 2) = Some (pt ! (j + 2))"
      using True assms by (simp_all add: mem_get_def)
    show ?thesis
    proof (cases "pt ! (j + 1) = pt ! (j + 2)")
      case eq: True
      have "sorted (x # drop (j + 3) ?L)" "x < pt ! (j + 3)"
        using less.prems(2,3) unfolding d d3 by auto
      then obtain j' where "run_end pt len (j + 2) = Some j'" "j + 2 \<le> j'" "j' + 1 < len"
        "merged (x # drop (j + 3) ?L) = x # pt ! (j' + 1) # merged (drop (j' + 2) ?L)"
        using less.hyps [of "j + 2"] True diff_less_mono2 [of j "j + 2" len] by (auto simp: numeral_eq_Suc)
      moreover have "merged (x # drop (j + 1) ?L) = merged (x # drop (j + 3) ?L)"
        unfolding d d3 using eq less.prems(2) by simp
      ultimately show ?thesis using True eq get by (simp add: run_end.simps [of pt len j])
    next
      case False
      have "merged (x # drop (j + 1) ?L) = x # pt ! (j + 1) # merged (drop (j + 2) ?L)"
        unfolding d d3 using False less.prems(2) by simp
      then show ?thesis using True False get less.prems(1) by (simp add: run_end.simps [of pt len j])
    qed
  next
    case False
    have short: "xs = [] \<or> (\<exists>u. xs = [u])" if "length xs \<le> 1" for xs :: "u32 list"
      using that by (cases xs) auto
    have "drop (j + 2) ?L = [] \<or> (\<exists>u. drop (j + 2) ?L = [u])"
      by (rule short) (use False assms in simp)
    then have "merged (x # drop (j + 1) ?L) = x # pt ! (j + 1) # merged (drop (j + 2) ?L)"
      unfolding d using less.prems(2) by auto
    then show ?thesis using False less.prems(1) by (simp add: run_end.simps [of pt len j])
  qed
qed

lemma compress_loop_merged:
  "k \<le> i \<Longrightarrow> len \<le> length pt \<Longrightarrow> sorted (drop i (take len pt)) \<Longrightarrow>
     \<exists>pt' k'. compress_loop pt len i k = Some (pt', k') \<and> length pt' = length pt \<and>
       k' = k + length (merged (drop i (take len pt))) \<and> take k' pt' = take k pt @ merged (drop i (take len pt))"
proof (induction "len - i" arbitrary: i k pt rule: less_induct)
  case less
  let ?L = "take len pt"
  note nth = drop_take_Cons [OF _ less.prems(2)]
  show ?case
  proof (cases "i + 1 < len")
    case True
    have d: "drop i ?L = pt ! i # drop (i + 1) ?L" "drop (i + 1) ?L = pt ! (i + 1) # drop (i + 2) ?L"
      using nth [of i] nth [of "i + 1"] True by simp_all
    have get: "mem_get pt i = Some (pt ! i)" "mem_get pt (i + 1) = Some (pt ! (i + 1))"
      using True less.prems(2) by (simp_all add: mem_get_def)
    show ?thesis
    proof (cases "pt ! i = pt ! (i + 1)")
      case eq: True
      have m: "merged (drop i ?L) = merged (drop (i + 2) ?L)"
        unfolding d using eq by (cases "drop (i + 2) ?L" rule: merged.cases) auto
      have "sorted (drop (i + 2) ?L)" using less.prems(3) unfolding d by simp
      with less.hyps [of "i + 2" k pt] less.prems True show ?thesis
        unfolding m using eq get by (simp add: compress_loop.simps [of pt len i])
    next
      case False
      have lt: "pt ! i < pt ! (i + 1)" using less.prems(3) False unfolding d by auto
      obtain j where j: "run_end pt len i = Some j" "i \<le> j" "j + 1 < len"
        "merged (drop i ?L) = pt ! i # pt ! (j + 1) # merged (drop (j + 2) ?L)"
        using run_end_merged [OF less.prems(2) True lt] less.prems(3) unfolding d(1) by auto
      define pt1 where "pt1 = pt[k := pt ! i, k + 1 := pt ! (j + 1)]"
      have k: "k + 1 < length pt" "k < j + 1" using less.prems(1,2) j(2,3) by linarith+
      have z: "mem_get (pt[k := pt ! i]) (j + 1) = Some (pt ! (j + 1))"
        using k j(3) less.prems(2) by (simp add: mem_get_def)
      have tail: "drop (j + 2) (take len pt1) = drop (j + 2) ?L"
      proof (rule nth_equalityI)
        fix i
        assume "i < length (drop (j + 2) (take len pt1))"
        then have "j + 2 + i < len" "j + 2 + i < length pt" by (simp_all add: pt1_def)
        with k show "drop (j + 2) (take len pt1) ! i = drop (j + 2) ?L ! i"
          by (simp add: pt1_def)
      qed (simp add: pt1_def)
      have "sorted (drop (j + 2) ?L)"
        using less.prems(3) sorted_wrt_drop [of "(\<le>)" "drop i ?L" "j + 2 - i"] j(2) by simp
      then obtain pt' k' where ih: "compress_loop pt1 len (j + 2) (k + 2) = Some (pt', k')" "length pt' = length pt1"
        "k' = k + 2 + length (merged (drop (j + 2) ?L))" "take k' pt' = take (k + 2) pt1 @ merged (drop (j + 2) ?L)"
        using less.hyps [of "j + 2" "k + 2" pt1] less.prems(1,2) j(2,3) diff_less_mono2 [of i "j + 2" len]
        unfolding tail by (auto simp: pt1_def)
      have "compress_loop pt len i k = Some (pt', k')"
        using True False get j(1) z k ih(1)
        by (simp add: compress_loop.simps [of pt len i] mem_simps pt1_def)
      moreover have "take (k + 2) pt1 = take k pt @ [pt ! i, pt ! (j + 1)]"
        using k by (simp add: pt1_def take_Suc_conv_app_nth numeral_2_eq_2)
      ultimately show ?thesis using ih(2-4) j(4) by (simp add: pt1_def)
    qed
  next
    case False
    then have "drop i ?L = [] \<or> (\<exists>u. drop i ?L = [u])"
      using less.prems(2) by (cases "i < len") (auto simp: nth)
    then have "merged (drop i ?L) = []" by auto
    with False show ?thesis by (simp add: compress_loop.simps [of pt len i])
  qed
qed

subsection \<open>Merging two sets\<close>

lemma cr_compress_cases:
  assumes inv: "cr_inv be f cr" and s: "sorted (cr_list be cr)"
  shows "\<exists>cr'. cr_compress be cr = Some cr' \<and> cr_inv be f cr' \<and> cr_list be cr' = merged (cr_list be cr)"
proof -
  note d = cr_invD [OF inv]
  have "cr_len cr \<le> length (points be cr)" using d(2,3) by simp
  then obtain pt k where c: "compress_loop (points be cr) (cr_len cr) 0 0 = Some (pt, k)"
    "length pt = length (points be cr)" "k = length (merged (cr_list be cr))" "take k pt = merged (cr_list be cr)"
    using compress_loop_merged [of 0 0 "cr_len cr" "points be cr"] s by (auto simp: cr_list_def)
  have "k \<le> cr_len cr" using length_merged [of "cr_list be cr"] d(4) c(3) by simp
  then show ?thesis
    using inv d(2) c by (simp add: cr_compress_def cr_inv_def cr_list_def)
qed

text \<open>
  The result \<open>C\<close> after the points \<open>p\<close> of one set and \<open>q\<close> of the other: up to every character
  its number of points is odd where the operation holds.
\<close>

definition op_state :: "char_range_op \<Rightarrow> u32 list \<Rightarrow> u32 list \<Rightarrow> u32 list \<Rightarrow> bool" where
  "op_state op p q C \<longleftrightarrow> sorted C \<and> set C \<subseteq> set p \<union> set q \<and> length C \<le> length p + length q \<and>
     odd (length C) = op_in op (odd (length p)) (odd (length q)) \<and>
     (\<forall>c. odd (points_upto c C) = op_in op (odd (points_upto c p)) (odd (points_upto c q)))"

lemma op_state_Nil: "op_state op [] [] []"
  by (cases op) (simp_all add: op_state_def)

lemma op_state_step:
  assumes st: "op_state op p q C" and v: "\<forall>x \<in> set p \<union> set q. x \<le> v"
    and new: "set ps \<subseteq> {v}" "set qs \<subseteq> {v}" "ps @ qs \<noteq> []"
  defines "C' \<equiv> if op_in op (odd (length (p @ ps))) (odd (length (q @ qs))) \<noteq> odd (length C) then C @ [v] else C"
  shows "op_state op (p @ ps) (q @ qs) C'"
proof -
  have C: "sorted C" "set C \<subseteq> set p \<union> set q" "length C \<le> length p + length q"
    "\<And>c. odd (points_upto c C) = op_in op (odd (points_upto c p)) (odd (points_upto c q))"
    using st by (auto simp: op_state_def)
  have "sorted C'" "set C' \<subseteq> set (p @ ps) \<union> set (q @ qs)"
    using C(1,2) v new by (auto simp: C'_def sorted_append neq_Nil_conv)
  moreover have "length C' \<le> length (p @ ps) + length (q @ qs)"
    using C(3) new(3) by (cases ps; cases qs) (auto simp: C'_def)
  moreover have len: "odd (length C') = op_in op (odd (length (p @ ps))) (odd (length (q @ qs)))"
    by (auto simp: C'_def)
  moreover have "odd (points_upto c C') = op_in op (odd (points_upto c (p @ ps))) (odd (points_upto c (q @ qs)))" for c
  proof (cases "v \<le> c")
    case True
    have "\<forall>x \<in> set (p @ ps) \<union> set (q @ qs). x \<le> c" using v new True by (auto intro: order.trans)
    with \<open>set C' \<subseteq> set (p @ ps) \<union> set (q @ qs)\<close>
    have "points_upto c C' = length C'" "points_upto c (p @ ps) = length (p @ ps)"
      "points_upto c (q @ qs) = length (q @ qs)" by (blast intro: points_upto_all)+
    with len show ?thesis by simp
  next
    case False
    then have "points_upto c ps = 0" "points_upto c qs = 0" using new by (auto intro!: points_upto_0)
    moreover have "points_upto c C' = points_upto c C" using False by (simp add: C'_def)
    ultimately show ?thesis using C(4) [of c] by simp
  qed
  ultimately show ?thesis by (simp add: op_state_def)
qed

definition split_at :: "u32 list \<Rightarrow> nat \<Rightarrow> u32 list \<Rightarrow> nat \<Rightarrow> bool" where
  "split_at A i B j \<longleftrightarrow> sorted A \<and> sorted B \<and> i \<le> length A \<and> j \<le> length B \<and>
     (\<forall>x \<in> set (take i A) \<union> set (take j B). \<forall>y \<in> set (drop i A) \<union> set (drop j B). x \<le> y)"

lemma nth_split:
  "i < length A \<Longrightarrow> drop i A = A ! i # drop (i + 1) A" "i < length A \<Longrightarrow> take (i + 1) A = take i A @ [A ! i]"
  by (simp_all add: Cons_nth_drop_Suc take_Suc_conv_app_nth)

lemma split_at_sym: "split_at A i B j \<longleftrightarrow> split_at B j A i"
  by (auto simp: split_at_def)

lemma split_at_rest:
  assumes "split_at A i B j" "i < length A"
  shows "\<forall>y \<in> set (drop (i + 1) A). A ! i \<le> y" "\<forall>x \<in> set (take i A) \<union> set (take j B). x \<le> A ! i"
  using assms sorted_wrt_drop [of "(\<le>)" A i] unfolding split_at_def nth_split(1) [OF assms(2)] by auto

lemma split_at_left:
  assumes sp: "split_at A i B j" and i: "i < length A" and le: "\<forall>y \<in> set (drop j B). A ! i \<le> y"
  shows "split_at A (i + 1) B j"
  using sp i le split_at_rest(1) [OF sp i] nth_split [OF i] unfolding split_at_def by (simp add: ball_Un)

lemma split_at_both:
  assumes sp: "split_at A i B j" and i: "i < length A" and j: "j < length B" and eq: "A ! i = B ! j"
  shows "split_at A (i + 1) B (j + 1)"
proof -
  have "\<forall>y \<in> set (drop j B). A ! i \<le> y"
    using split_at_rest(1) [of B j A i] sp j eq by (simp add: split_at_sym nth_split)
  then have "split_at A (i + 1) B j" by (rule split_at_left [OF sp i])
  moreover have "\<forall>y \<in> set (drop (i + 1) A). B ! j \<le> y" using split_at_rest(1) [OF sp i] eq by simp
  ultimately show ?thesis using split_at_left [of B j A "i + 1"] j by (simp add: split_at_sym [of B])
qed

lemma split_at_next:
  assumes sp: "split_at (take m P) i (take n Q) j" and len: "m \<le> length P" "n \<le> length Q"
  shows "next_point P m i Q n j = Some None \<and> i = m \<and> j = n \<or>
    (\<exists>v i' j' ps qs. next_point P m i Q n j = Some (Some (v, i', j')) \<and> split_at (take m P) i' (take n Q) j' \<and>
       i \<le> i' \<and> j \<le> j' \<and> i + j < i' + j' \<and>
       take i' (take m P) = take i (take m P) @ ps \<and> take j' (take n Q) = take j (take n Q) @ qs \<and>
       set ps \<subseteq> {v} \<and> set qs \<subseteq> {v} \<and> ps @ qs \<noteq> [] \<and>
       (\<forall>x \<in> set (take i (take m P)) \<union> set (take j (take n Q)). x \<le> v))"
proof -
  let ?A = "take m P" and ?B = "take n Q"
  have ps: "split_at ?B j ?A i" using sp by (simp add: split_at_sym)
  have ij: "i \<le> m" "j \<le> n" using sp len by (simp_all add: split_at_def)
  have A: "mem_get P i = Some (P ! i)" "i < length ?A" "?A ! i = P ! i" if "i < m"
    using that len by (simp_all add: mem_get_def)
  have B: "mem_get Q j = Some (Q ! j)" "j < length ?B" "?B ! j = Q ! j" if "j < n"
    using that len by (simp_all add: mem_get_def)
  have left: ?thesis if i: "i < m" and nx: "next_point P m i Q n j = Some (Some (P ! i, i + 1, j))"
    and le: "\<forall>y \<in> set (drop j ?B). P ! i \<le> y"
  proof -
    have "split_at ?A (i + 1) ?B j" using split_at_left [OF sp A(2) [OF i]] le A(3) [OF i] by simp
    with nx nth_split(2) [OF A(2) [OF i]] split_at_rest(2) [OF sp A(2) [OF i]] A(3) [OF i] show ?thesis
      by (intro disjI2 exI [of _ "P ! i"] exI [of _ "i + 1"] exI [of _ j] exI [of _ "[P ! i]"] exI [of _ "[]"]) simp
  qed
  have right: ?thesis if j: "j < n" and nx: "next_point P m i Q n j = Some (Some (Q ! j, i, j + 1))"
    and le: "\<forall>y \<in> set (drop i ?A). Q ! j \<le> y"
  proof -
    have "split_at ?A i ?B (j + 1)" using split_at_left [OF ps B(2) [OF j]] le B(3) [OF j] by (simp add: split_at_sym)
    with nx nth_split(2) [OF B(2) [OF j]] split_at_rest(2) [OF ps B(2) [OF j]] B(3) [OF j] show ?thesis
      by (intro disjI2 exI [of _ "Q ! j"] exI [of _ i] exI [of _ "j + 1"] exI [of _ "[]"] exI [of _ "[Q ! j]"]) auto
  qed
  consider (two) "i < m" "j < n" | (one) "i < m" "j = n" | (other) "i = m" "j < n" | (none) "i = m" "j = n"
    using ij by linarith
  then show ?thesis
  proof cases
    case two
    note A' = A [OF two(1)] and B' = B [OF two(2)]
    have A_le: "\<forall>y \<in> set (drop j ?B). P ! i \<le> y" if "P ! i \<le> Q ! j"
      using split_at_rest(1) [OF ps B'(2)] B'(3) that unfolding nth_split(1) [OF B'(2)] by auto
    have B_le: "\<forall>y \<in> set (drop i ?A). Q ! j \<le> y" if "Q ! j \<le> P ! i"
      using split_at_rest(1) [OF sp A'(2)] A'(3) that unfolding nth_split(1) [OF A'(2)] by auto
    consider "P ! i < Q ! j" | "P ! i = Q ! j" | "Q ! j < P ! i" by fastforce
    then show ?thesis
    proof cases
      case 1
      show ?thesis
        by (rule left [OF two(1)]) (use two A' B' 1 A_le in \<open>simp_all add: next_point_def\<close>)
    next
      case 2
      have "split_at ?A (i + 1) ?B (j + 1)" using split_at_both [OF sp A'(2) B'(2)] A'(3) B'(3) 2 by simp
      moreover have "next_point P m i Q n j = Some (Some (P ! i, i + 1, j + 1))"
        using two A' B' 2 by (simp add: next_point_def)
      ultimately show ?thesis
        using nth_split(2) [OF A'(2)] nth_split(2) [OF B'(2)] split_at_rest(2) [OF sp A'(2)] A'(3) B'(3) 2
        by (intro disjI2 exI [of _ "P ! i"] exI [of _ "i + 1"] exI [of _ "j + 1"] exI [of _ "[P ! i]"] exI [of _ "[Q ! j]"])
          simp
    next
      case 3
      show ?thesis
        by (rule right [OF two(2)]) (use two A' B' 3 B_le in \<open>auto simp: next_point_def\<close>)
    qed
  next
    case one
    then show ?thesis by (intro left) (use A in \<open>simp_all add: next_point_def\<close>)
  next
    case other
    then show ?thesis by (intro right) (use B in \<open>simp_all add: next_point_def\<close>)
  next
    case none
    then show ?thesis by (simp add: next_point_def)
  qed
qed

context range_alloc begin

lemma op_loop_cases:
  "cr_inv be realloc_fn cr \<Longrightarrow> split_at (take m P) i (take n Q) j \<Longrightarrow> m \<le> length P \<Longrightarrow> n \<le> length Q \<Longrightarrow>
     m + n \<le> cr_limit \<Longrightarrow> op_state op (take i (take m P)) (take j (take n Q)) (cr_list be cr) \<Longrightarrow>
     \<exists>h' cr' r. op_loop be h cr P m i Q n j op = Some (h', cr', r) \<and> cr_inv be realloc_fn cr' \<and>
       (r = -1 \<or> r = 0 \<and> op_state op (take m P) (take n Q) (cr_list be cr'))"
proof (induction "m + n - (i + j)" arbitrary: h cr i j rule: less_induct)
  case less
  note len = less.prems(3,4)
  note simps = op_loop.simps [of be h cr P m i Q n j op]
  have ij: "i \<le> m" "j \<le> n" using less.prems(2) len by (simp_all add: split_at_def)
  from split_at_next [OF less.prems(2) len] show ?case
  proof (elim disjE exE conjE)
    assume "next_point P m i Q n j = Some None" "i = m" "j = n"
    with less.prems(1,6) show ?case by (simp add: op_loop.simps [of be h cr P m m Q n n])
  next
    fix v i' j' ps qs
    assume nx: "next_point P m i Q n j = Some (Some (v, i', j'))" and sp: "split_at (take m P) i' (take n Q) j'"
      and le: "i \<le> i'" "j \<le> j'" "i + j < i' + j'"
      and app: "take i' (take m P) = take i (take m P) @ ps" "take j' (take n Q) = take j (take n Q) @ qs"
      and new: "set ps \<subseteq> {v}" "set qs \<subseteq> {v}" "ps @ qs \<noteq> []"
      and v: "\<forall>x \<in> set (take i (take m P)) \<union> set (take j (take n Q)). x \<le> v"
    have ij': "i' \<le> m" "j' \<le> n" using sp len by (simp_all add: split_at_def)
    then have l: "length (take i' (take m P)) = i'" "length (take j' (take n Q)) = j'" using len by simp_all
    have dec: "m + n - (i' + j') < m + n - (i + j)" using le ij' by simp
    have cl: "length (cr_list be cr) = cr_len cr" using cr_invD [OF less.prems(1)] by simp
    have st: "op_state op (take i' (take m P)) (take j' (take n Q))
        (if op_in op (odd i') (odd j') \<noteq> odd (cr_len cr) then cr_list be cr @ [v] else cr_list be cr)"
      using op_state_step [OF less.prems(6) v new] unfolding app [symmetric] l cl .
    note ih = less.hyps [OF dec _ sp len less.prems(5)]
    show ?case
    proof (cases "op_in op (odd i') (odd j') \<noteq> odd (cr_len cr)")
      case True
      have "cr_len cr \<le> i + j" using less.prems(6) cl ij len by (simp add: op_state_def)
      then have "cr_len cr < cr_limit" using le ij' less.prems(5) by linarith
      then obtain h1 cr1 r1 where a: "cr_add_point be h cr v = Some (h1, cr1, r1)" "cr_inv be realloc_fn cr1"
        "r1 = 0 \<and> cr_list be cr1 = cr_list be cr @ [v] \<or> r1 = -1"
        using cr_add_point_cases [OF less.prems(1)] by blast
      show ?thesis
      proof (cases "r1 = 0")
        case r: True
        with a(3) have "cr_list be cr1 = cr_list be cr @ [v]" by simp
        with ih [OF a(2), of h1] st True have "\<exists>h' cr' r. op_loop be h1 cr1 P m i' Q n j' op = Some (h', cr', r) \<and>
            cr_inv be realloc_fn cr' \<and> (r = -1 \<or> r = 0 \<and> op_state op (take m P) (take n Q) (cr_list be cr'))"
          by simp
        with nx True a(1) r show ?thesis by (simp add: simps)
      next
        case False
        with nx True a show ?thesis by (simp add: simps)
      qed
    next
      case False
      with ih [OF less.prems(1), of h] st nx show ?thesis by (simp add: simps)
    qed
  qed
qed

lemma cr_op_cases:
  assumes inv: "cr_inv be realloc_fn cr" and empty: "cr_len cr = 0"
    and len: "m \<le> length P" "n \<le> length Q" "m + n \<le> cr_limit" "even m" "even n"
    and s: "sorted (take m P)" "sorted (take n Q)"
  shows "\<exists>h' cr' r. cr_op be h cr P m Q n op = Some (h', cr', r) \<and> cr_inv be realloc_fn cr' \<and>
    (r = -1 \<or> r = 0 \<and> sorted_wrt (<) (cr_list be cr') \<and> even (cr_len cr') \<and>
       char_set (cr_list be cr') =
         {c. op_in op (c \<in> char_set (take m P)) (c \<in> char_set (take n Q))})"
proof -
  have nil: "cr_list be cr = []" using empty by (simp add: cr_list_def)
  have "split_at (take m P) 0 (take n Q) 0" using s by (auto simp: split_at_def)
  then obtain h1 cr1 r1 where o: "op_loop be h cr P m 0 Q n 0 op = Some (h1, cr1, r1)" "cr_inv be realloc_fn cr1"
    "r1 = -1 \<or> r1 = 0 \<and> op_state op (take m P) (take n Q) (cr_list be cr1)"
    using op_loop_cases [OF inv, of m P 0 n Q 0 op h] len op_state_Nil by (auto simp: nil)
  show ?thesis
  proof (cases "r1 = 0")
    case True
    with o have st: "op_state op (take m P) (take n Q) (cr_list be cr1)" by simp
    have C: "sorted (cr_list be cr1)" "even (length (cr_list be cr1))"
      "\<And>c. odd (points_upto c (cr_list be cr1)) = op_in op (odd (points_upto c (take m P))) (odd (points_upto c (take n Q)))"
      using st len by (cases op; simp add: op_state_def)+
    obtain cr2 where c: "cr_compress be cr1 = Some cr2" "cr_inv be realloc_fn cr2" "cr_list be cr2 = merged (cr_list be cr1)"
      using cr_compress_cases [OF o(2) C(1)] by blast
    have "char_set (cr_list be cr2) = {c. op_in op (c \<in> char_set (take m P)) (c \<in> char_set (take n Q))}"
    proof (rule set_eqI)
      fix x
      show "x \<in> char_set (cr_list be cr2) \<longleftrightarrow>
          x \<in> {c. op_in op (c \<in> char_set (take m P)) (c \<in> char_set (take n Q))}"
        unfolding c(3) merged_set [OF C(1)] char_set_parity [OF C(1,2)] mem_Collect_eq C(3)
        using len s by (simp add: char_set_parity)
    qed
    moreover have "even (cr_len cr2)" using even_merged [of "cr_list be cr1"] cr_invD(4) [OF c(2)] c(3) by simp
    ultimately show ?thesis
      using o(1) True c merged_strict [OF C(1)] by (simp add: cr_op_def)
  next
    case False
    with o show ?thesis by (simp add: cr_op_def)
  qed
qed

end

lemma char_set_single: "char_set [x, y] = {x..<y}"
  by simp

lemma u32_max: "unat (x :: u32) \<le> 4294967295"
proof -
  have "unat x < 4294967296" by (rule less_le_trans [OF unat_u32_less]) simp
  then show ?thesis by linarith
qed

lemma less_plus_one:
  assumes "c2 \<noteq> 0xFFFFFFFF"
  shows "{c1..<c2 + 1} = {c1..(c2 :: u32)}"
proof -
  have "unat c2 \<noteq> unat (0xFFFFFFFF :: u32)" using assms by (simp only: word_unat_eq_iff not_False_eq_True)
  moreover have "unat (0xFFFFFFFF :: u32) = 4294967295" by simp
  ultimately have "unat c2 + 1 < 4294967296" using u32_max [of c2] by linarith
  then have "unat (c2 + 1) = unat c2 + 1" using unat_plus_small [of c2 1] by simp
  then have "x < c2 + 1 \<longleftrightarrow> x \<le> c2" for x unfolding word_less_nat_alt word_le_nat_alt by linarith
  then show ?thesis by (simp only: set_eq_iff atLeastLessThan_iff atLeastAtMost_iff simp_thms)
qed

context range_alloc begin

lemma cr_union1_cases:
  assumes inv: "cr_inv be realloc_fn cr" and s: "sorted (cr_list be cr)" "even (cr_len cr)"
    and len: "n \<le> length Q" "cr_len cr + n \<le> cr_limit" "even n" "sorted (take n Q)"
  shows "\<exists>h' cr' r. cr_union1 be h cr Q n = Some (h', cr', r) \<and> cr_inv be realloc_fn cr' \<and>
    (r = -1 \<or> r = 0 \<and> sorted_wrt (<) (cr_list be cr') \<and> even (cr_len cr') \<and>
       char_set (cr_list be cr') = char_set (cr_list be cr) \<union> char_set (take n Q))"
proof -
  note d = cr_invD [OF inv]
  let ?cr = "cr\<lparr>cr_len := 0, cr_size := 0, cr_points := None\<rparr>"
  have inv0: "cr_inv be realloc_fn ?cr" using d(1) by (simp add: cr_inv_def points_def)
  have "cr_len cr \<le> length (points be cr)" using d(2,3) by simp
  then obtain h1 cr1 r1 where o: "cr_op be h ?cr (points be cr) (cr_len cr) Q n CR_OP_UNION = Some (h1, cr1, r1)"
    "cr_inv be realloc_fn cr1"
    "r1 = -1 \<or> r1 = 0 \<and> sorted_wrt (<) (cr_list be cr1) \<and> even (cr_len cr1) \<and>
       char_set (cr_list be cr1) = char_set (cr_list be cr) \<union> char_set (take n Q)"
    using cr_op_cases [OF inv0, of "cr_len cr" "points be cr" n Q h CR_OP_UNION] s len
    by (auto simp: cr_list_def Un_def)
  obtain h2 where "cr_free h1 cr = Some h2"
    using free_defined [of h1 "cr_points cr"] by (auto simp: cr_free_def d(1))
  with o show ?thesis by (simp add: cr_union1_def)
qed

lemma cr_invert_cases:
  assumes inv: "cr_inv be realloc_fn cr" and s: "sorted (cr_list be cr)" "even (cr_len cr)"
    and len: "cr_len cr + 2 \<le> cr_limit"
  shows "\<exists>h' cr' r. cr_invert be h cr = Some (h', cr', r) \<and> cr_inv be realloc_fn cr' \<and>
    (r = -1 \<and> cr_list be cr' = cr_list be cr \<or>
     r = 0 \<and> sorted_wrt (<) (cr_list be cr') \<and> even (cr_len cr') \<and>
       char_set (cr_list be cr') = {..<0xFFFFFFFF} - char_set (cr_list be cr))"
proof -
  obtain h1 cr1 r1 where a: "cr_realloc h cr (cr_len cr + 2) = Some (h1, cr1, r1)" "cr_inv be realloc_fn cr1"
    "cr_len cr1 = cr_len cr" "cr_list be cr1 = cr_list be cr" "r1 = 0 \<and> cr_len cr + 2 \<le> cr_size cr1 \<or> r1 = -1"
    using cr_realloc_cases [OF inv len] by blast
  show ?thesis
  proof (cases "r1 = 0")
    case False
    with a show ?thesis by (simp add: cr_invert_def)
  next
    case True
    note d = cr_invD [OF a(2)]
    let ?C = "cr_list be cr" and ?n = "cr_len cr" and ?P = "points be cr1"
    have n: "?n + 2 \<le> length ?P" "length ?C = ?n" using a(3-5) True d(3,4) by simp_all
    define pt where "pt = 0 # ?C @ 0xFFFFFFFF # drop (?n + 2) ?P"
    have lpt: "length pt = length ?P" using n by (simp add: pt_def)
    have rd: "mem_read ?P 0 ?n = Some ?C"
      using n a(3,4) by (simp add: mem_read_def cr_list_def)
    obtain x rest where P: "?P = x # rest" using n by (cases ?P) auto
    have wr: "mem_write ?P 1 ?C = Some (x # ?C @ drop (?n + 1) ?P)"
      using n P by (simp add: mem_write_def)
    have dr: "drop (?n + 1) ?P = ?P ! (?n + 1) # drop (?n + 2) ?P"
      using n Cons_nth_drop_Suc [of "?n + 1" ?P] by simp
    have st: "mem_set (x # ?C @ drop (?n + 1) ?P) 0 0 = Some (0 # ?C @ drop (?n + 1) ?P)"
      "mem_set (0 # ?C @ drop (?n + 1) ?P) (?n + 1) 0xFFFFFFFF = Some pt"
      using n unfolding dr by (simp_all add: mem_set_def pt_def list_update_append)
    let ?cr = "(set_points be cr1 pt)\<lparr>cr_len := ?n + 2\<rparr>"
    have l2: "cr_list be ?cr = 0 # ?C @ [0xFFFFFFFF]"
      unfolding cr_list_def [of be ?cr] using n(2) lpt by (simp add: pt_def)
    have inv2: "cr_inv be realloc_fn ?cr" using a(2) d(3) n lpt by (simp add: cr_inv_def)
    have max: "\<forall>p \<in> set xs. p \<le> 0xFFFFFFFF" for xs :: "u32 list"
    proof
      fix p :: u32
      show "p \<le> 0xFFFFFFFF"
        unfolding word_le_nat_alt using u32_max [of p] by simp
    qed
    have sorted: "sorted (cr_list be ?cr)" "even (length (cr_list be ?cr))"
      unfolding l2 using s n max by (auto simp: sorted_append)
    obtain cr2 where c: "cr_compress be ?cr = Some cr2" "cr_inv be realloc_fn cr2" "cr_list be cr2 = merged (cr_list be ?cr)"
      using cr_compress_cases [OF inv2 sorted(1)] by blast
    have "x \<in> char_set (cr_list be cr2) \<longleftrightarrow> x \<in> {..<0xFFFFFFFF} - char_set ?C" for x
    proof -
      have "x \<in> char_set (cr_list be cr2) \<longleftrightarrow> odd (points_upto x (cr_list be ?cr))"
        unfolding c(3) merged_set [OF sorted(1)] by (rule char_set_parity [OF sorted])
      moreover have "x \<in> char_set ?C \<longleftrightarrow> odd (points_upto x ?C)" using s n by (simp add: char_set_parity)
      moreover have "even (points_upto x ?C)" if "0xFFFFFFFF \<le> x"
      proof -
        have "\<forall>p \<in> set ?C. p \<le> x" using max [of ?C] that by (blast intro: order.trans)
        then show ?thesis using points_upto_all [of ?C x] s(2) n by simp
      qed
      ultimately show ?thesis unfolding l2 by (auto simp: not_le)
    qed
    then have "char_set (cr_list be cr2) = {..<0xFFFFFFFF} - char_set ?C" by blast
    moreover have "even (cr_len cr2)" using even_merged [of "cr_list be ?cr"] cr_invD(4) [OF c(2)] c(3) by simp
    ultimately show ?thesis
      using a(1) True rd wr st a(3) c merged_strict [OF sorted(1)] by (simp add: cr_invert_def)
  qed
qed

end

subsection \<open>Sorted intervals\<close>

fun starts :: "u32 list \<Rightarrow> u32 list" where
  "starts (x # y # ps) = x # starts ps"
| "starts ps = []"

fun intervals :: "u32 list \<Rightarrow> bool" where
  "intervals (x # y # ps) = (x \<le> y \<and> intervals ps)"
| "intervals ps = (ps = [])"

fun joined :: "u32 list \<Rightarrow> u32 list" where
  "joined (x # y # u # v # ps) =
     (if u \<le> y then joined (x # max y v # ps) else x # y # joined (u # v # ps))"
| "joined ps = ps"

lemma joined_set: "sorted (starts ps) \<Longrightarrow> intervals ps \<Longrightarrow> char_set (joined ps) = char_set ps"
proof (induction ps rule: joined.induct)
  case (1 x y u v ps)
  from 1(3,4) have le: "x \<le> u" "x \<le> y" "y \<le> max y v" "sorted (x # starts ps)" "sorted (u # starts ps)"
    "u \<le> v" "intervals ps"
    by simp_all
  show ?case
  proof (cases "u \<le> y")
    case True
    have "{x..<y} \<union> {u..<v} = {x..<max y v}" using True le(1)
      by (cases "y \<le> v") (auto simp: max_absorb1 max_absorb2 not_le intro: order.trans order.strict_trans2 order.strict_trans1)
    moreover have "x \<le> max y v" using le(2,3) by (rule order.trans)
    ultimately show ?thesis using 1(1) True le by (simp add: Un_assoc [symmetric])
  next
    case False
    with 1(2) le show ?thesis by simp
  qed
qed simp_all

lemma joined_ge: "sorted (starts (x # qs)) \<Longrightarrow> intervals (x # qs) \<Longrightarrow> z \<in> set (joined (x # qs)) \<Longrightarrow> x \<le> z"
proof (induction "x # qs" arbitrary: x qs rule: joined.induct)
  case (1 x y u v ps)
  from 1(3,4) have le: "x \<le> u" "x \<le> y" "y \<le> max y v" "sorted (x # starts ps)" "sorted (u # starts ps)"
    "u \<le> v" "intervals ps"
    by simp_all
  then have m: "x \<le> max y v" by (blast intro: order.trans)
  show ?case
  proof (cases "u \<le> y")
    case True
    with 1(1) [OF True] 1(5) le m show ?thesis by simp
  next
    case False
    with 1(5) have "z = x \<or> z = y \<or> z \<in> set (joined (u # v # ps))" by simp
    with 1(2) [OF False] le show ?thesis by (auto intro: order.trans)
  qed
qed auto

lemma joined_sorted: "sorted (starts ps) \<Longrightarrow> intervals ps \<Longrightarrow> sorted (joined ps)"
proof (induction ps rule: joined.induct)
  case (1 x y u v ps)
  from 1(3,4) have le: "x \<le> u" "x \<le> y" "y \<le> max y v" "sorted (x # starts ps)" "sorted (u # starts ps)"
    "u \<le> v" "intervals ps"
    by simp_all
  then have m: "x \<le> max y v" by (blast intro: order.trans)
  show ?case
  proof (cases "u \<le> y")
    case True
    with 1(1) [OF True] le m show ?thesis by simp
  next
    case False
    have "sorted (joined (u # v # ps))" using 1(2) [OF False] le by simp
    moreover have "\<forall>z \<in> set (joined (u # v # ps)). u \<le> z"
      using joined_ge [of u "v # ps"] le by simp
    moreover have "y < u" using False by simp
    ultimately show ?thesis using False le(2) by (auto intro: order.trans less_imp_le)
  qed
qed simp_all

lemma joined_even: "even (length (joined ps)) \<longleftrightarrow> even (length ps)"
  by (induction ps rule: joined.induct) auto

lemma length_joined: "length (joined ps) \<le> length ps"
  by (induction ps rule: joined.induct) auto

lemma overlap_end_joined:
  assumes len: "len \<le> length pt" "even len"
  shows "even i \<Longrightarrow> i \<le> len \<Longrightarrow> \<exists>i' e'. overlap_end pt len i e = Some (i', e') \<and> i \<le> i' \<and> i' \<le> len \<and> even i' \<and>
    joined (x # e # drop i (take len pt)) = x # e' # joined (drop i' (take len pt))"
proof (induction "len - i" arbitrary: i e rule: less_induct)
  case less
  let ?L = "take len pt"
  note nth = drop_take_Cons [OF _ len(1)]
  show ?case
  proof (cases "i < len")
    case True
    have i: "i + 1 < len" "even (i + 2)" "i + 2 \<le> len"
      using True less.prems(1) len(2) by (auto elim!: evenE)
    define u where "u = pt ! i"
    define v where "v = pt ! (i + 1)"
    have d: "drop i ?L = u # v # drop (i + 2) ?L"
      using nth [OF True] nth [OF i(1)] by (simp add: u_def v_def)
    have get: "mem_get pt i = Some u" "mem_get pt (i + 1) = Some v"
      using i(1) len(1) by (simp_all add: mem_get_def u_def v_def)
    note step = overlap_end.simps [of pt len i e]
    show ?thesis
    proof (cases "u > e")
      case gt: True
      then show ?thesis using True get less.prems unfolding d step by (simp add: d not_le)
    next
      case False
      have "len - (i + 2) < len - i" using True by simp
      note ih = less.hyps [OF this i(2,3)]
      have "overlap_end pt len i e = overlap_end pt len (i + 2) (max e v)"
        using True False get unfolding step by (auto simp: max_def)
      moreover have "joined (x # e # drop i ?L) = joined (x # max e v # drop (i + 2) ?L)"
        using False unfolding d by (simp add: not_less)
      ultimately show ?thesis using ih [of "max e v"] by fastforce
    qed
  next
    case False
    with less.prems have "i = len" by simp
    then show ?thesis using len(2) by (simp add: overlap_end.simps [of pt len len e])
  qed
qed

lemma overlap_loop_joined:
  "j \<le> i \<Longrightarrow> even i \<Longrightarrow> i \<le> len \<Longrightarrow> len \<le> length pt \<Longrightarrow> even len \<Longrightarrow>
     \<exists>pt' j'. overlap_loop pt len i j = Some (pt', j') \<and> length pt' = length pt \<and>
       j' = j + length (joined (drop i (take len pt))) \<and> take j' pt' = take j pt @ joined (drop i (take len pt))"
proof (induction "len - i" arbitrary: i j pt rule: less_induct)
  case less
  let ?L = "take len pt"
  note nth = drop_take_Cons [OF _ less.prems(4)]
  show ?case
  proof (cases "i < len")
    case True
    have i: "i + 1 < len" "even (i + 2)" "i + 2 \<le> len"
      using True less.prems(2,5) by (auto elim!: evenE)
    have d: "drop i ?L = pt ! i # pt ! (i + 1) # drop (i + 2) ?L"
      using nth [OF True] nth [OF i(1)] by simp
    have get: "mem_get pt i = Some (pt ! i)" "mem_get pt (i + 1) = Some (pt ! (i + 1))"
      using i(1) less.prems(4) by (simp_all add: mem_get_def)
    obtain i' e' where o: "overlap_end pt len (i + 2) (pt ! (i + 1)) = Some (i', e')" "i + 2 \<le> i'" "i' \<le> len" "even i'"
      "joined (drop i ?L) = pt ! i # e' # joined (drop i' ?L)"
      using overlap_end_joined [OF less.prems(4,5) i(2,3)] unfolding d by blast
    define pt1 where "pt1 = pt[j := pt ! i, j + 1 := e']"
    have j: "j + 1 < length pt" "j + 2 \<le> i'" using less.prems(1,4) i(1) o(2) by linarith+
    have tail: "drop i' (take len pt1) = drop i' ?L"
    proof (rule nth_equalityI)
      fix m
      assume "m < length (drop i' (take len pt1))"
      then have "i' + m < len" "i' + m < length pt" by (simp_all add: pt1_def)
      with j show "drop i' (take len pt1) ! m = drop i' ?L ! m" by (simp add: pt1_def)
    qed (simp add: pt1_def)
    have "len - i' < len - i" using True o(2) by linarith
    moreover have "len \<le> length pt1" using less.prems(4) by (simp add: pt1_def)
    ultimately obtain pt' j' where ih: "overlap_loop pt1 len i' (j + 2) = Some (pt', j')" "length pt' = length pt1"
      "j' = j + 2 + length (joined (drop i' ?L))" "take j' pt' = take (j + 2) pt1 @ joined (drop i' ?L)"
      using less.hyps [of i' "j + 2" pt1] j(2) o(3,4) less.prems(5) unfolding tail by blast
    have "overlap_loop pt len i j = Some (pt', j')"
      using True get o(1) j(1) ih(1) by (simp add: overlap_loop.simps [of pt len i] mem_simps pt1_def)
    moreover have "take (j + 2) pt1 = take j pt @ [pt ! i, e']"
      using j(1) by (simp add: pt1_def take_Suc_conv_app_nth numeral_2_eq_2)
    ultimately show ?thesis using ih(2-4) o(5) by (simp add: pt1_def)
  next
    case False
    with less.prems(3) have "i = len" by simp
    then show ?thesis by (simp add: overlap_loop.simps [of pt len len])
  qed
qed

lemma concat_chunks: "concat (map (\<lambda>i. take k (drop (k * i) xs)) [0..<n]) = take (k * n) xs"
proof (induction n)
  case (Suc n)
  have "take (k * Suc n) xs = take (k * n) xs @ take k (drop (k * n) xs)"
    using take_add [of "k * n" k xs] by (simp add: add.commute)
  with Suc show ?case by simp
qed simp

text \<open>The elements of eight bytes that are sorted are the pairs of points.\<close>

definition pair_of :: "bool \<Rightarrow> u8 list \<Rightarrow> u32 list" where
  "pair_of be e = [word_of_nat (obj_val be (take 4 e)), word_of_nat (obj_val be (take 4 (drop 4 e)))]"

lemma words_Cons:
  assumes "cells b = e @ cells c" "length e = 4"
  shows "words be b = word_of_nat (obj_val be e) # words be c"
proof (rule nth_equalityI)
  show "length (words be b) = length (word_of_nat (obj_val be e) # words be c)" using assms by simp
next
  fix i
  assume "i < length (words be b)"
  then have i: "i < length (cells b) div 4" by simp
  then show "words be b ! i = (word_of_nat (obj_val be e) # words be c) ! i"
    using assms by (cases i) (simp_all add: nth_words)
qed

lemma words_pairs:
  assumes "\<forall>e \<in> set es. length e = 8" "cells b = concat es @ Q"
  shows "take (2 * length es) (words be b) = concat (map (pair_of be) es)"
  using assms
proof (induction es arbitrary: b)
  case (Cons e es)
  define c where "c = b\<lparr>cells := drop 4 (cells b)\<rparr>"
  define d where "d = b\<lparr>cells := drop 8 (cells b)\<rparr>"
  have "cells b = take 4 e @ cells c" "cells c = take 4 (drop 4 e) @ cells d"
    using Cons.prems by (simp_all add: c_def d_def)
  then have "words be b = pair_of be e @ words be d"
    using Cons.prems(1) words_Cons [of b "take 4 e" c be] words_Cons [of c "take 4 (drop 4 e)" d be]
    by (simp add: pair_of_def)
  moreover have "take (2 * length es) (words be d) = concat (map (pair_of be) es)"
    using Cons.prems by (intro Cons.IH) (simp_all add: d_def)
  moreover have "length (pair_of be e) = 2" by (simp add: pair_of_def)
  ultimately show ?case by simp
qed simp

lemma starts_pairs: "starts (concat (map (pair_of be) es)) = map (\<lambda>e. pair_of be e ! 0) es"
  by (induction es) (simp_all add: pair_of_def)

lemma intervals_pairs: "intervals (concat (map (pair_of be) es)) \<longleftrightarrow> (\<forall>e \<in> set es. pair_of be e ! 0 \<le> pair_of be e ! 1)"
  by (induction es) (simp_all add: pair_of_def)

lemma char_set_pairs: "char_set (concat (map (pair_of be) es)) = (\<Union>e \<in> set es. {pair_of be e ! 0..<pair_of be e ! 1})"
  by (induction es) (simp_all add: pair_of_def)

interpretation point: comparison "point_cmp be" for be
  by unfold_locales (auto simp: point_cmp_def Let_def sgn_if split: if_splits)

lemma point_cmp_le: "point_cmp be x y \<le> 0 \<longleftrightarrow> pair_of be x ! 0 \<le> pair_of be y ! 0"
  by (auto simp: point_cmp_def pair_of_def Let_def)

lemma cr_sort_cases:
  assumes inv: "cr_inv be f cr" and even: "even (cr_len cr)" and iv: "intervals (cr_list be cr)"
  shows "\<exists>cr'. cr_sort_and_remove_overlap be A cr = Some cr' \<and> cr_inv be f cr' \<and> sorted (cr_list be cr') \<and>
    even (cr_len cr') \<and> char_set (cr_list be cr') = char_set (cr_list be cr)"
proof -
  note d = cr_invD [OF inv]
  let ?n = "cr_len cr div 2"
  have n: "2 * ?n = cr_len cr" using even by simp
  obtain b where b: "(case cr_points cr of
            None \<Rightarrow> if ?n < 2 then Some None else None
          | Some b \<Rightarrow> map_option (\<lambda>c. Some (b\<lparr>cells := c\<rparr>))
                       (rqsort A (point_cmp be) 8 (cells b) 0 ?n)) = Some b"
    and cr1: "cr_inv be f (cr\<lparr>cr_points := b\<rparr>)" "sorted (starts (cr_list be (cr\<lparr>cr_points := b\<rparr>)))"
      "intervals (cr_list be (cr\<lparr>cr_points := b\<rparr>))"
      "char_set (cr_list be (cr\<lparr>cr_points := b\<rparr>)) = char_set (cr_list be cr)"
  proof (cases "cr_points cr")
    case None
    then have "cr_len cr = 0" using d(2,3) by (simp add: points_def)
    with None inv that [of None] show ?thesis by (simp add: cr_inv_def points_def cr_list_def)
  next
    case (Some blk)
    have l: "8 * ?n \<le> length (cells blk)" using d(2,3) Some n by (simp add: points_def)
    define es where "es = map (\<lambda>i. take 8 (drop (8 * i) (cells blk))) [0..<?n]"
    define Q where "Q = drop (8 * ?n) (cells blk)"
    have es: "\<forall>e \<in> set es. length e = 8" "length es = ?n" using l by (auto simp: es_def)
    have split: "cells blk = concat es @ Q" by (simp add: es_def Q_def concat_chunks)
    obtain es' where r: "rqsort A (point_cmp be) 8 (cells blk) 0 ?n = Some (concat es' @ Q)" "mset es' = mset es"
      "cmp_sorted (point_cmp be) es'"
      using rqsort_sorts [OF es(1), of A "point_cmp be" "[]" Q] point.comparison_axioms [of be] es(2) split by auto
    have es': "\<forall>e \<in> set es'. length e = 8" "length es' = ?n" "set es' = set es"
      using es mset_eq_setD [OF r(2)] mset_eq_length [OF r(2)] by simp_all
    let ?b = "blk\<lparr>cells := concat es' @ Q\<rparr>"
    let ?cr = "cr\<lparr>cr_points := Some ?b\<rparr>"
    have old: "cr_list be cr = concat (map (pair_of be) es)"
      using words_pairs [OF es(1) split, of be] Some es(2) n by (simp add: cr_list_def points_def)
    have new: "cr_list be ?cr = concat (map (pair_of be) es')"
      using words_pairs [OF es'(1), of ?b Q be] es'(2) n by (simp add: cr_list_def points_def)
    have "length (concat es') = length (concat es)"
      using es es' by (simp add: length_concat_const [where k = 8])
    then have "cr_inv be f ?cr" using inv Some split by (simp add: cr_inv_def points_def)
    moreover have "sorted (starts (cr_list be ?cr))"
      using r(3) unfolding new starts_pairs by (simp add: sorted_wrt_map point_cmp_le)
    moreover have "intervals (cr_list be ?cr)"
      using iv unfolding new old intervals_pairs es'(3) .
    moreover have "char_set (cr_list be ?cr) = char_set (cr_list be cr)"
      unfolding new old char_set_pairs es'(3) ..
    ultimately show ?thesis using that [of "Some ?b"] Some r(1) by simp
  qed
  let ?cr = "cr\<lparr>cr_points := b\<rparr>" and ?J = "joined (cr_list be (cr\<lparr>cr_points := b\<rparr>))"
  note d1 = cr_invD [OF cr1(1)]
  obtain pt j where o: "overlap_loop (points be ?cr) (cr_len cr) 0 0 = Some (pt, j)"
    "length pt = length (points be ?cr)" "j = length ?J" "take j pt = ?J"
    using overlap_loop_joined [of 0 0 "cr_len cr" "points be ?cr"] d1(2,3) even by (auto simp: cr_list_def)
  have "j \<le> cr_len cr" using length_joined [of "cr_list be ?cr"] d1(4) o(3) by simp
  then have "cr_inv be f ((set_points be ?cr pt)\<lparr>cr_len := j\<rparr>)"
    using cr1(1) d(2) o(2) by (simp add: cr_inv_def)
  moreover have "cr_list be ((set_points be ?cr pt)\<lparr>cr_len := j\<rparr>) = ?J" using o by (simp add: cr_list_def)
  moreover have "even j" using o(3) joined_even [of "cr_list be ?cr"] d1(4) even by simp
  ultimately show ?thesis
    using b o(1) joined_set [OF cr1(2,3)] joined_sorted [OF cr1(2,3)] cr1(4)
    by (simp add: cr_sort_and_remove_overlap_def Let_def)
qed

subsection \<open>The operations on the runtime's memory\<close>

abbreviation rt_realloc :: "libc_heap malloc_state realloc_func" where
  "rt_realloc \<equiv> js_dbuf_realloc def_malloc_funcs"

text \<open>The range of the lower case letters, for the examples.\<close>

definition example_range :: "libc_heap malloc_state char_range" where
  "example_range =
     \<lparr>cr_len = 2, cr_size = 2, cr_points = Some \<lparr>cells = obj_bytes False 4 (97 :: u32) @ obj_bytes False 4 (123 :: u32), usable = 8\<rparr>,
      cr_realloc_func = rt_realloc\<rparr>"

lemma example_range: "cr_inv False rt_realloc example_range" "cr_list False example_range = [97, 123]"
  "cr_len example_range = 2"
proof -
  show c: "cr_len example_range = 2" by (simp add: example_range_def)
  have p: "points False example_range = [97, 123]"
  proof -
    let ?b = "\<lambda>c. \<lparr>cells = c, usable = 8\<rparr> :: block"
    have "words False (?b (obj_bytes False 4 (97 :: u32) @ obj_bytes False 4 (123 :: u32))) = [97, 123]"
      using words_Cons [of "?b (obj_bytes False 4 (97 :: u32) @ obj_bytes False 4 (123 :: u32))" "obj_bytes False 4 (97 :: u32)" "?b (obj_bytes False 4 (123 :: u32))"]
        words_Cons [of "?b (obj_bytes False 4 (123 :: u32))" "obj_bytes False 4 (123 :: u32)" "?b []"]
        obj_val_obj_bytes_u32 [of False 97] obj_val_obj_bytes_u32 [of False 123]
      by (simp add: words_def [of _ "?b []"])
    then show ?thesis by (simp add: example_range_def points_def)
  qed
  then show "cr_list False example_range = [97, 123]" by (simp add: cr_list_def c)
  show "cr_inv False rt_realloc example_range"
    using p by (simp add: cr_inv_def) (simp add: example_range_def cr_limit_def)
qed

text \<open>
  C10.  \<open>cr_op\<close> on an empty range and two sorted arrays of points: unless the memory runs out, the
  result denotes the union, the intersection or the symmetric difference of the two sets, and
  its points are in strictly increasing order, that is, its intervals are non-empty and not
  adjacent.
\<close>

theorem cr_op_sets:
  assumes "cr_inv be rt_realloc cr" "cr_len cr = 0"
    and "m \<le> length P" "n \<le> length Q" "m + n \<le> cr_limit" "even m" "even n"
    and "sorted (take m P)" "sorted (take n Q)"
  shows "\<exists>h' cr' r. cr_op be h cr P m Q n op = Some (h', cr', r) \<and> cr_inv be rt_realloc cr' \<and>
    (r = -1 \<or> r = 0 \<and> sorted_wrt (<) (cr_list be cr') \<and> even (cr_len cr') \<and>
       char_set (cr_list be cr') =
         {c. op_in op (c \<in> char_set (take m P)) (c \<in> char_set (take n Q))})"
  by (rule js_range.cr_op_cases [OF assms])

lemma cr_op_sets_witness:
  "\<exists>h' cr' r. cr_op False example_state (cr_init rt_realloc None) [48, 58, 97, 103] 4 [50, 98] 2 CR_OP_XOR = Some (h', cr', r) \<and>
    cr_inv False rt_realloc cr' \<and>
    (r = -1 \<or> r = 0 \<and> sorted_wrt (<) (cr_list False cr') \<and> even (cr_len cr') \<and>
       char_set (cr_list False cr') =
         {c. op_in CR_OP_XOR (c \<in> char_set (take 4 [48, 58, 97, 103])) (c \<in> char_set (take 2 [50, 98]))})"
  by (rule cr_op_sets) (simp_all add: cr_inv_def cr_init_def points_def cr_limit_def)

text \<open>
  C35.  \<open>cr_invert\<close> gives the complement among the code points below \<open>UINT32_MAX\<close>, or fails with
  the range unchanged.
\<close>

theorem cr_invert_complement:
  assumes "cr_inv be rt_realloc cr" "sorted (cr_list be cr)" "even (cr_len cr)" "cr_len cr + 2 \<le> cr_limit"
  shows "\<exists>h' cr' r. cr_invert be h cr = Some (h', cr', r) \<and> cr_inv be rt_realloc cr' \<and>
    (r = -1 \<and> cr_list be cr' = cr_list be cr \<or>
     r = 0 \<and> sorted_wrt (<) (cr_list be cr') \<and> even (cr_len cr') \<and>
       char_set (cr_list be cr') = {..<0xFFFFFFFF} - char_set (cr_list be cr))"
  by (rule js_range.cr_invert_cases [OF assms])

lemma cr_invert_complement_witness:
  "\<exists>h' cr' r. cr_invert False example_state example_range = Some (h', cr', r) \<and> cr_inv False rt_realloc cr' \<and>
    (r = -1 \<and> cr_list False cr' = cr_list False example_range \<or>
     r = 0 \<and> sorted_wrt (<) (cr_list False cr') \<and> even (cr_len cr') \<and>
       char_set (cr_list False cr') = {..<0xFFFFFFFF} - char_set (cr_list False example_range))"
  by (rule cr_invert_complement) (simp_all add: example_range cr_limit_def)

text \<open>
  C36.  \<open>cr_union_interval\<close> adds the characters from \<open>c1\<close> to \<open>c2\<close>, both included, to a sorted
  range and keeps it sorted, unless the memory runs out.
\<close>

theorem cr_union_interval_adds:
  assumes "cr_inv be rt_realloc cr" "sorted (cr_list be cr)" "even (cr_len cr)" "cr_len cr + 2 \<le> cr_limit"
    and "c1 \<le> c2" "c2 \<noteq> 0xFFFFFFFF"
  shows "\<exists>h' cr' r. cr_union_interval be h cr c1 c2 = Some (h', cr', r) \<and> cr_inv be rt_realloc cr' \<and>
    (r = -1 \<or> r = 0 \<and> sorted_wrt (<) (cr_list be cr') \<and> even (cr_len cr') \<and>
       char_set (cr_list be cr') = char_set (cr_list be cr) \<union> {c1..c2})"
proof -
  have "c2 \<in> {c1..<c2 + 1}" unfolding less_plus_one [OF assms(6)] using assms(5) by simp
  then have "c1 \<le> c2 + 1" using assms(5) by (auto dest: less_imp_le intro: order.trans)
  then show ?thesis
    using js_range.cr_union1_cases [OF assms(1-3), of 2 "[c1, c2 + 1]" h] assms(4)
    by (simp add: cr_union_interval_def less_plus_one [OF assms(6)])
qed

lemma cr_union_interval_adds_witness:
  "\<exists>h' cr' r. cr_union_interval False example_state example_range 48 57 = Some (h', cr', r) \<and> cr_inv False rt_realloc cr' \<and>
    (r = -1 \<or> r = 0 \<and> sorted_wrt (<) (cr_list False cr') \<and> even (cr_len cr') \<and>
       char_set (cr_list False cr') = char_set (cr_list False example_range) \<union> {48..57})"
  by (rule cr_union_interval_adds) (simp_all add: example_range cr_limit_def)

text \<open>
  C37.  \<open>cr_sort_and_remove_overlap\<close> turns any intervals, in any order and overlapping, into a
  sorted list of points that denotes the same set, in place.
\<close>

theorem cr_sort_and_remove_overlap_set:
  assumes "cr_inv be f cr" "even (cr_len cr)" "intervals (cr_list be cr)"
  shows "\<exists>cr'. cr_sort_and_remove_overlap be A cr = Some cr' \<and> cr_inv be f cr' \<and> sorted (cr_list be cr') \<and>
    even (cr_len cr') \<and> char_set (cr_list be cr') = char_set (cr_list be cr)"
  by (rule cr_sort_cases [OF assms])

lemma cr_sort_and_remove_overlap_set_witness:
  "\<exists>cr'. cr_sort_and_remove_overlap False 4096 example_range = Some cr' \<and> cr_inv False rt_realloc cr' \<and>
    sorted (cr_list False cr') \<and> even (cr_len cr') \<and> char_set (cr_list False cr') = char_set (cr_list False example_range)"
  by (rule cr_sort_and_remove_overlap_set) (simp_all add: example_range)

end
