(* ===== verification/Limbs.thy ===== *)
theory Limbs
  imports Prelude
begin

section \<open>Arithmetic on arrays of limbs\<close>

text \<open>
  The natural number arithmetic under the big numbers (src/quickjs/libbf.c, the \<open>mp_\<close>
  functions), for 64-bit limbs.  The arrays of a call may overlap, as they do where a result
  replaces an operand, so all of them lie in one memory \<open>m\<close>, a list of limbs, and a pointer
  is an index into it.  \<open>num\<close> is the number an array stands for, the least significant limb
  first.
\<close>

type_synonym u128 = "128 word"

subsection \<open>Counting loops\<close>

text \<open>\<open>for (j = i; j < i + c; j++)\<close> and \<open>for (j = c - 1; j >= 0; j--)\<close>.\<close>

primrec for_up :: "nat \<Rightarrow> nat \<Rightarrow> (nat \<Rightarrow> 's \<Rightarrow> 's option) \<Rightarrow> 's \<Rightarrow> 's option" where
  "for_up i 0 f s = Some s"
| "for_up i (Suc c) f s = do { s \<leftarrow> f i s; for_up (Suc i) c f s }"

primrec for_down :: "nat \<Rightarrow> (nat \<Rightarrow> 's \<Rightarrow> 's option) \<Rightarrow> 's \<Rightarrow> 's option" where
  "for_down 0 f s = Some s"
| "for_down (Suc c) f s = do { s \<leftarrow> f c s; for_down c f s }"

lemma for_up_rule:
  assumes "P i s" "\<And>j s. i \<le> j \<Longrightarrow> j < i + c \<Longrightarrow> P j s \<Longrightarrow> \<exists>s'. f j s = Some s' \<and> P (Suc j) s'"
  shows "\<exists>s'. for_up i c f s = Some s' \<and> P (i + c) s'"
  using assms
proof (induction c arbitrary: i s)
  case (Suc c)
  obtain s1 where s1: "f i s = Some s1" "P (Suc i) s1" using Suc.prems(2) [OF _ _ Suc.prems(1)] by auto
  have "\<exists>s'. for_up (Suc i) c f s1 = Some s' \<and> P (Suc i + c) s'"
    using Suc.prems(2) by (intro Suc.IH s1) auto
  with s1 show ?case by simp
qed simp

lemma for_down_rule:
  assumes "P c s" "\<And>j s. j < c \<Longrightarrow> P (Suc j) s \<Longrightarrow> \<exists>s'. f j s = Some s' \<and> P j s'"
  shows "\<exists>s'. for_down c f s = Some s' \<and> P 0 s'"
  using assms
proof (induction c arbitrary: s)
  case (Suc c)
  obtain s1 where s1: "f c s = Some s1" "P c s1" using Suc.prems(2) [OF _ Suc.prems(1)] by auto
  have "\<exists>s'. for_down c f s1 = Some s' \<and> P 0 s'"
    using Suc.prems(2) by (intro Suc.IH s1) auto
  with s1 show ?case by simp
qed simp

subsection \<open>Addition and subtraction\<close>

definition bool_limb :: "bool \<Rightarrow> u64" where
  "bool_limb b = (if b then 1 else 0)"

definition mp_add :: "u64 list \<Rightarrow> nat \<Rightarrow> nat \<Rightarrow> nat \<Rightarrow> nat \<Rightarrow> u64 \<Rightarrow> (u64 list \<times> u64) option" where
  "mp_add m res op1 op2 n carry =
     for_up 0 n (\<lambda>i (m, k). do {
       v \<leftarrow> mem_get m (op1 + i);
       y \<leftarrow> mem_get m (op2 + i);
       let a = v + y;
       let k1 = a < v;
       let a' = a + k;
       m \<leftarrow> mem_set m (res + i) a';
       Some (m, bool_limb (a' < k \<or> k1)) }) (m, carry)"

definition mp_sub :: "u64 list \<Rightarrow> nat \<Rightarrow> nat \<Rightarrow> nat \<Rightarrow> nat \<Rightarrow> u64 \<Rightarrow> (u64 list \<times> u64) option" where
  "mp_sub m res op1 op2 n carry =
     (if n \<ge> 2 ^ 31 then None else
     for_up 0 n (\<lambda>i (m, k). do {
       v \<leftarrow> mem_get m (op1 + i);
       y \<leftarrow> mem_get m (op2 + i);
       let a = v - y;
       let k1 = a > v;
       let v' = a - k;
       m \<leftarrow> mem_set m (res + i) v';
       Some (m, bool_limb (v' > a \<or> k1)) }) (m, carry))"

definition mp_neg :: "u64 list \<Rightarrow> nat \<Rightarrow> nat \<Rightarrow> nat \<Rightarrow> u64 \<Rightarrow> (u64 list \<times> u64) option" where
  "mp_neg m res op2 n carry =
     (if n \<ge> 2 ^ 31 then None else
     for_up 0 n (\<lambda>i (m, k). do {
       y \<leftarrow> mem_get m (op2 + i);
       let v = 0;
       let a = v - y;
       let k1 = a > v;
       let v' = a - k;
       m \<leftarrow> mem_set m (res + i) v';
       Some (m, bool_limb (v' > a \<or> k1)) }) (m, carry))"

text \<open>The loops that stop at a zero carry; \<open>c\<close> limbs from index \<open>p\<close> on are left.\<close>

primrec add_ui_loop :: "u64 list \<Rightarrow> nat \<Rightarrow> nat \<Rightarrow> u64 \<Rightarrow> (u64 list \<times> u64) option" where
  "add_ui_loop m p 0 k = Some (m, k)"
| "add_ui_loop m p (Suc c) k =
     (if k = 0 then Some (m, k)
      else do {
        v \<leftarrow> mem_get m p;
        let a = v + k;
        m \<leftarrow> mem_set m p a;
        add_ui_loop m (Suc p) c (bool_limb (a < k)) })"

definition mp_add_ui :: "u64 list \<Rightarrow> nat \<Rightarrow> u64 \<Rightarrow> nat \<Rightarrow> (u64 list \<times> u64) option" where
  "mp_add_ui m tab b n = add_ui_loop m tab n b"

primrec sub_ui_loop :: "u64 list \<Rightarrow> nat \<Rightarrow> nat \<Rightarrow> u64 \<Rightarrow> (u64 list \<times> u64) option" where
  "sub_ui_loop m p 0 k = Some (m, k)"
| "sub_ui_loop m p (Suc c) k = do {
     v \<leftarrow> mem_get m p;
     let a = v - k;
     m \<leftarrow> mem_set m p a;
     if a > v then sub_ui_loop m (Suc p) c 1 else Some (m, 0) }"

definition mp_sub_ui :: "u64 list \<Rightarrow> nat \<Rightarrow> u64 \<Rightarrow> nat \<Rightarrow> (u64 list \<times> u64) option" where
  "mp_sub_ui m tab b n = sub_ui_loop m tab n b"

subsection \<open>Shifts, comparison, tests\<close>

definition mp_shr :: "u64 list \<Rightarrow> nat \<Rightarrow> nat \<Rightarrow> nat \<Rightarrow> nat \<Rightarrow> u64 \<Rightarrow> (u64 list \<times> u64) option" where
  "mp_shr m tab_r tab n shift high =
     (if 1 \<le> shift \<and> shift < 64 then do {
        (m, l) \<leftarrow> for_down n (\<lambda>i (m, l). do {
          a \<leftarrow> mem_get m (tab + i);
          m \<leftarrow> mem_set m (tab_r + i) (drop_bit shift a OR push_bit (64 - shift) l);
          Some (m, a) }) (m, high);
        Some (m, l AND (push_bit shift 1 - 1)) }
      else None)"

primrec mp_scan_nz :: "u64 list \<Rightarrow> nat \<Rightarrow> nat \<Rightarrow> u64 option" where
  "mp_scan_nz m tab 0 = Some 0"
| "mp_scan_nz m tab (Suc n) = do {
     v \<leftarrow> mem_get m tab;
     if v \<noteq> 0 then Some 1 else mp_scan_nz m (Suc tab) n }"

primrec mp_cmp :: "u64 list \<Rightarrow> nat \<Rightarrow> nat \<Rightarrow> nat \<Rightarrow> int option" where
  "mp_cmp m taba tabb 0 = Some 0"
| "mp_cmp m taba tabb (Suc i) = do {
     x \<leftarrow> mem_get m (taba + i);
     y \<leftarrow> mem_get m (tabb + i);
     if x \<noteq> y then Some (if x < y then -1 else 1)
     else mp_cmp m taba tabb i }"

subsection \<open>Multiplication\<close>

definition mp_mul1 :: "u64 list \<Rightarrow> nat \<Rightarrow> nat \<Rightarrow> nat \<Rightarrow> u64 \<Rightarrow> u64 \<Rightarrow> (u64 list \<times> u64) option" where
  "mp_mul1 m tabr taba n b l =
     for_up 0 n (\<lambda>i (m, l). do {
       x \<leftarrow> mem_get m (taba + i);
       let t = (ucast x * ucast b + ucast l :: u128);
       m \<leftarrow> mem_set m (tabr + i) (ucast t);
       Some (m, ucast (drop_bit 64 t)) }) (m, l)"

definition mp_add_mul1 :: "u64 list \<Rightarrow> nat \<Rightarrow> nat \<Rightarrow> nat \<Rightarrow> u64 \<Rightarrow> (u64 list \<times> u64) option" where
  "mp_add_mul1 m tabr taba n b =
     for_up 0 n (\<lambda>i (m, l). do {
       x \<leftarrow> mem_get m (taba + i);
       y \<leftarrow> mem_get m (tabr + i);
       let t = (ucast x * ucast b + ucast l + ucast y :: u128);
       m \<leftarrow> mem_set m (tabr + i) (ucast t);
       Some (m, ucast (drop_bit 64 t)) }) (m, 0)"

definition mp_mul_basecase :: "u64 list \<Rightarrow> nat \<Rightarrow> nat \<Rightarrow> nat \<Rightarrow> nat \<Rightarrow> nat \<Rightarrow> u64 list option" where
  "mp_mul_basecase m result op1 op1_size op2 op2_size = do {
     b \<leftarrow> mem_get m op2;
     (m, r) \<leftarrow> mp_mul1 m result op1 op1_size b 0;
     m \<leftarrow> mem_set m (result + op1_size) r;
     for_up 1 (op2_size - 1) (\<lambda>i m. do {
       b \<leftarrow> mem_get m (op2 + i);
       (m, r) \<leftarrow> mp_add_mul1 m (result + i) op1 op1_size b;
       mem_set m (result + (i + op1_size)) r }) m }"

definition mp_sub_mul1 :: "u64 list \<Rightarrow> nat \<Rightarrow> nat \<Rightarrow> nat \<Rightarrow> u64 \<Rightarrow> (u64 list \<times> u64) option" where
  "mp_sub_mul1 m tabr taba n b =
     for_up 0 n (\<lambda>i (m, l). do {
       y \<leftarrow> mem_get m (tabr + i);
       x \<leftarrow> mem_get m (taba + i);
       let t = (ucast y - ucast x * ucast b - ucast l :: u128);
       m \<leftarrow> mem_set m (tabr + i) (ucast t);
       Some (m, ucast (- drop_bit 64 t)) }) (m, 0)"

subsection \<open>Division\<close>

definition udiv1norm_init :: "u64 \<Rightarrow> u64 option" where
  "udiv1norm_init d =
     (if d = 0 then None
      else let a1 = - d - 1; a0 = (- 1 :: u64)
           in Some (ucast ((push_bit 64 (ucast a1) OR ucast a0 :: u128) div ucast d)))"

definition udiv1norm :: "u64 \<Rightarrow> u64 \<Rightarrow> u64 \<Rightarrow> u64 \<Rightarrow> u64 \<times> u64" where
  "udiv1norm a1 a0 d d_inv =
     (let n1m = signed_drop_bit 63 a0;
          n_adj = a0 + (n1m AND d);
          a = (ucast d_inv * ucast (a1 - n1m) + ucast n_adj :: u128);
          q = ucast (drop_bit 64 a) + a1;
          a = (push_bit 64 (ucast a1) OR ucast a0 :: u128);
          a = a - ucast q * ucast d - ucast d;
          ah = ucast (drop_bit 64 a);
          q = q + (1 + ah);
          r = ucast a + (ah AND d)
      in (q, r))"

definition UDIV1NORM_THRESHOLD :: nat where
  "UDIV1NORM_THRESHOLD = 3"

definition udiv2 :: "u64 \<Rightarrow> u64 \<Rightarrow> u64 \<Rightarrow> (u64 \<times> u64) option" where
  "udiv2 a1 a0 b =
     (if b = 0 then None
      else let a = (push_bit 64 (ucast a1) OR ucast a0 :: u128)
           in Some (ucast (a div ucast b), ucast (a mod ucast b)))"

definition mp_div1norm :: "u64 list \<Rightarrow> nat \<Rightarrow> nat \<Rightarrow> nat \<Rightarrow> u64 \<Rightarrow> u64 \<Rightarrow> (u64 list \<times> u64) option" where
  "mp_div1norm m tabr taba n b r =
     (if n \<ge> UDIV1NORM_THRESHOLD then do {
        b_inv \<leftarrow> udiv1norm_init b;
        for_down n (\<lambda>i (m, r). do {
          x \<leftarrow> mem_get m (taba + i);
          let (q, r) = udiv1norm r x b b_inv;
          m \<leftarrow> mem_set m (tabr + i) q;
          Some (m, r) }) (m, r) }
      else
        for_down n (\<lambda>i (m, r). do {
          x \<leftarrow> mem_get m (taba + i);
          (q, r) \<leftarrow> udiv2 r x b;
          m \<leftarrow> mem_set m (tabr + i) q;
          Some (m, r) }) (m, r))"

subsection \<open>Numbers\<close>

definition base :: nat where
  "base = 2 ^ 64"

fun num :: "u64 list \<Rightarrow> nat" where
  "num [] = 0"
| "num (w # ws) = unat w + base * num ws"

definition limbs :: "u64 list \<Rightarrow> nat \<Rightarrow> nat \<Rightarrow> u64 list" where
  "limbs m p n = take n (drop p m)"

definition same_outside :: "u64 list \<Rightarrow> u64 list \<Rightarrow> nat \<Rightarrow> nat \<Rightarrow> bool" where
  "same_outside m m' p n \<longleftrightarrow> length m' = length m \<and> (\<forall>j. j < p \<or> p + n \<le> j \<longrightarrow> m' ! j = m ! j)"

text \<open>A write to \<open>res\<close> at the pace of the reads from \<open>op\<close> never spoils a limb still to be read.\<close>

definition keeps_ahead :: "nat \<Rightarrow> nat \<Rightarrow> nat \<Rightarrow> bool" where
  "keeps_ahead res op n \<longleftrightarrow> res \<le> op \<or> op + n \<le> res"

lemma base_pos [simp]: "0 < base" "1 < base" "2 < base" "base \<noteq> 0" "Suc 0 < base"
  by (simp_all add: base_def)

lemma unat_base: "unat (w :: u64) < base"
  unfolding base_def by (rule less_le_trans [OF unat_u64_less]) simp

lemma num_append: "num (xs @ ys) = num xs + base ^ length xs * num ys"
  by (induction xs) (simp_all add: algebra_simps)

lemma num_less: "num xs < base ^ length xs"
proof (induction xs)
  case (Cons w ws)
  have "unat w + base * num ws < base + base * num ws" by (simp add: unat_base)
  also have "\<dots> = base * Suc (num ws)" by simp
  also have "\<dots> \<le> base * base ^ length ws" using Cons by (intro mult_le_mono2) simp
  finally show ?case by simp
qed simp

lemma limbs_0 [simp]: "limbs m p 0 = []"
  by (simp add: limbs_def)

lemma limbs_Suc: "p + n < length m \<Longrightarrow> limbs m p (Suc n) = limbs m p n @ [m ! (p + n)]"
  by (simp add: limbs_def take_Suc_conv_app_nth)

lemma limbs_Cons: "p < length m \<Longrightarrow> limbs m p (Suc n) = m ! p # limbs m (Suc p) n"
  by (simp add: limbs_def Cons_nth_drop_Suc [symmetric])

lemma length_limbs [simp]: "p + n \<le> length m \<Longrightarrow> length (limbs m p n) = n"
  by (simp add: limbs_def)

lemma nth_limbs [simp]: "p + n \<le> length m \<Longrightarrow> i < n \<Longrightarrow> limbs m p n ! i = m ! (p + i)"
  by (simp add: limbs_def)

lemma limbs_cong:
  "length m' = length m \<Longrightarrow> (\<And>j. p \<le> j \<Longrightarrow> j < p + n \<Longrightarrow> m' ! j = m ! j) \<Longrightarrow> limbs m' p n = limbs m p n"
  unfolding limbs_def by (intro nth_equalityI) auto

lemma limbs_update [simp]: "j < p \<or> p + n \<le> j \<Longrightarrow> limbs (m[j := x]) p n = limbs m p n"
  by (intro limbs_cong) auto

lemma num_limbs_Suc:
  "p + n < length m \<Longrightarrow> num (limbs m p (Suc n)) = num (limbs m p n) + base ^ n * unat (m ! (p + n))"
  by (simp add: limbs_Suc num_append)

lemma num_limbs_Cons:
  "p < length m \<Longrightarrow> num (limbs m p (Suc n)) = unat (m ! p) + base * num (limbs m (Suc p) n)"
  by (simp add: limbs_Cons)

lemma limbs_split: "limbs m p (n + k) = limbs m p n @ limbs m (p + n) k"
  by (simp add: limbs_def take_add add.commute [of p n])

lemma same_outside_refl [simp]: "same_outside m m p n"
  by (simp add: same_outside_def)

lemma same_outsideD:
  "same_outside m m' p n \<Longrightarrow> length m' = length m"
  "same_outside m m' p n \<Longrightarrow> j < p \<or> p + n \<le> j \<Longrightarrow> m' ! j = m ! j"
  by (auto simp: same_outside_def)

lemma same_outside_update: "same_outside m m' p n \<Longrightarrow> p \<le> j \<Longrightarrow> j < p + k \<Longrightarrow> n \<le> k \<Longrightarrow> same_outside m (m'[j := x]) p k"
  by (auto simp: same_outside_def)

lemma same_outside_limbs: "same_outside m m' p n \<Longrightarrow> q + k \<le> p \<or> p + n \<le> q \<Longrightarrow> limbs m' q k = limbs m q k"
  by (intro limbs_cong) (auto simp: same_outside_def)

lemma unat_add_base: "unat (x + y :: u64) = (unat x + unat y) mod base"
  by (simp add: unat_word_ariths base_def)

lemma unat_of_nat_base: "unat (word_of_nat n :: u64) = n mod base"
  by (simp add: base_def unsigned_of_nat take_bit_eq_mod)

lemma unat_sub_base: "unat (x - y :: u64) = (base + unat x - unat y) mod base"
proof -
  have "word_of_nat base = (0 :: u64)" by (simp add: base_def)
  moreover have "unat y \<le> base + unat x" using unat_base [of y] by linarith
  ultimately have "word_of_nat (base + unat x - unat y) = x - y" by (simp add: of_nat_diff)
  then show ?thesis by (metis unat_of_nat_base)
qed

lemma mod_base_cases: "n < 2 * base \<Longrightarrow> n mod base = (if n < base then n else n - base)"
  by (simp add: mod_if)

lemma add_overflow: "unat (x + y :: u64) = (if unat x + unat y < base then unat x + unat y else unat x + unat y - base)"
  "x + y < x \<longleftrightarrow> base \<le> unat x + unat y" "x + y < y \<longleftrightarrow> base \<le> unat x + unat y"
proof -
  have "unat x + unat y < 2 * base" using unat_base [of x] unat_base [of y] by linarith
  then show e: "unat (x + y) = (if unat x + unat y < base then unat x + unat y else unat x + unat y - base)"
    by (simp only: unat_add_base mod_base_cases)
  show "x + y < x \<longleftrightarrow> base \<le> unat x + unat y" "x + y < y \<longleftrightarrow> base \<le> unat x + unat y"
    using unat_base [of x] unat_base [of y] unfolding word_less_nat_alt e by (auto split: if_splits)
qed

lemma sub_borrow: "unat (x - y :: u64) = (if unat y \<le> unat x then unat x - unat y else base + unat x - unat y)"
  "x < x - y \<longleftrightarrow> unat x < unat y"
proof -
  have "base + unat x - unat y < 2 * base" using unat_base [of x] by linarith
  then have "unat (x - y) = (if base + unat x - unat y < base then base + unat x - unat y else base + unat x - unat y - base)"
    by (simp only: unat_sub_base mod_base_cases)
  then show e: "unat (x - y) = (if unat y \<le> unat x then unat x - unat y else base + unat x - unat y)"
    using unat_base [of y] by (auto split: if_splits)
  show "x < x - y \<longleftrightarrow> unat x < unat y"
    using unat_base [of y] unat_base [of x] unfolding word_less_nat_alt e by (auto split: if_splits)
qed

lemma unat_bool_limb [simp]: "unat (bool_limb b) = (if b then 1 else 0)"
  by (simp add: bool_limb_def)

lemma add_step:
  fixes v y k :: u64
  assumes "unat k \<le> 1"
  shows "unat (v + y + k) + base * unat (bool_limb (v + y + k < k \<or> v + y < v)) = unat v + unat y + unat k"
  using assms unat_base [of v] unat_base [of y] base_pos(3)
  by (auto simp: add_overflow)

lemma sub_step:
  fixes v y k :: u64
  assumes "unat k \<le> 1"
  shows "unat (v - y - k) + unat y + unat k = unat v + base * unat (bool_limb (v - y < v - y - k \<or> v < v - y))"
  using assms unat_base [of v] unat_base [of y] base_pos(3)
  by (auto simp: sub_borrow)

subsection \<open>Sums and differences\<close>

text \<open>
  The common shape of the loops: iteration \<open>i\<close> writes one limb at \<open>res + i\<close>, the rest of the
  memory stays as it was, and \<open>R\<close> relates the number written so far and the carry.
\<close>

lemma limb_loop_rule:
  assumes len: "res + n \<le> length m" and init: "R 0 0 k"
    and step: "\<And>i mi k. i < n \<Longrightarrow> same_outside m mi res i \<Longrightarrow> R i (num (limbs mi res i)) k \<Longrightarrow>
      \<exists>w k'. f i (mi, k) = Some (mi[res + i := w], k') \<and> R (Suc i) (num (limbs mi res i) + base ^ i * unat w) k'"
  shows "\<exists>m' k'. for_up 0 n f (m, k) = Some (m', k') \<and> same_outside m m' res n \<and> R n (num (limbs m' res n)) k'"
proof -
  let ?P = "\<lambda>i (mi, k). same_outside m mi res i \<and> R i (num (limbs mi res i)) k"
  have "\<exists>s'. for_up 0 n f (m, k) = Some s' \<and> ?P (0 + n) s'"
  proof (rule for_up_rule)
    show "?P 0 (m, k)" using init by simp
  next
    fix i s
    assume i: "0 \<le> i" "i < 0 + n" and "?P i s"
    then obtain mi k where s: "s = (mi, k)" "same_outside m mi res i" "R i (num (limbs mi res i)) k" by auto
    from step [OF _ s(2,3)] i(2) obtain w k' where f: "f i (mi, k) = Some (mi[res + i := w], k')"
      "R (Suc i) (num (limbs mi res i) + base ^ i * unat w) k'" by auto
    have "res + i < length mi" using len i(2) same_outsideD(1) [OF s(2)] by simp
    then have "num (limbs (mi[res + i := w]) res (Suc i)) = num (limbs mi res i) + base ^ i * unat w"
      by (simp add: num_limbs_Suc)
    moreover have "same_outside m (mi[res + i := w]) res (Suc i)"
      by (rule same_outside_update [OF s(2)]) simp_all
    ultimately show "\<exists>s'. f i s = Some s' \<and> ?P (Suc i) s'" using f s(1) by simp
  qed
  then show ?thesis by auto
qed

text \<open>A read ahead of the writes sees the memory of the call.\<close>

lemma read_ahead:
  assumes "same_outside m mi res i" "keeps_ahead res op n" "i < n" "op + n \<le> length m"
  shows "mem_get mi (op + i) = Some (m ! (op + i))"
  using assms by (auto simp: mem_get_def same_outside_def keeps_ahead_def)

lemma carry_sum:
  fixes N :: nat
  assumes "N + P * k = A + C + c" "w + b * k' = v + y + k"
  shows "N + P * w + b * P * k' = A + P * v + (C + P * y) + c"
proof -
  have "N + P * w + b * P * k' = N + P * (w + b * k')" by (simp add: algebra_simps)
  also have "\<dots> = (N + P * k) + P * v + P * y" unfolding assms(2) by (simp add: algebra_simps)
  finally show ?thesis unfolding assms(1) by simp
qed

lemma carry_difference:
  fixes N :: nat
  assumes "N + C + c = A + P * k" "w + y + k = v + b * k'"
  shows "N + P * w + (C + P * y) + c = A + P * v + b * P * k'"
proof -
  have "N + P * w + (C + P * y) + c = (N + C + c) + P * w + P * y" by simp
  also have "\<dots> = A + P * (w + y + k)" unfolding assms(1) by (simp add: algebra_simps)
  finally show ?thesis unfolding assms(2) by (simp add: algebra_simps)
qed

lemma mp_add_num:
  assumes len: "res + n \<le> length m" "op1 + n \<le> length m" "op2 + n \<le> length m"
    and ahead: "keeps_ahead res op1 n" "keeps_ahead res op2 n" and carry: "unat carry \<le> 1"
  shows "\<exists>m' k. mp_add m res op1 op2 n carry = Some (m', k) \<and> same_outside m m' res n \<and> unat k \<le> 1 \<and>
    num (limbs m' res n) + base ^ n * unat k = num (limbs m op1 n) + num (limbs m op2 n) + unat carry"
  unfolding mp_add_def
proof (rule limb_loop_rule [where R = "\<lambda>i r (k :: u64). unat k \<le> 1 \<and>
      r + base ^ i * unat k = num (limbs m op1 i) + num (limbs m op2 i) + unat carry", OF len(1)], goal_cases)
  case 1
  then show ?case using carry by simp
next
  case (2 i mi k)
  let ?v = "m ! (op1 + i)" and ?y = "m ! (op2 + i)"
  let ?k = "bool_limb (?v + ?y + k < k \<or> ?v + ?y < ?v)"
  have "res + i < length mi" using len(1) 2(1) same_outsideD(1) [OF 2(2)] by simp
  then have "mem_set mi (res + i) (?v + ?y + k) = Some (mi[res + i := ?v + ?y + k])" by (rule mem_set_in)
  moreover have "num (limbs mi res i) + base ^ i * unat (?v + ?y + k) + base * base ^ i * unat ?k =
      num (limbs m op1 i) + base ^ i * unat ?v + (num (limbs m op2 i) + base ^ i * unat ?y) + unat carry"
    by (rule carry_sum [OF 2(3) [THEN conjunct2] add_step [OF 2(3) [THEN conjunct1]]])
  moreover have "op1 + i < length m" "op2 + i < length m" using len 2(1) by simp_all
  ultimately show ?case
    using read_ahead [OF 2(2) ahead(1) 2(1) len(2)] read_ahead [OF 2(2) ahead(2) 2(1) len(3)] 2(3)
    by (intro exI [of _ "?v + ?y + k"] exI [of _ ?k]) (simp add: num_limbs_Suc)
qed

lemma mp_sub_num:
  assumes len: "res + n \<le> length m" "op1 + n \<le> length m" "op2 + n \<le> length m" "n < 2 ^ 31"
    and ahead: "keeps_ahead res op1 n" "keeps_ahead res op2 n" and carry: "unat carry \<le> 1"
  shows "\<exists>m' k. mp_sub m res op1 op2 n carry = Some (m', k) \<and> same_outside m m' res n \<and> unat k \<le> 1 \<and>
    num (limbs m' res n) + num (limbs m op2 n) + unat carry = num (limbs m op1 n) + base ^ n * unat k"
  unfolding mp_sub_def if_not_P [OF less_le_not_le [THEN iffD1, THEN conjunct2, OF len(4)]]
proof (rule limb_loop_rule [where R = "\<lambda>i r (k :: u64). unat k \<le> 1 \<and>
      r + num (limbs m op2 i) + unat carry = num (limbs m op1 i) + base ^ i * unat k", OF len(1)], goal_cases)
  case 1
  then show ?case using carry by simp
next
  case (2 i mi k)
  let ?v = "m ! (op1 + i)" and ?y = "m ! (op2 + i)"
  let ?k = "bool_limb (?v - ?y < ?v - ?y - k \<or> ?v < ?v - ?y)"
  have "res + i < length mi" using len(1) 2(1) same_outsideD(1) [OF 2(2)] by simp
  then have "mem_set mi (res + i) (?v - ?y - k) = Some (mi[res + i := ?v - ?y - k])" by (rule mem_set_in)
  moreover have "num (limbs mi res i) + base ^ i * unat (?v - ?y - k) + (num (limbs m op2 i) + base ^ i * unat ?y) + unat carry =
      num (limbs m op1 i) + base ^ i * unat ?v + base * base ^ i * unat ?k"
    by (rule carry_difference [OF 2(3) [THEN conjunct2] sub_step [OF 2(3) [THEN conjunct1]]])
  moreover have "op1 + i < length m" "op2 + i < length m" using len 2(1) by simp_all
  ultimately show ?case
    using read_ahead [OF 2(2) ahead(1) 2(1) len(2)] read_ahead [OF 2(2) ahead(2) 2(1) len(3)] 2(3)
    by (intro exI [of _ "?v - ?y - k"] exI [of _ ?k]) (simp add: num_limbs_Suc)
qed

lemma mp_neg_num:
  assumes len: "res + n \<le> length m" "op2 + n \<le> length m" "n < 2 ^ 31"
    and ahead: "keeps_ahead res op2 n" and carry: "unat carry \<le> 1"
  shows "\<exists>m' k. mp_neg m res op2 n carry = Some (m', k) \<and> same_outside m m' res n \<and> unat k \<le> 1 \<and>
    num (limbs m' res n) + num (limbs m op2 n) + unat carry = base ^ n * unat k"
  unfolding mp_neg_def if_not_P [OF less_le_not_le [THEN iffD1, THEN conjunct2, OF len(3)]]
proof (rule limb_loop_rule [where R = "\<lambda>i r (k :: u64). unat k \<le> 1 \<and>
      r + num (limbs m op2 i) + unat carry = base ^ i * unat k", OF len(1)], goal_cases)
  case 1
  then show ?case using carry by simp
next
  case (2 i mi k)
  let ?y = "m ! (op2 + i)"
  let ?k = "bool_limb (0 - ?y < 0 - ?y - k \<or> 0 < 0 - ?y)"
  have z: "num (limbs mi res i) + num (limbs m op2 i) + unat carry = 0 + base ^ i * unat k" using 2(3) by simp
  have "res + i < length mi" using len(1) 2(1) same_outsideD(1) [OF 2(2)] by simp
  then have "mem_set mi (res + i) (0 - ?y - k) = Some (mi[res + i := 0 - ?y - k])" by (rule mem_set_in)
  moreover have "num (limbs mi res i) + base ^ i * unat (0 - ?y - k) + (num (limbs m op2 i) + base ^ i * unat ?y) + unat carry =
      0 + base ^ i * unat (0 :: u64) + base * base ^ i * unat ?k"
    by (rule carry_difference [OF z sub_step [OF 2(3) [THEN conjunct1]]])
  moreover have "op2 + i < length m" using len 2(1) by simp_all
  ultimately show ?case
    using read_ahead [OF 2(2) ahead 2(1) len(2)] 2(3)
    by (intro exI [of _ "0 - ?y - k"] exI [of _ ?k]) (simp add: num_limbs_Suc Let_def del: diff_0)
qed

lemma add_ui_loop_num:
  "p + c \<le> length m \<Longrightarrow> \<exists>m' k'. add_ui_loop m p c k = Some (m', k') \<and> same_outside m m' p c \<and>
     num (limbs m' p c) + base ^ c * unat k' = num (limbs m p c) + unat k"
proof (induction c arbitrary: m p k)
  case (Suc c)
  show ?case
  proof (cases "k = 0")
    case True
    then show ?thesis by simp
  next
    case False
    define a where "a = m ! p + k"
    have p: "p < length m" "Suc p + c \<le> length (m[p := a])" using Suc.prems by simp_all
    from Suc.IH [OF p(2), of "bool_limb (a < k)"] obtain m' k' where ih:
      "add_ui_loop (m[p := a]) (Suc p) c (bool_limb (a < k)) = Some (m', k')" "same_outside (m[p := a]) m' (Suc p) c"
      "num (limbs m' (Suc p) c) + base ^ c * unat k' = num (limbs m (Suc p) c) + unat (bool_limb (a < k))"
      by auto
    have m': "m' ! p = a" "length m' = length m" using ih(2) p(1) by (simp_all add: same_outside_def)
    have "unat a + base * unat (bool_limb (a < k)) = unat (m ! p) + unat k"
      unfolding a_def using add_step [of 0 "m ! p" k] unat_base [of "m ! p"] unat_base [of k]
      by (auto simp: add_overflow)
    moreover have "base * (num (limbs m' (Suc p) c) + base ^ c * unat k') =
        base * (num (limbs m (Suc p) c) + unat (bool_limb (a < k)))" using ih(3) by simp
    ultimately have "num (limbs m' p (Suc c)) + base ^ Suc c * unat k' = num (limbs m p (Suc c)) + unat k"
      using p(1) m' by (simp add: num_limbs_Cons algebra_simps)
    moreover have "same_outside m m' p (Suc c)" using ih(2) by (auto simp: same_outside_def)
    ultimately show ?thesis
      using False p(1) ih(1) by (simp add: mem_simps flip: a_def)
  qed
qed simp

lemma mp_add_ui_num:
  "tab + n \<le> length m \<Longrightarrow> \<exists>m' k. mp_add_ui m tab b n = Some (m', k) \<and> same_outside m m' tab n \<and>
     num (limbs m' tab n) + base ^ n * unat k = num (limbs m tab n) + unat b"
  unfolding mp_add_ui_def by (rule add_ui_loop_num)

lemma sub_ui_loop_num:
  "p + c \<le> length m \<Longrightarrow> \<exists>m' k'. sub_ui_loop m p c k = Some (m', k') \<and> same_outside m m' p c \<and>
     num (limbs m' p c) + unat k = num (limbs m p c) + base ^ c * unat k'"
proof (induction c arbitrary: m p k)
  case (Suc c)
  define a where "a = m ! p - k"
  have p: "p < length m" "Suc p + c \<le> length (m[p := a])" using Suc.prems by simp_all
  have a: "unat a + unat k = unat (m ! p) + base * unat (bool_limb (m ! p < a))"
    unfolding a_def using unat_base [of "m ! p"] unat_base [of k] by (auto simp: sub_borrow)
  show ?case
  proof (cases "a > m ! p")
    case True
    from Suc.IH [OF p(2), of 1] obtain m' k' where ih:
      "sub_ui_loop (m[p := a]) (Suc p) c 1 = Some (m', k')" "same_outside (m[p := a]) m' (Suc p) c"
      "num (limbs m' (Suc p) c) + 1 = num (limbs m (Suc p) c) + base ^ c * unat k'"
      by auto
    have m': "m' ! p = a" "length m' = length m" using ih(2) p(1) by (simp_all add: same_outside_def)
    have "base * (num (limbs m' (Suc p) c) + 1) = base * (num (limbs m (Suc p) c) + base ^ c * unat k')"
      using ih(3) by simp
    then have "num (limbs m' p (Suc c)) + unat k = num (limbs m p (Suc c)) + base ^ Suc c * unat k'"
      using p(1) m' a True by (simp add: num_limbs_Cons algebra_simps)
    moreover have "same_outside m m' p (Suc c)" using ih(2) by (auto simp: same_outside_def)
    ultimately show ?thesis
      using True p(1) ih(1) by (simp add: mem_simps flip: a_def)
  next
    case False
    then have "num (limbs (m[p := a]) p (Suc c)) + unat k = num (limbs m p (Suc c))"
      using p(1) a by (simp add: num_limbs_Cons)
    moreover have "same_outside m (m[p := a]) p (Suc c)" by (simp add: same_outside_def)
    ultimately show ?thesis using False p(1) by (simp add: mem_simps flip: a_def)
  qed
qed simp

lemma mp_sub_ui_num:
  "tab + n \<le> length m \<Longrightarrow> \<exists>m' k. mp_sub_ui m tab b n = Some (m', k) \<and> same_outside m m' tab n \<and>
     num (limbs m' tab n) + unat b = num (limbs m tab n) + base ^ n * unat k"
  unfolding mp_sub_ui_def by (rule sub_ui_loop_num)

lemma mp_scan_nz_num:
  "tab + n \<le> length m \<Longrightarrow> mp_scan_nz m tab n = Some (if num (limbs m tab n) = 0 then 0 else 1)"
proof (induction n arbitrary: tab)
  case (Suc n)
  then have "tab < length m" "Suc tab + n \<le> length m" by simp_all
  with Suc.IH [of "Suc tab"] show ?case
    by (simp add: mem_simps num_limbs_Cons unat_eq_0)
qed simp

lemma less_digit: "a < P \<Longrightarrow> b < P \<Longrightarrow> a + P * x < b + P * y \<longleftrightarrow> (x < y \<or> x = y \<and> a < (b :: nat))"
proof -
  assume ab: "a < P" "b < P"
  consider "x < y" | "x = y" | "y < x" by linarith
  then show ?thesis
  proof cases
    case 1
    then have "P * Suc x \<le> P * y" by (intro mult_le_mono2) simp
    with 1 ab show ?thesis by simp
  next
    case 3
    then have "P * Suc y \<le> P * x" by (intro mult_le_mono2) simp
    with 3 ab show ?thesis by simp
  qed simp
qed

lemma mp_cmp_num:
  "taba + n \<le> length m \<Longrightarrow> tabb + n \<le> length m \<Longrightarrow>
     mp_cmp m taba tabb n = Some (sgn (int (num (limbs m taba n)) - int (num (limbs m tabb n))))"
proof (induction n)
  case (Suc n)
  then have l: "taba + n < length m" "tabb + n < length m" by simp_all
  let ?a = "num (limbs m taba n)" and ?b = "num (limbs m tabb n)"
  have less: "?a < base ^ n" "?b < base ^ n"
    using num_less [of "limbs m taba n"] num_less [of "limbs m tabb n"] l by simp_all
  note cmp = less_digit [OF less(1,2)] less_digit [OF less(2,1)]
  have sgn: "sgn (int x - int y) = (if x < y then -1 else if y < x then 1 else 0)" for x y
    by (simp add: sgn_if)
  let ?x = "m ! (taba + n)" and ?y = "m ! (tabb + n)"
  have rhs: "sgn (int (num (limbs m taba (Suc n))) - int (num (limbs m tabb (Suc n)))) =
      (if unat ?x < unat ?y \<or> unat ?x = unat ?y \<and> ?a < ?b then -1
       else if unat ?y < unat ?x \<or> unat ?y = unat ?x \<and> ?b < ?a then 1 else 0)"
    unfolding num_limbs_Suc [OF l(1)] num_limbs_Suc [OF l(2)] sgn cmp ..
  show ?case
  proof (cases "?x = ?y")
    case True
    with Suc l show ?thesis unfolding rhs by (simp add: mem_simps sgn)
  next
    case False
    then have "unat ?x \<noteq> unat ?y" by (simp add: word_unat_eq_iff)
    with False l show ?thesis unfolding rhs by (auto simp: mem_simps word_less_nat_alt)
  qed
qed simp

subsection \<open>Products\<close>

lemma unat_ucast_128 [simp]: "unat (ucast (w :: u64) :: u128) = unat w"
proof -
  have "unat w < 2 ^ 128" by (rule less_le_trans [OF unat_u64_less]) simp
  then show ?thesis by (simp add: unsigned_ucast_eq take_bit_nat_eq_self)
qed

lemma base_128: "base * base = 2 ^ 128"
  by (simp add: base_def)

lemma unat_low_128: "unat (ucast (t :: u128) :: u64) = unat t mod base"
  by (simp add: unsigned_ucast_eq take_bit_eq_mod base_def)

lemma unat_high_128: "unat (ucast (drop_bit 64 (t :: u128)) :: u64) = unat t div base"
proof -
  have "unat t < base * base" unfolding base_128 using unsigned_less [of t, where 'a = nat] by simp
  then have "unat t div base < base" by (simp add: less_mult_imp_div_less)
  then show ?thesis unfolding unat_low_128 by (simp add: unat_drop_bit base_def)
qed

lemma product_bound: "unat (x :: u64) * unat (b :: u64) + unat (l :: u64) + unat (y :: u64) < base * base"
proof -
  obtain c where c: "base = Suc c" using base_pos(1) gr0_implies_Suc by blast
  have "unat x \<le> c" "unat b \<le> c" "unat l \<le> c" "unat y \<le> c" using unat_base c less_Suc_eq_le by metis+
  then have "unat x * unat b + unat l + unat y \<le> c * c + c + c" by (intro add_mono mult_mono) simp_all
  then show ?thesis by (simp add: c)
qed

lemma unat_product:
  "unat (ucast x * ucast b + ucast l + ucast y :: u128) = unat (x :: u64) * unat (b :: u64) + unat (l :: u64) + unat (y :: u64)"
proof -
  note bound = product_bound [of x b l y, unfolded base_128]
  have "unat (ucast x * ucast b :: u128) = unat x * unat b"
    using bound by (subst unat_mult_small) simp_all
  moreover from this have "unat (ucast x * ucast b + ucast l :: u128) = unat x * unat b + unat l"
    using bound by (subst unat_plus_small) simp_all
  ultimately show ?thesis
    using bound by (subst unat_plus_small) simp_all
qed

lemma mul_step:
  fixes x b l y :: u64
  defines "t \<equiv> (ucast x * ucast b + ucast l + ucast y :: u128)"
  shows "unat (ucast t :: u64) + base * unat (ucast (drop_bit 64 t) :: u64) = unat x * unat b + unat l + unat y"
  unfolding unat_high_128 unfolding unat_low_128 t_def unat_product by simp

lemma mp_mul1_num:
  assumes len: "tabr + n \<le> length m" "taba + n \<le> length m" and ahead: "keeps_ahead tabr taba n"
  shows "\<exists>m' k. mp_mul1 m tabr taba n b l = Some (m', k) \<and> same_outside m m' tabr n \<and>
    num (limbs m' tabr n) + base ^ n * unat k = num (limbs m taba n) * unat b + unat l"
  unfolding mp_mul1_def
proof (rule limb_loop_rule [where R = "\<lambda>i r (k :: u64). r + base ^ i * unat k = num (limbs m taba i) * unat b + unat l",
      OF len(1)], goal_cases)
  case 1
  then show ?case by simp
next
  case (2 i mi k)
  let ?x = "m ! (taba + i)"
  define t where "t = (ucast ?x * ucast b + ucast k :: u128)"
  have "res + i < length mi" if "res = tabr" for res using len(1) 2(1) same_outsideD(1) [OF 2(2)] that by simp
  then have set: "mem_set mi (tabr + i) (ucast t) = Some (mi[tabr + i := ucast t])" by (intro mem_set_in) simp
  have t: "unat (ucast t :: u64) + base * unat (ucast (drop_bit 64 t) :: u64) = unat ?x * unat b + unat k"
    unfolding t_def using mul_step [of ?x b k 0] by simp
  have "num (limbs mi tabr i) + base ^ i * unat (ucast t :: u64) + base * base ^ i * unat (ucast (drop_bit 64 t) :: u64) =
      num (limbs m taba i) * unat b + base ^ i * (unat ?x * unat b) + (0 + base ^ i * 0) + unat l"
    by (rule carry_sum) (use 2(3) t in simp_all)
  moreover have "taba + i < length m" using len 2(1) by simp
  ultimately show ?case
    using read_ahead [OF 2(2) ahead 2(1) len(2)] set
    by (intro exI [of _ "ucast t"] exI [of _ "ucast (drop_bit 64 t)"]) (simp add: num_limbs_Suc Let_def add_mult_distrib mult.assoc flip: t_def)
qed

lemma mp_add_mul1_num:
  assumes len: "tabr + n \<le> length m" "taba + n \<le> length m" and ahead: "keeps_ahead tabr taba n"
  shows "\<exists>m' k. mp_add_mul1 m tabr taba n b = Some (m', k) \<and> same_outside m m' tabr n \<and>
    num (limbs m' tabr n) + base ^ n * unat k = num (limbs m tabr n) + num (limbs m taba n) * unat b"
  unfolding mp_add_mul1_def
proof (rule limb_loop_rule [where R = "\<lambda>i r (k :: u64). r + base ^ i * unat k = num (limbs m tabr i) + num (limbs m taba i) * unat b",
      OF len(1)], goal_cases)
  case 1
  then show ?case by simp
next
  case (2 i mi k)
  let ?x = "m ! (taba + i)" and ?y = "m ! (tabr + i)"
  define t where "t = (ucast ?x * ucast b + ucast k + ucast ?y :: u128)"
  have l: "tabr + i < length mi" using len(1) 2(1) same_outsideD(1) [OF 2(2)] by simp
  then have set: "mem_set mi (tabr + i) (ucast t) = Some (mi[tabr + i := ucast t])" by (rule mem_set_in)
  have y: "mem_get mi (tabr + i) = Some ?y" using l same_outsideD(2) [OF 2(2), of "tabr + i"] by (simp add: mem_get_def)
  have t: "unat (ucast t :: u64) + base * unat (ucast (drop_bit 64 t) :: u64) = unat ?x * unat b + unat k + unat ?y"
    unfolding t_def by (rule mul_step)
  have "num (limbs mi tabr i) + base ^ i * unat (ucast t :: u64) + base * base ^ i * unat (ucast (drop_bit 64 t) :: u64) =
      num (limbs m tabr i) + base ^ i * unat ?y + (num (limbs m taba i) * unat b + base ^ i * (unat ?x * unat b)) + 0"
    by (rule carry_sum) (use 2(3) t in simp_all)
  moreover have "taba + i < length m" "tabr + i < length m" using len 2(1) by simp_all
  ultimately show ?case
    using read_ahead [OF 2(2) ahead 2(1) len(2)] set y
    by (intro exI [of _ "ucast t"] exI [of _ "ucast (drop_bit 64 t)"]) (simp add: num_limbs_Suc Let_def add_mult_distrib mult.assoc flip: t_def)
qed

lemma same_outside_trans:
  "same_outside m m' p n \<Longrightarrow> same_outside m' m'' q k \<Longrightarrow> p \<le> q \<Longrightarrow> n \<le> c \<Longrightarrow> q + k \<le> p + c \<Longrightarrow> same_outside m m'' p c"
  by (auto simp: same_outside_def)

lemma num_limbs_split: "p + n \<le> length m \<Longrightarrow> num (limbs m p (n + k)) = num (limbs m p n) + base ^ n * num (limbs m (p + n) k)"
  by (simp add: limbs_split num_append)

lemma mp_mul_basecase_num:
  assumes len: "result + (n + k) \<le> length m" "op1 + n \<le> length m" "op2 + k \<le> length m" "0 < k"
    and disjoint: "op1 + n \<le> result \<or> result + (n + k) \<le> op1" "op2 + k \<le> result \<or> result + (n + k) \<le> op2"
  shows "\<exists>m'. mp_mul_basecase m result op1 n op2 k = Some m' \<and> same_outside m m' result (n + k) \<and>
    num (limbs m' result (n + k)) = num (limbs m op1 n) * num (limbs m op2 k)"
proof -
  let ?P = "\<lambda>i mi. same_outside m mi result (n + i) \<and> num (limbs mi result (n + i)) = num (limbs m op1 n) * num (limbs m op2 i)"
  have ahead: "keeps_ahead (result + i) op1 n" if "i < k" for i
    using disjoint(1) that by (auto simp: keeps_ahead_def)
  obtain m1 r where m1: "mp_mul1 m result op1 n (m ! op2) 0 = Some (m1, r)" "same_outside m m1 result n"
    "num (limbs m1 result n) + base ^ n * unat r = num (limbs m op1 n) * unat (m ! op2) + unat (0 :: u64)"
    using mp_mul1_num [of result n m op1 "m ! op2" 0] ahead [of 0] len by auto
  let ?m2 = "m1[result + n := r]"
  have l1: "result + n < length m1" using len same_outsideD(1) [OF m1(2)] by simp
  have "num (limbs ?m2 result (n + 1)) = num (limbs m op1 n) * num (limbs m op2 1)"
    using l1 m1(3) len by (simp add: num_limbs_Suc num_limbs_Cons)
  moreover have "same_outside m ?m2 result (n + 1)"
    by (rule same_outside_update [OF m1(2)]) simp_all
  ultimately have P1: "?P 1 ?m2" by blast
  have "\<exists>m'. for_up 1 (k - 1) (\<lambda>i m. do {
       b \<leftarrow> mem_get m (op2 + i);
       (m, r) \<leftarrow> mp_add_mul1 m (result + i) op1 n b;
       mem_set m (result + (i + n)) r }) ?m2 = Some m' \<and> ?P (1 + (k - 1)) m'"
  proof (rule for_up_rule [where P = ?P, OF P1], goal_cases)
    case (1 i mi)
    then have i: "i < k" and P: "same_outside m mi result (n + i)"
      "num (limbs mi result (n + i)) = num (limbs m op1 n) * num (limbs m op2 i)" by auto
    note lmi = same_outsideD(1) [OF P(1)]
    have b: "mem_get mi (op2 + i) = Some (m ! (op2 + i))"
      using same_outsideD(2) [OF P(1), of "op2 + i"] disjoint(2) i len(3) lmi by (auto simp: mem_get_def)
    have op1: "limbs mi op1 n = limbs m op1 n"
      using disjoint(1) i by (intro same_outside_limbs [OF P(1)]) auto
    obtain m3 r3 where m3: "mp_add_mul1 mi (result + i) op1 n (m ! (op2 + i)) = Some (m3, r3)"
      "same_outside mi m3 (result + i) n"
      "num (limbs m3 (result + i) n) + base ^ n * unat r3 =
         num (limbs mi (result + i) n) + num (limbs m op1 n) * unat (m ! (op2 + i))"
      using mp_add_mul1_num [of "result + i" n mi op1 "m ! (op2 + i)"] ahead [OF i] len i lmi unfolding op1 by auto
    let ?m4 = "m3[result + (i + n) := r3]"
    have l3: "result + (i + n) < length m3" using len i lmi same_outsideD(1) [OF m3(2)] by simp
    have lo: "limbs ?m4 result i = limbs mi result i"
      using same_outside_limbs [OF m3(2), of result i] by simp
    have hi: "num (limbs ?m4 (result + i) (Suc n)) = num (limbs m3 (result + i) n) + base ^ n * unat r3"
      using l3 num_limbs_Suc [of "result + i" n ?m4] by (simp add: add.assoc)
    have "num (limbs ?m4 result (n + Suc i)) = num (limbs mi result i) +
        base ^ i * (num (limbs mi (result + i) n) + num (limbs m op1 n) * unat (m ! (op2 + i)))"
      using num_limbs_split [of result i ?m4 "Suc n"] l3 unfolding lo hi m3(3) by (simp add: add.commute)
    also have "\<dots> = num (limbs mi result (n + i)) + base ^ i * (num (limbs m op1 n) * unat (m ! (op2 + i)))"
      using num_limbs_split [of result i mi n] len i lmi by (simp add: add.commute distrib_left)
    also have "\<dots> = num (limbs m op1 n) * num (limbs m op2 (Suc i))"
      using P(2) len(3) i by (simp add: num_limbs_Suc algebra_simps)
    finally have "num (limbs ?m4 result (n + Suc i)) = num (limbs m op1 n) * num (limbs m op2 (Suc i))" .
    moreover have "same_outside mi ?m4 (result + i) (Suc n)"
      by (rule same_outside_update [OF m3(2)]) simp_all
    then have "same_outside m ?m4 result (n + Suc i)"
      by (rule same_outside_trans [OF P(1)]) simp_all
    ultimately show ?case using b m3(1) l3 by (simp add: mem_simps)
  qed
  with len m1(1) l1 show ?thesis by (simp add: mp_mul_basecase_def mem_simps)
qed

lemma unat_of_nat_128: "unat (word_of_nat n :: u128) = n mod (base * base)"
  by (simp add: base_128 unsigned_of_nat take_bit_eq_mod)

lemma unat_less_128: "unat (w :: u128) < base * base"
  unfolding base_128 using unsigned_less [of w, where 'a = nat] by simp

lemma unat_sub_128: "unat (x - y :: u128) = (base * base + unat x - unat y) mod (base * base)"
proof -
  have "word_of_nat (base * base) = (0 :: u128)" by (simp add: base_def)
  moreover have "unat y \<le> base * base + unat x" using unat_less_128 [of y] by linarith
  ultimately have "word_of_nat (base * base + unat x - unat y) = x - y" by (simp add: of_nat_diff)
  then show ?thesis by (metis unat_of_nat_128)
qed

lemma sub_mul_step:
  fixes x b l y :: u64
  defines "t \<equiv> (ucast y - ucast x * ucast b - ucast l :: u128)"
  shows "unat (ucast t :: u64) + unat x * unat b + unat l = unat y + base * unat (ucast (- drop_bit 64 t) :: u64)"
proof -
  define s where "s = unat x * unat b + unat l"
  have s: "s + base \<le> base * base"
  proof -
    obtain c where c: "base = Suc c" using base_pos(1) gr0_implies_Suc by blast
    have "unat x \<le> c" "unat b \<le> c" "unat l \<le> c" using unat_base c less_Suc_eq_le by metis+
    then have "s \<le> c * c + c" unfolding s_def by (intro add_mono mult_mono) simp_all
    then show ?thesis by (simp add: c)
  qed
  have p: "unat (ucast x * ucast b + ucast l :: u128) = s"
    using unat_product [of x b l 0] by (simp add: s_def)
  have t: "unat t = (base * base + unat y - s) mod (base * base)"
    unfolding t_def diff_diff_eq unat_sub_128 p by simp
  define q where "q = unat t div base"
  have q: "unat t = q * base + unat t mod base" "q < base"
    using unat_less_128 [of t] by (simp_all add: q_def less_mult_imp_div_less)
  have "unat (drop_bit 64 t) = q" by (simp add: unat_drop_bit q_def base_def)
  then have "unat (- drop_bit 64 t) = (base * base - q) mod (base * base)"
    using unat_sub_128 [of 0 "drop_bit 64 t"] by simp
  then have "unat (ucast (- drop_bit 64 t) :: u64) = (base * base - q) mod base"
    unfolding unat_low_128 by (simp add: mod_mult2_eq)
  also have "base * base - q = (base - 1) * base + (base - q)"
    using q(2) by (simp add: diff_mult_distrib)
  finally have l': "unat (ucast (- drop_bit 64 t) :: u64) = (base - q) mod base" by simp
  show ?thesis
  proof (cases "s \<le> unat y")
    case True
    then have "unat t = unat y - s" using t unat_base [of y] mod_base_cases s by (simp add: le_mod_geq)
    then have "q = 0" "unat t < base" using unat_base [of y] by (simp_all add: q_def)
    with True \<open>unat t = unat y - s\<close> show ?thesis unfolding l' unfolding unat_low_128 by (simp add: s_def)
  next
    case False
    then have t': "unat t = base * base + unat y - s" using t s by simp
    then have "base \<le> unat t" using s by linarith
    then have "0 < q" using q(1) base_pos(1) by (metis add_0 mod_less_divisor mult_0 not_gr_zero not_le)
    then have "unat (ucast (- drop_bit 64 t) :: u64) = base - q" unfolding l' by simp
    moreover have "base * base = base * (base - q) + q * base"
      using q(2) by (metis add_diff_inverse_nat less_imp_le_nat mult.commute nat_less_le not_less add.commute distrib_left le_add_diff_inverse)
    moreover have "unat t mod base + s = base * base + unat y - q * base" using t' q(1) False s by linarith
    ultimately show ?thesis
      unfolding unat_low_128 [of t] by (simp add: s_def add.assoc)
  qed
qed

lemma mp_sub_mul1_num:
  assumes len: "tabr + n \<le> length m" "taba + n \<le> length m" and ahead: "keeps_ahead tabr taba n"
  shows "\<exists>m' k. mp_sub_mul1 m tabr taba n b = Some (m', k) \<and> same_outside m m' tabr n \<and>
    num (limbs m' tabr n) + num (limbs m taba n) * unat b = num (limbs m tabr n) + base ^ n * unat k"
  unfolding mp_sub_mul1_def
proof (rule limb_loop_rule [where R = "\<lambda>i r (k :: u64). r + num (limbs m taba i) * unat b = num (limbs m tabr i) + base ^ i * unat k",
      OF len(1)], goal_cases)
  case 1
  then show ?case by simp
next
  case (2 i mi k)
  let ?x = "m ! (taba + i)" and ?y = "m ! (tabr + i)"
  define t where "t = (ucast ?y - ucast ?x * ucast b - ucast k :: u128)"
  have l: "tabr + i < length mi" using len(1) 2(1) same_outsideD(1) [OF 2(2)] by simp
  then have set: "mem_set mi (tabr + i) (ucast t) = Some (mi[tabr + i := ucast t])" by (rule mem_set_in)
  have y: "mem_get mi (tabr + i) = Some ?y" using l same_outsideD(2) [OF 2(2), of "tabr + i"] by (simp add: mem_get_def)
  have t: "unat (ucast t :: u64) + unat ?x * unat b + unat k = unat ?y + base * unat (ucast (- drop_bit 64 t) :: u64)"
    unfolding t_def by (rule sub_mul_step)
  have "num (limbs mi tabr i) + base ^ i * unat (ucast t :: u64) + (num (limbs m taba i) * unat b + base ^ i * (unat ?x * unat b)) + 0 =
      num (limbs m tabr i) + base ^ i * unat ?y + base * base ^ i * unat (ucast (- drop_bit 64 t) :: u64)"
    by (rule carry_difference) (use 2(3) t in simp_all)
  moreover have "taba + i < length m" "tabr + i < length m" using len 2(1) by simp_all
  ultimately show ?case
    using read_ahead [OF 2(2) ahead 2(1) len(2)] set y
    by (intro exI [of _ "ucast t"] exI [of _ "ucast (- drop_bit 64 t)"])
      (simp add: num_limbs_Suc Let_def add_mult_distrib mult.assoc flip: t_def)
qed

subsection \<open>Quotients\<close>

text \<open>
  The estimate of \<open>udiv1norm\<close>: with \<open>v = (B\<^sup>2 - e) / d - B\<close> the quotient digit \<open>q\<close> is right or
  one too small.  \<open>n1\<close> is the top bit of the low digit.
\<close>

lemma udiv1_estimate:
  fixes B d a1 a0 v e n1 :: int
  assumes d: "B \<le> 2 * d" "d < B" and a: "0 \<le> a1" "a1 < d" "0 \<le> a0" "a0 < B"
    and n1: "n1 = 0 \<and> 2 * a0 < B \<or> n1 = 1 \<and> B \<le> 2 * a0"
    and v: "(v + B) * d = B * B - e" "1 \<le> e" "e \<le> d"
  defines "q \<equiv> (v * (a1 + n1) + (a0 + n1 * (d - B))) div B + a1"
  shows "0 \<le> a1 * B + a0 - q * d" "a1 * B + a0 - q * d < 2 * d"
proof -
  define A where "A = v * (a1 + n1) + (a0 + n1 * (d - B))"
  define ra where "ra = A mod B"
  have pos: "0 < B" "0 < d" using d a by linarith+
  have ra: "0 \<le> ra" "ra < B" "B * (A div B) = A - ra" using pos by (simp_all add: ra_def minus_mod_eq_mult_div)
  have "n1 * n1 = n1" using n1 by auto
  have "B * (a1 * B + a0 - q * d) = B * (a1 * B + a0) - d * (B * (A div B) + B * a1)"
    unfolding q_def A_def [symmetric] by (simp add: algebra_simps)
  also have "\<dots> = B * a1 * B + B * a0 - (v + B) * d * a1 - d * v * n1 - d * n1 * (d - B) - d * a0 + d * ra"
    unfolding ra(3) unfolding A_def by (simp add: algebra_simps)
  also have "d * v * n1 = ((v + B) * d - B * d) * n1" by (simp add: algebra_simps)
  finally have eq: "B * (a1 * B + a0 - q * d) =
      (B - d) * (a0 - n1 * (B - d)) + (a1 + n1) * e + d * ra"
    unfolding v(1) by (simp add: algebra_simps)
  have low: "0 \<le> a0 - n1 * (B - d)" using n1 d a by auto
  then have "0 \<le> B * (a1 * B + a0 - q * d)"
    unfolding eq using d a n1 v ra pos by (intro add_nonneg_nonneg mult_nonneg_nonneg) auto
  then show "0 \<le> a1 * B + a0 - q * d" using pos(1) by (simp add: zero_le_mult_iff)
  have "(B - d) * (a0 - n1 * (B - d)) \<le> (B - d) * (d - 1)"
    using n1 d a by (intro mult_left_mono) auto
  moreover have "(a1 + n1) * e \<le> d * d"
    using n1 a v pos by (intro mult_mono) auto
  moreover have "d * ra \<le> d * (B - 1)" using ra pos by (intro mult_left_mono) auto
  ultimately have "B * (a1 * B + a0 - q * d) \<le> (B - d) * (d - 1) + d * d + d * (B - 1)"
    unfolding eq by linarith
  also have "\<dots> = B * (2 * d) - B" by (simp add: algebra_simps)
  also have "\<dots> < B * (2 * d)" using pos by simp
  finally show "a1 * B + a0 - q * d < 2 * d" using pos(1) by (simp add: mult_less_cancel_left)
qed

lemma unat_join_128: "unat (push_bit 64 (ucast a1) OR ucast a0 :: u128) = unat (a1 :: u64) * base + unat (a0 :: u64)"
proof -
  have "take_bit 64 (push_bit 64 (ucast a1) :: u128) = 0" by (simp add: take_bit_push_bit)
  moreover have "unat a0 < 2 ^ 64" using unat_base [of a0] by (simp add: base_def)
  then have "drop_bit 64 (ucast a0 :: u128) = 0"
    by (metis div_less unat_drop_bit unat_eq_zero unat_ucast_128)
  ultimately have "ucast a0 OR push_bit 64 (ucast a1) = (ucast a0 + push_bit 64 (ucast a1) :: u128)"
    by (intro or_eq_plus_disjoint)
  moreover have "unat (push_bit 64 (ucast a1) :: u128) = unat a1 * base"
  proof -
    have "push_bit 64 (ucast a1 :: u128) = ucast a1 * word_of_nat base" by (simp add: push_bit_eq_mult base_def)
    moreover have "unat (word_of_nat base :: u128) = base" unfolding unat_of_nat_128 by simp
    moreover have "unat a1 * base < 2 ^ 128" using unat_base [of a1] unfolding base_128 [symmetric] by simp
    ultimately show ?thesis by (simp add: unat_mult_small)
  qed
  moreover have "unat a0 + unat a1 * base < base * base"
  proof -
    have "unat a0 + unat a1 * base < base + unat a1 * base" using unat_base [of a0] by simp
    also have "\<dots> = Suc (unat a1) * base" by simp
    also have "\<dots> \<le> base * base" using unat_base [of a1] by (intro mult_le_mono1) simp
    finally show ?thesis .
  qed
  ultimately show ?thesis
    by (simp add: unat_plus_small base_128 or.commute)
qed

definition reciprocal :: "u64 \<Rightarrow> u64 \<Rightarrow> bool" where
  "reciprocal d v \<longleftrightarrow> (\<exists>e. (unat v + base) * unat d + e = base * base \<and> 1 \<le> e \<and> e \<le> unat d)"

lemma udiv1norm_init_reciprocal:
  assumes d: "base \<le> 2 * unat d"
  shows "\<exists>v. udiv1norm_init d = Some v \<and> reciprocal d v"
proof -
  have D: "0 < unat d" "unat d < base" using d unat_base [of d] base_pos(1) by linarith+
  have "unat (- d) = base - unat d" using sub_borrow(1) [of 0 d] D by simp
  then have a1: "unat (- d - 1) = base - unat d - 1" using sub_borrow(1) [of "- d" 1] D by simp
  have a0: "unat (- 1 :: u64) = base - 1" using sub_borrow(1) [of 0 1] by simp
  define w where "w = (push_bit 64 (ucast (- d - 1)) OR ucast (- 1 :: u64) :: u128)"
  have "unat w = (base - unat d - 1) * base + (base - 1)"
    unfolding w_def unat_join_128 a1 a0 ..
  also have "\<dots> = base * base - unat d * base - 1"
  proof -
    obtain x where x: "base = unat d + 1 + x" using D(2) less_imp_add_positive [of "unat d" base] by (metis add.assoc add.commute le_Suc_ex less_eq_Suc_le plus_1_eq_Suc)
    show ?thesis by (simp add: x algebra_simps)
  qed
  finally have w: "unat w = base * base - unat d * base - 1" .
  define v where "v = (ucast (w div ucast d) :: u64)"
  have dv: "unat (w div ucast d) = unat w div unat d" by (simp add: unat_div)
  have dB: "unat d * base < base * base" using D by simp
  have "unat w < unat d * base"
  proof -
    have "base * base \<le> 2 * (unat d * base)" using mult_le_mono1 [OF d, of base] by (simp add: mult.assoc)
    moreover have "0 < unat d * base" using D by simp
    ultimately show ?thesis using w by linarith
  qed
  then have "unat w div unat d < base" by (simp add: less_mult_imp_div_less mult.commute)
  then have v: "unat v = unat w div unat d" by (simp add: v_def unat_low_128 dv)
  define e where "e = unat w mod unat d + 1"
  have "unat w = unat v * unat d + (e - 1)" by (simp add: v e_def)
  moreover have "1 \<le> e" "e \<le> unat d" using D by (simp_all add: e_def Suc_leI)
  moreover have "unat w + unat d * base + 1 = base * base" using w dB by linarith
  moreover have "(unat v + base) * unat d = unat v * unat d + unat d * base" by (simp add: algebra_simps)
  ultimately have vd: "(unat v + base) * unat d + e = base * base" by linarith
  have "udiv1norm_init d = Some v"
    using D(1) by (auto simp: udiv1norm_init_def Let_def v_def w_def)
  then show ?thesis using vd \<open>1 \<le> e\<close> \<open>e \<le> unat d\<close> by (auto simp: reciprocal_def)
qed

lemma sign_mask: "signed_drop_bit 63 (w :: u64) = (if base \<le> 2 * unat w then - 1 else 0)"
proof -
  have "bit w 63 \<longleftrightarrow> odd (unat w div 2 ^ 63)" 
    using bit_iff_odd [of "unat w" 63] by (simp add: bit_unsigned_iff)
  also have "\<dots> \<longleftrightarrow> base \<le> 2 * unat w"
  proof -
    have "unat w div 2 ^ 63 < 2" using unat_base [of w] by (simp add: base_def less_mult_imp_div_less)
    then have "odd (unat w div 2 ^ 63) \<longleftrightarrow> unat w div 2 ^ 63 = 1" by (auto simp: less_2_cases_iff)
    also have "\<dots> \<longleftrightarrow> 2 ^ 63 \<le> unat w" using \<open>unat w div 2 ^ 63 < 2\<close> by (auto simp: div_eq_0_iff less_2_cases_iff not_less)
    finally show ?thesis by (simp add: base_def)
  qed
  finally have top: "bit w 63 \<longleftrightarrow> base \<le> 2 * unat w" .
  show ?thesis
    by (rule bit_word_eqI) (use top in \<open>auto simp: bit_signed_drop_bit_iff not_le\<close>)
qed

lemma mult_less_base: "x * d \<le> n \<Longrightarrow> n < d * base \<Longrightarrow> x < (base :: nat)"
  by (metis le_less_trans mult.commute mult_less_cancel2)

lemma udiv1_adjust:
  fixes a1 a0 d v :: u64
  assumes d: "base \<le> 2 * unat d" and a1: "unat a1 < unat d" and v: "reciprocal d v"
  defines "n1m \<equiv> signed_drop_bit 63 a0"
  defines "q \<equiv> ucast (drop_bit 64 (ucast v * ucast (a1 - n1m) + ucast (a0 + (n1m AND d)) :: u128)) + a1"
  shows "unat q * unat d \<le> unat a1 * base + unat a0" "unat a1 * base + unat a0 < unat q * unat d + 2 * unat d"
proof -
  define n1 :: nat where "n1 = (if base \<le> 2 * unat a0 then 1 else 0)"
  define N where "N = unat a1 * base + unat a0"
  obtain e where e: "(unat v + base) * unat d + e = base * base" "1 \<le> e" "e \<le> unat d"
    using v by (auto simp: reciprocal_def)
  note lt = unat_base [of a0] unat_base [of d]
  have s: "unat (a1 - n1m) = unat a1 + n1"
  proof (cases "base \<le> 2 * unat a0")
    case True
    have eq: "a1 - n1m = a1 + 1" using True by (simp add: n1m_def sign_mask)
    show ?thesis unfolding eq using True add_overflow(1) [of a1 1] a1 lt by (simp add: n1_def)
  qed (simp add: n1m_def sign_mask n1_def)
  have adj: "unat (a0 + (n1m AND d)) + n1 * base = unat a0 + n1 * unat d"
  proof (cases "base \<le> 2 * unat a0")
    case True
    then have "base \<le> unat a0 + unat d" using d by linarith
    with True show ?thesis using add_overflow(1) [of a0 d] by (simp add: n1m_def sign_mask n1_def)
  qed (simp add: n1m_def sign_mask n1_def)
  have A: "unat (ucast v * ucast (a1 - n1m) + ucast (a0 + (n1m AND d)) :: u128) =
      unat v * (unat a1 + n1) + unat (a0 + (n1m AND d))"
    using unat_product [of v "a1 - n1m" 0 "a0 + (n1m AND d)"] s by simp
  define A where "A = unat v * (unat a1 + n1) + unat (a0 + (n1m AND d))"
  have intA: "int A = int (unat v) * (int (unat a1) + int n1) + (int (unat a0) + int n1 * (int (unat d) - int base))"
    using arg_cong [OF adj, of int] by (simp add: A_def algebra_simps)
  define Q where "Q = A div base + unat a1"
  have est: "0 \<le> int (unat a1) * int base + int (unat a0) - int Q * int (unat d)"
    "int (unat a1) * int base + int (unat a0) - int Q * int (unat d) < 2 * int (unat d)"
  proof -
    have ve: "(int (unat v) + int base) * int (unat d) = int base * int base - int e"
      using arg_cong [OF e(1), of int] by simp
    have Q: "int Q = (int (unat v) * (int (unat a1) + int n1) + (int (unat a0) + int n1 * (int (unat d) - int base))) div int base
        + int (unat a1)"
      unfolding Q_def intA [symmetric] by (simp add: zdiv_int)
    have n1: "int n1 = 0 \<and> 2 * int (unat a0) < int base \<or> int n1 = 1 \<and> int base \<le> 2 * int (unat a0)"
      unfolding n1_def by (cases "base \<le> 2 * unat a0") (simp_all only: if_True if_False, linarith+)
    have side: "int base \<le> 2 * int (unat d)" "int (unat d) < int base" "0 \<le> int (unat a1)" "int (unat a1) < int (unat d)"
      "0 \<le> int (unat a0)" "int (unat a0) < int base" "1 \<le> int e" "int e \<le> int (unat d)"
      using d a1 lt e by linarith+
    note est = udiv1_estimate [OF side(1-6) n1 ve side(7,8)]
    show "0 \<le> int (unat a1) * int base + int (unat a0) - int Q * int (unat d)"
      "int (unat a1) * int base + int (unat a0) - int Q * int (unat d) < 2 * int (unat d)"
      unfolding Q by (rule est)+
  qed
  have est': "Q * unat d \<le> N" "N < Q * unat d + 2 * unat d"
  proof -
    have "int N = int (unat a1) * int base + int (unat a0)" unfolding N_def by (simp only: of_nat_add of_nat_mult)
    moreover have "int (Q * unat d) = int Q * int (unat d)" by (simp only: of_nat_mult)
    ultimately show "Q * unat d \<le> N" "N < Q * unat d + 2 * unat d" using est by linarith+
  qed
  have "unat a1 + 1 \<le> unat d" using a1 by simp
  then have "(unat a1 + 1) * base \<le> unat d * base" by (rule mult_le_mono1)
  then have "N < unat d * base" using lt by (simp add: N_def)
  then have "Q < base" using est'(1) by (rule mult_less_base [rotated])
  moreover have "unat (ucast (drop_bit 64 (ucast v * ucast (a1 - n1m) + ucast (a0 + (n1m AND d)) :: u128)) :: u64) = A div base"
    unfolding unat_high_128 A A_def ..
  ultimately have "unat q = Q" unfolding q_def Q_def by (simp add: unat_add_base)
  with est' show "unat q * unat d \<le> unat a1 * base + unat a0" "unat a1 * base + unat a0 < unat q * unat d + 2 * unat d"
    by (simp_all add: N_def)
qed

lemma and_minus_one: "(- 1 :: u64) AND d = d"
  by simp

lemma udiv1norm_correct:
  assumes d: "base \<le> 2 * unat d" and a1: "unat a1 < unat d" and v: "reciprocal d v"
  shows "\<exists>q r. udiv1norm a1 a0 d v = (q, r) \<and> unat a1 * base + unat a0 = unat q * unat d + unat r \<and> unat r < unat d"
proof -
  define n1m where "n1m = signed_drop_bit 63 a0"
  define q where "q = (ucast (drop_bit 64 (ucast v * ucast (a1 - n1m) + ucast (a0 + (n1m AND d)) :: u128)) + a1 :: u64)"
  define t where "t = ((push_bit 64 (ucast a1) OR ucast a0) - ucast q * ucast d - ucast d :: u128)"
  define ah where "ah = (ucast (drop_bit 64 t) :: u64)"
  define N where "N = unat a1 * base + unat a0"
  have adj: "unat q * unat d \<le> N" "N < unat q * unat d + 2 * unat d"
    unfolding N_def q_def n1m_def by (rule udiv1_adjust [OF d a1 v])+
  define R where "R = N - unat q * unat d"
  have R: "N = unat q * unat d + R" "R < 2 * unat d" using adj by (simp_all add: R_def)
  have D: "0 < unat d" "unat d < base" using a1 unat_base [of d] by linarith+
  have run: "udiv1norm a1 a0 d v = (q + (1 + ah), ucast t + (ah AND d))"
    by (simp add: udiv1norm_def Let_def n1m_def q_def t_def ah_def)
  have p: "unat (ucast q * ucast d + ucast d :: u128) = unat q * unat d + unat d"
    using unat_product [of q d d 0] by simp
  have bound: "N < unat d * base"
  proof -
    have "(unat a1 + 1) * base \<le> unat d * base" using a1 by (intro mult_le_mono1) simp
    then show ?thesis using unat_base [of a0] by (simp add: N_def)
  qed
  have dB: "unat d * base < base * base" using D by simp
  have t: "unat t = (base * base + N - (unat q * unat d + unat d)) mod (base * base)"
    unfolding t_def diff_diff_eq unat_sub_128 p unat_join_128 N_def ..
  show ?thesis
  proof (cases "R < unat d")
    case True
    have "unat t = base * base + R - unat d"
      using t R(1) True D dB by simp
    also have "\<dots> = (base - 1) * base + (base + R - unat d)"
      using D True by (simp add: diff_mult_distrib)
    finally have t': "unat t = (base - 1) * base + (base + R - unat d)" .
    have lt: "base + R - unat d < base" using True D by simp
    have "unat ah = base - 1" unfolding ah_def unat_high_128 t' using lt by simp
    then have "ah = - 1" using sub_borrow(1) [of 0 1] by (intro word_eq_unatI) simp
    moreover have "unat (ucast t :: u64) = base + R - unat d" unfolding unat_low_128 t' using lt by simp
    then have "unat (ucast t + d) = R" using add_overflow(1) [of "ucast t" d] True D by simp
    ultimately show ?thesis using run R(1) True by (simp add: N_def)
  next
    case False
    have "unat t = R - unat d"
    proof -
      have "base * base + N - (unat q * unat d + unat d) = base * base + (R - unat d)" using R(1) False by simp
      moreover have "base \<le> base * base" using base_pos(1) by (simp add: Suc_leI)
      then have "R - unat d < base * base" using R(2) D by linarith
      ultimately show ?thesis using t by simp
    qed
    moreover have "R - unat d < base" using R(2) D by linarith
    ultimately have t': "unat t = R - unat d" "unat t < base" by simp_all
    then have "unat ah = 0" unfolding ah_def unat_high_128 by simp
    then have "ah = 0" by (simp add: unat_eq_0)
    moreover have "unat (ucast t :: u64) = R - unat d" using t' by (simp add: unat_low_128)
    moreover have "unat (q + 1) = unat q + 1"
    proof -
      have "(unat q + 1) * unat d \<le> N" using R(1) False by simp
      then have "unat q + 1 < base" using bound by (rule mult_less_base)
      then show ?thesis using add_overflow(1) [of q 1] by simp
    qed
    ultimately show ?thesis using run R False by (simp add: N_def)
  qed
qed

lemma udiv2_correct:
  assumes a1: "unat a1 < unat b"
  shows "\<exists>q r. udiv2 a1 a0 b = Some (q, r) \<and> unat a1 * base + unat a0 = unat q * unat b + unat r \<and> unat r < unat b"
proof -
  define w where "w = (push_bit 64 (ucast a1) OR ucast a0 :: u128)"
  have w: "unat w = unat a1 * base + unat a0" unfolding w_def by (rule unat_join_128)
  have b: "0 < unat b" "b \<noteq> 0" using a1 by auto
  have "(unat a1 + 1) * base \<le> unat b * base" using a1 by (intro mult_le_mono1) simp
  then have "unat w div unat b < base" using w unat_base [of a0] by (simp add: less_mult_imp_div_less mult.commute)
  then have "unat (ucast (w div ucast b) :: u64) = unat w div unat b" by (simp add: unat_low_128 unat_div)
  moreover have "unat (ucast (w mod ucast b) :: u64) = unat w mod unat b"
    using b unat_base [of b] by (simp add: unat_low_128 unat_mod) (meson less_trans mod_less mod_less_divisor)
  ultimately show ?thesis using b w by (simp add: udiv2_def Let_def flip: w_def)
qed

text \<open>A loop from the most significant limb down; \<open>R\<close> relates the limbs above \<open>i\<close> and the state.\<close>

definition keeps_behind :: "nat \<Rightarrow> nat \<Rightarrow> nat \<Rightarrow> bool" where
  "keeps_behind res op n \<longleftrightarrow> op \<le> res \<or> res + n \<le> op"

lemma limb_loop_down_rule:
  assumes len: "res + n \<le> length m" and init: "R n 0 k"
    and step: "\<And>i mi k. i < n \<Longrightarrow> same_outside m mi (res + Suc i) (n - Suc i) \<Longrightarrow> R (Suc i) (num (limbs mi (res + Suc i) (n - Suc i))) k \<Longrightarrow>
      \<exists>w k'. f i (mi, k) = Some (mi[res + i := w], k') \<and> R i (unat w + base * num (limbs mi (res + Suc i) (n - Suc i))) k'"
  shows "\<exists>m' k'. for_down n f (m, k) = Some (m', k') \<and> same_outside m m' res n \<and> R 0 (num (limbs m' res n)) k'"
proof -
  let ?P = "\<lambda>i (mi, k). i \<le> n \<and> same_outside m mi (res + i) (n - i) \<and> R i (num (limbs mi (res + i) (n - i))) k"
  have "\<exists>s'. for_down n f (m, k) = Some s' \<and> ?P 0 s'"
  proof (rule for_down_rule)
    show "?P n (m, k)" using init by simp
  next
    fix i s
    assume i: "i < n" and "?P (Suc i) s"
    then obtain mi k where s: "s = (mi, k)" "same_outside m mi (res + Suc i) (n - Suc i)"
      "R (Suc i) (num (limbs mi (res + Suc i) (n - Suc i))) k" by auto
    from step [OF i s(2,3)] obtain w k' where f: "f i (mi, k) = Some (mi[res + i := w], k')"
      "R i (unat w + base * num (limbs mi (res + Suc i) (n - Suc i))) k'" by auto
    have "n - i = Suc (n - Suc i)" using i by simp
    moreover have "res + i < length mi" using len i same_outsideD(1) [OF s(2)] by simp
    ultimately have "num (limbs (mi[res + i := w]) (res + i) (n - i)) = unat w + base * num (limbs mi (res + Suc i) (n - Suc i))"
      by (simp add: num_limbs_Cons)
    moreover have "same_outside m (mi[res + i := w]) (res + i) (n - i)"
      using s(2) i by (auto simp: same_outside_def)
    ultimately show "\<exists>s'. f i s = Some s' \<and> ?P i s'" using f s(1) i by simp
  qed
  then show ?thesis by auto
qed

lemma read_behind:
  assumes "same_outside m mi (res + Suc i) (n - Suc i)" "keeps_behind res op n" "i < n" "op + n \<le> length m"
  shows "mem_get mi (op + i) = Some (m ! (op + i))"
  using assms by (auto simp: mem_get_def same_outside_def keeps_behind_def)

lemma div1_loop:
  fixes b r :: u64
  assumes len: "tabr + n \<le> length m" "taba + n \<le> length m" and behind: "keeps_behind tabr taba n"
    and r: "unat r < unat b"
    and f: "\<And>i mi x r. i < n \<Longrightarrow> mem_get mi (taba + i) = Some x \<Longrightarrow> tabr + i < length mi \<Longrightarrow> unat r < unat b \<Longrightarrow>
      \<exists>q r'. f i (mi, r) = Some (mi[tabr + i := q], r') \<and> unat r * base + unat x = unat q * unat b + unat r' \<and> unat r' < unat b"
  shows "\<exists>m' r'. for_down n f (m, r) = Some (m', r') \<and> same_outside m m' tabr n \<and> unat r' < unat b \<and>
    unat r * base ^ n + num (limbs m taba n) = num (limbs m' tabr n) * unat b + unat r'"
proof -
  define R where "R i q k \<longleftrightarrow> unat k < unat b \<and>
      unat r * base ^ (n - i) + num (limbs m (taba + i) (n - i)) = q * unat b + unat k" for i q and k :: u64
  have "\<exists>m' r'. for_down n f (m, r) = Some (m', r') \<and> same_outside m m' tabr n \<and> R 0 (num (limbs m' tabr n)) r'"
  proof (rule limb_loop_down_rule [where R = R, OF len(1)], goal_cases)
    case 1
    then show ?case using r by (simp add: R_def)
  next
    case (2 i mi k)
    note Rk = 2(3) [unfolded R_def]
    let ?x = "m ! (taba + i)" and ?Q = "num (limbs mi (tabr + Suc i) (n - Suc i))"
    have x: "mem_get mi (taba + i) = Some ?x" by (rule read_behind [OF 2(2) behind 2(1) len(2)])
    have l: "tabr + i < length mi" using len(1) 2(1) same_outsideD(1) [OF 2(2)] by simp
    from f [OF 2(1) x l conjunct1 [OF Rk]] obtain q r' where q: "f i (mi, k) = Some (mi[tabr + i := q], r')"
      "unat k * base + unat ?x = unat q * unat b + unat r'" "unat r' < unat b" by blast
    have n: "n - i = Suc (n - Suc i)" using 2(1) by simp
    have "unat r * base ^ (n - i) + num (limbs m (taba + i) (n - i)) =
        base * (unat r * base ^ (n - Suc i) + num (limbs m (taba + Suc i) (n - Suc i))) + unat ?x"
      unfolding n using len(2) 2(1) by (simp add: num_limbs_Cons algebra_simps)
    also have "\<dots> = base * (?Q * unat b) + (unat k * base + unat ?x)"
      unfolding conjunct2 [OF Rk] by (simp add: algebra_simps)
    also have "\<dots> = (unat q + base * ?Q) * unat b + unat r'" unfolding q(2) by (simp add: algebra_simps)
    finally show ?case using q(1,3) unfolding R_def by blast
  qed
  then show ?thesis by (simp add: R_def)
qed

lemma mp_div1norm_num:
  assumes len: "tabr + n \<le> length m" "taba + n \<le> length m" and behind: "keeps_behind tabr taba n"
    and b: "base \<le> 2 * unat b" and r: "unat r < unat b"
  shows "\<exists>m' r'. mp_div1norm m tabr taba n b r = Some (m', r') \<and> same_outside m m' tabr n \<and> unat r' < unat b \<and>
    unat r * base ^ n + num (limbs m taba n) = num (limbs m' tabr n) * unat b + unat r'"
proof (cases "n \<ge> UDIV1NORM_THRESHOLD")
  case True
  obtain v where v: "udiv1norm_init b = Some v" "reciprocal b v" using udiv1norm_init_reciprocal [OF b] by blast
  show ?thesis
    unfolding mp_div1norm_def if_P [OF True] v(1) bind.simps
  proof (rule div1_loop [OF len behind r], goal_cases)
    case (1 i mi x r)
    with udiv1norm_correct [OF b 1(4) v(2), of x] show ?case by (auto simp: mem_simps)
  qed
next
  case False
  show ?thesis
    unfolding mp_div1norm_def if_not_P [OF False]
  proof (rule div1_loop [OF len behind r], goal_cases)
    case (1 i mi x r)
    with udiv2_correct [OF 1(4), of x] show ?case by (auto simp: mem_simps)
  qed
qed

lemma mp_shr_num:
  assumes len: "tab_r + n \<le> length m" "tab + n \<le> length m" and behind: "keeps_behind tab_r tab n"
    and s: "1 \<le> s" "s < 64"
  shows "\<exists>m' l. mp_shr m tab_r tab n s high = Some (m', l) \<and> same_outside m m' tab_r n \<and> unat l < 2 ^ s \<and>
    num (limbs m' tab_r n) * 2 ^ s + unat l = num (limbs m tab n) + base ^ n * (unat high mod 2 ^ s)"
proof -
  define R where "R i q l \<longleftrightarrow> q * 2 ^ s + unat l mod 2 ^ s = num (limbs m (tab + i) (n - i)) + base ^ (n - i) * (unat high mod 2 ^ s)"
    for i q and l :: u64
  have bs: "base = 2 ^ s * 2 ^ (64 - s)" using s by (simp add: base_def flip: power_add)
  have w: "unat (drop_bit s a OR push_bit (64 - s) l) = unat a div 2 ^ s + (unat l mod 2 ^ s) * 2 ^ (64 - s)" for a l :: u64
  proof -
    have "drop_bit s a OR push_bit (64 - s) l = drop_bit s a + push_bit (64 - s) l"
    proof (rule or_eq_plus_disjoint [where n = "64 - s"])
      show "take_bit (64 - s) (push_bit (64 - s) l) = 0" by (simp add: take_bit_push_bit)
      have "unat (drop_bit (64 - s) (drop_bit s a)) = 0"
        using s unat_base [of a] by (simp add: unat_drop_bit div_mult2_eq [symmetric] base_def flip: power_add)
      then show "drop_bit (64 - s) (drop_bit s a) = 0" by (simp only: unat_eq_0)
    qed
    moreover have "unat (push_bit (64 - s) l) = (unat l mod 2 ^ s) * 2 ^ (64 - s)"
    proof -
      have "unat (push_bit (64 - s) l) = (unat l * 2 ^ (64 - s)) mod base"
        unfolding unsigned_push_bit_eq by (simp add: push_bit_eq_mult take_bit_eq_mod base_def)
      then show ?thesis unfolding bs by (simp add: mod_mult_mult2)
    qed
    moreover have "unat a div 2 ^ s + (unat l mod 2 ^ s) * 2 ^ (64 - s) < base"
    proof -
      have "unat a div 2 ^ s < 2 ^ (64 - s)" using unat_base [of a] unfolding bs by (simp add: less_mult_imp_div_less mult.commute)
      then have "unat a div 2 ^ s + (unat l mod 2 ^ s) * 2 ^ (64 - s) < (unat l mod 2 ^ s + 1) * 2 ^ (64 - s)" by simp
      also have "\<dots> \<le> 2 ^ s * 2 ^ (64 - s)" by (intro mult_le_mono1) (simp add: Suc_leI)
      finally show ?thesis unfolding bs .
    qed
    ultimately show ?thesis by (simp add: add_overflow unat_drop_bit)
  qed
  have loop: "\<exists>m' k'. for_down n (\<lambda>i (m, l). do {
          a \<leftarrow> mem_get m (tab + i);
          m \<leftarrow> mem_set m (tab_r + i) (drop_bit s a OR push_bit (64 - s) l);
          Some (m, a) }) (m, high) = Some (m', k') \<and> same_outside m m' tab_r n \<and> R 0 (num (limbs m' tab_r n)) k'"
  proof (rule limb_loop_down_rule [where R = R, OF len(1)], goal_cases)
    case 1
    then show ?case by (simp add: R_def)
  next
    case (2 i mi l)
    let ?a = "m ! (tab + i)" and ?N = "num (limbs mi (tab_r + Suc i) (n - Suc i))"
    let ?w = "drop_bit s ?a OR push_bit (64 - s) l"
    have a: "mem_get mi (tab + i) = Some ?a" by (rule read_behind [OF 2(2) behind 2(1) len(2)])
    have l: "tab_r + i < length mi" using len(1) 2(1) same_outsideD(1) [OF 2(2)] by simp
    have n: "n - i = Suc (n - Suc i)" using 2(1) by simp
    have "(unat ?w + base * ?N) * 2 ^ s + unat ?a mod 2 ^ s =
        ((unat ?a div 2 ^ s) * 2 ^ s + unat ?a mod 2 ^ s) + base * (?N * 2 ^ s + unat l mod 2 ^ s)"
      unfolding w by (simp add: bs algebra_simps)
    also have "\<dots> = unat ?a + base * (num (limbs m (tab + Suc i) (n - Suc i)) + base ^ (n - Suc i) * (unat high mod 2 ^ s))"
      unfolding div_mult_mod_eq using 2(3) unfolding R_def by simp
    also have "\<dots> = num (limbs m (tab + i) (n - i)) + base ^ (n - i) * (unat high mod 2 ^ s)"
      unfolding n using len(2) 2(1) by (simp add: num_limbs_Cons algebra_simps)
    finally have "R i (unat ?w + base * ?N) ?a" unfolding R_def .
    with a l show ?case by (intro exI [of _ ?w] exI [of _ ?a]) (simp add: mem_simps)
  qed
  have "unat (l AND (push_bit s 1 - 1)) = unat l mod 2 ^ s" for l :: u64
    using unat_and_mask [of l s] by (simp add: mask_eq_exp_minus_1 push_bit_eq_mult)
  with loop s show ?thesis unfolding mp_shr_def R_def by fastforce
qed

subsection \<open>Division by several limbs\<close>

definition DIVNORM_LARGE_THRESHOLD :: nat where
  "DIVNORM_LARGE_THRESHOLD = 50"

text \<open>\<open>Calls_large\<close>: the work is handed over to \<open>mp_divnorm_large\<close>, which is not modelled.\<close>

datatype divnorm_result = Divided "u64 list" | Calls_large

text \<open>The first quotient digit: whether \<open>taba\<close> from \<open>p\<close> on is at least \<open>tabb\<close>.\<close>

primrec first_digit :: "u64 list \<Rightarrow> nat \<Rightarrow> nat \<Rightarrow> nat \<Rightarrow> u64 option" where
  "first_digit m p tabb 0 = Some 1"
| "first_digit m p tabb (Suc j) = do {
     x \<leftarrow> mem_get m (p + j);
     y \<leftarrow> mem_get m (tabb + j);
     if x \<noteq> y then Some (if x < y then 0 else 1) else first_digit m p tabb j }"

definition digit_estimate :: "u64 list \<Rightarrow> nat \<Rightarrow> nat \<Rightarrow> u64 \<Rightarrow> u64 \<Rightarrow> u64 option" where
  "digit_estimate m p nb b1 b1_inv = do {
     v \<leftarrow> mem_get m (p + nb);
     if v \<ge> b1 then Some (- 1)
     else do {
       u \<leftarrow> mem_get m (p + nb - 1);
       if b1_inv \<noteq> 0 then Some (fst (udiv1norm v u b1 b1_inv))
       else map_option fst (udiv2 v u b1) } }"

partial_function (option) add_back :: "u64 list \<Rightarrow> nat \<Rightarrow> nat \<Rightarrow> nat \<Rightarrow> u64 \<Rightarrow> (u64 list \<times> u64) option" where
  "add_back m p tabb nb q = do {
     let q = q - 1;
     (m, c) \<leftarrow> mp_add m p p tabb nb 0;
     if c \<noteq> 0 then do {
       x \<leftarrow> mem_get m (p + nb);
       m \<leftarrow> mem_set m (p + nb) (x + 1);
       if x + 1 = 0 then Some (m, q) else add_back m p tabb nb q }
     else add_back m p tabb nb q }"

text \<open>One further digit; \<open>p\<close> is \<open>taba + i\<close>.\<close>

definition divnorm_digit :: "u64 list \<Rightarrow> nat \<Rightarrow> nat \<Rightarrow> nat \<Rightarrow> u64 \<Rightarrow> u64 \<Rightarrow> (u64 list \<times> u64) option" where
  "divnorm_digit m p tabb nb b1 b1_inv = do {
     q \<leftarrow> digit_estimate m p nb b1 b1_inv;
     (m, r) \<leftarrow> mp_sub_mul1 m p tabb nb q;
     v \<leftarrow> mem_get m (p + nb);
     let a = v - r;
     m \<leftarrow> mem_set m (p + nb) a;
     if a > v then add_back m p tabb nb q else Some (m, q) }"

definition mp_divnorm :: "u64 list \<Rightarrow> nat \<Rightarrow> nat \<Rightarrow> nat \<Rightarrow> nat \<Rightarrow> nat \<Rightarrow> divnorm_result option" where
  "mp_divnorm m tabq taba na tabb nb =
     (if nb = 0 then None
      else do {
        b1 \<leftarrow> mem_get m (tabb + nb - 1);
        if nb = 1 then do {
          (m, r) \<leftarrow> mp_div1norm m tabq taba na b1 0;
          m \<leftarrow> mem_set m taba r;
          Some (Divided m) }
        else if na < nb then None
        else if min (na - nb) nb \<ge> DIVNORM_LARGE_THRESHOLD then Some Calls_large
        else do {
          let n = na - nb;
          b1_inv \<leftarrow> (if n \<ge> UDIV1NORM_THRESHOLD then udiv1norm_init b1 else Some 0);
          q \<leftarrow> first_digit m (taba + n) tabb nb;
          m \<leftarrow> mem_set m (tabq + n) q;
          m \<leftarrow> (if q \<noteq> 0 then map_option fst (mp_sub m (taba + n) (taba + n) tabb nb 0) else Some m);
          m \<leftarrow> for_down n (\<lambda>i m. do {
            (m, q) \<leftarrow> divnorm_digit m (taba + i) tabb nb b1 b1_inv;
            mem_set m (tabq + i) q }) m;
          Some (Divided m) } })"

lemma first_digit_num:
  "p + n \<le> length m \<Longrightarrow> tabb + n \<le> length m \<Longrightarrow>
     first_digit m p tabb n = Some (bool_limb (num (limbs m tabb n) \<le> num (limbs m p n)))"
proof (induction n)
  case (Suc n)
  then have l: "p + n < length m" "tabb + n < length m" by simp_all
  let ?x = "m ! (p + n)" and ?y = "m ! (tabb + n)"
  have less: "num (limbs m p n) < base ^ n" "num (limbs m tabb n) < base ^ n"
    using num_less [of "limbs m p n"] num_less [of "limbs m tabb n"] l by simp_all
  have le: "num (limbs m tabb (Suc n)) \<le> num (limbs m p (Suc n)) \<longleftrightarrow>
      \<not> (unat ?x < unat ?y \<or> unat ?x = unat ?y \<and> num (limbs m p n) < num (limbs m tabb n))"
    unfolding num_limbs_Suc [OF l(1)] num_limbs_Suc [OF l(2)] less_digit [OF less, symmetric] by linarith
  show ?case
  proof (cases "?x = ?y")
    case True
    with Suc l show ?thesis unfolding le by (simp add: mem_simps bool_limb_def)
  next
    case False
    then have "unat ?x \<noteq> unat ?y" by (simp add: word_unat_eq_iff)
    with False l show ?thesis unfolding le by (auto simp: mem_simps word_less_nat_alt bool_limb_def)
  qed
qed (simp add: bool_limb_def)

definition usable_inverse :: "u64 \<Rightarrow> u64 \<Rightarrow> bool" where
  "usable_inverse b1 b1_inv \<longleftrightarrow> b1_inv = 0 \<or> reciprocal b1 b1_inv"

lemma digit_estimate_ge:
  assumes nb: "2 \<le> nb" and len: "p + nb < length m" "tabb + nb \<le> length m"
    and b1: "b1 = m ! (tabb + nb - 1)" "base \<le> 2 * unat b1" and inv: "usable_inverse b1 b1_inv"
    and less: "num (limbs m (p + 1) nb) < num (limbs m tabb nb)"
  shows "\<exists>q. digit_estimate m p nb b1 b1_inv = Some q \<and> num (limbs m p (Suc nb)) div num (limbs m tabb nb) \<le> unat q"
proof -
  obtain k where k: "nb = Suc k" using nb by (cases nb) auto
  define v where "v = m ! (p + nb)"
  define u where "u = m ! (p + nb - 1)"
  let ?b = "num (limbs m tabb nb)" and ?U = "num (limbs m p (Suc nb))"
  have get: "mem_get m (p + nb) = Some v" "mem_get m (p + nb - 1) = Some u"
    using len(1) by (simp_all add: mem_get_def v_def u_def)
  have b: "?b = num (limbs m tabb k) + base ^ k * unat b1"
    using len(2) b1(1) by (simp add: k num_limbs_Suc)
  have U: "?U = num (limbs m p k) + base ^ k * (unat v * base + unat u)"
    using len(1) by (simp add: k num_limbs_Suc v_def u_def algebra_simps)
  have B1: "0 < unat b1" using b1(2) base_pos(1) by linarith
  show ?thesis
  proof (cases "b1 \<le> v")
    case True
    have "?U < base * ?b"
    proof -
      have "?U = unat (m ! p) + base * num (limbs m (p + 1) nb)" using len(1) by (simp add: num_limbs_Cons)
      also have "\<dots> < base * Suc (num (limbs m (p + 1) nb))" using unat_base [of "m ! p"] by simp
      also have "\<dots> \<le> base * ?b" using less by (intro mult_le_mono2) simp
      finally show ?thesis .
    qed
    then have "?U div ?b < base" by (simp add: less_mult_imp_div_less)
    moreover have "unat (- 1 :: u64) = base - 1" using sub_borrow(1) [of 0 1] by simp
    ultimately have "?U div ?b \<le> unat (- 1 :: u64)" by linarith
    then show ?thesis using get True by (simp add: digit_estimate_def)
  next
    case False
    then have vb: "unat v < unat b1" by (simp add: word_le_nat_alt)
    have "num (limbs m p k) < base ^ k" using num_less [of "limbs m p k"] len(1) k by simp
    then have div: "?U div base ^ k = unat v * base + unat u" unfolding U by simp
    have "?U div ?b \<le> ?U div (base ^ k * unat b1)" unfolding b using B1 by (intro div_le_mono2) simp_all
    also have "\<dots> = (unat v * base + unat u) div unat b1" by (simp add: div_mult2_eq div)
    finally have le: "?U div ?b \<le> (unat v * base + unat u) div unat b1" .
    have q: "(unat v * base + unat u) div unat b1 = unat q"
      if "unat v * base + unat u = unat q * unat b1 + unat r" "unat r < unat b1" for q r :: u64
      using that by simp
    show ?thesis
    proof (cases "b1_inv = 0")
      case True
      obtain q r where "udiv2 v u b1 = Some (q, r)" "unat v * base + unat u = unat q * unat b1 + unat r" "unat r < unat b1"
        using udiv2_correct [OF vb] by blast
      with get False True le q show ?thesis by (auto simp: digit_estimate_def)
    next
      case inv0: False
      then have "reciprocal b1 b1_inv" using inv by (simp add: usable_inverse_def)
      then obtain q r where "udiv1norm v u b1 b1_inv = (q, r)" "unat v * base + unat u = unat q * unat b1 + unat r" "unat r < unat b1"
        using udiv1norm_correct [OF b1(2) vb] by blast
      with get False inv0 le q show ?thesis by (auto simp: digit_estimate_def)
    qed
  qed
qed

lemma add_back_num:
  assumes disj: "tabb + nb \<le> p \<or> p + Suc nb \<le> tabb"
  shows "p + Suc nb \<le> length m \<Longrightarrow> tabb + nb \<le> length m \<Longrightarrow>
    num (limbs m p (Suc nb)) + num (limbs m tabb nb) * unat q = U + base ^ Suc nb \<Longrightarrow> U < num (limbs m tabb nb) * unat q \<Longrightarrow>
    \<exists>m' q'. add_back m p tabb nb q = Some (m', q') \<and> same_outside m m' p (Suc nb) \<and>
      num (limbs m' p (Suc nb)) + num (limbs m tabb nb) * unat q' = U \<and> num (limbs m' p (Suc nb)) < num (limbs m tabb nb)"
proof (induction "unat q" arbitrary: q m rule: less_induct)
  case less
  let ?b = "num (limbs m tabb nb)" and ?X = "num (limbs m p (Suc nb))" and ?P = "base ^ nb"
  note step = add_back.simps [of m p tabb nb q]
  have q: "0 < unat q" using less.prems(4) by (cases "unat q") auto
  then have q1: "unat (q - 1) = unat q - 1" using sub_borrow(1) [of q 1] by simp
  have bq: "?b * unat q = ?b * unat (q - 1) + ?b" using q unfolding q1 by (cases "unat q") auto
  have ahead: "keeps_ahead p p nb" "keeps_ahead p tabb nb" using disj by (auto simp: keeps_ahead_def)
  obtain m1 c where add: "mp_add m p p tabb nb 0 = Some (m1, c)" "same_outside m m1 p nb" "unat c \<le> 1"
    "num (limbs m1 p nb) + ?P * unat c = num (limbs m p nb) + ?b"
    using mp_add_num [of p nb m p tabb 0] less.prems(1,2) ahead by auto
  define x where "x = m ! (p + nb)"
  have m1: "length m1 = length m" "m1 ! (p + nb) = x"
    using same_outsideD [OF add(2)] by (simp_all add: x_def)
  have X: "?X = num (limbs m p nb) + ?P * unat x" using less.prems(1) by (simp add: num_limbs_Suc x_def)
  define m2 where "m2 = (if c \<noteq> 0 then m1[p + nb := x + 1] else m1)"
  have out: "same_outside m m2 p (Suc nb)"
    using add(2) by (auto simp: m2_def same_outside_def)
  have top: "m2 ! (p + nb) = x + c"
  proof (cases "c = 0")
    case False
    then have "unat c = 1" using add(3) by (simp add: unat_eq_0 le_Suc_eq)
    then have "c = 1" by (simp add: word_eq_unatI)
    then show ?thesis using less.prems(1) m1(1) by (simp add: m2_def)
  qed (simp add: m2_def m1)
  have low: "limbs m2 p nb = limbs m1 p nb" by (simp add: m2_def)
  have len2: "length m2 = length m" using out by (simp add: same_outside_def)
  have X2: "num (limbs m2 p (Suc nb)) = num (limbs m1 p nb) + ?P * unat (x + c)"
    using less.prems(1) len2 by (simp add: num_limbs_Suc low top)
  show ?case
  proof (cases "c \<noteq> 0 \<and> x + 1 = 0")
    case True
    have "unat c = 1" using True add(3) by (simp add: unat_eq_0 le_Suc_eq)
    then have "c = 1" by (simp add: word_eq_unatI)
    have x: "unat x + 1 = base" using True add_overflow(1) [of x 1] unat_base [of x]
      by (simp split: if_splits)
    have "num (limbs m2 p (Suc nb)) + base ^ Suc nb = ?X + ?b"
      unfolding X2 \<open>c = 1\<close> conjunct2 [OF True] X
      using add(4) \<open>unat c = 1\<close> arg_cong [OF x, of "\<lambda>z. ?P * z"] by (simp add: algebra_simps)
    then have "num (limbs m2 p (Suc nb)) + ?b * unat (q - 1) = U" "num (limbs m2 p (Suc nb)) < ?b"
      using less.prems(3) bq num_less [of "limbs m p (Suc nb)"] less.prems(1) by simp_all
    moreover have "add_back m p tabb nb q = Some (m2, q - 1)"
      unfolding step using add(1) True m1 less.prems(1) by (simp add: mem_simps m2_def)
    ultimately show ?thesis using out by blast
  next
    case False
    have "unat (x + c) = unat x + unat c"
    proof (cases "c = 0")
      case c: False
      then have "unat c = 1" using add(3) by (simp add: unat_eq_0 le_Suc_eq)
      then have "c = 1" by (simp add: word_eq_unatI)
      with False c have "x + 1 \<noteq> 0" by simp
      then have "unat (x + 1) \<noteq> 0" by (simp only: unat_eq_0 not_False_eq_True)
      then show ?thesis using add_overflow(1) [of x 1] unat_base [of x] \<open>c = 1\<close> by (auto split: if_splits)
    qed simp
    then have X2': "num (limbs m2 p (Suc nb)) = ?X + ?b"
      unfolding X2 X using add(4) by (simp add: algebra_simps)
    have b2: "limbs m2 tabb nb = limbs m tabb nb"
      using disj by (intro same_outside_limbs [OF out]) auto
    have "num (limbs m2 p (Suc nb)) < base ^ Suc nb" using num_less [of "limbs m2 p (Suc nb)"] less.prems(1) len2 by simp
    then have eq: "num (limbs m2 p (Suc nb)) + ?b * unat (q - 1) = U + base ^ Suc nb" "U < ?b * unat (q - 1)"
      using X2' less.prems(3) bq by linarith+
    have "add_back m p tabb nb q = add_back m2 p tabb nb (q - 1)"
      unfolding step using add(1) False m1 less.prems(1) by (auto simp: mem_simps m2_def)
    moreover obtain m' q' where "add_back m2 p tabb nb (q - 1) = Some (m', q')" "same_outside m2 m' p (Suc nb)"
      "num (limbs m' p (Suc nb)) + ?b * unat q' = U" "num (limbs m' p (Suc nb)) < ?b"
      using less.hyps [of "q - 1" m2] q q1 less.prems(1,2) len2 eq unfolding b2 by auto
    ultimately show ?thesis using same_outside_trans [OF out] by fastforce
  qed
qed

lemma divnorm_digit_num:
  assumes nb: "2 \<le> nb" and len: "p + nb < length m" "tabb + nb \<le> length m"
    and disj: "tabb + nb \<le> p \<or> p + Suc nb \<le> tabb"
    and b1: "b1 = m ! (tabb + nb - 1)" "base \<le> 2 * unat b1" and inv: "usable_inverse b1 b1_inv"
    and less: "num (limbs m (p + 1) nb) < num (limbs m tabb nb)"
  shows "\<exists>m' q. divnorm_digit m p tabb nb b1 b1_inv = Some (m', q) \<and> same_outside m m' p (Suc nb) \<and>
    num (limbs m' p (Suc nb)) + num (limbs m tabb nb) * unat q = num (limbs m p (Suc nb)) \<and>
    num (limbs m' p (Suc nb)) < num (limbs m tabb nb)"
proof -
  let ?b = "num (limbs m tabb nb)" and ?U = "num (limbs m p (Suc nb))" and ?P = "base ^ nb"
  obtain q where q: "digit_estimate m p nb b1 b1_inv = Some q" "?U div ?b \<le> unat q"
    using digit_estimate_ge [OF nb len b1 inv less] by blast
  have "keeps_ahead p tabb nb" using disj by (auto simp: keeps_ahead_def)
  then obtain m1 r where sub: "mp_sub_mul1 m p tabb nb q = Some (m1, r)" "same_outside m m1 p nb"
    "num (limbs m1 p nb) + ?b * unat q = num (limbs m p nb) + ?P * unat r"
    using mp_sub_mul1_num [of p nb m tabb q] len by auto
  define v where "v = m ! (p + nb)"
  define c where "c = (v - r > v)"
  define m2 where "m2 = m1[p + nb := v - r]"
  have m1: "length m1 = length m" "m1 ! (p + nb) = v"
    using same_outsideD [OF sub(2)] by (simp_all add: v_def)
  have m2: "same_outside m m2 p (Suc nb)" "length m2 = length m"
    using sub(2) by (auto simp: m2_def same_outside_def)
  have a: "unat (v - r) + unat r = unat v + base * unat (bool_limb c)"
    unfolding c_def using unat_base [of v] unat_base [of r] by (auto simp: sub_borrow)
  have "num (limbs m2 p (Suc nb)) = num (limbs m1 p nb) + ?P * unat (v - r)"
    using len(1) m1(1) m2(2) by (simp add: num_limbs_Suc m2_def)
  moreover have "?U = num (limbs m p nb) + ?P * unat v" using len(1) by (simp add: num_limbs_Suc v_def)
  moreover have "?P * unat (v - r) + ?P * unat r = ?P * unat v + base ^ Suc nb * unat (bool_limb c)"
    using arg_cong [OF a, of "\<lambda>z. ?P * z"] by (simp add: algebra_simps)
  ultimately have X: "num (limbs m2 p (Suc nb)) + ?b * unat q = ?U + base ^ Suc nb * unat (bool_limb c)"
    using sub(3) by linarith
  have run: "divnorm_digit m p tabb nb b1 b1_inv = (if c then add_back m2 p tabb nb q else Some (m2, q))"
    using q(1) sub(1) len(1) m1 by (simp add: divnorm_digit_def mem_simps m2_def c_def)
  show ?thesis
  proof (cases c)
    case True
    have b: "limbs m2 tabb nb = limbs m tabb nb" using disj by (intro same_outside_limbs [OF m2(1)]) auto
    have X': "num (limbs m2 p (Suc nb)) + ?b * unat q = ?U + base ^ Suc nb" using X True by simp
    moreover have "num (limbs m2 p (Suc nb)) < base ^ Suc nb"
      using num_less [of "limbs m2 p (Suc nb)"] len(1) m2(2) by simp
    ultimately have "?U < ?b * unat q" by linarith
    with add_back_num [OF disj, of m2 q ?U, unfolded b] X' len m2(2)
    obtain m' q' where "add_back m2 p tabb nb q = Some (m', q')" "same_outside m2 m' p (Suc nb)"
      "num (limbs m' p (Suc nb)) + ?b * unat q' = ?U" "num (limbs m' p (Suc nb)) < ?b"
      by auto
    with run True same_outside_trans [OF m2(1)] show ?thesis by fastforce
  next
    case False
    then have X': "num (limbs m2 p (Suc nb)) + ?b * unat q = ?U" using X by simp
    have "?U < ?b * (?U div ?b + 1)" using less dividend_less_times_div [of ?b ?U] by simp
    also have "\<dots> \<le> ?b * (unat q + 1)" using q(2) by (intro mult_le_mono2) simp
    finally have "num (limbs m2 p (Suc nb)) < ?b" using X' by simp
    with X' run False m2(1) show ?thesis by simp
  qed
qed

text \<open>The state of the division with the digits from \<open>i\<close> on done.\<close>

definition div_state :: "u64 list \<Rightarrow> nat \<Rightarrow> nat \<Rightarrow> nat \<Rightarrow> nat \<Rightarrow> nat \<Rightarrow> nat \<Rightarrow> u64 list \<Rightarrow> bool" where
  "div_state m tabq taba tabb nb n i mi \<longleftrightarrow>
     length mi = length m \<and> limbs mi tabb nb = limbs m tabb nb \<and>
     num (limbs mi (tabq + i) (Suc n - i)) * num (limbs m tabb nb) * base ^ i + num (limbs mi taba (i + nb)) =
       num (limbs m taba (n + nb)) \<and>
     num (limbs mi (taba + i) nb) < num (limbs m tabb nb)"

lemma div_state_step:
  assumes st: "div_state m tabq taba tabb nb n (Suc i) mi" and i: "i < n"
    and len: "tabq + Suc n \<le> length m" "taba + (n + nb) \<le> length m" "tabb + nb \<le> length m"
    and disj: "tabq + Suc n \<le> taba \<or> taba + (n + nb) \<le> tabq" "tabb + nb \<le> taba \<or> taba + (n + nb) \<le> tabb"
      "tabq + Suc n \<le> tabb \<or> tabb + nb \<le> tabq"
    and nb: "2 \<le> nb" and b1: "b1 = m ! (tabb + nb - 1)" "base \<le> 2 * unat b1" and inv: "usable_inverse b1 b1_inv"
  shows "\<exists>m'. (do { (m, q) \<leftarrow> divnorm_digit mi (taba + i) tabb nb b1 b1_inv; mem_set m (tabq + i) q }) = Some m' \<and>
    div_state m tabq taba tabb nb n i m'"
proof -
  let ?p = "taba + i" and ?b = "num (limbs m tabb nb)"
  from st have mi: "length mi = length m" "limbs mi tabb nb = limbs m tabb nb"
    "num (limbs mi (tabq + Suc i) (n - i)) * ?b * base ^ Suc i + num (limbs mi taba (Suc i + nb)) = num (limbs m taba (n + nb))"
    "num (limbs mi (?p + 1) nb) < ?b"
    by (simp_all add: div_state_def)
  have "mi ! (tabb + (nb - 1)) = m ! (tabb + (nb - 1))"
    using arg_cong [OF mi(2), of "\<lambda>xs. xs ! (nb - 1)"] len(3) mi(1) nb by simp
  then have b1': "b1 = mi ! (tabb + nb - 1)" using b1(1) nb by simp
  have dp: "tabb + nb \<le> ?p \<or> ?p + Suc nb \<le> tabb" using disj(2) i by auto
  obtain m1 q where d: "divnorm_digit mi ?p tabb nb b1 b1_inv = Some (m1, q)" "same_outside mi m1 ?p (Suc nb)"
    "num (limbs m1 ?p (Suc nb)) + ?b * unat q = num (limbs mi ?p (Suc nb))" "num (limbs m1 ?p (Suc nb)) < ?b"
    using divnorm_digit_num [OF nb _ _ dp b1' b1(2) inv] mi len i by auto
  define m2 where "m2 = m1[tabq + i := q]"
  have l: "length m1 = length m" "length m2 = length m" using d(2) mi(1) by (simp_all add: m2_def same_outside_def)
  have run: "(do { (m, q) \<leftarrow> divnorm_digit mi ?p tabb nb b1 b1_inv; mem_set m (tabq + i) q }) = Some m2"
    using d(1) l(1) len(1) i by (simp add: m2_def mem_simps)
  have tabb: "limbs m2 tabb nb = limbs m tabb nb"
  proof -
    have "limbs m2 tabb nb = limbs m1 tabb nb" using disj(3) i by (auto simp: m2_def)
    also have "\<dots> = limbs mi tabb nb" using dp by (intro same_outside_limbs [OF d(2)]) auto
    finally show ?thesis using mi(2) by simp
  qed
  have quot: "num (limbs m2 (tabq + i) (Suc n - i)) = unat q + base * num (limbs mi (tabq + Suc i) (n - i))"
  proof -
    have "Suc n - i = Suc (n - i)" using i by simp
    moreover have "limbs m2 (tabq + Suc i) (n - i) = limbs mi (tabq + Suc i) (n - i)"
      unfolding m2_def using disj(1) i same_outside_limbs [OF d(2), of "tabq + Suc i" "n - i"] by auto
    moreover have "m2 ! (tabq + i) = q" using l(1) len(1) i by (simp add: m2_def)
    moreover have "tabq + i < length m2" using l(2) len(1) i by simp
    ultimately show ?thesis by (simp only: num_limbs_Cons add_Suc_right)
  qed
  have bP: "?b < base ^ nb" using num_less [of "limbs m tabb nb"] len(3) by simp
  have low: "limbs m2 ?p nb = limbs m1 ?p nb" "limbs m2 taba i = limbs mi taba i"
    unfolding m2_def using disj(1) i same_outside_limbs [OF d(2), of taba i] by auto
  have rem: "num (limbs m1 ?p (Suc nb)) = num (limbs m2 ?p nb)"
  proof -
    have e: "num (limbs m1 ?p (Suc nb)) = num (limbs m1 ?p nb) + base ^ nb * unat (m1 ! (?p + nb))"
      using l(1) len(2) i by (intro num_limbs_Suc) simp
    with d(4) bP have "base ^ nb * unat (m1 ! (?p + nb)) < base ^ nb * 1" by linarith
    then have "unat (m1 ! (?p + nb)) = 0" by (simp only: mult_less_cancel1) simp
    with e show ?thesis by (simp add: low(1))
  qed
  have "num (limbs m2 taba (i + nb)) = num (limbs mi taba i) + base ^ i * num (limbs m2 ?p nb)"
    using num_limbs_split [of taba i m2 nb] l(2) len(2) i by (simp add: low(2))
  moreover have "num (limbs mi taba (Suc i + nb)) = num (limbs mi taba i) + base ^ i * num (limbs mi ?p (Suc nb))"
    using num_limbs_split [of taba i mi "Suc nb"] mi(1) len(2) i by simp
  ultimately have "num (limbs m2 (tabq + i) (Suc n - i)) * ?b * base ^ i + num (limbs m2 taba (i + nb)) =
      num (limbs m taba (n + nb))"
    unfolding quot mi(3) [symmetric] d(3) [symmetric] rem by (simp add: algebra_simps)
  then have "div_state m tabq taba tabb nb n i m2"
    using l(2) tabb d(4) unfolding rem div_state_def by blast
  with run show ?thesis by blast
qed

lemma mp_divnorm_num:
  assumes size: "1 \<le> nb" "nb \<le> na" "nb < 2 ^ 31" "min (na - nb) nb < DIVNORM_LARGE_THRESHOLD"
    and len: "tabq + Suc (na - nb) \<le> length m" "taba + na \<le> length m" "tabb + nb \<le> length m"
    and disj: "tabq + Suc (na - nb) \<le> taba \<or> taba + na \<le> tabq" "tabb + nb \<le> taba \<or> taba + na \<le> tabb"
      "tabq + Suc (na - nb) \<le> tabb \<or> tabb + nb \<le> tabq"
    and norm: "base \<le> 2 * unat (m ! (tabb + nb - 1))"
  shows "\<exists>m'. mp_divnorm m tabq taba na tabb nb = Some (Divided m') \<and> limbs m' tabb nb = limbs m tabb nb \<and>
    num (limbs m taba na) = num (limbs m' tabq (Suc (na - nb))) * num (limbs m tabb nb) + num (limbs m' taba nb) \<and>
    num (limbs m' taba nb) < num (limbs m tabb nb)"
proof -
  define n where "n = na - nb"
  define b1 where "b1 = m ! (tabb + nb - 1)"
  have na: "na = n + nb" using size by (simp add: n_def)
  let ?b = "num (limbs m tabb nb)"
  have gb: "mem_get m (tabb + nb - 1) = Some b1" using len(3) size by (simp add: mem_get_def b1_def)
  have B1: "base \<le> 2 * unat b1" using norm by (simp add: b1_def)
  show ?thesis
  proof (cases "nb = 1")
    case True
    have "keeps_behind tabq taba na" using disj(1) True size by (auto simp: keeps_behind_def)
    moreover have "unat (0 :: u64) < unat b1" using B1 base_pos(1) by (metis gr0I mult_0_right not_less unsigned_0)
    ultimately obtain m1 r where d: "mp_div1norm m tabq taba na b1 0 = Some (m1, r)" "same_outside m m1 tabq na" "unat r < unat b1"
      "unat (0 :: u64) * base ^ na + num (limbs m taba na) = num (limbs m1 tabq na) * unat b1 + unat r"
      using mp_div1norm_num [of tabq na m taba b1 0] len size True B1 by auto
    have l: "taba < length m1" "tabb < length m" using d(2) len size True by (auto simp: same_outside_def)
    have "limbs (m1[taba := r]) tabq na = limbs m1 tabq na" using disj(1) True size by (intro limbs_update) auto
    moreover have "limbs (m1[taba := r]) tabb 1 = limbs m tabb 1"
      using disj(2,3) True size same_outside_limbs [OF d(2), of tabb 1] by (auto simp: l)
    moreover have "num (limbs (m1[taba := r]) taba 1) = unat r" using l(1) by (simp add: num_limbs_Cons)
    moreover have "num (limbs m tabb 1) = unat b1" using l(2) by (simp add: num_limbs_Cons b1_def True)
    ultimately show ?thesis
      using d True size gb l(1) by (simp add: mp_divnorm_def mem_simps)
  next
    case False
    then have nb: "2 \<le> nb" using size by simp
    obtain b1_inv where inv: "(if n \<ge> UDIV1NORM_THRESHOLD then udiv1norm_init b1 else Some 0) = Some b1_inv"
      "usable_inverse b1 b1_inv"
      using udiv1norm_init_reciprocal [OF B1] by (cases "n \<ge> UDIV1NORM_THRESHOLD") (auto simp: usable_inverse_def)
    let ?T = "num (limbs m (taba + n) nb)"
    define q where "q = bool_limb (?b \<le> ?T)"
    have fd: "first_digit m (taba + n) tabb nb = Some q"
      unfolding q_def using len na by (intro first_digit_num) simp_all
    define m1 where "m1 = m[tabq + n := q]"
    have st: "mem_set m (tabq + n) q = Some m1" using len(1) by (simp add: mem_simps m1_def n_def)
    have m1: "length m1 = length m" "limbs m1 tabb nb = limbs m tabb nb" "limbs m1 (taba + n) nb = limbs m (taba + n) nb"
      "limbs m1 taba n = limbs m taba n"
      using disj na by (auto simp: m1_def n_def [symmetric])
    have T: "?T < 2 * ?b"
    proof -
      obtain k where k: "nb = Suc k" using nb by (cases nb) auto
      have "?b = num (limbs m tabb k) + base ^ k * unat b1" using len(3) by (simp add: k num_limbs_Suc b1_def)
      then have "base ^ k * (2 * unat b1) \<le> 2 * ?b" by simp
      moreover have "base ^ nb \<le> base ^ k * (2 * unat b1)" using B1 mult_le_mono2 [of base "2 * unat b1" "base ^ k"] by (simp add: k mult.commute)
      moreover have "?T < base ^ nb" using num_less [of "limbs m (taba + n) nb"] len(2) na by simp
      ultimately show ?thesis by linarith
    qed
    obtain m2 where m2: "(if q \<noteq> 0 then map_option fst (mp_sub m1 (taba + n) (taba + n) tabb nb 0) else Some m1) = Some m2"
      "same_outside m1 m2 (taba + n) nb" "num (limbs m2 (taba + n) nb) + ?b * unat q = ?T" "num (limbs m2 (taba + n) nb) < ?b"
    proof (cases "?b \<le> ?T")
      case True
      have ahead: "keeps_ahead (taba + n) (taba + n) nb" "keeps_ahead (taba + n) tabb nb" using disj(2) na by (auto simp: keeps_ahead_def)
      have l1: "taba + n + nb \<le> length m1" "tabb + nb \<le> length m1" using m1(1) len na by simp_all
      from mp_sub_num [OF l1(1) l1(1) l1(2) size(3) ahead, of 0] obtain m' k where s: "mp_sub m1 (taba + n) (taba + n) tabb nb 0 = Some (m', k)" "same_outside m1 m' (taba + n) nb"
        "unat k \<le> 1" "num (limbs m' (taba + n) nb) + ?b + unat (0 :: u64) = ?T + base ^ nb * unat k"
        unfolding m1(2,3) by auto
      have "length m' = length m" using s(2) m1(1) by (simp add: same_outside_def)
      then have "num (limbs m' (taba + n) nb) < base ^ nb" using num_less [of "limbs m' (taba + n) nb"] len(2) na by simp
      then have "unat k = 0" using s(3,4) True by (cases "unat k = 0") (auto simp: le_Suc_eq)
      with s T True show ?thesis using that [of m'] by (simp add: q_def bool_limb_def)
    next
      case False
      then show ?thesis using that [of m1] m1(3) by (simp add: q_def bool_limb_def)
    qed
    have l2: "length m2 = length m" using m2(2) m1(1) by (simp add: same_outside_def)
    have "div_state m tabq taba tabb nb n n m2"
    proof -
      have "limbs m2 tabb nb = limbs m tabb nb"
        using same_outside_limbs [OF m2(2), of tabb nb] disj(2) na m1(2) by auto
      moreover have "m2 ! (tabq + n) = q"
        using same_outsideD(2) [OF m2(2), of "tabq + n"] disj(1) na len(1) nb by (auto simp: m1_def n_def [symmetric])
      then have "num (limbs m2 (tabq + n) 1) = unat q" using l2 len(1) by (simp add: num_limbs_Cons n_def)
      moreover have "num (limbs m2 taba (n + nb)) = num (limbs m taba n) + base ^ n * num (limbs m2 (taba + n) nb)"
        using num_limbs_split [of taba n m2 nb] same_outside_limbs [OF m2(2), of taba n] l2 len(2) na m1(4) by simp
      moreover have "num (limbs m taba (n + nb)) = num (limbs m taba n) + base ^ n * ?T"
        using num_limbs_split [of taba n m nb] len(2) na by simp
      ultimately show ?thesis
        using arg_cong [OF m2(3), of "\<lambda>z. base ^ n * z"] m2(4) l2 unfolding div_state_def by (simp add: algebra_simps)
    qed
    then have "\<exists>m'. for_down n (\<lambda>i m. do {
            (m, q) \<leftarrow> divnorm_digit m (taba + i) tabb nb b1 b1_inv;
            mem_set m (tabq + i) q }) m2 = Some m' \<and> div_state m tabq taba tabb nb n 0 m'"
      using len disj na
      by (intro for_down_rule [where P = "div_state m tabq taba tabb nb n"] div_state_step [OF _ _ _ _ _ _ _ _ nb _ B1 inv(2)])
        (simp_all add: b1_def n_def [symmetric])
    then show ?thesis
      using gb False nb size st fd m2(1) inv(1) na
      by (auto simp: mp_divnorm_def div_state_def Let_def simp flip: n_def)
  qed
qed

subsection \<open>The contracts\<close>

text \<open>
  C38.  \<open>mp_add\<close> adds two numbers of \<open>n\<close> limbs and a carry, also in place: the result and the
  carry out are the exact sum, and no limb outside the result changes.
\<close>

theorem mp_add_sum:
  assumes "res + n \<le> length m" "op1 + n \<le> length m" "op2 + n \<le> length m"
    and "keeps_ahead res op1 n" "keeps_ahead res op2 n" "unat carry \<le> 1"
  shows "\<exists>m' k. mp_add m res op1 op2 n carry = Some (m', k) \<and> same_outside m m' res n \<and> unat k \<le> 1 \<and>
    num (limbs m' res n) + base ^ n * unat k = num (limbs m op1 n) + num (limbs m op2 n) + unat carry"
  by (rule mp_add_num [OF assms])

lemma mp_add_sum_witness:
  "\<exists>m' k. mp_add [- 1, 3, 7, 9] 0 0 2 2 1 = Some (m', k) \<and> same_outside [- 1, 3, 7, 9] m' 0 2 \<and> unat k \<le> 1 \<and>
    num (limbs m' 0 2) + base ^ 2 * unat k = num (limbs [- 1, 3, 7, 9] 0 2) + num (limbs [- 1, 3, 7, 9] 2 2) + unat (1 :: u64)"
  by (rule mp_add_sum) (simp_all add: keeps_ahead_def)

text \<open>
  C20.  The schoolbook multiplication writes the product of its two operands, of any sizes, and
  nothing else.
\<close>

theorem mp_mul_basecase_product:
  assumes "result + (n + k) \<le> length m" "op1 + n \<le> length m" "op2 + k \<le> length m" "0 < k"
    and "op1 + n \<le> result \<or> result + (n + k) \<le> op1" "op2 + k \<le> result \<or> result + (n + k) \<le> op2"
  shows "\<exists>m'. mp_mul_basecase m result op1 n op2 k = Some m' \<and> same_outside m m' result (n + k) \<and>
    num (limbs m' result (n + k)) = num (limbs m op1 n) * num (limbs m op2 k)"
  by (rule mp_mul_basecase_num [OF assms])

lemma mp_mul_basecase_product_witness:
  "\<exists>m'. mp_mul_basecase [0, 0, 0, 5, - 1, 7] 0 3 2 5 1 = Some m' \<and> same_outside [0, 0, 0, 5, - 1, 7] m' 0 (2 + 1) \<and>
    num (limbs m' 0 (2 + 1)) = num (limbs [0, 0, 0, 5, - 1, 7] 3 2) * num (limbs [0, 0, 0, 5, - 1, 7] 5 1)"
  by (rule mp_mul_basecase_product) simp_all

text \<open>
  C8.  Below the threshold of the subquadratic division, \<open>mp_divnorm\<close> by a divisor whose top
  bit is set returns the quotient and leaves the remainder in place of the dividend, with one
  limb or many, with or without the precomputed inverse; the loop that corrects a quotient
  digit ends.
\<close>

theorem mp_divnorm_quotient:
  assumes "1 \<le> nb" "nb \<le> na" "nb < 2 ^ 31" "min (na - nb) nb < DIVNORM_LARGE_THRESHOLD"
    and "tabq + Suc (na - nb) \<le> length m" "taba + na \<le> length m" "tabb + nb \<le> length m"
    and "tabq + Suc (na - nb) \<le> taba \<or> taba + na \<le> tabq" "tabb + nb \<le> taba \<or> taba + na \<le> tabb"
      "tabq + Suc (na - nb) \<le> tabb \<or> tabb + nb \<le> tabq"
    and "base \<le> 2 * unat (m ! (tabb + nb - 1))"
  shows "\<exists>m'. mp_divnorm m tabq taba na tabb nb = Some (Divided m') \<and> limbs m' tabb nb = limbs m tabb nb \<and>
    num (limbs m taba na) = num (limbs m' tabq (Suc (na - nb))) * num (limbs m tabb nb) + num (limbs m' taba nb) \<and>
    num (limbs m' taba nb) < num (limbs m tabb nb)"
  by (rule mp_divnorm_num [OF assms])

lemma mp_divnorm_quotient_witness:
  "\<exists>m'. mp_divnorm [0, 0, 5, 6, 7, 1, 0x8000000000000000] 0 2 3 5 2 = Some (Divided m') \<and>
    limbs m' 5 2 = limbs [0, 0, 5, 6, 7, 1, 0x8000000000000000] 5 2 \<and>
    num (limbs [0, 0, 5, 6, 7, 1, 0x8000000000000000] 2 3) =
      num (limbs m' 0 (Suc (3 - 2))) * num (limbs [0, 0, 5, 6, 7, 1, 0x8000000000000000] 5 2) + num (limbs m' 2 2) \<and>
    num (limbs m' 2 2) < num (limbs [0, 0, 5, 6, 7, 1, 0x8000000000000000] 5 2)"
  by (rule mp_divnorm_quotient) (simp_all add: DIVNORM_LARGE_THRESHOLD_def base_def)

end
