(* ===== verification/Regex_Exec.thy ===== *)
theory Regex_Exec
  imports Bytes Utf8
begin

section \<open>The backtracking executor of regular expressions\<close>

text \<open>
  \<open>lre_exec\<close> and the byte code interpreter under it (src/quickjs/libregexp.c, libregexp.h and
  libregexp-opcode.h).  A pointer into the byte code is an index of \<open>bc\<close>, a pointer into the
  input an index of \<open>cbuf\<close>, whose units are bytes or 16-bit units according to \<open>cbuf_type\<close>.

  \<^item> A step whose result is \<open>None\<close>, and a run that is \<open>Stuck\<close>, is an access outside an array,
    an assertion that fails or a call of \<open>abort\<close>.
  \<^item> The executor need not end: \<open>exec\<close> takes fuel, one unit for an instruction.
  \<^item> The backtracking stack is the list of its saved states, the top first.  \<open>state_realloc\<close>
    stands for \<open>lre_realloc\<close>, which the embedder provides: it says whether the stack could be
    grown to the given number of bytes.
  \<^item> \<open>canonicalize\<close> is the case folding of \<open>lre_canonicalize\<close>.
\<close>

subsection \<open>Operation codes and header\<close>

datatype reop =
  REOP_invalid | REOP_char8 | REOP_char16 | REOP_char32 | REOP_dot | REOP_any |
  REOP_line_start | REOP_line_end | REOP_goto | REOP_split_goto_first | REOP_split_next_first |
  REOP_match | REOP_save_start | REOP_save_end | REOP_save_reset | REOP_loop | REOP_push_i32 |
  REOP_drop | REOP_word_boundary | REOP_not_word_boundary | REOP_back_reference |
  REOP_backward_back_reference | REOP_range | REOP_range32 | REOP_lookahead |
  REOP_negative_lookahead | REOP_push_char_pos | REOP_check_advance | REOP_prev |
  REOP_simple_greedy_quant

definition reop_list :: "reop list" where
  "reop_list =
     [REOP_invalid, REOP_char8, REOP_char16, REOP_char32, REOP_dot, REOP_any,
      REOP_line_start, REOP_line_end, REOP_goto, REOP_split_goto_first, REOP_split_next_first,
      REOP_match, REOP_save_start, REOP_save_end, REOP_save_reset, REOP_loop, REOP_push_i32,
      REOP_drop, REOP_word_boundary, REOP_not_word_boundary, REOP_back_reference,
      REOP_backward_back_reference, REOP_range, REOP_range32, REOP_lookahead,
      REOP_negative_lookahead, REOP_push_char_pos, REOP_check_advance, REOP_prev,
      REOP_simple_greedy_quant]"

definition reop_of :: "u8 \<Rightarrow> reop option" where
  "reop_of b = mem_get reop_list (unat b)"

fun reopcode_size :: "reop \<Rightarrow> nat" where
  "reopcode_size REOP_char8 = 2"
| "reopcode_size REOP_char16 = 3"
| "reopcode_size REOP_char32 = 5"
| "reopcode_size REOP_goto = 5"
| "reopcode_size REOP_split_goto_first = 5"
| "reopcode_size REOP_split_next_first = 5"
| "reopcode_size REOP_save_start = 2"
| "reopcode_size REOP_save_end = 2"
| "reopcode_size REOP_save_reset = 3"
| "reopcode_size REOP_loop = 5"
| "reopcode_size REOP_push_i32 = 5"
| "reopcode_size REOP_back_reference = 2"
| "reopcode_size REOP_backward_back_reference = 2"
| "reopcode_size REOP_range = 3"
| "reopcode_size REOP_range32 = 3"
| "reopcode_size REOP_lookahead = 5"
| "reopcode_size REOP_negative_lookahead = 5"
| "reopcode_size REOP_simple_greedy_quant = 17"
| "reopcode_size _ = 1"

abbreviation (input) "RE_HEADER_FLAGS \<equiv> 0 :: nat"
abbreviation (input) "RE_HEADER_CAPTURE_COUNT \<equiv> 2 :: nat"
abbreviation (input) "RE_HEADER_STACK_SIZE \<equiv> 3 :: nat"
abbreviation (input) "RE_HEADER_BYTECODE_LEN \<equiv> 4 :: nat"
abbreviation (input) "RE_HEADER_LEN \<equiv> 8 :: nat"

subsection \<open>Context and state\<close>

datatype re_exec_type =
  RE_EXEC_STATE_SPLIT | RE_EXEC_STATE_LOOKAHEAD | RE_EXEC_STATE_NEGATIVE_LOOKAHEAD | RE_EXEC_STATE_GREEDY_QUANT

record re_saved =
  rs_type :: re_exec_type
  rs_stack_len :: nat
  rs_count :: u64
  rs_cptr :: nat
  rs_pc :: nat
  rs_captures :: "nat option list"
  rs_stack :: "u64 list"

record 'h re_context =
  big_endian :: bool
  bc :: "u8 list"
  cbuf :: "u16 list"
  cbuf_end :: nat
  cbuf_addr :: u64
  cbuf_type :: nat
  capture_count :: nat
  stack_size_max :: nat
  multi_line :: bool
  ignore_case :: bool
  is_unicode :: bool
  canonicalize :: "u32 \<Rightarrow> bool \<Rightarrow> u32"
  state_size :: nat
  state_realloc :: "'h \<Rightarrow> nat \<Rightarrow> 'h \<times> bool"

text \<open>The locals of \<open>lre_exec_backtrack\<close> and the parts of the context it changes.\<close>

record 'h re_thread =
  heap :: 'h
  captures :: "nat option list"
  stack :: "u64 list"
  stack_len :: nat
  pc :: nat
  cptr :: nat
  states :: "re_saved list"
  states_size :: nat

subsection \<open>Reading characters\<close>

definition get_char :: "'h re_context \<Rightarrow> nat \<Rightarrow> nat \<Rightarrow> (u32 \<times> nat) option" where
  "get_char s p e = do {
     u \<leftarrow> mem_get (cbuf s) p;
     let c = ucast u;
     if cbuf_type s \<noteq> 0 \<and> is_hi_surrogate c \<and> cbuf_type s = 2 \<and> p + 1 < e then do {
       u2 \<leftarrow> mem_get (cbuf s) (p + 1);
       Some (if is_lo_surrogate (ucast u2) then (from_surrogate c (ucast u2), p + 2) else (c, p + 1)) }
     else Some (c, p + 1) }"

definition peek_char :: "'h re_context \<Rightarrow> nat \<Rightarrow> nat \<Rightarrow> u32 option" where
  "peek_char s p e = map_option fst (get_char s p e)"

definition get_prev_char :: "'h re_context \<Rightarrow> nat \<Rightarrow> nat \<Rightarrow> (u32 \<times> nat) option" where
  "get_prev_char s p start =
     (if p = 0 then None
      else do {
        u \<leftarrow> mem_get (cbuf s) (p - 1);
        let c = ucast u;
        if cbuf_type s \<noteq> 0 \<and> is_lo_surrogate c \<and> cbuf_type s = 2 \<and> p - 1 > start then do {
          u2 \<leftarrow> mem_get (cbuf s) (p - 2);
          Some (if is_hi_surrogate (ucast u2) then (from_surrogate (ucast u2) c, p - 2) else (c, p - 1)) }
        else Some (c, p - 1) })"

definition peek_prev_char :: "'h re_context \<Rightarrow> nat \<Rightarrow> nat \<Rightarrow> u32 option" where
  "peek_prev_char s p start = map_option fst (get_prev_char s p start)"

definition prev_char :: "'h re_context \<Rightarrow> nat \<Rightarrow> nat \<Rightarrow> nat option" where
  "prev_char s p start =
     (if p = 0 then None
      else if cbuf_type s = 0 then Some (p - 1)
      else map_option snd (get_prev_char s p start))"

primrec prev_chars :: "'h re_context \<Rightarrow> nat \<Rightarrow> nat \<Rightarrow> nat option" where
  "prev_chars s 0 p = Some p"
| "prev_chars s (Suc n) p = do { p \<leftarrow> prev_char s p 0; prev_chars s n p }"

abbreviation (input) "CP_LS \<equiv> 0x2028 :: u32"
abbreviation (input) "CP_PS \<equiv> 0x2029 :: u32"

definition is_line_terminator :: "u32 \<Rightarrow> bool" where
  "is_line_terminator c \<longleftrightarrow> c = 10 \<or> c = 13 \<or> c = CP_LS \<or> c = CP_PS"

definition is_word_char :: "u32 \<Rightarrow> bool" where
  "is_word_char c \<longleftrightarrow> 0x30 \<le> c \<and> c \<le> 0x39 \<or> 0x61 \<le> c \<and> c \<le> 0x7A \<or> 0x41 \<le> c \<and> c \<le> 0x5A \<or> c = 0x5F"

definition fold_case :: "'h re_context \<Rightarrow> u32 \<Rightarrow> u32" where
  "fold_case s c = (if ignore_case s then canonicalize s c (is_unicode s) else c)"

text \<open>The address of a position, as it is kept on the stack.\<close>

definition char_pos :: "'h re_context \<Rightarrow> nat \<Rightarrow> u64" where
  "char_pos s p = cbuf_addr s + word_of_nat (if cbuf_type s = 0 then p else 2 * p)"

definition pc_add :: "nat \<Rightarrow> u32 \<Rightarrow> nat option" where
  "pc_add p v = (let t = int p + sint v in if 0 \<le> t then Some (nat t) else None)"

subsection \<open>Saving and restoring states\<close>

text \<open>Room for one more saved state; \<open>(th, False)\<close>: the stack could not be grown.\<close>

definition grow_states :: "'h re_context \<Rightarrow> 'h re_thread \<Rightarrow> ('h re_thread \<times> bool) option" where
  "grow_states s th =
     (if length (states th) + 1 > states_size th then
        (let new_size = max (states_size th * 3 div 2) 8
         in if new_size * state_size s \<ge> 2 ^ 64 then None
            else let (h, ok) = state_realloc s (heap th) (new_size * state_size s)
                 in Some (if ok then (th\<lparr>heap := h, states_size := new_size\<rparr>, True) else (th\<lparr>heap := h\<rparr>, False)))
      else Some (th, True))"

definition push_state ::
    "'h re_context \<Rightarrow> 'h re_thread \<Rightarrow> nat \<Rightarrow> nat \<Rightarrow> re_exec_type \<Rightarrow> u64 \<Rightarrow> ('h re_thread \<times> bool) option" where
  "push_state s th p cp typ count = do {
     (th, ok) \<leftarrow> grow_states s th;
     if \<not> ok then Some (th, False)
     else do {
       caps \<leftarrow> mem_read (captures th) 0 (2 * capture_count s);
       stk \<leftarrow> mem_read (stack th) 0 (stack_len th);
       let rs = \<lparr>rs_type = typ, rs_stack_len = stack_len th mod 256, rs_count = count,
                 rs_cptr = cp, rs_pc = p, rs_captures = caps, rs_stack = stk\<rparr>;
       Some (th\<lparr>states := rs # states th\<rparr>, True) } }"

definition restore_captures :: "re_saved \<Rightarrow> 'h re_thread \<Rightarrow> 'h re_thread option" where
  "restore_captures rs th = do {
     caps \<leftarrow> mem_write (captures th) 0 (rs_captures rs);
     Some (th\<lparr>captures := caps\<rparr>) }"

definition restore_stack :: "re_saved \<Rightarrow> 'h re_thread \<Rightarrow> 'h re_thread option" where
  "restore_stack rs th = do {
     stk \<leftarrow> mem_write (stack th) 0 (take (rs_stack_len rs) (rs_stack rs));
     Some (th\<lparr>stack := stk, stack_len := rs_stack_len rs\<rparr>) }"

text \<open>The states after a match (\<open>ret\<close>) or a mismatch: a state to go on from, or the result.\<close>

datatype 'h re_resume = Resume "'h re_thread" | Finish bool "'h re_thread"

function unwind :: "'h re_context \<Rightarrow> bool \<Rightarrow> 'h re_thread \<Rightarrow> 'h re_resume option" where
  "unwind s ret th =
     (case states th of
        [] \<Rightarrow> Some (Finish ret th)
      | rs # rest \<Rightarrow>
          (case rs_type rs of
             RE_EXEC_STATE_SPLIT \<Rightarrow>
               if \<not> ret then do {
                 th \<leftarrow> restore_captures rs th;
                 th \<leftarrow> restore_stack rs th;
                 Some (Resume (th\<lparr>pc := rs_pc rs, cptr := rs_cptr rs, states := rest\<rparr>)) }
               else unwind s ret (th\<lparr>states := rest\<rparr>)
           | RE_EXEC_STATE_GREEDY_QUANT \<Rightarrow>
               if \<not> ret then do {
                 th \<leftarrow> restore_captures rs th;
                 th \<leftarrow> restore_stack rs th;
                 char_count \<leftarrow> get_u32 (big_endian s) (bc s) (rs_pc rs + 12);
                 cp \<leftarrow> prev_chars s (unat char_count) (rs_cptr rs);
                 next_pos \<leftarrow> get_u32 (big_endian s) (bc s) (rs_pc rs);
                 p \<leftarrow> pc_add (rs_pc rs + 16) next_pos;
                 let count = rs_count rs - 1;
                 Some (Resume (th\<lparr>pc := p, cptr := cp,
                   states := (if count = 0 then rest else rs\<lparr>rs_cptr := cp, rs_count := count\<rparr> # rest)\<rparr>)) }
               else unwind s ret (th\<lparr>states := rest\<rparr>)
           | RE_EXEC_STATE_LOOKAHEAD \<Rightarrow>
               if ret then do {
                 th \<leftarrow> restore_stack rs th;
                 Some (Resume (th\<lparr>pc := rs_pc rs, cptr := rs_cptr rs, states := rest\<rparr>)) }
               else unwind s False (th\<lparr>states := rest\<rparr>)
           | RE_EXEC_STATE_NEGATIVE_LOOKAHEAD \<Rightarrow>
               if \<not> ret then do {
                 th \<leftarrow> restore_captures rs th;
                 th \<leftarrow> restore_stack rs th;
                 Some (Resume (th\<lparr>pc := rs_pc rs, cptr := rs_cptr rs, states := rest\<rparr>)) }
               else unwind s False (th\<lparr>states := rest\<rparr>)))"
  by pat_completeness auto
termination
  by (relation "measure (\<lambda>(s, ret, th). length (states th))") auto

declare unwind.simps [simp del]

subsection \<open>One instruction\<close>

text \<open>The end of an instruction: the next one, or one of the labels it jumps to.\<close>

datatype 'h re_next = Continue "'h re_thread" | No_match "'h re_thread" | Match "'h re_thread" | Exec_error "'h re_thread"

text \<open>\<open>test_char\<close>\<close>

definition test_char :: "'h re_context \<Rightarrow> u32 \<Rightarrow> 'h re_thread \<Rightarrow> 'h re_next option" where
  "test_char s val th =
     (if cptr th \<ge> cbuf_end s then Some (No_match th)
      else do {
        (c, cp) \<leftarrow> get_char s (cptr th) (cbuf_end s);
        let th = th\<lparr>cptr := cp\<rparr>;
        Some (if val \<noteq> fold_case s c then No_match th else Continue th) })"

text \<open>The binary search of the two range instructions; \<open>low_at\<close> and \<open>high_at\<close> read the table.\<close>

function range_loop :: "(nat \<Rightarrow> u32 option) \<Rightarrow> (nat \<Rightarrow> u32 option) \<Rightarrow> u32 \<Rightarrow> nat \<Rightarrow> nat \<Rightarrow> bool option" where
  "range_loop low_at high_at c idx_min idx_max =
     (if idx_min \<le> idx_max then do {
        let idx = (idx_min + idx_max) div 2;
        low \<leftarrow> low_at idx;
        high \<leftarrow> high_at idx;
        if c < low then (if idx = 0 then None else range_loop low_at high_at c idx_min (idx - 1))
        else if c > high then range_loop low_at high_at c (idx + 1) idx_max
        else Some True }
      else Some False)"
  by pat_completeness auto
termination
  by (relation "measure (\<lambda>(l, h, c, i, j). Suc j - i)") auto

declare range_loop.simps [simp del]

definition range_test :: "(nat \<Rightarrow> u32 option) \<Rightarrow> (nat \<Rightarrow> u32 option) \<Rightarrow> bool \<Rightarrow> nat \<Rightarrow> u32 \<Rightarrow> bool option" where
  "range_test low_at high_at wide n c = do {
     low \<leftarrow> low_at 0;
     if c < low then Some False
     else if n = 0 then None
     else do {
       high \<leftarrow> high_at (n - 1);
       if \<not> wide \<and> c \<ge> 0xFFFF \<and> high = 0xFFFF then Some True
       else if c > high then Some False
       else range_loop low_at high_at c 0 (n - 1) } }"

definition range_op :: "'h re_context \<Rightarrow> bool \<Rightarrow> 'h re_thread \<Rightarrow> 'h re_next option" where
  "range_op s wide th = do {
     n \<leftarrow> get_u16 (big_endian s) (bc s) (pc th);
     let p = pc th + 2;
     if cptr th \<ge> cbuf_end s then Some (No_match (th\<lparr>pc := p\<rparr>))
     else do {
       (c, cp) \<leftarrow> get_char s (cptr th) (cbuf_end s);
       let c = fold_case s c;
       found \<leftarrow> (if wide then range_test (\<lambda>i. get_u32 (big_endian s) (bc s) (p + i * 8))
                                         (\<lambda>i. get_u32 (big_endian s) (bc s) (p + i * 8 + 4)) True (unat n) c
                 else range_test (\<lambda>i. get_u16 (big_endian s) (bc s) (p + i * 4))
                                 (\<lambda>i. get_u16 (big_endian s) (bc s) (p + i * 4 + 2)) False (unat n) c);
       let th = th\<lparr>cptr := cp, pc := p\<rparr>;
       Some (if found then Continue (th\<lparr>pc := p + (if wide then 8 else 4) * unat n\<rparr>) else No_match th) } }"

text \<open>The two loops of the back references; the result is the position after the text, if it matches.\<close>

function back_ref_loop :: "'h re_context \<Rightarrow> nat \<Rightarrow> nat \<Rightarrow> nat \<Rightarrow> nat option option" where
  "back_ref_loop s cptr1 cptr1_end cp =
     (if cptr1 < cptr1_end then
        if cp \<ge> cbuf_end s then Some None
        else do {
          (c1, cptr1') \<leftarrow> get_char s cptr1 cptr1_end;
          (c2, cp') \<leftarrow> get_char s cp (cbuf_end s);
          if fold_case s c1 \<noteq> fold_case s c2 then Some None
          else back_ref_loop s cptr1' cptr1_end cp' }
      else Some (Some cp))"
  by pat_completeness auto
termination
  by (relation "measure (\<lambda>(s, p, e, c). e - p)")
    (auto simp: get_char_def Let_def split: if_splits bind_splits)

declare back_ref_loop.simps [simp del]

function back_ref_prev_loop :: "'h re_context \<Rightarrow> nat \<Rightarrow> nat \<Rightarrow> nat \<Rightarrow> nat option option" where
  "back_ref_prev_loop s cptr1 cptr1_start cp =
     (if cptr1 > cptr1_start then
        if cp = 0 then Some None
        else do {
          (c1, cptr1') \<leftarrow> get_prev_char s cptr1 cptr1_start;
          (c2, cp') \<leftarrow> get_prev_char s cp 0;
          if fold_case s c1 \<noteq> fold_case s c2 then Some None
          else back_ref_prev_loop s cptr1' cptr1_start cp' }
      else Some (Some cp))"
  by pat_completeness auto
termination
  by (relation "measure (\<lambda>(s, p, b, c). p)")
    (auto simp: get_prev_char_def Let_def split: if_splits bind_splits)

declare back_ref_prev_loop.simps [simp del]

definition back_ref :: "'h re_context \<Rightarrow> bool \<Rightarrow> 'h re_thread \<Rightarrow> 'h re_next option" where
  "back_ref s backward th = do {
     v \<leftarrow> mem_get (bc s) (pc th);
     let val = unat v;
     let th = th\<lparr>pc := pc th + 1\<rparr>;
     if val \<ge> capture_count s then Some (No_match th)
     else do {
       cptr1_start \<leftarrow> mem_get (captures th) (2 * val);
       cptr1_end \<leftarrow> mem_get (captures th) (2 * val + 1);
       case (cptr1_start, cptr1_end) of
         (Some a, Some b) \<Rightarrow> do {
           r \<leftarrow> (if backward then back_ref_prev_loop s b a (cptr th) else back_ref_loop s a b (cptr th));
           Some (case r of None \<Rightarrow> No_match th | Some cp \<Rightarrow> Continue (th\<lparr>cptr := cp\<rparr>)) }
       | _ \<Rightarrow> Some (Continue th) } }"

text \<open>\<open>while (val <= val2)\<close>\<close>

primrec reset_loop :: "nat option list \<Rightarrow> nat \<Rightarrow> nat \<Rightarrow> nat option list option" where
  "reset_loop caps val 0 = Some caps"
| "reset_loop caps val (Suc k) = do {
     caps \<leftarrow> mem_set caps (2 * val) None;
     caps \<leftarrow> mem_set caps (2 * val + 1) None;
     reset_loop caps (Suc val) k }"

definition word_boundary :: "'h re_context \<Rightarrow> nat \<Rightarrow> bool option" where
  "word_boundary s cp = do {
     v1 \<leftarrow> (if cp = 0 then Some False else map_option is_word_char (peek_prev_char s cp 0));
     v2 \<leftarrow> (if cp \<ge> cbuf_end s then Some False else map_option is_word_char (peek_char s cp (cbuf_end s)));
     Some (v1 \<noteq> v2) }"

definition push :: "'h re_thread \<Rightarrow> u64 \<Rightarrow> 'h re_next option" where
  "push th v = do {
     stk \<leftarrow> mem_set (stack th) (stack_len th) v;
     Some (Continue (th\<lparr>stack := stk, stack_len := stack_len th + 1\<rparr>)) }"

definition push_branch :: "'h re_context \<Rightarrow> 'h re_thread \<Rightarrow> nat \<Rightarrow> re_exec_type \<Rightarrow> 'h re_next option" where
  "push_branch s th p typ = do {
     (th, ok) \<leftarrow> push_state s th p (cptr th) typ 0;
     Some (if ok then Continue th else Exec_error th) }"


definition re_step :: "'h re_context \<Rightarrow> reop \<Rightarrow> 'h re_thread \<Rightarrow> 'h re_next option" where
  "re_step s opcode th =
     (let code = bc s; be = big_endian s; p = pc th; cp = cptr th in
      case opcode of
        REOP_match \<Rightarrow> Some (Match th)
      | REOP_char32 \<Rightarrow> do { val \<leftarrow> get_u32 be code p; test_char s val (th\<lparr>pc := p + 4\<rparr>) }
      | REOP_char16 \<Rightarrow> do { val \<leftarrow> get_u16 be code p; test_char s val (th\<lparr>pc := p + 2\<rparr>) }
      | REOP_char8 \<Rightarrow> do { val \<leftarrow> get_u8 code p; test_char s val (th\<lparr>pc := p + 1\<rparr>) }
      | REOP_split_goto_first \<Rightarrow> do {
          val \<leftarrow> get_u32 be code p;
          target \<leftarrow> pc_add (p + 4) val;
          push_branch s (th\<lparr>pc := target\<rparr>) (p + 4) RE_EXEC_STATE_SPLIT }
      | REOP_split_next_first \<Rightarrow> do {
          val \<leftarrow> get_u32 be code p;
          target \<leftarrow> pc_add (p + 4) val;
          push_branch s (th\<lparr>pc := p + 4\<rparr>) target RE_EXEC_STATE_SPLIT }
      | REOP_lookahead \<Rightarrow> do {
          val \<leftarrow> get_u32 be code p;
          target \<leftarrow> pc_add (p + 4) val;
          push_branch s (th\<lparr>pc := p + 4\<rparr>) target RE_EXEC_STATE_LOOKAHEAD }
      | REOP_negative_lookahead \<Rightarrow> do {
          val \<leftarrow> get_u32 be code p;
          target \<leftarrow> pc_add (p + 4) val;
          push_branch s (th\<lparr>pc := p + 4\<rparr>) target RE_EXEC_STATE_NEGATIVE_LOOKAHEAD }
      | REOP_goto \<Rightarrow> do {
          val \<leftarrow> get_u32 be code p;
          target \<leftarrow> pc_add (p + 4) val;
          Some (Continue (th\<lparr>pc := target\<rparr>)) }
      | REOP_line_start \<Rightarrow>
          if cp = 0 then Some (Continue th)
          else if \<not> multi_line s then Some (No_match th)
          else do {
            c \<leftarrow> peek_prev_char s cp 0;
            Some (if is_line_terminator c then Continue th else No_match th) }
      | REOP_line_end \<Rightarrow>
          if cp = cbuf_end s then Some (Continue th)
          else if \<not> multi_line s then Some (No_match th)
          else do {
            c \<leftarrow> peek_char s cp (cbuf_end s);
            Some (if is_line_terminator c then Continue th else No_match th) }
      | REOP_dot \<Rightarrow>
          if cp = cbuf_end s then Some (No_match th)
          else do {
            (c, cp) \<leftarrow> get_char s cp (cbuf_end s);
            let th = th\<lparr>cptr := cp\<rparr>;
            Some (if is_line_terminator c then No_match th else Continue th) }
      | REOP_any \<Rightarrow>
          if cp = cbuf_end s then Some (No_match th)
          else do {
            (c, cp) \<leftarrow> get_char s cp (cbuf_end s);
            Some (Continue (th\<lparr>cptr := cp\<rparr>)) }
      | REOP_save_start \<Rightarrow> do {
          val \<leftarrow> mem_get code p;
          if unat val < capture_count s then do {
            caps \<leftarrow> mem_set (captures th) (2 * unat val) (Some cp);
            Some (Continue (th\<lparr>pc := p + 1, captures := caps\<rparr>)) }
          else None }
      | REOP_save_end \<Rightarrow> do {
          val \<leftarrow> mem_get code p;
          if unat val < capture_count s then do {
            caps \<leftarrow> mem_set (captures th) (2 * unat val + 1) (Some cp);
            Some (Continue (th\<lparr>pc := p + 1, captures := caps\<rparr>)) }
          else None }
      | REOP_save_reset \<Rightarrow> do {
          val \<leftarrow> mem_get code p;
          val2 \<leftarrow> mem_get code (p + 1);
          if unat val2 < capture_count s then do {
            caps \<leftarrow> reset_loop (captures th) (unat val) (Suc (unat val2) - unat val);
            Some (Continue (th\<lparr>pc := p + 2, captures := caps\<rparr>)) }
          else None }
      | REOP_push_i32 \<Rightarrow> do {
          val \<leftarrow> get_u32 be code p;
          push (th\<lparr>pc := p + 4\<rparr>) (ucast val) }
      | REOP_drop \<Rightarrow>
          if stack_len th = 0 then None else Some (Continue (th\<lparr>stack_len := stack_len th - 1\<rparr>))
      | REOP_loop \<Rightarrow> do {
          val \<leftarrow> get_u32 be code p;
          if stack_len th = 0 then None
          else do {
            v \<leftarrow> mem_get (stack th) (stack_len th - 1);
            stk \<leftarrow> mem_set (stack th) (stack_len th - 1) (v - 1);
            target \<leftarrow> (if v - 1 \<noteq> 0 then pc_add (p + 4) val else Some (p + 4));
            Some (Continue (th\<lparr>stack := stk, pc := target\<rparr>)) } }
      | REOP_push_char_pos \<Rightarrow> push th (char_pos s cp)
      | REOP_check_advance \<Rightarrow>
          if stack_len th = 0 then None
          else do {
            v \<leftarrow> mem_get (stack th) (stack_len th - 1);
            let th = th\<lparr>stack_len := stack_len th - 1\<rparr>;
            Some (if v = char_pos s cp then No_match th else Continue th) }
      | REOP_word_boundary \<Rightarrow> do {
          b \<leftarrow> word_boundary s cp;
          Some (if b then Continue th else No_match th) }
      | REOP_not_word_boundary \<Rightarrow> do {
          b \<leftarrow> word_boundary s cp;
          Some (if b then No_match th else Continue th) }
      | REOP_back_reference \<Rightarrow> back_ref s False th
      | REOP_backward_back_reference \<Rightarrow> back_ref s True th
      | REOP_range \<Rightarrow> range_op s False th
      | REOP_range32 \<Rightarrow> range_op s True th
      | REOP_prev \<Rightarrow>
          if cp = 0 then Some (No_match th)
          else do {
            cp \<leftarrow> prev_char s cp 0;
            Some (Continue (th\<lparr>cptr := cp\<rparr>)) }
      | REOP_simple_greedy_quant \<Rightarrow> None
      | REOP_invalid \<Rightarrow> None)"

subsection \<open>The loop\<close>

text \<open>The values of \<open>lre_exec_backtrack\<close>: \<open>-1\<close>, \<open>0\<close>, \<open>1\<close>, or a position where it does not backtrack.\<close>

datatype re_value = Re_error | Re_no_match | Re_match | Re_at nat

datatype 'a run = Stuck | Out_of_fuel | Done 'a

fun run_bind :: "'a run \<Rightarrow> ('a \<Rightarrow> 'b run) \<Rightarrow> 'b run" where
  "run_bind Stuck f = Stuck"
| "run_bind Out_of_fuel f = Out_of_fuel"
| "run_bind (Done x) f = f x"

fun lift_run :: "'a option \<Rightarrow> 'a run" where
  "lift_run None = Stuck"
| "lift_run (Some x) = Done x"

definition INT32_MAX :: u32 where
  "INT32_MAX = 0x7FFFFFFF"

text \<open>
  \<open>quant_loop\<close> is the loop of \<open>REOP_simple_greedy_quant\<close>, which runs the atom at \<open>pc1\<close> by a
  call of \<open>exec\<close> that does not backtrack; its result is whether the call failed, the number of
  matches, and the state.
\<close>

fun exec :: "nat \<Rightarrow> 'h re_context \<Rightarrow> bool \<Rightarrow> 'h re_thread \<Rightarrow> (re_value \<times> 'h re_thread) run"
  and quant_loop :: "nat \<Rightarrow> 'h re_context \<Rightarrow> nat \<Rightarrow> u32 \<Rightarrow> nat \<Rightarrow> 'h re_thread \<Rightarrow> (bool \<times> nat \<times> 'h re_thread) run" where
  "exec 0 s no_recurse th = Out_of_fuel"
| "exec (Suc f) s no_recurse th =
     (let finish = (\<lambda>ret th.
        if no_recurse then Done (if ret then Re_at (cptr th) else Re_no_match, th)
        else run_bind (lift_run (unwind s ret th)) (\<lambda>r.
          case r of
            Resume th \<Rightarrow> exec f s no_recurse th
          | Finish ret th \<Rightarrow> Done (if ret then Re_match else Re_no_match, th)))
      in
      run_bind (lift_run (mem_get (bc s) (pc th))) (\<lambda>b.
      run_bind (lift_run (reop_of b)) (\<lambda>opcode.
      if opcode = REOP_simple_greedy_quant then
        (let p = pc th + 1 in
         run_bind (lift_run (get_u32 (big_endian s) (bc s) p)) (\<lambda>next_pos.
         run_bind (lift_run (get_u32 (big_endian s) (bc s) (p + 4))) (\<lambda>quant_min.
         run_bind (lift_run (get_u32 (big_endian s) (bc s) (p + 8))) (\<lambda>quant_max.
         run_bind (lift_run (pc_add (p + 16) next_pos)) (\<lambda>target.
         run_bind (quant_loop f s (p + 16) quant_max 0 (th\<lparr>pc := target\<rparr>)) (\<lambda>(failed, q, th).
         if failed then Done (Re_error, th)
         else if q < unat quant_min then finish False th
         else if q > unat quant_min then
           run_bind (lift_run (push_state s th p (cptr th) RE_EXEC_STATE_GREEDY_QUANT
                                (word_of_nat (q - unat quant_min)))) (\<lambda>(th, ok).
           if ok then exec f s no_recurse th else Done (Re_error, th))
         else exec f s no_recurse th))))))
      else
        run_bind (lift_run (re_step s opcode (th\<lparr>pc := pc th + 1\<rparr>))) (\<lambda>r.
        case r of
          Continue th \<Rightarrow> exec f s no_recurse th
        | No_match th \<Rightarrow> finish False th
        | Match th \<Rightarrow> finish True th
        | Exec_error th \<Rightarrow> Done (Re_error, th)))))"
| "quant_loop 0 s pc1 quant_max q th = Out_of_fuel"
| "quant_loop (Suc f) s pc1 quant_max q th =
     run_bind (exec f s True (th\<lparr>pc := pc1\<rparr>)) (\<lambda>(res, th1).
     let th1 = th1\<lparr>pc := pc th, cptr := cptr th, stack_len := stack_len th\<rparr> in
     case res of
       Re_error \<Rightarrow> Done (True, q, th1)
     | Re_at cp \<Rightarrow>
         let th1 = th1\<lparr>cptr := cp\<rparr> in
         if q + 1 \<ge> unat quant_max \<and> quant_max \<noteq> INT32_MAX then Done (False, q + 1, th1)
         else quant_loop f s pc1 quant_max (q + 1) th1
     | _ \<Rightarrow> Done (False, q, th1))"

declare exec.simps(2) [simp del] quant_loop.simps(2) [simp del]

subsection \<open>The entry point\<close>

abbreviation (input) "LRE_FLAG_IGNORECASE \<equiv> 2 :: u32"
abbreviation (input) "LRE_FLAG_MULTILINE \<equiv> 4 :: u32"
abbreviation (input) "LRE_FLAG_UNICODE \<equiv> 16 :: u32"
abbreviation (input) "LRE_FLAG_NAMED_GROUPS \<equiv> 128 :: u32"

definition lre_get_capture_count :: "u8 list \<Rightarrow> nat option" where
  "lre_get_capture_count bc_buf = map_option unat (mem_get bc_buf RE_HEADER_CAPTURE_COUNT)"

definition lre_get_flags :: "bool \<Rightarrow> u8 list \<Rightarrow> u32 option" where
  "lre_get_flags be bc_buf = get_u16 be bc_buf RE_HEADER_FLAGS"

text \<open>The index of the group names, if there are any.\<close>

definition lre_get_groupnames :: "bool \<Rightarrow> u8 list \<Rightarrow> nat option option" where
  "lre_get_groupnames be bc_buf = do {
     flags \<leftarrow> lre_get_flags be bc_buf;
     if flags AND LRE_FLAG_NAMED_GROUPS = 0 then Some None
     else do {
       re_bytecode_len \<leftarrow> get_u32 be bc_buf RE_HEADER_BYTECODE_LEN;
       Some (Some (RE_HEADER_LEN + unat re_bytecode_len)) } }"

text \<open>\<open>sizeof(REExecState)\<close> is 32; \<open>stk\<close> is what the fresh stack holds.\<close>

definition exec_context ::
    "bool \<Rightarrow> (u32 \<Rightarrow> bool \<Rightarrow> u32) \<Rightarrow> ('h \<Rightarrow> nat \<Rightarrow> 'h \<times> bool) \<Rightarrow> u64 \<Rightarrow> u8 list \<Rightarrow> u16 list \<Rightarrow> nat \<Rightarrow> nat \<Rightarrow> 'h re_context option" where
  "exec_context be canon grow addr bc_buf buf clen typ = do {
     re_flags \<leftarrow> lre_get_flags be bc_buf;
     n_capture \<leftarrow> lre_get_capture_count bc_buf;
     n_stack \<leftarrow> mem_get bc_buf RE_HEADER_STACK_SIZE;
     let unicode = (re_flags AND LRE_FLAG_UNICODE \<noteq> 0);
     Some \<lparr>big_endian = be, bc = bc_buf, cbuf = buf, cbuf_end = clen, cbuf_addr = addr,
           cbuf_type = (if typ = 1 \<and> unicode then 2 else typ),
           capture_count = n_capture, stack_size_max = unat n_stack,
           multi_line = (re_flags AND LRE_FLAG_MULTILINE \<noteq> 0),
           ignore_case = (re_flags AND LRE_FLAG_IGNORECASE \<noteq> 0),
           is_unicode = unicode, canonicalize = canon,
           state_size = 32 + n_capture * 8 * 2 + unat n_stack * 8, state_realloc = grow\<rparr> }"

primrec clear_captures :: "nat option list \<Rightarrow> nat \<Rightarrow> nat option list option" where
  "clear_captures caps 0 = Some caps"
| "clear_captures caps (Suc n) = do { caps \<leftarrow> clear_captures caps n; mem_set caps n None }"

definition lre_exec ::
    "nat \<Rightarrow> bool \<Rightarrow> (u32 \<Rightarrow> bool \<Rightarrow> u32) \<Rightarrow> ('h \<Rightarrow> nat \<Rightarrow> 'h \<times> bool) \<Rightarrow> u64 \<Rightarrow> 'h \<Rightarrow> u64 list \<Rightarrow> nat option list \<Rightarrow>
     u8 list \<Rightarrow> u16 list \<Rightarrow> nat \<Rightarrow> nat \<Rightarrow> nat \<Rightarrow> (re_value \<times> 'h re_thread) run" where
  "lre_exec fuel be canon grow addr h stk capture bc_buf buf cindex clen typ =
     run_bind (lift_run (exec_context be canon grow addr bc_buf buf clen typ)) (\<lambda>s.
     run_bind (lift_run (clear_captures capture (2 * capture_count s))) (\<lambda>caps.
     run_bind (exec fuel s False
       \<lparr>heap = h, captures = caps, stack = take (stack_size_max s) stk, stack_len = 0, pc = RE_HEADER_LEN,
        cptr = cindex, states = [], states_size = 0\<rparr>) (\<lambda>(ret, th).
     Done (ret, th\<lparr>heap := fst (state_realloc s (heap th) 0), states := [], states_size := 0\<rparr>))))"


end
