(* ===== verification/Regex_Safety.thy ===== *)
theory Regex_Safety
  imports Regex_Exec
begin

section \<open>Well-typed byte code does not get stuck\<close>

text \<open>
  A type system for the byte code of regular expressions: every instruction has a fixed stack
  depth (\<open>depths\<close>), its operands lie in the code and in range, and every successor has the
  depth the instruction leaves.  The atom of a simple quantifier is a straight line of tests that
  advances by the number of characters the quantifier states.  A run of typed code never gets
  stuck, whatever the input: no access outside the code, the input, the captures or the stack,
  no failed assertion and no invalid operation code.
\<close>

subsection \<open>Typed code\<close>

type_synonym depths = "(nat \<times> nat) list"

definition flows :: "depths \<Rightarrow> nat \<Rightarrow> nat \<Rightarrow> bool" where
  "flows D p d \<longleftrightarrow> map_of D p = Some d"

definition flows_jump :: "'h re_context \<Rightarrow> depths \<Rightarrow> nat \<Rightarrow> nat \<Rightarrow> bool" where
  "flows_jump s D p d \<longleftrightarrow>
     (case get_u32 (big_endian s) (bc s) p of
        None \<Rightarrow> False
      | Some v \<Rightarrow> (case pc_add (p + 4) v of None \<Rightarrow> False | Some t \<Rightarrow> flows D t d))"

definition opcode_at :: "'h re_context \<Rightarrow> nat \<Rightarrow> reop option" where
  "opcode_at s p = do { b \<leftarrow> mem_get (bc s) p; reop_of b }"

text \<open>The length of an instruction, with the table of a range.\<close>

definition instr_len :: "'h re_context \<Rightarrow> nat \<Rightarrow> reop \<Rightarrow> nat option" where
  "instr_len s p opcode =
     (case opcode of
        REOP_range \<Rightarrow> map_option (\<lambda>n. 3 + 4 * unat n) (get_u16 (big_endian s) (bc s) (p + 1))
      | REOP_range32 \<Rightarrow> map_option (\<lambda>n. 3 + 8 * unat n) (get_u16 (big_endian s) (bc s) (p + 1))
      | _ \<Rightarrow> Some (reopcode_size opcode))"

definition is_char_test :: "reop \<Rightarrow> bool" where
  "is_char_test opcode \<longleftrightarrow>
     opcode \<in> {REOP_char8, REOP_char16, REOP_char32, REOP_dot, REOP_any, REOP_range, REOP_range32}"

definition is_assertion :: "reop \<Rightarrow> bool" where
  "is_assertion opcode \<longleftrightarrow>
     opcode \<in> {REOP_line_start, REOP_line_end, REOP_word_boundary, REOP_not_word_boundary}"

text \<open>The code of an atom that advances by \<open>n\<close> characters, with at most \<open>k\<close> instructions.\<close>

primrec simple_atom :: "nat \<Rightarrow> 'h re_context \<Rightarrow> nat \<Rightarrow> nat \<Rightarrow> bool" where
  "simple_atom 0 s n p = False"
| "simple_atom (Suc k) s n p =
     (case opcode_at s p of
        None \<Rightarrow> False
      | Some opcode \<Rightarrow>
          if opcode = REOP_match then n = 0
          else (case instr_len s p opcode of
                  None \<Rightarrow> False
                | Some l \<Rightarrow> if is_char_test opcode then 0 < n \<and> simple_atom k s (n - 1) (p + l)
                            else is_assertion opcode \<and> simple_atom k s n (p + l)))"

text \<open>\<open>p\<close> is the index after the operation code.\<close>

definition quant_typed :: "'h re_context \<Rightarrow> depths \<Rightarrow> nat \<Rightarrow> nat \<Rightarrow> bool" where
  "quant_typed s D p d \<longleftrightarrow>
     p + 16 \<le> length (bc s) \<and> flows D (p + 16) d \<and>
     (case get_u32 (big_endian s) (bc s) p of
        None \<Rightarrow> False
      | Some v \<Rightarrow> (case pc_add (p + 16) v of None \<Rightarrow> False | Some t \<Rightarrow> flows D t d)) \<and>
     (case get_u32 (big_endian s) (bc s) (p + 12) of
        None \<Rightarrow> False
      | Some n \<Rightarrow> 0 < unat n \<and> simple_atom (length (bc s)) s (unat n) (p + 16))"

definition range_typed :: "'h re_context \<Rightarrow> depths \<Rightarrow> bool \<Rightarrow> nat \<Rightarrow> nat \<Rightarrow> bool" where
  "range_typed s D wide p d \<longleftrightarrow>
     (case get_u16 (big_endian s) (bc s) p of
        None \<Rightarrow> False
      | Some n \<Rightarrow>
          let q = p + 2 + (if wide then 8 else 4) * unat n
          in 0 < unat n \<and> q \<le> length (bc s) \<and> flows D q d)"

definition byte_below :: "'h re_context \<Rightarrow> nat \<Rightarrow> nat \<Rightarrow> bool" where
  "byte_below s p n \<longleftrightarrow> (case mem_get (bc s) p of None \<Rightarrow> False | Some v \<Rightarrow> unat v < n)"

definition instr_typed :: "'h re_context \<Rightarrow> depths \<Rightarrow> reop \<Rightarrow> nat \<Rightarrow> nat \<Rightarrow> bool" where
  "instr_typed s D opcode p d =
     (let size = length (bc s) in
      case opcode of
        REOP_match \<Rightarrow> True
      | REOP_char32 \<Rightarrow> p + 4 \<le> size \<and> flows D (p + 4) d
      | REOP_char16 \<Rightarrow> p + 2 \<le> size \<and> flows D (p + 2) d
      | REOP_char8 \<Rightarrow> p + 1 \<le> size \<and> flows D (p + 1) d
      | REOP_split_goto_first \<Rightarrow> flows D (p + 4) d \<and> flows_jump s D p d
      | REOP_split_next_first \<Rightarrow> flows D (p + 4) d \<and> flows_jump s D p d
      | REOP_lookahead \<Rightarrow> flows D (p + 4) d \<and> flows_jump s D p d
      | REOP_negative_lookahead \<Rightarrow> flows D (p + 4) d \<and> flows_jump s D p d
      | REOP_goto \<Rightarrow> flows_jump s D p d
      | REOP_line_start \<Rightarrow> flows D p d
      | REOP_line_end \<Rightarrow> flows D p d
      | REOP_dot \<Rightarrow> flows D p d
      | REOP_any \<Rightarrow> flows D p d
      | REOP_save_start \<Rightarrow> byte_below s p (capture_count s) \<and> flows D (p + 1) d
      | REOP_save_end \<Rightarrow> byte_below s p (capture_count s) \<and> flows D (p + 1) d
      | REOP_save_reset \<Rightarrow> byte_below s p 256 \<and> byte_below s (p + 1) (capture_count s) \<and> flows D (p + 2) d
      | REOP_push_i32 \<Rightarrow> p + 4 \<le> size \<and> d < stack_size_max s \<and> flows D (p + 4) (d + 1)
      | REOP_drop \<Rightarrow> 0 < d \<and> flows D p (d - 1)
      | REOP_loop \<Rightarrow> 0 < d \<and> flows D (p + 4) d \<and> flows_jump s D p d
      | REOP_push_char_pos \<Rightarrow> d < stack_size_max s \<and> flows D p (d + 1)
      | REOP_check_advance \<Rightarrow> 0 < d \<and> flows D p (d - 1)
      | REOP_word_boundary \<Rightarrow> flows D p d
      | REOP_not_word_boundary \<Rightarrow> flows D p d
      | REOP_back_reference \<Rightarrow> byte_below s p 256 \<and> flows D (p + 1) d
      | REOP_backward_back_reference \<Rightarrow> byte_below s p 256 \<and> flows D (p + 1) d
      | REOP_range \<Rightarrow> range_typed s D False p d
      | REOP_range32 \<Rightarrow> range_typed s D True p d
      | REOP_prev \<Rightarrow> flows D p d
      | REOP_simple_greedy_quant \<Rightarrow> quant_typed s D p d
      | REOP_invalid \<Rightarrow> False)"

definition code_typed :: "'h re_context \<Rightarrow> depths \<Rightarrow> bool" where
  "code_typed s D \<longleftrightarrow>
     (\<forall>(p, d) \<in> set D. d \<le> stack_size_max s \<and>
        (case opcode_at s p of None \<Rightarrow> False | Some opcode \<Rightarrow> instr_typed s D opcode (p + 1) d))"

lemma code_typedD:
  assumes "code_typed s D" "flows D p d"
  shows "\<exists>b opcode. mem_get (bc s) p = Some b \<and> reop_of b = Some opcode \<and> opcode_at s p = Some opcode \<and>
    instr_typed s D opcode (p + 1) d \<and> d \<le> stack_size_max s"
  using assms map_of_SomeD [of D p d]
  by (fastforce simp: code_typed_def flows_def opcode_at_def split: option.splits bind_splits)

lemma flows_jumpD:
  assumes "flows_jump s D p d"
  shows "\<exists>v t. get_u32 (big_endian s) (bc s) p = Some v \<and> pc_add (p + 4) v = Some t \<and> flows D t d"
  using assms by (auto simp: flows_jump_def split: option.splits)

subsection \<open>Characters\<close>

definition input_ok :: "'h re_context \<Rightarrow> bool" where
  "input_ok s \<longleftrightarrow> cbuf_end s \<le> length (cbuf s) \<and> cbuf_end s < 2 ^ 63 \<and> stack_size_max s < 256"

lemma get_char_ok:
  assumes "p < e" "e \<le> length (cbuf s)"
  shows "\<exists>c p'. get_char s p e = Some (c, p') \<and> p < p' \<and> p' \<le> e"
  using assms by (auto simp: get_char_def mem_get_def Let_def)

lemma get_prev_char_ok:
  assumes "start < p" "p \<le> length (cbuf s)"
  shows "\<exists>c p'. get_prev_char s p start = Some (c, p') \<and> start \<le> p' \<and> p' < p"
  using assms by (auto simp: get_prev_char_def mem_get_def Let_def)

lemma prev_char_ok:
  assumes "0 < p" "p \<le> length (cbuf s)"
  shows "\<exists>p'. prev_char s p 0 = Some p' \<and> p' < p"
  using get_prev_char_ok [OF assms] assms by (auto simp: prev_char_def)

text \<open>\<open>n\<close> characters forward, and the way back.\<close>

primrec gets :: "'h re_context \<Rightarrow> nat \<Rightarrow> nat \<Rightarrow> nat \<Rightarrow> bool" where
  "gets s 0 x y \<longleftrightarrow> x = y"
| "gets s (Suc n) x y \<longleftrightarrow> (\<exists>z c. gets s n x z \<and> z < cbuf_end s \<and> get_char s z (cbuf_end s) = Some (c, y))"

lemma gets_add: "gets s (n + k) x y \<longleftrightarrow> (\<exists>z. gets s k x z \<and> gets s n z y)"
  by (induction n arbitrary: y) auto

lemma gets_step: "gets s (Suc n) x y \<longleftrightarrow> (\<exists>z c. x < cbuf_end s \<and> get_char s x (cbuf_end s) = Some (c, z) \<and> gets s n z y)"
  using gets_add [of s n 1 x y] by auto

definition inside_pair :: "'h re_context \<Rightarrow> nat \<Rightarrow> bool" where
  "inside_pair s p \<longleftrightarrow> cbuf_type s = 2 \<and> 0 < p \<and> p < cbuf_end s \<and>
     is_hi_surrogate (ucast (cbuf s ! (p - 1))) \<and> is_lo_surrogate (ucast (cbuf s ! p))"

lemma surrogate_exclusive: "is_hi_surrogate c \<Longrightarrow> \<not> is_lo_surrogate c"
  by (simp add: is_hi_surrogate_def is_lo_surrogate_def)

definition pair_at :: "'h re_context \<Rightarrow> nat \<Rightarrow> bool" where
  "pair_at s p \<longleftrightarrow> cbuf_type s = 2 \<and> is_hi_surrogate (ucast (cbuf s ! p)) \<and> is_lo_surrogate (ucast (cbuf s ! (p + 1)))"

lemma get_char_next:
  assumes "x < e" "e \<le> length (cbuf s)" "get_char s x e = Some (c, y)"
  shows "y = (if x + 1 < e \<and> pair_at s x then x + 2 else x + 1)"
  using assms by (auto simp: get_char_def mem_get_def pair_at_def Let_def split: if_splits)

lemma prev_char_prev:
  assumes "0 < p" "p \<le> length (cbuf s)"
  shows "prev_char s p 0 = Some (if 1 < p \<and> pair_at s (p - 2) then p - 2 else p - 1)"
proof -
  have "Suc (p - 2) = p - 1" if "1 < p" using that by simp
  with assms show ?thesis
    by (cases "1 < p") (auto simp: prev_char_def get_prev_char_def mem_get_def pair_at_def Let_def)
qed

lemma pair_at_next: "pair_at s p \<Longrightarrow> \<not> pair_at s (p + 1)"
  using surrogate_exclusive by (auto simp: pair_at_def)

lemma get_prev_inverse:
  assumes "input_ok s" "get_char s x (cbuf_end s) = Some (c, y)" "x < cbuf_end s"
  shows "\<not> inside_pair s y" "\<not> inside_pair s x \<Longrightarrow> prev_char s y 0 = Some x"
    "\<exists>z. prev_char s y 0 = Some z"
proof -
  have len: "cbuf_end s \<le> length (cbuf s)" using assms(1) by (simp add: input_ok_def)
  have y: "y = (if x + 1 < cbuf_end s \<and> pair_at s x then x + 2 else x + 1)"
    by (rule get_char_next [OF assms(3) len assms(2)])
  have prev: "prev_char s y 0 = Some (if 1 < y \<and> pair_at s (y - 2) then y - 2 else y - 1)"
    using assms(3) len by (intro prev_char_prev) (auto simp: y)
  then show "\<exists>z. prev_char s y 0 = Some z" ..
  have inside: "inside_pair s p \<longleftrightarrow> 0 < p \<and> p < cbuf_end s \<and> pair_at s (p - 1)" for p
    by (cases p) (auto simp: inside_pair_def pair_at_def)
  show "\<not> inside_pair s y"
    using pair_at_next [of s x] assms(3) by (auto simp: inside y)
  show "prev_char s y 0 = Some x" if "\<not> inside_pair s x"
  proof (cases "x + 1 < cbuf_end s \<and> pair_at s x")
    case True
    then have "y = x + 2" by (simp add: y)
    with True prev show ?thesis by simp
  next
    case False
    then have "y = x + 1" by (simp add: y)
    moreover have "\<not> pair_at s (x - 1)" if "0 < x" using \<open>\<not> inside_pair s x\<close> that assms(3) by (simp add: inside)
    ultimately show ?thesis using prev by (cases x) auto
  qed
qed

lemma gets_le: "input_ok s \<Longrightarrow> gets s n x y \<Longrightarrow> x \<le> cbuf_end s \<Longrightarrow> y \<le> cbuf_end s"
  using get_char_ok [of _ "cbuf_end s" s] by (cases n) (fastforce simp: input_ok_def)+

lemma gets_prev_chars:
  assumes "input_ok s"
  shows "gets s n x y \<Longrightarrow> k \<le> n \<Longrightarrow> \<exists>z. prev_chars s k y = Some z"
proof (induction n arbitrary: k y)
  case (Suc n)
  then obtain z c where z: "gets s n x z" "z < cbuf_end s" "get_char s z (cbuf_end s) = Some (c, y)" by auto
  note inv = get_prev_inverse [OF assms z(3,2)]
  show ?case
  proof (cases k)
    case k: (Suc j)
    show ?thesis
    proof (cases n)
      case 0
      with k Suc.prems(2) inv(3) show ?thesis by auto
    next
      case n: (Suc n')
      with z(1) obtain w c' where "w < cbuf_end s" "get_char s w (cbuf_end s) = Some (c', z)" by auto
      then have "\<not> inside_pair s z" using get_prev_inverse(1) [OF assms] by blast
      with inv(2) Suc.IH [OF z(1), of j] k Suc.prems(2) show ?thesis by auto
    qed
  qed simp
qed simp

lemma prev_chars_le: "prev_chars s n p = Some q \<Longrightarrow> p \<le> length (cbuf s) \<Longrightarrow> q \<le> p"
proof (induction n arbitrary: p)
  case (Suc n)
  then obtain r where r: "prev_char s p 0 = Some r" "prev_chars s n r = Some q" by (auto split: bind_splits)
  then have "0 < p" by (auto simp: prev_char_def split: if_splits)
  then have "r < p" using prev_char_ok [of p s] Suc.prems(2) r(1) by auto
  with Suc.IH [OF r(2)] Suc.prems(2) show ?case by simp
qed simp

lemma prev_chars_add: "prev_chars s (n + k) p = do { q \<leftarrow> prev_chars s n p; prev_chars s k q }"
  by (induction n arbitrary: p) (simp_all split: bind_splits)

subsection \<open>Typed states\<close>

definition caps_ok :: "'h re_context \<Rightarrow> nat option list \<Rightarrow> bool" where
  "caps_ok s caps \<longleftrightarrow> 2 * capture_count s \<le> length caps \<and>
     (\<forall>i < 2 * capture_count s. \<forall>p. caps ! i = Some p \<longrightarrow> p \<le> cbuf_end s)"

text \<open>A saved quantifier can still go back \<open>rs_count\<close> times.\<close>

definition saved_quant_ok :: "'h re_context \<Rightarrow> depths \<Rightarrow> re_saved \<Rightarrow> bool" where
  "saved_quant_ok s D rs \<longleftrightarrow> rs_count rs \<noteq> 0 \<and>
     (\<exists>v t n. get_u32 (big_endian s) (bc s) (rs_pc rs) = Some v \<and> pc_add (rs_pc rs + 16) v = Some t \<and>
        flows D t (rs_stack_len rs) \<and> get_u32 (big_endian s) (bc s) (rs_pc rs + 12) = Some n \<and>
        prev_chars s (unat (rs_count rs) * unat n) (rs_cptr rs) \<noteq> None)"

definition saved_ok :: "'h re_context \<Rightarrow> depths \<Rightarrow> re_saved \<Rightarrow> bool" where
  "saved_ok s D rs \<longleftrightarrow>
     length (rs_captures rs) = 2 * capture_count s \<and> caps_ok s (rs_captures rs) \<and>
     rs_stack_len rs \<le> stack_size_max s \<and> length (rs_stack rs) = rs_stack_len rs \<and> rs_cptr rs \<le> cbuf_end s \<and>
     (if rs_type rs = RE_EXEC_STATE_GREEDY_QUANT then saved_quant_ok s D rs else flows D (rs_pc rs) (rs_stack_len rs))"

definition frame_ok :: "'h re_context \<Rightarrow> depths \<Rightarrow> 'h re_thread \<Rightarrow> bool" where
  "frame_ok s D th \<longleftrightarrow> caps_ok s (captures th) \<and> length (stack th) = stack_size_max s \<and>
     cptr th \<le> cbuf_end s \<and> (\<forall>rs \<in> set (states th). saved_ok s D rs) \<and>
     states_size th * state_size s < 2 ^ 63"

definition thread_ok :: "'h re_context \<Rightarrow> depths \<Rightarrow> 'h re_thread \<Rightarrow> bool" where
  "thread_ok s D th \<longleftrightarrow> frame_ok s D th \<and> flows D (pc th) (stack_len th)"

text \<open>No allocator returns an object of \<open>2^63\<close> bytes or more.\<close>

definition memory_ok :: "'h re_context \<Rightarrow> bool" where
  "memory_ok s \<longleftrightarrow> input_ok s \<and> 0 < state_size s \<and> state_size s \<le> 2 ^ 16 \<and>
     (\<forall>h n h'. state_realloc s h n = (h', True) \<longrightarrow> n < 2 ^ 63)"

lemma frame_ok_simps [simp]:
  "frame_ok s D (th\<lparr>pc := p\<rparr>) = frame_ok s D th"
  "frame_ok s D (th\<lparr>stack_len := d\<rparr>) = frame_ok s D th"
  "cp \<le> cbuf_end s \<Longrightarrow> frame_ok s D th \<Longrightarrow> frame_ok s D (th\<lparr>cptr := cp\<rparr>)"
  by (simp_all add: frame_ok_def)

lemma frame_okD:
  assumes "frame_ok s D th"
  shows "caps_ok s (captures th)" "length (stack th) = stack_size_max s" "cptr th \<le> cbuf_end s"
    "\<forall>rs \<in> set (states th). saved_ok s D rs" "states_size th * state_size s < 2 ^ 63"
  using assms by (simp_all add: frame_ok_def)

lemma caps_ok_set:
  "caps_ok s caps \<Longrightarrow> i < 2 * capture_count s \<Longrightarrow> (\<And>p. v = Some p \<Longrightarrow> p \<le> cbuf_end s) \<Longrightarrow>
     \<exists>caps'. mem_set caps i v = Some caps' \<and> caps_ok s caps'"
  by (auto simp: caps_ok_def mem_set_def nth_list_update)

lemma flows_depth: "code_typed s D \<Longrightarrow> flows D p d \<Longrightarrow> d \<le> stack_size_max s"
  using code_typedD by blast

lemma grow_states_ok:
  assumes mem: "memory_ok s" and fr: "frame_ok s D th"
  shows "\<exists>th1 ok. grow_states s th = Some (th1, ok) \<and> frame_ok s D th1 \<and> pc th1 = pc th \<and> cptr th1 = cptr th \<and>
    stack_len th1 = stack_len th \<and> captures th1 = captures th \<and> stack th1 = stack th"
proof (cases "length (states th) + 1 > states_size th")
  case True
  define n where "n = max (states_size th * 3 div 2) 8"
  have "2 * (states_size th * 3 div 2) \<le> 3 * states_size th" by presburger
  then have "2 * (states_size th * 3 div 2 * state_size s) \<le> 3 * (states_size th * state_size s)"
    using mult_le_mono1 [of "2 * (states_size th * 3 div 2)" "3 * states_size th" "state_size s"]
    by (simp add: mult.assoc)
  then have "states_size th * 3 div 2 * state_size s < 2 ^ 64"
  proof -
    have "x < 2 ^ 64" if "2 * x \<le> 3 * y" "y < 2 ^ 63" for x y :: nat using that by simp
    then show ?thesis using \<open>2 * (states_size th * 3 div 2 * state_size s) \<le> _\<close> frame_okD(5) [OF fr] by blast
  qed
  moreover have "8 * state_size s < 2 ^ 64" using mem by (simp add: memory_ok_def)
  ultimately have n: "n * state_size s < 2 ^ 64" by (simp add: n_def max_def)
  obtain h ok where a: "state_realloc s (heap th) (n * state_size s) = (h, ok)" by fastforce
  show ?thesis
  proof (cases ok)
    case True
    with a mem have "n * state_size s < 2 ^ 63" by (auto simp: memory_ok_def)
    then have "frame_ok s D (th\<lparr>heap := h, states_size := n\<rparr>)" using fr by (simp add: frame_ok_def)
    with \<open>length (states th) + 1 > states_size th\<close> n a True show ?thesis
      by (intro exI [of _ "th\<lparr>heap := h, states_size := n\<rparr>"] exI [of _ True]) (simp add: grow_states_def Let_def flip: n_def)
  next
    case False
    have "frame_ok s D (th\<lparr>heap := h\<rparr>)" using fr by (simp add: frame_ok_def)
    with \<open>length (states th) + 1 > states_size th\<close> n a False show ?thesis
      by (intro exI [of _ "th\<lparr>heap := h\<rparr>"] exI [of _ False]) (simp add: grow_states_def Let_def flip: n_def)
  qed
next
  case False
  with fr show ?thesis by (intro exI [of _ th] exI [of _ True]) (simp add: grow_states_def)
qed

lemma push_state_ok:
  assumes mem: "memory_ok s" and fr: "frame_ok s D th" and d: "stack_len th \<le> stack_size_max s" and cp: "cp \<le> cbuf_end s"
    and target: "if typ = RE_EXEC_STATE_GREEDY_QUANT
      then \<forall>caps stk. saved_quant_ok s D \<lparr>rs_type = typ, rs_stack_len = stack_len th, rs_count = count, rs_cptr = cp,
             rs_pc = p, rs_captures = caps, rs_stack = stk\<rparr>
      else flows D p (stack_len th)"
  shows "\<exists>th' ok. push_state s th p cp typ count = Some (th', ok) \<and> frame_ok s D th' \<and>
    pc th' = pc th \<and> cptr th' = cptr th \<and> stack_len th' = stack_len th"
proof -
  obtain th1 ok where th1: "grow_states s th = Some (th1, ok)" "frame_ok s D th1" "pc th1 = pc th" "cptr th1 = cptr th"
    "stack_len th1 = stack_len th" "captures th1 = captures th" "stack th1 = stack th"
    using grow_states_ok [OF mem fr] by blast
  show ?thesis
  proof (cases ok)
    case True
    note fd = frame_okD [OF th1(2)]
    let ?caps = "take (2 * capture_count s) (captures th)" and ?stk = "take (stack_len th) (stack th)"
    define rs where "rs = \<lparr>rs_type = typ, rs_stack_len = stack_len th, rs_count = count, rs_cptr = cp,
      rs_pc = p, rs_captures = ?caps, rs_stack = ?stk\<rparr>"
    have caps: "mem_read (captures th1) 0 (2 * capture_count s) = Some ?caps"
      using fd(1) th1(6) by (simp add: mem_read_def caps_ok_def)
    have stk: "mem_read (stack th1) 0 (stack_len th1) = Some ?stk"
      using fd(2) d th1(5,7) by (simp add: mem_read_def)
    have "stack_len th mod 256 = stack_len th" using d mem by (simp add: memory_ok_def input_ok_def)
    then have run: "push_state s th p cp typ count = Some (th1\<lparr>states := rs # states th1\<rparr>, True)"
      using th1(1) True caps stk th1(5) by (simp add: push_state_def rs_def)
    have "saved_ok s D rs"
      using fd(1,2) th1(6,7) d cp target by (auto simp: saved_ok_def caps_ok_def rs_def)
    then have "frame_ok s D (th1\<lparr>states := rs # states th1\<rparr>)" using th1(2) by (simp add: frame_ok_def)
    then show ?thesis
      by (intro exI [of _ "th1\<lparr>states := rs # states th1\<rparr>"] exI [of _ True] conjI run) (simp_all add: th1(3-5))
  next
    case False
    then show ?thesis
      by (intro exI [of _ th1] exI [of _ False] conjI) (simp_all add: push_state_def th1)
  qed
qed

lemma restore_ok:
  assumes fr: "frame_ok s D th" and rs: "saved_ok s D rs"
  shows "\<exists>th'. restore_captures rs th = Some th' \<and> frame_ok s D th' \<and> states th' = states th"
    "\<exists>th'. restore_stack rs th = Some th' \<and> frame_ok s D th' \<and> stack_len th' = rs_stack_len rs \<and> states th' = states th"
proof -
  note fd = frame_okD [OF fr]
  have l: "length (rs_captures rs) = 2 * capture_count s" "2 * capture_count s \<le> length (captures th)"
    using fd(1) rs by (simp_all add: saved_ok_def caps_ok_def)
  then have "mem_write (captures th) 0 (rs_captures rs) = Some (rs_captures rs @ drop (2 * capture_count s) (captures th))"
    by (simp add: mem_write_def)
  moreover have "caps_ok s (rs_captures rs @ drop (2 * capture_count s) (captures th))"
    using rs l by (simp add: saved_ok_def caps_ok_def nth_append)
  ultimately show "\<exists>th'. restore_captures rs th = Some th' \<and> frame_ok s D th' \<and> states th' = states th"
    using fr by (simp add: restore_captures_def frame_ok_def)
  have "mem_write (stack th) 0 (take (rs_stack_len rs) (rs_stack rs)) =
      Some (rs_stack rs @ drop (rs_stack_len rs) (stack th))"
    using rs fd(2) by (simp add: mem_write_def saved_ok_def)
  moreover have "length (rs_stack rs @ drop (rs_stack_len rs) (stack th)) = stack_size_max s"
    using rs fd(2) by (simp add: saved_ok_def)
  ultimately show "\<exists>th'. restore_stack rs th = Some th' \<and> frame_ok s D th' \<and> stack_len th' = rs_stack_len rs \<and> states th' = states th"
    using fr by (simp add: restore_stack_def frame_ok_def)
qed

fun resume_ok :: "'h re_context \<Rightarrow> depths \<Rightarrow> 'h re_resume \<Rightarrow> bool" where
  "resume_ok s D (Resume th) = thread_ok s D th"
| "resume_ok s D (Finish ret th) = frame_ok s D th"

lemma greedy_back:
  assumes inp: "input_ok s" and rs: "saved_ok s D rs" "rs_type rs = RE_EXEC_STATE_GREEDY_QUANT"
  shows "\<exists>n v t cp. get_u32 (big_endian s) (bc s) (rs_pc rs + 12) = Some n \<and> prev_chars s (unat n) (rs_cptr rs) = Some cp \<and>
    get_u32 (big_endian s) (bc s) (rs_pc rs) = Some v \<and> pc_add (rs_pc rs + 16) v = Some t \<and> flows D t (rs_stack_len rs) \<and>
    cp \<le> cbuf_end s \<and> (rs_count rs - 1 \<noteq> 0 \<longrightarrow> saved_ok s D (rs\<lparr>rs_cptr := cp, rs_count := rs_count rs - 1\<rparr>))"
proof -
  from rs obtain v t n where q: "rs_count rs \<noteq> 0" "get_u32 (big_endian s) (bc s) (rs_pc rs) = Some v"
    "pc_add (rs_pc rs + 16) v = Some t" "flows D t (rs_stack_len rs)"
    "get_u32 (big_endian s) (bc s) (rs_pc rs + 12) = Some n"
    "prev_chars s (unat (rs_count rs) * unat n) (rs_cptr rs) \<noteq> None"
    by (auto simp: saved_ok_def saved_quant_ok_def)
  define k where "k = unat (rs_count rs - 1)"
  have "unat (rs_count rs) \<noteq> 0" using q(1) by (simp add: unat_eq_0)
  then have k: "unat (rs_count rs) = Suc k" using q(1) by (simp add: k_def unat_minus_one)
  then have "prev_chars s (unat n + k * unat n) (rs_cptr rs) \<noteq> None" using q(6) by simp
  then obtain cp where cp: "prev_chars s (unat n) (rs_cptr rs) = Some cp" "prev_chars s (k * unat n) cp \<noteq> None"
    unfolding prev_chars_add by (cases "prev_chars s (unat n) (rs_cptr rs)") auto
  have "rs_cptr rs \<le> cbuf_end s" "cbuf_end s \<le> length (cbuf s)" using rs inp by (simp_all add: saved_ok_def input_ok_def)
  then have le: "cp \<le> cbuf_end s" using prev_chars_le [OF cp(1)] by linarith
  have "saved_ok s D (rs\<lparr>rs_cptr := cp, rs_count := rs_count rs - 1\<rparr>)" if "rs_count rs - 1 \<noteq> 0"
    using rs q cp(2) le that by (auto simp: saved_ok_def saved_quant_ok_def simp flip: k_def)
  with q cp(1) le show ?thesis by blast
qed

lemma unwind_ok:
  assumes inp: "input_ok s"
  shows "frame_ok s D th \<Longrightarrow> \<exists>r. unwind s ret th = Some r \<and> resume_ok s D r"
proof (induction "states th" arbitrary: th ret)
  case Nil
  then show ?case by (simp add: unwind.simps [of s ret th])
next
  case (Cons rs rest)
  note simps = unwind.simps [of s ret th]
  have st: "states th = rs # rest" using Cons.hyps(2) by simp
  have rs: "saved_ok s D rs" using Cons.prems st by (simp add: frame_ok_def)
  have fr: "frame_ok s D (th\<lparr>states := rest\<rparr>)" using Cons.prems st by (simp add: frame_ok_def)
  have pop: "\<exists>r. unwind s ret' (th\<lparr>states := rest\<rparr>) = Some r \<and> resume_ok s D r" for ret'
    using Cons.hyps(1) [of "th\<lparr>states := rest\<rparr>"] fr by simp
  obtain th1 where th1: "restore_captures rs th = Some th1" "frame_ok s D th1" "states th1 = states th"
    using restore_ok(1) [OF Cons.prems rs] by blast
  obtain th2 where th2: "restore_stack rs th1 = Some th2" "frame_ok s D th2" "stack_len th2 = rs_stack_len rs"
    "states th2 = states th"
    using restore_ok(2) [OF th1(2) rs] th1(3) by auto
  obtain th3 where th3: "restore_stack rs th = Some th3" "frame_ok s D th3" "stack_len th3 = rs_stack_len rs"
    "states th3 = states th"
    using restore_ok(2) [OF Cons.prems rs] by blast
  have resume: "thread_ok s D (t\<lparr>pc := p, cptr := cp, states := sts\<rparr>)"
    if "frame_ok s D t" "stack_len t = rs_stack_len rs" "flows D p (rs_stack_len rs)" "cp \<le> cbuf_end s"
      "\<forall>r \<in> set sts. saved_ok s D r" for t p cp sts
    using that by (simp add: thread_ok_def frame_ok_def)
  have rest: "\<forall>r \<in> set rest. saved_ok s D r" using fr by (simp add: frame_ok_def)
  have cp: "rs_cptr rs \<le> cbuf_end s" using rs by (simp add: saved_ok_def)
  show ?case
  proof (cases "rs_type rs = RE_EXEC_STATE_GREEDY_QUANT")
    case True
    obtain n v t c where g: "get_u32 (big_endian s) (bc s) (rs_pc rs + 12) = Some n"
      "prev_chars s (unat n) (rs_cptr rs) = Some c" "get_u32 (big_endian s) (bc s) (rs_pc rs) = Some v"
      "pc_add (rs_pc rs + 16) v = Some t" "flows D t (rs_stack_len rs)" "c \<le> cbuf_end s"
      "rs_count rs - 1 \<noteq> 0 \<longrightarrow> saved_ok s D (rs\<lparr>rs_cptr := c, rs_count := rs_count rs - 1\<rparr>)"
      using greedy_back [OF inp rs True] by blast
    have "\<forall>r \<in> set (if rs_count rs - 1 = 0 then rest else rs\<lparr>rs_cptr := c, rs_count := rs_count rs - 1\<rparr> # rest). saved_ok s D r"
      using g(7) rest by auto
    note ok = resume [OF th2(2,3) g(5,6) this]
    show ?thesis
      unfolding simps using True pop [of True] g th1(1) th2(1) ok by (cases ret) (simp_all add: st Let_def)
  next
    case False
    then have p: "flows D (rs_pc rs) (rs_stack_len rs)" using rs by (simp add: saved_ok_def)
    note ok2 = resume [OF th2(2,3) p cp rest] and ok3 = resume [OF th3(2,3) p cp rest]
    show ?thesis
      unfolding simps using False pop th1(1) th2(1) th3(1) ok2 ok3
      by (cases "rs_type rs"; cases ret) (simp_all add: st)
  qed
qed

subsection \<open>Every instruction is safe\<close>

fun next_ok :: "'h re_context \<Rightarrow> depths \<Rightarrow> 'h re_next \<Rightarrow> bool" where
  "next_ok s D (Continue th) = thread_ok s D th"
| "next_ok s D (No_match th) = frame_ok s D th"
| "next_ok s D (Match th) = frame_ok s D th"
| "next_ok s D (Exec_error th) = frame_ok s D th"

lemma get_u32_ok: "p + 4 \<le> length m \<Longrightarrow> \<exists>v. get_u32 be m p = Some v"
  and get_u16_ok: "p + 2 \<le> length m \<Longrightarrow> \<exists>v. get_u16 be m p = Some v"
  by (simp_all add: get_u32_def get_u16_def mem_read_def)

lemma get_char_end_ok:
  assumes "input_ok s" "p < cbuf_end s"
  shows "\<exists>c p'. get_char s p (cbuf_end s) = Some (c, p') \<and> p < p' \<and> p' \<le> cbuf_end s"
  using get_char_ok [of p "cbuf_end s" s] assms by (simp add: input_ok_def)

lemma test_char_ok:
  assumes "input_ok s" "frame_ok s D th" "flows D (pc th) (stack_len th)"
  shows "\<exists>r. test_char s val th = Some r \<and> next_ok s D r"
proof (cases "cptr th < cbuf_end s")
  case True
  then obtain c p' where "get_char s (cptr th) (cbuf_end s) = Some (c, p')" "p' \<le> cbuf_end s"
    using get_char_end_ok [OF assms(1)] by blast
  with True assms show ?thesis by (simp add: test_char_def thread_ok_def Let_def)
next
  case False
  with assms show ?thesis by (simp add: test_char_def)
qed

lemma range_loop_ok:
  assumes low: "\<And>i. i < n \<Longrightarrow> low_at i \<noteq> None" and high: "\<And>i. i < n \<Longrightarrow> high_at i \<noteq> None"
    and first: "low_at 0 = Some l" "l \<le> c"
  shows "j < n \<Longrightarrow> \<exists>b. range_loop low_at high_at c i j = Some b"
proof (induction "Suc j - i" arbitrary: i j rule: less_induct)
  case less
  note simps = range_loop.simps [of low_at high_at c i j]
  show ?case
  proof (cases "i \<le> j")
    case True
    define x where "x = (i + j) div 2"
    have x: "i \<le> x" "x \<le> j" using True by (simp_all add: x_def)
    obtain lo hi where lo: "low_at x = Some lo" "high_at x = Some hi" using low [of x] high [of x] x less.prems by auto
    have "0 < x" if "c < lo" using first lo(1) that by (cases x) auto
    then show ?thesis
      using less.hyps [of "x - 1" i] less.hyps [of j "x + 1"] True x less.prems lo
      unfolding simps Let_def x_def [symmetric] by auto
  next
    case False
    then show ?thesis by (auto simp: simps)
  qed
qed

lemma range_test_ok:
  assumes "\<And>i. i < n \<Longrightarrow> low_at i \<noteq> None" "\<And>i. i < n \<Longrightarrow> high_at i \<noteq> None" "0 < n"
  shows "\<exists>b. range_test low_at high_at wide n c = Some b"
proof -
  obtain l where l: "low_at 0 = Some l" using assms by auto
  obtain h where h: "high_at (n - 1) = Some h" using assms(2) [of "n - 1"] assms(3) by auto
  show ?thesis
  proof (cases "c < l")
    case False
    then have "\<exists>b. range_loop low_at high_at c 0 (n - 1) = Some b"
      using assms l by (intro range_loop_ok [of n]) auto
    with False assms(3) l h show ?thesis by (auto simp: range_test_def)
  qed (auto simp: range_test_def l)
qed

lemma range_op_ok:
  assumes inp: "input_ok s" and fr: "frame_ok s D th" and t: "range_typed s D wide (pc th) (stack_len th)"
  shows "\<exists>r. range_op s wide th = Some r \<and> next_ok s D r"
proof -
  obtain n where n: "get_u16 (big_endian s) (bc s) (pc th) = Some n" "0 < unat n"
    "pc th + 2 + (if wide then 8 else 4) * unat n \<le> length (bc s)"
    "flows D (pc th + 2 + (if wide then 8 else 4) * unat n) (stack_len th)"
    using t by (auto simp: range_typed_def Let_def split: option.splits)
  let ?p = "pc th + 2"
  show ?thesis
  proof (cases "cptr th < cbuf_end s")
    case True
    then obtain c p' where c: "get_char s (cptr th) (cbuf_end s) = Some (c, p')" "p' \<le> cbuf_end s"
      using get_char_end_ok [OF inp] by blast
    have "\<exists>b. (if wide then range_test (\<lambda>i. get_u32 (big_endian s) (bc s) (?p + i * 8))
                                         (\<lambda>i. get_u32 (big_endian s) (bc s) (?p + i * 8 + 4)) True (unat n) (fold_case s c)
                 else range_test (\<lambda>i. get_u16 (big_endian s) (bc s) (?p + i * 4))
                                 (\<lambda>i. get_u16 (big_endian s) (bc s) (?p + i * 4 + 2)) False (unat n) (fold_case s c)) = Some b"
    proof (cases wide)
      case True
      have "get_u32 (big_endian s) (bc s) (?p + i * 8) \<noteq> None" "get_u32 (big_endian s) (bc s) (?p + i * 8 + 4) \<noteq> None"
        if "i < unat n" for i
        using n(3) True that get_u32_ok [of "?p + i * 8" "bc s"] get_u32_ok [of "?p + i * 8 + 4" "bc s"] by force+
      then show ?thesis using True n(2) range_test_ok by simp
    next
      case False
      have "get_u16 (big_endian s) (bc s) (?p + i * 4) \<noteq> None" "get_u16 (big_endian s) (bc s) (?p + i * 4 + 2) \<noteq> None"
        if "i < unat n" for i
        using n(3) False that get_u16_ok [of "?p + i * 4" "bc s"] get_u16_ok [of "?p + i * 4 + 2" "bc s"] by force+
      then show ?thesis using False n(2) range_test_ok by simp
    qed
    then obtain b where b: "(if wide then range_test (\<lambda>i. get_u32 (big_endian s) (bc s) (?p + i * 8))
                                         (\<lambda>i. get_u32 (big_endian s) (bc s) (?p + i * 8 + 4)) True (unat n) (fold_case s c)
                 else range_test (\<lambda>i. get_u16 (big_endian s) (bc s) (?p + i * 4))
                                 (\<lambda>i. get_u16 (big_endian s) (bc s) (?p + i * 4 + 2)) False (unat n) (fold_case s c)) = Some b" ..
    show ?thesis
      unfolding range_op_def n(1) bind.simps Let_def
      using True c(1) b c(2) fr n(4) by (cases b) (simp_all add: thread_ok_def)
  next
    case False
    with n(1) fr show ?thesis by (simp add: range_op_def Let_def)
  qed
qed

lemma back_ref_loop_ok:
  assumes "input_ok s" "b \<le> cbuf_end s"
  shows "cp \<le> cbuf_end s \<Longrightarrow> \<exists>r. back_ref_loop s a b cp = Some r \<and> (\<forall>cp'. r = Some cp' \<longrightarrow> cp' \<le> cbuf_end s)"
proof (induction "b - a" arbitrary: a cp rule: less_induct)
  case less
  note simps = back_ref_loop.simps [of s a b cp]
  show ?case
  proof (cases "a < b \<and> cp < cbuf_end s")
    case True
    obtain c1 a' where c1: "get_char s a b = Some (c1, a')" "a < a'"
      using get_char_ok [of a b s] True assms by (auto simp: input_ok_def)
    obtain c2 cp' where c2: "get_char s cp (cbuf_end s) = Some (c2, cp')" "cp' \<le> cbuf_end s"
      using get_char_end_ok [OF assms(1)] True by blast
    have "b - a' < b - a" using True c1(2) by linarith
    from less.hyps [OF this c2(2)] True c1 c2 show ?thesis unfolding simps by auto
  next
    case False
    with less.prems show ?thesis unfolding simps by auto
  qed
qed

lemma back_ref_prev_loop_ok:
  assumes "input_ok s"
  shows "b \<le> cbuf_end s \<Longrightarrow> cp \<le> cbuf_end s \<Longrightarrow>
    \<exists>r. back_ref_prev_loop s b a cp = Some r \<and> (\<forall>cp'. r = Some cp' \<longrightarrow> cp' \<le> cbuf_end s)"
proof (induction b arbitrary: cp rule: less_induct)
  case (less b)
  note simps = back_ref_prev_loop.simps [of s b a cp]
  show ?case
  proof (cases "a < b \<and> 0 < cp")
    case True
    obtain c1 b' where c1: "get_prev_char s b a = Some (c1, b')" "b' < b"
      using get_prev_char_ok [of a b s] True assms less.prems by (auto simp: input_ok_def)
    obtain c2 cp' where c2: "get_prev_char s cp 0 = Some (c2, cp')" "cp' < cp"
      using get_prev_char_ok [of 0 cp s] True assms less.prems by (auto simp: input_ok_def)
    have "b' \<le> cbuf_end s" "cp' \<le> cbuf_end s" using c1(2) c2(2) less.prems by linarith+
    from less.IH [OF c1(2) this] True c1 c2 show ?thesis unfolding simps by auto
  next
    case False
    with less.prems show ?thesis unfolding simps by auto
  qed
qed

lemma back_ref_ok:
  assumes inp: "input_ok s" and fr: "frame_ok s D th" and t: "byte_below s (pc th) 256" "flows D (pc th + 1) (stack_len th)"
  shows "\<exists>r. back_ref s backward th = Some r \<and> next_ok s D r"
proof -
  obtain v where v: "mem_get (bc s) (pc th) = Some v" using t(1) by (auto simp: byte_below_def split: option.splits)
  note fd = frame_okD [OF fr]
  show ?thesis
  proof (cases "unat v < capture_count s")
    case True
    then have get: "mem_get (captures th) (2 * unat v) = Some (captures th ! (2 * unat v))"
      "mem_get (captures th) (2 * unat v + 1) = Some (captures th ! (2 * unat v + 1))"
      using fd(1) by (simp_all add: mem_get_def caps_ok_def)
    show ?thesis
    proof (cases "\<exists>a b. captures th ! (2 * unat v) = Some a \<and> captures th ! (2 * unat v + 1) = Some b")
      case ab: True
      then obtain a b where ab: "captures th ! (2 * unat v) = Some a" "captures th ! (2 * unat v + 1) = Some b" by blast
      have b: "b \<le> cbuf_end s"
      proof -
        have "2 * unat v + 1 < 2 * capture_count s" using True by simp
        then show ?thesis using fd(1) ab(2) unfolding caps_ok_def by blast
      qed
      obtain r where r: "(if backward then back_ref_prev_loop s b a (cptr th) else back_ref_loop s a b (cptr th)) = Some r"
        "\<And>cp'. r = Some cp' \<Longrightarrow> cp' \<le> cbuf_end s"
        using back_ref_loop_ok [OF inp b fd(3), of a] back_ref_prev_loop_ok [OF inp b fd(3), of a] by (cases backward) auto
      show ?thesis
        unfolding back_ref_def v bind.simps Let_def
        using True get ab r fr t(2) by (cases r; cases backward) (simp_all add: thread_ok_def)
    next
      case False
      then show ?thesis
        unfolding back_ref_def v bind.simps Let_def
        using True get fr t(2) by (auto simp: thread_ok_def split: option.splits)
    qed
  next
    case False
    with v fr show ?thesis by (simp add: back_ref_def Let_def)
  qed
qed

lemma word_boundary_ok:
  assumes "input_ok s" "cp \<le> cbuf_end s"
  shows "\<exists>b. word_boundary s cp = Some b"
proof -
  have "\<exists>c. peek_prev_char s cp 0 = Some c" if "cp \<noteq> 0"
    using get_prev_char_ok [of 0 cp s] assms that by (auto simp: peek_prev_char_def input_ok_def)
  moreover have "\<exists>c. peek_char s cp (cbuf_end s) = Some c" if "cp < cbuf_end s"
    using get_char_end_ok [OF assms(1) that] by (auto simp: peek_char_def)
  ultimately show ?thesis
    by (cases "cp = 0"; cases "cp < cbuf_end s") (auto simp: word_boundary_def)
qed

lemma reset_loop_ok:
  "caps_ok s caps \<Longrightarrow> v + k \<le> capture_count s \<Longrightarrow> \<exists>caps'. reset_loop caps v k = Some caps' \<and> caps_ok s caps'"
proof (induction k arbitrary: v caps)
  case (Suc k)
  have i: "2 * v < 2 * capture_count s" "2 * v + 1 < 2 * capture_count s" using Suc.prems(2) by simp_all
  obtain c1 where c1: "mem_set caps (2 * v) None = Some c1" "caps_ok s c1"
    using caps_ok_set [OF Suc.prems(1) i(1), of None] by auto
  obtain c2 where c2: "mem_set c1 (2 * v + 1) None = Some c2" "caps_ok s c2"
    using caps_ok_set [OF c1(2) i(2), of None] by auto
  from Suc.IH [OF c2(2), of "Suc v"] c1(1) c2(1) Suc.prems(2) show ?case by simp
qed simp

lemma push_ok:
  assumes "frame_ok s D th" "stack_len th < stack_size_max s" "flows D (pc th) (stack_len th + 1)"
  shows "\<exists>r. push th v = Some r \<and> next_ok s D r"
  using assms by (simp add: push_def mem_set_def thread_ok_def frame_ok_def)

lemma push_branch_ok:
  assumes "memory_ok s" "frame_ok s D th" "stack_len th \<le> stack_size_max s" "flows D (pc th) (stack_len th)"
    "flows D p (stack_len th)" "typ \<noteq> RE_EXEC_STATE_GREEDY_QUANT"
  shows "\<exists>r. push_branch s th p typ = Some r \<and> next_ok s D r"
proof -
  obtain th' ok where "push_state s th p (cptr th) typ 0 = Some (th', ok)" "frame_ok s D th'"
    "pc th' = pc th" "stack_len th' = stack_len th"
    using push_state_ok [OF assms(1-3), of "cptr th" "typ" 0 p] assms(5,6) frame_okD(3) [OF assms(2)] by auto
  with assms(4) show ?thesis by (cases ok) (simp_all add: push_branch_def thread_ok_def)
qed

lemma save_ok:
  assumes "frame_ok s D th" "byte_below s (pc th) (capture_count s)" "flows D (pc th + 1) (stack_len th)" "i \<le> 1"
  shows "\<exists>v caps. mem_get (bc s) (pc th) = Some v \<and> unat v < capture_count s \<and>
    mem_set (captures th) (2 * unat v + i) (Some (cptr th)) = Some caps \<and>
    thread_ok s D (th\<lparr>pc := pc th + 1, captures := caps\<rparr>)"
proof -
  obtain v where v: "mem_get (bc s) (pc th) = Some v" "unat v < capture_count s"
    using assms(2) by (auto simp: byte_below_def split: option.splits)
  have "2 * unat v + i < 2 * capture_count s" using v(2) assms(4) by linarith
  then obtain caps where "mem_set (captures th) (2 * unat v + i) (Some (cptr th)) = Some caps" "caps_ok s caps"
    using caps_ok_set [OF frame_okD(1) [OF assms(1)], of _ "Some (cptr th)"] frame_okD(3) [OF assms(1)] by blast
  with v assms show ?thesis by (simp add: thread_ok_def frame_ok_def)
qed

lemma prev_step_ok:
  assumes "input_ok s" "frame_ok s D th" "cptr th \<noteq> 0"
  shows "\<exists>cp. prev_char s (cptr th) 0 = Some cp \<and> frame_ok s D (th\<lparr>cptr := cp\<rparr>)"
proof -
  have "cptr th \<le> cbuf_end s" using frame_okD(3) [OF assms(2)] .
  with assms prev_char_ok [of "cptr th" s] show ?thesis by (auto simp: input_ok_def)
qed

lemma line_peek_ok:
  assumes "input_ok s" "cp \<le> cbuf_end s"
  shows "cp \<noteq> 0 \<Longrightarrow> \<exists>c. peek_prev_char s cp 0 = Some c"
    "cp \<noteq> cbuf_end s \<Longrightarrow> \<exists>c. peek_char s cp (cbuf_end s) = Some c"
  using get_prev_char_ok [of 0 cp s] get_char_end_ok [of s cp] assms
  by (auto simp: peek_prev_char_def peek_char_def input_ok_def)

lemma read_char_ok:
  assumes "input_ok s" "frame_ok s D th" "cptr th \<noteq> cbuf_end s"
  shows "\<exists>c cp. get_char s (cptr th) (cbuf_end s) = Some (c, cp) \<and> frame_ok s D (th\<lparr>cptr := cp\<rparr>)"
proof -
  have "cptr th < cbuf_end s" using frame_okD(3) [OF assms(2)] assms(3) by simp
  from get_char_end_ok [OF assms(1) this] assms(2) show ?thesis by auto
qed

lemma loop_ok:
  assumes "frame_ok s D th" "0 < stack_len th" "stack_len th \<le> stack_size_max s"
  shows "\<exists>v stk. mem_get (stack th) (stack_len th - 1) = Some v \<and>
    mem_set (stack th) (stack_len th - 1) (v - 1) = Some stk \<and> frame_ok s D (th\<lparr>stack := stk\<rparr>)"
  using assms by (simp add: mem_get_def mem_set_def frame_ok_def)

lemma re_step_ok:
  assumes mem: "memory_ok s" and code: "code_typed s D" and fr: "frame_ok s D th"
    and d: "stack_len th \<le> stack_size_max s" and t: "instr_typed s D opcode (pc th) (stack_len th)"
    and op: "opcode \<noteq> REOP_simple_greedy_quant"
  shows "\<exists>r. re_step s opcode th = Some r \<and> next_ok s D r"
proof -
  have inp: "input_ok s" using mem by (simp add: memory_ok_def)
  note fd = frame_okD [OF fr]
  note defs = re_step_def Let_def thread_ok_def
  note typed = t [unfolded instr_typed_def Let_def]
  have jump: "\<exists>r. (do { val \<leftarrow> get_u32 (big_endian s) (bc s) (pc th); target \<leftarrow> pc_add (pc th + 4) val; k target }) = Some r \<and> next_ok s D r"
    if "flows_jump s D (pc th) (stack_len th)"
      and "\<And>t. flows D t (stack_len th) \<Longrightarrow> \<exists>r. k t = Some r \<and> next_ok s D r" for k
    using flows_jumpD [OF that(1)] that(2) by fastforce
  show ?thesis
  proof (cases opcode)
    case REOP_char8
    with typed have "pc th + 1 \<le> length (bc s)" "flows D (pc th + 1) (stack_len th)" by simp_all
    then show ?thesis using REOP_char8 test_char_ok [OF inp, of D "th\<lparr>pc := pc th + 1\<rparr>"] fr
      by (simp add: defs get_u8_def mem_get_def)
  next
    case REOP_char16
    with typed obtain v where "get_u16 (big_endian s) (bc s) (pc th) = Some v" "flows D (pc th + 2) (stack_len th)"
      using get_u16_ok by fastforce
    then show ?thesis using REOP_char16 test_char_ok [OF inp, of D "th\<lparr>pc := pc th + 2\<rparr>"] fr by (simp add: defs)
  next
    case REOP_char32
    with typed obtain v where "get_u32 (big_endian s) (bc s) (pc th) = Some v" "flows D (pc th + 4) (stack_len th)"
      using get_u32_ok by fastforce
    then show ?thesis using REOP_char32 test_char_ok [OF inp, of D "th\<lparr>pc := pc th + 4\<rparr>"] fr by (simp add: defs)
  next
    case REOP_dot
    with typed read_char_ok [OF inp fr] fr show ?thesis by (auto simp: defs)
  next
    case REOP_any
    with typed read_char_ok [OF inp fr] fr show ?thesis by (auto simp: defs)
  next
    case REOP_line_start
    with typed line_peek_ok(1) [OF inp fd(3)] fr show ?thesis by (auto simp: defs)
  next
    case REOP_line_end
    with typed line_peek_ok(2) [OF inp fd(3)] fr show ?thesis by (auto simp: defs)
  next
    case REOP_goto
    with typed have "flows_jump s D (pc th) (stack_len th)" by simp
    from jump [OF this, of "\<lambda>t. Some (Continue (th\<lparr>pc := t\<rparr>))"] fr REOP_goto show ?thesis by (simp add: defs)
  next
    case REOP_split_goto_first
    with typed have j: "flows_jump s D (pc th) (stack_len th)" "flows D (pc th + 4) (stack_len th)" by simp_all
    have "\<exists>r. push_branch s (th\<lparr>pc := t\<rparr>) (pc th + 4) RE_EXEC_STATE_SPLIT = Some r \<and> next_ok s D r"
      if "flows D t (stack_len th)" for t
      using push_branch_ok [OF mem, of D "th\<lparr>pc := t\<rparr>" "pc th + 4" RE_EXEC_STATE_SPLIT] fr d that j(2) by simp
    from jump [OF j(1) this] REOP_split_goto_first show ?thesis by (simp add: defs)
  next
    case REOP_split_next_first
    with typed have j: "flows_jump s D (pc th) (stack_len th)" "flows D (pc th + 4) (stack_len th)" by simp_all
    have "\<exists>r. push_branch s (th\<lparr>pc := pc th + 4\<rparr>) t RE_EXEC_STATE_SPLIT = Some r \<and> next_ok s D r"
      if "flows D t (stack_len th)" for t
      using push_branch_ok [OF mem, of D "th\<lparr>pc := pc th + 4\<rparr>" t RE_EXEC_STATE_SPLIT] fr d that j(2) by simp
    from jump [OF j(1) this] REOP_split_next_first show ?thesis by (simp add: defs)
  next
    case REOP_lookahead
    with typed have j: "flows_jump s D (pc th) (stack_len th)" "flows D (pc th + 4) (stack_len th)" by simp_all
    have "\<exists>r. push_branch s (th\<lparr>pc := pc th + 4\<rparr>) t RE_EXEC_STATE_LOOKAHEAD = Some r \<and> next_ok s D r"
      if "flows D t (stack_len th)" for t
      using push_branch_ok [OF mem, of D "th\<lparr>pc := pc th + 4\<rparr>" t RE_EXEC_STATE_LOOKAHEAD] fr d that j(2) by simp
    from jump [OF j(1) this] REOP_lookahead show ?thesis by (simp add: defs)
  next
    case REOP_negative_lookahead
    with typed have j: "flows_jump s D (pc th) (stack_len th)" "flows D (pc th + 4) (stack_len th)" by simp_all
    have "\<exists>r. push_branch s (th\<lparr>pc := pc th + 4\<rparr>) t RE_EXEC_STATE_NEGATIVE_LOOKAHEAD = Some r \<and> next_ok s D r"
      if "flows D t (stack_len th)" for t
      using push_branch_ok [OF mem, of D "th\<lparr>pc := pc th + 4\<rparr>" t RE_EXEC_STATE_NEGATIVE_LOOKAHEAD] fr d that j(2) by simp
    from jump [OF j(1) this] REOP_negative_lookahead show ?thesis by (simp add: defs)
  next
    case REOP_match
    with fr show ?thesis by (simp add: defs)
  next
    case REOP_save_start
    with typed save_ok [OF fr, of 0] show ?thesis by (auto simp: re_step_def Let_def)
  next
    case REOP_save_end
    with typed save_ok [OF fr, of 1] show ?thesis by (auto simp: re_step_def Let_def)
  next
    case REOP_save_reset
    with typed obtain v v2 where v: "mem_get (bc s) (pc th) = Some v" "mem_get (bc s) (pc th + 1) = Some v2"
      "unat v2 < capture_count s" "flows D (pc th + 2) (stack_len th)"
      by (auto simp: byte_below_def split: option.splits)
    have "\<exists>caps. reset_loop (captures th) (unat v) (Suc (unat v2) - unat v) = Some caps \<and> caps_ok s caps"
    proof (cases "unat v \<le> unat v2")
      case True
      with v(3) show ?thesis by (intro reset_loop_ok fd(1)) simp
    next
      case False
      with fd(1) show ?thesis by simp
    qed
    with v fr REOP_save_reset show ?thesis by (auto simp: defs frame_ok_def)
  next
    case REOP_push_i32
    with typed obtain v where "get_u32 (big_endian s) (bc s) (pc th) = Some v" "flows D (pc th + 4) (stack_len th + 1)"
      "stack_len th < stack_size_max s"
      using get_u32_ok by fastforce
    then show ?thesis using REOP_push_i32 push_ok [of s D "th\<lparr>pc := pc th + 4\<rparr>"] fr by (simp add: defs)
  next
    case REOP_drop
    with typed fr show ?thesis by (simp add: defs)
  next
    case REOP_loop
    with typed have l: "0 < stack_len th" "flows D (pc th + 4) (stack_len th)" "flows_jump s D (pc th) (stack_len th)" by simp_all
    obtain v stk where "mem_get (stack th) (stack_len th - 1) = Some v"
      "mem_set (stack th) (stack_len th - 1) (v - 1) = Some stk" "frame_ok s D (th\<lparr>stack := stk\<rparr>)"
      using loop_ok [OF fr l(1) d] by blast
    with l flows_jumpD [OF l(3)] REOP_loop show ?thesis
      by (cases "v - 1 = 0") (auto simp: defs frame_ok_def)
  next
    case REOP_push_char_pos
    with typed push_ok [OF fr] show ?thesis by (simp add: re_step_def Let_def)
  next
    case REOP_check_advance
    with typed loop_ok [OF fr _ d] fr show ?thesis by (auto simp: defs)
  next
    case REOP_word_boundary
    obtain b where "word_boundary s (cptr th) = Some b" using word_boundary_ok [OF inp fd(3)] ..
    with REOP_word_boundary typed fr show ?thesis by (cases b) (simp_all add: defs)
  next
    case REOP_not_word_boundary
    obtain b where "word_boundary s (cptr th) = Some b" using word_boundary_ok [OF inp fd(3)] ..
    with REOP_not_word_boundary typed fr show ?thesis by (cases b) (simp_all add: defs)
  next
    case REOP_back_reference
    with typed back_ref_ok [OF inp fr] show ?thesis by (simp add: re_step_def)
  next
    case REOP_backward_back_reference
    with typed back_ref_ok [OF inp fr] show ?thesis by (simp add: re_step_def)
  next
    case REOP_range
    with typed range_op_ok [OF inp fr] show ?thesis by (simp add: re_step_def)
  next
    case REOP_range32
    with typed range_op_ok [OF inp fr] show ?thesis by (simp add: re_step_def)
  next
    case REOP_prev
    with typed prev_step_ok [OF inp fr] fr show ?thesis by (auto simp: defs)
  qed (use typed op in simp_all)
qed

subsection \<open>Simple atoms\<close>

lemma test_char_continue:
  "test_char s val th = Some (Continue th1) \<Longrightarrow> pc th1 = pc th \<and> cptr th < cbuf_end s \<and>
     (\<exists>c. get_char s (cptr th) (cbuf_end s) = Some (c, cptr th1))"
  by (auto simp: test_char_def Let_def split: if_splits bind_splits)

lemma range_op_continue:
  "range_op s wide th = Some (Continue th1) \<Longrightarrow> cptr th < cbuf_end s \<and>
     (\<exists>c. get_char s (cptr th) (cbuf_end s) = Some (c, cptr th1)) \<and>
     (\<exists>n. get_u16 (big_endian s) (bc s) (pc th) = Some n \<and> pc th1 = pc th + 2 + (if wide then 8 else 4) * unat n)"
  unfolding range_op_def Let_def by (auto split: if_splits bind_splits)

lemma char_test_continue:
  assumes "is_char_test opcode" "instr_len s p opcode = Some l" "cptr th \<le> cbuf_end s" "pc th = p + 1"
    "re_step s opcode th = Some (Continue th1)"
  shows "pc th1 = p + l \<and> cptr th < cbuf_end s \<and> (\<exists>c. get_char s (cptr th) (cbuf_end s) = Some (c, cptr th1))"
proof -
  consider "opcode = REOP_char8" | "opcode = REOP_char16" | "opcode = REOP_char32" | "opcode = REOP_dot" | "opcode = REOP_any"
    | "opcode = REOP_range" | "opcode = REOP_range32"
    using assms(1) by (auto simp: is_char_test_def)
  then show ?thesis
  proof cases
    case 6
    with assms(2-5) range_op_continue [of s False th th1] show ?thesis
      by (auto simp: re_step_def instr_len_def)
  next
    case 7
    with assms(2-5) range_op_continue [of s True th th1] show ?thesis
      by (auto simp: re_step_def instr_len_def)
  qed (use assms in \<open>auto simp: re_step_def instr_len_def Let_def dest!: test_char_continue split: if_splits bind_splits\<close>)
qed

lemma assertion_continue:
  assumes "is_assertion opcode" "re_step s opcode th = Some (Continue th1)"
  shows "th1 = th" "reopcode_size opcode = 1" "instr_len s p opcode = Some 1"
proof -
  consider "opcode = REOP_line_start" | "opcode = REOP_line_end" | "opcode = REOP_word_boundary" | "opcode = REOP_not_word_boundary"
    using assms(1) by (auto simp: is_assertion_def)
  then show "th1 = th" "reopcode_size opcode = 1" "instr_len s p opcode = Some 1"
    using assms(2) by (cases; auto simp: re_step_def instr_len_def Let_def split: if_splits bind_splits)+
qed

lemma re_step_match: "re_step s opcode th = Some (Match th1) \<Longrightarrow> opcode = REOP_match \<and> th1 = th"
  unfolding re_step_def Let_def
  by (cases opcode)
    (auto simp: test_char_def push_branch_def push_def back_ref_def range_op_def Let_def
      split: if_splits bind_splits option.splits)

lemma exec_no_recurse:
  assumes "opcode_at s (pc th) = Some opcode" "opcode \<noteq> REOP_simple_greedy_quant"
  shows "exec (Suc f) s True th =
    run_bind (lift_run (re_step s opcode (th\<lparr>pc := pc th + 1\<rparr>))) (\<lambda>r.
        case r of
          Continue th \<Rightarrow> exec f s True th
        | No_match th \<Rightarrow> Done (Re_no_match, th)
        | Match th \<Rightarrow> Done (Re_at (cptr th), th)
        | Exec_error th \<Rightarrow> Done (Re_error, th))"
proof -
  obtain b where "mem_get (bc s) (pc th) = Some b" "reop_of b = Some opcode"
    using assms(1) by (auto simp: opcode_at_def split: bind_splits)
  with assms(2) show ?thesis
    unfolding exec.simps(2) [of f s True th] Let_def by (simp cong: re_next.case_cong)
qed

lemma simple_atom_run:
  assumes inp: "input_ok s"
  shows "simple_atom k s n (pc th) \<Longrightarrow> cptr th \<le> cbuf_end s \<Longrightarrow> exec f s True th = Done (Re_at cp, th') \<Longrightarrow>
    gets s n (cptr th) cp"
proof (induction k arbitrary: n th f)
  case (Suc k)
  obtain opcode where op: "opcode_at s (pc th) = Some opcode" using Suc.prems(1) by (cases "opcode_at s (pc th)") auto
  obtain g where f: "f = Suc g" using Suc.prems(3) by (cases f) auto
  have ng: "opcode \<noteq> REOP_simple_greedy_quant"
    using Suc.prems(1) op by (auto simp: is_char_test_def is_assertion_def split: option.splits if_splits)
  let ?th = "th\<lparr>pc := pc th + 1\<rparr>"
  note run = Suc.prems(3) [unfolded f exec_no_recurse [OF op ng]]
  from run obtain r where r: "re_step s opcode ?th = Some r" by (cases "re_step s opcode ?th") auto
  show ?case
  proof (cases "opcode = REOP_match")
    case True
    then have "n = 0" using Suc.prems(1) op by simp
    moreover have "cp = cptr th" using run True by (auto simp: re_step_def Let_def)
    ultimately show ?thesis by simp
  next
    case False
    obtain l where l: "instr_len s (pc th) opcode = Some l"
      "if is_char_test opcode then 0 < n \<and> simple_atom k s (n - 1) (pc th + l) else is_assertion opcode \<and> simple_atom k s n (pc th + l)"
      using Suc.prems(1) op False by (cases "instr_len s (pc th) opcode") auto
    have "\<exists>th1. r = Continue th1 \<and> exec g s True th1 = Done (Re_at cp, th')"
      using run r False re_step_match [of s opcode ?th] by (cases r) auto
    then obtain th1 where th1: "r = Continue th1" "exec g s True th1 = Done (Re_at cp, th')" by blast
    show ?thesis
    proof (cases "is_char_test opcode")
      case True
      have c: "pc th1 = pc th + l" "cptr th < cbuf_end s" "\<exists>c. get_char s (cptr th) (cbuf_end s) = Some (c, cptr th1)"
        using char_test_continue [OF True l(1), of ?th th1] r th1(1) Suc.prems(2) by simp_all
      then have "cptr th1 \<le> cbuf_end s" using get_char_end_ok [OF inp c(2)] by auto
      moreover have "simple_atom k s (n - 1) (pc th1)" "0 < n" using l(2) True c(1) by simp_all
      ultimately have "gets s (n - 1) (cptr th1) cp" using Suc.IH th1(2) by blast
      with c \<open>0 < n\<close> show ?thesis using gets_step [of s "n - 1" "cptr th" cp] by auto
    next
      case False
      then have a: "is_assertion opcode" "simple_atom k s n (pc th + l)" using l(2) by simp_all
      note c = assertion_continue [OF a(1), of s ?th th1]
      have "th1 = ?th" "l = 1" using c(1) c(3) [of "pc th"] r th1(1) l(1) by simp_all
      with Suc.IH [of n ?th g] a(2) th1(2) Suc.prems(2) show ?thesis by simp
    qed
  qed
qed simp

subsection \<open>Runs\<close>

definition exec_ok :: "'h re_context \<Rightarrow> depths \<Rightarrow> (re_value \<times> 'h re_thread) run \<Rightarrow> bool" where
  "exec_ok s D r \<longleftrightarrow> r \<noteq> Stuck \<and>
     (\<forall>v th. r = Done (v, th) \<longrightarrow> frame_ok s D th \<and> (\<forall>cp. v = Re_at cp \<longrightarrow> cp \<le> cbuf_end s))"

lemma exec_ok_simps [simp]:
  "exec_ok s D Out_of_fuel" "\<not> exec_ok s D Stuck"
  "exec_ok s D (Done (v, th)) \<longleftrightarrow> frame_ok s D th \<and> (\<forall>cp. v = Re_at cp \<longrightarrow> cp \<le> cbuf_end s)"
  by (simp_all add: exec_ok_def)

definition quant_ok :: "'h re_context \<Rightarrow> depths \<Rightarrow> nat \<Rightarrow> nat \<Rightarrow> 'h re_thread \<Rightarrow> (bool \<times> nat \<times> 'h re_thread) run \<Rightarrow> bool" where
  "quant_ok s D n x th r \<longleftrightarrow> r \<noteq> Stuck \<and>
     (\<forall>failed q th'. r = Done (failed, q, th') \<longrightarrow>
        frame_ok s D th' \<and> pc th' = pc th \<and> stack_len th' = stack_len th \<and> gets s (n * q) x (cptr th'))"

lemma quant_ok_simps [simp]:
  "quant_ok s D n x th Out_of_fuel" "\<not> quant_ok s D n x th Stuck"
  "quant_ok s D n x th (Done (failed, q, th')) \<longleftrightarrow>
     frame_ok s D th' \<and> pc th' = pc th \<and> stack_len th' = stack_len th \<and> gets s (n * q) x (cptr th')"
  by (simp_all add: quant_ok_def)

lemma quant_ok_cong: "quant_ok s D n x th r \<Longrightarrow> pc th = pc th' \<Longrightarrow> stack_len th = stack_len th' \<Longrightarrow> quant_ok s D n x th' r"
  unfolding quant_ok_def by metis

lemma gets_advance: "input_ok s \<Longrightarrow> gets s n x y \<Longrightarrow> x + n \<le> y"
proof (induction n arbitrary: y)
  case (Suc n)
  then obtain z c where "gets s n x z" "z < cbuf_end s" "get_char s z (cbuf_end s) = Some (c, y)" by auto
  with Suc.IH [OF Suc.prems(1)] get_char_end_ok [OF Suc.prems(1)] show ?case by fastforce
qed simp

lemma quant_saved_ok:
  assumes inp: "input_ok s" and len: "cptr th \<le> cbuf_end s" and n: "0 < unat n" and q: "m < q"
    and restored: "gets s (unat n * q) x (cptr th)"
    and code: "get_u32 (big_endian s) (bc s) p = Some v" "pc_add (p + 16) v = Some t" "flows D t d"
      "get_u32 (big_endian s) (bc s) (p + 12) = Some n"
  shows "saved_quant_ok s D \<lparr>rs_type = RE_EXEC_STATE_GREEDY_QUANT, rs_stack_len = d, rs_count = word_of_nat (q - m),
    rs_cptr = cptr th, rs_pc = p, rs_captures = caps, rs_stack = stk\<rparr>"
proof -
  have "1 * q \<le> unat n * q" using n by (intro mult_le_mono1) simp
  then have "q \<le> cptr th" using gets_advance [OF inp restored] by linarith
  moreover have "cbuf_end s < 2 ^ 63" using inp by (simp add: input_ok_def)
  ultimately have "q - m < 2 ^ 64" using len by simp
  then have count: "unat (word_of_nat (q - m) :: u64) = q - m" by (simp add: unsigned_of_nat take_bit_nat_eq_self)
  then have "(word_of_nat (q - m) :: u64) \<noteq> 0" using q by (metis unsigned_0 zero_less_diff less_irrefl)
  moreover have "(q - m) * unat n \<le> unat n * q" by simp
  then have "prev_chars s ((q - m) * unat n) (cptr th) \<noteq> None"
    using gets_prev_chars [OF inp restored] by blast
  ultimately show ?thesis using code by (simp add: saved_quant_ok_def count)
qed

lemma quant_loop_stop:
  assumes "exec f s True (th\<lparr>pc := pc1\<rparr>) = Done (v, th1)" "\<not> (\<exists>cp. v = Re_at cp)"
  shows "quant_loop (Suc f) s pc1 qmax q th =
    Done (v = Re_error, q, th1\<lparr>pc := pc th, cptr := cptr th, stack_len := stack_len th\<rparr>)"
  unfolding quant_loop.simps(2) [of f s pc1 qmax q th] assms(1)
  using assms(2) by (cases v) (simp_all add: Let_def)

lemma quant_loop_again:
  assumes "exec f s True (th\<lparr>pc := pc1\<rparr>) = Done (Re_at cp, th1)"
  shows "quant_loop (Suc f) s pc1 qmax q th =
    (let th2 = th1\<lparr>pc := pc th, stack_len := stack_len th, cptr := cp\<rparr> in
     if q + 1 \<ge> unat qmax \<and> qmax \<noteq> INT32_MAX then Done (False, q + 1, th2)
     else quant_loop f s pc1 qmax (q + 1) th2)"
  unfolding quant_loop.simps(2) [of f s pc1 qmax q th] assms by (simp add: Let_def)

lemma exec_quant_safe:
  assumes mem: "memory_ok s" and code: "code_typed s D"
  shows "(thread_ok s D th \<longrightarrow> exec_ok s D (exec f s nr th)) \<and>
    (frame_ok s D th2 \<and> flows D pc1 (stack_len th2) \<and> simple_atom (length (bc s)) s n pc1 \<and> gets s (n * q) x (cptr th2) \<longrightarrow>
       quant_ok s D n x th2 (quant_loop f s pc1 qmax q th2))"
proof (induction f arbitrary: nr th pc1 q th2 n x qmax)
  case 0
  then show ?case by (simp add: exec.simps quant_loop.simps)
next
  case (Suc f)
  have inp: "input_ok s" using mem by (simp add: memory_ok_def)
  have IH1: "exec_ok s D (exec f s nr th)" if "thread_ok s D th" for nr th
    using Suc.IH [of th nr] that by blast
  have IH2: "quant_ok s D n x th2 (quant_loop f s pc1 qmax q th2)"
    if "frame_ok s D th2" "flows D pc1 (stack_len th2)" "simple_atom (length (bc s)) s n pc1" "gets s (n * q) x (cptr th2)"
    for th2 pc1 n q x qmax
    using Suc.IH [of undefined undefined th2 pc1 n q x qmax] that by blast
  have finish: "exec_ok s D (if nr then Done (if ret then Re_at (cptr th) else Re_no_match, th)
        else run_bind (lift_run (unwind s ret th)) (\<lambda>r.
          case r of
            Resume th \<Rightarrow> exec f s nr th
          | Finish ret th \<Rightarrow> Done (if ret then Re_match else Re_no_match, th)))"
    if fr: "frame_ok s D th" for nr ret th
  proof -
    obtain r where r: "unwind s ret th = Some r" "resume_ok s D r" using unwind_ok [OF inp fr] by blast
    then show ?thesis using fr frame_okD(3) [OF fr] IH1 by (cases r) auto
  qed
  show ?case
  proof (intro conjI impI)
    assume th: "thread_ok s D th"
    then have fr: "frame_ok s D th" and fl: "flows D (pc th) (stack_len th)" by (simp_all add: thread_ok_def)
    obtain b opcode where op: "mem_get (bc s) (pc th) = Some b" "reop_of b = Some opcode"
      "instr_typed s D opcode (pc th + 1) (stack_len th)" "stack_len th \<le> stack_size_max s"
      using code_typedD [OF code fl] by blast
    show "exec_ok s D (exec (Suc f) s nr th)"
    proof (cases "opcode = REOP_simple_greedy_quant")
      case False
      let ?th = "th\<lparr>pc := pc th + 1\<rparr>"
      obtain r where r: "re_step s opcode ?th = Some r" "next_ok s D r"
        using re_step_ok [OF mem code, of ?th opcode] fr op(3,4) False by auto
      show ?thesis
        unfolding exec.simps(2) [of f s nr th] Let_def op(1,2) lift_run.simps run_bind.simps if_not_P [OF False] r(1)
        using r(2) IH1 finish by (cases r) simp_all
    next
      case True
      let ?p = "pc th + 1"
      obtain v t n where q: "get_u32 (big_endian s) (bc s) ?p = Some v" "pc_add (?p + 16) v = Some t" "flows D t (stack_len th)"
        "get_u32 (big_endian s) (bc s) (?p + 12) = Some n" "0 < unat n" "simple_atom (length (bc s)) s (unat n) (?p + 16)"
        "flows D (?p + 16) (stack_len th)" "?p + 16 \<le> length (bc s)"
        using op(3) True by (auto simp: instr_typed_def Let_def quant_typed_def split: option.splits)
      obtain qmin where qmin: "get_u32 (big_endian s) (bc s) (?p + 4) = Some qmin"
        using q(8) get_u32_ok [of "?p + 4" "bc s"] by fastforce
      obtain qmax where qmax: "get_u32 (big_endian s) (bc s) (?p + 8) = Some qmax"
        using q(8) get_u32_ok [of "?p + 8" "bc s"] by fastforce
      have Q: "quant_ok s D (unat n) (cptr th) (th\<lparr>pc := t\<rparr>) (quant_loop f s (?p + 16) qmax 0 (th\<lparr>pc := t\<rparr>))"
        using IH2 [of "th\<lparr>pc := t\<rparr>" "?p + 16" "unat n" 0 "cptr th" qmax] fr q by simp
      show ?thesis
      proof (cases "quant_loop f s (?p + 16) qmax 0 (th\<lparr>pc := t\<rparr>)")
        case (Done res)
        obtain failed k th' where res: "res = (failed, k, th')" by (cases res)
        have th': "frame_ok s D th'" "pc th' = t" "stack_len th' = stack_len th" "gets s (unat n * k) (cptr th) (cptr th')"
          using Q Done res by simp_all
        have push: "\<exists>th3 ok. push_state s th' ?p (cptr th') RE_EXEC_STATE_GREEDY_QUANT (word_of_nat (k - unat qmin)) = Some (th3, ok) \<and>
            frame_ok s D th3 \<and> pc th3 = t \<and> stack_len th3 = stack_len th" if "unat qmin < k"
          using push_state_ok [OF mem th'(1), of "cptr th'" RE_EXEC_STATE_GREEDY_QUANT "word_of_nat (k - unat qmin)" ?p]
            quant_saved_ok [OF inp frame_okD(3) [OF th'(1)] q(5) that th'(4) q(1-4)]
            frame_okD(3) [OF th'(1)] op(4) th'(2,3) by auto
        have t: "thread_ok s D th'" using th' q(3) by (simp add: thread_ok_def)
        have "exec (Suc f) s nr th =
            (if failed then Done (Re_error, th')
             else if k < unat qmin then
               (if nr then Done (if False then Re_at (cptr th') else Re_no_match, th')
                else run_bind (lift_run (unwind s False th')) (\<lambda>r.
                  case r of
                    Resume th \<Rightarrow> exec f s nr th
                  | Finish ret th \<Rightarrow> Done (if ret then Re_match else Re_no_match, th)))
             else if k > unat qmin then
               run_bind (lift_run (push_state s th' ?p (cptr th') RE_EXEC_STATE_GREEDY_QUANT
                                    (word_of_nat (k - unat qmin)))) (\<lambda>(th, ok).
               if ok then exec f s nr th else Done (Re_error, th))
             else exec f s nr th')"
          unfolding exec.simps(2) [of f s nr th] Let_def op(1,2) lift_run.simps run_bind.simps if_P [OF True]
            q(1,2) qmin qmax Done res prod.case ..
        moreover have "exec_ok s D (Done (Re_error, th'))" using th'(1) by simp
        moreover note finish [OF th'(1), of nr False]
        moreover have "exec_ok s D (run_bind (lift_run (push_state s th' ?p (cptr th') RE_EXEC_STATE_GREEDY_QUANT
                                    (word_of_nat (k - unat qmin)))) (\<lambda>(th, ok).
               if ok then exec f s nr th else Done (Re_error, th)))" if lt: "unat qmin < k"
        proof -
          obtain th3 ok where p3: "push_state s th' ?p (cptr th') RE_EXEC_STATE_GREEDY_QUANT (word_of_nat (k - unat qmin)) = Some (th3, ok)"
            "frame_ok s D th3" "pc th3 = t" "stack_len th3 = stack_len th" using push [OF lt] by blast
          then have "thread_ok s D th3" using q(3) by (simp add: thread_ok_def)
          with p3(1,2) IH1 show ?thesis by simp
        qed
        ultimately show ?thesis using IH1 [OF t] by simp
      next
        case Out_of_fuel
        show ?thesis
          unfolding exec.simps(2) [of f s nr th] Let_def op(1,2) lift_run.simps run_bind.simps if_P [OF True]
            q(1,2) qmin qmax Out_of_fuel by simp
      next
        case Stuck
        with Q show ?thesis by simp
      qed
    qed
  next
    assume a: "frame_ok s D th2 \<and> flows D pc1 (stack_len th2) \<and> simple_atom (length (bc s)) s n pc1 \<and> gets s (n * q) x (cptr th2)"
    let ?th = "th2\<lparr>pc := pc1\<rparr>"
    have E: "exec_ok s D (exec f s True ?th)" using IH1 [of ?th True] a by (simp add: thread_ok_def)
    have le: "cptr th2 \<le> cbuf_end s" using a frame_okD(3) by blast
    have g0: "gets s (n * q) x (cptr th2)" using a by blast
    show "quant_ok s D n x th2 (quant_loop (Suc f) s pc1 qmax q th2)"
    proof (cases "exec f s True ?th")
      case (Done res)
      obtain v th1 where res: "res = (v, th1)" by (cases res)
      note run = Done [unfolded res]
      have fr1: "frame_ok s D th1" using E Done res by simp
      show ?thesis
      proof (cases "\<exists>cp. v = Re_at cp")
        case True
        then obtain cp where v: "v = Re_at cp" ..
        let ?next = "th1\<lparr>pc := pc th2, stack_len := stack_len th2, cptr := cp\<rparr>"
        have "cp \<le> cbuf_end s" using E Done res v by simp
        then have fr2: "frame_ok s D ?next" using fr1 by (simp add: frame_ok_def)
        have "gets s n (cptr th2) cp"
          using simple_atom_run [OF inp, of "length (bc s)" n ?th f cp th1] a le run v by simp
        then have g: "gets s (n * (q + 1)) x cp" using a gets_add [of s n "n * q" x cp] by auto
        have "quant_ok s D n x ?next (quant_loop f s pc1 qmax (q + 1) ?next)"
          by (rule IH2) (use fr2 g a in simp_all)
        then have "quant_ok s D n x th2 (quant_loop f s pc1 qmax (q + 1) ?next)" by (rule quant_ok_cong) simp_all
        moreover have "quant_ok s D n x th2 (Done (False, q + 1, ?next))"
          unfolding quant_ok_simps using fr2 g by (intro conjI) (assumption | simp)+
        ultimately show ?thesis
          unfolding quant_loop_again [OF run [unfolded v]] Let_def by (simp only: split: if_split) blast
      next
        case False
        have "frame_ok s D (th1\<lparr>pc := pc th2, cptr := cptr th2, stack_len := stack_len th2\<rparr>)"
          using frame_ok_simps(3) [OF le fr1] by (simp add: frame_ok_def)
        with g0 show ?thesis unfolding quant_loop_stop [OF run False] by simp
      qed
    qed (use E in \<open>simp_all add: quant_loop.simps(2) [of f s pc1 qmax q th2]\<close>)
  qed
qed

lemma exec_safe: "memory_ok s \<Longrightarrow> code_typed s D \<Longrightarrow> thread_ok s D th \<Longrightarrow> exec_ok s D (exec f s nr th)"
  using exec_quant_safe by blast

subsection \<open>The entry point\<close>

lemma exec_no_at: "exec f s False th = Done (v, th') \<Longrightarrow> v \<noteq> Re_at cp"
proof (induction f arbitrary: th)
  case 0
  then show ?case by (simp add: exec.simps)
next
  case (Suc f)
  have unw: "v \<noteq> Re_at cp"
    if "run_bind (lift_run (unwind s ret th)) (\<lambda>r.
          case r of Resume th \<Rightarrow> exec f s False th
          | Finish ret th \<Rightarrow> Done (if ret then Re_match else Re_no_match, th)) = Done (v, th')" for ret th
    using that Suc.IH by (cases "unwind s ret th") (auto split: re_resume.splits if_splits)
  obtain b opcode where op: "mem_get (bc s) (pc th) = Some b" "reop_of b = Some opcode"
    using Suc.prems unfolding exec.simps(2) [of f s False th] Let_def
    by (cases "mem_get (bc s) (pc th)"; cases "reop_of (the (mem_get (bc s) (pc th)))") auto
  show ?case
  proof (cases "opcode = REOP_simple_greedy_quant")
    case False
    from Suc.prems show ?thesis
      unfolding exec.simps(2) [of f s False th] Let_def op lift_run.simps run_bind.simps if_not_P [OF False] if_False
      using Suc.IH unw by (cases "re_step s opcode (th\<lparr>pc := pc th + 1\<rparr>)") (auto split: re_next.splits)
  next
    case True
    let ?p = "pc th + 1"
    obtain v1 qmin qmax t where q: "get_u32 (big_endian s) (bc s) ?p = Some v1"
      "get_u32 (big_endian s) (bc s) (?p + 4) = Some qmin" "get_u32 (big_endian s) (bc s) (?p + 8) = Some qmax"
      "pc_add (?p + 16) v1 = Some t"
      using Suc.prems unfolding exec.simps(2) [of f s False th] Let_def op lift_run.simps run_bind.simps if_P [OF True]
      by (cases "get_u32 (big_endian s) (bc s) ?p"; cases "get_u32 (big_endian s) (bc s) (?p + 4)";
          cases "get_u32 (big_endian s) (bc s) (?p + 8)"; cases "pc_add (?p + 16) (the (get_u32 (big_endian s) (bc s) ?p))") auto
    note run = Suc.prems [unfolded exec.simps(2) [of f s False th] Let_def op lift_run.simps run_bind.simps if_P [OF True] q if_False]
    obtain failed k th1 where l: "quant_loop f s (?p + 16) qmax 0 (th\<lparr>pc := t\<rparr>) = Done (failed, k, th1)"
      using run by (cases "quant_loop f s (?p + 16) qmax 0 (th\<lparr>pc := t\<rparr>)") auto
    note run = run [unfolded l run_bind.simps prod.case]
    show ?thesis
    proof (cases "failed \<or> k \<le> unat qmin")
      case True
      then show ?thesis using run unw [of False th1] Suc.IH [of th1] by (auto split: if_splits)
    next
      case False
      then show ?thesis using run Suc.IH
        by (cases "push_state s th1 ?p (cptr th1) RE_EXEC_STATE_GREEDY_QUANT (word_of_nat (k - unat qmin))")
          (auto split: if_splits)
    qed
  qed
qed

lemma clear_captures_ok:
  "n \<le> length caps \<Longrightarrow> \<exists>caps'. clear_captures caps n = Some caps' \<and> length caps' = length caps \<and> (\<forall>i < n. caps' ! i = None)"
proof (induction n)
  case (Suc n)
  then obtain c where "clear_captures caps n = Some c" "length c = length caps" "\<forall>i < n. c ! i = None" by auto
  with Suc.prems show ?case by (auto simp: mem_set_def nth_list_update less_Suc_eq)
qed simp

lemma exec_context_fields:
  assumes "exec_context be canon grow addr bc_buf buf clen typ = Some s"
  shows "bc s = bc_buf" "cbuf s = buf" "cbuf_end s = clen" "state_realloc s = grow" "stack_size_max s < 256"
    "0 < state_size s" "state_size s \<le> 2 ^ 16"
proof -
  obtain f nc ns where h: "lre_get_flags be bc_buf = Some f" "mem_get bc_buf RE_HEADER_CAPTURE_COUNT = Some nc"
    "mem_get bc_buf RE_HEADER_STACK_SIZE = Some ns"
    using assms by (auto simp: exec_context_def lre_get_capture_count_def split: bind_splits)
  have b: "unat nc < 256" "unat ns < 256" using unsigned_less [of nc] unsigned_less [of ns] by simp_all
  have "s = \<lparr>big_endian = be, bc = bc_buf, cbuf = buf, cbuf_end = clen, cbuf_addr = addr,
           cbuf_type = (if typ = 1 \<and> f AND LRE_FLAG_UNICODE \<noteq> 0 then 2 else typ),
           capture_count = unat nc, stack_size_max = unat ns,
           multi_line = (f AND LRE_FLAG_MULTILINE \<noteq> 0),
           ignore_case = (f AND LRE_FLAG_IGNORECASE \<noteq> 0),
           is_unicode = (f AND LRE_FLAG_UNICODE \<noteq> 0), canonicalize = canon,
           state_size = 32 + unat nc * 8 * 2 + unat ns * 8, state_realloc = grow\<rparr>"
    using assms h by (simp add: exec_context_def lre_get_capture_count_def Let_def)
  moreover have "32 + x * 8 * 2 + y * 8 \<le> 2 ^ 16" if "x < 256" "y < 256" for x y :: nat using that by simp
  moreover note this [OF b]
  ultimately show "bc s = bc_buf" "cbuf s = buf" "cbuf_end s = clen" "state_realloc s = grow" "stack_size_max s < 256"
    "0 < state_size s" "state_size s \<le> 2 ^ 16" using b(2) by simp_all
qed

text \<open>
  C6. Byte code that type checks runs safely on every input: whatever the fuel, the executor never
  makes an invalid access (to the code, the input, the captures or its stacks), never meets an
  invalid operation code or fails an assertion; a run that ends reports an error, no match or a
  match, frees its stack of saved states, and every capture lies within the input.
\<close>

lemma lre_exec_typed:
  assumes "exec_context be canon grow addr bc_buf buf clen typ = Some s"
    and "clen \<le> length buf" and "clen < 2 ^ 63" and "cindex \<le> clen"
    and "code_typed s D" and "flows D RE_HEADER_LEN 0"
    and "2 * capture_count s \<le> length capture" and "stack_size_max s \<le> length stk"
    and "\<And>h n h'. grow h n = (h', True) \<Longrightarrow> n < 2 ^ 63"
  shows "case lre_exec fuel be canon grow addr h stk capture bc_buf buf cindex clen typ of
      Stuck \<Rightarrow> False
    | Out_of_fuel \<Rightarrow> True
    | Done (ret, th) \<Rightarrow>
        ret \<in> {Re_error, Re_no_match, Re_match} \<and> states th = [] \<and>
        (\<forall>i < 2 * capture_count s. \<forall>p. captures th ! i = Some p \<longrightarrow> p \<le> clen)"
proof -
  note fields = exec_context_fields [OF assms(1)]
  have mem: "memory_ok s" using assms(2,3,9) fields by (auto simp: memory_ok_def input_ok_def)
  obtain caps where caps: "clear_captures capture (2 * capture_count s) = Some caps" "length caps = length capture"
    "\<forall>i < 2 * capture_count s. caps ! i = None" using clear_captures_ok [OF assms(7)] by blast
  let ?th = "\<lparr>heap = h, captures = caps, stack = take (stack_size_max s) stk, stack_len = 0, pc = RE_HEADER_LEN,
        cptr = cindex, states = [], states_size = 0\<rparr>"
  have "thread_ok s D ?th"
    using assms(4,6,7,8) caps fields by (simp add: thread_ok_def frame_ok_def caps_ok_def)
  then have ok: "exec_ok s D (exec fuel s False ?th)" by (rule exec_safe [OF mem assms(5)])
  show ?thesis
  proof (cases "exec fuel s False ?th")
    case (Done r)
    obtain v th where r: "r = (v, th)" by (cases r)
    then have "caps_ok s (captures th)" using ok Done frame_okD(1) by auto
    moreover have "\<forall>cp. v \<noteq> Re_at cp" using exec_no_at Done r by blast
    ultimately show ?thesis
      using Done r caps(1) fields(3) assms(1) by (cases v) (simp_all add: lre_exec_def caps_ok_def)
  qed (use ok caps(1) assms(1) in \<open>simp_all add: lre_exec_def\<close>)
qed

text \<open>The byte code of \<open>/a+b/\<close> and its stack depths.\<close>

definition a_plus_b :: "u8 list" where
  "a_plus_b = [0, 0, 1, 0, 38, 0, 0, 0,
     9, 6, 0, 0, 0, 5, 8, 245, 255, 255, 255, 12, 0,
     29, 3, 0, 0, 0, 1, 0, 0, 0, 255, 255, 255, 127, 1, 0, 0, 0, 1, 97, 11,
     1, 98, 13, 0, 11]"

definition a_plus_b_context :: "nat re_context" where
  "a_plus_b_context =
     \<lparr>big_endian = False, bc = a_plus_b, cbuf = [98, 97, 97, 98], cbuf_end = 4, cbuf_addr = 0, cbuf_type = 0,
      capture_count = 1, stack_size_max = 0, multi_line = False, ignore_case = False, is_unicode = False,
      canonicalize = (\<lambda>c _. c), state_size = 48, state_realloc = (\<lambda>h n. (h, n < 10000))\<rparr>"

definition a_plus_b_depths :: depths where
  "a_plus_b_depths = [(8, 0), (13, 0), (14, 0), (19, 0), (21, 0), (38, 0), (40, 0), (41, 0), (43, 0), (45, 0)]"

lemma a_plus_b_typed: "code_typed a_plus_b_context a_plus_b_depths"
  by (simp add: code_typed_def opcode_at_def instr_typed_def quant_typed_def flows_def flows_jump_def byte_below_def
      reop_of_def reop_list_def instr_len_def is_char_test_def is_assertion_def pc_add_def
      get_u32_def obj_val_def mem_read_def mem_get_def Let_def a_plus_b_def a_plus_b_context_def a_plus_b_depths_def)

lemma lre_exec_typed_witness:
  "case lre_exec 100 False (\<lambda>c _. c) (\<lambda>h n. (h :: nat, n < 10000)) 0 0 [] [None, None] a_plus_b [98, 97, 97, 98] 0 4 0 of
      Stuck \<Rightarrow> False
    | Out_of_fuel \<Rightarrow> True
    | Done (ret, th) \<Rightarrow>
        ret \<in> {Re_error, Re_no_match, Re_match} \<and> states th = [] \<and>
        (\<forall>i < 2 * capture_count a_plus_b_context. \<forall>p. captures th ! i = Some p \<longrightarrow> p \<le> 4)"
proof (rule lre_exec_typed [of False "\<lambda>c _. c" "\<lambda>h n. (h :: nat, n < 10000)" 0 a_plus_b "[98, 97, 97, 98]" 4 0
    a_plus_b_context 0 a_plus_b_depths])
  show "exec_context False (\<lambda>c _. c) (\<lambda>h n. (h :: nat, n < 10000)) 0 a_plus_b [98, 97, 97, 98] 4 0 = Some a_plus_b_context"
    by (simp add: exec_context_def lre_get_flags_def lre_get_capture_count_def a_plus_b_def a_plus_b_context_def
        get_u16_def obj_val_def mem_read_def mem_get_def Let_def)
  show "code_typed a_plus_b_context a_plus_b_depths" by (rule a_plus_b_typed)
qed (simp_all add: a_plus_b_context_def a_plus_b_depths_def flows_def)

subsection \<open>Characters forward and back\<close>

lemma surrogate_halves:
  assumes "get_char s x e = Some (c, y)" "x < e" "e \<le> length (cbuf s)"
  shows "c = (if x + 1 < e \<and> pair_at s x then from_surrogate (ucast (cbuf s ! x)) (ucast (cbuf s ! (x + 1))) else ucast (cbuf s ! x))"
  using assms by (auto simp: get_char_def mem_get_def pair_at_def Let_def split: if_splits)

lemma get_prev_char_eq:
  assumes "0 < p" "p \<le> length (cbuf s)"
  shows "get_prev_char s p 0 = Some (if 1 < p \<and> pair_at s (p - 2)
    then (from_surrogate (ucast (cbuf s ! (p - 2))) (ucast (cbuf s ! (p - 1))), p - 2) else (ucast (cbuf s ! (p - 1)), p - 1))"
proof -
  have "Suc (p - 2) = p - 1" if "1 < p" using that by simp
  with assms show ?thesis
    by (cases "1 < p") (auto simp: get_prev_char_def mem_get_def pair_at_def Let_def)
qed

text \<open>
  C39. Reading backwards undoes reading forwards: after \<open>GET_CHAR\<close> at a position that is not inside
  a surrogate pair, \<open>GET_PREV_CHAR\<close> reads the same character and \<open>PREV_CHAR\<close> steps back to the
  position, for 8-bit, 16-bit and UTF-16 input.
\<close>

lemma get_char_get_prev:
  assumes "cbuf_end s \<le> length (cbuf s)" and "x < cbuf_end s" and "\<not> inside_pair s x"
    and "get_char s x (cbuf_end s) = Some (c, y)"
  shows "get_prev_char s y 0 = Some (c, x) \<and> prev_char s y 0 = Some x"
proof -
  have y: "y = (if x + 1 < cbuf_end s \<and> pair_at s x then x + 2 else x + 1)"
    by (rule get_char_next [OF assms(2,1,4)])
  note c = surrogate_halves [OF assms(4,2,1)]
  have prev: "get_prev_char s y 0 = Some (if 1 < y \<and> pair_at s (y - 2)
    then (from_surrogate (ucast (cbuf s ! (y - 2))) (ucast (cbuf s ! (y - 1))), y - 2) else (ucast (cbuf s ! (y - 1)), y - 1))"
    using assms(1,2) by (intro get_prev_char_eq) (auto simp: y)
  have both: "get_prev_char s y 0 = Some (c, x)"
  proof (cases "x + 1 < cbuf_end s \<and> pair_at s x")
    case True
    then have "y = x + 2" by (simp add: y)
    with True prev c show ?thesis by simp
  next
    case False
    then have "y = x + 1" by (simp add: y)
    moreover have "\<not> pair_at s (x - 1)" if "0 < x"
      using assms(2,3) that by (auto simp: inside_pair_def pair_at_def)
    ultimately show ?thesis using prev c False by (cases x) auto
  qed
  moreover have "0 < y" using y by (simp split: if_splits)
  ultimately show ?thesis using y by (auto simp: prev_char_def get_prev_char_def mem_get_def Let_def split: if_splits)
qed

lemma get_char_get_prev_witness:
  "get_prev_char (a_plus_b_context\<lparr>cbuf := [0xD83D, 0xDE00], cbuf_end := 2, cbuf_type := 2\<rparr>) 2 0 = Some (0x1F600, 0) \<and>
   prev_char (a_plus_b_context\<lparr>cbuf := [0xD83D, 0xDE00], cbuf_end := 2, cbuf_type := 2\<rparr>) 2 0 = Some 0"
  by (rule get_char_get_prev)
    (simp_all add: a_plus_b_context_def inside_pair_def get_char_def mem_get_def is_hi_surrogate_def is_lo_surrogate_def
      from_surrogate_def Let_def)

subsection \<open>Character classes\<close>

lemma sorted_ranges:
  assumes "\<And>i. i < n \<Longrightarrow> lo i \<le> hi i" "\<And>i. Suc i < n \<Longrightarrow> hi i < lo (Suc i)" "i < j" "j < n"
  shows "hi i < (lo j :: u32)"
  using assms(3,4)
proof (induction j)
  case (Suc j)
  show ?case
  proof (cases "i = j")
    case False
    then have "hi i < lo j" using Suc by simp
    also have "\<dots> \<le> hi j" using assms(1) Suc.prems by simp
    also have "\<dots> < lo (Suc j)" using assms(2) Suc.prems by simp
    finally show ?thesis .
  qed (use assms(2) Suc.prems in simp)
qed simp

lemma range_loop_finds:
  assumes tab: "\<And>i. i < n \<Longrightarrow> low_at i = Some (lo i) \<and> high_at i = Some (hi i)"
    and le: "\<And>i. i < n \<Longrightarrow> lo i \<le> hi i" and srt: "\<And>i. Suc i < n \<Longrightarrow> hi i < lo (Suc i)"
    and first: "lo 0 \<le> c"
  shows "b < n \<Longrightarrow> a \<le> b + 1 \<Longrightarrow> (\<And>i. i < n \<Longrightarrow> lo i \<le> c \<Longrightarrow> c \<le> hi i \<Longrightarrow> a \<le> i \<and> i \<le> b) \<Longrightarrow>
    range_loop low_at high_at c a b = Some (\<exists>i < n. lo i \<le> c \<and> c \<le> hi i)"
proof (induction "Suc b - a" arbitrary: a b rule: less_induct)
  case less
  note loop = range_loop.simps [of low_at high_at c a b]
  show ?case
  proof (cases "a \<le> b")
    case False
    then have "\<not> (\<exists>i < n. lo i \<le> c \<and> c \<le> hi i)" using less.prems(3) by fastforce
    with False show ?thesis by (simp add: loop)
  next
    case True
    define m where "m = (a + b) div 2"
    have m: "a \<le> m" "m \<le> b" "m < n" using True less.prems(1) by (auto simp: m_def)
    note before = sorted_ranges [of n lo hi, OF le srt]
    consider "c < lo m" | "hi m < c" | "lo m \<le> c" "c \<le> hi m" by (meson not_le)
    then show ?thesis
    proof cases
      case 1
      then have "m \<noteq> 0" using first by (cases "m = 0") auto
      moreover have "a \<le> i \<and> i \<le> m - 1" if "i < n" "lo i \<le> c" "c \<le> hi i" for i
      proof -
        have "\<not> m \<le> i"
        proof
          assume "m \<le> i"
          then have "lo m \<le> lo i" using before [of m i] le [OF m(3)] that(1) by (cases "m = i") auto
          with 1 that(2) show False by simp
        qed
        then show ?thesis using less.prems(3) that by auto
      qed
      ultimately have "range_loop low_at high_at c a (m - 1) = Some (\<exists>i < n. lo i \<le> c \<and> c \<le> hi i)"
        using m by (intro less.hyps) auto
      then show ?thesis using True 1 \<open>m \<noteq> 0\<close> tab [OF m(3)] by (simp add: loop Let_def flip: m_def)
    next
      case 2
      have "m + 1 \<le> i \<and> i \<le> b" if "i < n" "lo i \<le> c" "c \<le> hi i" for i
      proof -
        have "\<not> i \<le> m"
        proof
          assume "i \<le> m"
          then have "hi i \<le> hi m" using before [of i m] le [OF m(3)] m(3) by (cases "i = m") auto
          with 2 that(3) show False by simp
        qed
        then show ?thesis using less.prems(3) that by auto
      qed
      then have "range_loop low_at high_at c (m + 1) b = Some (\<exists>i < n. lo i \<le> c \<and> c \<le> hi i)"
        using m less.prems(1) by (intro less.hyps) auto
      moreover have "\<not> c < lo m" using 2 le [OF m(3)] by auto
      ultimately show ?thesis using True 2 tab [OF m(3)] by (simp add: loop Let_def flip: m_def)
    next
      case 3
      then show ?thesis using True m(3) tab [OF m(3)] by (auto simp: loop Let_def simp flip: m_def)
    qed
  qed
qed

text \<open>
  C40. The binary search of the range instructions decides membership: on a table of sorted,
  disjoint intervals it finds a character exactly when one of the intervals holds it; the 16-bit
  form also takes every character from \<open>0xFFFF\<close> on when the last interval ends there.
\<close>

lemma range_test_member:
  assumes "0 < n"
    and "\<And>i. i < n \<Longrightarrow> low_at i = Some (lo i) \<and> high_at i = Some (hi i)"
    and "\<And>i. i < n \<Longrightarrow> lo i \<le> hi i" and "\<And>i. Suc i < n \<Longrightarrow> hi i < lo (Suc i)"
  shows "range_test low_at high_at wide n c =
    Some ((\<exists>i < n. lo i \<le> c \<and> c \<le> hi i) \<or> \<not> wide \<and> 0xFFFF \<le> c \<and> hi (n - 1) = 0xFFFF)"
proof -
  note before = sorted_ranges [of n lo hi, OF assms(3,4)]
  have first: "lo 0 \<le> lo i" if "i < n" for i using before [of 0 i] assms(3) [of 0] that by (cases "i = 0") auto
  have last: "hi i \<le> hi (n - 1)" if "i < n" for i
  proof (cases "i = n - 1")
    case False
    then have "hi i < lo (n - 1)" using before [of i "n - 1"] that by simp
    with assms(3) [of "n - 1"] assms(1) show ?thesis by auto
  qed simp
  consider "c < lo 0" | "lo 0 \<le> c" "\<not> wide \<and> 0xFFFF \<le> c \<and> hi (n - 1) = 0xFFFF"
    | "lo 0 \<le> c" "\<not> (\<not> wide \<and> 0xFFFF \<le> c \<and> hi (n - 1) = 0xFFFF)" "hi (n - 1) < c"
    | "lo 0 \<le> c" "\<not> (\<not> wide \<and> 0xFFFF \<le> c \<and> hi (n - 1) = 0xFFFF)" "c \<le> hi (n - 1)" by (meson not_le)
  then show ?thesis
  proof cases
    case 1
    then have "\<not> (\<exists>i < n. lo i \<le> c \<and> c \<le> hi i)" using first by fastforce
    moreover have "lo 0 \<le> hi (n - 1)" using assms(3) [of 0] last [of 0] assms(1) by auto
    then have "\<not> (0xFFFF \<le> c \<and> hi (n - 1) = 0xFFFF)" using 1 by auto
    ultimately show ?thesis using 1 assms(1,2) by (auto simp: range_test_def)
  next
    case 2
    then show ?thesis using assms(1,2) by (auto simp: range_test_def)
  next
    case 3
    then have "\<not> (\<exists>i < n. lo i \<le> c \<and> c \<le> hi i)" using last by fastforce
    with 3 show ?thesis using assms(1,2) by (auto simp: range_test_def)
  next
    case 4
    have "range_loop low_at high_at c 0 (n - 1) = Some (\<exists>i < n. lo i \<le> c \<and> c \<le> hi i)"
      by (rule range_loop_finds [OF assms(2-4) 4(1)]) (use assms(1) in auto)
    with 4 show ?thesis using assms(1,2) by (auto simp: range_test_def)
  qed
qed

definition digits_letters_lo :: "u32 list" where
  "digits_letters_lo = [48, 65, 97]"

definition digits_letters_hi :: "u32 list" where
  "digits_letters_hi = [57, 90, 122]"

lemma range_test_member_witness:
  "range_test (mem_get digits_letters_lo) (mem_get digits_letters_hi) False 3 70 =
    Some ((\<exists>i < 3. digits_letters_lo ! i \<le> 70 \<and> 70 \<le> digits_letters_hi ! i) \<or>
      \<not> False \<and> 0xFFFF \<le> (70 :: u32) \<and> digits_letters_hi ! (3 - 1) = 0xFFFF)"
  by (rule range_test_member)
    (auto simp: mem_get_def less_Suc_eq numeral_3_eq_3 digits_letters_lo_def digits_letters_hi_def)

subsection \<open>The loop of a simple quantifier returns\<close>

lemma simple_atom_returns:
  assumes inp: "input_ok s"
  shows "simple_atom k s n (pc th) \<Longrightarrow> k \<le> f \<Longrightarrow> cptr th \<le> cbuf_end s \<Longrightarrow> exec f s True th \<noteq> Out_of_fuel"
proof (induction k arbitrary: n th f)
  case (Suc k)
  obtain opcode where op: "opcode_at s (pc th) = Some opcode" using Suc.prems(1) by (cases "opcode_at s (pc th)") auto
  obtain g where f: "f = Suc g" "k \<le> g" using Suc.prems(2) by (cases f) auto
  have ng: "opcode \<noteq> REOP_simple_greedy_quant"
    using Suc.prems(1) op by (auto simp: is_char_test_def is_assertion_def split: option.splits if_splits)
  let ?th = "th\<lparr>pc := pc th + 1\<rparr>"
  have next_atom: "(\<exists>m. simple_atom k s m (pc th1)) \<and> cptr th1 \<le> cbuf_end s" if "re_step s opcode ?th = Some (Continue th1)" for th1
  proof (cases "opcode = REOP_match")
    case True
    with that show ?thesis by (simp add: re_step_def Let_def)
  next
    case False
    obtain l where l: "instr_len s (pc th) opcode = Some l"
      "if is_char_test opcode then 0 < n \<and> simple_atom k s (n - 1) (pc th + l) else is_assertion opcode \<and> simple_atom k s n (pc th + l)"
      using Suc.prems(1) op False by (cases "instr_len s (pc th) opcode") auto
    show ?thesis
    proof (cases "is_char_test opcode")
      case True
      have c: "pc th1 = pc th + l" "cptr th < cbuf_end s" "\<exists>c. get_char s (cptr th) (cbuf_end s) = Some (c, cptr th1)"
        using char_test_continue [OF True l(1), of ?th th1] that Suc.prems(3) by simp_all
      then have "cptr th1 \<le> cbuf_end s" using get_char_end_ok [OF inp c(2)] by auto
      with c(1) l(2) True show ?thesis by auto
    next
      case False
      then have a: "is_assertion opcode" "simple_atom k s n (pc th + l)" using l(2) by simp_all
      note c = assertion_continue [OF a(1), of s ?th th1]
      have "th1 = ?th" "l = 1" using c(1) c(3) [of "pc th"] that l(1) by simp_all
      with a(2) Suc.prems(3) show ?thesis by auto
    qed
  qed
  show ?case
    unfolding f(1) exec_no_recurse [OF op ng]
  proof (cases "re_step s opcode ?th")
    case (Some r)
    then show "run_bind (lift_run (re_step s opcode ?th)) (\<lambda>r. case r of
          Continue th \<Rightarrow> exec g s True th
        | No_match th \<Rightarrow> Done (Re_no_match, th)
        | Match th \<Rightarrow> Done (Re_at (cptr th), th)
        | Exec_error th \<Rightarrow> Done (Re_error, th)) \<noteq> Out_of_fuel"
      using Suc.IH [OF _ f(2)] next_atom by (cases r) auto
  qed simp
qed simp

text \<open>
  C14. The loop of a simple greedy quantifier in typed code always returns: its atom is a straight
  line that consumes input, so fuel for the code and the rest of the input is enough, and the loop
  counts no more repetitions than the input has room for.
\<close>

lemma quant_loop_returns:
  assumes "memory_ok s" and "code_typed s D" and "frame_ok s D th" and "flows D pc1 (stack_len th)"
    and "simple_atom (length (bc s)) s n pc1" and "0 < n"
    and "length (bc s) + (cbuf_end s - cptr th) < fuel"
  shows "\<exists>failed q' th'. quant_loop fuel s pc1 quant_max q th = Done (failed, q', th') \<and>
    q \<le> q' \<and> cptr th + n * (q' - q) \<le> cptr th' \<and> cptr th' \<le> cbuf_end s"
  using assms(3,4,7)
proof (induction "cbuf_end s - cptr th" arbitrary: th q fuel rule: less_induct)
  case less
  have inp: "input_ok s" using assms(1) by (simp add: memory_ok_def)
  obtain f where f: "fuel = Suc f" "length (bc s) + (cbuf_end s - cptr th) \<le> f" using less.prems(3) by (cases fuel) auto
  let ?th = "th\<lparr>pc := pc1\<rparr>"
  have E: "exec_ok s D (exec f s True ?th)"
    by (rule exec_safe [OF assms(1,2)]) (use less.prems in \<open>simp add: thread_ok_def\<close>)
  have "exec f s True ?th \<noteq> Out_of_fuel"
    using simple_atom_returns [OF inp, of "length (bc s)" n ?th f] assms(5) f(2) frame_okD(3) [OF less.prems(1)] by simp
  then obtain v th1 where run: "exec f s True ?th = Done (v, th1)"
    using E by (cases "exec f s True ?th") auto
  have le: "cptr th \<le> cbuf_end s" using frame_okD(3) [OF less.prems(1)] .
  show ?case
  proof (cases "\<exists>cp. v = Re_at cp")
    case True
    then obtain cp where v: "v = Re_at cp" ..
    let ?next = "th1\<lparr>pc := pc th, stack_len := stack_len th, cptr := cp\<rparr>"
    have cp: "cp \<le> cbuf_end s" using E run v by simp
    have "gets s n (cptr th) cp" using simple_atom_run [OF inp, of "length (bc s)" n ?th f cp th1] assms(5) le run v by simp
    then have adv: "cptr th + n \<le> cp" by (rule gets_advance [OF inp])
    have "frame_ok s D th1" using E run by simp
    then have "frame_ok s D ?next" using cp by (simp add: frame_ok_def)
    moreover have "cbuf_end s - cptr ?next < cbuf_end s - cptr th"
      "length (bc s) + (cbuf_end s - cptr ?next) < f" using f(2) adv assms(6) cp by simp_all
    ultimately obtain failed q' th' where ih: "quant_loop f s pc1 quant_max (q + 1) ?next = Done (failed, q', th')"
      "q + 1 \<le> q'" "cptr ?next + n * (q' - (q + 1)) \<le> cptr th'" "cptr th' \<le> cbuf_end s"
      using less.hyps [of ?next f "q + 1"] less.prems(2) by auto
    have "n * (q' - q) = n + n * (q' - (q + 1))" using ih(2) by (metis Suc_diff_le Suc_eq_plus1 diff_Suc_Suc mult_Suc_right)
    then have "cptr th + n * (q' - q) \<le> cptr th'" using adv ih(3) by simp
    then show ?thesis unfolding f(1) quant_loop_again [OF run [unfolded v]] Let_def using ih adv cp by auto
  next
    case False
    from quant_loop_stop [OF run False] show ?thesis using le by (simp add: f(1))
  qed
qed

definition a_plus_b_thread :: "nat re_thread" where
  "a_plus_b_thread =
     \<lparr>heap = 0, captures = [Some 1, None], stack = [], stack_len = 0, pc = 41, cptr = 1, states = [], states_size = 0\<rparr>"

lemma quant_loop_returns_witness:
  "\<exists>failed q' th'. quant_loop 100 a_plus_b_context 38 INT32_MAX 0 a_plus_b_thread = Done (failed, q', th') \<and>
    0 \<le> q' \<and> cptr a_plus_b_thread + 1 * (q' - 0) \<le> cptr th' \<and> cptr th' \<le> cbuf_end a_plus_b_context"
proof (rule quant_loop_returns [OF _ a_plus_b_typed])
  show "memory_ok a_plus_b_context"
    by (simp add: memory_ok_def input_ok_def a_plus_b_context_def)
  show "frame_ok a_plus_b_context a_plus_b_depths a_plus_b_thread"
    by (auto simp: frame_ok_def caps_ok_def a_plus_b_context_def a_plus_b_thread_def less_Suc_eq numeral_2_eq_2)
  show "simple_atom (length (bc a_plus_b_context)) a_plus_b_context 1 38"
    by (simp add: opcode_at_def instr_len_def is_char_test_def reop_of_def reop_list_def mem_get_def
        a_plus_b_def a_plus_b_context_def)
qed (simp_all add: flows_def a_plus_b_depths_def a_plus_b_thread_def a_plus_b_context_def a_plus_b_def)

end
