(* ===== verification/List_Head.thy ===== *)
theory List_Head
  imports Prelude
begin

section \<open>Intrusive doubly linked lists\<close>

text \<open>
  The lists of \<open>list.h\<close>: a heap of \<open>list_head\<close> structures, each with two pointers, linked in a ring
  through the head of the list.  The operations refine the operations on lists: \<open>ring H head xs\<close>
  says that the heap holds the list \<open>xs\<close>.  An access through a pointer to nothing is \<open>None\<close>.
\<close>

subsection \<open>The code\<close>

record list_head =
  lh_prev :: nat
  lh_next :: nat

type_synonym list_heap = "nat \<Rightarrow> list_head option"

abbreviation (input) "NULL \<equiv> 0 :: nat"

definition set_next :: "list_heap \<Rightarrow> nat \<Rightarrow> nat \<Rightarrow> list_heap option" where
  "set_next H p v = do { l \<leftarrow> H p; Some (H(p \<mapsto> l\<lparr>lh_next := v\<rparr>)) }"

definition set_prev :: "list_heap \<Rightarrow> nat \<Rightarrow> nat \<Rightarrow> list_heap option" where
  "set_prev H p v = do { l \<leftarrow> H p; Some (H(p \<mapsto> l\<lparr>lh_prev := v\<rparr>)) }"

definition init_list_head :: "list_heap \<Rightarrow> nat \<Rightarrow> list_heap option" where
  "init_list_head H head = do {
     H \<leftarrow> set_prev H head head;
     set_next H head head }"

definition list_add_between :: "list_heap \<Rightarrow> nat \<Rightarrow> nat \<Rightarrow> nat \<Rightarrow> list_heap option" where
  "list_add_between H el prev next_el = do {
     H \<leftarrow> set_next H prev el;
     H \<leftarrow> set_prev H el prev;
     H \<leftarrow> set_next H el next_el;
     set_prev H next_el el }"

definition list_add :: "list_heap \<Rightarrow> nat \<Rightarrow> nat \<Rightarrow> list_heap option" where
  "list_add H el head = do { l \<leftarrow> H head; list_add_between H el head (lh_next l) }"

definition list_add_tail :: "list_heap \<Rightarrow> nat \<Rightarrow> nat \<Rightarrow> list_heap option" where
  "list_add_tail H el head = do { l \<leftarrow> H head; list_add_between H el (lh_prev l) head }"

definition list_del :: "list_heap \<Rightarrow> nat \<Rightarrow> list_heap option" where
  "list_del H el = do {
     l \<leftarrow> H el;
     H \<leftarrow> set_next H (lh_prev l) (lh_next l);
     H \<leftarrow> set_prev H (lh_next l) (lh_prev l);
     H \<leftarrow> set_prev H el NULL;
     set_next H el NULL }"

definition list_empty :: "list_heap \<Rightarrow> nat \<Rightarrow> bool option" where
  "list_empty H el = do { l \<leftarrow> H el; Some (lh_next l = el) }"

text \<open>The loops; a body takes the element, the heap and a state of its own.\<close>

partial_function (option) list_for_each ::
    "(nat \<Rightarrow> list_heap \<times> 's \<Rightarrow> (list_heap \<times> 's) option) \<Rightarrow> nat \<Rightarrow> nat \<Rightarrow> list_heap \<times> 's \<Rightarrow> (list_heap \<times> 's) option" where
  "list_for_each body head el st =
     (if el = head then Some st
      else do {
        st \<leftarrow> body el st;
        l \<leftarrow> fst st el;
        list_for_each body head (lh_next l) st })"

partial_function (option) list_for_each_safe ::
    "(nat \<Rightarrow> list_heap \<times> 's \<Rightarrow> (list_heap \<times> 's) option) \<Rightarrow> nat \<Rightarrow> nat \<Rightarrow> nat \<Rightarrow> list_heap \<times> 's \<Rightarrow> (list_heap \<times> 's) option" where
  "list_for_each_safe body head el el1 st =
     (if el = head then Some st
      else do {
        st \<leftarrow> body el st;
        l \<leftarrow> fst st el1;
        list_for_each_safe body head el1 (lh_next l) st })"

text \<open>The loop with its first part: \<open>el = head->next, el1 = el->next\<close>.\<close>

definition for_each_safe ::
    "(nat \<Rightarrow> list_heap \<times> 's \<Rightarrow> (list_heap \<times> 's) option) \<Rightarrow> nat \<Rightarrow> list_heap \<times> 's \<Rightarrow> (list_heap \<times> 's) option" where
  "for_each_safe body head st = do {
     l \<leftarrow> fst st head;
     l1 \<leftarrow> fst st (lh_next l);
     list_for_each_safe body head (lh_next l) (lh_next l1) st }"

subsection \<open>Rings\<close>

definition nx :: "list_heap \<Rightarrow> nat \<Rightarrow> nat option" where
  "nx H p = map_option lh_next (H p)"

definition pv :: "list_heap \<Rightarrow> nat \<Rightarrow> nat option" where
  "pv H p = map_option lh_prev (H p)"

fun chain :: "(nat \<Rightarrow> nat option) \<Rightarrow> (nat \<Rightarrow> nat option) \<Rightarrow> nat \<Rightarrow> nat list \<Rightarrow> nat \<Rightarrow> bool" where
  "chain n p a [] b \<longleftrightarrow> n a = Some b \<and> p b = Some a"
| "chain n p a (x # xs) b \<longleftrightarrow> n a = Some x \<and> p x = Some a \<and> chain n p x xs b"

definition ring :: "list_heap \<Rightarrow> nat \<Rightarrow> nat list \<Rightarrow> bool" where
  "ring H head xs \<longleftrightarrow> distinct (head # xs) \<and> chain (nx H) (pv H) head xs head"

lemma chain_append: "chain n p a (xs @ y # ys) b \<longleftrightarrow> chain n p a xs y \<and> chain n p y ys b"
  by (induction xs arbitrary: a) auto

lemma chain_cong:
  "chain n p a xs b \<Longrightarrow> (\<And>q. q \<in> set (a # xs) \<Longrightarrow> n' q = n q) \<Longrightarrow> (\<And>q. q \<in> set (b # xs) \<Longrightarrow> p' q = p q) \<Longrightarrow> chain n' p' a xs b"
  by (induction xs arbitrary: a) auto

lemma set_next_eq: "nx H p \<noteq> None \<Longrightarrow> \<exists>H'. set_next H p v = Some H' \<and> nx H' = (nx H)(p := Some v) \<and> pv H' = pv H"
proof -
  assume "nx H p \<noteq> None"
  then obtain l where "H p = Some l" by (auto simp: nx_def)
  then show ?thesis
    by (intro exI [of _ "H(p \<mapsto> l\<lparr>lh_next := v\<rparr>)"]) (auto simp: set_next_def nx_def pv_def)
qed

lemma set_prev_eq: "nx H p \<noteq> None \<Longrightarrow> \<exists>H'. set_prev H p v = Some H' \<and> nx H' = nx H \<and> pv H' = (pv H)(p := Some v)"
proof -
  assume "nx H p \<noteq> None"
  then obtain l where "H p = Some l" by (auto simp: nx_def)
  then show ?thesis
    by (intro exI [of _ "H(p \<mapsto> l\<lparr>lh_prev := v\<rparr>)"]) (auto simp: set_prev_def nx_def pv_def)
qed

lemma nx_pv: "nx H p = None \<longleftrightarrow> pv H p = None"
  by (simp add: nx_def pv_def)

lemma heap_at: "nx H p = Some a \<Longrightarrow> pv H p = Some b \<Longrightarrow> H p = Some \<lparr>lh_prev = b, lh_next = a\<rparr>"
  by (auto simp: nx_def pv_def)

lemma chain_dom: "chain (nx H) (pv H) a xs b \<Longrightarrow> q \<in> set (a # b # xs) \<Longrightarrow> nx H q \<noteq> None"
  by (induction xs arbitrary: a) (auto simp: nx_def pv_def)

lemma list_add_between_eq:
  assumes "nx H el \<noteq> None" "nx H u \<noteq> None" "nx H w \<noteq> None"
  shows "\<exists>H'. list_add_between H el u w = Some H' \<and> nx H' = (nx H)(u := Some el, el := Some w) \<and>
    pv H' = (pv H)(el := Some u, w := Some el)"
proof -
  obtain H1 where H1: "set_next H u el = Some H1" "nx H1 = (nx H)(u := Some el)" "pv H1 = pv H"
    using set_next_eq [OF assms(2)] by blast
  obtain H2 where H2: "set_prev H1 el u = Some H2" "nx H2 = nx H1" "pv H2 = (pv H1)(el := Some u)"
    using set_prev_eq [of H1 el u] by (metis H1(2) assms(1) fun_upd_apply option.distinct(1))
  obtain H3 where H3: "set_next H2 el w = Some H3" "nx H3 = (nx H2)(el := Some w)" "pv H3 = pv H2"
    using set_next_eq [of H2 el w] by (metis H1(2) H2(2) assms(1) fun_upd_apply option.distinct(1))
  obtain H4 where H4: "set_prev H3 w el = Some H4" "nx H4 = nx H3" "pv H4 = (pv H3)(w := Some el)"
    using set_prev_eq [of H3 w el] by (metis H1(2) H2(2) H3(2) assms(3) fun_upd_apply option.distinct(1))
  from H1 H2 H3 H4 show ?thesis by (simp add: list_add_between_def)
qed

definition same_elsewhere :: "nat set \<Rightarrow> list_heap \<Rightarrow> list_heap \<Rightarrow> bool" where
  "same_elsewhere A H H' \<longleftrightarrow> (\<forall>q. q \<notin> A \<longrightarrow> nx H' q = nx H q \<and> pv H' q = pv H q) \<and> (\<forall>q. nx H q \<noteq> None \<longrightarrow> nx H' q \<noteq> None)"

lemma list_add_ring:
  assumes ring: "ring H head xs" and el: "nx H el \<noteq> None" "el \<notin> set (head # xs)"
  shows "\<exists>H'. list_add H el head = Some H' \<and> ring H' head (el # xs) \<and> same_elsewhere (set (el # head # xs)) H H'"
proof -
  have c: "chain (nx H) (pv H) head xs head" and d: "distinct (head # xs)" using ring by (simp_all add: ring_def)
  define w where "w = hd (xs @ [head])"
  have w: "nx H head = Some w" "w \<in> set (head # xs)" using c by (cases xs; simp add: w_def)+
  have dom: "nx H head \<noteq> None" "nx H w \<noteq> None" using chain_dom [OF c, of w] w by auto
  obtain H' where H': "list_add_between H el head w = Some H'" "nx H' = (nx H)(head := Some el, el := Some w)"
    "pv H' = (pv H)(el := Some head, w := Some el)" using list_add_between_eq [OF el(1) dom] by blast
  have "list_add H el head = Some H'" using w(1) H'(1) by (auto simp: list_add_def nx_def)
  moreover have "chain (nx H') (pv H') head (el # xs) head"
  proof (cases xs)
    case Nil
    then show ?thesis using el(2) by (simp add: H'(2,3) w_def)
  next
    case (Cons x ys)
    have "chain (nx H) (pv H) x ys head" using c Cons by simp
    then have "chain (nx H') (pv H') x ys head"
      by (rule chain_cong) (use d el(2) Cons in \<open>auto simp: H'(2,3) w_def\<close>)
    then show ?thesis using el(2) Cons d by (auto simp: H'(2,3) w_def)
  qed
  moreover have "same_elsewhere (set (el # head # xs)) H H'"
    using w(2) by (auto simp: same_elsewhere_def H'(2,3))
  ultimately show ?thesis using d el(2) by (auto simp: ring_def)
qed

lemma list_add_tail_ring:
  assumes ring: "ring H head xs" and el: "nx H el \<noteq> None" "el \<notin> set (head # xs)"
  shows "\<exists>H'. list_add_tail H el head = Some H' \<and> ring H' head (xs @ [el]) \<and> same_elsewhere (set (el # head # xs)) H H'"
proof -
  have c: "chain (nx H) (pv H) head xs head" and d: "distinct (head # xs)" using ring by (simp_all add: ring_def)
  define u where "u = last (head # xs)"
  have u: "pv H head = Some u" "u \<in> set (head # xs)"
    using c by (cases xs rule: rev_cases; simp add: u_def chain_append)+
  have dom: "nx H u \<noteq> None" "nx H head \<noteq> None" using chain_dom [OF c, of u] chain_dom [OF c, of head] u(2) by auto
  obtain H' where H': "list_add_between H el u head = Some H'" "nx H' = (nx H)(u := Some el, el := Some head)"
    "pv H' = (pv H)(el := Some u, head := Some el)" using list_add_between_eq [OF el(1) dom] by blast
  have "list_add_tail H el head = Some H'" using u(1) H'(1) by (auto simp: list_add_tail_def pv_def)
  moreover have "chain (nx H') (pv H') head (xs @ [el]) head"
  proof (cases xs rule: rev_cases)
    case Nil
    then show ?thesis using el(2) by (simp add: H'(2,3) u_def)
  next
    case (snoc ys x)
    have "chain (nx H) (pv H) head ys x" using c snoc by (simp add: chain_append)
    then have "chain (nx H') (pv H') head ys x"
      by (rule chain_cong) (use d el(2) snoc in \<open>auto simp: H'(2,3) u_def\<close>)
    then have "chain (nx H') (pv H') head (ys @ x # [el]) head"
      unfolding chain_append using el(2) snoc d by (auto simp: H'(2,3) u_def)
    with snoc show ?thesis by simp
  qed
  moreover have "same_elsewhere (set (el # head # xs)) H H'"
    using u(2) by (auto simp: same_elsewhere_def H'(2,3))
  ultimately show ?thesis using d el(2) by (auto simp: ring_def)
qed

lemma list_del_ring:
  assumes ring: "ring H head (ys @ el # zs)"
  shows "\<exists>H'. list_del H el = Some H' \<and> ring H' head (ys @ zs) \<and> same_elsewhere (set (head # ys @ el # zs)) H H' \<and>
    H' el = Some \<lparr>lh_prev = NULL, lh_next = NULL\<rparr>"
proof -
  have c: "chain (nx H) (pv H) head ys el" "chain (nx H) (pv H) el zs head" and d: "distinct (head # ys @ el # zs)"
    using ring by (simp_all add: ring_def chain_append)
  define u where "u = last (head # ys)"
  define w where "w = hd (zs @ [head])"
  have u: "pv H el = Some u" "u \<in> set (head # ys)" using c(1) by (cases ys rule: rev_cases; simp add: u_def chain_append)+
  have w: "nx H el = Some w" "w \<in> set (head # zs)" using c(2) by (cases zs; simp add: w_def)+
  have ne: "u \<noteq> el" "w \<noteq> el" using u(2) w(2) d by auto
  have dom: "nx H u \<noteq> None" "nx H w \<noteq> None" "nx H el \<noteq> None"
    using chain_dom [OF c(1), of u] chain_dom [OF c(2), of w] u(2) w by auto
  obtain H1 where H1: "set_next H u w = Some H1" "nx H1 = (nx H)(u := Some w)" "pv H1 = pv H"
    using set_next_eq [OF dom(1)] by blast
  obtain H2 where H2: "set_prev H1 w u = Some H2" "nx H2 = nx H1" "pv H2 = (pv H1)(w := Some u)"
    using set_prev_eq [of H1 w u] by (metis H1(2) dom(2) fun_upd_apply option.distinct(1))
  obtain H3 where H3: "set_prev H2 el NULL = Some H3" "nx H3 = nx H2" "pv H3 = (pv H2)(el := Some NULL)"
    using set_prev_eq [of H2 el NULL] by (metis H1(2) H2(2) dom(3) fun_upd_apply option.distinct(1))
  obtain H' where H': "set_next H3 el NULL = Some H'" "nx H' = (nx H3)(el := Some NULL)" "pv H' = pv H3"
    using set_next_eq [of H3 el NULL] by (metis H1(2) H2(2) H3(2) dom(3) fun_upd_apply option.distinct(1))
  have n': "nx H' = (nx H)(u := Some w, el := Some NULL)" and p': "pv H' = (pv H)(w := Some u, el := Some NULL)"
    using H1 H2 H3 H' by simp_all
  have "list_del H el = Some H'"
    using heap_at [OF w(1) u(1)] H1(1) H2(1) H3(1) H'(1) by (simp add: list_del_def)
  moreover have "chain (nx H') (pv H') head (ys @ zs) head"
  proof (cases zs)
    case Nil
    show ?thesis
    proof (cases ys rule: rev_cases)
      case Nil
      with \<open>zs = []\<close> show ?thesis using ne by (simp add: n' p' u_def w_def)
    next
      case (snoc ys' y)
      have "chain (nx H) (pv H) head ys' y" using c(1) snoc by (simp add: chain_append)
      then have "chain (nx H') (pv H') head ys' y"
        by (rule chain_cong) (use d snoc \<open>zs = []\<close> in \<open>auto simp: n' p' u_def w_def\<close>)
      then show ?thesis using snoc \<open>zs = []\<close> ne by (simp add: chain_append n' p' u_def w_def)
    qed
  next
    case (Cons z zs')
    have "chain (nx H) (pv H) z zs' head" using c(2) Cons by simp
    then have tail: "chain (nx H') (pv H') z zs' head"
      by (rule chain_cong) (use d u(2) Cons in \<open>auto simp: n' p' w_def\<close>)
    show ?thesis
    proof (cases ys rule: rev_cases)
      case Nil
      with Cons tail ne show ?thesis by (simp add: n' p' u_def w_def)
    next
      case (snoc ys' y)
      have "chain (nx H) (pv H) head ys' y" using c(1) snoc by (simp add: chain_append)
      then have "chain (nx H') (pv H') head ys' y"
        by (rule chain_cong) (use d snoc Cons in \<open>auto simp: n' p' u_def w_def\<close>)
      then have "chain (nx H') (pv H') head (ys' @ y # z # zs') head"
        unfolding chain_append using tail snoc Cons ne by (simp add: n' p' u_def w_def)
      with snoc Cons show ?thesis by simp
    qed
  qed
  moreover have "same_elsewhere (set (head # ys @ el # zs)) H H'"
    using u(2) w(2) by (auto simp: same_elsewhere_def n' p')
  moreover have "H' el = Some \<lparr>lh_prev = NULL, lh_next = NULL\<rparr>" using heap_at [of H' el] n' p' by simp
  ultimately show ?thesis using d by (auto simp: ring_def)
qed

subsection \<open>Sequences of operations\<close>

datatype list_op = Op_add nat | Op_add_tail nat | Op_del nat

fun list_op_run :: "nat \<Rightarrow> list_op \<Rightarrow> list_heap \<Rightarrow> list_heap option" where
  "list_op_run head (Op_add el) H = list_add H el head"
| "list_op_run head (Op_add_tail el) H = list_add_tail H el head"
| "list_op_run head (Op_del el) H = list_del H el"

fun list_op_abs :: "list_op \<Rightarrow> nat list \<Rightarrow> nat list" where
  "list_op_abs (Op_add el) xs = el # xs"
| "list_op_abs (Op_add_tail el) xs = xs @ [el]"
| "list_op_abs (Op_del el) xs = remove1 el xs"

fun list_op_el :: "list_op \<Rightarrow> nat" where
  "list_op_el (Op_add el) = el"
| "list_op_el (Op_add_tail el) = el"
| "list_op_el (Op_del el) = el"

text \<open>An element is added when it is in no list and deleted when it is in the list.\<close>

fun list_op_ok :: "nat \<Rightarrow> list_op \<Rightarrow> nat list \<Rightarrow> bool" where
  "list_op_ok head (Op_del el) xs \<longleftrightarrow> el \<in> set xs"
| "list_op_ok head op xs \<longleftrightarrow> list_op_el op \<notin> set (head # xs)"

primrec list_ops_run :: "nat \<Rightarrow> list_op list \<Rightarrow> list_heap \<Rightarrow> list_heap option" where
  "list_ops_run head [] H = Some H"
| "list_ops_run head (op # ops) H = do { H \<leftarrow> list_op_run head op H; list_ops_run head ops H }"

primrec list_ops_abs :: "list_op list \<Rightarrow> nat list \<Rightarrow> nat list" where
  "list_ops_abs [] xs = xs"
| "list_ops_abs (op # ops) xs = list_ops_abs ops (list_op_abs op xs)"

primrec list_ops_ok :: "nat \<Rightarrow> list_op list \<Rightarrow> nat list \<Rightarrow> bool" where
  "list_ops_ok head [] xs \<longleftrightarrow> True"
| "list_ops_ok head (op # ops) xs \<longleftrightarrow> list_op_ok head op xs \<and> list_ops_ok head ops (list_op_abs op xs)"

lemma same_elsewhere_trans:
  "same_elsewhere A H H1 \<Longrightarrow> same_elsewhere B H1 H2 \<Longrightarrow> A \<subseteq> C \<Longrightarrow> B \<subseteq> C \<Longrightarrow> same_elsewhere C H H2"
  unfolding same_elsewhere_def by (metis subsetD)

lemma same_elsewhere_heap: "same_elsewhere A H H' \<Longrightarrow> q \<notin> A \<Longrightarrow> H' q = H q"
proof -
  assume "same_elsewhere A H H'" "q \<notin> A"
  then have "nx H' q = nx H q" "pv H' q = pv H q" by (auto simp: same_elsewhere_def)
  then show ?thesis by (cases "H' q"; cases "H q") (auto simp: nx_def pv_def)
qed

lemma list_op_ring:
  assumes ring: "ring H head xs" and dom: "nx H (list_op_el op) \<noteq> None" and ok: "list_op_ok head op xs"
  shows "\<exists>H'. list_op_run head op H = Some H' \<and> ring H' head (list_op_abs op xs) \<and>
    same_elsewhere (set (list_op_el op # head # xs)) H H'"
proof (cases op)
  case (Op_del el)
  then obtain ys zs where xs: "xs = ys @ el # zs" "el \<notin> set ys" using ok by (auto dest: split_list_first)
  then show ?thesis
    using list_del_ring [of H head ys el zs] ring Op_del by (auto simp: remove1_append insert_commute)
qed (use list_add_ring [OF ring] list_add_tail_ring [OF ring] dom ok in \<open>auto simp: insert_commute\<close>)

lemma set_list_op_abs: "set (list_op_abs op xs) \<subseteq> insert (list_op_el op) (set xs)"
  using set_remove1_subset by (cases op) fastforce+

lemma list_empty_ring: "ring H head xs \<Longrightarrow> list_empty H head = Some (xs = [])"
  by (cases xs) (auto simp: ring_def list_empty_def nx_def)

lemma list_ops_ring:
  "ring H head xs \<Longrightarrow> (\<And>op. op \<in> set ops \<Longrightarrow> nx H (list_op_el op) \<noteq> None) \<Longrightarrow> list_ops_ok head ops xs \<Longrightarrow>
    \<exists>H'. list_ops_run head ops H = Some H' \<and> ring H' head (list_ops_abs ops xs) \<and>
      same_elsewhere (set (head # xs) \<union> list_op_el ` set ops) H H'"
proof (induction ops arbitrary: H xs)
  case Nil
  then show ?case by (simp add: same_elsewhere_def)
next
  case (Cons op ops)
  obtain H1 where H1: "list_op_run head op H = Some H1" "ring H1 head (list_op_abs op xs)"
    "same_elsewhere (set (list_op_el op # head # xs)) H H1"
    using list_op_ring [OF Cons.prems(1), of op] Cons.prems(2,3) by auto
  have "nx H1 (list_op_el op') \<noteq> None" if "op' \<in> set ops" for op'
    using H1(3) Cons.prems(2) [of op'] that unfolding same_elsewhere_def by (metis list.set_intros(2))
  then obtain H2 where H2: "list_ops_run head ops H1 = Some H2" "ring H2 head (list_ops_abs ops (list_op_abs op xs))"
    "same_elsewhere (set (head # list_op_abs op xs) \<union> list_op_el ` set ops) H1 H2"
    using Cons.IH [OF H1(2)] Cons.prems(3) by auto
  have "same_elsewhere (set (head # xs) \<union> list_op_el ` set (op # ops)) H H2"
    by (rule same_elsewhere_trans [OF H1(3) H2(3)]) (use set_list_op_abs [of op xs] in auto)
  with H1(1) H2(1,2) show ?case by simp
qed

text \<open>
  C17. The ring of pointers refines lists: any legal sequence of \<open>list_add\<close>, \<open>list_add_tail\<close> and
  \<open>list_del\<close> on a ring that holds a list succeeds, the ring then holds the list that the
  operations on lists give, \<open>list_empty\<close> tells whether it is empty, and no structure other than
  the head, the old elements and the operands has changed.
\<close>

lemma list_ops_refine:
  assumes "ring H head xs" and "\<And>op. op \<in> set ops \<Longrightarrow> H (list_op_el op) \<noteq> None" and "list_ops_ok head ops xs"
  shows "\<exists>H'. list_ops_run head ops H = Some H' \<and> ring H' head (list_ops_abs ops xs) \<and>
    list_empty H' head = Some (list_ops_abs ops xs = []) \<and>
    (\<forall>q. q \<notin> set (head # xs) \<union> list_op_el ` set ops \<longrightarrow> H' q = H q)"
  using list_ops_ring [OF assms(1) _ assms(3)] assms(2) list_empty_ring same_elsewhere_heap
  by (fastforce simp: nx_def)

definition example_list_heap :: list_heap where
  "example_list_heap =
     [1 \<mapsto> \<lparr>lh_prev = 1, lh_next = 1\<rparr>, 2 \<mapsto> \<lparr>lh_prev = NULL, lh_next = NULL\<rparr>, 3 \<mapsto> \<lparr>lh_prev = NULL, lh_next = NULL\<rparr>]"

lemma list_ops_refine_witness:
  "\<exists>H'. list_ops_run 1 [Op_add 2, Op_add_tail 3, Op_del 2] example_list_heap = Some H' \<and>
    ring H' 1 (list_ops_abs [Op_add 2, Op_add_tail 3, Op_del 2] []) \<and>
    list_empty H' 1 = Some (list_ops_abs [Op_add 2, Op_add_tail 3, Op_del 2] [] = []) \<and>
    (\<forall>q. q \<notin> set [1] \<union> list_op_el ` set [Op_add 2, Op_add_tail 3, Op_del 2] \<longrightarrow> H' q = example_list_heap q)"
  by (rule list_ops_refine) (auto simp: ring_def nx_def pv_def example_list_heap_def)

subsection \<open>Deleting in a loop\<close>

definition delete_if :: "(nat \<Rightarrow> bool) \<Rightarrow> nat \<Rightarrow> list_heap \<times> nat list \<Rightarrow> (list_heap \<times> nat list) option" where
  "delete_if P el st =
     (if P el then do { H \<leftarrow> list_del (fst st) el; Some (H, snd st @ [el]) } else Some st)"

lemma ring_next: "ring H head (ys @ zs) \<Longrightarrow> \<exists>l. H (hd (zs @ [head])) = Some l"
  using chain_dom [of H head "ys @ zs" head "hd (zs @ [head])"] by (cases zs) (auto simp: ring_def nx_def)

lemma delete_loop:
  "ring H head (ys @ zs) \<Longrightarrow> nx H (hd (zs @ [head])) = Some el1 \<Longrightarrow>
    \<exists>H'. list_for_each_safe (delete_if P) head (hd (zs @ [head])) el1 (H, s) = Some (H', s @ filter P zs) \<and>
      ring H' head (ys @ filter (\<lambda>x. \<not> P x) zs)"
proof (induction zs arbitrary: H ys el1 s)
  case Nil
  then show ?case by (simp add: list_for_each_safe.simps)
next
  case (Cons z zs)
  have z: "z \<noteq> head" and el1: "el1 = hd (zs @ [head])"
    using Cons.prems by (auto simp: ring_def chain_append; cases zs; simp)+
  obtain H1 s1 ys1 where st: "delete_if P z (H, s) = Some (H1, s1)" "ring H1 head (ys1 @ zs)"
    "s1 @ filter P zs = s @ filter P (z # zs)" "ys1 @ filter (\<lambda>x. \<not> P x) zs = ys @ filter (\<lambda>x. \<not> P x) (z # zs)"
  proof (cases "P z")
    case True
    then show ?thesis using that [of _ "s @ [z]" ys] list_del_ring [OF Cons.prems(1)] by (auto simp: delete_if_def)
  next
    case False
    then show ?thesis using that [of H s "ys @ [z]"] Cons.prems(1) by (simp add: delete_if_def)
  qed
  obtain l where l: "H1 el1 = Some l" using ring_next [OF st(2)] el1 by blast
  then obtain H' where "list_for_each_safe (delete_if P) head el1 (lh_next l) (H1, s1) = Some (H', s1 @ filter P zs)"
    "ring H' head (ys1 @ filter (\<lambda>x. \<not> P x) zs)"
    using Cons.IH [OF st(2), of "lh_next l" s1] el1 by (auto simp: nx_def)
  with st l z show ?case
    by (simp add: list_for_each_safe.simps [of "delete_if P" head z])
qed

lemma for_each_safe_deletes:
  assumes "ring H head xs"
  shows "\<exists>H'. for_each_safe (delete_if P) head (H, []) = Some (H', filter P xs) \<and> ring H' head (filter (\<lambda>x. \<not> P x) xs)"
proof -
  obtain l l1 where "H head = Some l" "lh_next l = hd (xs @ [head])" "H (hd (xs @ [head])) = Some l1"
    using assms ring_next [of H head "[]" xs] by (cases xs) (auto simp: ring_def nx_def)
  then show ?thesis
    using delete_loop [of H head "[]" xs "lh_next l1" P "[]"] assms by (auto simp: for_each_safe_def nx_def)
qed

end
