(* ===== verification/Gc.thy ===== *)
theory Gc
  imports Prelude "HOL-Library.Multiset"
begin

section \<open>The cycle collector\<close>

text \<open>
  The reference counted objects of the engine (\<open>JSGCObjectHeader\<close>) and the passes of \<open>JS_RunGC\<close>
  that find the unreachable cycles: \<open>gc_decref\<close> subtracts the references between objects from the
  reference counts, \<open>gc_scan\<close> brings back what is still referenced from outside.  An object is an
  address; the heap maps it to its contents, which these passes do not change.  A mark function
  calls \<open>mark_func\<close> on the objects it finds; the model gives the list of these calls.
  The intrusive lists \<open>gc_obj_list\<close> and \<open>tmp_obj_list\<close> are lists of objects.
\<close>

subsection \<open>Objects\<close>

type_synonym obj = nat

text \<open>A value: a pointer to an object or to function byte code, another counted pointer (string,
  symbol, big integer, module), or no pointer.  Only the counts of objects and byte code are tracked; those of
  the others, which own no objects, and what happens when they drop to zero (for a module, \<open>abort\<close>) are not.\<close>

datatype js_value = Js_object obj | Js_bytecode obj | Js_counted | Js_immediate

text \<open>The union of a property, told apart by the flags of the shape.\<close>

datatype js_property =
  Prop_value js_value | Prop_getset "obj option" "obj option" | Prop_var_ref obj | Prop_init obj

record js_shape =
  sh_proto :: "obj option"
  sh_prop :: "(u32 \<times> u32) list"

text \<open>The union \<open>u\<close> of an object, told apart by its class.\<close>

datatype js_class_data =
  U_other | U_array "js_value list" | U_object_data js_value | U_cfunc "obj option"
| U_func "obj option" "obj option list option" "obj option"
| U_c_function_data "js_value list option" | U_bound_function js_value js_value "js_value list" | U_for_in js_value
| U_array_iterator "js_value option" | U_iterator_wrap "(js_value \<times> js_value) option"
| U_iterator_helper "(js_value \<times> js_value \<times> js_value \<times> js_value) option"
| U_regexp_string_iterator "(js_value \<times> js_value) option" | U_proxy "(js_value \<times> js_value) option"
| U_promise "((js_value \<times> js_value \<times> js_value) list \<times> (js_value \<times> js_value \<times> js_value) list \<times> js_value) option"
| U_promise_function "js_value option" | U_async_from_sync_iterator "(js_value \<times> js_value) option"
| U_callsite "(js_value \<times> js_value \<times> js_value) option"

record js_object =
  ob_shape :: obj
  ob_prop :: "js_property list"
  ob_class_id :: nat
  ob_u :: js_class_data

record js_bytecode =
  bf_cpool :: "js_value list"
  bf_realm :: "obj option"
  bf_ic :: "obj option list list option"
  bf_closure_var_count :: nat

record js_var_ref =
  vr_is_detached :: bool
  vr_pvalue :: js_value

text \<open>\<open>as_stack\<close> is the stack from \<open>arg_buf\<close> to \<open>cur_sp\<close>, if \<open>cur_sp\<close> is known.\<close>

record js_async =
  as_is_active :: bool
  as_cur_func :: js_value
  as_this_val :: js_value
  as_stack :: "js_value list option"
  as_resolving_funcs :: "js_value \<times> js_value"

text \<open>An export entry: whether it is local, with its variable reference.\<close>

record js_module =
  m_export_entries :: "(bool \<times> obj option) list"
  m_module_ns :: js_value
  m_func_obj :: js_value
  m_eval_exception :: js_value
  m_meta_obj :: js_value
  m_promise :: js_value
  m_resolving_funcs :: "js_value \<times> js_value"

record js_context =
  loaded_modules :: "js_module list"
  global_obj :: js_value
  global_var_obj :: js_value
  throw_type_error :: js_value
  eval_obj :: js_value
  array_proto_values :: js_value
  native_error_proto :: "js_value list"
  error_ctor :: js_value
  error_prepare_stack :: js_value
  class_proto :: "js_value list"
  iterator_ctor :: js_value
  async_iterator_proto :: js_value
  promise_ctor :: js_value
  array_ctor :: js_value
  regexp_ctor :: js_value
  function_ctor :: js_value
  function_proto :: js_value
  array_shape :: "obj option"

datatype gc_object =
  JS_OBJECT js_object | FUNCTION_BYTECODE js_bytecode | SHAPE js_shape | VAR_REF js_var_ref
| ASYNC_FUNCTION js_async | JS_CONTEXT js_context

type_synonym gc_heap = "obj \<Rightarrow> gc_object option"

subsection \<open>What a mark function visits\<close>

definition JS_MarkValue :: "js_value \<Rightarrow> obj list" where
  "JS_MarkValue val = (case val of Js_object p \<Rightarrow> [p] | Js_bytecode p \<Rightarrow> [p] | _ \<Rightarrow> [])"

definition mark_values :: "js_value list \<Rightarrow> obj list" where
  "mark_values vs = concat (map JS_MarkValue vs)"

definition mark_pointer :: "obj option \<Rightarrow> obj list" where
  "mark_pointer r = (case r of None \<Rightarrow> [] | Some p \<Rightarrow> [p])"

abbreviation (input) "JS_PROP_TMASK \<equiv> 0x30 :: u32"
abbreviation (input) "JS_PROP_GETSET \<equiv> 0x10 :: u32"
abbreviation (input) "JS_PROP_VARREF \<equiv> 0x20 :: u32"
abbreviation (input) "JS_ATOM_NULL \<equiv> 0 :: u32"

definition var_ref_detached :: "gc_heap \<Rightarrow> obj \<Rightarrow> bool option" where
  "var_ref_detached H p = (case H p of Some (VAR_REF r) \<Rightarrow> Some (vr_is_detached r) | _ \<Rightarrow> None)"

text \<open>The three types of two bits other than a plain value; a union read at the wrong type is \<open>None\<close>.\<close>

definition mark_property :: "gc_heap \<Rightarrow> u32 \<Rightarrow> u32 \<Rightarrow> js_property \<Rightarrow> obj list option" where
  "mark_property H flags atom pr =
     (if atom = JS_ATOM_NULL then Some []
      else if flags AND JS_PROP_TMASK \<noteq> 0 then
        if flags AND JS_PROP_TMASK = JS_PROP_GETSET then
          (case pr of Prop_getset getter setter \<Rightarrow> Some (mark_pointer getter @ mark_pointer setter) | _ \<Rightarrow> None)
        else if flags AND JS_PROP_TMASK = JS_PROP_VARREF then
          (case pr of
             Prop_var_ref r \<Rightarrow> do { d \<leftarrow> var_ref_detached H r; Some (if d then [r] else []) }
           | _ \<Rightarrow> None)
        else (case pr of Prop_init realm \<Rightarrow> Some [realm] | _ \<Rightarrow> None)
      else (case pr of Prop_value v \<Rightarrow> Some (JS_MarkValue v) | _ \<Rightarrow> None))"

fun mark_properties :: "gc_heap \<Rightarrow> (u32 \<times> u32) list \<Rightarrow> js_property list \<Rightarrow> obj list option" where
  "mark_properties H [] prs = Some []"
| "mark_properties H ((flags, atom) # sps) [] = None"
| "mark_properties H ((flags, atom) # sps) (pr # prs) = do {
     xs \<leftarrow> mark_property H flags atom pr;
     ys \<leftarrow> mark_properties H sps prs;
     Some (xs @ ys) }"

text \<open>The mark functions of the classes with a part of the union of their own.\<close>

type_synonym gc_mark = "gc_heap \<Rightarrow> js_object \<Rightarrow> obj list option"

definition js_array_mark :: gc_mark where
  "js_array_mark H p = (case ob_u p of U_array vs \<Rightarrow> Some (mark_values vs) | _ \<Rightarrow> None)"

definition js_object_data_mark :: gc_mark where
  "js_object_data_mark H p = (case ob_u p of U_object_data v \<Rightarrow> Some (JS_MarkValue v) | _ \<Rightarrow> None)"

definition js_c_function_mark :: gc_mark where
  "js_c_function_mark H p = (case ob_u p of U_cfunc realm \<Rightarrow> Some (mark_pointer realm) | _ \<Rightarrow> None)"

definition js_c_function_data_mark :: gc_mark where
  "js_c_function_data_mark H p =
     (case ob_u p of
        U_c_function_data None \<Rightarrow> Some []
      | U_c_function_data (Some vs) \<Rightarrow> Some (mark_values vs)
      | _ \<Rightarrow> None)"

primrec mark_var_refs :: "gc_heap \<Rightarrow> obj option list \<Rightarrow> nat \<Rightarrow> obj list option" where
  "mark_var_refs H rs 0 = Some []"
| "mark_var_refs H rs (Suc i) = do {
     xs \<leftarrow> mark_var_refs H rs i;
     r \<leftarrow> mem_get rs i;
     case r of
       None \<Rightarrow> Some xs
     | Some p \<Rightarrow> do { d \<leftarrow> var_ref_detached H p; Some (if d then xs @ [p] else xs) } }"

definition js_bytecode_function_mark :: gc_mark where
  "js_bytecode_function_mark H p =
     (case ob_u p of
        U_func b var_refs home_object \<Rightarrow>
          (case b of
             None \<Rightarrow> Some (mark_pointer home_object)
           | Some bp \<Rightarrow>
               (case H bp of
                  Some (FUNCTION_BYTECODE bc) \<Rightarrow> do {
                    xs \<leftarrow> (case var_refs of
                            None \<Rightarrow> Some []
                          | Some rs \<Rightarrow> mark_var_refs H rs (bf_closure_var_count bc));
                    Some (mark_pointer home_object @ xs @ [bp]) }
                | _ \<Rightarrow> None))
      | _ \<Rightarrow> None)"

definition js_bound_function_mark :: gc_mark where
  "js_bound_function_mark H p =
     (case ob_u p of
        U_bound_function func_obj this_val argv \<Rightarrow> Some (mark_values (func_obj # this_val # argv))
      | _ \<Rightarrow> None)"

definition js_for_in_iterator_mark :: gc_mark where
  "js_for_in_iterator_mark H p = (case ob_u p of U_for_in v \<Rightarrow> Some (JS_MarkValue v) | _ \<Rightarrow> None)"

definition js_mark_module_def :: "js_module \<Rightarrow> obj list" where
  "js_mark_module_def m =
     concat (map (\<lambda>(local, r). if local then mark_pointer r else []) (m_export_entries m)) @
     mark_values [m_module_ns m, m_func_obj m, m_eval_exception m, m_meta_obj m, m_promise m,
       fst (m_resolving_funcs m), snd (m_resolving_funcs m)]"

definition JS_MarkContext :: "js_context \<Rightarrow> obj list" where
  "JS_MarkContext ctx =
     concat (map js_mark_module_def (loaded_modules ctx)) @
     mark_values ([global_obj ctx, global_var_obj ctx, throw_type_error ctx, eval_obj ctx, array_proto_values ctx] @
       native_error_proto ctx @ [error_ctor ctx, error_prepare_stack ctx] @ class_proto ctx @
       [iterator_ctor ctx, async_iterator_proto ctx, promise_ctor ctx, array_ctor ctx, regexp_ctor ctx,
        function_ctor ctx, function_proto ctx]) @
     mark_pointer (array_shape ctx)"

definition async_func_mark :: "js_async \<Rightarrow> obj list" where
  "async_func_mark s =
     mark_values [as_cur_func s, as_this_val s] @
     (case as_stack s of None \<Rightarrow> [] | Some vs \<Rightarrow> mark_values vs)"

text \<open>\<open>JS_CLASS_OBJECT\<close> is 1; \<open>classes\<close> is the table of the classes, with the mark functions of the
  classes not given above and of the classes the host registers.\<close>

definition mark_children :: "(nat \<Rightarrow> gc_mark option) \<Rightarrow> gc_heap \<Rightarrow> obj \<Rightarrow> obj list option" where
  "mark_children classes H gp =
     (case H gp of
        None \<Rightarrow> None
      | Some (JS_OBJECT p) \<Rightarrow>
          (case H (ob_shape p) of
             Some (SHAPE sh) \<Rightarrow> do {
               xs \<leftarrow> mark_properties H (sh_prop sh) (ob_prop p);
               ys \<leftarrow> (if ob_class_id p = 1 then Some []
                      else case classes (ob_class_id p) of None \<Rightarrow> Some [] | Some gc_mark \<Rightarrow> gc_mark H p);
               Some (ob_shape p # xs @ ys) }
           | _ \<Rightarrow> None)
      | Some (FUNCTION_BYTECODE b) \<Rightarrow>
          Some (mark_values (bf_cpool b) @ mark_pointer (bf_realm b) @
                (case bf_ic b of None \<Rightarrow> [] | Some ic \<Rightarrow> concat (map (\<lambda>shapes. concat (map mark_pointer shapes)) ic)))
      | Some (VAR_REF r) \<Rightarrow> if vr_is_detached r then Some (JS_MarkValue (vr_pvalue r)) else None
      | Some (ASYNC_FUNCTION s) \<Rightarrow>
          Some ((if as_is_active s then async_func_mark s else []) @
                mark_values [fst (as_resolving_funcs s), snd (as_resolving_funcs s)])
      | Some (SHAPE sh) \<Rightarrow> Some (mark_pointer (sh_proto sh))
      | Some (JS_CONTEXT ctx) \<Rightarrow> Some (JS_MarkContext ctx))"

subsection \<open>The passes\<close>

record gc_runtime =
  ref_count :: "obj \<Rightarrow> int"
  gc_marked :: "obj \<Rightarrow> nat"
  gc_obj_list :: "obj list"
  tmp_obj_list :: "obj list"

primrec mark_each :: "(gc_runtime \<Rightarrow> obj \<Rightarrow> gc_runtime option) \<Rightarrow> obj list \<Rightarrow> gc_runtime \<Rightarrow> gc_runtime option" where
  "mark_each f [] rt = Some rt"
| "mark_each f (p # ps) rt = do { rt \<leftarrow> f rt p; mark_each f ps rt }"

text \<open>\<open>list_del\<close> takes the object out of the list it is in.\<close>

definition gc_move_tmp :: "gc_runtime \<Rightarrow> obj \<Rightarrow> gc_runtime" where
  "gc_move_tmp rt p =
     rt\<lparr>gc_obj_list := remove1 p (gc_obj_list rt), tmp_obj_list := remove1 p (tmp_obj_list rt) @ [p]\<rparr>"

definition gc_move_back :: "gc_runtime \<Rightarrow> obj \<Rightarrow> gc_runtime" where
  "gc_move_back rt p =
     rt\<lparr>gc_obj_list := remove1 p (gc_obj_list rt) @ [p], tmp_obj_list := remove1 p (tmp_obj_list rt)\<rparr>"

definition gc_decref_child :: "gc_runtime \<Rightarrow> obj \<Rightarrow> gc_runtime option" where
  "gc_decref_child rt p =
     (if ref_count rt p > 0 then
        let rt = rt\<lparr>ref_count := (ref_count rt)(p := ref_count rt p - 1)\<rparr>
        in Some (if ref_count rt p = 0 \<and> gc_marked rt p = 1 then gc_move_tmp rt p else rt)
      else None)"

text \<open>The element after \<open>x\<close>: \<open>Some None\<close> is the list head, \<open>None\<close> that \<open>x\<close> is not in the list.\<close>

fun list_next :: "obj list \<Rightarrow> obj \<Rightarrow> obj option option" where
  "list_next [] x = None"
| "list_next (y # ys) x =
     (if y = x then Some (case ys of [] \<Rightarrow> None | z # zs \<Rightarrow> Some z) else list_next ys x)"

definition list_first :: "obj list \<Rightarrow> obj option" where
  "list_first xs = (case xs of [] \<Rightarrow> None | x # _ \<Rightarrow> Some x)"

partial_function (option) gc_decref_loop ::
    "(obj \<Rightarrow> obj list option) \<Rightarrow> gc_runtime \<Rightarrow> obj option \<Rightarrow> obj option \<Rightarrow> gc_runtime option" where
  "gc_decref_loop children rt el el1 =
     (case el of
        None \<Rightarrow> Some rt
      | Some p \<Rightarrow>
          if gc_marked rt p \<noteq> 0 then None
          else do {
            ch \<leftarrow> children p;
            rt \<leftarrow> mark_each gc_decref_child ch rt;
            let rt = rt\<lparr>gc_marked := (gc_marked rt)(p := 1)\<rparr>;
            let rt = (if ref_count rt p = 0 then gc_move_tmp rt p else rt);
            case el1 of
              None \<Rightarrow> Some rt
            | Some q \<Rightarrow> do {
                el2 \<leftarrow> list_next (gc_obj_list rt) q;
                gc_decref_loop children rt el1 el2 } })"

definition gc_decref :: "(nat \<Rightarrow> gc_mark option) \<Rightarrow> gc_heap \<Rightarrow> gc_runtime \<Rightarrow> gc_runtime option" where
  "gc_decref classes H rt =
     (let rt = rt\<lparr>tmp_obj_list := []\<rparr> in
      case gc_obj_list rt of
        [] \<Rightarrow> Some rt
      | p # ps \<Rightarrow> gc_decref_loop (mark_children classes H) rt (Some p) (list_first ps))"

text \<open>An increment past the largest \<open>int\<close> is \<open>None\<close>.\<close>

definition gc_incref :: "gc_runtime \<Rightarrow> obj \<Rightarrow> gc_runtime option" where
  "gc_incref rt p =
     (if ref_count rt p < 2 ^ 31 - 1 then Some (rt\<lparr>ref_count := (ref_count rt)(p := ref_count rt p + 1)\<rparr>) else None)"

definition gc_scan_incref_child :: "gc_runtime \<Rightarrow> obj \<Rightarrow> gc_runtime option" where
  "gc_scan_incref_child rt p = do {
     rt \<leftarrow> gc_incref rt p;
     Some (if ref_count rt p = 1
           then (gc_move_back rt p)\<lparr>gc_marked := (gc_marked rt)(p := 0)\<rparr>
           else rt) }"

definition gc_scan_incref_child2 :: "gc_runtime \<Rightarrow> obj \<Rightarrow> gc_runtime option" where
  "gc_scan_incref_child2 rt p = gc_incref rt p"

partial_function (option) gc_scan_loop ::
    "(obj \<Rightarrow> obj list option) \<Rightarrow> gc_runtime \<Rightarrow> obj option \<Rightarrow> gc_runtime option" where
  "gc_scan_loop children rt el =
     (case el of
        None \<Rightarrow> Some rt
      | Some p \<Rightarrow>
          if ref_count rt p > 0 then do {
            let rt = rt\<lparr>gc_marked := (gc_marked rt)(p := 0)\<rparr>;
            ch \<leftarrow> children p;
            rt \<leftarrow> mark_each gc_scan_incref_child ch rt;
            el \<leftarrow> list_next (gc_obj_list rt) p;
            gc_scan_loop children rt el }
          else None)"

primrec gc_restore_loop :: "(obj \<Rightarrow> obj list option) \<Rightarrow> obj list \<Rightarrow> gc_runtime \<Rightarrow> gc_runtime option" where
  "gc_restore_loop children [] rt = Some rt"
| "gc_restore_loop children (p # ps) rt = do {
     ch \<leftarrow> children p;
     rt \<leftarrow> mark_each gc_scan_incref_child2 ch rt;
     gc_restore_loop children ps rt }"

definition gc_scan :: "(nat \<Rightarrow> gc_mark option) \<Rightarrow> gc_heap \<Rightarrow> gc_runtime \<Rightarrow> gc_runtime option" where
  "gc_scan classes H rt = do {
     rt \<leftarrow> gc_scan_loop (mark_children classes H) rt (list_first (gc_obj_list rt));
     gc_restore_loop (mark_children classes H) (tmp_obj_list rt) rt }"

subsection \<open>Counting references\<close>

text \<open>The references to \<open>p\<close> from the objects of a list.\<close>

definition kids :: "(obj \<Rightarrow> obj list option) \<Rightarrow> obj \<Rightarrow> obj list" where
  "kids children q = (case children q of None \<Rightarrow> [] | Some ch \<Rightarrow> ch)"

definition refs :: "(obj \<Rightarrow> obj list option) \<Rightarrow> obj list \<Rightarrow> obj \<Rightarrow> int" where
  "refs children qs p = int (sum_list (map (\<lambda>q. count_list (kids children q) p) qs))"

lemma refs_simps [simp]:
  "refs children [] p = 0"
  "refs children (q # qs) p = int (count_list (kids children q) p) + refs children qs p"
  "refs children (qs @ qs') p = refs children qs p + refs children qs' p"
  by (simp_all add: refs_def)

lemma refs_nonneg [simp]: "0 \<le> refs children qs p"
  by (simp add: refs_def)

lemma refs_permuted:
  assumes "distinct xs" "distinct ys" "set xs = set ys"
  shows "refs children xs p = refs children ys p"
proof -
  have "mset xs = mset ys" using assms set_eq_iff_mset_eq_distinct [of xs ys] by blast
  then have "mset (map (\<lambda>q. count_list (kids children q) p) xs) = mset (map (\<lambda>q. count_list (kids children q) p) ys)"
    by simp
  then show ?thesis unfolding refs_def by (metis sum_mset_sum_list)
qed

lemma refs_le_append: "refs children qs p \<le> refs children (qs @ qs') p"
  by simp

definition closed :: "(obj \<Rightarrow> obj list option) \<Rightarrow> obj set \<Rightarrow> bool" where
  "closed children A \<longleftrightarrow> (\<forall>p \<in> A. \<exists>ch. children p = Some ch \<and> set ch \<subseteq> A)"

lemma closedD: "closed children A \<Longrightarrow> p \<in> A \<Longrightarrow> children p = Some (kids children p) \<and> set (kids children p) \<subseteq> A"
  by (fastforce simp: closed_def kids_def)

lemma list_next_append: "x \<notin> set xs \<Longrightarrow> list_next (xs @ x # ys) x = Some (list_first ys)"
  by (induction xs) (auto simp: list_first_def split: list.splits)

subsection \<open>Subtracting the internal references\<close>

text \<open>Between two steps of \<open>gc_decref\<close>: \<open>P\<close> has been visited, \<open>Q\<close> has not.\<close>

definition decref_inv :: "obj list \<Rightarrow> obj list \<Rightarrow> gc_runtime \<Rightarrow> bool" where
  "decref_inv P Q rt \<longleftrightarrow>
     (\<exists>A. gc_obj_list rt = A @ Q \<and> set A = {p \<in> set P. 0 < ref_count rt p} \<and> distinct (A @ Q)) \<and>
     set (tmp_obj_list rt) = {p \<in> set P. ref_count rt p \<le> 0} \<and> distinct (tmp_obj_list rt) \<and>
     (\<forall>p \<in> set P. gc_marked rt p = 1) \<and> (\<forall>p \<in> set Q. gc_marked rt p = 0) \<and> set P \<inter> set Q = {}"

lemma gc_move_simps [simp]:
  "ref_count (gc_move_tmp rt p) = ref_count rt" "gc_marked (gc_move_tmp rt p) = gc_marked rt"
  "ref_count (gc_move_back rt p) = ref_count rt" "gc_marked (gc_move_back rt p) = gc_marked rt"
  by (simp_all add: gc_move_tmp_def gc_move_back_def)

lemma gc_decref_child_inv:
  assumes inv: "decref_inv P Q rt" and c: "c \<in> set (P @ Q)" "0 < ref_count rt c"
  shows "\<exists>rt'. gc_decref_child rt c = Some rt' \<and> decref_inv P Q rt' \<and>
    (\<forall>p. ref_count rt' p = ref_count rt p - (if p = c then 1 else 0))"
proof -
  obtain A where A: "gc_obj_list rt = A @ Q" "set A = {p \<in> set P. 0 < ref_count rt p}" "distinct (A @ Q)"
    using inv by (auto simp: decref_inv_def)
  have t: "set (tmp_obj_list rt) = {p \<in> set P. ref_count rt p \<le> 0}" "distinct (tmp_obj_list rt)"
    and m: "\<forall>p \<in> set P. gc_marked rt p = 1" "\<forall>p \<in> set Q. gc_marked rt p = 0" and d: "set P \<inter> set Q = {}"
    using inv by (simp_all add: decref_inv_def)
  let ?rt = "rt\<lparr>ref_count := (ref_count rt)(c := ref_count rt c - 1)\<rparr>"
  show ?thesis
  proof (cases "ref_count rt c = 1 \<and> c \<in> set P")
    case True
    then have cA: "c \<in> set A" "c \<notin> set Q" "c \<notin> set (tmp_obj_list rt)" using A(2) d t(1) by auto
    have run: "gc_decref_child rt c = Some (gc_move_tmp ?rt c)"
      using True m(1) by (simp add: gc_decref_child_def)
    have "decref_inv P Q (gc_move_tmp ?rt c)"
      unfolding decref_inv_def
    proof (intro conjI exI [of _ "remove1 c A"])
      show "gc_obj_list (gc_move_tmp ?rt c) = remove1 c A @ Q"
        using A(1) cA by (simp add: gc_move_tmp_def remove1_append)
      show "set (remove1 c A) = {p \<in> set P. 0 < ref_count (gc_move_tmp ?rt c) p}"
        using A(2,3) True by (auto simp: gc_move_tmp_def)
      show "set (tmp_obj_list (gc_move_tmp ?rt c)) = {p \<in> set P. ref_count (gc_move_tmp ?rt c) p \<le> 0}"
        using t True cA(3) by (auto simp: gc_move_tmp_def remove1_idem)
    qed (use A(3) t(2) m d cA in \<open>auto simp: gc_move_tmp_def remove1_idem distinct_remove1 dest: notin_set_remove1\<close>)
    with run True show ?thesis by (auto simp: gc_move_tmp_def)
  next
    case False
    have run: "gc_decref_child rt c = Some ?rt"
      using c False m by (auto simp: gc_decref_child_def)
    have pos: "0 < ref_count ?rt p \<longleftrightarrow> 0 < ref_count rt p" if "p \<in> set P" for p
      using that False c(2) by auto
    then have npos: "ref_count ?rt p \<le> 0 \<longleftrightarrow> ref_count rt p \<le> 0" if "p \<in> set P" for p
      using that by (meson not_less)
    have "decref_inv P Q ?rt"
      unfolding decref_inv_def
    proof (intro conjI exI [of _ A])
      show "set A = {p \<in> set P. 0 < ref_count ?rt p}" using A(2) pos by blast
      have "tmp_obj_list ?rt = tmp_obj_list rt" by simp
      then show "set (tmp_obj_list ?rt) = {p \<in> set P. ref_count ?rt p \<le> 0}" unfolding \<open>tmp_obj_list ?rt = _\<close> t(1) by (intro Collect_cong conj_cong refl npos [symmetric])
    qed (use A(1,3) t(2) m d in simp_all)
    with run show ?thesis by (intro exI [of _ ?rt]) simp
  qed
qed

lemma mark_each_decref:
  "decref_inv P Q rt \<Longrightarrow> set ch \<subseteq> set (P @ Q) \<Longrightarrow> (\<And>p. p \<in> set ch \<Longrightarrow> int (count_list ch p) \<le> ref_count rt p) \<Longrightarrow>
    \<exists>rt'. mark_each gc_decref_child ch rt = Some rt' \<and> decref_inv P Q rt' \<and>
      (\<forall>p. ref_count rt' p = ref_count rt p - int (count_list ch p))"
proof (induction ch arbitrary: rt)
  case (Cons c ch)
  have "0 < ref_count rt c" using Cons.prems(3) [of c] by simp
  then obtain rt1 where rt1: "gc_decref_child rt c = Some rt1" "decref_inv P Q rt1"
    "\<forall>p. ref_count rt1 p = ref_count rt p - (if p = c then 1 else 0)"
    using gc_decref_child_inv [OF Cons.prems(1), of c] Cons.prems(2) by auto
  have "int (count_list ch p) \<le> ref_count rt1 p" if "p \<in> set ch" for p
    using Cons.prems(3) [of p] that rt1(3) by (auto split: if_splits)
  then obtain rt2 where "mark_each gc_decref_child ch rt1 = Some rt2" "decref_inv P Q rt2"
    "\<forall>p. ref_count rt2 p = ref_count rt1 p - int (count_list ch p)"
    using Cons.IH [OF rt1(2)] Cons.prems(2) by auto
  with rt1 show ?case by auto
qed simp

lemma gc_decref_loop_inv:
  "decref_inv P Q rt \<Longrightarrow> closed children (set (P @ Q)) \<Longrightarrow> (\<And>p. p \<in> set (P @ Q) \<Longrightarrow> refs children Q p \<le> ref_count rt p) \<Longrightarrow>
    \<exists>rt'. gc_decref_loop children rt (list_first Q) (list_first (tl Q)) = Some rt' \<and> decref_inv (P @ Q) [] rt' \<and>
      (\<forall>p. ref_count rt' p = ref_count rt p - refs children Q p)"
proof (induction Q arbitrary: P rt)
  case Nil
  then show ?case by (simp add: gc_decref_loop.simps list_first_def)
next
  case (Cons q Q)
  have ch: "children q = Some (kids children q)" "set (kids children q) \<subseteq> set (P @ q # Q)"
    using closedD [OF Cons.prems(2), of q] by simp_all
  have "int (count_list (kids children q) p) \<le> ref_count rt p" if "p \<in> set (kids children q)" for p
  proof -
    have "p \<in> set (P @ q # Q)" using ch(2) that by blast
    from Cons.prems(3) [OF this] refs_nonneg [of children Q p] show ?thesis by (simp only: refs_simps)
  qed
  then obtain rt1 where rt1: "mark_each gc_decref_child (kids children q) rt = Some rt1" "decref_inv P (q # Q) rt1"
    "\<forall>p. ref_count rt1 p = ref_count rt p - int (count_list (kids children q) p)"
    using mark_each_decref [OF Cons.prems(1) ch(2)] by blast
  have unmarked: "gc_marked rt q = 0" using Cons.prems(1) by (simp add: decref_inv_def)
  let ?rt2 = "rt1\<lparr>gc_marked := (gc_marked rt1)(q := 1)\<rparr>"
  let ?rt3 = "if ref_count ?rt2 q = 0 then gc_move_tmp ?rt2 q else ?rt2"
  obtain A where A: "gc_obj_list rt1 = A @ q # Q" "set A = {p \<in> set P. 0 < ref_count rt1 p}" "distinct (A @ q # Q)"
    using rt1(2) by (auto simp: decref_inv_def)
  have t: "set (tmp_obj_list rt1) = {p \<in> set P. ref_count rt1 p \<le> 0}" "distinct (tmp_obj_list rt1)"
    and m: "\<forall>p \<in> set P. gc_marked rt1 p = 1" "\<forall>p \<in> set (q # Q). gc_marked rt1 p = 0" and d: "set P \<inter> set (q # Q) = {}"
    using rt1(2) by (simp_all add: decref_inv_def)
  have qA: "q \<notin> set A" "q \<notin> set (tmp_obj_list rt1)" using A(2) t(1) d by auto
  have q0: "0 \<le> ref_count rt1 q" using Cons.prems(3) [of q] rt1(3) refs_nonneg [of children Q q] by (auto; linarith)
  have lists: "gc_obj_list ?rt3 = (if ref_count rt1 q = 0 then A @ Q else (A @ [q]) @ Q)"
    "tmp_obj_list ?rt3 = (if ref_count rt1 q = 0 then tmp_obj_list rt1 @ [q] else tmp_obj_list rt1)"
    using A(1) qA by (simp_all add: gc_move_tmp_def remove1_append remove1_idem)
  have rc3: "ref_count ?rt3 = ref_count rt1" "gc_marked ?rt3 = (gc_marked rt1)(q := 1)" by (simp_all add: gc_move_tmp_def)
  have inv3: "decref_inv (P @ [q]) Q ?rt3"
  proof (cases "ref_count rt1 q = 0")
    case True
    then show ?thesis
      unfolding decref_inv_def lists rc3
      using A(2,3) t m d qA by (auto intro!: exI [of _ A])
  next
    case False
    with q0 have "0 < ref_count rt1 q" by simp
    with False show ?thesis
      unfolding decref_inv_def lists rc3
      using A(2,3) t m d qA by (auto intro!: exI [of _ "A @ [q]"])
  qed
  have "refs children Q p \<le> ref_count ?rt3 p" if "p \<in> set ((P @ [q]) @ Q)" for p
    using Cons.prems(3) [of p] that rt1(3) by (auto simp: rc3)
  then obtain rt' where rt': "gc_decref_loop children ?rt3 (list_first Q) (list_first (tl Q)) = Some rt'"
    "decref_inv ((P @ [q]) @ Q) [] rt'" "\<forall>p. ref_count rt' p = ref_count ?rt3 p - refs children Q p"
    using Cons.IH [OF inv3] Cons.prems(2) by auto
  have "gc_decref_loop children rt (list_first (q # Q)) (list_first (tl (q # Q))) = Some rt'"
  proof (cases Q)
    case Nil
    with rt'(1) have "?rt3 = rt'" by (simp add: gc_decref_loop.simps list_first_def)
    have "gc_decref_loop children rt (list_first (q # Q)) (list_first (tl (q # Q))) = Some ?rt3"
      using unmarked ch(1) rt1(1) Nil by (simp add: gc_decref_loop.simps [of children rt] list_first_def Let_def)
    with \<open>?rt3 = rt'\<close> show ?thesis by simp
  next
    case (Cons r Q')
    have "r \<notin> set A \<and> r \<noteq> q" using A(3) Cons by auto
    then have "list_next (gc_obj_list ?rt3) r = Some (list_first Q')"
      using lists(1) Cons list_next_append [of r A Q'] list_next_append [of r "A @ [q]" Q'] by auto
    then have "gc_decref_loop children rt (list_first (q # Q)) (list_first (tl (q # Q))) =
      gc_decref_loop children ?rt3 (list_first Q) (list_first (tl Q))"
      using unmarked ch(1) rt1(1) Cons
      by (simp only: gc_decref_loop.simps [of children rt] list_first_def Let_def option.case list.case list.sel
          bind.bind_lunit not_not if_False simp_thms)
    with rt'(1) show ?thesis by simp
  qed
  moreover have "ref_count rt' p = ref_count rt p - refs children (q # Q) p" for p
    using rt'(3) rt1(3) by (simp add: rc3)
  ultimately show ?case using rt'(2) by auto
qed

subsection \<open>Bringing back what is referenced\<close>

definition scan_inv :: "obj list \<Rightarrow> obj list \<Rightarrow> obj list \<Rightarrow> gc_runtime \<Rightarrow> bool" where
  "scan_inv L P Q rt \<longleftrightarrow>
     gc_obj_list rt = P @ Q \<and> distinct (P @ Q @ tmp_obj_list rt) \<and> set (P @ Q @ tmp_obj_list rt) = set L \<and>
     (\<forall>p \<in> set (P @ Q). 0 < ref_count rt p) \<and> (\<forall>p \<in> set (tmp_obj_list rt). ref_count rt p = 0) \<and>
     (\<forall>p \<in> set P. gc_marked rt p = 0) \<and> (\<forall>p \<in> set (tmp_obj_list rt). gc_marked rt p = 1)"

lemma gc_scan_child_inv:
  assumes inv: "scan_inv L P Q rt" and c: "c \<in> set L" "ref_count rt c < 2 ^ 31 - 1"
  shows "\<exists>rt' N. gc_scan_incref_child rt c = Some rt' \<and> scan_inv L P (Q @ N) rt' \<and> set N \<subseteq> {c} \<and>
    (\<forall>p. ref_count rt' p = ref_count rt p + (if p = c then 1 else 0)) \<and> c \<in> set (P @ Q @ N)"
proof -
  have l: "gc_obj_list rt = P @ Q" "distinct (P @ Q @ tmp_obj_list rt)" "set (P @ Q @ tmp_obj_list rt) = set L"
    and r: "\<forall>p \<in> set (P @ Q). 0 < ref_count rt p" "\<forall>p \<in> set (tmp_obj_list rt). ref_count rt p = 0"
    and m: "\<forall>p \<in> set P. gc_marked rt p = 0" "\<forall>p \<in> set (tmp_obj_list rt). gc_marked rt p = 1"
    using inv by (simp_all add: scan_inv_def)
  let ?rt = "rt\<lparr>ref_count := (ref_count rt)(c := ref_count rt c + 1)\<rparr>"
  show ?thesis
  proof (cases "c \<in> set (P @ Q)")
    case True
    then have "0 < ref_count rt c" using r(1) by blast
    then have run: "gc_scan_incref_child rt c = Some ?rt"
      using c(2) by (simp add: gc_scan_incref_child_def gc_incref_def)
    have "c \<notin> set (tmp_obj_list rt)" using True l(2) by auto
    with True have "scan_inv L P (Q @ []) ?rt"
      unfolding scan_inv_def using l r m \<open>0 < ref_count rt c\<close> by (auto intro: less_imp_le)
    with run True show ?thesis by (intro exI [of _ ?rt] exI [of _ "[]"]) simp
  next
    case False
    then have t: "c \<in> set (tmp_obj_list rt)" using c(1) l(3) by auto
    then have "ref_count rt c = 0" using r(2) by blast
    then have run: "gc_scan_incref_child rt c = Some ((gc_move_back ?rt c)\<lparr>gc_marked := (gc_marked rt)(c := 0)\<rparr>)"
      by (simp add: gc_scan_incref_child_def gc_incref_def)
    have lists: "gc_obj_list (gc_move_back ?rt c) = P @ Q @ [c]" "tmp_obj_list (gc_move_back ?rt c) = remove1 c (tmp_obj_list rt)"
      using l(1) False by (simp_all add: gc_move_back_def remove1_idem)
    have "distinct (tmp_obj_list rt)" using l(2) by simp
    then have s: "set (remove1 c (tmp_obj_list rt)) = set (tmp_obj_list rt) - {c}" by simp
    have "scan_inv L P (Q @ [c]) ((gc_move_back ?rt c)\<lparr>gc_marked := (gc_marked rt)(c := 0)\<rparr>)"
      unfolding scan_inv_def using lists l(2,3) r m False t s by (auto simp: distinct_remove1)
    with run \<open>ref_count rt c = 0\<close> show ?thesis by (intro exI [of _ "(gc_move_back ?rt c)\<lparr>gc_marked := (gc_marked rt)(c := 0)\<rparr>"] exI [of _ "[c]"]) simp
  qed
qed

lemma mark_each_scan:
  "scan_inv L P Q rt \<Longrightarrow> set ch \<subseteq> set L \<Longrightarrow> (\<And>p. p \<in> set ch \<Longrightarrow> ref_count rt p + int (count_list ch p) \<le> 2 ^ 31 - 1) \<Longrightarrow>
    \<exists>rt' N. mark_each gc_scan_incref_child ch rt = Some rt' \<and> scan_inv L P (Q @ N) rt' \<and> set N \<subseteq> set ch \<and>
      (\<forall>p. ref_count rt' p = ref_count rt p + int (count_list ch p)) \<and> set ch \<subseteq> set (P @ Q @ N)"
proof (induction ch arbitrary: rt Q)
  case Nil
  then show ?case by (auto intro!: exI [of _ "[]"])
next
  case (Cons c ch)
  have "ref_count rt c < 2 ^ 31 - 1" using Cons.prems(3) [of c] by simp
  then obtain rt1 N1 where rt1: "gc_scan_incref_child rt c = Some rt1" "scan_inv L P (Q @ N1) rt1" "set N1 \<subseteq> {c}"
    "\<forall>p. ref_count rt1 p = ref_count rt p + (if p = c then 1 else 0)" "c \<in> set (P @ Q @ N1)"
    using gc_scan_child_inv [OF Cons.prems(1), of c] Cons.prems(2) by auto
  have "ref_count rt1 p + int (count_list ch p) \<le> 2 ^ 31 - 1" if "p \<in> set ch" for p
    using Cons.prems(3) [of p] that rt1(4) by (auto split: if_splits)
  then obtain rt2 N2 where rt2: "mark_each gc_scan_incref_child ch rt1 = Some rt2" "scan_inv L P ((Q @ N1) @ N2) rt2"
    "set N2 \<subseteq> set ch" "\<forall>p. ref_count rt2 p = ref_count rt1 p + int (count_list ch p)" "set ch \<subseteq> set (P @ (Q @ N1) @ N2)"
    using Cons.IH [OF rt1(2)] Cons.prems(2) by auto
  show ?case
    by (intro exI [of _ rt2] exI [of _ "N1 @ N2"] conjI) (use rt1 rt2 in auto)
qed

text \<open>What is referenced from outside the objects of \<open>L\<close>, directly or not.\<close>

inductive gc_reachable :: "(obj \<Rightarrow> obj list option) \<Rightarrow> obj list \<Rightarrow> (obj \<Rightarrow> int) \<Rightarrow> obj \<Rightarrow> bool"
  for children L rc where
  external: "p \<in> set L \<Longrightarrow> refs children L p < rc p \<Longrightarrow> gc_reachable children L rc p"
| child: "gc_reachable children L rc q \<Longrightarrow> children q = Some ch \<Longrightarrow> p \<in> set ch \<Longrightarrow> gc_reachable children L rc p"

lemma gc_scan_loop_inv:
  assumes cl: "closed children (set L)" and dL: "distinct L"
    and bound: "\<And>x. x \<in> set L \<Longrightarrow> ext x + refs children L x \<le> 2 ^ 31 - 1"
  shows "scan_inv L P Q rt \<Longrightarrow> (\<And>x. x \<in> set L \<Longrightarrow> ref_count rt x = ext x + refs children P x) \<Longrightarrow>
    (\<And>x. x \<in> set (P @ Q) \<Longrightarrow> gc_reachable children L rc x) \<Longrightarrow>
    (\<And>x. x \<in> set P \<Longrightarrow> set (kids children x) \<subseteq> set (P @ Q)) \<Longrightarrow>
    \<exists>rt' K. gc_scan_loop children rt (list_first Q) = Some rt' \<and> scan_inv L K [] rt' \<and> set (P @ Q) \<subseteq> set K \<and>
      (\<forall>x \<in> set L. ref_count rt' x = ext x + refs children K x) \<and> (\<forall>x \<in> set K. gc_reachable children L rc x) \<and>
      closed children (set K)"
proof (induction "card (set L - set P)" arbitrary: P Q rt rule: less_induct)
  case less
  show ?case
  proof (cases Q)
    case Nil
    have "closed children (set P)"
      unfolding closed_def
    proof
      fix p assume "p \<in> set P"
      then have "p \<in> set L" using less.prems(1) by (auto simp: scan_inv_def)
      with closedD [OF cl this] less.prems(4) [OF \<open>p \<in> set P\<close>] Nil show "\<exists>ch. children p = Some ch \<and> set ch \<subseteq> set P" by simp
    qed
    with Nil less.prems show ?thesis
      by (intro exI [of _ rt] exI [of _ P]) (simp add: gc_scan_loop.simps list_first_def)
  next
    case (Cons q Q')
    have inv: "scan_inv L P (q # Q') rt" using less.prems(1) Cons by simp
    have qL: "q \<in> set L" and tmp: "distinct (P @ q # Q' @ tmp_obj_list rt)" "set (P @ q # Q' @ tmp_obj_list rt) = set L"
      and pos: "0 < ref_count rt q" using inv by (auto simp: scan_inv_def)
    have ch: "children q = Some (kids children q)" "set (kids children q) \<subseteq> set L"
      using closedD [OF cl qL] by simp_all
    let ?rt = "rt\<lparr>gc_marked := (gc_marked rt)(q := 0)\<rparr>"
    have inv1: "scan_inv L (P @ [q]) Q' ?rt" using inv by (auto simp: scan_inv_def)
    have "refs children (P @ [q]) x \<le> refs children L x" for x
      using refs_permuted [OF dL tmp(1) tmp(2) [symmetric], of children x]
        refs_le_append [of children "P @ [q]" x "Q' @ tmp_obj_list rt"] by simp
    then have le: "refs children P x + int (count_list (kids children q) x) \<le> refs children L x" for x
      by (simp only: refs_simps add_0_right)
    have room: "ref_count ?rt x + int (count_list (kids children q) x) \<le> 2 ^ 31 - 1" if "x \<in> set (kids children q)" for x
    proof -
      have "x \<in> set L" using ch(2) that by blast
      from bound [OF this] less.prems(2) [OF this] le [of x] show ?thesis by simp
    qed
    obtain rt1 N where rt1: "mark_each gc_scan_incref_child (kids children q) ?rt = Some rt1" "scan_inv L (P @ [q]) (Q' @ N) rt1"
      "set N \<subseteq> set (kids children q)" "\<forall>p. ref_count rt1 p = ref_count rt p + int (count_list (kids children q) p)"
      "set (kids children q) \<subseteq> set ((P @ [q]) @ Q' @ N)"
      using mark_each_scan [OF inv1 ch(2) room] by auto
    have "gc_obj_list rt1 = P @ q # Q' @ N" "q \<notin> set P" using rt1(2) tmp(1) by (simp_all add: scan_inv_def)
    then have "list_next (gc_obj_list rt1) q = Some (list_first (Q' @ N))" using list_next_append [of q P "Q' @ N"] by simp
    then have run: "gc_scan_loop children rt (list_first Q) = gc_scan_loop children rt1 (list_first (Q' @ N))"
      using pos ch(1) rt1(1) Cons
      by (simp only: gc_scan_loop.simps [of children rt] list_first_def Let_def option.case list.case bind.bind_lunit if_True simp_thms)
    have "card (set L - set (P @ [q])) < card (set L - set P)"
      using qL \<open>q \<notin> set P\<close> by (intro psubset_card_mono) auto
    note fewer = this
    have rcs: "ref_count rt1 x = ext x + refs children (P @ [q]) x" if "x \<in> set L" for x
      using rt1(4) less.prems(2) that by simp
    have reach: "gc_reachable children L rc x" if "x \<in> set ((P @ [q]) @ Q' @ N)" for x
      using that less.prems(3) [of x] Cons gc_reachable.child [OF less.prems(3) [of q] ch(1)] rt1(3) by auto
    have visited: "set (kids children x) \<subseteq> set ((P @ [q]) @ Q' @ N)" if "x \<in> set (P @ [q])" for x
      using that less.prems(4) [of x] rt1(5) Cons by auto
    obtain rt' K where "gc_scan_loop children rt1 (list_first (Q' @ N)) = Some rt'" "scan_inv L K [] rt'"
      "set ((P @ [q]) @ Q' @ N) \<subseteq> set K" "\<forall>x \<in> set L. ref_count rt' x = ext x + refs children K x"
      "\<forall>x \<in> set K. gc_reachable children L rc x" "closed children (set K)"
      using less.hyps [OF fewer rt1(2) rcs reach visited] by blast
    then show ?thesis
      unfolding run by (intro exI [of _ rt'] exI [of _ K] conjI) (simp_all add: Cons)
  qed
qed

lemma mark_each_restore:
  "(\<And>p. p \<in> set ch \<Longrightarrow> ref_count rt p + int (count_list ch p) \<le> 2 ^ 31 - 1) \<Longrightarrow>
    mark_each gc_scan_incref_child2 ch rt = Some (rt\<lparr>ref_count := \<lambda>p. ref_count rt p + int (count_list ch p)\<rparr>)"
proof (induction ch arbitrary: rt)
  case (Cons c ch)
  let ?rt = "rt\<lparr>ref_count := (ref_count rt)(c := ref_count rt c + 1)\<rparr>"
  have "gc_scan_incref_child2 rt c = Some ?rt"
    using Cons.prems [of c] by (simp add: gc_scan_incref_child2_def gc_incref_def)
  moreover have "mark_each gc_scan_incref_child2 ch ?rt = Some (?rt\<lparr>ref_count := \<lambda>p. ref_count ?rt p + int (count_list ch p)\<rparr>)"
    using Cons.prems by (intro Cons.IH) (fastforce split: if_splits)
  ultimately show ?case by (simp add: fun_eq_iff gc_runtime.fold_congs)
qed simp

lemma gc_restore_loop_eq:
  assumes cl: "closed children A"
  shows "set T \<subseteq> A \<Longrightarrow> (\<And>x. x \<in> A \<Longrightarrow> ref_count rt x + refs children T x \<le> 2 ^ 31 - 1) \<Longrightarrow>
    gc_restore_loop children T rt = Some (rt\<lparr>ref_count := \<lambda>x. ref_count rt x + refs children T x\<rparr>)"
proof (induction T arbitrary: rt)
  case (Cons q T)
  have ch: "children q = Some (kids children q)" "set (kids children q) \<subseteq> A" using closedD [OF cl, of q] Cons.prems(1) by simp_all
  let ?rt = "rt\<lparr>ref_count := \<lambda>p. ref_count rt p + int (count_list (kids children q) p)\<rparr>"
  have "mark_each gc_scan_incref_child2 (kids children q) rt = Some ?rt"
  proof (rule mark_each_restore)
    fix p assume "p \<in> set (kids children q)"
    then have "p \<in> A" using ch(2) by blast
    from Cons.prems(2) [OF this] refs_nonneg [of children T p]
    show "ref_count rt p + int (count_list (kids children q) p) \<le> 2 ^ 31 - 1" unfolding refs_simps by linarith
  qed
  moreover have "gc_restore_loop children T ?rt = Some (?rt\<lparr>ref_count := \<lambda>x. ref_count ?rt x + refs children T x\<rparr>)"
    using Cons.prems by (intro Cons.IH) (auto simp: add.assoc)
  ultimately show ?case using ch(1) by (simp add: add.assoc)
qed simp

subsection \<open>Finding the garbage\<close>

lemma gc_decref_loop_end: "gc_decref_loop children rt None el1 = Some rt"
  by (simp add: gc_decref_loop.simps)

lemma gc_decref_eq:
  assumes "distinct (gc_obj_list rt)" "\<forall>p \<in> set (gc_obj_list rt). gc_marked rt p = 0"
    and "closed (mark_children classes H) (set (gc_obj_list rt))"
    and "\<forall>p \<in> set (gc_obj_list rt). refs (mark_children classes H) (gc_obj_list rt) p \<le> ref_count rt p"
  shows "\<exists>rt'. gc_decref classes H rt = Some rt' \<and> decref_inv (gc_obj_list rt) [] rt' \<and>
    (\<forall>p. ref_count rt' p = ref_count rt p - refs (mark_children classes H) (gc_obj_list rt) p)"
proof -
  let ?rt = "rt\<lparr>tmp_obj_list := []\<rparr>" and ?L = "gc_obj_list rt"
  have "decref_inv [] ?L ?rt" using assms(1,2) by (simp add: decref_inv_def)
  then obtain rt' where "gc_decref_loop (mark_children classes H) ?rt (list_first ?L) (list_first (tl ?L)) = Some rt'"
    "decref_inv ([] @ ?L) [] rt'" "\<forall>p. ref_count rt' p = ref_count ?rt p - refs (mark_children classes H) ?L p"
    using gc_decref_loop_inv [of "[]" ?L ?rt "mark_children classes H"] assms(3,4) by auto
  moreover from this have "gc_decref classes H rt = Some rt'"
    by (cases ?L) (auto simp: gc_decref_def Let_def list_first_def gc_decref_loop_end)
  ultimately show ?thesis by auto
qed

lemma gc_scan_eq:
  assumes dec: "decref_inv L [] rt1" and dL: "distinct L" and cl: "closed (mark_children classes H) (set L)"
    and rc: "\<forall>p. ref_count rt1 p = rc p - refs (mark_children classes H) L p"
    and bounds: "\<forall>p \<in> set L. refs (mark_children classes H) L p \<le> rc p \<and> rc p \<le> 2 ^ 31 - 1"
  shows "\<exists>rt2. gc_scan classes H rt1 = Some rt2 \<and> distinct (gc_obj_list rt2 @ tmp_obj_list rt2) \<and>
    set (gc_obj_list rt2 @ tmp_obj_list rt2) = set L \<and> (\<forall>p \<in> set (gc_obj_list rt2). gc_marked rt2 p = 0) \<and>
    set (gc_obj_list rt2) = {p. gc_reachable (mark_children classes H) L rc p} \<and> (\<forall>p \<in> set L. ref_count rt2 p = rc p)"
proof -
  let ?ch = "mark_children classes H" and ?Q = "gc_obj_list rt1"
  have lists: "set ?Q = {p \<in> set L. 0 < ref_count rt1 p}" "distinct ?Q" "set (tmp_obj_list rt1) = {p \<in> set L. ref_count rt1 p \<le> 0}"
    "distinct (tmp_obj_list rt1)" and m: "\<forall>p \<in> set L. gc_marked rt1 p = 1" using dec by (auto simp: decref_inv_def)
  have nn: "0 \<le> ref_count rt1 p" if "p \<in> set L" for p using bounds rc that by simp
  have inv: "scan_inv L [] ?Q rt1" unfolding scan_inv_def using lists m nn by (auto simp: not_less intro: order_antisym)
  have bound: "ref_count rt1 x + refs ?ch L x \<le> 2 ^ 31 - 1" if "x \<in> set L" for x using bounds rc that by simp
  have roots: "gc_reachable ?ch L rc x" if "x \<in> set ([] @ ?Q)" for x
    using that lists(1) rc by (auto intro: gc_reachable.external)
  obtain rt' K where K: "gc_scan_loop ?ch rt1 (list_first ?Q) = Some rt'" "scan_inv L K [] rt'" "set ([] @ ?Q) \<subseteq> set K"
    "\<forall>x \<in> set L. ref_count rt' x = ref_count rt1 x + refs ?ch K x" "\<forall>x \<in> set K. gc_reachable ?ch L rc x" "closed ?ch (set K)"
    using gc_scan_loop_inv [OF cl dL bound inv _ roots] by auto
  have parts: "gc_obj_list rt' = K" "distinct (K @ tmp_obj_list rt')" "set (K @ tmp_obj_list rt') = set L"
    using K(2) by (auto simp: scan_inv_def)
  have all: "refs ?ch K x + refs ?ch (tmp_obj_list rt') x = refs ?ch L x" for x
    using refs_permuted [OF dL parts(2) parts(3) [symmetric], of ?ch x] by simp
  let ?rt2 = "rt'\<lparr>ref_count := \<lambda>x. ref_count rt' x + refs ?ch (tmp_obj_list rt') x\<rparr>"
  have "ref_count rt' x + refs ?ch (tmp_obj_list rt') x \<le> 2 ^ 31 - 1" if "x \<in> set L" for x
    using K(4) bound [OF that] all [of x] that by simp
  then have "gc_restore_loop ?ch (tmp_obj_list rt') rt' = Some ?rt2"
    using parts(3) by (intro gc_restore_loop_eq [OF cl]) auto
  then have run: "gc_scan classes H rt1 = Some ?rt2" using K(1) by (simp add: gc_scan_def)
  have "p \<in> set K" if "gc_reachable ?ch L rc p" for p
    using that
  proof induction
    case (external p)
    then show ?case using K(3) lists(1) rc by auto
  next
    case (child q ch p)
    with K(6) show ?case by (fastforce simp: closed_def)
  qed
  then have "set (gc_obj_list ?rt2) = {p. gc_reachable ?ch L rc p}" using K(5) parts(1) by auto
  moreover have "\<forall>p \<in> set L. ref_count ?rt2 p = rc p" using K(4) rc all by (simp add: add.assoc)
  moreover have "\<forall>p \<in> set K. gc_marked rt' p = 0" using K(2) by (simp add: scan_inv_def)
  ultimately show ?thesis using run parts by (intro exI [of _ ?rt2]) simp
qed

text \<open>
  C7. The first two passes of the collector find exactly the garbage.  When the reference counts of
  the listed objects cover the references between them, \<open>gc_decref\<close> and \<open>gc_scan\<close> succeed (no
  assertion fails, no counter overflows, both loops over the changing lists end); then
  \<open>gc_obj_list\<close> holds the objects referenced from outside, directly or not, \<open>tmp_obj_list\<close> all the
  others, every reference count is what it was, and the kept objects are unmarked for the next
  collection.
\<close>

lemma gc_finds_garbage:
  assumes "distinct (gc_obj_list rt)" and "\<forall>p \<in> set (gc_obj_list rt). gc_marked rt p = 0"
    and "closed (mark_children classes H) (set (gc_obj_list rt))"
    and "\<forall>p \<in> set (gc_obj_list rt). refs (mark_children classes H) (gc_obj_list rt) p \<le> ref_count rt p \<and> ref_count rt p \<le> 2 ^ 31 - 1"
  shows "\<exists>rt1 rt2. gc_decref classes H rt = Some rt1 \<and> gc_scan classes H rt1 = Some rt2 \<and>
    set (gc_obj_list rt2) = {p. gc_reachable (mark_children classes H) (gc_obj_list rt) (ref_count rt) p} \<and>
    set (tmp_obj_list rt2) = set (gc_obj_list rt) - set (gc_obj_list rt2) \<and>
    distinct (gc_obj_list rt2 @ tmp_obj_list rt2) \<and>
    (\<forall>p \<in> set (gc_obj_list rt). ref_count rt2 p = ref_count rt p) \<and>
    (\<forall>p \<in> set (gc_obj_list rt2). gc_marked rt2 p = 0)"
proof -
  obtain rt1 where rt1: "gc_decref classes H rt = Some rt1" "decref_inv (gc_obj_list rt) [] rt1"
    "\<forall>p. ref_count rt1 p = ref_count rt p - refs (mark_children classes H) (gc_obj_list rt) p"
    using gc_decref_eq [OF assms(1-3)] assms(4) by blast
  obtain rt2 where "gc_scan classes H rt1 = Some rt2"
    "set (gc_obj_list rt2) = {p. gc_reachable (mark_children classes H) (gc_obj_list rt) (ref_count rt) p}"
    "\<forall>p \<in> set (gc_obj_list rt). ref_count rt2 p = ref_count rt p"
    "distinct (gc_obj_list rt2 @ tmp_obj_list rt2)" "set (gc_obj_list rt2 @ tmp_obj_list rt2) = set (gc_obj_list rt)"
    "\<forall>p \<in> set (gc_obj_list rt2). gc_marked rt2 p = 0"
    using gc_scan_eq [OF rt1(2) assms(1,3) rt1(3) assms(4)] by blast
  with rt1(1) show ?thesis by (intro exI [of _ rt1] exI [of _ rt2]) auto
qed

text \<open>Two objects of a cycle that nothing else references, and an object that the stack references.\<close>

definition example_object :: "js_value \<Rightarrow> gc_object" where
  "example_object v = JS_OBJECT \<lparr>ob_shape = 1, ob_prop = [Prop_value v], ob_class_id = 1, ob_u = U_other\<rparr>"

definition example_gc_heap :: gc_heap where
  "example_gc_heap =
     [1 \<mapsto> SHAPE \<lparr>sh_proto = None, sh_prop = [(7, 5)]\<rparr>, 2 \<mapsto> example_object (Js_object 3),
      3 \<mapsto> example_object (Js_object 2), 4 \<mapsto> example_object Js_immediate]"

definition example_gc_runtime :: gc_runtime where
  "example_gc_runtime =
     \<lparr>ref_count = (\<lambda>p. if p = 1 then 3 else 1), gc_marked = (\<lambda>p. 0), gc_obj_list = [1, 2, 3, 4], tmp_obj_list = []\<rparr>"

lemma gc_finds_garbage_witness:
  "\<exists>rt1 rt2. gc_decref (\<lambda>c. None) example_gc_heap example_gc_runtime = Some rt1 \<and>
    gc_scan (\<lambda>c. None) example_gc_heap rt1 = Some rt2 \<and>
    set (gc_obj_list rt2) = {p. gc_reachable (mark_children (\<lambda>c. None) example_gc_heap)
      (gc_obj_list example_gc_runtime) (ref_count example_gc_runtime) p} \<and>
    set (tmp_obj_list rt2) = set (gc_obj_list example_gc_runtime) - set (gc_obj_list rt2) \<and>
    distinct (gc_obj_list rt2 @ tmp_obj_list rt2) \<and>
    (\<forall>p \<in> set (gc_obj_list example_gc_runtime). ref_count rt2 p = ref_count example_gc_runtime p) \<and>
    (\<forall>p \<in> set (gc_obj_list rt2). gc_marked rt2 p = 0)"
  by (rule gc_finds_garbage)
    (simp_all add: example_gc_runtime_def example_gc_heap_def example_object_def closed_def refs_def kids_def
      mark_children_def mark_property_def mark_pointer_def JS_MarkValue_def)

end
