(* ===== verification/Gc_Class.thy ===== *)
theory Gc_Class
  imports Gc
begin

section \<open>What an object owns\<close>

text \<open>
  The references that a release gives up: \<open>free_property\<close>, the finalizers of the classes
  (\<open>js_std_class_def\<close> and the tables of proxies, promises and call sites), and the laws by which the
  collector relies on them: a finalizer releases exactly the references that the mark function of its
  class visits.  A function that releases references in order is modelled by the list of these references.
\<close>

subsection \<open>References\<close>

text \<open>What a release calls: \<open>JS_FreeValueRT\<close>, \<open>js_free_shape\<close>, \<open>free_var_ref\<close>, \<open>JS_FreeContext\<close>.
  A context and its references stay; \<open>Kept_ref\<close> is a reference that a context owns.\<close>

datatype owned_ref = Value_ref obj | Shape_ref obj | Var_ref obj | Context_ref obj | Kept_ref obj

fun ref_target :: "owned_ref \<Rightarrow> obj" where
  "ref_target (Value_ref p) = p"
| "ref_target (Shape_ref p) = p"
| "ref_target (Var_ref p) = p"
| "ref_target (Context_ref p) = p"
| "ref_target (Kept_ref p) = p"

definition value_refs :: "js_value list \<Rightarrow> owned_ref list" where
  "value_refs vs = map Value_ref (mark_values vs)"

fun is_value_object :: "gc_object option \<Rightarrow> bool" where
  "is_value_object (Some (JS_OBJECT _)) = True"
| "is_value_object (Some (FUNCTION_BYTECODE _)) = True"
| "is_value_object _ = False"

fun is_context :: "gc_object option \<Rightarrow> bool" where
  "is_context (Some (JS_CONTEXT _)) = True"
| "is_context _ = False"

fun is_shape :: "gc_object option \<Rightarrow> bool" where
  "is_shape (Some (SHAPE _)) = True"
| "is_shape _ = False"

fun is_var_ref :: "gc_object option \<Rightarrow> bool" where
  "is_var_ref (Some (VAR_REF r)) = vr_is_detached r"
| "is_var_ref _ = False"

fun ref_typed :: "gc_heap \<Rightarrow> owned_ref \<Rightarrow> bool" where
  "ref_typed H (Value_ref p) = is_value_object (H p)"
| "ref_typed H (Shape_ref p) = is_shape (H p)"
| "ref_typed H (Var_ref p) = is_var_ref (H p)"
| "ref_typed H (Context_ref p) = is_context (H p)"
| "ref_typed H (Kept_ref p) = (H p \<noteq> None)"

fun releasable :: "owned_ref \<Rightarrow> bool" where
  "releasable (Kept_ref p) = False"
| "releasable _ = True"

text \<open>The same heap for references: an object may have lost its contents.\<close>

definition same_kind :: "gc_object option \<Rightarrow> gc_object option \<Rightarrow> bool" where
  "same_kind x y \<longleftrightarrow> x = y \<or> (\<exists>ob ob'. x = Some (JS_OBJECT ob) \<and> y = Some (JS_OBJECT ob'))"

lemma same_kind_refl [simp]: "same_kind x x"
  by (simp add: same_kind_def)

lemma same_kind_simps:
  assumes "same_kind x y"
  shows "is_value_object x = is_value_object y" "is_context x = is_context y" "is_shape x = is_shape y"
    "is_var_ref x = is_var_ref y" "x = None \<longleftrightarrow> y = None"
  using assms by (auto simp: same_kind_def)

subsection \<open>Properties and finalizers\<close>

definition free_property :: "u32 \<Rightarrow> js_property \<Rightarrow> owned_ref list option" where
  "free_property prop_flags pr =
     (if prop_flags AND JS_PROP_TMASK \<noteq> 0 then
        if prop_flags AND JS_PROP_TMASK = JS_PROP_GETSET then
          (case pr of
             Prop_getset getter setter \<Rightarrow> Some (map Value_ref (mark_pointer getter @ mark_pointer setter))
           | _ \<Rightarrow> None)
        else if prop_flags AND JS_PROP_TMASK = JS_PROP_VARREF then
          (case pr of Prop_var_ref r \<Rightarrow> Some [Var_ref r] | _ \<Rightarrow> None)
        else (case pr of Prop_init realm \<Rightarrow> Some [Context_ref realm] | _ \<Rightarrow> None)
      else (case pr of Prop_value v \<Rightarrow> Some (value_refs [v]) | _ \<Rightarrow> None))"

fun free_properties :: "(u32 \<times> u32) list \<Rightarrow> js_property list \<Rightarrow> owned_ref list option" where
  "free_properties [] prs = Some []"
| "free_properties ((flags, atom) # sps) [] = None"
| "free_properties ((flags, atom) # sps) (pr # prs) = do {
     xs \<leftarrow> free_property flags pr;
     ys \<leftarrow> free_properties sps prs;
     Some (xs @ ys) }"

type_synonym js_finalizer = "gc_heap \<Rightarrow> js_object \<Rightarrow> owned_ref list option"

definition js_array_finalizer :: js_finalizer where
  "js_array_finalizer H p = (case ob_u p of U_array vs \<Rightarrow> Some (value_refs vs) | _ \<Rightarrow> None)"

definition js_object_data_finalizer :: js_finalizer where
  "js_object_data_finalizer H p = (case ob_u p of U_object_data v \<Rightarrow> Some (value_refs [v]) | _ \<Rightarrow> None)"

definition js_c_function_finalizer :: js_finalizer where
  "js_c_function_finalizer H p =
     (case ob_u p of U_cfunc realm \<Rightarrow> Some (map Context_ref (mark_pointer realm)) | _ \<Rightarrow> None)"

definition js_c_function_data_finalizer :: js_finalizer where
  "js_c_function_data_finalizer H p =
     (case ob_u p of
        U_c_function_data None \<Rightarrow> Some []
      | U_c_function_data (Some vs) \<Rightarrow> Some (value_refs vs)
      | _ \<Rightarrow> None)"

primrec free_var_refs :: "obj option list \<Rightarrow> nat \<Rightarrow> owned_ref list option" where
  "free_var_refs rs 0 = Some []"
| "free_var_refs rs (Suc i) = do {
     xs \<leftarrow> free_var_refs rs i;
     r \<leftarrow> mem_get rs i;
     Some (xs @ map Var_ref (mark_pointer r)) }"

definition js_bytecode_function_finalizer :: js_finalizer where
  "js_bytecode_function_finalizer H p =
     (case ob_u p of
        U_func b var_refs home_object \<Rightarrow>
          (case b of
             None \<Rightarrow> Some (map Value_ref (mark_pointer home_object))
           | Some bp \<Rightarrow>
               (case H bp of
                  Some (FUNCTION_BYTECODE bc) \<Rightarrow> do {
                    xs \<leftarrow> (case var_refs of
                            None \<Rightarrow> Some []
                          | Some rs \<Rightarrow> free_var_refs rs (bf_closure_var_count bc));
                    Some (map Value_ref (mark_pointer home_object) @ xs @ [Value_ref bp]) }
                | _ \<Rightarrow> None))
      | _ \<Rightarrow> None)"

definition js_bound_function_finalizer :: js_finalizer where
  "js_bound_function_finalizer H p =
     (case ob_u p of
        U_bound_function func_obj this_val argv \<Rightarrow> Some (value_refs (func_obj # this_val # argv))
      | _ \<Rightarrow> None)"

definition js_for_in_iterator_finalizer :: js_finalizer where
  "js_for_in_iterator_finalizer H p = (case ob_u p of U_for_in v \<Rightarrow> Some (value_refs [v]) | _ \<Rightarrow> None)"

text \<open>The classes whose data is a structure of values that the object owns; a pointer may be null.\<close>

definition struct_mark :: "js_value list option \<Rightarrow> obj list option" where
  "struct_mark vs = Some (case vs of None \<Rightarrow> [] | Some vs \<Rightarrow> mark_values vs)"

definition struct_refs :: "js_value list option \<Rightarrow> owned_ref list option" where
  "struct_refs vs = Some (case vs of None \<Rightarrow> [] | Some vs \<Rightarrow> value_refs vs)"

definition js_array_iterator_finalizer :: js_finalizer where
  "js_array_iterator_finalizer H p =
     (case ob_u p of U_array_iterator s \<Rightarrow> struct_refs (map_option (\<lambda>obj. [obj]) s) | _ \<Rightarrow> None)"

definition js_array_iterator_mark :: gc_mark where
  "js_array_iterator_mark H p =
     (case ob_u p of U_array_iterator s \<Rightarrow> struct_mark (map_option (\<lambda>obj. [obj]) s) | _ \<Rightarrow> None)"

definition js_iterator_wrap_finalizer :: js_finalizer where
  "js_iterator_wrap_finalizer H p =
     (case ob_u p of U_iterator_wrap s \<Rightarrow> struct_refs (map_option (\<lambda>(wrapped_iter, wrapped_next). [wrapped_iter, wrapped_next]) s) | _ \<Rightarrow> None)"

definition js_iterator_wrap_mark :: gc_mark where
  "js_iterator_wrap_mark H p =
     (case ob_u p of U_iterator_wrap s \<Rightarrow> struct_mark (map_option (\<lambda>(wrapped_iter, wrapped_next). [wrapped_iter, wrapped_next]) s) | _ \<Rightarrow> None)"

definition js_iterator_helper_finalizer :: js_finalizer where
  "js_iterator_helper_finalizer H p =
     (case ob_u p of U_iterator_helper s \<Rightarrow> struct_refs (map_option (\<lambda>(obj, func, next_fn, inner). [obj, func, next_fn, inner]) s) | _ \<Rightarrow> None)"

definition js_iterator_helper_mark :: gc_mark where
  "js_iterator_helper_mark H p =
     (case ob_u p of U_iterator_helper s \<Rightarrow> struct_mark (map_option (\<lambda>(obj, func, next_fn, inner). [obj, func, next_fn, inner]) s) | _ \<Rightarrow> None)"

definition js_regexp_string_iterator_finalizer :: js_finalizer where
  "js_regexp_string_iterator_finalizer H p =
     (case ob_u p of U_regexp_string_iterator s \<Rightarrow> struct_refs (map_option (\<lambda>(iterating_regexp, iterated_string). [iterating_regexp, iterated_string]) s) | _ \<Rightarrow> None)"

definition js_regexp_string_iterator_mark :: gc_mark where
  "js_regexp_string_iterator_mark H p =
     (case ob_u p of U_regexp_string_iterator s \<Rightarrow> struct_mark (map_option (\<lambda>(iterating_regexp, iterated_string). [iterating_regexp, iterated_string]) s) | _ \<Rightarrow> None)"

definition js_proxy_finalizer :: js_finalizer where
  "js_proxy_finalizer H p =
     (case ob_u p of U_proxy s \<Rightarrow> struct_refs (map_option (\<lambda>(target, handler). [target, handler]) s) | _ \<Rightarrow> None)"

definition js_proxy_mark :: gc_mark where
  "js_proxy_mark H p =
     (case ob_u p of U_proxy s \<Rightarrow> struct_mark (map_option (\<lambda>(target, handler). [target, handler]) s) | _ \<Rightarrow> None)"

definition js_promise_resolve_function_finalizer :: js_finalizer where
  "js_promise_resolve_function_finalizer H p =
     (case ob_u p of U_promise_function s \<Rightarrow> struct_refs (map_option (\<lambda>promise. [promise]) s) | _ \<Rightarrow> None)"

definition js_promise_resolve_function_mark :: gc_mark where
  "js_promise_resolve_function_mark H p =
     (case ob_u p of U_promise_function s \<Rightarrow> struct_mark (map_option (\<lambda>promise. [promise]) s) | _ \<Rightarrow> None)"

definition js_async_from_sync_iterator_finalizer :: js_finalizer where
  "js_async_from_sync_iterator_finalizer H p =
     (case ob_u p of U_async_from_sync_iterator s \<Rightarrow> struct_refs (map_option (\<lambda>(sync_iter, next_method). [sync_iter, next_method]) s) | _ \<Rightarrow> None)"

definition js_async_from_sync_iterator_mark :: gc_mark where
  "js_async_from_sync_iterator_mark H p =
     (case ob_u p of U_async_from_sync_iterator s \<Rightarrow> struct_mark (map_option (\<lambda>(sync_iter, next_method). [sync_iter, next_method]) s) | _ \<Rightarrow> None)"

definition js_callsite_finalizer :: js_finalizer where
  "js_callsite_finalizer H p =
     (case ob_u p of U_callsite s \<Rightarrow> struct_refs (map_option (\<lambda>(filename, func, func_name). [filename, func, func_name]) s) | _ \<Rightarrow> None)"

definition js_callsite_mark :: gc_mark where
  "js_callsite_mark H p =
     (case ob_u p of U_callsite s \<Rightarrow> struct_mark (map_option (\<lambda>(filename, func, func_name). [filename, func, func_name]) s) | _ \<Rightarrow> None)"

text \<open>A reaction of a promise: the two resolving functions and the handler.\<close>

definition promise_reaction_data_free :: "js_value \<times> js_value \<times> js_value \<Rightarrow> owned_ref list" where
  "promise_reaction_data_free rd = (case rd of (resolve, reject, handler) \<Rightarrow> value_refs [resolve, reject, handler])"

definition js_promise_finalizer :: js_finalizer where
  "js_promise_finalizer H p =
     (case ob_u p of
        U_promise None \<Rightarrow> Some []
      | U_promise (Some (reactions0, reactions1, promise_result)) \<Rightarrow>
          Some (concat (map promise_reaction_data_free reactions0) @ concat (map promise_reaction_data_free reactions1) @
                value_refs [promise_result])
      | _ \<Rightarrow> None)"

definition js_promise_mark :: gc_mark where
  "js_promise_mark H p =
     (case ob_u p of
        U_promise None \<Rightarrow> Some []
      | U_promise (Some (reactions0, reactions1, promise_result)) \<Rightarrow>
          Some (concat (map (\<lambda>(resolve, reject, handler). mark_values [resolve, reject, handler]) (reactions0 @ reactions1)) @
                JS_MarkValue promise_result)
      | _ \<Rightarrow> None)"

text \<open>The tables of the classes by number; each overrides the table \<open>host\<close> of the other classes.\<close>

type_synonym js_class_table = "nat \<Rightarrow> js_finalizer option \<times> gc_mark option"

definition js_std_class_def :: "js_class_table \<Rightarrow> js_class_table" where
  "js_std_class_def host class_id =
     (if class_id \<in> {1, 3, 9, 11, 39} then (None, None)
      else if class_id \<in> {2, 8} then (Some js_array_finalizer, Some js_array_mark)
      else if class_id \<in> {4, 5, 6, 7, 10, 34} then (Some js_object_data_finalizer, Some js_object_data_mark)
      else if class_id = 12 then (Some js_c_function_finalizer, Some js_c_function_mark)
      else if class_id \<in> {13, 16} then (Some js_bytecode_function_finalizer, Some js_bytecode_function_mark)
      else if class_id = 14 then (Some js_bound_function_finalizer, Some js_bound_function_mark)
      else if class_id = 15 then (Some js_c_function_data_finalizer, Some js_c_function_data_mark)
      else if class_id = 17 then (Some js_for_in_iterator_finalizer, Some js_for_in_iterator_mark)
      else if class_id = 40 then (Some js_iterator_helper_finalizer, Some js_iterator_helper_mark)
      else if class_id = 41 then (Some js_iterator_wrap_finalizer, Some js_iterator_wrap_mark)
      else if class_id \<in> {44, 45} then (Some js_array_iterator_finalizer, Some js_array_iterator_mark)
      else if class_id = 46 then (Some js_regexp_string_iterator_finalizer, Some js_regexp_string_iterator_mark)
      else host class_id)"

definition js_proxy_class_def :: "js_class_table \<Rightarrow> js_class_table" where
  "js_proxy_class_def host class_id =
     (if class_id = 48 then (Some js_proxy_finalizer, Some js_proxy_mark) else host class_id)"

definition js_async_class_def :: "js_class_table \<Rightarrow> js_class_table" where
  "js_async_class_def host class_id =
     (if class_id = 49 then (Some js_promise_finalizer, Some js_promise_mark)
      else if class_id \<in> {50, 51} then
        (Some js_promise_resolve_function_finalizer, Some js_promise_resolve_function_mark)
      else if class_id \<in> {52, 56} then (Some js_bytecode_function_finalizer, Some js_bytecode_function_mark)
      else if class_id = 55 then (Some js_async_from_sync_iterator_finalizer, Some js_async_from_sync_iterator_mark)
      else host class_id)"

definition js_callsite_class_def :: "js_class_table \<Rightarrow> js_class_table" where
  "js_callsite_class_def host class_id =
     (if class_id = 60 then (Some js_callsite_finalizer, Some js_callsite_mark) else host class_id)"

definition js_class_array :: "js_class_table \<Rightarrow> js_class_table" where
  "js_class_array host = js_std_class_def (js_proxy_class_def (js_async_class_def (js_callsite_class_def host)))"

definition finalizer_refs :: "js_class_table \<Rightarrow> gc_heap \<Rightarrow> js_object \<Rightarrow> owned_ref list option" where
  "finalizer_refs classes H p =
     (case fst (classes (ob_class_id p)) of None \<Rightarrow> Some [] | Some finalizer \<Rightarrow> finalizer H p)"

subsection \<open>The laws of the table\<close>

text \<open>What the collector needs of the table of the classes.\<close>

locale class_laws =
  fixes classes :: js_class_table
  assumes plain: "classes 1 = (None, None)"
    and fin_releasable: "finalizer_refs classes H ob = Some rs \<Longrightarrow> r \<in> set rs \<Longrightarrow> releasable r"
    and fin_local: "finalizer_refs classes H ob = Some rs \<Longrightarrow> (\<And>r. r \<in> set rs \<Longrightarrow> same_kind (H (ref_target r)) (H' (ref_target r))) \<Longrightarrow>
      finalizer_refs classes H' ob = Some rs"
    and fin_marks: "finalizer_refs classes H ob = Some rs \<Longrightarrow> (\<And>r. r \<in> set rs \<Longrightarrow> ref_typed H r) \<Longrightarrow>
      \<exists>ms. (case snd (classes (ob_class_id ob)) of None \<Rightarrow> Some [] | Some gc_mark \<Rightarrow> gc_mark H ob) = Some ms \<and>
        mset ms = mset (map ref_target rs)"

lemma var_ref_detachedI: "is_var_ref (H p) \<Longrightarrow> var_ref_detached H p = Some True"
  by (cases "H p" rule: is_var_ref.cases) (auto simp: var_ref_detached_def split: option.splits gc_object.splits)

lemma map_target_simps [simp]:
  "map (ref_target \<circ> Value_ref) xs = xs" "map (ref_target \<circ> Var_ref) xs = xs" "map (ref_target \<circ> Shape_ref) xs = xs"
  "map (ref_target \<circ> Context_ref) xs = xs" "map (ref_target \<circ> Kept_ref) xs = xs"
  by (simp_all add: comp_def)

lemma free_var_refs_mark:
  "free_var_refs vs n = Some rs \<Longrightarrow> (\<And>r. r \<in> set rs \<Longrightarrow> ref_typed H r) \<Longrightarrow>
    mark_var_refs H vs n = Some (map ref_target rs) \<and> (\<forall>r \<in> set rs. releasable r)"
proof (induction n arbitrary: rs)
  case (Suc n)
  then obtain xs r where xs: "free_var_refs vs n = Some xs" "mem_get vs n = Some r" "rs = xs @ map Var_ref (mark_pointer r)"
    by (auto split: bind_splits)
  then have IH: "mark_var_refs H vs n = Some (map ref_target xs)" "\<forall>r \<in> set xs. releasable r" using Suc by auto
  show ?case
  proof (cases r)
    case None
    then show ?thesis using xs IH by (simp add: mark_pointer_def)
  next
    case (Some p)
    then have "is_var_ref (H p)" using xs(3) Suc.prems(2) [of "Var_ref p"] by (simp add: mark_pointer_def)
    then show ?thesis using xs IH Some var_ref_detachedI [of H p] by (auto simp: mark_pointer_def)
  qed
qed simp

lemma free_var_refs_releasable: "free_var_refs vs n = Some rs \<Longrightarrow> r \<in> set rs \<Longrightarrow> releasable r"
  by (induction n arbitrary: rs) (auto split: bind_splits)

subsection \<open>The standard classes keep the laws\<close>

lemmas finalizer_defs = js_array_finalizer_def js_object_data_finalizer_def js_c_function_finalizer_def
  js_bytecode_function_finalizer_def js_bound_function_finalizer_def js_c_function_data_finalizer_def
  js_for_in_iterator_finalizer_def js_array_iterator_finalizer_def
  js_iterator_wrap_finalizer_def
  js_iterator_helper_finalizer_def
  js_regexp_string_iterator_finalizer_def
  js_proxy_finalizer_def
  js_promise_resolve_function_finalizer_def
  js_async_from_sync_iterator_finalizer_def
  js_callsite_finalizer_def struct_refs_def

lemmas class_mark_defs = js_array_mark_def js_object_data_mark_def js_c_function_mark_def
  js_bytecode_function_mark_def js_bound_function_mark_def js_c_function_data_mark_def
  js_for_in_iterator_mark_def js_array_iterator_mark_def
  js_iterator_wrap_mark_def
  js_iterator_helper_mark_def
  js_regexp_string_iterator_mark_def
  js_proxy_mark_def
  js_promise_resolve_function_mark_def
  js_async_from_sync_iterator_mark_def
  js_callsite_mark_def struct_mark_def

lemma value_refs_releasable [simp]: "r \<in> set (value_refs vs) \<Longrightarrow> releasable r"
  by (auto simp: value_refs_def)

lemma value_refs_targets [simp]: "map ref_target (value_refs vs) = mark_values vs"
  by (simp add: value_refs_def)

lemma mark_values_single: "mark_values [v] = JS_MarkValue v"
  by (simp add: mark_values_def)

definition finalizer_law :: "js_finalizer \<Rightarrow> gc_mark \<Rightarrow> bool" where
  "finalizer_law f m \<longleftrightarrow> (\<forall>H ob rs. f H ob = Some rs \<longrightarrow>
     (\<forall>r \<in> set rs. releasable r) \<and>
     (\<forall>H'. (\<forall>r \<in> set rs. same_kind (H (ref_target r)) (H' (ref_target r))) \<longrightarrow> f H' ob = Some rs) \<and>
     ((\<forall>r \<in> set rs. ref_typed H r) \<longrightarrow> m H ob = Some (map ref_target rs)))"

lemma simple_finalizer_law:
  assumes "\<And>H H' ob. f H ob = f H' ob" "\<And>H ob rs r. f H ob = Some rs \<Longrightarrow> r \<in> set rs \<Longrightarrow> releasable r"
    and "\<And>H ob rs. f H ob = Some rs \<Longrightarrow> m H ob = Some (map ref_target rs)"
  shows "finalizer_law f m"
  unfolding finalizer_law_def using assms by metis

lemma array_law: "finalizer_law js_array_finalizer js_array_mark"
  by (rule simple_finalizer_law) (auto simp: finalizer_defs class_mark_defs split: js_class_data.splits)

lemma object_data_law: "finalizer_law js_object_data_finalizer js_object_data_mark"
  by (rule simple_finalizer_law)
    (auto simp: finalizer_defs class_mark_defs mark_values_single split: js_class_data.splits)

lemma c_function_law: "finalizer_law js_c_function_finalizer js_c_function_mark"
  by (rule simple_finalizer_law) (auto simp: finalizer_defs class_mark_defs split: js_class_data.splits)

lemma c_function_data_law: "finalizer_law js_c_function_data_finalizer js_c_function_data_mark"
  by (rule simple_finalizer_law) (auto simp: finalizer_defs class_mark_defs split: js_class_data.splits option.splits)

lemma bound_function_law: "finalizer_law js_bound_function_finalizer js_bound_function_mark"
  by (rule simple_finalizer_law) (auto simp: finalizer_defs class_mark_defs split: js_class_data.splits)

lemma for_in_law: "finalizer_law js_for_in_iterator_finalizer js_for_in_iterator_mark"
  by (rule simple_finalizer_law)
    (auto simp: finalizer_defs class_mark_defs mark_values_single split: js_class_data.splits)

lemma bytecode_function_law: "finalizer_law js_bytecode_function_finalizer js_bytecode_function_mark"
  unfolding finalizer_law_def
proof (intro allI impI)
  fix H ob rs assume f: "js_bytecode_function_finalizer H ob = Some rs"
  then obtain b vs home where u: "ob_u ob = U_func b vs home"
    by (auto simp: finalizer_defs split: js_class_data.splits)
  show "(\<forall>r \<in> set rs. releasable r) \<and>
     (\<forall>H'. (\<forall>r \<in> set rs. same_kind (H (ref_target r)) (H' (ref_target r))) \<longrightarrow> js_bytecode_function_finalizer H' ob = Some rs) \<and>
     ((\<forall>r \<in> set rs. ref_typed H r) \<longrightarrow> js_bytecode_function_mark H ob = Some (map ref_target rs))"
  proof (cases b)
    case None
    with f u show ?thesis by (auto simp: finalizer_defs class_mark_defs)
  next
    case (Some bp)
    then obtain bc xs where bc: "H bp = Some (FUNCTION_BYTECODE bc)"
      "(case vs of None \<Rightarrow> Some [] | Some rs \<Rightarrow> free_var_refs rs (bf_closure_var_count bc)) = Some xs"
      "rs = map Value_ref (mark_pointer home) @ xs @ [Value_ref bp]"
      using f u by (auto simp: finalizer_defs split: option.splits gc_object.splits bind_splits)
    have rel: "\<forall>r \<in> set xs. releasable r"
      using bc(2) free_var_refs_releasable by (auto split: option.splits)
    have loc: "js_bytecode_function_finalizer H' ob = Some rs"
      if "\<forall>r \<in> set rs. same_kind (H (ref_target r)) (H' (ref_target r))" for H'
    proof -
      have "same_kind (H bp) (H' bp)" using that bc(3) by simp
      then have "H' bp = Some (FUNCTION_BYTECODE bc)" using bc(1) by (auto simp: same_kind_def)
      with bc u Some show ?thesis by (simp add: finalizer_defs)
    qed
    have "js_bytecode_function_mark H ob = Some (map ref_target rs)" if t: "\<forall>r \<in> set rs. ref_typed H r"
    proof -
      have "(case vs of None \<Rightarrow> Some [] | Some rs \<Rightarrow> mark_var_refs H rs (bf_closure_var_count bc)) = Some (map ref_target xs)"
        using bc(2,3) t free_var_refs_mark [of _ _ xs H] by (auto split: option.splits)
      with bc(1,3) u Some show ?thesis by (simp add: class_mark_defs)
    qed
    with rel loc bc(3) show ?thesis by auto
  qed
qed

lemma array_iterator_law: "finalizer_law js_array_iterator_finalizer js_array_iterator_mark"
  by (rule simple_finalizer_law) (auto simp: finalizer_defs class_mark_defs split: js_class_data.splits option.splits)

lemma iterator_wrap_law: "finalizer_law js_iterator_wrap_finalizer js_iterator_wrap_mark"
  by (rule simple_finalizer_law) (auto simp: finalizer_defs class_mark_defs split: js_class_data.splits option.splits)

lemma iterator_helper_law: "finalizer_law js_iterator_helper_finalizer js_iterator_helper_mark"
  by (rule simple_finalizer_law) (auto simp: finalizer_defs class_mark_defs split: js_class_data.splits option.splits)

lemma regexp_string_iterator_law: "finalizer_law js_regexp_string_iterator_finalizer js_regexp_string_iterator_mark"
  by (rule simple_finalizer_law) (auto simp: finalizer_defs class_mark_defs split: js_class_data.splits option.splits)

lemma proxy_law: "finalizer_law js_proxy_finalizer js_proxy_mark"
  by (rule simple_finalizer_law) (auto simp: finalizer_defs class_mark_defs split: js_class_data.splits option.splits)

lemma promise_resolve_function_law: "finalizer_law js_promise_resolve_function_finalizer js_promise_resolve_function_mark"
  by (rule simple_finalizer_law) (auto simp: finalizer_defs class_mark_defs split: js_class_data.splits option.splits)

lemma async_from_sync_iterator_law: "finalizer_law js_async_from_sync_iterator_finalizer js_async_from_sync_iterator_mark"
  by (rule simple_finalizer_law) (auto simp: finalizer_defs class_mark_defs split: js_class_data.splits option.splits)

lemma callsite_law: "finalizer_law js_callsite_finalizer js_callsite_mark"
  by (rule simple_finalizer_law) (auto simp: finalizer_defs class_mark_defs split: js_class_data.splits option.splits)

lemma reaction_targets [simp]:
  "map ref_target (promise_reaction_data_free rd) = (case rd of (resolve, reject, handler) \<Rightarrow> mark_values [resolve, reject, handler])"
  by (cases rd) (simp add: promise_reaction_data_free_def)

lemma reactions_targets [simp]:
  "map ref_target (concat (map promise_reaction_data_free rds)) =
    concat (map (\<lambda>(resolve, reject, handler). mark_values [resolve, reject, handler]) rds)"
  by (induction rds) simp_all

lemma promise_law: "finalizer_law js_promise_finalizer js_promise_mark"
  by (rule simple_finalizer_law)
    (auto simp: js_promise_finalizer_def js_promise_mark_def mark_values_single promise_reaction_data_free_def
      split: js_class_data.splits option.splits)

fun entry_law :: "js_finalizer option \<times> gc_mark option \<Rightarrow> bool" where
  "entry_law (None, None) = True"
| "entry_law (Some f, Some m) = finalizer_law f m"
| "entry_law _ = False"

lemma entry_law_cases: "entry_law e \<longleftrightarrow> e = (None, None) \<or> (\<exists>f m. e = (Some f, Some m) \<and> finalizer_law f m)"
  by (cases e rule: entry_law.cases) auto

lemma entry_law_if: "(P \<Longrightarrow> entry_law x) \<Longrightarrow> (\<not> P \<Longrightarrow> entry_law y) \<Longrightarrow> entry_law (if P then x else y)"
  by simp

lemma finalizer_lawD:
  assumes "finalizer_law f m" "f H ob = Some rs"
  shows "r \<in> set rs \<Longrightarrow> releasable r"
    "(\<And>r. r \<in> set rs \<Longrightarrow> same_kind (H (ref_target r)) (H' (ref_target r))) \<Longrightarrow> f H' ob = Some rs"
    "(\<And>r. r \<in> set rs \<Longrightarrow> ref_typed H r) \<Longrightarrow> m H ob = Some (map ref_target rs)"
  using assms unfolding finalizer_law_def by blast+

lemma class_laws_table:
  assumes "classes 1 = (None, None)" and law: "\<And>c. entry_law (classes c)"
  shows "class_laws classes"
proof -
  have entry: "classes c = (None, None) \<or> (\<exists>f m. classes c = (Some f, Some m) \<and> finalizer_law f m)" for c
    using law [of c] by (simp only: entry_law_cases)
  have "r \<in> set rs \<Longrightarrow> releasable r"
    "(\<And>r. r \<in> set rs \<Longrightarrow> same_kind (H (ref_target r)) (H' (ref_target r))) \<Longrightarrow> finalizer_refs classes H' ob = Some rs"
    "(\<And>r. r \<in> set rs \<Longrightarrow> ref_typed H r) \<Longrightarrow>
      \<exists>ms. (case snd (classes (ob_class_id ob)) of None \<Rightarrow> Some [] | Some gc_mark \<Rightarrow> gc_mark H ob) = Some ms \<and>
        mset ms = mset (map ref_target rs)"
    if f: "finalizer_refs classes H ob = Some rs" for H H' ob rs r
  proof -
    consider "classes (ob_class_id ob) = (None, None)" "rs = []"
      | f m where "classes (ob_class_id ob) = (Some f, Some m)" "finalizer_law f m" "f H ob = Some rs"
      using entry [of "ob_class_id ob"] f by (elim disjE exE conjE) (simp_all add: finalizer_refs_def)
    note c = this
    show "r \<in> set rs \<Longrightarrow> releasable r"
    proof (cases rule: c)
      case (2 f m)
      show "r \<in> set rs \<Longrightarrow> releasable r" by (rule finalizer_lawD(1) [OF 2(2,3)])
    qed simp
    show "finalizer_refs classes H' ob = Some rs" if "\<And>r. r \<in> set rs \<Longrightarrow> same_kind (H (ref_target r)) (H' (ref_target r))"
    proof (cases rule: c)
      case (2 f m)
      from finalizer_lawD(2) [OF 2(2,3) that] 2(1) show ?thesis by (simp add: finalizer_refs_def)
    qed (simp add: finalizer_refs_def)
    show "\<exists>ms. (case snd (classes (ob_class_id ob)) of None \<Rightarrow> Some [] | Some gc_mark \<Rightarrow> gc_mark H ob) = Some ms \<and>
        mset ms = mset (map ref_target rs)" if "\<And>r. r \<in> set rs \<Longrightarrow> ref_typed H r"
    proof (cases rule: c)
      case (2 f m)
      from finalizer_lawD(3) [OF 2(2,3) that] 2(1) show ?thesis by simp
    qed simp
  qed
  with assms(1) show ?thesis unfolding class_laws_def by blast
qed

lemmas finalizer_laws = array_law object_data_law c_function_law c_function_data_law bound_function_law for_in_law
  bytecode_function_law array_iterator_law iterator_wrap_law iterator_helper_law regexp_string_iterator_law proxy_law promise_resolve_function_law async_from_sync_iterator_law callsite_law promise_law

lemma js_class_array_law:
  assumes "\<And>c. entry_law (host c)"
  shows "entry_law (js_class_array host c)"
proof -
  have entries: "entry_law (None, None)" "\<And>f m. finalizer_law f m \<Longrightarrow> entry_law (Some f, Some m)" by simp_all
  show ?thesis
    unfolding js_class_array_def js_std_class_def_def js_proxy_class_def_def js_async_class_def_def js_callsite_class_def_def
    by (intro entry_law_if entries finalizer_laws assms)
qed

lemma js_class_array_laws:
  assumes "\<And>c. entry_law (host c)"
  shows "class_laws (js_class_array host)"
proof (rule class_laws_table)
  show "js_class_array host 1 = (None, None)" by (simp add: js_class_array_def js_std_class_def_def)
  show "entry_law (js_class_array host c)" for c by (rule js_class_array_law [OF assms])
qed

interpretation std: class_laws "js_class_array (\<lambda>c. (None, None))"
  by (rule js_class_array_laws) simp

end
