(* ===== verification/Gc_Free.thy ===== *)
theory Gc_Free
  imports Gc_Class
begin

section \<open>Freeing objects\<close>

text \<open>
  What happens when the last reference to an object goes away: \<open>JS_FreeValueRT\<close> queues the object
  in \<open>gc_zero_ref_count_list\<close>, \<open>free_zero_refcount\<close> frees the queued objects one after the other,
  and freeing an object releases the references it owns; shapes and variable references are freed
  at once.  \<open>gc_free_cycles\<close> uses the same functions for the garbage the collector found.
  The heap loses an object when its memory is freed, so that a use after free is \<open>None\<close>.
\<close>

subsection \<open>Releasing references\<close>

definition free_ic :: "obj option list list option \<Rightarrow> owned_ref list" where
  "free_ic ic = (case ic of None \<Rightarrow> [] | Some cache \<Rightarrow> map Shape_ref (concat (map (\<lambda>shapes. concat (map mark_pointer shapes)) cache)))"

datatype gc_phase = JS_GC_PHASE_NONE | JS_GC_PHASE_DECREF | JS_GC_PHASE_REMOVE_CYCLES

record gc_state = gc_runtime +
  objects :: gc_heap
  zero_list :: "obj list"
  gc_phase :: gc_phase

definition remove_gc_object :: "gc_state \<Rightarrow> obj \<Rightarrow> gc_state" where
  "remove_gc_object st p =
     st\<lparr>gc_obj_list := remove1 p (gc_obj_list st), tmp_obj_list := remove1 p (tmp_obj_list st),
        zero_list := remove1 p (zero_list st)\<rparr>"

definition add_ref_count :: "gc_state \<Rightarrow> obj \<Rightarrow> int \<Rightarrow> gc_state" where
  "add_ref_count st p d = st\<lparr>ref_count := (ref_count st)(p := ref_count st p + d)\<rparr>"

definition free_memory :: "gc_state \<Rightarrow> obj \<Rightarrow> gc_state" where
  "free_memory st p = st\<lparr>objects := (objects st)(p := None)\<rparr>"

text \<open>The case of objects and function byte code.  In the phase \<open>NONE\<close> the caller goes on with
  \<open>free_zero_refcount\<close>.\<close>

definition js_free_value_rt :: "gc_state \<Rightarrow> obj \<Rightarrow> gc_state" where
  "js_free_value_rt st p =
     (if gc_phase st \<noteq> JS_GC_PHASE_REMOVE_CYCLES
      then let st = remove_gc_object st p in st\<lparr>zero_list := p # zero_list st\<rparr>
      else st)"

definition free_value :: "gc_state \<Rightarrow> obj \<Rightarrow> gc_state option" where
  "free_value st p =
     (if is_value_object (objects st p) then
        let st = add_ref_count st p (- 1)
        in Some (if ref_count st p \<le> 0 then js_free_value_rt st p else st)
      else None)"

definition js_free_shape0 :: "gc_state \<Rightarrow> obj \<Rightarrow> js_shape \<Rightarrow> gc_state option" where
  "js_free_shape0 st p sh =
     (if ref_count st p = 0 then do {
        st \<leftarrow> (case sh_proto sh of None \<Rightarrow> Some st | Some proto \<Rightarrow> free_value st proto);
        Some (free_memory (remove_gc_object st p) p) }
      else None)"

definition js_free_shape :: "gc_state \<Rightarrow> obj \<Rightarrow> gc_state option" where
  "js_free_shape st p =
     (case objects st p of
        Some (SHAPE sh) \<Rightarrow>
          (let st = add_ref_count st p (- 1) in
           if ref_count st p \<le> 0 then js_free_shape0 st p sh else Some st)
      | _ \<Rightarrow> None)"

definition free_var_ref :: "gc_state \<Rightarrow> obj \<Rightarrow> gc_state option" where
  "free_var_ref st p =
     (case objects st p of
        Some (VAR_REF r) \<Rightarrow>
          if ref_count st p > 0 then
            let st = add_ref_count st p (- 1) in
            if ref_count st p = 0 then do {
              st \<leftarrow> (if vr_is_detached r then
                        (case vr_pvalue r of
                           Js_object q \<Rightarrow> free_value st q
                         | Js_bytecode q \<Rightarrow> free_value st q
                         | _ \<Rightarrow> Some st)
                      else Some st);
              Some (free_memory (remove_gc_object st p) p) }
            else Some st
          else None
      | _ \<Rightarrow> None)"

text \<open>Freeing the last reference to a context is not modelled.\<close>

definition JS_FreeContext :: "gc_state \<Rightarrow> obj \<Rightarrow> gc_state option" where
  "JS_FreeContext st p =
     (case objects st p of
        Some (JS_CONTEXT ctx) \<Rightarrow>
          (let st = add_ref_count st p (- 1) in if ref_count st p > 0 then Some st else None)
      | _ \<Rightarrow> None)"

fun free_ref :: "gc_state \<Rightarrow> owned_ref \<Rightarrow> gc_state option" where
  "free_ref st (Value_ref p) = free_value st p"
| "free_ref st (Shape_ref p) = js_free_shape st p"
| "free_ref st (Var_ref p) = free_var_ref st p"
| "free_ref st (Context_ref p) = JS_FreeContext st p"
| "free_ref st (Kept_ref p) = None"

primrec free_refs :: "owned_ref list \<Rightarrow> gc_state \<Rightarrow> gc_state option" where
  "free_refs [] st = Some st"
| "free_refs (r # rs) st = do { st \<leftarrow> free_ref st r; free_refs rs st }"

subsection \<open>Freeing objects\<close>

text \<open>The end of \<open>free_object\<close> and \<open>free_function_bytecode\<close>.\<close>

definition free_header :: "gc_state \<Rightarrow> obj \<Rightarrow> gc_state" where
  "free_header st p =
     (let st = remove_gc_object st p in
      if gc_phase st = JS_GC_PHASE_REMOVE_CYCLES \<and> ref_count st p \<noteq> 0
      then st\<lparr>zero_list := zero_list st @ [p]\<rparr>
      else free_memory st p)"

definition cleared_object :: js_object where
  "cleared_object = \<lparr>ob_shape = 0, ob_prop = [], ob_class_id = 0, ob_u = U_other\<rparr>"

definition free_object :: "js_class_table \<Rightarrow> gc_state \<Rightarrow> obj \<Rightarrow> js_object \<Rightarrow> gc_state option" where
  "free_object classes st p ob =
     (case objects st (ob_shape ob) of
        Some (SHAPE sh) \<Rightarrow> do {
          rs \<leftarrow> free_properties (sh_prop sh) (ob_prop ob);
          st \<leftarrow> free_refs rs st;
          st \<leftarrow> js_free_shape st (ob_shape ob);
          fs \<leftarrow> finalizer_refs classes (objects st) ob;
          st \<leftarrow> free_refs fs st;
          Some (free_header (st\<lparr>objects := (objects st)(p \<mapsto> JS_OBJECT cleared_object)\<rparr>) p) }
      | _ \<Rightarrow> None)"

definition free_function_bytecode :: "gc_state \<Rightarrow> obj \<Rightarrow> js_bytecode \<Rightarrow> gc_state option" where
  "free_function_bytecode st p b = do {
     st \<leftarrow> free_refs (free_ic (bf_ic b)) st;
     st \<leftarrow> free_refs (value_refs (bf_cpool b)) st;
     st \<leftarrow> free_refs (map Context_ref (mark_pointer (bf_realm b))) st;
     Some (free_header st p) }"

definition free_gc_object :: "js_class_table \<Rightarrow> gc_state \<Rightarrow> obj \<Rightarrow> gc_state option" where
  "free_gc_object classes st p =
     (case objects st p of
        Some (JS_OBJECT ob) \<Rightarrow> free_object classes st p ob
      | Some (FUNCTION_BYTECODE b) \<Rightarrow> free_function_bytecode st p b
      | _ \<Rightarrow> None)"

partial_function (option) free_zero_loop :: "js_class_table \<Rightarrow> gc_state \<Rightarrow> gc_state option" where
  "free_zero_loop classes st =
     (case zero_list st of
        [] \<Rightarrow> Some st
      | p # ps \<Rightarrow>
          if ref_count st p = 0 then do {
            st \<leftarrow> free_gc_object classes st p;
            free_zero_loop classes st }
          else None)"

definition free_zero_refcount :: "js_class_table \<Rightarrow> gc_state \<Rightarrow> gc_state option" where
  "free_zero_refcount classes st = do {
     st \<leftarrow> free_zero_loop classes (st\<lparr>gc_phase := JS_GC_PHASE_DECREF\<rparr>);
     Some (st\<lparr>gc_phase := JS_GC_PHASE_NONE\<rparr>) }"

text \<open>\<open>JS_FreeValueRT\<close> as the rest of the engine calls it, outside the collector.\<close>

definition JS_FreeValueRT :: "js_class_table \<Rightarrow> gc_state \<Rightarrow> js_value \<Rightarrow> gc_state option" where
  "JS_FreeValueRT classes st val =
     (case JS_MarkValue val of
        [] \<Rightarrow> Some st
      | p # ps \<Rightarrow> do {
          st \<leftarrow> free_value st p;
          if ref_count st p \<le> 0 \<and> gc_phase st = JS_GC_PHASE_NONE then free_zero_refcount classes st else Some st })"

subsection \<open>The collector\<close>

partial_function (option) gc_free_loop :: "js_class_table \<Rightarrow> gc_state \<Rightarrow> gc_state option" where
  "gc_free_loop classes st =
     (case tmp_obj_list st of
        [] \<Rightarrow> Some st
      | p # ps \<Rightarrow> do {
          st \<leftarrow> (if objects st p = None then None
                  else if is_value_object (objects st p) then free_gc_object classes st p
                  else let st = remove_gc_object st p in Some (st\<lparr>zero_list := zero_list st @ [p]\<rparr>));
          gc_free_loop classes st })"

primrec free_zombies :: "obj list \<Rightarrow> gc_state \<Rightarrow> gc_state option" where
  "free_zombies [] st = Some st"
| "free_zombies (p # ps) st =
     (if is_value_object (objects st p) then free_zombies ps (free_memory st p) else None)"

definition gc_free_cycles :: "js_class_table \<Rightarrow> gc_state \<Rightarrow> gc_state option" where
  "gc_free_cycles classes st = do {
     st \<leftarrow> gc_free_loop classes (st\<lparr>gc_phase := JS_GC_PHASE_REMOVE_CYCLES\<rparr>);
     let st = st\<lparr>gc_phase := JS_GC_PHASE_NONE\<rparr>;
     st \<leftarrow> free_zombies (zero_list st) st;
     Some (st\<lparr>zero_list := []\<rparr>) }"

definition with_runtime :: "gc_state \<Rightarrow> gc_runtime \<Rightarrow> gc_state" where
  "with_runtime st rt =
     st\<lparr>ref_count := ref_count rt, gc_marked := gc_marked rt, gc_obj_list := gc_obj_list rt, tmp_obj_list := tmp_obj_list rt\<rparr>"

definition JS_RunGC :: "js_class_table \<Rightarrow> gc_state \<Rightarrow> gc_state option" where
  "JS_RunGC classes st = do {
     rt \<leftarrow> gc_decref (\<lambda>c. snd (classes c)) (objects st) (gc_runtime.truncate st);
     rt \<leftarrow> gc_scan (\<lambda>c. snd (classes c)) (objects st) rt;
     gc_free_cycles classes (with_runtime st rt) }"

subsection \<open>Owned references\<close>

definition owned :: "js_class_table \<Rightarrow> gc_heap \<Rightarrow> obj \<Rightarrow> owned_ref list option" where
  "owned classes H p =
     (case H p of
        Some (JS_OBJECT ob) \<Rightarrow>
          (case H (ob_shape ob) of
             Some (SHAPE sh) \<Rightarrow> do {
               rs \<leftarrow> free_properties (sh_prop sh) (ob_prop ob);
               fs \<leftarrow> finalizer_refs classes H ob;
               Some (rs @ Shape_ref (ob_shape ob) # fs) }
           | _ \<Rightarrow> None)
      | Some (FUNCTION_BYTECODE b) \<Rightarrow>
          Some (free_ic (bf_ic b) @ value_refs (bf_cpool b) @ map Context_ref (mark_pointer (bf_realm b)))
      | Some (SHAPE sh) \<Rightarrow> Some (map Value_ref (mark_pointer (sh_proto sh)))
      | Some (VAR_REF r) \<Rightarrow> if vr_is_detached r then Some (value_refs [vr_pvalue r]) else None
      | Some (JS_CONTEXT ctx) \<Rightarrow> Some (map Kept_ref (JS_MarkContext ctx))
      | _ \<Rightarrow> None)"

definition targets :: "js_class_table \<Rightarrow> gc_heap \<Rightarrow> obj \<Rightarrow> obj list" where
  "targets classes H p = (case owned classes H p of None \<Rightarrow> [] | Some rs \<Rightarrow> map ref_target rs)"

subsection \<open>What an object marks is what it owns\<close>

text \<open>A deleted property owns nothing.\<close>

fun tidy_properties :: "(u32 \<times> u32) list \<Rightarrow> js_property list \<Rightarrow> bool" where
  "tidy_properties ((flags, atom) # sps) (pr # prs) \<longleftrightarrow>
     (atom = JS_ATOM_NULL \<longrightarrow> free_property flags pr = Some []) \<and> tidy_properties sps prs"
| "tidy_properties _ _ = True"

definition tidy :: "gc_heap \<Rightarrow> obj \<Rightarrow> bool" where
  "tidy H p = (case H p of
     Some (JS_OBJECT ob) \<Rightarrow>
       (case H (ob_shape ob) of Some (SHAPE sh) \<Rightarrow> tidy_properties (sh_prop sh) (ob_prop ob) | _ \<Rightarrow> True)
   | _ \<Rightarrow> True)"

lemma mark_property_owned:
  assumes "free_property flags pr = Some rs" "\<And>r. r \<in> set rs \<Longrightarrow> ref_typed H r" "atom = JS_ATOM_NULL \<Longrightarrow> rs = []"
  shows "mark_property H flags atom pr = Some (map ref_target rs)"
  using assms var_ref_detachedI [of H]
  by (cases pr) (auto simp: free_property_def mark_property_def mark_values_single split: if_splits)

lemma mark_properties_owned:
  "free_properties sps prs = Some rs \<Longrightarrow> (\<And>r. r \<in> set rs \<Longrightarrow> ref_typed H r) \<Longrightarrow> tidy_properties sps prs \<Longrightarrow>
    mark_properties H sps prs = Some (map ref_target rs)"
proof (induction sps prs arbitrary: rs rule: free_properties.induct)
  case (3 flags atom sps pr prs)
  then obtain xs ys where xs: "free_property flags pr = Some xs" "free_properties sps prs = Some ys" "rs = xs @ ys"
    by (auto split: bind_splits)
  have "mark_property H flags atom pr = Some (map ref_target xs)"
    using xs(3) 3(3,4) by (intro mark_property_owned [OF xs(1)]) (auto simp: xs(1))
  moreover have "mark_properties H sps prs = Some (map ref_target ys)"
    using 3 xs by auto
  ultimately show ?case using xs(3) by simp
qed auto

lemma mark_ic_owned:
  "map ref_target (free_ic ic) =
    (case ic of None \<Rightarrow> [] | Some ic \<Rightarrow> concat (map (\<lambda>shapes. concat (map mark_pointer shapes)) ic))"
  by (cases ic) (simp_all add: free_ic_def)

lemma free_property_releasable: "free_property flags pr = Some rs \<Longrightarrow> r \<in> set rs \<Longrightarrow> releasable r"
  by (cases pr) (auto simp: free_property_def split: if_splits)

lemma free_properties_releasable: "free_properties sps prs = Some rs \<Longrightarrow> r \<in> set rs \<Longrightarrow> releasable r"
  by (induction sps prs arbitrary: rs rule: free_properties.induct)
    (auto split: bind_splits dest: free_property_releasable)

context class_laws begin

lemma mark_children_owned:
  assumes own: "owned classes H p = Some rs" and typed: "\<And>r. r \<in> set rs \<Longrightarrow> ref_typed H r" and "tidy H p"
  shows "\<exists>ms. mark_children (\<lambda>c. snd (classes c)) H p = Some ms \<and> mset ms = mset (map ref_target rs)"
proof (cases "H p")
  case (Some x)
  show ?thesis
  proof (cases x)
    case (JS_OBJECT ob)
    then obtain sh ps fs where sh: "H (ob_shape ob) = Some (SHAPE sh)" "free_properties (sh_prop sh) (ob_prop ob) = Some ps"
      "finalizer_refs classes H ob = Some fs" "rs = ps @ Shape_ref (ob_shape ob) # fs"
      using own Some by (auto simp: owned_def split: option.splits gc_object.splits bind_splits)
    have "tidy_properties (sh_prop sh) (ob_prop ob)" using assms(3) Some JS_OBJECT sh(1) by (simp add: tidy_def)
    then have ms: "mark_properties H (sh_prop sh) (ob_prop ob) = Some (map ref_target ps)"
      using mark_properties_owned [OF sh(2), of H] typed sh(4) by auto
    obtain ys where ys: "(case snd (classes (ob_class_id ob)) of None \<Rightarrow> Some [] | Some gc_mark \<Rightarrow> gc_mark H ob) = Some ys"
      "mset ys = mset (map ref_target fs)"
      using fin_marks [OF sh(3)] typed sh(4) by auto
    have "(if ob_class_id ob = 1 then Some []
           else case snd (classes (ob_class_id ob)) of None \<Rightarrow> Some [] | Some gc_mark \<Rightarrow> gc_mark H ob) = Some ys"
      using ys plain by auto
    with Some JS_OBJECT sh ms ys(2) show ?thesis by (simp add: mark_children_def)
  qed (use own Some in \<open>auto simp: owned_def mark_children_def mark_ic_owned mark_values_single simp del: mset_map split: if_splits\<close>)
qed (use own in \<open>simp add: owned_def\<close>)

lemma owned_releasable:
  "owned classes H p = Some rs \<Longrightarrow> \<not> is_context (H p) \<Longrightarrow> r \<in> set rs \<Longrightarrow> releasable r"
  using free_properties_releasable fin_releasable
  by (auto simp: owned_def free_ic_def split: option.splits gc_object.splits bind_splits if_splits)

lemma owned_cong:
  assumes "owned classes H p = Some rs" "\<And>r. r \<in> set rs \<Longrightarrow> ref_typed H r" "H' p = H p"
    and same: "\<And>r. r \<in> set rs \<Longrightarrow> same_kind (H (ref_target r)) (H' (ref_target r))"
  shows "owned classes H' p = Some rs"
proof (cases "H p")
  case (Some x)
  show ?thesis
  proof (cases x)
    case (JS_OBJECT ob)
    then obtain sh ps fs where sh: "H (ob_shape ob) = Some (SHAPE sh)" "free_properties (sh_prop sh) (ob_prop ob) = Some ps"
      "finalizer_refs classes H ob = Some fs" "rs = ps @ Shape_ref (ob_shape ob) # fs"
      using assms(1) Some by (auto simp: owned_def split: option.splits gc_object.splits bind_splits)
    have "H' (ob_shape ob) = Some (SHAPE sh)" using same [of "Shape_ref (ob_shape ob)"] sh(1,4) by (auto simp: same_kind_def)
    moreover have "finalizer_refs classes H' ob = Some fs" using fin_local [OF sh(3)] same sh(4) by simp
    ultimately show ?thesis using Some JS_OBJECT sh assms(3) by (simp add: owned_def)
  qed (use assms(1,3) Some in \<open>simp_all add: owned_def\<close>)
qed (use assms(1) in \<open>simp add: owned_def\<close>)

end

subsection \<open>Counting\<close>

definition incoming :: "js_class_table \<Rightarrow> gc_heap \<Rightarrow> obj set \<Rightarrow> obj \<Rightarrow> int" where
  "incoming classes H S q = (\<Sum>p \<in> S. int (count_list (targets classes H p) q))"

text \<open>
  The reference counts while references are being released: \<open>S\<close> are the live objects, \<open>Z\<close> those
  whose references have been released but whose memory is still there, \<open>pend\<close> the references still
  to be released, \<open>ext\<close> the references from outside the heap.
\<close>

definition graph_inv ::
    "js_class_table \<Rightarrow> (obj \<Rightarrow> int) \<Rightarrow> obj set \<Rightarrow> obj set \<Rightarrow> owned_ref list \<Rightarrow> gc_heap \<Rightarrow> (obj \<Rightarrow> int) \<Rightarrow> bool" where
  "graph_inv classes ext S Z pend H rc \<longleftrightarrow>
     finite S \<and> finite Z \<and> S \<inter> Z = {} \<and>
     (\<forall>p \<in> Z. is_value_object (H p)) \<and>
     (\<forall>p \<in> S. \<exists>rs. owned classes H p = Some rs \<and> (\<forall>r \<in> set rs. ref_typed H r \<and> ref_target r \<in> S \<union> Z)) \<and>
     (\<forall>r \<in> set pend. ref_typed H r \<and> releasable r \<and> ref_target r \<in> S \<union> Z) \<and>
     (\<forall>q \<in> S \<union> Z. rc q = ext q + incoming classes H S q + int (count_list (map ref_target pend) q)) \<and>
     (\<forall>q. 0 \<le> ext q) \<and> (\<forall>q. q \<notin> S \<union> Z \<longrightarrow> ext q = 0) \<and> (\<forall>p \<in> S. is_context (H p) \<longrightarrow> 0 < ext p) \<and>
     (\<forall>p \<in> S. \<not> is_value_object (H p) \<longrightarrow> 0 < rc p)"

lemma graph_invD:
  assumes "graph_inv classes ext S Z pend H rc"
  shows "finite S" "finite Z" "S \<inter> Z = {}" "p \<in> Z \<Longrightarrow> is_value_object (H p)"
    "p \<in> S \<Longrightarrow> \<exists>rs. owned classes H p = Some rs \<and> (\<forall>r \<in> set rs. ref_typed H r \<and> ref_target r \<in> S \<union> Z)"
    "r \<in> set pend \<Longrightarrow> ref_typed H r \<and> releasable r \<and> ref_target r \<in> S \<union> Z"
    "q \<in> S \<union> Z \<Longrightarrow> rc q = ext q + incoming classes H S q + int (count_list (map ref_target pend) q)"
    "0 \<le> ext q" "p \<in> S \<Longrightarrow> is_context (H p) \<Longrightarrow> 0 < ext p" "p \<in> S \<Longrightarrow> \<not> is_value_object (H p) \<Longrightarrow> 0 < rc p"
    "q \<notin> S \<union> Z \<Longrightarrow> ext q = 0"
  using assms unfolding graph_inv_def by blast+

lemma incoming_nonneg [simp]: "0 \<le> incoming classes H S q"
  by (simp add: incoming_def sum_nonneg)

lemma incoming_remove:
  assumes "finite S" "p \<in> S"
  shows "incoming classes H S q = incoming classes H (S - {p}) q + int (count_list (targets classes H p) q)"
  using sum.remove [OF assms, of "\<lambda>p. int (count_list (targets classes H p) q)"] by (simp add: incoming_def)

lemma incoming_zero:
  assumes "finite S" "p \<in> S" "incoming classes H S q = 0"
  shows "q \<notin> set (targets classes H p)"
proof -
  have "count_list (targets classes H p) q = 0"
    using incoming_remove [OF assms(1,2), of classes H q] assms(3) incoming_nonneg [of classes H "S - {p}" q] by linarith
  then show ?thesis by (simp add: count_list_0_iff)
qed

lemma targets_owned: "owned classes H p = Some rs \<Longrightarrow> targets classes H p = map ref_target rs"
  by (simp add: targets_def)

lemma graph_inv_drop:
  assumes inv: "graph_inv classes ext S Z (r # rs) H rc"
    and pos: "\<not> is_value_object (H (ref_target r)) \<Longrightarrow> 1 < rc (ref_target r)"
  shows "graph_inv classes ext S Z rs H (rc(ref_target r := rc (ref_target r) - 1))"
  unfolding graph_inv_def
proof (intro conjI)
  show "\<forall>q \<in> S \<union> Z. (rc(ref_target r := rc (ref_target r) - 1)) q =
      ext q + incoming classes H S q + int (count_list (map ref_target rs) q)"
    using graph_invD(7) [OF inv] by auto
  show "\<forall>p \<in> S. \<not> is_value_object (H p) \<longrightarrow> 0 < (rc(ref_target r := rc (ref_target r) - 1)) p"
    using graph_invD(10) [OF inv] pos by auto
qed (use inv in \<open>simp_all add: graph_inv_def\<close>)

lemma graph_inv_die:
  assumes inv: "graph_inv classes ext S Z (r # rs) H rc" and c: "ref_target r = c" "c \<in> S" "rc c = 1"
    and own: "owned classes H c = Some os" and rel: "\<And>r. r \<in> set os \<Longrightarrow> releasable r"
    and rc': "\<And>q. q \<noteq> c \<Longrightarrow> rc' q = rc q"
  shows "graph_inv classes ext (S - {c}) Z (os @ rs) H rc'"
proof -
  have fin: "finite S" using graph_invD(1) [OF inv] .
  have "rc c = ext c + incoming classes H S c + 1 + int (count_list (map ref_target rs) c)"
    using graph_invD(7) [OF inv, of c] c by simp
  then have zero: "incoming classes H S c = 0" "count_list (map ref_target rs) c = 0" "ext c = 0"
    using c(3) graph_invD(8) [OF inv, of c] incoming_nonneg [of classes H S c] by linarith+
  have out: "c \<notin> set (targets classes H p)" if "p \<in> S" for p by (rule incoming_zero [OF fin that zero(1)])
  have rs: "c \<notin> ref_target ` set rs" using zero(2) by (simp add: count_list_0_iff)
  show ?thesis
    unfolding graph_inv_def
  proof (intro conjI)
    show "\<forall>p \<in> S - {c}. \<exists>rs. owned classes H p = Some rs \<and> (\<forall>r \<in> set rs. ref_typed H r \<and> ref_target r \<in> S - {c} \<union> Z)"
    proof
      fix p assume p: "p \<in> S - {c}"
      then obtain rs where own: "owned classes H p = Some rs" "\<forall>r \<in> set rs. ref_typed H r \<and> ref_target r \<in> S \<union> Z"
        using graph_invD(5) [OF inv] by blast
      have "c \<notin> ref_target ` set rs" using out [of p] p targets_owned [OF own(1)] by simp
      with own show "\<exists>rs. owned classes H p = Some rs \<and> (\<forall>r \<in> set rs. ref_typed H r \<and> ref_target r \<in> S - {c} \<union> Z)"
        by (intro exI [of _ rs]) auto
    qed
    have "c \<notin> ref_target ` set os" using out [OF c(2)] targets_owned [OF own] by simp
    moreover have "\<forall>r \<in> set os. ref_typed H r \<and> ref_target r \<in> S \<union> Z"
      using graph_invD(5) [OF inv c(2)] own by auto
    moreover have "\<forall>r \<in> set rs. ref_typed H r \<and> releasable r \<and> ref_target r \<in> S \<union> Z"
      using graph_invD(6) [OF inv] by auto
    ultimately show "\<forall>r \<in> set (os @ rs). ref_typed H r \<and> releasable r \<and> ref_target r \<in> S - {c} \<union> Z"
      using rs rel by auto
    show "\<forall>q \<in> S - {c} \<union> Z. rc' q = ext q + incoming classes H (S - {c}) q + int (count_list (map ref_target (os @ rs)) q)"
    proof
      fix q assume q: "q \<in> S - {c} \<union> Z"
      then have "q \<noteq> c" using c(2) graph_invD(3) [OF inv] by auto
      with q rc' graph_invD(7) [OF inv, of q] incoming_remove [OF fin c(2), of classes H q] c(1)
      show "rc' q = ext q + incoming classes H (S - {c}) q + int (count_list (map ref_target (os @ rs)) q)"
        by (simp add: targets_owned [OF own])
    qed
    show "\<forall>p \<in> S - {c}. \<not> is_value_object (H p) \<longrightarrow> 0 < rc' p"
      using graph_invD(10) [OF inv] rc' by auto
    show "\<forall>q. q \<notin> S - {c} \<union> Z \<longrightarrow> ext q = 0"
      using graph_invD(11) [OF inv] zero(3) by auto
  qed (use inv in \<open>auto simp: graph_inv_def\<close>)
qed

lemma graph_inv_dying:
  assumes inv: "graph_inv classes ext S Z pend H rc" and p: "p \<in> S" "is_value_object (H p)"
    and own: "owned classes H p = Some os" and rel: "\<And>r. r \<in> set os \<Longrightarrow> releasable r"
  shows "graph_inv classes ext (S - {p}) (insert p Z) (os @ pend) H rc"
proof -
  have sets: "S - {p} \<union> insert p Z = S \<union> Z" using p(1) by auto
  show ?thesis
    unfolding graph_inv_def sets
  proof (intro conjI)
    show "\<forall>q \<in> S \<union> Z. rc q = ext q + incoming classes H (S - {p}) q + int (count_list (map ref_target (os @ pend)) q)"
      using graph_invD(7) [OF inv] incoming_remove [OF graph_invD(1) [OF inv] p(1), of classes H]
      by (simp add: targets_owned [OF own])
    have "\<forall>r \<in> set os. ref_typed H r \<and> ref_target r \<in> S \<union> Z" using graph_invD(5) [OF inv p(1)] own by auto
    then show "\<forall>r \<in> set (os @ pend). ref_typed H r \<and> releasable r \<and> ref_target r \<in> S \<union> Z"
      using graph_invD(6) [OF inv] rel by auto
  qed (use inv p(2) in \<open>auto simp: graph_inv_def\<close>)
qed

lemma graph_inv_forget:
  assumes inv: "graph_inv classes ext S Z [] H rc" and p: "p \<in> Z" "rc p = 0"
  shows "graph_inv classes ext S (Z - {p}) [] H rc"
proof -
  have "ext p + incoming classes H S p = 0" using graph_invD(7) [OF inv, of p] p by simp
  then have zero: "incoming classes H S p = 0" "ext p = 0"
    using graph_invD(8) [OF inv, of p] incoming_nonneg [of classes H S p] by linarith+
  have out: "p \<notin> set (targets classes H q)" if "q \<in> S" for q by (rule incoming_zero [OF graph_invD(1) [OF inv] that zero(1)])
  show ?thesis
    unfolding graph_inv_def
  proof (intro conjI)
    show "\<forall>q. q \<notin> S \<union> (Z - {p}) \<longrightarrow> ext q = 0"
      using graph_invD(11) [OF inv] zero(2) by auto
    show "\<forall>q \<in> S. \<exists>rs. owned classes H q = Some rs \<and> (\<forall>r \<in> set rs. ref_typed H r \<and> ref_target r \<in> S \<union> (Z - {p}))"
    proof
      fix q assume q: "q \<in> S"
      then obtain rs where own: "owned classes H q = Some rs" "\<forall>r \<in> set rs. ref_typed H r \<and> ref_target r \<in> S \<union> Z"
        using graph_invD(5) [OF inv] by blast
      have "p \<notin> ref_target ` set rs" using out [OF q] targets_owned [OF own(1)] by simp
      with own show "\<exists>rs. owned classes H q = Some rs \<and> (\<forall>r \<in> set rs. ref_typed H r \<and> ref_target r \<in> S \<union> (Z - {p}))"
        by (intro exI [of _ rs]) auto
    qed
  qed (use inv in \<open>auto simp: graph_inv_def\<close>)
qed

lemma ref_typed_cong: "same_kind (H (ref_target r)) (H' (ref_target r)) \<Longrightarrow> ref_typed H r = ref_typed H' r"
  by (cases r) (simp_all add: same_kind_simps)

context class_laws begin

lemma graph_inv_heap:
  assumes inv: "graph_inv classes ext S Z pend H rc" and live: "\<And>q. q \<in> S \<Longrightarrow> H' q = H q"
    and dead: "\<And>q. q \<in> Z \<Longrightarrow> same_kind (H q) (H' q)" and rc: "\<And>q. q \<in> S \<union> Z \<Longrightarrow> rc' q = rc q"
  shows "graph_inv classes ext S Z pend H' rc'"
    "\<And>p. p \<in> S \<Longrightarrow> owned classes H' p = owned classes H p"
proof -
  have same: "same_kind (H q) (H' q)" if "q \<in> S \<union> Z" for q using that live dead by auto
  have typed: "ref_typed H' r" if "ref_target r \<in> S \<union> Z" "ref_typed H r" for r
    using ref_typed_cong [of H r H'] same [OF that(1)] that(2) by simp
  have own: "owned classes H' p = Some rs \<and> (\<forall>r \<in> set rs. ref_typed H' r \<and> ref_target r \<in> S \<union> Z)"
    if "p \<in> S" "owned classes H p = Some rs" for p rs
  proof -
    have t: "\<forall>r \<in> set rs. ref_typed H r \<and> ref_target r \<in> S \<union> Z"
      using graph_invD(5) [OF inv that(1)] that(2) by auto
    have "owned classes H' p = Some rs"
    proof (rule owned_cong [OF that(2)])
      show "ref_typed H r" "same_kind (H (ref_target r)) (H' (ref_target r))" if "r \<in> set rs" for r
        using t same that by blast+
    qed (rule live [OF that(1)])
    with t typed show ?thesis by blast
  qed
  have own_eq: "owned classes H' p = owned classes H p" if p: "p \<in> S" for p
  proof -
    obtain rs where rs: "owned classes H p = Some rs" using graph_invD(5) [OF inv p] by blast
    with own [OF p rs] show ?thesis by simp
  qed
  then show "owned classes H' p = owned classes H p" if "p \<in> S" for p using that .
  have inc: "incoming classes H' S q = incoming classes H S q" for q
    unfolding incoming_def by (intro sum.cong refl) (simp add: targets_def own_eq)
  show "graph_inv classes ext S Z pend H' rc'"
    unfolding graph_inv_def
  proof (intro conjI)
    show "\<forall>p \<in> S. \<exists>rs. owned classes H' p = Some rs \<and> (\<forall>r \<in> set rs. ref_typed H' r \<and> ref_target r \<in> S \<union> Z)"
    proof
      fix p assume p: "p \<in> S"
      obtain rs where rs: "owned classes H p = Some rs" using graph_invD(5) [OF inv p] by blast
      show "\<exists>rs. owned classes H' p = Some rs \<and> (\<forall>r \<in> set rs. ref_typed H' r \<and> ref_target r \<in> S \<union> Z)"
        using own [OF p rs] ..
    qed
    show "\<forall>r \<in> set pend. ref_typed H' r \<and> releasable r \<and> ref_target r \<in> S \<union> Z"
      using graph_invD(6) [OF inv] typed by simp
    show "\<forall>q \<in> S \<union> Z. rc' q = ext q + incoming classes H' S q + int (count_list (map ref_target pend) q)"
      using graph_invD(7) [OF inv] rc inc by simp
    show "\<forall>p \<in> Z. is_value_object (H' p)"
      using graph_invD(4) [OF inv] same_kind_simps(1) [OF dead] by simp
    show "\<forall>p \<in> S. is_context (H' p) \<longrightarrow> 0 < ext p"
      using graph_invD(9) [OF inv] live by simp
    show "\<forall>p \<in> S. \<not> is_value_object (H' p) \<longrightarrow> 0 < rc' p"
      using graph_invD(10) [OF inv] live rc by simp
  qed (use inv in \<open>simp_all add: graph_inv_def\<close>)
qed

end

subsection \<open>Releasing references keeps the invariant\<close>

text \<open>
  \<open>A\<close> are the objects in the three lists.  In the phase \<open>DECREF\<close> the queue holds the objects
  without references; in the phase \<open>REMOVE_CYCLES\<close> the objects \<open>K\<close> of \<open>gc_obj_list\<close> stay.
\<close>

definition list_inv :: "js_class_table \<Rightarrow> obj set \<Rightarrow> (obj \<Rightarrow> int) \<Rightarrow> obj set \<Rightarrow> obj set \<Rightarrow> obj set \<Rightarrow> gc_state \<Rightarrow> bool" where
  "list_inv classes K ext A S Z st \<longleftrightarrow>
     distinct (gc_obj_list st @ tmp_obj_list st @ zero_list st) \<and>
     set (gc_obj_list st @ tmp_obj_list st @ zero_list st) = A \<and> S \<union> Z \<subseteq> A \<and>
     (case gc_phase st of
        JS_GC_PHASE_NONE \<Rightarrow> False
      | JS_GC_PHASE_DECREF \<Rightarrow>
          tmp_obj_list st = [] \<and> (\<forall>q \<in> S. q \<in> set (zero_list st) \<longleftrightarrow> ref_count st q \<le> 0) \<and>
          Z \<subseteq> set (zero_list st) \<and> (\<forall>z \<in> Z. ref_count st z = 0)
      | JS_GC_PHASE_REMOVE_CYCLES \<Rightarrow>
          set (gc_obj_list st) = K \<and> K \<subseteq> S \<and> (\<forall>q \<in> K. 0 < ext q + incoming classes (objects st) K q))"

definition free_inv :: "js_class_table \<Rightarrow> obj set \<Rightarrow> (obj \<Rightarrow> int) \<Rightarrow> obj set \<Rightarrow> obj set \<Rightarrow> obj set \<Rightarrow> owned_ref list \<Rightarrow> gc_state \<Rightarrow> bool" where
  "free_inv classes K ext A S Z pend st \<longleftrightarrow>
     graph_inv classes ext S Z pend (objects st) (ref_count st) \<and> list_inv classes K ext A S Z st"

lemma state_simps [simp]:
  "objects (add_ref_count st p d) = objects st" "gc_phase (add_ref_count st p d) = gc_phase st"
  "gc_obj_list (add_ref_count st p d) = gc_obj_list st" "tmp_obj_list (add_ref_count st p d) = tmp_obj_list st"
  "zero_list (add_ref_count st p d) = zero_list st" "gc_marked (add_ref_count st p d) = gc_marked st"
  "ref_count (add_ref_count st p d) = (ref_count st)(p := ref_count st p + d)"
  "objects (remove_gc_object st p) = objects st" "gc_phase (remove_gc_object st p) = gc_phase st"
  "ref_count (remove_gc_object st p) = ref_count st" "gc_marked (remove_gc_object st p) = gc_marked st"
  "gc_obj_list (remove_gc_object st p) = remove1 p (gc_obj_list st)"
  "tmp_obj_list (remove_gc_object st p) = remove1 p (tmp_obj_list st)"
  "zero_list (remove_gc_object st p) = remove1 p (zero_list st)"
  "objects (free_memory st p) = (objects st)(p := None)" "gc_phase (free_memory st p) = gc_phase st"
  "ref_count (free_memory st p) = ref_count st" "gc_marked (free_memory st p) = gc_marked st"
  "gc_obj_list (free_memory st p) = gc_obj_list st"
  "tmp_obj_list (free_memory st p) = tmp_obj_list st" "zero_list (free_memory st p) = zero_list st"
  by (simp_all add: add_ref_count_def remove_gc_object_def free_memory_def)

lemma incoming_mono: "finite S \<Longrightarrow> K \<subseteq> S \<Longrightarrow> incoming classes H K q \<le> incoming classes H S q"
  unfolding incoming_def by (rule sum_mono2) auto

text \<open>A kept object never loses its last reference.\<close>

lemma kept_not_last:
  assumes inv: "free_inv classes K ext A S Z (r # rs) st" and k: "gc_phase st = JS_GC_PHASE_REMOVE_CYCLES" "ref_target r \<in> K"
  shows "1 < ref_count st (ref_target r)"
proof -
  have g: "graph_inv classes ext S Z (r # rs) (objects st) (ref_count st)" and "K \<subseteq> S"
    and pos: "0 < ext (ref_target r) + incoming classes (objects st) K (ref_target r)"
    using inv k by (auto simp: free_inv_def list_inv_def)
  have "incoming classes (objects st) K (ref_target r) \<le> incoming classes (objects st) S (ref_target r)"
    by (rule incoming_mono [OF graph_invD(1) [OF g] \<open>K \<subseteq> S\<close>])
  moreover have "ref_count st (ref_target r) = ext (ref_target r) + incoming classes (objects st) S (ref_target r) + 1 +
      int (count_list (map ref_target rs) (ref_target r))"
    using graph_invD(7) [OF g, of "ref_target r"] k(2) \<open>K \<subseteq> S\<close> by auto
  ultimately show ?thesis using pos by linarith
qed

lemma remove1_lists:
  assumes "distinct (xs @ ys @ zs)"
  shows "distinct (remove1 c xs @ remove1 c ys @ remove1 c zs)"
    "set (remove1 c xs @ remove1 c ys @ remove1 c zs) = set (xs @ ys @ zs) - {c}"
  using assms by (auto simp: distinct_remove1 dest: notin_set_remove1)

lemma free_value_inv:
  assumes inv: "free_inv classes K ext A S Z (r # rs) st" and val: "is_value_object (objects st (ref_target r))"
  shows "\<exists>st'. free_value st (ref_target r) = Some st' \<and> free_inv classes K ext A S Z rs st' \<and>
    objects st' = objects st \<and> gc_phase st' = gc_phase st \<and> gc_marked st' = gc_marked st \<and>
    (gc_phase st = JS_GC_PHASE_REMOVE_CYCLES \<longrightarrow> zero_list st' = zero_list st)"
proof -
  let ?c = "ref_target r" and ?st = "add_ref_count st (ref_target r) (- 1)"
  have g: "graph_inv classes ext S Z (r # rs) (objects st) (ref_count st)" and l: "list_inv classes K ext A S Z st"
    using inv by (simp_all add: free_inv_def)
  have g': "graph_inv classes ext S Z rs (objects st) ((ref_count st)(?c := ref_count st ?c - 1))"
    by (rule graph_inv_drop [OF g]) (use val in simp)
  have c: "?c \<in> S \<union> Z" using graph_invD(6) [OF g, of r] by simp
  have one: "1 \<le> ref_count st ?c"
    using graph_invD(7) [OF g c] graph_invD(8) [OF g, of ?c] incoming_nonneg [of classes "objects st" S ?c] by simp
  show ?thesis
  proof (cases "gc_phase st = JS_GC_PHASE_DECREF \<and> ref_count st ?c = 1")
    case True
    then have sets: "tmp_obj_list st = []" "\<forall>q \<in> S. q \<in> set (zero_list st) \<longleftrightarrow> ref_count st q \<le> 0" "Z \<subseteq> set (zero_list st)"
      "\<forall>z \<in> Z. ref_count st z = 0" "distinct (gc_obj_list st @ zero_list st)" "set (gc_obj_list st @ zero_list st) = A" "S \<union> Z \<subseteq> A"
      using l by (auto simp: list_inv_def)
    have cS: "?c \<in> S" "?c \<notin> Z" using c True sets(4) by auto
    then have cz: "?c \<notin> set (zero_list st)" using sets(2) True by auto
    let ?st' = "(remove_gc_object ?st ?c)\<lparr>zero_list := ?c # remove1 ?c (zero_list st)\<rparr>"
    have run: "free_value st ?c = Some ?st'" using val True by (simp add: free_value_def js_free_value_rt_def Let_def)
    have "list_inv classes K ext A S Z ?st'"
      using sets cS cz True by (auto simp: list_inv_def remove1_idem distinct_remove1)
    with g' run True show ?thesis by (simp add: free_inv_def)
  next
    case False
    have run: "free_value st ?c = Some ?st"
    proof (cases "gc_phase st = JS_GC_PHASE_DECREF")
      case True
      with False one have "1 < ref_count st ?c" by simp
      with val show ?thesis by (simp add: free_value_def Let_def)
    next
      case False
      then have "gc_phase st = JS_GC_PHASE_REMOVE_CYCLES" using l by (cases "gc_phase st") (auto simp: list_inv_def)
      with val show ?thesis by (simp add: free_value_def js_free_value_rt_def Let_def)
    qed
    have "list_inv classes K ext A S Z ?st"
      using l one False by (cases "gc_phase st") (auto simp: list_inv_def)
    with g' run show ?thesis by (simp add: free_inv_def)
  qed
qed

lemma free_values_inv:
  "free_inv classes K ext A S Z (map Value_ref ps @ rs) st \<Longrightarrow>
    \<exists>st'. free_refs (map Value_ref ps) st = Some st' \<and> free_inv classes K ext A S Z rs st' \<and>
      objects st' = objects st \<and> gc_phase st' = gc_phase st \<and> gc_marked st' = gc_marked st \<and>
      (gc_phase st = JS_GC_PHASE_REMOVE_CYCLES \<longrightarrow> zero_list st' = zero_list st)"
proof (induction ps arbitrary: st)
  case (Cons p ps)
  have "is_value_object (objects st p)"
    using graph_invD(6) [of classes ext S Z "map Value_ref (p # ps) @ rs" "objects st" "ref_count st" "Value_ref p"] Cons.prems
    by (simp add: free_inv_def)
  then obtain st1 where st1: "free_value st p = Some st1" "free_inv classes K ext A S Z (map Value_ref ps @ rs) st1"
    "objects st1 = objects st" "gc_phase st1 = gc_phase st" "gc_marked st1 = gc_marked st"
    "gc_phase st = JS_GC_PHASE_REMOVE_CYCLES \<longrightarrow> zero_list st1 = zero_list st"
    using free_value_inv [of classes K ext A S Z "Value_ref p" "map Value_ref ps @ rs" st] Cons.prems by auto
  then show ?case using Cons.IH [OF st1(2)] by auto
qed simp

lemma incoming_cong: "(\<And>p. p \<in> K \<Longrightarrow> owned classes H' p = owned classes H p) \<Longrightarrow> incoming classes H' K q = incoming classes H K q"
  unfolding incoming_def targets_def by (rule sum.cong) simp_all

lemma free_refs_single: "free_refs [Value_ref p] st = free_value st p"
  by (cases "free_value st p") simp_all

lemma shape_release:
  "(case proto of None \<Rightarrow> Some st | Some p \<Rightarrow> free_value st p) = free_refs (map Value_ref (mark_pointer proto)) st"
  by (cases proto) (simp_all add: mark_pointer_def free_refs_single del: free_refs.simps(2))

lemma value_release:
  "(case v of Js_object q \<Rightarrow> free_value st q | Js_bytecode q \<Rightarrow> free_value st q | _ \<Rightarrow> Some st) =
    free_refs (map Value_ref (JS_MarkValue v)) st"
  by (cases v) (simp_all add: JS_MarkValue_def free_refs_single del: free_refs.simps(2))

text \<open>What one release may change: the freed objects are shapes and variable references.\<close>

definition released :: "gc_state \<Rightarrow> gc_state \<Rightarrow> obj set \<Rightarrow> obj set \<Rightarrow> bool" where
  "released st st' S S' \<longleftrightarrow>
     S' \<subseteq> S \<and> gc_phase st' = gc_phase st \<and> gc_marked st' = gc_marked st \<and>
     (gc_phase st = JS_GC_PHASE_REMOVE_CYCLES \<longrightarrow>
        (\<forall>q. q \<notin> S - S' \<longrightarrow> (q \<in> set (zero_list st') \<longleftrightarrow> q \<in> set (zero_list st)))) \<and>
     (\<forall>q. q \<notin> S - S' \<longrightarrow> objects st' q = objects st q) \<and>
     (\<forall>q \<in> S - S'. \<not> is_value_object (objects st q) \<and> \<not> is_context (objects st q) \<and> objects st' q = None)"

lemma released_refl:
  "gc_phase st' = gc_phase st \<Longrightarrow> gc_marked st' = gc_marked st \<Longrightarrow> objects st' = objects st \<Longrightarrow>
    (gc_phase st = JS_GC_PHASE_REMOVE_CYCLES \<Longrightarrow> zero_list st' = zero_list st) \<Longrightarrow> released st st' S S"
  by (simp add: released_def)

lemma released_trans: "released st st1 S S1 \<Longrightarrow> released st1 st2 S1 S2 \<Longrightarrow> released st st2 S S2"
  unfolding released_def by (intro conjI ballI allI impI) (auto; metis DiffI)+

context class_laws begin

lemma node_dies:
  assumes inv: "free_inv classes K ext (S \<union> Z) S Z (r # rs) st" and c: "ref_target r = c" "ref_count st c = 1"
    and kind: "\<not> is_value_object (objects st c)" "\<not> is_context (objects st c)"
    and own: "owned classes (objects st) c = Some (map Value_ref ps)"
  shows "\<exists>st1. free_refs (map Value_ref ps) (add_ref_count st c (- 1)) = Some st1 \<and>
    (let st' = free_memory (remove_gc_object st1 c) c in
     free_inv classes K ext (S - {c} \<union> Z) (S - {c}) Z rs st' \<and> released st st' S (S - {c}))"
proof -
  let ?st = "add_ref_count st c (- 1)"
  have g: "graph_inv classes ext S Z (r # rs) (objects st) (ref_count st)" and l: "list_inv classes K ext (S \<union> Z) S Z st"
    using inv by (simp_all add: free_inv_def)
  have cS: "c \<in> S" using graph_invD(4) [OF g, of c] graph_invD(6) [OF g, of r] c(1) kind(1) by auto
  have cZ: "c \<notin> Z" using cS graph_invD(3) [OF g] by auto
  have g1: "graph_inv classes ext (S - {c}) Z (map Value_ref ps @ rs) (objects ?st) (ref_count ?st)"
    unfolding state_simps by (rule graph_inv_die [OF g c(1) cS c(2) own]) auto
  have cK: "c \<notin> K" if "gc_phase st = JS_GC_PHASE_REMOVE_CYCLES"
    using kept_not_last [OF inv that] c by auto
  have "list_inv classes K ext (S \<union> Z) (S - {c}) Z ?st"
    using l cK cZ by (cases "gc_phase st") (auto simp: list_inv_def)
  with g1 have "free_inv classes K ext (S \<union> Z) (S - {c}) Z (map Value_ref ps @ rs) ?st" by (simp add: free_inv_def)
  then obtain st1 where st1: "free_refs (map Value_ref ps) ?st = Some st1" "free_inv classes K ext (S \<union> Z) (S - {c}) Z rs st1"
    "objects st1 = objects st" "gc_phase st1 = gc_phase st" "gc_marked st1 = gc_marked st"
    "gc_phase st = JS_GC_PHASE_REMOVE_CYCLES \<longrightarrow> zero_list st1 = zero_list st"
    using free_values_inv by fastforce
  let ?st' = "free_memory (remove_gc_object st1 c) c"
  have g2: "graph_inv classes ext (S - {c}) Z rs (objects st1) (ref_count st1)" and l2: "list_inv classes K ext (S \<union> Z) (S - {c}) Z st1"
    using st1(2) by (simp_all add: free_inv_def)
  have live: "\<And>q. q \<in> S - {c} \<Longrightarrow> objects ?st' q = objects st1 q"
    and dead: "\<And>q. q \<in> Z \<Longrightarrow> same_kind (objects st1 q) (objects ?st' q)" using cZ by auto
  have g3: "graph_inv classes ext (S - {c}) Z rs (objects ?st') (ref_count ?st')"
    by (rule graph_inv_heap(1) [OF g2 live dead]) simp_all
  have same: "\<And>p. p \<in> S - {c} \<Longrightarrow> owned classes (objects ?st') p = owned classes (objects st1) p"
    by (rule graph_inv_heap(2) [OF g2 live dead, of "ref_count ?st'"]) simp_all
  have inc: "incoming classes (objects ?st') K q = incoming classes (objects st1) K q" if "K \<subseteq> S - {c}" for q
    by (rule incoming_cong) (use same that in blast)
  have dl: "distinct (gc_obj_list st1 @ tmp_obj_list st1 @ zero_list st1)"
    "set (gc_obj_list st1 @ tmp_obj_list st1 @ zero_list st1) = S \<union> Z" using l2 unfolding list_inv_def by blast+
  have sets: "S \<union> Z - {c} = S - {c} \<union> Z" using cZ by auto
  have "list_inv classes K ext (S - {c} \<union> Z) (S - {c}) Z ?st'"
  proof (cases "gc_phase st1")
    case JS_GC_PHASE_NONE
    with l2 show ?thesis by (simp add: list_inv_def)
  next
    case JS_GC_PHASE_DECREF
    with l2 remove1_lists [OF dl(1), of c] dl(2) cZ show ?thesis
      unfolding list_inv_def sets [symmetric] by (auto dest: notin_set_remove1)
  next
    case JS_GC_PHASE_REMOVE_CYCLES
    with l2 have K: "set (gc_obj_list st1) = K" "K \<subseteq> S - {c}" "\<forall>q \<in> K. 0 < ext q + incoming classes (objects st1) K q"
      by (simp_all add: list_inv_def)
    then have "remove1 c (gc_obj_list st1) = gc_obj_list st1" by (intro remove1_idem) auto
    with JS_GC_PHASE_REMOVE_CYCLES K inc [OF K(2)] remove1_lists [OF dl(1), of c] dl(2) show ?thesis
      unfolding list_inv_def sets [symmetric] by simp
  qed
  moreover have "q \<in> set (remove1 c xs) \<longleftrightarrow> q \<in> set xs" if "q \<notin> S - (S - {c})" for q xs
    using that cS by (intro in_set_remove1) auto
  ultimately show ?thesis using g3 st1 kind cS by (auto simp: free_inv_def Let_def released_def)
qed

lemma free_ref_inv:
  assumes inv: "free_inv classes K ext (S \<union> Z) S Z (r # rs) st"
  shows "\<exists>st' S'. free_ref st r = Some st' \<and> free_inv classes K ext (S' \<union> Z) S' Z rs st' \<and> released st st' S S'"
proof -
  have g: "graph_inv classes ext S Z (r # rs) (objects st) (ref_count st)" and l: "list_inv classes K ext (S \<union> Z) S Z st"
    using inv by (simp_all add: free_inv_def)
  note r = graph_invD(6) [OF g, of r, simplified]
  let ?c = "ref_target r"
  have typed: "ref_typed (objects st) r" "releasable r" using r by simp_all
  have alive: "free_inv classes K ext (S \<union> Z) S Z rs (add_ref_count st ?c (- 1))"
    if "1 < ref_count st ?c" "\<not> is_value_object (objects st ?c)"
  proof -
    have "?c \<notin> Z" using graph_invD(4) [OF g] that(2) by auto
    then have "list_inv classes K ext (S \<union> Z) S Z (add_ref_count st ?c (- 1))"
      using l that(1) by (cases "gc_phase st") (auto simp: list_inv_def)
    with graph_inv_drop [OF g] that(1) show ?thesis by (simp add: free_inv_def)
  qed
  have inS: "?c \<in> S" if "\<not> is_value_object (objects st ?c)" using r graph_invD(4) [OF g, of ?c] that by auto
  show ?thesis
  proof (cases r)
    case (Value_ref p)
    with typed have "is_value_object (objects st (ref_target r))" by simp
    from free_value_inv [OF inv this] show ?thesis using Value_ref by (auto intro: released_refl)
  next
    case (Shape_ref p)
    with typed obtain sh where sh: "objects st p = Some (SHAPE sh)" by (cases "objects st p" rule: is_shape.cases) auto
    have pos: "0 < ref_count st p" using graph_invD(10) [OF g, of p] inS Shape_ref sh by simp
    show ?thesis
    proof (cases "ref_count st p = 1")
      case True
      have "owned classes (objects st) p = Some (map Value_ref (mark_pointer (sh_proto sh)))" using sh by (simp add: owned_def)
      from node_dies [OF inv _ True _ _ this] Shape_ref sh obtain st1
        where "free_refs (map Value_ref (mark_pointer (sh_proto sh))) (add_ref_count st p (- 1)) = Some st1"
          "free_inv classes K ext (S - {p} \<union> Z) (S - {p}) Z rs (free_memory (remove_gc_object st1 p) p)"
          "released st (free_memory (remove_gc_object st1 p) p) S (S - {p})" by (auto simp: Let_def)
      with True sh Shape_ref show ?thesis
        by (intro exI [of _ "free_memory (remove_gc_object st1 p) p"] exI [of _ "S - {p}"])
          (simp add: js_free_shape_def js_free_shape0_def shape_release)
    next
      case False
      with pos have "1 < ref_count st p" by simp
      with alive Shape_ref sh show ?thesis
        by (intro exI [of _ "add_ref_count st p (- 1)"] exI [of _ S]) (simp add: js_free_shape_def Let_def released_refl)
    qed
  next
    case (Var_ref p)
    with typed obtain v where v: "objects st p = Some (VAR_REF v)" "vr_is_detached v"
      by (cases "objects st p" rule: is_var_ref.cases) auto
    have pos: "0 < ref_count st p" using graph_invD(10) [OF g, of p] inS Var_ref v by simp
    show ?thesis
    proof (cases "ref_count st p = 1")
      case True
      have "owned classes (objects st) p = Some (map Value_ref (JS_MarkValue (vr_pvalue v)))"
        using v by (simp add: owned_def value_refs_def mark_values_single)
      from node_dies [OF inv _ True _ _ this] Var_ref v obtain st1
        where "free_refs (map Value_ref (JS_MarkValue (vr_pvalue v))) (add_ref_count st p (- 1)) = Some st1"
          "free_inv classes K ext (S - {p} \<union> Z) (S - {p}) Z rs (free_memory (remove_gc_object st1 p) p)"
          "released st (free_memory (remove_gc_object st1 p) p) S (S - {p})" by (auto simp: Let_def)
      with True v Var_ref show ?thesis
        by (intro exI [of _ "free_memory (remove_gc_object st1 p) p"] exI [of _ "S - {p}"])
          (simp add: free_var_ref_def value_release)
    next
      case False
      with pos have "1 < ref_count st p" by simp
      with alive Var_ref v show ?thesis
        by (intro exI [of _ "add_ref_count st p (- 1)"] exI [of _ S]) (simp add: free_var_ref_def Let_def released_refl)
    qed
  next
    case (Context_ref p)
    with typed obtain ctx where ctx: "objects st p = Some (JS_CONTEXT ctx)" by (cases "objects st p" rule: is_context.cases) auto
    have "p \<in> S" using inS Context_ref ctx by simp
    then have "0 < ext p" "ref_count st p = ext p + incoming classes (objects st) S p + 1 + int (count_list (map ref_target rs) p)"
      using graph_invD(7,9) [OF g, of p] Context_ref ctx by simp_all
    then have "1 < ref_count st p" using incoming_nonneg [of classes "objects st" S p] by linarith
    with alive Context_ref ctx show ?thesis
      by (intro exI [of _ "add_ref_count st p (- 1)"] exI [of _ S]) (simp add: JS_FreeContext_def Let_def released_refl)
  next
    case (Kept_ref p)
    with typed show ?thesis by simp
  qed
qed

lemma free_refs_inv:
  "free_inv classes K ext (S \<union> Z) S Z (os @ rs) st \<Longrightarrow>
    \<exists>st' S'. free_refs os st = Some st' \<and> free_inv classes K ext (S' \<union> Z) S' Z rs st' \<and> released st st' S S'"
proof (induction os arbitrary: st S)
  case Nil
  then show ?case by (auto intro: released_refl)
next
  case (Cons r os)
  obtain st1 S1 where 1: "free_ref st r = Some st1" "free_inv classes K ext (S1 \<union> Z) S1 Z (os @ rs) st1" "released st st1 S S1"
    using free_ref_inv [of K ext S Z r "os @ rs" st] Cons.prems by auto
  obtain st2 S2 where 2: "free_refs os st1 = Some st2" "free_inv classes K ext (S2 \<union> Z) S2 Z rs st2" "released st1 st2 S1 S2"
    using Cons.IH [OF 1(2)] by blast
  with 1 released_trans [OF 1(3) 2(3)] show ?case by auto
qed

end

end
