(* ===== verification/Gc_Run.thy ===== *)
theory Gc_Run
  imports Gc_Free
begin

section \<open>Freeing and collecting are safe\<close>

text \<open>
  The loops that free objects: the queue of \<open>free_zero_refcount\<close> and the garbage of
  \<open>gc_free_cycles\<close>.  Both end, never touch freed memory, and leave a heap whose reference counts
  are again the references.
\<close>

subsection \<open>Freeing one object\<close>

text \<open>What freeing the object \<open>p\<close> may change.\<close>

definition freed :: "gc_state \<Rightarrow> gc_state \<Rightarrow> obj \<Rightarrow> obj set \<Rightarrow> obj set \<Rightarrow> obj set \<Rightarrow> obj set \<Rightarrow> bool" where
  "freed st st' p S S' Z Z' \<longleftrightarrow>
     S' \<subseteq> S - {p} \<and> gc_phase st' = gc_phase st \<and> gc_marked st' = gc_marked st \<and>
     (\<forall>q. q \<notin> S - S' \<longrightarrow> objects st' q = objects st q) \<and>
     (\<forall>q \<in> S - S' - {p}. objects st' q = None) \<and>
     (Z' = Z \<and> objects st' p = None \<or> Z' = insert p Z \<and> gc_phase st = JS_GC_PHASE_REMOVE_CYCLES) \<and>
     (gc_phase st = JS_GC_PHASE_REMOVE_CYCLES \<longrightarrow> Z \<subseteq> set (zero_list st) \<longrightarrow> Z' \<subseteq> set (zero_list st')) \<and>
     (gc_phase st = JS_GC_PHASE_REMOVE_CYCLES \<longrightarrow> S' \<inter> set (zero_list st') \<subseteq> set (zero_list st))"

lemma graph_inv_sets: "graph_inv classes ext S Z pend H rc \<Longrightarrow> p \<in> S \<Longrightarrow> p \<notin> Z"
  using graph_invD(3) by blast

lemma list_inv_dying:
  assumes l: "list_inv classes K ext (S \<union> Z) S Z st" and p: "p \<in> S"
    and dec: "gc_phase st = JS_GC_PHASE_DECREF \<Longrightarrow> ref_count st p = 0"
    and rem: "gc_phase st = JS_GC_PHASE_REMOVE_CYCLES \<Longrightarrow> p \<notin> K"
  shows "list_inv classes K ext (S - {p} \<union> insert p Z) (S - {p}) (insert p Z) st"
proof -
  have "S - {p} \<union> insert p Z = S \<union> Z" using p by auto
  with l p dec rem show ?thesis by (cases "gc_phase st") (auto simp: list_inv_def)
qed

context class_laws begin

lemma free_header_inv:
  assumes inv: "free_inv classes K ext (S \<union> Z) S Z [] st" and p: "p \<in> Z"
  shows "\<exists>Z'. free_inv classes K ext (S \<union> Z') S Z' [] (free_header st p) \<and> gc_phase (free_header st p) = gc_phase st \<and>
    gc_marked (free_header st p) = gc_marked st \<and>
    (Z' = Z - {p} \<and> objects (free_header st p) = (objects st)(p := None) \<or>
     Z' = Z \<and> gc_phase st = JS_GC_PHASE_REMOVE_CYCLES \<and> objects (free_header st p) = objects st) \<and>
    (gc_phase st = JS_GC_PHASE_REMOVE_CYCLES \<longrightarrow> Z - {p} \<subseteq> set (zero_list st) \<longrightarrow> Z' \<subseteq> set (zero_list (free_header st p))) \<and>
    S \<inter> set (zero_list (free_header st p)) \<subseteq> set (zero_list st)"
proof -
  have g: "graph_inv classes ext S Z [] (objects st) (ref_count st)" and l: "list_inv classes K ext (S \<union> Z) S Z st"
    using inv by (simp_all add: free_inv_def)
  have dl: "distinct (gc_obj_list st @ tmp_obj_list st @ zero_list st)"
    "set (gc_obj_list st @ tmp_obj_list st @ zero_list st) = S \<union> Z" using l unfolding list_inv_def by blast+
  have pS: "p \<notin> S" using p graph_invD(3) [OF g] by auto
  note rem = remove1_lists [OF dl(1), of p, unfolded dl(2)]
  have gl: "remove1 p (gc_obj_list st) = gc_obj_list st" if "gc_phase st = JS_GC_PHASE_REMOVE_CYCLES"
    using l pS that by (intro remove1_idem) (auto simp: list_inv_def)
  show ?thesis
  proof (cases "gc_phase st = JS_GC_PHASE_REMOVE_CYCLES \<and> ref_count st p \<noteq> 0")
    case True
    let ?st = "(remove_gc_object st p)\<lparr>zero_list := remove1 p (zero_list st) @ [p]\<rparr>"
    have run: "free_header st p = ?st" using True by (simp add: free_header_def Let_def)
    have out: "p \<notin> set (remove1 p (gc_obj_list st) @ remove1 p (tmp_obj_list st) @ remove1 p (zero_list st))"
      unfolding rem(2) by simp
    have "distinct (gc_obj_list ?st @ tmp_obj_list ?st @ zero_list ?st)"
      using rem(1) out by (simp only: state_simps gc_state.simps gc_runtime.simps distinct_append) auto
    moreover have "set (gc_obj_list ?st @ tmp_obj_list ?st @ zero_list ?st) = S \<union> Z"
    proof -
      have "set (gc_obj_list ?st @ tmp_obj_list ?st @ zero_list ?st) =
        insert p (set (remove1 p (gc_obj_list st) @ remove1 p (tmp_obj_list st) @ remove1 p (zero_list st)))" by simp
      moreover have "insert p (S \<union> Z - {p}) = S \<union> Z" using p by blast
      ultimately show ?thesis unfolding rem(2) by (rule trans)
    qed
    moreover have "gc_obj_list ?st = gc_obj_list st" "objects ?st = objects st" using gl True by simp_all
    ultimately have "list_inv classes K ext (S \<union> Z) S Z ?st"
      using l True unfolding list_inv_def by (simp only: state_simps gc_state.simps gc_runtime.simps gc_phase.simps simp_thms) simp
    moreover have "Z - {p} \<subseteq> set (zero_list st) \<longrightarrow> Z \<subseteq> set (zero_list ?st)"
      using in_set_remove1 [of _ p "zero_list st"] by fastforce
    moreover have "S \<inter> set (zero_list ?st) \<subseteq> set (zero_list st)" using pS set_remove1_subset [of p "zero_list st"] by auto
    ultimately show ?thesis using g True unfolding run by (intro exI [of _ Z]) (simp add: free_inv_def)
  next
    case False
    have rc0: "ref_count st p = 0" using False l p by (cases "gc_phase st") (auto simp: list_inv_def)
    let ?st = "free_memory (remove_gc_object st p) p"
    have run: "free_header st p = ?st" using False by (auto simp: free_header_def Let_def)
    note g1 = graph_inv_forget [OF g p rc0]
    have live: "\<And>q. q \<in> S \<Longrightarrow> objects ?st q = objects st q"
      and dead: "\<And>q. q \<in> Z - {p} \<Longrightarrow> same_kind (objects st q) (objects ?st q)" using pS by auto
    have g2: "graph_inv classes ext S (Z - {p}) [] (objects ?st) (ref_count ?st)"
      by (rule graph_inv_heap(1) [OF g1 live dead]) simp_all
    have same: "\<And>q. q \<in> S \<Longrightarrow> owned classes (objects ?st) q = owned classes (objects st) q"
      by (rule graph_inv_heap(2) [OF g1 live dead, of "ref_count ?st"]) simp_all
    have sets: "S \<union> Z - {p} = S \<union> (Z - {p})" using pS by auto
    have "list_inv classes K ext (S \<union> (Z - {p})) S (Z - {p}) ?st"
    proof (cases "gc_phase st")
      case JS_GC_PHASE_NONE
      with l show ?thesis by (simp add: list_inv_def)
    next
      case JS_GC_PHASE_DECREF
      moreover have "q \<in> set (remove1 p xs) \<longleftrightarrow> q \<in> set xs" if "q \<noteq> p" for q xs using that by (simp add: in_set_remove1)
      ultimately show ?thesis using l rem sets pS unfolding list_inv_def by (auto simp: in_set_remove1)
    next
      case JS_GC_PHASE_REMOVE_CYCLES
      with l have K: "set (gc_obj_list st) = K" "K \<subseteq> S" "\<forall>q \<in> K. 0 < ext q + incoming classes (objects st) K q"
        by (simp_all add: list_inv_def)
      have "incoming classes (objects ?st) K q = incoming classes (objects st) K q" for q
        by (rule incoming_cong) (use same K(2) in blast)
      with JS_GC_PHASE_REMOVE_CYCLES K gl rem sets show ?thesis unfolding list_inv_def by simp
    qed
    moreover have "Z - {p} \<subseteq> set (zero_list st) \<longrightarrow> Z - {p} \<subseteq> set (zero_list ?st)"
      using in_set_remove1 [of _ p "zero_list st"] by fastforce
    moreover have "S \<inter> set (zero_list ?st) \<subseteq> set (zero_list st)" using set_remove1_subset [of p "zero_list st"] by auto
    ultimately show ?thesis using g2 unfolding run by (intro exI [of _ "Z - {p}"]) (simp add: free_inv_def)
  qed
qed

end

lemma free_refs_append: "free_refs (xs @ ys) st = Option.bind (free_refs xs st) (free_refs ys)"
  by (induction xs arbitrary: st) (auto split: bind_splits)

context class_laws begin

lemma free_inv_heap:
  assumes inv: "free_inv classes K ext A S Z pend st" and live: "\<And>q. q \<in> S \<Longrightarrow> H q = objects st q"
    and dead: "\<And>q. q \<in> Z \<Longrightarrow> same_kind (objects st q) (H q)"
  shows "free_inv classes K ext A S Z pend (st\<lparr>objects := H\<rparr>)"
proof -
  have g: "graph_inv classes ext S Z pend (objects st) (ref_count st)" and l: "list_inv classes K ext A S Z st"
    using inv by (simp_all add: free_inv_def)
  have g': "graph_inv classes ext S Z pend H (ref_count st)" by (rule graph_inv_heap(1) [OF g live dead]) simp_all
  have same: "owned classes H q = owned classes (objects st) q" if "q \<in> S" for q
    by (rule graph_inv_heap(2) [OF g live dead _ that, of "ref_count st"]) simp_all
  have inc: "incoming classes H K q = incoming classes (objects st) K q" if "K \<subseteq> S" for q
    by (rule incoming_cong) (use same that in blast)
  have "list_inv classes K ext A S Z (st\<lparr>objects := H\<rparr>)"
    using l inc by (cases "gc_phase st") (auto simp: list_inv_def)
  with g' show ?thesis by (simp add: free_inv_def)
qed

text \<open>The last step of freeing \<open>p\<close>, when its references have been released.\<close>

lemma free_tail:
  assumes inv: "free_inv classes K ext (S' \<union> insert p Z) S' (insert p Z) [] st1" and rel: "released st st1 (S - {p}) S'"
    and p: "p \<in> S" and disj: "S \<inter> Z = {}" and kind: "same_kind (objects st1 p) x"
  shows "\<exists>Z'. free_inv classes K ext (S' \<union> Z') S' Z' [] (free_header (st1\<lparr>objects := (objects st1)(p := x)\<rparr>) p) \<and>
    freed st (free_header (st1\<lparr>objects := (objects st1)(p := x)\<rparr>) p) p S S' Z Z'"
proof -
  let ?st = "st1\<lparr>objects := (objects st1)(p := x)\<rparr>"
  have S': "S' \<subseteq> S - {p}" using rel by (simp add: released_def)
  have inv1: "free_inv classes K ext (S' \<union> insert p Z) S' (insert p Z) [] ?st"
    by (rule free_inv_heap [OF inv]) (use S' kind in auto)
  obtain Z' where Z': "free_inv classes K ext (S' \<union> Z') S' Z' [] (free_header ?st p)"
    "gc_phase (free_header ?st p) = gc_phase st1" "gc_marked (free_header ?st p) = gc_marked st1"
    "Z' = insert p Z - {p} \<and> objects (free_header ?st p) = (objects ?st)(p := None) \<or>
     Z' = insert p Z \<and> gc_phase st1 = JS_GC_PHASE_REMOVE_CYCLES \<and> objects (free_header ?st p) = objects ?st"
    "gc_phase st1 = JS_GC_PHASE_REMOVE_CYCLES \<longrightarrow> insert p Z - {p} \<subseteq> set (zero_list st1) \<longrightarrow> Z' \<subseteq> set (zero_list (free_header ?st p))"
    "S' \<inter> set (zero_list (free_header ?st p)) \<subseteq> set (zero_list st1)"
    using free_header_inv [OF inv1, of p] by auto
  have pZ: "insert p Z - {p} = Z" using p disj by blast
  have heap: "objects (free_header ?st p) q = objects st1 q" if "q \<noteq> p" for q using Z'(4) that by auto
  have "freed st (free_header ?st p) p S S' Z Z'"
    unfolding freed_def
  proof (intro conjI)
    show "S' \<subseteq> S - {p}" by (rule S')
    show "gc_phase (free_header ?st p) = gc_phase st" "gc_marked (free_header ?st p) = gc_marked st"
      using rel Z'(2,3) by (simp_all add: released_def)
    show "\<forall>q. q \<notin> S - S' \<longrightarrow> objects (free_header ?st p) q = objects st q"
    proof (intro allI impI)
      fix q assume q: "q \<notin> S - S'"
      then have "q \<noteq> p" using p S' by auto
      with heap [OF this] q rel show "objects (free_header ?st p) q = objects st q" by (simp add: released_def)
    qed
    show "\<forall>q \<in> S - S' - {p}. objects (free_header ?st p) q = None"
      using heap rel by (simp add: released_def)
    show "Z' = Z \<and> objects (free_header ?st p) p = None \<or> Z' = insert p Z \<and> gc_phase st = JS_GC_PHASE_REMOVE_CYCLES"
      using Z'(4) pZ rel by (auto simp: released_def)
    show "gc_phase st = JS_GC_PHASE_REMOVE_CYCLES \<longrightarrow> Z \<subseteq> set (zero_list st) \<longrightarrow> Z' \<subseteq> set (zero_list (free_header ?st p))"
    proof (intro impI)
      assume ph: "gc_phase st = JS_GC_PHASE_REMOVE_CYCLES" and z: "Z \<subseteq> set (zero_list st)"
      have "q \<in> set (zero_list st1)" if "q \<in> Z" for q
      proof -
        have "q \<notin> S - {p} - S'" using that disj by blast
        with ph rel z that show ?thesis unfolding released_def by blast
      qed
      with Z'(5) pZ ph rel show "Z' \<subseteq> set (zero_list (free_header ?st p))" by (auto simp: released_def)
    qed
    show "gc_phase st = JS_GC_PHASE_REMOVE_CYCLES \<longrightarrow> S' \<inter> set (zero_list (free_header ?st p)) \<subseteq> set (zero_list st)"
      using Z'(6) rel by (auto simp: released_def)
  qed
  with Z'(1) show ?thesis by blast
qed

lemma free_gc_object_inv:
  assumes inv: "free_inv classes K ext (S \<union> Z) S Z [] st" and p: "p \<in> S" "is_value_object (objects st p)"
    and dec: "gc_phase st = JS_GC_PHASE_DECREF \<Longrightarrow> ref_count st p = 0"
    and rem: "gc_phase st = JS_GC_PHASE_REMOVE_CYCLES \<Longrightarrow> p \<notin> K"
  shows "\<exists>st' S' Z'. free_gc_object classes st p = Some st' \<and> free_inv classes K ext (S' \<union> Z') S' Z' [] st' \<and> freed st st' p S S' Z Z'"
proof -
  have g: "graph_inv classes ext S Z [] (objects st) (ref_count st)" and l: "list_inv classes K ext (S \<union> Z) S Z st"
    using inv by (simp_all add: free_inv_def)
  have disj: "S \<inter> Z = {}" by (rule graph_invD(3) [OF g])
  obtain os where own: "owned classes (objects st) p = Some os" using graph_invD(5) [OF g p(1)] by blast
  have nctx: "\<not> is_context (objects st p)" using p(2) by (cases "objects st p" rule: is_context.cases) auto
  have "graph_inv classes ext (S - {p}) (insert p Z) (os @ []) (objects st) (ref_count st)"
    by (rule graph_inv_dying [OF g p own owned_releasable [OF own nctx]])
  with list_inv_dying [OF l p(1) dec rem]
  have start: "free_inv classes K ext (S - {p} \<union> insert p Z) (S - {p}) (insert p Z) os st" by (simp add: free_inv_def)
  show ?thesis
  proof (cases "objects st p" rule: is_value_object.cases)
    case (1 ob)
    then obtain sh ps fs where sh: "objects st (ob_shape ob) = Some (SHAPE sh)" "free_properties (sh_prop sh) (ob_prop ob) = Some ps"
      "finalizer_refs classes (objects st) ob = Some fs" "os = ps @ Shape_ref (ob_shape ob) # fs"
      using own by (auto simp: owned_def split: option.splits gc_object.splits bind_splits)
    obtain st1 S1 where 1: "free_refs (ps @ [Shape_ref (ob_shape ob)]) st = Some st1"
      "free_inv classes K ext (S1 \<union> insert p Z) S1 (insert p Z) fs st1" "released st st1 (S - {p}) S1"
      using free_refs_inv [of K ext "S - {p}" "insert p Z" "ps @ [Shape_ref (ob_shape ob)]" fs st] start sh(4) by auto
    have g1: "graph_inv classes ext S1 (insert p Z) fs (objects st1) (ref_count st1)" using 1(2) by (simp add: free_inv_def)
    have "finalizer_refs classes (objects st1) ob = Some fs"
    proof (rule fin_local [OF sh(3)])
      fix r assume "r \<in> set fs"
      then have "ref_target r \<in> S1 \<union> insert p Z" using graph_invD(6) [OF g1] by blast
      then have "ref_target r \<notin> S - {p} - S1" using disj by blast
      with 1(3) show "same_kind (objects st (ref_target r)) (objects st1 (ref_target r))" by (simp add: released_def)
    qed
    note fin = this
    obtain st2 S2 where 2: "free_refs fs st1 = Some st2" "free_inv classes K ext (S2 \<union> insert p Z) S2 (insert p Z) [] st2"
      "released st1 st2 S1 S2"
      using free_refs_inv [of K ext S1 "insert p Z" fs "[]" st1] 1(2) by auto
    have rel: "released st st2 (S - {p}) S2" by (rule released_trans [OF 1(3) 2(3)])
    then have "objects st2 p = Some (JS_OBJECT ob)" using \<open>objects st p = Some (JS_OBJECT ob)\<close> by (simp add: released_def)
    then have kind: "same_kind (objects st2 p) (Some (JS_OBJECT cleared_object))" by (simp add: same_kind_def)
    have "free_gc_object classes st p = Some (free_header (st2\<lparr>objects := (objects st2)(p := Some (JS_OBJECT cleared_object))\<rparr>) p)"
      using \<open>objects st p = Some (JS_OBJECT ob)\<close> sh(1,2) 1(1) fin 2(1)
      by (auto simp: free_gc_object_def free_object_def free_refs_append split: bind_splits)
    with free_tail [OF 2(2) rel p(1) disj kind] show ?thesis by blast
  next
    case (2 b)
    then have os: "os = free_ic (bf_ic b) @ value_refs (bf_cpool b) @ map Context_ref (mark_pointer (bf_realm b))"
      using own by (simp add: owned_def)
    obtain st1 S1 where 1: "free_refs os st = Some st1" "free_inv classes K ext (S1 \<union> insert p Z) S1 (insert p Z) [] st1"
      "released st st1 (S - {p}) S1"
      using free_refs_inv [of K ext "S - {p}" "insert p Z" os "[]" st] start by auto
    have "st1\<lparr>objects := (objects st1)(p := objects st1 p)\<rparr> = st1" by simp
    moreover have "free_gc_object classes st p = Some (free_header st1 p)"
      using 2 1(1) by (auto simp: os free_gc_object_def free_function_bytecode_def free_refs_append split: bind_splits)
    ultimately show ?thesis using free_tail [OF 1(2,3) p(1) disj same_kind_refl] by metis
  qed (use p(2) in auto)
qed

end

subsection \<open>Freeing the objects without references\<close>

text \<open>What a sequence of such steps may change: objects die, the others keep their contents.\<close>

definition swept :: "gc_state \<Rightarrow> gc_state \<Rightarrow> obj set \<Rightarrow> obj set \<Rightarrow> bool" where
  "swept st st' S S' \<longleftrightarrow>
     S' \<subseteq> S \<and> gc_phase st' = gc_phase st \<and> gc_marked st' = gc_marked st \<and>
     (\<forall>q. q \<notin> S - S' \<longrightarrow> objects st' q = objects st q) \<and> (\<forall>q \<in> S - S'. objects st' q = None)"

lemma swept_refl: "swept st st S S"
  by (simp add: swept_def)

lemma swept_trans: "swept st st1 S S1 \<Longrightarrow> swept st1 st2 S1 S2 \<Longrightarrow> swept st st2 S S2"
  unfolding swept_def by (intro conjI ballI allI impI) (auto; metis DiffI)+

lemma freed_swept: "freed st st' p S S' Z Z \<Longrightarrow> objects st' p = None \<Longrightarrow> swept st st' S S'"
  by (auto simp: freed_def swept_def)

context class_laws begin

lemma free_zero_loop_inv:
  "free_inv classes K ext S S {} [] st \<Longrightarrow> gc_phase st = JS_GC_PHASE_DECREF \<Longrightarrow>
    \<exists>st' S'. free_zero_loop classes st = Some st' \<and> free_inv classes K ext S' S' {} [] st' \<and> zero_list st' = [] \<and> swept st st' S S'"
proof (induction "card S" arbitrary: S st rule: less_induct)
  case less
  have g: "graph_inv classes ext S {} [] (objects st) (ref_count st)" and l: "list_inv classes K ext S S {} st"
    using less.prems(1) by (simp_all add: free_inv_def)
  show ?case
  proof (cases "zero_list st")
    case Nil
    with less.prems(1) show ?thesis
      by (intro exI [of _ st] exI [of _ S]) (simp add: free_zero_loop.simps swept_refl)
  next
    case (Cons p ps)
    with l less.prems(2) have p: "p \<in> S" "ref_count st p \<le> 0" by (auto simp: list_inv_def)
    then have "ref_count st p = ext p + incoming classes (objects st) S p" using graph_invD(7) [OF g, of p] by simp
    with p(2) have rc: "ref_count st p = 0"
      using graph_invD(8) [OF g, of p] incoming_nonneg [of classes "objects st" S p] by linarith
    then have val: "is_value_object (objects st p)" using graph_invD(10) [OF g p(1)] by (rule_tac ccontr) simp
    obtain st1 S1 Z1 where 1: "free_gc_object classes st p = Some st1" "free_inv classes K ext (S1 \<union> Z1) S1 Z1 [] st1" "freed st st1 p S S1 {} Z1"
      using free_gc_object_inv [of K ext S "{}" st p] less.prems p(1) val rc by auto
    have Z1: "Z1 = {}" "objects st1 p = None" and ph: "gc_phase st1 = JS_GC_PHASE_DECREF" and sub: "S1 \<subseteq> S - {p}"
      using 1(3) less.prems(2) by (auto simp: freed_def)
    have "card S1 < card S" using sub p(1) graph_invD(1) [OF g] by (intro psubset_card_mono) auto
    from less.hyps [OF this _ ph] 1(2) Z1(1) obtain st2 S2 where 2: "free_zero_loop classes st1 = Some st2"
      "free_inv classes K ext S2 S2 {} [] st2" "zero_list st2 = []" "swept st1 st2 S1 S2" by auto
    have "swept st st2 S S2"
      by (rule swept_trans [OF freed_swept 2(4)]) (use 1(3) Z1 in auto)
    moreover have "free_zero_loop classes st = Some st2"
      using Cons rc 1(1) 2(1) by (simp add: free_zero_loop.simps [of classes st])
    ultimately show ?thesis using 2(2,3) by blast
  qed
qed

end

text \<open>
  A heap between two operations of the engine: every listed object can be freed, its references lead
  to listed objects of the right type, and every reference count is positive and counts the
  references from outside, \<open>ext\<close>, and from the listed objects.  The variable references that objects own
  are listed themselves, so they are detached: a heap with closures over variables of a function that is still running
  is not covered.
\<close>

definition heap_ok :: "js_class_table \<Rightarrow> (obj \<Rightarrow> int) \<Rightarrow> gc_state \<Rightarrow> bool" where
  "heap_ok classes ext st \<longleftrightarrow>
     gc_phase st = JS_GC_PHASE_NONE \<and> tmp_obj_list st = [] \<and> zero_list st = [] \<and> distinct (gc_obj_list st) \<and>
     (\<forall>p \<in> set (gc_obj_list st). \<exists>rs. owned classes (objects st) p = Some rs \<and>
        (\<forall>r \<in> set rs. ref_typed (objects st) r \<and> ref_target r \<in> set (gc_obj_list st))) \<and>
     (\<forall>p \<in> set (gc_obj_list st). 0 < ref_count st p \<and>
        ref_count st p = ext p + incoming classes (objects st) (set (gc_obj_list st)) p) \<and>
     (\<forall>p. 0 \<le> ext p \<and> (p \<notin> set (gc_obj_list st) \<longrightarrow> ext p = 0)) \<and>
     (\<forall>p \<in> set (gc_obj_list st). is_context (objects st p) \<longrightarrow> 0 < ext p)"

lemma heap_ok_graph:
  "heap_ok classes ext st \<longleftrightarrow>
     gc_phase st = JS_GC_PHASE_NONE \<and> tmp_obj_list st = [] \<and> zero_list st = [] \<and> distinct (gc_obj_list st) \<and>
     (\<forall>p \<in> set (gc_obj_list st). 0 < ref_count st p) \<and>
     graph_inv classes ext (set (gc_obj_list st)) {} [] (objects st) (ref_count st)"
  unfolding heap_ok_def graph_inv_def by auto

text \<open>Between two heaps: the objects that are gone have been freed, the others have not been touched.\<close>

definition only_frees :: "gc_state \<Rightarrow> gc_state \<Rightarrow> bool" where
  "only_frees st st' \<longleftrightarrow>
     set (gc_obj_list st') \<subseteq> set (gc_obj_list st) \<and>
     (\<forall>q. objects st' q =
        (if q \<in> set (gc_obj_list st) - set (gc_obj_list st') then None else objects st q))"

lemma graph_inv_ext_drop:
  assumes inv: "graph_inv classes ext S {} [] H rc" and p: "0 < ext p" "is_value_object (H p)"
  shows "graph_inv classes (ext(p := ext p - 1)) S {} [] H (rc(p := rc p - 1))"
proof -
  have "\<not> is_context (H p)" using p(2) by (cases "H p" rule: is_context.cases) auto
  then show ?thesis
    unfolding graph_inv_def
  proof (intro conjI)
    show "\<forall>q \<in> S \<union> {}. (rc(p := rc p - 1)) q =
        (ext(p := ext p - 1)) q + incoming classes H S q + int (count_list (map ref_target []) q)"
      using graph_invD(7) [OF inv] by simp
    show "\<forall>q. 0 \<le> (ext(p := ext p - 1)) q" using graph_invD(8) [OF inv] p(1) by simp
    show "\<forall>q. q \<notin> S \<union> {} \<longrightarrow> (ext(p := ext p - 1)) q = 0"
    proof (intro allI impI)
      fix q assume "q \<notin> S \<union> {}"
      then have "ext q = 0" by (rule graph_invD(11) [OF inv])
      with p(1) show "(ext(p := ext p - 1)) q = 0" by (cases "q = p") simp_all
    qed
    show "\<forall>q \<in> S. is_context (H q) \<longrightarrow> 0 < (ext(p := ext p - 1)) q"
      using graph_invD(9) [OF inv] \<open>\<not> is_context (H p)\<close> by simp
    show "\<forall>q \<in> S. \<not> is_value_object (H q) \<longrightarrow> 0 < (rc(p := rc p - 1)) q"
      using graph_invD(10) [OF inv] p(2) by simp
  qed (use inv in \<open>simp_all add: graph_inv_def\<close>)
qed

context class_laws begin

lemma free_zero_refcount_ok:
  assumes g: "graph_inv classes ext S {} [] (objects st) (ref_count st)"
    and lists: "distinct (gc_obj_list st @ zero_list st)" "set (gc_obj_list st @ zero_list st) = S" "tmp_obj_list st = []"
    and zero: "\<And>q. q \<in> S \<Longrightarrow> q \<in> set (zero_list st) \<longleftrightarrow> ref_count st q \<le> 0"
  shows "\<exists>st' S'. free_zero_refcount classes st = Some st' \<and> heap_ok classes ext st' \<and> set (gc_obj_list st') = S' \<and>
    swept (st\<lparr>gc_phase := JS_GC_PHASE_NONE\<rparr>) st' S S'"
proof -
  let ?st = "st\<lparr>gc_phase := JS_GC_PHASE_DECREF\<rparr>"
  have "free_inv classes {} ext S S {} [] ?st"
    using g lists zero by (auto simp: free_inv_def list_inv_def)
  then obtain st1 S1 where 1: "free_zero_loop classes ?st = Some st1" "free_inv classes {} ext S1 S1 {} [] st1"
    "zero_list st1 = []" "swept ?st st1 S S1"
    using free_zero_loop_inv [of "{}" ext S ?st] by auto
  let ?st1 = "st1\<lparr>gc_phase := JS_GC_PHASE_NONE\<rparr>"
  have ph: "gc_phase st1 = JS_GC_PHASE_DECREF" using 1(4) by (simp add: swept_def)
  have g1: "graph_inv classes ext S1 {} [] (objects st1) (ref_count st1)" and "list_inv classes {} ext S1 S1 {} st1"
    using 1(2) by (simp_all add: free_inv_def)
  then have l1: "distinct (gc_obj_list st1)" "set (gc_obj_list st1) = S1" "tmp_obj_list st1 = []" "\<forall>q \<in> S1. 0 < ref_count st1 q"
    using ph 1(3) by (auto simp: list_inv_def not_le)
  have "heap_ok classes ext ?st1" using g1 l1 1(3) by (simp add: heap_ok_graph)
  moreover have "swept (st\<lparr>gc_phase := JS_GC_PHASE_NONE\<rparr>) ?st1 S S1" using 1(4) by (simp add: swept_def)
  ultimately show ?thesis using 1(1) l1(2)
    by (intro exI [of _ ?st1] exI [of _ S1]) (simp add: free_zero_refcount_def)
qed

lemma JS_FreeValueRT_ok:
  assumes ok: "heap_ok classes ext st" and v: "JS_MarkValue v = [p]" "is_value_object (objects st p)" and ext: "0 < ext p"
  shows "\<exists>st'. JS_FreeValueRT classes st v = Some st' \<and> heap_ok classes (ext(p := ext p - 1)) st' \<and> only_frees st st'"
proof -
  let ?S = "set (gc_obj_list st)" and ?ext = "ext(p := ext p - 1)" and ?st = "add_ref_count st p (- 1)"
  have h: "gc_phase st = JS_GC_PHASE_NONE" "tmp_obj_list st = []" "zero_list st = []" "distinct (gc_obj_list st)"
    "\<forall>p \<in> ?S. 0 < ref_count st p" and g: "graph_inv classes ext ?S {} [] (objects st) (ref_count st)"
    using ok by (simp_all add: heap_ok_graph)
  have pS: "p \<in> ?S" using graph_invD(11) [OF g, of p] ext by auto
  have g1: "graph_inv classes ?ext ?S {} [] (objects st) (ref_count ?st)"
    using graph_inv_ext_drop [OF g ext v(2)] by simp
  show ?thesis
  proof (cases "ref_count st p = 1")
    case False
    with h(5) pS have "1 < ref_count st p" by force
    then have "JS_FreeValueRT classes st v = Some ?st" "heap_ok classes ?ext ?st" "only_frees st ?st"
      using v h g1 by (auto simp: JS_FreeValueRT_def free_value_def Let_def heap_ok_graph only_frees_def)
    then show ?thesis by blast
  next
    case True
    let ?st1 = "(remove_gc_object ?st p)\<lparr>zero_list := [p]\<rparr>"
    have run: "JS_FreeValueRT classes st v = free_zero_refcount classes ?st1"
      using v h(1,3) True by (simp add: JS_FreeValueRT_def free_value_def js_free_value_rt_def Let_def)
    obtain st' S' where st': "free_zero_refcount classes ?st1 = Some st'" "heap_ok classes ?ext st'" "set (gc_obj_list st') = S'"
      "swept (?st1\<lparr>gc_phase := JS_GC_PHASE_NONE\<rparr>) st' ?S S'"
    proof (rule exE [OF free_zero_refcount_ok [of ?ext ?S ?st1]])
      show "graph_inv classes ?ext ?S {} [] (objects ?st1) (ref_count ?st1)" using g1 by simp
      show "distinct (gc_obj_list ?st1 @ zero_list ?st1)" "set (gc_obj_list ?st1 @ zero_list ?st1) = ?S" "tmp_obj_list ?st1 = []"
        using h pS by auto
      show "q \<in> set (zero_list ?st1) \<longleftrightarrow> ref_count ?st1 q \<le> 0" if "q \<in> ?S" for q using h(5) that True by auto
    qed blast
    have "only_frees st st'" using st'(3,4) by (auto simp: only_frees_def swept_def)
    with run st'(1,2) show ?thesis by simp
  qed
qed

end

subsection \<open>Freeing the garbage\<close>

definition kept_closed :: "js_class_table \<Rightarrow> obj set \<Rightarrow> gc_heap \<Rightarrow> bool" where
  "kept_closed classes K H \<longleftrightarrow>
     (\<forall>p \<in> K. \<exists>rs. owned classes H p = Some rs \<and> (\<forall>r \<in> set rs. ref_typed H r \<and> ref_target r \<in> K))"

text \<open>While \<open>gc_free_cycles\<close> runs: the objects \<open>K\<close> that stay own only each other, nothing outside
  references another object, and the second list holds the freed objects and what is not a value.\<close>

definition cycle_inv :: "js_class_table \<Rightarrow> obj set \<Rightarrow> (obj \<Rightarrow> int) \<Rightarrow> obj set \<Rightarrow> obj set \<Rightarrow> gc_state \<Rightarrow> bool" where
  "cycle_inv classes K ext S Z st \<longleftrightarrow>
     free_inv classes K ext (S \<union> Z) S Z [] st \<and> gc_phase st = JS_GC_PHASE_REMOVE_CYCLES \<and>
     Z \<subseteq> set (zero_list st) \<and> (\<forall>q \<in> S \<inter> set (zero_list st). \<not> is_value_object (objects st q)) \<and>
     kept_closed classes K (objects st) \<and> (\<forall>q. q \<notin> K \<longrightarrow> ext q = 0)"

lemma cycle_invD:
  assumes "cycle_inv classes K ext S Z st"
  shows "graph_inv classes ext S Z [] (objects st) (ref_count st)" "gc_phase st = JS_GC_PHASE_REMOVE_CYCLES"
    "distinct (gc_obj_list st @ tmp_obj_list st @ zero_list st)"
    "set (gc_obj_list st @ tmp_obj_list st @ zero_list st) = S \<union> Z" "set (gc_obj_list st) = K" "K \<subseteq> S"
    "q \<in> K \<Longrightarrow> 0 < ext q + incoming classes (objects st) K q" "Z \<subseteq> set (zero_list st)"
    "q \<in> S \<Longrightarrow> q \<in> set (zero_list st) \<Longrightarrow> \<not> is_value_object (objects st q)"
    "kept_closed classes K (objects st)" "q \<notin> K \<Longrightarrow> ext q = 0"
proof -
  have ph: "gc_phase st = JS_GC_PHASE_REMOVE_CYCLES" and l: "list_inv classes K ext (S \<union> Z) S Z st"
    using assms by (simp_all add: cycle_inv_def free_inv_def)
  show "graph_inv classes ext S Z [] (objects st) (ref_count st)" "gc_phase st = JS_GC_PHASE_REMOVE_CYCLES"
    "Z \<subseteq> set (zero_list st)" "q \<in> S \<Longrightarrow> q \<in> set (zero_list st) \<Longrightarrow> \<not> is_value_object (objects st q)"
    "kept_closed classes K (objects st)" "q \<notin> K \<Longrightarrow> ext q = 0"
    using assms by (simp_all add: cycle_inv_def free_inv_def)
  show "distinct (gc_obj_list st @ tmp_obj_list st @ zero_list st)"
    "set (gc_obj_list st @ tmp_obj_list st @ zero_list st) = S \<union> Z"
    using l unfolding list_inv_def by blast+
  show "set (gc_obj_list st) = K" "K \<subseteq> S" "q \<in> K \<Longrightarrow> 0 < ext q + incoming classes (objects st) K q"
    using l ph by (simp_all add: list_inv_def)
qed

definition swept_to :: "gc_state \<Rightarrow> gc_state \<Rightarrow> obj set \<Rightarrow> obj set \<Rightarrow> obj set \<Rightarrow> obj set \<Rightarrow> bool" where
  "swept_to st st' S S' Z Z' \<longleftrightarrow>
     S' \<subseteq> S \<and> Z \<subseteq> Z' \<and> Z' \<subseteq> Z \<union> (S - S') \<and> gc_marked st' = gc_marked st \<and>
     (\<forall>q. q \<notin> S - S' \<longrightarrow> objects st' q = objects st q) \<and> (\<forall>q \<in> S - S' - Z'. objects st' q = None)"

lemma swept_to_trans: "swept_to st st1 S S1 Z Z1 \<Longrightarrow> swept_to st1 st2 S1 S2 Z1 Z2 \<Longrightarrow> swept_to st st2 S S2 Z Z2"
  unfolding swept_to_def by (intro conjI ballI allI impI) (auto; metis DiffI subsetD)+

lemma freed_swept_to: "freed st st' p S S' Z Z' \<Longrightarrow> p \<in> S \<Longrightarrow> swept_to st st' S S' Z Z'"
  by (auto simp: freed_def swept_to_def)

context class_laws begin

lemma kept_closed_cong:
  assumes cl: "kept_closed classes K H" and same: "\<And>q. q \<in> K \<Longrightarrow> H' q = H q"
  shows "kept_closed classes K H'"
  unfolding kept_closed_def
proof
  fix p assume p: "p \<in> K"
  then obtain rs where rs: "owned classes H p = Some rs" "\<forall>r \<in> set rs. ref_typed H r \<and> ref_target r \<in> K"
    using cl unfolding kept_closed_def by blast
  have "owned classes H' p = Some rs"
  proof (rule owned_cong [OF rs(1)])
    show "ref_typed H r" "same_kind (H (ref_target r)) (H' (ref_target r))" if "r \<in> set rs" for r
      using that rs(2) same by auto
  qed (rule same [OF p])
  moreover have "ref_typed H' r" if "r \<in> set rs" for r
    using ref_typed_cong [of H r H'] rs(2) same that by auto
  ultimately show "\<exists>rs. owned classes H' p = Some rs \<and> (\<forall>r \<in> set rs. ref_typed H' r \<and> ref_target r \<in> K)"
    using rs(2) by blast
qed

lemma cycle_free:
  assumes inv: "cycle_inv classes K ext S Z st" and tmp: "tmp_obj_list st = p # ps" and val: "is_value_object (objects st p)"
  shows "\<exists>st' S' Z'. free_gc_object classes st p = Some st' \<and> cycle_inv classes K ext S' Z' st' \<and>
    swept_to st st' S S' Z Z' \<and> S' \<subset> S"
proof -
  note i = cycle_invD [OF inv]
  have p: "p \<in> S" "p \<notin> K" using i(3,4,5,8) tmp by auto
  have "free_inv classes K ext (S \<union> Z) S Z [] st" using inv by (simp add: cycle_inv_def)
  from free_gc_object_inv [OF this p(1) val] i(2) p(2) obtain st' S' Z' where st': "free_gc_object classes st p = Some st'"
    "free_inv classes K ext (S' \<union> Z') S' Z' [] st'" and fr: "freed st st' p S S' Z Z'" by auto
  have f: "S' \<subseteq> S - {p}" "gc_phase st' = JS_GC_PHASE_REMOVE_CYCLES" "Z' \<subseteq> set (zero_list st')"
    "S' \<inter> set (zero_list st') \<subseteq> set (zero_list st)" and same: "\<And>q. q \<in> S' \<Longrightarrow> objects st' q = objects st q"
    using fr i(2,8) by (simp_all add: freed_def)
  have K: "K \<subseteq> S'" using st'(2) f(2) by (simp add: free_inv_def list_inv_def)
  have "kept_closed classes K (objects st')" by (rule kept_closed_cong [OF i(10)]) (use K same in blast)
  moreover have "\<not> is_value_object (objects st' q)" if "q \<in> S' \<inter> set (zero_list st')" for q
    using that f(1,4) i(9) [of q] same by auto
  ultimately have "cycle_inv classes K ext S' Z' st'"
    using st'(2) f(2,3) i(11) by (simp add: cycle_inv_def)
  with st'(1) freed_swept_to [OF fr p(1)] f(1) p(1) show ?thesis by (intro exI [of _ st'] exI [of _ S'] exI [of _ Z']) auto
qed

lemma cycle_move:
  assumes inv: "cycle_inv classes K ext S Z st" and tmp: "tmp_obj_list st = p # ps" and val: "\<not> is_value_object (objects st p)"
    and st': "st' = (remove_gc_object st p)\<lparr>zero_list := zero_list (remove_gc_object st p) @ [p]\<rparr>"
  shows "objects st p \<noteq> None" "cycle_inv classes K ext S Z st'" "tmp_obj_list st' = ps" "swept_to st st' S S Z Z"
proof -
  note i = cycle_invD [OF inv]
  have p: "p \<in> S" "p \<notin> K" "p \<notin> set (zero_list st)" "p \<notin> set ps" using i(3,4,5,8) tmp by auto
  have lists: "gc_obj_list st' = gc_obj_list st" "tmp_obj_list st' = ps" "zero_list st' = zero_list st @ [p]"
    "objects st' = objects st" "ref_count st' = ref_count st" "gc_phase st' = gc_phase st" "gc_marked st' = gc_marked st"
    using p i(5) tmp by (simp_all add: st' remove1_idem)
  show "objects st p \<noteq> None"
  proof
    assume "objects st p = None"
    then have "owned classes (objects st) p = None" by (simp add: owned_def)
    with graph_invD(5) [OF i(1) p(1)] show False by simp
  qed
  show "tmp_obj_list st' = ps" "swept_to st st' S S Z Z" by (simp_all add: lists swept_to_def)
  have "list_inv classes K ext (S \<union> Z) S Z st'"
    using i(2-7) tmp unfolding list_inv_def lists by auto
  then show "cycle_inv classes K ext S Z st'"
    using i(1,2,8-11) val unfolding cycle_inv_def free_inv_def lists by auto
qed

text \<open>What is left at the end is kept: only objects that are values own shapes and variable references.\<close>

lemma cycle_done:
  assumes inv: "cycle_inv classes K ext S Z st" and tmp: "tmp_obj_list st = []"
  shows "S = K" "set (zero_list st) = Z"
proof -
  note i = cycle_invD [OF inv]
  have rest: "q \<in> set (zero_list st)" if "q \<in> S" "q \<notin> K" for q using i(4,5) tmp that by auto
  have "q \<in> K" if q: "q \<in> S" for q
  proof (rule ccontr)
    assume nK: "q \<notin> K"
    note nv = i(9) [OF q rest [OF q nK]]
    have "0 < ref_count st q" by (rule graph_invD(10) [OF i(1) q nv])
    then have "incoming classes (objects st) S q \<noteq> 0" using graph_invD(7) [OF i(1), of q] q i(11) [OF nK] by simp
    then obtain p where p: "p \<in> S" "q \<in> set (targets classes (objects st) p)"
      unfolding incoming_def by (rule sum.not_neutral_contains_not_neutral) (simp add: count_list_0_iff)
    obtain rs where rs: "owned classes (objects st) p = Some rs" "\<forall>r \<in> set rs. ref_typed (objects st) r"
      using graph_invD(5) [OF i(1) p(1)] by blast
    have "p \<notin> K"
    proof
      assume "p \<in> K"
      then have "set (targets classes (objects st) p) \<subseteq> K" using i(10) targets_owned by (fastforce simp: kept_closed_def)
      with p(2) nK show False by blast
    qed
    note pv = i(9) [OF p(1) rest [OF p(1) this]]
    have "\<not> is_context (objects st p)" using graph_invD(9) [OF i(1) p(1)] i(11) [OF \<open>p \<notin> K\<close>] by auto
    with rs pv have "\<exists>vs. rs = map Value_ref vs"
      by (auto simp: owned_def value_refs_def split: option.splits gc_object.splits if_splits)
    with rs p(2) have "is_value_object (objects st q)" using targets_owned [OF rs(1)] by auto
    with nv show False by simp
  qed
  with i(6) show "S = K" by blast
  with i(3,4,5,8) tmp graph_invD(3) [OF i(1)] show "set (zero_list st) = Z" by auto
qed

lemma gc_free_loop_inv:
  "cycle_inv classes K ext S Z st \<Longrightarrow>
    \<exists>st' Z'. gc_free_loop classes st = Some st' \<and> cycle_inv classes K ext K Z' st' \<and> tmp_obj_list st' = [] \<and>
      set (zero_list st') = Z' \<and> swept_to st st' S K Z Z'"
proof (induction "(card S, length (tmp_obj_list st))" arbitrary: S Z st
    rule: wf_induct_rule [OF wf_lex_prod [OF wf_less_than wf_less_than]])
  case 1
  note i = cycle_invD [OF 1(2)]
  show ?case
  proof (cases "tmp_obj_list st")
    case Nil
    from cycle_done [OF 1(2) Nil] 1(2) Nil show ?thesis
      by (intro exI [of _ st] exI [of _ Z]) (simp add: gc_free_loop.simps swept_to_def)
  next
    case (Cons p ps)
    show ?thesis
    proof (cases "is_value_object (objects st p)")
      case True
      obtain st1 S1 Z1 where s: "free_gc_object classes st p = Some st1" "cycle_inv classes K ext S1 Z1 st1"
        "swept_to st st1 S S1 Z Z1" "S1 \<subset> S" using cycle_free [OF 1(2) Cons True] by blast
      have "card S1 < card S" by (rule psubset_card_mono [OF graph_invD(1) [OF i(1)] s(4)])
      then obtain st2 Z2 where t: "gc_free_loop classes st1 = Some st2" "cycle_inv classes K ext K Z2 st2" "tmp_obj_list st2 = []"
        "set (zero_list st2) = Z2" "swept_to st1 st2 S1 K Z1 Z2" using 1(1) [OF _ s(2)] by auto
      have "objects st p \<noteq> None" using True by (cases "objects st p") auto
      then have "gc_free_loop classes st = Some st2"
        using Cons True s(1) t(1) by (simp add: gc_free_loop.simps [of classes st])
      with t(2-4) swept_to_trans [OF s(3) t(5)] show ?thesis by blast
    next
      case False
      let ?st = "(remove_gc_object st p)\<lparr>zero_list := zero_list (remove_gc_object st p) @ [p]\<rparr>"
      note m = cycle_move [OF 1(2) Cons False refl]
      obtain st2 Z2 where t: "gc_free_loop classes ?st = Some st2" "cycle_inv classes K ext K Z2 st2" "tmp_obj_list st2 = []"
        "set (zero_list st2) = Z2" "swept_to ?st st2 S K Z Z2" using 1(1) [OF _ m(2)] m(3) Cons by auto
      obtain x where "objects st p = Some x" using m(1) by blast
      then have "gc_free_loop classes st = gc_free_loop classes ?st"
        using Cons False by (simp add: gc_free_loop.simps [of classes st] Let_def)
      with t swept_to_trans [OF m(4) t(5)] show ?thesis by auto
    qed
  qed
qed

end

lemma free_zombies_eq:
  "distinct ps \<Longrightarrow> (\<And>p. p \<in> set ps \<Longrightarrow> is_value_object (objects st p)) \<Longrightarrow>
    free_zombies ps st = Some (st\<lparr>objects := \<lambda>q. if q \<in> set ps then None else objects st q\<rparr>)"
proof (induction ps arbitrary: st)
  case (Cons p ps)
  have "is_value_object (objects (free_memory st p) q)" if "q \<in> set ps" for q
    using Cons.prems that by (cases "q = p") auto
  then have "free_zombies ps (free_memory st p) =
      Some ((free_memory st p)\<lparr>objects := \<lambda>q. if q \<in> set ps then None else objects (free_memory st p) q\<rparr>)"
    using Cons.prems(1) by (intro Cons.IH) simp_all
  also have "(free_memory st p)\<lparr>objects := \<lambda>q. if q \<in> set ps then None else objects (free_memory st p) q\<rparr> =
      st\<lparr>objects := \<lambda>q. if q \<in> set (p # ps) then None else objects st q\<rparr>"
    by (auto simp: free_memory_def fun_eq_iff)
  finally show ?case using Cons.prems(2) [of p] by simp
qed (simp add: fun_eq_iff)

lemma graph_inv_forget_all:
  assumes "finite Z"
  shows "graph_inv classes ext S Z [] H rc \<Longrightarrow> (\<And>z. z \<in> Z \<Longrightarrow> rc z = 0) \<Longrightarrow> graph_inv classes ext S {} [] H rc"
  using assms
proof (induction Z)
  case (insert z Z)
  have "graph_inv classes ext S (insert z Z - {z}) [] H rc" using insert.prems by (intro graph_inv_forget) auto
  moreover have "insert z Z - {z} = Z" using insert.hyps by auto
  ultimately show ?case using insert.IH insert.prems(2) by simp
qed

context class_laws begin

lemma gc_free_cycles_ok:
  assumes inv: "cycle_inv classes K ext S {} (st\<lparr>gc_phase := JS_GC_PHASE_REMOVE_CYCLES\<rparr>)"
  shows "\<exists>st'. gc_free_cycles classes st = Some st' \<and> heap_ok classes ext st' \<and> set (gc_obj_list st') = K \<and>
    gc_marked st' = gc_marked st \<and> (\<forall>q. objects st' q = (if q \<in> S - K then None else objects st q))"
proof -
  let ?st = "st\<lparr>gc_phase := JS_GC_PHASE_REMOVE_CYCLES\<rparr>"
  obtain st1 Z where 1: "gc_free_loop classes ?st = Some st1" "cycle_inv classes K ext K Z st1" "tmp_obj_list st1 = []"
    "set (zero_list st1) = Z" "swept_to ?st st1 S K {} Z" using gc_free_loop_inv [OF inv] by blast
  note i = cycle_invD [OF 1(2)]
  let ?st1 = "st1\<lparr>gc_phase := JS_GC_PHASE_NONE\<rparr>"
  let ?H = "\<lambda>q. if q \<in> Z then None else objects st1 q"
  have "free_zombies (zero_list st1) ?st1 = Some (?st1\<lparr>objects := \<lambda>q. if q \<in> set (zero_list st1) then None else objects ?st1 q\<rparr>)"
    using i(3) graph_invD(4) [OF i(1)] 1(4) by (intro free_zombies_eq) auto
  moreover have "objects ?st1 = objects st1" by simp
  ultimately have "free_zombies (zero_list st1) ?st1 = Some (?st1\<lparr>objects := ?H\<rparr>)" by (simp only: 1(4))
  then have run: "gc_free_cycles classes st = Some (?st1\<lparr>objects := ?H, zero_list := []\<rparr>)"
    using 1(1,4) by (simp add: gc_free_cycles_def)
  have disj: "K \<inter> Z = {}" by (rule graph_invD(3) [OF i(1)])
  have zombie: "ref_count st1 z = 0" if z: "z \<in> Z" for z
  proof -
    have "z \<notin> K" using disj z by auto
    have "z \<notin> set (targets classes (objects st1) p)" if "p \<in> K" for p
      using i(10) that targets_owned \<open>z \<notin> K\<close> by (fastforce simp: kept_closed_def)
    then have "incoming classes (objects st1) K z = 0" by (simp add: incoming_def)
    with graph_invD(7) [OF i(1), of z] i(11) [OF \<open>z \<notin> K\<close>] z show ?thesis by simp
  qed
  have "graph_inv classes ext K {} [] (objects st1) (ref_count st1)"
    by (rule graph_inv_forget_all [OF graph_invD(2) [OF i(1)] i(1) zombie])
  then have g: "graph_inv classes ext K {} [] ?H (ref_count st1)"
    by (rule graph_inv_heap(1)) (use disj in auto)
  have pos: "0 < ref_count st1 q" if "q \<in> K" for q
    using graph_invD(7) [OF i(1), of q] i(7) [OF that] that by simp
  have "heap_ok classes ext (?st1\<lparr>objects := ?H, zero_list := []\<rparr>)"
    using g pos i(3,5) 1(3) by (simp add: heap_ok_graph)
  moreover have "?H q = (if q \<in> S - K then None else objects st q)" for q
    using 1(5) i(6) by (auto simp: swept_to_def)
  moreover have "gc_marked st1 = gc_marked st" using 1(5) by (simp add: swept_to_def)
  ultimately show ?thesis unfolding run using i(5)
    by (intro exI [of _ "?st1\<lparr>objects := ?H, zero_list := []\<rparr>"] conjI refl) simp_all
qed

end

subsection \<open>A whole collection\<close>

text \<open>What the program can still reach: the objects referenced from outside and what they own.\<close>

inductive alive :: "js_class_table \<Rightarrow> gc_heap \<Rightarrow> (obj \<Rightarrow> int) \<Rightarrow> obj \<Rightarrow> bool" for classes H ext where
  root: "0 < ext p \<Longrightarrow> alive classes H ext p"
| reference: "alive classes H ext p \<Longrightarrow> q \<in> set (targets classes H p) \<Longrightarrow> alive classes H ext q"

lemma truncate_simps [simp]:
  "ref_count (gc_runtime.truncate st) = ref_count st" "gc_marked (gc_runtime.truncate st) = gc_marked st"
  "gc_obj_list (gc_runtime.truncate st) = gc_obj_list st"
  by (simp_all add: gc_runtime.truncate_def)

lemma with_runtime_simps [simp]:
  "ref_count (with_runtime st rt) = ref_count rt" "gc_marked (with_runtime st rt) = gc_marked rt"
  "gc_obj_list (with_runtime st rt) = gc_obj_list rt" "tmp_obj_list (with_runtime st rt) = tmp_obj_list rt"
  "objects (with_runtime st rt) = objects st" "zero_list (with_runtime st rt) = zero_list st"
  by (simp_all add: with_runtime_def)

lemma heap_okD:
  assumes "heap_ok classes ext st" "p \<in> set (gc_obj_list st)"
  shows "\<exists>rs. owned classes (objects st) p = Some rs \<and> (\<forall>r \<in> set rs. ref_typed (objects st) r \<and> ref_target r \<in> set (gc_obj_list st))"
    "ref_count st p = ext p + incoming classes (objects st) (set (gc_obj_list st)) p"
  using assms unfolding heap_ok_def by blast+

context class_laws begin

lemma heap_children:
  assumes ok: "heap_ok classes ext st" and tidy: "\<And>p. p \<in> set (gc_obj_list st) \<Longrightarrow> tidy (objects st) p"
    and p: "p \<in> set (gc_obj_list st)"
  shows "\<exists>ms. mark_children (\<lambda>c. snd (classes c)) (objects st) p = Some ms \<and> mset ms = mset (targets classes (objects st) p) \<and>
    set ms \<subseteq> set (gc_obj_list st)"
proof -
  obtain rs where rs: "owned classes (objects st) p = Some rs" "\<forall>r \<in> set rs. ref_typed (objects st) r \<and> ref_target r \<in> set (gc_obj_list st)"
    using heap_okD(1) [OF ok p] by blast
  then obtain ms where ms: "mark_children (\<lambda>c. snd (classes c)) (objects st) p = Some ms" "mset ms = mset (map ref_target rs)"
    using mark_children_owned [OF rs(1) _ tidy [OF p]] by blast
  then have "set ms = ref_target ` set rs" using mset_eq_setD [of ms "map ref_target rs"] by simp
  with ms rs targets_owned [OF rs(1)] show ?thesis by auto
qed

lemma heap_refs:
  assumes ok: "heap_ok classes ext st" and tidy: "\<And>p. p \<in> set (gc_obj_list st) \<Longrightarrow> tidy (objects st) p"
  shows "refs (mark_children (\<lambda>c. snd (classes c)) (objects st)) (gc_obj_list st) q =
    incoming classes (objects st) (set (gc_obj_list st)) q"
proof -
  let ?ch = "mark_children (\<lambda>c. snd (classes c)) (objects st)"
  have "distinct (gc_obj_list st)" using ok by (simp add: heap_ok_def)
  then have "refs ?ch (gc_obj_list st) q = (\<Sum>p \<in> set (gc_obj_list st). int (count_list (kids ?ch p) q))"
    by (simp add: refs_def sum_list_distinct_conv_sum_set)
  also have "\<dots> = incoming classes (objects st) (set (gc_obj_list st)) q"
    unfolding incoming_def
  proof (rule sum.cong [OF refl])
    fix p assume "p \<in> set (gc_obj_list st)"
    then obtain ms where ms: "?ch p = Some ms" "mset ms = mset (targets classes (objects st) p)"
      using heap_children [OF ok tidy] by blast
    then have "count_list ms q = count_list (targets classes (objects st) p) q" by (metis count_mset)
    with ms(1) show "int (count_list (kids ?ch p) q) = int (count_list (targets classes (objects st) p) q)"
      by (simp add: kids_def)
  qed
  finally show ?thesis .
qed

lemma alive_reachable:
  assumes ok: "heap_ok classes ext st" and tidy: "\<And>p. p \<in> set (gc_obj_list st) \<Longrightarrow> tidy (objects st) p"
  shows "alive classes (objects st) ext p \<longleftrightarrow>
    gc_reachable (mark_children (\<lambda>c. snd (classes c)) (objects st)) (gc_obj_list st) (ref_count st) p" (is "_ \<longleftrightarrow> ?R p")
proof
  let ?ch = "mark_children (\<lambda>c. snd (classes c)) (objects st)"
  note ch = heap_children [OF ok tidy] and rc = heap_okD(2) [OF ok] and refs = heap_refs [OF ok tidy]
  assume "alive classes (objects st) ext p"
  then have "?R p \<and> p \<in> set (gc_obj_list st)"
  proof induction
    case (root p)
    then have "p \<in> set (gc_obj_list st)" using ok unfolding heap_ok_def by force
    with root rc [of p] refs [of p] show ?case by (auto intro: gc_reachable.external)
  next
    case (reference p q)
    obtain ms where ms: "?ch p = Some ms" "mset ms = mset (targets classes (objects st) p)" "set ms \<subseteq> set (gc_obj_list st)"
      using ch reference.IH by blast
    then have "q \<in> set ms" using mset_eq_setD [OF ms(2)] reference.hyps(2) by simp
    with gc_reachable.child [OF conjunct1 [OF reference.IH] ms(1)] ms(3) show ?case by blast
  qed
  then show "?R p" by simp
next
  let ?ch = "mark_children (\<lambda>c. snd (classes c)) (objects st)"
  note ch = heap_children [OF ok tidy] and rc = heap_okD(2) [OF ok] and refs = heap_refs [OF ok tidy]
  assume "?R p"
  then have "alive classes (objects st) ext p \<and> p \<in> set (gc_obj_list st)"
  proof induction
    case (external p)
    with rc [of p] refs [of p] show ?case by (auto intro: alive.root)
  next
    case (child q ms p)
    obtain ms' where "?ch q = Some ms'" "mset ms' = mset (targets classes (objects st) q)" "set ms' \<subseteq> set (gc_obj_list st)"
      using ch child.IH by blast
    then have "p \<in> set (targets classes (objects st) q)" "p \<in> set (gc_obj_list st)"
      using mset_eq_setD [of ms "targets classes (objects st) q"] child.hyps(2,3) by auto
    with child.IH show ?case by (auto intro: alive.reference)
  qed
  then show "alive classes (objects st) ext p" by simp
qed

lemma alive_kept:
  assumes ok: "heap_ok classes ext st" and K: "K = {p. alive classes (objects st) ext p}" "K \<subseteq> set (gc_obj_list st)"
  shows "kept_closed classes K (objects st)" "q \<in> K \<Longrightarrow> 0 < ext q + incoming classes (objects st) K q" "q \<notin> K \<Longrightarrow> ext q = 0"
proof -
  have fin: "finite K" using finite_subset [OF K(2)] by simp
  have ext: "0 \<le> ext p" for p using ok unfolding heap_ok_def by blast
  show "kept_closed classes K (objects st)"
    unfolding kept_closed_def
  proof
    fix p assume p: "p \<in> K"
    then obtain rs where rs: "owned classes (objects st) p = Some rs" "\<forall>r \<in> set rs. ref_typed (objects st) r"
      using heap_okD(1) [OF ok] K(2) by blast
    have "ref_target r \<in> K" if "r \<in> set rs" for r
    proof -
      have "ref_target r \<in> set (targets classes (objects st) p)" using targets_owned [OF rs(1)] that by simp
      with p show ?thesis unfolding K(1) by (auto intro: alive.reference)
    qed
    with rs show "\<exists>rs. owned classes (objects st) p = Some rs \<and> (\<forall>r \<in> set rs. ref_typed (objects st) r \<and> ref_target r \<in> K)" by blast
  qed
  show "ext q = 0" if "q \<notin> K" using that ext [of q] alive.root [of ext q classes "objects st"] unfolding K(1) by force
  assume "q \<in> K"
  then have "alive classes (objects st) ext q" by (simp add: K(1))
  then show "0 < ext q + incoming classes (objects st) K q"
  proof cases
    case root
    then show ?thesis using incoming_nonneg [of classes "objects st" K q] by linarith
  next
    case (reference p)
    then have "p \<in> K" by (simp add: K(1))
    then have "incoming classes (objects st) K q \<noteq> 0" using incoming_zero [OF fin] reference(2) by blast
    then show ?thesis using ext [of q] incoming_nonneg [of classes "objects st" K q] by linarith
  qed
qed

lemma JS_RunGC_ok:
  assumes ok: "heap_ok classes ext st" and tidy: "\<And>p. p \<in> set (gc_obj_list st) \<Longrightarrow> tidy (objects st) p"
    and marks: "\<And>p. p \<in> set (gc_obj_list st) \<Longrightarrow> gc_marked st p = 0 \<and> ref_count st p \<le> 2 ^ 31 - 1"
  shows "\<exists>st'. JS_RunGC classes st = Some st' \<and> heap_ok classes ext st' \<and> only_frees st st' \<and>
    set (gc_obj_list st') = {p. alive classes (objects st) ext p} \<and> (\<forall>p \<in> set (gc_obj_list st'). gc_marked st' p = 0)"
proof -
  let ?L = "gc_obj_list st" and ?ch = "mark_children (\<lambda>c. snd (classes c)) (objects st)"
  let ?K = "{p. alive classes (objects st) ext p}"
  have h: "gc_phase st = JS_GC_PHASE_NONE" "tmp_obj_list st = []" "zero_list st = []" "distinct ?L"
    and g: "graph_inv classes ext (set ?L) {} [] (objects st) (ref_count st)"
    using ok by (simp_all add: heap_ok_graph)
  have cl: "closed ?ch (set ?L)" unfolding closed_def using heap_children [OF ok tidy] by blast
  have bounds: "\<forall>p \<in> set ?L. refs ?ch ?L p \<le> ref_count st p \<and> ref_count st p \<le> 2 ^ 31 - 1"
    using heap_refs [OF ok tidy] heap_okD(2) [OF ok] marks graph_invD(8) [OF g] by simp
  obtain rt1 where rt1: "gc_decref (\<lambda>c. snd (classes c)) (objects st) (gc_runtime.truncate st) = Some rt1"
    "decref_inv ?L [] rt1" "\<forall>p. ref_count rt1 p = ref_count st p - refs ?ch ?L p"
    using gc_decref_eq [of "gc_runtime.truncate st" "\<lambda>c. snd (classes c)" "objects st"] h(4) marks cl bounds by auto
  obtain rt2 where rt2: "gc_scan (\<lambda>c. snd (classes c)) (objects st) rt1 = Some rt2"
    "distinct (gc_obj_list rt2 @ tmp_obj_list rt2)" "set (gc_obj_list rt2 @ tmp_obj_list rt2) = set ?L"
    "\<forall>p \<in> set (gc_obj_list rt2). gc_marked rt2 p = 0" "set (gc_obj_list rt2) = ?K" "\<forall>p \<in> set ?L. ref_count rt2 p = ref_count st p"
    using gc_scan_eq [OF rt1(2) h(4) cl rt1(3) bounds] alive_reachable [OF ok tidy] by auto
  have K: "?K \<subseteq> set ?L" using rt2(3,5) by auto
  let ?st = "(with_runtime st rt2)\<lparr>gc_phase := JS_GC_PHASE_REMOVE_CYCLES\<rparr>"
  have "graph_inv classes ext (set ?L) {} [] (objects st) (ref_count rt2)"
    by (rule graph_inv_heap(1) [OF g]) (use rt2(6) in auto)
  moreover have "list_inv classes ?K ext (set ?L \<union> {}) (set ?L) {} ?st"
    using rt2(2,3,5) h(3) K alive_kept(2) [OF ok refl K] by (auto simp: list_inv_def)
  ultimately have "cycle_inv classes ?K ext (set ?L) {} ?st"
    using h(3) alive_kept(1,3) [OF ok refl K] by (auto simp: cycle_inv_def free_inv_def)
  then obtain st' where st': "gc_free_cycles classes (with_runtime st rt2) = Some st'" "heap_ok classes ext st'"
    "set (gc_obj_list st') = ?K" "gc_marked st' = gc_marked rt2"
    "\<forall>q. objects st' q = (if q \<in> set ?L - ?K then None else objects st q)"
    using gc_free_cycles_ok [of ?K ext "set ?L" "with_runtime st rt2"] by auto
  have "JS_RunGC classes st = Some st'" using rt1(1) rt2(1) st'(1) by (simp add: JS_RunGC_def)
  moreover have "only_frees st st'" unfolding only_frees_def using st'(3,5) K by auto
  ultimately show ?thesis using st' rt2(4,5) by auto
qed

end

subsection \<open>The properties\<close>

text \<open>
  C1. Dropping a reference is safe.  In a consistent heap, \<open>JS_FreeValueRT\<close> on a value that the
  caller holds a reference to succeeds: the queue of \<open>free_zero_refcount\<close> empties, no assertion
  fails, no freed object is used, no object is freed twice.  Afterwards the heap is consistent
  again with one outside reference less, so every object without references is gone and no
  reference dangles; only the objects that are gone have changed.  Consistent heaps are those of \<open>heap_ok\<close>, without
  closures over the variables of running functions.
\<close>

lemma free_value_safe:
  assumes "\<And>c. entry_law (host c)" and "heap_ok (js_class_array host) ext st"
    and "JS_MarkValue v = [p]" and "is_value_object (objects st p)" and "0 < ext p"
  shows "\<exists>st'. JS_FreeValueRT (js_class_array host) st v = Some st' \<and>
    heap_ok (js_class_array host) (ext(p := ext p - 1)) st' \<and> only_frees st st'"
  by (rule class_laws.JS_FreeValueRT_ok [OF js_class_array_laws [OF assms(1)] assms(2-5)])

text \<open>Two objects of a cycle that nothing else references, and an object that the stack references.\<close>

definition example_gc_state :: gc_state where
  "example_gc_state =
     \<lparr>ref_count = (\<lambda>p. if p = 1 then 3 else 1), gc_marked = (\<lambda>p. 0), gc_obj_list = [1, 2, 3, 4], tmp_obj_list = [],
      objects = example_gc_heap, zero_list = [], gc_phase = JS_GC_PHASE_NONE\<rparr>"

abbreviation "example_ext \<equiv> (\<lambda>p :: obj. if p = 4 then 1 else 0 :: int)"

lemma example_owned:
  "owned (js_class_array (\<lambda>c. (None, None))) example_gc_heap 1 = Some []"
  "owned (js_class_array (\<lambda>c. (None, None))) example_gc_heap 2 = Some [Value_ref 3, Shape_ref 1]"
  "owned (js_class_array (\<lambda>c. (None, None))) example_gc_heap 3 = Some [Value_ref 2, Shape_ref 1]"
  "owned (js_class_array (\<lambda>c. (None, None))) example_gc_heap 4 = Some [Shape_ref 1]"
  by (simp_all add: owned_def example_gc_heap_def example_object_def free_property_def value_refs_def mark_values_def
      JS_MarkValue_def finalizer_refs_def js_class_array_def js_std_class_def_def mark_pointer_def)

lemma example_heap_ok: "heap_ok (js_class_array (\<lambda>c. (None, None))) example_ext example_gc_state"
  by (simp add: heap_ok_def example_gc_state_def incoming_def targets_def example_owned del: One_nat_def)
    (simp add: example_gc_heap_def example_object_def)

lemma free_value_safe_witness:
  "\<exists>st'. JS_FreeValueRT (js_class_array (\<lambda>c. (None, None))) example_gc_state (Js_object 4) = Some st' \<and>
    heap_ok (js_class_array (\<lambda>c. (None, None))) (example_ext(4 := example_ext 4 - 1)) st' \<and> only_frees example_gc_state st'"
  by (rule free_value_safe [OF _ example_heap_ok])
    (simp_all add: JS_MarkValue_def example_gc_state_def example_gc_heap_def example_object_def)

text \<open>
  C2. A collection frees the garbage and nothing else.  In a consistent heap whose objects are
  unmarked and whose deleted properties own nothing, \<open>JS_RunGC\<close> succeeds (no assertion fails, no
  freed object is used, all loops end) and leaves a consistent heap with the same outside references:
  the objects that are left are exactly those the program can reach, they are unchanged and unmarked
  for the next collection, and the memory of all others, cycles included, has been freed.
\<close>

lemma run_gc_collects:
  assumes "\<And>c. entry_law (host c)" and "heap_ok (js_class_array host) ext st"
    and "\<And>p. p \<in> set (gc_obj_list st) \<Longrightarrow> tidy (objects st) p"
    and "\<And>p. p \<in> set (gc_obj_list st) \<Longrightarrow> gc_marked st p = 0 \<and> ref_count st p \<le> 2 ^ 31 - 1"
  shows "\<exists>st'. JS_RunGC (js_class_array host) st = Some st' \<and> heap_ok (js_class_array host) ext st' \<and>
    only_frees st st' \<and> set (gc_obj_list st') = {p. alive (js_class_array host) (objects st) ext p} \<and>
    (\<forall>p \<in> set (gc_obj_list st'). gc_marked st' p = 0)"
  by (rule class_laws.JS_RunGC_ok [OF js_class_array_laws [OF assms(1)] assms(2-4)])

lemma run_gc_collects_witness:
  "\<exists>st'. JS_RunGC (js_class_array (\<lambda>c. (None, None))) example_gc_state = Some st' \<and>
    heap_ok (js_class_array (\<lambda>c. (None, None))) example_ext st' \<and> only_frees example_gc_state st' \<and>
    set (gc_obj_list st') = {p. alive (js_class_array (\<lambda>c. (None, None))) (objects example_gc_state) example_ext p} \<and>
    (\<forall>p \<in> set (gc_obj_list st'). gc_marked st' p = 0)"
proof (rule run_gc_collects [OF _ example_heap_ok])
  fix p assume "p \<in> set (gc_obj_list example_gc_state)"
  then have "p = 1 \<or> p = 2 \<or> p = 3 \<or> p = 4" by (simp add: example_gc_state_def)
  then show "tidy (objects example_gc_state) p"
    by (elim disjE) (simp_all add: tidy_def example_gc_state_def example_gc_heap_def example_object_def)
  show "gc_marked example_gc_state p = 0 \<and> ref_count example_gc_state p \<le> 2 ^ 31 - 1"
    by (simp add: example_gc_state_def)
qed simp

end
