(* ===== verification/Js_Value.thy ===== *)
theory Js_Value
  imports Bytes Js_String_Ops
begin

section \<open>Comparing and hashing values\<close>

text \<open>
  The values of the engine as far as equality looks at them (src/quickjs/quickjs.c), strict
  equality and the two relations \<open>SameValue\<close> and \<open>SameValueZero\<close> (\<open>js_strict_eq2\<close>), the comparison of
  big numbers of src/quickjs/libbf.c that it calls, and the hash of a key of a map
  (\<open>map_hash_key\<close>).  A double is its 64 bits; \<open>be\<close> is the byte order of the machine.
\<close>

subsection \<open>Big numbers\<close>

text \<open>\<open>tab\<close> has the \<open>len\<close> limbs of the number, the most significant one last.\<close>

record bf_num =
  bf_sign :: nat
  bf_expn :: int
  bf_tab :: "u64 list"

abbreviation (input) "BF_EXP_ZERO \<equiv> - (2 ^ 63) :: int"
abbreviation (input) "BF_EXP_INF \<equiv> 2 ^ 63 - 2 :: int"
abbreviation (input) "BF_EXP_NAN \<equiv> 2 ^ 63 - 1 :: int"

text \<open>An index below zero is a large unsigned number in C.\<close>

definition get_limbz :: "bf_num \<Rightarrow> int \<Rightarrow> u64" where
  "get_limbz a idx =
     (if idx < 0 \<or> int (length (bf_tab a)) \<le> idx then 0 else bf_tab a ! nat idx)"

fun bf_cmpu_loop :: "bf_num \<Rightarrow> bf_num \<Rightarrow> nat \<Rightarrow> nat \<Rightarrow> int" where
  "bf_cmpu_loop a b len 0 = 0"
| "bf_cmpu_loop a b len (Suc i) =
     (let v1 = get_limbz a (int (length (bf_tab a)) - int len + int i);
          v2 = get_limbz b (int (length (bf_tab b)) - int len + int i)
      in if v1 \<noteq> v2 then (if v1 < v2 then - 1 else 1) else bf_cmpu_loop a b len i)"

definition bf_cmpu :: "bf_num \<Rightarrow> bf_num \<Rightarrow> int" where
  "bf_cmpu a b =
     (if bf_expn a \<noteq> bf_expn b then (if bf_expn a < bf_expn b then - 1 else 1)
      else let len = max (length (bf_tab a)) (length (bf_tab b)) in bf_cmpu_loop a b len len)"

definition bf_cmp :: "bf_num \<Rightarrow> bf_num \<Rightarrow> int" where
  "bf_cmp a b =
     (if bf_expn a = BF_EXP_NAN \<or> bf_expn b = BF_EXP_NAN then 2
      else if bf_sign a \<noteq> bf_sign b then
        if bf_expn a = BF_EXP_ZERO \<and> bf_expn b = BF_EXP_ZERO then 0 else 1 - 2 * int (bf_sign a)
      else let res = bf_cmpu a b in if bf_sign a \<noteq> 0 then - res else res)"

definition bf_cmp_eq :: "bf_num \<Rightarrow> bf_num \<Rightarrow> bool" where
  "bf_cmp_eq a b \<longleftrightarrow> bf_cmp a b = 0"

subsection \<open>Doubles\<close>

definition float_isnan :: "u64 \<Rightarrow> bool" where
  "float_isnan d \<longleftrightarrow> take_bit 11 (drop_bit 52 d) = 0x7FF \<and> take_bit 52 d \<noteq> 0"

definition float_iszero :: "u64 \<Rightarrow> bool" where
  "float_iszero d \<longleftrightarrow> take_bit 63 d = 0"

text \<open>The comparison \<open>d1 == d2\<close> of C.\<close>

definition float_eq :: "u64 \<Rightarrow> u64 \<Rightarrow> bool" where
  "float_eq d1 d2 \<longleftrightarrow>
     \<not> float_isnan d1 \<and> \<not> float_isnan d2 \<and> (d1 = d2 \<or> float_iszero d1 \<and> float_iszero d2)"

abbreviation (input) "JS_FLOAT64_NAN \<equiv> 0x7FF8000000000000 :: u64"

text \<open>The conversion of an \<open>int32_t\<close> to \<open>double\<close>, which is exact: \<open>e\<close> is the position of the highest
  bit of the absolute value.\<close>

fun high_bit :: "nat \<Rightarrow> nat" where
  "high_bit n = (if n \<le> 1 then 0 else Suc (high_bit (n div 2)))"

declare high_bit.simps [simp del]

definition float_of_int32 :: "u32 \<Rightarrow> u64" where
  "float_of_int32 v =
     (if v = 0 then 0
      else let a = nat \<bar>sint v\<bar>; e = high_bit a
           in of_nat ((if sint v < 0 then 2 ^ 63 else 0) + (1023 + e) * 2 ^ 52 + (a - 2 ^ e) * 2 ^ (52 - e)))"

subsection \<open>Values\<close>

text \<open>A pointer is its address; a symbol has its \<open>atom_type\<close>.\<close>

datatype js_any =
  Val_big_int u64 bf_num | Val_symbol u64 nat | Val_string u64 js_string | Val_object u64
| Val_int u32 | Val_bool bool | Val_null | Val_undefined | Val_float64 u64

fun js_value_get_norm_tag :: "js_any \<Rightarrow> int" where
  "js_value_get_norm_tag (Val_big_int p a) = - 9"
| "js_value_get_norm_tag (Val_symbol p t) = - 8"
| "js_value_get_norm_tag (Val_string p s) = - 7"
| "js_value_get_norm_tag (Val_object p) = - 1"
| "js_value_get_norm_tag (Val_int v) = 0"
| "js_value_get_norm_tag (Val_bool b) = 1"
| "js_value_get_norm_tag Val_null = 2"
| "js_value_get_norm_tag Val_undefined = 3"
| "js_value_get_norm_tag (Val_float64 d) = 7"

datatype eq_mode = JS_EQ_STRICT | JS_EQ_SAME_VALUE | JS_EQ_SAME_VALUE_ZERO

definition number_test :: "eq_mode \<Rightarrow> u64 \<Rightarrow> u64 \<Rightarrow> bool" where
  "number_test mode d1 d2 =
     (if mode \<noteq> JS_EQ_STRICT then
        if float_isnan d1 \<or> float_isnan d2 then float_isnan d1 = float_isnan d2
        else if mode = JS_EQ_SAME_VALUE_ZERO then float_eq d1 d2
        else d1 = d2
      else float_eq d1 d2)"

text \<open>The operands are released by \<open>js_strict_eq2\<close> and have been duplicated by its callers.\<close>

definition js_strict_eq2 :: "bool \<Rightarrow> js_any \<Rightarrow> js_any \<Rightarrow> eq_mode \<Rightarrow> bool option" where
  "js_strict_eq2 be op1 op2 mode =
     (case op1 of
        Val_bool b1 \<Rightarrow> (case op2 of Val_bool b2 \<Rightarrow> Some (b1 = b2) | _ \<Rightarrow> Some False)
      | Val_null \<Rightarrow> Some (js_value_get_norm_tag op1 = js_value_get_norm_tag op2)
      | Val_undefined \<Rightarrow> Some (js_value_get_norm_tag op1 = js_value_get_norm_tag op2)
      | Val_string q1 p1 \<Rightarrow>
          (case op2 of
             Val_string q2 p2 \<Rightarrow> map_option (\<lambda>r. r = 0) (js_string_compare be p1 p2)
           | _ \<Rightarrow> Some False)
      | Val_symbol p1 t1 \<Rightarrow> (case op2 of Val_symbol p2 t2 \<Rightarrow> Some (p1 = p2) | _ \<Rightarrow> Some False)
      | Val_object p1 \<Rightarrow> (case op2 of Val_object p2 \<Rightarrow> Some (p1 = p2) | _ \<Rightarrow> Some False)
      | Val_int v1 \<Rightarrow>
          (case op2 of
             Val_int v2 \<Rightarrow> Some (number_test mode (float_of_int32 v1) (float_of_int32 v2))
           | Val_float64 d2 \<Rightarrow> Some (number_test mode (float_of_int32 v1) d2)
           | _ \<Rightarrow> Some False)
      | Val_float64 d1 \<Rightarrow>
          (case op2 of
             Val_float64 d2 \<Rightarrow> Some (number_test mode d1 d2)
           | Val_int v2 \<Rightarrow> Some (number_test mode d1 (float_of_int32 v2))
           | _ \<Rightarrow> Some False)
      | Val_big_int q1 a \<Rightarrow>
          (case op2 of Val_big_int q2 b \<Rightarrow> Some (bf_cmp_eq a b) | _ \<Rightarrow> Some False))"

definition js_strict_eq :: "bool \<Rightarrow> js_any \<Rightarrow> js_any \<Rightarrow> bool option" where
  "js_strict_eq be op1 op2 = js_strict_eq2 be op1 op2 JS_EQ_STRICT"

definition js_same_value :: "bool \<Rightarrow> js_any \<Rightarrow> js_any \<Rightarrow> bool option" where
  "js_same_value be op1 op2 = js_strict_eq2 be op1 op2 JS_EQ_SAME_VALUE"

definition js_same_value_zero :: "bool \<Rightarrow> js_any \<Rightarrow> js_any \<Rightarrow> bool option" where
  "js_same_value_zero be op1 op2 = js_strict_eq2 be op1 op2 JS_EQ_SAME_VALUE_ZERO"

subsection \<open>Keys of maps\<close>

definition map_normalize_key :: "js_any \<Rightarrow> js_any" where
  "map_normalize_key key =
     (case key of Val_float64 d \<Rightarrow> if float_iszero d then Val_int 0 else key | _ \<Rightarrow> key)"

definition hash_float64 :: "u64 \<Rightarrow> u32" where
  "hash_float64 d =
     ((ucast d XOR ucast (drop_bit 32 d)) * 3163) XOR 7"

definition map_hash_key :: "bool \<Rightarrow> js_any \<Rightarrow> u32 option" where
  "map_hash_key be key =
     (let tag = word_of_int (js_value_get_norm_tag key) :: u32 in
      case key of
        Val_bool b \<Rightarrow> Some (of_bool b XOR tag)
      | Val_string p s \<Rightarrow> map_option (\<lambda>h. h XOR tag) (hash_string be s 0)
      | Val_object p \<Rightarrow> Some (ucast p * 3163 XOR tag)
      | Val_symbol p t \<Rightarrow> Some (ucast p * 3163 XOR tag)
      | Val_int v \<Rightarrow> Some (hash_float64 (float_of_int32 v))
      | Val_big_int p a \<Rightarrow> Some (hash_string8 (concat (map (obj_bytes be 8) (bf_tab a))) 0 XOR tag)
      | Val_float64 d \<Rightarrow> Some (hash_float64 (if float_isnan d then JS_FLOAT64_NAN else d))
      | _ \<Rightarrow> Some (0 XOR tag))"
subsection \<open>Equality of values\<close>

text \<open>The key that a value stands for: equal values have equal keys.\<close>

datatype map_key =
  Key_big_int bool int "u64 list" | Key_symbol u64 | Key_string "u16 list" | Key_object u64
| Key_number u64 | Key_bool bool | Key_null | Key_undefined

definition number_key :: "u64 \<Rightarrow> u64" where
  "number_key d = (if float_isnan d then JS_FLOAT64_NAN else if float_iszero d then 0 else d)"

definition key_of :: "bool \<Rightarrow> js_any \<Rightarrow> map_key" where
  "key_of be v =
     (case v of
        Val_big_int p a \<Rightarrow> Key_big_int (bf_sign a \<noteq> 0 \<and> bf_expn a \<noteq> BF_EXP_ZERO) (bf_expn a) (bf_tab a)
      | Val_symbol p t \<Rightarrow> Key_symbol p
      | Val_string p s \<Rightarrow> Key_string (str_units be s)
      | Val_object p \<Rightarrow> Key_object p
      | Val_int i \<Rightarrow> Key_number (float_of_int32 i)
      | Val_bool b \<Rightarrow> Key_bool b
      | Val_null \<Rightarrow> Key_null
      | Val_undefined \<Rightarrow> Key_undefined
      | Val_float64 d \<Rightarrow> Key_number (number_key d))"

text \<open>A big number has no zero limb at its lower end; zero and the infinities have no limbs.\<close>

definition bf_ok :: "bf_num \<Rightarrow> bool" where
  "bf_ok a \<longleftrightarrow> bf_sign a \<le> 1 \<and> bf_expn a < BF_EXP_NAN \<and>
     (bf_expn a = BF_EXP_ZERO \<longrightarrow> bf_tab a = []) \<and> (bf_tab a \<noteq> [] \<longrightarrow> hd (bf_tab a) \<noteq> 0)"

definition value_ok :: "js_any \<Rightarrow> bool" where
  "value_ok v = (case v of Val_string p s \<Rightarrow> str_ok s | Val_big_int p a \<Rightarrow> bf_ok a | _ \<Rightarrow> True)"

lemma high_bit_bounds: "0 < n \<Longrightarrow> 2 ^ high_bit n \<le> n \<and> n < 2 * 2 ^ high_bit n"
proof (induction n rule: high_bit.induct)
  case (1 n)
  show ?case
  proof (cases "n \<le> 1")
    case False
    then have "2 ^ high_bit (n div 2) \<le> n div 2 \<and> n div 2 < 2 * 2 ^ high_bit (n div 2)" using 1 by simp
    with False show ?thesis by (subst (1 2) high_bit.simps) auto
  qed (use 1 in \<open>simp add: high_bit.simps\<close>)
qed

lemma float_of_int32_exponent:
  assumes "v \<noteq> 0"
  obtains e where "unat (float_of_int32 v) div 2 ^ 52 mod 2 ^ 11 = 1023 + e" "e \<le> 31"
proof -
  define a where "a = nat \<bar>sint v\<bar>"
  define e where "e = high_bit a"
  have "sint v \<noteq> 0"
  proof
    assume "sint v = 0"
    then have "v = 0" by (intro signed_word_eqI) simp
    with assms show False by simp
  qed
  then have a: "0 < a" "a \<le> 2 ^ 31" using sint_range_size [of v] by (auto simp: a_def word_size)
  have b: "2 ^ e \<le> a" "a < 2 * 2 ^ e" using high_bit_bounds [OF a(1)] by (simp_all add: e_def)
  have "(2 :: nat) ^ e \<le> 2 ^ 31" using b(1) a(2) by linarith
  then have e: "e \<le> 31" by (rule power_le_imp_le_exp [rotated]) simp
  define m where "m = (a - 2 ^ e) * 2 ^ (52 - e)"
  have "m < 2 ^ e * 2 ^ (52 - e)" unfolding m_def using b by (intro mult_strict_right_mono) auto
  also have "\<dots> = 2 ^ 52" using e by (simp add: power_add [symmetric])
  finally have m: "m < 2 ^ 52" .
  define k where "k = (if sint v < 0 then 2048 else 0) + (1023 + e)"
  have k: "k < 4096" "k mod 2048 = 1023 + e"
  proof -
    have "(2048 + (1023 + e)) mod 2048 = 1023 + e" unfolding mod_add_self1 using e by simp
    then show "k < 4096" "k mod 2048 = 1023 + e" using e by (cases "sint v < 0"; simp only: k_def if_True if_False; simp)+
  qed
  have "(if sint v < 0 then 2 ^ 63 else 0) + (1023 + e) * 2 ^ 52 + m = m + k * 2 ^ 52" by (simp add: k_def)
  then have "float_of_int32 v = of_nat (m + k * 2 ^ 52)"
    unfolding float_of_int32_def a_def [symmetric] Let_def e_def [symmetric] m_def [symmetric] using assms by (simp only: if_False)
  moreover have "m + k * 2 ^ 52 < 2 ^ 64" using k(1) m by simp
  ultimately have "unat (float_of_int32 v) = m + k * 2 ^ 52"
    by (simp add: unat_of_nat del: of_nat_add of_nat_mult)
  moreover have "(m + k * 2 ^ 52) div 2 ^ 52 = k" using m by (simp only: div_mult_self1) simp
  ultimately show thesis using that [of e] k(2) e by simp
qed

lemma float_of_int32_number: "\<not> float_isnan (float_of_int32 v)"
proof (cases "v = 0")
  case True
  then show ?thesis by (simp add: float_of_int32_def float_isnan_def)
next
  case False
  then obtain e where b: "unat (float_of_int32 v) div 2 ^ 52 mod 2 ^ 11 = 1023 + e" "e \<le> 31" by (rule float_of_int32_exponent)
  then have "unat (take_bit 11 (drop_bit 52 (float_of_int32 v))) \<noteq> unat (0x7FF :: u64)" by (simp add: word_nat)
  then show ?thesis unfolding float_isnan_def by metis
qed

lemma float_of_int32_zero: "float_iszero (float_of_int32 v) \<longleftrightarrow> v = 0"
proof (cases "v = 0")
  case True
  then show ?thesis by (simp add: float_of_int32_def float_iszero_def)
next
  case False
  then obtain e where b: "unat (float_of_int32 v) div 2 ^ 52 mod 2 ^ 11 = 1023 + e" "e \<le> 31" by (rule float_of_int32_exponent)
  have "take_bit 63 (float_of_int32 v) \<noteq> 0"
  proof
    assume "take_bit 63 (float_of_int32 v) = 0"
    then have "unat (float_of_int32 v) mod 2 ^ 63 = 0" by (metis unat_take_bit unat_0)
    then obtain q where "unat (float_of_int32 v) = 2 ^ 63 * q" by (auto simp: dvd_def mod_eq_0_iff_dvd)
    then have "unat (float_of_int32 v) div 2 ^ 52 = 2 ^ 11 * q" by simp
    with b(1) show False by simp
  qed
  with False show ?thesis by (simp add: float_iszero_def)
qed

lemma number_key_int: "number_key (float_of_int32 i) = float_of_int32 i"
  by (simp add: number_key_def float_of_int32_number float_of_int32_zero) (simp add: float_of_int32_def)

lemma number_test_key: "number_test JS_EQ_SAME_VALUE_ZERO d1 d2 \<longleftrightarrow> number_key d1 = number_key d2"
proof -
  have "float_isnan JS_FLOAT64_NAN" "\<not> float_isnan 0" "float_iszero 0" "\<not> float_iszero JS_FLOAT64_NAN"
    by (simp_all add: float_isnan_def float_iszero_def)
  then show ?thesis unfolding number_test_def float_eq_def number_key_def by (auto split: if_splits)
qed

text \<open>The comparison of big numbers.\<close>

lemma bf_cmpu_loop_0:
  "bf_cmpu_loop a b len n = 0 \<longleftrightarrow>
    (\<forall>i < n. get_limbz a (int (length (bf_tab a)) - int len + int i) = get_limbz b (int (length (bf_tab b)) - int len + int i))"
  by (induction n) (auto simp: Let_def less_Suc_eq)

lemma bf_cmpu_0:
  assumes "bf_ok a" "bf_ok b"
  shows "bf_cmpu a b = 0 \<longleftrightarrow> bf_expn a = bf_expn b \<and> bf_tab a = bf_tab b"
proof -
  have same: "bf_tab x = bf_tab y" if ok: "bf_ok x" and le: "length (bf_tab y) \<le> length (bf_tab x)"
    and eq: "\<And>i. i < length (bf_tab x) \<Longrightarrow> get_limbz x (int i) = get_limbz y (int (length (bf_tab y)) - int (length (bf_tab x)) + int i)"
    for x y
  proof -
    have len: "length (bf_tab y) = length (bf_tab x)"
    proof (rule ccontr)
      assume "length (bf_tab y) \<noteq> length (bf_tab x)"
      with le have "length (bf_tab y) < length (bf_tab x)" by simp
      then have "bf_tab x \<noteq> []" by auto
      with eq [of 0] \<open>length (bf_tab y) < length (bf_tab x)\<close> have "bf_tab x ! 0 = 0" by (simp add: get_limbz_def)
      with \<open>bf_tab x \<noteq> []\<close> ok show False by (simp add: bf_ok_def hd_conv_nth)
    qed
    show ?thesis using eq by (intro nth_equalityI) (simp_all add: len get_limbz_def)
  qed
  show ?thesis
  proof
    assume z: "bf_cmpu a b = 0"
    then have e: "bf_expn a = bf_expn b" by (auto simp: bf_cmpu_def split: if_splits)
    have eq: "get_limbz a (int (length (bf_tab a)) - int (max (length (bf_tab a)) (length (bf_tab b))) + int i) =
        get_limbz b (int (length (bf_tab b)) - int (max (length (bf_tab a)) (length (bf_tab b))) + int i)"
      if "i < max (length (bf_tab a)) (length (bf_tab b))" for i
      using z e that by (simp add: bf_cmpu_def Let_def bf_cmpu_loop_0)
    have "bf_tab a = bf_tab b"
    proof (cases "length (bf_tab b) \<le> length (bf_tab a)")
      case True
      show ?thesis using eq True by (intro same [OF assms(1) True]) (simp add: max_absorb1)
    next
      case False
      then have le: "length (bf_tab a) \<le> length (bf_tab b)" by simp
      have "bf_tab b = bf_tab a" using eq le by (intro same [OF assms(2) le]) (simp add: max_absorb2)
      then show ?thesis ..
    qed
    with e show "bf_expn a = bf_expn b \<and> bf_tab a = bf_tab b" ..
  next
    assume e: "bf_expn a = bf_expn b \<and> bf_tab a = bf_tab b"
    then have "bf_cmpu_loop a b (length (bf_tab a)) (length (bf_tab a)) = 0"
      unfolding bf_cmpu_loop_0 by (simp add: get_limbz_def)
    with e show "bf_cmpu a b = 0" by (simp add: bf_cmpu_def Let_def)
  qed
qed

lemma bf_cmp_eq_iff:
  assumes "bf_ok a" "bf_ok b"
  shows "bf_cmp_eq a b \<longleftrightarrow> (bf_sign a \<noteq> 0 \<and> bf_expn a \<noteq> BF_EXP_ZERO) = (bf_sign b \<noteq> 0 \<and> bf_expn b \<noteq> BF_EXP_ZERO) \<and>
    bf_expn a = bf_expn b \<and> bf_tab a = bf_tab b"
proof -
  have fin: "bf_expn a \<noteq> BF_EXP_NAN" "bf_expn b \<noteq> BF_EXP_NAN" and zero: "bf_expn a = BF_EXP_ZERO \<Longrightarrow> bf_tab a = []"
    "bf_expn b = BF_EXP_ZERO \<Longrightarrow> bf_tab b = []" and sg: "bf_sign a \<le> 1" "bf_sign b \<le> 1"
    using assms by (auto simp: bf_ok_def)
  show ?thesis
  proof (cases "bf_sign a = bf_sign b")
    case True
    then have "bf_cmp_eq a b \<longleftrightarrow> bf_cmpu a b = 0" using fin by (simp add: bf_cmp_eq_def bf_cmp_def Let_def)
    with True show ?thesis by (auto simp: bf_cmpu_0 [OF assms])
  next
    case False
    have "1 - 2 * int (bf_sign a) \<noteq> 0" by presburger
    with False fin have "bf_cmp_eq a b \<longleftrightarrow> bf_expn a = BF_EXP_ZERO \<and> bf_expn b = BF_EXP_ZERO"
      by (simp add: bf_cmp_eq_def bf_cmp_def)
    moreover have "(bf_sign a \<noteq> 0) \<noteq> (bf_sign b \<noteq> 0)" using False sg by auto
    ultimately show ?thesis using zero by auto
  qed
qed

lemma same_value_zero_key:
  assumes "value_ok v1" "value_ok v2"
  shows "js_same_value_zero be v1 v2 = Some (key_of be v1 = key_of be v2)"
proof -
  have s: "map_option (\<lambda>r. r = 0) (js_string_compare be s1 s2) = Some (str_units be s1 = str_units be s2)"
    if ok: "str_ok s1" "str_ok s2" for s1 s2
  proof -
    obtain r where r: "js_string_compare be s1 s2 = Some r" "sgn r = units_cmp (str_units be s1) (str_units be s2)"
      using string_compare_units [OF ok, of be] by blast
    have "r = 0 \<longleftrightarrow> sgn r = 0" by (simp add: sgn_eq_0_iff)
    with r show ?thesis by (simp only: units_cmp_eq_0 option.map)
  qed
  have big: "bf_cmp_eq a b \<longleftrightarrow> key_of be (Val_big_int p a) = key_of be (Val_big_int q b)" if ok: "bf_ok a" "bf_ok b" for a b p q
    unfolding bf_cmp_eq_iff [OF ok] key_of_def by simp
  note defs = js_same_value_zero_def js_strict_eq2_def value_ok_def
  show ?thesis
  proof (cases v1)
    case (Val_big_int p a)
    note v1 = this
    show ?thesis
    proof (cases v2)
      case (Val_big_int q b)
      with v1 assms big [of a b p q] show ?thesis by (simp add: defs)
    qed (use v1 in \<open>simp_all add: defs key_of_def\<close>)
  next
    case (Val_string p x)
    with assms s show ?thesis by (cases v2) (simp_all add: defs, simp_all add: key_of_def)
  qed (use assms in \<open>cases v2; simp add: defs key_of_def number_test_key number_key_int\<close>)+
qed

text \<open>The hash of a key depends on what the key stands for.\<close>

definition hash_of_key :: "bool \<Rightarrow> map_key \<Rightarrow> u32" where
  "hash_of_key be k =
     (case k of
        Key_big_int s e tab \<Rightarrow> hash_string8 (concat (map (obj_bytes be 8) tab)) 0 XOR word_of_int (- 9)
      | Key_symbol p \<Rightarrow> ucast p * 3163 XOR word_of_int (- 8)
      | Key_string us \<Rightarrow> hash_string16 us 0 XOR word_of_int (- 7)
      | Key_object p \<Rightarrow> ucast p * 3163 XOR word_of_int (- 1)
      | Key_number d \<Rightarrow> hash_float64 d
      | Key_bool b \<Rightarrow> of_bool b XOR word_of_int 1
      | Key_null \<Rightarrow> word_of_int 2
      | Key_undefined \<Rightarrow> word_of_int 3)"

lemma map_hash_key_of:
  assumes "value_ok v" "map_normalize_key v = v"
  shows "map_hash_key be v = Some (hash_of_key be (key_of be v))"
  using assms
  by (cases v) (auto simp: map_hash_key_def hash_of_key_def key_of_def value_ok_def map_normalize_key_def Let_def
      hash_string_units number_key_int number_key_def split: if_splits)

lemma normalize_key [simp]:
  "map_normalize_key (map_normalize_key v) = map_normalize_key v" "key_of be (map_normalize_key v) = key_of be v"
  "value_ok v \<Longrightarrow> value_ok (map_normalize_key v)"
proof -
  show "map_normalize_key (map_normalize_key v) = map_normalize_key v" by (cases v) (simp_all add: map_normalize_key_def)
  show "value_ok v \<Longrightarrow> value_ok (map_normalize_key v)" by (cases v) (simp_all add: map_normalize_key_def value_ok_def)
  have "\<not> float_isnan d" if "float_iszero d" for d
  proof
    assume "float_isnan d"
    moreover have "take_bit 52 (take_bit 63 d) = 0" using that by (simp add: float_iszero_def)
    ultimately show False by (simp add: float_isnan_def take_bit_take_bit)
  qed
  then show "key_of be (map_normalize_key v) = key_of be v"
    by (cases v) (auto simp: map_normalize_key_def key_of_def float_of_int32_def number_key_def)
qed

subsection \<open>Equal keys\<close>

text \<open>
  C13.  Two values are the same key of a map (\<open>js_same_value_zero\<close>) exactly if they have the same
  canonical form - the double for numbers, with one NaN and one zero, the code units of a string whatever
  its representation, sign, exponent and limbs of a big integer, the address of an object or symbol -, and
  then, after \<open>map_normalize_key\<close>, \<open>map_hash_key\<close> gives both the same hash; so a lookup never misses a key because it was
  written in another representation.
\<close>

theorem equal_keys_hash:
  assumes "value_ok v1" "value_ok v2"
  shows "js_same_value_zero be v1 v2 = Some (key_of be v1 = key_of be v2) \<and>
    (\<exists>h1 h2. map_hash_key be (map_normalize_key v1) = Some h1 \<and> map_hash_key be (map_normalize_key v2) = Some h2 \<and>
      (key_of be v1 = key_of be v2 \<longrightarrow> h1 = h2))"
  using assms by (simp add: same_value_zero_key map_hash_key_of)

theorem equal_keys_hash_witness:
  "js_same_value_zero False (Val_int 1) (Val_float64 0x3FF0000000000000) = Some True \<and>
   map_hash_key False (map_normalize_key (Val_int 1)) = map_hash_key False (map_normalize_key (Val_float64 0x3FF0000000000000))"
proof -
  have ok: "value_ok (Val_int 1)" "value_ok (Val_float64 0x3FF0000000000000)" by (simp_all add: value_ok_def)
  have "key_of False (Val_int 1) = key_of False (Val_float64 0x3FF0000000000000)"
  proof -
    have "high_bit (Suc 0) = 0" by (subst high_bit.simps) simp
    then have "float_of_int32 1 = 0x3FF0000000000000" by (simp add: float_of_int32_def Let_def)
    moreover have "\<not> float_isnan 0x3FF0000000000000" "\<not> float_iszero 0x3FF0000000000000" by (simp_all add: float_isnan_def float_iszero_def)
    ultimately show ?thesis by (simp add: key_of_def number_key_def)
  qed
  with equal_keys_hash [OF ok, of False] show ?thesis by auto
qed

end
