(* ===== verification/Js_Map.thy ===== *)
theory Js_Map
  imports Js_Value
begin

section \<open>Maps and sets\<close>

text \<open>
  The objects \<open>Map\<close>, \<open>Set\<close>, \<open>WeakMap\<close> and \<open>WeakSet\<close> (src/quickjs/quickjs.c): a list of records in
  the order of insertion, a hash table of lists of the same records, and iterators that lock the record
  they stand on, so that a deleted record stays in the list, empty, until no iterator needs it.
  A record is an address; the intrusive lists \<open>records\<close> and the buckets of \<open>hash_table\<close> are lists of
  records.  \<open>dup_count\<close> counts the references to values that the map and its callers have taken:
  \<open>js_dup\<close> adds one, \<open>JS_FreeValue\<close> takes one away.  The allocator is an argument: \<open>mem\<close> is the address
  that \<open>js_malloc\<close> returns, \<open>slack\<close> what \<open>js_realloc2\<close> reports for a size.

  Giving back a reference may free an object and everything that only this object refers to, and the finalizer of
  an iterator changes the records of its map.  So an operation that gives references back works on the map together
  with its iterators (\<open>map_heap\<close>), and \<open>dies\<close> tells which of them end when a value is released.  It may depend on the
  whole state, so it can be any behaviour of the rest of the heap.  The map itself is held by the caller.
\<close>

subsection \<open>State\<close>

record map_record =
  mr_ref_count :: int
  mr_empty :: bool
  mr_key :: js_any
  mr_value :: js_any

record map_state =
  is_weak :: bool
  records :: "nat list"
  record_count :: u32
  hash_table :: "nat list list"
  hash_size :: u32
  record_count_threshold :: u32
  record_at :: "nat \<Rightarrow> map_record option"
  dup_count :: "js_any \<Rightarrow> int"
  weak_refs :: "js_any \<Rightarrow> nat list"

text \<open>The state that \<open>js_map_constructor\<close> makes.\<close>

definition new_map_state :: "bool \<Rightarrow> map_state" where
  "new_map_state weak =
     \<lparr>is_weak = weak, records = [], record_count = 0, hash_table = [[]], hash_size = 1,
      record_count_threshold = 4, record_at = Map.empty, dup_count = (\<lambda>v. 0), weak_refs = (\<lambda>v. [])\<rparr>"

definition dup_value :: "map_state \<Rightarrow> js_any \<Rightarrow> map_state" where
  "dup_value s v = s\<lparr>dup_count := (dup_count s)(v := dup_count s v + 1)\<rparr>"

definition release_value :: "map_state \<Rightarrow> js_any \<Rightarrow> map_state" where
  "release_value s v = s\<lparr>dup_count := (dup_count s)(v := dup_count s v - 1)\<rparr>"

definition set_record :: "map_state \<Rightarrow> nat \<Rightarrow> map_record \<Rightarrow> map_state" where
  "set_record s p mr = s\<lparr>record_at := (record_at s)(p \<mapsto> mr)\<rparr>"

definition free_record :: "map_state \<Rightarrow> nat \<Rightarrow> map_state" where
  "free_record s p = s\<lparr>records := remove1 p (records s), record_at := (record_at s)(p := None)\<rparr>"

subsection \<open>The hash table\<close>

fun find_in_bucket :: "bool \<Rightarrow> map_state \<Rightarrow> nat list \<Rightarrow> js_any \<Rightarrow> nat option option" where
  "find_in_bucket be s [] key = Some None"
| "find_in_bucket be s (p # ps) key = do {
     mr \<leftarrow> record_at s p;
     same \<leftarrow> js_same_value_zero be (mr_key mr) key;
     if same then Some (Some p) else find_in_bucket be s ps key }"

definition map_find_record :: "bool \<Rightarrow> map_state \<Rightarrow> js_any \<Rightarrow> nat option option" where
  "map_find_record be s key = do {
     h \<leftarrow> map_hash_key be key;
     ps \<leftarrow> mem_get (hash_table s) (unat (h AND (hash_size s - 1)));
     find_in_bucket be s ps key }"

definition bucket_add_tail :: "bool \<Rightarrow> u32 \<Rightarrow> js_any \<Rightarrow> nat \<Rightarrow> nat list list \<Rightarrow> nat list list option" where
  "bucket_add_tail be n key p table = do {
     h \<leftarrow> map_hash_key be key;
     let i = unat (h AND (n - 1));
     ps \<leftarrow> mem_get table i;
     mem_set table i (ps @ [p]) }"

primrec rehash :: "bool \<Rightarrow> map_state \<Rightarrow> u32 \<Rightarrow> nat list \<Rightarrow> nat list list \<Rightarrow> nat list list option" where
  "rehash be s n [] table = Some table"
| "rehash be s n (p # ps) table = do {
     mr \<leftarrow> record_at s p;
     table \<leftarrow> (if mr_empty mr then Some table else bucket_add_tail be n (mr_key mr) p table);
     rehash be s n ps table }"

definition map_hash_resize :: "bool \<Rightarrow> (nat \<Rightarrow> nat option) \<Rightarrow> map_state \<Rightarrow> map_state option" where
  "map_hash_resize be slack s =
     (let new_hash_size = (if hash_size s = 1 then 4 else hash_size s * 2) in
      case slack (16 * unat new_hash_size) of
        None \<Rightarrow> Some s
      | Some extra \<Rightarrow> do {
          let new_hash_size = new_hash_size + of_nat (extra div 16);
          table \<leftarrow> rehash be s new_hash_size (records s) (replicate (unat new_hash_size) []);
          Some (s\<lparr>hash_table := table, hash_size := new_hash_size,
                  record_count_threshold := new_hash_size * 2\<rparr>) })"

text \<open>The result without an address is a failed allocation.  The value of a new record is set by
  the caller; \<open>wr_mem\<close> tells whether the weak reference can be allocated.\<close>

definition map_add_record ::
    "bool \<Rightarrow> (nat \<Rightarrow> nat option) \<Rightarrow> nat option \<Rightarrow> bool \<Rightarrow> map_state \<Rightarrow> js_any \<Rightarrow> (nat option \<times> map_state) option" where
  "map_add_record be slack mem wr_mem s key =
     (case mem of
        None \<Rightarrow> Some (None, s)
      | Some p \<Rightarrow>
          if is_weak s \<and> \<not> wr_mem then Some (None, s)
          else do {
            let s = (if is_weak s then s\<lparr>weak_refs := (weak_refs s)(key := p # weak_refs s key)\<rparr> else dup_value s key);
            let s = set_record s p \<lparr>mr_ref_count = 1, mr_empty = False, mr_key = key, mr_value = Val_undefined\<rparr>;
            table \<leftarrow> bucket_add_tail be (hash_size s) key p (hash_table s);
            let s = s\<lparr>hash_table := table, records := records s @ [p], record_count := record_count s + 1\<rparr>;
            s \<leftarrow> (if record_count s \<ge> record_count_threshold s then map_hash_resize be slack s else Some s);
            Some (Some p, s) })"

definition delete_map_weak_ref :: "map_state \<Rightarrow> js_any \<Rightarrow> nat \<Rightarrow> map_state option" where
  "delete_map_weak_ref s key p =
     (if p \<in> set (weak_refs s key)
      then Some (s\<lparr>weak_refs := (weak_refs s)(key := remove1 p (weak_refs s key))\<rparr>) else None)"

subsection \<open>Iterators and the release of values\<close>

datatype iterator_kind = JS_ITERATOR_KIND_KEY | JS_ITERATOR_KIND_VALUE | JS_ITERATOR_KIND_KEY_AND_VALUE

text \<open>\<open>it_done\<close>: the reference to the map has been dropped at the end.\<close>

record map_iterator =
  it_done :: bool
  it_kind :: iterator_kind
  it_cur :: "nat option"

definition map_decref_record :: "map_state \<Rightarrow> nat \<Rightarrow> map_state option" where
  "map_decref_record s p = do {
     mr \<leftarrow> record_at s p;
     let mr = mr\<lparr>mr_ref_count := mr_ref_count mr - 1\<rparr>;
     if mr_ref_count mr = 0 then (if mr_empty mr then Some (free_record s p) else None)
     else Some (set_record s p mr) }"

definition js_map_iterator_finalizer :: "map_state \<Rightarrow> map_iterator \<Rightarrow> map_state option" where
  "js_map_iterator_finalizer s it =
     (case it_cur it of None \<Rightarrow> Some s | Some p \<Rightarrow> map_decref_record s p)"

type_synonym map_heap = "map_state \<times> map_iterator list"
type_synonym deaths = "js_any \<Rightarrow> map_heap \<Rightarrow> nat list"

abbreviation (input) no_deaths :: deaths where
  "no_deaths \<equiv> \<lambda>v st. []"

primrec end_iterators :: "nat list \<Rightarrow> map_heap \<Rightarrow> map_heap option" where
  "end_iterators [] st = Some st"
| "end_iterators (i # is) st = do {
     it \<leftarrow> mem_get (snd st) i;
     s \<leftarrow> js_map_iterator_finalizer (fst st) it;
     end_iterators is (s, (snd st)[i := it\<lparr>it_done := True, it_cur := None\<rparr>]) }"

definition drop_value :: "deaths \<Rightarrow> js_any \<Rightarrow> map_heap \<Rightarrow> map_heap option" where
  "drop_value dies v st = end_iterators (dies v st) (release_value (fst st) v, snd st)"

subsection \<open>Deleting a record\<close>

definition map_delete_record :: "deaths \<Rightarrow> map_heap \<Rightarrow> nat \<Rightarrow> map_heap option" where
  "map_delete_record dies st p = (case st of (s, its) \<Rightarrow> do {
     mr \<leftarrow> record_at s p;
     if mr_empty mr then Some (s, its)
     else do {
       let s = s\<lparr>hash_table := map (remove1 p) (hash_table s)\<rparr>;
       (s, its) \<leftarrow> (if is_weak s then map_option (\<lambda>s. (s, its)) (delete_map_weak_ref s (mr_key mr) p)
                   else drop_value dies (mr_key mr) (s, its));
       mr \<leftarrow> record_at s p;
       (s, its) \<leftarrow> drop_value dies (mr_value mr) (s, its);
       mr \<leftarrow> record_at s p;
       let s = (if mr_ref_count mr - 1 = 0 then free_record s p
                else set_record s p \<lparr>mr_ref_count = mr_ref_count mr - 1, mr_empty = True,
                                     mr_key = Val_undefined, mr_value = Val_undefined\<rparr>);
       Some (s\<lparr>record_count := record_count s - 1\<rparr>, its) } })"

subsection \<open>The methods\<close>

abbreviation (input) "JS_ATOM_TYPE_GLOBAL_SYMBOL \<equiv> 2 :: nat"

definition is_valid_weakref_target :: "js_any \<Rightarrow> bool" where
  "is_valid_weakref_target val =
     (case val of Val_object p \<Rightarrow> True | Val_symbol p t \<Rightarrow> t \<noteq> JS_ATOM_TYPE_GLOBAL_SYMBOL | _ \<Rightarrow> False)"

text \<open>\<open>False\<close> is an exception.\<close>

definition js_map_set ::
    "bool \<Rightarrow> (nat \<Rightarrow> nat option) \<Rightarrow> nat option \<Rightarrow> bool \<Rightarrow> deaths \<Rightarrow> bool \<Rightarrow> map_heap \<Rightarrow> js_any \<Rightarrow> js_any \<Rightarrow> (bool \<times> map_heap) option" where
  "js_map_set be slack mem wr_mem dies is_set st key val = (case st of (s, its) \<Rightarrow>
     (let key = map_normalize_key key in
      if is_weak s \<and> \<not> is_valid_weakref_target key then Some (False, s, its)
      else do {
        let value = (if is_set then Val_undefined else val);
        found \<leftarrow> map_find_record be s key;
        (mr, s, its) \<leftarrow> (case found of
                          Some p \<Rightarrow> do {
                            mr \<leftarrow> record_at s p;
                            st \<leftarrow> drop_value dies (mr_value mr) (s, its);
                            Some (Some p, st) }
                        | None \<Rightarrow> do { (mr, s) \<leftarrow> map_add_record be slack mem wr_mem s key; Some (mr, s, its) });
        case mr of
          None \<Rightarrow> Some (False, s, its)
        | Some p \<Rightarrow> do {
            mr \<leftarrow> record_at s p;
            Some (True, set_record (dup_value s value) p (mr\<lparr>mr_value := value\<rparr>), its) } }))"

definition js_map_get :: "bool \<Rightarrow> map_state \<Rightarrow> js_any \<Rightarrow> (js_any \<times> map_state) option" where
  "js_map_get be s key = do {
     found \<leftarrow> map_find_record be s (map_normalize_key key);
     case found of
       None \<Rightarrow> Some (Val_undefined, s)
     | Some p \<Rightarrow> do { mr \<leftarrow> record_at s p; Some (mr_value mr, dup_value s (mr_value mr)) } }"

definition js_map_has :: "bool \<Rightarrow> map_state \<Rightarrow> js_any \<Rightarrow> bool option" where
  "js_map_has be s key = map_option (\<lambda>found. found \<noteq> None) (map_find_record be s (map_normalize_key key))"

definition js_map_delete :: "bool \<Rightarrow> deaths \<Rightarrow> map_heap \<Rightarrow> js_any \<Rightarrow> (bool \<times> map_heap) option" where
  "js_map_delete be dies st key = do {
     found \<leftarrow> map_find_record be (fst st) (map_normalize_key key);
     case found of
       None \<Rightarrow> Some (False, st)
     | Some p \<Rightarrow> map_option (\<lambda>st. (True, st)) (map_delete_record dies st p) }"

text \<open>The records behind a record; \<open>None\<close> when the record is not in the list, its link having been freed.\<close>

definition records_after :: "nat list \<Rightarrow> nat \<Rightarrow> nat list option" where
  "records_after ps p = (case dropWhile (\<lambda>q. q \<noteq> p) ps of [] \<Rightarrow> None | q # qs \<Rightarrow> Some qs)"

definition first_record :: "nat list \<Rightarrow> nat option" where
  "first_record ps = (case ps of [] \<Rightarrow> None | p # _ \<Rightarrow> Some p)"

text \<open>\<open>list_for_each_safe\<close>: the successor is read before the record is deleted.\<close>

partial_function (option) clear_loop :: "deaths \<Rightarrow> map_heap \<Rightarrow> nat option \<Rightarrow> map_heap option" where
  "clear_loop dies st el =
     (case el of
        None \<Rightarrow> Some st
      | Some p \<Rightarrow> do {
          ps \<leftarrow> records_after (records (fst st)) p;
          st \<leftarrow> map_delete_record dies st p;
          clear_loop dies st (first_record ps) })"

declare clear_loop.simps [code]

definition js_map_clear :: "deaths \<Rightarrow> map_heap \<Rightarrow> map_heap option" where
  "js_map_clear dies st = clear_loop dies st (first_record (records (fst st)))"

text \<open>On a map that has just been made and that nothing refers to yet, so it has no iterators.\<close>

definition new_map_set ::
    "bool \<Rightarrow> (nat \<Rightarrow> nat option) \<Rightarrow> nat option \<Rightarrow> bool \<Rightarrow> bool \<Rightarrow> map_state \<Rightarrow> js_any \<Rightarrow> js_any \<Rightarrow> (bool \<times> map_state) option" where
  "new_map_set be slack mem wr_mem is_set s key val =
     map_option (\<lambda>(ok, st). (ok, fst st)) (js_map_set be slack mem wr_mem no_deaths is_set (s, []) key val)"

definition new_map_delete :: "map_state \<Rightarrow> nat \<Rightarrow> map_state option" where
  "new_map_delete s p = map_option fst (map_delete_record no_deaths (s, []) p)"

definition js_map_get_size :: "map_state \<Rightarrow> u32" where
  "js_map_get_size s = record_count s"

subsection \<open>Iteration\<close>

definition new_map_iterator :: "iterator_kind \<Rightarrow> map_iterator" where
  "new_map_iterator kind = \<lparr>it_done = False, it_kind = kind, it_cur = None\<rparr>"

text \<open>\<open>obj\<close> and \<open>mem\<close> tell whether the object and its data can be allocated; \<open>None\<close> is an exception.\<close>

definition js_create_map_iterator :: "bool \<Rightarrow> bool \<Rightarrow> iterator_kind \<Rightarrow> map_iterator option" where
  "js_create_map_iterator obj mem kind = (if obj \<and> mem then Some (new_map_iterator kind) else None)"

primrec next_live :: "map_state \<Rightarrow> nat list \<Rightarrow> nat option option" where
  "next_live s [] = Some None"
| "next_live s (p # ps) = do { mr \<leftarrow> record_at s p; if mr_empty mr then next_live s ps else Some (Some p) }"

definition iterator_values :: "bool \<Rightarrow> iterator_kind \<Rightarrow> map_record \<Rightarrow> js_any list" where
  "iterator_values is_set kind mr =
     (let second = (if is_set then mr_key mr else mr_value mr) in
      case kind of
        JS_ITERATOR_KIND_KEY \<Rightarrow> [mr_key mr]
      | JS_ITERATOR_KIND_VALUE \<Rightarrow> [second]
      | JS_ITERATOR_KIND_KEY_AND_VALUE \<Rightarrow> [mr_key mr, second])"

text \<open>To the next record, which is locked; without one, the iteration ends.\<close>

definition iterator_advance :: "map_state \<Rightarrow> map_iterator \<Rightarrow> (nat option \<times> map_state \<times> map_iterator) option" where
  "iterator_advance s it =
     (if it_done it then Some (None, s, it)
      else do {
        (el, s) \<leftarrow> (case it_cur it of
                     None \<Rightarrow> Some (records s, s)
                   | Some p \<Rightarrow> do { el \<leftarrow> records_after (records s) p; s \<leftarrow> map_decref_record s p; Some (el, s) });
        found \<leftarrow> next_live s el;
        case found of
          None \<Rightarrow> Some (None, s, it\<lparr>it_done := True, it_cur := None\<rparr>)
        | Some p \<Rightarrow> do {
            mr \<leftarrow> record_at s p;
            let s = set_record s p (mr\<lparr>mr_ref_count := mr_ref_count mr + 1\<rparr>);
            Some (Some p, s, it\<lparr>it_cur := Some p\<rparr>) } })"

text \<open>The values of the next record, with a reference each; \<open>None\<close> is the end of the iteration.\<close>

definition iterator_next_values ::
    "bool \<Rightarrow> map_state \<Rightarrow> map_iterator \<Rightarrow> (js_any list option \<times> map_state \<times> map_iterator) option" where
  "iterator_next_values is_set s it = do {
     (found, s, it) \<leftarrow> iterator_advance s it;
     case found of
       None \<Rightarrow> Some (None, s, it)
     | Some p \<Rightarrow> do {
         mr \<leftarrow> record_at s p;
         let vs = iterator_values is_set (it_kind it) mr;
         Some (Some vs, fold (\<lambda>v s. dup_value s v) vs s, it) } }"

datatype iter_result = Iter_done | Iter_values "js_any list" | Iter_exception

text \<open>\<open>arr\<close> tells whether the array of a key and a value can be created.\<close>

definition js_map_iterator_next ::
    "bool \<Rightarrow> bool \<Rightarrow> map_state \<Rightarrow> map_iterator \<Rightarrow> (iter_result \<times> map_state \<times> map_iterator) option" where
  "js_map_iterator_next arr is_set s it =
     (if it_kind it = JS_ITERATOR_KIND_KEY_AND_VALUE \<and> \<not> arr then do {
        (found, s, it) \<leftarrow> iterator_advance s it;
        Some (if found = None then Iter_done else Iter_exception, s, it) }
      else do {
        (r, s, it) \<leftarrow> iterator_next_values is_set s it;
        Some (case r of None \<Rightarrow> Iter_done | Some vs \<Rightarrow> Iter_values vs, s, it) })"

text \<open>\<open>func\<close> is the call of the callback on the value and the key; its result \<open>None\<close> is an exception.
  One step: the record is locked during the call, its successor is read before the result of the call is
  released.\<close>

type_synonym map_callback = "js_any \<Rightarrow> js_any \<Rightarrow> map_heap \<Rightarrow> (js_any option \<times> map_heap) option"

definition forEach_call :: "map_callback \<Rightarrow> deaths \<Rightarrow> bool \<Rightarrow> map_heap \<Rightarrow> nat \<Rightarrow> map_record \<Rightarrow> (bool \<times> map_heap \<times> nat option) option" where
  "forEach_call func dies is_set st p mr = do {
     let s = set_record (fst st) p (mr\<lparr>mr_ref_count := mr_ref_count mr + 1\<rparr>);
     let key = mr_key mr;
     let s = dup_value s key;
     let value = (if is_set then key else mr_value mr);
     let s = (if is_set then s else dup_value s value);
     (ret, st) \<leftarrow> func value key (s, snd st);
     st \<leftarrow> drop_value dies value st;
     st \<leftarrow> (if is_set then Some st else drop_value dies key st);
     ps \<leftarrow> records_after (records (fst st)) p;
     s \<leftarrow> map_decref_record (fst st) p;
     case ret of
       None \<Rightarrow> Some (True, (s, snd st), first_record ps)
     | Some v \<Rightarrow> do { st \<leftarrow> drop_value dies v (s, snd st); Some (False, st, first_record ps) } }"

partial_function (option) js_map_forEach_loop ::
    "(map_heap \<Rightarrow> nat \<Rightarrow> map_record \<Rightarrow> (bool \<times> map_heap \<times> nat option) option) \<Rightarrow> map_heap \<Rightarrow> nat option \<Rightarrow>
      (bool \<times> map_heap) option" where
  "js_map_forEach_loop call st el =
     (case el of
        None \<Rightarrow> Some (True, st)
      | Some p \<Rightarrow> do {
          mr \<leftarrow> record_at (fst st) p;
          if \<not> mr_empty mr then do {
            r \<leftarrow> call st p mr;
            if fst r then Some (False, fst (snd r))
            else js_map_forEach_loop call (fst (snd r)) (snd (snd r)) }
          else do { ps \<leftarrow> records_after (records (fst st)) p; js_map_forEach_loop call st (first_record ps) } })"

definition js_map_forEach :: "map_callback \<Rightarrow> deaths \<Rightarrow> bool \<Rightarrow> map_heap \<Rightarrow> (bool \<times> map_heap) option" where
  "js_map_forEach func dies is_set st = js_map_forEach_loop (forEach_call func dies is_set) st (first_record (records (fst st)))"

end
