(* ===== verification/Js_Map_Spec.thy ===== *)
theory Js_Map_Spec
  imports Js_Map
begin

section \<open>The invariant of maps and sets\<close>

text \<open>
  The invariant of a map (\<open>core_ok\<close>, \<open>size_ok\<close>): the live records have pairwise different keys, every bucket of
  the hash table holds the live records of its keys, and the count is right.  Every operation on records
  keeps it: finding one gives the live record of the key, adding one (with the growth of the table),
  deleting one (freed at once or left empty for an iterator) and the release of an iterator's lock.
\<close>

subsection \<open>The invariant\<close>

definition live :: "map_state \<Rightarrow> nat \<Rightarrow> bool" where
  "live s p = (case record_at s p of None \<Rightarrow> False | Some mr \<Rightarrow> \<not> mr_empty mr)"

definition rec_key :: "map_state \<Rightarrow> nat \<Rightarrow> js_any" where
  "rec_key s p = (case record_at s p of None \<Rightarrow> Val_undefined | Some mr \<Rightarrow> mr_key mr)"

definition rec_value :: "map_state \<Rightarrow> nat \<Rightarrow> js_any" where
  "rec_value s p = (case record_at s p of None \<Rightarrow> Val_undefined | Some mr \<Rightarrow> mr_value mr)"

definition live_records :: "map_state \<Rightarrow> nat list" where
  "live_records s = filter (live s) (records s)"

definition key_ok :: "bool \<Rightarrow> js_any \<Rightarrow> bool" where
  "key_ok be k \<longleftrightarrow> value_ok k \<and> map_normalize_key k = k"

definition bucket :: "bool \<Rightarrow> u32 \<Rightarrow> js_any \<Rightarrow> nat" where
  "bucket be n k = unat (hash_of_key be (key_of be k) AND (n - 1))"

text \<open>Every bucket holds the records of its keys; the number of buckets need not be a power of two.\<close>

definition table_ok :: "bool \<Rightarrow> u32 \<Rightarrow> nat set \<Rightarrow> (nat \<Rightarrow> js_any) \<Rightarrow> nat list list \<Rightarrow> bool" where
  "table_ok be n L key table \<longleftrightarrow>
     length table = unat n \<and> 0 < unat n \<and>
     (\<forall>i < unat n. distinct (table ! i) \<and> set (table ! i) = {p \<in> L. bucket be n (key p) = i})"

definition core_ok :: "bool \<Rightarrow> map_state \<Rightarrow> bool" where
  "core_ok be s \<longleftrightarrow>
     \<not> is_weak s \<and> distinct (records s) \<and> (\<forall>p. record_at s p \<noteq> None \<longleftrightarrow> p \<in> set (records s)) \<and>
     (\<forall>p. live s p \<longrightarrow> key_ok be (rec_key s p)) \<and> inj_on (\<lambda>p. key_of be (rec_key s p)) {p. live s p} \<and>
     table_ok be (hash_size s) {p. live s p} (rec_key s) (hash_table s) \<and>
     unat (record_count s) = length (live_records s)"

lemma core_okD:
  assumes "core_ok be s"
  shows "\<not> is_weak s" "distinct (records s)" "record_at s p \<noteq> None \<longleftrightarrow> p \<in> set (records s)"
    "live s p \<Longrightarrow> key_ok be (rec_key s p)" "inj_on (\<lambda>p. key_of be (rec_key s p)) {p. live s p}"
    "table_ok be (hash_size s) {p. live s p} (rec_key s) (hash_table s)"
    "unat (record_count s) = length (live_records s)"
  using assms unfolding core_ok_def by blast+

lemma live_in_records: "core_ok be s \<Longrightarrow> live s p \<Longrightarrow> p \<in> set (records s)"
  using core_okD(3) [of be s p] by (auto simp: live_def split: option.splits)

lemma live_record: "live s p \<longleftrightarrow> (\<exists>mr. record_at s p = Some mr \<and> \<not> mr_empty mr)"
  by (auto simp: live_def split: option.splits)

lemma set_live_records: "core_ok be s \<Longrightarrow> set (live_records s) = {p. live s p}"
  using live_in_records by (auto simp: live_records_def)

lemma rec_simps: "record_at s p = Some mr \<Longrightarrow> rec_key s p = mr_key mr" "record_at s p = Some mr \<Longrightarrow> rec_value s p = mr_value mr"
  by (simp_all add: rec_key_def rec_value_def)

subsection \<open>The hash table\<close>

lemma bucket_less: "0 < unat n \<Longrightarrow> bucket be n k < unat n"
proof -
  assume "0 < unat n"
  moreover have "hash_of_key be (key_of be k) AND (n - 1) \<le> n - 1" by (rule word_and_le1)
  then have "bucket be n k \<le> unat (n - 1)" unfolding bucket_def by (simp add: word_le_nat_alt)
  moreover from \<open>0 < unat n\<close> have "unat (n - 1) = unat n - 1" by (intro unat_minus_one) auto
  ultimately show ?thesis by simp
qed

lemma map_hash_key_ok: "key_ok be k \<Longrightarrow> map_hash_key be k = Some (hash_of_key be (key_of be k))"
  by (simp add: key_ok_def map_hash_key_of)

lemma find_in_bucket_eq:
  "(\<And>p. p \<in> set ps \<Longrightarrow> live s p \<and> key_ok be (rec_key s p)) \<Longrightarrow> key_ok be k \<Longrightarrow>
    find_in_bucket be s ps k = Some (find (\<lambda>p. key_of be (rec_key s p) = key_of be k) ps)"
proof (induction ps)
  case (Cons p ps)
  obtain mr where mr: "record_at s p = Some mr" using Cons.prems(1) [of p] by (auto simp: live_record)
  moreover have "js_same_value_zero be (mr_key mr) k = Some (key_of be (rec_key s p) = key_of be k)"
    using Cons.prems(1) [of p] Cons.prems(2) mr by (simp add: same_value_zero_key key_ok_def rec_simps)
  ultimately show ?case using Cons by simp
qed simp

lemma map_find_record_eq:
  assumes ok: "core_ok be s" and k: "key_ok be k"
  shows "\<exists>r. map_find_record be s k = Some r \<and>
    (\<forall>p. r = Some p \<longleftrightarrow> live s p \<and> key_of be (rec_key s p) = key_of be k)"
proof -
  let ?n = "hash_size s" and ?P = "\<lambda>p. key_of be (rec_key s p) = key_of be k"
  let ?ps = "hash_table s ! bucket be ?n k"
  have t: "length (hash_table s) = unat ?n" "0 < unat ?n"
    "set ?ps = {p. live s p \<and> bucket be ?n (rec_key s p) = bucket be ?n k}"
    using core_okD(6) [OF ok] bucket_less [of ?n be k] by (auto simp: table_ok_def)
  have "find_in_bucket be s ?ps k = Some (find ?P ?ps)"
    by (rule find_in_bucket_eq [OF _ k]) (use t(3) core_okD(4) [OF ok] in auto)
  then have run: "map_find_record be s k = Some (find ?P ?ps)"
    using t bucket_less [OF t(2), of be k]
    by (simp add: map_find_record_def map_hash_key_ok [OF k] bucket_def [symmetric] mem_get_in)
  have in_bucket: "p \<in> set ?ps" if "live s p" "?P p" for p using t(3) that by (simp add: bucket_def)
  have unique: "p = q" if "live s p" "?P p" "live s q" "?P q" for p q
    using inj_onD [OF core_okD(5) [OF ok], of p q] that by simp
  have "find ?P ?ps = Some p \<longleftrightarrow> live s p \<and> ?P p" for p
  proof
    assume "find ?P ?ps = Some p"
    then have "p \<in> set ?ps" "?P p" by (auto simp: find_Some_iff)
    with t(3) show "live s p \<and> ?P p" by simp
  next
    assume p: "live s p \<and> ?P p"
    then have "find ?P ?ps \<noteq> None" using in_bucket [of p] by (auto simp: find_None_iff)
    then obtain q where q: "find ?P ?ps = Some q" by blast
    then have "q \<in> set ?ps" "?P q" by (auto simp: find_Some_iff)
    with t(3) p unique [of q p] q show "find ?P ?ps = Some p" by simp
  qed
  with run show ?thesis by blast
qed

lemma bucket_add_ok:
  assumes t: "table_ok be n L key table" and p: "p \<notin> L" "key_ok be (key' p)" and same: "\<And>q. q \<in> L \<Longrightarrow> key' q = key q"
  shows "\<exists>table'. bucket_add_tail be n (key' p) p table = Some table' \<and> table_ok be n (insert p L) key' table'"
proof -
  let ?i = "bucket be n (key' p)"
  have n: "length table = unat n" "0 < unat n" using t by (simp_all add: table_ok_def)
  have i: "?i < unat n" by (rule bucket_less [OF n(2)])
  have "bucket_add_tail be n (key' p) p table = Some (table[?i := table ! ?i @ [p]])"
    using i n(1) by (simp add: bucket_add_tail_def map_hash_key_ok [OF p(2)] bucket_def [symmetric] mem_get_in mem_set_in Let_def)
  moreover have "table_ok be n (insert p L) key' (table[?i := table ! ?i @ [p]])"
    unfolding table_ok_def
  proof (intro conjI allI impI)
    fix j assume j: "j < unat n"
    have b: "distinct (table ! j)" "set (table ! j) = {q \<in> L. bucket be n (key q) = j}" using t j by (simp_all add: table_ok_def)
    have L: "{q \<in> L. bucket be n (key' q) = j} = set (table ! j)" unfolding b(2) using same by auto
    have new: "table[?i := table ! ?i @ [p]] ! j = (if ?i = j then table ! j @ [p] else table ! j)"
      using n(1) i by (simp add: nth_list_update)
    show "distinct (table[?i := table ! ?i @ [p]] ! j)" unfolding new using b p(1) by simp
    have "{q \<in> insert p L. bucket be n (key' q) = j} = {q \<in> L. bucket be n (key' q) = j} \<union> (if ?i = j then {p} else {})" by auto
    then show "set (table[?i := table ! ?i @ [p]] ! j) = {q \<in> insert p L. bucket be n (key' q) = j}"
      unfolding new L by simp
  qed (use n in simp_all)
  ultimately show ?thesis by blast
qed

lemma table_empty: "0 < unat n \<Longrightarrow> table_ok be n {} key (replicate (unat n) [])"
  by (simp add: table_ok_def)

lemma rehash_ok:
  "table_ok be n L (rec_key s) table \<Longrightarrow> distinct ps \<Longrightarrow> L \<inter> set ps = {} \<Longrightarrow>
    (\<And>p. p \<in> set ps \<Longrightarrow> record_at s p \<noteq> None \<and> (live s p \<longrightarrow> key_ok be (rec_key s p))) \<Longrightarrow>
    \<exists>table'. rehash be s n ps table = Some table' \<and> table_ok be n (L \<union> {p \<in> set ps. live s p}) (rec_key s) table'"
proof (induction ps arbitrary: L table)
  case (Cons p ps)
  obtain mr where mr: "record_at s p = Some mr" using Cons.prems(4) [of p] by auto
  show ?case
  proof (cases "mr_empty mr")
    case True
    then have "\<not> live s p" using mr by (simp add: live_record)
    then have "{q \<in> set (p # ps). live s q} = {q \<in> set ps. live s q}" by auto
    with Cons.IH [OF Cons.prems(1)] Cons.prems mr True show ?thesis by simp
  next
    case False
    then have p: "live s p" using mr by (simp add: live_record)
    obtain t where t: "bucket_add_tail be n (rec_key s p) p table = Some t" "table_ok be n (insert p L) (rec_key s) t"
      using bucket_add_ok [OF Cons.prems(1), of p "rec_key s"] Cons.prems p by auto
    obtain t' where "rehash be s n ps t = Some t'" "table_ok be n (insert p L \<union> {q \<in> set ps. live s q}) (rec_key s) t'"
      using Cons.IH [OF t(2)] Cons.prems by auto
    moreover have "insert p L \<union> {q \<in> set ps. live s q} = L \<union> {q \<in> set (p # ps). live s q}" using p by auto
    ultimately show ?thesis using mr False t(1) by (simp add: rec_simps)
  qed
qed simp

lemma table_remove:
  assumes "table_ok be n L key table" "\<And>q. q \<in> L - {p} \<Longrightarrow> key' q = key q"
  shows "table_ok be n (L - {p}) key' (map (remove1 p) table)"
proof -
  have "{q \<in> L - {p}. bucket be n (key' q) = i} = {q \<in> L. bucket be n (key q) = i} - {p}" for i using assms(2) by auto
  then show ?thesis using assms(1) by (simp add: table_ok_def distinct_remove1)
qed

lemma table_cong: "table_ok be n L key table \<Longrightarrow> (\<And>q. q \<in> L \<Longrightarrow> key' q = key q) \<Longrightarrow> table_ok be n L key' table"
proof -
  assume t: "table_ok be n L key table" and k: "\<And>q. q \<in> L \<Longrightarrow> key' q = key q"
  have "{q \<in> L. bucket be n (key' q) = i} = {q \<in> L. bucket be n (key q) = i}" for i using k by auto
  with t show ?thesis by (simp add: table_ok_def)
qed
subsection \<open>Adding and removing records\<close>

text \<open>\<open>realloc\<close> gives less than twice the size it is asked for.\<close>

definition slack_ok :: "(nat \<Rightarrow> nat option) \<Rightarrow> bool" where
  "slack_ok slack \<longleftrightarrow> (\<forall>n extra. slack n = Some extra \<longrightarrow> extra \<le> n)"

definition size_ok :: "map_state \<Rightarrow> bool" where
  "size_ok s \<longleftrightarrow> hash_size s = 1 \<and> record_count_threshold s = 4 \<or>
     unat (record_count_threshold s) = 2 * unat (hash_size s) \<and> unat (hash_size s) < 2 ^ 30"

lemma live_table [simp]:
  "live (s\<lparr>hash_table := t\<rparr>) = live s" "live (s\<lparr>hash_size := n\<rparr>) = live s" "live (s\<lparr>record_count_threshold := n\<rparr>) = live s"
  "live (s\<lparr>record_count := n\<rparr>) = live s" "live (s\<lparr>records := ps\<rparr>) = live s" "live (s\<lparr>dup_count := d\<rparr>) = live s"
  "rec_key (s\<lparr>hash_table := t\<rparr>) = rec_key s" "rec_key (s\<lparr>hash_size := n\<rparr>) = rec_key s"
  "rec_key (s\<lparr>record_count_threshold := n\<rparr>) = rec_key s" "rec_key (s\<lparr>record_count := n\<rparr>) = rec_key s"
  "rec_key (s\<lparr>records := ps\<rparr>) = rec_key s" "rec_key (s\<lparr>dup_count := d\<rparr>) = rec_key s"
  "rec_value (s\<lparr>hash_table := t\<rparr>) = rec_value s" "rec_value (s\<lparr>hash_size := n\<rparr>) = rec_value s"
  "rec_value (s\<lparr>record_count_threshold := n\<rparr>) = rec_value s" "rec_value (s\<lparr>record_count := n\<rparr>) = rec_value s"
  "rec_value (s\<lparr>records := ps\<rparr>) = rec_value s" "rec_value (s\<lparr>dup_count := d\<rparr>) = rec_value s"
  by (simp_all add: fun_eq_iff live_def rec_key_def rec_value_def)

lemma live_records_table [simp]:
  "live_records (s\<lparr>hash_table := t\<rparr>) = live_records s" "live_records (s\<lparr>hash_size := n\<rparr>) = live_records s"
  "live_records (s\<lparr>record_count_threshold := n\<rparr>) = live_records s" "live_records (s\<lparr>record_count := c\<rparr>) = live_records s"
  "live_records (s\<lparr>dup_count := d\<rparr>) = live_records s"
  by (simp_all add: live_records_def)

lemma map_state_simps [simp]:
  "records (dup_value s v) = records s" "record_at (dup_value s v) = record_at s" "is_weak (dup_value s v) = is_weak s"
  "hash_table (dup_value s v) = hash_table s" "hash_size (dup_value s v) = hash_size s"
  "record_count (dup_value s v) = record_count s" "record_count_threshold (dup_value s v) = record_count_threshold s"
  "dup_count (dup_value s v) = (dup_count s)(v := dup_count s v + 1)"
  "records (release_value s v) = records s" "record_at (release_value s v) = record_at s" "is_weak (release_value s v) = is_weak s"
  "hash_table (release_value s v) = hash_table s" "hash_size (release_value s v) = hash_size s"
  "record_count (release_value s v) = record_count s" "record_count_threshold (release_value s v) = record_count_threshold s"
  "dup_count (release_value s v) = (dup_count s)(v := dup_count s v - 1)"
  "records (set_record s p mr) = records s" "record_at (set_record s p mr) = (record_at s)(p \<mapsto> mr)"
  "is_weak (set_record s p mr) = is_weak s" "hash_table (set_record s p mr) = hash_table s"
  "hash_size (set_record s p mr) = hash_size s" "record_count (set_record s p mr) = record_count s"
  "record_count_threshold (set_record s p mr) = record_count_threshold s" "dup_count (set_record s p mr) = dup_count s"
  "records (free_record s p) = remove1 p (records s)" "record_at (free_record s p) = (record_at s)(p := None)"
  "is_weak (free_record s p) = is_weak s" "hash_table (free_record s p) = hash_table s"
  "hash_size (free_record s p) = hash_size s" "record_count (free_record s p) = record_count s"
  "record_count_threshold (free_record s p) = record_count_threshold s" "dup_count (free_record s p) = dup_count s"
  by (simp_all add: dup_value_def release_value_def set_record_def free_record_def)

lemma rec_cong:
  "record_at s' = record_at s \<Longrightarrow> live s' = live s" "record_at s' = record_at s \<Longrightarrow> rec_key s' = rec_key s"
  "record_at s' = record_at s \<Longrightarrow> rec_value s' = rec_value s"
  by (simp_all add: fun_eq_iff live_def rec_key_def rec_value_def)

lemma unat_double: "unat (m :: u32) \<le> 2 ^ 29 \<Longrightarrow> unat (m * 2) = 2 * unat m"
  by (simp add: unat_mult_small)

lemma map_hash_resize_ok:
  assumes ok: "core_ok be s" and sz: "size_ok s" "slack_ok slack"
    and full: "record_count_threshold s \<le> record_count s" "unat (record_count s) \<le> 2 ^ 28"
  shows "\<exists>t n th. map_hash_resize be slack s = Some (s\<lparr>hash_table := t, hash_size := n, record_count_threshold := th\<rparr>) \<and>
    core_ok be (s\<lparr>hash_table := t, hash_size := n, record_count_threshold := th\<rparr>) \<and>
    size_ok (s\<lparr>hash_table := t, hash_size := n, record_count_threshold := th\<rparr>)"
proof -
  let ?n = "if hash_size s = 1 then 4 else hash_size s * 2"
  have n: "0 < unat ?n" "unat ?n \<le> 2 ^ 28"
  proof -
    have "0 < unat ?n \<and> unat ?n \<le> 2 ^ 28"
    proof (cases "hash_size s = 1")
      case False
      then have th: "unat (record_count_threshold s) = 2 * unat (hash_size s)" using sz(1) by (auto simp: size_ok_def)
      then have "2 * unat (hash_size s) \<le> 2 ^ 28" using full by (simp add: word_le_nat_alt)
      moreover have "0 < unat (hash_size s)" using core_okD(6) [OF ok] by (simp add: table_ok_def)
      moreover from calculation have "unat (hash_size s * 2) = unat (hash_size s) * 2" by (simp add: unat_mult_small)
      ultimately show ?thesis using False by simp
    qed simp
    then show "0 < unat ?n" "unat ?n \<le> 2 ^ 28" by simp_all
  qed
  show ?thesis
  proof (cases "slack (16 * unat ?n)")
    case None
    then have "map_hash_resize be slack s = Some s" by (simp add: map_hash_resize_def Let_def)
    with ok sz(1) show ?thesis
      by (intro exI [of _ "hash_table s"] exI [of _ "hash_size s"] exI [of _ "record_count_threshold s"]) simp
  next
    case (Some extra)
    let ?m = "?n + of_nat (extra div 16)"
    have "extra \<le> 16 * unat ?n" using Some sz(2) unfolding slack_ok_def by blast
    then have e: "extra div 16 \<le> unat ?n" by simp
    then have "unat (of_nat (extra div 16) :: u32) = extra div 16" using n(2) by (simp add: unat_of_nat)
    with e n have m: "unat ?m = unat ?n + extra div 16" "0 < unat ?m" "unat ?m \<le> 2 ^ 29" by (simp_all add: unat_plus_small)
    obtain t where t: "rehash be s ?m (records s) (replicate (unat ?m) []) = Some t"
      "table_ok be ?m ({} \<union> {p \<in> set (records s). live s p}) (rec_key s) t"
      using rehash_ok [OF table_empty [OF m(2)], of "records s"] core_okD(2-4) [OF ok] by blast
    have "{} \<union> {p \<in> set (records s). live s p} = {p. live s p}" using live_in_records [OF ok] by auto
    with t(2) have t2: "table_ok be ?m {p. live s p} (rec_key s) t" by simp
    have "unat (?m * 2) = 2 * unat ?m" by (rule unat_double [OF m(3)])
    then have "size_ok (s\<lparr>hash_table := t, hash_size := ?m, record_count_threshold := ?m * 2\<rparr>)"
      using m(3) by (simp add: size_ok_def)
    moreover have "core_ok be (s\<lparr>hash_table := t, hash_size := ?m, record_count_threshold := ?m * 2\<rparr>)"
      using core_okD [OF ok] t2 unfolding core_ok_def by simp
    moreover have "map_hash_resize be slack s = Some (s\<lparr>hash_table := t, hash_size := ?m, record_count_threshold := ?m * 2\<rparr>)"
      using Some t(1) by (simp only: map_hash_resize_def Let_def option.case bind.bind_lunit)
    ultimately show ?thesis by blast
  qed
qed

lemma live_set_record:
  "live (set_record s p mr) q = (if q = p then \<not> mr_empty mr else live s q)"
  "rec_key (set_record s p mr) q = (if q = p then mr_key mr else rec_key s q)"
  "rec_value (set_record s p mr) q = (if q = p then mr_value mr else rec_value s q)"
  by (simp_all add: live_def rec_key_def rec_value_def)

lemma live_free_record:
  "live (free_record s p) q = (q \<noteq> p \<and> live s q)" "q \<noteq> p \<Longrightarrow> rec_key (free_record s p) q = rec_key s q"
  "q \<noteq> p \<Longrightarrow> rec_value (free_record s p) q = rec_value s q"
  by (simp_all add: live_def rec_key_def rec_value_def)

text \<open>A new record at the end of the list.\<close>

definition with_record :: "map_state \<Rightarrow> nat \<Rightarrow> js_any \<Rightarrow> map_state" where
  "with_record s p key =
     (set_record (dup_value s key) p \<lparr>mr_ref_count = 1, mr_empty = False, mr_key = key, mr_value = Val_undefined\<rparr>)
     \<lparr>records := records s @ [p], record_count := record_count s + 1\<rparr>"

lemma map_add_record_ok:
  assumes ok: "core_ok be s" and sz: "size_ok s" "slack_ok slack" "length (live_records s) < 2 ^ 28"
    and p: "record_at s p = None" and k: "key_ok be key" "\<And>q. live s q \<Longrightarrow> key_of be (rec_key s q) \<noteq> key_of be key"
  shows "\<exists>t n th. map_add_record be slack (Some p) wr_mem s key =
      Some (Some p, (with_record s p key)\<lparr>hash_table := t, hash_size := n, record_count_threshold := th\<rparr>) \<and>
    core_ok be ((with_record s p key)\<lparr>hash_table := t, hash_size := n, record_count_threshold := th\<rparr>) \<and>
    size_ok ((with_record s p key)\<lparr>hash_table := t, hash_size := n, record_count_threshold := th\<rparr>)"
proof -
  let ?s = "with_record s p key"
  note c = core_okD [OF ok]
  have fields: "records ?s = records s @ [p]" "record_count ?s = record_count s + 1" "hash_size ?s = hash_size s"
    "record_count_threshold ?s = record_count_threshold s" "is_weak ?s = is_weak s"
    "record_at ?s = (record_at s)(p \<mapsto> \<lparr>mr_ref_count = 1, mr_empty = False, mr_key = key, mr_value = Val_undefined\<rparr>)"
    by (simp_all add: with_record_def)
  have live: "live ?s q = (q = p \<or> live s q)" and key: "rec_key ?s q = (if q = p then key else rec_key s q)" for q
    using fields(6) by (simp_all add: live_def rec_key_def)
  have pl: "\<not> live s p" using p by (simp add: live_def)
  have pr: "p \<notin> set (records s)" using c(3) [of p] p by simp
  have lives: "{q. live ?s q} = insert p {q. live s q}" using live by auto
  obtain t where t: "bucket_add_tail be (hash_size s) key p (hash_table s) = Some t"
    "table_ok be (hash_size s) {q. live ?s q} (rec_key ?s) t"
    using bucket_add_ok [OF c(6), of p "rec_key ?s"] pl k(1) key unfolding lives by fastforce
  have lr: "live_records ?s = live_records s @ [p]"
  proof -
    have "filter (live ?s) (records s) = filter (live s) (records s)" using live pr by (intro filter_cong) auto
    then show ?thesis using live [of p] by (simp add: live_records_def fields(1))
  qed
  have "unat (record_count s + 1) = unat (record_count s) + 1" using sz(3) c(7) by (simp add: unat_plus_small)
  then have count: "unat (record_count s + 1) = length (live_records ?s)" using c(7) lr by simp
  let ?t = "?s\<lparr>hash_table := t\<rparr>"
  have "core_ok be ?t"
    unfolding core_ok_def
  proof (intro conjI)
    show "inj_on (\<lambda>q. key_of be (rec_key ?t q)) {q. live ?t q}"
      using c(5) k(2) not_sym [OF k(2)] pl unfolding live_table lives by (auto simp: inj_on_def key split: if_splits)
    show "\<forall>q. live ?t q \<longrightarrow> key_ok be (rec_key ?t q)" using c(4) k(1) by (simp add: live key)
    show "\<forall>q. record_at ?t q \<noteq> None \<longleftrightarrow> q \<in> set (records ?t)" using c(3) by (simp add: fields)
    show "table_ok be (hash_size ?t) {q. live ?t q} (rec_key ?t) (hash_table ?t)" using t(2) by (simp add: fields)
  qed (use c(1,2) pr count in \<open>simp_all add: fields\<close>)
  note ok' = this
  have sz': "size_ok ?t" using sz(1) by (simp add: size_ok_def fields)
  have run: "map_add_record be slack (Some p) wr_mem s key =
      Option.bind (if record_count ?t \<ge> record_count_threshold ?t then map_hash_resize be slack ?t else Some ?t) (\<lambda>s. Some (Some p, s))"
  proof -
    have "(set_record (dup_value s key) p \<lparr>mr_ref_count = 1, mr_empty = False, mr_key = key, mr_value = Val_undefined\<rparr>)
        \<lparr>hash_table := t, records := records s @ [p], record_count := record_count s + 1\<rparr> = ?t"
      by (simp add: with_record_def)
    with c(1) t(1) show ?thesis by (simp add: map_add_record_def fields Let_def)
  qed
  show ?thesis
  proof (cases "record_count ?t \<ge> record_count_threshold ?t")
    case True
    have "unat (record_count ?t) \<le> 2 ^ 28" using count lr sz(3) by (simp add: fields)
    from map_hash_resize_ok [OF ok' sz' sz(2) True this] obtain t' n th where
      "map_hash_resize be slack ?t = Some (?t\<lparr>hash_table := t', hash_size := n, record_count_threshold := th\<rparr>)"
      "core_ok be (?t\<lparr>hash_table := t', hash_size := n, record_count_threshold := th\<rparr>)"
      "size_ok (?t\<lparr>hash_table := t', hash_size := n, record_count_threshold := th\<rparr>)" by blast
    with True show ?thesis unfolding run by (intro exI [of _ t'] exI [of _ n] exI [of _ th]) simp
  next
    case False
    with ok' sz' show ?thesis unfolding run
      by (intro exI [of _ t] exI [of _ "hash_size ?t"] exI [of _ "record_count_threshold ?t"]) simp
  qed
qed

text \<open>The invariant depends on the live records only; an empty record may stay in the list.\<close>

lemma core_ok_change:
  assumes ok: "core_ok be s" and same: "is_weak s' = is_weak s" "hash_size s' = hash_size s"
    and rec: "distinct (records s')" "\<And>q. record_at s' q \<noteq> None \<longleftrightarrow> q \<in> set (records s')"
    and live: "\<And>q. live s' q \<Longrightarrow> live s q \<and> rec_key s' q = rec_key s q"
    and tab: "table_ok be (hash_size s) {q. live s' q} (rec_key s') (hash_table s')"
    and count: "unat (record_count s') = length (live_records s')"
  shows "core_ok be s'"
  unfolding core_ok_def
proof (intro conjI allI)
  show "live s' p \<longrightarrow> key_ok be (rec_key s' p)" for p using live core_okD(4) [OF ok] by simp
  show "inj_on (\<lambda>p. key_of be (rec_key s' p)) {p. live s' p}"
    using core_okD(5) [OF ok] live by (simp add: inj_on_def)
  show "record_at s' p \<noteq> None \<longleftrightarrow> p \<in> set (records s')" for p by (rule rec(2))
qed (use same rec tab count core_okD(1) [OF ok] in simp_all)

lemma filter_neq_remove1: "distinct xs \<Longrightarrow> filter (\<lambda>q. q \<noteq> p) xs = remove1 p xs"
  unfolding distinct_remove1_removeAll removeAll_filter_not_eq by (rule filter_cong) auto

text \<open>The deletion without the finalizers.\<close>

lemma new_map_delete_eq:
  "record_at s p = Some mr \<Longrightarrow> \<not> mr_empty mr \<Longrightarrow> \<not> is_weak s \<Longrightarrow> new_map_delete s p =
    (let s = release_value (release_value (s\<lparr>hash_table := map (remove1 p) (hash_table s)\<rparr>) (mr_key mr)) (mr_value mr);
         s = (if mr_ref_count mr - 1 = 0 then free_record s p
              else set_record s p \<lparr>mr_ref_count = mr_ref_count mr - 1, mr_empty = True, mr_key = Val_undefined, mr_value = Val_undefined\<rparr>)
     in Some (s\<lparr>record_count := record_count s - 1\<rparr>))"
  by (simp add: new_map_delete_def map_delete_record_def drop_value_def release_value_def Let_def)

lemma new_map_delete_ok:
  assumes ok: "core_ok be s" and p: "record_at s p = Some mr" "\<not> mr_empty mr"
  shows "\<exists>s'. new_map_delete s p = Some s' \<and> core_ok be s' \<and> (size_ok s \<longrightarrow> size_ok s') \<and>
    records s' = (if mr_ref_count mr = 1 then remove1 p (records s) else records s) \<and>
    record_at s' = (record_at s)(p := if mr_ref_count mr = 1 then None
      else Some \<lparr>mr_ref_count = mr_ref_count mr - 1, mr_empty = True, mr_key = Val_undefined, mr_value = Val_undefined\<rparr>) \<and>
    dup_count s' = (\<lambda>v. dup_count s v - int (count_list [mr_key mr, mr_value mr] v)) \<and>
    live_records s' = filter (\<lambda>q. q \<noteq> p) (live_records s)"
proof -
  note c = core_okD [OF ok]
  let ?s1 = "release_value (release_value (s\<lparr>hash_table := map (remove1 p) (hash_table s)\<rparr>) (mr_key mr)) (mr_value mr)"
  let ?z = "\<lparr>mr_ref_count = mr_ref_count mr - 1, mr_empty = True, mr_key = Val_undefined, mr_value = Val_undefined\<rparr>"
  let ?s2 = "if mr_ref_count mr - 1 = 0 then free_record ?s1 p else set_record ?s1 p ?z"
  let ?s = "?s2\<lparr>record_count := record_count ?s2 - 1\<rparr>"
  have run: "new_map_delete s p = Some ?s" using p c(1) by (simp add: new_map_delete_eq Let_def)
  have pr: "p \<in> set (records s)" and pl: "live s p" using c(3) [of p] p by (auto simp: live_def)
  have fields: "records ?s = (if mr_ref_count mr = 1 then remove1 p (records s) else records s)"
    "record_at ?s = (record_at s)(p := if mr_ref_count mr = 1 then None else Some ?z)"
    "dup_count ?s = (\<lambda>v. dup_count s v - int (count_list [mr_key mr, mr_value mr] v))"
    "hash_table ?s = map (remove1 p) (hash_table s)" "hash_size ?s = hash_size s" "is_weak ?s = is_weak s"
    "record_count_threshold ?s = record_count_threshold s" "record_count ?s = record_count s - 1"
    by (auto simp: fun_eq_iff)
  have live: "live ?s q = (q \<noteq> p \<and> live s q)" and key: "q \<noteq> p \<Longrightarrow> rec_key ?s q = rec_key s q" for q
    unfolding live_def rec_key_def fields(2) by simp_all
  have lives: "{q. live ?s q} = {q. live s q} - {p}" using live by auto
  have lr: "live_records ?s = filter (\<lambda>q. q \<noteq> p) (live_records s)"
  proof -
    have "filter (live ?s) (records ?s) = filter (\<lambda>q. q \<noteq> p \<and> live s q) (records ?s)" using live by (intro filter_cong) auto
    also have "\<dots> = filter (\<lambda>q. q \<noteq> p \<and> live s q) (records s)"
      unfolding fields(1) using c(2) by (simp add: distinct_remove1_removeAll removeAll_filter_not_eq) (intro impI filter_cong; auto)
    finally show ?thesis by (simp add: live_records_def conj_commute)
  qed
  have pin: "p \<in> set (live_records s)" "distinct (live_records s)"
    using set_live_records [OF ok] pl c(2) by (simp_all add: live_records_def)
  then have len: "length (live_records s) = Suc (length (filter (\<lambda>q. q \<noteq> p) (live_records s)))"
    using length_pos_if_in_set [OF pin(1)] by (simp add: filter_neq_remove1 length_remove1)
  have "core_ok be ?s"
  proof (rule core_ok_change [OF ok])
    show "table_ok be (hash_size s) {q. live ?s q} (rec_key ?s) (hash_table ?s)"
      unfolding lives fields(4) by (rule table_remove [OF c(6)]) (use key in auto)
    have "record_count s \<noteq> 0" using c(7) len by auto
    then show "unat (record_count ?s) = length (live_records ?s)"
      unfolding lr fields(8) using c(7) len by (simp add: unat_minus_one)
    show "record_at ?s q \<noteq> None \<longleftrightarrow> q \<in> set (records ?s)" for q
      unfolding fields(1,2) using c(2) c(3) [of q] pr by auto
    show "live ?s q \<Longrightarrow> live s q \<and> rec_key ?s q = rec_key s q" for q using live key by blast
    show "distinct (records ?s)" unfolding fields(1) using c(2) by (simp add: distinct_remove1)
  qed (simp_all only: fields)
  moreover have "size_ok s \<longrightarrow> size_ok ?s" unfolding size_ok_def fields by simp
  ultimately show ?thesis using run fields(1-3) lr by blast
qed

lemma map_decref_record_ok:
  assumes ok: "core_ok be s" and p: "record_at s p = Some mr" and last: "mr_ref_count mr = 1 \<Longrightarrow> mr_empty mr"
  shows "\<exists>s'. map_decref_record s p = Some s' \<and> core_ok be s' \<and> (size_ok s \<longrightarrow> size_ok s') \<and>
    records s' = (if mr_ref_count mr = 1 then remove1 p (records s) else records s) \<and>
    record_at s' = (record_at s)(p := if mr_ref_count mr = 1 then None else Some (mr\<lparr>mr_ref_count := mr_ref_count mr - 1\<rparr>)) \<and>
    dup_count s' = dup_count s \<and> live_records s' = live_records s"
proof -
  note c = core_okD [OF ok]
  let ?m = "mr\<lparr>mr_ref_count := mr_ref_count mr - 1\<rparr>"
  let ?s = "if mr_ref_count mr = 1 then free_record s p else set_record s p ?m"
  have run: "map_decref_record s p = Some ?s" using p last by (simp add: map_decref_record_def Let_def)
  have pr: "p \<in> set (records s)" using c(3) [of p] p by auto
  have fields: "records ?s = (if mr_ref_count mr = 1 then remove1 p (records s) else records s)"
    "record_at ?s = (record_at s)(p := if mr_ref_count mr = 1 then None else Some ?m)"
    "dup_count ?s = dup_count s" "hash_table ?s = hash_table s" "hash_size ?s = hash_size s" "is_weak ?s = is_weak s"
    "record_count_threshold ?s = record_count_threshold s" "record_count ?s = record_count s"
    by auto
  have live: "live ?s = live s" and key: "live s q \<Longrightarrow> rec_key ?s q = rec_key s q" for q
    using p last unfolding fun_eq_iff live_def rec_key_def fields(2) by auto
  have lr: "live_records ?s = live_records s"
  proof (cases "mr_ref_count mr = 1")
    case True
    then have "\<not> live s p" using p last by (simp add: live_def)
    then have "filter (live s) (remove1 p (records s)) = filter (live s) (records s)"
      by (simp add: filter_remove1 remove1_idem)
    with True show ?thesis unfolding live_records_def live fields(1) by simp
  next
    case False
    with live show ?thesis by (simp add: live_records_def)
  qed
  have "core_ok be ?s"
  proof (rule core_ok_change [OF ok])
    show "table_ok be (hash_size s) {q. live ?s q} (rec_key ?s) (hash_table ?s)"
      unfolding live fields(4) by (rule table_cong [OF c(6)]) (use key in auto)
    show "unat (record_count ?s) = length (live_records ?s)" unfolding lr fields(8) by (rule c(7))
    show "record_at ?s q \<noteq> None \<longleftrightarrow> q \<in> set (records ?s)" for q
      unfolding fields(1,2) using c(2) c(3) [of q] pr by auto
    show "live ?s q \<Longrightarrow> live s q \<and> rec_key ?s q = rec_key s q" for q using key unfolding live by blast
    show "distinct (records ?s)" unfolding fields(1) using c(2) by (simp add: distinct_remove1)
  qed (simp_all only: fields)
  moreover have "size_ok s \<longrightarrow> size_ok ?s" unfolding size_ok_def fields by simp
  ultimately show ?thesis using run fields(1-3) lr by blast
qed

lemma map_set_record_ok:
  assumes ok: "core_ok be s" and p: "record_at s p = Some mr" and same: "mr_empty mr' = mr_empty mr" "mr_key mr' = mr_key mr"
  shows "core_ok be (set_record s p mr')" "live (set_record s p mr') = live s" "live_records (set_record s p mr') = live_records s"
    "rec_key (set_record s p mr') = rec_key s"
proof -
  show live: "live (set_record s p mr') = live s" using p same by (auto simp: fun_eq_iff live_set_record live_def)
  show key: "rec_key (set_record s p mr') = rec_key s" using p same by (auto simp: fun_eq_iff live_set_record rec_simps)
  show lr: "live_records (set_record s p mr') = live_records s" by (simp add: live_records_def live)
  show "core_ok be (set_record s p mr')"
    using core_okD [OF ok] core_okD(3) [OF ok, of p] p unfolding core_ok_def live key lr by auto
qed

lemma core_ok_counts: "core_ok be (s\<lparr>dup_count := d\<rparr>) = core_ok be s" "size_ok (s\<lparr>dup_count := d\<rparr>) = size_ok s"
  by (simp_all add: core_ok_def size_ok_def)

lemma value_counts: "dup_value s v = s\<lparr>dup_count := (dup_count s)(v := dup_count s v + 1)\<rparr>"
  "release_value s v = s\<lparr>dup_count := (dup_count s)(v := dup_count s v - 1)\<rparr>"
  by (simp_all add: dup_value_def release_value_def)


end
