(* ===== verification/Simulation.thy ===== *)
theory Simulation
  imports Prelude
begin

section \<open>Simulations\<close>

text \<open>
  A component as a machine that executes operations (\<open>exec\<close>, where \<open>None\<close> is undefined behaviour), its
  specification as a relation between an abstract state, an operation, a result and the next abstract state,
  and the locale of a simulation: what is proved of one operation holds for every sequence of them.
\<close>

primrec run_ops :: "('op \<Rightarrow> 'c \<Rightarrow> ('out \<times> 'c) option) \<Rightarrow> 'op list \<Rightarrow> 'c \<Rightarrow> ('out list \<times> 'c) option" where
  "run_ops exec [] c = Some ([], c)"
| "run_ops exec (op # ops) c = do {
     (out, c) \<leftarrow> exec op c;
     (outs, c) \<leftarrow> run_ops exec ops c;
     Some (out # outs, c) }"

text \<open>The caller keeps its side in every state of the run.\<close>

primrec ops_ok :: "('op \<Rightarrow> 'c \<Rightarrow> ('out \<times> 'c) option) \<Rightarrow> ('op \<Rightarrow> 'c \<Rightarrow> bool) \<Rightarrow> 'op list \<Rightarrow> 'c \<Rightarrow> bool" where
  "ops_ok exec ok [] c \<longleftrightarrow> True"
| "ops_ok exec ok (op # ops) c \<longleftrightarrow>
     ok op c \<and> (case exec op c of None \<Rightarrow> True | Some (out, c) \<Rightarrow> ops_ok exec ok ops c)"

text \<open>The runs that a specification allows; a specification may be a function.\<close>

inductive spec_run :: "('op \<Rightarrow> 'a \<Rightarrow> 'out \<Rightarrow> 'a \<Rightarrow> bool) \<Rightarrow> 'op list \<Rightarrow> 'a \<Rightarrow> 'out list \<Rightarrow> 'a \<Rightarrow> bool" for spec where
  spec_done: "spec_run spec [] a [] a"
| spec_step: "spec op a out a' \<Longrightarrow> spec_run spec ops a' outs a'' \<Longrightarrow> spec_run spec (op # ops) a (out # outs) a''"

inductive_cases spec_run_NilE: "spec_run spec [] a outs a'"
inductive_cases spec_run_ConsE: "spec_run spec (op # ops) a outs a'"

primrec spec_ops :: "('op \<Rightarrow> 'a \<Rightarrow> 'out \<times> 'a) \<Rightarrow> 'op list \<Rightarrow> 'a \<Rightarrow> 'out list \<times> 'a" where
  "spec_ops spec [] a = ([], a)"
| "spec_ops spec (op # ops) a =
     (case spec op a of (out, a) \<Rightarrow> case spec_ops spec ops a of (outs, a) \<Rightarrow> (out # outs, a))"

lemma spec_run_function: "spec_run (\<lambda>op a out a'. f op a = (out, a')) ops a outs a' \<Longrightarrow> spec_ops f ops a = (outs, a')"
  by (induction rule: spec_run.induct) auto

locale simulation =
  fixes exec :: "'op \<Rightarrow> 'c \<Rightarrow> ('out \<times> 'c) option"
    and ok :: "'op \<Rightarrow> 'c \<Rightarrow> bool"
    and spec :: "'op \<Rightarrow> 'a \<Rightarrow> 'out \<Rightarrow> 'a \<Rightarrow> bool"
    and rel :: "'c \<Rightarrow> 'a \<Rightarrow> bool"
  assumes step: "rel c a \<Longrightarrow> ok op c \<Longrightarrow> \<exists>out c' a'. exec op c = Some (out, c') \<and> spec op a out a' \<and> rel c' a'"
begin

lemma run:
  "rel c a \<Longrightarrow> ops_ok exec ok ops c \<Longrightarrow>
    \<exists>outs c' a'. run_ops exec ops c = Some (outs, c') \<and> spec_run spec ops a outs a' \<and> rel c' a'"
proof (induction ops arbitrary: c a)
  case Nil
  then show ?case by (auto intro: spec_done)
next
  case (Cons op ops)
  obtain out c1 a1 where s: "exec op c = Some (out, c1)" "spec op a out a1" "rel c1 a1"
    using step [OF Cons.prems(1)] Cons.prems(2) by fastforce
  obtain outs c' a' where "run_ops exec ops c1 = Some (outs, c')" "spec_run spec ops a1 outs a'" "rel c' a'"
    using Cons.IH [OF s(3)] Cons.prems(2) s(1) by auto
  with s show ?case by (auto intro: spec_step)
qed

lemma defined: "rel c a \<Longrightarrow> ops_ok exec ok ops c \<Longrightarrow> run_ops exec ops c \<noteq> None"
  using run by fastforce

end

end
