(* ===== verification/Js_Map_Refine.thy ===== *)
theory Js_Map_Refine
  imports Js_Map_Spec Simulation
begin

section \<open>Maps refine ordered association lists\<close>

text \<open>
  An abstract map: the entries in the order of insertion, each with a serial number, and iterators that
  remember the serial number up to which they have come.  Every method and every step of an iterator
  gives the result of the abstract map, whatever is inserted or deleted between the steps and whichever iterators end
  because a value was released, and the references to values that the map holds are exactly those of its live records.
  The one exception is \<open>clear\<close>: it has read the next record when it releases a value, and the release may
  free that record (\<open>map_clear_use_after_free\<close>).
\<close>

subsection \<open>The abstract map\<close>

datatype iter_pos = At nat | Finished

text \<open>An entry is its serial number, its key and its value; \<open>am_lent\<close> counts the references to
  values that callers have received.\<close>

record abs_map =
  am_entries :: "(nat \<times> js_any \<times> js_any) list"
  am_next :: nat
  am_iters :: "(iterator_kind \<times> iter_pos) list"
  am_lent :: "js_any \<Rightarrow> int"

definition empty_abs_map :: abs_map where
  "empty_abs_map = \<lparr>am_entries = [], am_next = 0, am_iters = [], am_lent = (\<lambda>v. 0)\<rparr>"

datatype map_op =
  Op_set js_any js_any "nat option" deaths | Op_get js_any | Op_has js_any | Op_delete js_any deaths | Op_clear deaths | Op_size
| Op_iterate iterator_kind bool bool | Op_next nat bool | Op_drop nat

datatype map_out =
  Out_ok | Out_exception | Out_value js_any | Out_bool bool | Out_size nat | Out_next "js_any list option"

definition abs_lookup :: "bool \<Rightarrow> js_any \<Rightarrow> abs_map \<Rightarrow> (nat \<times> js_any \<times> js_any) option" where
  "abs_lookup be k m = find (\<lambda>(t, k', v). key_of be k' = key_of be k) (am_entries m)"

definition abs_lend :: "js_any list \<Rightarrow> abs_map \<Rightarrow> abs_map" where
  "abs_lend vs m = m\<lparr>am_lent := \<lambda>v. am_lent m v + int (count_list vs v)\<rparr>"

definition abs_set :: "bool \<Rightarrow> bool \<Rightarrow> js_any \<Rightarrow> js_any \<Rightarrow> nat option \<Rightarrow> abs_map \<Rightarrow> map_out \<times> abs_map" where
  "abs_set be is_set k val mem m =
     (let v = (if is_set then Val_undefined else val) in
      case abs_lookup be k m of
        Some e \<Rightarrow>
          (Out_ok, m\<lparr>am_entries := map (\<lambda>(t, k', v'). (t, k', if key_of be k' = key_of be k then v else v')) (am_entries m)\<rparr>)
      | None \<Rightarrow>
          (case mem of
             None \<Rightarrow> (Out_exception, m)
           | Some p \<Rightarrow>
               (Out_ok, m\<lparr>am_entries := am_entries m @ [(am_next m, map_normalize_key k, v)], am_next := Suc (am_next m)\<rparr>)))"

definition abs_advance :: "nat \<Rightarrow> abs_map \<Rightarrow> (nat \<times> js_any \<times> js_any) option \<times> abs_map" where
  "abs_advance i m =
     (case am_iters m ! i of
        (kind, Finished) \<Rightarrow> (None, m)
      | (kind, At t) \<Rightarrow>
          (case find (\<lambda>(t', k, v). t \<le> t') (am_entries m) of
             None \<Rightarrow> (None, m\<lparr>am_iters := (am_iters m)[i := (kind, Finished)]\<rparr>)
           | Some (t', k, v) \<Rightarrow> (Some (t', k, v), m\<lparr>am_iters := (am_iters m)[i := (kind, At (Suc t'))]\<rparr>)))"

definition abs_iter_next :: "bool \<Rightarrow> bool \<Rightarrow> nat \<Rightarrow> abs_map \<Rightarrow> map_out \<times> abs_map" where
  "abs_iter_next arr is_set i m =
     (let kind = fst (am_iters m ! i) in
      case abs_advance i m of
        (None, m) \<Rightarrow> (Out_next None, m)
      | (Some (t, k, v), m) \<Rightarrow>
          if kind = JS_ITERATOR_KIND_KEY_AND_VALUE \<and> \<not> arr then (Out_exception, m)
          else let vs = iterator_values is_set kind \<lparr>mr_ref_count = 0, mr_empty = False, mr_key = k, mr_value = v\<rparr>
               in (Out_next (Some vs), abs_lend vs m))"

fun abs_exec :: "bool \<Rightarrow> bool \<Rightarrow> map_op \<Rightarrow> abs_map \<Rightarrow> map_out \<times> abs_map" where
  "abs_exec be is_set (Op_set k v mem dies) m = abs_set be is_set k v mem m"
| "abs_exec be is_set (Op_get k) m =
     (case abs_lookup be k m of
        None \<Rightarrow> (Out_value Val_undefined, m) | Some (t, k', v) \<Rightarrow> (Out_value v, abs_lend [v] m))"
| "abs_exec be is_set (Op_has k) m = (Out_bool (abs_lookup be k m \<noteq> None), m)"
| "abs_exec be is_set (Op_delete k dies) m =
     (Out_bool (abs_lookup be k m \<noteq> None),
      m\<lparr>am_entries := filter (\<lambda>(t, k', v). key_of be k' \<noteq> key_of be k) (am_entries m)\<rparr>)"
| "abs_exec be is_set (Op_clear dies) m = (Out_ok, m\<lparr>am_entries := []\<rparr>)"
| "abs_exec be is_set Op_size m = (Out_size (length (am_entries m)), m)"
| "abs_exec be is_set (Op_iterate kind obj mem) m =
     (if obj \<and> mem then (Out_ok, m\<lparr>am_iters := am_iters m @ [(kind, At 0)]\<rparr>) else (Out_exception, m))"
| "abs_exec be is_set (Op_next i arr) m = abs_iter_next arr is_set i m"
| "abs_exec be is_set (Op_drop i) m = (Out_ok, m\<lparr>am_iters := (am_iters m)[i := (fst (am_iters m ! i), Finished)]\<rparr>)"

text \<open>The release of a value ends iterators, some of those that \<open>dies\<close> can name.\<close>

definition finish :: "nat set \<Rightarrow> abs_map \<Rightarrow> abs_map" where
  "finish D m = m\<lparr>am_iters := map (\<lambda>i. (fst (am_iters m ! i), if i \<in> D then Finished else snd (am_iters m ! i))) [0..<length (am_iters m)]\<rparr>"

definition may_die :: "deaths \<Rightarrow> nat set" where
  "may_die dies = {i. \<exists>v st. i \<in> set (dies v st)}"

fun op_deaths :: "map_op \<Rightarrow> nat set" where
  "op_deaths (Op_set k v mem dies) = may_die dies"
| "op_deaths (Op_delete k dies) = may_die dies"
| "op_deaths (Op_clear dies) = may_die dies"
| "op_deaths _ = {}"

definition abs_step :: "bool \<Rightarrow> bool \<Rightarrow> map_op \<Rightarrow> abs_map \<Rightarrow> map_out \<Rightarrow> abs_map \<Rightarrow> bool" where
  "abs_step be is_set op m out m' \<longleftrightarrow> (\<exists>D. D \<subseteq> op_deaths op \<and> out = fst (abs_exec be is_set op m) \<and> m' = finish D (snd (abs_exec be is_set op m)))"

text \<open>The same operations on the map of the engine and its iterators.\<close>

fun map_exec ::
    "bool \<Rightarrow> (nat \<Rightarrow> nat option) \<Rightarrow> bool \<Rightarrow> map_op \<Rightarrow> map_state \<times> map_iterator list \<Rightarrow> (map_out \<times> map_state \<times> map_iterator list) option" where
  "map_exec be slack is_set (Op_set k v mem dies) (s, its) = do {
     (ok, st) \<leftarrow> js_map_set be slack mem False dies is_set (s, its) k v;
     Some (if ok then Out_ok else Out_exception, st) }"
| "map_exec be slack is_set (Op_get k) (s, its) = do { (v, s) \<leftarrow> js_map_get be s k; Some (Out_value v, s, its) }"
| "map_exec be slack is_set (Op_has k) (s, its) = do { b \<leftarrow> js_map_has be s k; Some (Out_bool b, s, its) }"
| "map_exec be slack is_set (Op_delete k dies) (s, its) = do { (b, st) \<leftarrow> js_map_delete be dies (s, its) k; Some (Out_bool b, st) }"
| "map_exec be slack is_set (Op_clear dies) (s, its) = do { st \<leftarrow> js_map_clear dies (s, its); Some (Out_ok, st) }"
| "map_exec be slack is_set Op_size (s, its) = Some (Out_size (unat (js_map_get_size s)), s, its)"
| "map_exec be slack is_set (Op_iterate kind obj mem) (s, its) =
     (case js_create_map_iterator obj mem kind of
        None \<Rightarrow> Some (Out_exception, s, its) | Some it \<Rightarrow> Some (Out_ok, s, its @ [it]))"
| "map_exec be slack is_set (Op_next i arr) (s, its) = do {
     it \<leftarrow> mem_get its i;
     (r, s, it) \<leftarrow> js_map_iterator_next arr is_set s it;
     Some (case r of Iter_done \<Rightarrow> Out_next None | Iter_values vs \<Rightarrow> Out_next (Some vs) | Iter_exception \<Rightarrow> Out_exception,
           s, its[i := it]) }"
| "map_exec be slack is_set (Op_drop i) (s, its) = do {
     it \<leftarrow> mem_get its i;
     s \<leftarrow> js_map_iterator_finalizer s it;
     Some (Out_ok, s, its[i := it\<lparr>it_done := True, it_cur := None\<rparr>]) }"

text \<open>Keys are proper values, \<open>js_malloc\<close> returns fresh memory, there are fewer than 2 ^ 28 entries, and an
  iterator ends only if there is one.  For \<open>clear\<close>, no iterator ends that stands on a record already deleted.\<close>

fun map_op_ok :: "map_op \<Rightarrow> map_state \<times> map_iterator list \<Rightarrow> bool" where
  "map_op_ok (Op_set k v mem dies) (s, its) \<longleftrightarrow>
     value_ok k \<and> (case mem of None \<Rightarrow> True | Some p \<Rightarrow> record_at s p = None) \<and> length (live_records s) < 2 ^ 28 \<and>
     may_die dies \<subseteq> {..<length its}"
| "map_op_ok (Op_get k) (s, its) \<longleftrightarrow> value_ok k"
| "map_op_ok (Op_has k) (s, its) \<longleftrightarrow> value_ok k"
| "map_op_ok (Op_delete k dies) (s, its) \<longleftrightarrow> value_ok k \<and> may_die dies \<subseteq> {..<length its}"
| "map_op_ok (Op_clear dies) (s, its) \<longleftrightarrow>
     may_die dies \<subseteq> {..<length its} \<and> (\<forall>i \<in> may_die dies. \<forall>p. it_cur (its ! i) = Some p \<longrightarrow> live s p)"
| "map_op_ok (Op_next i arr) (s, its) \<longleftrightarrow> i < length its"
| "map_op_ok (Op_drop i) (s, its) \<longleftrightarrow> i < length its"
| "map_op_ok _ st \<longleftrightarrow> True"

subsection \<open>The relation\<close>

definition iter_abs :: "(nat \<Rightarrow> nat) \<Rightarrow> map_iterator \<Rightarrow> iterator_kind \<times> iter_pos" where
  "iter_abs ser it =
     (it_kind it, if it_done it then Finished else At (case it_cur it of None \<Rightarrow> 0 | Some p \<Rightarrow> Suc (ser p)))"

definition entries :: "(nat \<Rightarrow> nat) \<Rightarrow> map_state \<Rightarrow> (nat \<times> js_any \<times> js_any) list" where
  "entries ser s = map (\<lambda>p. (ser p, rec_key s p, rec_value s p)) (live_records s)"

text \<open>The references that the live records hold.\<close>

definition held :: "map_state \<Rightarrow> js_any \<Rightarrow> int" where
  "held s v = (\<Sum>p \<in> set (live_records s). int (count_list [rec_key s p, rec_value s p] v))"

definition locks_ok :: "map_iterator list \<Rightarrow> map_state \<Rightarrow> bool" where
  "locks_ok its s \<longleftrightarrow>
     (\<forall>p mr. record_at s p = Some mr \<longrightarrow>
        mr_ref_count mr = (if mr_empty mr then 0 else 1) + int (count_list (map it_cur its) (Some p)) \<and> 0 < mr_ref_count mr) \<and>
     (\<forall>it \<in> set its. (it_done it \<longrightarrow> it_cur it = None) \<and> (\<forall>p. it_cur it = Some p \<longrightarrow> p \<in> set (records s)))"

definition serials_ok :: "(nat \<Rightarrow> nat) \<Rightarrow> nat \<Rightarrow> map_state \<Rightarrow> bool" where
  "serials_ok ser n s \<longleftrightarrow> sorted_wrt (\<lambda>p q. ser p < ser q) (records s) \<and> (\<forall>p \<in> set (records s). ser p < n)"

definition map_rel :: "bool \<Rightarrow> (nat \<Rightarrow> nat) \<Rightarrow> map_state \<times> map_iterator list \<Rightarrow> abs_map \<Rightarrow> bool" where
  "map_rel be ser st m \<longleftrightarrow>
     (case st of (s, its) \<Rightarrow>
        core_ok be s \<and> size_ok s \<and> locks_ok its s \<and> serials_ok ser (am_next m) s \<and>
        am_entries m = entries ser s \<and> am_iters m = map (iter_abs ser) its \<and>
        (\<forall>v. dup_count s v = am_lent m v + held s v))"

subsection \<open>Looking up\<close>

lemma find_of_map: "find P (map f xs) = map_option f (find (\<lambda>x. P (f x)) xs)"
  by (induction xs) auto

lemma find_of_filter: "find P (filter Q xs) = find (\<lambda>x. Q x \<and> P x) xs"
  by (induction xs) auto

lemma find_of_append: "find P (xs @ ys) = (case find P xs of None \<Rightarrow> find P ys | Some x \<Rightarrow> Some x)"
  by (induction xs) auto

lemma find_nothing: "(\<And>y. y \<in> set xs \<Longrightarrow> \<not> P y) \<Longrightarrow> find P xs = None"
  by (simp add: find_None_iff)

lemma find_unique:
  assumes "x \<in> set xs" "P x" "\<And>y. y \<in> set xs \<Longrightarrow> P y \<Longrightarrow> y = x"
  shows "find P xs = Some x"
proof -
  obtain y where y: "find P xs = Some y" using assms(1,2) by (metis find_None_iff not_None_eq)
  then have "y \<in> set xs" "P y" by (auto simp: find_Some_iff)
  with assms(3) y show ?thesis by simp
qed

lemma normal_key: "value_ok k \<Longrightarrow> key_ok be (map_normalize_key k)" "key_of be (map_normalize_key k) = key_of be k"
  by (simp_all add: key_ok_def)

lemma abs_lookup_entries:
  "am_entries m = entries ser s \<Longrightarrow> abs_lookup be k m =
    map_option (\<lambda>p. (ser p, rec_key s p, rec_value s p)) (find (\<lambda>p. key_of be (rec_key s p) = key_of be k) (live_records s))"
  by (simp add: abs_lookup_def entries_def find_of_map)

lemma same_key:
  "core_ok be s \<Longrightarrow> live s p \<Longrightarrow> live s q \<Longrightarrow> key_of be (rec_key s p) = key_of be (rec_key s q) \<longleftrightarrow> p = q"
  using core_okD(5) [of be s] by (auto simp: inj_on_def)

lemma find_cases:
  assumes ok: "core_ok be s" and m: "am_entries m = entries ser s" and k: "value_ok k"
  obtains (found) p mr where "map_find_record be s (map_normalize_key k) = Some (Some p)" "record_at s p = Some mr"
      "\<not> mr_empty mr" "live s p" "key_of be (mr_key mr) = key_of be k" "abs_lookup be k m = Some (ser p, mr_key mr, mr_value mr)"
    | (missing) "map_find_record be s (map_normalize_key k) = Some None" "abs_lookup be k m = None"
      "\<And>p. live s p \<Longrightarrow> key_of be (rec_key s p) \<noteq> key_of be k"
proof -
  obtain r where r: "map_find_record be s (map_normalize_key k) = Some r"
    "\<And>p. r = Some p \<longleftrightarrow> live s p \<and> key_of be (rec_key s p) = key_of be k"
    using map_find_record_eq [OF ok normal_key(1) [OF k]] unfolding normal_key(2) by blast
  show ?thesis
  proof (cases r)
    case None
    then have no: "live s p \<Longrightarrow> key_of be (rec_key s p) \<noteq> key_of be k" for p using r(2) [of p] by simp
    then have "find (\<lambda>p. key_of be (rec_key s p) = key_of be k) (live_records s) = None"
      using set_live_records [OF ok] by (intro find_nothing) auto
    with None r(1) no show ?thesis using missing by (simp add: abs_lookup_entries [OF m])
  next
    case (Some p)
    then have p: "live s p" "key_of be (rec_key s p) = key_of be k" using r(2) [of p] by simp_all
    then have "find (\<lambda>p. key_of be (rec_key s p) = key_of be k) (live_records s) = Some p"
      using set_live_records [OF ok] same_key [OF ok _ p(1)] by (intro find_unique) auto
    moreover obtain mr where "record_at s p = Some mr" "\<not> mr_empty mr" using p(1) by (auto simp: live_record)
    ultimately show ?thesis using Some r(1) p found by (simp add: abs_lookup_entries [OF m] rec_simps)
  qed
qed

subsection \<open>The references held\<close>

lemma distinct_live: "core_ok be s \<Longrightarrow> distinct (live_records s)"
  using core_okD(2) [of be s] by (simp add: live_records_def)

lemma held_same:
  "(\<And>q. q \<in> A \<Longrightarrow> rec_key s' q = rec_key s q \<and> rec_value s' q = rec_value s q) \<Longrightarrow>
    (\<Sum>q \<in> A. int (count_list [rec_key s' q, rec_value s' q] v)) = (\<Sum>q \<in> A. int (count_list [rec_key s q, rec_value s q] v))"
  by (rule sum.cong) (simp_all del: count_list.simps)

lemma held_change:
  assumes p: "p \<in> set (live_records s)" and lr: "live_records s' = live_records s"
    and same: "\<And>q. q \<noteq> p \<Longrightarrow> rec_key s' q = rec_key s q \<and> rec_value s' q = rec_value s q"
  shows "held s' v = held s v - int (count_list [rec_key s p, rec_value s p] v) + int (count_list [rec_key s' p, rec_value s' p] v)"
proof -
  have "rec_key s' q = rec_key s q \<and> rec_value s' q = rec_value s q" if "q \<in> set (live_records s) - {p}" for q
    using that same by simp
  from held_same [of "set (live_records s) - {p}", OF this] show ?thesis using p unfolding held_def lr by (simp add: sum.remove [of _ p] del: count_list.simps)
qed

lemma held_remove:
  assumes p: "p \<in> set (live_records s)" and lr: "set (live_records s') = set (live_records s) - {p}"
    and same: "\<And>q. q \<noteq> p \<Longrightarrow> rec_key s' q = rec_key s q \<and> rec_value s' q = rec_value s q"
  shows "held s' v = held s v - int (count_list [rec_key s p, rec_value s p] v)"
proof -
  have "rec_key s' q = rec_key s q \<and> rec_value s' q = rec_value s q" if "q \<in> set (live_records s) - {p}" for q
    using that same by simp
  from held_same [of "set (live_records s) - {p}", OF this] show ?thesis using p unfolding held_def lr by (simp add: sum.remove [of _ p] del: count_list.simps)
qed

lemma held_add:
  assumes p: "p \<notin> set (live_records s)" and lr: "live_records s' = live_records s @ [p]"
    and same: "\<And>q. q \<noteq> p \<Longrightarrow> rec_key s' q = rec_key s q \<and> rec_value s' q = rec_value s q"
  shows "held s' v = held s v + int (count_list [rec_key s' p, rec_value s' p] v)"
proof -
  have "rec_key s' q = rec_key s q \<and> rec_value s' q = rec_value s q" if "q \<in> set (live_records s)" for q
    using that p same [of q] by blast
  from held_same [OF this] show ?thesis using p unfolding held_def lr by (simp del: count_list.simps)
qed

lemma entries_same:
  "live_records s' = live_records s \<Longrightarrow> (\<And>p. p \<in> set (live_records s) \<Longrightarrow> rec_key s' p = rec_key s p \<and> rec_value s' p = rec_value s p) \<Longrightarrow>
    entries ser s' = entries ser s \<and> held s' = held s"
  using held_same [of "set (live_records s)" s' s] by (simp add: entries_def held_def fun_eq_iff del: count_list.simps)

subsection \<open>Steps of the relation\<close>

lemma map_relD:
  assumes "map_rel be ser (s, its) m"
  shows "core_ok be s" "size_ok s" "locks_ok its s" "serials_ok ser (am_next m) s" "am_entries m = entries ser s"
    "am_iters m = map (iter_abs ser) its" "dup_count s v = am_lent m v + held s v"
  using assms by (simp_all add: map_rel_def)

lemma dup_count_parts:
  "held (s\<lparr>dup_count := d\<rparr>) = held s" "entries ser (s\<lparr>dup_count := d\<rparr>) = entries ser s"
  "locks_ok its (s\<lparr>dup_count := d\<rparr>) = locks_ok its s" "serials_ok ser n (s\<lparr>dup_count := d\<rparr>) = serials_ok ser n s"
  unfolding held_def fun_eq_iff entries_def locks_ok_def serials_ok_def live_table live_records_table by simp_all

lemma map_rel_dup:
  assumes "map_rel be ser (s, its) m"
  shows "map_rel be ser (s\<lparr>dup_count := \<lambda>v. dup_count s v + int (count_list vs v)\<rparr>, its) (abs_lend vs m)"
  using assms unfolding map_rel_def prod.case core_ok_counts dup_count_parts by (simp add: abs_lend_def)

lemma fold_dup: "fold (\<lambda>v s. dup_value s v) vs s = s\<lparr>dup_count := \<lambda>v. dup_count s v + int (count_list vs v)\<rparr>"
  by (induction vs arbitrary: s) (auto simp: dup_value_def fun_eq_iff)

lemma serials_inj: "serials_ok ser n s \<Longrightarrow> p \<in> set (records s) \<Longrightarrow> q \<in> set (records s) \<Longrightarrow> ser p = ser q \<longleftrightarrow> p = q"
  by (auto simp: serials_ok_def sorted_wrt_iff_nth_less in_set_conv_nth) (metis less_irrefl_nat linorder_neqE_nat)

lemma serials_remove: "serials_ok ser n s \<Longrightarrow> records s' = remove1 p (records s) \<or> records s' = records s \<Longrightarrow> serials_ok ser n s'"
proof -
  have "sorted_wrt R (remove1 p xs)" if "sorted_wrt R xs" for R and xs :: "nat list"
    using that
  proof (induction xs)
    case (Cons x xs)
    then show ?case using set_remove1_subset [of p xs] by auto
  qed simp
  then show "serials_ok ser n s \<Longrightarrow> records s' = remove1 p (records s) \<or> records s' = records s \<Longrightarrow> serials_ok ser n s'"
    using set_remove1_subset [of p "records s"] unfolding serials_ok_def by (elim disjE) auto
qed

lemma count_list_update:
  assumes "i < length xs"
  shows "int (count_list (xs[i := y]) x) = int (count_list xs x) - (if xs ! i = x then 1 else 0) + (if y = x then 1 else 0)"
proof -
  have "count_list (xs[i := y]) x + (if xs ! i = x then 1 else 0) = count_list xs x + (if y = x then 1 else 0)"
    using assms
  proof (induction xs arbitrary: i)
    case (Cons a xs)
    show ?case
    proof (cases i)
      case (Suc j)
      with Cons.IH [of j] Cons.prems show ?thesis by (simp split: if_splits)
    qed simp
  qed simp
  then show ?thesis by (simp split: if_splits)
qed

lemma locksD:
  assumes "locks_ok its s"
  shows "record_at s p = Some mr \<Longrightarrow>
      mr_ref_count mr = (if mr_empty mr then 0 else 1) + int (count_list (map it_cur its) (Some p)) \<and> 0 < mr_ref_count mr"
    "i < length its \<Longrightarrow> it_done (its ! i) \<Longrightarrow> it_cur (its ! i) = None"
    "i < length its \<Longrightarrow> it_cur (its ! i) = Some p \<Longrightarrow> p \<in> set (records s)"
  using assms unfolding locks_ok_def by (blast, auto)

lemma locksI:
  assumes "\<And>p mr. record_at s p = Some mr \<Longrightarrow>
      mr_ref_count mr = (if mr_empty mr then 0 else 1) + int (count_list (map it_cur its) (Some p)) \<and> 0 < mr_ref_count mr"
    and "\<And>i. i < length its \<Longrightarrow> it_done (its ! i) \<Longrightarrow> it_cur (its ! i) = None"
    and "\<And>i p. i < length its \<Longrightarrow> it_cur (its ! i) = Some p \<Longrightarrow> p \<in> set (records s)"
  shows "locks_ok its s"
  unfolding locks_ok_def
proof (intro conjI allI impI ballI)
  fix it assume "it \<in> set its"
  then obtain i where "i < length its" "its ! i = it" by (auto simp: in_set_conv_nth)
  with assms(2) [of i] assms(3) [of i] show "it_done it \<Longrightarrow> it_cur it = None" "it_cur it = Some p \<Longrightarrow> p \<in> set (records s)" for p
    by simp_all
qed (use assms(1) in blast)+

lemma count_lock: "i < length its \<Longrightarrow> it_cur (its ! i) = Some p \<Longrightarrow> 0 < count_list (map it_cur its) (Some p)"
  by (metis count_list_0_iff gr0I length_map nth_map nth_mem)

subsection \<open>Locking and unlocking\<close>

lemma unlock_rel:
  assumes rel: "map_rel be ser (s, its) m" and i: "i < length its" "its ! i = it" "it_cur it = Some p"
  shows "\<exists>s'. map_decref_record s p = Some s' \<and>
    map_rel be ser (s', its[i := it\<lparr>it_done := True, it_cur := None\<rparr>]) (m\<lparr>am_iters := (am_iters m)[i := (it_kind it, Finished)]\<rparr>) \<and>
    live_records s' = live_records s \<and> (\<forall>q. live s' q = live s q) \<and> (\<forall>q. q \<noteq> p \<longrightarrow> record_at s' q = record_at s q) \<and>
    (\<forall>q. live s q \<longrightarrow> rec_key s' q = rec_key s q \<and> rec_value s' q = rec_value s q) \<and>
    (records s' = records s \<or> records s' = remove1 p (records s) \<and> \<not> live s p)"
proof -
  note r = map_relD [OF rel] and l = locksD [OF map_relD(3) [OF rel]]
  let ?its = "its[i := it\<lparr>it_done := True, it_cur := None\<rparr>]"
  have pr: "p \<in> set (records s)" using l(3) i by blast
  then obtain mr where mr: "record_at s p = Some mr" using core_okD(3) [OF r(1), of p] by auto
  have cnt: "0 < count_list (map it_cur its) (Some p)" using count_lock i by blast
  then have last: "mr_ref_count mr = 1 \<Longrightarrow> mr_empty mr" using l(1) [OF mr] by (auto split: if_splits)
  obtain s' where s': "map_decref_record s p = Some s'" "core_ok be s'" "size_ok s'"
    "records s' = (if mr_ref_count mr = 1 then remove1 p (records s) else records s)"
    "record_at s' = (record_at s)(p := if mr_ref_count mr = 1 then None else Some (mr\<lparr>mr_ref_count := mr_ref_count mr - 1\<rparr>))"
    "dup_count s' = dup_count s" "live_records s' = live_records s"
    using map_decref_record_ok [OF r(1) mr last] r(2) by blast
  have live: "live s' q = live s q" "live s q \<Longrightarrow> rec_key s' q = rec_key s q" "live s q \<Longrightarrow> rec_value s' q = rec_value s q" for q
    using mr last s'(5) by (auto simp: live_def rec_key_def rec_value_def)
  have count: "int (count_list (map it_cur ?its) (Some q)) =
      int (count_list (map it_cur its) (Some q)) - (if q = p then 1 else 0)" for q
    using i by (simp add: map_update count_list_update)
  have locks: "locks_ok ?its s'"
  proof (rule locksI)
    fix q qr assume q: "record_at s' q = Some qr"
    show "mr_ref_count qr = (if mr_empty qr then 0 else 1) + int (count_list (map it_cur ?its) (Some q)) \<and> 0 < mr_ref_count qr"
    proof (cases "q = p")
      case True
      with q s'(5) have "qr = mr\<lparr>mr_ref_count := mr_ref_count mr - 1\<rparr>" "mr_ref_count mr \<noteq> 1" by (auto split: if_splits)
      with l(1) [OF mr] True show ?thesis unfolding count by simp
    next
      case False
      with q s'(5) have "record_at s q = Some qr" by simp
      with l(1) [OF this] False show ?thesis unfolding count by simp
    qed
  next
    fix j q assume j: "j < length ?its" "it_cur (?its ! j) = Some q"
    then have j': "j \<noteq> i" "j < length its" "it_cur (its ! j) = Some q" by (cases "j = i"; simp)+
    then have "q \<in> set (records s)" using l(3) by blast
    moreover have "mr_ref_count mr \<noteq> 1" if "q = p"
    proof -
      have "1 < count_list (map it_cur its) (Some p)"
        using count_lock [of j ?its p] count [of p] j j'(1,2) that by (simp add: nth_list_update)
      with l(1) [OF mr] show ?thesis by (simp split: if_splits)
    qed
    ultimately show "q \<in> set (records s')" using s'(4) by (cases "q = p") simp_all
  next
    fix j assume "j < length ?its" "it_done (?its ! j)"
    then show "it_cur (?its ! j) = None" using l(2) by (cases "j = i") simp_all
  qed
  have "entries ser s' = entries ser s \<and> held s' = held s"
    by (rule entries_same [OF s'(7)]) (use live set_live_records [OF r(1)] in auto)
  moreover have "serials_ok ser (am_next m) s'" by (rule serials_remove [OF r(4)]) (use s'(4) in auto)
  moreover have "am_iters (m\<lparr>am_iters := (am_iters m)[i := (it_kind it, Finished)]\<rparr>) = map (iter_abs ser) ?its"
    using r(6) by (simp add: map_update iter_abs_def)
  ultimately have "map_rel be ser (s', ?its) (m\<lparr>am_iters := (am_iters m)[i := (it_kind it, Finished)]\<rparr>)"
    using s'(2,3,6) locks r(5,7) by (simp add: map_rel_def)
  moreover have "records s' = records s \<or> records s' = remove1 p (records s) \<and> \<not> live s p"
    using s'(4) mr last by (auto simp: live_def)
  ultimately show ?thesis using s'(1,5,7) live by auto
qed

lemma lock_rel:
  assumes rel: "map_rel be ser (s, its) m" and i: "i < length its" "its ! i = it" "it_cur it = None"
    and q: "record_at s q = Some mr" "\<not> mr_empty mr"
  shows "map_rel be ser (set_record s q (mr\<lparr>mr_ref_count := mr_ref_count mr + 1\<rparr>), its[i := it\<lparr>it_done := False, it_cur := Some q\<rparr>])
    (m\<lparr>am_iters := (am_iters m)[i := (it_kind it, At (Suc (ser q)))]\<rparr>)"
proof -
  note r = map_relD [OF rel] and l = locksD [OF map_relD(3) [OF rel]]
  let ?its = "its[i := it\<lparr>it_done := False, it_cur := Some q\<rparr>]" and ?m = "mr\<lparr>mr_ref_count := mr_ref_count mr + 1\<rparr>"
  let ?s = "set_record s q ?m"
  have ok: "core_ok be ?s" "live_records ?s = live_records s"
    using map_set_record_ok [OF r(1) q(1), of ?m] by simp_all
  have "entries ser ?s = entries ser s \<and> held ?s = held s"
    by (rule entries_same [OF ok(2)]) (use q in \<open>simp add: live_set_record rec_simps\<close>)
  moreover have count: "int (count_list (map it_cur ?its) (Some p)) =
      int (count_list (map it_cur its) (Some p)) + (if q = p then 1 else 0)" for p
    using i by (simp add: map_update count_list_update)
  have qr: "q \<in> set (records s)" using core_okD(3) [OF r(1), of q] q(1) by simp
  have "locks_ok ?its ?s"
  proof (rule locksI)
    fix p pr assume p: "record_at ?s p = Some pr"
    then obtain pr' where "record_at s p = Some pr'" "pr = (if p = q then ?m else pr')" "p = q \<Longrightarrow> pr' = mr"
      using q(1) by (auto split: if_splits)
    with l(1) show "mr_ref_count pr = (if mr_empty pr then 0 else 1) + int (count_list (map it_cur ?its) (Some p)) \<and> 0 < mr_ref_count pr"
      unfolding count by (cases "p = q") force+
  next
    fix j p assume "j < length ?its" "it_cur (?its ! j) = Some p"
    then show "p \<in> set (records ?s)" using l(3) qr i by (auto simp: nth_list_update split: if_splits)
  next
    fix j assume "j < length ?its" "it_done (?its ! j)"
    then show "it_cur (?its ! j) = None" using l(2) i by (cases "j = i") simp_all
  qed
  moreover have "size_ok ?s" "serials_ok ser (am_next m) ?s" using r(2,4) by (simp_all add: size_ok_def serials_ok_def)
  moreover have "am_iters (m\<lparr>am_iters := (am_iters m)[i := (it_kind it, At (Suc (ser q)))]\<rparr>) = map (iter_abs ser) ?its"
    using r(6) by (simp add: map_update iter_abs_def)
  ultimately show ?thesis using ok r(5,7) by (simp add: map_rel_def)
qed

lemma finish_rel:
  assumes rel: "map_rel be ser (s, its) m" and i: "i < length its" "its ! i = it" "it_cur it = None"
  shows "map_rel be ser (s, its[i := it\<lparr>it_done := True, it_cur := None\<rparr>]) (m\<lparr>am_iters := (am_iters m)[i := (it_kind it, Finished)]\<rparr>)"
proof -
  note r = map_relD [OF rel] and l = locksD [OF map_relD(3) [OF rel]]
  let ?its = "its[i := it\<lparr>it_done := True, it_cur := None\<rparr>]"
  have cur: "map it_cur ?its = map it_cur its" using i by (simp add: map_update list_update_same_conv)
  have "\<forall>it \<in> set ?its. (it_done it \<longrightarrow> it_cur it = None) \<and> (\<forall>p. it_cur it = Some p \<longrightarrow> p \<in> set (records s))"
    using r(3) set_update_subset_insert [of its i] unfolding locks_ok_def by fastforce
  then have "locks_ok ?its s" using r(3) unfolding locks_ok_def cur by blast
  moreover have "am_iters (m\<lparr>am_iters := (am_iters m)[i := (it_kind it, Finished)]\<rparr>) = map (iter_abs ser) ?its"
    using r(6) by (simp add: map_update iter_abs_def)
  ultimately show ?thesis using r by (simp add: map_rel_def)
qed

lemma release_rel:
  assumes rel: "map_rel be ser (s, its) m" and i: "i < length its" "its ! i = it"
  shows "\<exists>s'. js_map_iterator_finalizer s it = Some s' \<and>
    map_rel be ser (s', its[i := it\<lparr>it_done := True, it_cur := None\<rparr>]) (m\<lparr>am_iters := (am_iters m)[i := (it_kind it, Finished)]\<rparr>) \<and>
    live_records s' = live_records s \<and> (\<forall>q. live s' q = live s q) \<and> (\<forall>q. it_cur it \<noteq> Some q \<longrightarrow> record_at s' q = record_at s q) \<and>
    (\<forall>q. live s q \<longrightarrow> rec_key s' q = rec_key s q \<and> rec_value s' q = rec_value s q) \<and>
    (records s' = records s \<or> (\<exists>p. it_cur it = Some p \<and> records s' = remove1 p (records s) \<and> \<not> live s p))"
proof (cases "it_cur it")
  case None
  then show ?thesis using finish_rel [OF rel i] by (simp add: js_map_iterator_finalizer_def)
next
  case (Some p)
  then show ?thesis using unlock_rel [OF rel i] by (auto simp: js_map_iterator_finalizer_def)
qed

subsection \<open>Deleting\<close>

lemma entries_filter:
  assumes "serials_ok ser n s" "set (live_records s) \<subseteq> set (records s)" "p \<in> set (records s)"
    and "live_records s' = filter (\<lambda>q. q \<noteq> p) (live_records s)"
    and "\<And>q. q \<noteq> p \<Longrightarrow> rec_key s' q = rec_key s q \<and> rec_value s' q = rec_value s q"
  shows "entries ser s' = filter (\<lambda>(t, k, v). t \<noteq> ser p) (entries ser s)"
proof -
  have "filter (\<lambda>q. ser q \<noteq> ser p) (live_records s) = filter (\<lambda>q. q \<noteq> p) (live_records s)"
    using assms(2,3) serials_inj [OF assms(1)] by (intro filter_cong) auto
  then show ?thesis using assms(4,5) by (simp add: entries_def filter_map o_def)
qed

lemma live_subset: "set (live_records s) \<subseteq> set (records s)"
  by (auto simp: live_records_def)

lemma delete_record_rel:
  assumes rel: "map_rel be ser (s, its) m" and p: "record_at s p = Some mr" "\<not> mr_empty mr"
  shows "\<exists>s'. new_map_delete s p = Some s' \<and>
    map_rel be ser (s', its) (m\<lparr>am_entries := filter (\<lambda>(t, k, v). t \<noteq> ser p) (am_entries m)\<rparr>) \<and>
    (\<forall>q. q \<noteq> p \<longrightarrow> record_at s' q = record_at s q) \<and>
    (records s' = records s \<or> records s' = remove1 p (records s)) \<and> \<not> live s' p"
proof -
  note r = map_relD [OF rel] and l = locksD [OF map_relD(3) [OF rel]]
  obtain s' where s': "new_map_delete s p = Some s'" "core_ok be s'" "size_ok s'"
    "records s' = (if mr_ref_count mr = 1 then remove1 p (records s) else records s)"
    "record_at s' = (record_at s)(p := if mr_ref_count mr = 1 then None
      else Some \<lparr>mr_ref_count = mr_ref_count mr - 1, mr_empty = True, mr_key = Val_undefined, mr_value = Val_undefined\<rparr>)"
    "dup_count s' = (\<lambda>v. dup_count s v - int (count_list [mr_key mr, mr_value mr] v))"
    "live_records s' = filter (\<lambda>q. q \<noteq> p) (live_records s)"
    using new_map_delete_ok [OF r(1) p] r(2) by blast
  have pl: "live s p" and pr: "p \<in> set (records s)" using p live_in_records [OF r(1), of p] by (auto simp: live_record)
  have same: "rec_key s' q = rec_key s q \<and> rec_value s' q = rec_value s q" if "q \<noteq> p" for q
    using that s'(5) by (simp add: rec_key_def rec_value_def)
  have locks: "locks_ok its s'"
  proof (rule locksI)
    fix q qr assume q: "record_at s' q = Some qr"
    show "mr_ref_count qr = (if mr_empty qr then 0 else 1) + int (count_list (map it_cur its) (Some q)) \<and> 0 < mr_ref_count qr"
    proof (cases "q = p")
      case True
      with q s'(5) have "mr_ref_count qr = mr_ref_count mr - 1" "mr_empty qr" "mr_ref_count mr \<noteq> 1" by (auto split: if_splits)
      with l(1) [OF p(1)] p(2) True show ?thesis by simp
    next
      case False
      with q s'(5) have "record_at s q = Some qr" by simp
      from l(1) [OF this] show ?thesis .
    qed
  next
    fix j q assume j: "j < length its" "it_cur (its ! j) = Some q"
    then have "q \<in> set (records s)" using l(3) by blast
    moreover have "q \<noteq> p" if "mr_ref_count mr = 1"
      using l(1) [OF p(1)] p(2) count_lock [OF j] that by auto
    ultimately show "q \<in> set (records s')" using s'(4) by (cases "mr_ref_count mr = 1") simp_all
  qed (use l(2) in blast)
  have "entries ser s' = filter (\<lambda>(t, k, v). t \<noteq> ser p) (entries ser s)"
    by (rule entries_filter [OF r(4) live_subset pr s'(7) same])
  moreover have "held s' v = held s v - int (count_list [rec_key s p, rec_value s p] v)" for v
    by (rule held_remove) (use s'(7) same set_live_records [OF r(1)] pl in auto)
  moreover have "serials_ok ser (am_next m) s'" by (rule serials_remove [OF r(4)]) (use s'(4) in auto)
  ultimately have "map_rel be ser (s', its) (m\<lparr>am_entries := filter (\<lambda>(t, k, v). t \<noteq> ser p) (am_entries m)\<rparr>)"
    using s'(2,3,6) locks r(5,6,7) p(1) by (simp add: map_rel_def rec_simps del: count_list.simps)
  then show ?thesis using s'(1,4,5) by (auto simp: live_def)
qed

lemma filter_entries:
  assumes ok: "core_ok be s" and ser: "serials_ok ser n s" and p: "live s p" "key_of be (rec_key s p) = key_of be k"
  shows "filter (\<lambda>(t, k', v). key_of be k' \<noteq> key_of be k) (entries ser s) = filter (\<lambda>(t, k, v). t \<noteq> ser p) (entries ser s)"
proof -
  have "filter (\<lambda>q. key_of be (rec_key s q) \<noteq> key_of be k) (live_records s) = filter (\<lambda>q. ser q \<noteq> ser p) (live_records s)"
  proof (rule filter_cong [OF refl])
    fix q assume "q \<in> set (live_records s)"
    then have q: "live s q" "q \<in> set (records s)" "p \<in> set (records s)"
      using set_live_records [OF ok] live_in_records [OF ok] p(1) by auto
    show "(key_of be (rec_key s q) \<noteq> key_of be k) = (ser q \<noteq> ser p)"
      using same_key [OF ok q(1) p(1)] serials_inj [OF ser q(2,3)] p(2) by simp
  qed
  then show ?thesis by (simp add: entries_def filter_map o_def)
qed

subsection \<open>Iterators that end\<close>

lemma finish_simps [simp]:
  "am_entries (finish D m) = am_entries m" "am_next (finish D m) = am_next m" "am_lent (finish D m) = am_lent m"
  "length (am_iters (finish D m)) = length (am_iters m)" "abs_lookup be k (finish D m) = abs_lookup be k m"
  "finish D (m\<lparr>am_entries := e\<rparr>) = (finish D m)\<lparr>am_entries := e\<rparr>" "finish D (m\<lparr>am_lent := l\<rparr>) = (finish D m)\<lparr>am_lent := l\<rparr>"
  "finish D (m\<lparr>am_next := n\<rparr>) = (finish D m)\<lparr>am_next := n\<rparr>"
  "finish D (finish E m) = finish (D \<union> E) m"
  by (simp_all add: finish_def abs_lookup_def)

lemma finish_nth: "i < length (am_iters m) \<Longrightarrow>
    am_iters (finish D m) ! i = (fst (am_iters m ! i), if i \<in> D then Finished else snd (am_iters m ! i))"
  by (simp add: finish_def)

lemma finish_empty [simp]: "finish {} m = m"
  by (simp add: finish_def map_nth)

lemma finish_one: "i < length (am_iters m) \<Longrightarrow> m\<lparr>am_iters := (am_iters m)[i := (fst (am_iters m ! i), Finished)]\<rparr> = finish {i} m"
  by (cases m) (auto simp: finish_def nth_list_update prod_eq_iff intro!: nth_equalityI)

lemma end_rel:
  "map_rel be ser (s, its) m \<Longrightarrow> set is \<subseteq> {..<length its} \<Longrightarrow>
    \<exists>s' its'. end_iterators is (s, its) = Some (s', its') \<and> map_rel be ser (s', its') (finish (set is) m) \<and> length its' = length its \<and>
      (\<forall>q. live s' q = live s q) \<and> (\<forall>q. live s q \<longrightarrow> rec_key s' q = rec_key s q \<and> rec_value s' q = rec_value s q) \<and>
      (\<exists>P. records s' = filter P (records s) \<and> (\<forall>q. \<not> P q \<longrightarrow> \<not> live s q \<and> (\<exists>i \<in> set is. it_cur (its ! i) = Some q))) \<and>
      (\<forall>i < length its. it_cur (its' ! i) = it_cur (its ! i) \<or> it_cur (its' ! i) = None)"
proof (induction "is" arbitrary: s its m)
  case Nil
  then show ?case by (auto intro!: exI [of _ "\<lambda>_. True"])
next
  case (Cons i js)
  have i: "i < length its" and js: "set js \<subseteq> {..<length its}" using Cons.prems(2) by auto
  let ?it = "its ! i"
  let ?its = "its[i := ?it\<lparr>it_done := True, it_cur := None\<rparr>]"
  obtain s1 where s1: "js_map_iterator_finalizer s ?it = Some s1"
    "map_rel be ser (s1, ?its) (m\<lparr>am_iters := (am_iters m)[i := (it_kind ?it, Finished)]\<rparr>)"
    "\<And>q. live s1 q = live s q" "\<And>q. live s q \<Longrightarrow> rec_key s1 q = rec_key s q \<and> rec_value s1 q = rec_value s q"
    "records s1 = records s \<or> (\<exists>p. it_cur ?it = Some p \<and> records s1 = remove1 p (records s) \<and> \<not> live s p)"
    using release_rel [OF Cons.prems(1) i refl] by blast
  have "am_iters m ! i = iter_abs ser ?it" using map_relD(6) [OF Cons.prems(1)] i by simp
  then have k: "it_kind ?it = fst (am_iters m ! i)" by (simp add: iter_abs_def)
  have il: "i < length (am_iters m)" using map_relD(6) [OF Cons.prems(1)] i by simp
  have "map_rel be ser (s1, ?its) (finish {i} m)" using s1(2) unfolding k finish_one [OF il] .
  from Cons.IH [OF this] js obtain s' its' P where e: "end_iterators js (s1, ?its) = Some (s', its')"
    "map_rel be ser (s', its') (finish (set js) (finish {i} m))" "length its' = length its" "\<And>q. live s' q = live s1 q"
    "\<And>q. live s1 q \<Longrightarrow> rec_key s' q = rec_key s1 q \<and> rec_value s' q = rec_value s1 q"
    "records s' = filter P (records s1)" "\<And>q. \<not> P q \<Longrightarrow> \<not> live s1 q \<and> (\<exists>j \<in> set js. it_cur (?its ! j) = Some q)"
    "\<And>j. j < length its \<Longrightarrow> it_cur (its' ! j) = it_cur (?its ! j) \<or> it_cur (its' ! j) = None"
    by (auto simp: length_list_update)
  obtain Q where Q: "records s1 = filter Q (records s)" "\<And>q. \<not> Q q \<Longrightarrow> \<not> live s q \<and> it_cur ?it = Some q"
  proof (cases "records s1 = records s")
    case True
    then show thesis by (intro that [of "\<lambda>_. True"]) simp_all
  next
    case False
    then obtain p where p: "it_cur ?it = Some p" "records s1 = remove1 p (records s)" "\<not> live s p" using s1(5) by blast
    have "distinct (records s)" using core_okD(2) [OF map_relD(1) [OF Cons.prems(1)]] .
    then have "records s1 = filter (\<lambda>q. q \<noteq> p) (records s)" using p(2) filter_neq_remove1 by metis
    with p show thesis by (intro that [of "\<lambda>q. q \<noteq> p"]) simp_all
  qed
  have cur: "it_cur (?its ! j) = Some q \<Longrightarrow> it_cur (its ! j) = Some q" for j q using i by (cases "j = i") simp_all
  have "records s' = filter (\<lambda>q. Q q \<and> P q) (records s)" using e(6) Q(1) by simp
  moreover have "\<not> live s q \<and> (\<exists>j \<in> set (i # js). it_cur (its ! j) = Some q)" if "\<not> (Q q \<and> P q)" for q
    using that Q(2) [of q] e(7) [of q] s1(3) [of q] cur by auto
  ultimately have "\<exists>P. records s' = filter P (records s) \<and>
      (\<forall>q. \<not> P q \<longrightarrow> \<not> live s q \<and> (\<exists>j \<in> set (i # js). it_cur (its ! j) = Some q))"
    by (intro exI [of _ "\<lambda>q. Q q \<and> P q"]) blast
  moreover have "it_cur (its' ! j) = it_cur (its ! j) \<or> it_cur (its' ! j) = None" if "j < length its" for j
    using e(8) [OF that] i by (cases "j = i") simp_all
  moreover have "end_iterators (i # js) (s, its) = Some (s', its')" using i s1(1) e(1) by (simp add: mem_get_in)
  moreover have "map_rel be ser (s', its') (finish (set (i # js)) m)" using e(2) by simp
  ultimately show ?case using e(3,4,5) s1(3,4) by (intro exI [of _ s'] exI [of _ its']) simp
qed

text \<open>The finalizers use the records only.\<close>

lemma end_frame:
  "end_iterators is (s\<lparr>hash_table := t, dup_count := d\<rparr>, its) =
    map_option (\<lambda>(s', its'). (s'\<lparr>hash_table := t, dup_count := d\<rparr>, its')) (end_iterators is (s, its))"
proof (induction "is" arbitrary: s its)
  case (Cons i js)
  have decref: "map_decref_record (s\<lparr>hash_table := t, dup_count := d\<rparr>) p =
      map_option (\<lambda>s'. s'\<lparr>hash_table := t, dup_count := d\<rparr>) (map_decref_record s p)" for p
    by (cases "record_at s p") (auto simp: map_decref_record_def Let_def set_record_def free_record_def)
  have "js_map_iterator_finalizer (s\<lparr>hash_table := t, dup_count := d\<rparr>) it =
      map_option (\<lambda>s'. s'\<lparr>hash_table := t, dup_count := d\<rparr>) (js_map_iterator_finalizer s it)" for it
    by (cases "it_cur it") (simp_all add: js_map_iterator_finalizer_def decref)
  then show ?case using Cons by (simp add: Option.bind_map_option o_def option.map_comp bind_map_option split: Option.bind_splits)
qed simp

lemma end_fields: "end_iterators is (s, its) = Some (s', its') \<Longrightarrow>
    hash_table s' = hash_table s \<and> dup_count s' = dup_count s \<and> is_weak s' = is_weak s"
proof (induction "is" arbitrary: s its)
  case (Cons i js)
  have "map_decref_record s p = Some s1 \<Longrightarrow> hash_table s1 = hash_table s \<and> dup_count s1 = dup_count s \<and> is_weak s1 = is_weak s" for p s1
    by (auto simp: map_decref_record_def Let_def set_record_def free_record_def split: bind_splits if_splits)
  then have "js_map_iterator_finalizer s it = Some s1 \<Longrightarrow> hash_table s1 = hash_table s \<and> dup_count s1 = dup_count s \<and> is_weak s1 = is_weak s" for it s1
    by (auto simp: js_map_iterator_finalizer_def split: option.splits)
  with Cons show ?case by (fastforce split: bind_splits)
qed simp

lemma map_rel_counts:
  assumes "map_rel be ser (s, its) m"
  shows "map_rel be ser (dup_value s v, its) (m\<lparr>am_lent := (am_lent m)(v := am_lent m v + 1)\<rparr>)"
    "map_rel be ser (release_value s v, its) (m\<lparr>am_lent := (am_lent m)(v := am_lent m v - 1)\<rparr>)"
  using assms unfolding map_rel_def prod.case value_counts core_ok_counts dup_count_parts by simp_all

lemma may_dieI: "i \<in> set (dies v st) \<Longrightarrow> i \<in> may_die dies"
  unfolding may_die_def by blast

lemma drop_value_end:
  "drop_value dies v (s\<lparr>hash_table := t, dup_count := d\<rparr>, its) =
    map_option (\<lambda>(s', its'). (release_value (s'\<lparr>hash_table := t, dup_count := d\<rparr>) v, its'))
      (end_iterators (dies v (s\<lparr>hash_table := t, dup_count := d\<rparr>, its)) (s, its))"
  using end_frame [of _ "d(v := d v - 1)" t s its] by (simp add: drop_value_def release_value_def)

lemma same_fields: "s\<lparr>hash_table := hash_table s, dup_count := dup_count s\<rparr> = (s :: map_state)"
  by simp

lemma drop_rel:
  assumes rel: "map_rel be ser (s, its) m" and d: "may_die dies \<subseteq> {..<length its}"
  obtains D s' its' where "D \<subseteq> may_die dies" "drop_value dies v (s, its) = Some (release_value s' v, its')"
    "map_rel be ser (s', its') (finish D m)" "length its' = length its"
    "\<And>q. live s' q = live s q" "\<And>q. live s q \<Longrightarrow> rec_key s' q = rec_key s q \<and> rec_value s' q = rec_value s q"
proof -
  let ?is = "dies v (s, its)"
  have D: "set ?is \<subseteq> may_die dies" by (auto intro: may_dieI)
  obtain s' its' where e: "end_iterators ?is (s, its) = Some (s', its')" "map_rel be ser (s', its') (finish (set ?is) m)"
    "length its' = length its" "\<And>q. live s' q = live s q"
    "\<And>q. live s q \<Longrightarrow> rec_key s' q = rec_key s q \<and> rec_value s' q = rec_value s q"
    using end_rel [OF rel order_trans [OF D d]] by blast
  have "drop_value dies v (s, its) = Some (release_value s' v, its')"
    using drop_value_end [of dies v "dup_count s" "hash_table s" s its] e(1) end_fields [OF e(1)] by (simp add: same_fields) (metis same_fields)
  from that [OF D this e(2-5)] show thesis by blast
qed

lemma live_same:
  "record_at s p = Some mr \<Longrightarrow> \<not> mr_empty mr \<Longrightarrow> live s' p = live s p \<Longrightarrow> rec_key s' p = rec_key s p \<Longrightarrow> rec_value s' p = rec_value s p \<Longrightarrow>
    \<exists>mr'. record_at s' p = Some mr' \<and> \<not> mr_empty mr' \<and> mr_key mr' = mr_key mr \<and> mr_value mr' = mr_value mr"
  by (auto simp: live_def rec_key_def rec_value_def split: option.splits)

lemma delete_rel:
  assumes rel: "map_rel be ser (s, its) m" and p: "record_at s p = Some mr" "\<not> mr_empty mr" and d: "may_die dies \<subseteq> {..<length its}"
  shows "\<exists>D s' its'. D \<subseteq> may_die dies \<and> map_delete_record dies (s, its) p = Some (s', its') \<and>
    map_rel be ser (s', its') (finish D (m\<lparr>am_entries := filter (\<lambda>(t, k, v). t \<noteq> ser p) (am_entries m)\<rparr>)) \<and> length its' = length its \<and>
    \<not> live s' p \<and> (\<forall>q. q \<noteq> p \<longrightarrow> live s' q = live s q) \<and>
    (\<exists>P. records s' = filter P (records s) \<and> (\<forall>q. \<not> P q \<longrightarrow> q = p \<or> \<not> live s q \<and> (\<exists>i \<in> may_die dies. it_cur (its ! i) = Some q))) \<and>
    (\<forall>i < length its. it_cur (its' ! i) = it_cur (its ! i) \<or> it_cur (its' ! i) = None)"
proof -
  let ?k = "mr_key mr" and ?v = "mr_value mr" and ?t = "map (remove1 p) (hash_table s)"
  let ?is = "dies ?k (s\<lparr>hash_table := ?t\<rparr>, its)"
  have weak: "\<not> is_weak s" using core_okD(1) [OF map_relD(1) [OF rel]] .
  have D: "set ?is \<subseteq> may_die dies" by (auto intro: may_dieI)
  obtain s1 its1 P where e: "end_iterators ?is (s, its) = Some (s1, its1)" "map_rel be ser (s1, its1) (finish (set ?is) m)"
    "length its1 = length its" "\<And>q. live s1 q = live s q"
    "\<And>q. live s q \<Longrightarrow> rec_key s1 q = rec_key s q \<and> rec_value s1 q = rec_value s q"
    "records s1 = filter P (records s)" "\<And>q. \<not> P q \<Longrightarrow> \<not> live s q \<and> (\<exists>i \<in> set ?is. it_cur (its ! i) = Some q)"
    "\<And>i. i < length its \<Longrightarrow> it_cur (its1 ! i) = it_cur (its ! i) \<or> it_cur (its1 ! i) = None"
    using end_rel [OF rel order_trans [OF D d]] by blast
  have pl: "live s p" using p by (simp add: live_record)
  obtain mr1 where p1: "record_at s1 p = Some mr1" "\<not> mr_empty mr1" "mr_key mr1 = ?k" "mr_value mr1 = ?v"
    using live_same [OF p] e(4) e(5) [OF pl] by blast
  let ?d1 = "(dup_count s)(?k := dup_count s ?k - 1)"
  let ?js = "dies ?v (s1\<lparr>hash_table := ?t, dup_count := ?d1\<rparr>, its1)"
  have E: "set ?js \<subseteq> may_die dies" by (auto intro: may_dieI)
  obtain s2 its2 Q where e2: "end_iterators ?js (s1, its1) = Some (s2, its2)" "map_rel be ser (s2, its2) (finish (set ?js) (finish (set ?is) m))"
    "length its2 = length its1" "\<And>q. live s2 q = live s1 q"
    "\<And>q. live s1 q \<Longrightarrow> rec_key s2 q = rec_key s1 q \<and> rec_value s2 q = rec_value s1 q"
    "records s2 = filter Q (records s1)" "\<And>q. \<not> Q q \<Longrightarrow> \<not> live s1 q \<and> (\<exists>i \<in> set ?js. it_cur (its1 ! i) = Some q)"
    "\<And>i. i < length its \<Longrightarrow> it_cur (its2 ! i) = it_cur (its1 ! i) \<or> it_cur (its2 ! i) = None"
    using end_rel [OF e(2), of ?js] order_trans [OF E d] unfolding e(3) by blast
  obtain mr2 where p2: "record_at s2 p = Some mr2" "\<not> mr_empty mr2" "mr_key mr2 = ?k" "mr_value mr2 = ?v"
    using live_same [OF p1(1,2), of s2] e2(4) [of p] e2(5) [of p] e(4) [of p] pl p1(3,4) by auto
  have f: "hash_table s2 = hash_table s" "dup_count s2 = dup_count s" "\<not> is_weak s2" using end_fields [OF e(1)] end_fields [OF e2(1)] weak by simp_all
  have "drop_value dies ?k (s\<lparr>hash_table := ?t\<rparr>, its) = Some (s1\<lparr>hash_table := ?t, dup_count := ?d1\<rparr>, its1)"
    using drop_value_end [of dies ?k "dup_count s" ?t s its] e(1) end_fields [OF e(1)] by (simp add: release_value_def)
  moreover have "drop_value dies ?v (s1\<lparr>hash_table := ?t, dup_count := ?d1\<rparr>, its1) =
      Some (release_value (s2\<lparr>hash_table := ?t, dup_count := ?d1\<rparr>) ?v, its2)"
    unfolding drop_value_end by (simp add: e2(1))
  moreover have "s2\<lparr>hash_table := ?t, dup_count := ?d1\<rparr> = release_value (s2\<lparr>hash_table := map (remove1 p) (hash_table s2)\<rparr>) ?k"
    by (simp add: release_value_def f)
  ultimately have run: "map_delete_record dies (s, its) p = map_option (\<lambda>s'. (s', its2)) (new_map_delete s2 p)"
    unfolding new_map_delete_eq [OF p2(1,2) f(3)]
    using p weak p1 p2 by (simp add: map_delete_record_def Let_def release_value_def set_record_def free_record_def)
  obtain s' where s': "new_map_delete s2 p = Some s'"
    "map_rel be ser (s', its2) ((finish (set ?js) (finish (set ?is) m))\<lparr>am_entries := filter (\<lambda>(t, k, v). t \<noteq> ser p) (am_entries m)\<rparr>)"
    "\<And>q. q \<noteq> p \<Longrightarrow> record_at s' q = record_at s2 q" "records s' = records s2 \<or> records s' = remove1 p (records s2)" "\<not> live s' p"
    using delete_record_rel [OF e2(2) p2(1,2)] by auto
  have "live s' q = live s q" if "q \<noteq> p" for q using s'(3) [OF that] e2(4) [of q] e(4) [of q] by (simp add: live_def)
  moreover have "\<exists>P. records s' = filter P (records s) \<and>
      (\<forall>q. \<not> P q \<longrightarrow> q = p \<or> \<not> live s q \<and> (\<exists>i \<in> may_die dies. it_cur (its ! i) = Some q))"
  proof -
    obtain R where R: "records s' = filter R (records s2)" "\<And>q. \<not> R q \<Longrightarrow> q = p"
    proof (cases "records s' = records s2")
      case True
      then show thesis by (intro that [of "\<lambda>_. True"]) simp_all
    next
      case False
      then have "records s' = filter (\<lambda>q. q \<noteq> p) (records s2)"
        using s'(4) filter_neq_remove1 [OF core_okD(2) [OF map_relD(1) [OF e2(2)]]] by simp
      then show thesis by (intro that [of "\<lambda>q. q \<noteq> p"]) simp_all
    qed
    have "q = p \<or> \<not> live s q \<and> (\<exists>i \<in> may_die dies. it_cur (its ! i) = Some q)" if no: "\<not> (P q \<and> Q q \<and> R q)" for q
    proof (cases "Q q")
      case True
      with no R(2) e(7) [of q] D show ?thesis by blast
    next
      case False
      then obtain i where "i \<in> set ?js" "it_cur (its1 ! i) = Some q" "\<not> live s q" using e2(7) e(4) by blast
      moreover from this have "i < length its" using E d by blast
      ultimately show ?thesis using e(8) [of i] E by auto
    qed
    moreover have "records s' = filter (\<lambda>q. P q \<and> Q q \<and> R q) (records s)" using R(1) e2(6) e(6) by (simp add: conj_ac)
    ultimately show ?thesis by blast
  qed
  moreover have "it_cur (its2 ! i) = it_cur (its ! i) \<or> it_cur (its2 ! i) = None" if "i < length its" for i
    using e(8) [OF that] e2(8) [OF that] by auto
  ultimately show ?thesis using run s'(1,2,5) D E e(3) e2(3)
    by (intro exI [of _ "set ?js \<union> set ?is"] exI [of _ s'] exI [of _ its2]) simp
qed

subsection \<open>Clearing\<close>

lemma records_after_split: "distinct (xs @ p # ys) \<Longrightarrow> records_after (xs @ p # ys) p = Some ys"
proof -
  assume "distinct (xs @ p # ys)"
  then have "p \<notin> set xs" by simp
  then have "dropWhile (\<lambda>q. q \<noteq> p) (xs @ p # ys) = p # ys" by (auto simp: dropWhile_append3)
  then show ?thesis by (simp add: records_after_def)
qed

lemma clear_loop_rel:
  "map_rel be ser (s, its) m \<Longrightarrow> may_die dies \<subseteq> {..<length its} \<Longrightarrow> records s = xs @ ys \<Longrightarrow> \<forall>q \<in> set xs. \<not> live s q \<Longrightarrow>
    \<forall>i \<in> may_die dies. \<forall>q \<in> set ys. it_cur (its ! i) = Some q \<longrightarrow> live s q \<Longrightarrow>
    \<exists>D s' its'. D \<subseteq> may_die dies \<and> clear_loop dies (s, its) (first_record ys) = Some (s', its') \<and>
      map_rel be ser (s', its') (finish D (m\<lparr>am_entries := []\<rparr>))"
proof (induction ys arbitrary: s its m xs)
  case Nil
  have "live_records s = []" using Nil.prems(3,4) by (simp add: live_records_def)
  then have "am_entries m = []" by (simp add: map_relD(5) [OF Nil.prems(1)] entries_def)
  then have "m\<lparr>am_entries := []\<rparr> = m" by simp
  with Nil.prems(1) show ?case
    by (intro exI [of _ "{}"] exI [of _ s] exI [of _ its]) (simp add: clear_loop.simps first_record_def)
next
  case (Cons p ys)
  note ok = map_relD(1) [OF Cons.prems(1)]
  have dist: "distinct (xs @ p # ys)" using core_okD(2) [OF ok] Cons.prems(3) by simp
  have after: "records_after (records s) p = Some ys" unfolding Cons.prems(3) by (rule records_after_split [OF dist])
  have "p \<in> set (records s)" using Cons.prems(3) by simp
  then obtain mr where mr: "record_at s p = Some mr" using core_okD(3) [OF ok, of p] by auto
  have step: "clear_loop dies (s, its) (first_record (p # ys)) =
      Option.bind (map_delete_record dies (s, its) p) (\<lambda>st. clear_loop dies st (first_record ys))"
    by (subst clear_loop.simps) (simp add: first_record_def after)
  show ?case
  proof (cases "mr_empty mr")
    case True
    then have "\<not> live s p" using mr by (simp add: live_def)
    moreover have "map_delete_record dies (s, its) p = Some (s, its)" using mr True by (simp add: map_delete_record_def)
    ultimately show ?thesis using Cons.IH [OF Cons.prems(1,2), of "xs @ [p]"] Cons.prems(3-5) unfolding step by simp
  next
    case False
    obtain D s1 its1 P where d: "D \<subseteq> may_die dies" "map_delete_record dies (s, its) p = Some (s1, its1)"
      "map_rel be ser (s1, its1) (finish D (m\<lparr>am_entries := filter (\<lambda>(t, k, v). t \<noteq> ser p) (am_entries m)\<rparr>))"
      "length its1 = length its" "\<not> live s1 p" "\<And>q. q \<noteq> p \<Longrightarrow> live s1 q = live s q" "records s1 = filter P (records s)"
      "\<And>q. \<not> P q \<Longrightarrow> q = p \<or> \<not> live s q \<and> (\<exists>i \<in> may_die dies. it_cur (its ! i) = Some q)"
      "\<And>i. i < length its \<Longrightarrow> it_cur (its1 ! i) = it_cur (its ! i) \<or> it_cur (its1 ! i) = None"
      using delete_rel [OF Cons.prems(1) mr False Cons.prems(2)] by blast
    have "P q" if "q \<in> set ys" for q using d(8) [of q] Cons.prems(5) dist that by auto
    then have "filter P ys = ys" by (simp add: filter_id_conv)
    then have "records s1 = filter P (xs @ [p]) @ ys" using d(7) Cons.prems(3) by simp
    moreover have "\<forall>q \<in> set (filter P (xs @ [p])). \<not> live s1 q"
      using Cons.prems(4) d(5,6) by (auto split: if_splits) (metis d(5) d(6))
    moreover have "\<forall>i \<in> may_die dies. \<forall>q \<in> set ys. it_cur (its1 ! i) = Some q \<longrightarrow> live s1 q"
    proof (intro ballI impI)
      fix i q assume i: "i \<in> may_die dies" "q \<in> set ys" "it_cur (its1 ! i) = Some q"
      then have "it_cur (its ! i) = Some q" using d(9) [of i] Cons.prems(2) by auto
      moreover have "q \<noteq> p" using dist i(2) by auto
      ultimately show "live s1 q" using Cons.prems(5) i(1,2) d(6) by auto
    qed
    ultimately obtain E s' its' where e: "E \<subseteq> may_die dies" "clear_loop dies (s1, its1) (first_record ys) = Some (s', its')"
      "map_rel be ser (s', its') (finish E ((finish D (m\<lparr>am_entries := filter (\<lambda>(t, k, v). t \<noteq> ser p) (am_entries m)\<rparr>))\<lparr>am_entries := []\<rparr>))"
      using Cons.IH [OF d(3), of "filter P (xs @ [p])"] Cons.prems(2) d(4) by auto
    then show ?thesis using d(1,2) unfolding step by (intro exI [of _ "E \<union> D"] exI [of _ s'] exI [of _ its']) simp
  qed
qed

lemma clear_rel:
  assumes rel: "map_rel be ser (s, its) m" and ok: "map_op_ok (Op_clear dies) (s, its)"
  shows "\<exists>D s' its'. D \<subseteq> may_die dies \<and> js_map_clear dies (s, its) = Some (s', its') \<and>
    map_rel be ser (s', its') (finish D (m\<lparr>am_entries := []\<rparr>))"
  using clear_loop_rel [OF rel, of dies "[]" "records s"] ok by (simp add: js_map_clear_def)

subsection \<open>Storing\<close>

lemma store_rel:
  assumes rel: "map_rel be ser (s, its) m" and p: "record_at s p = Some mr" "\<not> mr_empty mr" "key_of be (mr_key mr) = key_of be k"
  shows "map_rel be ser (set_record (dup_value (release_value s (mr_value mr)) v) p (mr\<lparr>mr_value := v\<rparr>), its)
    (m\<lparr>am_entries := map (\<lambda>(t, k', v'). (t, k', if key_of be k' = key_of be k then v else v')) (am_entries m)\<rparr>)"
proof -
  note r = map_relD [OF rel] and l = locksD [OF map_relD(3) [OF rel]]
  let ?s1 = "dup_value (release_value s (mr_value mr)) v"
  let ?s = "set_record ?s1 p (mr\<lparr>mr_value := v\<rparr>)"
  have s1: "core_ok be ?s1" "size_ok ?s1" "live_records ?s1 = live_records s" "rec_key ?s1 = rec_key s" "rec_value ?s1 = rec_value s"
    using r(1,2) by (simp_all add: value_counts core_ok_counts)
  have ok: "core_ok be ?s" "live_records ?s = live_records s" "rec_key ?s = rec_key s"
    using map_set_record_ok [OF s1(1), of p mr "mr\<lparr>mr_value := v\<rparr>"] p(1) s1(3,4) by simp_all
  have val: "rec_value ?s q = (if q = p then v else rec_value s q)" for q
    using s1(5) by (simp add: live_set_record)
  have pl: "live s p" using p by (auto simp: live_record)
  have "(key_of be (rec_key s q) = key_of be k) = (q = p)" if "q \<in> set (live_records s)" for q
    using that same_key [OF r(1) _ pl, of q] set_live_records [OF r(1)] p by (simp add: rec_simps)
  then have "entries ser ?s = map (\<lambda>(t, k', v'). (t, k', if key_of be k' = key_of be k then v else v')) (entries ser s)"
    by (simp add: entries_def ok val)
  moreover have "held ?s w = held s w - int (count_list [rec_key s p, rec_value s p] w) + int (count_list [rec_key ?s p, rec_value ?s p] w)" for w
    by (rule held_change [OF _ ok(2)]) (use pl set_live_records [OF r(1)] ok(3) val in auto)
  moreover have "locks_ok its ?s"
  proof (rule locksI)
    fix q qr assume "record_at ?s q = Some qr"
    then have "record_at s q = Some (if q = p then mr else qr)" "qr = (if q = p then mr\<lparr>mr_value := v\<rparr> else qr)"
      using p(1) by (auto split: if_splits)
    with l(1) [of q] show "mr_ref_count qr = (if mr_empty qr then 0 else 1) + int (count_list (map it_cur its) (Some q)) \<and> 0 < mr_ref_count qr"
      by (cases "q = p") force+
  qed (use l(2,3) in simp_all)
  moreover have "size_ok ?s" "serials_ok ser (am_next m) ?s" using s1(2) r(4) by (simp_all add: size_ok_def serials_ok_def)
  moreover have "dup_count ?s w = dup_count s w - int (count_list [mr_value mr] w) + int (count_list [v] w)" for w by simp
  ultimately show ?thesis using ok r(5,6,7) p(1) by (simp add: map_rel_def rec_simps val)
qed

lemma add_rel:
  assumes rel: "map_rel be ser (s, its) m" and fresh: "record_at s p = None" and k: "value_ok k"
    and sz: "slack_ok slack" "length (live_records s) < 2 ^ 28"
    and new: "\<And>q. live s q \<Longrightarrow> key_of be (rec_key s q) \<noteq> key_of be k"
  shows "\<exists>s1 mr. map_add_record be slack (Some p) wr_mem s (map_normalize_key k) = Some (Some p, s1) \<and> record_at s1 p = Some mr \<and>
    map_rel be (ser(p := am_next m)) (set_record (dup_value s1 v) p (mr\<lparr>mr_value := v\<rparr>), its)
      (m\<lparr>am_entries := am_entries m @ [(am_next m, map_normalize_key k, v)], am_next := Suc (am_next m)\<rparr>)"
proof -
  note r = map_relD [OF rel] and l = locksD [OF map_relD(3) [OF rel]]
  let ?k = "map_normalize_key k" and ?ser = "ser(p := am_next m)"
  let ?mr = "\<lparr>mr_ref_count = 1, mr_empty = False, mr_key = ?k, mr_value = Val_undefined\<rparr>"
  have new': "key_of be (rec_key s q) \<noteq> key_of be ?k" if "live s q" for q using new [OF that] by simp
  obtain t n th where s1: "map_add_record be slack (Some p) wr_mem s ?k =
      Some (Some p, (with_record s p ?k)\<lparr>hash_table := t, hash_size := n, record_count_threshold := th\<rparr>)"
    "core_ok be ((with_record s p ?k)\<lparr>hash_table := t, hash_size := n, record_count_threshold := th\<rparr>)"
    "size_ok ((with_record s p ?k)\<lparr>hash_table := t, hash_size := n, record_count_threshold := th\<rparr>)"
    using map_add_record_ok [OF r(1,2) sz fresh normal_key(1) [OF k] new'] by blast
  define s1 where "s1 = (with_record s p ?k)\<lparr>hash_table := t, hash_size := n, record_count_threshold := th\<rparr>"
  let ?s2 = "dup_value s1 v" and ?m = "?mr\<lparr>mr_value := v\<rparr>"
  let ?s = "set_record ?s2 p ?m"
  have f: "records s1 = records s @ [p]" "record_at s1 = (record_at s)(p \<mapsto> ?mr)"
    "dup_count s1 = (dup_count s)(?k := dup_count s ?k + 1)"
    by (simp_all add: s1_def with_record_def)
  have s2: "core_ok be ?s2" using s1(2) unfolding value_counts core_ok_counts s1_def .
  have at: "record_at ?s2 p = Some ?mr" using f by simp
  have ok: "core_ok be ?s" using map_set_record_ok(1) [OF s2 at, of ?m] by simp
  have pr: "p \<notin> set (records s)" using core_okD(3) [OF r(1), of p] fresh by simp
  have live: "live ?s q = (q = p \<or> live s q)" and key: "rec_key ?s q = (if q = p then ?k else rec_key s q)"
    and val: "rec_value ?s q = (if q = p then v else rec_value s q)" for q
    by (simp_all add: live_def rec_key_def rec_value_def f)
  have lr: "live_records ?s = live_records s @ [p]"
  proof -
    have "filter (live ?s) (records s) = filter (live s) (records s)" using live pr by (intro filter_cong) auto
    then show ?thesis using live [of p] by (simp add: live_records_def f)
  qed
  have pn: "p \<notin> set (live_records s)" using pr live_subset by blast
  have ser: "?ser q = ser q" if "q \<in> set (records s)" for q using that pr by auto
  have "entries ?ser ?s = entries ser s @ [(am_next m, ?k, v)]"
  proof -
    have "q \<noteq> p" if "q \<in> set (live_records s)" for q using that pn by blast
    then show ?thesis unfolding entries_def lr using key val by simp
  qed
  moreover have "dup_count ?s w = am_lent m w + held ?s w" for w
  proof -
    have "held ?s w = held s w + int (count_list [rec_key ?s p, rec_value ?s p] w)"
      by (rule held_add [OF pn lr]) (simp only: key val if_False simp_thms)
    moreover have "rec_key ?s p = ?k" "rec_value ?s p = v" by (simp_all only: key val if_True simp_thms)
    moreover have "dup_count ?s w = dup_count s w + int (count_list [?k, v] w)" by (simp add: f)
    ultimately show ?thesis using r(7) [of w] by (simp only:)
  qed
  moreover have "locks_ok its ?s"
  proof (rule locksI)
    fix q qr assume q: "record_at ?s q = Some qr"
    have "count_list (map it_cur its) (Some p) = 0"
    proof (rule ccontr)
      assume "count_list (map it_cur its) (Some p) \<noteq> 0"
      then obtain j where "j < length its" "it_cur (its ! j) = Some p" by (auto simp: count_list_0_iff in_set_conv_nth)
      with l(3) pr show False by blast
    qed
    with q l(1) [of q qr] show "mr_ref_count qr = (if mr_empty qr then 0 else 1) + int (count_list (map it_cur its) (Some q)) \<and> 0 < mr_ref_count qr"
      by (cases "q = p") (auto simp: f)
  next
    fix j q assume "j < length its" "it_cur (its ! j) = Some q"
    with l(3) show "q \<in> set (records ?s)" by (simp add: f)
  qed (use l(2) in blast)
  moreover have "serials_ok ?ser (Suc (am_next m)) ?s"
  proof -
    have "sorted_wrt (\<lambda>p q. ?ser p < ?ser q) (records s)"
      using r(4) ser unfolding serials_ok_def by (auto intro: sorted_wrt_mono_rel [rotated])
    then show ?thesis using r(4) pr ser by (simp add: serials_ok_def f sorted_wrt_append less_Suc_eq)
  qed
  moreover have "map (iter_abs ?ser) its = map (iter_abs ser) its"
  proof (rule map_cong [OF refl])
    fix it assume "it \<in> set its"
    then obtain j where "j < length its" "its ! j = it" by (auto simp: in_set_conv_nth)
    with l(3) [of j] ser have "it_cur it = Some q \<Longrightarrow> ?ser q = ser q" for q by blast
    then show "iter_abs ?ser it = iter_abs ser it" by (simp add: iter_abs_def split: option.splits)
  qed
  moreover have "size_ok ?s" using s1(3) unfolding s1_def by (simp add: size_ok_def)
  ultimately have "map_rel be ?ser (?s, its) (m\<lparr>am_entries := am_entries m @ [(am_next m, ?k, v)], am_next := Suc (am_next m)\<rparr>)"
    using ok r(5,6) unfolding map_rel_def prod.case by (intro conjI) simp_all
  with s1(1) at show ?thesis unfolding s1_def [symmetric] by (intro exI [of _ s1] exI [of _ ?mr]) (simp add: f)
qed

subsection \<open>Iterating\<close>

lemma next_live_find: "(\<And>p. p \<in> set ps \<Longrightarrow> record_at s p \<noteq> None) \<Longrightarrow> next_live s ps = Some (find (live s) ps)"
proof (induction ps)
  case (Cons p ps)
  obtain mr where mr: "record_at s p = Some mr" using Cons.prems [of p] by auto
  then have "live s p = (\<not> mr_empty mr)" by (simp add: live_def)
  with Cons mr show ?case by simp
qed simp

text \<open>The records that an iterator still has to visit.\<close>

lemma rest_of_records:
  assumes rel: "map_rel be ser (s, its) m" and cur: "\<And>p. it_cur it = Some p \<Longrightarrow> p \<in> set (records s)" and "\<not> it_done it"
  obtains el where "(case it_cur it of None \<Rightarrow> Some (records s) | Some p \<Rightarrow> records_after (records s) p) = Some el"
    "\<And>q. q \<in> set el \<Longrightarrow> q \<in> set (records s) \<and> it_cur it \<noteq> Some q"
    "\<And>t. iter_abs ser it = (it_kind it, At t) \<Longrightarrow> find (\<lambda>(t', k, v). t \<le> t') (am_entries m) =
       map_option (\<lambda>p. (ser p, rec_key s p, rec_value s p)) (find (live s) el)"
proof -
  note r = map_relD [OF rel]
  have find: "find (\<lambda>(t', k, v). t \<le> t') (am_entries m) =
      map_option (\<lambda>p. (ser p, rec_key s p, rec_value s p)) (find (\<lambda>p. live s p \<and> t \<le> ser p) (records s))" for t
    by (simp add: r(5) entries_def live_records_def find_of_map find_of_filter)
  show thesis
  proof (cases "it_cur it")
    case None
    with find [of 0] assms(3) show thesis by (intro that [of "records s"]) (simp_all add: iter_abs_def)
  next
    case (Some p)
    then obtain xs ys where ps: "records s = xs @ p # ys" using split_list [OF cur [OF Some]] by blast
    have d: "p \<notin> set xs" "p \<notin> set ys" using core_okD(2) [OF r(1)] unfolding ps by auto
    then have "dropWhile (\<lambda>q. q \<noteq> p) (xs @ p # ys) = p # ys" by (auto simp: dropWhile_append3)
    then have after: "records_after (records s) p = Some ys" by (simp add: records_after_def ps)
    have order: "q \<in> set xs \<Longrightarrow> ser q < ser p" "q \<in> set ys \<Longrightarrow> ser p < ser q" for q
      using r(4) by (auto simp: serials_ok_def ps sorted_wrt_append)
    have "find (\<lambda>q. live s q \<and> Suc (ser p) \<le> ser q) xs = None" using order(1) by (intro find_nothing) fastforce
    moreover have "find (\<lambda>q. live s q \<and> Suc (ser p) \<le> ser q) ys = find (live s) ys"
      using order(2) by (intro find_cong) (auto simp: Suc_le_eq)
    ultimately have "find (\<lambda>q. live s q \<and> Suc (ser p) \<le> ser q) (records s) = find (live s) ys"
      unfolding ps by (simp add: find_of_append)
    with find [of "Suc (ser p)"] after Some d assms(3) show thesis
      by (intro that [of ys]) (auto simp: iter_abs_def ps)
  qed
qed

lemma iterator_values_record:
  "iterator_values is_set kind \<lparr>mr_ref_count = 0, mr_empty = False, mr_key = mr_key mr, mr_value = mr_value mr\<rparr> = iterator_values is_set kind mr"
  by (cases kind) (simp_all add: iterator_values_def Let_def)

lemma advance_rel:
  assumes rel: "map_rel be ser (s, its) m" and i: "i < length its" "its ! i = it"
  shows "\<exists>found s' it' m'. iterator_advance s it = Some (found, s', it') \<and> it_kind it' = it_kind it \<and>
    map_rel be ser (s', its[i := it']) m' \<and>
    (case found of
       None \<Rightarrow> abs_advance i m = (None, m')
     | Some q \<Rightarrow> \<exists>mr. record_at s' q = Some mr \<and> abs_advance i m = (Some (ser q, mr_key mr, mr_value mr), m'))"
proof -
  note r = map_relD [OF rel] and l = locksD [OF map_relD(3) [OF rel]]
  have mi: "am_iters m ! i = iter_abs ser it" using r(6) i by simp
  show ?thesis
  proof (cases "it_done it")
    case True
    then have "its[i := it] = its" using i by (simp add: list_update_same_conv)
    with True rel mi show ?thesis by (simp add: iterator_advance_def abs_advance_def iter_abs_def)
  next
    case False
    have cur: "it_cur it = Some p \<Longrightarrow> p \<in> set (records s)" for p using l(3) i by blast
    obtain el where el: "(case it_cur it of None \<Rightarrow> Some (records s) | Some p \<Rightarrow> records_after (records s) p) = Some el"
      "\<And>q. q \<in> set el \<Longrightarrow> q \<in> set (records s) \<and> it_cur it \<noteq> Some q"
      "\<And>t. iter_abs ser it = (it_kind it, At t) \<Longrightarrow> find (\<lambda>(t', k, v). t \<le> t') (am_entries m) =
         map_option (\<lambda>p. (ser p, rec_key s p, rec_value s p)) (find (live s) el)"
      using rest_of_records [OF rel cur False] by blast
    let ?it = "it\<lparr>it_done := True, it_cur := None\<rparr>"
    let ?m = "m\<lparr>am_iters := (am_iters m)[i := (it_kind it, Finished)]\<rparr>"
    obtain s1 where s1: "js_map_iterator_finalizer s it = Some s1" "map_rel be ser (s1, its[i := ?it]) ?m"
      "\<And>q. live s1 q = live s q" "\<And>q. it_cur it \<noteq> Some q \<Longrightarrow> record_at s1 q = record_at s q"
      using release_rel [OF rel i] by blast
    have run: "iterator_advance s it = do {
        found \<leftarrow> next_live s1 el;
        case found of
          None \<Rightarrow> Some (None, s1, ?it)
        | Some p \<Rightarrow> do {
            mr \<leftarrow> record_at s1 p;
            Some (Some p, set_record s1 p (mr\<lparr>mr_ref_count := mr_ref_count mr + 1\<rparr>), it\<lparr>it_cur := Some p\<rparr>) } }"
      using False s1(1) el(1)
      by (cases "it_cur it") (simp_all add: iterator_advance_def js_map_iterator_finalizer_def Let_def cong: option.case_cong)
    have found: "next_live s1 el = Some (find (live s) el)"
    proof -
      have "record_at s1 q \<noteq> None" if "q \<in> set el" for q using el(2) [OF that] s1(4) [of q] core_okD(3) [OF r(1), of q] by simp
      moreover have "live s1 = live s" using s1(3) by (simp add: fun_eq_iff)
      ultimately show ?thesis using next_live_find [of el s1] by simp
    qed
    obtain t where t: "iter_abs ser it = (it_kind it, At t)" using False by (simp add: iter_abs_def)
    note spec = el(3) [OF t]
    show ?thesis
    proof (cases "find (live s) el")
      case None
      with run found spec s1(2) mi t show ?thesis by (simp add: abs_advance_def)
    next
      case (Some q)
      then have q: "q \<in> set el" "live s q" by (auto simp: find_Some_iff)
      then obtain mr where mr: "record_at s q = Some mr" "\<not> mr_empty mr" by (auto simp: live_record)
      then have mr1: "record_at s1 q = Some mr" using s1(4) el(2) [OF q(1)] by simp
      let ?s2 = "set_record s1 q (mr\<lparr>mr_ref_count := mr_ref_count mr + 1\<rparr>)"
      have "map_rel be ser (?s2, its[i := it\<lparr>it_cur := Some q\<rparr>]) (m\<lparr>am_iters := (am_iters m)[i := (it_kind it, At (Suc (ser q)))]\<rparr>)"
      proof -
        have "it\<lparr>it_done := False, it_cur := Some q\<rparr> = it\<lparr>it_cur := Some q\<rparr>" using False by (cases it) simp
        then show ?thesis using lock_rel [OF s1(2), of i ?it q mr] i mr1 mr(2) by simp
      qed
      with run found spec mi t Some mr1 mr(1) show ?thesis by (simp add: abs_advance_def rec_simps)
    qed
  qed
qed

lemma next_rel:
  assumes rel: "map_rel be ser (s, its) m" and i: "i < length its" "its ! i = it"
  shows "\<exists>r s' it' m'. iterator_next_values is_set s it = Some (r, s', it') \<and> abs_iter_next True is_set i m = (Out_next r, m') \<and>
    map_rel be ser (s', its[i := it']) m'"
proof -
  have k: "fst (am_iters m ! i) = it_kind it" using map_relD(6) [OF rel] i by (simp add: iter_abs_def)
  obtain found s' it' m' where a: "iterator_advance s it = Some (found, s', it')" "it_kind it' = it_kind it"
    "map_rel be ser (s', its[i := it']) m'"
    "case found of None \<Rightarrow> abs_advance i m = (None, m')
     | Some q \<Rightarrow> \<exists>mr. record_at s' q = Some mr \<and> abs_advance i m = (Some (ser q, mr_key mr, mr_value mr), m')"
    using advance_rel [OF rel i] by blast
  show ?thesis
  proof (cases found)
    case None
    with a show ?thesis by (simp add: iterator_next_values_def abs_iter_next_def)
  next
    case (Some q)
    with a(4) obtain mr where "record_at s' q = Some mr" "abs_advance i m = (Some (ser q, mr_key mr, mr_value mr), m')" by auto
    with a Some map_rel_dup [OF a(3), of "iterator_values is_set (it_kind it) mr"] k show ?thesis
      by (simp add: iterator_next_values_def abs_iter_next_def fold_dup Let_def iterator_values_record)
  qed
qed

lemma next_refines:
  assumes rel: "map_rel be ser (s, its) m" and i: "i < length its"
  shows "\<exists>out st' m'. map_exec be slack is_set (Op_next i arr) (s, its) = Some (out, st') \<and> abs_iter_next arr is_set i m = (out, m') \<and>
    map_rel be ser st' m'"
proof (cases "it_kind (its ! i) = JS_ITERATOR_KIND_KEY_AND_VALUE \<and> \<not> arr")
  case True
  have k: "fst (am_iters m ! i) = it_kind (its ! i)" using map_relD(6) [OF rel] i by (simp add: iter_abs_def)
  obtain found s' it' m' where a: "iterator_advance s (its ! i) = Some (found, s', it')" "map_rel be ser (s', its[i := it']) m'"
    "case found of None \<Rightarrow> abs_advance i m = (None, m')
     | Some q \<Rightarrow> \<exists>mr. record_at s' q = Some mr \<and> abs_advance i m = (Some (ser q, mr_key mr, mr_value mr), m')"
    using advance_rel [OF rel i refl] by blast
  with True i k show ?thesis
    by (cases found) (auto simp: js_map_iterator_next_def abs_iter_next_def mem_get_in)
next
  case False
  obtain r s' it' m' where "iterator_next_values is_set s (its ! i) = Some (r, s', it')" "abs_iter_next True is_set i m = (Out_next r, m')"
    "map_rel be ser (s', its[i := it']) m'" using next_rel [OF rel i refl] by blast
  moreover have "abs_iter_next arr is_set i m = abs_iter_next True is_set i m"
    using False map_relD(6) [OF rel] i by (cases arr) (simp_all add: abs_iter_next_def iter_abs_def Let_def split: option.split prod.split)
  ultimately show ?thesis using False i by (cases r) (auto simp: js_map_iterator_next_def mem_get_in)
qed

lemma set_refines:
  assumes rel: "map_rel be ser (s, its) m" and sl: "slack_ok slack" and ok: "map_op_ok (Op_set k v mem dies) (s, its)"
  shows "\<exists>D out st' m' ser'. D \<subseteq> may_die dies \<and> map_exec be slack is_set (Op_set k v mem dies) (s, its) = Some (out, st') \<and>
    abs_set be is_set k v mem m = (out, m') \<and> map_rel be ser' st' (finish D m')"
proof -
  note r = map_relD [OF rel]
  let ?v = "if is_set then Val_undefined else v"
  have k: "value_ok k" and strong: "\<not> is_weak s" and d: "may_die dies \<subseteq> {..<length its}" using ok core_okD(1) [OF r(1)] by simp_all
  show ?thesis
  proof (cases rule: find_cases [OF r(1) r(5) k])
    case (1 p mr)
    obtain D s1 its1 where e: "D \<subseteq> may_die dies" "drop_value dies (mr_value mr) (s, its) = Some (release_value s1 (mr_value mr), its1)"
      "map_rel be ser (s1, its1) (finish D m)" "length its1 = length its"
      "\<And>q. live s1 q = live s q" "\<And>q. live s q \<Longrightarrow> rec_key s1 q = rec_key s q \<and> rec_value s1 q = rec_value s q"
      by (rule drop_rel [OF rel d, where v = "mr_value mr"]) blast
    obtain mr1 where m1: "record_at s1 p = Some mr1" "\<not> mr_empty mr1" "mr_key mr1 = mr_key mr" "mr_value mr1 = mr_value mr"
      using live_same [OF 1(2,3)] e(5) e(6) [OF 1(4)] by blast
    have "map_exec be slack is_set (Op_set k v mem dies) (s, its) =
        Some (Out_ok, set_record (dup_value (release_value s1 (mr_value mr1)) ?v) p (mr1\<lparr>mr_value := ?v\<rparr>), its1)"
      using 1(1,2) e(2) m1 strong by (simp add: js_map_set_def Let_def)
    moreover have "abs_set be is_set k v mem m = (Out_ok, m\<lparr>am_entries :=
        map (\<lambda>(t, k', v'). (t, k', if key_of be k' = key_of be k then ?v else v')) (am_entries m)\<rparr>)"
      using 1 by (simp add: abs_set_def Let_def)
    moreover have "key_of be (mr_key mr1) = key_of be k" using m1(3) 1(5) by simp
    from store_rel [OF e(3) m1(1,2) this, of ?v]
    have "map_rel be ser (set_record (dup_value (release_value s1 (mr_value mr1)) ?v) p (mr1\<lparr>mr_value := ?v\<rparr>), its1)
      (finish D (m\<lparr>am_entries := map (\<lambda>(t, k', v'). (t, k', if key_of be k' = key_of be k then ?v else v')) (am_entries m)\<rparr>))"
      by simp
    ultimately show ?thesis using e(1) by blast
  next
    case 2
    show ?thesis
    proof (cases mem)
      case None
      with 2 strong rel show ?thesis
        by (intro exI [of _ "{}"] exI [of _ Out_exception] exI [of _ "(s, its)"] exI [of _ m] exI [of _ ser])
          (simp add: js_map_set_def abs_set_def map_add_record_def Let_def)
    next
      case (Some p)
      obtain s1 mr where s1: "map_add_record be slack (Some p) False s (map_normalize_key k) = Some (Some p, s1)" "record_at s1 p = Some mr"
        "map_rel be (ser(p := am_next m)) (set_record (dup_value s1 ?v) p (mr\<lparr>mr_value := ?v\<rparr>), its)
          (m\<lparr>am_entries := am_entries m @ [(am_next m, map_normalize_key k, ?v)], am_next := Suc (am_next m)\<rparr>)"
        using add_rel [OF rel _ k sl _ 2(3), of p False ?v] ok Some by auto
      have "map_exec be slack is_set (Op_set k v mem dies) (s, its) = Some (Out_ok, set_record (dup_value s1 ?v) p (mr\<lparr>mr_value := ?v\<rparr>), its)"
        using 2(1) strong Some s1(1,2) by (simp add: js_map_set_def Let_def)
      moreover have "abs_set be is_set k v mem m = (Out_ok,
          m\<lparr>am_entries := am_entries m @ [(am_next m, map_normalize_key k, ?v)], am_next := Suc (am_next m)\<rparr>)"
        using 2(2) Some by (simp add: abs_set_def Let_def)
      ultimately show ?thesis using s1(3) by (intro exI [of _ "{}"]) auto
    qed
  qed
qed

lemma get_refines:
  assumes rel: "map_rel be ser (s, its) m" and k: "value_ok k"
  shows "\<exists>out s' m'. map_exec be slack is_set (Op_get k) (s, its) = Some (out, s', its) \<and>
    abs_exec be is_set (Op_get k) m = (out, m') \<and> map_rel be ser (s', its) m'"
proof (cases rule: find_cases [OF map_relD(1) [OF rel] map_relD(5) [OF rel] k])
  case (1 p mr)
  have dup: "dup_value s (mr_value mr) = s\<lparr>dup_count := \<lambda>v. dup_count s v + int (count_list [mr_value mr] v)\<rparr>"
    using fold_dup [of "[mr_value mr]" s] by (simp del: count_list.simps)
  show ?thesis using 1 map_rel_dup [OF rel, of "[mr_value mr]", folded dup] by (simp add: js_map_get_def)
next
  case 2
  with rel show ?thesis by (simp add: js_map_get_def)
qed

lemma delete_refines:
  assumes rel: "map_rel be ser (s, its) m" and ok: "map_op_ok (Op_delete k dies) (s, its)"
  shows "\<exists>D out st' m'. D \<subseteq> may_die dies \<and> map_exec be slack is_set (Op_delete k dies) (s, its) = Some (out, st') \<and>
    abs_exec be is_set (Op_delete k dies) m = (out, m') \<and> map_rel be ser st' (finish D m')"
proof -
  have k: "value_ok k" and d: "may_die dies \<subseteq> {..<length its}" using ok by simp_all
  show ?thesis
  proof (cases rule: find_cases [OF map_relD(1) [OF rel] map_relD(5) [OF rel] k])
    case (1 p mr)
    let ?m = "m\<lparr>am_entries := filter (\<lambda>(t, k, v). t \<noteq> ser p) (am_entries m)\<rparr>"
    have "filter (\<lambda>(t, k', v). key_of be k' \<noteq> key_of be k) (am_entries m) = filter (\<lambda>(t, k, v). t \<noteq> ser p) (am_entries m)"
      using filter_entries [OF map_relD(1) [OF rel] map_relD(4) [OF rel] 1(4), of k] 1(2,5) by (simp add: map_relD(5) [OF rel] rec_simps)
    then have abs: "abs_exec be is_set (Op_delete k dies) m = (Out_bool True, ?m)" by (simp add: 1(6))
    obtain D s' its' where D: "D \<subseteq> may_die dies" "map_delete_record dies (s, its) p = Some (s', its')"
      "map_rel be ser (s', its') (finish D ?m)"
      using delete_rel [OF rel 1(2,3) d] by (elim exE conjE) (rule that)
    have "map_exec be slack is_set (Op_delete k dies) (s, its) = Some (Out_bool True, s', its')"
      by (simp add: js_map_delete_def 1(1) D(2))
    with D(1,3) abs show ?thesis by blast
  next
    case 2
    then have "filter (\<lambda>(t, k', v). key_of be k' \<noteq> key_of be k) (am_entries m) = am_entries m"
      using set_live_records [OF map_relD(1) [OF rel]]
      by (auto simp: map_relD(5) [OF rel] entries_def filter_map o_def intro!: filter_True)
    with 2 rel show ?thesis by (intro exI [of _ "{}"]) (simp add: js_map_delete_def)
  qed
qed

lemma iterate_refines:
  assumes rel: "map_rel be ser (s, its) m"
  shows "map_rel be ser (s, its @ [new_map_iterator kind]) (m\<lparr>am_iters := am_iters m @ [(kind, At 0)]\<rparr>)"
proof -
  note r = map_relD [OF rel]
  let ?its = "its @ [new_map_iterator kind]"
  have count: "count_list (map it_cur ?its) (Some p) = count_list (map it_cur its) (Some p)" for p
    by (simp add: new_map_iterator_def)
  have "\<forall>it \<in> set ?its. (it_done it \<longrightarrow> it_cur it = None) \<and> (\<forall>p. it_cur it = Some p \<longrightarrow> p \<in> set (records s))"
    using r(3) by (simp add: locks_ok_def new_map_iterator_def)
  then have "locks_ok ?its s" using r(3) unfolding locks_ok_def count by blast
  with r show ?thesis by (simp add: map_rel_def iter_abs_def new_map_iterator_def)
qed

lemma abs_stepI:
  "D \<subseteq> op_deaths op \<Longrightarrow> abs_exec be is_set op m = (out, m') \<Longrightarrow> abs_step be is_set op m out (finish D m')"
  "abs_exec be is_set op m = (out, m') \<Longrightarrow> abs_step be is_set op m out m'"
proof -
  show step: "D \<subseteq> op_deaths op \<Longrightarrow> abs_exec be is_set op m = (out, m') \<Longrightarrow> abs_step be is_set op m out (finish D m')" for D
    unfolding abs_step_def by (intro exI [of _ D]) simp
  show "abs_exec be is_set op m = (out, m') \<Longrightarrow> abs_step be is_set op m out m'" using step [of "{}"] by simp
qed

lemma exec_refines:
  assumes rel: "map_rel be ser (s, its) m" and sl: "slack_ok slack" and ok: "map_op_ok op (s, its)"
  shows "\<exists>out st' m' ser'. map_exec be slack is_set op (s, its) = Some (out, st') \<and>
    abs_step be is_set op m out m' \<and> map_rel be ser' st' m'"
proof (cases op)
  case (Op_set k v mem dies)
  from set_refines [OF rel sl ok [unfolded Op_set], of is_set] show ?thesis
    unfolding Op_set by (metis abs_stepI(1) abs_exec.simps(1) op_deaths.simps(1))
next
  case (Op_get k)
  from get_refines [OF rel, of k slack is_set] ok show ?thesis unfolding Op_get by (fastforce intro: abs_stepI(2))
next
  case (Op_has k)
  with ok have "value_ok k" by simp
  then have "\<exists>out. map_exec be slack is_set op (s, its) = Some (out, s, its) \<and> abs_exec be is_set op m = (out, m)" unfolding Op_has
    by (cases rule: find_cases [OF map_relD(1) [OF rel] map_relD(5) [OF rel]]) (auto simp: js_map_has_def)
  with rel show ?thesis by (blast intro: abs_stepI(2))
next
  case (Op_delete k dies)
  from delete_refines [OF rel ok [unfolded Op_delete], of slack is_set] show ?thesis
    unfolding Op_delete by (metis abs_stepI(1) op_deaths.simps(2))
next
  case (Op_clear dies)
  from clear_rel [OF rel ok [unfolded Op_clear]] obtain D s' its' where "D \<subseteq> may_die dies" "js_map_clear dies (s, its) = Some (s', its')"
    "map_rel be ser (s', its') (finish D (m\<lparr>am_entries := []\<rparr>))" by blast
  then show ?thesis unfolding Op_clear
    by (intro exI [of _ Out_ok] exI [of _ "(s', its')"] exI [of _ "finish D (m\<lparr>am_entries := []\<rparr>)"] exI [of _ ser] conjI abs_stepI(1)) simp_all
next
  case Op_size
  have "unat (record_count s) = length (am_entries m)" using core_okD(7) map_relD(1,5) [OF rel] by (simp add: entries_def)
  with rel show ?thesis unfolding Op_size by (auto simp: js_map_get_size_def intro!: abs_stepI(2))
next
  case (Op_iterate kind obj mem)
  with iterate_refines [OF rel, of kind] rel show ?thesis
    by (auto simp: js_create_map_iterator_def intro!: abs_stepI(2))
next
  case (Op_next i arr)
  with ok have i: "i < length its" by simp
  from next_refines [OF rel i, of slack is_set arr] show ?thesis unfolding Op_next by (metis abs_stepI(2) abs_exec.simps(8))
next
  case (Op_drop i)
  with ok have i: "i < length its" by simp
  have "fst (am_iters m ! i) = it_kind (its ! i)" using map_relD(6) [OF rel] i by (simp add: iter_abs_def)
  with release_rel [OF rel i refl] i show ?thesis unfolding Op_drop by (fastforce simp: mem_get_in intro: abs_stepI(2))
qed


subsection \<open>Runs\<close>

interpretation map: simulation "map_exec be slack is_set" "\<lambda>op st. slack_ok slack \<and> map_op_ok op st"
    "abs_step be is_set" "\<lambda>st m. \<exists>ser. map_rel be ser st m" for be slack is_set
proof unfold_locales
  fix c a op
  assume "\<exists>ser. map_rel be ser c a" "slack_ok slack \<and> map_op_ok op c"
  then show "\<exists>out c' a'. map_exec be slack is_set op c = Some (out, c') \<and> abs_step be is_set op a out a' \<and> (\<exists>ser. map_rel be ser c' a')"
    using exec_refines [of be _ "fst c" "snd c" a slack op is_set] by (metis prod.collapse)
qed

text \<open>Without such deaths the specification is a function.\<close>

lemma abs_step_function: "op_deaths op = {} \<Longrightarrow> abs_step be is_set op m out m' \<longleftrightarrow> abs_exec be is_set op m = (out, m')"
  by (auto simp: abs_step_def prod_eq_iff)

lemma abs_run_function:
  "spec_run (abs_step be is_set) ops m outs m' \<Longrightarrow> \<forall>op \<in> set ops. op_deaths op = {} \<Longrightarrow> spec_ops (abs_exec be is_set) ops m = (outs, m')"
  by (induction rule: spec_run.induct) (auto simp: abs_step_function)

lemma new_map_rel: "map_rel be ser (new_map_state False, []) empty_abs_map"
proof -
  have "live (new_map_state False) p = False" for p by (simp add: live_def new_map_state_def)
  then show ?thesis
    by (simp add: map_rel_def new_map_state_def empty_abs_map_def core_ok_def size_ok_def locks_ok_def serials_ok_def
        entries_def held_def live_records_def table_ok_def inj_on_def)
qed

text \<open>
  C3.  Maps and sets: whatever the program does with a map - stores, lookups, deletions, clearing, creating,
  advancing and dropping iterators, in any order and also between the steps of an iteration, with any failure of an
  allocation, and with any iterators of the map ending because a value is released in the middle of an
  operation - no step reads a record that has been freed, every result is the one of the abstract map (the entries in
  the order of insertion, an iterator visits the entries after the last one it has visited, entries deleted before it
  comes to them are skipped and entries added meanwhile are visited; the abstract map chooses nothing but which of the
  iterators named by \<open>dies\<close> have ended), and at the end the references taken to keys and values are exactly those of
  the records in the map and those lent to the callers.  One use is excluded by \<open>map_op_ok\<close>, because there the code is
  wrong: values released by \<open>clear\<close> must not end an iterator that stands on a deleted record (see
  \<open>map_clear_use_after_free\<close>).
\<close>

theorem map_refines_spec:
  assumes slack: "slack_ok slack"
    and ok: "ops_ok (map_exec be slack is_set) (\<lambda>op st. slack_ok slack \<and> map_op_ok op st) ops (new_map_state False, [])"
  shows "\<exists>outs ser s its m. run_ops (map_exec be slack is_set) ops (new_map_state False, []) = Some (outs, s, its) \<and>
    spec_run (abs_step be is_set) ops empty_abs_map outs m \<and> map_rel be ser (s, its) m \<and>
    (\<forall>v. dup_count s v = am_lent m v + held s v)"
proof -
  have "\<exists>ser. map_rel be ser (new_map_state False, []) empty_abs_map" using new_map_rel by blast
  from map.run [OF this ok] obtain outs c' m ser where r: "run_ops (map_exec be slack is_set) ops (new_map_state False, []) = Some (outs, c')"
    "spec_run (abs_step be is_set) ops empty_abs_map outs m" "map_rel be ser c' m" by blast
  obtain s its where "c' = (s, its)" by (cases c')
  with r map_relD(7) [of be ser s its m] show ?thesis by blast
qed

lemma slack_none: "slack_ok (\<lambda>n. Some 0)"
  by (simp add: slack_ok_def)

lemmas map_exec_defs = js_map_set_def js_map_get_def js_map_has_def js_map_delete_def js_map_clear_def clear_loop.simps first_record_def
  map_add_record_def map_delete_record_def drop_value_def map_find_record_def bucket_add_tail_def map_normalize_key_def
  js_map_iterator_next_def iterator_next_values_def iterator_advance_def js_create_map_iterator_def new_map_iterator_def
  js_map_iterator_finalizer_def records_after_def
  map_decref_record_def dup_value_def release_value_def set_record_def free_record_def Let_def iterator_values_def js_map_get_size_def
  mem_get_def mem_set_def new_map_state_def js_same_value_zero_def js_strict_eq2_def live_records_def live_def value_ok_def map_hash_key_def

text \<open>The object at address 100 is the last to refer to the iterator 1, and the object at address 200 to the iterator 0.\<close>

definition example_dies :: deaths where
  "example_dies v st = (if v = Val_object 100 then [1] else if v = Val_object 200 then [0] else [])"

lemma may_die_none [simp]: "may_die (\<lambda>v st. []) = {}"
  by (simp add: may_die_def)

lemma may_die_example: "may_die example_dies = {0, 1}"
proof -
  have "i \<in> set (example_dies v st) \<Longrightarrow> i = 0 \<or> i = 1" for i v st by (auto simp: example_dies_def split: if_splits)
  moreover have "0 \<in> set (example_dies (Val_object 200) st)" "1 \<in> set (example_dies (Val_object 100) st)" for st
    by (simp_all add: example_dies_def)
  ultimately show ?thesis unfolding may_die_def by blast
qed

definition example_ops :: "map_op list" where
  "example_ops =
     [Op_set (Val_object 8) (Val_object 100) (Some 100) no_deaths, Op_iterate JS_ITERATOR_KIND_KEY_AND_VALUE True True,
      Op_iterate JS_ITERATOR_KIND_KEY True True, Op_next 0 True, Op_next 1 True, Op_delete (Val_object 8) example_dies,
      Op_set (Val_object 8) (Val_int 30) (Some 300) no_deaths, Op_next 0 False, Op_get (Val_object 8), Op_clear no_deaths]"

theorem map_refines_spec_witness:
  "\<exists>ser s its m. run_ops (map_exec False (\<lambda>n. Some 0) False) example_ops (new_map_state False, []) =
      Some ([Out_ok, Out_ok, Out_ok, Out_next (Some [Val_object 8, Val_object 100]), Out_next (Some [Val_object 8]), Out_bool True, Out_ok,
             Out_exception, Out_value (Val_int 30), Out_ok], s, its) \<and>
    map_rel False ser (s, its) m"
proof -
  have ok: "ops_ok (map_exec False (\<lambda>n. Some 0) False) (\<lambda>op st. slack_ok (\<lambda>n. Some 0) \<and> map_op_ok op st) example_ops (new_map_state False, [])"
    by (simp add: example_ops_def map_exec_defs word_le_nat_alt slack_none may_die_example example_dies_def)
  have "map_option fst (run_ops (map_exec False (\<lambda>n. Some 0) False) example_ops (new_map_state False, [])) =
      Some [Out_ok, Out_ok, Out_ok, Out_next (Some [Val_object 8, Val_object 100]), Out_next (Some [Val_object 8]), Out_bool True, Out_ok,
             Out_exception, Out_value (Val_int 30), Out_ok]"
    by code_simp
  with map_refines_spec [OF slack_none ok] show ?thesis by fastforce
qed

subsection \<open>The excluded use\<close>

definition clear_ops :: "map_op list" where
  "clear_ops =
     [Op_set (Val_object 8) (Val_object 200) (Some 100) no_deaths, Op_set (Val_object 16) (Val_int 20) (Some 200) no_deaths,
      Op_iterate JS_ITERATOR_KIND_KEY True True, Op_next 0 True, Op_next 0 True, Op_delete (Val_object 16) no_deaths]"

text \<open>
  A map with two entries; the value of the first one is the only reference to an iterator that stands on the
  second one, which has been deleted.  \<open>clear\<close> reads the link to the second record, deletes the first one and with it the
  iterator, whose finalizer frees the second record, and goes on with the freed record.
\<close>

lemma map_clear_use_after_free:
  "run_ops (map_exec False (\<lambda>n. Some 0) False) clear_ops (new_map_state False, []) \<noteq> None \<and>
   run_ops (map_exec False (\<lambda>n. Some 0) False) (clear_ops @ [Op_clear example_dies]) (new_map_state False, []) = None"
  by code_simp


end
