(* ===== verification/Js_Set.thy ===== *)
theory Js_Set
  imports Js_Map_Refine
begin

section \<open>The set methods\<close>

text \<open>
  \<open>js_set_isDisjointFrom\<close>, \<open>js_set_isSubsetOf\<close>, \<open>js_set_isSupersetOf\<close>, \<open>js_set_intersection\<close>,
  \<open>js_set_difference\<close>, \<open>js_set_symmetricDifference\<close> and \<open>js_set_union\<close> (src/quickjs/quickjs.c).  The
  argument is any object with a size and the methods \<open>has\<close> and \<open>keys\<close>: what a call of them does is an argument of the
  model; it may change \<open>this\<close>, so the calls work on the pair of the map of \<open>this\<close> and a state of
  the caller's choice.  A failed call is an exception.  The references to items that a function
  receives and releases are counted in the map of \<open>this\<close>; releasing an item has no other effect on \<open>this\<close>, so an
  item is not the last reference to an iterator over it.  The iterator over \<open>this\<close> that a method makes for itself
  is assumed to be allocated.
\<close>

subsection \<open>The argument\<close>

record 'w set_like =
  sl_size :: "map_state \<times> 'w \<Rightarrow> int option \<times> map_state \<times> 'w"
  sl_has :: "map_state \<times> 'w \<Rightarrow> bool \<times> map_state \<times> 'w"
  sl_keys :: "map_state \<times> 'w \<Rightarrow> bool \<times> map_state \<times> 'w"
  sl_iterate :: "map_state \<times> 'w \<Rightarrow> bool \<times> map_state \<times> 'w"
  sl_next :: "map_state \<times> 'w \<Rightarrow> js_any option option \<times> map_state \<times> 'w"
  sl_call_has :: "js_any \<Rightarrow> map_state \<times> 'w \<Rightarrow> bool option \<times> map_state \<times> 'w"

text \<open>The size and the methods are read first, in this order.\<close>

definition set_like_prepare :: "'w set_like \<Rightarrow> map_state \<times> 'w \<Rightarrow> int option \<times> map_state \<times> 'w" where
  "set_like_prepare sl st =
     (case sl_size sl st of
        (None, st) \<Rightarrow> (None, st)
      | (Some n, st) \<Rightarrow>
          (case sl_has sl st of
             (False, st) \<Rightarrow> (None, st)
           | (True, st) \<Rightarrow> (case sl_keys sl st of (False, st) \<Rightarrow> (None, st) | (True, st) \<Rightarrow> (Some n, st))))"

text \<open>A loop: \<open>Inl\<close> goes on, \<open>Inr\<close> leaves it; \<open>None\<close> when it never ends.\<close>

partial_function (option) set_loop :: "('st \<Rightarrow> ('st + 'r) option) \<Rightarrow> 'st \<Rightarrow> 'r option" where
  "set_loop body st = do {
     r \<leftarrow> body st;
     case r of Inl st \<Rightarrow> set_loop body st | Inr x \<Rightarrow> Some x }"

subsection \<open>Predicates\<close>

text \<open>The items of the argument are looked up in \<open>this\<close>, until one is found, or is not found (\<open>stop\<close>).\<close>

definition keys_body ::
    "bool \<Rightarrow> 'w set_like \<Rightarrow> bool \<Rightarrow> map_state \<times> 'w \<Rightarrow> (map_state \<times> 'w + bool option \<times> map_state \<times> 'w) option" where
  "keys_body be sl stop st =
     (case sl_next sl st of
        (None, st) \<Rightarrow> Some (Inr (None, st))
      | (Some None, st) \<Rightarrow> Some (Inr (Some (\<not> stop), st))
      | (Some (Some item), s, w) \<Rightarrow> do {
          let item = map_normalize_key item;
          let s = dup_value s item;
          found \<leftarrow> map_find_record be s item;
          let s = release_value s item;
          Some (if (found \<noteq> None) = stop then Inr (Some stop, s, w) else Inl (s, w)) })"

text \<open>The elements of \<open>this\<close> are asked of the argument.\<close>

definition has_body ::
    "'w set_like \<Rightarrow> bool \<Rightarrow> (map_state \<times> 'w) \<times> map_iterator \<Rightarrow>
      ((map_state \<times> 'w) \<times> map_iterator + bool option \<times> (map_state \<times> 'w) \<times> map_iterator) option" where
  "has_body sl stop st = do {
     let ((s, w), it) = st;
     (r, s, it) \<leftarrow> iterator_next_values True s it;
     case r of
       None \<Rightarrow> Some (Inr (Some (\<not> stop), (s, w), it))
     | Some vs \<Rightarrow>
         (case sl_call_has sl (hd vs) (s, w) of
            (ok, s, w) \<Rightarrow>
              let s = release_value s (hd vs) in
              Some (case ok of
                      None \<Rightarrow> Inr (None, (s, w), it)
                    | Some found \<Rightarrow> if found = stop then Inr (Some stop, (s, w), it) else Inl ((s, w), it))) }"

definition keys_loop :: "bool \<Rightarrow> 'w set_like \<Rightarrow> bool \<Rightarrow> map_state \<times> 'w \<Rightarrow> (bool option \<times> map_state \<times> 'w) option" where
  "keys_loop be sl stop st =
     (case sl_iterate sl st of (False, st) \<Rightarrow> Some (None, st) | (True, st) \<Rightarrow> set_loop (keys_body be sl stop) st)"

text \<open>The iterator over \<open>this\<close> is released in the end.\<close>

definition has_loop :: "'w set_like \<Rightarrow> bool \<Rightarrow> map_state \<times> 'w \<Rightarrow> (bool option \<times> map_state \<times> 'w) option" where
  "has_loop sl stop st = do {
     (found, (s, w), it) \<leftarrow> set_loop (has_body sl stop) (st, new_map_iterator JS_ITERATOR_KIND_KEY);
     s \<leftarrow> js_map_iterator_finalizer s it;
     Some (found, s, w) }"

definition js_set_isDisjointFrom :: "bool \<Rightarrow> 'w set_like \<Rightarrow> map_state \<times> 'w \<Rightarrow> (bool option \<times> map_state \<times> 'w) option" where
  "js_set_isDisjointFrom be sl st =
     (case set_like_prepare sl st of
        (None, st) \<Rightarrow> Some (None, st)
      | (Some n, st) \<Rightarrow>
          map_option (\<lambda>(found, st). (map_option Not found, st))
            (if int (unat (record_count (fst st))) > n then keys_loop be sl True st else has_loop sl True st))"

definition js_set_isSubsetOf :: "'w set_like \<Rightarrow> map_state \<times> 'w \<Rightarrow> (bool option \<times> map_state \<times> 'w) option" where
  "js_set_isSubsetOf sl st =
     (case set_like_prepare sl st of
        (None, st) \<Rightarrow> Some (None, st)
      | (Some n, st) \<Rightarrow>
          (if int (unat (record_count (fst st))) > n then Some (Some False, st) else has_loop sl False st))"

definition js_set_isSupersetOf :: "bool \<Rightarrow> 'w set_like \<Rightarrow> map_state \<times> 'w \<Rightarrow> (bool option \<times> map_state \<times> 'w) option" where
  "js_set_isSupersetOf be sl st =
     (case set_like_prepare sl st of
        (None, st) \<Rightarrow> Some (None, st)
      | (Some n, st) \<Rightarrow>
          (if int (unat (record_count (fst st))) < n then Some (Some False, st) else keys_loop be sl False st))"

subsection \<open>New sets\<close>

text \<open>\<open>mem\<close> is the address that \<open>js_malloc\<close> returns for a record of the new set.  The value of a new record is
  \<open>JS_UNDEFINED\<close>, which is counted like any other value here.\<close>

type_synonym set_memory = "(nat \<Rightarrow> nat option) \<times> (map_state \<Rightarrow> nat option)"

definition set_add :: "bool \<Rightarrow> set_memory \<Rightarrow> map_state \<Rightarrow> js_any \<Rightarrow> (bool \<times> map_state) option" where
  "set_add be m t item = do {
     (mr, t) \<leftarrow> map_add_record be (fst m) (snd m t) False t item;
     case mr of
       None \<Rightarrow> Some (False, t)
     | Some p \<Rightarrow> do {
         mr \<leftarrow> record_at t p;
         Some (True, set_record (dup_value t Val_undefined) p (mr\<lparr>mr_value := Val_undefined\<rparr>)) } }"

text \<open>The end of a map: the records are freed, with or without an iterator on them.\<close>

definition js_map_finalizer :: "map_state \<Rightarrow> map_state option" where
  "js_map_finalizer s =
     fold (\<lambda>p r. do {
         s \<leftarrow> r;
         mr \<leftarrow> record_at s p;
         s \<leftarrow> (if mr_empty mr then Some s
              else do {
                s \<leftarrow> (if is_weak s then delete_map_weak_ref s (mr_key mr) p else Some (release_value s (mr_key mr)));
                Some (release_value s (mr_value mr)) });
         Some (free_record s p) })
       (records s) (Some s)"

text \<open>The constructor with an iterable: \<open>next\<close> gives the arguments of the next call of \<open>adder\<close>, \<open>release\<close> frees
  them after it.\<close>

definition constructor_body ::
    "('w \<Rightarrow> (js_any list option option \<times> 'w) option) \<Rightarrow> (js_any list \<Rightarrow> map_state \<Rightarrow> (bool \<times> map_state) option) \<Rightarrow>
      (js_any list \<Rightarrow> 'w \<Rightarrow> 'w) \<Rightarrow> map_state \<times> 'w \<Rightarrow> (map_state \<times> 'w + bool \<times> map_state \<times> 'w) option" where
  "constructor_body next adder release st = do {
     let (t, w) = st;
     (item, w) \<leftarrow> next w;
     case item of
       None \<Rightarrow> Some (Inr (False, t, w))
     | Some None \<Rightarrow> Some (Inr (True, t, w))
     | Some (Some args) \<Rightarrow> do {
         (ok, t) \<leftarrow> adder args t;
         let w = release args w;
         Some (if ok then Inl (t, w) else Inr (False, t, w)) } }"

definition js_map_constructor ::
    "('w \<Rightarrow> (js_any list option option \<times> 'w) option) \<Rightarrow> (js_any list \<Rightarrow> map_state \<Rightarrow> (bool \<times> map_state) option) \<Rightarrow>
      (js_any list \<Rightarrow> 'w \<Rightarrow> 'w) \<Rightarrow> 'w \<Rightarrow> (map_state option \<times> 'w) option" where
  "js_map_constructor next adder release w = do {
     (ok, t, w) \<leftarrow> set_loop (constructor_body next adder release) (new_map_state False, w);
     if ok then Some (Some t, w) else do { t \<leftarrow> js_map_finalizer t; Some (None, w) } }"

text \<open>\<open>new Set(this)\<close>: iteration and \<open>add\<close> as they are defined for sets.\<close>

definition clone_next :: "map_state \<times> map_iterator \<Rightarrow> (js_any list option option \<times> map_state \<times> map_iterator) option" where
  "clone_next st = map_option (\<lambda>(r, st). (Some r, st)) (iterator_next_values True (fst st) (snd st))"

definition clone_release :: "js_any list \<Rightarrow> map_state \<times> map_iterator \<Rightarrow> map_state \<times> map_iterator" where
  "clone_release vs st = (fold (\<lambda>v s. release_value s v) vs (fst st), snd st)"

definition clone_set :: "bool \<Rightarrow> set_memory \<Rightarrow> map_state \<Rightarrow> (map_state option \<times> map_state) option" where
  "clone_set be m s = do {
     (t, s, it) \<leftarrow> js_map_constructor clone_next
                    (\<lambda>vs t. new_map_set be (fst m) (snd m t) False True t (hd vs) Val_undefined) clone_release
                    (s, new_map_iterator JS_ITERATOR_KIND_KEY);
     s \<leftarrow> js_map_iterator_finalizer s it;
     Some (t, s) }"

subsection \<open>Set operations\<close>

text \<open>The state of the loops that build a new set: \<open>this\<close> with the caller's state, and the new set.  The result
  \<open>False\<close> is an exception.\<close>

definition intersection_keys_body ::
    "bool \<Rightarrow> set_memory \<Rightarrow> 'w set_like \<Rightarrow> (map_state \<times> 'w) \<times> map_state \<Rightarrow>
      ((map_state \<times> 'w) \<times> map_state + bool \<times> (map_state \<times> 'w) \<times> map_state) option" where
  "intersection_keys_body be m sl st =
     (let (st, t) = st in
      case sl_next sl st of
        (None, st) \<Rightarrow> Some (Inr (False, st, t))
      | (Some None, st) \<Rightarrow> Some (Inr (True, st, t))
      | (Some (Some item), s, w) \<Rightarrow> do {
          let item = map_normalize_key item;
          let s = dup_value s item;
          in_s \<leftarrow> map_find_record be s item;
          if in_s = None then Some (Inl ((release_value s item, w), t))
          else do {
            in_t \<leftarrow> map_find_record be t item;
            if in_t \<noteq> None then Some (Inl ((release_value s item, w), t))
            else do {
              (ok, t) \<leftarrow> set_add be m t item;
              Some (if ok then Inl ((s, w), t) else Inr (False, (release_value s item, w), t)) } } })"

text \<open>The elements of \<open>this\<close> that the argument has, or has not (\<open>keep\<close>).\<close>

definition filter_has_body ::
    "bool \<Rightarrow> set_memory \<Rightarrow> 'w set_like \<Rightarrow> bool \<Rightarrow> (map_state \<times> 'w) \<times> map_iterator \<times> map_state \<Rightarrow>
      ((map_state \<times> 'w) \<times> map_iterator \<times> map_state + bool \<times> (map_state \<times> 'w) \<times> map_iterator \<times> map_state) option" where
  "filter_has_body be m sl keep st = do {
     let ((s, w), it, t) = st;
     (r, s, it) \<leftarrow> iterator_next_values True s it;
     case r of
       None \<Rightarrow> Some (Inr (True, (s, w), it, t))
     | Some vs \<Rightarrow>
         let item = hd vs in
         (case sl_call_has sl item (s, w) of
            (None, s, w) \<Rightarrow> Some (Inr (False, (release_value s item, w), it, t))
          | (Some found, s, w) \<Rightarrow>
              if found = keep then do {
                let item = map_normalize_key item;
                in_t \<leftarrow> map_find_record be t item;
                if in_t \<noteq> None then Some (Inl ((release_value s item, w), it, t))
                else do {
                  (ok, t) \<leftarrow> set_add be m t item;
                  Some (if ok then Inl ((s, w), it, t) else Inr (False, (release_value s item, w), it, t)) } }
              else Some (Inl ((release_value s item, w), it, t))) }"

text \<open>After an exception the new set is freed.\<close>

definition set_result :: "bool \<Rightarrow> map_state \<times> 'w \<Rightarrow> map_state \<Rightarrow> (map_state option \<times> map_state \<times> 'w) option" where
  "set_result ok st t = (if ok then Some (Some t, st) else do { t \<leftarrow> js_map_finalizer t; Some (None, st) })"

definition filter_has_loop ::
    "bool \<Rightarrow> set_memory \<Rightarrow> 'w set_like \<Rightarrow> bool \<Rightarrow> map_state \<times> 'w \<Rightarrow> (map_state option \<times> map_state \<times> 'w) option" where
  "filter_has_loop be m sl keep st = do {
     (ok, (s, w), it, t) \<leftarrow> set_loop (filter_has_body be m sl keep)
                              (st, new_map_iterator JS_ITERATOR_KIND_KEY, new_map_state False);
     (t, st) \<leftarrow> set_result ok (s, w) t;
     s \<leftarrow> js_map_iterator_finalizer (fst st) it;
     Some (t, s, snd st) }"

definition js_set_intersection ::
    "bool \<Rightarrow> set_memory \<Rightarrow> 'w set_like \<Rightarrow> map_state \<times> 'w \<Rightarrow> (map_state option \<times> map_state \<times> 'w) option" where
  "js_set_intersection be m sl st =
     (case set_like_prepare sl st of
        (None, st) \<Rightarrow> Some (None, st)
      | (Some n, st) \<Rightarrow>
          if int (unat (record_count (fst st))) > n then
            (case sl_iterate sl st of
               (False, st) \<Rightarrow> Some (None, st)
             | (True, st) \<Rightarrow> do {
                 (ok, st, t) \<leftarrow> set_loop (intersection_keys_body be m sl) (st, new_map_state False);
                 set_result ok st t })
          else filter_has_loop be m sl True st)"

definition difference_keys_body ::
    "bool \<Rightarrow> 'w set_like \<Rightarrow> (map_state \<times> 'w) \<times> map_state \<Rightarrow>
      ((map_state \<times> 'w) \<times> map_state + bool \<times> (map_state \<times> 'w) \<times> map_state) option" where
  "difference_keys_body be sl st =
     (let (st, t) = st in
      case sl_next sl st of
        (None, st) \<Rightarrow> Some (Inr (False, st, t))
      | (Some None, st) \<Rightarrow> Some (Inr (True, st, t))
      | (Some (Some item), s, w) \<Rightarrow> do {
          let item = map_normalize_key item;
          let s = dup_value s item;
          mr \<leftarrow> map_find_record be t item;
          t \<leftarrow> (case mr of None \<Rightarrow> Some t | Some p \<Rightarrow> new_map_delete t p);
          Some (Inl ((release_value s item, w), t)) })"

definition js_set_difference ::
    "bool \<Rightarrow> set_memory \<Rightarrow> 'w set_like \<Rightarrow> map_state \<times> 'w \<Rightarrow> (map_state option \<times> map_state \<times> 'w) option" where
  "js_set_difference be m sl st =
     (case set_like_prepare sl st of
        (None, st) \<Rightarrow> Some (None, st)
      | (Some n, st) \<Rightarrow>
          if int (unat (record_count (fst st))) > n then
            (case sl_iterate sl st of
               (False, st) \<Rightarrow> Some (None, st)
             | (True, s, w) \<Rightarrow> do {
                 (t, s) \<leftarrow> clone_set be m s;
                 case t of
                   None \<Rightarrow> Some (None, s, w)
                 | Some t \<Rightarrow> do {
                     (ok, st, t) \<leftarrow> set_loop (difference_keys_body be sl) ((s, w), t);
                     set_result ok st t } })
          else filter_has_loop be m sl False st)"

text \<open>The records of \<open>this\<close> are added to the new set one by one.\<close>

primrec copy_records :: "bool \<Rightarrow> set_memory \<Rightarrow> map_state \<Rightarrow> nat list \<Rightarrow> map_state \<Rightarrow> (bool \<times> map_state) option" where
  "copy_records be m s [] t = Some (True, t)"
| "copy_records be m s (p # ps) t = do {
     mr \<leftarrow> record_at s p;
     if mr_empty mr then copy_records be m s ps t
     else do {
       (ok, t) \<leftarrow> set_add be m (dup_value t (mr_key mr)) (mr_key mr);
       if ok then copy_records be m s ps t else Some (False, t) } }"

definition symmetricDifference_body ::
    "bool \<Rightarrow> set_memory \<Rightarrow> 'w set_like \<Rightarrow> (map_state \<times> 'w) \<times> map_state \<Rightarrow>
      ((map_state \<times> 'w) \<times> map_state + bool \<times> (map_state \<times> 'w) \<times> map_state) option" where
  "symmetricDifference_body be m sl st =
     (let (st, t) = st in
      case sl_next sl st of
        (None, st) \<Rightarrow> Some (Inr (False, st, t))
      | (Some None, st) \<Rightarrow> Some (Inr (True, st, t))
      | (Some (Some item), s, w) \<Rightarrow> do {
          let item = map_normalize_key item;
          let s = dup_value s item;
          present \<leftarrow> map_find_record be s item;
          mr \<leftarrow> map_find_record be t item;
          if present \<noteq> None then do {
            t \<leftarrow> (case mr of None \<Rightarrow> Some t | Some p \<Rightarrow> new_map_delete t p);
            Some (Inl ((release_value s item, w), t)) }
          else if mr \<noteq> None then Some (Inl ((release_value s item, w), t))
          else do {
            (ok, t) \<leftarrow> set_add be m t item;
            Some (if ok then Inl ((s, w), t) else Inr (False, (release_value s item, w), t)) } })"

definition union_body ::
    "bool \<Rightarrow> set_memory \<Rightarrow> 'w set_like \<Rightarrow> (map_state \<times> 'w) \<times> map_state \<Rightarrow>
      ((map_state \<times> 'w) \<times> map_state + bool \<times> (map_state \<times> 'w) \<times> map_state) option" where
  "union_body be m sl st =
     (let (st, t) = st in
      case sl_next sl st of
        (None, st) \<Rightarrow> Some (Inr (False, st, t))
      | (Some None, st) \<Rightarrow> Some (Inr (True, st, t))
      | (Some (Some item), s, w) \<Rightarrow> do {
          let s = dup_value s item;
          (ok, t) \<leftarrow> new_map_set be (fst m) (snd m t) False True t item Val_undefined;
          let s = release_value s item;
          Some (if ok then Inl ((s, w), t) else Inr (False, (s, w), t)) })"

text \<open>Both copy \<open>this\<close> first and then go through the items of the argument; the property \<open>keys\<close> is read after the
  copy, as a part of \<open>sl_iterate\<close>.\<close>

definition copy_and_loop ::
    "bool \<Rightarrow> set_memory \<Rightarrow> 'w set_like \<Rightarrow>
      ((map_state \<times> 'w) \<times> map_state \<Rightarrow> ((map_state \<times> 'w) \<times> map_state + bool \<times> (map_state \<times> 'w) \<times> map_state) option) \<Rightarrow>
      map_state \<times> 'w \<Rightarrow> (map_state option \<times> map_state \<times> 'w) option" where
  "copy_and_loop be m sl body st =
     (case sl_size sl st of
        (None, st) \<Rightarrow> Some (None, st)
      | (Some n, st) \<Rightarrow>
          (case sl_has sl st of
             (False, st) \<Rightarrow> Some (None, st)
           | (True, st) \<Rightarrow> do {
               (ok, t) \<leftarrow> copy_records be m (fst st) (records (fst st)) (new_map_state False);
               if \<not> ok then set_result False st t
               else
                 (case sl_iterate sl st of
                    (False, st) \<Rightarrow> set_result False st t
                  | (True, st) \<Rightarrow> do { (ok, st, t) \<leftarrow> set_loop body (st, t); set_result ok st t }) }))"

definition js_set_symmetricDifference ::
    "bool \<Rightarrow> set_memory \<Rightarrow> 'w set_like \<Rightarrow> map_state \<times> 'w \<Rightarrow> (map_state option \<times> map_state \<times> 'w) option" where
  "js_set_symmetricDifference be m sl st = copy_and_loop be m sl (symmetricDifference_body be m sl) st"

definition js_set_union ::
    "bool \<Rightarrow> set_memory \<Rightarrow> 'w set_like \<Rightarrow> map_state \<times> 'w \<Rightarrow> (map_state option \<times> map_state \<times> 'w) option" where
  "js_set_union be m sl st = copy_and_loop be m sl (union_body be m sl) st"

end
