(* ===== verification/Js_Set_Spec.thy ===== *)
theory Js_Set_Spec
  imports Js_Set
begin

section \<open>The set methods compute set operations\<close>

text \<open>
  What the set methods return for an argument that behaves like a set (the locale \<open>set_argument\<close>, with
  the sets of the engine as its interpretation): the relations and operations on the sets of keys, with
  the order of the elements of the result, and the references that the loops take.
\<close>

subsection \<open>Keys\<close>

definition entry_keys :: "abs_map \<Rightarrow> js_any list" where
  "entry_keys m = map (\<lambda>(t, k, v). k) (am_entries m)"

definition set_keys :: "bool \<Rightarrow> abs_map \<Rightarrow> map_key list" where
  "set_keys be m = map (key_of be) (entry_keys m)"

lemma entry_keys_live: "am_entries m = entries ser s \<Longrightarrow> entry_keys m = map (rec_key s) (live_records s)"
  by (simp add: entry_keys_def entries_def)

lemma keys_update [simp]:
  "entry_keys (m\<lparr>am_iters := a\<rparr>) = entry_keys m" "entry_keys (m\<lparr>am_lent := l\<rparr>) = entry_keys m" "entry_keys (abs_lend vs m) = entry_keys m"
  "set_keys be (m\<lparr>am_iters := a\<rparr>) = set_keys be m" "set_keys be (m\<lparr>am_lent := l\<rparr>) = set_keys be m" "set_keys be (abs_lend vs m) = set_keys be m"
  by (simp_all add: entry_keys_def set_keys_def abs_lend_def)

lemma set_keys_ok:
  assumes "map_rel be ser (s, its) m"
  shows "distinct (set_keys be m)" "x \<in> set (entry_keys m) \<Longrightarrow> key_ok be x" "unat (record_count s) = length (set_keys be m)"
proof -
  note r = map_relD [OF assms]
  have k: "entry_keys m = map (rec_key s) (live_records s)" by (rule entry_keys_live [OF r(5)])
  show "distinct (set_keys be m)"
    using core_okD(5) [OF r(1)] distinct_live [OF r(1)] set_live_records [OF r(1)]
    by (simp add: set_keys_def k distinct_map comp_inj_on_iff inj_on_def)
  show "x \<in> set (entry_keys m) \<Longrightarrow> key_ok be x" using core_okD(4) [OF r(1)] set_live_records [OF r(1)] by (auto simp: k)
  show "unat (record_count s) = length (set_keys be m)" using core_okD(7) [OF r(1)] by (simp add: set_keys_def k)
qed

lemma lookup_keys: "abs_lookup be k m \<noteq> None \<longleftrightarrow> key_of be k \<in> set (set_keys be m)"
  by (force simp: abs_lookup_def find_None_iff set_keys_def entry_keys_def)

lemma find_keys:
  assumes "map_rel be ser (s, its) m" "value_ok k"
  obtains r where "map_find_record be s (map_normalize_key k) = Some r" "r \<noteq> None \<longleftrightarrow> key_of be k \<in> set (set_keys be m)"
    "\<And>p. r = Some p \<Longrightarrow> \<exists>mr. record_at s p = Some mr \<and> \<not> mr_empty mr \<and> live s p \<and> key_of be (mr_key mr) = key_of be k"
proof (cases rule: find_cases [OF map_relD(1) [OF assms(1)] map_relD(5) [OF assms(1)] assms(2)])
  case (1 p mr)
  with lookup_keys [of be k m] show thesis by (intro that [of "Some p"]) auto
next
  case 2
  with lookup_keys [of be k m] show thesis by (intro that [of None]) auto
qed

subsection \<open>References\<close>

lemma release_dup [simp]: "release_value (dup_value s v) v = s"
  by (simp add: release_value_def dup_value_def)

lemma lend_one: "abs_lend [v] m = m\<lparr>am_lent := (am_lent m)(v := am_lent m v + 1)\<rparr>"
  by (simp add: abs_lend_def fun_eq_iff)

lemma unlend_one: "(abs_lend [v] m)\<lparr>am_lent := (am_lent (abs_lend [v] m))(v := am_lent (abs_lend [v] m) v - 1)\<rparr> = m"
  by (simp add: lend_one)

subsection \<open>Iterators\<close>

lemma drop_iterator:
  assumes rel: "map_rel be ser (s, its @ [it]) m" and "it_cur it = None"
  shows "map_rel be ser (s, its) (m\<lparr>am_iters := butlast (am_iters m)\<rparr>)"
proof -
  note r = map_relD [OF rel]
  have count: "count_list (map it_cur (its @ [it])) (Some p) = count_list (map it_cur its) (Some p)" for p
    using assms(2) by simp
  have "\<forall>it \<in> set its. (it_done it \<longrightarrow> it_cur it = None) \<and> (\<forall>p. it_cur it = Some p \<longrightarrow> p \<in> set (records s))"
    using r(3) by (simp add: locks_ok_def)
  then have "locks_ok its s" using r(3) unfolding locks_ok_def count by blast
  with r show ?thesis by (simp add: map_rel_def)
qed

text \<open>The entries at or after a position.\<close>

definition entries_from :: "nat \<Rightarrow> abs_map \<Rightarrow> (nat \<times> js_any \<times> js_any) list" where
  "entries_from t m = filter (\<lambda>e. t \<le> fst e) (am_entries m)"

lemma from_fst: "(\<lambda>(t', k, v). t \<le> t') = (\<lambda>e. t \<le> fst e)"
  by (simp add: fun_eq_iff)

lemma entries_sorted: "map_rel be ser (s, its) m \<Longrightarrow> sorted_wrt (\<lambda>e e'. fst e < fst e') (am_entries m)"
  using map_relD(4,5) [of be ser s its m]
  by (auto simp: serials_ok_def entries_def live_records_def sorted_wrt_map intro: sorted_wrt_filter)

lemma entries_from_step:
  assumes "sorted_wrt (\<lambda>e e'. fst e < fst e') (am_entries m)" "entries_from t m = (t', k, v) # es"
  shows "find (\<lambda>(t', k, v). t \<le> t') (am_entries m) = Some (t', k, v)" "entries_from (Suc t') m = es"
proof -
  have "find (\<lambda>e. t \<le> fst e) xs = Some (t', k, v) \<and> filter (\<lambda>e. Suc t' \<le> fst e) xs = es"
    if "sorted_wrt (\<lambda>e e'. fst e < fst e') xs" "filter (\<lambda>e. t \<le> fst e) xs = (t', k, v) # es" for xs
    using that
  proof (induction xs)
    case (Cons e xs)
    show ?case
    proof (cases "t \<le> fst e")
      case True
      with Cons.prems have e: "e = (t', k, v)" "filter (\<lambda>e. t \<le> fst e) xs = es" by auto
      have "filter (\<lambda>e. Suc t' \<le> fst e) xs = filter (\<lambda>e. t \<le> fst e) xs"
        using Cons.prems(1) True e(1) by (intro filter_cong) fastforce+
      with e True show ?thesis by simp
    next
      case False
      with Cons.prems(2) have "(t', k, v) \<in> set (filter (\<lambda>e. t \<le> fst e) xs)" by simp
      then have "t \<le> t'" by simp
      with False Cons show ?thesis by auto
    qed
  qed simp
  with assms show "find (\<lambda>(t', k, v). t \<le> t') (am_entries m) = Some (t', k, v)" "entries_from (Suc t') m = es"
    unfolding entries_from_def from_fst by blast+
qed

lemma entries_from_end: "entries_from t m = [] \<Longrightarrow> find (\<lambda>(t', k, v). t \<le> t') (am_entries m) = None"
  unfolding from_fst entries_from_def find_None_iff filter_empty_conv by blast

text \<open>One step of an iterator over the keys.\<close>

lemma next_key:
  assumes rel: "map_rel be ser (s, its) m" and i: "i < length its" "am_iters m ! i = (JS_ITERATOR_KIND_KEY, At t)"
    and es: "entries_from t m = (t', k, v) # es"
  shows "\<exists>s' it'. iterator_next_values True s (its ! i) = Some (Some [k], s', it') \<and>
    map_rel be ser (s', its[i := it']) (abs_lend [k] (m\<lparr>am_iters := (am_iters m)[i := (JS_ITERATOR_KIND_KEY, At (Suc t'))]\<rparr>))"
  using next_rel [OF rel i(1) refl, of True] entries_from_step(1) [OF entries_sorted [OF rel] es] i(2)
  by (auto simp: abs_iter_next_def abs_advance_def iterator_values_def Let_def)

lemma next_end:
  assumes rel: "map_rel be ser (s, its) m" and i: "i < length its" "am_iters m ! i = (kind, At t)" and es: "entries_from t m = []"
  shows "\<exists>s' it'. iterator_next_values True s (its ! i) = Some (None, s', it') \<and>
    map_rel be ser (s', its[i := it']) (m\<lparr>am_iters := (am_iters m)[i := (kind, Finished)]\<rparr>)"
  using next_rel [OF rel i(1) refl, of True] entries_from_end [OF es] i(2)
  by (auto simp: abs_iter_next_def abs_advance_def)

subsection \<open>Arguments that behave like sets\<close>

text \<open>\<open>elems\<close> are the elements of the argument, \<open>idle\<close> its states, \<open>iterating w xs\<close> means that its iterator
  still has the items \<open>xs\<close> to give.  No call changes \<open>this\<close>.\<close>

locale set_argument =
  fixes be :: bool
    and sl :: "'w set_like"
    and elems :: "js_any list"
    and idle :: "'w \<Rightarrow> bool"
    and iterating :: "'w \<Rightarrow> js_any list \<Rightarrow> bool"
  assumes size_law: "idle w \<Longrightarrow> \<exists>w'. sl_size sl (s, w) = (Some (int (length elems)), s, w') \<and> idle w'"
    and has_law: "idle w \<Longrightarrow> \<exists>w'. sl_has sl (s, w) = (True, s, w') \<and> idle w'"
    and keys_law: "idle w \<Longrightarrow> \<exists>w'. sl_keys sl (s, w) = (True, s, w') \<and> idle w'"
    and iterate_law: "idle w \<Longrightarrow> \<exists>w'. sl_iterate sl (s, w) = (True, s, w') \<and> iterating w' elems"
    and next_law: "iterating w (x # xs) \<Longrightarrow> \<exists>w'. sl_next sl (s, w) = (Some (Some x), s, w') \<and> iterating w' xs"
    and end_law: "iterating w [] \<Longrightarrow> \<exists>w'. sl_next sl (s, w) = (Some None, s, w')"
    and call_has_law: "idle w \<Longrightarrow> value_ok k \<Longrightarrow>
      \<exists>w'. sl_call_has sl k (s, w) = (Some (key_of be k \<in> key_of be ` set elems), s, w') \<and> idle w'"
    and elems_law: "idle w \<Longrightarrow> x \<in> set elems \<Longrightarrow> value_ok x"
    and distinct_law: "idle w \<Longrightarrow> distinct (map (key_of be) elems)"
begin

lemma prepare: "idle w \<Longrightarrow> \<exists>w'. set_like_prepare sl (s, w) = (Some (int (length elems)), s, w') \<and> idle w'"
proof -
  assume "idle w"
  then obtain w1 where w1: "sl_size sl (s, w) = (Some (int (length elems)), s, w1)" "idle w1" using size_law by blast
  obtain w2 where w2: "sl_has sl (s, w1) = (True, s, w2)" "idle w2" using has_law [OF w1(2)] by blast
  obtain w3 where "sl_keys sl (s, w2) = (True, s, w3)" "idle w3" using keys_law [OF w2(2)] by blast
  with w1(1) w2(1) show ?thesis by (simp add: set_like_prepare_def)
qed

lemma keys_loop_from:
  assumes rel: "map_rel be ser (s, its) m"
  shows "iterating w xs \<Longrightarrow> (\<And>x. x \<in> set xs \<Longrightarrow> value_ok x) \<Longrightarrow>
    \<exists>w'. set_loop (keys_body be sl stop) (s, w) =
      Some (Some (if \<exists>x \<in> set xs. (key_of be x \<in> set (set_keys be m)) = stop then stop else \<not> stop), s, w')"
proof (induction xs arbitrary: w)
  case Nil
  then show ?case using end_law [of w s] by (subst set_loop.simps) (auto simp: keys_body_def)
next
  case (Cons x xs)
  obtain w1 where w1: "sl_next sl (s, w) = (Some (Some x), s, w1)" "iterating w1 xs"
    using next_law [OF Cons.prems(1), of s] by blast
  have x: "value_ok x" using Cons.prems(2) by simp
  let ?x = "map_normalize_key x"
  obtain r where r: "map_find_record be (dup_value s ?x) ?x = Some r" "r \<noteq> None \<longleftrightarrow> key_of be x \<in> set (set_keys be m)"
    by (rule find_keys [OF map_rel_counts(1) [OF rel, of ?x] x]) simp
  have body: "keys_body be sl stop (s, w) =
      Some (if (key_of be x \<in> set (set_keys be m)) = stop then Inr (Some stop, s, w1) else Inl (s, w1))"
    using w1(1) r by (simp add: keys_body_def Let_def)
  show ?case
  proof (cases "(key_of be x \<in> set (set_keys be m)) = stop")
    case True
    with body show ?thesis by (subst set_loop.simps) simp
  next
    case False
    with body Cons.IH [OF w1(2)] Cons.prems(2) show ?thesis by (subst set_loop.simps) simp
  qed
qed

lemma keys_loop_result:
  assumes rel: "map_rel be ser (s, its) m" and w: "idle w"
  shows "\<exists>w'. keys_loop be sl stop (s, w) =
    Some (Some (if \<exists>x \<in> set elems. (key_of be x \<in> set (set_keys be m)) = stop then stop else \<not> stop), s, w')"
proof -
  obtain w1 where "sl_iterate sl (s, w) = (True, s, w1)" "iterating w1 elems" using iterate_law [OF w] by blast
  with keys_loop_from [OF rel, of w1 elems stop] elems_law [OF w] show ?thesis by (simp add: keys_loop_def)
qed

lemma has_loop_from:
  "map_rel be ser (s, its) m \<Longrightarrow> i < length its \<Longrightarrow> am_iters m ! i = (JS_ITERATOR_KIND_KEY, At t) \<Longrightarrow> entries_from t m = es \<Longrightarrow> idle w \<Longrightarrow>
    \<exists>s' w' it' pos. set_loop (has_body sl stop) ((s, w), its ! i) =
      Some (Some (if \<exists>e \<in> set es. (key_of be (fst (snd e)) \<in> key_of be ` set elems) = stop then stop else \<not> stop), (s', w'), it') \<and>
      map_rel be ser (s', its[i := it']) (m\<lparr>am_iters := (am_iters m)[i := (JS_ITERATOR_KIND_KEY, pos)]\<rparr>) \<and> idle w'"
proof (induction es arbitrary: s its m t w)
  case Nil
  then show ?case using next_end [OF Nil.prems(1-4)] by (subst set_loop.simps) (auto simp: has_body_def)
next
  case (Cons e es)
  obtain t' k v where e: "e = (t', k, v)" by (cases e)
  note es = Cons.prems(4) [unfolded e]
  have len: "length (am_iters m) = length its" using map_relD(6) [OF Cons.prems(1)] by simp
  let ?m = "m\<lparr>am_iters := (am_iters m)[i := (JS_ITERATOR_KIND_KEY, At (Suc t'))]\<rparr>"
  obtain s1 it1 where s1: "iterator_next_values True s (its ! i) = Some (Some [k], s1, it1)"
    "map_rel be ser (s1, its[i := it1]) (abs_lend [k] ?m)"
    using next_key [OF Cons.prems(1-3) es] by blast
  have "(t', k, v) \<in> set (am_entries m)" 
  proof -
    have "(t', k, v) \<in> set (entries_from t m)" using es by simp
    then show ?thesis by (simp add: entries_from_def)
  qed
  then have "key_ok be k" using set_keys_ok(2) [OF Cons.prems(1), of k] by (force simp: entry_keys_def)
  then have "value_ok k" by (simp add: key_ok_def)
  then obtain w1 where w1: "sl_call_has sl k (s1, w) = (Some (key_of be k \<in> key_of be ` set elems), s1, w1)" "idle w1"
    using call_has_law [OF Cons.prems(5)] by blast
  have rel: "map_rel be ser (release_value s1 k, its[i := it1]) ?m"
    using map_rel_counts(2) [OF s1(2), of k] unfolding unlend_one .
  have body: "has_body sl stop ((s, w), its ! i) = Some (if (key_of be k \<in> key_of be ` set elems) = stop
      then Inr (Some stop, (release_value s1 k, w1), it1) else Inl ((release_value s1 k, w1), it1))"
    using s1(1) w1(1) by (simp add: has_body_def Let_def)
  show ?case
  proof (cases "(key_of be k \<in> key_of be ` set elems) = stop")
    case True
    with body rel w1(2) e show ?thesis by (subst set_loop.simps) auto
  next
    case False
    have "entries_from (Suc t') ?m = es"
      using entries_from_step(2) [OF entries_sorted [OF Cons.prems(1)] es] by (simp add: entries_from_def)
    with Cons.IH [OF rel, of "Suc t'" w1] Cons.prems(2) len w1(2) body False e show ?thesis
      by (subst set_loop.simps) simp
  qed
qed

lemma has_loop_result:
  assumes rel: "map_rel be ser (s, its) m" and w: "idle w"
  shows "\<exists>s' w'. has_loop sl stop (s, w) =
      Some (Some (if \<exists>k \<in> set (set_keys be m). (k \<in> key_of be ` set elems) = stop then stop else \<not> stop), s', w') \<and>
    map_rel be ser (s', its) m"
proof -
  let ?i = "length its" and ?it = "new_map_iterator JS_ITERATOR_KIND_KEY"
  let ?m = "m\<lparr>am_iters := am_iters m @ [(JS_ITERATOR_KIND_KEY, At 0)]\<rparr>"
  have len: "length (am_iters m) = length its" using map_relD(6) [OF rel] by simp
  have keys: "(\<exists>e \<in> set (am_entries m). P (key_of be (fst (snd e)))) \<longleftrightarrow> (\<exists>k \<in> set (set_keys be m). P k)" for P
    by (force simp: set_keys_def entry_keys_def)
  have upd: "(am_iters m @ [a])[?i := b] = am_iters m @ [b]" for a b by (simp add: list_update_append len)
  obtain s1 w1 it1 pos where s1: "set_loop (has_body sl stop) ((s, w), ?it) =
      Some (Some (if \<exists>k \<in> set (set_keys be m). (k \<in> key_of be ` set elems) = stop then stop else \<not> stop), (s1, w1), it1)"
    "map_rel be ser (s1, its @ [it1]) (?m\<lparr>am_iters := am_iters m @ [(JS_ITERATOR_KIND_KEY, pos)]\<rparr>)"
    using has_loop_from [OF iterate_refines [OF rel, of JS_ITERATOR_KIND_KEY], of ?i 0 "am_entries m" w stop] w len
    by (auto simp: nth_append entries_from_def upd keys [of "\<lambda>k. (k \<in> key_of be ` set elems) = stop"])
  obtain s2 where s2: "js_map_iterator_finalizer s1 it1 = Some s2"
    "map_rel be ser (s2, its @ [it1\<lparr>it_done := True, it_cur := None\<rparr>]) (?m\<lparr>am_iters := am_iters m @ [(it_kind it1, Finished)]\<rparr>)"
    using release_rel [OF s1(2), of ?i it1] by (auto simp: upd)
  have "map_rel be ser (s2, its) m" using drop_iterator [OF s2(2)] by simp
  with s1(1) s2(1) show ?thesis by (simp add: has_loop_def)
qed

end

subsection \<open>The predicates\<close>

context set_argument
begin

lemma isDisjointFrom:
  assumes rel: "map_rel be ser (s, its) m" and w: "idle w"
  shows "\<exists>s' w'. js_set_isDisjointFrom be sl (s, w) = Some (Some (set (set_keys be m) \<inter> key_of be ` set elems = {}), s', w') \<and>
    map_rel be ser (s', its) m"
proof -
  obtain w1 where w1: "set_like_prepare sl (s, w) = (Some (int (length elems)), s, w1)" "idle w1" using prepare [OF w] by blast
  have eq: "(\<exists>x \<in> set elems. key_of be x \<in> set (set_keys be m)) \<longleftrightarrow> set (set_keys be m) \<inter> key_of be ` set elems \<noteq> {}" by auto
  have eq': "(\<exists>k \<in> set (set_keys be m). k \<in> key_of be ` set elems) \<longleftrightarrow> set (set_keys be m) \<inter> key_of be ` set elems \<noteq> {}" by auto
  show ?thesis
  proof (cases "int (unat (record_count s)) > int (length elems)")
    case True
    with w1(1) keys_loop_result [OF rel w1(2), of True] rel show ?thesis by (auto simp: js_set_isDisjointFrom_def eq)
  next
    case False
    with w1(1) has_loop_result [OF rel w1(2), of True] show ?thesis by (auto simp: js_set_isDisjointFrom_def eq')
  qed
qed

lemma card_keys: "idle w \<Longrightarrow> card (key_of be ` set elems) = length elems"
  using distinct_card [OF distinct_law] by simp

lemma isSubsetOf:
  assumes rel: "map_rel be ser (s, its) m" and w: "idle w"
  shows "\<exists>s' w'. js_set_isSubsetOf sl (s, w) = Some (Some (set (set_keys be m) \<subseteq> key_of be ` set elems), s', w') \<and>
    map_rel be ser (s', its) m"
proof -
  obtain w1 where w1: "set_like_prepare sl (s, w) = (Some (int (length elems)), s, w1)" "idle w1" using prepare [OF w] by blast
  note k = set_keys_ok [OF rel]
  show ?thesis
  proof (cases "int (unat (record_count s)) > int (length elems)")
    case True
    have "\<not> set (set_keys be m) \<subseteq> key_of be ` set elems"
    proof
      assume "set (set_keys be m) \<subseteq> key_of be ` set elems"
      then have "card (set (set_keys be m)) \<le> card (key_of be ` set elems)" by (intro card_mono) auto
      with True k(1,3) card_keys [OF w] show False by (simp add: distinct_card)
    qed
    with True w1(1) rel show ?thesis by (simp add: js_set_isSubsetOf_def)
  next
    case False
    have "(if \<exists>k \<in> set (set_keys be m). (k \<in> key_of be ` set elems) = False then False else \<not> False) =
        (set (set_keys be m) \<subseteq> key_of be ` set elems)" by auto
    with False w1(1) has_loop_result [OF rel w1(2), of False] show ?thesis by (simp add: js_set_isSubsetOf_def)
  qed
qed

lemma isSupersetOf:
  assumes rel: "map_rel be ser (s, its) m" and w: "idle w"
  shows "\<exists>s' w'. js_set_isSupersetOf be sl (s, w) = Some (Some (key_of be ` set elems \<subseteq> set (set_keys be m)), s', w') \<and>
    map_rel be ser (s', its) m"
proof -
  obtain w1 where w1: "set_like_prepare sl (s, w) = (Some (int (length elems)), s, w1)" "idle w1" using prepare [OF w] by blast
  note k = set_keys_ok [OF rel]
  show ?thesis
  proof (cases "int (unat (record_count s)) < int (length elems)")
    case True
    have "\<not> key_of be ` set elems \<subseteq> set (set_keys be m)"
    proof
      assume "key_of be ` set elems \<subseteq> set (set_keys be m)"
      then have "card (key_of be ` set elems) \<le> card (set (set_keys be m))" by (intro card_mono) auto
      with True k(1,3) card_keys [OF w] show False by (simp add: distinct_card)
    qed
    with True w1(1) rel show ?thesis by (simp add: js_set_isSupersetOf_def)
  next
    case False
    have "(if \<exists>x \<in> set elems. (key_of be x \<in> set (set_keys be m)) = False then False else \<not> False) =
        (key_of be ` set elems \<subseteq> set (set_keys be m))" by auto
    with False w1(1) keys_loop_result [OF rel w1(2), of False] rel show ?thesis by (auto simp: js_set_isSupersetOf_def)
  qed
qed

end

subsection \<open>Building sets\<close>

definition mem_ok :: "bool \<Rightarrow> set_memory \<Rightarrow> bool" where
  "mem_ok be mm \<longleftrightarrow> slack_ok (fst mm) \<and> (\<forall>t. core_ok be t \<longrightarrow> (\<exists>p. snd mm t = Some p \<and> record_at t p = None))"

lemma set_add_ok:
  assumes rel: "map_rel be ser (t, []) m" and mm: "mem_ok be mm" and k: "value_ok k" "key_of be k \<notin> set (set_keys be m)"
    and sz: "length (set_keys be m) < 2 ^ 28"
  shows "\<exists>t' ser' m'. set_add be mm t (map_normalize_key k) = Some (True, t') \<and> map_rel be ser' (t', []) m' \<and>
    entry_keys m' = entry_keys m @ [map_normalize_key k] \<and> am_lent m' = am_lent m"
proof -
  note r = map_relD [OF rel]
  obtain p where p: "snd mm t = Some p" "record_at t p = None" using mm r(1) by (auto simp: mem_ok_def)
  have new: "key_of be (rec_key t q) \<noteq> key_of be k" if "live t q" for q
  proof
    assume "key_of be (rec_key t q) = key_of be k"
    moreover have "rec_key t q \<in> set (entry_keys m)" using that set_live_records [OF r(1)] by (simp add: entry_keys_live [OF r(5)])
    ultimately have "key_of be k \<in> set (set_keys be m)" unfolding set_keys_def by (metis image_eqI list.set_map)
    with k(2) show False ..
  qed
  have "length (live_records t) < 2 ^ 28" using sz by (simp add: set_keys_def entry_keys_live [OF r(5)])
  moreover have "slack_ok (fst mm)" using mm by (simp add: mem_ok_def)
  ultimately obtain s1 mr where s1: "map_add_record be (fst mm) (Some p) False t (map_normalize_key k) = Some (Some p, s1)" "record_at s1 p = Some mr"
    "map_rel be (ser(p := am_next m)) (set_record (dup_value s1 Val_undefined) p (mr\<lparr>mr_value := Val_undefined\<rparr>), [])
      (m\<lparr>am_entries := am_entries m @ [(am_next m, map_normalize_key k, Val_undefined)], am_next := Suc (am_next m)\<rparr>)"
    using add_rel [OF rel p(2) k(1) _ _ new, of "fst mm" False Val_undefined] by blast
  have "set_add be mm t (map_normalize_key k) = Some (True, set_record (dup_value s1 Val_undefined) p (mr\<lparr>mr_value := Val_undefined\<rparr>))"
    using s1(1,2) p(1) by (simp add: set_add_def)
  moreover let ?m = "m\<lparr>am_entries := am_entries m @ [(am_next m, map_normalize_key k, Val_undefined)], am_next := Suc (am_next m)\<rparr>"
  have "entry_keys ?m = entry_keys m @ [map_normalize_key k]" "am_lent ?m = am_lent m" by (simp_all add: entry_keys_def)
  ultimately show ?thesis using s1(3) by blast
qed

lemma set_delete_ok:
  assumes rel: "map_rel be ser (t, []) m" and k: "value_ok k"
  shows "\<exists>mr t' m'. map_find_record be t (map_normalize_key k) = Some mr \<and>
    (case mr of None \<Rightarrow> Some t | Some p \<Rightarrow> new_map_delete t p) = Some t' \<and> map_rel be ser (t', []) m' \<and>
    entry_keys m' = filter (\<lambda>x. key_of be x \<noteq> key_of be k) (entry_keys m) \<and> am_lent m' = am_lent m"
proof -
  note r = map_relD [OF rel]
  let ?m = "m\<lparr>am_entries := filter (\<lambda>(t, k', v). key_of be k' \<noteq> key_of be k) (am_entries m)\<rparr>"
  have keys: "entry_keys ?m = filter (\<lambda>x. key_of be x \<noteq> key_of be k) (entry_keys m)" "am_lent ?m = am_lent m"
    by (simp_all add: entry_keys_def filter_map o_def case_prod_unfold)
  show ?thesis
  proof (cases rule: find_cases [OF r(1) r(5) k])
    case (1 p mr)
    have "filter (\<lambda>(t, k', v). key_of be k' \<noteq> key_of be k) (am_entries m) = filter (\<lambda>(t, k, v). t \<noteq> ser p) (am_entries m)"
      using filter_entries [OF r(1) r(4) 1(4), of k] 1(2,5) by (simp add: r(5) rec_simps)
    with delete_record_rel [OF rel 1(2,3)] obtain t' where "new_map_delete t p = Some t'" "map_rel be ser (t', []) ?m"
      by auto
    with 1(1) keys show ?thesis by (intro exI [of _ "Some p"] exI [of _ t'] exI [of _ ?m]) simp
  next
    case 2
    have "filter (\<lambda>x. key_of be x \<noteq> key_of be k) (entry_keys m) = entry_keys m"
      using 2(3) set_live_records [OF r(1)] by (auto simp: entry_keys_live [OF r(5)] filter_id_conv)
    with 2(1) rel show ?thesis by auto
  qed
qed

lemma set_insert_ok:
  assumes rel: "map_rel be ser (t, []) m" and mm: "mem_ok be mm" and k: "value_ok k" and sz: "length (set_keys be m) < 2 ^ 28"
  shows "\<exists>t' ser' m'. new_map_set be (fst mm) (snd mm t) False True t k Val_undefined = Some (True, t') \<and> map_rel be ser' (t', []) m' \<and>
    entry_keys m' = (if key_of be k \<in> set (set_keys be m) then entry_keys m else entry_keys m @ [map_normalize_key k]) \<and> am_lent m' = am_lent m"
proof -
  note r = map_relD [OF rel]
  obtain p where p: "snd mm t = Some p" "record_at t p = None" using mm r(1) by (auto simp: mem_ok_def)
  have "map_op_ok (Op_set k Val_undefined (snd mm t) no_deaths) (t, [])"
    using k p sz by (simp add: set_keys_def entry_keys_live [OF r(5)])
  from set_refines [OF rel _ this, of "fst mm" True] mm obtain out st' m' ser' where
    x: "map_exec be (fst mm) True (Op_set k Val_undefined (snd mm t) no_deaths) (t, []) = Some (out, st')"
    "abs_set be True k Val_undefined (snd mm t) m = (out, m')" "map_rel be ser' st' m'"
    by (auto simp: mem_ok_def)
  have m': "out = Out_ok" "am_lent m' = am_lent m"
    "entry_keys m' = (if abs_lookup be k m \<noteq> None then entry_keys m else entry_keys m @ [map_normalize_key k])"
    using x(2) p(1) by (auto simp: abs_set_def entry_keys_def Let_def split: option.splits)
  have "am_iters m' = []" using x(2) r(6) p(1) by (auto simp: abs_set_def Let_def split: option.splits)
  then obtain t' where st': "st' = (t', [])" using x(3) by (cases st') (simp add: map_rel_def)
  obtain ok where t': "new_map_set be (fst mm) (snd mm t) False True t k Val_undefined = Some (ok, t')" "st' = (t', [])"
    "out = (if ok then Out_ok else Out_exception)"
    using x(1) st' by (auto simp: new_map_set_def bind_eq_Some_conv split: prod.splits)
  have "ok" using t'(3) m'(1) by (simp split: if_splits)
  with t'(1) have run: "new_map_set be (fst mm) (snd mm t) False True t k Val_undefined = Some (True, t')" by simp
  show ?thesis by (rule exI [of _ t'], rule exI [of _ ser'], rule exI [of _ m'])
    (use run m'(2,3) x(3) t'(2) in \<open>simp add: lookup_keys [symmetric]\<close>)
qed

subsection \<open>Loops over the items of the argument\<close>

definition insert_key :: "'k \<Rightarrow> 'k list \<Rightarrow> 'k list" where
  "insert_key k ks = (if k \<in> set ks then ks else ks @ [k])"

definition toggle_key :: "'k set \<Rightarrow> 'k \<Rightarrow> 'k list \<Rightarrow> 'k list" where
  "toggle_key A k ks = (if k \<in> A then filter (\<lambda>k'. k' \<noteq> k) ks else insert_key k ks)"

lemma fold_insert: "distinct es \<Longrightarrow> fold insert_key es ks = ks @ filter (\<lambda>k. k \<notin> set ks) es"
proof (induction es arbitrary: ks)
  case (Cons e es)
  then have "filter (\<lambda>k. k \<noteq> e \<and> k \<notin> set ks) es = filter (\<lambda>k. k \<notin> set ks) es" by (intro filter_cong) auto
  with Cons show ?case by (simp add: insert_key_def)
qed simp

lemma fold_remove: "fold (\<lambda>e. filter (\<lambda>k. k \<noteq> e)) es ks = filter (\<lambda>k. k \<notin> set es) ks"
  by (induction es arbitrary: ks) (auto intro: filter_cong)

lemma fold_meet: "distinct es \<Longrightarrow> fold (\<lambda>e ks. if e \<in> A then insert_key e ks else ks) es ks = ks @ filter (\<lambda>k. k \<in> A \<and> k \<notin> set ks) es"
proof (induction es arbitrary: ks)
  case (Cons e es)
  then have "filter (\<lambda>k. k \<in> A \<and> k \<noteq> e \<and> k \<notin> set ks) es = filter (\<lambda>k. k \<in> A \<and> k \<notin> set ks) es" by (intro filter_cong) auto
  with Cons show ?case by (auto simp: insert_key_def)
qed simp

lemma fold_toggle:
  "distinct es \<Longrightarrow> fold (toggle_key A) es ks =
    filter (\<lambda>k. k \<in> A \<longrightarrow> k \<notin> set es) ks @ filter (\<lambda>k. k \<notin> A \<and> k \<notin> set ks) es"
proof (induction es arbitrary: ks)
  case (Cons e es)
  then have es: "distinct es" "e \<notin> set es" by simp_all
  show ?case
  proof (cases "e \<in> A")
    case True
    have "filter (\<lambda>k. k \<notin> A \<and> k \<notin> set (filter (\<lambda>k'. k' \<noteq> e) ks)) es = filter (\<lambda>k. k \<notin> A \<and> k \<notin> set ks) es"
      using es(2) by (intro filter_cong) auto
    moreover have "filter (\<lambda>k. k \<in> A \<longrightarrow> k \<notin> set es) (filter (\<lambda>k'. k' \<noteq> e) ks) = filter (\<lambda>k. k \<in> A \<longrightarrow> k \<notin> set (e # es)) ks"
      using True by (auto intro: filter_cong)
    ultimately show ?thesis using Cons.IH [OF es(1)] True by (simp add: toggle_key_def)
  next
    case False
    have ks: "filter (\<lambda>k. k \<in> A \<longrightarrow> k \<notin> set es) ks = filter (\<lambda>k. k \<in> A \<longrightarrow> k \<notin> set (e # es)) ks"
      using False by (intro filter_cong) auto
    have "filter (\<lambda>k. k \<notin> A \<and> k \<notin> set (insert_key e ks)) es = filter (\<lambda>k. k \<notin> A \<and> k \<notin> set ks) es"
      using es(2) by (intro filter_cong) (auto simp: insert_key_def)
    with ks show ?thesis using Cons.IH [OF es(1)] False by (simp add: toggle_key_def insert_key_def)
  qed
qed simp

lemma insert_key_length: "length (insert_key k ks) \<le> Suc (length ks)" "length (toggle_key A k ks) \<le> Suc (length ks)"
  by (auto simp: insert_key_def toggle_key_def le_SucI)

context set_argument
begin

lemma loop_items:
  assumes next_step: "\<And>s w t x xs w1. Q (x # xs) s t \<Longrightarrow> sl_next sl (s, w) = (Some (Some x), s, w1) \<Longrightarrow>
      \<exists>s' t'. body ((s, w), t) = Some (Inl ((s', w1), t')) \<and> Q xs s' t'"
    and end_step: "\<And>s w t w1. sl_next sl (s, w) = (Some None, s, w1) \<Longrightarrow> body ((s, w), t) = Some (Inr (True, (s, w1), t))"
  shows "Q xs s t \<Longrightarrow> iterating w xs \<Longrightarrow>
    \<exists>s' w' t'. set_loop body ((s, w), t) = Some (True, (s', w'), t') \<and> Q [] s' t'"
proof (induction xs arbitrary: s w t)
  case Nil
  obtain w1 where "sl_next sl (s, w) = (Some None, s, w1)" using end_law [OF Nil.prems(2)] by blast
  from end_step [OF this] Nil.prems(1) show ?case by (subst set_loop.simps) auto
next
  case (Cons x xs)
  obtain w1 where w1: "sl_next sl (s, w) = (Some (Some x), s, w1)" "iterating w1 xs" using next_law [OF Cons.prems(2)] by blast
  obtain s1 t1 where "body ((s, w), t) = Some (Inl ((s1, w1), t1))" "Q xs s1 t1" using next_step [OF Cons.prems(1) w1(1)] by blast
  with Cons.IH [OF _ w1(2)] show ?case by (subst set_loop.simps) simp
qed

end

text \<open>What the loops keep: \<open>this\<close> has the entries of \<open>m\<close> and the references \<open>lent\<close>; the new set has references
  \<open>extra\<close> that nobody owns.\<close>

definition this_rel :: "bool \<Rightarrow> map_iterator list \<Rightarrow> abs_map \<Rightarrow> (js_any \<Rightarrow> int) \<Rightarrow> map_state \<Rightarrow> bool" where
  "this_rel be its m lent s \<longleftrightarrow> (\<exists>ser. map_rel be ser (s, its) (m\<lparr>am_lent := lent\<rparr>))"

definition new_rel :: "bool \<Rightarrow> js_any list \<Rightarrow> (js_any \<Rightarrow> int) \<Rightarrow> map_state \<Rightarrow> bool" where
  "new_rel be ks extra t \<longleftrightarrow> (\<exists>ser m. map_rel be ser (t, []) m \<and> entry_keys m = ks \<and> am_lent m = extra)"

lemma this_relI: "map_rel be ser (s, its) m \<Longrightarrow> this_rel be its m (am_lent m) s"
  by (auto simp: this_rel_def)

lemma this_counts:
  assumes "this_rel be its m lent s"
  shows "this_rel be its m (lent(v := lent v + 1)) (dup_value s v)" "this_rel be its m (lent(v := lent v - 1)) (release_value s v)"
  using assms map_rel_counts by (fastforce simp: this_rel_def)+

lemma new_relD: "new_rel be ks extra t \<Longrightarrow> distinct (map (key_of be) ks)"
  using set_keys_ok(1) by (fastforce simp: new_rel_def set_keys_def)

lemma this_find:
  assumes "this_rel be its m lent s" "value_ok k"
  shows "\<exists>r. map_find_record be s (map_normalize_key k) = Some r \<and> (r = None \<longleftrightarrow> key_of be k \<notin> set (set_keys be m))"
proof -
  obtain ser where "map_rel be ser (s, its) (m\<lparr>am_lent := lent\<rparr>)" using assms(1) by (auto simp: this_rel_def)
  from find_keys [OF this assms(2)] show ?thesis by (metis keys_update(5))
qed

lemma new_find:
  assumes "new_rel be ks extra t" "value_ok k"
  shows "\<exists>r. map_find_record be t (map_normalize_key k) = Some r \<and> (r = None \<longleftrightarrow> key_of be k \<notin> key_of be ` set ks)"
proof -
  obtain ser m where "map_rel be ser (t, []) m" "entry_keys m = ks" using assms(1) by (auto simp: new_rel_def)
  from find_keys [OF this(1) assms(2)] this(2) show ?thesis by (metis set_keys_def list.set_map)
qed

lemma new_add:
  assumes "new_rel be ks extra t" "mem_ok be mm" "value_ok k" "key_of be k \<notin> key_of be ` set ks" "length ks < 2 ^ 28"
  shows "\<exists>t'. set_add be mm t (map_normalize_key k) = Some (True, t') \<and> new_rel be (ks @ [map_normalize_key k]) extra t'"
proof -
  obtain ser m where m: "map_rel be ser (t, []) m" "entry_keys m = ks" "am_lent m = extra" using assms(1) by (auto simp: new_rel_def)
  with set_add_ok [OF m(1) assms(2,3)] assms(4,5) show ?thesis by (fastforce simp: new_rel_def set_keys_def)
qed

lemma new_delete:
  assumes "new_rel be ks extra t" "value_ok k"
  shows "\<exists>mr t'. map_find_record be t (map_normalize_key k) = Some mr \<and>
    (case mr of None \<Rightarrow> Some t | Some p \<Rightarrow> new_map_delete t p) = Some t' \<and>
    new_rel be (filter (\<lambda>x. key_of be x \<noteq> key_of be k) ks) extra t'"
proof -
  obtain ser m where m: "map_rel be ser (t, []) m" "entry_keys m = ks" "am_lent m = extra" using assms(1) by (auto simp: new_rel_def)
  with set_delete_ok [OF m(1) assms(2)] show ?thesis by (fastforce simp: new_rel_def)
qed

lemma new_insert:
  assumes "new_rel be ks extra t" "mem_ok be mm" "value_ok k" "length ks < 2 ^ 28"
  shows "\<exists>t'. new_map_set be (fst mm) (snd mm t) False True t k Val_undefined = Some (True, t') \<and>
    new_rel be (if key_of be k \<in> key_of be ` set ks then ks else ks @ [map_normalize_key k]) extra t'"
proof -
  obtain ser m where m: "map_rel be ser (t, []) m" "entry_keys m = ks" "am_lent m = extra" using assms(1) by (auto simp: new_rel_def)
  with set_insert_ok [OF m(1) assms(2,3)] assms(4) show ?thesis by (fastforce simp: new_rel_def set_keys_def)
qed

lemma new_dup: "new_rel be ks extra t \<Longrightarrow> new_rel be ks (extra(v := extra v + 1)) (dup_value t v)"
  using map_rel_counts(1) [of be _ t "[]" _ v] by (fastforce simp: new_rel_def)

lemma new_empty: "new_rel be [] (\<lambda>v. 0) (new_map_state False)"
  using new_map_rel [of be] by (force simp: new_rel_def entry_keys_def empty_abs_map_def)

subsection \<open>The operations\<close>

lemma copy_records_ok:
  assumes s: "core_ok be s" and mm: "mem_ok be mm"
  shows "new_rel be ks extra t \<Longrightarrow> distinct ps \<Longrightarrow> set ps \<subseteq> set (records s) \<Longrightarrow>
    (\<And>p. p \<in> set ps \<Longrightarrow> live s p \<Longrightarrow> key_of be (rec_key s p) \<notin> key_of be ` set ks) \<Longrightarrow>
    length ks + length (filter (live s) ps) \<le> 2 ^ 28 \<Longrightarrow>
    \<exists>t'. copy_records be mm s ps t = Some (True, t') \<and>
      new_rel be (ks @ map (rec_key s) (filter (live s) ps)) (\<lambda>v. extra v + int (count_list (map (rec_key s) (filter (live s) ps)) v)) t'"
proof (induction ps arbitrary: ks extra t)
  case Nil
  then show ?case by simp
next
  case (Cons p ps)
  obtain mr where mr: "record_at s p = Some mr" using core_okD(3) [OF s, of p] Cons.prems(3) by auto
  show ?case
  proof (cases "mr_empty mr")
    case True
    then have "\<not> live s p" using mr by (simp add: live_def)
    with Cons.IH [OF Cons.prems(1)] Cons.prems(2-5) mr True show ?thesis by simp
  next
    case False
    then have p: "live s p" "rec_key s p = mr_key mr" using mr by (simp_all add: live_def rec_simps)
    then have k: "value_ok (mr_key mr)" "map_normalize_key (mr_key mr) = mr_key mr" using core_okD(4) [OF s p(1)] by (simp_all add: key_ok_def)
    have new: "key_of be (mr_key mr) \<notin> key_of be ` set ks" using Cons.prems(4) [of p] p by simp
    have len: "length ks < 2 ^ 28" using Cons.prems(5) p(1) by simp
    obtain t1 where t1: "set_add be mm (dup_value t (mr_key mr)) (mr_key mr) = Some (True, t1)"
      "new_rel be (ks @ [mr_key mr]) (extra(mr_key mr := extra (mr_key mr) + 1)) t1"
      using new_add [OF new_dup [OF Cons.prems(1), of "mr_key mr"] mm k(1) new len] unfolding k(2) by blast
    have "key_of be (rec_key s q) \<notin> key_of be ` set (ks @ [mr_key mr])" if "q \<in> set ps" "live s q" for q
      using Cons.prems(2,4) that same_key [OF s that(2) p(1)] p(2) by auto
    from Cons.IH [OF t1(2) _ _ this] Cons.prems(2,3,5) p(1)
    obtain t2 where t2: "copy_records be mm s ps t1 = Some (True, t2)"
      "new_rel be ((ks @ [mr_key mr]) @ map (rec_key s) (filter (live s) ps))
        (\<lambda>v. (extra(mr_key mr := extra (mr_key mr) + 1)) v + int (count_list (map (rec_key s) (filter (live s) ps)) v)) t2"
      by auto
    have "(\<lambda>v. (extra(mr_key mr := extra (mr_key mr) + 1)) v + int (count_list (map (rec_key s) (filter (live s) ps)) v)) =
        (\<lambda>v. extra v + int (count_list (map (rec_key s) (filter (live s) (p # ps))) v))"
      using p by (auto simp: fun_eq_iff)
    with t1(1) t2 mr False p show ?thesis by simp
  qed
qed

lemma copy_this:
  assumes rel: "map_rel be ser (s, its) m" and mm: "mem_ok be mm" and sz: "length (entry_keys m) \<le> 2 ^ 28"
  shows "\<exists>t. copy_records be mm s (records s) (new_map_state False) = Some (True, t) \<and>
    new_rel be (entry_keys m) (\<lambda>v. int (count_list (entry_keys m) v)) t"
proof -
  note r = map_relD [OF rel]
  have "entry_keys m = map (rec_key s) (filter (live s) (records s))"
    using entry_keys_live [OF r(5)] by (simp add: live_records_def)
  with copy_records_ok [OF r(1) mm new_empty core_okD(2) [OF r(1)]] sz show ?thesis by auto
qed

context set_argument
begin

lemma union_result:
  assumes rel: "map_rel be ser (s, its) m" and w: "idle w" and mm: "mem_ok be mm" and sz: "length (set_keys be m) + length elems \<le> 2 ^ 28"
  shows "\<exists>t s' w' ks. js_set_union be mm sl (s, w) = Some (Some t, s', w') \<and>
    new_rel be ks (\<lambda>v. int (count_list (entry_keys m) v)) t \<and>
    map (key_of be) ks = set_keys be m @ filter (\<lambda>k. k \<notin> set (set_keys be m)) (map (key_of be) elems) \<and>
    this_rel be its m (am_lent m) s'"
proof -
  let ?extra = "\<lambda>v. int (count_list (entry_keys m) v)"
  obtain w1 where w1: "sl_size sl (s, w) = (Some (int (length elems)), s, w1)" "idle w1" using size_law [OF w] by blast
  obtain w2 where w2: "sl_has sl (s, w1) = (True, s, w2)" "idle w2" using has_law [OF w1(2)] by blast
  obtain w3 where w3: "sl_iterate sl (s, w2) = (True, s, w3)" "iterating w3 elems" using iterate_law [OF w2(2)] by blast
  obtain t where t: "copy_records be mm s (records s) (new_map_state False) = Some (True, t)" "new_rel be (entry_keys m) ?extra t"
    using copy_this [OF rel mm] sz by (auto simp: set_keys_def)
  define R where "R = fold insert_key (map (key_of be) elems) (set_keys be m)"
  define Q where "Q xs s t \<longleftrightarrow> this_rel be its m (am_lent m) s \<and> (\<forall>x \<in> set xs. value_ok x) \<and>
      (\<exists>ks. new_rel be ks ?extra t \<and> fold insert_key (map (key_of be) xs) (map (key_of be) ks) = R \<and> length ks + length xs \<le> 2 ^ 28)"
    for xs :: "js_any list" and s t
  have "\<exists>s' w' t'. set_loop (union_body be mm sl) ((s, w3), t) = Some (True, (s', w'), t') \<and> Q [] s' t'"
  proof (rule loop_items [where Q = Q])
    fix s w t x xs w1 assume Q: "Q (x # xs) s t" and nx: "sl_next sl (s, w) = (Some (Some x), s, w1)"
    then obtain ks where ks: "new_rel be ks ?extra t" "fold insert_key (map (key_of be) xs) (insert_key (key_of be x) (map (key_of be) ks)) = R"
      "length ks + Suc (length xs) \<le> 2 ^ 28" by (auto simp: Q_def)
    let ?ks = "if key_of be x \<in> key_of be ` set ks then ks else ks @ [map_normalize_key x]"
    obtain t' where t': "new_map_set be (fst mm) (snd mm t) False True t x Val_undefined = Some (True, t')" "new_rel be ?ks ?extra t'"
      using new_insert [OF ks(1) mm, of x] Q ks(3) by (auto simp: Q_def)
    have "map (key_of be) ?ks = insert_key (key_of be x) (map (key_of be) ks)" by (simp add: insert_key_def)
    moreover have "length ?ks \<le> Suc (length ks)" by simp
    ultimately have "Q xs s t'" using Q t'(2) ks(2,3) unfolding Q_def by fastforce
    then show "\<exists>s' t'. union_body be mm sl ((s, w), t) = Some (Inl ((s', w1), t')) \<and> Q xs s' t'"
      using nx t'(1) by (simp add: union_body_def Let_def)
  next
    show "Q elems s t" using this_relI [OF rel] t(2) sz elems_law [OF w] unfolding Q_def R_def set_keys_def by auto
  qed (use w3(2) in \<open>simp_all add: union_body_def\<close>)
  then obtain s' w' t' where r: "set_loop (union_body be mm sl) ((s, w3), t) = Some (True, (s', w'), t')" "Q [] s' t'" by blast
  then obtain ks where ks: "new_rel be ks ?extra t'" "map (key_of be) ks = R" "this_rel be its m (am_lent m) s'" by (auto simp: Q_def)
  have "js_set_union be mm sl (s, w) = Some (Some t', s', w')"
    using w1(1) w2(1) w3(1) t(1) r(1) by (simp add: js_set_union_def copy_and_loop_def set_result_def)
  moreover have "R = set_keys be m @ filter (\<lambda>k. k \<notin> set (set_keys be m)) (map (key_of be) elems)"
    unfolding R_def by (rule fold_insert [OF distinct_law [OF w]])
  ultimately show ?thesis using ks by blast
qed

end

text \<open>The elements of \<open>this\<close>, one by one.\<close>

primrec keys_of :: "(nat \<times> js_any \<times> js_any) list \<Rightarrow> js_any list" where
  "keys_of [] = []"
| "keys_of (e # es) = fst (snd e) # keys_of es"

lemma all_entries: "keys_of (am_entries m) = entry_keys m"
proof -
  have "keys_of es = map (\<lambda>(t, k, v). k) es" for es by (induction es) auto
  then show ?thesis by (simp add: entry_keys_def)
qed

lemma next_element:
  assumes rel: "map_rel be ser (s, its) m" and i: "i < length its" "am_iters m ! i = (JS_ITERATOR_KIND_KEY, At t)"
    and es: "entries_from t m = (t', k, v) # es"
  obtains s' it' where "iterator_next_values True s (its ! i) = Some (Some [k], s', it')"
    "map_rel be ser (s', its[i := it']) (abs_lend [k] (m\<lparr>am_iters := (am_iters m)[i := (JS_ITERATOR_KIND_KEY, At (Suc t'))]\<rparr>))"
    "map_rel be ser (release_value s' k, its[i := it']) (m\<lparr>am_iters := (am_iters m)[i := (JS_ITERATOR_KIND_KEY, At (Suc t'))]\<rparr>)"
    "value_ok k" "map_normalize_key k = k"
    "entries_from (Suc t') (m\<lparr>am_iters := (am_iters m)[i := (JS_ITERATOR_KIND_KEY, At (Suc t'))]\<rparr>) = es"
proof -
  let ?m = "m\<lparr>am_iters := (am_iters m)[i := (JS_ITERATOR_KIND_KEY, At (Suc t'))]\<rparr>"
  obtain s1 it1 where s1: "iterator_next_values True s (its ! i) = Some (Some [k], s1, it1)"
    "map_rel be ser (s1, its[i := it1]) (abs_lend [k] ?m)"
    using next_key [OF assms] by blast
  have "(t', k, v) \<in> set (entries_from t m)" using es by simp
  then have "(t', k, v) \<in> set (am_entries m)" by (simp add: entries_from_def)
  then have "key_ok be k" using set_keys_ok(2) [OF rel, of k] by (force simp: entry_keys_def)
  moreover have "map_rel be ser (release_value s1 k, its[i := it1]) ?m"
    using map_rel_counts(2) [OF s1(2), of k] unfolding unlend_one .
  moreover have "entries_from (Suc t') ?m = es"
    using entries_from_step(2) [OF entries_sorted [OF rel] es] by (simp add: entries_from_def)
  ultimately show thesis using that [OF s1] by (simp add: key_ok_def)
qed

abbreviation clone_body :: "bool \<Rightarrow> set_memory \<Rightarrow> map_state \<times> map_state \<times> map_iterator \<Rightarrow>
    (map_state \<times> map_state \<times> map_iterator + bool \<times> map_state \<times> map_state \<times> map_iterator) option" where
  "clone_body be mm \<equiv> constructor_body clone_next (\<lambda>vs t. new_map_set be (fst mm) (snd mm t) False True t (hd vs) Val_undefined) clone_release"

lemma clone_loop:
  assumes mm: "mem_ok be mm"
  shows "map_rel be ser (s, its) m \<Longrightarrow> i < length its \<Longrightarrow> am_iters m ! i = (JS_ITERATOR_KIND_KEY, At t0) \<Longrightarrow> entries_from t0 m = es \<Longrightarrow>
    new_rel be ks extra t \<Longrightarrow> distinct (map (key_of be) (ks @ keys_of es)) \<Longrightarrow> length ks + length es \<le> 2 ^ 28 \<Longrightarrow>
    \<exists>t' s' it' pos. set_loop (clone_body be mm) (t, s, its ! i) = Some (True, t', s', it') \<and>
      map_rel be ser (s', its[i := it']) (m\<lparr>am_iters := (am_iters m)[i := (JS_ITERATOR_KIND_KEY, pos)]\<rparr>) \<and>
      new_rel be (ks @ keys_of es) extra t'"
proof (induction es arbitrary: s its m t0 ks t)
  case Nil
  then show ?case using next_end [OF Nil.prems(1-4)]
    by (subst set_loop.simps) (auto simp: constructor_body_def clone_next_def)
next
  case (Cons e es)
  obtain t' k v where e: "e = (t', k, v)" by (cases e)
  have len: "length (am_iters m) = length its" using map_relD(6) [OF Cons.prems(1)] by simp
  let ?m = "m\<lparr>am_iters := (am_iters m)[i := (JS_ITERATOR_KIND_KEY, At (Suc t'))]\<rparr>"
  obtain s1 it1 where s1: "iterator_next_values True s (its ! i) = Some (Some [k], s1, it1)"
    "map_rel be ser (release_value s1 k, its[i := it1]) ?m" "value_ok k" "map_normalize_key k = k" "entries_from (Suc t') ?m = es"
    using next_element [OF Cons.prems(1-3) Cons.prems(4) [unfolded e]] by metis
  have new: "key_of be k \<notin> key_of be ` set ks" using Cons.prems(6) e by auto
  obtain t1 where t1: "new_map_set be (fst mm) (snd mm t) False True t k Val_undefined = Some (True, t1)" "new_rel be (ks @ [k]) extra t1"
    using new_insert [OF Cons.prems(5) mm s1(3)] Cons.prems(7) new s1(4) by auto
  have body: "clone_body be mm (t, s, its ! i) = Some (Inl (t1, release_value s1 k, it1))"
    using s1(1) t1(1) by (simp add: constructor_body_def clone_next_def clone_release_def Let_def)
  have "distinct (map (key_of be) ((ks @ [k]) @ keys_of es))" using Cons.prems(6) e by auto
  from Cons.IH [OF s1(2) _ _ s1(5) t1(2) this] Cons.prems(2,7) len body e show ?case
    by (subst set_loop.simps) simp
qed

text \<open>An iterator that is made, used and released.\<close>

lemma iterator_done:
  assumes rel: "map_rel be ser (s, its @ [it]) m" and "am_iters m = is @ [x]"
  shows "\<exists>s'. js_map_iterator_finalizer s it = Some s' \<and> map_rel be ser (s', its) (m\<lparr>am_iters := is\<rparr>)"
proof -
  have len: "length is = length its" using map_relD(6) [OF rel] assms(2) by (metis length_append_singleton length_map nat.inject)
  have upd: "(is @ [x])[length its := b] = is @ [b]" for b by (simp add: list_update_append len)
  obtain s2 where s2: "js_map_iterator_finalizer s it = Some s2"
    "map_rel be ser (s2, its @ [it\<lparr>it_done := True, it_cur := None\<rparr>]) (m\<lparr>am_iters := is @ [(it_kind it, Finished)]\<rparr>)"
    using release_rel [OF rel, of "length its" it] by (auto simp: upd assms(2))
  with drop_iterator [OF s2(2)] show ?thesis by simp
qed

lemma clone_set_ok:
  assumes rel: "map_rel be ser (s, its) m" and mm: "mem_ok be mm" and sz: "length (set_keys be m) \<le> 2 ^ 28"
  shows "\<exists>t s'. clone_set be mm s = Some (Some t, s') \<and> new_rel be (entry_keys m) (\<lambda>v. 0) t \<and> map_rel be ser (s', its) m"
proof -
  let ?it = "new_map_iterator JS_ITERATOR_KIND_KEY"
  let ?m = "m\<lparr>am_iters := am_iters m @ [(JS_ITERATOR_KIND_KEY, At 0)]\<rparr>"
  have len: "length (am_iters m) = length its" using map_relD(6) [OF rel] by simp
  have upd: "(am_iters m @ [a])[length its := b] = am_iters m @ [b]" for a b by (simp add: list_update_append len)
  have d: "distinct (map (key_of be) ([] @ keys_of (am_entries m)))"
    using set_keys_ok(1) [OF rel] unfolding all_entries by (simp add: set_keys_def)
  obtain t1 s1 it1 pos where s1: "set_loop (clone_body be mm) (new_map_state False, s, ?it) = Some (True, t1, s1, it1)"
    "map_rel be ser (s1, its @ [it1]) (?m\<lparr>am_iters := am_iters m @ [(JS_ITERATOR_KIND_KEY, pos)]\<rparr>)" "new_rel be (entry_keys m) (\<lambda>v. 0) t1"
    using clone_loop [OF mm iterate_refines [OF rel, of JS_ITERATOR_KIND_KEY], of "length its" 0 "am_entries m" "[]" "\<lambda>v. 0" "new_map_state False"]
      d new_empty sz len
    by (auto simp: nth_append entries_from_def upd all_entries set_keys_def entry_keys_def)
  obtain s2 where "js_map_iterator_finalizer s1 it1 = Some s2" "map_rel be ser (s2, its) m"
    using iterator_done [OF s1(2), of "am_iters m"] by auto
  with s1(1,3) show ?thesis by (simp add: clone_set_def js_map_constructor_def)
qed

context set_argument
begin

lemma difference_loop:
  assumes s: "this_rel be its m lent s" and t: "new_rel be ks extra t" and w: "iterating w elems" and ok: "\<forall>x \<in> set elems. value_ok x"
  shows "\<exists>s' w' t' ks'. set_loop (difference_keys_body be sl) ((s, w), t) = Some (True, (s', w'), t') \<and> this_rel be its m lent s' \<and>
    new_rel be ks' extra t' \<and> map (key_of be) ks' = filter (\<lambda>k. k \<notin> key_of be ` set elems) (map (key_of be) ks)"
proof -
  define R where "R = fold (\<lambda>e. filter (\<lambda>k. k \<noteq> e)) (map (key_of be) elems) (map (key_of be) ks)"
  define Q where "Q xs s t \<longleftrightarrow> this_rel be its m lent s \<and> (\<forall>x \<in> set xs. value_ok x) \<and>
      (\<exists>ks. new_rel be ks extra t \<and> fold (\<lambda>e. filter (\<lambda>k. k \<noteq> e)) (map (key_of be) xs) (map (key_of be) ks) = R)"
    for xs :: "js_any list" and s t
  have "\<exists>s' w' t'. set_loop (difference_keys_body be sl) ((s, w), t) = Some (True, (s', w'), t') \<and> Q [] s' t'"
  proof (rule loop_items [where Q = Q])
    fix s w t x xs w1 assume Q: "Q (x # xs) s t" and nx: "sl_next sl (s, w) = (Some (Some x), s, w1)"
    then obtain ks where ks: "new_rel be ks extra t"
      "fold (\<lambda>e. filter (\<lambda>k. k \<noteq> e)) (map (key_of be) xs) (filter (\<lambda>k. k \<noteq> key_of be x) (map (key_of be) ks)) = R" by (auto simp: Q_def)
    have x: "value_ok x" using Q by (simp add: Q_def)
    obtain mr t' where t': "map_find_record be t (map_normalize_key x) = Some mr"
      "(case mr of None \<Rightarrow> Some t | Some p \<Rightarrow> new_map_delete t p) = Some t'"
      "new_rel be (filter (\<lambda>y. key_of be y \<noteq> key_of be x) ks) extra t'" using new_delete [OF ks(1) x] by blast
    have "map (key_of be) (filter (\<lambda>y. key_of be y \<noteq> key_of be x) ks) = filter (\<lambda>k. k \<noteq> key_of be x) (map (key_of be) ks)"
      by (simp add: filter_map o_def)
    then have "Q xs s t'" using Q t'(3) ks(2) by (auto simp: Q_def)
    then show "\<exists>s' t'. difference_keys_body be sl ((s, w), t) = Some (Inl ((s', w1), t')) \<and> Q xs s' t'"
      using nx t'(1,2) by (simp add: difference_keys_body_def Let_def)
  next
    show "Q elems s t" using s t ok unfolding Q_def R_def by auto
  qed (use w in \<open>simp_all add: difference_keys_body_def\<close>)
  then obtain s' w' t' where r: "set_loop (difference_keys_body be sl) ((s, w), t) = Some (True, (s', w'), t')" "Q [] s' t'" by blast
  have "R = filter (\<lambda>k. k \<notin> key_of be ` set elems) (map (key_of be) ks)" by (simp add: R_def fold_remove)
  with r show ?thesis by (auto simp: Q_def)
qed

lemma toggle_loop:
  assumes s: "this_rel be its m lent s" and t: "new_rel be (entry_keys m) extra t" and w: "iterating w elems"
    and ok: "\<forall>x \<in> set elems. value_ok x" "distinct (map (key_of be) elems)" and mm: "mem_ok be mm"
    and sz: "length (set_keys be m) + length elems \<le> 2 ^ 28"
  shows "\<exists>s' w' t' ks'. set_loop (symmetricDifference_body be mm sl) ((s, w), t) = Some (True, (s', w'), t') \<and>
    this_rel be its m (\<lambda>v. lent v + int (count_list (filter (\<lambda>x. key_of be x \<notin> set (set_keys be m)) ks') v)) s' \<and>
    new_rel be ks' extra t' \<and> map (key_of be) ks' = filter (\<lambda>k. k \<notin> key_of be ` set elems) (set_keys be m) @
      filter (\<lambda>k. k \<notin> set (set_keys be m)) (map (key_of be) elems)"
proof -
  let ?A = "set (set_keys be m)"
  let ?lent = "\<lambda>ks v. lent v + int (count_list (filter (\<lambda>x. key_of be x \<notin> ?A) ks) v)"
  define R where "R = fold (toggle_key ?A) (map (key_of be) elems) (set_keys be m)"
  define Q where "Q xs s t \<longleftrightarrow> (\<forall>x \<in> set xs. value_ok x) \<and>
      (\<exists>ks. this_rel be its m (?lent ks) s \<and> new_rel be ks extra t \<and> length ks + length xs \<le> 2 ^ 28 \<and>
        fold (toggle_key ?A) (map (key_of be) xs) (map (key_of be) ks) = R)"
    for xs :: "js_any list" and s t
  have "\<exists>s' w' t'. set_loop (symmetricDifference_body be mm sl) ((s, w), t) = Some (True, (s', w'), t') \<and> Q [] s' t'"
  proof (rule loop_items [where Q = Q])
    fix s w t x xs w1 assume Q: "Q (x # xs) s t" and nx: "sl_next sl (s, w) = (Some (Some x), s, w1)"
    then obtain ks where ks: "this_rel be its m (?lent ks) s" "new_rel be ks extra t" "length ks + Suc (length xs) \<le> 2 ^ 28"
      "fold (toggle_key ?A) (map (key_of be) xs) (toggle_key ?A (key_of be x) (map (key_of be) ks)) = R" by (auto simp: Q_def)
    have x: "value_ok x" and xs: "\<forall>x \<in> set xs. value_ok x" using Q by (simp_all add: Q_def)
    let ?x = "map_normalize_key x"
    let ?d = "filter (\<lambda>y. key_of be y \<noteq> key_of be x) ks"
    obtain r where r: "map_find_record be (dup_value s ?x) ?x = Some r" "r = None \<longleftrightarrow> key_of be x \<notin> ?A"
      using this_find [OF this_counts(1) [OF ks(1)] x] by blast
    obtain mr t1 where t1: "map_find_record be t ?x = Some mr" "(case mr of None \<Rightarrow> Some t | Some p \<Rightarrow> new_map_delete t p) = Some t1"
      "new_rel be ?d extra t1" using new_delete [OF ks(2) x] by blast
    have mr: "mr = None \<longleftrightarrow> key_of be x \<notin> key_of be ` set ks" using new_find [OF ks(2) x] t1(1) by auto
    show "\<exists>s' t'. symmetricDifference_body be mm sl ((s, w), t) = Some (Inl ((s', w1), t')) \<and> Q xs s' t'"
    proof (cases "key_of be x \<in> ?A")
      case True
      then have "filter (\<lambda>y. key_of be y \<notin> ?A) ?d = filter (\<lambda>y. key_of be y \<notin> ?A) ks"
        by (auto intro: filter_cong)
      moreover have "map (key_of be) ?d = toggle_key ?A (key_of be x) (map (key_of be) ks)"
        using True by (simp add: toggle_key_def filter_map o_def)
      moreover have "length ?d + length xs \<le> 2 ^ 28"
        using ks(3) length_filter_le [of "\<lambda>y. key_of be y \<noteq> key_of be x" ks] by linarith
      ultimately have "Q xs s t1" unfolding Q_def using ks(1,3,4) t1(3) xs by (intro conjI exI [of _ ?d]) auto
      then show ?thesis using nx r t1(1,2) True by (simp add: symmetricDifference_body_def Let_def)
    next
      case False
      note A = this
      show ?thesis
      proof (cases "mr = None")
        case True
        with mr have new: "key_of be x \<notin> key_of be ` set ks" by simp
        obtain t2 where t2: "set_add be mm t ?x = Some (True, t2)" "new_rel be (ks @ [?x]) extra t2"
          using new_add [OF ks(2) mm x new] ks(3) by auto
        have "(?lent ks)(?x := ?lent ks ?x + 1) = ?lent (ks @ [?x])" using A by (auto simp: fun_eq_iff)
        then have "this_rel be its m (?lent (ks @ [?x])) (dup_value s ?x)" using this_counts(1) [OF ks(1), of ?x] by (simp only:)
        moreover have "map (key_of be) (ks @ [?x]) = toggle_key ?A (key_of be x) (map (key_of be) ks)"
          using A new by (simp add: toggle_key_def insert_key_def)
        ultimately have "Q xs (dup_value s ?x) t2" unfolding Q_def using ks(3,4) t2(2) xs
          by (intro conjI exI [of _ "ks @ [?x]"]) auto
        then show ?thesis using nx r t1(1) t2(1) A True by (simp add: symmetricDifference_body_def Let_def)
      next
        case False
        with mr have "toggle_key ?A (key_of be x) (map (key_of be) ks) = map (key_of be) ks"
          using A by (simp add: toggle_key_def insert_key_def)
        then have "Q xs s t" unfolding Q_def using ks xs by (intro conjI exI [of _ ks]) auto
        then show ?thesis using nx r t1(1) A False by (auto simp: symmetricDifference_body_def Let_def)
      qed
    qed
  next
    have "filter (\<lambda>x. key_of be x \<notin> ?A) (entry_keys m) = []" by (auto simp: filter_empty_conv set_keys_def)
    then have "this_rel be its m (?lent (entry_keys m)) s" using s by simp
    moreover have "map (key_of be) (entry_keys m) = set_keys be m" by (simp add: set_keys_def)
    moreover have "length (entry_keys m) + length elems \<le> 2 ^ 28" using sz by (simp add: set_keys_def)
    ultimately show "Q elems s t" using t ok(1) unfolding Q_def R_def by auto
  qed (use w in \<open>simp_all add: symmetricDifference_body_def\<close>)
  then obtain s' w' t' where r: "set_loop (symmetricDifference_body be mm sl) ((s, w), t) = Some (True, (s', w'), t')" "Q [] s' t'" by blast
  have "R = filter (\<lambda>k. k \<notin> key_of be ` set elems) (set_keys be m) @ filter (\<lambda>k. k \<notin> ?A) (map (key_of be) elems)"
    unfolding R_def fold_toggle [OF ok(2)] by (auto intro!: filter_cong)
  with r show ?thesis by (auto simp: Q_def)
qed

end

context set_argument
begin

lemma meet_loop:
  assumes s: "this_rel be its m lent s" and w: "iterating w elems" and ok: "\<forall>x \<in> set elems. value_ok x" "distinct (map (key_of be) elems)"
    and mm: "mem_ok be mm" and sz: "length elems \<le> 2 ^ 28"
  shows "\<exists>s' w' t' ks'. set_loop (intersection_keys_body be mm sl) ((s, w), new_map_state False) = Some (True, (s', w'), t') \<and>
    this_rel be its m (\<lambda>v. lent v + int (count_list ks' v)) s' \<and>
    new_rel be ks' (\<lambda>v. 0) t' \<and> map (key_of be) ks' = filter (\<lambda>k. k \<in> set (set_keys be m)) (map (key_of be) elems)"
proof -
  let ?A = "set (set_keys be m)"
  let ?lent = "\<lambda>ks v. lent v + int (count_list ks v)"
  let ?f = "\<lambda>e ks. if e \<in> ?A then insert_key e ks else ks"
  define R where "R = fold ?f (map (key_of be) elems) []"
  define Q where "Q xs s t \<longleftrightarrow> (\<forall>x \<in> set xs. value_ok x) \<and>
      (\<exists>ks. this_rel be its m (?lent ks) s \<and> new_rel be ks (\<lambda>v. 0) t \<and> length ks + length xs \<le> 2 ^ 28 \<and>
        fold ?f (map (key_of be) xs) (map (key_of be) ks) = R)"
    for xs :: "js_any list" and s t
  have "\<exists>s' w' t'. set_loop (intersection_keys_body be mm sl) ((s, w), new_map_state False) = Some (True, (s', w'), t') \<and> Q [] s' t'"
  proof (rule loop_items [where Q = Q])
    fix s w t x xs w1 assume Q: "Q (x # xs) s t" and nx: "sl_next sl (s, w) = (Some (Some x), s, w1)"
    then obtain ks where ks: "this_rel be its m (?lent ks) s" "new_rel be ks (\<lambda>v. 0) t" "length ks + Suc (length xs) \<le> 2 ^ 28"
      "fold ?f (map (key_of be) xs) (?f (key_of be x) (map (key_of be) ks)) = R" by (auto simp: Q_def)
    have x: "value_ok x" and xs: "\<forall>x \<in> set xs. value_ok x" using Q by (simp_all add: Q_def)
    let ?x = "map_normalize_key x"
    obtain r where r: "map_find_record be (dup_value s ?x) ?x = Some r" "r = None \<longleftrightarrow> key_of be x \<notin> ?A"
      using this_find [OF this_counts(1) [OF ks(1)] x] by blast
    obtain mr where mr: "map_find_record be t ?x = Some mr" "mr = None \<longleftrightarrow> key_of be x \<notin> key_of be ` set ks"
      using new_find [OF ks(2) x] by blast
    show "\<exists>s' t'. intersection_keys_body be mm sl ((s, w), t) = Some (Inl ((s', w1), t')) \<and> Q xs s' t'"
    proof (cases "key_of be x \<in> ?A \<and> key_of be x \<notin> key_of be ` set ks")
      case True
      then obtain t2 where t2: "set_add be mm t ?x = Some (True, t2)" "new_rel be (ks @ [?x]) (\<lambda>v. 0) t2"
        using new_add [OF ks(2) mm x] ks(3) by auto
      have "(?lent ks)(?x := ?lent ks ?x + 1) = ?lent (ks @ [?x])" by (auto simp: fun_eq_iff)
      then have "this_rel be its m (?lent (ks @ [?x])) (dup_value s ?x)" using this_counts(1) [OF ks(1), of ?x] by (simp only:)
      moreover have "map (key_of be) (ks @ [?x]) = ?f (key_of be x) (map (key_of be) ks)" using True by (simp add: insert_key_def)
      ultimately have "Q xs (dup_value s ?x) t2" unfolding Q_def using ks(3,4) t2(2) xs
        by (intro conjI exI [of _ "ks @ [?x]"]) auto
      then show ?thesis using nx r mr t2(1) True by (auto simp: intersection_keys_body_def Let_def)
    next
      case False
      then have "?f (key_of be x) (map (key_of be) ks) = map (key_of be) ks" by (auto simp: insert_key_def)
      then have "Q xs s t" unfolding Q_def using ks xs by (intro conjI exI [of _ ks]) auto
      then show ?thesis using nx r mr False by (auto simp: intersection_keys_body_def Let_def)
    qed
  next
    show "Q elems s (new_map_state False)" using s new_empty sz ok(1) unfolding Q_def R_def by (intro conjI exI [of _ "[]"]) auto
  qed (use w in \<open>simp_all add: intersection_keys_body_def\<close>)
  then obtain s' w' t' where r: "set_loop (intersection_keys_body be mm sl) ((s, w), new_map_state False) = Some (True, (s', w'), t')" "Q [] s' t'" by blast
  have "R = filter (\<lambda>k. k \<in> ?A) (map (key_of be) elems)" using fold_meet [OF ok(2), of ?A "[]"] by (simp add: R_def)
  with r show ?thesis by (auto simp: Q_def)
qed

lemma filter_loop:
  assumes mm: "mem_ok be mm"
  shows "map_rel be ser (s, its) m \<Longrightarrow> i < length its \<Longrightarrow> am_iters m ! i = (JS_ITERATOR_KIND_KEY, At t0) \<Longrightarrow> entries_from t0 m = es \<Longrightarrow> idle w \<Longrightarrow>
    new_rel be ks (\<lambda>v. 0) t \<Longrightarrow> distinct (map (key_of be) (ks @ keys_of es)) \<Longrightarrow> length ks + length es \<le> 2 ^ 28 \<Longrightarrow>
    \<exists>t' s' w' it' pos. set_loop (filter_has_body be mm sl keep) ((s, w), its ! i, t) = Some (True, (s', w'), it', t') \<and>
      map_rel be ser (s', its[i := it']) (m\<lparr>am_iters := (am_iters m)[i := (JS_ITERATOR_KIND_KEY, pos)],
        am_lent := \<lambda>v. am_lent m v +
          int (count_list (filter (\<lambda>k. (key_of be k \<in> key_of be ` set elems) = keep) (keys_of es)) v)\<rparr>) \<and>
      new_rel be (ks @ filter (\<lambda>k. (key_of be k \<in> key_of be ` set elems) = keep) (keys_of es)) (\<lambda>v. 0) t' \<and> idle w'"
proof (induction es arbitrary: s its m t0 ks t w)
  case Nil
  obtain s1 it1 where "iterator_next_values True s (its ! i) = Some (None, s1, it1)"
    "map_rel be ser (s1, its[i := it1]) (m\<lparr>am_iters := (am_iters m)[i := (JS_ITERATOR_KIND_KEY, Finished)]\<rparr>)"
    using next_end [OF Nil.prems(1-4)] by blast
  moreover have "m\<lparr>am_iters := a, am_lent := \<lambda>v. am_lent m v\<rparr> = m\<lparr>am_iters := a\<rparr>" for a by simp
  ultimately show ?case using Nil.prems(5,6) by (subst set_loop.simps) (auto simp: filter_has_body_def)
next
  case (Cons e es)
  obtain t' k v where e: "e = (t', k, v)" by (cases e)
  have len: "length (am_iters m) = length its" using map_relD(6) [OF Cons.prems(1)] by simp
  let ?m = "m\<lparr>am_iters := (am_iters m)[i := (JS_ITERATOR_KIND_KEY, At (Suc t'))]\<rparr>"
  obtain s1 it1 where s1: "iterator_next_values True s (its ! i) = Some (Some [k], s1, it1)" "map_rel be ser (s1, its[i := it1]) (abs_lend [k] ?m)"
    "map_rel be ser (release_value s1 k, its[i := it1]) ?m" "value_ok k" "map_normalize_key k = k" "entries_from (Suc t') ?m = es"
    using next_element [OF Cons.prems(1-3) Cons.prems(4) [unfolded e]] by metis
  have new: "key_of be k \<notin> key_of be ` set ks" using Cons.prems(7) e by auto
  obtain w1 where w1: "sl_call_has sl k (s1, w) = (Some (key_of be k \<in> key_of be ` set elems), s1, w1)" "idle w1"
    using call_has_law [OF Cons.prems(5) s1(4)] by blast
  obtain mr where mr: "map_find_record be t k = Some mr" "mr = None" using new_find [OF Cons.prems(6) s1(4)] new s1(5) by auto
  show ?case
  proof (cases "(key_of be k \<in> key_of be ` set elems) = keep")
    case True
    obtain t1 where t1: "set_add be mm t k = Some (True, t1)" "new_rel be (ks @ [k]) (\<lambda>v. 0) t1"
      using new_add [OF Cons.prems(6) mm s1(4) new] Cons.prems(8) s1(5) by auto
    have body: "filter_has_body be mm sl keep ((s, w), its ! i, t) = Some (Inl ((s1, w1), it1, t1))"
      using s1(1,5) w1(1) mr t1(1) True by (simp add: filter_has_body_def Let_def)
    have d: "distinct (map (key_of be) ((ks @ [k]) @ keys_of es))" using Cons.prems(7) e by auto
    let ?m1 = "abs_lend [k] ?m"
    have m1: "am_iters ?m1 ! i = (JS_ITERATOR_KIND_KEY, At (Suc t'))" "entries_from (Suc t') ?m1 = es"
      using Cons.prems(2) len s1(6) by (simp_all add: abs_lend_def entries_from_def)
    obtain t2 s2 w2 it2 pos where r: "set_loop (filter_has_body be mm sl keep) ((s1, w1), it1, t1) = Some (True, (s2, w2), it2, t2)"
      "map_rel be ser (s2, its[i := it2]) (?m1\<lparr>am_iters := (am_iters ?m1)[i := (JS_ITERATOR_KIND_KEY, pos)],
        am_lent := \<lambda>v. am_lent ?m1 v + int (count_list (filter (\<lambda>k. (key_of be k \<in> key_of be ` set elems) = keep) (keys_of es)) v)\<rparr>)"
      "new_rel be (ks @ k # filter (\<lambda>k. (key_of be k \<in> key_of be ` set elems) = keep) (keys_of es)) (\<lambda>v. 0) t2" "idle w2"
      using Cons.IH [OF s1(2) _ m1 w1(2) t1(2) d] Cons.prems(2,8) by auto
    have "?m1\<lparr>am_iters := (am_iters ?m1)[i := (JS_ITERATOR_KIND_KEY, pos)],
        am_lent := \<lambda>v. am_lent ?m1 v + int (count_list (filter (\<lambda>k. (key_of be k \<in> key_of be ` set elems) = keep) (keys_of es)) v)\<rparr> =
      m\<lparr>am_iters := (am_iters m)[i := (JS_ITERATOR_KIND_KEY, pos)],
        am_lent := \<lambda>v. am_lent m v + int (count_list (filter (\<lambda>k. (key_of be k \<in> key_of be ` set elems) = keep) (keys_of (e # es))) v)\<rparr>"
      using True e by (auto simp: abs_lend_def fun_eq_iff)
    with r body e True show ?thesis by (subst set_loop.simps) auto
  next
    case False
    have body: "filter_has_body be mm sl keep ((s, w), its ! i, t) = Some (Inl ((release_value s1 k, w1), it1, t))"
      using s1(1) w1(1) False by (simp add: filter_has_body_def Let_def)
    have d: "distinct (map (key_of be) (ks @ keys_of es))" using Cons.prems(7) by simp
    from Cons.IH [OF s1(3) _ _ s1(6) w1(2) Cons.prems(6) d] Cons.prems(2,8) len body e False show ?thesis
      by (subst set_loop.simps) simp
  qed
qed

end

context set_argument
begin

lemma elems_ok: "idle w \<Longrightarrow> \<forall>x \<in> set elems. value_ok x"
  using elems_law by blast

lemma filter_has_result:
  assumes rel: "map_rel be ser (s, its) m" and w: "idle w" and mm: "mem_ok be mm" and sz: "length (set_keys be m) \<le> 2 ^ 28"
  shows "\<exists>t s' w'. filter_has_loop be mm sl keep (s, w) = Some (Some t, s', w') \<and>
    new_rel be (filter (\<lambda>k. (key_of be k \<in> key_of be ` set elems) = keep) (entry_keys m)) (\<lambda>v. 0) t \<and>
    this_rel be its m (\<lambda>v. am_lent m v +
      int (count_list (filter (\<lambda>k. (key_of be k \<in> key_of be ` set elems) = keep) (entry_keys m)) v)) s'"
proof -
  let ?it = "new_map_iterator JS_ITERATOR_KIND_KEY"
  let ?m = "m\<lparr>am_iters := am_iters m @ [(JS_ITERATOR_KIND_KEY, At 0)]\<rparr>"
  let ?ks = "filter (\<lambda>k. (key_of be k \<in> key_of be ` set elems) = keep) (entry_keys m)"
  let ?lent = "\<lambda>v. am_lent m v + int (count_list ?ks v)"
  have len: "length (am_iters m) = length its" using map_relD(6) [OF rel] by simp
  have upd: "(am_iters m @ [a])[length its := b] = am_iters m @ [b]" for a b by (simp add: list_update_append len)
  have es: "entries_from 0 ?m = am_entries m" by (simp add: entries_from_def)
  have d: "distinct (map (key_of be) ([] @ keys_of (am_entries m)))"
    using set_keys_ok(1) [OF rel] unfolding all_entries by (simp add: set_keys_def)
  obtain t1 s1 w1 it1 pos where s1: "set_loop (filter_has_body be mm sl keep) ((s, w), ?it, new_map_state False) = Some (True, (s1, w1), it1, t1)"
    "map_rel be ser (s1, its @ [it1]) (?m\<lparr>am_iters := am_iters m @ [(JS_ITERATOR_KIND_KEY, pos)], am_lent := ?lent\<rparr>)" "new_rel be ?ks (\<lambda>v. 0) t1"
    using filter_loop [OF mm iterate_refines [OF rel, of JS_ITERATOR_KIND_KEY] _ _ es w new_empty d, of "length its" keep] sz len
    by (auto simp: nth_append upd all_entries set_keys_def entry_keys_def)
  obtain s2 where s2: "js_map_iterator_finalizer s1 it1 = Some s2" "map_rel be ser (s2, its) (m\<lparr>am_lent := ?lent\<rparr>)"
    using iterator_done [OF s1(2), of "am_iters m"] by auto
  then have "this_rel be its m ?lent s2" by (auto simp: this_rel_def)
  with s1(1,3) s2(1) show ?thesis by (auto simp: filter_has_loop_def set_result_def)
qed

lemma symmetricDifference_result:
  assumes rel: "map_rel be ser (s, its) m" and w: "idle w" and mm: "mem_ok be mm" and sz: "length (set_keys be m) + length elems \<le> 2 ^ 28"
  shows "\<exists>t s' w' ks. js_set_symmetricDifference be mm sl (s, w) = Some (Some t, s', w') \<and>
    new_rel be ks (\<lambda>v. int (count_list (entry_keys m) v)) t \<and>
    map (key_of be) ks = filter (\<lambda>k. k \<notin> key_of be ` set elems) (set_keys be m) @
      filter (\<lambda>k. k \<notin> set (set_keys be m)) (map (key_of be) elems) \<and>
    this_rel be its m (\<lambda>v. am_lent m v + int (count_list (filter (\<lambda>x. key_of be x \<notin> set (set_keys be m)) ks) v)) s'"
proof -
  obtain w1 where w1: "sl_size sl (s, w) = (Some (int (length elems)), s, w1)" "idle w1" using size_law [OF w] by blast
  obtain w2 where w2: "sl_has sl (s, w1) = (True, s, w2)" "idle w2" using has_law [OF w1(2)] by blast
  obtain w3 where w3: "sl_iterate sl (s, w2) = (True, s, w3)" "iterating w3 elems" using iterate_law [OF w2(2)] by blast
  obtain t where t: "copy_records be mm s (records s) (new_map_state False) = Some (True, t)"
    "new_rel be (entry_keys m) (\<lambda>v. int (count_list (entry_keys m) v)) t"
    using copy_this [OF rel mm] sz by (auto simp: set_keys_def)
  from toggle_loop [OF this_relI [OF rel] t(2) w3(2) elems_ok [OF w] distinct_law [OF w] mm sz] w1(1) w2(1) w3(1) t(1)
  show ?thesis by (fastforce simp: js_set_symmetricDifference_def copy_and_loop_def set_result_def)
qed

lemma difference_result:
  assumes rel: "map_rel be ser (s, its) m" and w: "idle w" and mm: "mem_ok be mm" and sz: "length (set_keys be m) \<le> 2 ^ 28"
  shows "\<exists>t s' w' ks. js_set_difference be mm sl (s, w) = Some (Some t, s', w') \<and> new_rel be ks (\<lambda>v. 0) t \<and>
    map (key_of be) ks = filter (\<lambda>k. k \<notin> key_of be ` set elems) (set_keys be m) \<and>
    this_rel be its m (\<lambda>v. am_lent m v + (if length (set_keys be m) > length elems then 0 else int (count_list ks v))) s'"
proof -
  obtain w1 where w1: "set_like_prepare sl (s, w) = (Some (int (length elems)), s, w1)" "idle w1" using prepare [OF w] by blast
  have count: "uint (record_count s) = int (length (set_keys be m))" using set_keys_ok(3) [OF rel] by (metis uint_nat)
  show ?thesis
  proof (cases "length (set_keys be m) > length elems")
    case True
    obtain w2 where w2: "sl_iterate sl (s, w1) = (True, s, w2)" "iterating w2 elems" using iterate_law [OF w1(2)] by blast
    obtain t s1 where t: "clone_set be mm s = Some (Some t, s1)" "new_rel be (entry_keys m) (\<lambda>v. 0) t" "map_rel be ser (s1, its) m"
      using clone_set_ok [OF rel mm sz] by blast
    obtain s2 w3 t2 ks where r: "set_loop (difference_keys_body be sl) ((s1, w2), t) = Some (True, (s2, w3), t2)"
      "this_rel be its m (am_lent m) s2" "new_rel be ks (\<lambda>v. 0) t2"
      "map (key_of be) ks = filter (\<lambda>k. k \<notin> key_of be ` set elems) (map (key_of be) (entry_keys m))"
      using difference_loop [OF this_relI [OF t(3)] t(2) w2(2) elems_ok [OF w]] by blast
    have "js_set_difference be mm sl (s, w) = Some (Some t2, s2, w3)"
      using w1(1) w2(1) t(1) r(1) True count by (simp add: js_set_difference_def set_result_def)
    with r(2-4) True show ?thesis by (intro exI conjI) (simp_all add: set_keys_def)
  next
    case False
    let ?ks = "filter (\<lambda>k. (key_of be k \<in> key_of be ` set elems) = False) (entry_keys m)"
    have "map (key_of be) ?ks = filter (\<lambda>k. k \<notin> key_of be ` set elems) (set_keys be m)" by (simp add: set_keys_def filter_map o_def)
    moreover obtain t s' w' where "filter_has_loop be mm sl False (s, w1) = Some (Some t, s', w')" "new_rel be ?ks (\<lambda>v. 0) t"
      "this_rel be its m (\<lambda>v. am_lent m v + int (count_list ?ks v)) s'" using filter_has_result [OF rel w1(2) mm sz, of False] by blast
    moreover from calculation have "js_set_difference be mm sl (s, w) = Some (Some t, s', w')"
      using w1(1) False count by (simp add: js_set_difference_def)
    ultimately show ?thesis using False by (intro exI conjI) simp_all
  qed
qed

lemma intersection_result:
  assumes rel: "map_rel be ser (s, its) m" and w: "idle w" and mm: "mem_ok be mm" and sz: "length (set_keys be m) \<le> 2 ^ 28" "length elems \<le> 2 ^ 28"
  shows "\<exists>t s' w' ks. js_set_intersection be mm sl (s, w) = Some (Some t, s', w') \<and> new_rel be ks (\<lambda>v. 0) t \<and>
    map (key_of be) ks = (if length (set_keys be m) > length elems
      then filter (\<lambda>k. k \<in> set (set_keys be m)) (map (key_of be) elems)
      else filter (\<lambda>k. k \<in> key_of be ` set elems) (set_keys be m)) \<and>
    this_rel be its m (\<lambda>v. am_lent m v + int (count_list ks v)) s'"
proof -
  obtain w1 where w1: "set_like_prepare sl (s, w) = (Some (int (length elems)), s, w1)" "idle w1" using prepare [OF w] by blast
  have count: "uint (record_count s) = int (length (set_keys be m))" using set_keys_ok(3) [OF rel] by (metis uint_nat)
  show ?thesis
  proof (cases "length (set_keys be m) > length elems")
    case True
    obtain w2 where w2: "sl_iterate sl (s, w1) = (True, s, w2)" "iterating w2 elems" using iterate_law [OF w1(2)] by blast
    obtain s2 w3 t2 ks where r: "set_loop (intersection_keys_body be mm sl) ((s, w2), new_map_state False) = Some (True, (s2, w3), t2)"
      "this_rel be its m (\<lambda>v. am_lent m v + int (count_list ks v)) s2" "new_rel be ks (\<lambda>v. 0) t2"
      "map (key_of be) ks = filter (\<lambda>k. k \<in> set (set_keys be m)) (map (key_of be) elems)"
      using meet_loop [OF this_relI [OF rel] w2(2) elems_ok [OF w] distinct_law [OF w] mm sz(2)] by blast
    have "js_set_intersection be mm sl (s, w) = Some (Some t2, s2, w3)"
      using w1(1) w2(1) r(1) True count by (simp add: js_set_intersection_def set_result_def)
    with r(2-4) True show ?thesis by (intro exI conjI) simp_all
  next
    case False
    let ?ks = "filter (\<lambda>k. (key_of be k \<in> key_of be ` set elems) = True) (entry_keys m)"
    have "map (key_of be) ?ks = filter (\<lambda>k. k \<in> key_of be ` set elems) (set_keys be m)" by (simp add: set_keys_def filter_map o_def)
    moreover obtain t s' w' where "filter_has_loop be mm sl True (s, w1) = Some (Some t, s', w')" "new_rel be ?ks (\<lambda>v. 0) t"
      "this_rel be its m (\<lambda>v. am_lent m v + int (count_list ?ks v)) s'" using filter_has_result [OF rel w1(2) mm sz(1), of True] by blast
    moreover from calculation have "js_set_intersection be mm sl (s, w) = Some (Some t, s', w')"
      using w1(1) False count by (simp add: js_set_intersection_def)
    ultimately show ?thesis using False by (intro exI conjI) simp_all
  qed
qed

end

subsection \<open>A set as the argument\<close>

text \<open>The size, \<open>has\<close> and \<open>keys\<close> of a set: a new iterator is the last of the iterators on it.\<close>

definition set_as_argument :: "bool \<Rightarrow> (map_state \<times> map_iterator list) set_like" where
  "set_as_argument be =
     \<lparr>sl_size = (\<lambda>(s, u, its). (Some (int (unat (js_map_get_size u))), s, u, its)),
      sl_has = (\<lambda>st. (True, st)), sl_keys = (\<lambda>st. (True, st)),
      sl_iterate = (\<lambda>(s, u, its). (True, s, u, its @ [new_map_iterator JS_ITERATOR_KIND_KEY])),
      sl_next = (\<lambda>(s, u, its).
        case iterator_next_values True u (its ! (length its - 1)) of
          None \<Rightarrow> (None, s, u, its)
        | Some (r, u, it) \<Rightarrow> (Some (map_option hd r), s, u, its[length its - 1 := it])),
      sl_call_has = (\<lambda>k (s, u, its). (js_map_has be u k, s, u, its))\<rparr>"

definition set_idle :: "bool \<Rightarrow> js_any list \<Rightarrow> map_state \<times> map_iterator list \<Rightarrow> bool" where
  "set_idle be elems w \<longleftrightarrow> (\<exists>ser m. map_rel be ser w m \<and> entry_keys m = elems)"

definition set_iterating :: "bool \<Rightarrow> map_state \<times> map_iterator list \<Rightarrow> js_any list \<Rightarrow> bool" where
  "set_iterating be w xs \<longleftrightarrow>
     (\<exists>ser m t. map_rel be ser w m \<and> snd w \<noteq> [] \<and> am_iters m ! (length (snd w) - 1) = (JS_ITERATOR_KIND_KEY, At t) \<and>
        keys_of (entries_from t m) = xs)"

lemma keys_of_Nil: "keys_of es = [] \<longleftrightarrow> es = []"
  by (cases es) auto

interpretation set_arg: set_argument be "set_as_argument be" elems "set_idle be elems" "set_iterating be" for be elems
proof unfold_locales
  fix w :: "map_state \<times> map_iterator list" and s :: map_state and x k :: js_any and xs :: "js_any list"
  obtain u its where w: "w = (u, its)" by (cases w)
  {
    assume "set_idle be elems w"
    then obtain ser m where m: "map_rel be ser (u, its) m" "entry_keys m = elems" by (auto simp: set_idle_def w)
    note ok = set_keys_ok [OF m(1)]
    show "\<exists>w'. sl_size (set_as_argument be) (s, w) = (Some (int (length elems)), s, w') \<and> set_idle be elems w'"
    proof -
      have "uint (record_count u) = int (length elems)" using ok(3) m(2) by (metis uint_nat set_keys_def length_map)
      then show ?thesis using \<open>set_idle be elems w\<close> by (auto simp: set_as_argument_def w js_map_get_size_def)
    qed
    show "x \<in> set elems \<Longrightarrow> value_ok x" using ok(2) m(2) by (simp add: key_ok_def)
    show "distinct (map (key_of be) elems)" using ok(1) m(2) by (simp add: set_keys_def)
    show "\<exists>w'. sl_iterate (set_as_argument be) (s, w) = (True, s, w') \<and> set_iterating be w' elems"
    proof -
      have len: "length its = length (am_iters m)" using map_relD(6) [OF m(1)] by simp
      have "keys_of (entries_from 0 (m\<lparr>am_iters := am_iters m @ [(JS_ITERATOR_KIND_KEY, At 0)]\<rparr>)) = elems"
        using all_entries [of m] m(2) by (simp add: entries_from_def)
      then have "set_iterating be (u, its @ [new_map_iterator JS_ITERATOR_KIND_KEY]) elems"
        using iterate_refines [OF m(1), of JS_ITERATOR_KIND_KEY] len unfolding set_iterating_def
        by (intro exI [of _ ser] exI [of _ "m\<lparr>am_iters := am_iters m @ [(JS_ITERATOR_KIND_KEY, At 0)]\<rparr>"] exI [of _ 0]) (simp add: nth_append)
      then show ?thesis by (simp add: set_as_argument_def w)
    qed
    show "value_ok k \<Longrightarrow> \<exists>w'. sl_call_has (set_as_argument be) k (s, w) = (Some (key_of be k \<in> key_of be ` set elems), s, w') \<and> set_idle be elems w'"
    proof -
      assume "value_ok k"
      then obtain r where "map_find_record be u (map_normalize_key k) = Some r" "r \<noteq> None \<longleftrightarrow> key_of be k \<in> set (set_keys be m)"
        using find_keys [OF m(1)] by metis
      with m(2) \<open>set_idle be elems w\<close> show ?thesis by (simp add: set_as_argument_def w js_map_has_def set_keys_def)
    qed
  }
  show "set_idle be elems w \<Longrightarrow> \<exists>w'. sl_has (set_as_argument be) (s, w) = (True, s, w') \<and> set_idle be elems w'"
    "set_idle be elems w \<Longrightarrow> \<exists>w'. sl_keys (set_as_argument be) (s, w) = (True, s, w') \<and> set_idle be elems w'"
    by (simp_all add: set_as_argument_def)
  {
    assume "set_iterating be w (x # xs)"
    then obtain ser m t where m: "map_rel be ser (u, its) m" "its \<noteq> []" "am_iters m ! (length its - 1) = (JS_ITERATOR_KIND_KEY, At t)"
      "keys_of (entries_from t m) = x # xs" by (auto simp: set_iterating_def w)
    obtain t' v es where es: "entries_from t m = (t', x, v) # es" "keys_of es = xs" using m(4) by (cases "entries_from t m") auto
    have len: "length its = length (am_iters m)" using map_relD(6) [OF m(1)] by simp
    have i: "length its - 1 < length its" using m(2) by simp
    obtain u1 it1 where u1: "iterator_next_values True u (its ! (length its - 1)) = Some (Some [x], u1, it1)"
      "map_rel be ser (u1, its[length its - 1 := it1])
        (abs_lend [x] (m\<lparr>am_iters := (am_iters m)[length its - 1 := (JS_ITERATOR_KIND_KEY, At (Suc t'))]\<rparr>))"
      "entries_from (Suc t') (m\<lparr>am_iters := (am_iters m)[length its - 1 := (JS_ITERATOR_KIND_KEY, At (Suc t'))]\<rparr>) = es"
      using next_element [OF m(1) i m(3) es(1)] by metis
    have "set_iterating be (u1, its[length its - 1 := it1]) xs"
      unfolding set_iterating_def using u1(2,3) m(2) es(2) len i
      by (intro exI [of _ ser] exI [of _ "abs_lend [x] (m\<lparr>am_iters := (am_iters m)[length its - 1 := (JS_ITERATOR_KIND_KEY, At (Suc t'))]\<rparr>)"]
          exI [of _ "Suc t'"]) (simp add: abs_lend_def entries_from_def)
    with u1(1) show "\<exists>w'. sl_next (set_as_argument be) (s, w) = (Some (Some x), s, w') \<and> set_iterating be w' xs"
      by (simp add: set_as_argument_def w)
  }
  {
    assume "set_iterating be w []"
    then obtain ser m t where m: "map_rel be ser (u, its) m" "its \<noteq> []" "am_iters m ! (length its - 1) = (JS_ITERATOR_KIND_KEY, At t)"
      "entries_from t m = []" by (auto simp: set_iterating_def w keys_of_Nil)
    have i: "length its - 1 < length its" using m(2) by simp
    from next_end [OF m(1) i m(3,4)] show "\<exists>w'. sl_next (set_as_argument be) (s, w) = (Some None, s, w')"
      by (auto simp: set_as_argument_def w)
  }
qed

subsection \<open>Two sets\<close>

text \<open>Two sets for the examples: the objects at 8 and 16, and the objects at 16 and 24.\<close>

definition example_set_ops :: "u64 \<Rightarrow> u64 \<Rightarrow> map_op list" where
  "example_set_ops x y = [Op_set (Val_object x) Val_undefined (Some 100) no_deaths, Op_set (Val_object y) Val_undefined (Some 200) no_deaths]"

definition example_set_abs :: "u64 \<Rightarrow> u64 \<Rightarrow> abs_map" where
  "example_set_abs x y = \<lparr>am_entries = [(0, Val_object x, Val_undefined), (1, Val_object y, Val_undefined)], am_next = 2, am_iters = [], am_lent = (\<lambda>v. 0)\<rparr>"

lemma example_set:
  assumes "x \<noteq> y"
  shows "\<exists>ser s. run_ops (map_exec False (\<lambda>n. Some 0) True) (example_set_ops x y) (new_map_state False, []) = Some ([Out_ok, Out_ok], s, []) \<and>
    map_rel False ser (s, []) (example_set_abs x y)"
proof -
  have ok: "ops_ok (map_exec False (\<lambda>n. Some 0) True) (\<lambda>op st. slack_ok (\<lambda>n. Some 0) \<and> map_op_ok op st) (example_set_ops x y) (new_map_state False, [])"
    using assms by (simp add: example_set_ops_def map_exec_defs word_le_nat_alt slack_none)
  have spec: "spec_ops (abs_exec False True) (example_set_ops x y) empty_abs_map = ([Out_ok, Out_ok], example_set_abs x y)"
    using assms by (simp add: example_set_ops_def example_set_abs_def abs_set_def abs_lookup_def empty_abs_map_def key_of_def map_normalize_key_def)
  have "\<exists>ser. map_rel False ser (new_map_state False, []) empty_abs_map" using new_map_rel by blast
  from map.run [OF this ok] obtain outs c' m ser where c: "run_ops (map_exec False (\<lambda>n. Some 0) True) (example_set_ops x y) (new_map_state False, []) = Some (outs, c')"
    "spec_run (abs_step False True) (example_set_ops x y) empty_abs_map outs m" "map_rel False ser c' m" by blast
  from abs_run_function [OF c(2)] have "outs = [Out_ok, Out_ok]" "m = example_set_abs x y"
    unfolding spec by (auto simp: example_set_ops_def)
  moreover obtain s its where "c' = (s, its)" by (cases c')
  ultimately have r: "run_ops (map_exec False (\<lambda>n. Some 0) True) (example_set_ops x y) (new_map_state False, []) = Some ([Out_ok, Out_ok], s, its)"
    "map_rel False ser (s, its) (example_set_abs x y)" using c by simp_all
  have "its = []" using map_relD(6) [OF r(2)] by (simp add: example_set_abs_def)
  with r show ?thesis by blast
qed

lemma example_keys: "set_keys False (example_set_abs x y) = [Key_object x, Key_object y]"
  by (simp add: set_keys_def entry_keys_def example_set_abs_def key_of_def)

text \<open>
  C5.  For two sets in any reachable state, iterated over or not, \<open>isDisjointFrom\<close>, \<open>isSubsetOf\<close> and
  \<open>isSupersetOf\<close> return and compute the relations of their sets of keys, whichever of the two they choose to go
  through, and leave the first set as it was, with all references given back.
\<close>

theorem set_relations:
  assumes s: "map_rel be ser (s, its) m" and u: "map_rel be ser' (u, us) n"
  shows "(\<exists>s' w. js_set_isDisjointFrom be (set_as_argument be) (s, u, us) = Some (Some (set (set_keys be m) \<inter> set (set_keys be n) = {}), s', w) \<and>
      map_rel be ser (s', its) m) \<and>
    (\<exists>s' w. js_set_isSubsetOf (set_as_argument be) (s, u, us) = Some (Some (set (set_keys be m) \<subseteq> set (set_keys be n)), s', w) \<and>
      map_rel be ser (s', its) m) \<and>
    (\<exists>s' w. js_set_isSupersetOf be (set_as_argument be) (s, u, us) = Some (Some (set (set_keys be n) \<subseteq> set (set_keys be m)), s', w) \<and>
      map_rel be ser (s', its) m)"
proof -
  have w: "set_idle be (entry_keys n) (u, us)" using u by (auto simp: set_idle_def)
  have n: "set (set_keys be n) = key_of be ` set (entry_keys n)" by (simp add: set_keys_def)
  show ?thesis unfolding n
    using set_arg.isDisjointFrom [OF s w] set_arg.isSubsetOf [OF s w] set_arg.isSupersetOf [OF s w] by blast
qed

theorem set_relations_witness:
  "\<exists>s u s' w. run_ops (map_exec False (\<lambda>n. Some 0) True) (example_set_ops 8 16) (new_map_state False, []) = Some ([Out_ok, Out_ok], s, []) \<and>
    run_ops (map_exec False (\<lambda>n. Some 0) True) (example_set_ops 16 24) (new_map_state False, []) = Some ([Out_ok, Out_ok], u, []) \<and>
    js_set_isDisjointFrom False (set_as_argument False) (s, u, []) = Some (Some False, s', w)"
proof -
  obtain ser s where s: "run_ops (map_exec False (\<lambda>n. Some 0) True) (example_set_ops 8 16) (new_map_state False, []) = Some ([Out_ok, Out_ok], s, [])"
    "map_rel False ser (s, []) (example_set_abs 8 16)" using example_set [of 8 16] by auto
  obtain ser' u where u: "run_ops (map_exec False (\<lambda>n. Some 0) True) (example_set_ops 16 24) (new_map_state False, []) = Some ([Out_ok, Out_ok], u, [])"
    "map_rel False ser' (u, []) (example_set_abs 16 24)" using example_set [of 16 24] by auto
  from set_relations [OF s(2) u(2)] s(1) u(1) show ?thesis by (simp add: example_keys) blast
qed

text \<open>
  C4.  For two sets, \<open>union\<close>, \<open>intersection\<close>, \<open>difference\<close> and \<open>symmetricDifference\<close> return new sets with the right keys,
  in the order of the specification (those of the first set, then those of the second; for the intersection the order of
  the smaller set), and the first set keeps its entries.  The references show leaks: the copy of the first set in
  \<open>union\<close> and \<open>symmetricDifference\<close> takes a second reference to every key (\<open>extra\<close>), and an item that a loop
  adds to the new set is never released (\<open>lent\<close>).
\<close>

theorem set_operations:
  assumes s: "map_rel be ser (s, its) m" and u: "map_rel be ser' (u, us) n" and mm: "mem_ok be mm"
    and sz: "length (set_keys be m) + length (set_keys be n) \<le> 2 ^ 28"
  shows "(\<exists>t s' w ks. js_set_union be mm (set_as_argument be) (s, u, us) = Some (Some t, s', w) \<and>
      new_rel be ks (\<lambda>v. int (count_list (entry_keys m) v)) t \<and>
      map (key_of be) ks = set_keys be m @ filter (\<lambda>k. k \<notin> set (set_keys be m)) (set_keys be n) \<and>
      this_rel be its m (am_lent m) s') \<and>
    (\<exists>t s' w ks. js_set_intersection be mm (set_as_argument be) (s, u, us) = Some (Some t, s', w) \<and>
      new_rel be ks (\<lambda>v. 0) t \<and>
      map (key_of be) ks = (if length (set_keys be m) > length (set_keys be n)
        then filter (\<lambda>k. k \<in> set (set_keys be m)) (set_keys be n) else filter (\<lambda>k. k \<in> set (set_keys be n)) (set_keys be m)) \<and>
      this_rel be its m (\<lambda>v. am_lent m v + int (count_list ks v)) s') \<and>
    (\<exists>t s' w ks. js_set_difference be mm (set_as_argument be) (s, u, us) = Some (Some t, s', w) \<and>
      new_rel be ks (\<lambda>v. 0) t \<and>
      map (key_of be) ks = filter (\<lambda>k. k \<notin> set (set_keys be n)) (set_keys be m) \<and>
      this_rel be its m (\<lambda>v. am_lent m v + (if length (set_keys be m) > length (set_keys be n) then 0 else int (count_list ks v))) s') \<and>
    (\<exists>t s' w ks. js_set_symmetricDifference be mm (set_as_argument be) (s, u, us) = Some (Some t, s', w) \<and>
      new_rel be ks (\<lambda>v. int (count_list (entry_keys m) v)) t \<and>
      map (key_of be) ks = filter (\<lambda>k. k \<notin> set (set_keys be n)) (set_keys be m) @ filter (\<lambda>k. k \<notin> set (set_keys be m)) (set_keys be n) \<and>
      this_rel be its m (\<lambda>v. am_lent m v + int (count_list (filter (\<lambda>x. key_of be x \<notin> set (set_keys be m)) ks) v)) s')"
proof -
  have w: "set_idle be (entry_keys n) (u, us)" using u by (auto simp: set_idle_def)
  have n: "map (key_of be) (entry_keys n) = set_keys be n" "key_of be ` set (entry_keys n) = set (set_keys be n)"
    "length (entry_keys n) = length (set_keys be n)"
    by (simp_all add: set_keys_def)
  have sz': "length (set_keys be m) + length (entry_keys n) \<le> 2 ^ 28" "length (set_keys be m) \<le> 2 ^ 28" "length (entry_keys n) \<le> 2 ^ 28"
    using sz n(3) by simp_all
  note results = set_arg.union_result [OF s w mm sz'(1)] set_arg.intersection_result [OF s w mm sz'(2,3)]
    set_arg.difference_result [OF s w mm sz'(2)] set_arg.symmetricDifference_result [OF s w mm sz'(1)]
  show ?thesis by (intro conjI results [unfolded n])
qed

definition example_memory :: set_memory where
  "example_memory = ((\<lambda>n. Some 0), (\<lambda>t. Some (Suc (foldr max (records t) 0))))"

lemma example_memory_ok: "mem_ok be example_memory"
proof -
  have le: "p \<le> foldr max ps 0" if "p \<in> set ps" for p :: nat and ps using that by (induction ps) (auto simp: le_max_iff_disj)
  have "record_at t (Suc (foldr max (records t) 0)) = None" if "core_ok be t" for t
    using core_okD(3) [OF that, of "Suc (foldr max (records t) 0)"] le [of "Suc (foldr max (records t) 0)" "records t"] by auto
  then show ?thesis by (simp add: mem_ok_def example_memory_def slack_none)
qed

text \<open>The union of the two sets, with a reference to the object at 8 that nobody owns.\<close>

theorem set_operations_witness:
  "\<exists>s u t s' w ks. run_ops (map_exec False (\<lambda>n. Some 0) True) (example_set_ops 8 16) (new_map_state False, []) = Some ([Out_ok, Out_ok], s, []) \<and>
    run_ops (map_exec False (\<lambda>n. Some 0) True) (example_set_ops 16 24) (new_map_state False, []) = Some ([Out_ok, Out_ok], u, []) \<and>
    js_set_union False example_memory (set_as_argument False) (s, u, []) = Some (Some t, s', w) \<and>
    map (key_of False) ks = [Key_object 8, Key_object 16, Key_object 24] \<and>
    (\<exists>extra. new_rel False ks extra t \<and> extra (Val_object 8) = 1)"
proof -
  obtain ser s where s: "run_ops (map_exec False (\<lambda>n. Some 0) True) (example_set_ops 8 16) (new_map_state False, []) = Some ([Out_ok, Out_ok], s, [])"
    "map_rel False ser (s, []) (example_set_abs 8 16)" using example_set [of 8 16] by auto
  obtain ser' u where u: "run_ops (map_exec False (\<lambda>n. Some 0) True) (example_set_ops 16 24) (new_map_state False, []) = Some ([Out_ok, Out_ok], u, [])"
    "map_rel False ser' (u, []) (example_set_abs 16 24)" using example_set [of 16 24] by auto
  have "length (set_keys False (example_set_abs 8 16)) + length (set_keys False (example_set_abs 16 24)) \<le> 2 ^ 28"
    by (simp add: example_keys)
  from set_operations [OF s(2) u(2) example_memory_ok this] obtain t s' w ks where t:
    "js_set_union False example_memory (set_as_argument False) (s, u, []) = Some (Some t, s', w)"
    "new_rel False ks (\<lambda>v. int (count_list (entry_keys (example_set_abs 8 16)) v)) t"
    "map (key_of False) ks = [Key_object 8, Key_object 16, Key_object 24]"
    by (auto simp: example_keys)
  have "int (count_list (entry_keys (example_set_abs 8 16)) (Val_object 8)) = 1"
    by (simp add: entry_keys_def example_set_abs_def)
  then have "\<exists>extra. new_rel False ks extra t \<and> extra (Val_object 8) = 1"
    using t(2) by (intro exI [of _ "\<lambda>v. int (count_list (entry_keys (example_set_abs 8 16)) v)"]) simp
  with s(1) u(1) t(1,3) show ?thesis
    by (intro exI [of _ s] exI [of _ u] exI [of _ t] exI [of _ s'] exI [of _ w] exI [of _ ks] conjI)
qed

subsection \<open>The end of a map\<close>

definition finalize_record :: "nat \<Rightarrow> map_state \<Rightarrow> map_state option" where
  "finalize_record p s = do {
     mr \<leftarrow> record_at s p;
     s \<leftarrow> (if mr_empty mr then Some s
          else do {
            s \<leftarrow> (if is_weak s then delete_map_weak_ref s (mr_key mr) p else Some (release_value s (mr_key mr)));
            Some (release_value s (mr_value mr)) });
     Some (free_record s p) }"

lemma finalizer_fold: "js_map_finalizer s = fold (\<lambda>p r. Option.bind r (finalize_record p)) (records s) (Some s)"
  by (simp add: js_map_finalizer_def finalize_record_def [abs_def])

lemma finalize_records:
  assumes "\<not> is_weak s" "distinct ps" "\<And>p. p \<in> set ps \<Longrightarrow> record_at s p \<noteq> None"
  shows "\<exists>s'. fold (\<lambda>p r. Option.bind r (finalize_record p)) ps (Some s) = Some s' \<and> (\<forall>p \<in> set ps. record_at s' p = None) \<and>
    (\<forall>v. dup_count s' v = dup_count s v - (\<Sum>p \<in> {p \<in> set ps. live s p}. int (count_list [rec_key s p, rec_value s p] v)))"
  using assms
proof (induction ps arbitrary: s)
  case (Cons p ps)
  obtain mr where mr: "record_at s p = Some mr" using Cons.prems(3) [of p] by auto
  define s1 where "s1 = free_record (if mr_empty mr then s else release_value (release_value s (mr_key mr)) (mr_value mr)) p"
  have step: "finalize_record p s = Some s1" using mr Cons.prems(1) by (simp add: finalize_record_def s1_def)
  have s1: "\<not> is_weak s1" "\<And>q. q \<noteq> p \<Longrightarrow> record_at s1 q = record_at s q" "record_at s1 p = None"
    "dup_count s1 v = dup_count s v - (if live s p then int (count_list [rec_key s p, rec_value s p] v) else 0)" for v
    using Cons.prems(1) mr by (simp_all add: s1_def live_def rec_simps)
  have p: "p \<notin> set ps" "distinct ps" using Cons.prems(2) by simp_all
  have "record_at s1 q \<noteq> None" if "q \<in> set ps" for q
  proof -
    have "q \<noteq> p" using that p(1) by blast
    with that s1(2) Cons.prems(3) [of q] show ?thesis by simp
  qed
  from Cons.IH [OF s1(1) p(2) this] obtain s2 where s2: "fold (\<lambda>p r. Option.bind r (finalize_record p)) ps (Some s1) = Some s2"
    "\<forall>p \<in> set ps. record_at s2 p = None"
    "\<And>v. dup_count s2 v = dup_count s1 v - (\<Sum>p \<in> {p \<in> set ps. live s1 p}. int (count_list [rec_key s1 p, rec_value s1 p] v))"
    by blast
  have same: "live s1 q = live s q" "rec_key s1 q = rec_key s q" "rec_value s1 q = rec_value s q" if "q \<in> set ps" for q
  proof -
    have "q \<noteq> p" using that p(1) by blast
    then have "record_at s1 q = record_at s q" by (rule s1(2))
    then show "live s1 q = live s q" "rec_key s1 q = rec_key s q" "rec_value s1 q = rec_value s q"
      by (simp_all add: live_def rec_key_def rec_value_def)
  qed
  have lives: "{q \<in> set ps. live s1 q} = {q \<in> set ps. live s q}" using same(1) by blast
  have sum: "(\<Sum>q \<in> {q \<in> set ps. live s q}. int (count_list [rec_key s1 q, rec_value s1 q] v)) =
      (\<Sum>q \<in> {q \<in> set ps. live s q}. int (count_list [rec_key s q, rec_value s q] v))" for v
    by (rule held_same) (use same in blast)
  show ?case
  proof (intro exI [of _ s2] conjI allI)
    show "fold (\<lambda>p r. Option.bind r (finalize_record p)) (p # ps) (Some s) = Some s2" using step s2(1) by simp
    have "record_at s2 p = None"
    proof -
      have "fold (\<lambda>p r. Option.bind r (finalize_record p)) qs (Some a) = Some b \<Longrightarrow> record_at a p = None \<Longrightarrow> record_at b p = None"
        for qs a b
      proof (induction qs arbitrary: a)
        case (Cons q qs)
        have none: "fold (\<lambda>p r. Option.bind r (finalize_record p)) qs None = None" for qs by (induction qs) simp_all
        with Cons.prems(1) obtain c where c: "finalize_record q a = Some c" by (cases "finalize_record q a") auto
        then have "record_at c p = None" using Cons.prems(2)
          by (auto simp: finalize_record_def delete_map_weak_ref_def bind_eq_Some_conv split: if_splits)
        with Cons c show ?case by simp
      qed simp
      with s2(1) s1(3) show ?thesis by blast
    qed
    with s2(2) show "\<forall>q \<in> set (p # ps). record_at s2 q = None" by simp
    fix v
    have "{q \<in> set (p # ps). live s q} = (if live s p then insert p {q \<in> set ps. live s q} else {q \<in> set ps. live s q})" by auto
    with p(1) s1(4) [of v] s2(3) [of v] show "dup_count s2 v =
        dup_count s v - (\<Sum>p \<in> {q \<in> set (p # ps). live s q}. int (count_list [rec_key s p, rec_value s p] v))"
      unfolding lives sum by (simp del: count_list.simps)
  qed
qed simp

lemma map_finalizer_releases:
  assumes "map_rel be ser (s, its) m"
  shows "\<exists>s'. js_map_finalizer s = Some s' \<and> (\<forall>p. record_at s' p = None \<or> p \<notin> set (records s)) \<and> dup_count s' = am_lent m"
proof -
  note r = map_relD [OF assms]
  obtain s' where s': "js_map_finalizer s = Some s'" "\<forall>p \<in> set (records s). record_at s' p = None"
    "\<And>v. dup_count s' v = dup_count s v - (\<Sum>p \<in> {p \<in> set (records s). live s p}. int (count_list [rec_key s p, rec_value s p] v))"
    using finalize_records [OF core_okD(1,2) [OF r(1)]] core_okD(3) [OF r(1)] unfolding finalizer_fold by blast
  have "{p \<in> set (records s). live s p} = set (live_records s)" by (auto simp: live_records_def)
  then have "dup_count s' v = am_lent m v" for v using s'(3) [of v] r(7) [of v] by (simp add: held_def del: count_list.simps)
  with s'(1,2) show ?thesis by (auto simp: fun_eq_iff)
qed

end
