(* ===== verification/Js_Shape.thy ===== *)
theory Js_Shape
  imports Prelude
begin

section \<open>Shapes and own properties\<close>

text \<open>
  The properties of an object (src/quickjs/quickjs.c): a shape holds the names and flags, with a hash table
  threaded through its array, and the object holds the values in the same order.  Shapes are shared:
  objects that got the same properties in the same order have the same shape, which they find in the hash table of
  the runtime (\<open>shape_table\<close>).  A shape and an object are addresses.  The hash table in front of a shape is
  the list \<open>prop_hash\<close> of indices plus one, 0 is the end of a chain; \<open>prop_list\<close> are the
  \<open>prop_count\<close> first entries of the array \<open>prop\<close>, and \<open>shape_table\<close> the lists that \<open>shape_hash_next\<close> links.
  The value of a property is any \<open>'v\<close>, \<open>None\<close> for one that is not initialized.  \<open>atom_refs\<close> and \<open>proto_refs\<close>
  count the references to atoms and prototypes that the shapes take, \<open>released\<close> lists the calls of
  \<open>free_property\<close>.  The results of the allocator are arguments.
\<close>

subsection \<open>State\<close>

abbreviation (input) "JS_ATOM_NULL \<equiv> 0 :: u32"
abbreviation (input) "JS_PROP_CONFIGURABLE \<equiv> 1 :: nat"
abbreviation (input) "JS_PROP_INITIAL_SIZE \<equiv> 2 :: nat"
abbreviation (input) "JS_PROP_INITIAL_HASH_SIZE \<equiv> 4 :: nat"

record shape_property =
  pr_hash_next :: nat
  pr_flags :: nat
  pr_atom :: u32

record prop_shape =
  shape_ref_count :: int
  is_hashed :: bool
  has_small_array_index :: bool
  shape_hash_value :: u32
  prop_hash :: "nat list"
  prop_size :: nat
  prop_list :: "shape_property list"
  deleted_prop_count :: nat
  shape_proto :: u64

record 'v prop_object =
  obj_shape :: nat
  obj_prop :: "'v option list"

record 'v shape_state =
  shape_at :: "nat \<Rightarrow> prop_shape option"
  object_at :: "nat \<Rightarrow> 'v prop_object option"
  shape_table :: "nat list list"
  shape_hash_bits :: nat
  shape_hash_count :: int
  atom_refs :: "u32 \<Rightarrow> int"
  proto_refs :: "u64 \<Rightarrow> int"
  released :: "('v option \<times> nat) list"

definition put_shape :: "'v shape_state \<Rightarrow> nat \<Rightarrow> prop_shape \<Rightarrow> 'v shape_state" where
  "put_shape s a sh = s\<lparr>shape_at := (shape_at s)(a \<mapsto> sh)\<rparr>"

definition put_object :: "'v shape_state \<Rightarrow> nat \<Rightarrow> 'v prop_object \<Rightarrow> 'v shape_state" where
  "put_object s p ob = s\<lparr>object_at := (object_at s)(p \<mapsto> ob)\<rparr>"

text \<open>\<open>JS_DupAtom\<close>, \<open>JS_FreeAtom\<close>, and the reference to the prototype.\<close>

definition count_atom :: "int \<Rightarrow> u32 \<Rightarrow> 'v shape_state \<Rightarrow> 'v shape_state" where
  "count_atom d a s = s\<lparr>atom_refs := (atom_refs s)(a := atom_refs s a + d)\<rparr>"

definition count_proto :: "int \<Rightarrow> u64 \<Rightarrow> 'v shape_state \<Rightarrow> 'v shape_state" where
  "count_proto d proto s = (if proto = 0 then s else s\<lparr>proto_refs := (proto_refs s)(proto := proto_refs s proto + d)\<rparr>)"

subsection \<open>The table of shapes\<close>

definition shape_hash :: "u32 \<Rightarrow> u32 \<Rightarrow> u32" where
  "shape_hash h val = (h + val) * 0x9e370001"

definition get_shape_hash :: "u32 \<Rightarrow> nat \<Rightarrow> nat" where
  "get_shape_hash h hash_bits = unat (drop_bit (32 - hash_bits) h)"

definition shape_initial_hash :: "u64 \<Rightarrow> u32" where
  "shape_initial_hash proto = (let h = shape_hash 1 (ucast proto) in shape_hash h (ucast (drop_bit 32 proto)))"

definition init_shape_hash :: "bool \<Rightarrow> 'v shape_state \<Rightarrow> bool \<times> 'v shape_state" where
  "init_shape_hash mem s =
     (let s = s\<lparr>shape_hash_bits := 4, shape_hash_count := 0\<rparr> in
      if mem then (True, s\<lparr>shape_table := replicate 16 []\<rparr>) else (False, s))"

primrec rehash_shapes :: "'v shape_state \<Rightarrow> nat \<Rightarrow> nat list \<Rightarrow> nat list list \<Rightarrow> nat list list option" where
  "rehash_shapes s hash_bits [] table = Some table"
| "rehash_shapes s hash_bits (a # as) table = do {
     sh \<leftarrow> shape_at s a;
     let h = get_shape_hash (shape_hash_value sh) hash_bits;
     b \<leftarrow> mem_get table h;
     table \<leftarrow> mem_set table h (a # b);
     rehash_shapes s hash_bits as table }"

definition resize_shape_hash :: "bool \<Rightarrow> 'v shape_state \<Rightarrow> nat \<Rightarrow> (bool \<times> 'v shape_state) option" where
  "resize_shape_hash mem s new_bits =
     (if \<not> mem then Some (False, s)
      else do {
        table \<leftarrow> rehash_shapes s new_bits (concat (shape_table s)) (replicate (2 ^ new_bits) []);
        Some (True, s\<lparr>shape_hash_bits := new_bits, shape_table := table\<rparr>) })"

definition js_shape_hash_link :: "'v shape_state \<Rightarrow> nat \<Rightarrow> 'v shape_state option" where
  "js_shape_hash_link s a = do {
     sh \<leftarrow> shape_at s a;
     let h = get_shape_hash (shape_hash_value sh) (shape_hash_bits s);
     b \<leftarrow> mem_get (shape_table s) h;
     table \<leftarrow> mem_set (shape_table s) h (a # b);
     Some (s\<lparr>shape_table := table, shape_hash_count := shape_hash_count s + 1\<rparr>) }"

definition js_shape_hash_unlink :: "'v shape_state \<Rightarrow> nat \<Rightarrow> 'v shape_state option" where
  "js_shape_hash_unlink s a = do {
     sh \<leftarrow> shape_at s a;
     let h = get_shape_hash (shape_hash_value sh) (shape_hash_bits s);
     b \<leftarrow> mem_get (shape_table s) h;
     if a \<notin> set b then None
     else do {
       table \<leftarrow> mem_set (shape_table s) h (remove1 a b);
       Some (s\<lparr>shape_table := table, shape_hash_count := shape_hash_count s - 1\<rparr>) } }"

text \<open>The first shape of a list with the given prototype and properties; atoms and flags are compared one by one.\<close>

definition same_properties :: "shape_property list \<Rightarrow> (u32 \<times> nat) list \<Rightarrow> bool" where
  "same_properties prs ps \<longleftrightarrow> map (\<lambda>pr. (pr_atom pr, pr_flags pr)) prs = ps"

primrec find_shape :: "'v shape_state \<Rightarrow> u32 \<Rightarrow> u64 \<Rightarrow> (u32 \<times> nat) list \<Rightarrow> nat list \<Rightarrow> nat option option" where
  "find_shape s h proto ps [] = Some None"
| "find_shape s h proto ps (a # as) = do {
     sh1 \<leftarrow> shape_at s a;
     if shape_hash_value sh1 = h \<and> shape_proto sh1 = proto \<and> same_properties (prop_list sh1) ps then Some (Some a)
     else find_shape s h proto ps as }"

definition find_hashed_shape_proto :: "'v shape_state \<Rightarrow> u64 \<Rightarrow> nat option option" where
  "find_hashed_shape_proto s proto = do {
     let h = shape_initial_hash proto;
     b \<leftarrow> mem_get (shape_table s) (get_shape_hash h (shape_hash_bits s));
     find_shape s h proto [] b }"

definition find_hashed_shape_prop :: "'v shape_state \<Rightarrow> prop_shape \<Rightarrow> u32 \<Rightarrow> nat \<Rightarrow> nat option option" where
  "find_hashed_shape_prop s sh atom flags = do {
     let h = shape_hash (shape_hash (shape_hash_value sh) atom) (of_nat flags);
     b \<leftarrow> mem_get (shape_table s) (get_shape_hash h (shape_hash_bits s));
     find_shape s h (shape_proto sh) (map (\<lambda>pr. (pr_atom pr, pr_flags pr)) (prop_list sh) @ [(atom, flags)]) b }"

subsection \<open>Making and freeing shapes\<close>

definition js_new_shape2 ::
    "bool \<Rightarrow> nat option \<Rightarrow> 'v shape_state \<Rightarrow> u64 \<Rightarrow> nat \<Rightarrow> nat \<Rightarrow> (nat option \<times> 'v shape_state) option" where
  "js_new_shape2 table_mem mem s proto hash_size n = do {
     s \<leftarrow> (if 2 * (shape_hash_count s + 1) > int (length (shape_table s))
          then map_option snd (resize_shape_hash table_mem s (shape_hash_bits s + 1)) else Some s);
     case mem of
       None \<Rightarrow> Some (None, s)
     | Some a \<Rightarrow> do {
         let s = count_proto 1 proto s;
         let sh = \<lparr>shape_ref_count = 1, is_hashed = True, has_small_array_index = False,
                   shape_hash_value = shape_initial_hash proto, prop_hash = replicate hash_size 0, prop_size = n,
                   prop_list = [], deleted_prop_count = 0, shape_proto = proto\<rparr>;
         s \<leftarrow> js_shape_hash_link (put_shape s a sh) a;
         Some (Some a, s) } }"

definition js_new_shape :: "bool \<Rightarrow> nat option \<Rightarrow> 'v shape_state \<Rightarrow> u64 \<Rightarrow> (nat option \<times> 'v shape_state) option" where
  "js_new_shape table_mem mem s proto = js_new_shape2 table_mem mem s proto JS_PROP_INITIAL_HASH_SIZE JS_PROP_INITIAL_SIZE"

definition js_clone_shape :: "nat option \<Rightarrow> 'v shape_state \<Rightarrow> nat \<Rightarrow> (nat option \<times> 'v shape_state) option" where
  "js_clone_shape mem s a1 = do {
     sh1 \<leftarrow> shape_at s a1;
     case mem of
       None \<Rightarrow> Some (None, s)
     | Some a \<Rightarrow> do {
         let s = put_shape s a (sh1\<lparr>shape_ref_count := 1, is_hashed := False\<rparr>);
         let s = count_proto 1 (shape_proto sh1) s;
         let s = fold (\<lambda>pr s. count_atom 1 (pr_atom pr) s) (prop_list sh1) s;
         Some (Some a, s) } }"

definition js_dup_shape :: "'v shape_state \<Rightarrow> nat \<Rightarrow> 'v shape_state option" where
  "js_dup_shape s a = do { sh \<leftarrow> shape_at s a; Some (put_shape s a (sh\<lparr>shape_ref_count := shape_ref_count sh + 1\<rparr>)) }"

definition js_free_prop_shape0 :: "'v shape_state \<Rightarrow> nat \<Rightarrow> 'v shape_state option" where
  "js_free_prop_shape0 s a = do {
     sh \<leftarrow> shape_at s a;
     if shape_ref_count sh \<noteq> 0 then None
     else do {
       s \<leftarrow> (if is_hashed sh then js_shape_hash_unlink s a else Some s);
       let s = count_proto (- 1) (shape_proto sh) s;
       let s = fold (\<lambda>pr s. count_atom (- 1) (pr_atom pr) s) (prop_list sh) s;
       Some (s\<lparr>shape_at := (shape_at s)(a := None)\<rparr>) } }"

definition js_free_prop_shape :: "'v shape_state \<Rightarrow> nat \<Rightarrow> 'v shape_state option" where
  "js_free_prop_shape s a = do {
     sh \<leftarrow> shape_at s a;
     let s = put_shape s a (sh\<lparr>shape_ref_count := shape_ref_count sh - 1\<rparr>);
     if shape_ref_count sh - 1 \<le> 0 then js_free_prop_shape0 s a else Some s }"

subsection \<open>Finding a property\<close>

definition prop_bucket :: "nat list \<Rightarrow> u32 \<Rightarrow> nat" where
  "prop_bucket table atom = unat (atom AND of_nat (length table - 1))"

partial_function (option) find_prop_loop :: "shape_property list \<Rightarrow> u32 \<Rightarrow> nat \<Rightarrow> nat option \<Rightarrow> (nat \<times> nat option) option option" where
  "find_prop_loop prs atom h lpr =
     (if h = 0 then Some None
      else do {
        pr \<leftarrow> mem_get prs (h - 1);
        if pr_atom pr = atom then Some (Some (h - 1, lpr))
        else find_prop_loop prs atom (pr_hash_next pr) (Some (h - 1)) })"

text \<open>The index of the property, with the index of its predecessor in the chain.\<close>

definition find_prop :: "prop_shape \<Rightarrow> u32 \<Rightarrow> (nat \<times> nat option) option option" where
  "find_prop sh atom = do {
     h \<leftarrow> mem_get (prop_hash sh) (prop_bucket (prop_hash sh) atom);
     find_prop_loop (prop_list sh) atom h None }"

definition find_own_property1 :: "'v shape_state \<Rightarrow> nat \<Rightarrow> u32 \<Rightarrow> nat option option" where
  "find_own_property1 s p atom = do {
     ob \<leftarrow> object_at s p;
     sh \<leftarrow> shape_at s (obj_shape ob);
     found \<leftarrow> find_prop sh atom;
     Some (map_option fst found) }"

text \<open>The flags and the value.\<close>

definition find_own_property :: "'v shape_state \<Rightarrow> nat \<Rightarrow> u32 \<Rightarrow> (nat \<times> 'v option) option option" where
  "find_own_property s p atom = do {
     ob \<leftarrow> object_at s p;
     sh \<leftarrow> shape_at s (obj_shape ob);
     found \<leftarrow> find_prop sh atom;
     case found of
       None \<Rightarrow> Some None
     | Some (i, lpr) \<Rightarrow> do {
         pr \<leftarrow> mem_get (prop_list sh) i;
         v \<leftarrow> mem_get (obj_prop ob) i;
         Some (Some (pr_flags pr, v)) } }"

subsection \<open>The arrays of properties\<close>

text \<open>What the allocator returns in one operation: for the table of shapes, for a cloned shape, for the values,
  for a shape with a new hash table, and for a shape that is only resized, which may stay where it is.\<close>

record shape_memory =
  sm_clone :: "nat option"
  sm_values :: bool
  sm_rehash :: "nat option"
  sm_resize :: "nat \<Rightarrow> nat option"
  sm_compact :: "nat option"

definition realloc_values :: "nat \<Rightarrow> 'v option list \<Rightarrow> 'v option list" where
  "realloc_values n vs = take n vs @ replicate (n - length vs) None"

text \<open>The field \<open>hash_next\<close> has 26 bits.\<close>

primrec link_props :: "nat \<Rightarrow> shape_property list \<Rightarrow> nat list \<Rightarrow> (shape_property list \<times> nat list) option" where
  "link_props i [] table = Some ([], table)"
| "link_props i (pr # prs) table =
     (if pr_atom pr \<noteq> JS_ATOM_NULL then do {
        let h = prop_bucket table (pr_atom pr);
        old \<leftarrow> mem_get table h;
        table \<leftarrow> mem_set table h (Suc i);
        (prs, table) \<leftarrow> link_props (Suc i) prs table;
        Some (pr\<lparr>pr_hash_next := old mod 2 ^ 26\<rparr> # prs, table) }
      else do {
        (prs, table) \<leftarrow> link_props (Suc i) prs table;
        Some (pr # prs, table) })"

function double_until :: "nat \<Rightarrow> nat \<Rightarrow> nat" where
  "double_until n m = (if n < m \<and> 0 < n then double_until (2 * n) m else n)"
  by pat_completeness auto
termination by (relation "measure (\<lambda>(n, m). m - n)") auto

function halve_until :: "nat \<Rightarrow> nat \<Rightarrow> nat" where
  "halve_until n m = (if n div 2 \<ge> m \<and> 0 < m then halve_until (n div 2) m else n)"
  by pat_completeness auto
termination by (relation "measure fst") auto

declare double_until.simps [simp del] halve_until.simps [simp del]

definition move_shape :: "'v shape_state \<Rightarrow> nat \<Rightarrow> nat \<Rightarrow> prop_shape \<Rightarrow> 'v shape_state" where
  "move_shape s a a' sh = s\<lparr>shape_at := (shape_at s)(a := None, a' \<mapsto> sh)\<rparr>"

text \<open>\<open>False\<close> is a failed allocation.  The shape of the object \<open>p\<close> may move.\<close>

definition resize_properties :: "shape_memory \<Rightarrow> 'v shape_state \<Rightarrow> nat \<Rightarrow> nat \<Rightarrow> (bool \<times> 'v shape_state) option" where
  "resize_properties sm s p count = do {
     ob \<leftarrow> object_at s p;
     let a = obj_shape ob;
     sh \<leftarrow> shape_at s a;
     let new_size = max count (prop_size sh * 3 div 2);
     if \<not> sm_values sm then Some (False, s)
     else do {
       let ob = ob\<lparr>obj_prop := realloc_values new_size (obj_prop ob)\<rparr>;
       let s = put_object s p ob;
       let hash_size = length (prop_hash sh);
       let new_hash_size = double_until hash_size new_size;
       if new_hash_size \<noteq> hash_size then
         (case sm_rehash sm of
            None \<Rightarrow> Some (False, s)
          | Some a' \<Rightarrow> do {
              (prs, table) \<leftarrow> link_props 0 (prop_list sh) (replicate new_hash_size 0);
              let s = move_shape s a a' (sh\<lparr>prop_hash := table, prop_list := prs, prop_size := new_size\<rparr>);
              Some (True, put_object s p (ob\<lparr>obj_shape := a'\<rparr>)) })
       else
         (case sm_resize sm a of
            None \<Rightarrow> Some (False, s)
          | Some a' \<Rightarrow>
              let s = move_shape s a a' (sh\<lparr>prop_size := new_size\<rparr>) in
              Some (True, put_object s p (ob\<lparr>obj_shape := a'\<rparr>))) } }"

text \<open>The loop of \<open>compact_properties\<close>: entry \<open>i\<close> goes to \<open>j\<close>; \<open>out\<close> are the new entries.\<close>

primrec compact_loop ::
    "nat \<Rightarrow> shape_property list \<Rightarrow> shape_property list \<Rightarrow> nat list \<Rightarrow> 'v option list \<Rightarrow>
      (shape_property list \<times> nat list \<times> 'v option list) option" where
  "compact_loop i [] out table vs = Some (out, table, vs)"
| "compact_loop i (pr # prs) out table vs =
     (if pr_atom pr \<noteq> JS_ATOM_NULL then do {
        let h = prop_bucket table (pr_atom pr);
        old \<leftarrow> mem_get table h;
        table \<leftarrow> mem_set table h (Suc (length out));
        v \<leftarrow> mem_get vs i;
        vs \<leftarrow> mem_set vs (length out) v;
        compact_loop (Suc i) prs (out @ [pr\<lparr>pr_hash_next := old mod 2 ^ 26\<rparr>]) table vs }
      else compact_loop (Suc i) prs out table vs)"

definition compact_properties :: "shape_memory \<Rightarrow> 'v shape_state \<Rightarrow> nat \<Rightarrow> (bool \<times> 'v shape_state) option" where
  "compact_properties sm s p = do {
     ob \<leftarrow> object_at s p;
     let a = obj_shape ob;
     sh \<leftarrow> shape_at s a;
     let new_size = max JS_PROP_INITIAL_SIZE (length (prop_list sh) - deleted_prop_count sh);
     if is_hashed sh \<or> new_size > prop_size sh then None
     else do {
       let new_hash_size = halve_until (length (prop_hash sh)) new_size;
       case sm_compact sm of
         None \<Rightarrow> Some (False, s)
       | Some a' \<Rightarrow> do {
           (prs, table, vs) \<leftarrow> compact_loop 0 (prop_list sh) [] (replicate new_hash_size 0) (obj_prop ob);
           if length prs \<noteq> length (prop_list sh) - deleted_prop_count sh then None
           else do {
             let sh = sh\<lparr>prop_hash := table, prop_list := prs, prop_size := new_size, deleted_prop_count := 0\<rparr>;
             let vs = (if sm_values sm then realloc_values new_size vs else vs);
             Some (True, put_object (move_shape s a a' sh) p (ob\<lparr>obj_shape := a', obj_prop := vs\<rparr>)) } } } }"

subsection \<open>Adding a property\<close>

definition add_shape_property :: "shape_memory \<Rightarrow> 'v shape_state \<Rightarrow> nat \<Rightarrow> u32 \<Rightarrow> nat \<Rightarrow> (bool \<times> 'v shape_state) option" where
  "add_shape_property sm s p atom flags = do {
     ob \<leftarrow> object_at s p;
     sh \<leftarrow> shape_at s (obj_shape ob);
     let new_hash = shape_hash (shape_hash (shape_hash_value sh) atom) (of_nat flags);
     s \<leftarrow> (if is_hashed sh then js_shape_hash_unlink s (obj_shape ob) else Some s);
     (ok, s) \<leftarrow> (if length (prop_list sh) \<ge> prop_size sh then resize_properties sm s p (length (prop_list sh) + 1) else Some (True, s));
     if \<not> ok then do {
       s \<leftarrow> (if is_hashed sh then js_shape_hash_link s (obj_shape ob) else Some s);
       Some (False, s) }
     else do {
       ob \<leftarrow> object_at s p;
       let a = obj_shape ob;
       sh \<leftarrow> shape_at s a;
       s \<leftarrow> (if is_hashed sh then js_shape_hash_link (put_shape s a (sh\<lparr>shape_hash_value := new_hash\<rparr>)) a else Some s);
       sh \<leftarrow> shape_at s a;
       let s = count_atom 1 atom s;
       let h = prop_bucket (prop_hash sh) atom;
       old \<leftarrow> mem_get (prop_hash sh) h;
       table \<leftarrow> mem_set (prop_hash sh) h (length (prop_list sh) + 1);
       let pr = \<lparr>pr_hash_next = old mod 2 ^ 26, pr_flags = flags mod 2 ^ 6, pr_atom = atom\<rparr>;
       Some (True, put_shape s a (sh\<lparr>prop_list := prop_list sh @ [pr], prop_hash := table,
         has_small_array_index := (has_small_array_index sh \<or> bit atom 31)\<rparr>)) } }"

text \<open>The result is the index of the new property, whose value is set by the caller.\<close>

definition add_property :: "shape_memory \<Rightarrow> 'v shape_state \<Rightarrow> nat \<Rightarrow> u32 \<Rightarrow> nat \<Rightarrow> (nat option \<times> 'v shape_state) option" where
  "add_property sm s p atom flags = do {
     ob \<leftarrow> object_at s p;
     sh \<leftarrow> shape_at s (obj_shape ob);
     found \<leftarrow> (if is_hashed sh then find_hashed_shape_prop s sh atom flags else Some None);
     case found of
       Some a' \<Rightarrow> do {
         new_sh \<leftarrow> shape_at s a';
         if prop_size new_sh \<noteq> prop_size sh \<and> \<not> sm_values sm then Some (None, s)
         else do {
           let vs = (if prop_size new_sh \<noteq> prop_size sh then realloc_values (prop_size new_sh) (obj_prop ob) else obj_prop ob);
           s \<leftarrow> js_dup_shape (put_object s p \<lparr>obj_shape = a', obj_prop = vs\<rparr>) a';
           s \<leftarrow> js_free_prop_shape s (obj_shape ob);
           Some (Some (length (prop_list new_sh) - 1), s) } }
     | None \<Rightarrow> do {
         (ok, s) \<leftarrow> (if is_hashed sh \<and> shape_ref_count sh \<noteq> 1 then do {
                      (new_sh, s) \<leftarrow> js_clone_shape (sm_clone sm) s (obj_shape ob);
                      case new_sh of
                        None \<Rightarrow> Some (False, s)
                      | Some a' \<Rightarrow> do {
                          sh1 \<leftarrow> shape_at s a';
                          s \<leftarrow> js_shape_hash_link (put_shape s a' (sh1\<lparr>is_hashed := True\<rparr>)) a';
                          s \<leftarrow> js_free_prop_shape s (obj_shape ob);
                          Some (True, put_object s p (ob\<lparr>obj_shape := a'\<rparr>)) } }
                    else Some (True, s));
         if \<not> ok then Some (None, s)
         else do {
           ob \<leftarrow> object_at s p;
           sh \<leftarrow> shape_at s (obj_shape ob);
           if shape_ref_count sh \<noteq> 1 then None
           else do {
             (ok, s) \<leftarrow> add_shape_property sm s p atom flags;
             if \<not> ok then Some (None, s)
             else do {
               ob \<leftarrow> object_at s p;
               sh \<leftarrow> shape_at s (obj_shape ob);
               Some (Some (length (prop_list sh) - 1), s) } } } } }"

definition set_property_value :: "'v shape_state \<Rightarrow> nat \<Rightarrow> nat \<Rightarrow> 'v \<Rightarrow> 'v shape_state option" where
  "set_property_value s p i v = do {
     ob \<leftarrow> object_at s p;
     vs \<leftarrow> mem_set (obj_prop ob) i (Some v);
     Some (put_object s p (ob\<lparr>obj_prop := vs\<rparr>)) }"

subsection \<open>Changing and deleting\<close>

definition js_shape_prepare_update :: "shape_memory \<Rightarrow> 'v shape_state \<Rightarrow> nat \<Rightarrow> (bool \<times> 'v shape_state) option" where
  "js_shape_prepare_update sm s p = do {
     ob \<leftarrow> object_at s p;
     let a = obj_shape ob;
     sh \<leftarrow> shape_at s a;
     if is_hashed sh then
       if shape_ref_count sh \<noteq> 1 then do {
         (new_sh, s) \<leftarrow> js_clone_shape (sm_clone sm) s a;
         case new_sh of
           None \<Rightarrow> Some (False, s)
         | Some a' \<Rightarrow> do {
             s \<leftarrow> js_free_prop_shape s a;
             Some (True, put_object s p (ob\<lparr>obj_shape := a'\<rparr>)) } }
       else do {
         s \<leftarrow> js_shape_hash_unlink s a;
         Some (True, put_shape s a (sh\<lparr>is_hashed := False\<rparr>)) }
     else Some (True, s) }"

definition js_update_property_flags :: "shape_memory \<Rightarrow> 'v shape_state \<Rightarrow> nat \<Rightarrow> nat \<Rightarrow> nat \<Rightarrow> (bool \<times> 'v shape_state) option" where
  "js_update_property_flags sm s p i flags = do {
     ob \<leftarrow> object_at s p;
     sh \<leftarrow> shape_at s (obj_shape ob);
     pr \<leftarrow> mem_get (prop_list sh) i;
     if flags = pr_flags pr then Some (True, s)
     else do {
       (ok, s) \<leftarrow> js_shape_prepare_update sm s p;
       if \<not> ok then Some (False, s)
       else do {
         ob \<leftarrow> object_at s p;
         sh \<leftarrow> shape_at s (obj_shape ob);
         pr \<leftarrow> mem_get (prop_list sh) i;
         prs \<leftarrow> mem_set (prop_list sh) i (pr\<lparr>pr_flags := flags mod 2 ^ 6\<rparr>);
         Some (True, put_shape s (obj_shape ob) (sh\<lparr>prop_list := prs\<rparr>)) } } }"

text \<open>Takes the entry \<open>pr\<close> of \<open>atom\<close> out of its chain.\<close>

definition unlink_prop :: "prop_shape \<Rightarrow> u32 \<Rightarrow> nat option \<Rightarrow> shape_property \<Rightarrow> prop_shape option" where
  "unlink_prop sh atom lpr pr =
     (case lpr of
        Some l \<Rightarrow> do {
          lp \<leftarrow> mem_get (prop_list sh) l;
          prs \<leftarrow> mem_set (prop_list sh) l (lp\<lparr>pr_hash_next := pr_hash_next pr\<rparr>);
          Some (sh\<lparr>prop_list := prs\<rparr>) }
      | None \<Rightarrow> do {
          table \<leftarrow> mem_set (prop_hash sh) (prop_bucket (prop_hash sh) atom) (pr_hash_next pr);
          Some (sh\<lparr>prop_hash := table\<rparr>) })"

text \<open>For an object that is not exotic; the result \<open>None\<close> is a failed allocation.\<close>

definition delete_property :: "shape_memory \<Rightarrow> 'v shape_state \<Rightarrow> nat \<Rightarrow> u32 \<Rightarrow> (bool option \<times> 'v shape_state) option" where
  "delete_property sm s p atom = do {
     ob \<leftarrow> object_at s p;
     sh \<leftarrow> shape_at s (obj_shape ob);
     found \<leftarrow> find_prop sh atom;
     case found of
       None \<Rightarrow> Some (Some True, s)
     | Some (i, lpr) \<Rightarrow> do {
         pr \<leftarrow> mem_get (prop_list sh) i;
         if even (pr_flags pr) then Some (Some False, s)
         else do {
           (ok, s) \<leftarrow> js_shape_prepare_update sm s p;
           if \<not> ok then Some (None, s)
           else do {
             ob \<leftarrow> object_at s p;
             let a = obj_shape ob;
             sh \<leftarrow> shape_at s a;
             pr \<leftarrow> mem_get (prop_list sh) i;
             sh \<leftarrow> unlink_prop sh atom lpr pr;
             v \<leftarrow> mem_get (obj_prop ob) i;
             let s = count_atom (- 1) (pr_atom pr) (s\<lparr>released := released s @ [(v, pr_flags pr)]\<rparr>);
             prs \<leftarrow> mem_set (prop_list sh) i (pr\<lparr>pr_flags := 0, pr_atom := JS_ATOM_NULL\<rparr>);
             let sh = sh\<lparr>prop_list := prs, deleted_prop_count := deleted_prop_count sh + 1\<rparr>;
             vs \<leftarrow> mem_set (obj_prop ob) i None;
             let s = put_object (put_shape s a sh) p (ob\<lparr>obj_prop := vs\<rparr>);
             (ok, s) \<leftarrow> (if deleted_prop_count sh \<ge> 8 \<and> deleted_prop_count sh \<ge> length (prop_list sh) div 2
                        then compact_properties sm s p else Some (True, s));
             Some (Some True, s) } } } }"

subsection \<open>Objects\<close>

text \<open>\<open>JS_NewObjectProtoClass\<close> with the part of \<open>JS_NewObjectFromShape\<close> that is common to all classes: \<open>mem\<close> is the
  object and \<open>values\<close> whether its array of values can be allocated.\<close>

definition JS_NewObjectFromShape :: "nat option \<Rightarrow> bool \<Rightarrow> 'v shape_state \<Rightarrow> nat \<Rightarrow> (nat option \<times> 'v shape_state) option" where
  "JS_NewObjectFromShape mem values s a = do {
     sh \<leftarrow> shape_at s a;
     case mem of
       Some p \<Rightarrow>
         if values then Some (Some p, put_object s p \<lparr>obj_shape = a, obj_prop = replicate (prop_size sh) None\<rparr>)
         else map_option (\<lambda>s. (None, s)) (js_free_prop_shape s a)
     | None \<Rightarrow> map_option (\<lambda>s. (None, s)) (js_free_prop_shape s a) }"

definition JS_NewObjectProtoClass ::
    "bool \<Rightarrow> nat option \<Rightarrow> nat option \<Rightarrow> bool \<Rightarrow> 'v shape_state \<Rightarrow> u64 \<Rightarrow> (nat option \<times> 'v shape_state) option" where
  "JS_NewObjectProtoClass table_mem shape_mem mem values s proto = do {
     found \<leftarrow> find_hashed_shape_proto s proto;
     (sh, s) \<leftarrow> (case found of
                  Some a \<Rightarrow> do { s \<leftarrow> js_dup_shape s a; Some (Some a, s) }
                | None \<Rightarrow> js_new_shape table_mem shape_mem s proto);
     case sh of
       None \<Rightarrow> Some (None, s)
     | Some a \<Rightarrow> JS_NewObjectFromShape mem values s a }"

text \<open>The part of \<open>free_object\<close> that frees the properties and the shape.\<close>

definition free_object_properties :: "'v shape_state \<Rightarrow> nat \<Rightarrow> 'v shape_state option" where
  "free_object_properties s p = do {
     ob \<leftarrow> object_at s p;
     sh \<leftarrow> shape_at s (obj_shape ob);
     if length (obj_prop ob) < length (prop_list sh) then None
     else do {
       let s = s\<lparr>released := released s @ zip (obj_prop ob) (map pr_flags (prop_list sh)), object_at := (object_at s)(p := None)\<rparr>;
       js_free_prop_shape s (obj_shape ob) } }"

end
