(* ===== verification/Spec2Isabelle.thy ===== *)
theory Spec2Isabelle
  imports Cstring Bytes Alloc Dynbuf Utf8 Utf8_Buf Js_String Js_String_Ops String_Buffer Js_String_Utf8 Itoa Rqsort Char_Range Limbs Regex_Safety List_Head Gc Gc_Class Gc_Free Gc_Run Js_Value Js_Map_Refine Js_Set_Spec Js_Shape
begin

section \<open>The QuickJS core of breeze-js\<close>

text \<open>
  breeze-js embeds a copy of the QuickJS engine (\<open>src/quickjs/\<close>) in a host program
  (\<open>src/breeze-js/\<close>).  This library models the part of the engine that carries its own data
  structures and algorithms, in C: the utility layer \<open>cutils.c\<close> and \<open>headers/breeze-js/cutils.h\<close>,
  the strings, the allocator accounting, the cycle collector and the maps of \<open>quickjs.c\<close>, the
  character ranges of \<open>libunicode.c\<close>, the executor of \<open>libregexp.c\<close> and the limb arithmetic of \<open>libbf.c\<close>.

  \<^bold>\<open>Conventions.\<close>  A block of memory is a list of its cells, read and written by \<open>mem_get\<close>,
  \<open>mem_set\<close>, \<open>mem_read\<close> and \<open>mem_write\<close> (theory Prelude), which are \<open>None\<close> outside the block;
  a failed assertion, a call of \<open>abort\<close> and an access outside its object are all \<open>None\<close> (in the
  executor: \<open>Stuck\<close>).  So a theorem whose conclusion is \<open>= Some \<dots>\<close> also shows that the code makes
  no invalid access.  Machine integers are words of their width; the code's \<open>int\<close> values are
  \<open>int\<close> where the code bounds them, and a signed overflow is \<open>None\<close> or an explicit truncation
  \<open>to_int\<close>.  Pointers into a block are indices.  The C allocator is not modelled: every function
  that allocates takes the callbacks it uses as arguments, and a theorem states what it needs of
  them.  Loops whose end needs an argument about the data are \<open>partial_function (option)\<close> or have
  fuel, and termination is part of what is proved.

  \<^bold>\<open>Utility layer\<close>
  \<^item> Cstring: \<open>js__pstrcpy\<close>, \<open>js__pstrcat\<close>, \<open>js__strstart\<close>, \<open>js__has_suffix\<close>.
  \<^item> Bytes: byte order, unaligned access (\<open>get_u32\<close>, \<open>put_u32\<close> and the others), byte swaps, bit
    scans and hexadecimal digits of \<open>cutils.h\<close>.
  \<^item> Dynbuf: the growing byte buffer \<open>DynBuf\<close>; the locale of its allocator, and what each
    \<open>dbuf_\<close> operation does to the contents and to the error flag.
  \<^item> Utf8, Utf8_Buf: \<open>utf8_encode\<close>, \<open>utf8_decode\<close> and the buffer conversions to and from 8-bit and
    16-bit units, with \<open>utf8_scan\<close>.
  \<^item> Itoa: the decimal and radix conversions \<open>u32toa\<close> to \<open>i64toa_radix\<close>, over tables of digits.
  \<^item> Exchange, Rqsort: the element exchange functions for every size and alignment, and \<open>rqsort\<close>
    with its explicit stack, pivot choice, partition, insertion sort and heap sort.

  \<^bold>\<open>Engine\<close>
  \<^item> Alloc: \<open>js_malloc_rt\<close> and the others, with the counters of \<open>JSMallocState\<close>; the invariant is
    proved for every sequence of operations.
  \<^item> Js_String, Js_String_Ops: \<open>JSString\<close> as a header and a payload of bytes, which holds 8-bit or
    16-bit units; comparison, hashing, search, substrings, trimming, surrogates.
  \<^item> String_Buffer: \<open>StringBuffer\<close>, with growth, the widening in place and the error state.
  \<^item> Js_String_Utf8: \<open>JS_NewStringLen\<close> and \<open>JS_ToCStringLen2\<close>, which put the decoder, the strings and the
    string buffers together.

  \<^item> List_Head: the circular lists of \<open>list.h\<close>, whose operations refine insertion and deletion in a
    sequence.  The theories below take such a list as a HOL list.

  \<^bold>\<open>Reference counts and cycles\<close>
  \<^item> Gc: the header of a collected object, the children that \<open>mark_children\<close> visits for every kind of object, and
    the three passes \<open>gc_decref\<close>, \<open>gc_scan\<close>, \<open>gc_free_cycles\<close>; the first two find exactly the
    unreachable objects.
  \<^item> Gc_Class: the finalizers and mark functions of the classes, as tables indexed by the class.
  \<^item> Gc_Free: \<open>JS_FreeValueRT\<close>, the queue of \<open>gc_zero_ref_count_list\<close> and the finalizers on a heap of counted objects; the
    invariant that counts are at least the references that are left, and what one release frees.
  \<^item> Gc_Run: \<open>JS_RunGC\<close> as a whole: nothing reachable is touched and everything else is freed.

  \<^bold>\<open>Values and maps\<close>
  \<^item> Js_Value: values with their tags, \<open>js_strict_eq2\<close> in its three modes (with the comparison of big
    numbers), \<open>map_normalize_key\<close> and \<open>map_hash_key\<close>, and the canonical form of a value that decides both.
  \<^item> Js_Map: \<open>JSMapState\<close> and \<open>JSMapRecord\<close>: the list of records in the order of insertion, the hash table of lists
    of records and its growth, the methods of \<open>Map\<close> and \<open>Set\<close> (and what \<open>WeakMap\<close> and \<open>WeakSet\<close> share with
    them), iterators, which lock the record they stand on, and \<open>forEach\<close>.  A release of a key or value may be the last
    one of iterators of the map: which ones it ends is an argument \<open>dies\<close>, and their finalizers run there.
  \<^item> Js_Map_Spec: the invariant of the table and the records; every operation on records keeps it.
  \<^item> Js_Map_Refine: an ordered association list with iterators as the specification, and the refinement of every
    operation and every run, with the count of the references to keys and values and the iterators that releases end.
    A call of \<open>clear\<close> is excluded when its releases may end an iterator that stands on a deleted record:
    \<open>map_clear_use_after_free\<close> shows that the code can then read a freed record.  The bound of
    2 ^ 28 entries keeps the sizes of the table in 32 bits.
  \<^item> Js_Set, Js_Set_Spec: the constructor, the finalizer and the set methods from \<open>isDisjointFrom\<close> to \<open>union\<close>, over an argument
    whose calls are parameters; for an argument that behaves like a set they compute the set
    relations and operations, and the count of references shows which ones are never given back.

  \<^bold>\<open>Character ranges\<close> (Char_Range): \<open>CharRange\<close> as a sorted array of points in a block; the set
  operations \<open>cr_op\<close>, \<open>cr_invert\<close>, \<open>cr_union_interval\<close> and \<open>cr_sort_and_remove_overlap\<close> (which
  calls \<open>rqsort\<close>) refine the operations on sets of characters.

  \<^bold>\<open>Regular expressions\<close> (Regex_Exec, Regex_Safety): the byte code, \<open>lre_exec_backtrack\<close> with its
  explicit stack of saved states, and \<open>lre_exec\<close>.  \<open>re_step\<close> is one instruction, \<open>unwind\<close> the loop at
  \<open>recurse\<close>, \<open>exec\<close> the loop around them and \<open>quant_loop\<close> the recursive use by the simple greedy
  quantifier.  A step takes a unit of fuel, and running out of fuel is a result of its own
  (\<open>Out_of_fuel\<close>): the code may run forever on code such as an empty loop.  A type system for byte
  code (stack depths at every instruction) gives safety for any input and any fuel, and the loop
  of the simple quantifier is shown to return.  The function \<open>lre_canonicalize\<close> and the callback
  \<open>lre_realloc\<close> are arguments.

  \<^bold>\<open>Big numbers\<close> (Limbs): the arithmetic on arrays of limbs of \<open>libbf.c\<close>, up to schoolbook products and
  the division of Knuth's algorithm D with a precomputed inverse.  Several arrays may lie in one
  memory and overlap as the code allows.

  \<^bold>\<open>How the parts rest on each other.\<close>  The locales name the contracts: the allocator of a buffer
  (Dynbuf), the reallocation of strings (Js_String), the comparison and the exchange functions of
  the sort (Exchange, Rqsort), the laws of the finalizers (Gc_Class), the simulation of one state machine by another
  (Simulation), the argument of a set method (Js_Set_Spec); each is interpreted on the definitions that provide it.

  \<^bold>\<open>Not modelled.\<close>  The compiler and the interpreter of JavaScript, atoms, prototype
  chains, getters and exotic objects, the inline caches, and the builtins beyond strings and maps; of the collector, the release of the last reference to a context and the
  suspended frames of asynchronous functions; of the maps, the death of a weak key and serialisation; the parser and compiler of regular expressions; the Unicode tables
  (generated data) and the functions that only walk them; the floating-point layer, the FFT and
  the subquadratic division of \<open>libbf.c\<close>; wrappers of the operating system (clock, threads,
  directories); the host program and its bindings, which are C++ around the engine.
\<close>

end
